(* ===== verification/Prelude.thy ===== *)
theory Prelude
  imports Main "HOL-Library.Word" "HOL-Library.Multiset"
begin

text \<open>
  The prelude of the development: the results of C code that can fail, checked array
  accesses, a byte-addressed memory with little-endian 32-bit cells, and the list and word
  lemmas that the component theories share. The collection \<open>c_defs\<close> holds the unfolding
  equations of the small C idioms (checked reads and writes, result binding), so that a
  component proof says \<open>simp add: c_defs\<close>; \<open>mem_simps\<close> holds the read-over-write laws of
  the byte memory.
\<close>

unbundle bit_operations_syntax

named_theorems c_defs \<open>unfolding equations of C idioms\<close>
named_theorems mem_simps \<open>read-over-write laws of the byte memory\<close>

section \<open>Results of C code\<close>

text \<open>
  The ways a modelled function stops without returning: a failed \<^verbatim>\<open>assert\<close>, a call of the
  kernel's \<^verbatim>\<open>panic\<close>, an access outside an object (undefined behaviour in C), a use of a null
  pointer and the use of a value that the code never computed (falling off the end of a
  non-void function, reading an uninitialised variable), and waiting for a lock that the waiting
  process holds itself.
\<close>

datatype c_error =
    AssertFailed
  | Panic string
  | OutOfBounds
  | NullDeref
  | Undefined
  | Deadlock

type_synonym 'a res = "c_error + 'a"

definition bind_res :: "'a res \<Rightarrow> ('a \<Rightarrow> 'b res) \<Rightarrow> 'b res" where
  "bind_res m f = (case m of Inl e \<Rightarrow> Inl e | Inr x \<Rightarrow> f x)"

lemma bind_res_simps [simp]:
  "bind_res (Inl e) f = Inl e"
  "bind_res (Inr x) f = f x"
  by (simp_all add: bind_res_def)

lemma bind_res_eq_Inr:
  "bind_res m f = Inr y \<longleftrightarrow> (\<exists>x. m = Inr x \<and> f x = Inr y)"
  by (cases m) auto

lemma bind_res_cong [fundef_cong]:
  "m = m' \<Longrightarrow> (\<And>x. m' = Inr x \<Longrightarrow> f x = g x) \<Longrightarrow> bind_res m f = bind_res m' g"
  by (cases m') auto

section \<open>Checked array accesses\<close>

text \<open>
  A C array with its bounds made explicit: \<open>rd xs i\<close> is \<^verbatim>\<open>xs[i]\<close> and \<open>wr xs i v\<close> is
  \<^verbatim>\<open>xs[i] = v\<close>, where an index outside the object is the error \<open>OutOfBounds\<close>. Indices are
  integers, as in the code, where they may be negative.
\<close>

definition rd :: "'a list \<Rightarrow> int \<Rightarrow> 'a res" where
  "rd xs i = (if 0 \<le> i \<and> i < int (length xs) then Inr (xs ! nat i) else Inl OutOfBounds)"

definition wr :: "'a list \<Rightarrow> int \<Rightarrow> 'a \<Rightarrow> 'a list res" where
  "wr xs i v =
     (if 0 \<le> i \<and> i < int (length xs) then Inr (xs[nat i := v]) else Inl OutOfBounds)"

declare rd_def [c_defs] wr_def [c_defs]

lemma rd_in [simp]: "0 \<le> i \<Longrightarrow> i < int (length xs) \<Longrightarrow> rd xs i = Inr (xs ! nat i)"
  by (simp add: rd_def)

lemma wr_in [simp]: "0 \<le> i \<Longrightarrow> i < int (length xs) \<Longrightarrow> wr xs i v = Inr (xs[nat i := v])"
  by (simp add: wr_def)

lemma rd_InrD: "rd xs i = Inr v \<Longrightarrow> 0 \<le> i \<and> i < int (length xs) \<and> v = xs ! nat i"
  by (simp add: rd_def split: if_splits)

lemma wr_InrD: "wr xs i v = Inr ys \<Longrightarrow> 0 \<le> i \<and> i < int (length xs) \<and> ys = xs[nat i := v]"
  by (simp add: wr_def split: if_splits)

section \<open>List lemmas\<close>

lemma mset_swap_list:
  assumes "i < length xs" and "j < length xs"
  shows "mset (xs[i := xs ! j, j := xs ! i]) = mset xs"
  using assms by (simp add: mset_swap)

lemma find_upt_iff: "find P [0..<n] = Some i \<longleftrightarrow> i < n \<and> P i \<and> (\<forall>j<i. \<not> P j)"
proof
  assume "i < n \<and> P i \<and> (\<forall>j<i. \<not> P j)"
  then show "find P [0..<n] = Some i" by (auto simp: find_Some_iff intro!: exI [of _ i])
qed (auto simp: find_Some_iff)

lemma find_upt: "P i \<Longrightarrow> i < n \<Longrightarrow> (\<And>k. k < i \<Longrightarrow> \<not> P k) \<Longrightarrow> find P [0..<n] = Some i"
  by (simp add: find_upt_iff)

lemma takeWhile_nth_stop:
  "length (takeWhile P xs) < length xs \<Longrightarrow> \<not> P (xs ! length (takeWhile P xs))"
  by (rule nth_length_takeWhile)

lemma sorted_wrt_append_le:
  fixes xs :: "'a::linorder list"
  assumes "sorted xs" and "sorted ys" and "\<forall>x\<in>set xs. \<forall>y\<in>set ys. x \<le> y"
  shows "sorted (xs @ ys)"
  using assms by (simp add: sorted_append)

section \<open>C strings and standard input\<close>

text \<open>
  The string that starts a buffer is the part before its first NUL. \<^verbatim>\<open>fgets(buf, n, f)\<close>
  delivers at most \<open>n - 1\<close> characters and stops after a newline; \<open>fgets\<close> returns what it
  delivers and what is left of the stream.
\<close>

definition cstr :: "string \<Rightarrow> string" where
  "cstr s = takeWhile (\<lambda>c. c \<noteq> CHR 0x00) s"

fun fgets_go :: "nat \<Rightarrow> string \<Rightarrow> string \<times> string" where
  "fgets_go 0 s = ([], s)"
| "fgets_go (Suc k) [] = ([], [])"
| "fgets_go (Suc k) (c # s) =
     (if c = CHR 0x0A then ([c], s)
      else let (line, rest) = fgets_go k s in (c # line, rest))"

definition fgets :: "nat \<Rightarrow> string \<Rightarrow> string \<times> string" where
  "fgets n s = fgets_go (n - 1) s"

lemma fgets_go_append: "fgets_go k s = (line, rest) \<Longrightarrow> line @ rest = s"
  by (induction k s arbitrary: line rest rule: fgets_go.induct) (auto split: if_splits prod.splits)

lemma fgets_append: "fgets n s = (line, rest) \<Longrightarrow> line @ rest = s"
  unfolding fgets_def by (rule fgets_go_append)

lemma fgets_shorter:
  assumes "fgets n s = (line, rest)" and "s \<noteq> []" and "2 \<le> n"
  shows "length rest < length s"
proof -
  obtain c t where s: "s = c # t" using assms(2) by (cases s) auto
  obtain k where "n - 1 = Suc k" using assms(3) by (cases "n - 1") auto
  then show ?thesis using assms(1) s fgets_go_append [of k t]
    by (auto simp: fgets_def split: if_splits prod.splits)
qed

section \<open>Byte memory\<close>

text \<open>
  A memory is a function from addresses (offsets into the mapped region) to bytes; a 32-bit
  cell is stored with its least significant byte first, as the x86 targets of the code do.
\<close>

type_synonym mem = "nat \<Rightarrow> 8 word"

definition load32 :: "mem \<Rightarrow> nat \<Rightarrow> 32 word" where
  "load32 m a =
     ucast (m a) OR push_bit 8 (ucast (m (a + 1)))
     OR push_bit 16 (ucast (m (a + 2))) OR push_bit 24 (ucast (m (a + 3)))"

definition store32 :: "mem \<Rightarrow> nat \<Rightarrow> 32 word \<Rightarrow> mem" where
  "store32 m a w =
     m(a := ucast w, a + 1 := ucast (drop_bit 8 w),
       a + 2 := ucast (drop_bit 16 w), a + 3 := ucast (drop_bit 24 w))"

fun write_bytes :: "mem \<Rightarrow> nat \<Rightarrow> 8 word list \<Rightarrow> mem" where
  "write_bytes m a [] = m"
| "write_bytes m a (b # bs) = write_bytes (m(a := b)) (a + 1) bs"

definition read_bytes :: "mem \<Rightarrow> nat \<Rightarrow> nat \<Rightarrow> 8 word list" where
  "read_bytes m a n = map m [a..<a + n]"

lemma bytes_of_word32:
  fixes w :: "32 word"
  shows "ucast (ucast w :: 8 word) OR push_bit 8 (ucast (ucast (drop_bit 8 w) :: 8 word))
    OR push_bit 16 (ucast (ucast (drop_bit 16 w) :: 8 word))
    OR push_bit 24 (ucast (ucast (drop_bit 24 w) :: 8 word)) = w"
proof (rule bit_word_eqI)
  fix n :: nat
  assume n: "n < LENGTH(32)"
  consider "n < 8" | "8 \<le> n" "n < 16" | "16 \<le> n" "n < 24" | "24 \<le> n"
    by linarith
  then show "bit (ucast (ucast w :: 8 word) OR push_bit 8 (ucast (ucast (drop_bit 8 w) :: 8 word))
    OR push_bit 16 (ucast (ucast (drop_bit 16 w) :: 8 word))
    OR push_bit 24 (ucast (ucast (drop_bit 24 w) :: 8 word)) :: 32 word) n = bit w n"
    by cases (use n in \<open>auto simp: bit_simps\<close>)
qed

lemma load32_store32_same [mem_simps]: "load32 (store32 m a w) a = w"
  by (simp add: load32_def store32_def bytes_of_word32)

lemma load32_store32_other [mem_simps]:
  "a + 4 \<le> b \<or> b + 4 \<le> a \<Longrightarrow> load32 (store32 m a w) b = load32 m b"
  by (auto simp: load32_def store32_def)

lemma store32_other [mem_simps]: "b < a \<or> a + 4 \<le> b \<Longrightarrow> store32 m a w b = m b"
  by (auto simp: store32_def)

lemma write_bytes_other [mem_simps]:
  "b < a \<or> a + length bs \<le> b \<Longrightarrow> write_bytes m a bs b = m b"
  by (induction m a bs rule: write_bytes.induct) auto

lemma write_bytes_in [mem_simps]:
  "a \<le> b \<Longrightarrow> b < a + length bs \<Longrightarrow> write_bytes m a bs b = bs ! (b - a)"
proof (induction bs arbitrary: m a)
  case (Cons c bs)
  then show ?case by (cases "b = a") (simp_all add: write_bytes_other nth_Cons')
qed simp

lemma read_write_bytes [mem_simps]: "read_bytes (write_bytes m a bs) a (length bs) = bs"
  by (rule nth_equalityI) (simp_all add: read_bytes_def write_bytes_in)

lemma length_read_bytes [simp]: "length (read_bytes m a n) = n"
  by (simp add: read_bytes_def)

lemma load32_cong:
  "(\<And>i. i < 4 \<Longrightarrow> m (a + i) = m' (a + i)) \<Longrightarrow> load32 m a = load32 m' a"
proof -
  assume eq: "\<And>i. i < 4 \<Longrightarrow> m (a + i) = m' (a + i)"
  show ?thesis
    using eq [of 0] eq [of 1] eq [of 2] eq [of 3] by (simp add: load32_def)
qed

text \<open>16-bit cells, least significant byte first.\<close>

definition load16 :: "mem \<Rightarrow> nat \<Rightarrow> 16 word" where
  "load16 m a = ucast (m a) OR push_bit 8 (ucast (m (a + 1)))"

definition store16 :: "mem \<Rightarrow> nat \<Rightarrow> 16 word \<Rightarrow> mem" where
  "store16 m a w = m(a := ucast w, a + 1 := ucast (drop_bit 8 w))"

lemma load16_store16_same [mem_simps]: "load16 (store16 m a w) a = w"
proof -
  have "ucast (ucast w :: 8 word) OR push_bit 8 (ucast (ucast (drop_bit 8 w) :: 8 word)) = w"
    by (rule bit_word_eqI) (auto simp: bit_simps)
  then show ?thesis by (simp add: load16_def store16_def)
qed

lemma load16_store16_other [mem_simps]:
  "a + 2 \<le> b \<or> b + 2 \<le> a \<Longrightarrow> load16 (store16 m a w) b = load16 m b"
  by (auto simp: load16_def store16_def)

lemma load16_store32_other [mem_simps]:
  "a + 4 \<le> b \<or> b + 2 \<le> a \<Longrightarrow> load16 (store32 m a w) b = load16 m b"
  by (auto simp: load16_def store32_def)

lemma load32_store16_other [mem_simps]:
  "a + 2 \<le> b \<or> b + 4 \<le> a \<Longrightarrow> load32 (store16 m a w) b = load32 m b"
  by (auto simp: load32_def store16_def)

lemma store16_other [mem_simps]: "b < a \<or> a + 2 \<le> b \<Longrightarrow> store16 m a w b = m b"
  by (auto simp: store16_def)

section \<open>Bitmaps in memory\<close>

text \<open>
  The bit numbered \<open>i\<close> of a bitmap at the start of a memory: bit \<open>i mod 8\<close> of byte \<open>i div 8\<close>,
  tested, set and cleared with a one-bit mask as the code does.
\<close>

definition mem_bit :: "mem \<Rightarrow> nat \<Rightarrow> bool" where
  "mem_bit m i \<longleftrightarrow> bit (m (i div 8)) (i mod 8)"

lemma mask_test: "w AND push_bit k 1 = 0 \<longleftrightarrow> \<not> bit w k" if "k < 8" for w :: "8 word"
proof
  assume "w AND push_bit k 1 = 0"
  then have "\<not> bit (w AND push_bit k 1) k" by simp
  then show "\<not> bit w k" using that by (simp add: bit_simps)
next
  assume "\<not> bit w k"
  then show "w AND push_bit k 1 = 0" by (intro bit_word_eqI) (auto simp: bit_simps)
qed

lemma bit_set_mask: "bit (w OR push_bit k 1) j \<longleftrightarrow> bit w j \<or> j = k" if "k < 8" for w :: "8 word"
  using that by (auto simp: bit_simps)

lemma bit_clear_mask: "bit (w AND NOT (push_bit k 1)) j \<longleftrightarrow> bit w j \<and> j \<noteq> k" for w :: "8 word"
  by (auto simp: bit_simps bit_imp_le_length) (auto dest: bit_imp_le_length)

lemma mem_bit_set:
  "mem_bit (m(i div 8 := m (i div 8) OR push_bit (i mod 8) 1)) j \<longleftrightarrow> mem_bit m j \<or> j = i"
proof -
  have "j = i" if "j div 8 = i div 8" "j mod 8 = i mod 8" using that by (metis div_mult_mod_eq)
  then show ?thesis by (auto simp: mem_bit_def bit_set_mask simp del: push_bit_of_1)
qed

lemma mem_bit_clear:
  "mem_bit (m(i div 8 := m (i div 8) AND NOT (push_bit (i mod 8) 1))) j \<longleftrightarrow> mem_bit m j \<and> j \<noteq> i"
proof -
  have "j = i" if "j div 8 = i div 8" "j mod 8 = i mod 8" using that by (metis div_mult_mod_eq)
  then show ?thesis by (auto simp: mem_bit_def bit_clear_mask simp del: push_bit_of_1)
qed

lemma mem_bit_test: "m (i div 8) AND push_bit (i mod 8) 1 = 0 \<longleftrightarrow> \<not> mem_bit m i"
  by (simp add: mem_bit_def mask_test del: push_bit_of_1)

end
