(* ===== verification/Quicksort.thy ===== *)
theory Quicksort
  imports Prelude
begin

text \<open>
  The quicksort program of \<^verbatim>\<open>hw03/starter-hw03/quicksort.c\<close>. The array of \<^verbatim>\<open>long\<close> is a list of
  integers, every access goes through the checked \<open>rd\<close> and \<open>wr\<close>, and indices are integers
  as in the code. The main results say that the in-place sort never leaves the array, and
  that it permutes and sorts exactly the segment it is given.
\<close>

section \<open>The code\<close>

definition swap :: "int list \<Rightarrow> int \<Rightarrow> int \<Rightarrow> int list res" where
  "swap xs ii jj =
     (if ii \<noteq> jj
      then bind_res (rd xs ii) (\<lambda>tmp. bind_res (rd xs jj) (\<lambda>v.
           bind_res (wr xs ii v) (\<lambda>ys. wr ys jj tmp)))
      else Inr xs)"

text \<open>The loop of \<^verbatim>\<open>partition\<close>: it returns the array and the final \<^verbatim>\<open>ii\<close>.\<close>

function partition_loop ::
  "int list \<Rightarrow> int \<Rightarrow> int \<Rightarrow> int \<Rightarrow> int \<Rightarrow> (int list \<times> int) res" where
  "partition_loop xs pivot ii jj hi =
     (if jj < hi - 1
      then bind_res (rd xs jj) (\<lambda>v.
           if v < pivot
           then bind_res (swap xs ii jj) (\<lambda>ys. partition_loop ys pivot (ii + 1) (jj + 1) hi)
           else partition_loop xs pivot ii (jj + 1) hi)
      else Inr (xs, ii))"
  by pat_completeness auto
termination
  by (relation "measure (\<lambda>(xs, pivot, ii, jj, hi). nat (hi - jj))") auto

declare partition_loop.simps [simp del]

definition partition :: "int list \<Rightarrow> int \<Rightarrow> int \<Rightarrow> (int list \<times> int) res" where
  "partition xs lo hi =
     bind_res (rd xs (hi - 1)) (\<lambda>pivot.
     bind_res (partition_loop xs pivot lo lo hi) (\<lambda>(ys, ii).
     bind_res (swap ys ii (hi - 1)) (\<lambda>zs. Inr (zs, ii))))"

lemma partition_loop_range:
  "partition_loop xs pivot ii jj hi = Inr (ys, pp) \<Longrightarrow> ii \<le> jj \<Longrightarrow> jj \<le> hi - 1 \<Longrightarrow>
   ii \<le> pp \<and> pp \<le> hi - 1"
proof (induction xs pivot ii jj hi rule: partition_loop.induct)
  case (1 xs pivot ii jj hi)
  show ?case
  proof (cases "jj < hi - 1")
    case True
    with "1.prems" obtain v where v: "rd xs jj = Inr v"
      by (auto simp: partition_loop.simps [of xs] bind_res_eq_Inr)
    show ?thesis
    proof (cases "v < pivot")
      case v_less: True
      with "1.prems" True v obtain zs where "swap xs ii jj = Inr zs"
        "partition_loop zs pivot (ii + 1) (jj + 1) hi = Inr (ys, pp)"
        by (auto simp: partition_loop.simps [of xs] bind_res_eq_Inr)
      with "1.IH"(1) [OF True v v_less] "1.prems" True show ?thesis by fastforce
    next
      case False
      with "1.prems" True v have "partition_loop xs pivot ii (jj + 1) hi = Inr (ys, pp)"
        by (auto simp: partition_loop.simps [of xs])
      with "1.IH"(2) [OF True v False] "1.prems" True show ?thesis by fastforce
    qed
  next
    case False
    with "1.prems" show ?thesis by (auto simp: partition_loop.simps [of xs])
  qed
qed

lemma partition_range:
  assumes "partition xs lo hi = Inr (ys, pp)" and "lo < hi"
  shows "lo \<le> pp \<and> pp < hi"
proof -
  from assms(1) obtain pivot zs where "partition_loop xs pivot lo lo hi = Inr (zs, pp)"
    by (auto simp: partition_def bind_res_eq_Inr)
  from partition_loop_range [OF this] assms(2) show ?thesis by simp
qed

function quicksort :: "int list \<Rightarrow> int \<Rightarrow> int \<Rightarrow> int list res" where
  "quicksort xs lo hi =
     (if hi - lo < 1 then Inr xs
      else bind_res (partition xs lo hi) (\<lambda>(ys, pp).
           bind_res (quicksort ys lo pp) (\<lambda>zs. quicksort zs (pp + 1) hi)))"
  by pat_completeness auto
termination
proof (relation "measure (\<lambda>(xs, lo, hi). nat (hi - lo))", goal_cases)
  case (2 xs lo hi x ys pp)
  then show ?case using partition_range [of xs lo hi ys pp] by auto
next
  case (3 xs lo hi x ys pp zs)
  then show ?case using partition_range [of xs lo hi ys pp] by auto
qed simp

declare quicksort.simps [simp del]

text \<open>
  The program: the standard input is the list of what successive \<^verbatim>\<open>scanf("%ld")\<close> calls
  would deliver (\<open>None\<close> where no number can be read; the end of the list is the end of
  the input). The outcome is what is printed, and the exit status.
\<close>

datatype qs_out = BadInput | Printed int "int list"

definition read_int :: "int option list \<Rightarrow> (int \<times> int option list) option" where
  "read_int inp = (case inp of Some n # rest \<Rightarrow> Some (n, rest) | _ \<Rightarrow> None)"

fun read_array :: "nat \<Rightarrow> int option list \<Rightarrow> int list option" where
  "read_array 0 inp = Some []"
| "read_array (Suc k) inp =
     (case read_int inp of
        None \<Rightarrow> None
      | Some (n, rest) \<Rightarrow> map_option ((#) n) (read_array k rest))"

definition quicksort_main :: "int option list \<Rightarrow> qs_out res" where
  "quicksort_main inp =
     (case read_int inp of
        None \<Rightarrow> Inr BadInput
      | Some (nn, rest) \<Rightarrow>
          (case read_array (nat nn) rest of
             None \<Rightarrow> Inr BadInput
           | Some xs \<Rightarrow> bind_res (quicksort xs 0 nn) (\<lambda>ys. Inr (Printed nn ys))))"

section \<open>Correctness\<close>

text \<open>
  The part of the array between two indices, and agreement of two arrays outside it: what a
  sorting step may change.
\<close>

definition seg :: "int list \<Rightarrow> int \<Rightarrow> int \<Rightarrow> int list" where
  "seg xs lo hi = take (nat (hi - lo)) (drop (nat lo) xs)"

definition outside_eq :: "int list \<Rightarrow> int list \<Rightarrow> int \<Rightarrow> int \<Rightarrow> bool" where
  "outside_eq xs ys lo hi \<longleftrightarrow>
     length xs = length ys \<and>
     (\<forall>k < length xs. int k < lo \<or> hi \<le> int k \<longrightarrow> xs ! k = ys ! k)"

definition perm_in :: "int list \<Rightarrow> int list \<Rightarrow> int \<Rightarrow> int \<Rightarrow> bool" where
  "perm_in xs ys lo hi \<longleftrightarrow> mset xs = mset ys \<and> outside_eq xs ys lo hi"

lemma perm_in_refl [simp]: "perm_in xs xs lo hi"
  by (simp add: perm_in_def outside_eq_def)

lemma perm_in_trans:
  assumes "perm_in xs ys lo hi" and "perm_in ys zs lo' hi'" and "lo \<le> lo'" and "hi' \<le> hi"
  shows "perm_in xs zs lo hi"
  using assms unfolding perm_in_def outside_eq_def by auto

lemma perm_in_length: "perm_in xs ys lo hi \<Longrightarrow> length ys = length xs"
  by (simp add: perm_in_def outside_eq_def)

lemma perm_in_outside:
  "perm_in xs ys lo hi \<Longrightarrow> k < length xs \<Longrightarrow> int k < lo \<or> hi \<le> int k \<Longrightarrow> ys ! k = xs ! k"
  by (auto simp: perm_in_def outside_eq_def)

lemma swap_ok:
  assumes "0 \<le> ii" "ii < int (length xs)" "0 \<le> jj" "jj < int (length xs)"
  shows "swap xs ii jj = Inr (xs[nat ii := xs ! nat jj, nat jj := xs ! nat ii])"
  using assms by (auto simp: swap_def)

lemma swap_perm_in:
  assumes "lo \<le> ii" "ii < hi" "lo \<le> jj" "jj < hi" "0 \<le> lo" "hi \<le> int (length xs)"
    and "swap xs ii jj = Inr ys"
  shows "perm_in xs ys lo hi"
proof -
  have ys: "ys = xs[nat ii := xs ! nat jj, nat jj := xs ! nat ii]"
    using assms swap_ok [of ii xs jj] by simp
  have "mset ys = mset xs"
    unfolding ys using assms by (intro mset_swap_list) auto
  moreover have "outside_eq xs ys lo hi"
    using assms unfolding ys outside_eq_def by (auto simp: nth_list_update)
  ultimately show ?thesis by (simp add: perm_in_def)
qed

text \<open>
  The loop invariant of \<^verbatim>\<open>partition\<close>: what lies before \<^verbatim>\<open>ii\<close> is smaller than the pivot, what
  lies between \<^verbatim>\<open>ii\<close> and \<^verbatim>\<open>jj\<close> is not, and the pivot stays in the last slot.
\<close>

definition part_inv :: "int list \<Rightarrow> int \<Rightarrow> int \<Rightarrow> int \<Rightarrow> int \<Rightarrow> int \<Rightarrow> bool" where
  "part_inv xs pivot lo ii jj hi \<longleftrightarrow>
     0 \<le> lo \<and> lo \<le> ii \<and> ii \<le> jj \<and> jj \<le> hi - 1 \<and> hi \<le> int (length xs) \<and>
     (\<forall>k. lo \<le> k \<and> k < ii \<longrightarrow> xs ! nat k < pivot) \<and>
     (\<forall>k. ii \<le> k \<and> k < jj \<longrightarrow> pivot \<le> xs ! nat k) \<and>
     xs ! nat (hi - 1) = pivot"

lemma part_inv_swap:
  assumes inv: "part_inv xs pivot lo ii jj hi" and "jj < hi - 1" and "xs ! nat jj < pivot"
    and ys: "swap xs ii jj = Inr ys"
  shows "part_inv ys pivot lo (ii + 1) (jj + 1) hi"
proof -
  have eq: "ys = xs[nat ii := xs ! nat jj, nat jj := xs ! nat ii]"
    using inv assms(2) ys swap_ok [of ii xs jj] by (simp add: part_inv_def)
  show ?thesis
    unfolding part_inv_def eq
    using inv assms(2,3)
    by (auto simp: part_inv_def nth_list_update nat_eq_iff split: if_splits)
qed

lemma part_inv_skip:
  assumes "part_inv xs pivot lo ii jj hi" and "jj < hi - 1" and "\<not> xs ! nat jj < pivot"
  shows "part_inv xs pivot lo ii (jj + 1) hi"
  using assms unfolding part_inv_def by (auto simp: zless_add1_eq) (metis not_less order_less_le)

lemma partition_loop_correct:
  "part_inv xs pivot lo ii jj hi \<Longrightarrow>
   \<exists>ys pp. partition_loop xs pivot ii jj hi = Inr (ys, pp) \<and>
           part_inv ys pivot lo pp (hi - 1) hi \<and> perm_in xs ys lo hi"
proof (induction xs pivot ii jj hi rule: partition_loop.induct)
  case (1 xs pivot ii jj hi)
  show ?case
  proof (cases "jj < hi - 1")
    case True
    with "1.prems" have v: "rd xs jj = Inr (xs ! nat jj)"
      and ok: "\<exists>ys. swap xs ii jj = Inr ys"
      using swap_ok [of ii xs jj] by (auto simp: part_inv_def)
    show ?thesis
    proof (cases "xs ! nat jj < pivot")
      case less: True
      from ok obtain ys where ys: "swap xs ii jj = Inr ys" by blast
      from part_inv_swap [OF "1.prems" True less ys]
      have "part_inv ys pivot lo (ii + 1) (jj + 1) hi" .
      from "1.IH"(1) [OF True v less ys this] obtain zs pp where zs:
        "partition_loop ys pivot (ii + 1) (jj + 1) hi = Inr (zs, pp)"
        "part_inv zs pivot lo pp (hi - 1) hi" "perm_in ys zs lo hi" by blast
      have "perm_in xs ys lo hi"
        using "1.prems" True ys by (intro swap_perm_in [of lo ii hi jj]) (auto simp: part_inv_def)
      then have "perm_in xs zs lo hi" by (rule perm_in_trans [OF _ zs(3)]) simp_all
      moreover have "partition_loop xs pivot ii jj hi = Inr (zs, pp)"
        using True v less ys zs(1) by (simp add: partition_loop.simps [of xs])
      ultimately show ?thesis using zs(2) by blast
    next
      case False
      from "1.IH"(2) [OF True v False part_inv_skip [OF "1.prems" True False]]
      show ?thesis using True v False by (simp add: partition_loop.simps [of xs])
    qed
  next
    case False
    with "1.prems" have "jj = hi - 1" by (simp add: part_inv_def)
    with False "1.prems" show ?thesis by (auto simp: partition_loop.simps [of xs])
  qed
qed

lemma partition_correct:
  assumes "0 \<le> lo" "lo < hi" "hi \<le> int (length xs)"
  shows "\<exists>ys pp. partition xs lo hi = Inr (ys, pp) \<and> perm_in xs ys lo hi \<and>
     lo \<le> pp \<and> pp < hi \<and>
     (\<forall>k. lo \<le> k \<and> k < pp \<longrightarrow> ys ! nat k < ys ! nat pp) \<and>
     (\<forall>k. pp < k \<and> k < hi \<longrightarrow> ys ! nat pp \<le> ys ! nat k)"
proof -
  let ?pivot = "xs ! nat (hi - 1)"
  have "part_inv xs ?pivot lo lo lo hi" using assms by (simp add: part_inv_def)
  from partition_loop_correct [OF this] obtain ys pp where loop:
    "partition_loop xs ?pivot lo lo hi = Inr (ys, pp)"
    "part_inv ys ?pivot lo pp (hi - 1) hi" "perm_in xs ys lo hi" by blast
  let ?zs = "ys[nat pp := ys ! nat (hi - 1), nat (hi - 1) := ys ! nat pp]"
  have sw: "swap ys pp (hi - 1) = Inr ?zs"
    using loop(2) by (intro swap_ok) (auto simp: part_inv_def)
  have "perm_in ys ?zs lo hi"
    using loop(2) sw by (intro swap_perm_in [of lo pp hi "hi - 1"]) (auto simp: part_inv_def)
  with loop(3) have "perm_in xs ?zs lo hi" by (rule perm_in_trans) simp_all
  moreover have "partition xs lo hi = Inr (?zs, pp)"
    using assms loop(1) sw by (simp add: partition_def)
  moreover have "\<forall>k. lo \<le> k \<and> k < pp \<longrightarrow> ?zs ! nat k < ?zs ! nat pp"
    using loop(2) by (auto simp: part_inv_def nth_list_update nat_eq_iff)
  moreover have "\<forall>k. pp < k \<and> k < hi \<longrightarrow> ?zs ! nat pp \<le> ?zs ! nat k"
    using loop(2) by (auto simp: part_inv_def nth_list_update nat_eq_iff)
  ultimately show ?thesis using loop(2) by (auto simp: part_inv_def)
qed

text \<open>Sortedness of a segment, index by index.\<close>

definition seg_sorted :: "int list \<Rightarrow> int \<Rightarrow> int \<Rightarrow> bool" where
  "seg_sorted xs lo hi \<longleftrightarrow> (\<forall>i j. lo \<le> i \<and> i \<le> j \<and> j < hi \<longrightarrow> xs ! nat i \<le> xs ! nat j)"

lemma seg_nth:
  assumes "0 \<le> lo" "hi \<le> int (length xs)" "k < nat (hi - lo)"
  shows "seg xs lo hi ! k = xs ! (nat lo + k)"
  using assms by (simp add: seg_def)

lemma length_seg:
  assumes "0 \<le> lo" "hi \<le> int (length xs)"
  shows "length (seg xs lo hi) = nat (hi - lo)"
  using assms by (simp add: seg_def)

lemma sorted_seg:
  assumes "0 \<le> lo" "hi \<le> int (length xs)" "seg_sorted xs lo hi"
  shows "sorted (seg xs lo hi)"
proof (unfold sorted_iff_nth_mono, intro allI impI)
  fix i j assume "i \<le> j" "j < length (seg xs lo hi)"
  with assms show "seg xs lo hi ! i \<le> seg xs lo hi ! j"
    using assms(3) [unfolded seg_sorted_def, rule_format, of "lo + int i" "lo + int j"]
    by (simp add: length_seg seg_nth nat_add_distrib)
qed

lemma split_at: "0 \<le> lo \<Longrightarrow> lo \<le> hi \<Longrightarrow> hi \<le> int (length xs) \<Longrightarrow>
  xs = take (nat lo) xs @ seg xs lo hi @ drop (nat hi) xs"
proof -
  assume a: "0 \<le> lo" "lo \<le> hi" "hi \<le> int (length xs)"
  have "take (nat (hi - lo)) (drop (nat lo) xs) @ drop (nat (hi - lo)) (drop (nat lo) xs)
      = drop (nat lo) xs" by (rule append_take_drop_id)
  moreover have "nat (hi - lo) + nat lo = nat hi" using a by linarith
  ultimately show ?thesis by (simp add: seg_def drop_drop)
qed

lemma mset_seg:
  assumes "perm_in xs ys lo hi" "0 \<le> lo" "lo \<le> hi" "hi \<le> int (length xs)"
  shows "mset (seg ys lo hi) = mset (seg xs lo hi)"
proof -
  have len: "length ys = length xs" using assms(1) by (rule perm_in_length)
  have "take (nat lo) ys = take (nat lo) xs"
  proof (rule nth_equalityI)
    fix i assume "i < length (take (nat lo) ys)"
    then show "take (nat lo) ys ! i = take (nat lo) xs ! i"
      using perm_in_outside [OF assms(1), of i] assms len by simp linarith
  qed (simp add: len)
  moreover have "drop (nat hi) ys = drop (nat hi) xs"
    using assms len by (intro nth_equalityI) (auto simp: perm_in_outside [OF assms(1)])
  moreover have "mset xs = mset ys" using assms(1) by (simp add: perm_in_def)
  ultimately show ?thesis
    using split_at [OF assms(2-4)] split_at [of lo hi ys] assms len
    by (metis (no_types, lifting) add_left_cancel add_right_cancel mset_append)
qed

lemma perm_in_seg_set:
  assumes "perm_in xs ys lo hi" "0 \<le> lo" "hi \<le> int (length xs)" "lo \<le> k" "k < hi"
  shows "\<exists>i. lo \<le> i \<and> i < hi \<and> ys ! nat k = xs ! nat i"
proof -
  have len: "length ys = length xs" using assms(1) by (rule perm_in_length)
  have "ys ! nat k = seg ys lo hi ! nat (k - lo)"
    using assms len by (subst seg_nth) (auto simp: nat_diff_distrib)
  also have "\<dots> \<in> set (seg ys lo hi)"
    using assms len by (intro nth_mem) (simp add: length_seg)
  also have "set (seg ys lo hi) = set (seg xs lo hi)"
    using mset_seg [OF assms(1,2) _ assms(3)] assms by (metis mset_eq_setD order_trans order_less_imp_le)
  finally obtain i where "i < nat (hi - lo)" "ys ! nat k = xs ! (nat lo + i)"
    using assms by (auto simp: in_set_conv_nth length_seg seg_nth)
  then show ?thesis
    using assms by (intro exI [of _ "lo + int i"]) (auto simp: nat_add_distrib)
qed

lemma seg_sorted_join:
  assumes "seg_sorted zs lo pp" "seg_sorted zs (pp + 1) hi"
    and "\<forall>k. lo \<le> k \<and> k < pp \<longrightarrow> zs ! nat k \<le> zs ! nat pp"
    and "\<forall>k. pp < k \<and> k < hi \<longrightarrow> zs ! nat pp \<le> zs ! nat k"
  shows "seg_sorted zs lo hi"
  unfolding seg_sorted_def
proof (intro allI impI)
  fix i j assume ij: "lo \<le> i \<and> i \<le> j \<and> j < hi"
  consider "j < pp" | "i \<le> pp" "pp \<le> j" | "pp < i" by linarith
  then show "zs ! nat i \<le> zs ! nat j"
  proof cases
    case 1
    then show ?thesis using assms(1) ij by (simp add: seg_sorted_def)
  next
    case 2
    then have "zs ! nat i \<le> zs ! nat pp" using assms(3) ij by (cases "i = pp") auto
    moreover have "zs ! nat pp \<le> zs ! nat j" using 2 assms(4) ij by (cases "j = pp") auto
    ultimately show ?thesis by (rule order_trans)
  next
    case 3
    then show ?thesis using assms(2) ij by (simp add: seg_sorted_def)
  qed
qed

lemma quicksort_correct:
  "0 \<le> lo \<Longrightarrow> hi \<le> int (length xs) \<Longrightarrow>
   \<exists>ys. quicksort xs lo hi = Inr ys \<and> perm_in xs ys lo hi \<and> seg_sorted ys lo hi"
proof (induction xs lo hi rule: quicksort.induct)
  case (1 xs lo hi)
  show ?case
  proof (cases "hi - lo < 1")
    case True
    then show ?thesis by (simp add: quicksort.simps [of xs] seg_sorted_def)
  next
    case False
    then have lh: "lo < hi" by simp
    from partition_correct [OF "1.prems"(1) lh "1.prems"(2)] obtain ys pp where
      p: "partition xs lo hi = Inr (ys, pp)" "perm_in xs ys lo hi" "lo \<le> pp" "pp < hi"
         "\<forall>k. lo \<le> k \<and> k < pp \<longrightarrow> ys ! nat k < ys ! nat pp"
         "\<forall>k. pp < k \<and> k < hi \<longrightarrow> ys ! nat pp \<le> ys ! nat k" by blast
    have ly: "length ys = length xs" using p(2) by (rule perm_in_length)
    from "1.IH"(1) [OF False p(1) refl] "1.prems" p ly obtain zs where
      z: "quicksort ys lo pp = Inr zs" "perm_in ys zs lo pp" "seg_sorted zs lo pp" by force
    have lz: "length zs = length xs" using z(2) ly perm_in_length by metis
    from "1.IH"(2) [OF False p(1) refl z(1)] "1.prems" p lz obtain ws where
      w: "quicksort zs (pp + 1) hi = Inr ws" "perm_in zs ws (pp + 1) hi" "seg_sorted ws (pp + 1) hi"
      by force
    have low: "ws ! nat k = zs ! nat k" if "lo \<le> k" "k \<le> pp" for k
      using perm_in_outside [OF w(2), of "nat k"] that "1.prems" p lz by auto
    have high: "zs ! nat k = ys ! nat k" if "pp \<le> k" "k < hi" for k
      using perm_in_outside [OF z(2), of "nat k"] that "1.prems" p ly by auto
    have "ws ! nat k \<le> ws ! nat pp" if k: "lo \<le> k" "k < pp" for k
    proof -
      from perm_in_seg_set [OF z(2) "1.prems"(1) _ k] "1.prems" p ly obtain i where
        "lo \<le> i" "i < pp" "zs ! nat k = ys ! nat i" by auto
      then show ?thesis using p k low [of k] low [of pp] high [of pp] by force
    qed
    moreover have "ws ! nat pp \<le> ws ! nat k" if k: "pp < k" "k < hi" for k
    proof -
      from perm_in_seg_set [OF w(2) _ _ _ k(2)] "1.prems" p lz k obtain i where
        "pp + 1 \<le> i" "i < hi" "ws ! nat k = zs ! nat i" by auto
      then show ?thesis using p low [of pp] high [of pp] high [of i] by force
    qed
    moreover have "seg_sorted ws lo pp"
      using z(3) low by (auto simp: seg_sorted_def)
    ultimately have "seg_sorted ws lo hi"
      using w(3) by (intro seg_sorted_join [of _ lo pp hi]) auto
    moreover have "perm_in xs ws lo hi"
    proof -
      have "perm_in xs zs lo hi"
        by (rule perm_in_trans [OF p(2) z(2)]) (use p in auto)
      then show ?thesis by (rule perm_in_trans [OF _ w(2)]) (use p in auto)
    qed
    moreover have "quicksort xs lo hi = Inr ws"
      using False p(1) z(1) w(1) by (simp add: quicksort.simps [of xs])
    ultimately show ?thesis by blast
  qed
qed

text \<open>
  C1. In-place quicksort is memory safe and correct: for every segment \<open>[lo, hi)\<close> inside
  the array it returns (no access leaves the array, the recursion ends), the segment of the
  result is the sorted arrangement of the elements the segment had, and nothing outside
  the segment has moved.
\<close>

theorem quicksort_sorts_segment:
  assumes "0 \<le> lo" and "lo \<le> hi" and "hi \<le> int (length xs)"
  shows "\<exists>ys. quicksort xs lo hi = Inr ys \<and> outside_eq xs ys lo hi \<and>
     seg ys lo hi = sort (seg xs lo hi)"
proof -
  from quicksort_correct [OF assms(1,3)] obtain ys where
    ys: "quicksort xs lo hi = Inr ys" "perm_in xs ys lo hi" "seg_sorted ys lo hi" by blast
  have "sorted (seg ys lo hi)"
    using ys assms perm_in_length [OF ys(2)] by (intro sorted_seg) auto
  moreover have "mset (seg ys lo hi) = mset (seg xs lo hi)"
    using ys(2) assms by (rule mset_seg)
  ultimately have "seg ys lo hi = sort (seg xs lo hi)" by (metis properties_for_sort)
  then show ?thesis using ys by (auto simp: perm_in_def)
qed

theorem quicksort_sorts_segment_witness:
  "(0::int) \<le> 1 \<and> (1::int) \<le> 4 \<and> (4::int) \<le> int (length [9, 5, 3, 4, 0::int]) \<and>
   (\<exists>ys. quicksort [9, 5, 3, 4, 0] 1 4 = Inr ys \<and> outside_eq [9, 5, 3, 4, 0] ys 1 4 \<and>
     seg ys 1 4 = [3, 4, 5])"
proof -
  have "\<exists>ys. quicksort [9, 5, 3, 4, 0] 1 4 = Inr ys \<and> outside_eq [9, 5, 3, 4, 0] ys 1 4 \<and>
     seg ys 1 4 = sort (seg [9, 5, 3, 4, 0] 1 4)"
    by (rule quicksort_sorts_segment) simp_all
  then show ?thesis by (simp add: seg_def)
qed

lemma read_array_length: "read_array k inp = Some xs \<Longrightarrow> length xs = k"
  by (induction k inp arbitrary: xs rule: read_array.induct) (auto split: option.splits prod.splits)

text \<open>
  The program as a whole: whenever the count and the numbers can be read, it prints the
  count and the sorted numbers (it neither fails nor runs forever), and it reports bad
  input exactly when a number is missing.
\<close>

theorem quicksort_main_correct:
  "quicksort_main inp =
     (case read_int inp of
        None \<Rightarrow> Inr BadInput
      | Some (nn, rest) \<Rightarrow>
          (case read_array (nat nn) rest of
             None \<Rightarrow> Inr BadInput
           | Some xs \<Rightarrow> Inr (Printed nn (sort xs))))"
proof -
  have "quicksort xs 0 nn = Inr (sort xs)" if len: "length xs = nat nn" for xs nn
  proof (cases "0 \<le> nn")
    case True
    then have hi: "nn \<le> int (length xs)" using len by simp
    from quicksort_correct [OF order_refl hi] obtain ys where
      ys: "quicksort xs 0 nn = Inr ys" "perm_in xs ys 0 nn" "seg_sorted ys 0 nn" by blast
    have l: "length ys = length xs" using ys(2) by (rule perm_in_length)
    have "sorted (seg ys 0 nn)" by (rule sorted_seg) (use ys l hi in auto)
    moreover have "seg ys 0 nn = ys" using len l by (simp add: seg_def)
    moreover have "mset ys = mset xs" using ys(2) by (simp add: perm_in_def)
    ultimately show ?thesis using ys(1) by (metis properties_for_sort)
  next
    case False
    with len show ?thesis by (simp add: quicksort.simps)
  qed
  then show ?thesis
    using read_array_length by (auto simp: quicksort_main_def split: option.splits)
qed

end
