(* ===== verification/Svec.thy ===== *)
theory Svec
  imports Prelude
begin

text \<open>
  The growable vector of strings: \<^verbatim>\<open>chal1/challenge01/svec.c\<close>, and the variants of the same
  structure in \<^verbatim>\<open>hw05\<close> and \<^verbatim>\<open>hw04\<close> where their code differs (the allocation of the array, the
  growth step and the test before \<^verbatim>\<open>free\<close>). A slot of the \<^verbatim>\<open>char**\<close> array is uninitialised
  memory, a null pointer or an owned copy of a string; every access is bounds checked and
  every \<^verbatim>\<open>assert\<close> is a branch. The sizes are unbounded integers where the code has \<^verbatim>\<open>int\<close>:
  \<open>push_size_bound\<close> shows that a vector of \<open>n\<close> strings has an array of at most
  \<open>max 2 (2 * n)\<close> slots, so the doubling in \<^verbatim>\<open>svec_push_back\<close> stays an \<^verbatim>\<open>int\<close> below \<open>2 ^ 30\<close>
  strings. The locale \<open>string_vector\<close> is the interface the tokenizers
  rely on; it is interpreted on the \<^verbatim>\<open>chal1\<close> and on the \<^verbatim>\<open>hw05\<close> vector.
\<close>

section \<open>The data structure\<close>

datatype slot = Uninit | Null | Str string

record svec =
  sv_size :: int
  sv_spaces :: int
  sv_data :: "slot list"

text \<open>Reading the pointer in a slot; a pointer is \<open>None\<close> for null. Storing copies the string.\<close>

definition slot_ptr :: "slot \<Rightarrow> string option res" where
  "slot_ptr s =
     (case s of Uninit \<Rightarrow> Inl Undefined | Null \<Rightarrow> Inr None | Str t \<Rightarrow> Inr (Some t))"

definition ptr_slot :: "string option \<Rightarrow> slot" where
  "ptr_slot p = (case p of None \<Rightarrow> Null | Some t \<Rightarrow> Str t)"

text \<open>\<^verbatim>\<open>realloc\<close> and \<^verbatim>\<open>memset(..., 0, ...)\<close> on the slot array.\<close>

definition realloc_slots :: "slot list \<Rightarrow> int \<Rightarrow> slot list" where
  "realloc_slots d n = take (nat n) d @ replicate (nat n - length d) Uninit"

definition memset_slots :: "slot list \<Rightarrow> int \<Rightarrow> int \<Rightarrow> slot list res" where
  "memset_slots d from n =
     (if 0 \<le> from \<and> 0 \<le> n \<and> from + n \<le> int (length d)
      then Inr (take (nat from) d @ replicate (nat n) Null @ drop (nat (from + n)) d)
      else Inl OutOfBounds)"

section \<open>The operations of the shell's vector\<close>

definition make_svec :: svec where
  "make_svec = \<lparr>sv_size = 2, sv_spaces = 0, sv_data = replicate 2 Null\<rparr>"

text \<open>\<^verbatim>\<open>free_svec\<close>: the pointers it passes to \<^verbatim>\<open>free\<close>, in order, before the array and the header.\<close>

function free_svec_loop :: "svec \<Rightarrow> int \<Rightarrow> string option list res" where
  "free_svec_loop sv ii =
     (if ii < sv_spaces sv
      then bind_res (rd (sv_data sv) ii) (\<lambda>s. bind_res (slot_ptr s) (\<lambda>p.
           bind_res (free_svec_loop sv (ii + 1)) (\<lambda>ps. Inr (p # ps))))
      else Inr [])"
  by pat_completeness auto
termination
  by (relation "measure (\<lambda>(sv, ii). nat (sv_spaces sv - ii))") auto

declare free_svec_loop.simps [simp del]

definition free_svec :: "svec option \<Rightarrow> string option list res" where
  "free_svec sv = (case sv of None \<Rightarrow> Inr [] | Some v \<Rightarrow> free_svec_loop v 0)"

definition svec_length :: "svec \<Rightarrow> int" where
  "svec_length sv = sv_spaces sv"

definition svec_get :: "svec \<Rightarrow> int \<Rightarrow> string option res" where
  "svec_get sv ii =
     (if 0 \<le> ii \<and> ii < sv_spaces sv
      then bind_res (rd (sv_data sv) ii) slot_ptr
      else Inl AssertFailed)"

function svec_index_loop :: "svec \<Rightarrow> string \<Rightarrow> int \<Rightarrow> int res" where
  "svec_index_loop sv item ii =
     (if ii < sv_spaces sv
      then bind_res (rd (sv_data sv) ii) (\<lambda>s. bind_res (slot_ptr s) (\<lambda>p.
             case p of
               None \<Rightarrow> Inl NullDeref
             | Some t \<Rightarrow> if t = item then Inr ii else svec_index_loop sv item (ii + 1)))
      else Inr (-1))"
  by pat_completeness auto
termination
  by (relation "measure (\<lambda>(sv, item, ii). nat (sv_spaces sv - ii))") auto

declare svec_index_loop.simps [simp del]

definition svec_index_of :: "svec \<Rightarrow> string \<Rightarrow> int res" where
  "svec_index_of sv item = svec_index_loop sv item 0"

text \<open>\<^verbatim>\<open>svec_put\<close> tests the old pointer and frees it if it is not null, so the slot must be initialised.\<close>

definition svec_put :: "svec \<Rightarrow> int \<Rightarrow> string option \<Rightarrow> svec res" where
  "svec_put sv ii item =
     (if 0 \<le> ii \<and> ii < sv_spaces sv
      then bind_res (rd (sv_data sv) ii) (\<lambda>old. bind_res (slot_ptr old) (\<lambda>_.
           bind_res (wr (sv_data sv) ii (ptr_slot item)) (\<lambda>d. Inr (sv\<lparr>sv_data := d\<rparr>))))
      else Inl AssertFailed)"

definition svec_push_back :: "svec \<Rightarrow> string option \<Rightarrow> svec res" where
  "svec_push_back sv item =
     (let ii = sv_spaces sv in
      bind_res
        (if sv_size sv \<le> sv_spaces sv
         then let newSize = sv_size sv * 2 in
              bind_res (memset_slots (realloc_slots (sv_data sv) newSize) (sv_size sv) (sv_size sv))
                (\<lambda>d. Inr (sv\<lparr>sv_data := d, sv_size := newSize\<rparr>))
         else Inr sv)
        (\<lambda>sv'. svec_put (sv'\<lparr>sv_spaces := sv_spaces sv' + 1\<rparr>) ii item))"

definition svec_swap :: "svec \<Rightarrow> int \<Rightarrow> int \<Rightarrow> svec res" where
  "svec_swap sv ii jj =
     bind_res (svec_get sv ii) (\<lambda>slot1. bind_res (svec_get sv jj) (\<lambda>slot2.
     bind_res (wr (sv_data sv) ii (ptr_slot slot2)) (\<lambda>d.
     bind_res (wr d jj (ptr_slot slot1)) (\<lambda>d'. Inr (sv\<lparr>sv_data := d'\<rparr>)))))"

lemma svec_swap_spaces: "svec_swap sv ii jj = Inr sv' \<Longrightarrow> sv_spaces sv' = sv_spaces sv"
  by (auto simp: svec_swap_def bind_res_eq_Inr)

function svec_reverse_loop :: "svec \<Rightarrow> int \<Rightarrow> svec res" where
  "svec_reverse_loop sv ii =
     (if ii < sv_spaces sv div 2
      then bind_res (svec_swap sv ii (sv_spaces sv - ii - 1)) (\<lambda>sv'. svec_reverse_loop sv' (ii + 1))
      else Inr sv)"
  by pat_completeness auto
termination
  by (relation "measure (\<lambda>(sv, ii). nat (sv_spaces sv div 2 - ii))") (auto dest: svec_swap_spaces)

declare svec_reverse_loop.simps [simp del]

definition svec_reverse :: "svec \<Rightarrow> svec res" where
  "svec_reverse sv = svec_reverse_loop sv 0"

text \<open>\<^verbatim>\<open>svec_print\<close>: the characters it prints.\<close>

function svec_print_loop :: "svec \<Rightarrow> string \<Rightarrow> int \<Rightarrow> string res" where
  "svec_print_loop sv separator ii =
     (if ii < sv_spaces sv
      then bind_res (svec_get sv ii) (\<lambda>p.
             case p of
               None \<Rightarrow> Inl NullDeref
             | Some t \<Rightarrow> bind_res (svec_print_loop sv separator (ii + 1)) (\<lambda>out.
                          Inr (t @ separator @ out)))
      else Inr [])"
  by pat_completeness auto
termination
  by (relation "measure (\<lambda>(sv, separator, ii). nat (sv_spaces sv - ii))") auto

declare svec_print_loop.simps [simp del]

definition svec_print :: "svec \<Rightarrow> string \<Rightarrow> string res" where
  "svec_print sv separator = svec_print_loop sv separator 0"

function sub_svec_loop :: "svec \<Rightarrow> svec \<Rightarrow> int \<Rightarrow> int \<Rightarrow> svec res" where
  "sub_svec_loop new_sv sv ii end_index =
     (if ii < end_index
      then bind_res (svec_get sv ii) (\<lambda>p. bind_res (svec_push_back new_sv p) (\<lambda>new_sv'.
           sub_svec_loop new_sv' sv (ii + 1) end_index))
      else Inr new_sv)"
  by pat_completeness auto
termination
  by (relation "measure (\<lambda>(new_sv, sv, ii, end_index). nat (end_index - ii))") auto

declare sub_svec_loop.simps [simp del]

definition sub_svec :: "svec \<Rightarrow> int \<Rightarrow> int \<Rightarrow> svec res" where
  "sub_svec sv start_index end_index =
     (if end_index \<le> sv_spaces sv \<and> 0 \<le> start_index
      then sub_svec_loop make_svec sv start_index end_index
      else Inl AssertFailed)"

definition svec_clone :: "svec \<Rightarrow> svec res" where
  "svec_clone sv = sub_svec sv 0 (sv_spaces sv)"

section \<open>The variants of hw05 and hw04\<close>

text \<open>
  In \<^verbatim>\<open>hw05\<close> the array comes from \<^verbatim>\<open>malloc\<close> and the grown part is not cleared; its
  \<^verbatim>\<open>svec_put\<close> frees the old pointer only where it is null, so it never releases anything and
  an uninitialised slot does no harm.
\<close>

definition hw05_make_svec :: svec where
  "hw05_make_svec = \<lparr>sv_size = 2, sv_spaces = 0, sv_data = replicate 2 Uninit\<rparr>"

definition hw05_svec_put :: "svec \<Rightarrow> int \<Rightarrow> string option \<Rightarrow> svec res" where
  "hw05_svec_put sv ii item =
     (if 0 \<le> ii \<and> ii < sv_spaces sv
      then bind_res (wr (sv_data sv) ii (ptr_slot item)) (\<lambda>d. Inr (sv\<lparr>sv_data := d\<rparr>))
      else Inl AssertFailed)"

definition hw05_svec_push_back :: "svec \<Rightarrow> string option \<Rightarrow> svec res" where
  "hw05_svec_push_back sv item =
     (let ii = sv_spaces sv;
          sv' = (if sv_size sv \<le> sv_spaces sv
                 then sv\<lparr>sv_data := realloc_slots (sv_data sv) (sv_size sv * 2),
                         sv_size := sv_size sv * 2\<rparr>
                 else sv)
      in hw05_svec_put (sv'\<lparr>sv_spaces := sv_spaces sv' + 1\<rparr>) ii item)"

text \<open>
  In \<^verbatim>\<open>hw04\<close> the array also comes from \<^verbatim>\<open>malloc\<close>, but \<^verbatim>\<open>svec_put\<close> frees every old pointer
  that is not null: a slot that was never written is passed to \<^verbatim>\<open>free\<close>.
\<close>

definition hw04_make_svec :: svec where
  "hw04_make_svec = \<lparr>sv_size = 2, sv_spaces = 0, sv_data = replicate 2 Uninit\<rparr>"

definition hw04_svec_put :: "svec \<Rightarrow> int \<Rightarrow> string option \<Rightarrow> svec res" where
  "hw04_svec_put sv ii item =
     (if 0 \<le> ii \<and> ii < sv_spaces sv
      then bind_res (rd (sv_data sv) ii) (\<lambda>old. bind_res (slot_ptr old) (\<lambda>_.
           bind_res (wr (sv_data sv) ii (ptr_slot item)) (\<lambda>d. Inr (sv\<lparr>sv_data := d\<rparr>))))
      else Inl AssertFailed)"

definition hw04_svec_push_back :: "svec \<Rightarrow> string option \<Rightarrow> svec res" where
  "hw04_svec_push_back sv item =
     (let ii = sv_spaces sv;
          sv' = (if sv_size sv \<le> sv_spaces sv
                 then sv\<lparr>sv_data := realloc_slots (sv_data sv) (sv_size sv * 2),
                         sv_size := sv_size sv * 2\<rparr>
                 else sv)
      in hw04_svec_put (sv'\<lparr>sv_spaces := sv_spaces sv' + 1\<rparr>) ii item)"

section \<open>Invariant and contents\<close>

text \<open>The contents: the pointers in the slots that are in use.\<close>

definition slot_val :: "slot \<Rightarrow> string option" where
  "slot_val s = (case s of Str t \<Rightarrow> Some t | _ \<Rightarrow> None)"

definition items :: "svec \<Rightarrow> string option list" where
  "items sv = map slot_val (take (nat (sv_spaces sv)) (sv_data sv))"

definition svec_shape :: "svec \<Rightarrow> bool" where
  "svec_shape sv \<longleftrightarrow>
     sv_size sv = int (length (sv_data sv)) \<and> 1 \<le> sv_size sv \<and>
     0 \<le> sv_spaces sv \<and> sv_spaces sv \<le> sv_size sv"

definition svec_ok :: "svec \<Rightarrow> bool" where
  "svec_ok sv \<longleftrightarrow> svec_shape sv \<and> Uninit \<notin> set (sv_data sv)"

definition hw05_ok :: "svec \<Rightarrow> bool" where
  "hw05_ok sv \<longleftrightarrow> svec_shape sv \<and> Uninit \<notin> set (take (nat (sv_spaces sv)) (sv_data sv))"

lemma svec_ok_hw05: "svec_ok sv \<Longrightarrow> hw05_ok sv"
  by (auto simp: svec_ok_def hw05_ok_def dest: in_set_takeD)

lemma slot_val_ptr_slot [simp]: "slot_val (ptr_slot p) = p"
  by (simp add: slot_val_def ptr_slot_def split: option.splits)

lemma ptr_slot_init [simp]: "ptr_slot p \<noteq> Uninit" "Uninit \<noteq> ptr_slot p"
  by (simp_all add: ptr_slot_def split: option.splits)

lemma slot_ptr_init: "s \<noteq> Uninit \<Longrightarrow> slot_ptr s = Inr (slot_val s)"
  by (cases s) (simp_all add: slot_ptr_def slot_val_def)

lemma length_items: "svec_shape sv \<Longrightarrow> length (items sv) = nat (sv_spaces sv)"
  by (auto simp: items_def svec_shape_def)

lemma items_nth:
  "svec_shape sv \<Longrightarrow> i < nat (sv_spaces sv) \<Longrightarrow> items sv ! i = slot_val (sv_data sv ! i)"
  by (auto simp: items_def svec_shape_def)

lemma hw05_ok_init:
  assumes "hw05_ok sv" and "i < nat (sv_spaces sv)"
  shows "sv_data sv ! i \<noteq> Uninit"
proof
  assume "sv_data sv ! i = Uninit"
  then have "take (nat (sv_spaces sv)) (sv_data sv) ! i = Uninit" using assms by simp
  moreover have "i < length (take (nat (sv_spaces sv)) (sv_data sv))"
    using assms by (auto simp: hw05_ok_def svec_shape_def)
  ultimately show False using assms(1) by (metis hw05_ok_def nth_mem)
qed

lemma hw05_ok_iff:
  "hw05_ok sv \<longleftrightarrow> svec_shape sv \<and> (\<forall>i < nat (sv_spaces sv). sv_data sv ! i \<noteq> Uninit)"
proof
  assume "hw05_ok sv"
  then show "svec_shape sv \<and> (\<forall>i < nat (sv_spaces sv). sv_data sv ! i \<noteq> Uninit)"
    using hw05_ok_init by (auto simp: hw05_ok_def)
next
  assume "svec_shape sv \<and> (\<forall>i < nat (sv_spaces sv). sv_data sv ! i \<noteq> Uninit)"
  then show "hw05_ok sv" by (auto simp: hw05_ok_def in_set_conv_nth)
qed

lemma svec_get_items:
  assumes "hw05_ok sv" and "0 \<le> ii" and "ii < sv_spaces sv"
  shows "svec_get sv ii = Inr (items sv ! nat ii)"
proof -
  have "svec_shape sv" using assms(1) by (simp add: hw05_ok_def)
  then show ?thesis
    using assms hw05_ok_init [OF assms(1), of "nat ii"]
    by (simp add: svec_get_def slot_ptr_init items_nth svec_shape_def)
qed

text \<open>Writing a slot at the end of the part in use, after making room for it.\<close>

lemma shape_write_end:
  assumes "svec_shape sv" and "sv_spaces sv < sv_size sv"
  shows "svec_shape (sv\<lparr>sv_spaces := sv_spaces sv + 1,
      sv_data := (sv_data sv)[nat (sv_spaces sv) := ptr_slot p]\<rparr>)" (is "svec_shape ?sv'")
    and "items (sv\<lparr>sv_spaces := sv_spaces sv + 1,
      sv_data := (sv_data sv)[nat (sv_spaces sv) := ptr_slot p]\<rparr>) = items sv @ [p]"
proof -
  show "svec_shape ?sv'" using assms by (simp add: svec_shape_def)
  have "nat (sv_spaces sv + 1) = Suc (nat (sv_spaces sv))"
    using assms by (auto simp: svec_shape_def)
  moreover have "nat (sv_spaces sv) < length (sv_data sv)"
    using assms by (auto simp: svec_shape_def)
  ultimately show "items ?sv' = items sv @ [p]"
    by (simp add: items_def take_Suc_conv_app_nth)
qed

section \<open>The vector interface\<close>

locale string_vector =
  fixes mk :: 'v
    and push :: "'v \<Rightarrow> string option \<Rightarrow> 'v res"
    and contents :: "'v \<Rightarrow> string option list"
    and invar :: "'v \<Rightarrow> bool"
  assumes mk_invar: "invar mk"
    and mk_contents: "contents mk = []"
    and push_total: "invar v \<Longrightarrow>
      \<exists>v'. push v p = Inr v' \<and> invar v' \<and> contents v' = contents v @ [p]"
begin

text \<open>Pushing one string after another: no push fails and the contents are the strings in order.\<close>

lemma push_all:
  "invar v \<Longrightarrow>
   \<exists>v'. foldl (\<lambda>r p. bind_res r (\<lambda>u. push u p)) (Inr v) ps = Inr v' \<and>
        invar v' \<and> contents v' = contents v @ ps"
proof (induction ps arbitrary: v)
  case (Cons p ps)
  from push_total [OF Cons.prems, of p] obtain u where
    u: "push v p = Inr u" "invar u" "contents u = contents v @ [p]" by blast
  from Cons.IH [OF u(2)] u show ?case by auto
qed simp

end

lemma svec_push_back_items:
  assumes "svec_ok sv"
  shows "\<exists>sv'. svec_push_back sv p = Inr sv' \<and> svec_ok sv' \<and> items sv' = items sv @ [p]"
proof -
  have sh: "svec_shape sv" and un: "Uninit \<notin> set (sv_data sv)"
    using assms by (simp_all add: svec_ok_def)
  define sv1 where "sv1 = (if sv_size sv \<le> sv_spaces sv
     then sv\<lparr>sv_data := sv_data sv @ replicate (nat (sv_size sv)) Null, sv_size := sv_size sv * 2\<rparr>
     else sv)"
  have grow: "(if sv_size sv \<le> sv_spaces sv
         then let newSize = sv_size sv * 2 in
              bind_res (memset_slots (realloc_slots (sv_data sv) newSize) (sv_size sv) (sv_size sv))
                (\<lambda>d. Inr (sv\<lparr>sv_data := d, sv_size := newSize\<rparr>))
         else Inr sv) = Inr sv1"
    using sh by (simp add: sv1_def memset_slots_def realloc_slots_def svec_shape_def Let_def)
  have sp: "sv_spaces sv1 = sv_spaces sv" by (simp add: sv1_def)
  have sh1: "svec_shape sv1" "sv_spaces sv1 < sv_size sv1"
    using sh by (auto simp: sv1_def svec_shape_def)
  have it1: "items sv1 = items sv" using sh by (auto simp: sv1_def items_def svec_shape_def)
  have un1: "Uninit \<notin> set (sv_data sv1)" using un by (auto simp: sv1_def)
  let ?sv' = "sv1\<lparr>sv_spaces := sv_spaces sv1 + 1,
      sv_data := (sv_data sv1)[nat (sv_spaces sv1) := ptr_slot p]\<rparr>"
  have lt: "0 \<le> sv_spaces sv1" "sv_spaces sv1 < int (length (sv_data sv1))"
    using sh1 by (simp_all add: svec_shape_def)
  then have "sv_data sv1 ! nat (sv_spaces sv1) \<noteq> Uninit" using un1 by (metis nat_less_iff nth_mem)
  then have "svec_put (sv1\<lparr>sv_spaces := sv_spaces sv1 + 1\<rparr>) (sv_spaces sv) p = Inr ?sv'"
    using lt by (simp add: svec_put_def sp slot_ptr_init)
  then have "svec_push_back sv p = Inr ?sv'"
    by (simp only: svec_push_back_def Let_def grow [unfolded Let_def] bind_res_simps)
  moreover have "svec_ok ?sv'"
    using shape_write_end(1) [OF sh1] un1 set_update_subset_insert [of "sv_data sv1"]
    by (fastforce simp: svec_ok_def)
  moreover have "items ?sv' = items sv @ [p]"
    using shape_write_end(2) [OF sh1] it1 by simp
  ultimately show ?thesis by blast
qed

lemma hw05_svec_push_back_items:
  assumes "hw05_ok sv"
  shows "\<exists>sv'. hw05_svec_push_back sv p = Inr sv' \<and> hw05_ok sv' \<and> items sv' = items sv @ [p]"
proof -
  have sh: "svec_shape sv" using assms by (simp add: hw05_ok_def)
  define sv1 where "sv1 = (if sv_size sv \<le> sv_spaces sv
     then sv\<lparr>sv_data := realloc_slots (sv_data sv) (sv_size sv * 2), sv_size := sv_size sv * 2\<rparr>
     else sv)"
  have sp: "sv_spaces sv1 = sv_spaces sv" by (simp add: sv1_def)
  have sh1: "svec_shape sv1" "sv_spaces sv1 < sv_size sv1"
    using sh by (auto simp: sv1_def svec_shape_def realloc_slots_def)
  have tk: "take (nat (sv_spaces sv)) (sv_data sv1) = take (nat (sv_spaces sv)) (sv_data sv)"
    using sh by (auto simp: sv1_def svec_shape_def realloc_slots_def)
  let ?sv' = "sv1\<lparr>sv_spaces := sv_spaces sv1 + 1,
      sv_data := (sv_data sv1)[nat (sv_spaces sv1) := ptr_slot p]\<rparr>"
  have lt: "0 \<le> sv_spaces sv1" "sv_spaces sv1 < int (length (sv_data sv1))"
    using sh1 by (simp_all add: svec_shape_def)
  then have "hw05_svec_push_back sv p = Inr ?sv'"
    using sp by (simp add: hw05_svec_push_back_def Let_def hw05_svec_put_def flip: sv1_def)
  moreover have "nat (sv_spaces sv1 + 1) = Suc (nat (sv_spaces sv1))" using lt by simp
  then have "hw05_ok ?sv'"
    using shape_write_end(1) [OF sh1] assms lt sp tk
    by (auto simp: hw05_ok_def take_Suc_conv_app_nth nat_less_iff)
  moreover have "items ?sv' = items sv @ [p]"
    using shape_write_end(2) [OF sh1] tk sp by (simp add: items_def)
  ultimately show ?thesis by blast
qed

interpretation shell_vec: string_vector make_svec svec_push_back items svec_ok
proof unfold_locales
  show "svec_ok make_svec" by (simp add: svec_ok_def svec_shape_def make_svec_def)
  show "items make_svec = []" by (simp add: items_def make_svec_def)
qed (rule svec_push_back_items)

interpretation hw05_vec: string_vector hw05_make_svec hw05_svec_push_back items hw05_ok
proof unfold_locales
  show "hw05_ok hw05_make_svec" by (simp add: hw05_ok_def svec_shape_def hw05_make_svec_def)
  show "items hw05_make_svec = []" by (simp add: items_def hw05_make_svec_def)
qed (rule hw05_svec_push_back_items)

section \<open>What the operations do\<close>

text \<open>
  \<^verbatim>\<open>svec_index_of\<close> stops at the first slot that holds the string or a null pointer, which
  \<^verbatim>\<open>strcmp\<close> then reads, and gives \<open>-1\<close> where there is none.
\<close>

lemma svec_index_loop_items:
  assumes "hw05_ok sv" and "0 \<le> ii"
  shows "svec_index_loop sv item ii =
    (case find (\<lambda>i. items sv ! i = None \<or> items sv ! i = Some item)
        [nat ii..<length (items sv)] of
       None \<Rightarrow> Inr (-1)
     | Some i \<Rightarrow> if items sv ! i = None then Inl NullDeref else Inr (int i))"
  using assms
proof (induction sv item ii rule: svec_index_loop.induct)
  case (1 sv item ii)
  have sh: "svec_shape sv" using "1.prems" by (simp add: hw05_ok_def)
  have len: "length (items sv) = nat (sv_spaces sv)" by (rule length_items [OF sh])
  show ?case
  proof (cases "ii < sv_spaces sv")
    case True
    then have i: "nat ii < length (items sv)" using len "1.prems" by linarith
    have bnd: "rd (sv_data sv) ii = Inr (sv_data sv ! nat ii)"
      using True "1.prems" sh by (auto simp: svec_shape_def)
    have ptr: "slot_ptr (sv_data sv ! nat ii) = Inr (items sv ! nat ii)"
      using True "1.prems" len i hw05_ok_init [of sv "nat ii"] items_nth [OF sh, of "nat ii"]
      by (simp add: slot_ptr_init)
    have up: "[nat ii..<length (items sv)] = nat ii # [nat (ii + 1)..<length (items sv)]"
      using i "1.prems"(2) upt_conv_Cons [OF i] by (simp add: nat_add_distrib)
    show ?thesis
    proof (cases "items sv ! nat ii")
      case None
      then show ?thesis using True bnd ptr up by (simp add: svec_index_loop.simps [of sv])
    next
      case (Some t)
      show ?thesis
      proof (cases "t = item")
        case eq: True
        then show ?thesis
          using True bnd ptr Some up "1.prems" by (simp add: svec_index_loop.simps [of sv])
      next
        case False
        then show ?thesis
          using "1.IH" [OF True bnd ptr Some False] "1.prems" True bnd ptr Some up
          by (simp add: svec_index_loop.simps [of sv])
      qed
    qed
  next
    case False
    then have up: "[nat ii..<length (items sv)] = []" using len by simp
    show ?thesis using False by (simp add: svec_index_loop.simps [of sv] up)
  qed
qed

lemma svec_index_of_items:
  assumes "hw05_ok sv"
  shows "svec_index_of sv item =
    (case find (\<lambda>i. items sv ! i = None \<or> items sv ! i = Some item) [0..<length (items sv)] of
       None \<Rightarrow> Inr (-1)
     | Some i \<Rightarrow> if items sv ! i = None then Inl NullDeref else Inr (int i))"
  using svec_index_loop_items [OF assms, of 0 item] by (simp add: svec_index_of_def)

text \<open>In a vector without null pointers this is the first occurrence.\<close>

lemma svec_index_of_no_null:
  assumes "hw05_ok sv" and "None \<notin> set (items sv)"
  shows "svec_index_of sv item =
    (let k = length (takeWhile (\<lambda>p. p \<noteq> Some item) (items sv))
     in if k < length (items sv) then Inr (int k) else Inr (-1))"
proof -
  let ?xs = "items sv" and ?n = "length (takeWhile (\<lambda>p. p \<noteq> Some item) (items sv))"
  have no: "?xs ! i \<noteq> None" if "i < length ?xs" for i using that assms(2) by (metis nth_mem)
  have "find (\<lambda>i. ?xs ! i = None \<or> ?xs ! i = Some item) [0..<length ?xs] =
      (if ?n < length ?xs then Some ?n else None)"
  proof (cases "?n < length ?xs")
    case True
    have "?xs ! i \<noteq> None \<and> ?xs ! i \<noteq> Some item" if i: "i < ?n" for i
      using no [of i] nth_mem [OF i] takeWhile_nth [OF i] i True by (auto dest: set_takeWhileD)
    then have "find (\<lambda>i. ?xs ! i = None \<or> ?xs ! i = Some item) [0..<length ?xs] = Some ?n"
      using nth_length_takeWhile [OF True] True by (intro find_upt) auto
    with True show ?thesis by simp
  next
    case False
    then have "takeWhile (\<lambda>p. p \<noteq> Some item) ?xs = ?xs"
      using takeWhile_eq_take [of "\<lambda>p. p \<noteq> Some item" ?xs] by simp
    then have "Some item \<notin> set ?xs" by (auto simp: takeWhile_eq_all_conv)
    then show ?thesis using False no by (auto simp: find_None_iff) (metis nth_mem)
  qed
  then show ?thesis using no [of ?n] by (auto simp: svec_index_of_items [OF assms(1)] Let_def)
qed

lemma sub_svec_loop_items:
  assumes "svec_ok sv" and "svec_ok new_sv" and "0 \<le> ii" and "end_index \<le> sv_spaces sv"
  shows "\<exists>new'. sub_svec_loop new_sv sv ii end_index = Inr new' \<and> svec_ok new' \<and>
    items new' = items new_sv @ take (nat (end_index - ii)) (drop (nat ii) (items sv))"
  using assms
proof (induction new_sv sv ii end_index rule: sub_svec_loop.induct)
  case (1 new_sv sv ii end_index)
  show ?case
  proof (cases "ii < end_index")
    case True
    have ok: "hw05_ok sv" using "1.prems" by (simp add: svec_ok_hw05)
    have get: "svec_get sv ii = Inr (items sv ! nat ii)"
      using True "1.prems" by (intro svec_get_items [OF ok]) auto
    have len: "length (items sv) = nat (sv_spaces sv)"
      using "1.prems" by (intro length_items) (simp add: svec_ok_def)
    from svec_push_back_items [OF "1.prems"(2), of "items sv ! nat ii"] obtain n1 where
      n1: "svec_push_back new_sv (items sv ! nat ii) = Inr n1" "svec_ok n1"
          "items n1 = items new_sv @ [items sv ! nat ii]" by blast
    have i: "nat ii < length (items sv)" using True "1.prems" len by linarith
    have k: "nat (end_index - ii) = Suc (nat (end_index - (ii + 1)))" using True by linarith
    have i1: "nat (ii + 1) = Suc (nat ii)" using "1.prems" by linarith
    from "1.IH" [OF True get n1(1)] "1.prems" n1(2) obtain n2 where
      "sub_svec_loop n1 sv (ii + 1) end_index = Inr n2" "svec_ok n2"
      "items n2 = items n1 @ take (nat (end_index - (ii + 1))) (drop (nat (ii + 1)) (items sv))"
      by auto
    then show ?thesis
      using True get n1 Cons_nth_drop_Suc [OF i, symmetric]
      by (simp add: sub_svec_loop.simps [of new_sv] k i1)
  next
    case False
    with "1.prems" show ?thesis by (simp add: sub_svec_loop.simps [of new_sv])
  qed
qed

text \<open>\<^verbatim>\<open>sub_svec\<close> copies the section of the contents it is asked for.\<close>

lemma sub_svec_items:
  assumes "svec_ok sv" and "0 \<le> a" and "b \<le> sv_spaces sv"
  shows "\<exists>sv'. sub_svec sv a b = Inr sv' \<and> svec_ok sv' \<and>
    items sv' = take (nat (b - a)) (drop (nat a) (items sv))"
  using sub_svec_loop_items [OF assms(1) shell_vec.mk_invar assms(2,3)] assms
  by (simp add: sub_svec_def shell_vec.mk_contents)

lemma svec_clone_items:
  assumes "svec_ok sv"
  shows "\<exists>sv'. svec_clone sv = Inr sv' \<and> svec_ok sv' \<and> items sv' = items sv"
proof -
  have "length (items sv) = nat (sv_spaces sv)"
    using assms by (intro length_items) (simp add: svec_ok_def)
  then show ?thesis
    using sub_svec_items [OF assms, of 0 "sv_spaces sv"] by (simp add: svec_clone_def)
qed

lemma svec_push_back_spaces:
  "svec_push_back sv p = Inr sv' \<Longrightarrow> sv_spaces sv' = sv_spaces sv + 1"
  by (auto simp: svec_push_back_def svec_put_def Let_def bind_res_eq_Inr split: if_splits)

lemma sub_svec_loop_spaces:
  "sub_svec_loop new_sv sv ii end_index = Inr sv' \<Longrightarrow> ii \<le> end_index \<Longrightarrow>
   sv_spaces sv' = sv_spaces new_sv + (end_index - ii)"
proof (induction new_sv sv ii end_index rule: sub_svec_loop.induct)
  case (1 new_sv sv ii end_index)
  show ?case
  proof (cases "ii < end_index")
    case True
    with "1.prems" obtain p n1 where "svec_get sv ii = Inr p" "svec_push_back new_sv p = Inr n1"
      "sub_svec_loop n1 sv (ii + 1) end_index = Inr sv'"
      by (auto simp: sub_svec_loop.simps [of new_sv] bind_res_eq_Inr)
    with "1.IH" [OF True] True show ?thesis by (force dest: svec_push_back_spaces)
  next
    case False
    with "1.prems" show ?thesis by (simp add: sub_svec_loop.simps [of new_sv])
  qed
qed

lemma sub_svec_spaces:
  "sub_svec sv a b = Inr sv' \<Longrightarrow> a \<le> b \<Longrightarrow> sv_spaces sv' = b - a"
  using sub_svec_loop_spaces [of make_svec sv a b sv']
  by (simp add: sub_svec_def make_svec_def split: if_splits)

lemma svec_index_loop_range:
  "svec_index_loop sv item ii = Inr k \<Longrightarrow> k = -1 \<or> ii \<le> k \<and> k < sv_spaces sv"
proof (induction sv item ii rule: svec_index_loop.induct)
  case (1 sv item ii)
  show ?case
  proof (cases "ii < sv_spaces sv")
    case True
    with "1.prems" obtain s t where s: "rd (sv_data sv) ii = Inr s" "slot_ptr s = Inr (Some t)"
      and rest: "(if t = item then Inr ii else svec_index_loop sv item (ii + 1)) = Inr k"
      by (auto simp: svec_index_loop.simps [of sv] bind_res_eq_Inr split: option.splits)
    show ?thesis
    proof (cases "t = item")
      case eq: True
      then show ?thesis using rest True by simp
    next
      case False
      with "1.IH" [OF True s refl False] rest show ?thesis by auto
    qed
  next
    case False
    with "1.prems" show ?thesis by (simp add: svec_index_loop.simps [of sv])
  qed
qed

subsection \<open>Swapping, reversing, printing, releasing\<close>

lemma svec_swap_items:
  assumes "hw05_ok sv" "0 \<le> ii" "ii < sv_spaces sv" "0 \<le> jj" "jj < sv_spaces sv"
  shows "\<exists>sv'. svec_swap sv ii jj = Inr sv' \<and> hw05_ok sv' \<and> sv_spaces sv' = sv_spaces sv \<and>
    items sv' = (items sv)[nat ii := items sv ! nat jj, nat jj := items sv ! nat ii]"
proof -
  have sh: "svec_shape sv" using assms(1) by (simp add: hw05_ok_def)
  let ?d = "(sv_data sv)[nat ii := ptr_slot (items sv ! nat jj), nat jj := ptr_slot (items sv ! nat ii)]"
  have "svec_swap sv ii jj = Inr (sv\<lparr>sv_data := ?d\<rparr>)"
    using assms sh svec_get_items [OF assms(1-3)] svec_get_items [OF assms(1,4,5)]
    by (simp add: svec_swap_def svec_shape_def)
  moreover have "hw05_ok (sv\<lparr>sv_data := ?d\<rparr>)"
    using assms hw05_ok_init [OF assms(1)] sh
    by (auto simp: hw05_ok_iff svec_shape_def nth_list_update split: if_splits)
  moreover have "items (sv\<lparr>sv_data := ?d\<rparr>) =
      (items sv)[nat ii := items sv ! nat jj, nat jj := items sv ! nat ii]"
    by (simp add: items_def take_update_swap map_update)
  ultimately show ?thesis by fastforce
qed

lemma reverse_step_nth:
  fixes xs :: "'a list"
  assumes "length xs = n" and "i < n - Suc i" and "j < n"
  defines "ys \<equiv> xs[i := xs ! (n - Suc i), n - Suc i := xs ! i]"
  shows "(if Suc i \<le> j \<and> j < n - Suc i then ys ! (n - Suc j) else ys ! j) =
    (if i \<le> j \<and> j < n - i then xs ! (n - Suc j) else xs ! j)"
proof -
  have ni: "n - i = Suc (n - Suc i)" using assms by linarith
  consider "j = i" | "j = n - Suc i" | "i < j" "j < n - Suc i" | "j < i" | "n - Suc i < j"
    by linarith
  then show ?thesis
  proof cases
    case 3
    then have "n - Suc j \<noteq> i" "n - Suc j \<noteq> n - Suc i" "j < n - i" using assms by linarith+
    with 3 assms show ?thesis by (simp add: ys_def)
  qed (use assms in \<open>simp_all add: ys_def ni\<close>)
qed

lemma svec_reverse_loop_items:
  assumes "hw05_ok sv" "0 \<le> ii"
  shows "\<exists>sv'. svec_reverse_loop sv ii = Inr sv' \<and> hw05_ok sv' \<and> sv_spaces sv' = sv_spaces sv \<and>
    (\<forall>j < nat (sv_spaces sv). items sv' ! j =
       (if nat ii \<le> j \<and> j < nat (sv_spaces sv) - nat ii
        then items sv ! (nat (sv_spaces sv) - Suc j) else items sv ! j))"
  using assms
proof (induction sv ii rule: svec_reverse_loop.induct)
  case (1 sv ii)
  let ?n = "nat (sv_spaces sv)"
  have len: "length (items sv) = ?n"
    using "1.prems" by (intro length_items) (simp add: hw05_ok_def)
  show ?case
  proof (cases "ii < sv_spaces sv div 2")
    case True
    let ?jj = "sv_spaces sv - ii - 1"
    have b: "ii < sv_spaces sv" "0 \<le> ?jj" "?jj < sv_spaces sv" "ii < ?jj" "nat ?jj = ?n - Suc (nat ii)"
      using True "1.prems" by linarith+
    from svec_swap_items [OF "1.prems" b(1,2,3)] obtain s1 where
      s1: "svec_swap sv ii ?jj = Inr s1" "hw05_ok s1" "sv_spaces s1 = sv_spaces sv"
          "items s1 = (items sv)[nat ii := items sv ! nat ?jj, nat ?jj := items sv ! nat ii]" by blast
    from "1.IH" [OF True s1(1,2)] "1.prems" s1(3) obtain s2 where
      s2: "svec_reverse_loop s1 (ii + 1) = Inr s2" "hw05_ok s2" "sv_spaces s2 = sv_spaces sv"
          "\<forall>j < ?n. items s2 ! j = (if nat (ii + 1) \<le> j \<and> j < ?n - nat (ii + 1)
             then items s1 ! (?n - Suc j) else items s1 ! j)" by auto
    have "items s2 ! j = (if nat ii \<le> j \<and> j < ?n - nat ii then items sv ! (?n - Suc j)
        else items sv ! j)" if j: "j < ?n" for j
    proof -
      have "nat (ii + 1) = Suc (nat ii)" using "1.prems" by linarith
      moreover have "nat ii < ?n - Suc (nat ii)" using b "1.prems" by linarith
      ultimately show ?thesis
        using s2(4) [rule_format, OF j] reverse_step_nth [OF len, of "nat ii" j] j
        unfolding s1(4) b(5) by presburger
    qed
    then show ?thesis using True s1 s2 by (simp add: svec_reverse_loop.simps [of sv])
  next
    case False
    have "items sv ! j = items sv ! (?n - Suc j)" if "nat ii \<le> j" "j < ?n - nat ii" "j < ?n" for j
    proof -
      have "?n - Suc j = j" using that False "1.prems" by linarith
      then show ?thesis by simp
    qed
    then show ?thesis using False "1.prems" by (auto simp: svec_reverse_loop.simps [of sv])
  qed
qed

lemma svec_reverse_items:
  assumes "hw05_ok sv"
  shows "\<exists>sv'. svec_reverse sv = Inr sv' \<and> hw05_ok sv' \<and> items sv' = rev (items sv)"
proof -
  from svec_reverse_loop_items [OF assms order_refl] obtain sv' where
    sv': "svec_reverse sv = Inr sv'" "hw05_ok sv'" "sv_spaces sv' = sv_spaces sv"
      "\<forall>j < nat (sv_spaces sv). items sv' ! j = items sv ! (nat (sv_spaces sv) - Suc j)"
    by (auto simp: svec_reverse_def)
  have "length (items sv) = nat (sv_spaces sv)" "length (items sv') = nat (sv_spaces sv)"
    using assms sv' by (simp_all add: length_items hw05_ok_def)
  then have "items sv' = rev (items sv)"
    using sv'(4) by (intro nth_equalityI) (simp_all add: rev_nth)
  with sv' show ?thesis by blast
qed

lemma svec_print_loop_items:
  assumes "hw05_ok sv" "0 \<le> ii"
  shows "svec_print_loop sv sep ii =
    (if None \<in> set (drop (nat ii) (items sv)) then Inl NullDeref
     else Inr (concat (map (\<lambda>p. the p @ sep) (drop (nat ii) (items sv)))))"
  using assms
proof (induction sv sep ii rule: svec_print_loop.induct)
  case (1 sv sep ii)
  have len: "length (items sv) = nat (sv_spaces sv)"
    using "1.prems" by (intro length_items) (simp add: hw05_ok_def)
  show ?case
  proof (cases "ii < sv_spaces sv")
    case True
    then have i: "nat ii < length (items sv)" using "1.prems" len by linarith
    have get: "svec_get sv ii = Inr (items sv ! nat ii)" using svec_get_items "1.prems" True by simp
    have dr: "drop (nat ii) (items sv) = items sv ! nat ii # drop (nat (ii + 1)) (items sv)"
      using i "1.prems"(2) Cons_nth_drop_Suc [OF i] by (simp add: nat_add_distrib)
    show ?thesis
    proof (cases "items sv ! nat ii")
      case None
      then show ?thesis using True get dr by (simp add: svec_print_loop.simps [of sv])
    next
      case (Some t)
      then show ?thesis
        using "1.IH" [OF True get Some] "1.prems" True get dr
        by (simp add: svec_print_loop.simps [of sv])
    qed
  next
    case False
    then show ?thesis using len by (simp add: svec_print_loop.simps [of sv])
  qed
qed

lemma free_svec_loop_items:
  assumes "hw05_ok sv" "0 \<le> ii"
  shows "free_svec_loop sv ii = Inr (drop (nat ii) (items sv))"
  using assms
proof (induction sv ii rule: free_svec_loop.induct)
  case (1 sv ii)
  have sh: "svec_shape sv" using "1.prems" by (simp add: hw05_ok_def)
  have len: "length (items sv) = nat (sv_spaces sv)" by (rule length_items [OF sh])
  show ?case
  proof (cases "ii < sv_spaces sv")
    case True
    then have i: "nat ii < length (items sv)" using "1.prems" len by linarith
    have r: "rd (sv_data sv) ii = Inr (sv_data sv ! nat ii)"
      using True "1.prems" sh by (auto simp: svec_shape_def)
    have p: "slot_ptr (sv_data sv ! nat ii) = Inr (items sv ! nat ii)"
      using True "1.prems" len i hw05_ok_init [of sv "nat ii"] items_nth [OF sh, of "nat ii"]
      by (simp add: slot_ptr_init)
    have "drop (nat ii) (items sv) = items sv ! nat ii # drop (nat (ii + 1)) (items sv)"
      using Cons_nth_drop_Suc [OF i] "1.prems"(2) by (simp add: nat_add_distrib)
    then show ?thesis
      using "1.IH" [OF True r p] "1.prems" True r p by (simp add: free_svec_loop.simps [of sv])
  next
    case False
    then show ?thesis using len by (simp add: free_svec_loop.simps [of sv])
  qed
qed

section \<open>Sequences of operations\<close>

text \<open>
  The operations that change a vector or replace it by a section of itself, run on the
  vector by the code and on a list by the specification, where an index or a section
  outside the list is the failed \<^verbatim>\<open>assert\<close>.
\<close>

datatype svec_op =
    Push "string option"
  | Put int "string option"
  | Swap int int
  | Reverse
  | Sub int int

fun run_op :: "svec_op \<Rightarrow> svec \<Rightarrow> svec res" where
  "run_op (Push p) sv = svec_push_back sv p"
| "run_op (Put ii p) sv = svec_put sv ii p"
| "run_op (Swap ii jj) sv = svec_swap sv ii jj"
| "run_op Reverse sv = svec_reverse sv"
| "run_op (Sub a b) sv = sub_svec sv a b"

fun run_ops :: "svec_op list \<Rightarrow> svec \<Rightarrow> svec res" where
  "run_ops [] sv = Inr sv"
| "run_ops (c # cs) sv = bind_res (run_op c sv) (run_ops cs)"

definition inside :: "'a list \<Rightarrow> int \<Rightarrow> bool" where
  "inside xs i \<longleftrightarrow> 0 \<le> i \<and> i < int (length xs)"

fun list_op :: "svec_op \<Rightarrow> string option list \<Rightarrow> string option list res" where
  "list_op (Push p) xs = Inr (xs @ [p])"
| "list_op (Put i p) xs = (if inside xs i then Inr (xs[nat i := p]) else Inl AssertFailed)"
| "list_op (Swap i j) xs =
     (if inside xs i \<and> inside xs j
      then Inr (xs[nat i := xs ! nat j, nat j := xs ! nat i]) else Inl AssertFailed)"
| "list_op Reverse xs = Inr (rev xs)"
| "list_op (Sub a b) xs =
     (if 0 \<le> a \<and> b \<le> int (length xs)
      then Inr (take (nat (b - a)) (drop (nat a) xs)) else Inl AssertFailed)"

fun list_ops :: "svec_op list \<Rightarrow> string option list \<Rightarrow> string option list res" where
  "list_ops [] xs = Inr xs"
| "list_ops (c # cs) xs = bind_res (list_op c xs) (list_ops cs)"

text \<open>What a search finds in a list: the first occurrence, unless a null pointer comes before it.\<close>

definition first_index :: "string option list \<Rightarrow> string \<Rightarrow> int res" where
  "first_index xs item =
     (case find (\<lambda>i. xs ! i = None \<or> xs ! i = Some item) [0..<length xs] of
        None \<Rightarrow> Inr (-1)
      | Some i \<Rightarrow> if xs ! i = None then Inl NullDeref else Inr (int i))"

definition shown :: "string option list \<Rightarrow> string \<Rightarrow> string res" where
  "shown xs sep =
     (if None \<in> set xs then Inl NullDeref else Inr (concat (map (\<lambda>p. the p @ sep) xs)))"

text \<open>The invariant of a sequence: well formed, and the array at most twice as long as needed.\<close>

definition svec_fit :: "svec \<Rightarrow> bool" where
  "svec_fit sv \<longleftrightarrow> svec_ok sv \<and> sv_size sv \<le> max 2 (2 * sv_spaces sv)"

lemma svec_fit_spaces: "svec_fit sv \<Longrightarrow> sv_spaces sv = int (length (items sv))"
  using length_items [of sv] by (auto simp: svec_fit_def svec_ok_def svec_shape_def)

lemma svec_fit_make [simp]: "svec_fit make_svec" "items make_svec = []"
  using shell_vec.mk_invar shell_vec.mk_contents by (simp_all add: svec_fit_def make_svec_def)

lemma svec_same_size:
  "svec_put sv ii p = Inr sv' \<Longrightarrow> sv_size sv' = sv_size sv \<and> sv_spaces sv' = sv_spaces sv"
  "svec_swap sv ii jj = Inr sv' \<Longrightarrow> sv_size sv' = sv_size sv \<and> sv_spaces sv' = sv_spaces sv"
  by (auto simp: svec_put_def svec_swap_def bind_res_eq_Inr split: if_splits)

lemma push_size_bound:
  assumes "svec_fit sv" and "svec_push_back sv p = Inr sv'"
  shows "sv_size sv' \<le> max 2 (2 * sv_spaces sv')"
  using assms svec_push_back_spaces [OF assms(2)]
  by (auto simp: svec_push_back_def svec_fit_def svec_ok_def svec_shape_def Let_def
      bind_res_eq_Inr dest!: svec_same_size split: if_splits)

lemma push_fit:
  assumes "svec_fit sv"
  shows "\<exists>sv'. svec_push_back sv p = Inr sv' \<and> svec_fit sv' \<and> items sv' = items sv @ [p]"
proof -
  have ok: "svec_ok sv" using assms by (simp add: svec_fit_def)
  obtain sv' where
    "svec_push_back sv p = Inr sv'" "svec_ok sv'" "items sv' = items sv @ [p]"
    using svec_push_back_items [OF ok, of p] by blast
  then show ?thesis using push_size_bound [OF assms] by (auto simp: svec_fit_def)
qed

lemma sub_svec_loop_fit:
  "sub_svec_loop new_sv sv ii b = Inr sv' \<Longrightarrow> svec_fit new_sv \<Longrightarrow> svec_fit sv'"
proof (induction new_sv sv ii b rule: sub_svec_loop.induct)
  case (1 new_sv sv ii b)
  show ?case
  proof (cases "ii < b")
    case True
    with "1.prems"(1) obtain p n1 where p: "svec_get sv ii = Inr p"
      "svec_push_back new_sv p = Inr n1" "sub_svec_loop n1 sv (ii + 1) b = Inr sv'"
      by (auto simp: sub_svec_loop.simps [of new_sv] bind_res_eq_Inr)
    moreover have "svec_fit n1" using push_fit [OF "1.prems"(2), of p] p(2) by auto
    ultimately show ?thesis using "1.IH" [OF True p(1,2)] by blast
  next
    case False
    with "1.prems" show ?thesis by (simp add: sub_svec_loop.simps [of new_sv])
  qed
qed

text \<open>Writing any slots that are in use leaves a fitting vector.\<close>

lemma svec_put_run:
  assumes "svec_fit sv"
  shows "case list_op (Put ii p) (items sv) of
      Inl e \<Rightarrow> svec_put sv ii p = Inl e
    | Inr ys \<Rightarrow> \<exists>sv'. svec_put sv ii p = Inr sv' \<and> svec_fit sv' \<and> items sv' = ys"
proof (cases "inside (items sv) ii")
  case True
  note sp = svec_fit_spaces [OF assms]
  have ok: "svec_ok sv" "svec_shape sv" using assms by (auto simp: svec_fit_def svec_ok_def)
  have i: "0 \<le> ii" "ii < sv_spaces sv" "ii < int (length (sv_data sv))"
    using True ok sp by (auto simp: inside_def svec_shape_def)
  have "sv_data sv ! nat ii \<noteq> Uninit"
    using hw05_ok_init [OF svec_ok_hw05 [OF ok(1)], of "nat ii"] i by simp
  then have "svec_put sv ii p = Inr (sv\<lparr>sv_data := (sv_data sv)[nat ii := ptr_slot p]\<rparr>)"
    using i by (simp add: svec_put_def slot_ptr_init)
  moreover have "svec_fit (sv\<lparr>sv_data := (sv_data sv)[nat ii := ptr_slot p]\<rparr>)"
    using assms set_update_subset_insert [of "sv_data sv" "nat ii" "ptr_slot p"]
    by (fastforce simp: svec_fit_def svec_ok_def svec_shape_def)
  moreover have "items (sv\<lparr>sv_data := (sv_data sv)[nat ii := ptr_slot p]\<rparr>) =
      (items sv)[nat ii := p]"
    by (simp add: items_def take_update_swap map_update)
  ultimately show ?thesis using True by simp
next
  case False
  then show ?thesis using svec_fit_spaces [OF assms] by (auto simp: inside_def svec_put_def)
qed

lemma svec_get_run:
  assumes "svec_fit sv"
  shows "svec_get sv ii =
    (if inside (items sv) ii then Inr (items sv ! nat ii) else Inl AssertFailed)"
  using svec_get_items [OF svec_ok_hw05, of sv ii] svec_fit_spaces [OF assms] assms
  by (auto simp: inside_def svec_get_def svec_fit_def)

lemma svec_swap_run:
  assumes "svec_fit sv"
  shows "case list_op (Swap ii jj) (items sv) of
      Inl e \<Rightarrow> svec_swap sv ii jj = Inl e
    | Inr ys \<Rightarrow> \<exists>sv'. svec_swap sv ii jj = Inr sv' \<and> svec_fit sv' \<and> items sv' = ys"
proof (cases "inside (items sv) ii \<and> inside (items sv) jj")
  case True
  note sp = svec_fit_spaces [OF assms]
  let ?d = "(sv_data sv)[nat ii := ptr_slot (items sv ! nat jj), nat jj := ptr_slot (items sv ! nat ii)]"
  have "svec_swap sv ii jj = Inr (sv\<lparr>sv_data := ?d\<rparr>)"
    using True sp assms
    by (simp add: svec_swap_def svec_get_run inside_def svec_fit_def svec_ok_def svec_shape_def)
  moreover have "set ?d \<subseteq> insert (ptr_slot (items sv ! nat ii))
      (insert (ptr_slot (items sv ! nat jj)) (set (sv_data sv)))"
    by (rule order_trans [OF set_update_subset_insert insert_mono [OF set_update_subset_insert]])
  then have "Uninit \<notin> set ?d" using assms by (auto simp: svec_fit_def svec_ok_def)
  then have "svec_fit (sv\<lparr>sv_data := ?d\<rparr>)"
    using assms by (simp add: svec_fit_def svec_ok_def svec_shape_def)
  moreover have "items (sv\<lparr>sv_data := ?d\<rparr>) =
      (items sv)[nat ii := items sv ! nat jj, nat jj := items sv ! nat ii]"
    by (simp add: items_def take_update_swap map_update)
  ultimately show ?thesis using True by simp
next
  case False
  then show ?thesis using svec_get_run [OF assms] by (auto simp: svec_swap_def)
qed

lemma svec_reverse_loop_fit:
  "svec_reverse_loop sv ii = Inr sv' \<Longrightarrow> svec_fit sv \<Longrightarrow> svec_fit sv'"
proof (induction sv ii rule: svec_reverse_loop.induct)
  case (1 sv ii)
  show ?case
  proof (cases "ii < sv_spaces sv div 2")
    case True
    with "1.prems"(1) obtain s1 where s1: "svec_swap sv ii (sv_spaces sv - ii - 1) = Inr s1"
      "svec_reverse_loop s1 (ii + 1) = Inr sv'"
      by (auto simp: svec_reverse_loop.simps [of sv] bind_res_eq_Inr)
    moreover have "svec_fit s1"
      using svec_swap_run [OF "1.prems"(2), of ii "sv_spaces sv - ii - 1"] s1(1)
      by (auto split: sum.splits)
    ultimately show ?thesis using "1.IH" [OF True s1(1)] by blast
  next
    case False
    with "1.prems" show ?thesis by (simp add: svec_reverse_loop.simps [of sv])
  qed
qed

lemma run_op_list:
  assumes "svec_fit sv"
  shows "case list_op c (items sv) of
      Inl e \<Rightarrow> run_op c sv = Inl e
    | Inr ys \<Rightarrow> \<exists>sv'. run_op c sv = Inr sv' \<and> svec_fit sv' \<and> items sv' = ys"
proof (cases c)
  case (Push p)
  then show ?thesis using push_fit [OF assms, of p] by simp
next
  case (Put ii p)
  then show ?thesis using svec_put_run [OF assms, of ii p] by (simp split: if_splits)
next
  case (Swap ii jj)
  then show ?thesis using svec_swap_run [OF assms, of ii jj] by (simp split: if_splits)
next
  case Reverse
  then show ?thesis
    using svec_reverse_items [OF svec_ok_hw05, of sv] assms svec_reverse_loop_fit [of sv 0]
    by (auto simp: svec_reverse_def svec_fit_def)
next
  case (Sub a b)
  then show ?thesis
    using sub_svec_items [of sv a b] svec_fit_spaces [OF assms] assms
      sub_svec_loop_fit [of make_svec sv a b, OF _ svec_fit_make(1)]
    by (auto simp: sub_svec_def svec_fit_def)
qed

lemma run_ops_list:
  assumes "svec_fit sv"
  shows "case list_ops cs (items sv) of
      Inl e \<Rightarrow> run_ops cs sv = Inl e
    | Inr ys \<Rightarrow> \<exists>sv'. run_ops cs sv = Inr sv' \<and> svec_fit sv' \<and> items sv' = ys"
  using assms
proof (induction cs arbitrary: sv)
  case (Cons c cs)
  show ?case
  proof (cases "list_op c (items sv)")
    case (Inr ys)
    then obtain sv' where "run_op c sv = Inr sv'" "svec_fit sv'" "items sv' = ys"
      using run_op_list [OF Cons.prems, of c] by auto
    then show ?thesis using Inr Cons.IH [of sv'] by (simp split: sum.splits)
  qed (use run_op_list [OF Cons.prems, of c] in simp)
qed simp

lemma first_index_run:
  assumes "svec_fit sv"
  shows "svec_index_of sv item = first_index (items sv) item"
  using svec_index_of_items [OF svec_ok_hw05, of sv item] assms
  by (simp add: first_index_def svec_fit_def)

lemma shown_run:
  assumes "svec_fit sv"
  shows "svec_print sv sep = shown (items sv) sep"
  using svec_print_loop_items [OF svec_ok_hw05, of sv 0 sep] assms
  by (simp add: shown_def svec_print_def svec_fit_def)

section \<open>Properties\<close>

text \<open>
  C2. The vector is a faithful list of strings: from the empty vector, any sequence of
  \<^verbatim>\<open>svec_push_back\<close>, \<^verbatim>\<open>svec_put\<close>, \<^verbatim>\<open>svec_swap\<close>, \<^verbatim>\<open>svec_reverse\<close> and \<^verbatim>\<open>sub_svec\<close> stops with a
  failed \<^verbatim>\<open>assert\<close> exactly where an index or a section is outside the list, and otherwise
  leaves a well-formed vector with the contents of the list. \<^verbatim>\<open>svec_length\<close> is then its
  length, \<^verbatim>\<open>svec_get\<close> its element at every index inside and a failed \<^verbatim>\<open>assert\<close> outside,
  \<^verbatim>\<open>svec_index_of\<close> the first occurrence or \<open>-1\<close>, \<^verbatim>\<open>svec_print\<close> its strings with the
  separator after each (these two read a null pointer where one is stored on their way),
  and \<^verbatim>\<open>free_svec\<close> releases each stored string exactly once. The sizes are unbounded integers;
  the array is at most \<open>max 2 (2 * n)\<close> slots for \<open>n\<close> strings, so the code's \<^verbatim>\<open>int\<close>
  arithmetic agrees while there are fewer than \<open>2 ^ 30\<close> strings.
\<close>

theorem svec_sequence:
  "case list_ops cs [] of
     Inl e \<Rightarrow> run_ops cs make_svec = Inl e
   | Inr xs \<Rightarrow> \<exists>sv. run_ops cs make_svec = Inr sv \<and> svec_ok sv \<and> items sv = xs \<and>
       svec_length sv = int (length xs) \<and>
       (\<forall>ii. svec_get sv ii = (if inside xs ii then Inr (xs ! nat ii) else Inl AssertFailed)) \<and>
       (\<forall>item. svec_index_of sv item = first_index xs item) \<and>
       (\<forall>sep. svec_print sv sep = shown xs sep) \<and>
       free_svec (Some sv) = Inr xs \<and>
       sv_size sv \<le> max 2 (2 * int (length xs))"
proof (cases "list_ops cs []")
  case (Inl e)
  then show ?thesis using run_ops_list [OF svec_fit_make(1), of cs] by simp
next
  case (Inr xs)
  then obtain sv where sv: "run_ops cs make_svec = Inr sv" "svec_fit sv" "items sv = xs"
    using run_ops_list [OF svec_fit_make(1), of cs] by auto
  moreover have "free_svec (Some sv) = Inr xs"
    using free_svec_loop_items [OF svec_ok_hw05, of sv 0] sv by (simp add: free_svec_def svec_fit_def)
  ultimately show ?thesis
    using Inr svec_fit_spaces [OF sv(2)] first_index_run [OF sv(2)] shown_run [OF sv(2)]
      svec_get_run [OF sv(2)]
    by (simp add: svec_length_def svec_fit_def)
qed

theorem svec_sequence_witness:
  "\<exists>sv. run_ops [Push (Some ''a''), Push None, Push (Some ''b''), Put 1 (Some ''c''), Swap 0 2,
       Push (Some ''c''), Reverse, Sub 0 3] make_svec = Inr sv \<and>
     items sv = [Some ''c'', Some ''a'', Some ''c''] \<and> svec_get sv 1 = Inr (Some ''a'') \<and>
     svec_get sv 3 = Inl AssertFailed \<and> svec_index_of sv ''c'' = Inr 0"
  using svec_sequence [of "[Push (Some ''a''), Push None, Push (Some ''b''), Put 1 (Some ''c''),
      Swap 0 2, Push (Some ''c''), Reverse, Sub 0 3]"]
  by (auto simp: inside_def first_index_def upt_rec eval_nat_numeral)

text \<open>
  The vector of \<^verbatim>\<open>hw04\<close> cannot store its first string without undefined behaviour: the
  slot it writes was never initialised, and \<^verbatim>\<open>svec_put\<close> passes its contents to \<^verbatim>\<open>free\<close>. The
  same push is fine with the vectors of \<^verbatim>\<open>hw05\<close> and of the shell.
\<close>

theorem hw04_push_back_undefined:
  "hw04_svec_push_back hw04_make_svec p = Inl Undefined \<and>
   (\<exists>sv. hw05_svec_push_back hw05_make_svec p = Inr sv \<and> items sv = [p]) \<and>
   (\<exists>sv. svec_push_back make_svec p = Inr sv \<and> items sv = [p])"
proof (intro conjI)
  show "hw04_svec_push_back hw04_make_svec p = Inl Undefined"
    by (simp add: hw04_svec_push_back_def hw04_make_svec_def hw04_svec_put_def slot_ptr_def Let_def)
  show "\<exists>sv. hw05_svec_push_back hw05_make_svec p = Inr sv \<and> items sv = [p]"
    using hw05_vec.push_total [OF hw05_vec.mk_invar, of p] by (auto simp: hw05_vec.mk_contents)
  show "\<exists>sv. svec_push_back make_svec p = Inr sv \<and> items sv = [p]"
    using shell_vec.push_total [OF shell_vec.mk_invar, of p] by (auto simp: shell_vec.mk_contents)
qed

end
