(* ===== verification/Tokens.thy ===== *)
theory Tokens
  imports Svec
begin

text \<open>
  The tokenizer of the shell, \<^verbatim>\<open>chal1/challenge01/tokens.c\<close>, and the program of
  \<^verbatim>\<open>hw05/starter-hw05/tokens.c\<close> built from the same functions on the other vector. The
  tokenizing functions take the vector's \<^verbatim>\<open>svec_push_back\<close> as an argument, since the two
  files differ in it only. Their specification \<open>lexes\<close> is declarative (maximal munch); it
  is proved once in the locale \<open>string_vector\<close> and used for both programs.
\<close>

section \<open>The code\<close>

definition is_op :: "char \<Rightarrow> bool" where
  "is_op x \<longleftrightarrow> x = CHR ''&'' \<or> x = CHR ''<'' \<or> x = CHR ''>'' \<or> x = CHR ''|'' \<or> x = CHR '';''"

text \<open>The C library's \<^verbatim>\<open>isspace\<close> in the C locale: space, \<^verbatim>\<open>\t \n \v \f \r\<close>.\<close>

definition isspace :: "char \<Rightarrow> bool" where
  "isspace c \<longleftrightarrow> c \<in> {CHR '' '', CHR 0x09, CHR 0x0A, CHR 0x0B, CHR 0x0C, CHR 0x0D}"

text \<open>
  The counting loop of \<^verbatim>\<open>add_op\<close> and \<^verbatim>\<open>add_token\<close>: advance while the index is inside the
  line and the character belongs to the token.
\<close>

function count_chars :: "(char \<Rightarrow> bool) \<Rightarrow> string \<Rightarrow> nat \<Rightarrow> nat \<Rightarrow> nat" where
  "count_chars P line start num_chars =
     (if num_chars + start < length line
      then if P (line ! (num_chars + start)) then count_chars P line start (num_chars + 1)
           else num_chars
      else num_chars)"
  by pat_completeness auto
termination
  by (relation "measure (\<lambda>(P, line, start, num_chars). length line - (num_chars + start))") auto

declare count_chars.simps [simp del]

definition add_op ::
  "('v \<Rightarrow> string option \<Rightarrow> 'v res) \<Rightarrow> 'v \<Rightarrow> string \<Rightarrow> nat \<Rightarrow> ('v \<times> nat) res" where
  "add_op push sv line start =
     (let num_chars = count_chars is_op line start 0;
          op_list = take num_chars (drop start line)
      in bind_res (push sv (Some op_list)) (\<lambda>sv'. Inr (sv', num_chars)))"

definition in_word :: "char \<Rightarrow> bool" where
  "in_word c \<longleftrightarrow> \<not> (is_op c \<or> isspace c)"

definition add_token ::
  "('v \<Rightarrow> string option \<Rightarrow> 'v res) \<Rightarrow> 'v \<Rightarrow> string \<Rightarrow> nat \<Rightarrow> ('v \<times> nat) res" where
  "add_token push sv line start =
     (let num_chars = count_chars in_word line start 0;
          token = take num_chars (drop start line)
      in bind_res (push sv (Some token)) (\<lambda>sv'. Inr (sv', num_chars)))"

lemma count_chars_takeWhile:
  "count_chars P line start n = n + length (takeWhile P (drop (n + start) line))"
proof (induction P line start n rule: count_chars.induct)
  case (1 P line start n)
  show ?case
  proof (cases "n + start < length line")
    case True
    then have "drop (n + start) line = line ! (n + start) # drop (n + 1 + start) line"
      by (simp add: Cons_nth_drop_Suc)
    then show ?thesis
      using 1 [OF True] True by (simp add: count_chars.simps [of P line])
  next
    case False
    then show ?thesis by (simp add: count_chars.simps [of P line])
  qed
qed

lemma count_chars_pos:
  assumes "start < length line" and "P (line ! start)"
  shows "0 < count_chars P line start 0"
  using assms Cons_nth_drop_Suc [OF assms(1), symmetric] by (simp add: count_chars_takeWhile)

function tokenize_loop ::
  "('v \<Rightarrow> string option \<Rightarrow> 'v res) \<Rightarrow> 'v \<Rightarrow> string \<Rightarrow> nat \<Rightarrow> 'v res" where
  "tokenize_loop push sv line ii =
     (if ii < length line
      then if isspace (line ! ii) then tokenize_loop push sv line (ii + 1)
           else if is_op (line ! ii)
           then bind_res (add_op push sv line ii) (\<lambda>(sv', n). tokenize_loop push sv' line (ii + n))
           else bind_res (add_token push sv line ii) (\<lambda>(sv', n). tokenize_loop push sv' line (ii + n))
      else Inr sv)"
  by pat_completeness auto
termination
proof (relation "measure (\<lambda>(push, sv, line, ii). length line - ii)", goal_cases)
  case (3 push sv line ii x sv' n)
  then have "0 < n" using count_chars_pos [of ii line is_op]
    by (auto simp: add_op_def Let_def bind_res_eq_Inr)
  with 3 show ?case by auto
next
  case (4 push sv line ii x sv' n)
  then have "0 < n" using count_chars_pos [of ii line in_word]
    by (auto simp: add_token_def Let_def bind_res_eq_Inr in_word_def)
  with 4 show ?case by auto
qed auto

declare tokenize_loop.simps [simp del]

definition tokenize :: "string \<Rightarrow> svec res" where
  "tokenize line = tokenize_loop svec_push_back make_svec line 0"

section \<open>The program of hw05\<close>

definition hw05_tokenize :: "string \<Rightarrow> svec res" where
  "hw05_tokenize line = tokenize_loop hw05_svec_push_back hw05_make_svec line 0"

definition hw05_svec_print :: "svec \<Rightarrow> string res" where
  "hw05_svec_print sv = svec_print_loop sv [CHR 0x0A] 0"

text \<open>
  Its main loop prints a prompt, reads a line and prints the tokens of the line in reverse
  order, until the end of the input; the result is everything it prints.
\<close>

function hw05_main :: "string \<Rightarrow> string res" where
  "hw05_main inp =
     (if inp = [] then Inr ''tokens$ ''
      else case fgets 256 inp of (line, rest) \<Rightarrow>
           bind_res (hw05_tokenize (cstr line)) (\<lambda>tokens.
           bind_res (svec_reverse tokens) (\<lambda>rev_tokens.
           bind_res (hw05_svec_print rev_tokens) (\<lambda>out.
           bind_res (hw05_main rest) (\<lambda>more. Inr (''tokens$ '' @ out @ more))))))"
  by pat_completeness auto
termination
  by (relation "measure length") (auto dest: fgets_shorter [OF sym])

declare hw05_main.simps [simp del]

section \<open>Specification\<close>

text \<open>
  A token is a non-empty run of operator characters or a non-empty run of word characters.
  A line lexes to the tokens \<open>ts\<close> if it is the tokens in order with white space around
  them, where a token is never followed by a character that could extend it.
\<close>

definition op_tok :: "string \<Rightarrow> bool" where
  "op_tok t \<longleftrightarrow> t \<noteq> [] \<and> (\<forall>c \<in> set t. is_op c)"

definition word_tok :: "string \<Rightarrow> bool" where
  "word_tok t \<longleftrightarrow> t \<noteq> [] \<and> (\<forall>c \<in> set t. in_word c)"

definition blank :: "string \<Rightarrow> bool" where
  "blank s \<longleftrightarrow> (\<forall>c \<in> set s. isspace c)"

inductive lexes :: "string \<Rightarrow> string list \<Rightarrow> bool" where
  lexes_end: "blank s \<Longrightarrow> lexes s []"
| lexes_op: "blank s \<Longrightarrow> op_tok t \<Longrightarrow> rest = [] \<or> \<not> is_op (hd rest) \<Longrightarrow> lexes rest ts \<Longrightarrow>
    lexes (s @ t @ rest) (t # ts)"
| lexes_word: "blank s \<Longrightarrow> word_tok t \<Longrightarrow> rest = [] \<or> \<not> in_word (hd rest) \<Longrightarrow> lexes rest ts \<Longrightarrow>
    lexes (s @ t @ rest) (t # ts)"

inductive_simps lexes_Nil: "lexes line []"

text \<open>The same specification as a function on the characters.\<close>

function tokens_of :: "string \<Rightarrow> string list" where
  "tokens_of [] = []"
| "tokens_of (c # cs) =
     (if isspace c then tokens_of cs
      else if is_op c then (c # takeWhile is_op cs) # tokens_of (dropWhile is_op cs)
      else (c # takeWhile in_word cs) # tokens_of (dropWhile in_word cs))"
  by pat_completeness auto
termination
  by (relation "measure length") (auto simp: le_imp_less_Suc length_dropWhile_le)

lemma not_space_op: "is_op c \<Longrightarrow> \<not> isspace c"
  by (auto simp: is_op_def isspace_def)

lemma blank_append: "blank s \<Longrightarrow> tokens_of (s @ cs) = tokens_of cs"
  by (induction s) (auto simp: blank_def)

lemma blank_lexes:
  assumes "lexes cs ts" and "isspace c"
  shows "lexes (c # cs) ts"
  using assms(1)
proof (cases rule: lexes.cases)
  case lexes_end
  with assms(2) show ?thesis by (auto simp: blank_def intro: lexes.lexes_end)
next
  case (lexes_op s t rest ts')
  with assms(2) show ?thesis
    using lexes.lexes_op [of "c # s" t rest ts'] by (auto simp: blank_def)
next
  case (lexes_word s t rest ts')
  with assms(2) show ?thesis
    using lexes.lexes_word [of "c # s" t rest ts'] by (auto simp: blank_def)
qed

lemma hd_dropWhile_stop: "dropWhile P xs = [] \<or> \<not> P (hd (dropWhile P xs))"
  by (metis hd_dropWhile)

lemma lexes_tokens_of: "lexes line (tokens_of line)"
proof (induction line rule: tokens_of.induct)
  case 1
  show ?case by (auto intro: lexes_end simp: blank_def)
next
  case (2 c cs)
  consider "isspace c" | "\<not> isspace c" "is_op c" | "\<not> isspace c" "\<not> is_op c" by blast
  then show ?case
  proof cases
    case 1
    with 2 show ?thesis by (simp add: blank_lexes)
  next
    case 2
    have "op_tok (c # takeWhile is_op cs)"
      using 2 by (auto simp: op_tok_def dest: set_takeWhileD)
    then have "lexes ([] @ (c # takeWhile is_op cs) @ dropWhile is_op cs)
        ((c # takeWhile is_op cs) # tokens_of (dropWhile is_op cs))"
      using "2.IH"(2) [OF 2] by (intro lexes_op hd_dropWhile_stop) (simp_all add: blank_def)
    with 2 show ?thesis by simp
  next
    case 3
    have "word_tok (c # takeWhile in_word cs)"
      using 3 by (auto simp: word_tok_def in_word_def dest: set_takeWhileD)
    then have "lexes ([] @ (c # takeWhile in_word cs) @ dropWhile in_word cs)
        ((c # takeWhile in_word cs) # tokens_of (dropWhile in_word cs))"
      using "2.IH"(3) [OF 3] by (intro lexes_word hd_dropWhile_stop) (simp_all add: blank_def)
    with 3 show ?thesis by simp
  qed
qed

lemma takeWhile_run:
  assumes "\<forall>c \<in> set t. P c" and "rest = [] \<or> \<not> P (hd rest)"
  shows "takeWhile P (t @ rest) = t" and "dropWhile P (t @ rest) = rest"
  using assms by (induction t; cases rest; simp)+

lemma tokens_of_op:
  assumes "op_tok t" and "rest = [] \<or> \<not> is_op (hd rest)"
  shows "tokens_of (t @ rest) = t # tokens_of rest"
proof -
  obtain c cs where t: "t = c # cs" using assms(1) by (cases t) (auto simp: op_tok_def)
  have cs: "\<forall>d \<in> set cs. is_op d" and c: "is_op c" using assms(1) by (auto simp: op_tok_def t)
  show ?thesis
    using takeWhile_run [OF cs assms(2)] c not_space_op [OF c] by (simp add: t)
qed

lemma tokens_of_word:
  assumes "word_tok t" and "rest = [] \<or> \<not> in_word (hd rest)"
  shows "tokens_of (t @ rest) = t # tokens_of rest"
proof -
  obtain c cs where t: "t = c # cs" using assms(1) by (cases t) (auto simp: word_tok_def)
  have cs: "\<forall>d \<in> set cs. in_word d" and c: "in_word c" using assms(1) by (auto simp: word_tok_def t)
  show ?thesis
    using takeWhile_run [OF cs assms(2)] c by (simp add: t in_word_def [of c])
qed

lemma tokens_of_lexes: "lexes line ts \<Longrightarrow> tokens_of line = ts"
proof (induction rule: lexes.induct)
  case (lexes_end s)
  then show ?case using blank_append [of s "[]"] by simp
next
  case (lexes_op s t rest ts)
  then show ?case by (simp add: blank_append tokens_of_op)
next
  case (lexes_word s t rest ts)
  then show ?case by (simp add: blank_append tokens_of_word)
qed

lemma lexes_iff: "lexes line ts \<longleftrightarrow> tokens_of line = ts"
  using lexes_tokens_of tokens_of_lexes by blast

section \<open>The tokenizer meets the specification\<close>

lemma add_op_step:
  assumes "ii < length line" and "is_op (line ! ii)" and "push sv (Some t) = Inr sv'"
    and "t = takeWhile is_op (drop ii line)"
  shows "add_op push sv line ii = Inr (sv', length t)"
  using assms by (simp add: add_op_def Let_def count_chars_takeWhile takeWhile_eq_take [symmetric])

lemma add_token_step:
  assumes "ii < length line" and "in_word (line ! ii)" and "push sv (Some t) = Inr sv'"
    and "t = takeWhile in_word (drop ii line)"
  shows "add_token push sv line ii = Inr (sv', length t)"
  using assms by (simp add: add_token_def Let_def count_chars_takeWhile takeWhile_eq_take [symmetric])

lemma tokens_of_drop_run:
  assumes "ii < length line" and "P (line ! ii)"
  shows "takeWhile P (drop ii line) = line ! ii # takeWhile P (drop (Suc ii) line)"
    and "drop (ii + length (takeWhile P (drop ii line))) line = dropWhile P (drop (Suc ii) line)"
  using assms Cons_nth_drop_Suc [OF assms(1), symmetric]
  by (simp_all add: dropWhile_eq_drop add.commute)

context string_vector
begin

text \<open>
  One proof for both vectors: from a well-formed vector the loop returns, keeps the vector
  well formed and appends exactly the tokens of the rest of the line.
\<close>

lemma tokenize_loop_contents:
  "invar sv \<Longrightarrow>
   \<exists>sv'. tokenize_loop push sv line ii = Inr sv' \<and> invar sv' \<and>
         contents sv' = contents sv @ map Some (tokens_of (drop ii line))"
proof (induction "length line - ii" arbitrary: sv ii rule: less_induct)
  case less
  show ?case
  proof (cases "ii < length line")
    case True
    let ?c = "line ! ii"
    have dr: "drop ii line = ?c # drop (Suc ii) line" by (simp add: Cons_nth_drop_Suc True)
    consider "isspace ?c" | "\<not> isspace ?c" "is_op ?c" | "\<not> isspace ?c" "\<not> is_op ?c" by blast
    then show ?thesis
    proof cases
      case 1
      with less.hyps [of "ii + 1" sv] less.prems True dr show ?thesis
        by (simp add: tokenize_loop.simps [of push sv line ii])
    next
      case 2
      let ?t = "takeWhile is_op (drop ii line)"
      from push_total [OF less.prems, of "Some ?t"] obtain s1 where
        s1: "push sv (Some ?t) = Inr s1" "invar s1" "contents s1 = contents sv @ [Some ?t]" by blast
      have step: "add_op push sv line ii = Inr (s1, length ?t)"
        by (rule add_op_step) (use True 2 s1 in auto)
      have "0 < length ?t" using dr 2 by simp
      then have sm: "length line - (ii + length ?t) < length line - ii" using True by linarith
      from less.hyps [OF sm s1(2)] obtain s2 where
        "tokenize_loop push s1 line (ii + length ?t) = Inr s2" "invar s2"
        "contents s2 = contents s1 @ map Some (tokens_of (drop (ii + length ?t) line))" by blast
      then show ?thesis
        using 2 True s1 step tokens_of_drop_run [of ii line is_op, OF True 2(2)] dr
        by (simp add: tokenize_loop.simps [of push sv line ii])
    next
      case 3
      then have w: "in_word ?c" by (simp add: in_word_def)
      let ?t = "takeWhile in_word (drop ii line)"
      from push_total [OF less.prems, of "Some ?t"] obtain s1 where
        s1: "push sv (Some ?t) = Inr s1" "invar s1" "contents s1 = contents sv @ [Some ?t]" by blast
      have step: "add_token push sv line ii = Inr (s1, length ?t)"
        by (rule add_token_step) (use True w s1 in auto)
      have "0 < length ?t" using dr w by simp
      then have sm: "length line - (ii + length ?t) < length line - ii" using True by linarith
      from less.hyps [OF sm s1(2)] obtain s2 where
        "tokenize_loop push s1 line (ii + length ?t) = Inr s2" "invar s2"
        "contents s2 = contents s1 @ map Some (tokens_of (drop (ii + length ?t) line))" by blast
      then show ?thesis
        using 3 w True s1 step tokens_of_drop_run [of ii line in_word, OF True w] dr
        by (simp add: tokenize_loop.simps [of push sv line ii])
    qed
  next
    case False
    with less.prems show ?thesis by (simp add: tokenize_loop.simps [of push sv line ii])
  qed
qed

lemma tokenize_contents:
  "\<exists>sv. tokenize_loop push mk line 0 = Inr sv \<and> invar sv \<and> contents sv = map Some (tokens_of line)"
  using tokenize_loop_contents [OF mk_invar, of line 0] by (simp add: mk_contents)

end

lemma tokenize_items:
  "\<exists>sv. tokenize line = Inr sv \<and> svec_ok sv \<and> items sv = map Some (tokens_of line)"
  unfolding tokenize_def by (rule shell_vec.tokenize_contents)

text \<open>
  C3. The shell's tokenizer is exactly maximal munch: it always returns, the vector it
  returns is well formed, and its contents are the strings \<open>ts\<close> if and only if the line
  lexes to \<open>ts\<close>.
\<close>

theorem tokenize_lexes:
  "(\<exists>sv. tokenize line = Inr sv \<and> svec_ok sv \<and> items sv = map Some ts) \<longleftrightarrow> lexes line ts"
  using tokenize_items [of line] lexes_iff [of line ts] by (auto dest: map_injective)

lemma lexes_joined:
  assumes "\<forall>t \<in> set ts. op_tok t \<or> word_tok t"
  shows "lexes (concat (map (\<lambda>t. t @ '' '') ts)) ts"
  using assms
proof (induction ts)
  case Nil
  show ?case by (auto intro: lexes_end simp: blank_def)
next
  case (Cons t ts)
  let ?rest = "'' '' @ concat (map (\<lambda>t. t @ '' '') ts)"
  have sp: "isspace CHR '' ''" "\<not> is_op CHR '' ''" "\<not> in_word CHR '' ''"
    by (simp_all add: isspace_def is_op_def in_word_def)
  have rest: "lexes ?rest ts" using Cons sp by (auto intro: blank_lexes)
  have "lexes ([] @ t @ ?rest) (t # ts)"
  proof (cases "op_tok t")
    case True
    then show ?thesis by (rule lexes_op [rotated]) (use rest sp in \<open>auto simp: blank_def\<close>)
  next
    case False
    with Cons.prems have "word_tok t" by simp
    then show ?thesis by (rule lexes_word [rotated]) (use rest sp in \<open>auto simp: blank_def\<close>)
  qed
  then show ?case by simp
qed

text \<open>
  C4. Printing and tokenizing are inverse: for every list of well-formed tokens, tokenizing
  what \<^verbatim>\<open>svec_print\<close> prints for it with a space as the separator gives the same list back.
\<close>

theorem tokenize_print_roundtrip:
  assumes "hw05_ok sv" and "items sv = map Some ts" and "\<forall>t \<in> set ts. op_tok t \<or> word_tok t"
  shows "\<exists>line sv'. svec_print sv '' '' = Inr line \<and> tokenize line = Inr sv' \<and>
     items sv' = items sv"
proof -
  have "svec_print sv '' '' = Inr (concat (map (\<lambda>t. t @ '' '') ts))"
    using svec_print_loop_items [OF assms(1), of 0 "'' ''"] assms(2)
    by (simp add: svec_print_def comp_def image_iff)
  moreover have "tokens_of (concat (map (\<lambda>t. t @ '' '') ts)) = ts"
    using lexes_joined [OF assms(3)] lexes_iff by blast
  ultimately show ?thesis using tokenize_items assms(2) by force
qed

theorem tokenize_print_roundtrip_witness:
  "hw05_ok \<lparr>sv_size = 2, sv_spaces = 2, sv_data = [Str ''ls'', Str ''|'']\<rparr> \<and>
   word_tok ''ls'' \<and> op_tok ''|'' \<and>
   (\<exists>line sv'. svec_print \<lparr>sv_size = 2, sv_spaces = 2, sv_data = [Str ''ls'', Str ''|'']\<rparr> '' ''
        = Inr line \<and> tokenize line = Inr sv' \<and>
      items sv' = [Some ''ls'', Some ''|''])"
proof -
  let ?sv = "\<lparr>sv_size = 2, sv_spaces = 2, sv_data = [Str ''ls'', Str ''|'']\<rparr>"
  have ok: "hw05_ok ?sv" by (simp add: hw05_ok_def svec_shape_def)
  have it: "items ?sv = map Some [''ls'', ''|'']" by (simp add: items_def slot_val_def)
  have tk: "\<forall>t \<in> set [''ls'', ''|'']. op_tok t \<or> word_tok t"
    by (simp add: op_tok_def word_tok_def in_word_def is_op_def isspace_def)
  have "word_tok ''ls''" "op_tok ''|''"
    by (simp_all add: op_tok_def word_tok_def in_word_def is_op_def isspace_def)
  then show ?thesis using tokenize_print_roundtrip [OF ok it tk] ok it by simp
qed

text \<open>What the program of \<^verbatim>\<open>hw05\<close> should print, line by line of its input.\<close>

function hw05_output :: "string \<Rightarrow> string" where
  "hw05_output inp =
     (if inp = [] then ''tokens$ ''
      else case fgets 256 inp of (line, rest) \<Rightarrow>
        ''tokens$ '' @ concat (map (\<lambda>t. t @ [CHR 0x0A]) (rev (tokens_of (cstr line)))) @
        hw05_output rest)"
  by pat_completeness auto
termination
  by (relation "measure length") (auto dest: fgets_shorter [OF sym])

declare hw05_output.simps [simp del]

lemma hw05_line_output:
  "\<exists>sv rv. hw05_tokenize line = Inr sv \<and> svec_reverse sv = Inr rv \<and>
     hw05_svec_print rv = Inr (concat (map (\<lambda>t. t @ [CHR 0x0A]) (rev (tokens_of line))))"
proof -
  from hw05_vec.tokenize_contents [of line] obtain sv where
    sv: "hw05_tokenize line = Inr sv" "hw05_ok sv" "items sv = map Some (tokens_of line)"
    by (auto simp: hw05_tokenize_def)
  from svec_reverse_items [OF sv(2)] sv(3) obtain rv where
    rv: "svec_reverse sv = Inr rv" "hw05_ok rv" "items rv = map Some (rev (tokens_of line))"
    by (auto simp: rev_map)
  have "hw05_svec_print rv = Inr (concat (map (\<lambda>t. t @ [CHR 0x0A]) (rev (tokens_of line))))"
    using svec_print_loop_items [OF rv(2), of 0 "[CHR 0x0A]"] rv(3)
    by (auto simp: hw05_svec_print_def comp_def)
  with sv rv show ?thesis by blast
qed

text \<open>
  The token printing program of \<^verbatim>\<open>hw05\<close> never fails and terminates on every input:
  it prints, for each line it reads (in pieces of at most 255 characters), the prompt and
  then the tokens of that line in reverse order, one per line.
\<close>

theorem hw05_main_correct: "hw05_main inp = Inr (hw05_output inp)"
proof (induction inp rule: hw05_main.induct)
  case (1 inp)
  show ?case
  proof (cases "inp = []")
    case True
    then show ?thesis by (simp add: hw05_main.simps hw05_output.simps)
  next
    case False
    obtain line rest where f: "fgets 256 inp = (line, rest)" by (cases "fgets 256 inp")
    from hw05_line_output [of "cstr line"] obtain sv rv where
      l: "hw05_tokenize (cstr line) = Inr sv" "svec_reverse sv = Inr rv"
         "hw05_svec_print rv = Inr (concat (map (\<lambda>t. t @ [CHR 0x0A]) (rev (tokens_of (cstr line)))))"
      by blast
    from 1 [OF False f [symmetric] l] have "hw05_main rest = Inr (hw05_output rest)" .
    then show ?thesis
      using False f l by (simp add: hw05_main.simps [of inp] hw05_output.simps [of inp])
  qed
qed

end
