(* ===== verification/Astree.thy ===== *)
theory Astree
  imports Tokens
begin

text \<open>
  The syntax trees of the shell and their parser, \<^verbatim>\<open>chal1/challenge01/astree.c\<close> and
  \<^verbatim>\<open>astree.h\<close>. A tree is a command (an owned copy of a token vector) or an operator with two
  branches that may be null. The parser looks for the operators in the order of
  \<^verbatim>\<open>op_list\<close> and splits at the first occurrence; \<open>tree_of\<close> says declaratively which tree a
  token list has, from a table of its own of what binds how loosely, and the parser is
  proved to compute exactly that tree.
\<close>

section \<open>The code\<close>

datatype astree =
    Cmd (cmd_of: svec)
  | Op string (branch1: "astree option") (branch2: "astree option")

definition make_cmd :: "svec \<Rightarrow> astree res" where
  "make_cmd c = bind_res (svec_clone c) (\<lambda>c'. Inr (Cmd c'))"

definition make_op :: "string \<Rightarrow> astree option \<Rightarrow> astree option \<Rightarrow> astree" where
  "make_op op b1 b2 = Op op b1 b2"

text \<open>\<^verbatim>\<open>free_astree\<close>: the strings it releases, in order.\<close>

fun free_astree :: "astree \<Rightarrow> string option list res" where
  "free_astree (Cmd c) = free_svec (Some c)"
| "free_astree (Op op b1 b2) =
     bind_res (case b1 of None \<Rightarrow> Inr [] | Some t \<Rightarrow> free_astree t) (\<lambda>f1.
     bind_res (case b2 of None \<Rightarrow> Inr [] | Some t \<Rightarrow> free_astree t) (\<lambda>f2.
     Inr (Some op # f1 @ f2)))"

definition op_list :: "string list" where
  "op_list = ['';'', ''&'', ''||'', ''&&'', ''|'', ''>'', ''<'']"

text \<open>The loop of \<^verbatim>\<open>parse\<close> over the operators: the first one that occurs, with its position.\<close>

fun find_op :: "svec \<Rightarrow> string list \<Rightarrow> (string \<times> int) option res" where
  "find_op tokens [] = Inr None"
| "find_op tokens (op # ops) =
     bind_res (svec_index_of tokens op) (\<lambda>index.
       if 0 \<le> index then Inr (Some (op, index)) else find_op tokens ops)"

lemma find_op_range:
  "find_op tokens ops = Inr (Some (op, index)) \<Longrightarrow> 0 \<le> index \<and> index < sv_spaces tokens"
  by (induction ops)
     (fastforce simp: bind_res_eq_Inr svec_index_of_def dest: svec_index_loop_range split: if_splits)+

function parse :: "svec \<Rightarrow> astree option res" where
  "parse tokens =
     (if svec_length tokens < 1 then Inr None
      else bind_res (find_op tokens op_list) (\<lambda>found.
        case found of
          None \<Rightarrow> bind_res (make_cmd tokens) (\<lambda>t. Inr (Some t))
        | Some (op, index) \<Rightarrow>
            bind_res (sub_svec tokens 0 index) (\<lambda>left.
            bind_res (sub_svec tokens (index + 1) (svec_length tokens)) (\<lambda>right.
            bind_res (parse left) (\<lambda>t1. bind_res (parse right) (\<lambda>t2.
            Inr (Some (make_op op t1 t2))))))))"
  by pat_completeness auto
termination
proof (relation "measure (\<lambda>tokens. nat (sv_spaces tokens))", goal_cases)
  case (2 tokens found p op index left right)
  then have "0 \<le> index \<and> index < sv_spaces tokens" using find_op_range by auto
  with 2 sub_svec_spaces [of tokens 0 index left] show ?case by auto
next
  case (3 tokens found p op index left right t1)
  then have "0 \<le> index \<and> index < sv_spaces tokens" using find_op_range by auto
  with 3 sub_svec_spaces [of tokens "index + 1" "svec_length tokens" right] show ?case
    by (auto simp: svec_length_def)
qed simp

declare parse.simps [simp del]

text \<open>\<^verbatim>\<open>print_astree\<close>: what it prints for a tree at depth \<open>acc\<close>.\<close>

fun print_astree :: "astree \<Rightarrow> nat \<Rightarrow> string res" where
  "print_astree (Cmd c) acc =
     bind_res (svec_print c '' '') (\<lambda>out.
       Inr (concat (replicate (Suc acc) ''    '') @ out @ [CHR 0x0A]))"
| "print_astree (Op op b1 b2) acc =
     bind_res (case b1 of None \<Rightarrow> Inr (concat (replicate (Suc (acc + 1)) ''    '') @ ''Null'' @ [CHR 0x0A])
               | Some t \<Rightarrow> print_astree t (acc + 1)) (\<lambda>o1.
     bind_res (case b2 of None \<Rightarrow> Inr (concat (replicate (Suc (acc + 1)) ''    '') @ ''Null'' @ [CHR 0x0A])
               | Some t \<Rightarrow> print_astree t (acc + 1)) (\<lambda>o2.
     Inr (concat (replicate (Suc acc) ''    '') @ op @ [CHR 0x0A] @ o1 @ o2)))"

section \<open>Specification\<close>

text \<open>
  The operators and how tightly they bind, as the comment that heads \<^verbatim>\<open>parse\<close> documents the
  order: \<^verbatim>\<open>;\<close> most loosely, then \<^verbatim>\<open>&\<close>, \<^verbatim>\<open>||\<close>, \<^verbatim>\<open>&&\<close>, \<^verbatim>\<open>|\<close>, \<^verbatim>\<open>>\<close> and \<^verbatim>\<open><\<close>. The header \<^verbatim>\<open>astree.h\<close>
  lists the last two in the opposite order; the table follows the comment at the parser.
\<close>

definition operators :: "string set" where
  "operators = {'';'', ''&'', ''||'', ''&&'', ''|'', ''>'', ''<''}"

definition level :: "string \<Rightarrow> nat" where
  "level s =
     (if s = '';'' then 0 else if s = ''&'' then 1 else if s = ''||'' then 2
      else if s = ''&&'' then 3 else if s = ''|'' then 4 else if s = ''>'' then 5
      else if s = ''<'' then 6 else 7)"

text \<open>
  The tokens of a tree from left to right, and the shape the parser promises: a command
  has at least one word and no operator; below an operator, every operator on its left
  binds more tightly, and every operator on its right is the same or binds more tightly.
\<close>

fun yield_tree :: "astree \<Rightarrow> string list" where
  "yield_tree (Cmd c) = map the (items c)"
| "yield_tree (Op op b1 b2) =
     (case b1 of None \<Rightarrow> [] | Some t \<Rightarrow> yield_tree t) @ op #
     (case b2 of None \<Rightarrow> [] | Some t \<Rightarrow> yield_tree t)"

definition yield_of :: "astree option \<Rightarrow> string list" where
  "yield_of t = (case t of None \<Rightarrow> [] | Some u \<Rightarrow> yield_tree u)"

fun wf_tree :: "astree \<Rightarrow> bool" where
  "wf_tree (Cmd c) \<longleftrightarrow>
     items c \<noteq> [] \<and> svec_ok c \<and> None \<notin> set (items c) \<and>
     (\<forall>w \<in> set (map the (items c)). w \<notin> operators)"
| "wf_tree (Op op b1 b2) \<longleftrightarrow>
     op \<in> operators \<and>
     (\<forall>w \<in> set (yield_of b1). w \<in> operators \<longrightarrow> level op < level w) \<and>
     (\<forall>w \<in> set (yield_of b2). w \<in> operators \<longrightarrow> level op \<le> level w) \<and>
     (case b1 of None \<Rightarrow> True | Some t \<Rightarrow> wf_tree t) \<and>
     (case b2 of None \<Rightarrow> True | Some t \<Rightarrow> wf_tree t)"

definition tree_of :: "string list \<Rightarrow> astree option \<Rightarrow> bool" where
  "tree_of ts t \<longleftrightarrow> yield_of t = ts \<and> (case t of None \<Rightarrow> True | Some u \<Rightarrow> wf_tree u)"

text \<open>Two trees are the same up to the spare capacity of their command vectors.\<close>

fun same_tree :: "astree \<Rightarrow> astree \<Rightarrow> bool" where
  "same_tree (Cmd c) (Cmd d) \<longleftrightarrow> items c = items d"
| "same_tree (Op o1 l1 r1) (Op o2 l2 r2) \<longleftrightarrow>
     o1 = o2 \<and>
     (case (l1, l2) of (None, None) \<Rightarrow> True | (Some t, Some u) \<Rightarrow> same_tree t u | _ \<Rightarrow> False) \<and>
     (case (r1, r2) of (None, None) \<Rightarrow> True | (Some t, Some u) \<Rightarrow> same_tree t u | _ \<Rightarrow> False)"
| "same_tree _ _ \<longleftrightarrow> False"

section \<open>The parser meets the specification\<close>

lemma find_op_items:
  assumes "svec_ok tokens" and "items tokens = map Some ts"
  shows "find_op tokens ops =
    Inr (case filter (\<lambda>p. p \<in> set ts) ops of
           [] \<Rightarrow> None | op # _ \<Rightarrow> Some (op, int (length (takeWhile (\<lambda>w. w \<noteq> op) ts))))"
proof (induction ops)
  case (Cons op ops)
  have nn: "None \<notin> set (items tokens)" using assms(2) by auto
  have tw: "length (takeWhile (\<lambda>p. p \<noteq> Some op) (map Some ts)) = length (takeWhile (\<lambda>w. w \<noteq> op) ts)"
    by (simp add: takeWhile_map comp_def)
  have mem: "length (takeWhile (\<lambda>w. w \<noteq> op) ts) < length ts \<longleftrightarrow> op \<in> set ts"
  proof
    assume "length (takeWhile (\<lambda>w. w \<noteq> op) ts) < length ts"
    then show "op \<in> set ts" using nth_length_takeWhile nth_mem by fastforce
  next
    assume "op \<in> set ts"
    then show "length (takeWhile (\<lambda>w. w \<noteq> op) ts) < length ts"
      by (metis (mono_tags, lifting) length_takeWhile_le nat_less_le takeWhile_eq_all_conv
          takeWhile_eq_take take_all_iff)
  qed
  show ?case
    using svec_index_of_no_null [OF svec_ok_hw05 [OF assms(1)] nn, of op] Cons.IH mem tw
    by (auto simp: assms(2) Let_def)
qed simp

text \<open>The code's list holds the operators of the table in the order of their levels.\<close>

lemma set_op_list [simp]: "set op_list = operators"
  by (auto simp: op_list_def operators_def)

lemma level_op_list: "level s = length (takeWhile (\<lambda>p. p \<noteq> s) op_list)"
  by (auto simp: level_def op_list_def)

lemma first_op_level:
  assumes "filter (\<lambda>p. p \<in> set ts) op_list = op # ops" and "w \<in> set ts" and "w \<in> operators"
  shows "level op \<le> level w"
proof -
  from assms(1) obtain us vs where us: "op_list = us @ op # vs" "\<forall>u \<in> set us. u \<notin> set ts"
    by (auto simp: filter_eq_Cons_iff)
  have "length (takeWhile (\<lambda>p. p \<noteq> op) op_list) \<le> length us"
    by (simp add: us(1) takeWhile_append split: if_splits)
       (metis length_takeWhile_le)
  moreover have "length us \<le> length (takeWhile (\<lambda>p. p \<noteq> w) op_list)"
  proof -
    have "\<forall>u \<in> set us. u \<noteq> w" using us(2) assms(2) by auto
    then have "takeWhile (\<lambda>p. p \<noteq> w) op_list = us @ takeWhile (\<lambda>p. p \<noteq> w) (op # vs)"
      unfolding us(1) by (intro takeWhile_append2) auto
    then show ?thesis by simp
  qed
  ultimately show ?thesis by (simp add: level_op_list)
qed

lemma level_inj: "v \<in> operators \<Longrightarrow> w \<in> operators \<Longrightarrow> level v = level w \<Longrightarrow> v = w"
  by (auto simp: level_def operators_def)

lemma split_first: "op \<in> set ts \<Longrightarrow>
  ts = takeWhile (\<lambda>w. w \<noteq> op) ts @ op # drop (Suc (length (takeWhile (\<lambda>w. w \<noteq> op) ts))) ts"
proof -
  assume "op \<in> set ts"
  then have lt: "length (takeWhile (\<lambda>w. w \<noteq> op) ts) < length ts" (is "?k < _")
    by (metis (mono_tags, lifting) length_takeWhile_le nat_less_le takeWhile_eq_all_conv
          takeWhile_eq_take take_all_iff)
  then have "ts ! ?k = op" using nth_length_takeWhile by fastforce
  then show ?thesis
    using id_take_nth_drop [OF lt] by (simp add: takeWhile_eq_take [symmetric])
qed

lemma parse_tree_of:
  assumes "svec_ok tokens" and "items tokens = map Some ts"
  shows "\<exists>t. parse tokens = Inr t \<and> tree_of ts t"
  using assms
proof (induction "length ts" arbitrary: tokens ts rule: less_induct)
  case less
  have len: "sv_spaces tokens = int (length ts)"
    using length_items [of tokens] less.prems by (simp add: svec_ok_def svec_shape_def)
  show ?case
  proof (cases "ts = []")
    case True
    then show ?thesis
      using len by (simp add: parse.simps [of tokens] svec_length_def tree_of_def yield_of_def)
  next
    case False
    then have ne: "\<not> svec_length tokens < 1" using len by (cases ts) (auto simp: svec_length_def)
    note fo = find_op_items [OF less.prems, of op_list]
    show ?thesis
    proof (cases "filter (\<lambda>p. p \<in> set ts) op_list")
      case Nil
      from svec_clone_items [OF less.prems(1)] obtain c where
        c: "svec_clone tokens = Inr c" "svec_ok c" "items c = map Some ts"
        using less.prems(2) by auto
      then have "parse tokens = Inr (Some (Cmd c))"
        using ne fo Nil by (simp add: parse.simps [of tokens] make_cmd_def)
      moreover have "tree_of ts (Some (Cmd c))"
        using c False Nil by (auto simp: tree_of_def yield_of_def filter_empty_conv comp_def)
      ultimately show ?thesis by blast
    next
      case (Cons op ops)
      let ?us = "takeWhile (\<lambda>w. w \<noteq> op) ts"
      let ?k = "length ?us"
      let ?vs = "drop (Suc ?k) ts"
      have "op \<in> set (filter (\<lambda>p. p \<in> set ts) op_list)" by (simp add: Cons)
      then have opm: "op \<in> set ts" "op \<in> operators" by auto
      note sp = split_first [OF opm(1)]
      have kl: "?k < length ts" using arg_cong [OF sp, of length] by simp
      have usk: "?us = take ?k ts" by (rule takeWhile_eq_take)
      from sub_svec_items [OF less.prems(1), of 0 "int ?k"] less.prems(2) len kl obtain l where
        l: "sub_svec tokens 0 (int ?k) = Inr l" "svec_ok l" "items l = map Some ?us"
        by (auto simp: take_map usk [symmetric])
      from sub_svec_items [OF less.prems(1), of "int ?k + 1" "sv_spaces tokens"] less.prems(2) len kl
      obtain r where
        r: "sub_svec tokens (int ?k + 1) (sv_spaces tokens) = Inr r" "svec_ok r"
           "items r = map Some ?vs"
        by (auto simp: drop_map take_map nat_add_distrib)
      from less.hyps [OF kl l(2,3)] obtain t1 where
        t1: "parse l = Inr t1" "tree_of ?us t1" by blast
      have "length ?vs < length ts" using kl by simp
      from less.hyps [OF this r(2,3)] obtain t2 where
        t2: "parse r = Inr t2" "tree_of ?vs t2" by blast
      have "parse tokens = Inr (Some (Op op t1 t2))"
        using ne fo Cons l(1) r(1) t1(1) t2(1)
        by (simp add: parse.simps [of tokens] svec_length_def make_op_def)
      moreover have "level op < level w" if "w \<in> set ?us" "w \<in> operators" for w
      proof -
        have "w \<in> set ts" "w \<noteq> op" using that set_takeWhileD by fast+
        then show ?thesis
          using first_op_level [OF Cons _ that(2)] level_inj [OF that(2) opm(2)] by fastforce
      qed
      moreover have "level op \<le> level w" if "w \<in> set ?vs" "w \<in> operators" for w
        using first_op_level [OF Cons in_set_dropD that(2)] that(1) by blast
      ultimately have "parse tokens = Inr (Some (Op op t1 t2)) \<and> tree_of ts (Some (Op op t1 t2))"
        using t1(2) t2(2) opm(2) sp by (auto simp: tree_of_def yield_of_def split: option.splits)
      then show ?thesis by blast
    qed
  qed
qed

text \<open>A token list has at most one such tree, up to the capacity of the vectors.\<close>

definition same_opt :: "astree option \<Rightarrow> astree option \<Rightarrow> bool" where
  "same_opt t u \<longleftrightarrow>
     (case (t, u) of (None, None) \<Rightarrow> True | (Some a, Some b) \<Rightarrow> same_tree a b | _ \<Rightarrow> False)"

lemma wf_tree_yield: "wf_tree t \<Longrightarrow> yield_tree t \<noteq> []"
  by (cases t) auto

lemma split_unique:
  assumes "us @ op # vs = us' @ op # vs'" and "op \<notin> set us" and "op \<notin> set us'"
  shows "us = us' \<and> vs = vs'"
  using assms
proof (induction us arbitrary: us')
  case Nil
  then show ?case by (cases us') auto
next
  case (Cons u us)
  then show ?case by (cases us') auto
qed

lemma wf_tree_op_unique:
  assumes "wf_tree (Op o1 l1 r1)" and "wf_tree (Op o2 l2 r2)"
    and "yield_tree (Op o1 l1 r1) = yield_tree (Op o2 l2 r2)"
  shows "o1 = o2 \<and> yield_of l1 = yield_of l2 \<and> yield_of r1 = yield_of r2"
proof -
  have y: "yield_of l1 @ o1 # yield_of r1 = yield_of l2 @ o2 # yield_of r2"
    using assms(3) by (simp add: yield_of_def)
  have m: "o2 \<in> set (yield_of l1 @ o1 # yield_of r1)" "o1 \<in> set (yield_of l2 @ o2 # yield_of r2)"
    using y by (metis in_set_conv_decomp)+
  have "level o1 \<le> level o2" using assms(1,2) m(1) by auto
  moreover have "level o2 \<le> level o1" using assms(1,2) m(2) by auto
  ultimately have eq: "o1 = o2" using assms(1,2) level_inj by auto
  moreover have "o1 \<notin> set (yield_of l1)" "o2 \<notin> set (yield_of l2)"
    using assms(1,2) by auto
  ultimately show ?thesis using split_unique y by metis
qed

lemma wf_tree_mixed:
  assumes "wf_tree (Op op b1 b2)" and "wf_tree (Cmd c)"
  shows "yield_tree (Op op b1 b2) \<noteq> yield_tree (Cmd c)"
proof
  assume "yield_tree (Op op b1 b2) = yield_tree (Cmd c)"
  then have "op \<in> set (map the (items c))" by (metis in_set_conv_decomp yield_tree.simps)
  then show False using assms by auto
qed

lemma wf_tree_unique:
  "wf_tree t \<Longrightarrow> wf_tree u \<Longrightarrow> yield_tree t = yield_tree u \<Longrightarrow> same_tree t u"
proof (induction t u rule: same_tree.induct)
  case (1 c d)
  then have "map (Some \<circ> the) (items c) = map (Some \<circ> the) (items d)"
    using list.map_comp [of Some the "items c"] list.map_comp [of Some the "items d"] by simp
  moreover have "map (Some \<circ> the) xs = xs" if "None \<notin> set xs" for xs :: "string option list"
    using that by (induction xs) auto
  ultimately show ?case using 1 by simp
next
  case (2 o1 l1 r1 o2 l2 r2)
  note un = wf_tree_op_unique [OF "2.prems"]
  have l: "l1 = None \<longleftrightarrow> l2 = None" and r: "r1 = None \<longleftrightarrow> r2 = None"
    using un "2.prems"(1,2) wf_tree_yield
    by (auto simp: yield_of_def split: option.splits) (metis option.exhaust)+
  show ?case
    using "2.IH" "2.prems"(1,2) un l r by (auto simp: yield_of_def split: option.splits)
next
  case "3_1"
  then show ?case using wf_tree_mixed by metis
next
  case "3_2"
  then show ?case using wf_tree_mixed by metis
qed

text \<open>
  C5. The parser is correct and complete: on a token vector without null entries it returns
  a tree whose tokens from left to right are the given ones and in which the operators bind
  as the comment at \<^verbatim>\<open>parse\<close> orders them (\<^verbatim>\<open>;\<close> \<^verbatim>\<open>&\<close> \<^verbatim>\<open>||\<close> \<^verbatim>\<open>&&\<close> \<^verbatim>\<open>|\<close> \<^verbatim>\<open>>\<close> \<^verbatim>\<open><\<close>, from loose to tight, and
  a first occurrence above the later ones); and it is the only such tree (up to spare
  capacity in the command vectors). \<^verbatim>\<open>astree.h\<close> documents \<^verbatim>\<open><\<close> before \<^verbatim>\<open>>\<close> instead, which
  gives other trees for the commands that use both.
\<close>

theorem parse_correct:
  assumes "svec_ok tokens" and "items tokens = map Some ts"
  shows "\<exists>t. parse tokens = Inr t \<and> tree_of ts t \<and> (\<forall>u. tree_of ts u \<longrightarrow> same_opt t u)"
proof -
  from parse_tree_of [OF assms] obtain t where t: "parse tokens = Inr t" "tree_of ts t" by blast
  have "same_opt t u" if u: "tree_of ts u" for u
  proof (cases t)
    case None
    then have "yield_of u = []" using t u by (simp add: tree_of_def yield_of_def)
    then show ?thesis using None u wf_tree_yield
      by (auto simp: same_opt_def tree_of_def yield_of_def split: option.splits)
  next
    case (Some a)
    with t(2) have a: "wf_tree a" "yield_tree a = ts" by (simp_all add: tree_of_def yield_of_def)
    then have "ts \<noteq> []" using wf_tree_yield by blast
    with u obtain b where b: "u = Some b" "wf_tree b" "yield_tree b = ts"
      by (auto simp: tree_of_def yield_of_def split: option.splits)
    then show ?thesis using Some a wf_tree_unique by (simp add: same_opt_def)
  qed
  then show ?thesis using t by blast
qed

theorem parse_correct_witness:
  "svec_ok \<lparr>sv_size = 3, sv_spaces = 3, sv_data = [Str ''a'', Str ''|'', Str ''b'']\<rparr> \<and>
   items \<lparr>sv_size = 3, sv_spaces = 3, sv_data = [Str ''a'', Str ''|'', Str ''b'']\<rparr> =
     map Some [''a'', ''|'', ''b''] \<and>
   (\<exists>t. parse \<lparr>sv_size = 3, sv_spaces = 3, sv_data = [Str ''a'', Str ''|'', Str ''b'']\<rparr> = Inr t \<and>
      tree_of [''a'', ''|'', ''b''] t)"
proof -
  let ?v = "\<lparr>sv_size = 3, sv_spaces = 3, sv_data = [Str ''a'', Str ''|'', Str ''b'']\<rparr>"
  have ok: "svec_ok ?v" by (simp add: svec_ok_def svec_shape_def)
  have it: "items ?v = map Some [''a'', ''|'', ''b'']" by (simp add: items_def slot_val_def)
  from parse_correct [OF ok it] show ?thesis using ok it by blast
qed

end
