(* ===== verification/Shell.thy ===== *)
theory Shell
  imports Astree
begin

text \<open>
  The execution of syntax trees, \<^verbatim>\<open>chal1/challenge01/implement.c\<close>, and the main loop of the
  shell, \<^verbatim>\<open>nush.c\<close>. A process is its working directory and its standard input and output. A
  \<^verbatim>\<open>fork\<close> copies it, and the child goes on with whatever follows in the code until it
  exits, so the functions are in continuation-passing style: the continuation \<open>k\<close> is what
  the calling process does with the returned status. The operating system is a parameter
  (the record \<open>os\<close>): running a program, changing directory, opening files, making a pipe,
  and running two processes side by side. A process ends by \<^verbatim>\<open>exit\<close> or by a crash (a failed
  assertion or a null pointer); \<^verbatim>\<open>WEXITSTATUS\<close> of a crashed child is 0. \<^verbatim>\<open>fork\<close> and \<^verbatim>\<open>pipe\<close>
  are assumed to succeed. The input that the shell reads its lines from is the shell's
  alone: the model has no command that reads the shell's standard input while the shell
  takes its lines from there, and no child that moves the position of the script file.
\<close>

section \<open>Processes and the operating system\<close>

datatype fd = Inherited nat | OpenedFile string | PipeRead nat | PipeWrite nat | Closed

record proc =
  p_cwd :: string
  p_stdin :: fd
  p_stdout :: fd

datatype pexit = Exited int | Crashed c_error

definition wexitstatus :: "pexit \<Rightarrow> int" where
  "wexitstatus st = (case st of Exited n \<Rightarrow> n mod 256 | Crashed _ \<Rightarrow> 0)"

text \<open>
  The system calls the shell uses, on a world \<open>'w\<close>: \<open>os_exec\<close> runs a program to its end
  (\<open>None\<close> if \<^verbatim>\<open>execvp\<close> fails), \<open>os_chdir\<close> gives the new directory (\<open>None\<close> for an error), the
  two \<^verbatim>\<open>open\<close> calls give a descriptor, \<open>os_conc\<close> runs two processes concurrently until both
  have ended, and \<open>os_print\<close> writes to the process's standard output.
\<close>

record 'w os =
  os_exec :: "proc \<Rightarrow> string list \<Rightarrow> 'w \<Rightarrow> ('w \<times> int) option"
  os_chdir :: "proc \<Rightarrow> string \<Rightarrow> 'w \<Rightarrow> string option"
  os_open_rd :: "proc \<Rightarrow> string \<Rightarrow> 'w \<Rightarrow> 'w \<times> fd"
  os_open_wr :: "proc \<Rightarrow> string \<Rightarrow> 'w \<Rightarrow> 'w \<times> fd"
  os_pipe :: "'w \<Rightarrow> 'w \<times> nat"
  os_conc :: "('w \<Rightarrow> 'w \<times> pexit) \<Rightarrow> ('w \<Rightarrow> 'w \<times> pexit) \<Rightarrow> 'w \<Rightarrow> 'w \<times> pexit \<times> pexit"
  os_print :: "proc \<Rightarrow> string \<Rightarrow> 'w \<Rightarrow> 'w"

type_synonym 'w run = "proc \<Rightarrow> 'w \<Rightarrow> 'w \<times> pexit"
type_synonym 'w cont = "int \<Rightarrow> 'w run"
type_synonym 'w cmd = "'w cont \<Rightarrow> 'w run"

text \<open>\<^verbatim>\<open>exit(status)\<close> as what a process does last, and \<^verbatim>\<open>fork\<close> followed by \<^verbatim>\<open>waitpid\<close>.\<close>

definition exit_with :: "'w cont" where
  "exit_with code p w = (w, Exited code)"

definition fork_wait :: "'w run \<Rightarrow> 'w cmd" where
  "fork_wait child k p w = (case child p w of (w', st) \<Rightarrow> k (wexitstatus st) p w')"

section \<open>The commands\<close>

text \<open>The argument vector of the child: the strings of the command vector.\<close>

function argv_loop :: "svec \<Rightarrow> int \<Rightarrow> string list res" where
  "argv_loop c ii =
     (if ii < svec_length c
      then bind_res (svec_get c ii) (\<lambda>a. case a of
             None \<Rightarrow> Inr []
           | Some s \<Rightarrow> bind_res (argv_loop c (ii + 1)) (\<lambda>as. Inr (s # as)))
      else Inr [])"
  by pat_completeness auto
termination
  by (relation "measure (\<lambda>(c, ii). nat (svec_length c - ii))") auto

declare argv_loop.simps [simp del]

definition execute_cmd :: "'w os \<Rightarrow> svec \<Rightarrow> 'w cmd" where
  "execute_cmd os c k p w =
     (case svec_get c 0 of
        Inl e \<Rightarrow> (w, Crashed e)
      | Inr None \<Rightarrow> (w, Crashed NullDeref)
      | Inr (Some input) \<Rightarrow>
          if input = ''cd''
          then (case svec_get c 1 of
                  Inl e \<Rightarrow> (w, Crashed e)
                | Inr None \<Rightarrow> (w, Crashed NullDeref)
                | Inr (Some d) \<Rightarrow>
                    (case os_chdir os p d w of
                       None \<Rightarrow> k (-1) p (os_print os p (''Invalid directory'' @ [CHR 0x0A]) w)
                     | Some dir \<Rightarrow> k 0 (p\<lparr>p_cwd := dir\<rparr>) w))
          else if input = ''exit'' then exit_with 0 p w
          else fork_wait (\<lambda>p w.
                 case argv_loop c 0 of
                   Inl e \<Rightarrow> (w, Crashed e)
                 | Inr args \<Rightarrow>
                     (case os_exec os p args w of
                        None \<Rightarrow> exit_with 1 p w
                      | Some (w', st) \<Rightarrow> (w', Exited st))) k p w)"

text \<open>
  The handlers of the operators. The arguments \<open>e1\<close> and \<open>e2\<close> are the executions of the two
  branches; \<open>b2\<close> is the second branch where the code looks at it.
\<close>

definition semicolon_cmd :: "'w cmd \<Rightarrow> astree option \<Rightarrow> 'w cmd \<Rightarrow> 'w cmd" where
  "semicolon_cmd e1 b2 e2 k =
     e1 (\<lambda>first_cmd p w. case b2 of Some _ \<Rightarrow> e2 k p w | None \<Rightarrow> k first_cmd p w)"

definition background_cmd :: "'w os \<Rightarrow> 'w cmd \<Rightarrow> astree option \<Rightarrow> 'w cmd \<Rightarrow> 'w cmd" where
  "background_cmd os e1 b2 e2 k p w =
     (case os_conc os
        (\<lambda>w. e1 (\<lambda>_. exit_with 0) p w)
        (\<lambda>w. case b2 of Some _ \<Rightarrow> e2 k p w | None \<Rightarrow> k 0 p w) w
      of (w', st_child, st_parent) \<Rightarrow> (w', st_parent))"

definition or_cmd :: "'w cmd \<Rightarrow> 'w cmd \<Rightarrow> 'w cmd" where
  "or_cmd e1 e2 k =
     e1 (\<lambda>first_cmd p w. if first_cmd = 1 then e2 k p w else k first_cmd p w)"

definition and_cmd :: "'w cmd \<Rightarrow> 'w cmd \<Rightarrow> 'w cmd" where
  "and_cmd e1 e2 k =
     e1 (\<lambda>first_cmd p w. if first_cmd = 0 then e2 k p w else k first_cmd p w)"

definition pipe_cmd :: "'w os \<Rightarrow> 'w cmd \<Rightarrow> 'w cmd \<Rightarrow> 'w cmd" where
  "pipe_cmd os e1 e2 =
     fork_wait (\<lambda>p w.
       case os_pipe os w of (w1, fds) \<Rightarrow>
       (case os_conc os
          (\<lambda>w. e1 exit_with (p\<lparr>p_stdout := PipeWrite fds\<rparr>) w)
          (\<lambda>w. e2 exit_with (p\<lparr>p_stdin := PipeRead fds\<rparr>) w) w1
        of (w', st1, st2) \<Rightarrow> (w', st2)))"

text \<open>\<^verbatim>\<open>svec_get(ast->branch2->cmd, 0)\<close>: the file of a redirection.\<close>

definition redirect_path :: "astree option \<Rightarrow> string res" where
  "redirect_path b2 =
     (case b2 of
        Some (Cmd c) \<Rightarrow>
          bind_res (svec_get c 0) (\<lambda>a. case a of None \<Rightarrow> Inl NullDeref | Some s \<Rightarrow> Inr s)
      | _ \<Rightarrow> Inl NullDeref)"

definition rdr_in_cmd :: "'w os \<Rightarrow> 'w cmd \<Rightarrow> astree option \<Rightarrow> 'w cmd" where
  "rdr_in_cmd os e1 b2 =
     fork_wait (\<lambda>p w.
       case redirect_path b2 of
         Inl e \<Rightarrow> (w, Crashed e)
       | Inr path \<Rightarrow>
           (case os_open_rd os p path w of (w1, d) \<Rightarrow> e1 exit_with (p\<lparr>p_stdin := d\<rparr>) w1))"

text \<open>
  In \<^verbatim>\<open>rdr_out_cmd\<close> the child does not exit after executing its branch: it leaves the
  \<^verbatim>\<open>if\<close>, returns 0, and goes on with the continuation of the shell.
\<close>

definition rdr_out_cmd :: "'w os \<Rightarrow> 'w cmd \<Rightarrow> astree option \<Rightarrow> 'w cmd" where
  "rdr_out_cmd os e1 b2 k =
     fork_wait (\<lambda>p w.
       case redirect_path b2 of
         Inl e \<Rightarrow> (w, Crashed e)
       | Inr path \<Rightarrow>
           (case os_open_wr os p path w of
              (w1, d) \<Rightarrow> e1 (\<lambda>_. k 0) (p\<lparr>p_stdout := d\<rparr>) w1)) k"

definition run :: "'w os \<Rightarrow> int \<Rightarrow> 'w cmd \<Rightarrow> astree option \<Rightarrow> 'w cmd \<Rightarrow> 'w cmd" where
  "run os op e1 b2 e2 =
     (if op = 1 then semicolon_cmd e1 b2 e2
      else if op = 2 then background_cmd os e1 b2 e2
      else if op = 3 then or_cmd e1 e2
      else if op = 4 then and_cmd e1 e2
      else if op = 5 then pipe_cmd os e1 e2
      else if op = 6 then rdr_in_cmd os e1 b2
      else if op = 7 then rdr_out_cmd os e1 b2
      else (\<lambda>k p w. k 1 p (os_print os p
              ''Should never get here, default case in run() in implement.c'' w)))"

definition op_code :: "string \<Rightarrow> int" where
  "op_code op =
     (if op = '';'' then 1
      else if op = ''&'' then 2
      else if op = ''||'' then 3
      else if op = ''&&'' then 4
      else if op = ''|'' then 5
      else if op = ''<'' then 6
      else if op = ''>'' then 7
      else 0)"

fun execute_tree :: "'w os \<Rightarrow> astree \<Rightarrow> 'w cmd" where
  "execute_tree os (Cmd c) = execute_cmd os c"
| "execute_tree os (Op op b1 b2) =
     run os (op_code op)
       (case b1 of None \<Rightarrow> (\<lambda>k. k 0) | Some t \<Rightarrow> execute_tree os t) b2
       (case b2 of None \<Rightarrow> (\<lambda>k. k 0) | Some t \<Rightarrow> execute_tree os t)"

definition execute :: "'w os \<Rightarrow> astree option \<Rightarrow> 'w cmd" where
  "execute os t = (case t of None \<Rightarrow> (\<lambda>k. k 0) | Some u \<Rightarrow> execute_tree os u)"

section \<open>The main loop\<close>

text \<open>
  \<^verbatim>\<open>main\<close> and \<^verbatim>\<open>main_helper\<close>: \<open>interactive\<close> is \<^verbatim>\<open>argc == 1\<close> (a prompt before each line); \<open>inp\<close>
  is what is left of the input stream in the reading process. The commands a line starts
  do not take anything from \<open>inp\<close>, although a program run from an interactive shell
  inherits the standard input that the lines come from and may read some of them.
\<close>

function nush_main :: "'w os \<Rightarrow> bool \<Rightarrow> string \<Rightarrow> 'w run" where
  "nush_main os interactive inp p w =
     (let w0 = (if interactive then os_print os p ''nush$ '' w else w) in
      if inp = [] then exit_with 0 p w0
      else case fgets 256 inp of (line, rest) \<Rightarrow>
        (case tokenize (cstr line) of
           Inl e \<Rightarrow> (w0, Crashed e)
         | Inr tokens \<Rightarrow>
             (case parse tokens of
                Inl e \<Rightarrow> (w0, Crashed e)
              | Inr parsed \<Rightarrow>
                  execute os parsed (\<lambda>_ p' w'. nush_main os interactive rest p' w') p w0)))"
  by pat_completeness auto
termination
  by (relation "measure (\<lambda>(os, interactive, inp, p, w). length inp)")
     (auto dest: fgets_shorter [OF sym])

declare nush_main.simps [simp del]

section \<open>A direct semantics of commands\<close>

text \<open>
  What a command line means, without continuations: running a tree in a process either
  returns a status to the caller, with the state the process then has, or ends the process.
  This is defined for trees without \<^verbatim>\<open>&\<close> and \<^verbatim>\<open>>\<close> (\<open>simple_tree\<close>): there the code goes on with
  the rest of the shell in two processes, which no status returned to one caller describes.
  \<^verbatim>\<open>||\<close> runs its second command after exit code 1 and no other, as the code does; the comment
  in \<^verbatim>\<open>or_cmd\<close> speaks of any exit code that is not good.
\<close>

datatype outcome = Returns int proc | Ends pexit

fun simple_tree :: "astree \<Rightarrow> bool" where
  "simple_tree (Cmd c) = True"
| "simple_tree (Op op b1 b2) =
     (op \<in> {'';'', ''||'', ''&&'', ''|'', ''<''} \<and>
      (\<forall>t\<in>set_option b1. simple_tree t) \<and> (\<forall>t\<in>set_option b2. simple_tree t))"

definition simple_opt :: "astree option \<Rightarrow> bool" where
  "simple_opt t = (case t of None \<Rightarrow> True | Some u \<Rightarrow> simple_tree u)"

text \<open>The exit status of a child that runs a command and then exits with its status.\<close>

definition subprocess :: "'w \<times> outcome \<Rightarrow> 'w \<times> pexit" where
  "subprocess r = (case r of
     (w, Returns n p) \<Rightarrow> (w, Exited n) | (w, Ends st) \<Rightarrow> (w, st))"

definition and_then :: "'w \<times> outcome \<Rightarrow> (int \<Rightarrow> proc \<Rightarrow> 'w \<Rightarrow> 'w \<times> outcome) \<Rightarrow> 'w \<times> outcome" where
  "and_then r f = (case r of (w, Returns n p) \<Rightarrow> f n p w | (w, Ends st) \<Rightarrow> (w, Ends st))"

definition in_child :: "proc \<Rightarrow> 'w \<times> pexit \<Rightarrow> 'w \<times> outcome" where
  "in_child p r = (case r of (w, st) \<Rightarrow> (w, Returns (wexitstatus st) p))"

definition sem_cmd :: "'w os \<Rightarrow> svec \<Rightarrow> proc \<Rightarrow> 'w \<Rightarrow> 'w \<times> outcome" where
  "sem_cmd os c p w =
     (case map the (items c) of
        [] \<Rightarrow> (w, Ends (Crashed AssertFailed))
      | prog # args \<Rightarrow>
          if prog = ''cd'' then
            (case args of
               [] \<Rightarrow> (w, Ends (Crashed AssertFailed))
             | d # _ \<Rightarrow>
                 (case os_chdir os p d w of
                    None \<Rightarrow> (os_print os p (''Invalid directory'' @ [CHR 0x0A]) w, Returns (-1) p)
                  | Some dir \<Rightarrow> (w, Returns 0 (p\<lparr>p_cwd := dir\<rparr>))))
          else if prog = ''exit'' then (w, Ends (Exited 0))
          else (case os_exec os p (prog # args) w of
                  None \<Rightarrow> (w, Returns 1 p)
                | Some (w', st) \<Rightarrow> (w', Returns (st mod 256) p)))"

definition sem_redirect ::
  "'w os \<Rightarrow> (proc \<Rightarrow> 'w \<Rightarrow> 'w \<times> outcome) \<Rightarrow> astree option \<Rightarrow> proc \<Rightarrow> 'w \<Rightarrow> 'w \<times> outcome" where
  "sem_redirect os m1 b2 p w =
     (case redirect_path b2 of
        Inl e \<Rightarrow> (w, Returns 0 p)
      | Inr path \<Rightarrow>
          (case os_open_rd os p path w of
             (w1, d) \<Rightarrow> in_child p (subprocess (m1 (p\<lparr>p_stdin := d\<rparr>) w1))))"

definition sem_pipe ::
  "'w os \<Rightarrow> (proc \<Rightarrow> 'w \<Rightarrow> 'w \<times> outcome) \<Rightarrow> (proc \<Rightarrow> 'w \<Rightarrow> 'w \<times> outcome) \<Rightarrow>
   proc \<Rightarrow> 'w \<Rightarrow> 'w \<times> outcome" where
  "sem_pipe os m1 m2 p w =
     (case os_pipe os w of (w1, fds) \<Rightarrow>
      case os_conc os
        (\<lambda>w. subprocess (m1 (p\<lparr>p_stdout := PipeWrite fds\<rparr>) w))
        (\<lambda>w. subprocess (m2 (p\<lparr>p_stdin := PipeRead fds\<rparr>) w)) w1
      of (w2, st1, st2) \<Rightarrow> in_child p (w2, st2))"

fun sem :: "'w os \<Rightarrow> astree \<Rightarrow> proc \<Rightarrow> 'w \<Rightarrow> 'w \<times> outcome" where
  "sem os (Cmd c) p w = sem_cmd os c p w"
| "sem os (Op op b1 b2) p w =
     (let m1 = (\<lambda>p w. case b1 of None \<Rightarrow> (w, Returns 0 p) | Some t \<Rightarrow> sem os t p w);
          m2 = (\<lambda>p w. case b2 of None \<Rightarrow> (w, Returns 0 p) | Some t \<Rightarrow> sem os t p w) in
      if op = '';'' then
        and_then (m1 p w) (\<lambda>n p w. if b2 = None then (w, Returns n p) else m2 p w)
      else if op = ''||'' then
        and_then (m1 p w) (\<lambda>n p w. if n = 1 then m2 p w else (w, Returns n p))
      else if op = ''&&'' then
        and_then (m1 p w) (\<lambda>n p w. if n = 0 then m2 p w else (w, Returns n p))
      else if op = ''|'' then sem_pipe os m1 m2 p w
      else sem_redirect os m1 b2 p w)"

definition sem_opt :: "'w os \<Rightarrow> astree option \<Rightarrow> proc \<Rightarrow> 'w \<Rightarrow> 'w \<times> outcome" where
  "sem_opt os t p w = (case t of None \<Rightarrow> (w, Returns 0 p) | Some u \<Rightarrow> sem os u p w)"

text \<open>Going on with a continuation after a command.\<close>

definition resume :: "'w cont \<Rightarrow> 'w \<times> outcome \<Rightarrow> 'w \<times> pexit" where
  "resume k r = (case r of (w, Returns n p) \<Rightarrow> k n p w | (w, Ends st) \<Rightarrow> (w, st))"

lemma resume_simps [simp]:
  "resume k (w, Returns n p) = k n p w"
  "resume k (w, Ends st) = (w, st)"
  by (simp_all add: resume_def)

lemma resume_exit: "resume exit_with r = subprocess r"
  by (auto simp: resume_def subprocess_def exit_with_def split: prod.splits outcome.splits)

lemma resume_and_then: "resume k (and_then r f) = resume (\<lambda>n p w. resume k (f n p w)) r"
  by (auto simp: resume_def and_then_def split: prod.splits outcome.splits)

lemma resume_in_child: "resume k (in_child p r) = (case r of (w, st) \<Rightarrow> k (wexitstatus st) p w)"
  by (auto simp: resume_def in_child_def split: prod.splits)

lemma argv_loop_drop:
  assumes "svec_ok c" and "None \<notin> set (items c)" and "0 \<le> ii" and "ii \<le> sv_spaces c"
  shows "argv_loop c ii = Inr (map the (drop (nat ii) (items c)))"
  using assms
proof (induction c ii rule: argv_loop.induct)
  case (1 c ii)
  have len: "int (length (items c)) = sv_spaces c"
    using "1.prems"(1) by (auto simp: svec_ok_def svec_shape_def items_def)
  show ?case
  proof (cases "ii < sv_spaces c")
    case False
    then have "length (items c) \<le> nat ii" using len by linarith
    then show ?thesis using False
      by (subst argv_loop.simps) (simp add: svec_length_def)
  next
    case True
    then have lt: "nat ii < length (items c)" using "1.prems" len by linarith
    then obtain s where s: "items c ! nat ii = Some s"
      using "1.prems"(2) nth_mem [OF lt] by (cases "items c ! nat ii") auto
    have get: "svec_get c ii = Inr (Some s)"
      using svec_get_items [OF svec_ok_hw05, of c ii] "1.prems" True s by simp
    have "argv_loop c (ii + 1) = Inr (map the (drop (nat (ii + 1)) (items c)))"
      using "1.IH" [OF _ get] "1.prems" True by (simp add: svec_length_def)
    then show ?thesis
      using get True s Cons_nth_drop_Suc [OF lt] "1.prems"(3)
      by (simp add: argv_loop.simps [of c ii] svec_length_def nat_add_distrib)
         (metis list.simps(9) option.sel)
  qed
qed

lemma items_spaces: "svec_ok c \<Longrightarrow> sv_spaces c = int (length (items c))"
  by (auto simp: svec_ok_def svec_shape_def items_def)

lemma execute_cmd_sem:
  assumes "svec_ok c" and "items c \<noteq> []" and "None \<notin> set (items c)"
  shows "execute_cmd os c k p w = resume k (sem_cmd os c p w)"
proof -
  obtain prog rest where it: "items c = Some prog # rest"
    using assms(2,3) by (cases "items c"; cases "hd (items c)") auto
  have sp: "sv_spaces c = int (length (items c))" by (rule items_spaces [OF assms(1)])
  have get0: "svec_get c 0 = Inr (Some prog)"
    using svec_get_items [of c 0] assms(1) it sp by (simp add: svec_ok_hw05)
  have argv: "argv_loop c 0 = Inr (prog # map the rest)"
    using argv_loop_drop [OF assms(1,3), of 0] it sp by simp
  have cd0: "svec_get c 1 = Inl AssertFailed" if "rest = []"
    using that it sp by (simp add: svec_get_def)
  have cd1: "svec_get c 1 = Inr (Some (the (hd rest)))" if "rest \<noteq> []"
    using that svec_get_items [of c 1] assms it sp by (cases rest) (auto simp: svec_ok_hw05)
  show ?thesis
    using get0 argv cd0 cd1 it
    by (cases rest)
       (auto simp: execute_cmd_def sem_cmd_def fork_wait_def exit_with_def wexitstatus_def
             split: option.splits)
qed

text \<open>
  The functions of \<^verbatim>\<open>implement.c\<close> refine the direct semantics: whatever the caller does next
  happens exactly once, in the shell's own process, with the status and the process state
  that the semantics gives.
\<close>

lemma execute_tree_sem:
  "simple_tree t \<Longrightarrow> wf_tree t \<Longrightarrow> execute_tree os t k p w = resume k (sem os t p w)"
proof (induction t arbitrary: k p w)
  case (Cmd c)
  then show ?case using execute_cmd_sem [of c os k p w] by simp
next
  case (Op op b1 b2)
  define m1 where "m1 = (\<lambda>p w. case b1 of None \<Rightarrow> (w, Returns 0 p) | Some t \<Rightarrow> sem os t p w)"
  define m2 where "m2 = (\<lambda>p w. case b2 of None \<Rightarrow> (w, Returns 0 p) | Some t \<Rightarrow> sem os t p w)"
  have e1: "(case b1 of None \<Rightarrow> (\<lambda>k. k 0) | Some t \<Rightarrow> execute_tree os t) = (\<lambda>k p w. resume k (m1 p w))"
    using Op.IH(1) Op.prems by (auto simp: m1_def fun_eq_iff split: option.splits)
  have e2: "(case b2 of None \<Rightarrow> (\<lambda>k. k 0) | Some t \<Rightarrow> execute_tree os t) = (\<lambda>k p w. resume k (m2 p w))"
    using Op.IH(2) Op.prems by (auto simp: m2_def fun_eq_iff split: option.splits)
  have step: "execute_tree os (Op op b1 b2) k p w =
      run os (op_code op) (\<lambda>k p w. resume k (m1 p w)) b2 (\<lambda>k p w. resume k (m2 p w)) k p w"
    by (simp add: e1 e2)
  have sem: "sem os (Op op b1 b2) p w =
     (if op = '';'' then
        and_then (m1 p w) (\<lambda>n p w. if b2 = None then (w, Returns n p) else m2 p w)
      else if op = ''||'' then
        and_then (m1 p w) (\<lambda>n p w. if n = 1 then m2 p w else (w, Returns n p))
      else if op = ''&&'' then
        and_then (m1 p w) (\<lambda>n p w. if n = 0 then m2 p w else (w, Returns n p))
      else if op = ''|'' then sem_pipe os m1 m2 p w
      else sem_redirect os m1 b2 p w)"
    by (simp only: sem.simps Let_def m1_def m2_def)
  have res_if: "resume k (if b then x else y) = (if b then resume k x else resume k y)" for b x y
    by simp
  from Op.prems(1) consider "op = '';''" | "op = ''||''" | "op = ''&&''" | "op = ''|''" | "op = ''<''"
    by auto
  then show ?case
  proof cases
    case 1
    then show ?thesis unfolding step sem
      by (simp add: op_code_def run_def semicolon_cmd_def resume_and_then split: option.splits)
         (cases b2; simp)
  next
    case 2
    then show ?thesis unfolding step sem
      by (simp add: op_code_def run_def or_cmd_def resume_and_then res_if cong: if_cong)
  next
    case 3
    then show ?thesis unfolding step sem
      by (simp add: op_code_def run_def and_cmd_def resume_and_then res_if cong: if_cong)
  next
    case 4
    then show ?thesis unfolding step sem
      by (simp add: op_code_def run_def pipe_cmd_def fork_wait_def sem_pipe_def resume_exit
            resume_in_child split: prod.splits)
  next
    case 5
    then show ?thesis unfolding step sem
      by (simp add: op_code_def run_def rdr_in_cmd_def fork_wait_def sem_redirect_def resume_exit
            resume_in_child wexitstatus_def split: prod.splits sum.splits)
  qed
qed

lemma simple_tree_tokens:
  "wf_tree t \<Longrightarrow> ''>'' \<notin> set (yield_tree t) \<Longrightarrow> ''&'' \<notin> set (yield_tree t) \<Longrightarrow> simple_tree t"
proof (induction t)
  case (Op op b1 b2)
  then show ?case by (cases b1; cases b2) (auto simp: operators_def)
qed simp

lemma execute_some_sem:
  assumes "wf_tree u" and "''>'' \<notin> set (yield_tree u)" and "''&'' \<notin> set (yield_tree u)"
  shows "execute os (Some u) k p w = resume k (sem os u p w)"
  unfolding execute_def option.case
  by (rule execute_tree_sem [OF simple_tree_tokens [OF assms] assms(1)])

lemma execute_sem_opt:
  assumes "tree_of ts t" and "''>'' \<notin> set ts" and "''&'' \<notin> set ts"
  shows "execute os t k p w = resume k (sem_opt os t p w)"
proof (cases t)
  case None
  then show ?thesis by (simp add: execute_def sem_opt_def)
next
  case (Some u)
  with assms(1) have u: "wf_tree u" "yield_tree u = ts" by (simp_all add: tree_of_def yield_of_def)
  have "execute os (Some u) k p w = resume k (sem os u p w)"
    by (rule execute_some_sem) (use u assms(2,3) in simp_all)
  then show ?thesis using Some by (simp add: sem_opt_def)
qed

lemma wexitstatus_range: "wexitstatus st \<in> {0..255}"
proof (cases st)
  case (Exited n)
  have "0 \<le> n mod 256" "n mod 256 < 256" by simp_all
  then show ?thesis using Exited by (simp add: wexitstatus_def)
qed (simp add: wexitstatus_def)

section \<open>A direct semantics of scripts\<close>

text \<open>
  The tree of a line, the lines that \<^verbatim>\<open>fgets\<close> cuts the input into, and a run of the script:
  the lines one after the other, until one of them ends the shell or the input ends.
\<close>

definition line_tree :: "string \<Rightarrow> astree option" where
  "line_tree line =
     (case bind_res (tokenize (cstr line)) parse of Inl e \<Rightarrow> None | Inr t \<Rightarrow> t)"

function script_lines :: "string \<Rightarrow> string list" where
  "script_lines inp =
     (if inp = [] then []
      else case fgets 256 inp of (line, rest) \<Rightarrow> line # script_lines rest)"
  by pat_completeness auto
termination
  by (relation "measure length") (auto dest: fgets_shorter [OF sym])

declare script_lines.simps [simp del]

fun run_lines :: "'w os \<Rightarrow> bool \<Rightarrow> string list \<Rightarrow> 'w run" where
  "run_lines os interactive [] p w =
     exit_with 0 p (if interactive then os_print os p ''nush$ '' w else w)"
| "run_lines os interactive (line # lines) p w =
     resume (\<lambda>_. run_lines os interactive lines)
       (sem_opt os (line_tree line) p (if interactive then os_print os p ''nush$ '' w else w))"

lemma line_tree_spec:
  "\<exists>tokens. tokenize (cstr line) = Inr tokens \<and> parse tokens = Inr (line_tree line) \<and>
     tree_of (tokens_of (cstr line)) (line_tree line)"
proof -
  from tokenize_items [of "cstr line"] obtain sv where
    sv: "tokenize (cstr line) = Inr sv" "svec_ok sv" "items sv = map Some (tokens_of (cstr line))"
    by blast
  from parse_tree_of [OF sv(2,3)] obtain t where
    t: "parse sv = Inr t" "tree_of (tokens_of (cstr line)) t" by blast
  then have "line_tree line = t" using sv(1) by (simp add: line_tree_def)
  then show ?thesis using sv(1) t by blast
qed

lemma nush_main_step:
  assumes "inp \<noteq> []" and "fgets 256 inp = (line, rest)"
  shows "nush_main os interactive inp p w =
    execute os (line_tree line) (\<lambda>_ p' w'. nush_main os interactive rest p' w') p
      (if interactive then os_print os p ''nush$ '' w else w)"
proof -
  from line_tree_spec [of line] obtain tokens where
    "tokenize (cstr line) = Inr tokens" "parse tokens = Inr (line_tree line)" by blast
  then show ?thesis using assms by (simp add: nush_main.simps [of os interactive inp])
qed

section \<open>Properties of the executor\<close>

text \<open>
  A system for concrete runs: the world is the log of the programs that ran, with the
  descriptor their output went to. The program \<^verbatim>\<open>fail\<close> exits with its length of arguments,
  \<^verbatim>\<open>missing\<close> cannot be executed, two processes run one after the other.
\<close>

definition log_os :: "((fd \<times> string list) list) os" where
  "log_os = \<lparr>
     os_exec = (\<lambda>p args w.
       if hd args = ''missing'' then None
       else Some (w @ [(p_stdout p, args)], if hd args = ''fail'' then int (length args) else 0)),
     os_chdir = (\<lambda>p d w. if d = ''none'' then None else Some d),
     os_open_rd = (\<lambda>p path w. (w, OpenedFile path)),
     os_open_wr = (\<lambda>p path w. (w, OpenedFile path)),
     os_pipe = (\<lambda>w. (w, 0)),
     os_conc = (\<lambda>c1 c2 w. case c1 w of (w1, st1) \<Rightarrow> (case c2 w1 of (w2, st2) \<Rightarrow> (w2, st1, st2))),
     os_print = (\<lambda>p s w. w @ [(p_stdout p, [s])])\<rparr>"

definition shell_proc :: proc where
  "shell_proc = \<lparr>p_cwd = ''/'', p_stdin = Inherited 0, p_stdout = Inherited 1\<rparr>"

definition cmd_of :: "string list \<Rightarrow> astree" where
  "cmd_of ws = Cmd \<lparr>sv_size = int (length ws), sv_spaces = int (length ws), sv_data = map Str ws\<rparr>"

text \<open>
  C6. On a tree of the parser without \<^verbatim>\<open>&\<close> and \<^verbatim>\<open>>\<close> the executor refines the direct
  semantics: it either ends the process as the semantics says, or its caller goes on exactly
  once, with the status and the process state of the semantics. There \<^verbatim>\<open>||\<close> goes on to its
  second command after exit code exactly 1, which is narrower than the comment in \<^verbatim>\<open>or_cmd\<close>.
\<close>

theorem execute_refines:
  assumes "tree_of ts t" and "''>'' \<notin> set ts" and "''&'' \<notin> set ts"
  shows "execute os t k p w = resume k (sem_opt os t p w)"
  by (rule execute_sem_opt [OF assms])

theorem execute_refines_witness:
  "execute log_os (Some (Op ''&&'' (Some (cmd_of [''cd'', ''d''])) (Some (cmd_of [''ls'']))))
     exit_with shell_proc [] =
   resume exit_with (sem_opt log_os
     (Some (Op ''&&'' (Some (cmd_of [''cd'', ''d''])) (Some (cmd_of [''ls''])))) shell_proc [])"
proof (rule execute_refines)
  show "tree_of [''cd'', ''d'', ''&&'', ''ls'']
    (Some (Op ''&&'' (Some (cmd_of [''cd'', ''d''])) (Some (cmd_of [''ls'']))))"
    by (simp add: tree_of_def yield_of_def cmd_of_def items_def slot_val_def operators_def level_def
        svec_ok_def svec_shape_def)
qed simp_all

text \<open>
  C7. A pipeline or an input redirection never changes the state of the shell: the caller
  goes on in an unchanged process, with an exit code between 0 and 255.
\<close>

theorem subshell_isolated:
  assumes "wf_tree (Op op b1 b2)" and "op = ''|'' \<or> op = ''<''"
    and "''>'' \<notin> set (yield_tree (Op op b1 b2))" and "''&'' \<notin> set (yield_tree (Op op b1 b2))"
  shows "\<exists>w' n. n \<in> {0..255} \<and> (\<forall>k. execute os (Some (Op op b1 b2)) k p w = k n p w')"
proof -
  note ex = execute_some_sem [OF assms(1,3,4), of os _ p w]
  have "\<exists>w' n. n \<in> {0..255} \<and> sem os (Op op b1 b2) p w = (w', Returns n p)"
    using assms(2) wexitstatus_range
    by (auto simp: Let_def sem_pipe_def sem_redirect_def in_child_def split: prod.splits sum.splits)
  then show ?thesis unfolding ex by fastforce
qed

theorem subshell_isolated_witness:
  "\<exists>w' n. n \<in> {0..255} \<and>
     (\<forall>k. execute log_os (Some (Op ''|'' (Some (cmd_of [''cd'', ''d''])) (Some (cmd_of [''wc'']))))
        k shell_proc [] = k n shell_proc w')"
  by (rule subshell_isolated)
     (simp_all add: yield_of_def cmd_of_def items_def slot_val_def operators_def level_def
        svec_ok_def svec_shape_def)

text \<open>
  C8. A command with an output redirection runs what follows it twice: the child goes on
  with the shell's continuation (the rest of the line and of the script) with its output
  still redirected, and when it has ended the shell runs the same continuation again.
\<close>

theorem rdr_out_runs_rest_twice:
  assumes "wf_tree a" and "''>'' \<notin> set (yield_tree a)" and "''&'' \<notin> set (yield_tree a)"
    and "redirect_path b2 = Inr path" and "os_open_wr os p path w = (w1, d)"
    and "sem os a (p\<lparr>p_stdout := d\<rparr>) w1 = (w2, Returns n p2)"
    and "k 0 p2 w2 = (w3, st)"
  shows "execute os (Some (Op ''>'' (Some a) b2)) k p w = k (wexitstatus st) p w3"
  using assms execute_some_sem [OF assms(1-3), of os]
  by (simp add: execute_def run_def op_code_def rdr_out_cmd_def fork_wait_def)

theorem rdr_out_runs_rest_twice_witness:
  "execute log_os (Some (Op ''>'' (Some (cmd_of [''ls''])) (Some (cmd_of [''f'']))))
     (\<lambda>_. execute log_os (Some (cmd_of [''date''])) exit_with) shell_proc [] =
   ([(OpenedFile ''f'', [''ls'']), (OpenedFile ''f'', [''date'']), (Inherited 1, [''date''])],
    Exited 0)"
proof -
  let ?p2 = "shell_proc\<lparr>p_stdout := OpenedFile ''f''\<rparr>"
  let ?k = "\<lambda>_ :: int. execute log_os (Some (cmd_of [''date''])) exit_with"
  have a: "wf_tree (cmd_of [''ls''])" "''>'' \<notin> set (yield_tree (cmd_of [''ls'']))"
    "''&'' \<notin> set (yield_tree (cmd_of [''ls'']))"
    by (simp_all add: cmd_of_def items_def slot_val_def operators_def svec_ok_def svec_shape_def)
  have date: "execute log_os (Some (cmd_of [''date''])) exit_with p w =
      (w @ [(p_stdout p, [''date''])], Exited 0)" for p w
    by (subst execute_some_sem)
       (simp_all add: cmd_of_def items_def slot_val_def operators_def svec_ok_def svec_shape_def
          sem_cmd_def log_os_def resume_def exit_with_def)
  have path: "redirect_path (Some (cmd_of [''f''])) = Inr ''f''"
    by (simp add: redirect_path_def cmd_of_def svec_get_def slot_ptr_def)
  have open_f: "os_open_wr log_os shell_proc ''f'' [] = ([], OpenedFile ''f'')"
    by (simp add: log_os_def)
  have ls: "sem log_os (cmd_of [''ls'']) ?p2 [] = ([(OpenedFile ''f'', [''ls''])], Returns 0 ?p2)"
    by (simp add: sem_cmd_def cmd_of_def items_def slot_val_def log_os_def)
  have k: "?k 0 ?p2 [(OpenedFile ''f'', [''ls''])] =
      ([(OpenedFile ''f'', [''ls'']), (OpenedFile ''f'', [''date''])], Exited 0)"
    by (simp add: date)
  show ?thesis
    using rdr_out_runs_rest_twice [where k = ?k, OF a path open_f ls k]
    by (simp add: date shell_proc_def wexitstatus_def)
qed

text \<open>
  \<^verbatim>\<open>a || b\<close> runs \<^verbatim>\<open>b\<close> only when \<^verbatim>\<open>a\<close> ends with exit code exactly 1: after any other
  failure the second command is skipped and the failure is returned.
\<close>

theorem or_cmd_skips_other_failures:
  assumes "wf_tree a" and "''>'' \<notin> set (yield_tree a)" and "''&'' \<notin> set (yield_tree a)"
    and "sem os a p w = (w1, Returns n p1)" and "n \<noteq> 1"
  shows "execute os (Some (Op ''||'' (Some a) b2)) k p w = k n p1 w1"
  using assms(4,5) execute_some_sem [OF assms(1-3), of os]
  by (simp add: execute_def run_def op_code_def or_cmd_def)

theorem or_cmd_skips_other_failures_witness:
  "execute log_os (Some (Op ''||'' (Some (cmd_of [''fail'', ''2''])) (Some (cmd_of [''ls'']))))
     exit_with shell_proc [] = exit_with 2 shell_proc [(Inherited 1, [''fail'', ''2''])]"
  by (rule or_cmd_skips_other_failures)
     (simp_all add: cmd_of_def items_def slot_val_def operators_def svec_ok_def svec_shape_def
        sem_cmd_def log_os_def shell_proc_def)

text \<open>
  \<^verbatim>\<open>cd\<close> without an argument ends the shell itself by a failed assertion: nothing that
  follows is executed.
\<close>

theorem cd_without_argument_aborts:
  assumes "svec_ok c" and "items c = [Some ''cd'']"
  shows "execute os (Some (Cmd c)) k p w = (w, Crashed AssertFailed)"
  using execute_cmd_sem [of c os k p w] assms by (simp add: execute_def sem_cmd_def)

theorem cd_without_argument_aborts_witness:
  "execute log_os (Some (Cmd \<lparr>sv_size = 1, sv_spaces = 1, sv_data = [Str ''cd'']\<rparr>))
     exit_with shell_proc [] = ([], Crashed AssertFailed)"
  by (rule cd_without_argument_aborts)
     (simp_all add: svec_ok_def svec_shape_def items_def slot_val_def)

text \<open>
  C9. The shell executes a script line by line: for an input whose lines have no token \<^verbatim>\<open>>\<close>
  or \<^verbatim>\<open>&\<close>, and which only the shell itself reads, the main loop reads, tokenizes, parses and
  executes every line in order, in one process, until a line ends the shell or the input
  ends; and every line is executed by the tree that the grammar gives to its tokens. The
  words of a line are passed on as they are: the shell has no variables, although the test
  \<^verbatim>\<open>tests/15-vars.sh\<close> expects \<^verbatim>\<open>NAME=value\<close> and \<^verbatim>\<open>$NAME\<close> to work.
\<close>

theorem nush_main_correct:
  assumes "\<forall>line\<in>set (script_lines inp).
    ''>'' \<notin> set (tokens_of (cstr line)) \<and> ''&'' \<notin> set (tokens_of (cstr line))"
  shows "nush_main os interactive inp p w = run_lines os interactive (script_lines inp) p w \<and>
    (\<forall>line. tree_of (tokens_of (cstr line)) (line_tree line))"
proof
  show "nush_main os interactive inp p w = run_lines os interactive (script_lines inp) p w"
    using assms
  proof (induction inp arbitrary: p w rule: measure_induct_rule [of length])
    case (less inp)
    show ?case
    proof (cases "inp = []")
      case True
      then show ?thesis by (simp add: nush_main.simps [of os] script_lines.simps [of "[]"] Let_def)
    next
      case False
      obtain line rest where f: "fgets 256 inp = (line, rest)" by fastforce
      then have lines: "script_lines inp = line # script_lines rest"
        using False by (simp add: script_lines.simps [of inp])
      have "length rest < length inp" using fgets_shorter [OF f False] by simp
      then have IH: "(\<lambda>_ p' w'. nush_main os interactive rest p' w') =
          (\<lambda>_ :: int. run_lines os interactive (script_lines rest))"
        using less.IH [of rest] less.prems lines by (simp add: fun_eq_iff)
      have "tree_of (tokens_of (cstr line)) (line_tree line)" using line_tree_spec by blast
      from execute_sem_opt [OF this, of os] less.prems lines show ?thesis
        unfolding nush_main_step [OF False f] IH lines by simp
    qed
  qed
  show "\<forall>line. tree_of (tokens_of (cstr line)) (line_tree line)"
    using line_tree_spec by blast
qed

theorem nush_main_correct_witness:
  "nush_main log_os False ''ls | wc'' shell_proc [] =
   run_lines log_os False [''ls | wc''] shell_proc []"
proof -
  have lines: "script_lines ''ls | wc'' = [''ls | wc'']"
    by (simp add: script_lines.simps [of "_ # _"] script_lines.simps [of "[]"] fgets_def
        numeral_eq_Suc)
  have toks: "tokens_of (cstr ''ls | wc'') = [''ls'', ''|'', ''wc'']"
    by (simp add: cstr_def tokens_of.simps isspace_def is_op_def in_word_def)
  show ?thesis
    using nush_main_correct [of "''ls | wc''" log_os False shell_proc "[]"]
    unfolding lines by (simp add: toks)
qed

end
