(* ===== verification/Bio.thy ===== *)
theory Bio
  imports Prelude
begin

text \<open>
  The buffer cache of xv6, \<^verbatim>\<open>hw09/starter-hw09/xv6/bio.c\<close>, over the memory disk of
  \<^verbatim>\<open>memide.c\<close>. The array of buffers is \<open>bc_buf\<close>; the doubly linked list through \<^verbatim>\<open>head\<close> is
  \<open>bc_order\<close>, the buffer indices from the most to the least recently used one. One process
  runs the file-system code at a time, so the spin locks disappear and a sleep lock is a
  flag; waiting for a lock that is held is \<open>Deadlock\<close>. The field \<open>bio_writes\<close> records the
  block writes in the order in which they reach the disk: what is on the disk after a crash
  is the result of a prefix of them.

  The locale \<open>buffer_cache\<close> states what the log and the file system rely on; it is
  interpreted on the functions below.
\<close>

section \<open>State\<close>

definition NBUF :: nat where
  "NBUF = 30"

record buf =
  b_valid :: bool
  b_dirty :: bool
  b_dev :: nat
  b_blockno :: nat
  b_locked :: bool
  b_refcnt :: nat
  b_data :: mem

record bio =
  bc_buf :: "buf list"
  bc_order :: "nat list"
  bio_disk :: "nat \<Rightarrow> mem"
  bio_disksize :: nat
  bio_writes :: "(nat \<times> mem) list"

section \<open>Operations\<close>

definition empty_buf :: buf where
  "empty_buf = \<lparr>b_valid = False, b_dirty = False, b_dev = 0, b_blockno = 0, b_locked = False,
     b_refcnt = 0, b_data = (\<lambda>_. 0)\<rparr>"

text \<open>The loop of \<^verbatim>\<open>binit\<close> puts each buffer in front of the list.\<close>

fun binit_loop :: "nat list \<Rightarrow> nat list \<Rightarrow> nat list" where
  "binit_loop [] order = order"
| "binit_loop (b # bs) order = binit_loop bs (b # order)"

definition binit :: "(nat \<Rightarrow> mem) \<Rightarrow> nat \<Rightarrow> bio" where
  "binit disk disksize =
     \<lparr>bc_buf = replicate NBUF empty_buf, bc_order = binit_loop [0..<NBUF] [],
      bio_disk = disk, bio_disksize = disksize, bio_writes = []\<rparr>"

definition acquiresleep :: "buf \<Rightarrow> buf res" where
  "acquiresleep b = (if b_locked b then Inl Deadlock else Inr (b\<lparr>b_locked := True\<rparr>))"

definition bget :: "bio \<Rightarrow> nat \<Rightarrow> nat \<Rightarrow> (bio \<times> nat) res" where
  "bget bc dev blockno =
     (case find (\<lambda>i. b_dev (bc_buf bc ! i) = dev \<and> b_blockno (bc_buf bc ! i) = blockno) (bc_order bc) of
        Some i \<Rightarrow>
          bind_res (acquiresleep ((bc_buf bc ! i)\<lparr>b_refcnt := b_refcnt (bc_buf bc ! i) + 1\<rparr>))
            (\<lambda>b. Inr (bc\<lparr>bc_buf := (bc_buf bc)[i := b]\<rparr>, i))
      | None \<Rightarrow>
          (case find (\<lambda>i. b_refcnt (bc_buf bc ! i) = 0 \<and> \<not> b_dirty (bc_buf bc ! i))
                  (rev (bc_order bc)) of
             Some i \<Rightarrow>
               bind_res (acquiresleep ((bc_buf bc ! i)\<lparr>b_dev := dev, b_blockno := blockno,
                   b_valid := False, b_dirty := False, b_refcnt := 1\<rparr>))
                 (\<lambda>b. Inr (bc\<lparr>bc_buf := (bc_buf bc)[i := b]\<rparr>, i))
           | None \<Rightarrow> Inl (Panic ''bget: no buffers'')))"

definition iderw :: "bio \<Rightarrow> nat \<Rightarrow> bio res" where
  "iderw bc i =
     (let b = bc_buf bc ! i in
      if \<not> b_locked b then Inl (Panic ''iderw: buf not locked'')
      else if b_valid b \<and> \<not> b_dirty b then Inl (Panic ''iderw: nothing to do'')
      else if b_dev b \<noteq> 1 then Inl (Panic ''iderw: request not for disk 1'')
      else if bio_disksize bc \<le> b_blockno b then Inl (Panic ''iderw: block out of range'')
      else if b_dirty b then
        Inr (bc\<lparr>bio_disk := (bio_disk bc)(b_blockno b := b_data b),
                bio_writes := bio_writes bc @ [(b_blockno b, b_data b)],
                bc_buf := (bc_buf bc)[i := b\<lparr>b_dirty := False, b_valid := True\<rparr>]\<rparr>)
      else
        Inr (bc\<lparr>bc_buf := (bc_buf bc)[i := b\<lparr>b_data := bio_disk bc (b_blockno b), b_valid := True\<rparr>]\<rparr>))"

definition bread :: "bio \<Rightarrow> nat \<Rightarrow> nat \<Rightarrow> (bio \<times> nat) res" where
  "bread bc dev blockno =
     bind_res (bget bc dev blockno) (\<lambda>(bc, i).
       if \<not> b_valid (bc_buf bc ! i) then bind_res (iderw bc i) (\<lambda>bc. Inr (bc, i))
       else Inr (bc, i))"

definition bwrite :: "bio \<Rightarrow> nat \<Rightarrow> bio res" where
  "bwrite bc i =
     (if \<not> b_locked (bc_buf bc ! i) then Inl (Panic ''bwrite'')
      else iderw (bc\<lparr>bc_buf := (bc_buf bc)[i := (bc_buf bc ! i)\<lparr>b_dirty := True\<rparr>]\<rparr>) i)"

definition brelse :: "bio \<Rightarrow> nat \<Rightarrow> bio res" where
  "brelse bc i =
     (if \<not> b_locked (bc_buf bc ! i) then Inl (Panic ''brelse'')
      else let b = (bc_buf bc ! i)\<lparr>b_locked := False, b_refcnt := b_refcnt (bc_buf bc ! i) - 1\<rparr>;
               bc' = bc\<lparr>bc_buf := (bc_buf bc)[i := b]\<rparr> in
        Inr (if b_refcnt b = 0 then bc'\<lparr>bc_order := i # remove1 i (bc_order bc)\<rparr> else bc'))"

text \<open>What the clients do to a buffer they hold: read and write \<^verbatim>\<open>b->data\<close>, set \<^verbatim>\<open>B_DIRTY\<close>.\<close>

definition buf_data :: "bio \<Rightarrow> nat \<Rightarrow> mem" where
  "buf_data bc i = b_data (bc_buf bc ! i)"

definition set_buf_data :: "bio \<Rightarrow> nat \<Rightarrow> mem \<Rightarrow> bio" where
  "set_buf_data bc i d = bc\<lparr>bc_buf := (bc_buf bc)[i := (bc_buf bc ! i)\<lparr>b_data := d\<rparr>]\<rparr>"

definition set_buf_dirty :: "bio \<Rightarrow> nat \<Rightarrow> bio" where
  "set_buf_dirty bc i = bc\<lparr>bc_buf := (bc_buf bc)[i := (bc_buf bc ! i)\<lparr>b_dirty := True\<rparr>]\<rparr>"

section \<open>The interface of the cache\<close>

text \<open>
  Abstractly the cache is a disk whose blocks have a current content (\<open>view\<close>) and a content
  on the disk (\<open>disk\<close>); the blocks in \<open>pinned\<close> have been changed in memory only and cannot
  be evicted; \<open>held\<close> maps the buffers in use to their blocks. There are \<open>nbuf\<close> buffers for
  the blocks below \<open>nblocks s\<close>; a block can be read as long as the pinned and the held
  blocks leave a buffer.
\<close>

locale buffer_cache =
  fixes bread' :: "'s \<Rightarrow> nat \<Rightarrow> ('s \<times> 'b) res"
    and bwrite' :: "'s \<Rightarrow> 'b \<Rightarrow> 's res"
    and brelse' :: "'s \<Rightarrow> 'b \<Rightarrow> 's res"
    and get :: "'s \<Rightarrow> 'b \<Rightarrow> mem"
    and set_data :: "'s \<Rightarrow> 'b \<Rightarrow> mem \<Rightarrow> 's"
    and set_dirty :: "'s \<Rightarrow> 'b \<Rightarrow> 's"
    and invar :: "'s \<Rightarrow> bool"
    and view :: "'s \<Rightarrow> nat \<Rightarrow> mem"
    and disk :: "'s \<Rightarrow> nat \<Rightarrow> mem"
    and held :: "'s \<Rightarrow> 'b \<rightharpoonup> nat"
    and pinned :: "'s \<Rightarrow> nat set"
    and writes :: "'s \<Rightarrow> (nat \<times> mem) list"
    and nblocks :: "'s \<Rightarrow> nat"
    and nbuf :: nat
  assumes bread_law:
      "invar s \<Longrightarrow> bno < nblocks s \<Longrightarrow> bno \<notin> ran (held s) \<Longrightarrow>
       bno \<in> pinned s \<or> card (pinned s \<union> ran (held s)) < nbuf \<Longrightarrow>
       \<exists>s' b. bread' s bno = Inr (s', b) \<and> invar s' \<and> held s b = None \<and>
         held s' = (held s)(b \<mapsto> bno) \<and> view s' = view s \<and> disk s' = disk s \<and>
         pinned s' = pinned s \<and> writes s' = writes s \<and> nblocks s' = nblocks s"
    and held_inj: "invar s \<Longrightarrow> held s b = Some bno \<Longrightarrow> held s c = Some bno \<Longrightarrow> b = c"
    and get_law: "invar s \<Longrightarrow> held s b = Some bno \<Longrightarrow> get s b = view s bno"
    and set_data_law:
      "invar s \<Longrightarrow> held s b = Some bno \<Longrightarrow>
       invar (set_data s b d) \<and> view (set_data s b d) = (view s)(bno := d) \<and>
       disk (set_data s b d) = disk s \<and> held (set_data s b d) = held s \<and>
       pinned (set_data s b d) = pinned s \<and> writes (set_data s b d) = writes s \<and>
       nblocks (set_data s b d) = nblocks s"
    and set_dirty_law:
      "invar s \<Longrightarrow> held s b = Some bno \<Longrightarrow>
       invar (set_dirty s b) \<and> view (set_dirty s b) = view s \<and>
       disk (set_dirty s b) = disk s \<and> held (set_dirty s b) = held s \<and>
       pinned (set_dirty s b) = insert bno (pinned s) \<and> writes (set_dirty s b) = writes s \<and>
       nblocks (set_dirty s b) = nblocks s"
    and bwrite_law:
      "invar s \<Longrightarrow> held s b = Some bno \<Longrightarrow>
       \<exists>s'. bwrite' s b = Inr s' \<and> invar s' \<and> view s' = view s \<and>
         disk s' = (disk s)(bno := view s bno) \<and> held s' = held s \<and>
         pinned s' = pinned s - {bno} \<and> writes s' = writes s @ [(bno, view s bno)] \<and>
         nblocks s' = nblocks s"
    and brelse_law:
      "invar s \<Longrightarrow> held s b = Some bno \<Longrightarrow> bno \<in> pinned s \<or> view s bno = disk s bno \<Longrightarrow>
       \<exists>s'. brelse' s b = Inr s' \<and> invar s' \<and> view s' = view s \<and> disk s' = disk s \<and>
         held s' = (held s)(b := None) \<and> pinned s' = pinned s \<and> writes s' = writes s \<and>
         nblocks s' = nblocks s"
    and coherent:
      "invar s \<Longrightarrow> bno \<notin> pinned s \<Longrightarrow> bno \<notin> ran (held s) \<Longrightarrow> view s bno = disk s bno"
    and finite_pinned: "invar s \<Longrightarrow> finite (pinned s)"

context buffer_cache
begin

text \<open>
  Copying one block to another through the cache, in the two orders in which the log does
  it: the source is read first when a transaction is installed, the target first when it is
  written to the log.
\<close>

definition copied :: "'s \<Rightarrow> nat \<Rightarrow> nat \<Rightarrow> 's \<Rightarrow> bool" where
  "copied s a b s' \<longleftrightarrow>
     invar s' \<and> held s' = Map.empty \<and> view s' = (view s)(b := view s a) \<and>
     disk s' = (disk s)(b := view s a) \<and> pinned s' = pinned s - {b} \<and>
     writes s' = writes s @ [(b, view s a)] \<and> nblocks s' = nblocks s"

lemma copy_both:
  assumes inv: "invar s" and hx: "held s x = Some a" and hy: "held s y = Some b"
    and only: "\<And>z. z \<noteq> x \<Longrightarrow> z \<noteq> y \<Longrightarrow> held s z = None" and ab: "a \<noteq> b"
    and co: "a \<in> pinned s \<or> view s a = disk s a"
  shows "\<exists>s'. bind_res (bwrite' (set_data s y (get s x)) y)
      (\<lambda>s. bind_res (brelse' s x) (\<lambda>s. brelse' s y)) = Inr s' \<and> copied s a b s'"
proof -
  note get = get_law [OF inv hx]
  have xy: "x \<noteq> y" using hx hy ab by auto
  define s1 where "s1 = set_data s y (view s a)"
  have s1: "invar s1" "view s1 = (view s)(b := view s a)" "disk s1 = disk s" "held s1 = held s"
    "pinned s1 = pinned s" "writes s1 = writes s" "nblocks s1 = nblocks s"
    using set_data_law [OF inv hy, of "view s a"] by (simp_all add: s1_def)
  from bwrite_law [OF s1(1), of y b] hy s1 obtain s2 where
    s2: "bwrite' s1 y = Inr s2" "invar s2" "view s2 = view s1"
    "disk s2 = (disk s)(b := view s a)" "held s2 = held s" "pinned s2 = pinned s - {b}"
    "writes s2 = writes s @ [(b, view s a)]" "nblocks s2 = nblocks s" by auto
  have "a \<in> pinned s2 \<or> view s2 a = disk s2 a" using co ab s1 s2 by auto
  from brelse_law [OF s2(2) _ this, of x] hx s2 obtain s3 where
    s3: "brelse' s2 x = Inr s3" "invar s3" "view s3 = view s2" "disk s3 = disk s2"
    "held s3 = (held s)(x := None)" "pinned s3 = pinned s2" "writes s3 = writes s2"
    "nblocks s3 = nblocks s" by auto
  have "view s3 b = disk s3 b" using s1 s2 s3 by simp
  with brelse_law [OF s3(2), of y b] hy s3 xy obtain s4 where
    s4: "brelse' s3 y = Inr s4" "invar s4" "view s4 = view s3" "disk s4 = disk s3"
    "held s4 = (held s)(x := None, y := None)" "pinned s4 = pinned s3" "writes s4 = writes s3"
    "nblocks s4 = nblocks s" by auto
  have "held s4 = Map.empty" using s4(5) only by (auto simp: fun_eq_iff)
  then have "copied s a b s4"
    using s1 s2 s3 s4 by (simp add: copied_def)
  then show ?thesis using s2(1) s3(1) s4(1) by (simp add: get s1_def)
qed

lemma read_two:
  assumes inv: "invar s" and q: "held s = Map.empty" and ab: "a \<noteq> b"
    and in_range: "a < nblocks s" "b < nblocks s"
    and rooma: "a \<in> pinned s \<or> card (pinned s) < nbuf"
    and roomb: "b \<in> pinned s \<or> card (insert a (pinned s)) < nbuf"
  shows "\<exists>s1 x s2 y. bread' s a = Inr (s1, x) \<and> bread' s1 b = Inr (s2, y) \<and> invar s2 \<and> x \<noteq> y \<and>
    held s2 = [x \<mapsto> a, y \<mapsto> b] \<and> view s2 = view s \<and> disk s2 = disk s \<and> pinned s2 = pinned s \<and>
    writes s2 = writes s \<and> nblocks s2 = nblocks s"
proof -
  from bread_law [OF inv in_range(1)] q rooma obtain s1 x where
    s1: "bread' s a = Inr (s1, x)" "invar s1" "held s1 = [x \<mapsto> a]" "view s1 = view s"
    "disk s1 = disk s" "pinned s1 = pinned s" "writes s1 = writes s" "nblocks s1 = nblocks s"
    by auto
  from bread_law [OF s1(2), of b] s1 in_range(2) ab roomb obtain s2 y where
    "bread' s1 b = Inr (s2, y)" "invar s2" "held s1 y = None" "held s2 = [x \<mapsto> a, y \<mapsto> b]"
    "view s2 = view s1" "disk s2 = disk s1" "pinned s2 = pinned s1" "writes s2 = writes s1"
    "nblocks s2 = nblocks s1" by auto
  moreover from this s1 have "x \<noteq> y" by auto
  ultimately show ?thesis using s1 by auto
qed

lemma copy_source_first:
  assumes "invar s" and "held s = Map.empty" and ab: "a \<noteq> b" and "a < nblocks s" "b < nblocks s"
    and "a \<in> pinned s \<or> card (pinned s) < nbuf"
    and "b \<in> pinned s \<or> card (insert a (pinned s)) < nbuf"
  shows "\<exists>s'. bind_res (bread' s a) (\<lambda>(s, x). bind_res (bread' s b) (\<lambda>(s, y).
      bind_res (bwrite' (set_data s y (get s x)) y)
        (\<lambda>s. bind_res (brelse' s x) (\<lambda>s. brelse' s y)))) = Inr s' \<and> copied s a b s'"
proof -
  from read_two [OF assms] obtain s1 x s2 y where
    r: "bread' s a = Inr (s1, x)" "bread' s1 b = Inr (s2, y)" and s2: "invar s2" "x \<noteq> y"
    "held s2 = [x \<mapsto> a, y \<mapsto> b]" "view s2 = view s" "disk s2 = disk s" "pinned s2 = pinned s"
    "writes s2 = writes s" "nblocks s2 = nblocks s" by blast
  have "a \<in> pinned s2 \<or> view s2 a = disk s2 a" using coherent [OF assms(1)] assms(2) s2 by auto
  with copy_both [OF s2(1) _ _ _ ab, of x y] s2 r show ?thesis by (simp add: copied_def)
qed

lemma copy_target_first:
  assumes "invar s" and "held s = Map.empty" and ab: "b \<noteq> a" and "b < nblocks s" "a < nblocks s"
    and "b \<in> pinned s \<or> card (pinned s) < nbuf"
    and "a \<in> pinned s \<or> card (insert b (pinned s)) < nbuf"
  shows "\<exists>s'. bind_res (bread' s b) (\<lambda>(s, y). bind_res (bread' s a) (\<lambda>(s, x).
      bind_res (bwrite' (set_data s y (get s x)) y)
        (\<lambda>s. bind_res (brelse' s x) (\<lambda>s. brelse' s y)))) = Inr s' \<and> copied s a b s'"
proof -
  from read_two [OF assms] obtain s1 x s2 y where
    r: "bread' s b = Inr (s1, y)" "bread' s1 a = Inr (s2, x)" and s2: "invar s2" "y \<noteq> x"
    "held s2 = [y \<mapsto> b, x \<mapsto> a]" "view s2 = view s" "disk s2 = disk s" "pinned s2 = pinned s"
    "writes s2 = writes s" "nblocks s2 = nblocks s" by blast
  have "a \<in> pinned s2 \<or> view s2 a = disk s2 a" using coherent [OF assms(1)] assms(2) s2 by auto
  with copy_both [OF s2(1) _ _ _ ab [symmetric], of x y] s2 r show ?thesis by (simp add: copied_def)
qed

text \<open>Reading a block and releasing it changes nothing.\<close>

lemma read_block:
  assumes inv: "invar s" and q: "held s = Map.empty" and a: "a < nblocks s"
    and room: "a \<in> pinned s \<or> card (pinned s) < nbuf"
  shows "\<exists>s1 x s'. bread' s a = Inr (s1, x) \<and> get s1 x = view s a \<and> brelse' s1 x = Inr s' \<and>
      invar s' \<and> held s' = Map.empty \<and> view s' = view s \<and> disk s' = disk s \<and>
      pinned s' = pinned s \<and> writes s' = writes s \<and> nblocks s' = nblocks s"
proof -
  from bread_law [OF inv a] q room obtain s1 x where
    s1: "bread' s a = Inr (s1, x)" "invar s1" "held s1 = [x \<mapsto> a]" "view s1 = view s"
    "disk s1 = disk s" "pinned s1 = pinned s" "writes s1 = writes s" "nblocks s1 = nblocks s"
    by auto
  have "a \<in> pinned s1 \<or> view s1 a = disk s1 a" using coherent [OF inv] q s1 by auto
  from brelse_law [OF s1(2) _ this, of x] s1 obtain s' where
    "brelse' s1 x = Inr s'" "invar s'" "view s' = view s1" "disk s' = disk s1"
    "held s' = Map.empty" "pinned s' = pinned s1" "writes s' = writes s1" "nblocks s' = nblocks s1"
    by auto
  then show ?thesis using s1 get_law [OF s1(2)] by auto
qed

text \<open>Rewriting one block in place: read, change, write, release.\<close>

lemma rewrite_block:
  assumes inv: "invar s" and q: "held s = Map.empty" and a: "a < nblocks s"
    and room: "a \<in> pinned s \<or> card (pinned s) < nbuf"
  shows "\<exists>s1 x s2 s'. bread' s a = Inr (s1, x) \<and> get s1 x = view s a \<and>
      bwrite' (set_data s1 x d) x = Inr s2 \<and> brelse' s2 x = Inr s' \<and>
      invar s' \<and> held s' = Map.empty \<and> view s' = (view s)(a := d) \<and>
      disk s' = (disk s)(a := d) \<and> pinned s' = pinned s - {a} \<and>
      writes s' = writes s @ [(a, d)] \<and> nblocks s' = nblocks s"
proof -
  from bread_law [OF inv a] q room obtain s1 x where
    s1: "bread' s a = Inr (s1, x)" "invar s1" "held s1 = [x \<mapsto> a]" "view s1 = view s"
    "disk s1 = disk s" "pinned s1 = pinned s" "writes s1 = writes s" "nblocks s1 = nblocks s"
    by auto
  have get: "get s1 x = view s a" using get_law [OF s1(2)] s1 by simp
  note sd = set_data_law [OF s1(2), of x a d]
  from bwrite_law [of "set_data s1 x d" x a] sd s1 obtain s2 where
    s2: "bwrite' (set_data s1 x d) x = Inr s2" "invar s2" "view s2 = (view s)(a := d)"
    "disk s2 = (disk s)(a := d)" "held s2 = [x \<mapsto> a]" "pinned s2 = pinned s - {a}"
    "writes s2 = writes s @ [(a, d)]" "nblocks s2 = nblocks s" by auto
  from brelse_law [OF s2(2), of x a] s2 obtain s' where
    "brelse' s2 x = Inr s'" "invar s'" "view s' = view s2" "disk s' = disk s2"
    "held s' = Map.empty" "pinned s' = pinned s2" "writes s' = writes s2" "nblocks s' = nblocks s2"
    by auto
  then show ?thesis using s1(1) get s2 by auto
qed

end

section \<open>Invariant and abstraction\<close>

definition buf_ok :: "(nat \<Rightarrow> mem) \<Rightarrow> nat \<Rightarrow> buf \<Rightarrow> bool" where
  "buf_ok d n b \<longleftrightarrow>
     (if b_valid b then b_dev b = 1 \<and> b_blockno b < n
      else b_dev b = 0 \<and> \<not> b_locked b \<and> \<not> b_dirty b) \<and>
     b_refcnt b = (if b_locked b then 1 else 0) \<and>
     (b_valid b \<and> \<not> b_dirty b \<and> \<not> b_locked b \<longrightarrow> b_data b = d (b_blockno b))"

definition caches :: "bio \<Rightarrow> nat \<Rightarrow> nat \<Rightarrow> bool" where
  "caches bc i bno \<longleftrightarrow>
     i < length (bc_buf bc) \<and> b_valid (bc_buf bc ! i) \<and> b_blockno (bc_buf bc ! i) = bno"

definition bio_ok :: "bio \<Rightarrow> bool" where
  "bio_ok bc \<longleftrightarrow>
     length (bc_buf bc) = NBUF \<and> distinct (bc_order bc) \<and> set (bc_order bc) = {..<NBUF} \<and>
     (\<forall>i<NBUF. buf_ok (bio_disk bc) (bio_disksize bc) (bc_buf bc ! i)) \<and>
     (\<forall>i j bno. caches bc i bno \<longrightarrow> caches bc j bno \<longrightarrow> i = j)"

definition bio_view :: "bio \<Rightarrow> nat \<Rightarrow> mem" where
  "bio_view bc bno =
     (case find (\<lambda>i. caches bc i bno) [0..<length (bc_buf bc)] of
        Some i \<Rightarrow> b_data (bc_buf bc ! i) | None \<Rightarrow> bio_disk bc bno)"

definition bio_held :: "bio \<Rightarrow> nat \<rightharpoonup> nat" where
  "bio_held bc i =
     (if i < length (bc_buf bc) \<and> b_locked (bc_buf bc ! i)
      then Some (b_blockno (bc_buf bc ! i)) else None)"

definition bio_pinned :: "bio \<Rightarrow> nat set" where
  "bio_pinned bc =
     (\<lambda>i. b_blockno (bc_buf bc ! i)) ` {i. i < length (bc_buf bc) \<and> b_dirty (bc_buf bc ! i)}"

lemma view_cached:
  assumes "bio_ok bc" and "caches bc i bno"
  shows "bio_view bc bno = b_data (bc_buf bc ! i)"
proof -
  have "\<exists>j. find (\<lambda>i. caches bc i bno) [0..<length (bc_buf bc)] = Some j"
    using assms(2) by (cases "find (\<lambda>i. caches bc i bno) [0..<length (bc_buf bc)]")
      (auto simp: find_None_iff caches_def)
  then obtain j where j: "find (\<lambda>i. caches bc i bno) [0..<length (bc_buf bc)] = Some j" by blast
  then have "caches bc j bno" by (auto simp: find_Some_iff)
  then have "j = i" using assms by (auto simp: bio_ok_def)
  then show ?thesis using j by (simp add: bio_view_def)
qed

lemma view_uncached: "(\<And>i. \<not> caches bc i bno) \<Longrightarrow> bio_view bc bno = bio_disk bc bno"
proof -
  assume "\<And>i. \<not> caches bc i bno"
  then have "find (\<lambda>i. caches bc i bno) [0..<length (bc_buf bc)] = None" by (simp add: find_None_iff)
  then show ?thesis by (simp add: bio_view_def)
qed

lemma view_eqI:
  assumes "bio_ok bc" and "\<And>i. caches bc i bno \<Longrightarrow> b_data (bc_buf bc ! i) = d"
    and "(\<And>i. \<not> caches bc i bno) \<Longrightarrow> bio_disk bc bno = d"
  shows "bio_view bc bno = d"
  by (metis assms view_cached view_uncached)

lemma bio_ok_buf: "bio_ok bc \<Longrightarrow> i < NBUF \<Longrightarrow> buf_ok (bio_disk bc) (bio_disksize bc) (bc_buf bc ! i)"
  by (simp add: bio_ok_def)

lemma bio_ok_len: "bio_ok bc \<Longrightarrow> length (bc_buf bc) = NBUF"
  by (simp add: bio_ok_def)

text \<open>Replacing the contents and the flags of a cached block.\<close>

lemma replace_buf:
  assumes ok: "bio_ok bc" and c: "caches bc i bno"
    and b': "b_valid b'" "b_blockno b' = bno" "buf_ok (bio_disk bc') (bio_disksize bc') b'"
    and bc': "bc_buf bc' = (bc_buf bc)[i := b']" "distinct (bc_order bc')"
      "set (bc_order bc') = {..<NBUF}" "bio_disksize bc' = bio_disksize bc"
      "\<And>x. x \<noteq> bno \<Longrightarrow> bio_disk bc' x = bio_disk bc x"
  shows "bio_ok bc'" and "bio_view bc' = (bio_view bc)(bno := b_data b')"
    and "bio_held bc' = (bio_held bc)(i := if b_locked b' then Some bno else None)"
    and "bio_pinned bc' = (if b_dirty b' then insert bno (bio_pinned bc) else bio_pinned bc - {bno})"
proof -
  have i: "i < NBUF" "length (bc_buf bc) = NBUF" using c bio_ok_len [OF ok] by (auto simp: caches_def)
  have same: "caches bc' j x \<longleftrightarrow> caches bc j x" for j x
    using c b' by (cases "j = i") (auto simp: caches_def bc')
  have other: "b_blockno (bc_buf bc ! j) \<noteq> bno" if "j \<noteq> i" "j < NBUF" "b_valid (bc_buf bc ! j)" for j
    using ok c that i by (auto simp: bio_ok_def caches_def)
  have dv: "b_valid (bc_buf bc ! j)" if "b_dirty (bc_buf bc ! j)" "j < NBUF" for j
    using bio_ok_buf [OF ok that(2)] that(1) by (auto simp: buf_ok_def split: if_splits)
  have "buf_ok (bio_disk bc') (bio_disksize bc') (bc_buf bc' ! j)" if j: "j < NBUF" for j
  proof (cases "j = i")
    case True
    then show ?thesis using b'(3) i by (simp add: bc')
  next
    case False
    then show ?thesis using bio_ok_buf [OF ok j] other [OF False j] bc' by (auto simp: buf_ok_def)
  qed
  then show ok': "bio_ok bc'" using ok i by (auto simp: bio_ok_def same bc')
  show "bio_view bc' = (bio_view bc)(bno := b_data b')"
  proof
    fix x
    show "bio_view bc' x = ((bio_view bc)(bno := b_data b')) x"
    proof (cases "x = bno")
      case True
      then show ?thesis using view_cached [OF ok', of i bno] same c i by (simp add: bc')
    next
      case False
      then have ne: "bc_buf bc' ! j = bc_buf bc ! j" if "caches bc j x" for j
        using c that by (cases "j = i") (auto simp: caches_def bc')
      show ?thesis
        using False ne view_cached [OF ok] view_uncached [of bc x]
        by (auto intro!: view_eqI [OF ok'] simp: same bc')
    qed
  qed
  show "bio_held bc' = (bio_held bc)(i := if b_locked b' then Some bno else None)"
    using i b' by (auto simp: bio_held_def bc' fun_eq_iff nth_list_update)
  have ci: "b_blockno (bc_buf bc ! i) = bno" using c by (simp add: caches_def)
  show "bio_pinned bc' = (if b_dirty b' then insert bno (bio_pinned bc) else bio_pinned bc - {bno})"
    using i b'(2) other dv ci
    by (fastforce simp: bio_pinned_def bc' nth_list_update image_iff split: if_splits)
qed

text \<open>Recycling a buffer that is neither in use nor dirty.\<close>

lemma recycle_buf:
  assumes ok: "bio_ok bc" and i: "i < NBUF" "\<not> b_locked (bc_buf bc ! i)" "\<not> b_dirty (bc_buf bc ! i)"
    and un: "\<And>j. \<not> caches bc j bno" and bno: "bno < bio_disksize bc"
    and b': "b_valid b'" "b_blockno b' = bno" "b_dev b' = 1" "b_locked b'" "b_refcnt b' = 1"
      "\<not> b_dirty b'" "b_data b' = bio_disk bc bno"
    and bc': "bc' = bc\<lparr>bc_buf := (bc_buf bc)[i := b']\<rparr>"
  shows "bio_ok bc'" and "bio_view bc' = bio_view bc"
    and "bio_held bc' = (bio_held bc)(i \<mapsto> bno)" and "bio_pinned bc' = bio_pinned bc"
proof -
  have len: "length (bc_buf bc) = NBUF" by (rule bio_ok_len [OF ok])
  have same: "caches bc' j x \<longleftrightarrow> (if j = i then x = bno else caches bc j x)" for j x
    using i b' len by (auto simp: caches_def bc' nth_list_update)
  have "buf_ok (bio_disk bc') (bio_disksize bc') (bc_buf bc' ! j)" if j: "j < NBUF" for j
    using bio_ok_buf [OF ok j] b' bno i len by (cases "j = i") (auto simp: bc' buf_ok_def)
  moreover have "j = k" if "caches bc' j x" "caches bc' k x" for j k x
    using that ok un by (auto simp: same bio_ok_def split: if_splits)
  ultimately show ok': "bio_ok bc'" using ok len by (simp add: bio_ok_def bc')
  show "bio_view bc' = bio_view bc"
  proof
    fix x
    consider "x = bno" | "x \<noteq> bno" "caches bc i x" | "x \<noteq> bno" "\<not> caches bc i x" by blast
    then show "bio_view bc' x = bio_view bc x"
    proof cases
      case 1
      then show ?thesis
        using view_cached [OF ok', of i bno] view_uncached [of bc bno] same un b' i len by (simp add: bc')
    next
      case 2
      then have "\<not> caches bc' j x" for j using ok by (auto simp: same bio_ok_def)
      moreover have "b_data (bc_buf bc ! i) = bio_disk bc x"
        using bio_ok_buf [OF ok i(1)] i 2 by (auto simp: buf_ok_def caches_def)
      ultimately show ?thesis
        using view_uncached [of bc' x] view_cached [OF ok 2(2)] by (simp add: bc')
    next
      case 3
      then have iff: "caches bc' j x \<longleftrightarrow> caches bc j x" for j by (auto simp: same)
      have buf: "bc_buf bc' ! j = bc_buf bc ! j" if "caches bc j x" for j
        using 3 that by (cases "j = i") (auto simp: bc')
      have "bio_disk bc' x = bio_disk bc x" by (simp add: bc')
      then show ?thesis
        using iff buf view_cached [OF ok] view_uncached [of bc x]
        by (intro view_eqI [OF ok']) simp_all
    qed
  qed
  show "bio_held bc' = (bio_held bc)(i \<mapsto> bno)"
    using i b' len by (auto simp: bio_held_def bc' fun_eq_iff nth_list_update)
  have "{j. j < NBUF \<and> b_dirty (bc_buf bc' ! j)} = {j. j < NBUF \<and> b_dirty (bc_buf bc ! j)}"
    using i b' len by (auto simp: bc' nth_list_update split: if_splits)
  then show "bio_pinned bc' = bio_pinned bc"
    using i len by (auto simp: bio_pinned_def bc' nth_list_update image_iff)
qed

text \<open>A buffer is free if fewer than \<open>NBUF\<close> blocks are pinned or held.\<close>

lemma busy_blocks:
  assumes "bio_ok bc"
  shows "bio_pinned bc \<union> ran (bio_held bc) =
    (\<lambda>i. b_blockno (bc_buf bc ! i)) ` {i. i < NBUF \<and> (b_locked (bc_buf bc ! i) \<or> b_dirty (bc_buf bc ! i))}"
  using bio_ok_len [OF assms]
  by (fastforce simp: bio_pinned_def bio_held_def ran_def image_iff split: if_splits)

lemma free_buffer:
  assumes ok: "bio_ok bc" and card: "card (bio_pinned bc \<union> ran (bio_held bc)) < NBUF"
  shows "\<exists>i<NBUF. \<not> b_locked (bc_buf bc ! i) \<and> \<not> b_dirty (bc_buf bc ! i)"
proof (rule ccontr)
  assume "\<not> ?thesis"
  then have all: "\<And>i. i < NBUF \<Longrightarrow> b_locked (bc_buf bc ! i) \<or> b_dirty (bc_buf bc ! i)" by blast
  have "b_valid (bc_buf bc ! i)" if "i < NBUF" for i
    using bio_ok_buf [OF ok that] all [OF that] by (auto simp: buf_ok_def split: if_splits)
  then have "inj_on (\<lambda>i. b_blockno (bc_buf bc ! i)) {..<NBUF}"
    using ok by (auto simp: inj_on_def bio_ok_def caches_def)
  moreover have "bio_pinned bc \<union> ran (bio_held bc) = (\<lambda>i. b_blockno (bc_buf bc ! i)) ` {..<NBUF}"
    unfolding busy_blocks [OF ok] using all by auto
  ultimately have "card (bio_pinned bc \<union> ran (bio_held bc)) = NBUF" by (simp add: card_image)
  then show False using card by simp
qed

lemma scan_order:
  assumes "set order = {..<NBUF}" and "i < NBUF" and "P i"
  shows "\<exists>j. find P order = Some j \<and> j < NBUF \<and> P j"
proof (cases "find P order")
  case None
  then show ?thesis using assms by (auto simp: find_None_iff)
next
  case (Some j)
  then have "P j" "j \<in> set order" by (auto simp: find_Some_iff)
  then show ?thesis using assms(1) Some by auto
qed

lemma bget_cached:
  assumes ok: "bio_ok bc" and c: "caches bc i bno"
  shows "find (\<lambda>i. b_dev (bc_buf bc ! i) = 1 \<and> b_blockno (bc_buf bc ! i) = bno) (bc_order bc) = Some i"
proof -
  have i: "i < NBUF" "b_dev (bc_buf bc ! i) = 1 \<and> b_blockno (bc_buf bc ! i) = bno"
    using c bio_ok_buf [OF ok] bio_ok_len [OF ok] by (auto simp: caches_def buf_ok_def)
  from scan_order [where P = "\<lambda>i. b_dev (bc_buf bc ! i) = 1 \<and> b_blockno (bc_buf bc ! i) = bno", OF _ i]
  obtain j where j: "find (\<lambda>i. b_dev (bc_buf bc ! i) = 1 \<and> b_blockno (bc_buf bc ! i) = bno)
      (bc_order bc) = Some j" "j < NBUF" "b_dev (bc_buf bc ! j) = 1" "b_blockno (bc_buf bc ! j) = bno"
    using ok unfolding bio_ok_def by blast
  then have "caches bc j bno"
    using bio_ok_buf [OF ok j(2)] bio_ok_len [OF ok] by (auto simp: caches_def buf_ok_def split: if_splits)
  then have "j = i" using ok c unfolding bio_ok_def by blast
  then show ?thesis using j by simp
qed

lemma bget_uncached:
  assumes ok: "bio_ok bc" and un: "\<And>i. \<not> caches bc i bno"
  shows "find (\<lambda>i. b_dev (bc_buf bc ! i) = 1 \<and> b_blockno (bc_buf bc ! i) = bno) (bc_order bc) = None"
proof -
  have "\<not> (b_dev (bc_buf bc ! i) = 1 \<and> b_blockno (bc_buf bc ! i) = bno)" if "i < NBUF" for i
    using bio_ok_buf [OF ok that] un [of i] that bio_ok_len [OF ok]
    by (auto simp: caches_def buf_ok_def split: if_splits)
  then show ?thesis using ok by (auto simp: find_None_iff bio_ok_def)
qed

section \<open>The operations keep the laws\<close>

lemma pinned_dirty:
  assumes ok: "bio_ok bc" and c: "caches bc i bno"
  shows "bno \<in> bio_pinned bc \<longleftrightarrow> b_dirty (bc_buf bc ! i)"
proof
  assume "bno \<in> bio_pinned bc"
  then obtain j where j: "j < NBUF" "b_dirty (bc_buf bc ! j)" "b_blockno (bc_buf bc ! j) = bno"
    using bio_ok_len [OF ok] by (auto simp: bio_pinned_def)
  then have "caches bc j bno"
    using bio_ok_buf [OF ok j(1)] bio_ok_len [OF ok]
    by (auto simp: caches_def buf_ok_def split: if_splits)
  then have "j = i" using ok c unfolding bio_ok_def by blast
  then show "b_dirty (bc_buf bc ! i)" using j by simp
qed (use c in \<open>auto simp: bio_pinned_def caches_def\<close>)

lemma pinned_caches:
  assumes ok: "bio_ok bc" and p: "bno \<in> bio_pinned bc"
  shows "\<exists>i. caches bc i bno"
proof -
  from p obtain j where j: "j < NBUF" "b_dirty (bc_buf bc ! j)" "b_blockno (bc_buf bc ! j) = bno"
    using bio_ok_len [OF ok] by (auto simp: bio_pinned_def)
  then have "caches bc j bno"
    using bio_ok_buf [OF ok j(1)] bio_ok_len [OF ok]
    by (auto simp: caches_def buf_ok_def split: if_splits)
  then show ?thesis by blast
qed

lemma bread_ok:
  assumes ok: "bio_ok bc" and bno: "bno < bio_disksize bc" and free: "bno \<notin> ran (bio_held bc)"
    and room: "bno \<in> bio_pinned bc \<or> card (bio_pinned bc \<union> ran (bio_held bc)) < NBUF"
  shows "\<exists>bc' i. bread bc 1 bno = Inr (bc', i) \<and> bio_ok bc' \<and> bio_held bc i = None \<and>
    bio_held bc' = (bio_held bc)(i \<mapsto> bno) \<and> bio_view bc' = bio_view bc \<and>
    bio_disk bc' = bio_disk bc \<and> bio_pinned bc' = bio_pinned bc \<and>
    bio_writes bc' = bio_writes bc \<and> bio_disksize bc' = bio_disksize bc"
proof (cases "\<exists>i. caches bc i bno")
  case True
  then obtain i where c: "caches bc i bno" by blast
  then have i: "i < NBUF" "b_valid (bc_buf bc ! i)" "b_blockno (bc_buf bc ! i) = bno"
    using bio_ok_len [OF ok] by (auto simp: caches_def)
  have nl: "\<not> b_locked (bc_buf bc ! i)"
    using free i bio_ok_len [OF ok] ranI [of "bio_held bc" i bno] by (auto simp: bio_held_def)
  have bok: "buf_ok (bio_disk bc) (bio_disksize bc) (bc_buf bc ! i)" by (rule bio_ok_buf [OF ok i(1)])
  let ?b = "(bc_buf bc ! i)\<lparr>b_refcnt := b_refcnt (bc_buf bc ! i) + 1, b_locked := True\<rparr>"
  let ?bc = "bc\<lparr>bc_buf := (bc_buf bc)[i := ?b]\<rparr>"
  have "bread bc 1 bno = Inr (?bc, i)"
    using bget_cached [OF ok c] nl i bio_ok_len [OF ok]
    by (simp add: bread_def bget_def acquiresleep_def)
  moreover note pinned_dirty [OF ok c]
  moreover note replace_buf [OF ok c, of ?b ?bc]
  moreover have "buf_ok (bio_disk ?bc) (bio_disksize ?bc) ?b" using bok i nl by (simp add: buf_ok_def)
  moreover have "b_data ?b = bio_view bc bno" using view_cached [OF ok c] by simp
  ultimately show ?thesis
    using i ok nl by (auto simp: bio_ok_def bio_held_def)
next
  case False
  then have un: "\<And>i. \<not> caches bc i bno" by blast
  have "bno \<notin> bio_pinned bc" using pinned_caches [OF ok] un by blast
  with room obtain k where k: "k < NBUF" "\<not> b_locked (bc_buf bc ! k)" "\<not> b_dirty (bc_buf bc ! k)"
    using free_buffer [OF ok] by blast
  let ?P = "\<lambda>i. b_refcnt (bc_buf bc ! i) = 0 \<and> \<not> b_dirty (bc_buf bc ! i)"
  have "?P k" using k bio_ok_buf [OF ok k(1)] by (simp add: buf_ok_def)
  moreover have "set (rev (bc_order bc)) = {..<NBUF}" using ok by (simp add: bio_ok_def)
  ultimately obtain i where i: "find ?P (rev (bc_order bc)) = Some i" "i < NBUF" "?P i"
    using scan_order [of "rev (bc_order bc)" k ?P] k(1) by blast
  then have nl: "\<not> b_locked (bc_buf bc ! i)"
    using bio_ok_buf [OF ok i(2)] by (auto simp: buf_ok_def split: if_splits)
  let ?b = "(bc_buf bc ! i)\<lparr>b_dev := 1, b_blockno := bno, b_dirty := False,
     b_refcnt := 1, b_locked := True, b_data := bio_disk bc bno, b_valid := True\<rparr>"
  let ?bc = "bc\<lparr>bc_buf := (bc_buf bc)[i := ?b]\<rparr>"
  have "bread bc 1 bno = Inr (?bc, i)"
    using bget_uncached [OF ok un] i nl bno bio_ok_len [OF ok]
    by (simp add: bread_def bget_def acquiresleep_def iderw_def)
  moreover note recycle_buf [OF ok i(2) nl conjunct2 [OF i(3)] un bno, of ?b ?bc]
  ultimately show ?thesis using nl by (auto simp: bio_held_def)
qed

lemma held_caches:
  assumes "bio_ok bc" and "bio_held bc i = Some bno"
  shows "caches bc i bno" and "b_locked (bc_buf bc ! i)" and "i < NBUF"
proof -
  have i: "i < NBUF" "b_locked (bc_buf bc ! i)" "b_blockno (bc_buf bc ! i) = bno"
    using assms(2) bio_ok_len [OF assms(1)] by (auto simp: bio_held_def split: if_splits)
  then show "caches bc i bno" "b_locked (bc_buf bc ! i)" "i < NBUF"
    using bio_ok_buf [OF assms(1) i(1)] bio_ok_len [OF assms(1)]
    by (auto simp: caches_def buf_ok_def split: if_splits)
qed

lemma set_buf_data_ok:
  assumes ok: "bio_ok bc" and h: "bio_held bc i = Some bno"
  shows "bio_ok (set_buf_data bc i d)"
    and "bio_view (set_buf_data bc i d) = (bio_view bc)(bno := d)"
    and "bio_held (set_buf_data bc i d) = bio_held bc"
    and "bio_pinned (set_buf_data bc i d) = bio_pinned bc"
proof -
  note c = held_caches [OF ok h]
  let ?b = "(bc_buf bc ! i)\<lparr>b_data := d\<rparr>"
  have v: "b_valid ?b" "b_blockno ?b = bno" using c(1) by (simp_all add: caches_def)
  have b: "buf_ok (bio_disk (set_buf_data bc i d)) (bio_disksize (set_buf_data bc i d)) ?b"
    using bio_ok_buf [OF ok c(3)] c by (auto simp: buf_ok_def set_buf_data_def caches_def)
  note R = replace_buf [OF ok c(1) v b]
  show "bio_ok (set_buf_data bc i d)"
    and "bio_view (set_buf_data bc i d) = (bio_view bc)(bno := d)"
    and "bio_held (set_buf_data bc i d) = bio_held bc"
    and "bio_pinned (set_buf_data bc i d) = bio_pinned bc"
    using R ok h c(2) pinned_dirty [OF ok c(1)]
    by (auto simp: set_buf_data_def bio_ok_def fun_upd_idem)
qed

lemma set_buf_dirty_ok:
  assumes ok: "bio_ok bc" and h: "bio_held bc i = Some bno"
  shows "bio_ok (set_buf_dirty bc i)"
    and "bio_view (set_buf_dirty bc i) = bio_view bc"
    and "bio_held (set_buf_dirty bc i) = bio_held bc"
    and "bio_pinned (set_buf_dirty bc i) = insert bno (bio_pinned bc)"
proof -
  note c = held_caches [OF ok h]
  let ?b = "(bc_buf bc ! i)\<lparr>b_dirty := True\<rparr>"
  have v: "b_valid ?b" "b_blockno ?b = bno" using c(1) by (simp_all add: caches_def)
  have b: "buf_ok (bio_disk (set_buf_dirty bc i)) (bio_disksize (set_buf_dirty bc i)) ?b"
    using bio_ok_buf [OF ok c(3)] c by (auto simp: buf_ok_def set_buf_dirty_def caches_def)
  note R = replace_buf [OF ok c(1) v b]
  show "bio_ok (set_buf_dirty bc i)"
    and "bio_view (set_buf_dirty bc i) = bio_view bc"
    and "bio_held (set_buf_dirty bc i) = bio_held bc"
    and "bio_pinned (set_buf_dirty bc i) = insert bno (bio_pinned bc)"
    using R ok h c(2) view_cached [OF ok c(1)]
    by (auto simp: set_buf_dirty_def bio_ok_def fun_upd_idem)
qed

lemma bwrite_ok:
  assumes ok: "bio_ok bc" and h: "bio_held bc i = Some bno"
  shows "\<exists>bc'. bwrite bc i = Inr bc' \<and> bio_ok bc' \<and> bio_view bc' = bio_view bc \<and>
    bio_disk bc' = (bio_disk bc)(bno := bio_view bc bno) \<and> bio_held bc' = bio_held bc \<and>
    bio_pinned bc' = bio_pinned bc - {bno} \<and>
    bio_writes bc' = bio_writes bc @ [(bno, bio_view bc bno)] \<and> bio_disksize bc' = bio_disksize bc"
proof -
  note c = held_caches [OF ok h]
  note V = view_cached [OF ok c(1)]
  let ?b = "(bc_buf bc ! i)\<lparr>b_dirty := False, b_valid := True\<rparr>"
  let ?bc = "bc\<lparr>bio_disk := (bio_disk bc)(bno := bio_view bc bno),
     bio_writes := bio_writes bc @ [(bno, bio_view bc bno)], bc_buf := (bc_buf bc)[i := ?b]\<rparr>"
  have v: "b_valid ?b" "b_blockno ?b = bno" using c(1) by (simp_all add: caches_def)
  have bok: "buf_ok (bio_disk bc) (bio_disksize bc) (bc_buf bc ! i)" by (rule bio_ok_buf [OF ok c(3)])
  have b: "buf_ok (bio_disk ?bc) (bio_disksize ?bc) ?b"
    using bok c V by (auto simp: buf_ok_def caches_def)
  have run: "bwrite bc i = Inr ?bc"
    using c bok bio_ok_len [OF ok] V
    by (simp add: bwrite_def iderw_def caches_def buf_ok_def)
  note R = replace_buf [OF ok c(1) v b]
  have "bio_ok ?bc" "bio_view ?bc = bio_view bc" "bio_held ?bc = bio_held bc"
    "bio_pinned ?bc = bio_pinned bc - {bno}"
    using R ok h c(2) V by (auto simp: bio_ok_def fun_upd_idem)
  then show ?thesis using run by auto
qed

lemma brelse_ok:
  assumes ok: "bio_ok bc" and h: "bio_held bc i = Some bno"
    and w: "bno \<in> bio_pinned bc \<or> bio_view bc bno = bio_disk bc bno"
  shows "\<exists>bc'. brelse bc i = Inr bc' \<and> bio_ok bc' \<and> bio_view bc' = bio_view bc \<and>
    bio_disk bc' = bio_disk bc \<and> bio_held bc' = (bio_held bc)(i := None) \<and>
    bio_pinned bc' = bio_pinned bc \<and> bio_writes bc' = bio_writes bc \<and>
    bio_disksize bc' = bio_disksize bc"
proof -
  note c = held_caches [OF ok h]
  note V = view_cached [OF ok c(1)]
  let ?b = "(bc_buf bc ! i)\<lparr>b_locked := False, b_refcnt := b_refcnt (bc_buf bc ! i) - 1\<rparr>"
  let ?bc = "bc\<lparr>bc_buf := (bc_buf bc)[i := ?b], bc_order := i # remove1 i (bc_order bc)\<rparr>"
  have v: "b_valid ?b" "b_blockno ?b = bno" using c(1) by (simp_all add: caches_def)
  have bok: "buf_ok (bio_disk bc) (bio_disksize bc) (bc_buf bc ! i)" by (rule bio_ok_buf [OF ok c(3)])
  have b: "buf_ok (bio_disk ?bc) (bio_disksize ?bc) ?b"
    using bok c V w pinned_dirty [OF ok c(1)] by (auto simp: buf_ok_def caches_def)
  have run: "brelse bc i = Inr ?bc"
    using c bok bio_ok_len [OF ok] by (simp add: brelse_def buf_ok_def Let_def)
  have order: "distinct (bc_order ?bc)" "set (bc_order ?bc) = {..<NBUF}"
    using ok c(3) by (auto simp: bio_ok_def)
  note R = replace_buf [OF ok c(1) v b _ order]
  have "bio_ok ?bc" "bio_view ?bc = bio_view bc" "bio_held ?bc = (bio_held bc)(i := None)"
    "bio_pinned ?bc = bio_pinned bc"
    using R V pinned_dirty [OF ok c(1)] by (auto simp: fun_upd_idem)
  then show ?thesis using run by auto
qed

lemma bio_coherent:
  assumes ok: "bio_ok bc" and "bno \<notin> bio_pinned bc" and "bno \<notin> ran (bio_held bc)"
  shows "bio_view bc bno = bio_disk bc bno"
proof (rule view_eqI [OF ok])
  fix i
  assume c: "caches bc i bno"
  then have "\<not> b_locked (bc_buf bc ! i)" "\<not> b_dirty (bc_buf bc ! i)" "i < NBUF"
    using assms(2,3) pinned_dirty [OF ok c] bio_ok_len [OF ok] ranI [of "bio_held bc" i bno]
    by (auto simp: caches_def bio_held_def)
  then show "b_data (bc_buf bc ! i) = bio_disk bc bno"
    using bio_ok_buf [OF ok] c by (auto simp: buf_ok_def caches_def)
qed simp

lemma bio_held_inj:
  "bio_ok bc \<Longrightarrow> bio_held bc i = Some bno \<Longrightarrow> bio_held bc j = Some bno \<Longrightarrow> i = j"
  using held_caches(1) unfolding bio_ok_def by metis

interpretation bio: buffer_cache
  "\<lambda>s. bread s 1" bwrite brelse buf_data set_buf_data set_buf_dirty bio_ok bio_view bio_disk
  bio_held bio_pinned bio_writes bio_disksize NBUF
proof
  show "buf_data s b = bio_view s bno" if "bio_ok s" "bio_held s b = Some bno" for s b bno
    using view_cached [OF that(1) held_caches(1) [OF that]] by (simp add: buf_data_def)
  show "finite (bio_pinned s)" for s by (simp add: bio_pinned_def)
qed (use bread_ok bio_held_inj set_buf_data_ok set_buf_dirty_ok bwrite_ok brelse_ok bio_coherent in
      \<open>auto simp: set_buf_data_def set_buf_dirty_def\<close>)

lemma binit_loop_rev: "binit_loop bs order = rev bs @ order"
  by (induction bs arbitrary: order) simp_all

lemma binit_ok:
  shows "bio_ok (binit d n)" and "bio_view (binit d n) = d" and "bio_held (binit d n) = Map.empty"
    and "bio_pinned (binit d n) = {}"
proof -
  have nc: "\<not> caches (binit d n) i x" for i x
    by (auto simp: caches_def binit_def empty_buf_def)
  then show "bio_ok (binit d n)"
    by (auto simp: bio_ok_def) (auto simp: binit_def binit_loop_rev buf_ok_def empty_buf_def)
  show "bio_view (binit d n) = d"
    using view_uncached [OF nc] by (simp add: fun_eq_iff) (simp add: binit_def)
  show "bio_held (binit d n) = Map.empty"
    by (auto simp: bio_held_def binit_def empty_buf_def)
  show "bio_pinned (binit d n) = {}"
    by (auto simp: bio_pinned_def binit_def empty_buf_def)
qed

end
