(* ===== verification/Log.thy ===== *)
theory Log
  imports Bio
begin

text \<open>
  The write-ahead log of xv6, \<^verbatim>\<open>hw09/starter-hw09/xv6/log.c\<close>: the in-memory log, the header
  block, the commit of a transaction and the recovery after a crash. Block numbers are
  natural numbers (the values of the \<^verbatim>\<open>uint\<close>s); the header block holds the 32-bit count and
  the 32-bit block numbers at the offsets of \<^verbatim>\<open>struct logheader\<close>. The content of a block is a
  function from offsets to bytes, of which the offsets below \<^verbatim>\<open>BSIZE\<close> are the block; copying
  a block copies this function.
\<close>

section \<open>State\<close>

definition MAXOPBLOCKS :: int where
  "MAXOPBLOCKS = 10"

definition LOGSIZE :: nat where
  "LOGSIZE = 30"

record log =
  lg_start :: nat
  lg_size :: int
  lg_outstanding :: int
  lg_committing :: bool
  lg_dev :: nat
  lh_n :: int
  lh_block :: "nat list"

record superblock =
  sb_size :: nat
  sb_nblocks :: nat
  sb_ninodes :: nat
  sb_nlog :: nat
  sb_logstart :: nat
  sb_inodestart :: nat
  sb_bmapstart :: nat

definition log_zero :: log where
  "log_zero = \<lparr>lg_start = 0, lg_size = 0, lg_outstanding = 0, lg_committing = False, lg_dev = 0,
     lh_n = 0, lh_block = replicate LOGSIZE 0\<rparr>"

section \<open>Operations\<close>

definition superblock_of :: "mem \<Rightarrow> superblock" where
  "superblock_of d =
     \<lparr>sb_size = unat (load32 d 0), sb_nblocks = unat (load32 d 4), sb_ninodes = unat (load32 d 8),
      sb_nlog = unat (load32 d 12), sb_logstart = unat (load32 d 16),
      sb_inodestart = unat (load32 d 20), sb_bmapstart = unat (load32 d 24)\<rparr>"

definition readsb :: "bio \<Rightarrow> nat \<Rightarrow> (bio \<times> superblock) res" where
  "readsb bc dev =
     bind_res (bread bc dev 1) (\<lambda>(bc, bp).
     bind_res (brelse bc bp) (\<lambda>bc'. Inr (bc', superblock_of (buf_data bc bp))))"

text \<open>One iteration and the loop of \<^verbatim>\<open>install_trans\<close> and of \<^verbatim>\<open>write_log\<close>.\<close>

definition install_one :: "log \<Rightarrow> bio \<Rightarrow> int \<Rightarrow> bio res" where
  "install_one lg bc tail =
     bind_res (bread bc (lg_dev lg) (nat (int (lg_start lg) + tail + 1))) (\<lambda>(bc, lbuf).
     bind_res (rd (lh_block lg) tail) (\<lambda>dst.
     bind_res (bread bc (lg_dev lg) dst) (\<lambda>(bc, dbuf).
     bind_res (bwrite (set_buf_data bc dbuf (buf_data bc lbuf)) dbuf) (\<lambda>bc.
     bind_res (brelse bc lbuf) (\<lambda>bc. brelse bc dbuf)))))"

function install_loop :: "log \<Rightarrow> bio \<Rightarrow> int \<Rightarrow> bio res" where
  "install_loop lg bc tail =
     (if tail < lh_n lg
      then bind_res (install_one lg bc tail) (\<lambda>bc. install_loop lg bc (tail + 1))
      else Inr bc)"
  by pat_completeness auto
termination
  by (relation "measure (\<lambda>(lg, bc, tail). nat (lh_n lg - tail))") auto

definition install_trans :: "log \<Rightarrow> bio \<Rightarrow> bio res" where
  "install_trans lg bc = install_loop lg bc 0"

definition write_log_one :: "log \<Rightarrow> bio \<Rightarrow> int \<Rightarrow> bio res" where
  "write_log_one lg bc tail =
     bind_res (bread bc (lg_dev lg) (nat (int (lg_start lg) + tail + 1))) (\<lambda>(bc, to).
     bind_res (rd (lh_block lg) tail) (\<lambda>src.
     bind_res (bread bc (lg_dev lg) src) (\<lambda>(bc, from).
     bind_res (bwrite (set_buf_data bc to (buf_data bc from)) to) (\<lambda>bc.
     bind_res (brelse bc from) (\<lambda>bc. brelse bc to)))))"

function write_log_loop :: "log \<Rightarrow> bio \<Rightarrow> int \<Rightarrow> bio res" where
  "write_log_loop lg bc tail =
     (if tail < lh_n lg
      then bind_res (write_log_one lg bc tail) (\<lambda>bc. write_log_loop lg bc (tail + 1))
      else Inr bc)"
  by pat_completeness auto
termination
  by (relation "measure (\<lambda>(lg, bc, tail). nat (lh_n lg - tail))") auto

definition write_log :: "log \<Rightarrow> bio \<Rightarrow> bio res" where
  "write_log lg bc = write_log_loop lg bc 0"

function read_head_loop :: "mem \<Rightarrow> int \<Rightarrow> int \<Rightarrow> nat list \<Rightarrow> nat list res" where
  "read_head_loop d n i block =
     (if i < n
      then bind_res (wr block i (unat (load32 d (nat (4 + 4 * i))))) (\<lambda>block.
             read_head_loop d n (i + 1) block)
      else Inr block)"
  by pat_completeness auto
termination
  by (relation "measure (\<lambda>(d, n, i, block). nat (n - i))") auto

definition read_head :: "log \<Rightarrow> bio \<Rightarrow> (log \<times> bio) res" where
  "read_head lg bc =
     bind_res (bread bc (lg_dev lg) (lg_start lg)) (\<lambda>(bc, b).
     let n = sint (load32 (buf_data bc b) 0) in
     bind_res (read_head_loop (buf_data bc b) n 0 (lh_block lg)) (\<lambda>block.
     bind_res (brelse bc b) (\<lambda>bc. Inr (lg\<lparr>lh_n := n, lh_block := block\<rparr>, bc))))"

function write_head_loop :: "log \<Rightarrow> mem \<Rightarrow> int \<Rightarrow> mem res" where
  "write_head_loop lg d i =
     (if i < lh_n lg
      then bind_res (rd (lh_block lg) i) (\<lambda>b.
             write_head_loop lg (store32 d (nat (4 + 4 * i)) (word_of_nat b)) (i + 1))
      else Inr d)"
  by pat_completeness auto
termination
  by (relation "measure (\<lambda>(lg, d, i). nat (lh_n lg - i))") auto

declare install_loop.simps [simp del] write_log_loop.simps [simp del]
  read_head_loop.simps [simp del] write_head_loop.simps [simp del]

definition write_head :: "log \<Rightarrow> bio \<Rightarrow> bio res" where
  "write_head lg bc =
     bind_res (bread bc (lg_dev lg) (lg_start lg)) (\<lambda>(bc, b).
     bind_res (write_head_loop lg (store32 (buf_data bc b) 0 (word_of_int (lh_n lg))) 0) (\<lambda>hb.
     bind_res (bwrite (set_buf_data bc b hb) b) (\<lambda>bc. brelse bc b)))"

definition recover_from_log :: "log \<Rightarrow> bio \<Rightarrow> (log \<times> bio) res" where
  "recover_from_log lg bc =
     bind_res (read_head lg bc) (\<lambda>(lg, bc).
     bind_res (install_trans lg bc) (\<lambda>bc.
     let lg = lg\<lparr>lh_n := 0\<rparr> in
     bind_res (write_head lg bc) (\<lambda>bc. Inr (lg, bc))))"

definition initlog :: "log \<Rightarrow> bio \<Rightarrow> nat \<Rightarrow> (log \<times> bio) res" where
  "initlog lg bc dev =
     bind_res (readsb bc dev) (\<lambda>(bc, sb).
     recover_from_log (lg\<lparr>lg_start := sb_logstart sb, lg_size := int (sb_nlog sb), lg_dev := dev\<rparr>) bc)"

definition commit :: "log \<Rightarrow> bio \<Rightarrow> (log \<times> bio) res" where
  "commit lg bc =
     (if 0 < lh_n lg then
        bind_res (write_log lg bc) (\<lambda>bc.
        bind_res (write_head lg bc) (\<lambda>bc.
        bind_res (install_trans lg bc) (\<lambda>bc.
        let lg = lg\<lparr>lh_n := 0\<rparr> in
        bind_res (write_head lg bc) (\<lambda>bc. Inr (lg, bc)))))
      else Inr (lg, bc))"

text \<open>
  One pass through the loop of \<^verbatim>\<open>begin_op\<close>: \<open>None\<close> if the caller goes to sleep (and tries
  again when it is woken).
\<close>

definition begin_op :: "log \<Rightarrow> log option" where
  "begin_op lg =
     (if lg_committing lg then None
      else if int LOGSIZE < lh_n lg + (lg_outstanding lg + 1) * MAXOPBLOCKS then None
      else Some (lg\<lparr>lg_outstanding := lg_outstanding lg + 1\<rparr>))"

text \<open>
  \<^verbatim>\<open>end_op\<close> in the two critical sections in which it runs: the first one decides whether
  this call commits, the second one ends the commit.
\<close>

definition end_op_enter :: "log \<Rightarrow> (log \<times> bool) res" where
  "end_op_enter lg =
     (let lg = lg\<lparr>lg_outstanding := lg_outstanding lg - 1\<rparr> in
      if lg_committing lg then Inl (Panic ''log.committing'')
      else if lg_outstanding lg = 0 then Inr (lg\<lparr>lg_committing := True\<rparr>, True)
      else Inr (lg, False))"

definition end_op :: "log \<Rightarrow> bio \<Rightarrow> (log \<times> bio) res" where
  "end_op lg bc =
     bind_res (end_op_enter lg) (\<lambda>(lg, do_commit).
       if do_commit then
         bind_res (commit lg bc) (\<lambda>(lg, bc). Inr (lg\<lparr>lg_committing := False\<rparr>, bc))
       else Inr (lg, bc))"

text \<open>The search of \<^verbatim>\<open>log_write\<close> for a block that is already in the log.\<close>

function log_write_scan :: "log \<Rightarrow> nat \<Rightarrow> int \<Rightarrow> int res" where
  "log_write_scan lg blockno i =
     (if i < lh_n lg
      then bind_res (rd (lh_block lg) i) (\<lambda>b.
             if b = blockno then Inr i else log_write_scan lg blockno (i + 1))
      else Inr i)"
  by pat_completeness auto
termination
  by (relation "measure (\<lambda>(lg, blockno, i). nat (lh_n lg - i))") auto

declare log_write_scan.simps [simp del]

text \<open>\<^verbatim>\<open>log_write\<close>: the part that changes the log, and the whole function.\<close>

definition log_record :: "log \<Rightarrow> nat \<Rightarrow> log res" where
  "log_record lg blockno =
     (if int LOGSIZE \<le> lh_n lg \<or> lg_size lg - 1 \<le> lh_n lg
      then Inl (Panic ''too big a transaction'')
      else if lg_outstanding lg < 1 then Inl (Panic ''log_write outside of trans'')
      else
        bind_res (log_write_scan lg blockno 0) (\<lambda>i.
        bind_res (wr (lh_block lg) i blockno) (\<lambda>block.
        let lg' = lg\<lparr>lh_block := block\<rparr> in
        Inr (if i = lh_n lg then lg'\<lparr>lh_n := lh_n lg + 1\<rparr> else lg'))))"

definition log_write :: "log \<Rightarrow> bio \<Rightarrow> nat \<Rightarrow> (log \<times> bio) res" where
  "log_write lg bc b =
     bind_res (log_record lg (b_blockno (bc_buf bc ! b))) (\<lambda>lg'. Inr (lg', set_buf_dirty bc b))"

section \<open>Sequences of block writes\<close>

definition apply_writes :: "(nat \<times> mem) list \<Rightarrow> (nat \<Rightarrow> mem) \<Rightarrow> nat \<Rightarrow> mem" where
  "apply_writes ws d = fold (\<lambda>(b, v) d. d(b := v)) ws d"

lemma apply_writes_simps [simp]:
  "apply_writes [] d = d"
  "apply_writes ((b, v) # ws) d = apply_writes ws (d(b := v))"
  "apply_writes (ws @ vs) d = apply_writes vs (apply_writes ws d)"
  by (simp_all add: apply_writes_def)

lemma apply_writes_other: "b \<notin> fst ` set ws \<Longrightarrow> apply_writes ws d b = d b"
  by (induction ws arbitrary: d) auto

lemma apply_writes_in:
  assumes "distinct (map fst ws)" and "(b, v) \<in> set ws"
  shows "apply_writes ws d b = v"
  using assms
proof (induction ws arbitrary: d)
  case (Cons w ws)
  show ?case
  proof (cases "w = (b, v)")
    case True
    then show ?thesis using Cons.prems(1) apply_writes_other [of b ws] by simp
  next
    case False
    then show ?thesis using Cons by (cases w) auto
  qed
qed simp

lemma apply_writes_indep: "b \<in> fst ` set ws \<Longrightarrow> apply_writes ws d b = apply_writes ws d' b"
proof (induction ws arbitrary: d d')
  case (Cons w ws)
  show ?case
  proof (cases "b \<in> fst ` set ws")
    case True
    then show ?thesis using Cons.IH by (cases w) auto
  next
    case False
    then show ?thesis using Cons.prems by (cases w) (auto simp: apply_writes_other)
  qed
qed simp

lemma apply_writes_again: "apply_writes ws (apply_writes (take k ws) d) = apply_writes ws d"
proof
  fix b
  show "apply_writes ws (apply_writes (take k ws) d) b = apply_writes ws d b"
  proof (cases "b \<in> fst ` set ws")
    case True
    then show ?thesis by (rule apply_writes_indep)
  next
    case False
    then have "b \<notin> fst ` set (take k ws)" by (auto dest: in_set_takeD)
    then show ?thesis using False by (simp add: apply_writes_other)
  qed
qed

text \<open>The effect of a sequence of block writes on a cache that no process uses.\<close>

definition quiet :: "bio \<Rightarrow> bool" where
  "quiet bc \<longleftrightarrow> bio_ok bc \<and> bio_held bc = Map.empty"

definition wrote :: "bio \<Rightarrow> (nat \<times> mem) list \<Rightarrow> bio \<Rightarrow> bool" where
  "wrote bc ws bc' \<longleftrightarrow>
     quiet bc' \<and> bio_view bc' = apply_writes ws (bio_view bc) \<and>
     bio_disk bc' = apply_writes ws (bio_disk bc) \<and> bio_pinned bc' = bio_pinned bc - fst ` set ws \<and>
     bio_writes bc' = bio_writes bc @ ws \<and> bio_disksize bc' = bio_disksize bc"

lemma wrote_trans: "wrote bc ws bc' \<Longrightarrow> wrote bc' vs bc'' \<Longrightarrow> wrote bc (ws @ vs) bc''"
  by (auto simp: wrote_def)

lemma wrote_Nil: "quiet bc \<Longrightarrow> wrote bc [] bc"
  by (simp add: wrote_def)

lemma wrote_copied: "bio.copied bc a b bc' \<Longrightarrow> wrote bc [(b, bio_view bc a)] bc'"
  by (simp add: bio.copied_def wrote_def quiet_def)

section \<open>The log as a sequence of writes\<close>

text \<open>
  The blocks of the current transaction, and the well-formedness of a log on a disk: the
  transaction is in range and its blocks are neither in the log nor beyond the disk.
\<close>

definition logged :: "log \<Rightarrow> nat list" where
  "logged lg = take (nat (lh_n lg)) (lh_block lg)"

definition in_log :: "log \<Rightarrow> nat \<Rightarrow> bool" where
  "in_log lg b \<longleftrightarrow> lg_start lg \<le> b \<and> int b < int (lg_start lg) + lg_size lg"

definition log_geom :: "log \<Rightarrow> nat \<Rightarrow> bool" where
  "log_geom lg sz \<longleftrightarrow>
     lg_dev lg = 1 \<and> 0 < lg_size lg \<and> int (lg_start lg) + lg_size lg \<le> int sz \<and> sz \<le> 2 ^ 32 \<and>
     length (lh_block lg) = LOGSIZE \<and> 0 \<le> lh_n lg \<and> lh_n lg \<le> int LOGSIZE \<and> lh_n lg < lg_size lg \<and>
     (\<forall>b\<in>set (logged lg). b < sz \<and> \<not> in_log lg b)"

lemma length_logged: "log_geom lg sz \<Longrightarrow> length (logged lg) = nat (lh_n lg)"
  by (auto simp: log_geom_def logged_def)

lemma logged_nth:
  assumes "log_geom lg sz" and "t < nat (lh_n lg)"
  shows "lh_block lg ! t \<in> set (logged lg)" and "logged lg ! t = lh_block lg ! t"
  using assms nth_mem [of t "logged lg"] length_logged [OF assms(1)] by (auto simp: logged_def)

lemma log_block:
  assumes "log_geom lg sz" and "t < nat (lh_n lg)"
  shows "in_log lg (lg_start lg + t + 1)" and "lg_start lg + t + 1 < sz"
    and "lh_block lg ! t < sz" and "\<not> in_log lg (lh_block lg ! t)"
    and "lh_block lg ! t \<noteq> lg_start lg + t' + 1 \<or> \<not> t' < nat (lh_n lg)"
proof -
  have *: "in_log lg (lg_start lg + u + 1) \<and> lg_start lg + u + 1 < sz" if "u < nat (lh_n lg)" for u
  proof -
    have "int u < lh_n lg" using that by linarith
    then show ?thesis using assms(1) by (auto simp: log_geom_def in_log_def)
  qed
  show "in_log lg (lg_start lg + t + 1)" and "lg_start lg + t + 1 < sz" using * assms(2) by auto
  show "lh_block lg ! t < sz" and "\<not> in_log lg (lh_block lg ! t)"
    using logged_nth(1) [OF assms] assms(1) by (auto simp: log_geom_def)
  then show "lh_block lg ! t \<noteq> lg_start lg + t' + 1 \<or> \<not> t' < nat (lh_n lg)" using * by metis
qed

lemma log_start: "log_geom lg sz \<Longrightarrow> in_log lg (lg_start lg) \<and> lg_start lg < sz"
  by (auto simp: log_geom_def in_log_def)

lemma logged_not_in_log: "log_geom lg sz \<Longrightarrow> in_log lg b \<Longrightarrow> b \<notin> set (logged lg)"
  by (auto simp: log_geom_def)

definition install_writes :: "log \<Rightarrow> (nat \<Rightarrow> mem) \<Rightarrow> nat \<Rightarrow> (nat \<times> mem) list" where
  "install_writes lg d k =
     map (\<lambda>t. (lh_block lg ! t, d (lg_start lg + t + 1))) [k..<nat (lh_n lg)]"

definition log_writes :: "log \<Rightarrow> (nat \<Rightarrow> mem) \<Rightarrow> nat \<Rightarrow> (nat \<times> mem) list" where
  "log_writes lg d k =
     map (\<lambda>t. (lg_start lg + t + 1, d (lh_block lg ! t))) [k..<nat (lh_n lg)]"

text \<open>
  Room in the cache for the transaction: besides the pinned blocks two more buffers, or one
  more if the blocks still to be copied are pinned.
\<close>

definition room :: "log \<Rightarrow> bio \<Rightarrow> nat \<Rightarrow> bool" where
  "room lg bc k \<longleftrightarrow>
     card (bio_pinned bc) + 1 < NBUF \<or>
     card (bio_pinned bc) < NBUF \<and> distinct (logged lg) \<and> set (drop k (logged lg)) \<subseteq> bio_pinned bc"

lemma card_insert_room:
  "card (bio_pinned bc) + 1 < NBUF \<Longrightarrow> card (insert a (bio_pinned bc)) < NBUF"
  using card_insert_le_m1 [of "NBUF - 1" "bio_pinned bc" a] by linarith

lemma room_block:
  assumes "room lg bc k" and "log_geom lg sz" and "k < nat (lh_n lg)"
  shows "lh_block lg ! k \<in> bio_pinned bc \<or> card (insert a (bio_pinned bc)) < NBUF"
    and "card (bio_pinned bc) < NBUF"
proof -
  have "lh_block lg ! k \<in> set (drop k (logged lg))"
    using assms(3) length_logged [OF assms(2)] logged_nth(2) [OF assms(2,3)]
    by (metis Cons_nth_drop_Suc list.set_intros(1))
  then show "lh_block lg ! k \<in> bio_pinned bc \<or> card (insert a (bio_pinned bc)) < NBUF"
    and "card (bio_pinned bc) < NBUF"
    using assms(1) card_insert_room by (auto simp: room_def)
qed

lemma install_one_ok:
  assumes q: "quiet bc" and g: "log_geom lg (bio_disksize bc)" and k: "k < nat (lh_n lg)"
    and r: "room lg bc k"
  shows "\<exists>bc'. install_one lg bc (int k) = Inr bc' \<and>
    wrote bc [(lh_block lg ! k, bio_view bc (lg_start lg + k + 1))] bc'"
proof -
  let ?a = "lg_start lg + k + 1" and ?b = "lh_block lg ! k"
  have dev: "lg_dev lg = 1" using g by (simp add: log_geom_def)
  have klen: "int k < int (length (lh_block lg))" "k < LOGSIZE" using g k by (auto simp: log_geom_def)
  have b: "?b < bio_disksize bc" "?b \<noteq> ?a" "?a < bio_disksize bc"
    using log_block [OF g k] by auto
  have one: "install_one lg bc (int k) =
      bind_res (bread bc 1 ?a) (\<lambda>(bc, x). bind_res (bread bc 1 ?b) (\<lambda>(bc, y).
        bind_res (bwrite (set_buf_data bc y (buf_data bc x)) y) (\<lambda>bc.
        bind_res (brelse bc x) (\<lambda>bc. brelse bc y))))"
    using klen(1) by (simp add: install_one_def dev nat_add_distrib)
  show ?thesis
    unfolding one
    using bio.copy_source_first [of bc ?a ?b] q b room_block [OF r g k] wrote_copied
    by (fastforce simp: quiet_def)
qed

lemma write_log_one_ok:
  assumes q: "quiet bc" and g: "log_geom lg (bio_disksize bc)" and k: "k < nat (lh_n lg)"
    and r: "room lg bc k"
  shows "\<exists>bc'. write_log_one lg bc (int k) = Inr bc' \<and>
    wrote bc [(lg_start lg + k + 1, bio_view bc (lh_block lg ! k))] bc'"
proof -
  let ?b = "lg_start lg + k + 1" and ?a = "lh_block lg ! k"
  have dev: "lg_dev lg = 1" using g by (simp add: log_geom_def)
  have klen: "int k < int (length (lh_block lg))" "k < LOGSIZE" using g k by (auto simp: log_geom_def)
  have b: "?a < bio_disksize bc" "?b \<noteq> ?a" "?b < bio_disksize bc"
    using log_block [OF g k] by auto
  have one: "write_log_one lg bc (int k) =
      bind_res (bread bc 1 ?b) (\<lambda>(bc, y). bind_res (bread bc 1 ?a) (\<lambda>(bc, x).
        bind_res (bwrite (set_buf_data bc y (buf_data bc x)) y) (\<lambda>bc.
        bind_res (brelse bc x) (\<lambda>bc. brelse bc y))))"
    using klen(1) by (simp add: write_log_one_def dev nat_add_distrib)
  show ?thesis
    unfolding one
    using bio.copy_target_first [of bc ?b ?a] q b room_block [OF r g k] wrote_copied
    by (fastforce simp: quiet_def)
qed

text \<open>One copied block leaves room for the others.\<close>

lemma room_step:
  assumes r: "room lg bc k" and g: "log_geom lg sz" and k: "k < nat (lh_n lg)"
    and w: "bio_pinned bc' = bio_pinned bc - {b}" and fin: "finite (bio_pinned bc)"
    and b: "b = lh_block lg ! k \<or> b \<notin> set (logged lg)"
  shows "room lg bc' (Suc k)"
proof -
  have card: "card (bio_pinned bc') \<le> card (bio_pinned bc)"
    unfolding w by (rule card_mono) (use fin in auto)
  have d: "drop k (logged lg) = lh_block lg ! k # drop (Suc k) (logged lg)"
    using k length_logged [OF g] logged_nth(2) [OF g k] by (metis Cons_nth_drop_Suc)
  have "set (drop (Suc k) (logged lg)) \<subseteq> bio_pinned bc'"
    if dist: "distinct (logged lg)" and sub: "set (drop k (logged lg)) \<subseteq> bio_pinned bc"
  proof -
    have "distinct (drop k (logged lg))" using dist by simp
    then have "b \<notin> set (drop (Suc k) (logged lg))"
      using b d in_set_dropD [of b "Suc k" "logged lg"] by auto
    then show ?thesis using sub d w by auto
  qed
  then show ?thesis using r card by (auto simp: room_def)
qed

lemma install_loop_ok:
  assumes "quiet bc" and "log_geom lg (bio_disksize bc)" and "k \<le> nat (lh_n lg)" and "room lg bc k"
  shows "\<exists>bc'. install_loop lg bc (int k) = Inr bc' \<and>
    wrote bc (install_writes lg (bio_view bc) k) bc'"
  using assms
proof (induction "nat (lh_n lg) - k" arbitrary: k bc)
  case 0
  then have "\<not> int k < lh_n lg" "install_writes lg (bio_view bc) k = []"
    by (auto simp: install_writes_def)
  then show ?case using 0 wrote_Nil by (simp add: install_loop.simps)
next
  case (Suc m)
  note g = Suc.prems(2)
  have k: "k < nat (lh_n lg)" and m: "m = nat (lh_n lg) - Suc k" using Suc.hyps(2) by linarith+
  from install_one_ok [OF Suc.prems(1) g k Suc.prems(4)] obtain bc1 where
    one: "install_one lg bc (int k) = Inr bc1"
      "wrote bc [(lh_block lg ! k, bio_view bc (lg_start lg + k + 1))] bc1" by blast
  then have bc1: "quiet bc1" "bio_disksize bc1 = bio_disksize bc"
    "bio_view bc1 = (bio_view bc)(lh_block lg ! k := bio_view bc (lg_start lg + k + 1))"
    "bio_pinned bc1 = bio_pinned bc - {lh_block lg ! k}"
    by (auto simp: wrote_def)
  have "finite (bio_pinned bc)" using bio.finite_pinned Suc.prems(1) by (simp add: quiet_def)
  then have "room lg bc1 (Suc k)" using room_step [OF Suc.prems(4) g k bc1(4)] by simp
  then obtain bc' where bc': "install_loop lg bc1 (int (Suc k)) = Inr bc'"
    "wrote bc1 (install_writes lg (bio_view bc1) (Suc k)) bc'"
    using Suc.hyps(1) [OF m, of bc1] bc1 g k by auto
  have "lg_start lg + t + 1 \<noteq> lh_block lg ! k" if "t < nat (lh_n lg)" for t
    using log_block(5) [OF g k, of t] that by auto
  then have "install_writes lg (bio_view bc) k =
      (lh_block lg ! k, bio_view bc (lg_start lg + k + 1)) # install_writes lg (bio_view bc1) (Suc k)"
    using k bc1(3) by (auto simp: install_writes_def upt_conv_Cons)
  moreover have "install_loop lg bc (int k) = Inr bc'"
    using k one(1) bc'(1) by (simp add: install_loop.simps [of lg bc] add.commute)
  ultimately show ?case using wrote_trans [OF one(2) bc'(2)] by auto
qed

lemma write_log_loop_ok:
  assumes "quiet bc" and "log_geom lg (bio_disksize bc)" and "k \<le> nat (lh_n lg)" and "room lg bc k"
  shows "\<exists>bc'. write_log_loop lg bc (int k) = Inr bc' \<and>
    wrote bc (log_writes lg (bio_view bc) k) bc'"
  using assms
proof (induction "nat (lh_n lg) - k" arbitrary: k bc)
  case 0
  then have "\<not> int k < lh_n lg" "log_writes lg (bio_view bc) k = []"
    by (auto simp: log_writes_def)
  then show ?case using 0 wrote_Nil by (simp add: write_log_loop.simps)
next
  case (Suc m)
  note g = Suc.prems(2)
  have k: "k < nat (lh_n lg)" and m: "m = nat (lh_n lg) - Suc k" using Suc.hyps(2) by linarith+
  from write_log_one_ok [OF Suc.prems(1) g k Suc.prems(4)] obtain bc1 where
    one: "write_log_one lg bc (int k) = Inr bc1"
      "wrote bc [(lg_start lg + k + 1, bio_view bc (lh_block lg ! k))] bc1" by blast
  then have bc1: "quiet bc1" "bio_disksize bc1 = bio_disksize bc"
    "bio_view bc1 = (bio_view bc)(lg_start lg + k + 1 := bio_view bc (lh_block lg ! k))"
    "bio_pinned bc1 = bio_pinned bc - {lg_start lg + k + 1}"
    by (auto simp: wrote_def)
  have nl: "lg_start lg + k + 1 \<notin> set (logged lg)"
    by (rule logged_not_in_log [OF g log_block(1) [OF g k]])
  have "finite (bio_pinned bc)" using bio.finite_pinned Suc.prems(1) by (simp add: quiet_def)
  then have "room lg bc1 (Suc k)" using room_step [OF Suc.prems(4) g k bc1(4)] nl by simp
  then obtain bc' where bc': "write_log_loop lg bc1 (int (Suc k)) = Inr bc'"
    "wrote bc1 (log_writes lg (bio_view bc1) (Suc k)) bc'"
    using Suc.hyps(1) [OF m, of bc1] bc1 g k by auto
  have "lh_block lg ! t \<noteq> lg_start lg + k + 1" if "t < nat (lh_n lg)" for t
    using logged_nth(1) [OF g that] nl by auto
  then have "log_writes lg (bio_view bc) k =
      (lg_start lg + k + 1, bio_view bc (lh_block lg ! k)) # log_writes lg (bio_view bc1) (Suc k)"
    using k bc1(3) by (auto simp: log_writes_def upt_conv_Cons)
  moreover have "write_log_loop lg bc (int k) = Inr bc'"
    using k one(1) bc'(1) by (simp add: write_log_loop.simps [of lg bc] add.commute)
  ultimately show ?case using wrote_trans [OF one(2) bc'(2)] by auto
qed

section \<open>The header block\<close>

definition head_n :: "mem \<Rightarrow> int" where
  "head_n d = sint (load32 d 0)"

definition head_block :: "mem \<Rightarrow> nat \<Rightarrow> nat" where
  "head_block d t = unat (load32 d (4 + 4 * t))"

definition head_of :: "mem \<Rightarrow> log \<Rightarrow> bool" where
  "head_of d lg \<longleftrightarrow> head_n d = lh_n lg \<and> (\<forall>t<nat (lh_n lg). head_block d t = lh_block lg ! t)"

lemma write_head_loop_ok:
  assumes "log_geom lg sz" and "k \<le> nat (lh_n lg)"
  shows "\<exists>d'. write_head_loop lg d (int k) = Inr d' \<and> load32 d' 0 = load32 d 0 \<and>
    (\<forall>t<k. head_block d' t = head_block d t) \<and>
    (\<forall>t. k \<le> t \<longrightarrow> t < nat (lh_n lg) \<longrightarrow> head_block d' t = lh_block lg ! t)"
  using assms(2)
proof (induction "nat (lh_n lg) - k" arbitrary: k d)
  case 0
  then have "\<not> int k < lh_n lg" "nat (lh_n lg) \<le> k" by linarith+
  then show ?case by (auto simp: write_head_loop.simps)
next
  case (Suc m)
  have k: "k < nat (lh_n lg)" "k < length (lh_block lg)"
    and m: "m = nat (lh_n lg) - Suc k"
    using Suc.hyps(2) assms(1) by (auto simp: log_geom_def)
  let ?d = "store32 d (4 + 4 * k) (word_of_nat (lh_block lg ! k))"
  have "lh_block lg ! k < 2 ^ 32"
    using logged_nth(1) [OF assms(1) k(1)] assms(1) by (fastforce simp: log_geom_def)
  then have kk: "head_block ?d k = lh_block lg ! k"
    by (simp add: head_block_def mem_simps unsigned_of_nat take_bit_nat_eq_self)
  have lt: "head_block ?d t = head_block d t" if "t < k" for t
    using that by (simp add: head_block_def mem_simps)
  have z: "load32 ?d 0 = load32 d 0" by (simp add: mem_simps)
  obtain d' where d': "write_head_loop lg ?d (int (Suc k)) = Inr d'" "load32 d' 0 = load32 ?d 0"
    "\<forall>t<Suc k. head_block d' t = head_block ?d t"
    "\<forall>t. Suc k \<le> t \<longrightarrow> t < nat (lh_n lg) \<longrightarrow> head_block d' t = lh_block lg ! t"
    using Suc.hyps(1) [OF m, of ?d] k by (meson Suc_leI)
  have "write_head_loop lg d (int k) = Inr d'"
    using k d'(1)
    by (simp add: write_head_loop.simps [of lg d] add.commute nat_add_distrib nat_mult_distrib
        zless_nat_eq_int_zless)
  moreover have "head_block d' t = lh_block lg ! t" if "k \<le> t" "t < nat (lh_n lg)" for t
    using that d' kk by (cases "t = k") auto
  ultimately show ?case using d' z lt by auto
qed

lemma write_head_ok:
  assumes q: "quiet bc" and g: "log_geom lg (bio_disksize bc)" and r: "card (bio_pinned bc) < NBUF"
  shows "\<exists>bc' d. write_head lg bc = Inr bc' \<and> head_of d lg \<and> wrote bc [(lg_start lg, d)] bc'"
proof -
  let ?d0 = "store32 (bio_view bc (lg_start lg)) 0 (word_of_int (lh_n lg))"
  have n: "0 \<le> lh_n lg" "lh_n lg \<le> 30" "lg_dev lg = 1" "lg_start lg < bio_disksize bc"
    using g by (simp_all add: log_geom_def LOGSIZE_def)
  from write_head_loop_ok [OF g, of 0 ?d0] obtain d where
    d: "write_head_loop lg ?d0 0 = Inr d" "load32 d 0 = word_of_int (lh_n lg)"
    "\<forall>t<nat (lh_n lg). head_block d t = lh_block lg ! t"
    by (auto simp: mem_simps)
  have "sint (word_of_int (lh_n lg) :: 32 word) = lh_n lg"
    using n by (simp add: sint_sbintrunc' signed_take_bit_int_eq_self)
  then have head: "head_of d lg" using d by (simp add: head_of_def head_n_def)
  from bio.rewrite_block [of bc "lg_start lg" d] q n r obtain s1 x s2 bc' where
    "bread bc 1 (lg_start lg) = Inr (s1, x)" "buf_data s1 x = bio_view bc (lg_start lg)"
    "bwrite (set_buf_data s1 x d) x = Inr s2" "brelse s2 x = Inr bc'"
    "wrote bc [(lg_start lg, d)] bc'"
    by (auto simp: quiet_def wrote_def)
  then show ?thesis using d(1) head n(3) by (auto simp: write_head_def)
qed

lemma read_head_loop_ok:
  assumes "int k \<le> n" and "n \<le> int (length block)"
  shows "\<exists>block'. read_head_loop d n (int k) block = Inr block' \<and> length block' = length block \<and>
    (\<forall>t<k. block' ! t = block ! t) \<and> (\<forall>t. k \<le> t \<longrightarrow> int t < n \<longrightarrow> block' ! t = head_block d t)"
  using assms
proof (induction "nat n - k" arbitrary: k block)
  case 0
  then have "\<not> int k < n" by linarith
  then show ?case by (auto simp: read_head_loop.simps)
next
  case (Suc m)
  have k: "int k < n" "k < length block" and m: "m = nat n - Suc k"
    using Suc.hyps(2) Suc.prems by linarith+
  obtain block' where b: "read_head_loop d n (int (Suc k)) (block[k := head_block d k]) = Inr block'"
    "length block' = length block" "\<forall>t<Suc k. block' ! t = block[k := head_block d k] ! t"
    "\<forall>t. Suc k \<le> t \<longrightarrow> int t < n \<longrightarrow> block' ! t = head_block d t"
    using Suc.hyps(1) [OF m, of "block[k := head_block d k]"] k Suc.prems by auto
  have "read_head_loop d n (int k) block = Inr block'"
    using k b(1) by (simp add: read_head_loop.simps [of d n "int k" block] head_block_def
      add.commute nat_add_distrib nat_mult_distrib)
  moreover have "block' ! t = head_block d t" if "k \<le> t" "int t < n" for t
    using that b k by (cases "t = k") auto
  ultimately show ?case using b by auto
qed

lemma read_head_ok:
  assumes q: "quiet bc" and g: "lg_dev lg = 1" "lg_start lg < bio_disksize bc"
      "length (lh_block lg) = LOGSIZE" and r: "card (bio_pinned bc) < NBUF"
    and n: "0 \<le> head_n (bio_view bc (lg_start lg))" "head_n (bio_view bc (lg_start lg)) \<le> int LOGSIZE"
  shows "\<exists>bc' block. read_head lg bc =
      Inr (lg\<lparr>lh_n := head_n (bio_view bc (lg_start lg)), lh_block := block\<rparr>, bc') \<and>
    length block = LOGSIZE \<and> wrote bc [] bc' \<and>
    head_of (bio_view bc (lg_start lg))
      (lg\<lparr>lh_n := head_n (bio_view bc (lg_start lg)), lh_block := block\<rparr>)"
proof -
  let ?d = "bio_view bc (lg_start lg)"
  obtain block where b: "read_head_loop ?d (head_n ?d) 0 (lh_block lg) = Inr block"
    "length block = LOGSIZE" "\<forall>t. int t < head_n ?d \<longrightarrow> block ! t = head_block ?d t"
    using read_head_loop_ok [of 0 "head_n ?d" "lh_block lg" ?d] n g(3) by auto
  from bio.read_block [of bc "lg_start lg"] q g r obtain s1 x bc' where
    "bread bc 1 (lg_start lg) = Inr (s1, x)" "buf_data s1 x = ?d" "brelse s1 x = Inr bc'"
    "wrote bc [] bc'"
    by (auto simp: quiet_def wrote_def)
  then show ?thesis using b g(1)
    by (auto simp: read_head_def head_of_def Let_def zless_nat_eq_int_zless simp flip: head_n_def)
qed

section \<open>Recovery\<close>

definition boot_geom :: "log \<Rightarrow> nat \<Rightarrow> bool" where
  "boot_geom lg sz \<longleftrightarrow>
     lg_dev lg = 1 \<and> 0 < lg_size lg \<and> int (lg_start lg) + lg_size lg \<le> int sz \<and> sz \<le> 2 ^ 32 \<and>
     length (lh_block lg) = LOGSIZE"

text \<open>The header on the disk describes a transaction that can be installed.\<close>

definition disk_head_ok :: "log \<Rightarrow> nat \<Rightarrow> (nat \<Rightarrow> mem) \<Rightarrow> bool" where
  "disk_head_ok lg sz d \<longleftrightarrow>
     0 \<le> head_n (d (lg_start lg)) \<and> head_n (d (lg_start lg)) \<le> int LOGSIZE \<and>
     head_n (d (lg_start lg)) < lg_size lg \<and>
     (\<forall>t<nat (head_n (d (lg_start lg))).
        head_block (d (lg_start lg)) t < sz \<and> \<not> in_log lg (head_block (d (lg_start lg)) t))"

text \<open>The writes that redo the transaction on the disk \<open>d\<close>.\<close>

definition redo_writes :: "nat \<Rightarrow> (nat \<Rightarrow> mem) \<Rightarrow> (nat \<times> mem) list" where
  "redo_writes start d =
     map (\<lambda>t. (head_block (d start) t, d (start + t + 1))) [0..<nat (head_n (d start))]"

lemma in_log_update [simp]:
  "in_log (lg\<lparr>lh_n := n\<rparr>) b = in_log lg b" "in_log (lg\<lparr>lh_block := bl\<rparr>) b = in_log lg b"
  by (simp_all add: in_log_def)

lemma recover_ok:
  assumes q: "quiet bc" and p: "bio_pinned bc = {}" and g: "boot_geom lg (bio_disksize bc)"
    and h: "disk_head_ok lg (bio_disksize bc) (bio_view bc)"
  shows "\<exists>bc' d0 block. recover_from_log lg bc = Inr (lg\<lparr>lh_n := 0, lh_block := block\<rparr>, bc') \<and>
    length block = LOGSIZE \<and> head_n d0 = 0 \<and>
    wrote bc (redo_writes (lg_start lg) (bio_view bc) @ [(lg_start lg, d0)]) bc'"
proof -
  let ?h = "bio_view bc (lg_start lg)"
  obtain bc1 block where r: "read_head lg bc = Inr (lg\<lparr>lh_n := head_n ?h, lh_block := block\<rparr>, bc1)"
    "length block = LOGSIZE" "wrote bc [] bc1" "head_of ?h (lg\<lparr>lh_n := head_n ?h, lh_block := block\<rparr>)"
    using read_head_ok [OF q, of lg] g h p by (auto simp: boot_geom_def disk_head_ok_def NBUF_def)
  define lg1 where "lg1 = lg\<lparr>lh_n := head_n ?h, lh_block := block\<rparr>"
  have bc1: "quiet bc1" "bio_view bc1 = bio_view bc" "bio_pinned bc1 = {}"
    "bio_disksize bc1 = bio_disksize bc" using r(3) p by (auto simp: wrote_def)
  have blk: "block ! t = head_block ?h t" if "int t < head_n ?h" for t
    using r(4) that h by (auto simp: head_of_def disk_head_ok_def)
  have lgd: "set (logged lg1) \<subseteq> head_block ?h ` {..<nat (head_n ?h)}"
    using blk r(2) h by (auto simp: logged_def lg1_def in_set_conv_nth disk_head_ok_def)
  then have g1: "log_geom lg1 (bio_disksize bc1)"
    using g h r(2) bc1(4) by (force simp: log_geom_def boot_geom_def disk_head_ok_def lg1_def)
  have "room lg1 bc1 0" using bc1(3) by (simp add: room_def NBUF_def)
  then obtain bc2 where i: "install_loop lg1 bc1 0 = Inr bc2"
    "wrote bc1 (install_writes lg1 (bio_view bc1) 0) bc2"
    using install_loop_ok [OF bc1(1) g1, of 0] by auto
  have iw: "install_writes lg1 (bio_view bc1) 0 = redo_writes (lg_start lg) (bio_view bc)"
    using blk bc1(2) by (auto simp: install_writes_def redo_writes_def lg1_def)
  have bc2: "quiet bc2" "bio_pinned bc2 = {}" "bio_disksize bc2 = bio_disksize bc"
    using i(2) bc1 by (auto simp: wrote_def)
  let ?lg2 = "lg1\<lparr>lh_n := 0\<rparr>"
  have "log_geom ?lg2 (bio_disksize bc2)"
    using g bc2(3) r(2) by (auto simp: log_geom_def boot_geom_def lg1_def logged_def)
  then obtain bc3 d0 where w: "write_head ?lg2 bc2 = Inr bc3" "head_of d0 ?lg2"
    "wrote bc2 [(lg_start lg, d0)] bc3"
    using write_head_ok [OF bc2(1), of ?lg2] bc2(2) by (auto simp: lg1_def NBUF_def)
  have "recover_from_log lg bc = Inr (?lg2, bc3)"
    using r(1) i(1) w(1) by (simp add: recover_from_log_def install_trans_def Let_def lg1_def)
  moreover have "wrote bc (redo_writes (lg_start lg) (bio_view bc) @ [(lg_start lg, d0)]) bc3"
    using wrote_trans [OF r(3) wrote_trans [OF i(2) w(3)]] by (simp add: iw)
  moreover have "?lg2 = lg\<lparr>lh_n := 0, lh_block := block\<rparr>" by (simp add: lg1_def)
  moreover have "head_n d0 = 0" using w(2) by (simp add: head_of_def)
  ultimately show ?thesis using r(2) by metis
qed

text \<open>Recovery after a reboot: the cache is empty and the disk is what the crash left.\<close>

lemma recover_boot:
  assumes "boot_geom lg sz" and "disk_head_ok lg sz d"
  shows "\<exists>bc' d0 block. recover_from_log lg (binit d sz) = Inr (lg\<lparr>lh_n := 0, lh_block := block\<rparr>, bc') \<and>
    length block = LOGSIZE \<and> quiet bc' \<and> bio_pinned bc' = {} \<and> bio_disksize bc' = sz \<and> head_n d0 = 0 \<and>
    bio_writes bc' = redo_writes (lg_start lg) d @ [(lg_start lg, d0)] \<and>
    bio_disk bc' = (apply_writes (redo_writes (lg_start lg) d) d)(lg_start lg := d0)"
proof -
  have "bio_disksize (binit d sz) = sz" "bio_disk (binit d sz) = d" "bio_writes (binit d sz) = []"
    by (simp_all add: binit_def)
  then show ?thesis
    using recover_ok [of "binit d sz" lg] assms binit_ok [of d sz]
    by (fastforce simp: quiet_def wrote_def)
qed

section \<open>Commit\<close>

text \<open>
  Between system calls that write, the log is consistent: exactly the blocks of the current
  transaction are pinned in the cache, and the header on the disk says that there is no
  committed transaction.
\<close>

definition log_inv :: "log \<Rightarrow> bio \<Rightarrow> bool" where
  "log_inv lg bc \<longleftrightarrow>
     quiet bc \<and> log_geom lg (bio_disksize bc) \<and> distinct (logged lg) \<and>
     bio_pinned bc = set (logged lg) \<and> head_n (bio_disk bc (lg_start lg)) = 0"

text \<open>The state of the log while a system call is running: as \<open>log_inv\<close>, with buffers in use.\<close>

definition log_tx :: "log \<Rightarrow> bio \<Rightarrow> bool" where
  "log_tx lg bc \<longleftrightarrow>
     bio_ok bc \<and> log_geom lg (bio_disksize bc) \<and> distinct (logged lg) \<and>
     bio_pinned bc = set (logged lg) \<and> head_n (bio_disk bc (lg_start lg)) = 0"

lemma log_inv_tx: "log_inv lg bc \<longleftrightarrow> log_tx lg bc \<and> bio_held bc = Map.empty"
  by (auto simp: log_inv_def log_tx_def quiet_def)

definition home_writes :: "log \<Rightarrow> (nat \<Rightarrow> mem) \<Rightarrow> (nat \<times> mem) list" where
  "home_writes lg d = map (\<lambda>b. (b, d b)) (logged lg)"

definition commit_writes :: "log \<Rightarrow> (nat \<Rightarrow> mem) \<Rightarrow> mem \<Rightarrow> mem \<Rightarrow> (nat \<times> mem) list" where
  "commit_writes lg d d1 d0 =
     log_writes lg d 0 @ (lg_start lg, d1) # home_writes lg d @ [(lg_start lg, d0)]"

lemma log_writes_nth:
  assumes "t < nat (lh_n lg)"
  shows "apply_writes (log_writes lg d 0) d' (lg_start lg + t + 1) = d (lh_block lg ! t)"
proof (rule apply_writes_in)
  have "map fst (log_writes lg d 0) = map (\<lambda>t. lg_start lg + t + 1) [0..<nat (lh_n lg)]"
    by (simp add: log_writes_def)
  then show "distinct (map fst (log_writes lg d 0))" by (simp add: distinct_map inj_on_def)
qed (use assms in \<open>auto simp: log_writes_def\<close>)

lemma log_writes_other:
  "\<not> in_log lg b \<or> b = lg_start lg \<Longrightarrow> log_geom lg sz \<Longrightarrow> apply_writes (log_writes lg d 0) d' b = d' b"
  by (rule apply_writes_other) (auto simp: log_writes_def in_log_def log_geom_def)

lemma home_writes_view:
  assumes "log_inv lg bc"
  shows "apply_writes (home_writes lg (bio_view bc)) (bio_disk bc) b = bio_view bc b"
proof (cases "b \<in> set (logged lg)")
  case True
  have "distinct (map fst (home_writes lg (bio_view bc)))"
    using assms by (simp add: home_writes_def log_inv_def comp_def)
  then show ?thesis by (rule apply_writes_in) (use True in \<open>auto simp: home_writes_def\<close>)
next
  case False
  then show ?thesis
    using assms bio.coherent [of bc b]
    by (subst apply_writes_other) (auto simp: home_writes_def log_inv_def quiet_def)
qed

lemma commit_ok:
  assumes inv: "log_inv lg bc" and n: "0 < lh_n lg" "lh_n lg < int NBUF"
  shows "\<exists>bc' d1 d0. commit lg bc = Inr (lg\<lparr>lh_n := 0\<rparr>, bc') \<and> head_of d1 lg \<and> head_n d0 = 0 \<and>
    wrote bc (commit_writes lg (bio_view bc) d1 d0) bc'"
proof -
  have q: "quiet bc" and g: "log_geom lg (bio_disksize bc)" and dist: "distinct (logged lg)"
    and pin: "bio_pinned bc = set (logged lg)" using inv by (simp_all add: log_inv_def)
  have card: "card (bio_pinned bc) < NBUF"
    using pin dist length_logged [OF g] n by (simp add: distinct_card)
  then have r: "room lg bc 0" using dist pin by (simp add: room_def)
  from write_log_loop_ok [OF q g _ r] obtain bc1 where
    w1: "write_log_loop lg bc 0 = Inr bc1" "wrote bc (log_writes lg (bio_view bc) 0) bc1" by auto
  have notlog: "set (logged lg) \<inter> fst ` set (log_writes lg (bio_view bc) 0) = {}"
    using g by (fastforce simp: log_writes_def log_geom_def in_log_def)
  have bc1: "quiet bc1" "bio_disksize bc1 = bio_disksize bc" "bio_pinned bc1 = set (logged lg)"
    using w1(2) notlog pin by (auto simp: wrote_def)
  from write_head_ok [OF bc1(1), of lg] g bc1 card pin obtain bc2 d1 where
    w2: "write_head lg bc1 = Inr bc2" "head_of d1 lg" "wrote bc1 [(lg_start lg, d1)] bc2" by auto
  have "lg_start lg \<notin> set (logged lg)" using g by (auto simp: log_geom_def in_log_def)
  then have bc2: "quiet bc2" "bio_disksize bc2 = bio_disksize bc" "bio_pinned bc2 = set (logged lg)"
    "bio_view bc2 = (apply_writes (log_writes lg (bio_view bc) 0) (bio_view bc))(lg_start lg := d1)"
    using w2(3) w1(2) bc1 by (auto simp: wrote_def)
  have "room lg bc2 0" using r pin bc2(3) by (simp add: room_def)
  from install_loop_ok [OF bc2(1) _ _ this] g bc2(2) obtain bc3 where
    w3: "install_loop lg bc2 0 = Inr bc3" "wrote bc2 (install_writes lg (bio_view bc2) 0) bc3" by auto
  have "install_writes lg (bio_view bc2) 0 =
      map (\<lambda>t. (lh_block lg ! t, bio_view bc (lh_block lg ! t))) [0..<nat (lh_n lg)]"
    using log_writes_nth [of _ lg "bio_view bc" "bio_view bc"] bc2(4) by (auto simp: install_writes_def)
  also have "\<dots> = home_writes lg (bio_view bc)"
    using length_logged [OF g] logged_nth(2) [OF g]
    by (intro nth_equalityI) (auto simp: home_writes_def)
  finally have iw: "install_writes lg (bio_view bc2) 0 = home_writes lg (bio_view bc)" .
  have bc3: "quiet bc3" "bio_disksize bc3 = bio_disksize bc" "bio_pinned bc3 = {}"
    using w3(2) bc2 iw by (auto simp: wrote_def home_writes_def image_image)
  have "log_geom (lg\<lparr>lh_n := 0\<rparr>) (bio_disksize bc3)" using g bc3(2) by (simp add: log_geom_def logged_def)
  from write_head_ok [OF bc3(1) this] bc3(3) obtain bc4 d0 where
    w4: "write_head (lg\<lparr>lh_n := 0\<rparr>) bc3 = Inr bc4" "head_n d0 = 0" "wrote bc3 [(lg_start lg, d0)] bc4"
    by (auto simp: head_of_def NBUF_def)
  have "commit lg bc = Inr (lg\<lparr>lh_n := 0\<rparr>, bc4)"
    using w1(1) w2(1) w3(1) w4(1) n(1) by (simp add: commit_def write_log_def install_trans_def)
  moreover have "wrote bc (commit_writes lg (bio_view bc) d1 d0) bc4"
    using wrote_trans [OF w1(2) wrote_trans [OF w2(3) wrote_trans [OF w3(2) w4(3)]]] iw
    by (simp add: commit_writes_def)
  ultimately show ?thesis using w2(2) w4(2) by blast
qed

section \<open>An example\<close>

text \<open>
  The disk that \<^verbatim>\<open>mkfs\<close> lays out (30 log blocks from block 2), and a cache on it in which
  block 50 has been changed by a transaction, held by its user or not.
\<close>

definition ex_disk :: "nat \<Rightarrow> mem" where
  "ex_disk b = (if b = 1 then store32 (store32 (\<lambda>_. 0) 12 30) 16 2 else (\<lambda>_. 0))"

definition ex_buf :: "bool \<Rightarrow> buf" where
  "ex_buf l = \<lparr>b_valid = True, b_dirty = True, b_dev = 1, b_blockno = 50, b_locked = l,
     b_refcnt = (if l then 1 else 0), b_data = (\<lambda>_. 7)\<rparr>"

definition ex_bio :: "bool \<Rightarrow> bio" where
  "ex_bio l = (binit ex_disk 1000)\<lparr>bc_buf := (replicate NBUF empty_buf)[0 := ex_buf l]\<rparr>"

definition ex_log :: log where
  "ex_log = \<lparr>lg_start = 2, lg_size = 30, lg_outstanding = 1, lg_committing = False, lg_dev = 1,
     lh_n = 1, lh_block = 50 # replicate 29 0\<rparr>"

lemma ex_buf_nth:
  "i < NBUF \<Longrightarrow> bc_buf (ex_bio l) ! i = (if i = 0 then ex_buf l else empty_buf)"
  by (simp add: ex_bio_def nth_list_update NBUF_def)

lemma ex_bio_simps [simp]:
  "length (bc_buf (ex_bio l)) = NBUF" "bio_disk (ex_bio l) = ex_disk"
  "bio_disksize (ex_bio l) = 1000" "bc_order (ex_bio l) = rev [0..<NBUF]"
  by (simp_all add: ex_bio_def binit_def binit_loop_rev)

lemma ex_bio_ok: "bio_ok (ex_bio l)"
proof -
  have "buf_ok ex_disk 1000 (bc_buf (ex_bio l) ! i)" if "i < NBUF" for i
    using that by (simp add: ex_buf_nth buf_ok_def empty_buf_def ex_buf_def)
  moreover have "caches (ex_bio l) i bno \<longleftrightarrow> i = 0 \<and> bno = 50" for i bno
    by (cases "i < NBUF") (auto simp: caches_def ex_buf_nth ex_buf_def empty_buf_def NBUF_def)
  ultimately show ?thesis by (auto simp: bio_ok_def)
qed

lemma ex_bio_held: "bio_held (ex_bio l) = (if l then [0 \<mapsto> 50] else Map.empty)"
proof
  fix i
  show "bio_held (ex_bio l) i = (if l then [0 \<mapsto> 50] else Map.empty) i"
    by (cases "i < NBUF") (auto simp: bio_held_def ex_buf_nth ex_buf_def empty_buf_def NBUF_def)
qed

lemma ex_bio_pinned: "bio_pinned (ex_bio l) = {50}"
proof -
  have "{i. i < NBUF \<and> b_dirty (bc_buf (ex_bio l) ! i)} = {0}"
    by (auto simp: ex_buf_nth ex_buf_def empty_buf_def NBUF_def split: if_splits)
  then show ?thesis by (simp add: bio_pinned_def ex_buf_nth NBUF_def ex_buf_def)
qed

lemma ex_log_tx: "log_tx ex_log (ex_bio l)"
proof -
  have lgd: "logged ex_log = [50]" by (simp add: logged_def ex_log_def)
  moreover have "log_geom ex_log 1000"
    by (simp add: log_geom_def lgd in_log_def) (simp add: ex_log_def LOGSIZE_def)
  moreover have "head_n (ex_disk 2) = 0" by (simp add: head_n_def ex_disk_def load32_def)
  ultimately show ?thesis
    using ex_bio_ok ex_bio_pinned by (simp add: log_tx_def) (simp add: ex_log_def)
qed

lemma ex_log_inv: "log_inv ex_log (ex_bio False)"
  using ex_log_tx by (simp add: log_inv_tx ex_bio_held)

lemma ex_super: "superblock_of (bio_disk (ex_bio l) 1) =
  \<lparr>sb_size = 0, sb_nblocks = 0, sb_ninodes = 0, sb_nlog = 30, sb_logstart = 2,
   sb_inodestart = 0, sb_bmapstart = 0\<rparr>"
proof -
  have "load32 (\<lambda>_. 0) a = 0" for a by (simp add: load32_def)
  then show ?thesis
    by (simp add: superblock_of_def ex_disk_def mem_simps)
qed

section \<open>Crash safety\<close>

definition same_fs :: "log \<Rightarrow> (nat \<Rightarrow> mem) \<Rightarrow> (nat \<Rightarrow> mem) \<Rightarrow> bool" where
  "same_fs lg d d' \<longleftrightarrow> (\<forall>b. \<not> in_log lg b \<longrightarrow> d b = d' b)"

text \<open>Mounting the disk after a crash: \<^verbatim>\<open>initlog\<close> with an empty cache.\<close>

lemma initlog_boot:
  assumes sb: "sb_logstart (superblock_of (d 1)) = lg_start lg"
      "int (sb_nlog (superblock_of (d 1))) = lg_size lg"
    and g: "0 < lg_size lg" "int (lg_start lg) + lg_size lg \<le> int sz" "sz \<le> 2 ^ 32" "1 < sz"
    and h: "disk_head_ok lg sz d"
  shows "\<exists>lg' bc'. initlog log_zero (binit d sz) 1 = Inr (lg', bc') \<and> log_inv lg' bc' \<and> lh_n lg' = 0 \<and>
    lg_start lg' = lg_start lg \<and> lg_size lg' = lg_size lg \<and> bio_disksize bc' = sz \<and>
    same_fs lg (bio_disk bc') (apply_writes (redo_writes (lg_start lg) d) d)"
proof -
  let ?lg = "log_zero\<lparr>lg_start := lg_start lg, lg_size := lg_size lg, lg_dev := 1\<rparr>"
  obtain s1 x bc1 where rs: "bread (binit d sz) 1 1 = Inr (s1, x)" "buf_data s1 x = d 1"
    "brelse s1 x = Inr bc1" and bc1: "quiet bc1" "bio_view bc1 = d" "bio_disk bc1 = d"
    "bio_pinned bc1 = {}" "bio_disksize bc1 = sz"
    using bio.read_block [of "binit d sz" 1] binit_ok [of d sz] g(4)
    by (auto simp: quiet_def binit_def NBUF_def)
  have init: "initlog log_zero (binit d sz) 1 = recover_from_log ?lg bc1"
    using rs sb by (simp add: initlog_def readsb_def)
  have bg: "boot_geom ?lg (bio_disksize bc1)" using g bc1 by (simp add: boot_geom_def log_zero_def)
  have dh: "disk_head_ok ?lg (bio_disksize bc1) (bio_view bc1)"
    using h bc1 by (simp add: disk_head_ok_def in_log_def)
  from recover_ok [OF bc1(1,4) bg dh] bc1 obtain bc' d0 block where
    r: "recover_from_log ?lg bc1 = Inr (?lg\<lparr>lh_n := 0, lh_block := block\<rparr>, bc')"
    "length block = LOGSIZE" "head_n d0 = 0"
    "wrote bc1 (redo_writes (lg_start lg) d @ [(lg_start lg, d0)]) bc'" by auto
  then have bc': "quiet bc'" "bio_pinned bc' = {}" "bio_disksize bc' = sz"
    "bio_disk bc' = (apply_writes (redo_writes (lg_start lg) d) d)(lg_start lg := d0)"
    using bc1 by (auto simp: wrote_def)
  have "log_inv (?lg\<lparr>lh_n := 0, lh_block := block\<rparr>) bc'"
    using bc' r(2,3) g by (simp add: log_inv_def log_geom_def logged_def)
  moreover have "same_fs lg (bio_disk bc') (apply_writes (redo_writes (lg_start lg) d) d)"
    using bc'(4) g(1) by (auto simp: same_fs_def in_log_def)
  ultimately show ?thesis using init r(1) bc'(3) by auto
qed

text \<open>What a crash during a commit leaves on the disk, and what redoing the log makes of it.\<close>

lemma no_redo:
  assumes "head_n (d (lg_start lg)) = 0" and "0 < lg_size lg"
  shows "disk_head_ok lg sz d" and "redo_writes (lg_start lg) d = []"
  using assms by (simp_all add: disk_head_ok_def redo_writes_def)

lemma crash_before_commit:
  fixes d1 d0 :: mem
  assumes inv: "log_inv lg bc" and k: "k \<le> nat (lh_n lg)"
  defines "d \<equiv> apply_writes (take k (commit_writes lg (bio_view bc) d1 d0)) (bio_disk bc)"
  shows "head_n (d (lg_start lg)) = 0" and "same_fs lg d (bio_disk bc)"
proof -
  have g: "log_geom lg (bio_disksize bc)" using inv by (simp add: log_inv_def)
  have d: "d = apply_writes (take k (log_writes lg (bio_view bc) 0)) (bio_disk bc)"
    using k by (simp add: d_def commit_writes_def log_writes_def)
  have other: "d b = bio_disk bc b" if "\<not> in_log lg b \<or> b = lg_start lg" for b
  proof -
    have "b \<notin> fst ` set (log_writes lg (bio_view bc) 0)"
      using that g by (auto simp: log_writes_def in_log_def log_geom_def)
    then show ?thesis unfolding d by (intro apply_writes_other) (auto dest: in_set_takeD)
  qed
  then show "head_n (d (lg_start lg)) = 0" "same_fs lg d (bio_disk bc)"
    using inv by (auto simp: log_inv_def same_fs_def in_log_def)
qed

lemma home_not_in_log:
  assumes "log_geom lg sz" and "in_log lg b"
  shows "b \<notin> fst ` set (home_writes lg d)"
  using assms by (auto simp: home_writes_def log_geom_def)

lemma home_writes_fs:
  assumes inv: "log_inv lg bc" and eq: "same_fs lg d (bio_disk bc)"
  shows "same_fs lg (apply_writes (home_writes lg (bio_view bc)) d) (bio_view bc)"
  unfolding same_fs_def
proof (intro allI impI)
  fix b
  assume b: "\<not> in_log lg b"
  let ?h = "home_writes lg (bio_view bc)"
  have "apply_writes ?h d b = apply_writes ?h (bio_disk bc) b"
  proof (cases "b \<in> fst ` set ?h")
    case True
    then show ?thesis by (rule apply_writes_indep)
  next
    case False
    then show ?thesis using eq b by (auto simp: apply_writes_other same_fs_def)
  qed
  then show "apply_writes ?h d b = bio_view bc b" using home_writes_view [OF inv] by simp
qed

lemma crash_after_commit:
  assumes inv: "log_inv lg bc" and d1: "head_of d1 lg" and d0: "head_n d0 = 0"
    and k: "nat (lh_n lg) < k"
  defines "d \<equiv> apply_writes (take k (commit_writes lg (bio_view bc) d1 d0)) (bio_disk bc)"
  shows "disk_head_ok lg (bio_disksize bc) d" and
    "same_fs lg (apply_writes (redo_writes (lg_start lg) d) d) (bio_view bc)"
proof -
  let ?n = "nat (lh_n lg)" and ?h = "home_writes lg (bio_view bc)" and ?s = "lg_start lg"
  have g: "log_geom lg (bio_disksize bc)" using inv by (simp add: log_inv_def)
  define D where "D = (apply_writes (log_writes lg (bio_view bc) 0) (bio_disk bc))(?s := d1)"
  have D_fs: "same_fs lg D (bio_disk bc)"
    using log_writes_other [OF _ g] log_start [OF g] by (auto simp: D_def same_fs_def)
  have len: "length (log_writes lg (bio_view bc) 0) = ?n" "length ?h = ?n"
    using length_logged [OF g] by (simp_all add: log_writes_def home_writes_def)
  obtain j where j: "k = Suc (?n + j)" using k less_iff_Suc_add by blast
  have dj: "d = apply_writes (take j (?h @ [(?s, d0)])) D"
    using len j by (simp add: d_def commit_writes_def D_def)
  have "disk_head_ok lg (bio_disksize bc) d \<and>
    same_fs lg (apply_writes (redo_writes ?s d) d) (bio_view bc)"
  proof (cases "j \<le> ?n")
    case True
    then have dj': "d = apply_writes (take j ?h) D" using dj len(2) by simp
    have log: "d b = D b" if "in_log lg b" for b
      unfolding dj' using home_not_in_log [OF g that]
      by (intro apply_writes_other) (auto dest: in_set_takeD)
    have ds: "d ?s = d1" using log [of ?s] log_start [OF g] by (simp add: D_def)
    have dt: "d (?s + t + 1) = bio_view bc (lh_block lg ! t)" if "t < ?n" for t
      using log [of "?s + t + 1"] log_writes_nth [OF that] that g
      by (auto simp: D_def in_log_def log_geom_def)
    have "redo_writes ?s d = ?h"
      using d1 ds dt length_logged [OF g] logged_nth(2) [OF g]
      by (intro nth_equalityI) (auto simp: redo_writes_def home_writes_def head_of_def)
    moreover have "disk_head_ok lg (bio_disksize bc) d"
      using d1 ds g logged_nth(1) [OF g] by (auto simp: disk_head_ok_def head_of_def log_geom_def)
    ultimately show ?thesis
      using home_writes_fs [OF inv D_fs] by (simp add: dj' apply_writes_again)
  next
    case False
    then have dj': "d = (apply_writes ?h D)(?s := d0)" using dj len(2) by simp
    then have "head_n (d ?s) = 0" using d0 by simp
    from no_redo [of d lg, OF this] g show ?thesis
      using home_writes_fs [OF inv D_fs] dj' log_start [OF g]
      by (auto simp: same_fs_def log_geom_def)
  qed
  then show "disk_head_ok lg (bio_disksize bc) d"
    and "same_fs lg (apply_writes (redo_writes ?s d) d) (bio_view bc)" by blast+
qed

lemma commit_log_inv:
  assumes inv: "log_inv lg bc" and n: "0 < lh_n lg" "lh_n lg < int NBUF"
  shows "\<exists>bc' d1 d0. commit lg bc = Inr (lg\<lparr>lh_n := 0\<rparr>, bc') \<and> log_inv (lg\<lparr>lh_n := 0\<rparr>) bc' \<and>
    bio_writes bc' = bio_writes bc @ commit_writes lg (bio_view bc) d1 d0 \<and>
    head_of d1 lg \<and> head_n d0 = 0 \<and> bio_disksize bc' = bio_disksize bc \<and>
    bio_disk bc' = apply_writes (commit_writes lg (bio_view bc) d1 d0) (bio_disk bc)"
proof -
  have g: "log_geom lg (bio_disksize bc)" using inv by (simp add: log_inv_def)
  from commit_ok [OF assms] obtain bc' d1 d0 where
    c: "commit lg bc = Inr (lg\<lparr>lh_n := 0\<rparr>, bc')" "head_of d1 lg" "head_n d0 = 0"
      "wrote bc (commit_writes lg (bio_view bc) d1 d0) bc'" by blast
  then have bc': "quiet bc'" "bio_disksize bc' = bio_disksize bc"
    "bio_disk bc' = apply_writes (commit_writes lg (bio_view bc) d1 d0) (bio_disk bc)"
    "bio_pinned bc' = bio_pinned bc - fst ` set (commit_writes lg (bio_view bc) d1 d0)"
    "bio_writes bc' = bio_writes bc @ commit_writes lg (bio_view bc) d1 d0"
    by (simp_all add: wrote_def)
  have "bio_pinned bc' = {}"
    using bc'(4) inv by (auto simp: log_inv_def commit_writes_def home_writes_def image_Un image_image)
  moreover have "head_n (bio_disk bc' (lg_start lg)) = 0" using bc'(3) c(3) by (simp add: commit_writes_def)
  ultimately have "log_inv (lg\<lparr>lh_n := 0\<rparr>) bc'"
    using bc'(1,2) g by (auto simp: log_inv_def log_geom_def logged_def)
  then show ?thesis using c bc' by blast
qed

text \<open>
  C10. A transaction is atomic with respect to crashes. \<^verbatim>\<open>commit\<close> returns, and whatever prefix
  of its block writes has reached the disk when the machine stops, mounting the disk again
  (\<^verbatim>\<open>initlog\<close> on an empty cache) returns with a consistent empty log and with a file system
  (all blocks outside the log) that is the old one if the crash was before the write of the
  header, and the new one, with all the logged blocks, from then on.
\<close>

theorem commit_crash_safe:
  assumes inv: "log_inv lg bc" and n: "0 < lh_n lg" "lh_n lg < int NBUF"
    and sb: "sb_logstart (superblock_of (bio_disk bc 1)) = lg_start lg"
      "int (sb_nlog (superblock_of (bio_disk bc 1))) = lg_size lg"
    and sb_safe: "\<not> in_log lg 1" "1 \<notin> set (logged lg)" "1 < bio_disksize bc"
  shows "\<exists>bc' ws. commit lg bc = Inr (lg\<lparr>lh_n := 0\<rparr>, bc') \<and> log_inv (lg\<lparr>lh_n := 0\<rparr>) bc' \<and>
    bio_writes bc' = bio_writes bc @ ws \<and> same_fs lg (bio_disk bc') (bio_view bc) \<and>
    (\<forall>k. \<exists>lg'' bc''.
       initlog log_zero (binit (apply_writes (take k ws) (bio_disk bc)) (bio_disksize bc)) 1 =
         Inr (lg'', bc'') \<and> log_inv lg'' bc'' \<and> lh_n lg'' = 0 \<and>
       same_fs lg (bio_disk bc'') (if k \<le> nat (lh_n lg) then bio_disk bc else bio_view bc))"
proof -
  have g: "log_geom lg (bio_disksize bc)" using inv by (simp add: log_inv_def)
  from commit_log_inv [OF inv n] obtain bc' d1 d0 where
    c: "commit lg bc = Inr (lg\<lparr>lh_n := 0\<rparr>, bc')" "log_inv (lg\<lparr>lh_n := 0\<rparr>) bc'"
      "bio_writes bc' = bio_writes bc @ commit_writes lg (bio_view bc) d1 d0"
      "head_of d1 lg" "head_n d0 = 0"
      "bio_disk bc' = apply_writes (commit_writes lg (bio_view bc) d1 d0) (bio_disk bc)" by blast
  let ?ws = "commit_writes lg (bio_view bc) d1 d0"
  let ?d = "\<lambda>k. apply_writes (take k ?ws) (bio_disk bc)"
  have one: "?d k 1 = bio_disk bc 1" for k
  proof (rule apply_writes_other)
    have "1 \<notin> fst ` set ?ws"
      using sb_safe log_block(1) [OF g] log_start [OF g]
      by (auto simp: commit_writes_def log_writes_def home_writes_def)
    then show "1 \<notin> fst ` set (take k ?ws)" by (auto dest: in_set_takeD)
  qed
  have rec: "disk_head_ok lg (bio_disksize bc) (?d k) \<and>
      same_fs lg (apply_writes (redo_writes (lg_start lg) (?d k)) (?d k))
        (if k \<le> nat (lh_n lg) then bio_disk bc else bio_view bc)" for k
  proof (cases "k \<le> nat (lh_n lg)")
    case True
    note old = crash_before_commit [OF inv True, of d1 d0]
    from no_redo [of "?d k" lg, OF old(1)] old(2) g True show ?thesis by (simp add: log_geom_def)
  next
    case False
    then show ?thesis using crash_after_commit [OF inv c(4,5), of k] by simp
  qed
  have mount: "\<exists>lg'' bc''. initlog log_zero (binit (?d k) (bio_disksize bc)) 1 = Inr (lg'', bc'') \<and>
      log_inv lg'' bc'' \<and> lh_n lg'' = 0 \<and>
      same_fs lg (bio_disk bc'') (if k \<le> nat (lh_n lg) then bio_disk bc else bio_view bc)" for k
    using initlog_boot [of "?d k" lg "bio_disksize bc"] one rec [of k] sb sb_safe(3) g
    by (fastforce simp: log_geom_def same_fs_def)
  have new: "same_fs lg (bio_disk bc') (bio_view bc)"
  proof -
    let ?k = "length ?ws"
    have "nat (lh_n lg) < ?k" by (simp add: commit_writes_def log_writes_def)
    moreover have "?d ?k (lg_start lg) = d0" by (simp add: commit_writes_def)
    ultimately show ?thesis
      using crash_after_commit(2) [OF inv c(4,5), of ?k] c(5,6) by (simp add: redo_writes_def)
  qed
  show ?thesis using c(1-3) new mount by blast
qed

theorem commit_crash_safe_witness:
  "\<exists>bc' ws. commit ex_log (ex_bio False) = Inr (ex_log\<lparr>lh_n := 0\<rparr>, bc') \<and>
    (\<forall>k. \<exists>lg'' bc''.
       initlog log_zero (binit (apply_writes (take k ws) ex_disk) 1000) 1 = Inr (lg'', bc'') \<and>
       same_fs ex_log (bio_disk bc'') (if k \<le> 1 then ex_disk else bio_view (ex_bio False)))"
proof -
  have d: "bio_disk (ex_bio False) = ex_disk" "bio_disksize (ex_bio False) = 1000" "lh_n ex_log = 1"
    "lg_start ex_log = 2" "lg_size ex_log = 30" "\<not> in_log ex_log 1" "1 \<notin> set (logged ex_log)"
    by (simp_all add: ex_log_def in_log_def logged_def)
  have "1 < bio_disksize (ex_bio False)" "lh_n ex_log < int NBUF" "0 < lh_n ex_log"
    by (simp_all add: d NBUF_def)
  then show ?thesis
    using commit_crash_safe [OF ex_log_inv] d ex_super [of False] by fastforce
qed

text \<open>
  C11. Recovery can itself be interrupted at any of its writes: mounting the disk again
  gives the same file system as an undisturbed recovery.
\<close>

theorem recovery_restartable:
  assumes g: "boot_geom lg sz" and h: "disk_head_ok lg sz d"
  shows "\<exists>lg' bc'. recover_from_log lg (binit d sz) = Inr (lg', bc') \<and> log_inv lg' bc' \<and>
    (\<forall>k. \<exists>lg'' bc''.
       recover_from_log lg (binit (apply_writes (take k (bio_writes bc')) d) sz) = Inr (lg'', bc'') \<and>
       log_inv lg'' bc'' \<and> same_fs lg (bio_disk bc'') (bio_disk bc'))"
proof -
  let ?s = "lg_start lg" and ?w = "redo_writes (lg_start lg) d"
  have inv: "log_inv (lg\<lparr>lh_n := 0, lh_block := block\<rparr>) bc'"
    if "length block = LOGSIZE" "quiet bc'" "bio_pinned bc' = {}" "bio_disksize bc' = sz"
      "head_n (bio_disk bc' ?s) = 0" for block bc'
    using g that by (simp add: log_inv_def log_geom_def boot_geom_def logged_def)
  have start: "in_log lg ?s" using g by (simp add: boot_geom_def in_log_def)
  from recover_boot [OF g h] obtain bc' d0 block where
    r: "recover_from_log lg (binit d sz) = Inr (lg\<lparr>lh_n := 0, lh_block := block\<rparr>, bc')"
      "log_inv (lg\<lparr>lh_n := 0, lh_block := block\<rparr>) bc'" "head_n d0 = 0"
      "bio_writes bc' = ?w @ [(?s, d0)]" "bio_disk bc' = (apply_writes ?w d)(?s := d0)"
    using inv by fastforce
  have "\<exists>lg'' bc''.
      recover_from_log lg (binit (apply_writes (take k (bio_writes bc')) d) sz) = Inr (lg'', bc'') \<and>
      log_inv lg'' bc'' \<and> same_fs lg (bio_disk bc'') (bio_disk bc')" for k
  proof -
    let ?d = "apply_writes (take k (bio_writes bc')) d"
    have "disk_head_ok lg sz ?d \<and>
      same_fs lg (apply_writes (redo_writes ?s ?d) ?d) (apply_writes ?w d)"
    proof (cases "k \<le> length ?w")
      case True
      have log: "?d b = d b" if "in_log lg b" for b
        using True that h r(4)
        by (intro apply_writes_other) (auto simp: redo_writes_def disk_head_ok_def dest!: in_set_takeD)
      have "in_log lg (?s + t + 1)" if "t < nat (head_n (d ?s))" for t
        using that h by (auto simp: in_log_def disk_head_ok_def)
      then have "redo_writes ?s ?d = ?w" using log start by (auto simp: redo_writes_def)
      moreover have "disk_head_ok lg sz ?d" using h log [OF start] by (simp add: disk_head_ok_def)
      ultimately show ?thesis using True r(4) by (simp add: apply_writes_again same_fs_def)
    next
      case False
      then have d: "?d = (apply_writes ?w d)(?s := d0)" using r(4) by simp
      then have "head_n (?d ?s) = 0" using r(3) by simp
      from no_redo [of ?d lg, OF this] g show ?thesis
        using d start by (auto simp: same_fs_def boot_geom_def)
    qed
    with recover_boot [OF g, of ?d] inv r(5) start show ?thesis by (fastforce simp: same_fs_def)
  qed
  then show ?thesis using r(1,2) by blast
qed

theorem recovery_restartable_witness:
  "\<exists>lg' bc'. recover_from_log (ex_log\<lparr>lh_n := 0\<rparr>)
      (binit (ex_disk(2 := store32 (store32 (\<lambda>_. 0) 0 1) 4 50)) 1000) = Inr (lg', bc') \<and> log_inv lg' bc'"
proof -
  let ?h = "store32 (store32 (\<lambda>_. 0) 0 1) 4 50" and ?lg = "ex_log\<lparr>lh_n := 0\<rparr>"
  have "head_n ?h = 1" "head_block ?h 0 = 50"
    by (simp_all add: head_n_def head_block_def mem_simps)
  then have "disk_head_ok ?lg 1000 (ex_disk(2 := ?h))" "boot_geom ?lg 1000"
    by (simp_all add: disk_head_ok_def boot_geom_def ex_log_def LOGSIZE_def in_log_def)
  from recovery_restartable [OF this(2,1)] show ?thesis by blast
qed

section \<open>Recording a block\<close>

lemma log_write_scan_ok:
  assumes "log_geom lg sz" and "k \<le> nat (lh_n lg)" and "\<And>t. t < k \<Longrightarrow> lh_block lg ! t \<noteq> b"
  shows "\<exists>i. log_write_scan lg b (int k) = Inr (int i) \<and> i \<le> nat (lh_n lg) \<and>
    (if i < nat (lh_n lg) then lh_block lg ! i = b else b \<notin> set (logged lg))"
  using assms(2,3)
proof (induction "nat (lh_n lg) - k" arbitrary: k)
  case 0
  then have k: "\<not> int k < lh_n lg" "\<not> k < nat (lh_n lg)" "nat (lh_n lg) \<le> k" by linarith+
  have "b \<notin> set (logged lg)"
    using "0.prems"(2) k(3) length_logged [OF assms(1)] logged_nth(2) [OF assms(1)]
    by (auto simp: in_set_conv_nth)
  moreover have "log_write_scan lg b (int k) = Inr (int k)"
    using k(1) by (subst log_write_scan.simps) simp
  ultimately show ?case using k(2) "0.prems"(1) by (intro exI [of _ k]) simp
next
  case (Suc m)
  have k: "int k < lh_n lg" "k < length (lh_block lg)" "k < nat (lh_n lg)"
    and m: "m = nat (lh_n lg) - Suc k"
    using Suc.hyps(2) assms(1) by (auto simp: log_geom_def)
  show ?case
  proof (cases "lh_block lg ! k = b")
    case True
    then show ?thesis using k by (intro exI [of _ k]) (simp add: log_write_scan.simps [of lg b "int k"])
  next
    case False
    have "\<exists>i. log_write_scan lg b (int (Suc k)) = Inr (int i) \<and> i \<le> nat (lh_n lg) \<and>
      (if i < nat (lh_n lg) then lh_block lg ! i = b else b \<notin> set (logged lg))"
      by (rule Suc.hyps(1) [OF m]) (use k Suc.prems(2) False less_antisym in \<open>auto simp: less_Suc_eq\<close>)
    then show ?thesis
      using False k by (simp add: log_write_scan.simps [of lg b "int k"] add.commute)
  qed
qed

lemma log_record_ok:
  assumes g: "log_geom lg sz" and n: "lh_n lg < int LOGSIZE" "lh_n lg < lg_size lg - 1"
    "1 \<le> lg_outstanding lg" and b: "b < sz" "\<not> in_log lg b" and d: "distinct (logged lg)"
  shows "\<exists>lg'. log_record lg b = Inr lg' \<and> log_geom lg' sz \<and> distinct (logged lg') \<and>
    logged lg' = (if b \<in> set (logged lg) then logged lg else logged lg @ [b]) \<and>
    lh_n lg' = (if b \<in> set (logged lg) then lh_n lg else lh_n lg + 1) \<and>
    lg_start lg' = lg_start lg \<and> lg_size lg' = lg_size lg \<and> lg_dev lg' = lg_dev lg \<and>
    lg_outstanding lg' = lg_outstanding lg \<and> lg_committing lg' = lg_committing lg"
proof -
  from log_write_scan_ok [OF g, of 0 b] obtain i where
    i: "log_write_scan lg b 0 = Inr (int i)" "i \<le> nat (lh_n lg)"
    "if i < nat (lh_n lg) then lh_block lg ! i = b else b \<notin> set (logged lg)" by auto
  have len: "i < length (lh_block lg)" using i(2) g n(1) by (auto simp: log_geom_def)
  have n0: "0 \<le> lh_n lg" using g by (simp add: log_geom_def)
  show ?thesis
  proof (cases "i < nat (lh_n lg)")
    case True
    then have "b \<in> set (logged lg)" "(lh_block lg)[i := b] = lh_block lg" "int i \<noteq> lh_n lg"
      using i(3) logged_nth(1) [OF g True] by auto
    then show ?thesis using i(1) len n g d by (simp add: log_record_def)
  next
    case False
    then have inn: "int i = lh_n lg" "i = nat (lh_n lg)" "b \<notin> set (logged lg)" using i n0 by auto
    let ?lg = "lg\<lparr>lh_block := (lh_block lg)[i := b], lh_n := lh_n lg + 1\<rparr>"
    have "wr (lh_block lg) (lh_n lg) b = Inr ((lh_block lg)[i := b])"
      using len n0 inn(2) by (simp add: wr_def nat_less_iff)
    then have rec: "log_record lg b = Inr ?lg" using i(1) n by (simp add: log_record_def inn(1))
    have lgd: "logged ?lg = logged lg @ [b]"
      using inn len n0 by (simp add: logged_def nat_add_distrib take_Suc_conv_app_nth)
    have "log_geom ?lg sz" using g n b lgd by (auto simp: log_geom_def in_log_def)
    then show ?thesis using rec lgd inn(3) d by auto
  qed
qed

lemma log_write_step:
  assumes inv: "log_tx lg bc" and h: "bio_held bc b = Some bno" and b: "\<not> in_log lg bno"
    and n: "lh_n lg < int LOGSIZE" "lh_n lg < lg_size lg - 1" "1 \<le> lg_outstanding lg"
  shows "\<exists>lg' bc'. log_write lg bc b = Inr (lg', bc') \<and> log_tx lg' bc' \<and>
    logged lg' = (if bno \<in> set (logged lg) then logged lg else logged lg @ [bno]) \<and>
    bio_pinned bc' = insert bno (bio_pinned bc) \<and>
    bio_view bc' = bio_view bc \<and> bio_disk bc' = bio_disk bc \<and> bio_writes bc' = bio_writes bc \<and>
    bio_held bc' = bio_held bc \<and> bio_disksize bc' = bio_disksize bc \<and>
    lg_start lg' = lg_start lg \<and> lg_size lg' = lg_size lg \<and> lg_dev lg' = lg_dev lg \<and>
    lg_outstanding lg' = lg_outstanding lg \<and> lh_n lg' \<le> lh_n lg + 1"
proof -
  have ok: "bio_ok bc" and g: "log_geom lg (bio_disksize bc)" and d: "distinct (logged lg)"
    and pin: "bio_pinned bc = set (logged lg)" and z: "head_n (bio_disk bc (lg_start lg)) = 0"
    using inv by (simp_all add: log_tx_def)
  note c = held_caches [OF ok h]
  have bno: "b_blockno (bc_buf bc ! b) = bno" using c(1) by (simp add: caches_def)
  have "bno < bio_disksize bc" using bio_ok_buf [OF ok c(3)] c(1) by (auto simp: caches_def buf_ok_def)
  from log_record_ok [OF g n this b d] obtain lg' where
    r: "log_record lg bno = Inr lg'" "log_geom lg' (bio_disksize bc)" "distinct (logged lg')"
    "logged lg' = (if bno \<in> set (logged lg) then logged lg else logged lg @ [bno])"
    "lg_start lg' = lg_start lg" "lg_size lg' = lg_size lg" "lg_dev lg' = lg_dev lg"
    "lg_outstanding lg' = lg_outstanding lg" "lh_n lg' \<le> lh_n lg + 1" by auto
  let ?bc = "set_buf_dirty bc b"
  have e: "bio_disk ?bc = bio_disk bc" "bio_writes ?bc = bio_writes bc"
    "bio_disksize ?bc = bio_disksize bc" by (simp_all add: set_buf_dirty_def)
  note sd = set_buf_dirty_ok [OF ok h]
  have "log_tx lg' ?bc" using r sd e pin z by (auto simp: log_tx_def)
  moreover have "log_write lg bc b = Inr (lg', ?bc)" using r(1) by (simp add: log_write_def bno)
  ultimately show ?thesis using r sd e by (intro exI [of _ lg'] exI [of _ ?bc]) simp
qed

text \<open>
  \<^verbatim>\<open>log_write\<close> absorbs repeated writes: inside a transaction with room in the log it
  returns, adds the block once and pins it, and changes neither the disk nor the contents of
  any block; the state stays consistent, so the next commit writes exactly the recorded
  blocks.
\<close>

theorem log_write_absorbs:
  assumes inv: "log_tx lg bc" and h: "bio_held bc b = Some bno" and b: "\<not> in_log lg bno"
    and n: "lh_n lg < int LOGSIZE" "lh_n lg < lg_size lg - 1" "1 \<le> lg_outstanding lg"
  shows "\<exists>lg' bc'. log_write lg bc b = Inr (lg', bc') \<and> log_tx lg' bc' \<and>
    logged lg' = (if bno \<in> set (logged lg) then logged lg else logged lg @ [bno]) \<and>
    bio_pinned bc' = insert bno (bio_pinned bc) \<and>
    bio_view bc' = bio_view bc \<and> bio_disk bc' = bio_disk bc \<and> bio_writes bc' = bio_writes bc \<and>
    bio_held bc' = bio_held bc"
  using log_write_step [OF assms] by blast

theorem log_write_absorbs_witness:
  "\<exists>lg' bc'. log_write ex_log (ex_bio True) 0 = Inr (lg', bc') \<and> log_tx lg' bc' \<and> logged lg' = [50]"
proof -
  have "bio_held (ex_bio True) 0 = Some 50" "\<not> in_log ex_log 50" "lh_n ex_log < int LOGSIZE"
    "lh_n ex_log < lg_size ex_log - 1" "1 \<le> lg_outstanding ex_log"
    by (simp_all add: ex_bio_held in_log_def ex_log_def LOGSIZE_def)
  moreover have "logged ex_log = [50]" by (simp add: logged_def ex_log_def)
  ultimately show ?thesis using log_write_absorbs [OF ex_log_tx, of True 0 50] by auto
qed

section \<open>Reservation of log space\<close>

text \<open>
  The file-system calls as a state machine over the log: \<open>used\<close> lists, for every running
  call, how many blocks it has added to the log. A call begins when \<^verbatim>\<open>begin_op\<close> lets it,
  records blocks (at most \<open>MAXOPBLOCKS\<close> new ones, which is what the callers promise), and ends;
  the last one commits, and no call runs until the commit is done.
\<close>

inductive log_step :: "log \<times> int list \<Rightarrow> log \<times> int list \<Rightarrow> bool" where
  begin_call: "begin_op lg = Some lg' \<Longrightarrow> log_step (lg, used) (lg', used @ [0])"
| record_new: "i < length used \<Longrightarrow> used ! i < MAXOPBLOCKS \<Longrightarrow> log_record lg b = Inr lg' \<Longrightarrow>
    lh_n lg' = lh_n lg + 1 \<Longrightarrow> log_step (lg, used) (lg', used[i := used ! i + 1])"
| record_old: "i < length used \<Longrightarrow> log_record lg b = Inr lg' \<Longrightarrow> lh_n lg' = lh_n lg \<Longrightarrow>
    log_step (lg, used) (lg', used)"
| end_call: "i < length used \<Longrightarrow> end_op_enter lg = Inr (lg', last_one) \<Longrightarrow>
    log_step (lg, used) (lg', take i used @ drop (Suc i) used)"
| commit_done: "lg_committing lg \<Longrightarrow>
    log_step (lg, used) (lg\<lparr>lh_n := 0, lg_committing := False\<rparr>, used)"

inductive_cases log_step_cases: "log_step (lg, used) s'"

inductive log_reach :: "nat \<Rightarrow> int \<Rightarrow> log \<times> int list \<Rightarrow> bool" for start :: nat and nlog :: int where
  boot: "log_reach start nlog (log_zero\<lparr>lg_start := start, lg_size := nlog, lg_dev := 1\<rparr>, [])"
| step: "log_reach start nlog s \<Longrightarrow> log_step s s' \<Longrightarrow> log_reach start nlog s'"

text \<open>The blocks in the log and the blocks reserved for running calls fit.\<close>

definition reserved :: "log \<times> int list \<Rightarrow> bool" where
  "reserved s = (case s of (lg, used) \<Rightarrow>
     lg_outstanding lg = int (length used) \<and> 0 \<le> lh_n lg \<and>
     (\<forall>u\<in>set used. 0 \<le> u \<and> u \<le> MAXOPBLOCKS) \<and>
     lh_n lg + (\<Sum>u\<leftarrow>used. MAXOPBLOCKS - u) \<le> int LOGSIZE \<and>
     (lg_committing lg \<longrightarrow> used = []))"

lemma log_record_frame:
  assumes "log_record lg b = Inr lg'"
  shows "lg_outstanding lg' = lg_outstanding lg" and "lg_committing lg' = lg_committing lg"
    and "lg_size lg' = lg_size lg" and "1 \<le> lg_outstanding lg"
  using assms by (auto simp: log_record_def bind_res_eq_Inr Let_def split: if_splits)

lemma sum_list_replace:
  "i < length xs \<Longrightarrow> (\<Sum>u\<leftarrow>xs[i := v]. c - u) = (\<Sum>u\<leftarrow>xs. c - u) + xs ! i - (v :: int)"
proof (induction xs arbitrary: i)
  case (Cons x xs)
  then show ?case by (cases i) auto
qed simp

lemma sum_list_remove:
  "i < length xs \<Longrightarrow>
   (\<Sum>u\<leftarrow>take i xs @ drop (Suc i) xs. (c :: int) - u) = (\<Sum>u\<leftarrow>xs. c - u) - (c - xs ! i)"
proof (induction xs arbitrary: i)
  case (Cons x xs)
  then show ?case by (cases i) auto
qed simp

lemma reserved_begin:
  assumes "reserved (lg, used)" and "begin_op lg = Some lg'"
  shows "reserved (lg', used @ [0])"
proof -
  have *: "(\<Sum>u\<leftarrow>used. MAXOPBLOCKS - u) \<le> int (length used) * MAXOPBLOCKS"
    if "\<forall>u\<in>set used. 0 \<le> u" for used :: "int list"
    using that by (induction used) (auto simp: algebra_simps)
  show ?thesis
    using assms * [of used]
    by (auto simp: reserved_def begin_op_def algebra_simps MAXOPBLOCKS_def split: if_splits)
qed

lemma reserved_step: "log_step (lg, used) s' \<Longrightarrow> reserved (lg, used) \<Longrightarrow> reserved s'"
proof (erule log_step_cases)
  fix lg'
  assume "begin_op lg = Some lg'" "s' = (lg', used @ [0])" "reserved (lg, used)"
  then show "reserved s'" using reserved_begin by simp
next
  fix i b lg'
  assume a: "reserved (lg, used)" "s' = (lg', used[i := used ! i + 1])" "i < length used"
    "used ! i < MAXOPBLOCKS" "log_record lg b = Inr lg'" "lh_n lg' = lh_n lg + 1"
  have "used ! i \<in> set used" using a(3) by simp
  then have "\<forall>u\<in>set (used[i := used ! i + 1]). 0 \<le> u \<and> u \<le> MAXOPBLOCKS"
    using a set_update_subset_insert [of used i "used ! i + 1"] by (fastforce simp: reserved_def)
  then show "reserved s'"
    using a log_record_frame [OF a(5)] sum_list_replace [OF a(3), of MAXOPBLOCKS "used ! i + 1"]
    by (auto simp: reserved_def)
next
  fix i b lg'
  assume "reserved (lg, used)" "s' = (lg', used)" "log_record lg b = Inr lg'" "lh_n lg' = lh_n lg"
  then show "reserved s'" using log_record_frame [of lg b lg'] by (auto simp: reserved_def)
next
  fix i lg' last_one
  assume a: "reserved (lg, used)" "s' = (lg', take i used @ drop (Suc i) used)" "i < length used"
    "end_op_enter lg = Inr (lg', last_one)"
  let ?u = "take i used @ drop (Suc i) used"
  have r: "lg_outstanding lg = int (length used)" "0 \<le> lh_n lg" "\<forall>u\<in>set used. 0 \<le> u \<and> u \<le> MAXOPBLOCKS"
    "lh_n lg + (\<Sum>u\<leftarrow>used. MAXOPBLOCKS - u) \<le> int LOGSIZE" using a(1) by (simp_all add: reserved_def)
  have "\<forall>u\<in>set ?u. 0 \<le> u \<and> u \<le> MAXOPBLOCKS"
    using r(3) by (auto dest: in_set_takeD in_set_dropD)
  moreover have "(\<Sum>u\<leftarrow>?u. MAXOPBLOCKS - u) \<le> (\<Sum>u\<leftarrow>used. MAXOPBLOCKS - u)"
    using sum_list_remove [OF a(3), of MAXOPBLOCKS] r(3) a(3) by simp
  moreover have "length ?u = length used - 1" using a(3) by simp
  moreover have "lh_n lg' = lh_n lg" "lg_outstanding lg' = lg_outstanding lg - 1"
    "lg_committing lg' \<longrightarrow> lg_outstanding lg' = 0"
    using a(4) by (auto simp: end_op_enter_def Let_def split: if_splits)
  ultimately show "reserved s'" using r a(2,3) by (auto simp: reserved_def)
next
  assume "reserved (lg, used)" "s' = (lg\<lparr>lh_n := 0, lg_committing := False\<rparr>, used)" "lg_committing lg"
  then show "reserved s'" by (auto simp: reserved_def LOGSIZE_def)
qed

lemma reach_reserved: "log_reach start nlog s \<Longrightarrow> reserved s"
proof (induction rule: log_reach.induct)
  case boot
  then show ?case by (simp add: reserved_def log_zero_def LOGSIZE_def)
next
  case (step s s')
  then show ?case using reserved_step by (cases s) auto
qed

lemma reach_size: "log_reach start nlog s \<Longrightarrow> lg_size (fst s) = nlog"
proof (induction rule: log_reach.induct)
  case (step s s')
  from step.hyps(2) step.IH show ?case
    by (cases rule: log_step.cases)
       (auto simp: begin_op_def end_op_enter_def Let_def log_record_frame(3) split: if_splits)
qed simp

lemma scan_returns:
  assumes "lh_n lg \<le> int (length (lh_block lg))" and "0 \<le> k" and "k \<le> lh_n lg"
  shows "\<exists>i. log_write_scan lg b k = Inr i \<and> 0 \<le> i \<and> i \<le> lh_n lg"
  using assms
proof (induction lg b k rule: log_write_scan.induct)
  case (1 lg b k)
  show ?case
  proof (cases "k < lh_n lg")
    case True
    then have "rd (lh_block lg) k = Inr (lh_block lg ! nat k)" using "1.prems" by simp
    then show ?thesis
      using "1.IH" [OF True, of "lh_block lg ! nat k"] "1.prems" True
      by (subst log_write_scan.simps) auto
  next
    case False
    then show ?thesis using "1.prems" by (subst log_write_scan.simps) auto
  qed
qed

lemma reach_blocks: "log_reach start nlog s \<Longrightarrow> length (lh_block (fst s)) = LOGSIZE"
proof (induction rule: log_reach.induct)
  case boot
  then show ?case by (simp add: log_zero_def)
next
  case (step s s')
  have len: "length (lh_block lg') = length (lh_block lg)" if "log_record lg b = Inr lg'" for lg b lg'
    using that by (auto simp: log_record_def bind_res_eq_Inr Let_def dest: wr_InrD split: if_splits)
  from step.hyps(2) step.IH show ?case
    by (cases rule: log_step.cases)
       (auto simp: begin_op_def end_op_enter_def Let_def len split: if_splits)
qed

text \<open>
  C12. The reservation of \<^verbatim>\<open>begin_op\<close> is sound for a log that has room for \<^verbatim>\<open>LOGSIZE\<close> blocks
  besides its header: in every reachable state a running call that has used fewer than
  \<^verbatim>\<open>MAXOPBLOCKS\<close> blocks of the log can record any block, whether it is in the log already
  or takes a new place, and a running call can enter \<^verbatim>\<open>end_op\<close>, without a panic. This is the
  whole of what is promised: once the log is full, \<^verbatim>\<open>log_write\<close> panics for every block, also
  for one in the log that would take no new place, because it tests for room before it looks
  for the block (\<open>full_log_refuses_absorption\<close> reaches that state with three calls that have
  each used exactly their \<^verbatim>\<open>MAXOPBLOCKS\<close> blocks).
\<close>

theorem reservation_no_panic:
  assumes r: "log_reach start nlog (lg, used)" and nlog: "int LOGSIZE < nlog" and i: "i < length used"
  shows "(used ! i < MAXOPBLOCKS \<longrightarrow> (\<exists>lg'. log_record lg b = Inr lg')) \<and>
    (\<exists>lg' c. end_op_enter lg = Inr (lg', c)) \<and>
    (lh_n lg = int LOGSIZE \<longrightarrow> log_record lg b = Inl (Panic ''too big a transaction''))"
proof (intro conjI)
  have res: "reserved (lg, used)" by (rule reach_reserved [OF r])
  have len: "length (lh_block lg) = LOGSIZE" and sz: "lg_size lg = nlog"
    using reach_blocks [OF r] reach_size [OF r] by simp_all
  show "used ! i < MAXOPBLOCKS \<longrightarrow> (\<exists>lg'. log_record lg b = Inr lg')"
  proof
    assume u: "used ! i < MAXOPBLOCKS"
    have "0 \<le> x" if "x \<in> set (map (\<lambda>u. MAXOPBLOCKS - u) used)" for x
      using res that by (auto simp: reserved_def)
    then have "MAXOPBLOCKS - used ! i \<le> (\<Sum>u\<leftarrow>used. MAXOPBLOCKS - u)"
      by (intro member_le_sum_list) (use i in auto)
    then have n: "lh_n lg < int LOGSIZE" "0 \<le> lh_n lg" "1 \<le> lg_outstanding lg"
      using res u i by (auto simp: reserved_def)
    from scan_returns [of lg 0 b] n len obtain k where
      "log_write_scan lg b 0 = Inr k" "0 \<le> k" "k \<le> lh_n lg" by auto
    then show "\<exists>lg'. log_record lg b = Inr lg'"
      using n len nlog sz by (simp add: log_record_def Let_def)
  qed
  show "\<exists>lg' c. end_op_enter lg = Inr (lg', c)"
    using res i by (auto simp: reserved_def end_op_enter_def Let_def)
  show "lh_n lg = int LOGSIZE \<longrightarrow> log_record lg b = Inl (Panic ''too big a transaction'')"
    by (simp add: log_record_def)
qed

lemma reach_one:
  "log_reach 2 nlog (log_zero\<lparr>lg_start := 2, lg_size := nlog, lg_dev := 1, lg_outstanding := 1\<rparr>, [0])"
proof -
  have "begin_op (log_zero\<lparr>lg_start := 2, lg_size := nlog, lg_dev := 1\<rparr>) =
      Some (log_zero\<lparr>lg_start := 2, lg_size := nlog, lg_dev := 1, lg_outstanding := 1\<rparr>)"
    by (simp add: begin_op_def log_zero_def LOGSIZE_def MAXOPBLOCKS_def)
  from log_reach.step [OF log_reach.boot [of 2 nlog] log_step.begin_call [OF this]] show ?thesis by simp
qed

theorem reservation_no_panic_witness:
  "\<exists>lg'. log_record
     (log_zero\<lparr>lg_start := 2, lg_size := 31, lg_dev := 1, lg_outstanding := 1\<rparr>) 50 = Inr lg'"
  using reservation_no_panic [OF reach_one [of 31], of 0 50] by (simp add: LOGSIZE_def MAXOPBLOCKS_def)

text \<open>Three calls have begun; they record blocks 100, 101, \<dots>, ten each.\<close>

lemma reach_three:
  assumes "0 < nlog" and "nlog \<le> 90"
  shows "\<exists>lg. log_reach 2 nlog (lg, [0, 0, 0]) \<and> lh_n lg = 0 \<and> lg_outstanding lg = 3 \<and> lg_start lg = 2 \<and>
     log_geom lg 1000"
proof -
  let ?lg = "\<lambda>k. log_zero\<lparr>lg_start := 2, lg_size := nlog, lg_dev := 1, lg_outstanding := k\<rparr>"
  have b: "begin_op (?lg 1) = Some (?lg 2)" "begin_op (?lg 2) = Some (?lg 3)"
    by (simp_all add: begin_op_def log_zero_def LOGSIZE_def MAXOPBLOCKS_def)
  have "log_reach 2 nlog (?lg 2, [0] @ [0])"
    by (rule log_reach.step [OF reach_one log_step.begin_call [OF b(1)]])
  from log_reach.step [OF this log_step.begin_call [OF b(2)]]
  have "log_reach 2 nlog (?lg 3, [0, 0, 0])" by simp
  moreover have "log_geom (?lg 3) 1000" using assms by (simp add: log_geom_def log_zero_def logged_def LOGSIZE_def)
  ultimately show ?thesis by (intro exI [of _ "?lg 3"]) (simp add: log_zero_def)
qed

lemma reach_records:
  fixes n :: int
  assumes "0 \<le> n" and "n \<le> 30" and "n < nlog" and "nlog \<le> 90"
  shows "\<exists>lg. log_reach 2 nlog (lg, [min 10 n, min 10 (max 0 (n - 10)), max 0 (n - 20)]) \<and>
    lh_n lg = n \<and> lg_outstanding lg = 3 \<and> lg_start lg = 2 \<and> log_geom lg 1000 \<and>
    distinct (logged lg) \<and> (\<forall>b\<in>set (logged lg). 100 \<le> b \<and> int b < 100 + n)"
  using assms
proof (induction n rule: int_ge_induct)
  case base
  then show ?case using reach_three [of nlog] by (auto simp: logged_def)
next
  case (step n)
  then obtain lg where lg: "log_reach 2 nlog (lg, [min 10 n, min 10 (max 0 (n - 10)), max 0 (n - 20)])"
    "lh_n lg = n" "lg_outstanding lg = 3" "lg_start lg = 2" "log_geom lg 1000" "distinct (logged lg)"
    "\<forall>b\<in>set (logged lg). 100 \<le> b \<and> int b < 100 + n" by auto
  have size: "lg_size lg = nlog" using reach_size [OF lg(1)] by simp
  define b where "b = nat (100 + n)"
  have b: "b < 1000" "\<not> in_log lg b" "b \<notin> set (logged lg)" "int b = 100 + n"
    using step lg(4,7) size by (auto simp: b_def in_log_def)
  from log_record_ok [OF lg(5) _ _ _ b(1,2) lg(6)] lg size step b(3) obtain lg' where
    r: "log_record lg b = Inr lg'" "log_geom lg' 1000" "distinct (logged lg')"
    "logged lg' = logged lg @ [b]" "lh_n lg' = n + 1" "lg_start lg' = 2" "lg_outstanding lg' = 3"
    by (auto simp: LOGSIZE_def)
  let ?u = "[min 10 n, min 10 (max 0 (n - 10)), max 0 (n - 20)]"
  define i :: nat where "i = (if n < 10 then 0 else if n < 20 then 1 else 2)"
  have u: "?u[i := ?u ! i + 1] = [min 10 (n + 1), min 10 (max 0 (n + 1 - 10)), max 0 (n + 1 - 20)]"
    and lt: "i < length ?u" "?u ! i < MAXOPBLOCKS"
    using step by (auto simp: i_def MAXOPBLOCKS_def)
  have "log_step (lg, ?u) (lg', ?u[i := ?u ! i + 1])"
    by (rule log_step.record_new [OF lt r(1)]) (simp add: r lg)
  from log_reach.step [OF lg(1) this] show ?case
    unfolding u using r lg(7) b(4) step.hyps by (intro exI [of _ lg']) auto
qed

text \<open>
  On the disk that \<^verbatim>\<open>mkfs\<close> makes (\<^verbatim>\<open>nlog = LOGSIZE\<close>, the header included) the reservation is
  one block too generous: three calls that each stay within \<^verbatim>\<open>MAXOPBLOCKS\<close> are admitted, and
  the last of their blocks makes the kernel panic.
\<close>

theorem mkfs_log_overflows:
  "\<exists>lg used. log_reach 2 (int LOGSIZE) (lg, used) \<and> (\<exists>i<length used. used ! i < MAXOPBLOCKS) \<and>
     (\<forall>b. log_record lg b = Inl (Panic ''too big a transaction''))"
proof -
  from reach_records [of 29 30] obtain lg where lg: "log_reach 2 30 (lg, [10, 10, 9])" "lh_n lg = 29"
    by auto
  have "lg_size lg = 30" using reach_size [OF lg(1)] by simp
  then have "log_record lg b = Inl (Panic ''too big a transaction'')" for b
    using lg(2) by (simp add: log_record_def)
  moreover have "\<exists>i<length [10, 10, 9 :: int]. [10, 10, 9 :: int] ! i < MAXOPBLOCKS"
    by (intro exI [of _ 2]) (simp add: MAXOPBLOCKS_def)
  ultimately show ?thesis
    using lg(1) unfolding LOGSIZE_def by (metis of_nat_numeral)
qed

text \<open>
  On a larger log the three calls fill the log to its last place within their limits, and
  then even a block that is in the log cannot be recorded again.
\<close>

theorem full_log_refuses_absorption:
  "\<exists>lg b. log_reach 2 31 (lg, [MAXOPBLOCKS, MAXOPBLOCKS, MAXOPBLOCKS]) \<and> b \<in> set (logged lg) \<and>
     log_record lg b = Inl (Panic ''too big a transaction'')"
proof -
  from reach_records [of 30 31] obtain lg where
    lg: "log_reach 2 31 (lg, [10, 10, 10])" "lh_n lg = 30" "log_geom lg 1000" by auto
  have "length (logged lg) = 30" using lg by (simp add: logged_def log_geom_def LOGSIZE_def)
  then obtain b where "b \<in> set (logged lg)" by (metis list.set_intros(1) length_Cons
    neq_Nil_conv list.size(3) numeral_eq_iff zero_neq_numeral)
  moreover have "log_record lg b = Inl (Panic ''too big a transaction'')"
    using lg(2) by (simp add: log_record_def LOGSIZE_def)
  ultimately show ?thesis using lg(1) by (auto simp: MAXOPBLOCKS_def)
qed

text \<open>The last running call ends: the log is empty afterwards and the disk has the current contents.\<close>

lemma end_op_commits:
  assumes inv: "log_inv lg bc" and n: "lh_n lg < int NBUF"
    and op: "lg_outstanding lg = 1" "\<not> lg_committing lg"
  shows "\<exists>bc'. end_op lg bc = Inr (lg\<lparr>lg_outstanding := 0, lh_n := 0, lg_committing := False\<rparr>, bc') \<and>
    log_inv (lg\<lparr>lg_outstanding := 0, lh_n := 0, lg_committing := False\<rparr>) bc' \<and>
    same_fs lg (bio_disk bc') (bio_view bc) \<and> bio_disksize bc' = bio_disksize bc"
proof -
  let ?lg = "lg\<lparr>lg_outstanding := 0, lg_committing := True\<rparr>"
  have enter: "end_op_enter lg = Inr (?lg, True)" using op by (simp add: end_op_enter_def Let_def)
  have inv1: "log_inv ?lg bc" using inv by (simp add: log_inv_def log_geom_def logged_def in_log_def)
  have "\<exists>bc'. commit ?lg bc = Inr (?lg\<lparr>lh_n := 0\<rparr>, bc') \<and> log_inv (?lg\<lparr>lh_n := 0\<rparr>) bc' \<and>
    same_fs ?lg (bio_disk bc') (bio_view bc) \<and> bio_disksize bc' = bio_disksize bc"
  proof (cases "0 < lh_n lg")
    case True
    with commit_log_inv [OF inv1] n obtain bc' d1 d0 where
      c: "commit ?lg bc = Inr (?lg\<lparr>lh_n := 0\<rparr>, bc')" "log_inv (?lg\<lparr>lh_n := 0\<rparr>) bc'" "head_of d1 ?lg"
        "head_n d0 = 0" "bio_disksize bc' = bio_disksize bc"
        "bio_disk bc' = apply_writes (commit_writes ?lg (bio_view bc) d1 d0) (bio_disk bc)"
      by auto
    let ?k = "length (commit_writes ?lg (bio_view bc) d1 d0)"
    have "nat (lh_n ?lg) < ?k" by (simp add: commit_writes_def log_writes_def)
    moreover have "bio_disk bc' (lg_start ?lg) = d0" using c(6) by (simp add: commit_writes_def)
    ultimately have "same_fs ?lg (bio_disk bc') (bio_view bc)"
      using crash_after_commit(2) [OF inv1 c(3,4), of ?k] c(4,6) by (simp add: redo_writes_def)
    then show ?thesis using c(1,2,5) by blast
  next
    case False
    then have z: "lh_n lg = 0" using inv by (simp add: log_inv_def log_geom_def)
    have "?lg\<lparr>lh_n := lh_n ?lg\<rparr> = ?lg" by (rule log.surjective [THEN trans]) simp
    then have "?lg\<lparr>lh_n := 0\<rparr> = ?lg" using z by simp
    moreover have "bio_view bc b = bio_disk bc b" for b
      using home_writes_view [OF inv1, of b] z by (simp add: home_writes_def logged_def)
    moreover have "commit ?lg bc = Inr (?lg, bc)" using False by (simp add: commit_def)
    ultimately show ?thesis using inv1 by (intro exI [of _ bc]) (simp only: same_fs_def simp_thms)
  qed
  then obtain bc' where c: "commit ?lg bc = Inr (?lg\<lparr>lh_n := 0\<rparr>, bc')" "log_inv (?lg\<lparr>lh_n := 0\<rparr>) bc'"
    "same_fs ?lg (bio_disk bc') (bio_view bc)" "bio_disksize bc' = bio_disksize bc" by blast
  let ?lg' = "?lg\<lparr>lh_n := 0, lg_committing := False\<rparr>"
  have "end_op lg bc = Inr (?lg', bc')" using enter c(1) by (simp add: end_op_def)
  moreover have "log_inv ?lg' bc'"
    using c(2) by (simp add: log_inv_def log_geom_def logged_def in_log_def)
  moreover have "same_fs lg (bio_disk bc') (bio_view bc)" using c(3) by (simp add: same_fs_def in_log_def)
  moreover have "?lg' = lg\<lparr>lg_outstanding := 0, lh_n := 0, lg_committing := False\<rparr>" by simp
  ultimately show ?thesis using c(4) by auto
qed

text \<open>
  C13. When the last running call ends, everything that was recorded is durable: \<^verbatim>\<open>end_op\<close>
  returns, every block of the file system on the disk has its current content, the log is
  empty, and new calls can begin.
\<close>

theorem end_op_durable:
  assumes inv: "log_inv lg bc" and n: "lh_n lg < int NBUF"
    and op: "lg_outstanding lg = 1" "\<not> lg_committing lg"
  shows "\<exists>lg' bc'. end_op lg bc = Inr (lg', bc') \<and> log_inv lg' bc' \<and> lh_n lg' = 0 \<and>
    (\<forall>b. \<not> in_log lg b \<longrightarrow> bio_disk bc' b = bio_view bc b) \<and> begin_op lg' \<noteq> None"
  using end_op_commits [OF assms] by (fastforce simp: same_fs_def begin_op_def LOGSIZE_def MAXOPBLOCKS_def)

theorem end_op_durable_witness:
  "\<exists>lg' bc'. end_op ex_log (ex_bio False) = Inr (lg', bc') \<and> lh_n lg' = 0 \<and>
     bio_disk bc' 50 = bio_view (ex_bio False) 50"
proof -
  have "lh_n ex_log < int NBUF" "lg_outstanding ex_log = 1" "\<not> lg_committing ex_log" "\<not> in_log ex_log 50"
    by (simp_all add: ex_log_def NBUF_def in_log_def)
  then show ?thesis using end_op_durable [OF ex_log_inv] by blast
qed

end
