(* ===== verification/Txn.thy ===== *)
theory Txn
  imports Log
begin

text \<open>
  The state of the file system of xv6 and the calculus in which its code is verified. A
  function of \<^verbatim>\<open>fs.c\<close> is a state transformer that may fail; \<open>wp m Q s\<close> says that \<open>m\<close> returns
  when run in \<open>s\<close> and that the result and the final state satisfy \<open>Q\<close> (total correctness).
  The rules for reading, changing and releasing a block inside a transaction rest on the
  laws of the buffer cache and of the log: they describe the current content of the blocks
  (\<open>view\<close>) and account for the buffers and the log space that are left.
\<close>

section \<open>State\<close>

record inode =
  i_dev :: nat
  i_inum :: nat
  i_ref :: int
  i_locked :: bool
  i_valid :: bool
  i_type :: "16 word"
  i_major :: "16 word"
  i_minor :: "16 word"
  i_nlink :: "16 word"
  i_size :: "32 word"
  i_addrs :: "32 word list"

record fs =
  fs_log :: log
  fs_bio :: bio
  fs_sb :: superblock
  fs_icache :: "inode list"

type_synonym 'a fsm = "fs \<Rightarrow> (fs \<times> 'a) res"

definition bindS :: "'a fsm \<Rightarrow> ('a \<Rightarrow> 'b fsm) \<Rightarrow> 'b fsm" where
  "bindS m f s = bind_res (m s) (\<lambda>(s', a). f a s')"

definition retS :: "'a \<Rightarrow> 'a fsm" where
  "retS a s = Inr (s, a)"

definition panicS :: "string \<Rightarrow> 'a fsm" where
  "panicS msg s = Inl (Panic msg)"

definition getS :: "(fs \<Rightarrow> 'a) \<Rightarrow> 'a fsm" where
  "getS f s = Inr (s, f s)"

definition liftS :: "'a res \<Rightarrow> 'a fsm" where
  "liftS r s = bind_res r (\<lambda>a. Inr (s, a))"

lemma bindS_cong [fundef_cong]:
  "m s = m' s' \<Longrightarrow> s = s' \<Longrightarrow> (\<And>a t. m' s' = Inr (t, a) \<Longrightarrow> f a t = g a t) \<Longrightarrow> bindS m f s = bindS m' g s'"
  by (auto simp: bindS_def intro!: bind_res_cong)

text \<open>The operations on buffers, on this state.\<close>

definition fs_bread :: "nat \<Rightarrow> nat \<Rightarrow> nat fsm" where
  "fs_bread dev b s = bind_res (bread (fs_bio s) dev b) (\<lambda>(bc, x). Inr (s\<lparr>fs_bio := bc\<rparr>, x))"

definition fs_brelse :: "nat \<Rightarrow> unit fsm" where
  "fs_brelse x s = bind_res (brelse (fs_bio s) x) (\<lambda>bc. Inr (s\<lparr>fs_bio := bc\<rparr>, ()))"

definition fs_log_write :: "nat \<Rightarrow> unit fsm" where
  "fs_log_write x s =
     bind_res (log_write (fs_log s) (fs_bio s) x) (\<lambda>(lg, bc). Inr (s\<lparr>fs_log := lg, fs_bio := bc\<rparr>, ()))"

definition fs_data :: "nat \<Rightarrow> mem fsm" where
  "fs_data x = getS (\<lambda>s. buf_data (fs_bio s) x)"

definition fs_set_data :: "nat \<Rightarrow> mem \<Rightarrow> unit fsm" where
  "fs_set_data x d s = Inr (s\<lparr>fs_bio := set_buf_data (fs_bio s) x d\<rparr>, ())"

section \<open>Weakest preconditions\<close>

definition wp :: "'a fsm \<Rightarrow> ('a \<Rightarrow> fs \<Rightarrow> bool) \<Rightarrow> fs \<Rightarrow> bool" where
  "wp m Q s \<longleftrightarrow> (case m s of Inl e \<Rightarrow> False | Inr (s', a) \<Rightarrow> Q a s')"

lemma wp_bind [simp]: "wp (bindS m f) Q = wp m (\<lambda>a. wp (f a) Q)"
  by (auto simp: fun_eq_iff wp_def bindS_def split: sum.splits)

lemma wp_ret [simp]: "wp (retS a) Q = Q a"
  by (simp add: fun_eq_iff wp_def retS_def)

lemma wp_get [simp]: "wp (getS f) Q = (\<lambda>s. Q (f s) s)"
  by (simp add: fun_eq_iff wp_def getS_def)

lemma wp_lift [simp]: "wp (liftS r) Q s \<longleftrightarrow> (\<exists>a. r = Inr a \<and> Q a s)"
  by (cases r) (auto simp: wp_def liftS_def)

lemma wp_panic [simp]: "\<not> wp (panicS msg) Q s"
  by (simp add: wp_def panicS_def)

lemma wp_if: "wp (if b then m else m') Q s \<longleftrightarrow> (if b then wp m Q s else wp m' Q s)"
  by simp

lemma wp_mono: "wp m Q s \<Longrightarrow> (\<And>a s'. Q a s' \<Longrightarrow> R a s') \<Longrightarrow> wp m R s"
  by (auto simp: wp_def split: sum.splits)

lemma wp_cong: "m s = m' s \<Longrightarrow> wp m Q s \<longleftrightarrow> wp m' Q s"
  by (simp add: wp_def)

lemma wp_result: "wp m Q s \<longleftrightarrow> (\<exists>s' a. m s = Inr (s', a) \<and> Q a s')"
  by (auto simp: wp_def split: sum.splits)

section \<open>Transactions\<close>

abbreviation view :: "fs \<Rightarrow> nat \<Rightarrow> mem" where
  "view s \<equiv> bio_view (fs_bio s)"

abbreviation held :: "fs \<Rightarrow> nat \<rightharpoonup> nat" where
  "held s \<equiv> bio_held (fs_bio s)"

abbreviation disk_size :: "fs \<Rightarrow> nat" where
  "disk_size s \<equiv> bio_disksize (fs_bio s)"

text \<open>
  The log is consistent, at least \<open>q\<close> calls are outstanding, and every held block is either in
  the log or unchanged. A running transaction (\<open>tx\<close>) has \<open>q = 1\<close>; the calls that only read
  need no transaction and run with \<open>q = 0\<close>.
\<close>

definition txo :: "int \<Rightarrow> fs \<Rightarrow> bool" where
  "txo q s \<longleftrightarrow>
     log_tx (fs_log s) (fs_bio s) \<and> q \<le> lg_outstanding (fs_log s) \<and>
     (\<forall>b\<in>ran (held s). b \<in> bio_pinned (fs_bio s) \<or> view s b = bio_disk (fs_bio s) b)"

abbreviation tx :: "fs \<Rightarrow> bool" where
  "tx \<equiv> txo 1"

text \<open>There is log space for \<open>k\<close> more blocks, and buffers for these and for \<open>h\<close> more in use.\<close>

definition space :: "fs \<Rightarrow> nat \<Rightarrow> nat \<Rightarrow> bool" where
  "space s k h \<longleftrightarrow>
     lh_n (fs_log s) + int k \<le> int LOGSIZE \<and> lh_n (fs_log s) + int k < lg_size (fs_log s) \<and>
     nat (lh_n (fs_log s)) + k + card (dom (held s)) + h \<le> NBUF"

text \<open>What a step inside a transaction does not touch.\<close>

definition frame :: "fs \<Rightarrow> fs \<Rightarrow> bool" where
  "frame s s' \<longleftrightarrow>
     fs_sb s' = fs_sb s \<and> fs_icache s' = fs_icache s \<and> disk_size s' = disk_size s \<and>
     bio_disk (fs_bio s') = bio_disk (fs_bio s) \<and> bio_writes (fs_bio s') = bio_writes (fs_bio s) \<and>
     lg_start (fs_log s') = lg_start (fs_log s) \<and> lg_size (fs_log s') = lg_size (fs_log s) \<and>
     lg_outstanding (fs_log s') = lg_outstanding (fs_log s) \<and>
     lg_committing (fs_log s') = lg_committing (fs_log s)"

lemma frame_refl [simp]: "frame s s"
  by (simp add: frame_def)

lemma frame_trans: "frame s t \<Longrightarrow> frame t u \<Longrightarrow> frame s u"
  by (simp add: frame_def)

lemma frame_in_log: "frame s s' \<Longrightarrow> in_log (fs_log s') b = in_log (fs_log s) b"
  by (simp add: frame_def in_log_def)

lemma space_mono: "space s k h \<Longrightarrow> k' \<le> k \<Longrightarrow> h' \<le> h \<Longrightarrow> space s k' h'"
  by (auto simp: space_def)

lemma finite_held: "bio_ok bc \<Longrightarrow> finite (dom (bio_held bc))"
  by (rule finite_subset [of _ "{..<length (bc_buf bc)}"]) (auto simp: bio_held_def split: if_splits)

lemma tx_busy:
  assumes "txo q s"
  shows "card (bio_pinned (fs_bio s) \<union> ran (held s)) \<le> nat (lh_n (fs_log s)) + card (dom (held s))"
proof -
  have g: "log_geom (fs_log s) (disk_size s)" and ok: "bio_ok (fs_bio s)"
    and pin: "bio_pinned (fs_bio s) = set (logged (fs_log s))" and d: "distinct (logged (fs_log s))"
    using assms by (simp_all add: txo_def log_tx_def)
  have "card (ran (held s)) \<le> card (dom (held s))"
  proof -
    have "ran (held s) \<subseteq> (\<lambda>x. the (held s x)) ` dom (held s)" by (force simp: ran_def)
    then show ?thesis using finite_held [OF ok] by (rule surj_card_le [rotated])
  qed
  moreover have "card (bio_pinned (fs_bio s)) = nat (lh_n (fs_log s))"
    using pin d length_logged [OF g] by (simp add: distinct_card)
  ultimately show ?thesis using card_Un_le [of "bio_pinned (fs_bio s)" "ran (held s)"] by linarith
qed

lemma wp_bread:
  assumes t: "txo q s" and b: "b < disk_size s" "b \<notin> ran (held s)" and r: "space s k (Suc h)"
    and Q: "\<And>s' x. txo q s' \<Longrightarrow> frame s s' \<Longrightarrow> view s' = view s \<Longrightarrow> held s x = None \<Longrightarrow>
      held s' = (held s)(x \<mapsto> b) \<Longrightarrow> space s' k h \<Longrightarrow> Q x s'"
  shows "wp (fs_bread 1 b) Q s"
proof -
  have ok: "bio_ok (fs_bio s)" using t by (simp add: txo_def log_tx_def)
  have "card (bio_pinned (fs_bio s) \<union> ran (held s)) < NBUF"
    using tx_busy [OF t] r by (simp add: space_def)
  from bread_ok [OF ok b disjI2 [OF this]] obtain bc x where
    bc: "bread (fs_bio s) 1 b = Inr (bc, x)" "bio_ok bc" "held s x = None"
      "bio_held bc = (held s)(x \<mapsto> b)" "bio_view bc = view s" "bio_disk bc = bio_disk (fs_bio s)"
      "bio_pinned bc = bio_pinned (fs_bio s)" "bio_writes bc = bio_writes (fs_bio s)"
      "bio_disksize bc = disk_size s" by blast
  let ?s = "s\<lparr>fs_bio := bc\<rparr>"
  have "b \<in> bio_pinned (fs_bio s) \<or> view s b = bio_disk (fs_bio s) b"
    using bio_coherent [OF ok _ b(2)] by blast
  then have "txo q ?s" using t bc by (auto simp: txo_def log_tx_def)
  moreover have "card (dom (bio_held bc)) = Suc (card (dom (held s)))"
    using bc(3,4) finite_held [OF ok] by (simp add: domIff)
  then have "space ?s k h" using r by (simp add: space_def)
  ultimately show ?thesis using Q [of ?s x] bc by (simp add: wp_def fs_bread_def frame_def)
qed

lemma wp_brelse:
  assumes t: "txo q s" and h: "held s x = Some b" and r: "space s k n"
    and Q: "\<And>s'. txo q s' \<Longrightarrow> frame s s' \<Longrightarrow> view s' = view s \<Longrightarrow> held s' = (held s)(x := None) \<Longrightarrow>
      space s' k (Suc n) \<Longrightarrow> Q () s'"
  shows "wp (fs_brelse x) Q s"
proof -
  have ok: "bio_ok (fs_bio s)" using t by (simp add: txo_def log_tx_def)
  have "b \<in> bio_pinned (fs_bio s) \<or> view s b = bio_disk (fs_bio s) b"
    using t ranI [of "held s" x b] h by (auto simp: txo_def)
  from brelse_ok [OF ok h this] obtain bc where
    bc: "brelse (fs_bio s) x = Inr bc" "bio_ok bc" "bio_view bc = view s"
      "bio_disk bc = bio_disk (fs_bio s)" "bio_held bc = (held s)(x := None)"
      "bio_pinned bc = bio_pinned (fs_bio s)" "bio_writes bc = bio_writes (fs_bio s)"
      "bio_disksize bc = disk_size s" by blast
  let ?s = "s\<lparr>fs_bio := bc\<rparr>"
  have "ran ((held s)(x := None)) \<subseteq> ran (held s)" by (auto simp: ran_def)
  then have "txo q ?s" using t bc by (auto simp: txo_def log_tx_def)
  moreover have "card (dom (held s)) = Suc (card (dom (bio_held bc)))"
    unfolding bc(5) dom_fun_upd using card.remove [OF finite_held [OF ok], of x] h
    by (simp add: domI del: card_Diff_insert card_Diff_singleton)
  then have "space ?s k (Suc n)" using r by (simp add: space_def)
  ultimately show ?thesis using Q [of ?s] bc by (simp add: wp_def fs_brelse_def frame_def)
qed

lemma wp_data:
  "txo q s \<Longrightarrow> held s x = Some b \<Longrightarrow> Q (view s b) s \<Longrightarrow> wp (fs_data x) Q s"
  using bio.get_law [of "fs_bio s" x b] by (simp add: fs_data_def txo_def log_tx_def)

text \<open>Changing a held block and recording it in the log.\<close>

lemma wp_put:
  assumes t: "tx s" and h: "held s x = Some b" and b: "\<not> in_log (fs_log s) b" and r: "space s (Suc k) n"
    and Q: "\<And>s'. tx s' \<Longrightarrow> frame s s' \<Longrightarrow> view s' = (view s)(b := d) \<Longrightarrow> held s' = held s \<Longrightarrow>
      space s' k n \<Longrightarrow> Q () s'"
  shows "wp (fs_set_data x d) (\<lambda>_. wp (fs_log_write x) Q) s"
proof -
  let ?bc = "set_buf_data (fs_bio s) x d"
  have ok: "bio_ok (fs_bio s)" and lt: "log_tx (fs_log s) (fs_bio s)" using t by (simp_all add: txo_def log_tx_def)
  note sd = set_buf_data_ok [OF ok h, of d]
  have e: "bio_disk ?bc = bio_disk (fs_bio s)" "bio_writes ?bc = bio_writes (fs_bio s)"
    "bio_disksize ?bc = disk_size s" by (simp_all add: set_buf_data_def)
  have "log_tx (fs_log s) ?bc" using lt sd e by (simp add: log_tx_def)
  moreover have "bio_held ?bc x = Some b" using sd h by simp
  moreover have "lh_n (fs_log s) < int LOGSIZE" "lh_n (fs_log s) < lg_size (fs_log s) - 1"
    "1 \<le> lg_outstanding (fs_log s)" using r t by (auto simp: space_def txo_def)
  ultimately obtain lg' bc' where
    w: "log_write (fs_log s) ?bc x = Inr (lg', bc')" "log_tx lg' bc'"
      "bio_pinned bc' = insert b (bio_pinned ?bc)" "bio_view bc' = bio_view ?bc"
      "bio_disk bc' = bio_disk ?bc" "bio_writes bc' = bio_writes ?bc" "bio_held bc' = bio_held ?bc"
      "lg_start lg' = lg_start (fs_log s)" "lg_size lg' = lg_size (fs_log s)"
      "lg_outstanding lg' = lg_outstanding (fs_log s)" "lh_n lg' \<le> lh_n (fs_log s) + 1"
      "bio_disksize bc' = bio_disksize ?bc"
    using log_write_step [of "fs_log s" ?bc x b] b by blast
  let ?s = "s\<lparr>fs_log := lg', fs_bio := bc'\<rparr>"
  have "tx ?s" using t w sd e by (auto simp: txo_def)
  moreover have "space ?s k n" using r w sd by (auto simp: space_def)
  moreover have "lg_committing lg' = lg_committing (fs_log s)"
    using w(1) by (auto simp: log_write_def bind_res_eq_Inr dest: log_record_frame(2))
  then have "frame s ?s" using w e by (simp add: frame_def)
  ultimately show ?thesis
    using Q [of ?s] w sd by (simp add: wp_def fs_set_data_def fs_log_write_def)
qed

end
