(* ===== verification/Blocks.thy ===== *)
theory Blocks
  imports Txn
begin

text \<open>
  The block allocator of xv6, the first part of \<^verbatim>\<open>hw09/starter-hw09/xv6/fs.c\<close>: \<^verbatim>\<open>bzero\<close>, \<^verbatim>\<open>balloc\<close>
  and \<^verbatim>\<open>bfree\<close>, on the free bitmap that follows the inodes. The specification is the set of
  blocks in use; allocation is first fit.
\<close>

section \<open>Operations\<close>

definition BSIZE :: nat where
  "BSIZE = 512"

definition BPB :: nat where
  "BPB = BSIZE * 8"

definition BBLOCK :: "nat \<Rightarrow> superblock \<Rightarrow> nat" where
  "BBLOCK b sb = b div BPB + sb_bmapstart sb"

text \<open>\<^verbatim>\<open>memset(bp->data, 0, BSIZE)\<close> on the whole block.\<close>

definition bzero :: "nat \<Rightarrow> nat \<Rightarrow> unit fsm" where
  "bzero dev bno =
     bindS (fs_bread dev bno) (\<lambda>bp.
     bindS (fs_set_data bp (\<lambda>_. 0)) (\<lambda>_.
     bindS (fs_log_write bp) (\<lambda>_. fs_brelse bp)))"

text \<open>
  The inner loop of \<^verbatim>\<open>balloc\<close>: the first free bit of the bitmap block \<open>d\<close> from \<open>bi\<close> on, for the
  blocks from \<open>b\<close> on.
\<close>

function balloc_scan :: "nat \<Rightarrow> mem \<Rightarrow> nat \<Rightarrow> nat \<Rightarrow> nat option" where
  "balloc_scan sz d b bi =
     (if bi < BPB \<and> b + bi < sz then
        if d (bi div 8) AND push_bit (bi mod 8) 1 = 0 then Some bi
        else balloc_scan sz d b (bi + 1)
      else None)"
  by pat_completeness auto
termination by (relation "measure (\<lambda>(sz, d, b, bi). BPB - bi)") auto

declare balloc_scan.simps [simp del]

function balloc_loop :: "nat \<Rightarrow> superblock \<Rightarrow> nat \<Rightarrow> nat fsm" where
  "balloc_loop dev sb b s =
     (if b < sb_size sb then
        bindS (fs_bread dev (BBLOCK b sb)) (\<lambda>bp.
        bindS (fs_data bp) (\<lambda>d.
          case balloc_scan (sb_size sb) d b 0 of
            Some bi \<Rightarrow>
              bindS (fs_set_data bp (d(bi div 8 := d (bi div 8) OR push_bit (bi mod 8) 1))) (\<lambda>_.
              bindS (fs_log_write bp) (\<lambda>_.
              bindS (fs_brelse bp) (\<lambda>_.
              bindS (bzero dev (b + bi)) (\<lambda>_. retS (b + bi)))))
          | None \<Rightarrow> bindS (fs_brelse bp) (\<lambda>_. balloc_loop dev sb (b + BPB)))) s
      else panicS ''balloc: out of blocks'' s)"
  by pat_completeness auto
termination
  by (relation "measure (\<lambda>(dev, sb, b, s). sb_size sb - b)") (auto simp: BPB_def BSIZE_def)

declare balloc_loop.simps [simp del]

definition balloc :: "nat \<Rightarrow> nat fsm" where
  "balloc dev = bindS (getS fs_sb) (\<lambda>sb. balloc_loop dev sb 0)"

definition bfree :: "nat \<Rightarrow> nat \<Rightarrow> unit fsm" where
  "bfree dev b =
     bindS (getS fs_sb) (\<lambda>sb.
     bindS (fs_bread dev (BBLOCK b sb)) (\<lambda>bp.
     bindS (fs_data bp) (\<lambda>d.
     let bi = b mod BPB in
     if d (bi div 8) AND push_bit (bi mod 8) 1 = 0 then panicS ''freeing free block''
     else bindS (fs_set_data bp (d(bi div 8 := d (bi div 8) AND NOT (push_bit (bi mod 8) 1)))) (\<lambda>_.
          bindS (fs_log_write bp) (\<lambda>_. fs_brelse bp)))))"

section \<open>Specification\<close>

text \<open>The blocks in use, according to the bitmap; and the layout that \<^verbatim>\<open>balloc\<close> relies on.\<close>

definition in_use :: "fs \<Rightarrow> nat \<Rightarrow> bool" where
  "in_use s b \<longleftrightarrow> mem_bit (view s (BBLOCK b (fs_sb s))) (b mod BPB)"

definition bitmap_block :: "fs \<Rightarrow> nat \<Rightarrow> bool" where
  "bitmap_block s x \<longleftrightarrow> (\<exists>b. b < sb_size (fs_sb s) \<and> x = BBLOCK b (fs_sb s))"

text \<open>
  The superblock describes the disk: all blocks are on it, and the bitmap lies neither in the
  log nor beyond the disk.
\<close>

definition fs_layout :: "fs \<Rightarrow> bool" where
  "fs_layout s \<longleftrightarrow>
     sb_size (fs_sb s) \<le> disk_size s \<and>
     (\<forall>x. bitmap_block s x \<longrightarrow> x < disk_size s \<and> \<not> in_log (fs_log s) x)"

lemma frame_layout: "frame s s' \<Longrightarrow> fs_layout s \<Longrightarrow> fs_layout s'"
  using frame_in_log [of s s'] by (simp add: fs_layout_def frame_def bitmap_block_def)

lemma balloc_scan_spec:
  "case balloc_scan sz d b bi of
     Some r \<Rightarrow> bi \<le> r \<and> r < BPB \<and> b + r < sz \<and> \<not> mem_bit d r \<and> (\<forall>j. bi \<le> j \<longrightarrow> j < r \<longrightarrow> mem_bit d j)
   | None \<Rightarrow> \<forall>j. bi \<le> j \<longrightarrow> j < BPB \<longrightarrow> b + j < sz \<longrightarrow> mem_bit d j"
proof (induction sz d b bi rule: balloc_scan.induct)
  case (1 sz d b bi)
  show ?case
  proof (cases "bi < BPB \<and> b + bi < sz \<and> mem_bit d bi")
    case True
    then have step: "balloc_scan sz d b bi = balloc_scan sz d b (bi + 1)"
      by (subst balloc_scan.simps) (simp add: mem_bit_test del: push_bit_of_1)
    have ge: "j = bi \<or> bi + 1 \<le> j" if "bi \<le> j" for j using that by auto
    have "\<not> d (bi div 8) AND push_bit (bi mod 8) 1 = 0" using True by (simp add: mem_bit_test del: push_bit_of_1)
    with 1 True have IH: "case balloc_scan sz d b (bi + 1) of
        Some r \<Rightarrow> bi + 1 \<le> r \<and> r < BPB \<and> b + r < sz \<and> \<not> mem_bit d r \<and>
          (\<forall>j. bi + 1 \<le> j \<longrightarrow> j < r \<longrightarrow> mem_bit d j)
      | None \<Rightarrow> \<forall>j. bi + 1 \<le> j \<longrightarrow> j < BPB \<longrightarrow> b + j < sz \<longrightarrow> mem_bit d j" by blast
    show ?thesis
    proof (cases "balloc_scan sz d b (bi + 1)")
      case None
      then show ?thesis using IH True ge unfolding step by auto
    next
      case (Some r)
      then have "bi + 1 \<le> r \<and> r < BPB \<and> b + r < sz \<and> \<not> mem_bit d r"
        "\<forall>j. bi + 1 \<le> j \<longrightarrow> j < r \<longrightarrow> mem_bit d j" using IH by auto
      then show ?thesis using True ge Some unfolding step by auto
    qed
  next
    case False
    then show ?thesis
      by (subst balloc_scan.simps) (auto simp: mem_bit_test simp del: push_bit_of_1)
  qed
qed

lemma BBLOCK_split:
  "b mod BPB = 0 \<Longrightarrow> bi < BPB \<Longrightarrow> BBLOCK (b + bi) sb = BBLOCK b sb \<and> (b + bi) mod BPB = bi"
  by (auto simp: BBLOCK_def BPB_def BSIZE_def)

lemma BBLOCK_inj: "BBLOCK a sb = BBLOCK b sb \<Longrightarrow> a mod BPB = b mod BPB \<Longrightarrow> a = b"
  by (auto simp: BBLOCK_def) (metis div_mult_mod_eq)

section \<open>Zeroing, allocating and freeing\<close>

text \<open>Changing one block: the idiom of all the functions here.\<close>

lemma wp_update:
  assumes t: "tx s" and b: "b < disk_size s" "b \<notin> ran (held s)" "\<not> in_log (fs_log s) b"
    and r: "space s (Suc k) (Suc h)"
    and Q: "\<And>s'. tx s' \<Longrightarrow> frame s s' \<Longrightarrow> view s' = (view s)(b := d) \<Longrightarrow> held s' = held s \<Longrightarrow>
      space s' k (Suc h) \<Longrightarrow> Q () s'"
  shows "wp (fs_bread 1 b)
    (\<lambda>x. wp (fs_set_data x d) (\<lambda>_. wp (fs_log_write x) (\<lambda>_. wp (fs_brelse x) Q))) s"
proof (rule wp_bread [OF t b(1,2) r])
  fix s1 x
  assume s1: "tx s1" "frame s s1" "view s1 = view s" "held s x = None" "held s1 = (held s)(x \<mapsto> b)"
    "space s1 (Suc k) h"
  show "wp (fs_set_data x d) (\<lambda>_. wp (fs_log_write x) (\<lambda>_. wp (fs_brelse x) Q)) s1"
  proof (rule wp_put [OF s1(1) _ _ s1(6)])
    show "held s1 x = Some b" "\<not> in_log (fs_log s1) b"
      using s1 b(3) frame_in_log [OF s1(2)] by simp_all
    fix s2
    assume s2: "tx s2" "frame s1 s2" "view s2 = (view s1)(b := d)" "held s2 = held s1" "space s2 k h"
    show "wp (fs_brelse x) Q s2"
    proof (rule wp_brelse [OF s2(1) _ s2(5)])
      show "held s2 x = Some b" using s2 s1 by simp
      fix s3
      assume s3: "tx s3" "frame s2 s3" "view s3 = view s2" "held s3 = (held s2)(x := None)"
        "space s3 k (Suc h)"
      have "held s3 = held s" using s3(4) s2(4) s1(4,5) by (auto simp: fun_eq_iff)
      then show "Q () s3"
        using Q [OF s3(1) _ _ _ s3(5)] frame_trans [OF s1(2) frame_trans [OF s2(2) s3(2)]] s1(3) s2(3) s3(3)
        by simp
    qed
  qed
qed

lemma wp_bzero:
  assumes "tx s" and "b < disk_size s" "b \<notin> ran (held s)" "\<not> in_log (fs_log s) b"
    and "space s (Suc k) (Suc h)"
    and "\<And>s'. tx s' \<Longrightarrow> frame s s' \<Longrightarrow> view s' = (view s)(b := \<lambda>_. 0) \<Longrightarrow> held s' = held s \<Longrightarrow>
      space s' k (Suc h) \<Longrightarrow> Q () s'"
  shows "wp (bzero 1 b) Q s"
  unfolding bzero_def wp_bind using wp_update [OF assms(1-5)] assms(6) by simp

text \<open>The metadata blocks are marked as in use, so they are never allocated.\<close>

definition meta_used :: "fs \<Rightarrow> bool" where
  "meta_used s \<longleftrightarrow>
     (\<forall>x < sb_size (fs_sb s). bitmap_block s x \<or> in_log (fs_log s) x \<longrightarrow> in_use s x)"

definition least_free :: "fs \<Rightarrow> nat \<Rightarrow> bool" where
  "least_free s b \<longleftrightarrow> b < sb_size (fs_sb s) \<and> \<not> in_use s b \<and> (\<forall>j<b. in_use s j)"

definition allocated :: "fs \<Rightarrow> nat \<Rightarrow> fs \<Rightarrow> bool" where
  "allocated s b s' \<longleftrightarrow>
     frame s s' \<and> held s' = held s \<and>
     (\<forall>x < sb_size (fs_sb s). in_use s' x \<longleftrightarrow> in_use s x \<or> x = b) \<and>
     view s' b = (\<lambda>_. 0) \<and> (\<forall>x. \<not> bitmap_block s x \<longrightarrow> x \<noteq> b \<longrightarrow> view s' x = view s x)"

lemma in_use_cong: "frame s s' \<Longrightarrow> view s' = view s \<Longrightarrow> in_use s' b = in_use s b"
  by (simp add: in_use_def frame_def)

lemma wp_balloc_loop:
  assumes "tx s" and "fs_layout s" and "\<And>x. bitmap_block s x \<Longrightarrow> x \<notin> ran (held s)"
    and "least_free s b" and "b \<notin> ran (held s)" and "\<not> in_log (fs_log s) b" and "\<not> bitmap_block s b"
    and "space s (Suc (Suc k)) (Suc h)" and "b0 \<le> b" and "b0 mod BPB = 0"
    and "\<And>s'. tx s' \<Longrightarrow> allocated s b s' \<Longrightarrow> space s' k (Suc h) \<Longrightarrow> Q b s'"
  shows "wp (balloc_loop 1 (fs_sb s) b0) Q s"
  using assms
proof (induction "sb_size (fs_sb s) - b0" arbitrary: b0 s rule: less_induct)
  case less
  note t = less.prems(1) and lay = less.prems(2) and nh = less.prems(3) and lf = less.prems(4)
    and r = less.prems(8)
  let ?sb = "fs_sb s" and ?bb = "BBLOCK b0 (fs_sb s)"
  have b0: "b0 < sb_size ?sb" using lf less.prems(9) by (simp add: least_free_def)
  then have bm: "bitmap_block s ?bb" by (auto simp: bitmap_block_def)
  then have bb: "?bb < disk_size s" "\<not> in_log (fs_log s) ?bb" "?bb \<notin> ran (held s)"
    using lay nh by (auto simp: fs_layout_def)
  have use: "in_use s (b0 + bi) \<longleftrightarrow> mem_bit (view s ?bb) bi" if "bi < BPB" for bi
    using BBLOCK_split [OF less.prems(10) that, of ?sb] by (simp add: in_use_def)
  note scan = balloc_scan_spec [where sz = "sb_size ?sb" and d = "view s ?bb" and b = b0 and bi = 0]
  have unf: "wp (balloc_loop 1 ?sb b0) Q s \<longleftrightarrow> wp (fs_bread 1 ?bb) (\<lambda>bp. wp (fs_data bp) (\<lambda>d.
      wp (case balloc_scan (sb_size ?sb) d b0 0 of
            Some bi \<Rightarrow>
              bindS (fs_set_data bp (d(bi div 8 := d (bi div 8) OR push_bit (bi mod 8) 1))) (\<lambda>_.
              bindS (fs_log_write bp) (\<lambda>_.
              bindS (fs_brelse bp) (\<lambda>_.
              bindS (bzero 1 (b0 + bi)) (\<lambda>_. retS (b0 + bi)))))
          | None \<Rightarrow> bindS (fs_brelse bp) (\<lambda>_. balloc_loop 1 ?sb (b0 + BPB))) Q)) s"
    unfolding wp_bind [symmetric]
    by (rule wp_cong) (subst balloc_loop.simps, simp only: b0 if_True)
  show ?case
    unfolding unf
  proof (rule wp_bread [OF t bb(1,3) r], rule wp_data)
    fix s1 x
    assume s1: "tx s1" "frame s s1" "view s1 = view s" "held s x = None" "held s1 = (held s)(x \<mapsto> ?bb)"
      "space s1 (Suc (Suc k)) h"
    show "tx s1" "held s1 x = Some ?bb" using s1 by simp_all
    let ?d = "view s1 ?bb"
    show "wp (case balloc_scan (sb_size ?sb) ?d b0 0 of
            Some bi \<Rightarrow>
              bindS (fs_set_data x (?d(bi div 8 := ?d (bi div 8) OR push_bit (bi mod 8) 1))) (\<lambda>_.
              bindS (fs_log_write x) (\<lambda>_.
              bindS (fs_brelse x) (\<lambda>_.
              bindS (bzero 1 (b0 + bi)) (\<lambda>_. retS (b0 + bi)))))
          | None \<Rightarrow> bindS (fs_brelse x) (\<lambda>_. balloc_loop 1 ?sb (b0 + BPB))) Q s1"
    proof (cases "balloc_scan (sb_size ?sb) ?d b0 0")
      case None
      then have all: "\<forall>j<BPB. b0 + j < sb_size ?sb \<longrightarrow> in_use s (b0 + j)" using scan s1(3) use by simp
      have next_b: "b0 + BPB \<le> b"
      proof (rule ccontr)
        assume "\<not> b0 + BPB \<le> b"
        then have "b - b0 < BPB" "b0 + (b - b0) = b" using less.prems(9) by auto
        then show False using all lf by (metis least_free_def)
      qed
      have "wp (fs_brelse x) (\<lambda>_. wp (balloc_loop 1 ?sb (b0 + BPB)) Q) s1"
      proof (rule wp_brelse [OF s1(1) _ s1(6)])
        show "held s1 x = Some ?bb" using s1 by simp
        fix s2
        assume s2: "tx s2" "frame s1 s2" "view s2 = view s1" "held s2 = (held s1)(x := None)"
          "space s2 (Suc (Suc k)) (Suc h)"
        have f: "frame s s2" by (rule frame_trans [OF s1(2) s2(2)])
        have v: "view s2 = view s" "held s2 = held s" using s1(3-5) s2(3,4) by (auto simp: fun_eq_iff)
        have sb: "fs_sb s2 = fs_sb s" using f by (simp add: frame_def)
        have bm2: "bitmap_block s2 = bitmap_block s" by (simp add: fun_eq_iff bitmap_block_def sb)
        have al: "allocated s2 b u \<longleftrightarrow> allocated s b u" for u
          using f v bm2 sb in_use_cong [OF f v(1)] by (simp add: allocated_def frame_def)
        have "wp (balloc_loop 1 (fs_sb s2) (b0 + BPB)) Q s2"
          using less.prems(3-7) less.prems(11) next_b less.prems(10) b0 v bm2 al sb in_use_cong [OF f v(1)]
            frame_in_log [OF f] frame_layout [OF f lay] s2(1,5)
          by (intro less.hyps) (auto simp: least_free_def BPB_def BSIZE_def)
        then show "wp (balloc_loop 1 ?sb (b0 + BPB)) Q s2" by (simp add: sb)
      qed
      then show ?thesis by (simp add: None)
    next
      case (Some bi)
      then have bi: "bi < BPB" "b0 + bi < sb_size ?sb" "\<not> mem_bit (view s ?bb) bi"
        "\<forall>j<bi. mem_bit (view s ?bb) j" using scan s1(3) by auto
      have "\<not> in_use s (b0 + bi)" using use bi by simp
      moreover have "in_use s (b0 + j)" if "j < bi" for j using use bi that by simp
      ultimately have eq: "b0 + bi = b"
        using lf bi(2) less.prems(9) unfolding least_free_def
        by (metis le_add_diff_inverse linorder_neqE_nat nat_add_left_cancel_less)
      let ?d' = "?d(bi div 8 := ?d (bi div 8) OR push_bit (bi mod 8) 1)"
      have "wp (fs_set_data x ?d') (\<lambda>_. wp (fs_log_write x) (\<lambda>_. wp (fs_brelse x) (\<lambda>_.
          wp (bzero 1 b) (\<lambda>_. Q b)))) s1"
      proof (rule wp_put [OF s1(1) _ _ s1(6)])
        show "held s1 x = Some ?bb" "\<not> in_log (fs_log s1) ?bb" using s1 bb(2) frame_in_log by simp_all
        fix s2
        assume s2: "tx s2" "frame s1 s2" "view s2 = (view s1)(?bb := ?d')" "held s2 = held s1"
          "space s2 (Suc k) h"
        show "wp (fs_brelse x) (\<lambda>_. wp (bzero 1 b) (\<lambda>_. Q b)) s2"
        proof (rule wp_brelse [OF s2(1) _ s2(5)])
          show "held s2 x = Some ?bb" using s1 s2 by simp
          fix s3
          assume s3: "tx s3" "frame s2 s3" "view s3 = view s2" "held s3 = (held s2)(x := None)"
            "space s3 (Suc k) (Suc h)"
          have f3: "frame s s3" by (rule frame_trans [OF s1(2) frame_trans [OF s2(2) s3(2)]])
          have h3: "held s3 = held s" using s1(4,5) s2(4) s3(4) by (auto simp: fun_eq_iff)
          have size: "b < disk_size s3" using f3 lf lay by (simp add: frame_def least_free_def fs_layout_def)
          show "wp (bzero 1 b) (\<lambda>_. Q b) s3"
          proof (rule wp_bzero [OF s3(1) size _ _ s3(5)])
            show "b \<notin> ran (held s3)" "\<not> in_log (fs_log s3) b"
              using h3 frame_in_log [OF f3] less.prems(5,6) by simp_all
            fix s4
            assume s4: "tx s4" "frame s3 s4" "view s4 = (view s3)(b := \<lambda>_. 0)" "held s4 = held s3"
              "space s4 k (Suc h)"
            have f4: "frame s s4" by (rule frame_trans [OF f3 s4(2)])
            have v4: "view s4 = (view s)(?bb := ?d', b := \<lambda>_. 0)" using s4(3) s3(3) s2(3) s1(3) by simp
            have "in_use s4 y \<longleftrightarrow> in_use s y \<or> y = b" if y: "y < sb_size ?sb" for y
            proof -
              have "BBLOCK y ?sb \<noteq> b" using less.prems(7) y by (auto simp: bitmap_block_def)
              moreover have "BBLOCK b ?sb = ?bb \<and> b mod BPB = bi"
                using BBLOCK_split [OF less.prems(10) bi(1), of ?sb] eq by simp
              ultimately show ?thesis
                using f4 v4 s1(3) BBLOCK_inj [of y ?sb b] mem_bit_set [of "view s ?bb" bi "y mod BPB"]
                by (auto simp: in_use_def frame_def)
            qed
            then have "allocated s b s4"
              using f4 v4 s4(4) h3 bm by (auto simp: allocated_def)
            then show "Q b s4" using less.prems(11) s4(1,5) by blast
          qed
        qed
      qed
      then show ?thesis by (simp add: Some eq del: push_bit_of_1)
    qed
  qed
qed

text \<open>What the callers need: a transaction on a well laid out disk with the bitmap not in use.\<close>

definition alloc_pre :: "fs \<Rightarrow> bool" where
  "alloc_pre s \<longleftrightarrow> tx s \<and> fs_layout s \<and> meta_used s \<and> (\<forall>x. bitmap_block s x \<longrightarrow> x \<notin> ran (held s))"

lemma wp_balloc:
  assumes p: "alloc_pre s" and lf: "least_free s b" and nh: "b \<notin> ran (held s)"
    and r: "space s (Suc (Suc k)) (Suc h)"
    and Q: "\<And>s'. alloc_pre s' \<Longrightarrow> allocated s b s' \<Longrightarrow> space s' k (Suc h) \<Longrightarrow> Q b s'"
  shows "wp (balloc 1) Q s"
proof -
  have fresh: "\<not> in_log (fs_log s) b" "\<not> bitmap_block s b"
    using p lf by (auto simp: alloc_pre_def meta_used_def least_free_def)
  have pre: "alloc_pre s'" if t: "tx s'" and a: "allocated s b s'" for s'
  proof -
    have f: "frame s s'" "held s' = held s" using a by (simp_all add: allocated_def)
    then have sb: "fs_sb s' = fs_sb s" by (simp add: frame_def)
    then have bm: "bitmap_block s' = bitmap_block s" by (simp add: fun_eq_iff bitmap_block_def)
    have "meta_used s'"
      using p a frame_in_log [OF f(1)] by (auto simp: alloc_pre_def meta_used_def allocated_def sb bm)
    then show ?thesis using p t f frame_layout [OF f(1)] bm by (simp add: alloc_pre_def)
  qed
  have "wp (balloc_loop 1 (fs_sb s) 0) Q s"
    using wp_balloc_loop [OF _ _ _ lf nh fresh r, of 0 Q] p Q pre by (auto simp: alloc_pre_def)
  then show ?thesis by (simp add: balloc_def)
qed

lemma wp_bfree:
  assumes p: "alloc_pre s" and b: "b < sb_size (fs_sb s)" "in_use s b"
    and r: "space s (Suc k) (Suc h)"
    and Q: "\<And>s'. tx s' \<Longrightarrow> frame s s' \<Longrightarrow> held s' = held s \<Longrightarrow> space s' k (Suc h) \<Longrightarrow>
      (\<forall>x < sb_size (fs_sb s). in_use s' x \<longleftrightarrow> in_use s x \<and> x \<noteq> b) \<Longrightarrow>
      (\<forall>x. \<not> bitmap_block s x \<longrightarrow> view s' x = view s x) \<Longrightarrow> Q () s'"
  shows "wp (bfree 1 b) Q s"
proof -
  let ?bb = "BBLOCK b (fs_sb s)" and ?bi = "b mod BPB"
  have t: "tx s" and bm: "bitmap_block s ?bb" using p b by (auto simp: alloc_pre_def bitmap_block_def)
  then have bb: "?bb < disk_size s" "?bb \<notin> ran (held s)" "\<not> in_log (fs_log s) ?bb"
    using p by (auto simp: alloc_pre_def fs_layout_def)
  have "wp (fs_bread 1 ?bb) (\<lambda>bp. wp (fs_data bp) (\<lambda>d. wp
      (if d (?bi div 8) AND push_bit (?bi mod 8) 1 = 0 then panicS ''freeing free block''
       else bindS (fs_set_data bp (d(?bi div 8 := d (?bi div 8) AND NOT (push_bit (?bi mod 8) 1)))) (\<lambda>_.
            bindS (fs_log_write bp) (\<lambda>_. fs_brelse bp))) Q)) s"
  proof (rule wp_bread [OF t bb(1,2) r], rule wp_data)
    fix s1 x
    assume s1: "tx s1" "frame s s1" "view s1 = view s" "held s x = None" "held s1 = (held s)(x \<mapsto> ?bb)"
      "space s1 (Suc k) h"
    show "tx s1" "held s1 x = Some ?bb" using s1 by simp_all
    let ?d = "view s1 ?bb"
    let ?d' = "?d(?bi div 8 := ?d (?bi div 8) AND NOT (push_bit (?bi mod 8) 1))"
    have used: "\<not> ?d (?bi div 8) AND push_bit (?bi mod 8) 1 = 0"
      using b(2) s1(3) by (simp add: mem_bit_test in_use_def del: push_bit_of_1)
    have "wp (fs_set_data x ?d') (\<lambda>_. wp (fs_log_write x) (\<lambda>_. wp (fs_brelse x) Q)) s1"
    proof (rule wp_put [OF s1(1) _ _ s1(6)])
      show "held s1 x = Some ?bb" "\<not> in_log (fs_log s1) ?bb" using s1 bb(3) frame_in_log by simp_all
      fix s2
      assume s2: "tx s2" "frame s1 s2" "view s2 = (view s1)(?bb := ?d')" "held s2 = held s1" "space s2 k h"
      show "wp (fs_brelse x) Q s2"
      proof (rule wp_brelse [OF s2(1) _ s2(5)])
        show "held s2 x = Some ?bb" using s1 s2 by simp
        fix s3
        assume s3: "tx s3" "frame s2 s3" "view s3 = view s2" "held s3 = (held s2)(x := None)"
          "space s3 k (Suc h)"
        have f: "frame s s3" by (rule frame_trans [OF s1(2) frame_trans [OF s2(2) s3(2)]])
        have h3: "held s3 = held s" using s1(4,5) s2(4) s3(4) by (auto simp: fun_eq_iff)
        have "in_use s3 y \<longleftrightarrow> in_use s y \<and> y \<noteq> b" for y
          using f s3(3) s2(3) s1(3) BBLOCK_inj [of y "fs_sb s" b] mem_bit_clear [of "view s ?bb" ?bi "y mod BPB"]
          by (auto simp: in_use_def frame_def)
        then show "Q () s3" using Q [OF s3(1) f h3 s3(5)] s3(3) s2(3) s1(3) bm by auto
      qed
    qed
    then show "wp (if ?d (?bi div 8) AND push_bit (?bi mod 8) 1 = 0 then panicS ''freeing free block''
       else bindS (fs_set_data x ?d') (\<lambda>_. bindS (fs_log_write x) (\<lambda>_. fs_brelse x))) Q s1"
      using used by (simp del: push_bit_of_1)
  qed
  then show ?thesis by (simp add: bfree_def Let_def del: push_bit_of_1)
qed

lemma bfree_free_panics:
  assumes p: "alloc_pre s" and b: "b < sb_size (fs_sb s)" "\<not> in_use s b" and r: "space s 0 1"
  shows "bfree 1 b s = Inl (Panic ''freeing free block'')"
proof -
  let ?bb = "BBLOCK b (fs_sb s)" and ?bi = "b mod BPB"
  have bb: "?bb < disk_size s" "?bb \<notin> ran (held s)"
    using p b by (auto simp: alloc_pre_def fs_layout_def bitmap_block_def)
  have "wp (fs_bread 1 ?bb) (\<lambda>x s'. wp (fs_data x) (\<lambda>d s''. d = view s ?bb) s') s"
    using p r by (intro wp_bread [OF _ bb, where q = 1 and k = 0 and h = 0]) (auto simp: alloc_pre_def intro: wp_data)
  then obtain s1 x s2 where
    "fs_bread 1 ?bb s = Inr (s1, x)" "fs_data x s1 = Inr (s2, view s ?bb)"
    by (auto simp: wp_result)
  then show ?thesis
    using b(2) by (simp add: bfree_def bindS_def getS_def in_use_def mem_bit_test panicS_def del: push_bit_of_1)
qed

section \<open>Properties\<close>

text \<open>A disk of two blocks with its bitmap in block 60, inside the transaction of the log example.\<close>

definition ex_fs :: fs where
  "ex_fs = \<lparr>fs_log = ex_log, fs_bio = ex_bio False,
     fs_sb = \<lparr>sb_size = 2, sb_nblocks = 2, sb_ninodes = 1, sb_nlog = 30, sb_logstart = 2,
       sb_inodestart = 32, sb_bmapstart = 60\<rparr>, fs_icache = []\<rparr>"

lemma ex_fs_pre: "alloc_pre ex_fs"
proof -
  have bm: "bitmap_block ex_fs x \<longleftrightarrow> x = 60" for x
    by (auto simp: bitmap_block_def ex_fs_def BBLOCK_def BPB_def BSIZE_def) presburger
  have "tx ex_fs" using ex_log_tx [of False] by (simp add: txo_def ex_fs_def ex_bio_held ex_log_def)
  moreover have "fs_layout ex_fs" by (simp add: fs_layout_def bm) (simp add: ex_fs_def in_log_def ex_log_def)
  moreover have "meta_used ex_fs"
    by (simp add: meta_used_def bm) (simp add: ex_fs_def in_log_def ex_log_def)
  ultimately show ?thesis by (simp add: alloc_pre_def ex_fs_def ex_bio_held)
qed

lemma ex_fs_free: "least_free ex_fs 0"
proof -
  have "view ex_fs 60 = ex_disk 60"
    using bio.coherent [OF ex_bio_ok, of 60 False] by (simp add: ex_fs_def ex_bio_pinned ex_bio_held)
  then show ?thesis
    by (simp add: least_free_def in_use_def BBLOCK_def mem_bit_def ex_disk_def ex_fs_def)
qed

lemma ex_fs_space: "space ex_fs 3 1"
  by (simp add: space_def ex_fs_def ex_log_def ex_bio_held LOGSIZE_def NBUF_def)

text \<open>
  \<^verbatim>\<open>balloc\<close> is first fit: on a disk with a free block it returns the lowest one, marks
  exactly that block in the bitmap, zeroes it, leaves every other data block alone, and keeps
  the transaction and the layout intact, so that it can be called again.
\<close>

theorem balloc_first_fit:
  assumes "alloc_pre s" and "least_free s b" and "b \<notin> ran (held s)" and "space s 2 1"
  shows "\<exists>s'. balloc 1 s = Inr (s', b) \<and> allocated s b s' \<and> alloc_pre s'"
proof -
  have "space s (Suc (Suc 0)) (Suc 0)" using assms(4) by (simp add: numeral_2_eq_2)
  from wp_balloc [OF assms(1-3) this, of "\<lambda>r s'. r = b \<and> allocated s b s' \<and> alloc_pre s'"]
  show ?thesis by (auto simp: wp_result)
qed

theorem balloc_first_fit_witness: "\<exists>s'. balloc 1 ex_fs = Inr (s', 0) \<and> allocated ex_fs 0 s'"
  using balloc_first_fit [OF ex_fs_pre ex_fs_free _ space_mono [OF ex_fs_space]]
  by (auto simp: ex_fs_def ex_bio_held)

text \<open>
  C16. Freeing undoes allocating: after \<^verbatim>\<open>balloc\<close> and \<^verbatim>\<open>bfree\<close> of its result the blocks in use
  are the same as before, and freeing the block a second time panics.
\<close>

theorem balloc_bfree_roundtrip:
  assumes p: "alloc_pre s" and lf: "least_free s b" and nh: "b \<notin> ran (held s)" and r: "space s 3 1"
  shows "\<exists>s1 s2. balloc 1 s = Inr (s1, b) \<and> bfree 1 b s1 = Inr (s2, ()) \<and>
    (\<forall>x < sb_size (fs_sb s). in_use s2 x \<longleftrightarrow> in_use s x) \<and>
    bfree 1 b s2 = Inl (Panic ''freeing free block'')"
proof -
  have "space s (Suc (Suc (Suc 0))) (Suc 0)" using r by (simp add: eval_nat_numeral)
  from wp_balloc [OF p lf nh this, of "\<lambda>a s'. a = b \<and> alloc_pre s' \<and> allocated s b s' \<and> space s' (Suc 0) (Suc 0)"]
  obtain s1 where s1: "balloc 1 s = Inr (s1, b)" "alloc_pre s1" "allocated s b s1"
    "space s1 (Suc 0) (Suc 0)" by (auto simp: wp_result)
  have sb: "fs_sb s1 = fs_sb s" using s1(3) by (simp add: allocated_def frame_def)
  have b: "b < sb_size (fs_sb s1)" "in_use s1 b" using lf s1(3) sb by (auto simp: least_free_def allocated_def)
  let ?Q = "\<lambda>_ s2. tx s2 \<and> frame s1 s2 \<and> held s2 = held s1 \<and> space s2 0 1 \<and>
    (\<forall>x < sb_size (fs_sb s1). in_use s2 x \<longleftrightarrow> in_use s1 x \<and> x \<noteq> b)"
  have "wp (bfree 1 b) ?Q s1" by (rule wp_bfree [OF s1(2) b s1(4)]) simp
  then obtain s2 where s2: "bfree 1 b s1 = Inr (s2, ())" "tx s2" "frame s1 s2" "held s2 = held s1"
    "space s2 0 1" "\<forall>x < sb_size (fs_sb s). in_use s2 x \<longleftrightarrow> in_use s1 x \<and> x \<noteq> b"
    by (auto simp: wp_result sb)
  have same: "\<forall>x < sb_size (fs_sb s). in_use s2 x \<longleftrightarrow> in_use s x"
    using s2(6) s1(3) lf by (auto simp: allocated_def least_free_def)
  have sb2: "fs_sb s2 = fs_sb s" using s2(3) sb by (simp add: frame_def)
  have f: "frame s s2" using frame_trans [OF _ s2(3)] s1(3) by (simp add: allocated_def)
  have bm: "bitmap_block s2 = bitmap_block s" by (simp add: fun_eq_iff bitmap_block_def sb2)
  have "meta_used s2" using p same frame_in_log [OF f] by (auto simp: alloc_pre_def meta_used_def sb2 bm)
  moreover have "held s2 = held s" using s2(4) s1(3) by (simp add: allocated_def)
  ultimately have "alloc_pre s2" using p s2(2) frame_layout [OF f] by (auto simp: alloc_pre_def bm)
  then have "bfree 1 b s2 = Inl (Panic ''freeing free block'')"
    using bfree_free_panics s2(5) lf same by (simp add: sb2 least_free_def)
  then show ?thesis using s1(1) s2(1) same by blast
qed

theorem balloc_bfree_roundtrip_witness:
  "\<exists>s1 s2. balloc 1 ex_fs = Inr (s1, 0) \<and> bfree 1 0 s1 = Inr (s2, ()) \<and>
     bfree 1 0 s2 = Inl (Panic ''freeing free block'')"
  using balloc_bfree_roundtrip [OF ex_fs_pre ex_fs_free _ ex_fs_space] by (auto simp: ex_fs_def ex_bio_held)

end
