(* ===== verification/Xstring.thy ===== *)
theory Xstring
  imports Prelude
begin

text \<open>
  The memory and string functions of xv6: \<^verbatim>\<open>hw09/starter-hw09/xv6/string.c\<close> (kernel) and the
  string part of \<^verbatim>\<open>ulib.c\<close> (user programs), on the byte memory of the prelude. Addresses are
  natural numbers; a function gets the memory and returns the changed one. The functions
  that look for a NUL have no bound in the code and are partial: \<open>None\<close> is a run that never
  ends (or faults).
\<close>

section \<open>Filling and copying\<close>

fun stosb :: "mem \<Rightarrow> nat \<Rightarrow> 8 word \<Rightarrow> nat \<Rightarrow> mem" where
  "stosb m dst c 0 = m"
| "stosb m dst c (Suc n) = stosb (m(dst := c)) (dst + 1) c n"

fun stosl :: "mem \<Rightarrow> nat \<Rightarrow> 32 word \<Rightarrow> nat \<Rightarrow> mem" where
  "stosl m dst c 0 = m"
| "stosl m dst c (Suc n) = stosl (store32 m dst c) (dst + 4) c n"

definition memset :: "mem \<Rightarrow> nat \<Rightarrow> 32 word \<Rightarrow> nat \<Rightarrow> mem" where
  "memset m dst c n =
     (if dst mod 4 = 0 \<and> n mod 4 = 0 then
        let c = c AND 0xFF in
        stosl m dst (push_bit 24 c OR push_bit 16 c OR push_bit 8 c OR c) (n div 4)
      else stosb m dst (ucast c) n)"

definition user_memset :: "mem \<Rightarrow> nat \<Rightarrow> 32 word \<Rightarrow> nat \<Rightarrow> mem" where
  "user_memset m dst c n = stosb m dst (ucast c) n"

text \<open>The two loops of \<^verbatim>\<open>memmove\<close>; \<open>s\<close> and \<open>d\<close> are the moving pointers.\<close>

fun copy_up :: "mem \<Rightarrow> nat \<Rightarrow> nat \<Rightarrow> nat \<Rightarrow> mem" where
  "copy_up m d s 0 = m"
| "copy_up m d s (Suc n) = copy_up (m(d := m s)) (d + 1) (s + 1) n"

fun copy_down :: "mem \<Rightarrow> nat \<Rightarrow> nat \<Rightarrow> nat \<Rightarrow> mem" where
  "copy_down m d s 0 = m"
| "copy_down m d s (Suc n) = copy_down (m(d - 1 := m (s - 1))) (d - 1) (s - 1) n"

definition memmove :: "mem \<Rightarrow> nat \<Rightarrow> nat \<Rightarrow> nat \<Rightarrow> mem" where
  "memmove m dst src n =
     (if src < dst \<and> dst < src + n then copy_down m (dst + n) (src + n) n
      else copy_up m dst src n)"

definition memcpy :: "mem \<Rightarrow> nat \<Rightarrow> nat \<Rightarrow> nat \<Rightarrow> mem" where
  "memcpy m dst src n = memmove m dst src n"

definition user_memmove :: "mem \<Rightarrow> nat \<Rightarrow> nat \<Rightarrow> int \<Rightarrow> mem" where
  "user_memmove m vdst vsrc n = copy_up m vdst vsrc (nat n)"

section \<open>Comparing\<close>

fun memcmp :: "mem \<Rightarrow> nat \<Rightarrow> nat \<Rightarrow> nat \<Rightarrow> int" where
  "memcmp m s1 s2 0 = 0"
| "memcmp m s1 s2 (Suc n) =
     (if m s1 \<noteq> m s2 then uint (m s1) - uint (m s2) else memcmp m (s1 + 1) (s2 + 1) n)"

fun strncmp :: "mem \<Rightarrow> nat \<Rightarrow> nat \<Rightarrow> nat \<Rightarrow> int" where
  "strncmp m p q 0 = 0"
| "strncmp m p q (Suc n) =
     (if m p \<noteq> 0 \<and> m p = m q then strncmp m (p + 1) (q + 1) n
      else uint (m p) - uint (m q))"

partial_function (option) strcmp :: "mem \<Rightarrow> nat \<Rightarrow> nat \<Rightarrow> int option" where
  "strcmp m p q =
     (if m p \<noteq> 0 \<and> m p = m q then strcmp m (p + 1) (q + 1)
      else Some (uint (m p) - uint (m q)))"

section \<open>Strings\<close>

text \<open>The two loops of \<^verbatim>\<open>strncpy\<close>: copying up to a NUL, then padding.\<close>

function strncpy_pad :: "mem \<Rightarrow> nat \<Rightarrow> int \<Rightarrow> mem" where
  "strncpy_pad m s n = (if 0 < n then strncpy_pad (m(s := 0)) (s + 1) (n - 1) else m)"
  by pat_completeness auto
termination by (relation "measure (\<lambda>(m, s, n). nat n)") auto

function strncpy_loop :: "mem \<Rightarrow> nat \<Rightarrow> nat \<Rightarrow> int \<Rightarrow> mem" where
  "strncpy_loop m s t n =
     (if 0 < n then
        let m' = m(s := m t) in
        if m t \<noteq> 0 then strncpy_loop m' (s + 1) (t + 1) (n - 1)
        else strncpy_pad m' (s + 1) (n - 1)
      else strncpy_pad m s (n - 1))"
  by pat_completeness auto
termination by (relation "measure (\<lambda>(m, s, t, n). nat n)") auto

definition strncpy :: "mem \<Rightarrow> nat \<Rightarrow> nat \<Rightarrow> int \<Rightarrow> mem" where
  "strncpy m s t n = strncpy_loop m s t n"

function safestrcpy_loop :: "mem \<Rightarrow> nat \<Rightarrow> nat \<Rightarrow> int \<Rightarrow> mem" where
  "safestrcpy_loop m s t n =
     (if 0 < n - 1 then
        let m' = m(s := m t) in
        if m t \<noteq> 0 then safestrcpy_loop m' (s + 1) (t + 1) (n - 1) else m'(s + 1 := 0)
      else m(s := 0))"
  by pat_completeness auto
termination by (relation "measure (\<lambda>(m, s, t, n). nat n)") auto

declare strncpy_pad.simps [simp del] strncpy_loop.simps [simp del] safestrcpy_loop.simps [simp del]

definition safestrcpy :: "mem \<Rightarrow> nat \<Rightarrow> nat \<Rightarrow> int \<Rightarrow> mem" where
  "safestrcpy m s t n = (if n \<le> 0 then m else safestrcpy_loop m s t n)"

partial_function (option) strlen_loop :: "mem \<Rightarrow> nat \<Rightarrow> nat \<Rightarrow> nat option" where
  "strlen_loop m s n = (if m (s + n) \<noteq> 0 then strlen_loop m s (n + 1) else Some n)"

definition strlen :: "mem \<Rightarrow> nat \<Rightarrow> nat option" where
  "strlen m s = strlen_loop m s 0"

partial_function (option) strcpy :: "mem \<Rightarrow> nat \<Rightarrow> nat \<Rightarrow> mem option" where
  "strcpy m s t =
     (let m' = m(s := m t) in if m t \<noteq> 0 then strcpy m' (s + 1) (t + 1) else Some m')"

text \<open>\<^verbatim>\<open>strchr\<close>: the inner option is the returned pointer, \<open>None\<close> for the null pointer.\<close>

partial_function (option) strchr :: "mem \<Rightarrow> nat \<Rightarrow> 8 word \<Rightarrow> nat option option" where
  "strchr m s c =
     (if m s = 0 then Some None
      else if m s = c then Some (Some s) else strchr m (s + 1) c)"

text \<open>\<^verbatim>\<open>atoi\<close> computes in 32-bit integers, which wrap.\<close>

partial_function (option) atoi_loop :: "mem \<Rightarrow> nat \<Rightarrow> 32 word \<Rightarrow> 32 word option" where
  "atoi_loop m s n =
     (if 48 \<le> uint (m s) \<and> uint (m s) \<le> 57
      then atoi_loop m (s + 1) (n * 10 + ucast (m s) - 48)
      else Some n)"

definition atoi :: "mem \<Rightarrow> nat \<Rightarrow> 32 word option" where
  "atoi m s = atoi_loop m s 0"

text \<open>
  \<^verbatim>\<open>gets\<close>, with the bytes that successive \<^verbatim>\<open>read(0, &c, 1)\<close> calls deliver as an argument (the
  list ends where \<^verbatim>\<open>read\<close> returns less than 1); it returns what it leaves unread.
\<close>

fun gets_loop :: "mem \<Rightarrow> nat \<Rightarrow> nat \<Rightarrow> int \<Rightarrow> 8 word list \<Rightarrow> mem \<times> 8 word list" where
  "gets_loop m buf i lim [] = (m(buf + i := 0), [])"
| "gets_loop m buf i lim (c # inp) =
     (if int i + 1 < lim then
        let m' = m(buf + i := c) in
        if c = 10 \<or> c = 13 then (m'(buf + (i + 1) := 0), inp)
        else gets_loop m' buf (i + 1) lim inp
      else (m(buf + i := 0), c # inp))"

definition gets :: "mem \<Rightarrow> nat \<Rightarrow> int \<Rightarrow> 8 word list \<Rightarrow> mem \<times> 8 word list" where
  "gets m buf lim inp = gets_loop m buf 0 lim inp"

section \<open>Lemmas\<close>

lemma stosb_at: "stosb m dst c n a = (if dst \<le> a \<and> a < dst + n then c else m a)"
proof (induction m dst c n rule: stosb.induct)
  case (2 m dst c n)
  show ?case unfolding stosb.simps "2.IH" by auto
qed auto

lemma bit_0xFF: "bit (0xFF :: 32 word) n \<longleftrightarrow> n < 8"
proof -
  have ff: "(0xFF :: 32 word) = mask 8" by (simp add: mask_eq_exp_minus_1)
  show ?thesis unfolding ff by (auto simp: bit_mask_iff)
qed

lemma word_fill_bytes:
  fixes c :: "32 word"
  defines "w \<equiv> push_bit 24 (c AND 0xFF) OR push_bit 16 (c AND 0xFF) OR push_bit 8 (c AND 0xFF) OR (c AND 0xFF)"
  shows "(ucast w :: 8 word) = ucast c" and "(ucast (drop_bit 8 w) :: 8 word) = ucast c"
    and "(ucast (drop_bit 16 w) :: 8 word) = ucast c" and "(ucast (drop_bit 24 w) :: 8 word) = ucast c"
proof -
  obtain b where b: "b = c AND 0xFF" by blast
  have bit_b: "bit b n \<longleftrightarrow> n < 8 \<and> bit c n" for n unfolding b bit_and_iff bit_0xFF by auto
  have w: "w = push_bit 24 b OR push_bit 16 b OR push_bit 8 b OR b" by (simp add: w_def b)
  show "(ucast w :: 8 word) = ucast c" "(ucast (drop_bit 8 w) :: 8 word) = ucast c"
    "(ucast (drop_bit 16 w) :: 8 word) = ucast c" "(ucast (drop_bit 24 w) :: 8 word) = ucast c"
    by (rule bit_word_eqI, auto simp: w bit_simps bit_b)+
qed

lemma stosl_at:
  assumes "(ucast w :: 8 word) = c" and "(ucast (drop_bit 8 w) :: 8 word) = c"
    and "(ucast (drop_bit 16 w) :: 8 word) = c" and "(ucast (drop_bit 24 w) :: 8 word) = c"
  shows "stosl m dst w n a = (if dst \<le> a \<and> a < dst + 4 * n then c else m a)"
  using assms
proof (induction m dst w n rule: stosl.induct)
  case (2 m dst w n)
  have "store32 m dst w a = (if dst \<le> a \<and> a < dst + 4 then c else m a)"
    using "2.prems" by (auto simp: store32_def)
  then show ?case using 2 by auto
qed auto

lemma copy_up_at:
  "dst \<le> src \<or> src + n \<le> dst \<Longrightarrow>
   copy_up m dst src n a = (if dst \<le> a \<and> a < dst + n then m (src + (a - dst)) else m a)"
proof (induction m dst src n rule: copy_up.induct)
  case (2 m d s n)
  have "copy_up (m(d := m s)) (d + 1) (s + 1) n a =
      (if d + 1 \<le> a \<and> a < d + 1 + n then (m(d := m s)) (s + 1 + (a - (d + 1))) else (m(d := m s)) a)"
    by (rule "2.IH") (use "2.prems" in auto)
  moreover have "s + 1 + (a - (d + 1)) = s + (a - d)" "s + 1 + (a - (d + 1)) \<noteq> d"
    if "d + 1 \<le> a" "a < d + 1 + n"
    using that "2.prems" by auto
  ultimately show ?case by (cases "a = d") auto
qed auto

lemma copy_down_at:
  "src < dst \<Longrightarrow>
   copy_down m (dst + n) (src + n) n a = (if dst \<le> a \<and> a < dst + n then m (src + (a - dst)) else m a)"
proof (induction n arbitrary: m)
  case (Suc n)
  have "copy_down (m(dst + n := m (src + n))) (dst + n) (src + n) n a =
      (if dst \<le> a \<and> a < dst + n then (m(dst + n := m (src + n))) (src + (a - dst))
       else (m(dst + n := m (src + n))) a)"
    by (rule Suc.IH [OF Suc.prems])
  moreover have "src + (a - dst) \<noteq> dst + n" if "dst \<le> a" "a < dst + n"
    using that Suc.prems by auto
  ultimately show ?case by (cases "a = dst + n") auto
qed auto

lemma memmove_at:
  "memmove m dst src n a = (if dst \<le> a \<and> a < dst + n then m (src + (a - dst)) else m a)"
proof (cases "src < dst \<and> dst < src + n")
  case True
  then show ?thesis using copy_down_at [of src dst m n a] by (simp add: memmove_def)
next
  case False
  then show ?thesis using copy_up_at [of dst src n m a] by (auto simp: memmove_def)
qed

text \<open>A NUL-terminated string in memory.\<close>

definition string_at :: "mem \<Rightarrow> nat \<Rightarrow> 8 word list \<Rightarrow> bool" where
  "string_at m a s \<longleftrightarrow> 0 \<notin> set s \<and> (\<forall>i<length s. m (a + i) = s ! i) \<and> m (a + length s) = 0"

lemma string_at_Nil [simp]: "string_at m a [] \<longleftrightarrow> m a = 0"
  by (simp add: string_at_def)

lemma string_at_Cons [simp]: "string_at m a (c # s) \<longleftrightarrow> c \<noteq> 0 \<and> m a = c \<and> string_at m (a + 1) s"
  unfolding string_at_def by (auto simp: nth_Cons' less_Suc_eq_0_disj)

lemma string_at_unique: "string_at m a s \<Longrightarrow> string_at m a t \<Longrightarrow> s = t"
proof (induction s arbitrary: a t)
  case Nil
  then show ?case by (cases t) auto
next
  case (Cons c s)
  then show ?case by (cases t) auto
qed

definition bytes_less :: "8 word list \<Rightarrow> 8 word list \<Rightarrow> bool" where
  "bytes_less s t \<longleftrightarrow> (s, t) \<in> lexord {(a, b). a < b}"

text \<open>The name in a fixed field of \<open>n\<close> bytes: up to the first NUL or the end of the field.\<close>

definition field_name :: "mem \<Rightarrow> nat \<Rightarrow> nat \<Rightarrow> 8 word list" where
  "field_name m a n = takeWhile (\<lambda>c. c \<noteq> 0) (read_bytes m a n)"

lemma read_bytes_Suc: "read_bytes m a (Suc n) = m a # read_bytes m (a + 1) n"
proof -
  have "[a..<a + Suc n] = a # [a + 1..<a + 1 + n]" by (simp add: upt_conv_Cons)
  then show ?thesis unfolding read_bytes_def by simp
qed

lemma field_name_simps [simp]:
  "field_name m a 0 = []"
  "field_name m a (Suc n) = (if m a = 0 then [] else m a # field_name m (a + 1) n)"
  by (simp_all add: field_name_def read_bytes_Suc) (simp add: read_bytes_def)

lemma strncmp_zero: "strncmp m p q n = 0 \<longleftrightarrow> field_name m p n = field_name m q n"
  by (induction m p q n rule: strncmp.induct) (auto simp: word_uint_eq_iff)

lemma strlen_loop_string:
  "string_at m (a + n) s \<Longrightarrow> strlen_loop m a n = Some (n + length s)"
proof (induction s arbitrary: n)
  case Nil
  then show ?case by (subst strlen_loop.simps) simp
next
  case (Cons c s)
  then show ?case using Cons.IH [of "n + 1"] by (subst strlen_loop.simps) (simp add: add.assoc)
qed

lemma safestrcpy_loop_ok:
  assumes "string_at m t str" and "0 < n" and "s + nat n \<le> t \<or> t + length str < s"
  shows "string_at (safestrcpy_loop m s t n) s (take (nat n - 1) str) \<and>
    (\<forall>a. a < s \<or> s + nat n \<le> a \<longrightarrow> safestrcpy_loop m s t n a = m a)"
  using assms
proof (induction str arbitrary: m s t n)
  case Nil
  then have z: "m t = 0" by simp
  show ?case
  proof (cases "0 < n - 1")
    case True
    have "safestrcpy_loop m s t n = m(s := 0, s + 1 := 0)"
      using True z by (subst safestrcpy_loop.simps) (simp add: Let_def)
    then show ?thesis using True by auto
  next
    case False
    then have "safestrcpy_loop m s t n = m(s := 0)" by (subst safestrcpy_loop.simps) simp
    then show ?thesis using Nil.prems(2) by auto
  qed
next
  case (Cons c str)
  then have c: "c \<noteq> 0" "m t = c" "string_at m (t + 1) str" by auto
  show ?case
  proof (cases "0 < n - 1")
    case True
    let ?m = "m(s := c)"
    have st: "string_at ?m (t + 1) str"
      using c(3) Cons.prems(3) by (auto simp: string_at_def)
    have step: "safestrcpy_loop m s t n = safestrcpy_loop ?m (s + 1) (t + 1) (n - 1)"
      using True c by (subst safestrcpy_loop.simps) (simp add: Let_def)
    have IH: "string_at (safestrcpy_loop ?m (s + 1) (t + 1) (n - 1)) (s + 1) (take (nat (n - 1) - 1) str) \<and>
      (\<forall>a. a < s + 1 \<or> s + 1 + nat (n - 1) \<le> a \<longrightarrow>
         safestrcpy_loop ?m (s + 1) (t + 1) (n - 1) a = ?m a)"
      by (rule Cons.IH [OF st]) (use True Cons.prems(3) in auto)
    have n: "take (nat n - 1) (c # str) = c # take (nat (n - 1) - 1) str"
      "s + 1 + nat (n - 1) = s + nat n"
      using True by (auto simp: take_Cons' nat_diff_distrib)
    have "safestrcpy_loop m s t n s = c" using IH by (simp add: step)
    then show ?thesis using IH c(1) True unfolding n(1) step string_at_Cons n(2) by auto
  next
    case False
    then have n: "n = 1" using Cons.prems(2) by simp
    then have "safestrcpy_loop m s t n = m(s := 0)" by (subst safestrcpy_loop.simps) simp
    then show ?thesis using n by auto
  qed
qed

definition is_digit :: "8 word \<Rightarrow> bool" where
  "is_digit c \<longleftrightarrow> 48 \<le> uint c \<and> uint c \<le> 57"

definition digits_value :: "8 word list \<Rightarrow> int" where
  "digits_value ds = foldl (\<lambda>v d. v * 10 + (uint d - 48)) 0 ds"

lemma atoi_loop_digits:
  assumes "\<forall>d\<in>set ds. is_digit d" and "\<forall>i<length ds. m (a + i) = ds ! i"
    and "\<not> is_digit (m (a + length ds))" and "n = word_of_int v"
  shows "atoi_loop m a n = Some (word_of_int (foldl (\<lambda>v d. v * 10 + (uint d - 48)) v ds))"
  using assms
proof (induction ds arbitrary: a n v)
  case Nil
  then show ?case by (subst atoi_loop.simps) (auto simp: is_digit_def)
next
  case (Cons d ds)
  have d: "m a = d" "is_digit d" using Cons.prems by auto
  have rest: "\<forall>i<length ds. m (a + 1 + i) = ds ! i"
    using Cons.prems(2) by auto
  have u: "ucast d = (word_of_int (uint d) :: 32 word)" by (rule ucast_eq)
  have "n * 10 + ucast d - 48 = word_of_int (v * 10 + (uint d - 48))"
    unfolding u Cons.prems(4) by (simp only: of_int_add of_int_mult of_int_diff of_int_numeral add_diff_eq)
  then have "atoi_loop m (a + 1) (n * 10 + ucast d - 48) =
      Some (word_of_int (foldl (\<lambda>v d. v * 10 + (uint d - 48)) (v * 10 + (uint d - 48)) ds))"
    using Cons.IH [of "a + 1" "n * 10 + ucast d - 48" "v * 10 + (uint d - 48)"] rest Cons.prems(1,3)
    by (simp only: list.set insert_iff list.size add_Suc_right add_Suc One_nat_def) simp
  then show ?case using d by (subst atoi_loop.simps) (simp add: is_digit_def)
qed

lemma byte_pos: "c \<noteq> 0 \<Longrightarrow> 0 < uint c" for c :: "8 word"
  using word_gt_0 [of c] by (simp add: word_less_def)

section \<open>Properties\<close>

text \<open>
  The word-wise \<^verbatim>\<open>memset\<close> of the kernel fills exactly the \<open>n\<close> bytes with the low byte of
  its argument, whether it takes the aligned path or the byte path, and agrees with the
  byte-wise \<^verbatim>\<open>memset\<close> of the user library.
\<close>

theorem memset_fills:
  "memset m dst c n = (\<lambda>a. if dst \<le> a \<and> a < dst + n then ucast c else m a) \<and>
   memset m dst c n = user_memset m dst c n"
proof -
  have "memset m dst c n a = (if dst \<le> a \<and> a < dst + n then ucast c else m a)" for a
  proof (cases "dst mod 4 = 0 \<and> n mod 4 = 0")
    case True
    then have "4 * (n div 4) = n" by auto
    then show ?thesis
      using True stosl_at [OF word_fill_bytes [of c], of m dst "n div 4" a]
      by (simp add: memset_def Let_def)
  next
    case False
    then show ?thesis by (auto simp: memset_def stosb_at)
  qed
  then show ?thesis by (simp add: fun_eq_iff user_memset_def stosb_at)
qed

text \<open>
  The kernel's \<^verbatim>\<open>memmove\<close> copies correctly for every overlap of the two regions: the
  target gets the bytes the source had before, and nothing else changes.
\<close>

theorem memmove_correct: "memmove m dst src n = write_bytes m dst (read_bytes m src n)"
proof
  fix a
  show "memmove m dst src n a = write_bytes m dst (read_bytes m src n) a"
    by (cases "dst \<le> a \<and> a < dst + n")
       (auto simp: memmove_at write_bytes_in write_bytes_other read_bytes_def)
qed

text \<open>
  The user library's \<^verbatim>\<open>memmove\<close> always copies upwards. It agrees with the kernel's when the
  target does not start inside the source; moving two bytes up by one is an example where it does
  not, because the first byte is copied over the second before the second is read.
\<close>

theorem user_memmove_overlap:
  "(vdst \<le> vsrc \<or> vsrc + nat n \<le> vdst \<longrightarrow> user_memmove m vdst vsrc n = memmove m vdst vsrc (nat n)) \<and>
   user_memmove (\<lambda>a. if a = 0 then 1 else 2) 1 0 2 \<noteq> memmove (\<lambda>a. if a = 0 then 1 else 2) 1 0 2"
proof
  show "vdst \<le> vsrc \<or> vsrc + nat n \<le> vdst \<longrightarrow>
    user_memmove m vdst vsrc n = memmove m vdst vsrc (nat n)"
    using copy_up_at [of vdst vsrc "nat n" m] by (auto simp: fun_eq_iff user_memmove_def memmove_at)
  have "user_memmove (\<lambda>a. if a = 0 then 1 else 2) 1 0 2 2 \<noteq>
      memmove (\<lambda>a. if a = 0 then 1 else 2) 1 0 2 2"
    by (simp add: user_memmove_def memmove_at numeral_2_eq_2)
  then show "user_memmove (\<lambda>a. if a = 0 then 1 else 2) 1 0 2 \<noteq>
      memmove (\<lambda>a. if a = 0 then 1 else 2) 1 0 2" by metis
qed

theorem user_memmove_overlap_witness:
  "user_memmove (\<lambda>a. word_of_nat a) 0 1 2 = memmove (\<lambda>a. word_of_nat a) 0 1 2"
  using user_memmove_overlap [of 0 1 2 "\<lambda>a. word_of_nat a"] by simp

text \<open>
  \<^verbatim>\<open>safestrcpy\<close> into a buffer of \<open>n\<close> bytes that does not overlap the source leaves there
  the longest prefix of the source that fits, always NUL-terminated, and writes nowhere else.
\<close>

theorem safestrcpy_correct:
  assumes "string_at m t str" and "0 < n" and "s + nat n \<le> t \<or> t + length str < s"
  shows "string_at (safestrcpy m s t n) s (take (nat n - 1) str) \<and>
    (\<forall>a. a < s \<or> s + nat n \<le> a \<longrightarrow> safestrcpy m s t n a = m a)"
  using safestrcpy_loop_ok [OF assms] assms(2) by (simp add: safestrcpy_def)

theorem safestrcpy_correct_witness:
  "string_at (safestrcpy ((\<lambda>_. 0)(10 := 104, 11 := 105, 12 := 106)) 0 10 3) 0 [104, 105]"
proof -
  have "string_at ((\<lambda>_. 0)(10 := 104, 11 := 105, 12 := 106)) 10 [104, 105, 106]" by simp
  from safestrcpy_correct [OF this, of 3 0] show ?thesis by simp
qed

text \<open>
  \<^verbatim>\<open>strcmp\<close> decides equality and the lexicographic order of two strings by unsigned bytes,
  \<^verbatim>\<open>strlen\<close> returns their length, and both terminate on every NUL-terminated string.
\<close>

theorem strcmp_orders:
  assumes "string_at m p s" and "string_at m q t"
  shows "strlen m p = Some (length s) \<and>
    (\<exists>r. strcmp m p q = Some r \<and> (r = 0 \<longleftrightarrow> s = t) \<and> (r < 0 \<longleftrightarrow> bytes_less s t))"
proof
  show "strlen m p = Some (length s)" using strlen_loop_string [of m p 0 s] assms(1) by (simp add: strlen_def)
  show "\<exists>r. strcmp m p q = Some r \<and> (r = 0 \<longleftrightarrow> s = t) \<and> (r < 0 \<longleftrightarrow> bytes_less s t)"
    using assms
  proof (induction s arbitrary: p q t)
    case Nil
    show ?case
    proof (cases t)
      case (Cons d t')
      then have "m q \<noteq> 0" using Nil.prems by simp
      then have "0 < uint (m q)" by (rule byte_pos)
      then show ?thesis using Nil.prems Cons by (subst strcmp.simps) (simp add: bytes_less_def)
    qed (use Nil.prems in \<open>subst strcmp.simps, simp add: bytes_less_def\<close>)
  next
    case (Cons c s)
    note IH = Cons.IH and prems = Cons.prems
    show ?case
    proof (cases t)
      case Nil
      then have "m q = 0" "m p \<noteq> 0" using prems by simp_all
      then have "0 < uint (m p)" "uint (m q) = 0" using byte_pos by simp_all
      then show ?thesis using prems Nil by (subst strcmp.simps) (simp add: bytes_less_def)
    next
      case (Cons d t')
      then show ?thesis
        using prems IH [of "p + 1" "q + 1" t']
        by (subst strcmp.simps) (auto simp: bytes_less_def word_less_def word_uint_eq_iff)
    qed
  qed
qed

theorem strcmp_orders_witness:
  "strlen ((\<lambda>_. 0)(0 := 97, 10 := 98)) 0 = Some 1 \<and>
   (\<exists>r. strcmp ((\<lambda>_. 0)(0 := 97, 10 := 98)) 0 10 = Some r \<and> r < 0)"
proof -
  have "string_at ((\<lambda>_. 0)(0 := 97, 10 := 98)) 0 [97]" "string_at ((\<lambda>_. 0)(0 := 97, 10 := 98)) 10 [98]"
    by simp_all
  from strcmp_orders [OF this] show ?thesis by (auto simp: bytes_less_def)
qed

text \<open>
  \<^verbatim>\<open>atoi\<close> on a run of decimal digits that ends in another character returns their value
  modulo \<open>2 ^ 32\<close>: it is exact for values that fit, and wraps silently beyond.
\<close>

theorem atoi_value:
  assumes "\<forall>d\<in>set ds. is_digit d" and "\<forall>i<length ds. m (a + i) = ds ! i"
    and "\<not> is_digit (m (a + length ds))"
  shows "atoi m a = Some (word_of_int (digits_value ds))"
  using atoi_loop_digits [OF assms, of 0 0] by (simp add: atoi_def digits_value_def)

theorem atoi_value_witness: "atoi ((\<lambda>_. 0)(5 := 52, 6 := 50)) 5 = Some 42"
proof -
  have "atoi ((\<lambda>_. 0)(5 := 52, 6 := 50)) 5 = Some (word_of_int (digits_value [52, 50]))"
    by (rule atoi_value) (auto simp: is_digit_def less_Suc_eq)
  then show ?thesis by (simp add: digits_value_def)
qed

end
