(* ===== verification/Inode.thy ===== *)
theory Inode
  imports Blocks Xstring
begin

text \<open>
  Inodes, files, directories and path names of xv6: the rest of
  \<^verbatim>\<open>hw09/starter-hw09/xv6/fs.c\<close>. A \<^verbatim>\<open>struct inode *\<close> is an index into the inode cache. User
  memory is not modelled: \<^verbatim>\<open>readi\<close> returns the bytes it would copy out, \<^verbatim>\<open>writei\<close> gets the bytes to
  copy in. The device table \<^verbatim>\<open>devsw\<close> is an argument (\<open>dread\<close>, \<open>dwrite\<close>). A name of a directory entry
  is a list of at most 14 bytes, a path is the list of its bytes before the NUL.
\<close>

section \<open>Constants and layout\<close>

definition NDIRECT :: nat where "NDIRECT = 12"
definition NINDIRECT :: nat where "NINDIRECT = BSIZE div 4"
definition MAXFILE :: nat where "MAXFILE = NDIRECT + NINDIRECT"
definition DINODE :: nat where "DINODE = 64"
definition IPB :: nat where "IPB = BSIZE div DINODE"
definition NINODE :: nat where "NINODE = 50"
definition NDEV :: nat where "NDEV = 10"
definition DIRSIZ :: nat where "DIRSIZ = 14"
definition DIRENT :: nat where "DIRENT = 16"
definition ROOTINO :: nat where "ROOTINO = 1"
definition T_DIR :: "16 word" where "T_DIR = 1"
definition T_DEV :: "16 word" where "T_DEV = 3"

definition IBLOCK :: "nat \<Rightarrow> superblock \<Rightarrow> nat" where
  "IBLOCK i sb = i div IPB + sb_inodestart sb"

definition dinode_off :: "nat \<Rightarrow> nat" where
  "dinode_off inum = (inum mod IPB) * DINODE"

section \<open>The inode cache\<close>

definition empty_inode :: inode where
  "empty_inode = \<lparr>i_dev = 0, i_inum = 0, i_ref = 0, i_locked = False, i_valid = False, i_type = 0,
     i_major = 0, i_minor = 0, i_nlink = 0, i_size = 0, i_addrs = replicate (NDIRECT + 1) 0\<rparr>"

definition iinit :: "nat \<Rightarrow> unit fsm" where
  "iinit dev s =
     bind_res (readsb (fs_bio s) dev) (\<lambda>(bc, sb).
       Inr (s\<lparr>fs_bio := bc, fs_sb := sb, fs_icache := replicate NINODE empty_inode\<rparr>, ()))"

definition inode_at :: "nat \<Rightarrow> inode fsm" where
  "inode_at ip = getS (\<lambda>s. fs_icache s ! ip)"

definition upd_inode :: "nat \<Rightarrow> (inode \<Rightarrow> inode) \<Rightarrow> unit fsm" where
  "upd_inode ip f s = Inr (s\<lparr>fs_icache := (fs_icache s)[ip := f (fs_icache s ! ip)]\<rparr>, ())"

definition iget :: "nat \<Rightarrow> nat \<Rightarrow> nat fsm" where
  "iget dev inum s =
     (let ic = fs_icache s in
      case find (\<lambda>i. 0 < i_ref (ic ! i) \<and> i_dev (ic ! i) = dev \<and> i_inum (ic ! i) = inum) [0..<NINODE] of
        Some ip \<Rightarrow> bindS (upd_inode ip (\<lambda>i. i\<lparr>i_ref := i_ref i + 1\<rparr>)) (\<lambda>_. retS ip) s
      | None \<Rightarrow>
          (case find (\<lambda>i. i_ref (ic ! i) = 0) [0..<NINODE] of
             Some ip \<Rightarrow>
               bindS (upd_inode ip (\<lambda>i. i\<lparr>i_dev := dev, i_inum := inum, i_ref := 1, i_valid := False\<rparr>))
                 (\<lambda>_. retS ip) s
           | None \<Rightarrow> panicS ''iget: no inodes'' s))"

definition idup :: "nat \<Rightarrow> nat fsm" where
  "idup ip = bindS (upd_inode ip (\<lambda>i. i\<lparr>i_ref := i_ref i + 1\<rparr>)) (\<lambda>_. retS ip)"

function ialloc_loop :: "nat \<Rightarrow> superblock \<Rightarrow> 16 word \<Rightarrow> nat \<Rightarrow> nat fsm" where
  "ialloc_loop dev sb ty inum s =
     (if inum < sb_ninodes sb then
        bindS (fs_bread dev (IBLOCK inum sb)) (\<lambda>bp.
        bindS (fs_data bp) (\<lambda>d.
          let off = dinode_off inum in
          if load16 d off = 0 then
            bindS (fs_set_data bp (store16 (memset d off 0 DINODE) off ty)) (\<lambda>_.
            bindS (fs_log_write bp) (\<lambda>_.
            bindS (fs_brelse bp) (\<lambda>_. iget dev inum)))
          else bindS (fs_brelse bp) (\<lambda>_. ialloc_loop dev sb ty (inum + 1)))) s
      else panicS ''ialloc: no inodes'' s)"
  by pat_completeness auto
termination by (relation "measure (\<lambda>(dev, sb, ty, inum, s). sb_ninodes sb - inum)") auto

declare ialloc_loop.simps [simp del]

definition ialloc :: "nat \<Rightarrow> 16 word \<Rightarrow> nat fsm" where
  "ialloc dev ty = bindS (getS fs_sb) (\<lambda>sb. ialloc_loop dev sb ty 1)"

text \<open>\<^verbatim>\<open>struct dinode\<close> at an offset of a block: writing and reading its fields.\<close>

fun store_addrs :: "mem \<Rightarrow> nat \<Rightarrow> 32 word list \<Rightarrow> mem" where
  "store_addrs d off [] = d"
| "store_addrs d off (a # as) = store_addrs (store32 d off a) (off + 4) as"

definition load_addrs :: "mem \<Rightarrow> nat \<Rightarrow> 32 word list" where
  "load_addrs d off = map (\<lambda>k. load32 d (off + 4 * k)) [0..<NDIRECT + 1]"

definition put_dinode :: "mem \<Rightarrow> nat \<Rightarrow> inode \<Rightarrow> mem" where
  "put_dinode d off i =
     store_addrs
       (store32 (store16 (store16 (store16 (store16 d off (i_type i)) (off + 2) (i_major i))
          (off + 4) (i_minor i)) (off + 6) (i_nlink i)) (off + 8) (i_size i))
       (off + 12) (i_addrs i)"

definition get_dinode :: "mem \<Rightarrow> nat \<Rightarrow> inode \<Rightarrow> inode" where
  "get_dinode d off i =
     i\<lparr>i_type := load16 d off, i_major := load16 d (off + 2), i_minor := load16 d (off + 4),
       i_nlink := load16 d (off + 6), i_size := load32 d (off + 8), i_addrs := load_addrs d (off + 12)\<rparr>"

definition iupdate :: "nat \<Rightarrow> unit fsm" where
  "iupdate ip =
     bindS (inode_at ip) (\<lambda>i.
     bindS (getS fs_sb) (\<lambda>sb.
     bindS (fs_bread (i_dev i) (IBLOCK (i_inum i) sb)) (\<lambda>bp.
     bindS (fs_data bp) (\<lambda>d.
     bindS (fs_set_data bp (put_dinode d (dinode_off (i_inum i)) i)) (\<lambda>_.
     bindS (fs_log_write bp) (\<lambda>_. fs_brelse bp))))))"

definition ilock :: "nat \<Rightarrow> unit fsm" where
  "ilock ip =
     bindS (inode_at ip) (\<lambda>i.
     if i_ref i < 1 then panicS ''ilock''
     else if i_locked i then liftS (Inl Deadlock)
     else
       bindS (upd_inode ip (\<lambda>i. i\<lparr>i_locked := True\<rparr>)) (\<lambda>_.
       if i_valid i then retS ()
       else
         bindS (getS fs_sb) (\<lambda>sb.
         bindS (fs_bread (i_dev i) (IBLOCK (i_inum i) sb)) (\<lambda>bp.
         bindS (fs_data bp) (\<lambda>d.
         bindS (upd_inode ip (get_dinode d (dinode_off (i_inum i)))) (\<lambda>_.
         bindS (fs_brelse bp) (\<lambda>_.
         bindS (upd_inode ip (\<lambda>i. i\<lparr>i_valid := True\<rparr>)) (\<lambda>_.
         bindS (inode_at ip) (\<lambda>i'.
           if i_type i' = 0 then panicS ''ilock: no type'' else retS ())))))))))"

definition iunlock :: "nat \<Rightarrow> unit fsm" where
  "iunlock ip =
     bindS (inode_at ip) (\<lambda>i.
     if \<not> i_locked i \<or> i_ref i < 1 then panicS ''iunlock''
     else upd_inode ip (\<lambda>i. i\<lparr>i_locked := False\<rparr>))"

section \<open>File contents\<close>

definition bmap :: "nat \<Rightarrow> nat \<Rightarrow> nat fsm" where
  "bmap ip bn =
     bindS (inode_at ip) (\<lambda>i.
     if bn < NDIRECT then
       bindS (liftS (rd (i_addrs i) (int bn))) (\<lambda>addr.
       if addr = 0 then
         bindS (balloc (i_dev i)) (\<lambda>a.
         bindS (upd_inode ip (\<lambda>i. i\<lparr>i_addrs := (i_addrs i)[bn := word_of_nat a]\<rparr>)) (\<lambda>_. retS a))
       else retS (unat addr))
     else if bn - NDIRECT < NINDIRECT then
       bindS (liftS (rd (i_addrs i) (int NDIRECT))) (\<lambda>addr.
       bindS (if addr = 0 then
                bindS (balloc (i_dev i)) (\<lambda>a.
                bindS (upd_inode ip (\<lambda>i. i\<lparr>i_addrs := (i_addrs i)[NDIRECT := word_of_nat a]\<rparr>))
                  (\<lambda>_. retS a))
              else retS (unat addr)) (\<lambda>ind.
       bindS (fs_bread (i_dev i) ind) (\<lambda>bp.
       bindS (fs_data bp) (\<lambda>d.
       let addr = load32 d (4 * (bn - NDIRECT)) in
       if addr = 0 then
         bindS (balloc (i_dev i)) (\<lambda>a.
         bindS (fs_data bp) (\<lambda>d'.
         bindS (fs_set_data bp (store32 d' (4 * (bn - NDIRECT)) (word_of_nat a))) (\<lambda>_.
         bindS (fs_log_write bp) (\<lambda>_.
         bindS (fs_brelse bp) (\<lambda>_. retS a)))))
       else bindS (fs_brelse bp) (\<lambda>_. retS (unat addr))))))
     else panicS ''bmap: out of range'')"

text \<open>The two loops of \<^verbatim>\<open>itrunc\<close>.\<close>

function itrunc_direct :: "nat \<Rightarrow> nat \<Rightarrow> unit fsm" where
  "itrunc_direct ip k s =
     (if k < NDIRECT then
        bindS (inode_at ip) (\<lambda>i.
        bindS (liftS (rd (i_addrs i) (int k))) (\<lambda>addr.
        bindS (if addr \<noteq> 0 then
                 bindS (bfree (i_dev i) (unat addr)) (\<lambda>_.
                   upd_inode ip (\<lambda>i. i\<lparr>i_addrs := (i_addrs i)[k := 0]\<rparr>))
               else retS ()) (\<lambda>_. itrunc_direct ip (k + 1)))) s
      else retS () s)"
  by pat_completeness auto
termination by (relation "measure (\<lambda>(ip, k, s). NDIRECT - k)") auto

function itrunc_indirect :: "nat \<Rightarrow> mem \<Rightarrow> nat \<Rightarrow> unit fsm" where
  "itrunc_indirect dev a j s =
     (if j < NINDIRECT then
        bindS (if load32 a (4 * j) \<noteq> 0 then bfree dev (unat (load32 a (4 * j))) else retS ())
          (\<lambda>_. itrunc_indirect dev a (j + 1)) s
      else retS () s)"
  by pat_completeness auto
termination by (relation "measure (\<lambda>(dev, a, j, s). NINDIRECT - j)") auto

declare itrunc_direct.simps [simp del] itrunc_indirect.simps [simp del]

definition itrunc :: "nat \<Rightarrow> unit fsm" where
  "itrunc ip =
     bindS (itrunc_direct ip 0) (\<lambda>_.
     bindS (inode_at ip) (\<lambda>i.
     bindS (liftS (rd (i_addrs i) (int NDIRECT))) (\<lambda>addr.
     bindS (if addr \<noteq> 0 then
              bindS (fs_bread (i_dev i) (unat addr)) (\<lambda>bp.
              bindS (fs_data bp) (\<lambda>a.
              bindS (itrunc_indirect (i_dev i) a 0) (\<lambda>_.
              bindS (fs_brelse bp) (\<lambda>_.
              bindS (bfree (i_dev i) (unat addr)) (\<lambda>_.
                upd_inode ip (\<lambda>i. i\<lparr>i_addrs := (i_addrs i)[NDIRECT := 0]\<rparr>))))))
            else retS ()) (\<lambda>_.
     bindS (upd_inode ip (\<lambda>i. i\<lparr>i_size := 0\<rparr>)) (\<lambda>_. iupdate ip)))))"

definition iput :: "nat \<Rightarrow> unit fsm" where
  "iput ip =
     bindS (inode_at ip) (\<lambda>i0.
     if i_locked i0 then liftS (Inl Deadlock)
     else
       bindS (upd_inode ip (\<lambda>i. i\<lparr>i_locked := True\<rparr>)) (\<lambda>_.
       bindS (if i_valid i0 \<and> i_nlink i0 = 0 \<and> i_ref i0 = 1 then
                bindS (itrunc ip) (\<lambda>_.
                bindS (upd_inode ip (\<lambda>i. i\<lparr>i_type := 0\<rparr>)) (\<lambda>_.
                bindS (iupdate ip) (\<lambda>_.
                  upd_inode ip (\<lambda>i. i\<lparr>i_valid := False\<rparr>))))
              else retS ()) (\<lambda>_.
       bindS (upd_inode ip (\<lambda>i. i\<lparr>i_locked := False\<rparr>)) (\<lambda>_.
         upd_inode ip (\<lambda>i. i\<lparr>i_ref := i_ref i - 1\<rparr>)))))"

definition iunlockput :: "nat \<Rightarrow> unit fsm" where
  "iunlockput ip = bindS (iunlock ip) (\<lambda>_. iput ip)"

record stat =
  st_type :: "16 word"
  st_dev :: nat
  st_ino :: nat
  st_nlink :: "16 word"
  st_size :: "32 word"

definition stati :: "nat \<Rightarrow> stat fsm" where
  "stati ip = bindS (inode_at ip) (\<lambda>i.
     retS \<lparr>st_type = i_type i, st_dev = i_dev i, st_ino = i_inum i, st_nlink = i_nlink i,
       st_size = i_size i\<rparr>)"

text \<open>
  The loop of \<^verbatim>\<open>readi\<close>: \<open>n\<close> is what is left to read (\<^verbatim>\<open>n - tot\<close>). The offsets do not wrap here, since
  the callers have checked \<^verbatim>\<open>off + n\<close>.
\<close>

function readi_loop :: "nat \<Rightarrow> nat \<Rightarrow> nat \<Rightarrow> 8 word list fsm" where
  "readi_loop ip off n s =
     (if 0 < n then
        bindS (inode_at ip) (\<lambda>i.
        bindS (bmap ip (off div BSIZE)) (\<lambda>addr.
        bindS (fs_bread (i_dev i) addr) (\<lambda>bp.
        let m = min n (BSIZE - off mod BSIZE) in
        bindS (fs_data bp) (\<lambda>d.
        bindS (fs_brelse bp) (\<lambda>_.
        bindS (readi_loop ip (off + m) (n - m)) (\<lambda>rest.
          retS (read_bytes d (off mod BSIZE) m @ rest))))))) s
      else retS [] s)"
  by pat_completeness auto
termination
  by (relation "measure (\<lambda>(ip, off, n, s). n)") (auto simp: BSIZE_def)

function writei_loop :: "nat \<Rightarrow> 8 word list \<Rightarrow> nat \<Rightarrow> nat fsm" where
  "writei_loop ip src off s =
     (if src \<noteq> [] then
        bindS (inode_at ip) (\<lambda>i.
        bindS (bmap ip (off div BSIZE)) (\<lambda>addr.
        bindS (fs_bread (i_dev i) addr) (\<lambda>bp.
        let m = min (length src) (BSIZE - off mod BSIZE) in
        bindS (fs_data bp) (\<lambda>d.
        bindS (fs_set_data bp (write_bytes d (off mod BSIZE) (take m src))) (\<lambda>_.
        bindS (fs_log_write bp) (\<lambda>_.
        bindS (fs_brelse bp) (\<lambda>_.
          writei_loop ip (drop m src) (off + m)))))))) s
      else retS off s)"
  by pat_completeness auto
termination
  by (relation "measure (\<lambda>(ip, src, off, s). length src)") (auto simp: BSIZE_def)

declare readi_loop.simps [simp del] writei_loop.simps [simp del]

type_synonym devread = "16 word \<Rightarrow> (nat \<Rightarrow> (int \<times> 8 word list) fsm) option"
type_synonym devwrite = "16 word \<Rightarrow> (8 word list \<Rightarrow> int fsm) option"

definition dev_ok :: "16 word \<Rightarrow> bool" where
  "dev_ok major \<longleftrightarrow> 0 \<le> sint major \<and> sint major < int NDEV"

definition readi :: "devread \<Rightarrow> nat \<Rightarrow> 32 word \<Rightarrow> 32 word \<Rightarrow> (int \<times> 8 word list) fsm" where
  "readi dread ip off n =
     bindS (inode_at ip) (\<lambda>i.
     if i_type i = T_DEV then
       (if \<not> dev_ok (i_major i) then retS (-1, [])
        else case dread (i_major i) of None \<Rightarrow> retS (-1, []) | Some f \<Rightarrow> f (unat n))
     else if i_size i < off \<or> off + n < off then retS (-1, [])
     else
       let n' = (if i_size i < off + n then i_size i - off else n) in
       bindS (readi_loop ip (unat off) (unat n')) (\<lambda>bs. retS (uint n', bs)))"

definition writei :: "devwrite \<Rightarrow> nat \<Rightarrow> 8 word list \<Rightarrow> 32 word \<Rightarrow> 32 word \<Rightarrow> int fsm" where
  "writei dwrite ip src off n =
     bindS (inode_at ip) (\<lambda>i.
     if i_type i = T_DEV then
       (if \<not> dev_ok (i_major i) then retS (-1)
        else case dwrite (i_major i) of None \<Rightarrow> retS (-1) | Some f \<Rightarrow> f (take (unat n) src))
     else if i_size i < off \<or> off + n < off then retS (-1)
     else if word_of_nat (MAXFILE * BSIZE) < off + n then retS (-1)
     else if length src < unat n then liftS (Inl OutOfBounds)
     else
       bindS (writei_loop ip (take (unat n) src) (unat off)) (\<lambda>off'.
       bindS (inode_at ip) (\<lambda>i'.
       if 0 < n \<and> unat (i_size i') < off' then
         bindS (upd_inode ip (\<lambda>i. i\<lparr>i_size := word_of_nat off'\<rparr>)) (\<lambda>_.
         bindS (iupdate ip) (\<lambda>_. retS (uint n)))
       else retS (uint n))))"

section \<open>Directories\<close>

text \<open>\<^verbatim>\<open>namecmp\<close>, on two 14-byte buffers that are laid out one after the other.\<close>

definition namecmp :: "8 word list \<Rightarrow> 8 word list \<Rightarrow> int" where
  "namecmp s t =
     strncmp (write_bytes (write_bytes (\<lambda>_. 0) 0 (take DIRSIZ s)) DIRSIZ (take DIRSIZ t)) 0 DIRSIZ DIRSIZ"

text \<open>\<^verbatim>\<open>struct dirent\<close> as its 16 bytes.\<close>

definition de_inum :: "8 word list \<Rightarrow> nat" where
  "de_inum de = unat (load16 (\<lambda>k. if k < length de then de ! k else 0) 0)"

definition de_name :: "8 word list \<Rightarrow> 8 word list" where
  "de_name de = drop 2 de"

function dirlookup_loop :: "devread \<Rightarrow> nat \<Rightarrow> 8 word list \<Rightarrow> nat \<Rightarrow> nat \<Rightarrow> (nat \<times> nat) option fsm" where
  "dirlookup_loop dread dp name sz off s =
     (if off < sz then
        bindS (readi dread dp (word_of_nat off) (word_of_nat DIRENT)) (\<lambda>(r, de).
        if r \<noteq> int DIRENT then panicS ''dirlookup read''
        else if de_inum de = 0 then dirlookup_loop dread dp name sz (off + DIRENT)
        else if namecmp name (de_name de) = 0 then
          bindS (inode_at dp) (\<lambda>i.
          bindS (iget (i_dev i) (de_inum de)) (\<lambda>ip. retS (Some (ip, off))))
        else dirlookup_loop dread dp name sz (off + DIRENT)) s
      else retS None s)"
  by pat_completeness auto
termination
  by (relation "measure (\<lambda>(dread, dp, name, sz, off, s). sz - off)") (auto simp: DIRENT_def)

definition dirlookup :: "devread \<Rightarrow> nat \<Rightarrow> 8 word list \<Rightarrow> (nat \<times> nat) option fsm" where
  "dirlookup dread dp name =
     bindS (inode_at dp) (\<lambda>i.
     if i_type i \<noteq> T_DIR then panicS ''dirlookup not DIR''
     else dirlookup_loop dread dp name (unat (i_size i)) 0)"

text \<open>The search of \<^verbatim>\<open>dirlink\<close> for an empty entry: its offset, or the size of the directory.\<close>

function dirlink_scan :: "devread \<Rightarrow> nat \<Rightarrow> nat \<Rightarrow> nat \<Rightarrow> nat fsm" where
  "dirlink_scan dread dp sz off s =
     (if off < sz then
        bindS (readi dread dp (word_of_nat off) (word_of_nat DIRENT)) (\<lambda>(r, de).
        if r \<noteq> int DIRENT then panicS ''dirlink read''
        else if de_inum de = 0 then retS off
        else dirlink_scan dread dp sz (off + DIRENT)) s
      else retS off s)"
  by pat_completeness auto
termination
  by (relation "measure (\<lambda>(dread, dp, sz, off, s). sz - off)") (auto simp: DIRENT_def)

declare dirlookup_loop.simps [simp del] dirlink_scan.simps [simp del]

text \<open>The entry that \<^verbatim>\<open>dirlink\<close> writes: the number and the name, padded by \<^verbatim>\<open>strncpy\<close>.\<close>

definition make_dirent :: "nat \<Rightarrow> 8 word list \<Rightarrow> 8 word list" where
  "make_dirent inum name =
     read_bytes (store16 (strncpy (write_bytes (\<lambda>_. 0) 100 (take DIRSIZ name)) 2 100 (int DIRSIZ)) 0
       (word_of_nat inum)) 0 DIRENT"

definition dirlink :: "devread \<Rightarrow> devwrite \<Rightarrow> nat \<Rightarrow> 8 word list \<Rightarrow> nat \<Rightarrow> int fsm" where
  "dirlink dread dwrite dp name inum =
     bindS (dirlookup dread dp name) (\<lambda>found.
     case found of
       Some (ip, _) \<Rightarrow> bindS (iput ip) (\<lambda>_. retS (-1))
     | None \<Rightarrow>
         bindS (inode_at dp) (\<lambda>i.
         bindS (dirlink_scan dread dp (unat (i_size i)) 0) (\<lambda>off.
         bindS (writei dwrite dp (make_dirent inum name) (word_of_nat off) (word_of_nat DIRENT)) (\<lambda>r.
         if r \<noteq> int DIRENT then panicS ''dirlink'' else retS 0))))"

section \<open>Path names\<close>

definition slash :: "8 word" where
  "slash = 47"

text \<open>
  \<^verbatim>\<open>skipelem\<close>: the element (cut to 14 bytes, as \<^verbatim>\<open>memmove(name, s, DIRSIZ)\<close> does) and the rest of
  the path; \<open>None\<close> for the null pointer. The \<^verbatim>\<open>while\<close> loops advance over slashes and over
  other characters.
\<close>

definition skipelem :: "8 word list \<Rightarrow> (8 word list \<times> 8 word list) option" where
  "skipelem path =
     (let s = dropWhile (\<lambda>c. c = slash) path in
      if s = [] then None
      else
        let elem = takeWhile (\<lambda>c. c \<noteq> slash) s;
            name = (if DIRSIZ \<le> length elem then take DIRSIZ elem else elem) in
        Some (name, dropWhile (\<lambda>c. c = slash) (dropWhile (\<lambda>c. c \<noteq> slash) s)))"

lemma skipelem_shorter: "skipelem path = Some (name, rest) \<Longrightarrow> length rest < length path"
proof -
  assume sk: "skipelem path = Some (name, rest)"
  let ?s = "dropWhile (\<lambda>c. c = slash) path"
  have s: "?s \<noteq> []" "rest = dropWhile (\<lambda>c. c = slash) (dropWhile (\<lambda>c. c \<noteq> slash) ?s)"
    using sk by (auto simp: skipelem_def Let_def split: if_splits)
  then obtain c cs where c: "?s = c # cs" by (cases ?s) auto
  then have "c \<noteq> slash" using hd_dropWhile [of "\<lambda>c. c = slash" path] by auto
  then have "rest = dropWhile (\<lambda>c. c = slash) (dropWhile (\<lambda>c. c \<noteq> slash) cs)" using s(2) c by simp
  then have "length rest \<le> length cs" by (metis length_dropWhile_le order_trans)
  moreover have "length ?s \<le> length path" by (rule length_dropWhile_le)
  ultimately show ?thesis using c by simp
qed

function namex_loop :: "devread \<Rightarrow> bool \<Rightarrow> nat \<Rightarrow> 8 word list \<Rightarrow> 8 word list \<Rightarrow> (nat \<times> 8 word list) option fsm" where
  "namex_loop dread parent ip path name s =
     (case skipelem path of
        None \<Rightarrow>
          if parent then bindS (iput ip) (\<lambda>_. retS None) s else retS (Some (ip, name)) s
      | Some (name', rest) \<Rightarrow>
          bindS (ilock ip) (\<lambda>_.
          bindS (inode_at ip) (\<lambda>i.
          if i_type i \<noteq> T_DIR then bindS (iunlockput ip) (\<lambda>_. retS None)
          else if parent \<and> rest = [] then bindS (iunlock ip) (\<lambda>_. retS (Some (ip, name')))
          else
            bindS (dirlookup dread ip name') (\<lambda>found.
            case found of
              None \<Rightarrow> bindS (iunlockput ip) (\<lambda>_. retS None)
            | Some (next, _) \<Rightarrow>
                bindS (iunlockput ip) (\<lambda>_. namex_loop dread parent next rest name')))) s)"
  by pat_completeness auto
termination
  by (relation "measure (\<lambda>(dread, parent, ip, path, name, s). length path)")
     (auto dest: skipelem_shorter)

declare namex_loop.simps [simp del]

definition namex :: "devread \<Rightarrow> nat \<Rightarrow> 8 word list \<Rightarrow> bool \<Rightarrow> (nat \<times> 8 word list) option fsm" where
  "namex dread cwd path parent =
     bindS (if path \<noteq> [] \<and> hd path = slash then iget 1 ROOTINO else idup cwd) (\<lambda>ip.
       namex_loop dread parent ip path [])"

definition namei :: "devread \<Rightarrow> nat \<Rightarrow> 8 word list \<Rightarrow> nat option fsm" where
  "namei dread cwd path = bindS (namex dread cwd path False) (\<lambda>r. retS (map_option fst r))"

definition nameiparent :: "devread \<Rightarrow> nat \<Rightarrow> 8 word list \<Rightarrow> (nat \<times> 8 word list) option fsm" where
  "nameiparent dread cwd path = namex dread cwd path True"

section \<open>The format of an inode on disk\<close>

lemma store_addrs_other:
  "a + 4 * length as \<le> b \<or> b + 4 \<le> a \<Longrightarrow> load32 (store_addrs d a as) b = load32 d b"
  by (induction d a as rule: store_addrs.induct) (auto simp: mem_simps)

lemma store_addrs_other16:
  "a + 4 * length as \<le> b \<or> b + 2 \<le> a \<Longrightarrow> load16 (store_addrs d a as) b = load16 d b"
  by (induction d a as rule: store_addrs.induct) (auto simp: mem_simps)

lemma store_addrs_nth:
  "k < length as \<Longrightarrow> load32 (store_addrs d a as) (a + 4 * k) = as ! k"
proof (induction d a as arbitrary: k rule: store_addrs.induct)
  case (2 d off a as)
  then show ?case
    by (cases k) (simp_all add: store_addrs_other mem_simps add.assoc [symmetric])
qed simp

lemma load_store_addrs: "length as = NDIRECT + 1 \<Longrightarrow> load_addrs (store_addrs d a as) a = as"
  by (rule nth_equalityI) (simp_all add: load_addrs_def store_addrs_nth del: upt_Suc)

lemma get_put_dinode:
  assumes "length (i_addrs i) = NDIRECT + 1"
  shows "get_dinode (put_dinode d off i) off j =
    j\<lparr>i_type := i_type i, i_major := i_major i, i_minor := i_minor i, i_nlink := i_nlink i,
      i_size := i_size i, i_addrs := i_addrs i\<rparr>"
  using assms
  by (simp add: get_dinode_def put_dinode_def load_store_addrs store_addrs_other store_addrs_other16 mem_simps)

lemma put_dinode_other:
  assumes "length (i_addrs i) = NDIRECT + 1"
  shows "off + DINODE \<le> b \<or> b + 4 \<le> off \<Longrightarrow> load32 (put_dinode d off i) b = load32 d b"
    and "off + DINODE \<le> b \<or> b + 2 \<le> off \<Longrightarrow> load16 (put_dinode d off i) b = load16 d b"
  using assms
  by (auto simp: put_dinode_def store_addrs_other store_addrs_other16 mem_simps DINODE_def NDIRECT_def)

lemma get_put_dinode_other:
  assumes "length (i_addrs i) = NDIRECT + 1" and "off + DINODE \<le> off' \<or> off' + DINODE \<le> off"
  shows "get_dinode (put_dinode d off i) off' j = get_dinode d off' j"
proof -
  have "load32 (put_dinode d off i) (off' + 12 + 4 * k) = load32 d (off' + 12 + 4 * k)" if "k < 13" for k
    using that assms(2) by (intro put_dinode_other [OF assms(1)]) (auto simp: DINODE_def)
  then have addrs: "load_addrs (put_dinode d off i) (off' + 12) = load_addrs d (off' + 12)"
    by (simp add: load_addrs_def NDIRECT_def del: upt_Suc)
  show ?thesis
    unfolding get_dinode_def addrs using assms(2)
    by (auto simp: put_dinode_other [OF assms(1)] DINODE_def)
qed

lemma dinode_off_apart:
  assumes "i \<noteq> j" and "IBLOCK i sb = IBLOCK j sb"
  shows "dinode_off i + DINODE \<le> dinode_off j \<or> dinode_off j + DINODE \<le> dinode_off i"
proof -
  have "i div IPB = j div IPB" using assms(2) by (simp add: IBLOCK_def)
  then have "i mod IPB \<noteq> j mod IPB" using assms(1) by (metis div_mult_mod_eq)
  then show ?thesis by (auto simp: dinode_off_def DINODE_def)
qed

section \<open>Rules for the inode cache\<close>

lemma wp_inode_at [simp]: "wp (inode_at ip) Q = (\<lambda>s. Q (fs_icache s ! ip) s)"
  by (simp add: inode_at_def)

lemma wp_upd_inode [simp]:
  "wp (upd_inode ip f) Q = (\<lambda>s. Q () (s\<lparr>fs_icache := (fs_icache s)[ip := f (fs_icache s ! ip)]\<rparr>))"
  by (simp add: fun_eq_iff wp_def upd_inode_def)

lemma icache_tx [simp]: "txo q (s\<lparr>fs_icache := ic\<rparr>) = txo q s" "space (s\<lparr>fs_icache := ic\<rparr>) k h = space s k h"
  by (simp_all add: txo_def space_def)

text \<open>What a step does that may change inodes of the cache but nothing else of the frame.\<close>

definition frame_i :: "fs \<Rightarrow> fs \<Rightarrow> bool" where
  "frame_i s s' \<longleftrightarrow> frame s (s'\<lparr>fs_icache := fs_icache s\<rparr>)"

lemma frame_i_refl [simp]: "frame_i s s"
  by (simp add: frame_i_def)

lemma frame_i_trans: "frame_i s t \<Longrightarrow> frame_i t u \<Longrightarrow> frame_i s u"
  by (simp add: frame_i_def frame_def)

lemma frame_frame_i: "frame s s' \<Longrightarrow> frame_i s s'"
  by (simp add: frame_i_def frame_def)

lemma frame_i_in_log: "frame_i s s' \<Longrightarrow> in_log (fs_log s') b = in_log (fs_log s) b"
  by (simp add: frame_i_def frame_def in_log_def)

text \<open>Reading a block of a transaction without keeping it.\<close>

lemma wp_peek:
  assumes t: "txo q s" and b: "b < disk_size s" "b \<notin> ran (held s)" and r: "space s k (Suc h)"
    and Q: "\<And>s'. txo q s' \<Longrightarrow> frame s s' \<Longrightarrow> view s' = view s \<Longrightarrow> held s' = held s \<Longrightarrow> space s' k (Suc h) \<Longrightarrow>
      Q (view s b) s'"
  shows "wp (fs_bread 1 b) (\<lambda>x. wp (fs_data x) (\<lambda>d. wp (fs_brelse x) (\<lambda>_. Q d))) s"
proof (rule wp_bread [OF t b r], rule wp_data)
  fix s1 x
  assume s1: "txo q s1" "frame s s1" "view s1 = view s" "held s x = None" "held s1 = (held s)(x \<mapsto> b)"
    "space s1 k h"
  show "txo q s1" "held s1 x = Some b" using s1 by simp_all
  show "wp (fs_brelse x) (\<lambda>_. Q (view s1 b)) s1"
  proof (rule wp_brelse [OF s1(1) _ s1(6)])
    show "held s1 x = Some b" using s1 by simp
    fix s2
    assume s2: "txo q s2" "frame s1 s2" "view s2 = view s1" "held s2 = (held s1)(x := None)" "space s2 k (Suc h)"
    have "held s2 = held s" using s1(4,5) s2(4) by (auto simp: fun_eq_iff)
    then show "Q (view s1 b) s2"
      using Q [OF s2(1) frame_trans [OF s1(2) s2(2)]] s1(3) s2(3,5) by simp
  qed
qed

text \<open>The same idiom where the released buffer's data is used later.\<close>

lemma wp_modify:
  assumes t: "tx s" and b: "b < disk_size s" "b \<notin> ran (held s)" "\<not> in_log (fs_log s) b"
    and r: "space s (Suc k) (Suc h)"
    and Q: "\<And>s'. tx s' \<Longrightarrow> frame s s' \<Longrightarrow> view s' = (view s)(b := f (view s b)) \<Longrightarrow> held s' = held s \<Longrightarrow>
      space s' k (Suc h) \<Longrightarrow> Q () s'"
  shows "wp (fs_bread 1 b) (\<lambda>x. wp (fs_data x) (\<lambda>d.
    wp (fs_set_data x (f d)) (\<lambda>_. wp (fs_log_write x) (\<lambda>_. wp (fs_brelse x) Q)))) s"
proof (rule wp_bread [OF t b(1,2) r], rule wp_data)
  fix s1 x
  assume s1: "tx s1" "frame s s1" "view s1 = view s" "held s x = None" "held s1 = (held s)(x \<mapsto> b)"
    "space s1 (Suc k) h"
  show "tx s1" "held s1 x = Some b" using s1 by simp_all
  show "wp (fs_set_data x (f (view s1 b))) (\<lambda>_. wp (fs_log_write x) (\<lambda>_. wp (fs_brelse x) Q)) s1"
  proof (rule wp_put [OF s1(1) _ _ s1(6)])
    show "held s1 x = Some b" "\<not> in_log (fs_log s1) b" using s1 b(3) frame_in_log [OF s1(2)] by simp_all
    fix s2
    assume s2: "tx s2" "frame s1 s2" "view s2 = (view s1)(b := f (view s1 b))" "held s2 = held s1" "space s2 k h"
    show "wp (fs_brelse x) Q s2"
    proof (rule wp_brelse [OF s2(1) _ s2(5)])
      show "held s2 x = Some b" using s2 s1 by simp
      fix s3
      assume s3: "tx s3" "frame s2 s3" "view s3 = view s2" "held s3 = (held s2)(x := None)" "space s3 k (Suc h)"
      have "held s3 = held s" using s3(4) s2(4) s1(4,5) by (auto simp: fun_eq_iff)
      then show "Q () s3"
        using Q [OF s3(1) _ _ _ s3(5)] frame_trans [OF s1(2) frame_trans [OF s2(2) s3(2)]] s1(3) s2(3) s3(3)
        by simp
    qed
  qed
qed

lemma wp_iupdate:
  assumes t: "tx s" and d: "i_dev (fs_icache s ! ip) = 1" "length (i_addrs (fs_icache s ! ip)) = NDIRECT + 1"
    and b: "IBLOCK (i_inum (fs_icache s ! ip)) (fs_sb s) < disk_size s"
      "IBLOCK (i_inum (fs_icache s ! ip)) (fs_sb s) \<notin> ran (held s)"
      "\<not> in_log (fs_log s) (IBLOCK (i_inum (fs_icache s ! ip)) (fs_sb s))"
    and r: "space s (Suc k) (Suc h)"
    and Q: "\<And>s'. tx s' \<Longrightarrow> frame s s' \<Longrightarrow> held s' = held s \<Longrightarrow> space s' k (Suc h) \<Longrightarrow>
      view s' = (view s)(IBLOCK (i_inum (fs_icache s ! ip)) (fs_sb s) :=
        put_dinode (view s (IBLOCK (i_inum (fs_icache s ! ip)) (fs_sb s)))
          (dinode_off (i_inum (fs_icache s ! ip))) (fs_icache s ! ip)) \<Longrightarrow> Q () s'"
  shows "wp (iupdate ip) Q s"
  unfolding iupdate_def using wp_modify [OF t b r] Q d by simp

section \<open>The contents of a file\<close>

text \<open>
  The block that holds block \<open>bn\<close> of a file, and the byte at an offset. A file of \<open>sz\<close> bytes is
  well formed if all its blocks exist, on the disk and outside the log, and are different
  from each other and from the indirect block.
\<close>

definition fblock :: "fs \<Rightarrow> inode \<Rightarrow> nat \<Rightarrow> nat" where
  "fblock s i bn =
     unat (if bn < NDIRECT then i_addrs i ! bn
           else load32 (view s (unat (i_addrs i ! NDIRECT))) (4 * (bn - NDIRECT)))"

definition file_byte :: "fs \<Rightarrow> inode \<Rightarrow> nat \<Rightarrow> 8 word" where
  "file_byte s i k = view s (fblock s i (k div BSIZE)) (k mod BSIZE)"

definition mapped :: "fs \<Rightarrow> inode \<Rightarrow> nat \<Rightarrow> bool" where
  "mapped s i bn \<longleftrightarrow>
     bn < MAXFILE \<and> fblock s i bn \<noteq> 0 \<and> fblock s i bn < disk_size s \<and> \<not> in_log (fs_log s) (fblock s i bn) \<and>
     (NDIRECT \<le> bn \<longrightarrow> i_addrs i ! NDIRECT \<noteq> 0 \<and> unat (i_addrs i ! NDIRECT) < disk_size s)"

definition file_ok :: "fs \<Rightarrow> inode \<Rightarrow> nat \<Rightarrow> bool" where
  "file_ok s i sz \<longleftrightarrow>
     i_dev i = 1 \<and> length (i_addrs i) = NDIRECT + 1 \<and>
     (\<forall>bn. bn * BSIZE < sz \<longrightarrow> mapped s i bn \<and> fblock s i bn \<noteq> unat (i_addrs i ! NDIRECT)) \<and>
     (\<forall>bn cn. bn * BSIZE < sz \<longrightarrow> cn * BSIZE < sz \<longrightarrow> fblock s i bn = fblock s i cn \<longrightarrow> bn = cn)"

lemma fblock_cong: "view s' = view s \<Longrightarrow> fblock s' i = fblock s i"
  by (rule ext) (simp add: fblock_def)

lemma file_byte_cong:
  assumes v: "view s' = view s"
  shows "file_byte s' i = file_byte s i"
  by (rule ext) (simp add: file_byte_def fblock_cong [OF v] v)

lemma file_ok_block:
  assumes "file_ok s i sz" and "off < sz"
  shows "mapped s i (off div BSIZE)" and "off div BSIZE * BSIZE < sz"
proof -
  show lt: "off div BSIZE * BSIZE < sz" using assms(2) by (simp add: BSIZE_def)
  then show "mapped s i (off div BSIZE)" using assms(1) by (simp add: file_ok_def)
qed

lemma wp_bmap_mapped:
  assumes t: "txo q s" and i: "i_dev (fs_icache s ! ip) = 1" "length (i_addrs (fs_icache s ! ip)) = NDIRECT + 1"
    and m: "mapped s (fs_icache s ! ip) bn" and q: "held s = Map.empty" and r: "space s k (Suc h)"
    and Q: "\<And>s'. txo q s' \<Longrightarrow> frame s s' \<Longrightarrow> view s' = view s \<Longrightarrow> held s' = Map.empty \<Longrightarrow> space s' k (Suc h) \<Longrightarrow>
      Q (fblock s (fs_icache s ! ip) bn) s'"
  shows "wp (bmap ip bn) Q s"
proof -
  let ?i = "fs_icache s ! ip"
  have self: "Q (fblock s ?i bn) s" using Q [OF t frame_refl refl q r] .
  show ?thesis
  proof (cases "bn < NDIRECT")
    case True
    then have "fblock s ?i bn = unat (i_addrs ?i ! bn)" "i_addrs ?i ! bn \<noteq> 0"
      using m by (auto simp: fblock_def mapped_def)
    then show ?thesis using True self i by (auto simp: bmap_def)
  next
    case False
    let ?ind = "unat (i_addrs ?i ! NDIRECT)"
    have ind: "i_addrs ?i ! NDIRECT \<noteq> 0" "?ind < disk_size s" "bn - NDIRECT < NINDIRECT"
      using m False by (auto simp: mapped_def MAXFILE_def)
    have fb: "fblock s ?i bn = unat (load32 (view s ?ind) (4 * (bn - NDIRECT)))"
      "load32 (view s ?ind) (4 * (bn - NDIRECT)) \<noteq> 0"
      using m False by (auto simp: fblock_def mapped_def)
    have "wp (fs_bread 1 ?ind) (\<lambda>bp. wp (fs_data bp) (\<lambda>d. wp (let addr = load32 d (4 * (bn - NDIRECT)) in
       if addr = 0 then
         bindS (balloc (i_dev ?i)) (\<lambda>a.
         bindS (fs_data bp) (\<lambda>d'.
         bindS (fs_set_data bp (store32 d' (4 * (bn - NDIRECT)) (word_of_nat a))) (\<lambda>_.
         bindS (fs_log_write bp) (\<lambda>_.
         bindS (fs_brelse bp) (\<lambda>_. retS a)))))
       else bindS (fs_brelse bp) (\<lambda>_. retS (unat addr))) Q)) s"
    proof (rule wp_bread [OF t ind(2) _ r], (simp add: q), rule wp_data)
      fix s1 x
      assume s1: "txo q s1" "frame s s1" "view s1 = view s" "held s x = None" "held s1 = (held s)(x \<mapsto> ?ind)"
        "space s1 k h"
      show "txo q s1" "held s1 x = Some ?ind" using s1 by simp_all
      have "wp (fs_brelse x) (\<lambda>_. Q (fblock s ?i bn)) s1"
      proof (rule wp_brelse [OF s1(1) _ s1(6)])
        show "held s1 x = Some ?ind" using s1 by simp
        fix s2
        assume s2: "txo q s2" "frame s1 s2" "view s2 = view s1" "held s2 = (held s1)(x := None)" "space s2 k (Suc h)"
        have "held s2 = Map.empty" using s1(4,5) s2(4) q by (auto simp: fun_eq_iff)
        then show "Q (fblock s ?i bn) s2"
          using Q [OF s2(1) frame_trans [OF s1(2) s2(2)]] s1(3) s2(3,5) by simp
      qed
      then show "wp (let addr = load32 (view s1 ?ind) (4 * (bn - NDIRECT)) in
       if addr = 0 then
         bindS (balloc (i_dev ?i)) (\<lambda>a.
         bindS (fs_data x) (\<lambda>d'.
         bindS (fs_set_data x (store32 d' (4 * (bn - NDIRECT)) (word_of_nat a))) (\<lambda>_.
         bindS (fs_log_write x) (\<lambda>_.
         bindS (fs_brelse x) (\<lambda>_. retS a)))))
       else bindS (fs_brelse x) (\<lambda>_. retS (unat addr))) Q s1"
        using fb s1(3) by (simp add: Let_def)
    qed
    then show ?thesis using False ind i by (simp add: bmap_def Let_def)
  qed
qed

lemma read_bytes_view: "read_bytes (view s b) a m = map (\<lambda>k. view s b (a + k)) [0..<m]"
  by (rule nth_equalityI) (simp_all add: read_bytes_def)

lemma block_arith:
  assumes "off mod BSIZE + k < BSIZE"
  shows "(off + k) div BSIZE = off div BSIZE" and "(off + k) mod BSIZE = off mod BSIZE + k"
proof -
  have e: "off + k = (off mod BSIZE + k) + off div BSIZE * BSIZE"
    using div_mult_mod_eq [of off BSIZE] by linarith
  show "(off + k) div BSIZE = off div BSIZE"
    by (subst e, subst div_mult_self1) (use assms in \<open>simp_all add: BSIZE_def\<close>)
  show "(off + k) mod BSIZE = off mod BSIZE + k"
    by (subst e, subst mod_mult_self1) (use assms in simp)
qed

lemma file_byte_run:
  assumes "m \<le> BSIZE - off mod BSIZE"
  shows "map (file_byte s i) [off..<off + m] = read_bytes (view s (fblock s i (off div BSIZE))) (off mod BSIZE) m"
proof (rule nth_equalityI)
  fix k
  assume "k < length (map (file_byte s i) [off..<off + m])"
  then have k: "off mod BSIZE + k < BSIZE" "k < m" using assms by (auto simp: BSIZE_def)
  from block_arith [OF k(1)] show "map (file_byte s i) [off..<off + m] ! k =
      read_bytes (view s (fblock s i (off div BSIZE))) (off mod BSIZE) m ! k"
    using k by (simp add: file_byte_def read_bytes_def)
qed simp

lemma wp_readi_loop:
  assumes "txo q s" and "file_ok s (fs_icache s ! ip) sz" and "off + n \<le> sz" and "held s = Map.empty"
    and "space s k (Suc h)"
    and "\<And>s'. txo q s' \<Longrightarrow> frame s s' \<Longrightarrow> view s' = view s \<Longrightarrow> held s' = Map.empty \<Longrightarrow> space s' k (Suc h) \<Longrightarrow>
      Q (map (file_byte s (fs_icache s ! ip)) [off..<off + n]) s'"
  shows "wp (readi_loop ip off n) Q s"
  using assms
proof (induction n arbitrary: off s Q rule: less_induct)
  case (less n)
  show ?case
  proof (cases "0 < n")
    case False
    then show ?thesis
      using less.prems(6) [OF less.prems(1) frame_refl refl less.prems(4,5)]
      by (simp add: wp_cong [of "readi_loop ip off n" s "retS []"] readi_loop.simps)
  next
    case True
    let ?i = "fs_icache s ! ip" and ?m = "min n (BSIZE - off mod BSIZE)"
    have mp: "mapped s ?i (off div BSIZE)"
      using file_ok_block(1) [OF less.prems(2), of off] less.prems(3) True by simp
    have m: "0 < ?m" "?m \<le> n" using True by (auto simp: BSIZE_def)
    have ii: "i_dev ?i = 1" "length (i_addrs ?i) = NDIRECT + 1" using less.prems(2) by (simp_all add: file_ok_def)
    let ?fb = "fblock s ?i (off div BSIZE)"
    have "wp (bmap ip (off div BSIZE)) (\<lambda>addr. wp (fs_bread 1 addr) (\<lambda>bp. wp (fs_data bp) (\<lambda>d.
        wp (fs_brelse bp) (\<lambda>_. wp (readi_loop ip (off + ?m) (n - ?m)) (\<lambda>rest.
          Q (read_bytes d (off mod BSIZE) ?m @ rest)))))) s"
    proof (rule wp_bmap_mapped [OF less.prems(1) ii mp less.prems(4,5)])
      fix s1
      assume s1: "txo q s1" "frame s s1" "view s1 = view s" "held s1 = Map.empty" "space s1 k (Suc h)"
      have fb: "?fb < disk_size s1" using mp s1(2) by (simp add: mapped_def frame_def)
      show "wp (fs_bread 1 ?fb) (\<lambda>bp. wp (fs_data bp) (\<lambda>d.
        wp (fs_brelse bp) (\<lambda>_. wp (readi_loop ip (off + ?m) (n - ?m)) (\<lambda>rest.
          Q (read_bytes d (off mod BSIZE) ?m @ rest))))) s1"
      proof (rule wp_peek [OF s1(1) fb _ s1(5)])
        show "?fb \<notin> ran (held s1)" using s1(4) by simp
        fix s2
        assume s2: "txo q s2" "frame s1 s2" "view s2 = view s1" "held s2 = held s1" "space s2 k (Suc h)"
        have f2: "frame s s2" by (rule frame_trans [OF s1(2) s2(2)])
        have v2: "view s2 = view s" using s1(3) s2(3) by simp
        have ic: "fs_icache s2 = fs_icache s" using f2 by (simp add: frame_def)
        have ok2: "file_ok s2 (fs_icache s2 ! ip) sz"
          using less.prems(2) f2 frame_in_log [OF f2]
          by (simp add: file_ok_def mapped_def fblock_cong [OF v2] ic frame_def)
        show "wp (readi_loop ip (off + ?m) (n - ?m)) (\<lambda>rest.
            Q (read_bytes (view s1 ?fb) (off mod BSIZE) ?m @ rest)) s2"
        proof (rule less.IH [OF _ s2(1) ok2 _ _ s2(5)])
          show "n - ?m < n" "off + ?m + (n - ?m) \<le> sz" "held s2 = Map.empty"
            using m less.prems(3) s2(4) s1(4) by auto
          fix s3
          assume s3: "txo q s3" "frame s2 s3" "view s3 = view s2" "held s3 = Map.empty" "space s3 k (Suc h)"
          have split: "[off..<off + n] = [off..<off + ?m] @ [off + ?m..<off + ?m + (n - ?m)]"
            using m(2) upt_add_eq_append [of off "off + ?m" "n - ?m"] by simp
          show "Q (read_bytes (view s1 ?fb) (off mod BSIZE) ?m @
              map (file_byte s2 (fs_icache s2 ! ip)) [off + ?m..<off + ?m + (n - ?m)]) s3"
            using less.prems(6) [OF s3(1) frame_trans [OF f2 s3(2)] _ s3(4,5)] s3(3) v2 s1(3)
              file_byte_run [of ?m off s ?i] split
            by (simp add: file_byte_cong [OF v2] ic)
        qed
      qed
    qed
    then have "wp (bindS (inode_at ip) (\<lambda>i.
        bindS (bmap ip (off div BSIZE)) (\<lambda>addr.
        bindS (fs_bread (i_dev i) addr) (\<lambda>bp.
        let m = min n (BSIZE - off mod BSIZE) in
        bindS (fs_data bp) (\<lambda>d.
        bindS (fs_brelse bp) (\<lambda>_.
        bindS (readi_loop ip (off + m) (n - m)) (\<lambda>rest.
          retS (read_bytes d (off mod BSIZE) m @ rest))))))) ) Q s"
      using ii(1) by (simp add: Let_def)
    then show ?thesis
      using True by (subst wp_cong [OF readi_loop.simps]) (simp add: wp_def)
  qed
qed

end
