(* ===== verification/Files.thy ===== *)
theory Files
  imports Inode
begin

text \<open>
  Properties of the files, directories and paths of \<^verbatim>\<open>hw09/starter-hw09/xv6/fs.c\<close> that \<open>Inode\<close>
  models. A file is the sequence of its bytes (\<open>file_byte\<close>): reading returns a stretch of it,
  writing inside the file replaces a stretch and changes nothing else on the disk.
\<close>

section \<open>Writing inside a file\<close>

text \<open>What a write of \<open>bs\<close> at \<open>off\<close> makes of a file of \<open>sz\<close> bytes.\<close>

definition written :: "fs \<Rightarrow> inode \<Rightarrow> nat \<Rightarrow> nat \<Rightarrow> 8 word list \<Rightarrow> fs \<Rightarrow> bool" where
  "written s i sz off bs s' \<longleftrightarrow>
     (\<forall>j < sz. file_byte s' i j =
        (if off \<le> j \<and> j < off + length bs then bs ! (j - off) else file_byte s i j)) \<and>
     (\<forall>b. (\<forall>bn. bn * BSIZE < sz \<longrightarrow> b \<noteq> fblock s i bn) \<longrightarrow> view s' b = view s b)"

text \<open>The number of blocks that a stretch of \<open>n\<close> bytes touches.\<close>

definition span :: "nat \<Rightarrow> nat \<Rightarrow> nat" where
  "span off n = (if n = 0 then 0 else (off + n - 1) div BSIZE - off div BSIZE + 1)"

lemma span_step:
  assumes "0 < n" and "m = min n (BSIZE - off mod BSIZE)"
  shows "span off n = Suc (span (off + m) (n - m))"
proof (cases "n \<le> BSIZE - off mod BSIZE")
  case True
  then have "m = n" "off mod BSIZE + (n - 1) < BSIZE" using assms by (auto simp: BSIZE_def)
  then show ?thesis
    using block_arith(1) [of off "n - 1"] assms(1) by (simp add: span_def)
next
  case False
  then have m: "m = BSIZE - off mod BSIZE" "m < n" using assms by auto
  have "off mod BSIZE \<le> BSIZE" by (simp add: BSIZE_def less_imp_le)
  then have "off + m = Suc (off div BSIZE) * BSIZE"
    unfolding m(1) mult_Suc using div_mult_mod_eq [of off BSIZE] by linarith
  then have d: "(off + m) div BSIZE = Suc (off div BSIZE)" by (simp add: BSIZE_def)
  have "(off + m) div BSIZE \<le> (off + m + (n - m) - 1) div BSIZE" using m(2) by (intro div_le_mono) simp
  then show ?thesis using m(2) d by (simp add: span_def)
qed

lemma write_chunk_frame:
  assumes ok: "file_ok s i sz" and bn: "bn * BSIZE < sz"
    and v: "view s' = (view s)(fblock s i bn := d)"
  shows "fblock s' i = fblock s i"
proof
  fix cn
  have "fblock s i bn \<noteq> unat (i_addrs i ! NDIRECT)" using ok bn by (simp add: file_ok_def)
  then show "fblock s' i cn = fblock s i cn" using v by (simp add: fblock_def)
qed

lemma write_chunk_ok:
  assumes ok: "file_ok s i sz" and fb: "fblock s' i = fblock s i" and f: "frame s s'"
  shows "file_ok s' i sz"
  using ok f frame_in_log [OF f] by (simp add: file_ok_def mapped_def fb frame_def)

lemma write_chunk_bytes:
  assumes ok: "file_ok s i sz" and off: "off + length bs \<le> sz" and bs: "bs \<noteq> []" "off mod BSIZE + length bs \<le> BSIZE"
    and v: "view s' = (view s)(fblock s i (off div BSIZE) :=
      write_bytes (view s (fblock s i (off div BSIZE))) (off mod BSIZE) bs)"
  shows "written s i sz off bs s'"
proof -
  have off': "off < sz" using off bs by (cases bs) auto
  have bn: "off div BSIZE * BSIZE < sz" by (rule file_ok_block(2) [OF ok off'])
  note fb = write_chunk_frame [OF ok bn v]
  have inj: "fblock s i (j div BSIZE) = fblock s i (off div BSIZE) \<longleftrightarrow> j div BSIZE = off div BSIZE"
    if "j < sz" for j
    using ok bn file_ok_block(2) [OF ok that] by (auto simp: file_ok_def)
  have "file_byte s' i j = (if off \<le> j \<and> j < off + length bs then bs ! (j - off) else file_byte s i j)"
    if j: "j < sz" for j
  proof (cases "j div BSIZE = off div BSIZE")
    case True
    then have e: "j + off mod BSIZE = off + j mod BSIZE"
      using div_mult_mod_eq [of j BSIZE] div_mult_mod_eq [of off BSIZE] by (metis add.commute add.left_commute)
    have fj: "file_byte s' i j =
        write_bytes (view s (fblock s i (off div BSIZE))) (off mod BSIZE) bs (j mod BSIZE)"
      by (simp add: file_byte_def fb v True)
    show ?thesis
    proof (cases "off \<le> j \<and> j < off + length bs")
      case in_range: True
      have "j mod BSIZE - off mod BSIZE = j - off" using e in_range by linarith
      then show ?thesis using in_range e by (simp add: fj write_bytes_in)
    next
      case False
      then have "j mod BSIZE < off mod BSIZE \<or> off mod BSIZE + length bs \<le> j mod BSIZE"
        using e by linarith
      then show ?thesis unfolding fj using False True by (auto simp: write_bytes_other file_byte_def)
    qed
  next
    case False
    have "\<not> (off \<le> j \<and> j < off + length bs)"
    proof
      assume a: "off \<le> j \<and> j < off + length bs"
      then have "off mod BSIZE + (j - off) < BSIZE" using bs(2) by linarith
      from block_arith(1) [OF this] False a show False by simp
    qed
    then show ?thesis using False inj [OF j] by (auto simp: file_byte_def fb v)
  qed
  moreover have "view s' b = view s b" if "\<forall>bn. bn * BSIZE < sz \<longrightarrow> b \<noteq> fblock s i bn" for b
    using that bn v by auto
  ultimately show ?thesis by (simp add: written_def)
qed

lemma written_trans:
  assumes w: "written s i sz off as s1" "written s1 i sz (off + length as) bs s2"
    and fb: "fblock s1 i = fblock s i"
  shows "written s i sz off (as @ bs) s2"
  using w fb by (auto simp: written_def nth_append)

lemma wp_writei_loop:
  assumes "tx s" and "file_ok s (fs_icache s ! ip) sz" and "off + length src \<le> sz" and "held s = Map.empty"
    and "space s (span off (length src) + k) (Suc h)"
    and "\<And>s'. tx s' \<Longrightarrow> frame s s' \<Longrightarrow> written s (fs_icache s ! ip) sz off src s' \<Longrightarrow>
      fblock s' (fs_icache s ! ip) = fblock s (fs_icache s ! ip) \<Longrightarrow>
      held s' = Map.empty \<Longrightarrow> space s' k (Suc h) \<Longrightarrow> Q (off + length src) s'"
  shows "wp (writei_loop ip src off) Q s"
  using assms
proof (induction "length src" arbitrary: src off s Q rule: less_induct)
  case less
  let ?i = "fs_icache s ! ip"
  note tx = less.prems(1) and ok = less.prems(2) and Q = less.prems(6)
  show ?case
  proof (cases "src = []")
    case True
    have "written s ?i sz off [] s" by (auto simp: written_def)
    then show ?thesis
      using Q [OF tx frame_refl _ refl less.prems(4)] less.prems(5) True
      by (simp add: wp_cong [of "writei_loop ip [] off" s "retS off"] writei_loop.simps span_def)
  next
    case False
    let ?m = "min (length src) (BSIZE - off mod BSIZE)" and ?fb = "fblock s ?i (off div BSIZE)"
    have off: "off < sz" using less.prems(3) False by (cases src) auto
    note bn = file_ok_block [OF ok off]
    have m: "0 < ?m" "off mod BSIZE + ?m \<le> BSIZE" using False by (auto simp: BSIZE_def)
    have ii: "i_dev ?i = 1" "length (i_addrs ?i) = NDIRECT + 1" using ok by (simp_all add: file_ok_def)
    let ?k = "span (off + ?m) (length src - ?m) + k"
    have sp: "space s (Suc ?k) (Suc h)" using less.prems(5) span_step [OF _ refl, of "length src" off] False by simp
    have "wp (bmap ip (off div BSIZE)) (\<lambda>addr. wp (fs_bread 1 addr) (\<lambda>bp. wp (fs_data bp) (\<lambda>d.
        wp (fs_set_data bp (write_bytes d (off mod BSIZE) (take ?m src))) (\<lambda>_. wp (fs_log_write bp) (\<lambda>_.
        wp (fs_brelse bp) (\<lambda>_. wp (writei_loop ip (drop ?m src) (off + ?m)) Q)))))) s"
    proof (rule wp_bmap_mapped [OF tx ii bn(1) less.prems(4) sp])
      fix s1
      assume s1: "tx s1" "frame s s1" "view s1 = view s" "held s1 = Map.empty" "space s1 (Suc ?k) (Suc h)"
      have fb: "?fb < disk_size s1" "?fb \<notin> ran (held s1)" "\<not> in_log (fs_log s1) ?fb"
        using bn(1) s1(2,4) frame_in_log [OF s1(2)] by (simp_all add: mapped_def frame_def)
      show "wp (fs_bread 1 ?fb) (\<lambda>bp. wp (fs_data bp) (\<lambda>d.
        wp (fs_set_data bp (write_bytes d (off mod BSIZE) (take ?m src))) (\<lambda>_. wp (fs_log_write bp) (\<lambda>_.
        wp (fs_brelse bp) (\<lambda>_. wp (writei_loop ip (drop ?m src) (off + ?m)) Q))))) s1"
      proof (rule wp_modify [OF s1(1) fb s1(5)])
        fix s2
        assume s2: "tx s2" "frame s1 s2"
          "view s2 = (view s1)(?fb := write_bytes (view s1 ?fb) (off mod BSIZE) (take ?m src))"
          "held s2 = held s1" "space s2 ?k (Suc h)"
        have f2: "frame s s2" by (rule frame_trans [OF s1(2) s2(2)])
        have ic: "fs_icache s2 = fs_icache s" using f2 by (simp add: frame_def)
        have v2: "view s2 = (view s)(?fb := write_bytes (view s ?fb) (off mod BSIZE) (take ?m src))"
          using s2(3) s1(3) by simp
        note fb2 = write_chunk_frame [OF ok bn(2) v2]
        have w2: "written s ?i sz off (take ?m src) s2"
          using less.prems(3) m False by (intro write_chunk_bytes [OF ok _ _ _ v2]) auto
        have ok2: "file_ok s2 (fs_icache s2 ! ip) sz" unfolding ic by (rule write_chunk_ok [OF ok fb2 f2])
        show "wp (writei_loop ip (drop ?m src) (off + ?m)) Q s2"
        proof (rule less.hyps [OF _ s2(1) ok2])
          show "length (drop ?m src) < length src" "off + ?m + length (drop ?m src) \<le> sz" "held s2 = Map.empty"
            using m(1) less.prems(3) s1(4) s2(4) False by auto
          show "space s2 (span (off + ?m) (length (drop ?m src)) + k) (Suc h)" using s2(5) by simp
          fix s3
          assume s3: "tx s3" "frame s2 s3" "written s2 (fs_icache s2 ! ip) sz (off + ?m) (drop ?m src) s3"
            "fblock s3 (fs_icache s2 ! ip) = fblock s2 (fs_icache s2 ! ip)" "held s3 = Map.empty"
            "space s3 k (Suc h)"
          have "written s ?i sz off (take ?m src @ drop ?m src) s3"
            using s3(3) by (intro written_trans [OF w2 _ fb2]) (simp add: ic)
          then show "Q (off + ?m + length (drop ?m src)) s3"
            using Q [OF s3(1) frame_trans [OF f2 s3(2)] _ _ s3(5,6)] s3(4) fb2
            by (simp add: ic)
        qed
      qed
    qed
    then have "wp (bindS (inode_at ip) (\<lambda>i.
        bindS (bmap ip (off div BSIZE)) (\<lambda>addr.
        bindS (fs_bread (i_dev i) addr) (\<lambda>bp.
        let m = min (length src) (BSIZE - off mod BSIZE) in
        bindS (fs_data bp) (\<lambda>d.
        bindS (fs_set_data bp (write_bytes d (off mod BSIZE) (take m src))) (\<lambda>_.
        bindS (fs_log_write bp) (\<lambda>_.
        bindS (fs_brelse bp) (\<lambda>_.
          writei_loop ip (drop m src) (off + m))))))))) Q s"
      using ii(1) by (simp add: Let_def)
    then show ?thesis
      using False by (subst wp_cong [OF writei_loop.simps]) (simp add: wp_def)
  qed
qed

section \<open>Reading and writing\<close>

text \<open>A cached inode of an ordinary file whose blocks are all there, with \<open>q\<close> calls outstanding.\<close>

definition open_at :: "int \<Rightarrow> fs \<Rightarrow> nat \<Rightarrow> bool" where
  "open_at q s ip \<longleftrightarrow>
     txo q s \<and> held s = Map.empty \<and> i_type (fs_icache s ! ip) \<noteq> T_DEV \<and>
     file_ok s (fs_icache s ! ip) (unat (i_size (fs_icache s ! ip)))"

abbreviation open_file :: "fs \<Rightarrow> nat \<Rightarrow> bool" where
  "open_file \<equiv> open_at 1"

definition file_bytes :: "fs \<Rightarrow> nat \<Rightarrow> 8 word list" where
  "file_bytes s ip = map (file_byte s (fs_icache s ! ip)) [0..<unat (i_size (fs_icache s ! ip))]"

lemma file_bytes_slice:
  "off \<le> unat (i_size (fs_icache s ! ip)) \<Longrightarrow>
   take n (drop off (file_bytes s ip)) =
     map (file_byte s (fs_icache s ! ip)) [off..<off + min n (unat (i_size (fs_icache s ! ip)) - off)]"
  by (rule nth_equalityI) (auto simp: file_bytes_def)

lemma unat_add_no_wrap:
  fixes a b :: "32 word"
  assumes "\<not> a + b < a"
  shows "unat (a + b) = unat a + unat b"
  using assms by (simp add: no_olen_add_nat not_less unat_plus_simple [symmetric] le_add_same_cancel1)

lemma wp_readi:
  assumes f: "open_at q s ip" and sp: "space s k (Suc h)"
    and no: "\<not> i_size (fs_icache s ! ip) < off" "\<not> off + n < off"
    and Q: "\<And>s'. open_at q s' ip \<Longrightarrow> frame s s' \<Longrightarrow> view s' = view s \<Longrightarrow> space s' k (Suc h) \<Longrightarrow>
      Q (int (length (take (unat n) (drop (unat off) (file_bytes s ip)))),
         take (unat n) (drop (unat off) (file_bytes s ip))) s'"
  shows "wp (readi dread ip off n) Q s"
proof -
  let ?i = "fs_icache s ! ip"
  let ?n = "if i_size ?i < off + n then i_size ?i - off else n"
  have le: "unat off \<le> unat (i_size ?i)" using no(1) by (simp add: word_le_nat_alt not_less)
  have n': "unat ?n = min (unat n) (unat (i_size ?i) - unat off)"
    using le no(1) unat_add_no_wrap [OF no(2)]
    by (auto simp: word_less_nat_alt unat_sub word_le_nat_alt not_less)
  have tx: "txo q s" "held s = Map.empty" "file_ok s ?i (unat (i_size ?i))" "i_type ?i \<noteq> T_DEV"
    using f by (simp_all add: open_at_def)
  have lo: "unat off + unat ?n \<le> unat (i_size ?i)" unfolding n' using le by simp
  have "wp (readi_loop ip (unat off) (unat ?n)) (\<lambda>bs. Q (uint ?n, bs)) s"
  proof (rule wp_readi_loop [OF tx(1,3) lo tx(2) sp])
    fix s'
    assume s': "txo q s'" "frame s s'" "view s' = view s" "held s' = Map.empty" "space s' k (Suc h)"
    have ic: "fs_icache s' = fs_icache s" using s'(2) by (simp add: frame_def)
    have "open_at q s' ip"
      unfolding open_at_def ic using s' tx write_chunk_ok [OF tx(3) fblock_cong [OF s'(3)] s'(2)] by simp
    then show "Q (uint ?n, map (file_byte s ?i) [unat off..<unat off + unat ?n]) s'"
      using Q [OF _ s'(2,3,5)] unfolding file_bytes_slice [OF le] n' [symmetric] by simp
  qed
  then show ?thesis using tx(4) no by (simp add: readi_def Let_def)
qed

text \<open>
  C17. Reading a file: \<^verbatim>\<open>readi\<close> returns exactly the bytes of the file from \<open>off\<close> on, as many as
  asked for or as there are left, and reports their number; an offset beyond the end or a
  range that wraps around is refused with -1. It changes no block, and it needs no
  transaction (\<open>q\<close> may be 0).
\<close>

theorem readi_correct:
  assumes "open_at q s ip" and "space s k 1"
  shows "\<exists>s'. readi dread ip off n s = Inr (s',
      if i_size (fs_icache s ! ip) < off \<or> off + n < off then (-1, [])
      else let bs = take (unat n) (drop (unat off) (file_bytes s ip)) in (int (length bs), bs)) \<and>
    open_at q s' ip \<and> view s' = view s \<and> frame s s' \<and> space s' k 1"
proof (cases "i_size (fs_icache s ! ip) < off \<or> off + n < off")
  case True
  then show ?thesis
    using assms by (auto simp: readi_def inode_at_def getS_def bindS_def retS_def open_at_def)
next
  case False
  have "wp (readi dread ip off n) (\<lambda>(r, bs) s'. bs = take (unat n) (drop (unat off) (file_bytes s ip)) \<and>
      r = int (length bs) \<and> open_at q s' ip \<and> view s' = view s \<and> frame s s' \<and> space s' k 1) s"
    by (rule wp_readi [OF assms(1), where k = k and h = 0]) (use assms False in auto)
  then show ?thesis using False by (auto simp: wp_result Let_def)
qed

lemma file_size_bound:
  assumes "file_ok s i sz"
  shows "sz \<le> MAXFILE * BSIZE"
proof (cases "sz = 0")
  case False
  then have "mapped s i ((sz - 1) div BSIZE)" by (intro file_ok_block [OF assms]) simp
  then have "(sz - 1) div BSIZE < MAXFILE" by (simp add: mapped_def)
  then show ?thesis by (simp add: BSIZE_def MAXFILE_def NDIRECT_def NINDIRECT_def div_less_iff_less_mult)
qed simp

lemma wp_writei:
  assumes f: "open_file s ip" and fit: "unat off + unat n \<le> unat (i_size (fs_icache s ! ip))"
    and src: "unat n \<le> length src" and sp: "space s (span (unat off) (unat n) + k) 1"
    and Q: "\<And>s1. open_file s1 ip \<Longrightarrow> frame s s1 \<Longrightarrow> space s1 k 1 \<Longrightarrow>
      file_bytes s1 ip = take (unat off) (file_bytes s ip) @ take (unat n) src @
        drop (unat off + unat n) (file_bytes s ip) \<Longrightarrow>
      \<forall>b. (\<forall>bn. fblock s (fs_icache s ! ip) bn \<noteq> b) \<longrightarrow> view s1 b = view s b \<Longrightarrow>
      fblock s1 (fs_icache s ! ip) = fblock s (fs_icache s ! ip) \<Longrightarrow> Q (uint n) s1"
  shows "wp (writei dwrite ip src off n) Q s"
proof -
  let ?i = "fs_icache s ! ip" and ?src = "take (unat n) src"
  have tx: "tx s" "held s = Map.empty" "file_ok s ?i (unat (i_size ?i))" "i_type ?i \<noteq> T_DEV"
    using f by (simp_all add: open_at_def)
  have "unat (i_size ?i) < 2 ^ LENGTH(32)" by (rule unsigned_less)
  with fit have lt: "unat off + unat n < 2 ^ 32" by simp
  then have add: "unat (off + n) = unat off + unat n" by (simp add: unat_word_ariths)
  have g: "\<not> i_size ?i < off" "\<not> off + n < off" using fit add by (simp_all add: word_less_nat_alt)
  have "\<not> word_of_nat (MAXFILE * BSIZE) < off + n"
    using file_size_bound [OF tx(3)] fit add
    by (simp add: word_less_nat_alt MAXFILE_def NDIRECT_def NINDIRECT_def BSIZE_def)
  note g = g this
  have "wp (writei_loop ip ?src (unat off)) (\<lambda>off' s1. off' = unat off + unat n \<and> Q (uint n) s1 \<and>
      fs_icache s1 = fs_icache s) s"
  proof (rule wp_writei_loop [OF tx(1,3) _ tx(2), where k = k and h = 0])
    show "unat off + length ?src \<le> unat (i_size ?i)" "space s (span (unat off) (length ?src) + k) (Suc 0)"
      using fit src sp by simp_all
    fix s1
    assume s1: "tx s1" "frame s s1" "written s ?i (unat (i_size ?i)) (unat off) ?src s1"
      "fblock s1 ?i = fblock s ?i" "held s1 = Map.empty" "space s1 k (Suc 0)"
    have ic: "fs_icache s1 = fs_icache s" using s1(2) by (simp add: frame_def)
    then have op: "open_file s1 ip" using s1 tx write_chunk_ok [OF tx(3) s1(4,2)] by (simp add: open_at_def)
    have bytes: "file_bytes s1 ip = take (unat off) (file_bytes s ip) @ ?src @
        drop (unat off + unat n) (file_bytes s ip)"
      using s1(3) src fit unfolding written_def file_bytes_def ic
      by (intro nth_equalityI) (auto simp: nth_append)
    have "view s1 b = view s b" if "\<forall>bn. fblock s ?i bn \<noteq> b" for b
      using s1(3) that unfolding written_def by metis
    then have "Q (uint n) s1" using Q [OF op s1(2) _ bytes _ s1(4)] s1(6) by simp
    then show "unat off + length ?src = unat off + unat n \<and> Q (uint n) s1 \<and> fs_icache s1 = fs_icache s"
      using src ic by simp
  qed
  then show ?thesis using tx(4) g src fit by (simp add: writei_def) (auto elim!: wp_mono)
qed

text \<open>
  C18. Writing inside a file: \<^verbatim>\<open>writei\<close> of \<open>n\<close> bytes that end before the end of the file succeeds,
  replaces exactly these bytes, across any number of blocks and through the indirect block,
  and leaves every block that is not one of the file's alone; reading the range back returns
  what was written.
\<close>

theorem writei_readi_roundtrip:
  assumes f: "open_file s ip" and fit: "unat off + unat n \<le> unat (i_size (fs_icache s ! ip))"
    and src: "unat n \<le> length src" and sp: "space s (span (unat off) (unat n)) 1"
  shows "\<exists>s1 s2. writei dwrite ip src off n s = Inr (s1, uint n) \<and>
    file_bytes s1 ip = take (unat off) (file_bytes s ip) @ take (unat n) src @
      drop (unat off + unat n) (file_bytes s ip) \<and>
    (\<forall>b. (\<forall>bn. fblock s (fs_icache s ! ip) bn \<noteq> b) \<longrightarrow> view s1 b = view s b) \<and>
    readi dread ip off n s1 = Inr (s2, (uint n, take (unat n) src))"
proof -
  have "wp (writei dwrite ip src off n) (\<lambda>r s1. r = uint n \<and> open_file s1 ip \<and> frame s s1 \<and> space s1 0 1 \<and>
      file_bytes s1 ip = take (unat off) (file_bytes s ip) @ take (unat n) src @
        drop (unat off + unat n) (file_bytes s ip) \<and>
      (\<forall>b. (\<forall>bn. fblock s (fs_icache s ! ip) bn \<noteq> b) \<longrightarrow> view s1 b = view s b)) s"
    by (rule wp_writei [OF f fit src, where k = 0]) (use sp in auto)
  then obtain s1 where s1: "writei dwrite ip src off n s = Inr (s1, uint n)" "open_file s1 ip" "frame s s1"
    "space s1 0 1"
    "file_bytes s1 ip = take (unat off) (file_bytes s ip) @ take (unat n) src @
       drop (unat off + unat n) (file_bytes s ip)"
    "\<forall>b. (\<forall>bn. fblock s (fs_icache s ! ip) bn \<noteq> b) \<longrightarrow> view s1 b = view s b"
    by (auto simp: wp_result)
  have ic: "fs_icache s1 = fs_icache s" using s1(3) by (simp add: frame_def)
  have "unat (i_size (fs_icache s ! ip)) < 2 ^ LENGTH(32)" by (rule unsigned_less)
  with fit have "unat off + unat n < 2 ^ 32" by simp
  then have "unat (off + n) = unat off + unat n" by (simp add: unat_word_ariths)
  then have g: "\<not> i_size (fs_icache s ! ip) < off" "\<not> off + n < off"
    using fit by (simp_all add: word_less_nat_alt)
  have len: "length (file_bytes s ip) = unat (i_size (fs_icache s ! ip))" by (simp add: file_bytes_def)
  have again: "take (unat n) (drop (unat off) (file_bytes s1 ip)) = take (unat n) src"
    unfolding s1(5) using fit src len by simp
  have "wp (readi dread ip off n) (\<lambda>r s2. r = (uint n, take (unat n) src)) s1"
    by (rule wp_readi [OF s1(2), where k = 0 and h = 0]) (use s1(4) g ic again src in simp_all)
  then obtain s2 where "readi dread ip off n s1 = Inr (s2, (uint n, take (unat n) src))"
    by (auto simp: wp_result)
  then show ?thesis using s1(1,5,6) by blast
qed

text \<open>A file of five bytes in block 50, in the transaction of the log example.\<close>

definition ex_inode :: inode where
  "ex_inode = empty_inode\<lparr>i_dev := 1, i_inum := 3, i_ref := 1, i_valid := True, i_type := 2, i_nlink := 1,
     i_size := 5, i_addrs := 50 # replicate 12 0\<rparr>"

definition ex_file :: fs where
  "ex_file = ex_fs\<lparr>fs_icache := [ex_inode]\<rparr>"

lemma ex_file_open: "open_file ex_file 0" and ex_file_space: "space ex_file 3 1"
proof -
  have "tx ex_fs" "held ex_fs = Map.empty" using ex_fs_pre by (simp_all add: alloc_pre_def ex_fs_def ex_bio_held)
  then have t: "tx ex_file" "held ex_file = Map.empty" by (simp_all add: ex_file_def txo_def)
  have bn: "bn * BSIZE < 5 \<longleftrightarrow> bn = 0" for bn by (cases bn) (auto simp: BSIZE_def)
  have fb: "fblock ex_file ex_inode 0 = 50" by (simp add: fblock_def NDIRECT_def ex_inode_def)
  have "mapped ex_file ex_inode 0"
    by (simp add: mapped_def fb MAXFILE_def NDIRECT_def) (simp add: ex_file_def ex_fs_def in_log_def ex_log_def)
  then have "file_ok ex_file ex_inode 5"
    by (simp add: file_ok_def bn fb) (simp add: ex_inode_def NDIRECT_def)
  then show "open_file ex_file 0"
    using t by (simp add: open_at_def) (simp add: ex_file_def ex_inode_def T_DEV_def)
  show "space ex_file 3 1" using ex_fs_space by (simp add: ex_file_def space_def)
qed

theorem readi_correct_witness:
  "\<exists>s'. readi (\<lambda>_. None) 0 6 1 ex_file = Inr (s', (-1, [])) \<and> view s' = view ex_file"
  using readi_correct [OF ex_file_open ex_file_space, of "\<lambda>_. None" 6 1]
  by (auto simp: ex_file_def ex_inode_def)

theorem writei_readi_roundtrip_witness:
  "\<exists>s1 s2. writei (\<lambda>_. None) 0 [7, 8] 1 2 ex_file = Inr (s1, 2) \<and>
     readi (\<lambda>_. None) 0 1 2 s1 = Inr (s2, (2, [7, 8]))"
proof -
  have "space ex_file (span (unat (1::32 word)) (unat (2::32 word))) 1"
    by (rule space_mono [OF ex_file_space]) (simp_all add: span_def BSIZE_def)
  from writei_readi_roundtrip [OF ex_file_open _ _ this, of "[7, 8]" "\<lambda>_. None" "\<lambda>_. None"] show ?thesis
    by (auto simp: ex_file_def ex_inode_def)
qed

section \<open>Inodes on disk and in the cache\<close>

text \<open>
  Inodes persist: what \<^verbatim>\<open>iupdate\<close> writes for a cached inode is what \<^verbatim>\<open>ilock\<close> reads into
  another cache slot for the same inode number that has not been read yet; inodes with other
  numbers, also in the same block, are as they were.
\<close>

theorem iupdate_ilock_roundtrip:
  assumes t: "tx s" "held s = Map.empty"
    and i: "i_dev (fs_icache s ! ip) = 1" "length (i_addrs (fs_icache s ! ip)) = NDIRECT + 1"
      "i_type (fs_icache s ! ip) \<noteq> 0"
    and b: "IBLOCK (i_inum (fs_icache s ! ip)) (fs_sb s) < disk_size s"
      "\<not> in_log (fs_log s) (IBLOCK (i_inum (fs_icache s ! ip)) (fs_sb s))"
    and j: "jp < length (fs_icache s)" "i_dev (fs_icache s ! jp) = 1"
      "i_inum (fs_icache s ! jp) = i_inum (fs_icache s ! ip)" "\<not> i_valid (fs_icache s ! jp)"
      "1 \<le> i_ref (fs_icache s ! jp)" "\<not> i_locked (fs_icache s ! jp)"
    and sp: "space s 1 1"
  shows "\<exists>s1 s2. iupdate ip s = Inr (s1, ()) \<and> ilock jp s1 = Inr (s2, ()) \<and>
    fs_icache s2 ! jp = (fs_icache s ! ip)\<lparr>i_ref := i_ref (fs_icache s ! jp), i_locked := True, i_valid := True\<rparr> \<and>
    (\<forall>n x. n \<noteq> i_inum (fs_icache s ! ip) \<longrightarrow>
       get_dinode (view s2 (IBLOCK n (fs_sb s))) (dinode_off n) x =
       get_dinode (view s (IBLOCK n (fs_sb s))) (dinode_off n) x)"
proof -
  let ?i = "fs_icache s ! ip" and ?j = "fs_icache s ! jp"
  let ?b = "IBLOCK (i_inum ?i) (fs_sb s)" and ?o = "dinode_off (i_inum ?i)"
  define V where "V = (view s)(?b := put_dinode (view s ?b) ?o ?i)"
  have "wp (iupdate ip) (\<lambda>_ s1. tx s1 \<and> frame s s1 \<and> held s1 = Map.empty \<and> space s1 0 1 \<and> view s1 = V) s"
    by (rule wp_iupdate [OF t(1) i(1,2) b(1) _ b(2), where k = 0 and h = 0]) (use t sp in \<open>auto simp: V_def\<close>)
  then obtain s1 where s1: "iupdate ip s = Inr (s1, ())" "tx s1" "frame s s1" "held s1 = Map.empty"
    "space s1 0 1" "view s1 = V" by (auto simp: wp_result)
  have e: "fs_icache s1 = fs_icache s" "fs_sb s1 = fs_sb s" "disk_size s1 = disk_size s"
    using s1(3) by (simp_all add: frame_def)
  let ?s1 = "s1\<lparr>fs_icache := (fs_icache s1)[jp := ?j\<lparr>i_locked := True\<rparr>]\<rparr>"
  have x: "tx ?s1" "held ?s1 = Map.empty" "view ?s1 = V" "space ?s1 0 (Suc 0)"
    using s1 by (simp_all add: txo_def space_def)
  let ?J = "?i\<lparr>i_ref := i_ref ?j, i_locked := True, i_valid := True\<rparr>"
  have got: "get_dinode (V ?b) ?o (?j\<lparr>i_locked := True\<rparr>) = ?J\<lparr>i_valid := False\<rparr>"
    using i j by (simp add: V_def get_put_dinode)
  have "wp (ilock jp) (\<lambda>_ s2. fs_icache s2 ! jp = ?J \<and> view s2 = V) s1"
  proof -
    have "wp (fs_bread 1 ?b) (\<lambda>bp. wp (fs_data bp) (\<lambda>d.
        wp (upd_inode jp (get_dinode d ?o)) (\<lambda>_. wp (fs_brelse bp) (\<lambda>_.
        wp (upd_inode jp (\<lambda>i. i\<lparr>i_valid := True\<rparr>)) (\<lambda>_. wp (inode_at jp) (\<lambda>i'.
           wp (if i_type i' = 0 then panicS ''ilock: no type'' else retS ())
             (\<lambda>_ s2. fs_icache s2 ! jp = ?J \<and> view s2 = V))))))) ?s1"
    proof (rule wp_bread [OF x(1) _ _ x(4)], (use b e x in simp_all)[2], rule wp_data)
      fix s2 y
      assume s2: "tx s2" "frame ?s1 s2" "view s2 = view ?s1" "held ?s1 y = None"
        "held s2 = (held ?s1)(y \<mapsto> ?b)" "space s2 0 0"
      show "tx s2" "held s2 y = Some ?b" using s2 by simp_all
      have ic: "fs_icache s2 = (fs_icache s)[jp := ?j\<lparr>i_locked := True\<rparr>]"
        using s2(2) e by (simp add: frame_def)
      let ?s3 = "s2\<lparr>fs_icache := (fs_icache s)[jp := ?J\<lparr>i_valid := False\<rparr>]\<rparr>"
      have v2: "view s2 = V" using s2(3) x(3) by simp
      have "wp (fs_brelse y) (\<lambda>_ s4. fs_icache s4 = (fs_icache s)[jp := ?J\<lparr>i_valid := False\<rparr>] \<and> view s4 = V) ?s3"
        by (rule wp_brelse [where q = 1 and b = ?b and k = 0 and n = 0])
           (use s2 x v2 in \<open>simp_all add: txo_def space_def frame_def\<close>)
      then show "wp (upd_inode jp (get_dinode (view s2 ?b) ?o)) (\<lambda>_. wp (fs_brelse y) (\<lambda>_.
        wp (upd_inode jp (\<lambda>i. i\<lparr>i_valid := True\<rparr>)) (\<lambda>_. wp (inode_at jp) (\<lambda>i'.
           wp (if i_type i' = 0 then panicS ''ilock: no type'' else retS ())
             (\<lambda>_ s2. fs_icache s2 ! jp = ?J \<and> view s2 = V))))) s2"
        using j(1) i(3) got by (auto simp: ic v2 elim!: wp_mono)
    qed
    then show ?thesis using j e by (simp add: ilock_def)
  qed
  then obtain s2 where s2: "ilock jp s1 = Inr (s2, ())" "fs_icache s2 ! jp = ?J" "view s2 = V"
    by (auto simp: wp_result)
  have "get_dinode (V (IBLOCK n (fs_sb s))) (dinode_off n) x =
      get_dinode (view s (IBLOCK n (fs_sb s))) (dinode_off n) x" if n: "n \<noteq> i_inum ?i" for n x
  proof (cases "IBLOCK n (fs_sb s) = ?b")
    case True
    then show ?thesis
      using get_put_dinode_other [OF i(2), of ?o "dinode_off n"] dinode_off_apart [OF n True] by (auto simp: V_def)
  qed (simp add: V_def)
  then show ?thesis using s1(1) s2 by blast
qed

theorem iupdate_ilock_roundtrip_witness:
  "\<exists>s1 s2. iupdate 0 (ex_file\<lparr>fs_icache := [ex_inode, ex_inode\<lparr>i_valid := False, i_size := 9\<rparr>]\<rparr>) = Inr (s1, ()) \<and>
     ilock 1 s1 = Inr (s2, ()) \<and> fs_icache s2 ! 1 = ex_inode\<lparr>i_locked := True\<rparr>"
proof -
  let ?s = "ex_file\<lparr>fs_icache := [ex_inode, ex_inode\<lparr>i_valid := False, i_size := 9\<rparr>]\<rparr>"
  have p: "tx ?s" "held ?s = Map.empty" "space ?s 1 1"
    using ex_file_open space_mono [OF ex_file_space, of 1 1] by (simp_all add: open_at_def)
  have ib: "IBLOCK 3 (fs_sb ex_file) = 32" "disk_size ex_file = 1000" "\<not> in_log (fs_log ex_file) 32"
    by (simp_all add: IBLOCK_def IPB_def BSIZE_def DINODE_def ex_file_def ex_fs_def in_log_def ex_log_def)
  have "\<exists>s1 s2. iupdate 0 ?s = Inr (s1, ()) \<and> ilock 1 s1 = Inr (s2, ()) \<and>
    fs_icache s2 ! 1 = (fs_icache ?s ! 0)\<lparr>i_ref := i_ref (fs_icache ?s ! 1), i_locked := True, i_valid := True\<rparr> \<and>
    (\<forall>n x. n \<noteq> i_inum (fs_icache ?s ! 0) \<longrightarrow>
       get_dinode (view s2 (IBLOCK n (fs_sb ?s))) (dinode_off n) x =
       get_dinode (view ?s (IBLOCK n (fs_sb ?s))) (dinode_off n) x)"
    by (rule iupdate_ilock_roundtrip [OF p(1,2)])
       (use p(3) ib in \<open>simp_all add: ex_inode_def NDIRECT_def empty_inode_def\<close>)
  then show ?thesis by (auto simp: ex_inode_def empty_inode_def)
qed

section \<open>Path names\<close>

text \<open>The elements of a path: the maximal runs of characters other than a slash.\<close>

fun path_elems :: "8 word list \<Rightarrow> 8 word list \<Rightarrow> 8 word list list" where
  "path_elems acc [] = (if acc = [] then [] else [acc])"
| "path_elems acc (c # cs) =
     (if c = slash then (if acc = [] then [] else [acc]) @ path_elems [] cs else path_elems (acc @ [c]) cs)"

lemma path_elems_slash: "path_elems [] (dropWhile (\<lambda>c. c = slash) p) = path_elems [] p"
  by (induction p) auto

lemma path_elems_run:
  "acc \<noteq> [] \<Longrightarrow> path_elems acc p =
     (acc @ takeWhile (\<lambda>c. c \<noteq> slash) p) # path_elems [] (dropWhile (\<lambda>c. c \<noteq> slash) p)"
  by (induction p arbitrary: acc) auto

lemma path_elems_Nil: "path_elems [] p = [] \<longleftrightarrow> dropWhile (\<lambda>c. c = slash) p = []"
  by (induction p) (auto simp: path_elems_run)

text \<open>
  \<^verbatim>\<open>skipelem\<close> takes a path apart: it returns the null pointer exactly when the path has no
  element left; otherwise the first element, cut to 14 bytes, and a rest that does not start
  with a slash and has exactly the other elements. So iterating it, as \<^verbatim>\<open>namex\<close> does, visits the
  elements in order, and the parent test \<^verbatim>\<open>*path == 0\<close> is true exactly at the last element.
\<close>

theorem skipelem_correct:
  "case skipelem path of
     None \<Rightarrow> path_elems [] path = []
   | Some (name, rest) \<Rightarrow> (\<exists>e es. path_elems [] path = e # es \<and> name = take DIRSIZ e \<and>
       path_elems [] rest = es \<and> (rest = [] \<longleftrightarrow> es = []))"
proof (cases "dropWhile (\<lambda>c. c = slash) path")
  case Nil
  then show ?thesis by (simp add: skipelem_def path_elems_Nil)
next
  case (Cons c cs)
  then have c: "c \<noteq> slash" using hd_dropWhile [of "\<lambda>c. c = slash" path] by auto
  let ?r = "dropWhile (\<lambda>c. c = slash) (dropWhile (\<lambda>c. c \<noteq> slash) cs)"
  have "path_elems [] path = (c # takeWhile (\<lambda>c. c \<noteq> slash) cs) # path_elems [] ?r"
    using path_elems_slash [of path] Cons c by (simp add: path_elems_run path_elems_slash)
  moreover have "?r = [] \<longleftrightarrow> path_elems [] ?r = []"
    unfolding path_elems_Nil by (metis dropWhile_idem)
  ultimately show ?thesis using Cons c by (simp add: skipelem_def Let_def)
qed

section \<open>Directories\<close>

text \<open>A name as a string: the bytes of the 14-byte field before the first NUL.\<close>

definition dir_name :: "8 word list \<Rightarrow> 8 word list" where
  "dir_name n = takeWhile (\<lambda>c. c \<noteq> 0) (take DIRSIZ n)"

lemma takeWhile_padded:
  "takeWhile (\<lambda>c. c \<noteq> 0) (xs @ replicate k (0::8 word)) = takeWhile (\<lambda>c. c \<noteq> 0) xs"
  by (induction xs) (simp_all add: takeWhile_replicate)

lemma read_bytes_padded:
  assumes "length xs \<le> n" and "\<And>k. a + length xs \<le> k \<Longrightarrow> k < a + n \<Longrightarrow> m k = 0"
  shows "read_bytes (write_bytes m a xs) a n = xs @ replicate (n - length xs) 0"
  using assms by (intro nth_equalityI) (auto simp: read_bytes_def write_bytes_in write_bytes_other nth_append)

lemma namecmp_zero: "namecmp s t = 0 \<longleftrightarrow> dir_name s = dir_name t"
proof -
  let ?m = "write_bytes (\<lambda>_. 0) 0 (take DIRSIZ s)"
  let ?m2 = "write_bytes ?m DIRSIZ (take DIRSIZ t)"
  have "read_bytes ?m2 0 DIRSIZ = read_bytes ?m 0 DIRSIZ"
    by (auto simp: read_bytes_def write_bytes_other)
  also have "\<dots> = take DIRSIZ s @ replicate (DIRSIZ - length (take DIRSIZ s)) 0"
    by (rule read_bytes_padded) auto
  finally have "field_name ?m2 0 DIRSIZ = dir_name s"
    by (simp add: field_name_def dir_name_def takeWhile_padded)
  moreover have "read_bytes ?m2 DIRSIZ DIRSIZ = take DIRSIZ t @ replicate (DIRSIZ - length (take DIRSIZ t)) 0"
    by (rule read_bytes_padded) (auto simp: write_bytes_other)
  then have "field_name ?m2 DIRSIZ DIRSIZ = dir_name t"
    by (simp add: field_name_def dir_name_def takeWhile_padded)
  ultimately show ?thesis by (simp add: namecmp_def strncmp_zero)
qed

definition dir_entry :: "fs \<Rightarrow> nat \<Rightarrow> nat \<Rightarrow> 8 word list" where
  "dir_entry s dp k = take DIRENT (drop (DIRENT * k) (file_bytes s dp))"

definition dir_match :: "fs \<Rightarrow> nat \<Rightarrow> 8 word list \<Rightarrow> nat \<Rightarrow> bool" where
  "dir_match s dp name k \<longleftrightarrow>
     de_inum (dir_entry s dp k) \<noteq> 0 \<and> dir_name (de_name (dir_entry s dp k)) = dir_name name"

definition dir_len :: "fs \<Rightarrow> nat \<Rightarrow> nat" where
  "dir_len s dp = unat (i_size (fs_icache s ! dp)) div DIRENT"

definition open_dir :: "fs \<Rightarrow> nat \<Rightarrow> bool" where
  "open_dir s dp \<longleftrightarrow>
     open_file s dp \<and> i_type (fs_icache s ! dp) = T_DIR \<and>
     unat (i_size (fs_icache s ! dp)) mod DIRENT = 0 \<and>
     length (fs_icache s) = NINODE \<and> (\<exists>i < NINODE. i_ref (fs_icache s ! i) = 0)"

text \<open>The slot for an inode that \<^verbatim>\<open>iget\<close> returns: it holds the number, and one reference more.\<close>

lemma iget_ok:
  assumes "length (fs_icache s) = NINODE" and "\<exists>i < NINODE. i_ref (fs_icache s ! i) = 0"
  shows "\<exists>ip j. ip < NINODE \<and> iget dev inum s = Inr (s\<lparr>fs_icache := (fs_icache s)[ip := j]\<rparr>, ip) \<and>
    i_dev j = dev \<and> i_inum j = inum \<and> 0 < i_ref j"
proof -
  let ?P = "\<lambda>i. 0 < i_ref (fs_icache s ! i) \<and> i_dev (fs_icache s ! i) = dev \<and> i_inum (fs_icache s ! i) = inum"
  let ?E = "\<lambda>i. i_ref (fs_icache s ! i) = 0"
  show ?thesis
  proof (cases "find ?P [0..<NINODE]")
    case (Some ip)
    then have "ip < NINODE" "?P ip" by (auto simp: find_Some_iff)
    then show ?thesis
      using Some
      by (intro exI [of _ ip] exI [of _ "(fs_icache s ! ip)\<lparr>i_ref := i_ref (fs_icache s ! ip) + 1\<rparr>"])
         (simp add: iget_def bindS_def upd_inode_def retS_def Let_def)
  next
    case None
    moreover obtain ip where "find ?E [0..<NINODE] = Some ip"
      using assms(2) by (cases "find ?E [0..<NINODE]") (auto simp: find_None_iff)
    moreover from this have "ip < NINODE" by (auto simp: find_Some_iff)
    ultimately show ?thesis
      by (intro exI [of _ ip] exI [of _ "(fs_icache s ! ip)\<lparr>i_dev := dev, i_inum := inum, i_ref := 1, i_valid := False\<rparr>"])
         (simp add: iget_def bindS_def upd_inode_def retS_def Let_def)
  qed
qed

lemma dir_cong:
  assumes "fs_icache s' = fs_icache s" and "view s' = view s"
  shows "file_bytes s' dp = file_bytes s dp" and "dir_len s' dp = dir_len s dp"
    and "dir_match s' dp name = dir_match s dp name" and "dir_entry s' dp = dir_entry s dp"
  by (simp_all add: file_bytes_def file_byte_cong [OF assms(2)] assms(1) dir_len_def dir_match_def
      dir_entry_def fun_eq_iff)

definition found_in :: "fs \<Rightarrow> nat \<Rightarrow> (nat \<times> nat) option \<Rightarrow> nat option \<Rightarrow> fs \<Rightarrow> bool" where
  "found_in s dp r m s' \<longleftrightarrow> view s' = view s \<and>
     (case m of
        None \<Rightarrow> r = None
      | Some k \<Rightarrow> (\<exists>ip < NINODE. r = Some (ip, DIRENT * k) \<and>
          i_inum (fs_icache s' ! ip) = de_inum (dir_entry s dp k) \<and> 0 < i_ref (fs_icache s' ! ip) \<and>
          i_dev (fs_icache s' ! ip) = i_dev (fs_icache s ! dp)))"

lemma found_in_cong:
  assumes "fs_icache s' = fs_icache s" and "view s' = view s"
  shows "found_in s' dp = found_in s dp"
  by (rule ext)+ (simp only: found_in_def assms dir_cong [OF assms])

text \<open>Reading entry \<open>k\<close> of a directory, as all the searches do.\<close>

lemma wp_read_entry:
  assumes op: "open_at q s dp" and al: "unat (i_size (fs_icache s ! dp)) mod DIRENT = 0" and k: "k < dir_len s dp"
    and sp: "space s n 1"
    and Q: "\<And>s'. open_at q s' dp \<Longrightarrow> frame s s' \<Longrightarrow> view s' = view s \<Longrightarrow> space s' n 1 \<Longrightarrow>
      Q (int DIRENT, dir_entry s dp k) s'"
  shows "wp (readi dread dp (word_of_nat (DIRENT * k)) (word_of_nat DIRENT)) Q s"
proof -
  let ?i = "fs_icache s ! dp" and ?off = "DIRENT * k"
  have "DIRENT * dir_len s dp = unat (i_size ?i)" using al by (auto simp: dir_len_def)
  moreover have "?off + DIRENT \<le> DIRENT * dir_len s dp" using k by (simp add: DIRENT_def)
  ultimately have le: "?off + DIRENT \<le> unat (i_size ?i)" by simp
  moreover have "unat (i_size ?i) < 2 ^ LENGTH(32)" by (rule unsigned_less)
  ultimately have u: "unat (word_of_nat ?off :: 32 word) = ?off" "unat (word_of_nat DIRENT :: 32 word) = DIRENT"
    "unat (word_of_nat ?off + word_of_nat DIRENT :: 32 word) = ?off + DIRENT"
    by (simp_all add: unat_of_nat unat_word_ariths take_bit_nat_def DIRENT_def)
  have g: "\<not> i_size ?i < word_of_nat ?off" "\<not> (word_of_nat ?off + word_of_nat DIRENT :: 32 word) < word_of_nat ?off"
    using le u by (simp_all add: word_less_nat_alt)
  have len: "length (dir_entry s dp k) = DIRENT" using le by (simp add: dir_entry_def file_bytes_def)
  have de: "take (unat (word_of_nat DIRENT :: 32 word)) (drop (unat (word_of_nat ?off :: 32 word)) (file_bytes s dp)) =
      dir_entry s dp k"
    by (simp only: u dir_entry_def)
  show ?thesis
    by (rule wp_readi [OF op _ g, where k = n and h = 0]) (use sp Q len in \<open>simp_all only: de One_nat_def\<close>)
qed

lemma wp_dirlookup_loop:
  assumes "open_dir s dp" and "space s n 1" and "k \<le> dir_len s dp"
  shows "wp (dirlookup_loop dread dp name (DIRENT * dir_len s dp) (DIRENT * k))
    (\<lambda>r s'. found_in s dp r (find (dir_match s dp name) [k..<dir_len s dp]) s') s"
  using assms
proof (induction "dir_len s dp - k" arbitrary: k s)
  case 0
  then have k: "k = dir_len s dp" by simp
  show ?case
    by (rule iffD2 [OF wp_cong [of _ _ "retS None"]], subst dirlookup_loop.simps)
       (use k in \<open>simp_all add: found_in_def\<close>)
next
  case (Suc d)
  then have k: "k < dir_len s dp" by simp
  let ?i = "fs_icache s ! dp" and ?off = "DIRENT * k" and ?de = "dir_entry s dp k"
  have op: "open_file s dp" "unat (i_size ?i) mod DIRENT = 0" using Suc.prems(1) by (simp_all add: open_dir_def)
  let ?F = "\<lambda>r s'. found_in s dp r (find (dir_match s dp name) [k..<dir_len s dp]) s'"
  have upt: "[k..<dir_len s dp] = k # [Suc k..<dir_len s dp]" using k by (rule upt_conv_Cons)
  have "wp (readi dread dp (word_of_nat ?off) (word_of_nat DIRENT)) (\<lambda>(r, de).
        wp (if r \<noteq> int DIRENT then panicS ''dirlookup read''
        else if de_inum de = 0 then dirlookup_loop dread dp name (DIRENT * dir_len s dp) (?off + DIRENT)
        else if namecmp name (de_name de) = 0 then
          bindS (inode_at dp) (\<lambda>i.
          bindS (iget (i_dev i) (de_inum de)) (\<lambda>ip. retS (Some (ip, ?off))))
        else dirlookup_loop dread dp name (DIRENT * dir_len s dp) (?off + DIRENT)) ?F) s"
  proof (rule wp_read_entry [OF op k Suc.prems(2)])
    fix s'
    assume s': "open_file s' dp" "frame s s'" "view s' = view s" "space s' n 1"
    have ic: "fs_icache s' = fs_icache s" using s'(2) by (simp add: frame_def)
    have od: "open_dir s' dp" using Suc.prems(1) s'(1) by (simp add: open_dir_def ic)
    note dc = dir_cong [OF ic s'(3)]
    have rest: "wp (dirlookup_loop dread dp name (DIRENT * dir_len s dp) (?off + DIRENT)) ?F s'"
      if "\<not> dir_match s dp name k"
      using Suc.hyps(1) [of s' "Suc k"] Suc.hyps(2) od s'(4) k that
      by (simp add: dc upt found_in_cong [OF ic s'(3)] add.commute)
    have hit: "wp (bindS (inode_at dp) (\<lambda>i.
          bindS (iget (i_dev i) (de_inum ?de)) (\<lambda>ip. retS (Some (ip, ?off))))) ?F s'"
      if "dir_match s dp name k"
      using iget_ok [of s' "i_dev ?i" "de_inum ?de"] od that
      by (auto simp: open_dir_def ic wp_def upt found_in_def s'(3))
    show "(case (int DIRENT, ?de) of
        (r, de) \<Rightarrow> wp (if r \<noteq> int DIRENT then panicS ''dirlookup read''
        else if de_inum de = 0 then dirlookup_loop dread dp name (DIRENT * dir_len s dp) (?off + DIRENT)
        else if namecmp name (de_name de) = 0 then
          bindS (inode_at dp) (\<lambda>i.
          bindS (iget (i_dev i) (de_inum de)) (\<lambda>ip. retS (Some (ip, ?off))))
        else dirlookup_loop dread dp name (DIRENT * dir_len s dp) (?off + DIRENT)) ?F) s'"
      using rest hit by (simp add: dir_match_def namecmp_zero)
  qed
  moreover have "?off < DIRENT * dir_len s dp" using k by (simp add: DIRENT_def)
  ultimately show ?case
    by (subst wp_cong [OF dirlookup_loop.simps]) (simp add: wp_bind [symmetric] case_prod_unfold del: wp_bind)
qed

text \<open>
  C19. \<^verbatim>\<open>dirlookup\<close> searches a directory: it returns the null pointer exactly when no entry in
  use has the name, and otherwise a reference to the inode of the first such entry, with the
  offset of the entry for \<^verbatim>\<open>poff\<close>. Names compare as strings cut to 14 bytes.
\<close>

theorem dirlookup_first_match:
  assumes "open_dir s dp" and "space s n 1"
  shows "\<exists>r s'. dirlookup dread dp name s = Inr (s', r) \<and>
    found_in s dp r (find (dir_match s dp name) [0..<dir_len s dp]) s'"
proof -
  have sz: "DIRENT * dir_len s dp = unat (i_size (fs_icache s ! dp))"
    using assms(1) by (auto simp: open_dir_def dir_len_def)
  have "wp (dirlookup dread dp name) (\<lambda>r s'. found_in s dp r (find (dir_match s dp name) [0..<dir_len s dp]) s') s"
    using wp_dirlookup_loop [OF assms, of 0] assms(1) by (simp add: dirlookup_def open_dir_def sz)
  then show ?thesis by (auto simp: wp_result)
qed

definition ex_dir :: fs where
  "ex_dir = ex_fs\<lparr>fs_icache := ex_inode\<lparr>i_type := T_DIR, i_size := 0\<rparr> # replicate 49 empty_inode\<rparr>"

theorem dirlookup_first_match_witness:
  "\<exists>s'. dirlookup (\<lambda>_. None) 0 [97] ex_dir = Inr (s', None)"
proof -
  let ?i = "ex_inode\<lparr>i_type := T_DIR, i_size := 0\<rparr>"
  have e: "fs_icache ex_dir ! 0 = ?i" "length (fs_icache ex_dir) = NINODE"
    by (simp_all add: ex_dir_def NINODE_def)
  have "i_ref (fs_icache ex_dir ! 1) = 0" by (simp add: ex_dir_def empty_inode_def)
  then have f: "\<exists>i < NINODE. i_ref (fs_icache ex_dir ! i) = 0" by (intro exI [of _ 1]) (simp add: NINODE_def)
  have "tx ex_fs" "held ex_fs = Map.empty" using ex_fs_pre by (simp_all add: alloc_pre_def ex_fs_def ex_bio_held)
  then have "open_file ex_dir 0"
    by (simp add: open_at_def e file_ok_def T_DIR_def T_DEV_def) (simp add: ex_dir_def ex_inode_def NDIRECT_def)
  then have "open_dir ex_dir 0" using f by (simp add: open_dir_def e)
  moreover have "space ex_dir 3 1" using ex_fs_space by (simp add: ex_dir_def)
  ultimately show ?thesis
    using dirlookup_first_match [of ex_dir 0 3 "\<lambda>_. None" "[97]"] by (auto simp: found_in_def dir_len_def e)
qed

end
