(* ===== verification/Pipe.thy ===== *)
theory Pipe
  imports Prelude
begin

text \<open>
  Pipes of xv6, \<^verbatim>\<open>hw09/starter-hw09/xv6/pipe.c\<close>: a ring buffer of 512 bytes with 32-bit counters
  that wrap. A call of \<^verbatim>\<open>pipewrite\<close> or \<^verbatim>\<open>piperead\<close> holds the lock of the pipe except while it
  sleeps, so a call is a sequence of atomic runs from one sleep to the next: the functions
  below are such a run, with the position at which it starts, and return either the result
  of the call or the position at which it goes to sleep. The processes asleep on the two
  channels of the pipe are part of its state: \<open>p_rwait\<close> on \<^verbatim>\<open>&p->nread\<close>, where readers wait, and
  \<open>p_wwait\<close> on \<^verbatim>\<open>&p->nwrite\<close>. \<^verbatim>\<open>sleep\<close> enters the calling process there and \<^verbatim>\<open>wakeup\<close> removes
  all, as \<open>Proc\<close> models them on the process table.

  The locale \<open>bounded_fifo\<close> is the interface of a bounded byte queue; its client lemmas are
  the loops of the two calls.
\<close>

section \<open>State and operations\<close>

definition PIPESIZE :: nat where
  "PIPESIZE = 512"

record pipe =
  p_data :: "8 word list"
  p_nread :: "32 word"
  p_nwrite :: "32 word"
  p_readopen :: bool
  p_writeopen :: bool
  p_rwait :: "nat set"
  p_wwait :: "nat set"

datatype pipe_result = Returned int | Sleeps nat

text \<open>\<^verbatim>\<open>pipealloc\<close>: the pipe it sets up in a fresh page whose bytes are \<open>junk\<close>.\<close>

definition pipealloc :: "8 word list \<Rightarrow> pipe" where
  "pipealloc junk =
     \<lparr>p_data = take PIPESIZE (junk @ replicate PIPESIZE 0), p_nread = 0, p_nwrite = 0,
      p_readopen = True, p_writeopen = True, p_rwait = {}, p_wwait = {}\<rparr>"

text \<open>\<^verbatim>\<open>wakeup\<close> and \<^verbatim>\<open>sleep\<close> on \<^verbatim>\<open>&p->nread\<close> and \<^verbatim>\<open>&p->nwrite\<close>; \<open>me\<close> is the process that sleeps.\<close>

definition wakeup_nread :: "pipe \<Rightarrow> pipe" where
  "wakeup_nread p = p\<lparr>p_rwait := {}\<rparr>"

definition wakeup_nwrite :: "pipe \<Rightarrow> pipe" where
  "wakeup_nwrite p = p\<lparr>p_wwait := {}\<rparr>"

definition sleep_nread :: "nat \<Rightarrow> pipe \<Rightarrow> pipe" where
  "sleep_nread me p = p\<lparr>p_rwait := insert me (p_rwait p)\<rparr>"

definition sleep_nwrite :: "nat \<Rightarrow> pipe \<Rightarrow> pipe" where
  "sleep_nwrite me p = p\<lparr>p_wwait := insert me (p_wwait p)\<rparr>"

text \<open>\<^verbatim>\<open>pipeclose\<close>: \<open>None\<close> if it frees the pipe.\<close>

definition pipeclose :: "pipe \<Rightarrow> bool \<Rightarrow> pipe option" where
  "pipeclose p writable =
     (let p = (if writable then wakeup_nread (p\<lparr>p_writeopen := False\<rparr>)
               else wakeup_nwrite (p\<lparr>p_readopen := False\<rparr>)) in
      if \<not> p_readopen p \<and> \<not> p_writeopen p then None else Some p)"

definition pipe_full :: "pipe \<Rightarrow> bool" where
  "pipe_full p \<longleftrightarrow> p_nwrite p = p_nread p + word_of_nat PIPESIZE"

definition pipe_empty :: "pipe \<Rightarrow> bool" where
  "pipe_empty p \<longleftrightarrow> p_nread p = p_nwrite p"

definition pipe_put :: "pipe \<Rightarrow> 8 word \<Rightarrow> pipe" where
  "pipe_put p c =
     p\<lparr>p_data := (p_data p)[unat (p_nwrite p) mod PIPESIZE := c], p_nwrite := p_nwrite p + 1\<rparr>"

definition pipe_get :: "pipe \<Rightarrow> pipe \<times> 8 word" where
  "pipe_get p = (p\<lparr>p_nread := p_nread p + 1\<rparr>, p_data p ! (unat (p_nread p) mod PIPESIZE))"

text \<open>
  \<^verbatim>\<open>pipewrite\<close> by the process \<open>me\<close> from position \<open>i\<close> of the bytes \<open>addr\<close> (\<open>n\<close> is their
  number), and \<^verbatim>\<open>piperead\<close> of at most \<open>n\<close> bytes; \<open>killed\<close> is the flag of the process.
\<close>

function pipewrite :: "nat \<Rightarrow> pipe \<Rightarrow> 8 word list \<Rightarrow> bool \<Rightarrow> nat \<Rightarrow> pipe \<times> pipe_result" where
  "pipewrite me p addr killed i =
     (if i < length addr then
        if pipe_full p then
          if \<not> p_readopen p \<or> killed then (p, Returned (-1))
          else (sleep_nwrite me (wakeup_nread p), Sleeps i)
        else pipewrite me (pipe_put p (addr ! i)) addr killed (i + 1)
      else (wakeup_nread p, Returned (int (length addr))))"
  by pat_completeness auto
termination
  by (relation "measure (\<lambda>(me, p, addr, killed, i). length addr - i)") auto

fun piperead_loop :: "pipe \<Rightarrow> nat \<Rightarrow> pipe \<times> 8 word list" where
  "piperead_loop p 0 = (p, [])"
| "piperead_loop p (Suc n) =
     (if pipe_empty p then (p, [])
      else case pipe_get p of (p', c) \<Rightarrow>
        (case piperead_loop p' n of (p'', cs) \<Rightarrow> (p'', c # cs)))"

definition piperead :: "nat \<Rightarrow> pipe \<Rightarrow> nat \<Rightarrow> bool \<Rightarrow> pipe \<times> 8 word list \<times> pipe_result" where
  "piperead me p n killed =
     (if pipe_empty p \<and> p_writeopen p then
        if killed then (p, [], Returned (-1)) else (sleep_nread me p, [], Sleeps 0)
      else case piperead_loop p n of
        (p', cs) \<Rightarrow> (wakeup_nwrite p', cs, Returned (int (length cs))))"

declare pipewrite.simps [simp del]

section \<open>Bounded queues\<close>

locale bounded_fifo =
  fixes put :: "'s \<Rightarrow> 'c \<Rightarrow> 's"
    and get :: "'s \<Rightarrow> 's \<times> 'c"
    and full :: "'s \<Rightarrow> bool"
    and empty :: "'s \<Rightarrow> bool"
    and contents :: "'s \<Rightarrow> 'c list"
    and invar :: "'s \<Rightarrow> bool"
    and cap :: nat
  assumes full_iff: "invar s \<Longrightarrow> full s \<longleftrightarrow> length (contents s) = cap"
    and empty_iff: "invar s \<Longrightarrow> empty s \<longleftrightarrow> contents s = []"
    and bounded: "invar s \<Longrightarrow> length (contents s) \<le> cap"
    and put_law: "invar s \<Longrightarrow> length (contents s) < cap \<Longrightarrow>
      invar (put s c) \<and> contents (put s c) = contents s @ [c]"
    and get_law: "invar s \<Longrightarrow> contents s = c # cs \<Longrightarrow>
      \<exists>s'. get s = (s', c) \<and> invar s' \<and> contents s' = cs"

context bounded_fifo
begin

text \<open>Putting as many elements as fit, and getting as many as there are.\<close>

fun put_while :: "'s \<Rightarrow> 'c list \<Rightarrow> 's \<times> 'c list" where
  "put_while s [] = (s, [])"
| "put_while s (c # cs) = (if full s then (s, c # cs) else put_while (put s c) cs)"

fun get_while :: "'s \<Rightarrow> nat \<Rightarrow> 's \<times> 'c list" where
  "get_while s 0 = (s, [])"
| "get_while s (Suc n) =
     (if empty s then (s, [])
      else case get s of (s', c) \<Rightarrow> (case get_while s' n of (s'', cs) \<Rightarrow> (s'', c # cs)))"

lemma put_while_contents:
  assumes "invar s" and "put_while s cs = (s', rest)"
  shows "invar s' \<and> rest = drop (cap - length (contents s)) cs \<and>
    contents s' = contents s @ take (cap - length (contents s)) cs"
  using assms
proof (induction cs arbitrary: s)
  case (Cons c cs)
  show ?case
  proof (cases "full s")
    case True
    then show ?thesis using Cons.prems full_iff by auto
  next
    case False
    then have lt: "length (contents s) < cap"
      using full_iff [OF Cons.prems(1)] bounded [OF Cons.prems(1)] by linarith
    then obtain k where k: "cap - length (contents s) = Suc k" by (metis Suc_diff_Suc)
    then have "cap - length (contents (put s c)) = k" using put_law [OF Cons.prems(1) lt] by simp
    then show ?thesis
      using Cons.IH [of "put s c"] put_law [OF Cons.prems(1) lt, of c] Cons.prems(2) False k by simp
  qed
qed simp

lemma get_while_contents:
  assumes "invar s" and "get_while s n = (s', cs)"
  shows "invar s' \<and> cs = take n (contents s) \<and> contents s' = drop n (contents s)"
  using assms
proof (induction n arbitrary: s cs)
  case (Suc n)
  show ?case
  proof (cases "contents s")
    case Nil
    then show ?thesis using Suc.prems empty_iff by auto
  next
    case (Cons d ds)
    then obtain s1 where s1: "get s = (s1, d)" "invar s1" "contents s1 = ds"
      using get_law Suc.prems(1) by blast
    moreover have "\<not> empty s" using Cons empty_iff [OF Suc.prems(1)] by simp
    ultimately show ?thesis
      using Suc.IH [OF s1(2)] Suc.prems(2) Cons by (auto split: prod.splits)
  qed
qed simp

end

section \<open>The ring buffer is a bounded queue\<close>

definition pipe_contents :: "pipe \<Rightarrow> 8 word list" where
  "pipe_contents p =
     map (\<lambda>k. p_data p ! ((unat (p_nread p) + k) mod PIPESIZE)) [0..<unat (p_nwrite p - p_nread p)]"

definition pipe_ok :: "pipe \<Rightarrow> bool" where
  "pipe_ok p \<longleftrightarrow> length (p_data p) = PIPESIZE \<and> unat (p_nwrite p - p_nread p) \<le> PIPESIZE"

text \<open>512 divides \<open>2 ^ 32\<close>, so a wrapped counter has the same position in the ring.\<close>

lemma unat_add_mod: "unat (a + b :: 32 word) mod PIPESIZE = (unat a + unat b) mod PIPESIZE"
proof -
  have "unat (a + b) = (unat a + unat b) mod 4294967296"
    using unat_word_ariths(1) [of a b] by simp
  moreover have "x mod 4294967296 mod 512 = x mod 512" for x :: nat
    by (rule mod_mod_cancel) simp
  ultimately show ?thesis by (simp add: PIPESIZE_def)
qed

lemma unat_succ_small: "unat w < 4294967295 \<Longrightarrow> unat (w + 1 :: 32 word) = Suc (unat w)"
  using unat_word_ariths(1) [of w 1] by simp

lemma unat_pred_pos: "0 < unat w \<Longrightarrow> unat (w - 1 :: 32 word) = unat w - 1"
  by (simp add: unat_minus_one unat_gt_0)

lemma pipe_full_iff: "pipe_ok p \<Longrightarrow> pipe_full p \<longleftrightarrow> length (pipe_contents p) = PIPESIZE"
proof -
  have "pipe_full p \<longleftrightarrow> p_nwrite p - p_nread p = 512"
    by (auto simp: pipe_full_def PIPESIZE_def algebra_simps)
  also have "\<dots> \<longleftrightarrow> unat (p_nwrite p - p_nread p) = 512"
    by (auto simp: word_unat_eq_iff)
  finally show ?thesis by (simp add: pipe_contents_def PIPESIZE_def)
qed

lemma pipe_put_ok:
  assumes ok: "pipe_ok p" and lt: "length (pipe_contents p) < PIPESIZE"
  shows "pipe_ok (pipe_put p c) \<and> pipe_contents (pipe_put p c) = pipe_contents p @ [c]"
proof -
  let ?n = "unat (p_nwrite p - p_nread p)"
  have n: "?n < 512" and len: "length (p_data p) = 512"
    using ok lt by (simp_all add: pipe_ok_def pipe_contents_def PIPESIZE_def)
  have e: "p_nwrite p + 1 - p_nread p = (p_nwrite p - p_nread p) + 1" by simp
  have n': "unat (p_nwrite p + 1 - p_nread p) = Suc ?n"
    unfolding e using unat_succ_small [of "p_nwrite p - p_nread p"] n by simp
  have w: "unat (p_nwrite p) mod 512 = (unat (p_nread p) + ?n) mod 512"
    using unat_add_mod [of "p_nread p" "p_nwrite p - p_nread p"] by (simp add: PIPESIZE_def)
  have other: "unat (p_nwrite p) mod 512 \<noteq> (unat (p_nread p) + k) mod 512" if "k < ?n" for k
  proof
    assume "unat (p_nwrite p) mod 512 = (unat (p_nread p) + k) mod 512"
    then have "(unat (p_nread p) + k) mod 512 = (unat (p_nread p) + ?n) mod 512" using w by simp
    then have "k mod 512 = ?n mod 512" by (simp add: nat_mod_eq_iff)
    then show False using that n by simp
  qed
  show ?thesis
    using n n' len other w
    by (auto simp: pipe_ok_def pipe_contents_def pipe_put_def PIPESIZE_def)
qed

lemma pipe_get_ok:
  assumes ok: "pipe_ok p" and c: "pipe_contents p = c # cs"
  shows "\<exists>p'. pipe_get p = (p', c) \<and> pipe_ok p' \<and> pipe_contents p' = cs"
proof -
  let ?n = "unat (p_nwrite p - p_nread p)"
  obtain k where k: "?n = Suc k" using c by (cases ?n) (auto simp: pipe_contents_def)
  have e: "p_nwrite p - (p_nread p + 1) = (p_nwrite p - p_nread p) - 1" by simp
  have n': "unat (p_nwrite p - (p_nread p + 1)) = k"
    unfolding e using unat_pred_pos [of "p_nwrite p - p_nread p"] k by simp
  have r: "(unat (p_nread p + 1) + j) mod 512 = (unat (p_nread p) + Suc j) mod 512" for j
    using unat_add_mod [of "p_nread p" 1] by (simp add: PIPESIZE_def) (metis add_Suc mod_add_left_eq)
  have "pipe_contents p = p_data p ! (unat (p_nread p) mod 512) #
      map (\<lambda>j. p_data p ! ((unat (p_nread p) + Suc j) mod 512)) [0..<k]"
    by (simp add: pipe_contents_def k PIPESIZE_def upt_conv_Cons comp_def del: upt_Suc flip: map_Suc_upt)
  then show ?thesis
    using c ok k n' r by (simp add: pipe_get_def pipe_ok_def pipe_contents_def PIPESIZE_def)
qed

interpretation pipe_fifo: bounded_fifo pipe_put pipe_get pipe_full pipe_empty pipe_contents pipe_ok PIPESIZE
proof
  show "pipe_empty s \<longleftrightarrow> pipe_contents s = []" for s
    by (auto simp: pipe_empty_def pipe_contents_def unat_eq_0)
  show "length (pipe_contents s) \<le> PIPESIZE" if "pipe_ok s" for s
    using that by (simp add: pipe_ok_def pipe_contents_def)
qed (use pipe_full_iff pipe_put_ok pipe_get_ok in blast)+

section \<open>The calls\<close>

lemma pipe_put_frame [simp]:
  "p_readopen (pipe_put p c) = p_readopen p" "p_writeopen (pipe_put p c) = p_writeopen p"
  "p_rwait (pipe_put p c) = p_rwait p" "p_wwait (pipe_put p c) = p_wwait p"
  by (simp_all add: pipe_put_def)

lemma pipe_get_frame:
  "pipe_get p = (p', c) \<Longrightarrow> p_readopen p' = p_readopen p \<and> p_writeopen p' = p_writeopen p \<and>
     p_rwait p' = p_rwait p \<and> p_wwait p' = p_wwait p"
  by (auto simp: pipe_get_def)

lemma sleep_wakeup_ring [simp]:
  "pipe_ok (wakeup_nread p) = pipe_ok p" "pipe_contents (wakeup_nread p) = pipe_contents p"
  "pipe_ok (wakeup_nwrite p) = pipe_ok p" "pipe_contents (wakeup_nwrite p) = pipe_contents p"
  "pipe_ok (sleep_nread me p) = pipe_ok p" "pipe_contents (sleep_nread me p) = pipe_contents p"
  "pipe_ok (sleep_nwrite me p) = pipe_ok p" "pipe_contents (sleep_nwrite me p) = pipe_contents p"
  by (simp_all add: pipe_ok_def pipe_contents_def wakeup_nread_def wakeup_nwrite_def
      sleep_nread_def sleep_nwrite_def)

lemma sleep_wakeup_frame [simp]:
  "p_readopen (wakeup_nread p) = p_readopen p" "p_writeopen (wakeup_nread p) = p_writeopen p"
  "p_readopen (wakeup_nwrite p) = p_readopen p" "p_writeopen (wakeup_nwrite p) = p_writeopen p"
  "p_readopen (sleep_nread me p) = p_readopen p" "p_writeopen (sleep_nread me p) = p_writeopen p"
  "p_readopen (sleep_nwrite me p) = p_readopen p" "p_writeopen (sleep_nwrite me p) = p_writeopen p"
  "p_rwait (wakeup_nread p) = {}" "p_wwait (wakeup_nread p) = p_wwait p"
  "p_rwait (wakeup_nwrite p) = p_rwait p" "p_wwait (wakeup_nwrite p) = {}"
  "p_rwait (sleep_nread me p) = insert me (p_rwait p)" "p_wwait (sleep_nread me p) = p_wwait p"
  "p_rwait (sleep_nwrite me p) = p_rwait p" "p_wwait (sleep_nwrite me p) = insert me (p_wwait p)"
  by (simp_all add: wakeup_nread_def wakeup_nwrite_def sleep_nread_def sleep_nwrite_def)

lemma put_while_frame:
  "pipe_fifo.put_while p cs = (p', rest) \<Longrightarrow> p_readopen p' = p_readopen p \<and>
     p_writeopen p' = p_writeopen p \<and> p_rwait p' = p_rwait p \<and> p_wwait p' = p_wwait p"
  by (induction p cs rule: pipe_fifo.put_while.induct) (auto split: if_splits)

lemma get_while_frame:
  "pipe_fifo.get_while p n = (p', cs) \<Longrightarrow> p_readopen p' = p_readopen p \<and>
     p_writeopen p' = p_writeopen p \<and> p_rwait p' = p_rwait p \<and> p_wwait p' = p_wwait p"
  by (induction p n arbitrary: cs rule: pipe_fifo.get_while.induct)
     (auto dest!: pipe_get_frame split: if_splits prod.splits)

text \<open>
  A run of \<^verbatim>\<open>pipewrite\<close> puts as many bytes as fit. If all fit it wakes the readers and
  returns; otherwise it either gives up, without waking anybody, or wakes the readers and
  goes to sleep.
\<close>

lemma pipewrite_put_while:
  assumes "i \<le> length addr"
  shows "pipewrite me p addr killed i =
    (case pipe_fifo.put_while p (drop i addr) of (p', rest) \<Rightarrow>
       if rest = [] then (wakeup_nread p', Returned (int (length addr)))
       else if \<not> p_readopen p \<or> killed then (p', Returned (-1))
       else (sleep_nwrite me (wakeup_nread p'), Sleeps (length addr - length rest)))"
  using assms
proof (induction "length addr - i" arbitrary: i p)
  case 0
  then show ?case by (subst pipewrite.simps) simp
next
  case (Suc m)
  then have i: "i < length addr" "m = length addr - (i + 1)" by simp_all
  then have d: "drop i addr = addr ! i # drop (i + 1) addr" by (simp add: Cons_nth_drop_Suc)
  show ?case
    using i Suc.hyps(1) [of "i + 1"] unfolding d
    by (subst pipewrite.simps) (auto split: prod.splits)
qed

lemma piperead_get_while: "piperead_loop p n = pipe_fifo.get_while p n"
  by (induction p n rule: piperead_loop.induct) (auto split: prod.splits)

lemma pipealloc_ok: "pipe_ok (pipealloc junk) \<and> pipe_contents (pipealloc junk) = []"
  by (simp add: pipealloc_def pipe_ok_def pipe_contents_def)

lemma pipewrite_contents:
  assumes "pipe_ok p" and "i \<le> length addr" and "pipewrite me p addr killed i = (p', r)"
  shows "pipe_ok p' \<and>
    pipe_contents p' = pipe_contents p @ take (PIPESIZE - length (pipe_contents p)) (drop i addr) \<and>
    r = (if length addr - i \<le> PIPESIZE - length (pipe_contents p) then Returned (int (length addr))
         else if \<not> p_readopen p \<or> killed then Returned (-1)
         else Sleeps (i + (PIPESIZE - length (pipe_contents p))))"
    and "p_readopen p' = p_readopen p \<and> p_writeopen p' = p_writeopen p \<and>
    p_rwait p' = (if r = Returned (-1) then p_rwait p else {}) \<and>
    p_wwait p' = (case r of Sleeps j \<Rightarrow> insert me (p_wwait p) | Returned v \<Rightarrow> p_wwait p)"
proof -
  obtain q rest where w: "pipe_fifo.put_while p (drop i addr) = (q, rest)" by fastforce
  note c = pipe_fifo.put_while_contents [OF assms(1) w] and f = put_while_frame [OF w]
  have e: "(p', r) = (if rest = [] then (wakeup_nread q, Returned (int (length addr)))
       else if \<not> p_readopen p \<or> killed then (q, Returned (-1))
       else (sleep_nwrite me (wakeup_nread q), Sleeps (length addr - length rest)))"
    using assms(3) w pipewrite_put_while [OF assms(2), of me p killed] by simp
  have n: "rest = [] \<longleftrightarrow> length addr - i \<le> PIPESIZE - length (pipe_contents p)" using c by auto
  have m: "length addr - length rest = i + (PIPESIZE - length (pipe_contents p))" if "rest \<noteq> []"
    using c that assms(2) n by simp
  show "pipe_ok p' \<and>
    pipe_contents p' = pipe_contents p @ take (PIPESIZE - length (pipe_contents p)) (drop i addr) \<and>
    r = (if length addr - i \<le> PIPESIZE - length (pipe_contents p) then Returned (int (length addr))
         else if \<not> p_readopen p \<or> killed then Returned (-1)
         else Sleeps (i + (PIPESIZE - length (pipe_contents p))))"
    using e c m unfolding n [symmetric] by (auto split: if_splits)
  show "p_readopen p' = p_readopen p \<and> p_writeopen p' = p_writeopen p \<and>
    p_rwait p' = (if r = Returned (-1) then p_rwait p else {}) \<and>
    p_wwait p' = (case r of Sleeps j \<Rightarrow> insert me (p_wwait p) | Returned v \<Rightarrow> p_wwait p)"
    using e f by (auto split: if_splits)
qed

lemma piperead_contents:
  assumes "pipe_ok p" and "piperead me p n killed = (p', cs, r)"
  shows "pipe_ok p' \<and> cs = take n (pipe_contents p) \<and> pipe_contents p' = drop n (pipe_contents p) \<and>
    r = (if pipe_contents p = [] \<and> p_writeopen p then if killed then Returned (-1) else Sleeps 0
         else Returned (int (length cs)))"
    and "p_readopen p' = p_readopen p \<and> p_writeopen p' = p_writeopen p \<and>
    p_rwait p' = (case r of Sleeps j \<Rightarrow> insert me (p_rwait p) | Returned v \<Rightarrow> p_rwait p) \<and>
    p_wwait p' = (if pipe_contents p = [] \<and> p_writeopen p then p_wwait p else {})"
proof -
  obtain q ds where g: "pipe_fifo.get_while p n = (q, ds)" by fastforce
  note c = pipe_fifo.get_while_contents [OF assms(1) g] and f = get_while_frame [OF g]
    and em = pipe_fifo.empty_iff [OF assms(1)]
  show "pipe_ok p' \<and> cs = take n (pipe_contents p) \<and> pipe_contents p' = drop n (pipe_contents p) \<and>
    r = (if pipe_contents p = [] \<and> p_writeopen p then if killed then Returned (-1) else Sleeps 0
         else Returned (int (length cs)))"
    using assms g c em by (auto simp: piperead_def piperead_get_while split: if_splits)
  show "p_readopen p' = p_readopen p \<and> p_writeopen p' = p_writeopen p \<and>
    p_rwait p' = (case r of Sleeps j \<Rightarrow> insert me (p_rwait p) | Returned v \<Rightarrow> p_rwait p) \<and>
    p_wwait p' = (if pipe_contents p = [] \<and> p_writeopen p then p_wwait p else {})"
    using assms g f em by (auto simp: piperead_def piperead_get_while split: if_splits)
qed

lemma pipeclose_frame:
  "pipeclose p writable = Some p' \<Longrightarrow> pipe_ok p' = pipe_ok p \<and> pipe_contents p' = pipe_contents p \<and>
     p_readopen p' = (p_readopen p \<and> writable) \<and> p_writeopen p' = (p_writeopen p \<and> \<not> writable) \<and>
     p_rwait p' = (if writable then {} else p_rwait p) \<and>
     p_wwait p' = (if writable then p_wwait p else {})"
  by (auto simp: pipeclose_def Let_def pipe_ok_def pipe_contents_def wakeup_nread_def
      wakeup_nwrite_def split: if_splits)

text \<open>\<^verbatim>\<open>kill\<close> makes a sleeping process runnable, on whatever channel it sleeps.\<close>

definition pipe_kill :: "nat \<Rightarrow> pipe \<Rightarrow> pipe" where
  "pipe_kill q p = p\<lparr>p_rwait := p_rwait p - {q}, p_wwait := p_wwait p - {q}\<rparr>"

lemma pipe_kill_frame [simp]:
  "pipe_ok (pipe_kill q p) = pipe_ok p" "pipe_contents (pipe_kill q p) = pipe_contents p"
  "p_readopen (pipe_kill q p) = p_readopen p" "p_writeopen (pipe_kill q p) = p_writeopen p"
  "p_rwait (pipe_kill q p) = p_rwait p - {q}" "p_wwait (pipe_kill q p) = p_wwait p - {q}"
  by (simp_all add: pipe_kill_def pipe_ok_def pipe_contents_def)

section \<open>Any number of processes\<close>

text \<open>
  Runs of the two calls by any number of processes: \<open>wrote\<close> is the concatenation of the bytes
  that the writers have put so far, \<open>seen\<close> of the bytes that the readers got.
\<close>

inductive pipe_run :: "pipe \<Rightarrow> 8 word list \<Rightarrow> 8 word list \<Rightarrow> bool" where
  run_start: "pipe_run (pipealloc junk) [] []"
| run_write: "pipe_run p wrote seen \<Longrightarrow> i \<le> length addr \<Longrightarrow> pipewrite me p addr killed i = (p', r) \<Longrightarrow>
    delta = (case r of Sleeps j \<Rightarrow> take (j - i) (drop i addr)
                    | Returned v \<Rightarrow> take (PIPESIZE - length (pipe_contents p)) (drop i addr)) \<Longrightarrow>
    pipe_run p' (wrote @ delta) seen"
| run_read: "pipe_run p wrote seen \<Longrightarrow> piperead me p n killed = (p', cs, r) \<Longrightarrow>
    pipe_run p' wrote (seen @ cs)"
| run_close: "pipe_run p wrote seen \<Longrightarrow> pipeclose p writable = Some p' \<Longrightarrow> pipe_run p' wrote seen"
| run_kill: "pipe_run p wrote seen \<Longrightarrow> pipe_run (pipe_kill q p) wrote seen"

lemma pipe_run_fifo: "pipe_run p wrote seen \<Longrightarrow> pipe_ok p \<and> wrote = seen @ pipe_contents p"
proof (induction rule: pipe_run.induct)
  case (run_write p wrote seen i addr me killed p' r delta)
  note w = pipewrite_contents(1) [of p i addr me killed p' r]
  have "delta = take (PIPESIZE - length (pipe_contents p)) (drop i addr)"
    using w run_write by (auto split: pipe_result.splits if_splits)
  then show ?case using w run_write by auto
next
  case (run_read p wrote seen me n killed p' cs r)
  then show ?case using piperead_contents(1) [of p me n killed p' cs r] by auto
next
  case (run_close p wrote seen writable p')
  then show ?case by (auto dest: pipeclose_frame)
qed (simp_all add: pipealloc_ok)

text \<open>
  The processes that use a pipe, each outside a call or in one: in \<^verbatim>\<open>piperead\<close> of \<open>n\<close> bytes,
  or in \<^verbatim>\<open>pipewrite\<close> at position \<open>i\<close>. A step is a run of one of them under the lock, from the
  start of a call or from a sleep that has ended, or a \<^verbatim>\<open>kill\<close>, or the close of an end that
  leaves the other one open. \<open>ps_lost\<close> is history: it becomes true where a writer that was
  killed (or that finds the read end closed) gives up with bytes in the ring while readers
  are asleep, because that path of \<^verbatim>\<open>pipewrite\<close> has no \<^verbatim>\<open>wakeup\<close>.
\<close>

datatype pcall = NoCall | InRead nat | InWrite "8 word list" nat

record psys =
  ps_pipe :: pipe
  ps_call :: "nat \<Rightarrow> pcall"
  ps_killed :: "nat \<Rightarrow> bool"
  ps_lost :: bool

definition pipe_start :: "8 word list \<Rightarrow> psys" where
  "pipe_start junk = \<lparr>ps_pipe = pipealloc junk, ps_call = \<lambda>_. NoCall, ps_killed = \<lambda>_. False, ps_lost = False\<rparr>"

definition writer_run :: "nat \<Rightarrow> 8 word list \<Rightarrow> nat \<Rightarrow> psys \<Rightarrow> psys" where
  "writer_run q addr i s =
     (case pipewrite q (ps_pipe s) addr (ps_killed s q) i of (p', r) \<Rightarrow>
        s\<lparr>ps_pipe := p',
          ps_call := (ps_call s)(q := case r of Sleeps j \<Rightarrow> InWrite addr j | Returned v \<Rightarrow> NoCall),
          ps_lost := ps_lost s \<or> r = Returned (-1) \<and> p_rwait (ps_pipe s) \<noteq> {}\<rparr>)"

definition reader_run :: "nat \<Rightarrow> nat \<Rightarrow> psys \<Rightarrow> psys" where
  "reader_run q n s =
     (case piperead q (ps_pipe s) n (ps_killed s q) of (p', cs, r) \<Rightarrow>
        s\<lparr>ps_pipe := p',
          ps_call := (ps_call s)(q := case r of Sleeps j \<Rightarrow> InRead n | Returned v \<Rightarrow> NoCall)\<rparr>)"

inductive pipe_step :: "psys \<Rightarrow> psys \<Rightarrow> bool" where
  step_write: "ps_call s q = NoCall \<Longrightarrow> pipe_step s (writer_run q addr 0 s)"
| step_rewrite: "ps_call s q = InWrite addr i \<Longrightarrow> q \<notin> p_wwait (ps_pipe s) \<Longrightarrow>
    pipe_step s (writer_run q addr i s)"
| step_read: "ps_call s q = NoCall \<Longrightarrow> pipe_step s (reader_run q n s)"
| step_reread: "ps_call s q = InRead n \<Longrightarrow> q \<notin> p_rwait (ps_pipe s) \<Longrightarrow>
    pipe_step s (reader_run q n s)"
| step_kill: "pipe_step s
    (s\<lparr>ps_pipe := pipe_kill q (ps_pipe s), ps_killed := (ps_killed s)(q := True)\<rparr>)"
| step_close: "pipeclose (ps_pipe s) writable = Some p' \<Longrightarrow> pipe_step s (s\<lparr>ps_pipe := p'\<rparr>)"

text \<open>
  The invariant: a process that sleeps is in the call that put it to sleep, a sleeping writer
  means a full ring whose read end is open, and a sleeping reader an empty ring whose write
  end is open, unless a writer gave up.
\<close>

definition pipe_inv :: "psys \<Rightarrow> bool" where
  "pipe_inv s \<longleftrightarrow>
     pipe_ok (ps_pipe s) \<and>
     (\<forall>q addr i. ps_call s q = InWrite addr i \<longrightarrow> i < length addr) \<and>
     (p_wwait (ps_pipe s) \<noteq> {} \<longrightarrow>
        length (pipe_contents (ps_pipe s)) = PIPESIZE \<and> p_readopen (ps_pipe s)) \<and>
     (p_rwait (ps_pipe s) \<noteq> {} \<longrightarrow>
        ps_lost s \<or> pipe_contents (ps_pipe s) = [] \<and> p_writeopen (ps_pipe s))"

lemma pipe_inv_start: "pipe_inv (pipe_start junk)"
  using pipealloc_ok by (simp add: pipe_inv_def pipe_start_def pipealloc_def)

lemma writer_run_inv:
  assumes inv: "pipe_inv s" and i: "i \<le> length addr"
  shows "pipe_inv (writer_run q addr i s)"
proof -
  obtain p' r where w: "pipewrite q (ps_pipe s) addr (ps_killed s q) i = (p', r)" by fastforce
  have ok: "pipe_ok (ps_pipe s)" using inv by (simp add: pipe_inv_def)
  note c = pipewrite_contents [OF ok i w]
  have len: "length (pipe_contents (ps_pipe s)) \<le> PIPESIZE" using pipe_fifo.bounded [OF ok] .
  have full: "length (pipe_contents p') = PIPESIZE \<and> p_readopen p'" if "p_wwait p' \<noteq> {}"
  proof (cases "p_wwait (ps_pipe s) = {}")
    case True
    then have "\<exists>j. r = Sleeps j" using that c(2) by (auto split: pipe_result.splits)
    then show ?thesis using c len by (auto split: if_splits)
  next
    case False
    then have "length (pipe_contents (ps_pipe s)) = PIPESIZE" "p_readopen (ps_pipe s)"
      using inv by (auto simp: pipe_inv_def)
    then show ?thesis using c by simp
  qed
  have pos: "j < length addr" if "r = Sleeps j" for j
    using c(1) that by (auto split: if_splits)
  show ?thesis
    using inv c full pos by (auto simp: pipe_inv_def writer_run_def w split: pipe_result.splits)
qed

lemma reader_run_inv:
  assumes inv: "pipe_inv s"
  shows "pipe_inv (reader_run q n s)"
proof -
  obtain p' cs r where w: "piperead q (ps_pipe s) n (ps_killed s q) = (p', cs, r)"
    using prod_cases3 by blast
  have ok: "pipe_ok (ps_pipe s)" using inv by (simp add: pipe_inv_def)
  note c = piperead_contents [OF ok w]
  show ?thesis
    using inv c by (auto simp: pipe_inv_def reader_run_def w PIPESIZE_def split: pipe_result.splits if_splits)
qed

lemma pipe_inv_step: "pipe_step s s' \<Longrightarrow> pipe_inv s \<Longrightarrow> pipe_inv s'"
proof (induction rule: pipe_step.induct)
  case (step_rewrite s q addr i)
  then have "i < length addr" by (auto simp: pipe_inv_def)
  then show ?case using writer_run_inv [OF step_rewrite.prems] by simp
next
  case (step_kill s q)
  then show ?case by (auto simp: pipe_inv_def)
next
  case (step_close s writable p')
  then show ?case using pipeclose_frame [OF step_close.hyps] by (auto simp: pipe_inv_def)
qed (simp_all add: writer_run_inv reader_run_inv)

lemma pipe_inv_reachable: "pipe_step\<^sup>*\<^sup>* (pipe_start junk) s \<Longrightarrow> pipe_inv s"
  by (induction rule: rtranclp_induct) (simp_all add: pipe_inv_start pipe_inv_step)

text \<open>With bytes in the ring a reader returns; with an empty ring a writer moves on.\<close>

lemma reader_run_returns:
  assumes "pipe_ok (ps_pipe s)" and "pipe_contents (ps_pipe s) \<noteq> [] \<or> \<not> p_writeopen (ps_pipe s)"
  shows "ps_call (reader_run q n s) q = NoCall \<and> p_wwait (ps_pipe (reader_run q n s)) = {}"
proof -
  obtain p' cs r where w: "piperead q (ps_pipe s) n (ps_killed s q) = (p', cs, r)"
    using prod_cases3 by blast
  show ?thesis using piperead_contents [OF assms(1) w] assms(2) by (auto simp: reader_run_def w)
qed

lemma writer_run_moves:
  assumes "pipe_ok (ps_pipe s)" and "pipe_contents (ps_pipe s) = []" and "i < length addr"
  shows "ps_call (writer_run q addr i s) q \<noteq> InWrite addr i \<and>
    pipe_contents (ps_pipe (writer_run q addr i s)) \<noteq> []"
proof -
  obtain p' r where w: "pipewrite q (ps_pipe s) addr (ps_killed s q) i = (p', r)" by fastforce
  show ?thesis
    using pipewrite_contents(1) [OF assms(1) _ w] assms(2,3)
    by (auto simp: writer_run_def w PIPESIZE_def)
qed

section \<open>Properties\<close>

text \<open>
  C14. A pipe is a lossless queue of at most 512 bytes: however writers, readers and closes
  interleave, and however often the 32-bit counters wrap, what the readers have seen
  followed by what is in the ring is exactly what the writers have put, in order.
\<close>

theorem pipe_lossless:
  assumes "pipe_run p wrote seen"
  shows "wrote = seen @ pipe_contents p \<and> length (pipe_contents p) \<le> PIPESIZE"
  using pipe_run_fifo [OF assms] pipe_fifo.bounded by blast

theorem pipe_lossless_witness:
  "\<exists>p. pipe_run p [7, 8] [7] \<and> pipe_contents p = [8]"
proof -
  have c: "pipe_contents (pipealloc []) = []" "pipe_ok (pipealloc [])" using pipealloc_ok by auto
  obtain p r where w: "pipewrite 1 (pipealloc []) [7, 8] False 0 = (p, r)" by fastforce
  have pc: "pipe_ok p" "pipe_contents p = [7, 8]" "r = Returned 2"
    using pipewrite_contents(1) [OF c(2) _ w] c by (simp_all add: PIPESIZE_def)
  have run1: "pipe_run p ([] @ [7, 8]) []"
    by (rule pipe_run.run_write [OF pipe_run.run_start _ w]) (simp_all add: pc c PIPESIZE_def)
  obtain p' cs r' where rd: "piperead 2 p 1 False = (p', cs, r')" using prod_cases3 by blast
  have "cs = [7]" using piperead_contents(1) [OF pc(1) rd] pc(2) by simp
  then have run: "pipe_run p' [7, 8] [7]" using pipe_run.run_read [OF run1 rd] by simp
  from pipe_lossless [OF run] have "pipe_contents p' = [8]" by simp
  then show ?thesis using run by blast
qed

text \<open>
  C15. Readers and writers do not deadlock and no \<^verbatim>\<open>wakeup\<close> is missed, for any number of
  processes and any interleaving of calls, kills and closes. Whenever a writer is asleep the
  ring is full and the read end open; whenever a reader is asleep the ring is empty and the
  write end open (so it is never asleep on bytes or on an end of file), except after a killed
  writer gave up with the ring full while readers slept (\<open>ps_lost\<close>): that path of
  \<^verbatim>\<open>pipewrite\<close> wakes nobody. Without that, if one process is in a read call and another one
  in a write call, one of the two is awake, and its next run returns or puts bytes into the
  ring. An empty pipe whose write end is closed reads as end of file, at once.
\<close>

theorem pipe_no_deadlock:
  assumes "pipe_step\<^sup>*\<^sup>* (pipe_start junk) s"
  shows "(p_wwait (ps_pipe s) \<noteq> {} \<longrightarrow>
      length (pipe_contents (ps_pipe s)) = PIPESIZE \<and> p_readopen (ps_pipe s)) \<and>
    (p_rwait (ps_pipe s) \<noteq> {} \<and> \<not> ps_lost s \<longrightarrow>
      pipe_contents (ps_pipe s) = [] \<and> p_writeopen (ps_pipe s)) \<and>
    (ps_call s r = InRead n \<and> ps_call s w = InWrite addr i \<and> \<not> ps_lost s \<longrightarrow>
      (r \<notin> p_rwait (ps_pipe s) \<and> ps_call (reader_run r n s) r = NoCall) \<or>
      (w \<notin> p_wwait (ps_pipe s) \<and> ps_call (writer_run w addr i s) w \<noteq> InWrite addr i \<and>
       pipe_contents (ps_pipe (writer_run w addr i s)) \<noteq> [])) \<and>
    (\<not> p_writeopen (ps_pipe s) \<and> pipe_contents (ps_pipe s) = [] \<longrightarrow>
      snd (piperead r (ps_pipe s) n killed) = ([], Returned 0))"
proof -
  have inv: "pipe_inv s" by (rule pipe_inv_reachable [OF assms])
  then have ok: "pipe_ok (ps_pipe s)" by (simp add: pipe_inv_def)
  obtain p' cs v where rd: "piperead r (ps_pipe s) n killed = (p', cs, v)"
    using prod_cases3 by blast
  show ?thesis
  proof (cases "pipe_contents (ps_pipe s) = []")
    case True
    then have "p_wwait (ps_pipe s) = {}" using inv by (auto simp: pipe_inv_def PIPESIZE_def)
    then show ?thesis
      using inv True writer_run_moves [OF ok True] piperead_contents(1) [OF ok rd] rd
      by (auto simp: pipe_inv_def)
  next
    case False
    then show ?thesis using inv reader_run_returns [OF ok] by (auto simp: pipe_inv_def)
  qed
qed

theorem pipe_no_deadlock_witness:
  "\<exists>s. pipe_step\<^sup>*\<^sup>* (pipe_start []) s \<and> p_rwait (ps_pipe s) = {1} \<and> ps_call s 1 = InRead 4 \<and>
     pipe_contents (ps_pipe s) = [] \<and> p_writeopen (ps_pipe s)"
proof -
  let ?s = "reader_run 1 4 (pipe_start [])"
  have step: "pipe_step\<^sup>*\<^sup>* (pipe_start []) ?s"
    by (rule r_into_rtranclp) (rule step_read, simp add: pipe_start_def)
  have s: "p_rwait (ps_pipe ?s) = {1}" "ps_call ?s 1 = InRead 4" "\<not> ps_lost ?s"
    by (simp_all add: reader_run_def pipe_start_def pipealloc_def piperead_def pipe_empty_def)
  then show ?thesis using pipe_no_deadlock [OF step] step by auto
qed

text \<open>
  The exception is real: a reader sleeps on the empty pipe, a writer of 513 bytes is killed
  before it runs, fills the ring and gives up. The reader stays asleep with 512 bytes to read,
  and no process is in a call that could wake it.
\<close>

theorem killed_writer_loses_wakeup:
  "\<exists>s. pipe_step\<^sup>*\<^sup>* (pipe_start junk) s \<and> p_rwait (ps_pipe s) = {1} \<and>
     length (pipe_contents (ps_pipe s)) = PIPESIZE \<and> (\<forall>q. q \<noteq> 1 \<longrightarrow> ps_call s q = NoCall)"
proof -
  let ?s1 = "reader_run 1 4 (pipe_start junk)"
  let ?s2 = "?s1\<lparr>ps_pipe := pipe_kill 2 (ps_pipe ?s1), ps_killed := (ps_killed ?s1)(2 := True)\<rparr>"
  let ?addr = "replicate 513 (0 :: 8 word)"
  let ?s3 = "writer_run 2 ?addr 0 ?s2"
  have c: "ps_call ?s1 = (\<lambda>_. NoCall)(1 := InRead 4)" "p_rwait (ps_pipe ?s1) = {1}"
    by (simp_all add: reader_run_def pipe_start_def pipealloc_def piperead_def pipe_empty_def)
  have ok: "pipe_ok (ps_pipe ?s2)" "pipe_contents (ps_pipe ?s2) = []"
    using pipealloc_ok [of junk]
    by (simp_all add: reader_run_def pipe_start_def piperead_def pipealloc_def pipe_empty_def)
  obtain p' r where w: "pipewrite 2 (ps_pipe ?s2) ?addr (ps_killed ?s2 2) 0 = (p', r)" by fastforce
  note W = pipewrite_contents [OF ok(1) _ w]
  have r: "r = Returned (-1)" "length (pipe_contents p') = PIPESIZE" "p_rwait p' = {1}"
    using W ok(2) c by (simp_all add: PIPESIZE_def)
  have "pipe_step (pipe_start junk) ?s1" by (rule step_read) (simp add: pipe_start_def)
  moreover have "pipe_step ?s1 ?s2" by (rule step_kill)
  moreover have "pipe_step ?s2 ?s3" by (rule step_write) (use c in simp)
  ultimately have "pipe_step\<^sup>*\<^sup>* (pipe_start junk) ?s3"
    by (meson r_into_rtranclp rtranclp.rtrancl_into_rtrancl)
  moreover have "ps_pipe ?s3 = p'" "\<forall>q. q \<noteq> 1 \<longrightarrow> ps_call ?s3 q = NoCall"
    using w r c by (auto simp: writer_run_def)
  ultimately show ?thesis using r by metis
qed

end
