(* ===== verification/Fdesc.thy ===== *)
theory Fdesc
  imports Files Pipe
begin

text \<open>
  The files of xv6, \<^verbatim>\<open>hw09/starter-hw09/xv6/file.c\<close> and the allocation of a pipe in
  \<^verbatim>\<open>hw09/starter-hw09/xv6/pipe.c\<close>: the table of open files with their reference counts, offsets
  and byte counters, and the calls that dispatch on the kind of a file. The state \<open>ks\<close> holds
  the file system, the table \<^verbatim>\<open>ftable.file\<close>, the pipes (by the address of their page), and of
  the current process the memory, the descriptors \<^verbatim>\<open>ofile\<close> and the current directory. A
  \<^verbatim>\<open>struct file *\<close> is an index into the table.

  A call runs alone until it returns or sleeps in a pipe: waiting for an inode lock or for
  the log, which only other calls could end, is the error \<open>Deadlock\<close>.
\<close>

section \<open>State\<close>

definition NFILE :: nat where "NFILE = 100"
definition NOFILE :: nat where "NOFILE = 16"

datatype ftype = FD_NONE | FD_PIPE | FD_INODE

record struct_file =
  f_type :: ftype
  f_ref :: int
  f_readable :: bool
  f_writable :: bool
  f_pipe :: nat
  f_ip :: nat
  f_off :: "32 word"
  f_read_bytes :: "32 word"
  f_write_bytes :: "32 word"

record ks =
  k_fs :: fs
  k_file :: "struct_file list"
  k_pipe :: "nat \<rightharpoonup> pipe"
  k_ofile :: "nat option list"
  k_cwd :: nat
  k_me :: nat
  k_killed :: bool
  k_mem :: mem
  k_sz :: "32 word"
  k_esp :: "32 word"

type_synonym 'a fm = "ks \<Rightarrow> (ks \<times> 'a) res"

definition bindF :: "'a fm \<Rightarrow> ('a \<Rightarrow> 'b fm) \<Rightarrow> 'b fm" where
  "bindF m f s = bind_res (m s) (\<lambda>(s', a). f a s')"

definition retF :: "'a \<Rightarrow> 'a fm" where
  "retF a s = Inr (s, a)"

definition panicF :: "string \<Rightarrow> 'a fm" where
  "panicF msg s = Inl (Panic msg)"

definition getF :: "(ks \<Rightarrow> 'a) \<Rightarrow> 'a fm" where
  "getF f s = Inr (s, f s)"

definition modF :: "(ks \<Rightarrow> ks) \<Rightarrow> unit fm" where
  "modF f s = Inr (f s, ())"

definition liftF :: "'a fsm \<Rightarrow> 'a fm" where
  "liftF m s = bind_res (m (k_fs s)) (\<lambda>(t, a). Inr (s\<lparr>k_fs := t\<rparr>, a))"

lemma bindF_cong [fundef_cong]:
  "m s = m' s' \<Longrightarrow> s = s' \<Longrightarrow> (\<And>a t. m' s' = Inr (t, a) \<Longrightarrow> f a t = g a t) \<Longrightarrow> bindF m f s = bindF m' g s'"
  by (auto simp: bindF_def intro!: bind_res_cong)

definition file_at :: "nat \<Rightarrow> struct_file fm" where
  "file_at f = getF (\<lambda>s. k_file s ! f)"

definition upd_file :: "nat \<Rightarrow> (struct_file \<Rightarrow> struct_file) \<Rightarrow> unit fm" where
  "upd_file f g = modF (\<lambda>s. s\<lparr>k_file := (k_file s)[f := g (k_file s ! f)]\<rparr>)"

text \<open>The beginning and the end of a transaction, on the state of the file system.\<close>

definition fs_begin_op :: "unit fsm" where
  "fs_begin_op s = (case begin_op (fs_log s) of None \<Rightarrow> Inl Deadlock | Some lg \<Rightarrow> Inr (s\<lparr>fs_log := lg\<rparr>, ()))"

definition fs_end_op :: "unit fsm" where
  "fs_end_op s =
     bind_res (end_op (fs_log s) (fs_bio s)) (\<lambda>(lg, bc). Inr (s\<lparr>fs_log := lg, fs_bio := bc\<rparr>, ()))"

section \<open>The table of open files\<close>

definition filealloc :: "nat option fm" where
  "filealloc =
     bindF (getF (\<lambda>s. find (\<lambda>i. f_ref (k_file s ! i) = 0) [0..<NFILE])) (\<lambda>r.
     case r of
       Some f \<Rightarrow> bindF (upd_file f (\<lambda>x. x\<lparr>f_ref := 1\<rparr>)) (\<lambda>_. retF (Some f))
     | None \<Rightarrow> retF None)"

definition filedup :: "nat \<Rightarrow> nat fm" where
  "filedup f =
     bindF (file_at f) (\<lambda>x.
     if f_ref x < 1 then panicF ''filedup''
     else bindF (upd_file f (\<lambda>x. x\<lparr>f_ref := f_ref x + 1\<rparr>)) (\<lambda>_. retF f))"

text \<open>The end of a pipe is closed; the page of the pipe is freed with the second end.\<close>

definition close_pipe :: "nat \<Rightarrow> bool \<Rightarrow> unit fm" where
  "close_pipe p writable s =
     (case k_pipe s p of
        None \<Rightarrow> Inl OutOfBounds
      | Some q \<Rightarrow> Inr (s\<lparr>k_pipe := (k_pipe s)(p := pipeclose q writable)\<rparr>, ()))"

definition fileclose :: "nat \<Rightarrow> unit fm" where
  "fileclose f =
     bindF (file_at f) (\<lambda>x.
     if f_ref x < 1 then panicF ''fileclose''
     else
       bindF (upd_file f (\<lambda>x. x\<lparr>f_ref := f_ref x - 1\<rparr>)) (\<lambda>_.
       if 0 < f_ref x - 1 then retF ()
       else
         bindF (file_at f) (\<lambda>ff.
         bindF (upd_file f (\<lambda>x. x\<lparr>f_ref := 0, f_type := FD_NONE\<rparr>)) (\<lambda>_.
         if f_type ff = FD_PIPE then close_pipe (f_pipe ff) (f_writable ff)
         else if f_type ff = FD_INODE then
           bindF (liftF fs_begin_op) (\<lambda>_.
           bindF (liftF (iput (f_ip ff))) (\<lambda>_. liftF fs_end_op))
         else retF ()))))"

definition filestat :: "nat \<Rightarrow> (int \<times> stat option) fm" where
  "filestat f =
     bindF (file_at f) (\<lambda>x.
     if f_type x = FD_INODE then
       bindF (liftF (ilock (f_ip x))) (\<lambda>_.
       bindF (liftF (stati (f_ip x))) (\<lambda>st.
       bindF (liftF (iunlock (f_ip x))) (\<lambda>_. retF (0, Some st))))
     else retF (-1, None))"

text \<open>The two calls on the pipe of a file.\<close>

definition read_pipe :: "nat \<Rightarrow> int \<Rightarrow> (pipe_result \<times> 8 word list) fm" where
  "read_pipe p n s =
     (case k_pipe s p of
        None \<Rightarrow> Inl OutOfBounds
      | Some q \<Rightarrow>
          (case piperead (k_me s) q (nat n) (k_killed s) of
             (q', bs, r) \<Rightarrow> Inr (s\<lparr>k_pipe := (k_pipe s)(p \<mapsto> q')\<rparr>, (r, bs))))"

definition write_pipe :: "nat \<Rightarrow> 8 word list \<Rightarrow> pipe_result fm" where
  "write_pipe p addr s =
     (case k_pipe s p of
        None \<Rightarrow> Inl OutOfBounds
      | Some q \<Rightarrow>
          (case pipewrite (k_me s) q addr (k_killed s) 0 of
             (q', r) \<Rightarrow> Inr (s\<lparr>k_pipe := (k_pipe s)(p \<mapsto> q')\<rparr>, r)))"

text \<open>
  \<^verbatim>\<open>fileread\<close> returns the bytes it would store at \<^verbatim>\<open>addr\<close>. The inode is only unlocked when bytes
  were read: the other cases run into the \<^verbatim>\<open>panic\<close> at the end of the function.
\<close>

definition fileread :: "devread \<Rightarrow> nat \<Rightarrow> int \<Rightarrow> (pipe_result \<times> 8 word list) fm" where
  "fileread dread f n =
     bindF (file_at f) (\<lambda>x.
     if \<not> f_readable x then retF (Returned (-1), [])
     else if f_type x = FD_PIPE then
       bindF (upd_file f (\<lambda>x. x\<lparr>f_read_bytes := f_read_bytes x + word_of_int n\<rparr>)) (\<lambda>_.
         read_pipe (f_pipe x) n)
     else if f_type x = FD_INODE then
       bindF (liftF (ilock (f_ip x))) (\<lambda>_.
       bindF (liftF (readi dread (f_ip x) (f_off x) (word_of_int n))) (\<lambda>(r, bs).
       if 0 < r then
         bindF (upd_file f (\<lambda>x. x\<lparr>f_off := f_off x + word_of_int r\<rparr>)) (\<lambda>_.
         bindF (upd_file f (\<lambda>x. x\<lparr>f_read_bytes := f_read_bytes x + word_of_int n\<rparr>)) (\<lambda>_.
         bindF (liftF (iunlock (f_ip x))) (\<lambda>_. retF (Returned r, bs))))
       else panicF ''fileread''))
     else panicF ''fileread'')"

text \<open>The most bytes that \<^verbatim>\<open>filewrite\<close> writes in one transaction, and its loop.\<close>

definition write_max :: int where
  "write_max = ((MAXOPBLOCKS - 1 - 1 - 2) div 2) * 512"

function filewrite_loop :: "devwrite \<Rightarrow> nat \<Rightarrow> 8 word list \<Rightarrow> int \<Rightarrow> int \<Rightarrow> int fm" where
  "filewrite_loop dwrite f addr n i s =
     (if i < n then
        bindF (liftF fs_begin_op) (\<lambda>_.
        bindF (file_at f) (\<lambda>x.
        bindF (liftF (ilock (f_ip x))) (\<lambda>_.
        bindF (liftF (writei dwrite (f_ip x) (drop (nat i) addr) (f_off x)
                 (word_of_int (min (n - i) write_max)))) (\<lambda>r.
        bindF (if 0 < r then upd_file f (\<lambda>x. x\<lparr>f_off := f_off x + word_of_int r\<rparr>) else retF ()) (\<lambda>_.
        bindF (liftF (iunlock (f_ip x))) (\<lambda>_.
        bindF (liftF fs_end_op) (\<lambda>_.
        if r < 0 then retF i
        else if r \<noteq> min (n - i) write_max then panicF ''short filewrite''
        else filewrite_loop dwrite f addr n (i + r)))))))) s
      else retF i s)"
  by pat_completeness auto
termination
  by (relation "measure (\<lambda>(dwrite, f, addr, n, i, s). nat (n - i))")
     (auto simp: write_max_def MAXOPBLOCKS_def)

declare filewrite_loop.simps [simp del]

definition filewrite :: "devwrite \<Rightarrow> nat \<Rightarrow> 8 word list \<Rightarrow> int \<Rightarrow> pipe_result fm" where
  "filewrite dwrite f addr n =
     bindF (file_at f) (\<lambda>x.
     if \<not> f_writable x then retF (Returned (-1))
     else if f_type x = FD_PIPE then
       bindF (upd_file f (\<lambda>x. x\<lparr>f_write_bytes := f_write_bytes x + word_of_int n\<rparr>)) (\<lambda>_.
         write_pipe (f_pipe x) (take (nat n) addr))
     else if f_type x = FD_INODE then
       bindF (filewrite_loop dwrite f addr n 0) (\<lambda>i.
       bindF (upd_file f (\<lambda>x. x\<lparr>f_write_bytes := f_write_bytes x + word_of_int n\<rparr>)) (\<lambda>_.
         retF (Returned (if i = n then n else -1))))
     else panicF ''filewrite'')"

definition getiostats :: "nat \<Rightarrow> (int \<times> (32 word \<times> 32 word) option) fm" where
  "getiostats f =
     bindF (file_at f) (\<lambda>x.
     if f_type x = FD_INODE then
       bindF (liftF (ilock (f_ip x))) (\<lambda>_.
       bindF (file_at f) (\<lambda>y.
       bindF (liftF (iunlock (f_ip x))) (\<lambda>_. retF (0, Some (f_read_bytes y, f_write_bytes y)))))
     else retF (-1, None))"

text \<open>
  \<^verbatim>\<open>pipealloc\<close> of \<^verbatim>\<open>pipe.c\<close>; \<open>page\<close> is what \<^verbatim>\<open>kalloc\<close> returns: the address of a page and the bytes
  that are in it, or nothing. On failure no page has been allocated (\<open>p\<close> is still null).
\<close>

definition pipealloc_fail :: "nat option \<Rightarrow> nat option \<Rightarrow> (nat \<times> nat) option fm" where
  "pipealloc_fail f0 f1 =
     bindF (case f0 of None \<Rightarrow> retF () | Some f \<Rightarrow> fileclose f) (\<lambda>_.
     bindF (case f1 of None \<Rightarrow> retF () | Some f \<Rightarrow> fileclose f) (\<lambda>_. retF None))"

definition pipealloc_files :: "(nat \<times> 8 word list) option \<Rightarrow> (nat \<times> nat) option fm" where
  "pipealloc_files page =
     bindF filealloc (\<lambda>r0.
     case r0 of
       None \<Rightarrow> pipealloc_fail None None
     | Some f0 \<Rightarrow>
         bindF filealloc (\<lambda>r1.
         case r1 of
           None \<Rightarrow> pipealloc_fail (Some f0) None
         | Some f1 \<Rightarrow>
             (case page of
                None \<Rightarrow> pipealloc_fail (Some f0) (Some f1)
              | Some (p, junk) \<Rightarrow>
                  bindF (modF (\<lambda>s. s\<lparr>k_pipe := (k_pipe s)(p \<mapsto> pipealloc junk)\<rparr>)) (\<lambda>_.
                  bindF (upd_file f0 (\<lambda>x. x\<lparr>f_type := FD_PIPE, f_readable := True, f_writable := False,
                    f_pipe := p\<rparr>)) (\<lambda>_.
                  bindF (upd_file f1 (\<lambda>x. x\<lparr>f_type := FD_PIPE, f_readable := False, f_writable := True,
                    f_pipe := p\<rparr>)) (\<lambda>_. retF (Some (f0, f1))))))))"

section \<open>Weakest preconditions\<close>

definition wpF :: "'a fm \<Rightarrow> ('a \<Rightarrow> ks \<Rightarrow> bool) \<Rightarrow> ks \<Rightarrow> bool" where
  "wpF m Q s \<longleftrightarrow> (case m s of Inl e \<Rightarrow> False | Inr (s', a) \<Rightarrow> Q a s')"

lemma wpF_bind [simp]: "wpF (bindF m f) Q = wpF m (\<lambda>a. wpF (f a) Q)"
  by (auto simp: fun_eq_iff wpF_def bindF_def split: sum.splits)

lemma wpF_simps [simp]:
  "wpF (retF a) Q = Q a"
  "wpF (getF h) Q = (\<lambda>s. Q (h s) s)"
  "wpF (modF g) P = (\<lambda>s. P () (g s))"
  "wpF (file_at f) R = (\<lambda>s. R (k_file s ! f) s)"
  "wpF (upd_file f u) P = (\<lambda>s. P () (s\<lparr>k_file := (k_file s)[f := u (k_file s ! f)]\<rparr>))"
  by (simp_all add: fun_eq_iff wpF_def retF_def getF_def modF_def file_at_def upd_file_def)

lemma wpF_lift [simp]: "wpF (liftF m) Q s \<longleftrightarrow> wp m (\<lambda>a t. Q a (s\<lparr>k_fs := t\<rparr>)) (k_fs s)"
  by (auto simp: wpF_def wp_def liftF_def split: sum.splits)

lemma wpF_result: "wpF m Q s \<longleftrightarrow> (\<exists>s' a. m s = Inr (s', a) \<and> Q a s')"
  by (auto simp: wpF_def split: sum.splits)

lemma wpF_cong: "m s = m' s \<Longrightarrow> wpF m Q s \<longleftrightarrow> wpF m' Q s"
  by (simp add: wpF_def)

lemma bindF_Inr: "m s = Inr (t, a) \<Longrightarrow> bindF m f s = f a t"
  by (simp add: bindF_def)

text \<open>An inode in the cache, in use and not locked; locking and unlocking it.\<close>

definition cached :: "fs \<Rightarrow> nat \<Rightarrow> bool" where
  "cached s ip \<longleftrightarrow>
     ip < length (fs_icache s) \<and> 1 \<le> i_ref (fs_icache s ! ip) \<and> \<not> i_locked (fs_icache s ! ip) \<and>
     i_valid (fs_icache s ! ip)"

definition set_lock :: "nat \<Rightarrow> bool \<Rightarrow> fs \<Rightarrow> fs" where
  "set_lock ip b s = s\<lparr>fs_icache := (fs_icache s)[ip := (fs_icache s ! ip)\<lparr>i_locked := b\<rparr>]\<rparr>"

lemma set_lock_simps [simp]:
  "fs_log (set_lock ip b s) = fs_log s" "fs_bio (set_lock ip b s) = fs_bio s" "fs_sb (set_lock ip b s) = fs_sb s"
  "length (fs_icache (set_lock ip b s)) = length (fs_icache s)"
  "space (set_lock ip b s) k h = space s k h" "txo q (set_lock ip b s) = txo q s"
  by (simp_all add: set_lock_def)

lemma set_lock_at:
  "ip < length (fs_icache s) \<Longrightarrow> fs_icache (set_lock ip b s) ! ip = (fs_icache s ! ip)\<lparr>i_locked := b\<rparr>"
  by (simp add: set_lock_def)

lemma ilock_cached: "cached s ip \<Longrightarrow> ilock ip s = Inr (set_lock ip True s, ())"
  by (simp add: cached_def ilock_def set_lock_def inode_at_def upd_inode_def bindS_def getS_def retS_def)

lemma iunlock_locked:
  "ip < length (fs_icache s) \<Longrightarrow> 1 \<le> i_ref (fs_icache s ! ip) \<Longrightarrow> i_locked (fs_icache s ! ip) \<Longrightarrow>
   iunlock ip s = Inr (set_lock ip False s, ())"
  by (simp add: iunlock_def set_lock_def inode_at_def upd_inode_def bindS_def getS_def)

lemma wp_ilock [intro]: "cached s ip \<Longrightarrow> Q () (set_lock ip True s) \<Longrightarrow> wp (ilock ip) Q s"
  by (simp add: wp_def ilock_cached)

lemma wp_iunlock:
  "ip < length (fs_icache s) \<Longrightarrow> 1 \<le> i_ref (fs_icache s ! ip) \<Longrightarrow> i_locked (fs_icache s ! ip) \<Longrightarrow>
   Q () (set_lock ip False s) \<Longrightarrow> wp (iunlock ip) Q s"
  by (simp add: wp_def iunlock_locked)

text \<open>The contents of a file do not depend on the lock.\<close>

lemma lock_inode_cong:
  "fblock s (i\<lparr>i_locked := b\<rparr>) = fblock s i"
  "file_byte s (i\<lparr>i_locked := b\<rparr>) = file_byte s i"
  "mapped s (i\<lparr>i_locked := b\<rparr>) = mapped s i"
  "file_ok s (i\<lparr>i_locked := b\<rparr>) = file_ok s i"
  by (simp_all add: fun_eq_iff fblock_def file_byte_def mapped_def file_ok_def)

lemma set_lock_cong:
  "fblock (set_lock ip b s) = fblock s" "file_byte (set_lock ip b s) = file_byte s"
  "mapped (set_lock ip b s) = mapped s" "file_ok (set_lock ip b s) = file_ok s"
  by (simp_all add: fun_eq_iff fblock_def file_byte_def mapped_def file_ok_def)

lemma open_at_lock [simp]:
  "ip < length (fs_icache s) \<Longrightarrow> open_at q (set_lock ip b s) ip = open_at q s ip"
  by (simp add: open_at_def set_lock_at set_lock_cong lock_inode_cong)

lemma file_bytes_lock [simp]:
  "ip < length (fs_icache s) \<Longrightarrow> file_bytes (set_lock ip b s) ip = file_bytes s ip"
  by (simp add: file_bytes_def set_lock_at set_lock_cong lock_inode_cong)

section \<open>Reading\<close>

lemma readi_range:
  fixes off n :: "32 word"
  assumes "i_type (fs_icache s ! ip) \<noteq> T_DEV" and "i_size (fs_icache s ! ip) = sz"
    and "\<not> sz < off" and "\<not> off + n < off" and "n' = (if sz < off + n then sz - off else n)"
  shows "readi dread ip off n s = bindS (readi_loop ip (unat off) (unat n')) (\<lambda>bs. retS (uint n', bs)) s"
  using assms by (simp add: readi_def inode_at_def getS_def bindS_def Let_def)

text \<open>
  C37. A read at or beyond the end of a file, a read of no bytes and a read whose range wraps
  around stop the kernel: \<^verbatim>\<open>fileread\<close> returns only when at least one byte was read and otherwise
  runs into its \<^verbatim>\<open>panic\<close>, with the inode still locked. A user program reaches this by reading a
  file to its end.
\<close>

theorem fileread_eof_panics:
  assumes "f_readable (k_file s ! f)" and "f_type (k_file s ! f) = FD_INODE"
    and "f_ip (k_file s ! f) = ip" and "cached (k_fs s) ip" and "i_type (fs_icache (k_fs s) ! ip) \<noteq> T_DEV"
    and "f_off (k_file s ! f) = off"
    and "i_size (fs_icache (k_fs s) ! ip) \<le> off \<or> word_of_int n = (0 :: 32 word) \<or> off + word_of_int n < off"
  shows "fileread dread f n s = Inl (Panic ''fileread'')"
proof -
  let ?t = "set_lock ip True (k_fs s)" and ?i = "fs_icache (k_fs s) ! ip" and ?n = "word_of_int n :: 32 word"
  have i: "fs_icache ?t ! ip = ?i\<lparr>i_locked := True\<rparr>" using assms(4) by (simp add: set_lock_at cached_def)
  have z: "readi_loop ip (unat off) 0 ?t = Inr (?t, [])" by (simp add: readi_loop.simps retS_def)
  have "\<exists>r bs. readi dread ip off ?n ?t = Inr (?t, (r, bs)) \<and> r \<le> 0"
  proof (cases "i_size ?i < off \<or> off + ?n < off")
    case True
    then show ?thesis using assms(5) by (simp add: readi_def inode_at_def getS_def bindS_def retS_def i)
  next
    case False
    obtain n' where n'_def: "n' = (if i_size ?i < off + ?n then i_size ?i - off else ?n)" by blast
    have z0: "n' = 0"
    proof (cases "?n = 0")
      case True
      then show ?thesis using False by (simp add: n'_def)
    next
      case nz: False
      then have e: "off = i_size ?i" using False assms(7) by simp
      have "i_size ?i < i_size ?i + ?n" using False nz e by (simp add: not_less order_less_le)
      then show ?thesis using e by (simp add: n'_def)
    qed
    have "readi dread ip off ?n ?t = bindS (readi_loop ip (unat off) (unat n')) (\<lambda>bs. retS (uint n', bs)) ?t"
      by (rule readi_range [OF _ _ _ _ n'_def]) (use assms(5) False in \<open>simp_all add: i\<close>)
    then show ?thesis by (simp add: z0 z bindS_def retS_def)
  qed
  then show ?thesis
    using assms(1-3,6) ilock_cached [OF assms(4)]
    by (auto simp: fileread_def bindF_def file_at_def getF_def liftF_def panicF_def)
qed

lemma set_lock_undo:
  assumes "cached s ip" and "fs_icache t = fs_icache (set_lock ip True s)"
  shows "fs_icache (set_lock ip False t) = fs_icache s"
proof -
  have "(fs_icache s ! ip)\<lparr>i_locked := False\<rparr> = fs_icache s ! ip"
    using assms(1) by (cases "fs_icache s ! ip") (simp add: cached_def)
  then show ?thesis using assms by (simp add: set_lock_def cached_def list_update_same_conv)
qed

lemma nat_word_of_int: "0 \<le> n \<Longrightarrow> n < 2 ^ 32 \<Longrightarrow> unat (word_of_int n :: 32 word) = nat n"
  by (simp add: unat_eq_nat_uint uint_word_of_int take_bit_int_eq_self)

text \<open>
  C36. Reading a file before its end: \<^verbatim>\<open>fileread\<close> returns the bytes at the offset, as many as
  asked for or as there are left, at least one; it advances the offset by their number and
  counts the number asked for (not the number read) as read; the inode is unlocked again and
  nothing else changes. No transaction is needed.
\<close>

theorem fileread_reads:
  assumes "f < length (k_file s)" and "f_readable (k_file s ! f)" and "f_type (k_file s ! f) = FD_INODE"
    and "f_ip (k_file s ! f) = ip" and "cached (k_fs s) ip" and "open_at 0 (k_fs s) ip" and "space (k_fs s) 0 1"
    and "f_off (k_file s ! f) = off" and "off < i_size (fs_icache (k_fs s) ! ip)"
    and "0 < n" and "n < 2 ^ 31" and "\<not> off + word_of_int n < off"
  shows "\<exists>t bs. fileread dread f n s =
      Inr (s\<lparr>k_fs := t, k_file := (k_file s)[f := (k_file s ! f)
             \<lparr>f_off := off + word_of_int (int (length bs)),
              f_read_bytes := f_read_bytes (k_file s ! f) + word_of_int n\<rparr>]\<rparr>,
           (Returned (int (length bs)), bs)) \<and>
    bs = take (nat n) (drop (unat off) (file_bytes (k_fs s) ip)) \<and> bs \<noteq> [] \<and>
    view t = view (k_fs s) \<and> fs_icache t = fs_icache (k_fs s) \<and> open_at 0 t ip"
proof -
  let ?t = "set_lock ip True (k_fs s)" and ?n = "word_of_int n :: 32 word"
  let ?bs = "take (nat n) (drop (unat off) (file_bytes (k_fs s) ip))"
  let ?x = "k_file s ! f"
  have ip: "ip < length (fs_icache (k_fs s))" using assms(5) by (simp add: cached_def)
  have i: "fs_icache ?t ! ip = (fs_icache (k_fs s) ! ip)\<lparr>i_locked := True\<rparr>" using ip by (simp add: set_lock_at)
  have n: "unat ?n = nat n" using assms(10,11) by (simp add: nat_word_of_int)
  have "unat off < length (file_bytes (k_fs s) ip)"
    using assms(9) by (simp add: file_bytes_def word_less_nat_alt)
  then have ne: "?bs \<noteq> []" using assms(10) by simp
  have "wp (readi dread ip off ?n) (\<lambda>r t. r = (int (length ?bs), ?bs) \<and> open_at 0 t ip \<and> frame ?t t \<and>
      view t = view (k_fs s)) ?t"
    by (rule wp_readi [where q = 0 and k = 0 and h = 0])
       (use assms(6,7,9,12) ip in \<open>simp_all add: i n not_less order_less_imp_le\<close>)
  then obtain t where t: "readi dread ip off ?n ?t = Inr (t, (int (length ?bs), ?bs))" "open_at 0 t ip"
    "frame ?t t" "view t = view (k_fs s)" by (auto simp: wp_result)
  let ?u = "set_lock ip False t"
  have ic: "fs_icache t = fs_icache ?t" using t(3) by (simp add: frame_def)
  have un: "iunlock ip t = Inr (?u, ())"
    by (rule iunlock_locked) (use ic ip i assms(5) in \<open>simp_all add: cached_def\<close>)
  have "fileread dread f n s =
      Inr (s\<lparr>k_fs := ?u, k_file := (k_file s)[f := ?x\<lparr>f_off := off + word_of_int (int (length ?bs)),
              f_read_bytes := f_read_bytes ?x + ?n\<rparr>]\<rparr>, (Returned (int (length ?bs)), ?bs))"
    using assms(1-4,8) ne ilock_cached [OF assms(5)] t(1) un
    by (simp add: fileread_def bindF_def file_at_def getF_def liftF_def retF_def upd_file_def modF_def)
  moreover have "fs_icache ?u = fs_icache (k_fs s)" by (rule set_lock_undo [OF assms(5) ic])
  moreover have "open_at 0 ?u ip" using t(2) ic ip by simp
  ultimately show ?thesis using ne t(4) by auto
qed

section \<open>Writing\<close>

text \<open>No call is running and the log is empty; it has room for the blocks of one chunk.\<close>

definition idle :: "fs \<Rightarrow> bool" where
  "idle s \<longleftrightarrow>
     log_inv (fs_log s) (fs_bio s) \<and> lh_n (fs_log s) = 0 \<and> lg_outstanding (fs_log s) = 0 \<and>
     \<not> lg_committing (fs_log s) \<and> 4 < lg_size (fs_log s)"

lemma idle_view: "idle s \<Longrightarrow> view s b = bio_disk (fs_bio s) b"
  by (rule bio_coherent) (auto simp: idle_def log_inv_def quiet_def logged_def)

definition begun :: "fs \<Rightarrow> fs" where
  "begun s = s\<lparr>fs_log := (fs_log s)\<lparr>lg_outstanding := 1\<rparr>\<rparr>"

lemma begin_idle:
  assumes "idle s"
  shows "fs_begin_op s = Inr (begun s, ())" and "tx (begun s)" and "held (begun s) = Map.empty"
    and "space (begun s) 4 1"
proof -
  show "fs_begin_op s = Inr (begun s, ())"
    using assms by (simp add: idle_def fs_begin_op_def begin_op_def begun_def LOGSIZE_def MAXOPBLOCKS_def)
  show h: "held (begun s) = Map.empty" using assms by (simp add: idle_def log_inv_tx begun_def)
  then show "tx (begun s)"
    using assms by (simp add: idle_def log_inv_tx begun_def txo_def log_tx_def log_geom_def logged_def in_log_def)
  show "space (begun s) 4 1"
    using assms h by (simp add: idle_def begun_def space_def LOGSIZE_def NBUF_def)
qed

lemma end_idle:
  assumes "tx s" and "held s = Map.empty" and "lg_outstanding (fs_log s) = 1" and "\<not> lg_committing (fs_log s)"
    and "space s 0 1" and "4 < lg_size (fs_log s)"
  shows "\<exists>s'. fs_end_op s = Inr (s', ()) \<and> idle s' \<and> fs_icache s' = fs_icache s \<and> fs_sb s' = fs_sb s \<and>
    disk_size s' = disk_size s \<and> in_log (fs_log s') = in_log (fs_log s) \<and>
    (\<forall>b. \<not> in_log (fs_log s) b \<longrightarrow> view s' b = view s b)"
proof -
  have inv: "log_inv (fs_log s) (fs_bio s)" using assms(1,2) by (simp add: log_inv_tx txo_def)
  have n: "lh_n (fs_log s) < int NBUF" using assms(2,5) unfolding space_def by linarith
  let ?lg = "(fs_log s)\<lparr>lg_outstanding := 0, lh_n := 0, lg_committing := False\<rparr>"
  obtain bc where bc: "end_op (fs_log s) (fs_bio s) = Inr (?lg, bc)" "log_inv ?lg bc"
    "same_fs (fs_log s) (bio_disk bc) (view s)" "bio_disksize bc = disk_size s"
    using end_op_commits [OF inv n assms(3,4)] by blast
  let ?s = "s\<lparr>fs_log := ?lg, fs_bio := bc\<rparr>"
  have id: "idle ?s" using bc(2) assms(6) by (simp add: idle_def)
  then have "view ?s b = view s b" if "\<not> in_log (fs_log s) b" for b
    using idle_view [OF id, of b] bc(3) that by (simp add: same_fs_def)
  moreover have "in_log ?lg = in_log (fs_log s)" by (simp add: fun_eq_iff in_log_def)
  ultimately show ?thesis using bc(1,4) id by (intro exI [of _ ?s]) (simp add: fs_end_op_def)
qed

text \<open>A file all of whose blocks, the indirect one too, lie outside the log.\<close>

definition home_file :: "fs \<Rightarrow> inode \<Rightarrow> nat \<Rightarrow> bool" where
  "home_file s i sz \<longleftrightarrow>
     file_ok s i sz \<and> (NDIRECT * BSIZE < sz \<longrightarrow> \<not> in_log (fs_log s) (unat (i_addrs i ! NDIRECT)))"

lemma home_file_cong:
  assumes "home_file s i sz" and "\<forall>b. \<not> in_log (fs_log s) b \<longrightarrow> view s' b = view s b"
    and "in_log (fs_log s') = in_log (fs_log s)" and "disk_size s' = disk_size s"
  shows "home_file s' i sz" and "k < sz \<Longrightarrow> file_byte s' i k = file_byte s i k"
proof -
  have fb: "fblock s' i bn = fblock s i bn" if "bn * BSIZE < sz" for bn
  proof (cases "bn < NDIRECT")
    case False
    then have "NDIRECT * BSIZE \<le> bn * BSIZE" by (intro mult_le_mono1) simp
    with that have "NDIRECT * BSIZE < sz" by (rule le_less_trans [rotated])
    then have "\<not> in_log (fs_log s) (unat (i_addrs i ! NDIRECT))" using assms(1) by (simp add: home_file_def)
    then show ?thesis using assms(2) False by (simp add: fblock_def)
  qed (simp add: fblock_def)
  show "home_file s' i sz"
    using assms(1,3,4) fb by (auto simp: home_file_def file_ok_def mapped_def)
  show "file_byte s' i k = file_byte s i k" if k: "k < sz"
  proof -
    have "mapped s i (k div BSIZE)" "k div BSIZE * BSIZE < sz"
      using file_ok_block [OF _ k] assms(1) by (auto simp: home_file_def)
    then show ?thesis using assms(2) fb by (simp add: file_byte_def mapped_def)
  qed
qed

lemma file_bytes_cong:
  assumes "home_file s (fs_icache s ! ip) (unat (i_size (fs_icache s ! ip)))"
    and "\<forall>b. \<not> in_log (fs_log s) b \<longrightarrow> view s' b = view s b"
    and "in_log (fs_log s') = in_log (fs_log s)" and "disk_size s' = disk_size s"
    and "fs_icache s' ! ip = fs_icache s ! ip"
  shows "file_bytes s' ip = file_bytes s ip"
  using home_file_cong(2) [OF assms(1-4)] by (simp add: file_bytes_def assms(5))

lemma span_chunk: "n \<le> 3 * BSIZE \<Longrightarrow> span off n \<le> 4"
proof -
  assume n: "n \<le> 3 * BSIZE"
  have "off mod BSIZE < BSIZE" by (simp add: BSIZE_def)
  then have "off + n - 1 < (off div BSIZE + 4) * BSIZE"
    using n div_mult_mod_eq [of off BSIZE] unfolding add_mult_distrib by linarith
  then have "(off + n - 1) div BSIZE < off div BSIZE + 4" by (rule less_mult_imp_div_less)
  then show ?thesis unfolding span_def by (simp del: One_nat_def) linarith
qed

text \<open>One chunk: a transaction that writes \<open>m\<close> bytes inside the file.\<close>

lemma write_chunk:
  assumes id: "idle s" and c: "cached s ip" and dev: "i_type (fs_icache s ! ip) \<noteq> T_DEV"
    and home: "home_file s (fs_icache s ! ip) (unat (i_size (fs_icache s ! ip)))"
    and fit: "unat off + unat m \<le> unat (i_size (fs_icache s ! ip))"
    and m: "unat m \<le> 3 * BSIZE" "unat m \<le> length src"
  shows "\<exists>s3 s5. ilock ip (begun s) = Inr (set_lock ip True (begun s), ()) \<and>
    writei dwrite ip src off m (set_lock ip True (begun s)) = Inr (s3, uint m) \<and>
    iunlock ip s3 = Inr (set_lock ip False s3, ()) \<and> fs_end_op (set_lock ip False s3) = Inr (s5, ()) \<and>
    idle s5 \<and> fs_icache s5 = fs_icache s \<and>
    home_file s5 (fs_icache s ! ip) (unat (i_size (fs_icache s ! ip))) \<and>
    file_bytes s5 ip = take (unat off) (file_bytes s ip) @ take (unat m) src @
      drop (unat off + unat m) (file_bytes s ip)"
proof -
  let ?s1 = "begun s" and ?s2 = "set_lock ip True (begun s)" and ?i = "fs_icache s ! ip"
  note b = begin_idle [OF id]
  have ip: "ip < length (fs_icache s)" "1 \<le> i_ref ?i" using c by (simp_all add: cached_def)
  have ic1: "fs_icache ?s1 = fs_icache s" by (simp add: begun_def)
  have c1: "cached ?s1 ip" using c by (simp add: cached_def ic1)
  have same: "\<forall>b. \<not> in_log (fs_log s) b \<longrightarrow> view ?s1 b = view s b" "in_log (fs_log ?s1) = in_log (fs_log s)"
    "disk_size ?s1 = disk_size s" by (simp_all add: begun_def in_log_def fun_eq_iff)
  note h1 = home_file_cong [OF home same]
  have by1: "file_bytes ?s1 ip = file_bytes s ip" by (rule file_bytes_cong [OF home same]) (simp add: ic1)
  have op: "open_file ?s2 ip"
    using b(2,3) h1(1) dev ip by (simp add: open_at_def ic1 home_file_def set_lock_at set_lock_cong lock_inode_cong)
  have i2: "fs_icache ?s2 ! ip = ?i\<lparr>i_locked := True\<rparr>" using ip by (simp add: set_lock_at ic1)
  have "wp (writei dwrite ip src off m) (\<lambda>r s3. r = uint m \<and> open_file s3 ip \<and> frame ?s2 s3 \<and> space s3 0 1 \<and>
      file_bytes s3 ip = take (unat off) (file_bytes s ip) @ take (unat m) src @
        drop (unat off + unat m) (file_bytes s ip)) ?s2"
  proof (rule wp_writei [OF op _ m(2), where k = 0])
    show "unat off + unat m \<le> unat (i_size (fs_icache ?s2 ! ip))" using fit by (simp add: i2)
    show "space ?s2 (span (unat off) (unat m) + 0) 1"
      using space_mono [OF b(4)] span_chunk [OF m(1)] by simp
  qed (use ip by1 ic1 in simp)
  then obtain s3 where s3: "writei dwrite ip src off m ?s2 = Inr (s3, uint m)" "open_file s3 ip" "frame ?s2 s3"
    "space s3 0 1" "file_bytes s3 ip = take (unat off) (file_bytes s ip) @ take (unat m) src @
       drop (unat off + unat m) (file_bytes s ip)" by (auto simp: wp_result)
  let ?s4 = "set_lock ip False s3"
  have ic3: "fs_icache s3 = fs_icache ?s2" using s3(3) by (simp add: frame_def)
  have ic4: "fs_icache ?s4 = fs_icache s" using set_lock_undo [OF c1 ic3] ic1 by simp
  have un: "iunlock ip s3 = Inr (?s4, ())"
    by (rule iunlock_locked) (use ip i2 ic1 in \<open>simp_all add: ic3\<close>)
  have lg: "lg_outstanding (fs_log ?s4) = 1" "\<not> lg_committing (fs_log ?s4)" "4 < lg_size (fs_log ?s4)"
    using s3(3) id by (simp_all add: frame_def begun_def idle_def)
  have t4: "tx ?s4" "held ?s4 = Map.empty" "space ?s4 0 1" "disk_size s3 = disk_size s"
    using s3(2,4,3) by (simp_all add: open_at_def frame_def begun_def)
  obtain s5 where s5: "fs_end_op ?s4 = Inr (s5, ())" "idle s5" "fs_icache s5 = fs_icache ?s4"
    "disk_size s5 = disk_size ?s4" "in_log (fs_log s5) = in_log (fs_log ?s4)"
    "\<forall>b. \<not> in_log (fs_log ?s4) b \<longrightarrow> view s5 b = view ?s4 b"
    using end_idle [OF t4(1,2) lg(1,2) t4(3) lg(3)] by blast
  have il: "in_log (fs_log ?s4) = in_log (fs_log s)"
    using s3(3) by (simp add: fun_eq_iff in_log_def frame_def begun_def)
  have ok4: "file_ok ?s4 ?i (unat (i_size ?i))"
    using s3(2) ip by (simp add: open_at_def ic3 i2 lock_inode_cong set_lock_cong ic1)
  have h4: "home_file ?s4 (fs_icache ?s4 ! ip) (unat (i_size (fs_icache ?s4 ! ip)))"
    using ok4 home il by (simp add: ic4 home_file_def)
  have "file_bytes s5 ip = file_bytes s3 ip"
    using file_bytes_cong [OF h4 s5(6,5,4)] s5(3) ip by (simp add: ic3 ic1)
  then show ?thesis
    using ilock_cached [OF c1] s3(1,5) un s5(1,2,3) home_file_cong(1) [OF h4 s5(6,5,4)] ic4
    by (intro exI [of _ s3] exI [of _ s5]) simp
qed

lemma splice_splice:
  assumes "o1 + k \<le> length B" and "i + k \<le> length a" and "m \<le> k"
  defines "B1 \<equiv> take o1 B @ take m (drop i a) @ drop (o1 + m) B"
  shows "take (o1 + m) B1 @ take (k - m) (drop (i + m) a) @ drop (o1 + m + (k - m)) B1 =
    take o1 B @ take k (drop i a) @ drop (o1 + k) B"
proof -
  have "take k (drop i a) = take m (drop i a) @ take (k - m) (drop (i + m) a)"
    using assms(3) by (metis add_diff_inverse_nat drop_drop not_less take_add add.commute)
  then show ?thesis using assms(1-3) unfolding B1_def by (simp add: add.commute)
qed

lemma ks_commute: "s\<lparr>k_file := a, k_fs := t\<rparr> = s\<lparr>k_fs := t, k_file := a\<rparr>"
  by simp

lemma write_max_eq: "write_max = 1536"
  by (simp add: write_max_def MAXOPBLOCKS_def)

lemma filewrite_loop_writes:
  assumes "f < length (k_file s)" and "f_ip (k_file s ! f) = ip" and "idle (k_fs s)" and "cached (k_fs s) ip"
    and "i_type (fs_icache (k_fs s) ! ip) \<noteq> T_DEV"
    and "home_file (k_fs s) (fs_icache (k_fs s) ! ip) (unat (i_size (fs_icache (k_fs s) ! ip)))"
    and "unat (f_off (k_file s ! f)) + nat (n - i) \<le> unat (i_size (fs_icache (k_fs s) ! ip))"
    and "0 \<le> i" and "i \<le> n" and "n < 2 ^ 31" and "nat n \<le> length addr"
  shows "\<exists>t. filewrite_loop dwrite f addr n i s =
      Inr (s\<lparr>k_fs := t, k_file := (k_file s)[f := (k_file s ! f)
        \<lparr>f_off := f_off (k_file s ! f) + word_of_int (n - i)\<rparr>]\<rparr>, n) \<and>
    idle t \<and> fs_icache t = fs_icache (k_fs s) \<and>
    file_bytes t ip = take (unat (f_off (k_file s ! f))) (file_bytes (k_fs s) ip) @
      take (nat (n - i)) (drop (nat i) addr) @
      drop (unat (f_off (k_file s ! f)) + nat (n - i)) (file_bytes (k_fs s) ip)"
  using assms
proof (induction "nat (n - i)" arbitrary: i s rule: less_induct)
  case less
  let ?x = "k_file s ! f" and ?t = "k_fs s"
  let ?off = "f_off ?x" and ?i = "fs_icache ?t ! ip"
  show ?case
  proof (cases "i < n")
    case False
    then have "i = n" using less.prems(9) by simp
    then show ?thesis
      using less.prems(3) by (intro exI [of _ ?t]) (simp add: filewrite_loop.simps retF_def)
  next
    case True
    define m where "m = min (n - i) write_max"
    have m: "0 < m" "m \<le> n - i" "m \<le> 1536" "m < 2 ^ 32" using True less.prems(8,10) by (auto simp: m_def write_max_eq)
    let ?m = "word_of_int m :: 32 word"
    have um: "unat ?m = nat m" "uint ?m = m" using m nat_word_of_int [of m] by (auto simp: uint_word_of_int take_bit_int_eq_self)
    have nm: "nat m \<le> nat (n - i)" "nat m \<le> 3 * BSIZE" using m by (auto simp: BSIZE_def)
    have ln: "nat m \<le> length (drop (nat i) addr)" "nat i + nat (n - i) \<le> length addr"
      using m less.prems(8,9,11) by auto
    from write_chunk [OF less.prems(3-6), of ?off ?m "drop (nat i) addr" dwrite] obtain s3 s5 where
      w: "ilock ip (begun ?t) = Inr (set_lock ip True (begun ?t), ())"
        "writei dwrite ip (drop (nat i) addr) ?off ?m (set_lock ip True (begun ?t)) = Inr (s3, m)"
        "iunlock ip s3 = Inr (set_lock ip False s3, ())" "fs_end_op (set_lock ip False s3) = Inr (s5, ())"
        "idle s5" "fs_icache s5 = fs_icache ?t" "home_file s5 ?i (unat (i_size ?i))"
        "file_bytes s5 ip = take (unat ?off) (file_bytes ?t ip) @ take (nat m) (drop (nat i) addr) @
           drop (unat ?off + nat m) (file_bytes ?t ip)"
      using less.prems(7) nm ln um by auto
    let ?s = "s\<lparr>k_fs := s5, k_file := (k_file s)[f := ?x\<lparr>f_off := ?off + ?m\<rparr>]\<rparr>"
    have step: "filewrite_loop dwrite f addr n i s = filewrite_loop dwrite f addr n (i + m) ?s"
      using True less.prems(1,2) w(1-4) begin_idle(1) [OF less.prems(3)] m
      by (subst filewrite_loop.simps)
         (simp add: bindF_def liftF_def file_at_def getF_def upd_file_def modF_def m_def [symmetric] ks_commute)
    have "unat (i_size ?i) < 2 ^ LENGTH(32)" by (rule unsigned_less)
    then have "unat ?off + nat m < 2 ^ 32" using less.prems(7) nm by simp
    then have uo: "unat (?off + ?m) = unat ?off + nat m" using um by (simp add: unat_word_ariths)
    have "\<exists>t. filewrite_loop dwrite f addr n (i + m) ?s =
        Inr (?s\<lparr>k_fs := t, k_file := (k_file ?s)[f := (k_file ?s ! f)
          \<lparr>f_off := f_off (k_file ?s ! f) + word_of_int (n - (i + m))\<rparr>]\<rparr>, n) \<and>
      idle t \<and> fs_icache t = fs_icache (k_fs ?s) \<and>
      file_bytes t ip = take (unat (f_off (k_file ?s ! f))) (file_bytes (k_fs ?s) ip) @
        take (nat (n - (i + m))) (drop (nat (i + m)) addr) @
        drop (unat (f_off (k_file ?s ! f)) + nat (n - (i + m))) (file_bytes (k_fs ?s) ip)"
    proof (rule less.hyps)
      show "unat (f_off (k_file ?s ! f)) + nat (n - (i + m)) \<le> unat (i_size (fs_icache (k_fs ?s) ! ip))"
        using less.prems(1,7) uo w(6) m by simp
      show "cached (k_fs ?s) ip" using less.prems(4) w(6) by (simp add: cached_def)
    qed (use less.prems w(5-7) m in auto)
    then obtain t where t: "filewrite_loop dwrite f addr n (i + m) ?s =
        Inr (s\<lparr>k_fs := t, k_file := (k_file s)[f := ?x\<lparr>f_off := ?off + ?m + word_of_int (n - (i + m))\<rparr>]\<rparr>, n)"
      "idle t" "fs_icache t = fs_icache ?t"
      "file_bytes t ip = take (unat ?off + nat m) (file_bytes s5 ip) @
        take (nat (n - i) - nat m) (drop (nat i + nat m) addr) @
        drop (unat ?off + nat m + (nat (n - i) - nat m)) (file_bytes s5 ip)"
      using less.prems(1,8) w(6) m uo by (auto simp: nat_diff_distrib nat_add_distrib)
    have "?m + word_of_int (n - (i + m)) = (word_of_int (n - i) :: 32 word)"
      by (simp add: of_int_add of_int_diff)
    then have e: "?off + ?m + word_of_int (n - (i + m)) = ?off + word_of_int (n - i)" by (simp add: add.assoc)
    have "unat ?off + nat (n - i) \<le> length (file_bytes ?t ip)" using less.prems(7) by (simp add: file_bytes_def)
    from splice_splice [OF this ln(2) nm(1)] show ?thesis
      using t w(8) by (intro exI [of _ t]) (simp only: step e simp_thms)
  qed
qed

text \<open>
  C35. Writing inside a file: \<^verbatim>\<open>filewrite\<close> splits any number of bytes into transactions of at
  most three blocks of data, none of which can overflow the log; it returns the number of
  bytes, the file then holds them at the offset and is otherwise unchanged, the offset and
  the counter have advanced by the number, and everything is on the disk: no transaction is
  running, the log is empty and every block has its current content.
\<close>

theorem filewrite_writes:
  assumes "f < length (k_file s)" and "f_writable (k_file s ! f)" and "f_type (k_file s ! f) = FD_INODE"
    and "f_ip (k_file s ! f) = ip" and "idle (k_fs s)" and "cached (k_fs s) ip"
    and "i_type (fs_icache (k_fs s) ! ip) \<noteq> T_DEV"
    and "home_file (k_fs s) (fs_icache (k_fs s) ! ip) (unat (i_size (fs_icache (k_fs s) ! ip)))"
    and "f_off (k_file s ! f) = off" and "unat off + nat n \<le> unat (i_size (fs_icache (k_fs s) ! ip))"
    and "0 \<le> n" and "n < 2 ^ 31" and "nat n \<le> length addr"
  shows "\<exists>t. filewrite dwrite f addr n s =
      Inr (s\<lparr>k_fs := t, k_file := (k_file s)[f := (k_file s ! f)
             \<lparr>f_off := off + word_of_int n, f_write_bytes := f_write_bytes (k_file s ! f) + word_of_int n\<rparr>]\<rparr>,
           Returned n) \<and>
    file_bytes t ip = take (unat off) (file_bytes (k_fs s) ip) @ take (nat n) addr @
      drop (unat off + nat n) (file_bytes (k_fs s) ip) \<and>
    fs_icache t = fs_icache (k_fs s) \<and> idle t \<and> (\<forall>b. bio_disk (fs_bio t) b = view t b)"
proof -
  have "unat (f_off (k_file s ! f)) + nat (n - 0) \<le> unat (i_size (fs_icache (k_fs s) ! ip))" using assms(9,10) by simp
  from filewrite_loop_writes [OF assms(1,4,5-8) this, of addr dwrite] obtain t where
    t: "filewrite_loop dwrite f addr n 0 s =
      Inr (s\<lparr>k_fs := t, k_file := (k_file s)[f := (k_file s ! f)\<lparr>f_off := off + word_of_int n\<rparr>]\<rparr>, n)"
    "idle t" "fs_icache t = fs_icache (k_fs s)"
    "file_bytes t ip = take (unat off) (file_bytes (k_fs s) ip) @ take (nat n) addr @
      drop (unat off + nat n) (file_bytes (k_fs s) ip)"
    using assms(9,11-13) by auto
  then show ?thesis
    using assms(1-3) idle_view [OF t(2)]
    by (intro exI [of _ t])
       (simp add: filewrite_def bindF_def file_at_def getF_def retF_def upd_file_def modF_def)
qed

section \<open>An example\<close>

text \<open>
  A file system at rest with the file of five bytes of the previous theory, a cached root
  directory without entries, and a process with the file open as descriptor 0, at offset 1.
\<close>

definition ex_root :: inode where
  "ex_root = empty_inode\<lparr>i_dev := 1, i_inum := 1, i_ref := 1, i_valid := True, i_type := T_DIR, i_nlink := 1\<rparr>"

definition ex_rest :: fs where
  "ex_rest = ex_fs\<lparr>fs_log := ex_log\<lparr>lh_n := 0, lg_outstanding := 0\<rparr>, fs_bio := binit ex_disk 1000,
     fs_icache := ex_inode # ex_root # replicate 48 empty_inode\<rparr>"

definition ex_free_file :: struct_file where
  "ex_free_file = \<lparr>f_type = FD_NONE, f_ref = 0, f_readable = True, f_writable = True, f_pipe = 0, f_ip = 0,
     f_off = 9, f_read_bytes = 30, f_write_bytes = 40\<rparr>"

definition ex_open_file :: struct_file where
  "ex_open_file = \<lparr>f_type = FD_INODE, f_ref = 1, f_readable = True, f_writable = True, f_pipe = 0, f_ip = 0,
     f_off = 1, f_read_bytes = 0, f_write_bytes = 0\<rparr>"

definition ex_ks :: ks where
  "ex_ks = \<lparr>k_fs = ex_rest, k_file = ex_open_file # replicate 99 ex_free_file, k_pipe = Map.empty,
     k_ofile = Some 0 # replicate 15 None, k_cwd = 1, k_me = 3, k_killed = False, k_mem = (\<lambda>_. 0), k_sz = 4096,
     k_esp = 4000\<rparr>"

lemma ex_rest_idle: "idle ex_rest"
proof -
  have "head_n (ex_disk 2) = 0" by (simp add: head_n_def ex_disk_def load32_def)
  moreover have "bio_disk (binit ex_disk 1000) = ex_disk" "bio_disksize (binit ex_disk 1000) = 1000"
    by (simp_all add: binit_def)
  ultimately show ?thesis
    using binit_ok [of ex_disk 1000]
    by (simp add: idle_def log_inv_def quiet_def ex_rest_def log_geom_def logged_def)
       (simp add: ex_log_def LOGSIZE_def)
qed

lemma ex_rest_file: "home_file ex_rest ex_inode 5" "cached ex_rest 0" "fs_icache ex_rest ! 0 = ex_inode"
proof -
  have bn: "bn * BSIZE < 5 \<longleftrightarrow> bn = 0" for bn by (cases bn) (auto simp: BSIZE_def)
  have fb: "fblock ex_rest ex_inode 0 = 50" by (simp add: fblock_def NDIRECT_def ex_inode_def)
  have "mapped ex_rest ex_inode 0"
    by (simp add: mapped_def fb MAXFILE_def NDIRECT_def) (simp add: ex_rest_def binit_def in_log_def ex_log_def)
  then show "home_file ex_rest ex_inode 5"
    by (simp add: home_file_def file_ok_def bn fb) (simp add: ex_inode_def NDIRECT_def BSIZE_def)
  show "fs_icache ex_rest ! 0 = ex_inode" by (simp add: ex_rest_def)
  then show "cached ex_rest 0" by (simp add: cached_def) (simp add: ex_rest_def ex_inode_def empty_inode_def)
qed

lemma ex_rest_open: "open_at 0 ex_rest 0" "space ex_rest 0 1"
proof -
  have "txo 0 ex_rest" "held ex_rest = Map.empty"
    using ex_rest_idle by (auto simp: idle_def log_inv_tx txo_def)
  then show "open_at 0 ex_rest 0"
    using ex_rest_file(1) by (simp add: open_at_def ex_rest_file(3) home_file_def) (simp add: ex_inode_def T_DEV_def)
  show "space ex_rest 0 1"
    using ex_rest_idle \<open>held ex_rest = Map.empty\<close> by (simp add: space_def idle_def LOGSIZE_def NBUF_def)
qed

lemma ex_ks_simps:
  "k_fs ex_ks = ex_rest" "k_file ex_ks ! 0 = ex_open_file" "length (k_file ex_ks) = 100"
  "i_size ex_inode = 5" "i_type ex_inode \<noteq> T_DEV" "length (file_bytes ex_rest 0) = 5"
  by (simp_all add: ex_ks_def ex_inode_def T_DEV_def file_bytes_def ex_rest_file(3))

theorem fileread_eof_panics_witness:
  "fileread (\<lambda>_. None) 0 4 (ex_ks\<lparr>k_file := [ex_open_file\<lparr>f_off := 5\<rparr>]\<rparr>) = Inl (Panic ''fileread'')"
  by (rule fileread_eof_panics [where ip = 0 and off = 5])
     (use ex_rest_file(2) in \<open>simp_all add: ex_ks_simps ex_rest_file(3) ex_open_file_def\<close>)

theorem fileread_reads_witness:
  "\<exists>t. fileread (\<lambda>_. None) 0 100 ex_ks = Inr (t, (Returned 4, drop 1 (file_bytes ex_rest 0))) \<and>
     f_off (k_file t ! 0) = 5 \<and> f_read_bytes (k_file t ! 0) = 100"
  using fileread_reads [of 0 ex_ks 0 1 100 "\<lambda>_. None"] ex_rest_file(2) ex_rest_open
  by (auto simp: ex_ks_simps ex_rest_file(3)) (auto simp: ex_open_file_def ex_ks_def ex_rest_def)

theorem filewrite_writes_witness:
  "\<exists>t. filewrite (\<lambda>_. None) 0 [7, 8, 9] 3 ex_ks = Inr (t, Returned 3) \<and>
     take 3 (drop 1 (file_bytes (k_fs t) 0)) = [7, 8, 9]"
proof -
  have "unat (1 :: 32 word) + nat 3 \<le> unat (i_size (fs_icache (k_fs ex_ks) ! 0))"
    by (simp add: ex_ks_simps ex_rest_file(3))
  then show ?thesis
    using filewrite_writes [of 0 ex_ks 0 1 3 "[7, 8, 9]" "\<lambda>_. None"] ex_rest_file(1,2) ex_rest_idle
    by (auto simp: ex_ks_simps ex_rest_file(3)) (auto simp: ex_open_file_def ex_ks_simps)
qed

end
