(* ===== verification/Sysfile.thy ===== *)
theory Sysfile
  imports Fdesc
begin

text \<open>
  The system calls on files of xv6, \<^verbatim>\<open>hw09/starter-hw09/xv6/sysfile.c\<close>, and the fetching of their
  arguments, the first part of \<^verbatim>\<open>hw09/starter-hw09/xv6/syscall.c\<close>. The arguments are read from
  the memory of the process (\<open>k_mem\<close> up to \<open>k_sz\<close>, the stack pointer is \<open>k_esp\<close>); a null result
  or -1 of a fetch is \<open>None\<close>. The parts of a call that only use the file system are functions on
  its state; \<open>fcall_run\<close> is the dispatch over the calls.
\<close>

section \<open>Arguments\<close>

definition fetchint :: "32 word \<Rightarrow> 32 word option fm" where
  "fetchint addr =
     getF (\<lambda>s. if k_sz s \<le> addr \<or> k_sz s < addr + 4 then None else Some (load32 (k_mem s) (unat addr)))"

text \<open>The loop of \<^verbatim>\<open>fetchstr\<close>: the distance from \<open>a\<close> to the first NUL before \<open>ep\<close>.\<close>

function fetchstr_loop :: "mem \<Rightarrow> nat \<Rightarrow> nat \<Rightarrow> nat option" where
  "fetchstr_loop m a ep =
     (if a < ep then if m a = 0 then Some 0 else map_option Suc (fetchstr_loop m (a + 1) ep) else None)"
  by pat_completeness auto
termination by (relation "measure (\<lambda>(m, a, ep). ep - a)") auto

declare fetchstr_loop.simps [simp del]

definition fetchstr :: "32 word \<Rightarrow> 8 word list option fm" where
  "fetchstr addr =
     getF (\<lambda>s. if k_sz s \<le> addr then None
               else map_option (read_bytes (k_mem s) (unat addr)) (fetchstr_loop (k_mem s) (unat addr) (unat (k_sz s))))"

definition argint :: "nat \<Rightarrow> 32 word option fm" where
  "argint n = bindF (getF k_esp) (\<lambda>esp. fetchint (esp + 4 + 4 * word_of_nat n))"

definition argptr :: "nat \<Rightarrow> int \<Rightarrow> nat option fm" where
  "argptr n size' =
     bindF (argint n) (\<lambda>r.
     case r of
       None \<Rightarrow> retF None
     | Some i \<Rightarrow>
         getF (\<lambda>s. if size' < 0 \<or> k_sz s \<le> i \<or> k_sz s < i + word_of_int size' then None else Some (unat i)))"

definition argstr :: "nat \<Rightarrow> 8 word list option fm" where
  "argstr n = bindF (argint n) (\<lambda>r. case r of None \<Rightarrow> retF None | Some addr \<Rightarrow> fetchstr addr)"

definition argfd :: "nat \<Rightarrow> (nat \<times> nat) option fm" where
  "argfd n =
     bindF (argint n) (\<lambda>r.
     case r of
       None \<Rightarrow> retF None
     | Some fd \<Rightarrow>
         getF (\<lambda>s. if sint fd < 0 \<or> int NOFILE \<le> sint fd then None
                   else map_option (Pair (nat (sint fd))) (k_ofile s ! nat (sint fd))))"

definition fdalloc :: "nat \<Rightarrow> nat option fm" where
  "fdalloc f =
     bindF (getF (\<lambda>s. find (\<lambda>fd. k_ofile s ! fd = None) [0..<NOFILE])) (\<lambda>r.
     case r of
       None \<Rightarrow> retF None
     | Some fd \<Rightarrow> bindF (modF (\<lambda>s. s\<lparr>k_ofile := (k_ofile s)[fd := Some f]\<rparr>)) (\<lambda>_. retF (Some fd)))"

section \<open>Calls on a descriptor\<close>

definition sys_dup :: "int fm" where
  "sys_dup =
     bindF (argfd 0) (\<lambda>r.
     case r of
       None \<Rightarrow> retF (-1)
     | Some (_, f) \<Rightarrow>
         bindF (fdalloc f) (\<lambda>r.
         case r of
           None \<Rightarrow> retF (-1)
         | Some fd \<Rightarrow> bindF (filedup f) (\<lambda>_. retF (int fd))))"

definition sys_read :: "devread \<Rightarrow> pipe_result fm" where
  "sys_read dread =
     bindF (argfd 0) (\<lambda>r. case r of None \<Rightarrow> retF (Returned (-1)) | Some (_, f) \<Rightarrow>
     bindF (argint 2) (\<lambda>r. case r of None \<Rightarrow> retF (Returned (-1)) | Some n \<Rightarrow>
     bindF (argptr 1 (sint n)) (\<lambda>r. case r of None \<Rightarrow> retF (Returned (-1)) | Some p \<Rightarrow>
     bindF (fileread dread f (sint n)) (\<lambda>(r, bs).
     bindF (modF (\<lambda>s. s\<lparr>k_mem := write_bytes (k_mem s) p bs\<rparr>)) (\<lambda>_. retF r)))))"

definition sys_write :: "devwrite \<Rightarrow> pipe_result fm" where
  "sys_write dwrite =
     bindF (argfd 0) (\<lambda>r. case r of None \<Rightarrow> retF (Returned (-1)) | Some (_, f) \<Rightarrow>
     bindF (argint 2) (\<lambda>r. case r of None \<Rightarrow> retF (Returned (-1)) | Some n \<Rightarrow>
     bindF (argptr 1 (sint n)) (\<lambda>r. case r of None \<Rightarrow> retF (Returned (-1)) | Some p \<Rightarrow>
     bindF (getF (\<lambda>s. read_bytes (k_mem s) p (nat (sint n)))) (\<lambda>addr.
       filewrite dwrite f addr (sint n)))))"

definition sys_close :: "int fm" where
  "sys_close =
     bindF (argfd 0) (\<lambda>r.
     case r of
       None \<Rightarrow> retF (-1)
     | Some (fd, f) \<Rightarrow>
         bindF (modF (\<lambda>s. s\<lparr>k_ofile := (k_ofile s)[fd := None]\<rparr>)) (\<lambda>_.
         bindF (fileclose f) (\<lambda>_. retF 0)))"

text \<open>\<^verbatim>\<open>struct stat\<close> in the memory of the process.\<close>

definition put_stat :: "mem \<Rightarrow> nat \<Rightarrow> stat \<Rightarrow> mem" where
  "put_stat m p st =
     store32 (store16 (store32 (store32 (store16 m p (st_type st)) (p + 4) (word_of_nat (st_dev st)))
       (p + 8) (word_of_nat (st_ino st))) (p + 12) (st_nlink st)) (p + 16) (st_size st)"

definition sys_fstat :: "int fm" where
  "sys_fstat =
     bindF (argfd 0) (\<lambda>r. case r of None \<Rightarrow> retF (-1) | Some (_, f) \<Rightarrow>
     bindF (argptr 1 20) (\<lambda>r. case r of None \<Rightarrow> retF (-1) | Some p \<Rightarrow>
     bindF (filestat f) (\<lambda>(r, st).
     case st of
       None \<Rightarrow> retF r
     | Some st \<Rightarrow> bindF (modF (\<lambda>s. s\<lparr>k_mem := put_stat (k_mem s) p st\<rparr>)) (\<lambda>_. retF r))))"

definition sys_getiostats :: "int fm" where
  "sys_getiostats =
     bindF (argfd 0) (\<lambda>r. case r of None \<Rightarrow> retF (-1) | Some (_, f) \<Rightarrow>
     bindF (argptr 1 8) (\<lambda>r. case r of None \<Rightarrow> retF (-1) | Some p \<Rightarrow>
     bindF (getiostats f) (\<lambda>(r, st).
     case st of
       None \<Rightarrow> retF r
     | Some (rb, wb) \<Rightarrow>
         bindF (modF (\<lambda>s. s\<lparr>k_mem := store32 (store32 (k_mem s) p rb) (p + 4) wb\<rparr>)) (\<lambda>_. retF r))))"

text \<open>\<open>page\<close> is the result of \<^verbatim>\<open>kalloc\<close> in \<^verbatim>\<open>pipealloc\<close>.\<close>

definition pipe_undo :: "nat \<Rightarrow> nat \<Rightarrow> int fm" where
  "pipe_undo rfile wfile = bindF (fileclose rfile) (\<lambda>_. bindF (fileclose wfile) (\<lambda>_. retF (-1)))"

definition sys_pipe :: "(nat \<times> 8 word list) option \<Rightarrow> int fm" where
  "sys_pipe page =
     bindF (argptr 0 8) (\<lambda>r. case r of None \<Rightarrow> retF (-1) | Some p \<Rightarrow>
     bindF (pipealloc_files page) (\<lambda>r. case r of None \<Rightarrow> retF (-1) | Some (rfile, wfile) \<Rightarrow>
     bindF (fdalloc rfile) (\<lambda>r. case r of None \<Rightarrow> pipe_undo rfile wfile | Some fd0 \<Rightarrow>
     bindF (fdalloc wfile) (\<lambda>r.
     case r of
       None \<Rightarrow>
         bindF (modF (\<lambda>s. s\<lparr>k_ofile := (k_ofile s)[fd0 := None]\<rparr>)) (\<lambda>_. pipe_undo rfile wfile)
     | Some fd1 \<Rightarrow>
         bindF (modF (\<lambda>s. s\<lparr>k_mem := store32 (store32 (k_mem s) p (word_of_nat fd0)) (p + 4) (word_of_nat fd1)\<rparr>))
           (\<lambda>_. retF 0)))))"

section \<open>Calls on path names\<close>

definition T_FILE :: "16 word" where "T_FILE = 2"

text \<open>\<^verbatim>\<open>sys_link\<close> after its arguments; \<open>link_undo\<close> is the label \<^verbatim>\<open>bad\<close>.\<close>

definition link_undo :: "nat \<Rightarrow> int fsm" where
  "link_undo ip =
     bindS (ilock ip) (\<lambda>_.
     bindS (upd_inode ip (\<lambda>i. i\<lparr>i_nlink := i_nlink i - 1\<rparr>)) (\<lambda>_.
     bindS (iupdate ip) (\<lambda>_.
     bindS (iunlockput ip) (\<lambda>_.
     bindS fs_end_op (\<lambda>_. retS (-1))))))"

definition link_fs :: "devread \<Rightarrow> devwrite \<Rightarrow> nat \<Rightarrow> 8 word list \<Rightarrow> 8 word list \<Rightarrow> int fsm" where
  "link_fs dread dwrite cwd old new =
     bindS fs_begin_op (\<lambda>_.
     bindS (namei dread cwd old) (\<lambda>r.
     case r of
       None \<Rightarrow> bindS fs_end_op (\<lambda>_. retS (-1))
     | Some ip \<Rightarrow>
         bindS (ilock ip) (\<lambda>_.
         bindS (inode_at ip) (\<lambda>i.
         if i_type i = T_DIR then
           bindS (iunlockput ip) (\<lambda>_. bindS fs_end_op (\<lambda>_. retS (-1)))
         else
           bindS (upd_inode ip (\<lambda>i. i\<lparr>i_nlink := i_nlink i + 1\<rparr>)) (\<lambda>_.
           bindS (iupdate ip) (\<lambda>_.
           bindS (iunlock ip) (\<lambda>_.
           bindS (nameiparent dread cwd new) (\<lambda>r.
           case r of
             None \<Rightarrow> link_undo ip
           | Some (dp, name) \<Rightarrow>
               bindS (ilock dp) (\<lambda>_.
               bindS (inode_at dp) (\<lambda>d.
               bindS (inode_at ip) (\<lambda>i.
               bindS (if i_dev d \<noteq> i_dev i then retS (-1) else dirlink dread dwrite dp name (i_inum i)) (\<lambda>r.
               if r < 0 then bindS (iunlockput dp) (\<lambda>_. link_undo ip)
               else
                 bindS (iunlockput dp) (\<lambda>_.
                 bindS (iput ip) (\<lambda>_.
                 bindS fs_end_op (\<lambda>_. retS 0)))))))))))))))"

definition sys_link :: "devread \<Rightarrow> devwrite \<Rightarrow> int fm" where
  "sys_link dread dwrite =
     bindF (argstr 0) (\<lambda>r. case r of None \<Rightarrow> retF (-1) | Some old \<Rightarrow>
     bindF (argstr 1) (\<lambda>r. case r of None \<Rightarrow> retF (-1) | Some new \<Rightarrow>
     bindF (getF k_cwd) (\<lambda>cwd. liftF (link_fs dread dwrite cwd old new))))"

function isdirempty_loop :: "devread \<Rightarrow> nat \<Rightarrow> nat \<Rightarrow> nat \<Rightarrow> int fsm" where
  "isdirempty_loop dread dp sz off s =
     (if off < sz then
        bindS (readi dread dp (word_of_nat off) (word_of_nat DIRENT)) (\<lambda>(r, de).
        if r \<noteq> int DIRENT then panicS ''isdirempty: readi''
        else if de_inum de \<noteq> 0 then retS 0
        else isdirempty_loop dread dp sz (off + DIRENT)) s
      else retS 1 s)"
  by pat_completeness auto
termination
  by (relation "measure (\<lambda>(dread, dp, sz, off, s). sz - off)") (auto simp: DIRENT_def)

declare isdirempty_loop.simps [simp del]

definition isdirempty :: "devread \<Rightarrow> nat \<Rightarrow> int fsm" where
  "isdirempty dread dp =
     bindS (inode_at dp) (\<lambda>i. isdirempty_loop dread dp (unat (i_size i)) (2 * DIRENT))"

text \<open>\<^verbatim>\<open>sys_unlink\<close> after its argument; \<open>unlink_bad\<close> is the label \<^verbatim>\<open>bad\<close>.\<close>

definition unlink_bad :: "nat \<Rightarrow> int fsm" where
  "unlink_bad dp = bindS (iunlockput dp) (\<lambda>_. bindS fs_end_op (\<lambda>_. retS (-1)))"

definition unlink_entry :: "devwrite \<Rightarrow> nat \<Rightarrow> nat \<Rightarrow> nat \<Rightarrow> int fsm" where
  "unlink_entry dwrite dp ip off =
     bindS (writei dwrite dp (replicate DIRENT 0) (word_of_nat off) (word_of_nat DIRENT)) (\<lambda>r.
     if r \<noteq> int DIRENT then panicS ''unlink: writei''
     else
       bindS (inode_at ip) (\<lambda>i.
       bindS (if i_type i = T_DIR then
                bindS (upd_inode dp (\<lambda>i. i\<lparr>i_nlink := i_nlink i - 1\<rparr>)) (\<lambda>_. iupdate dp)
              else retS ()) (\<lambda>_.
       bindS (iunlockput dp) (\<lambda>_.
       bindS (upd_inode ip (\<lambda>i. i\<lparr>i_nlink := i_nlink i - 1\<rparr>)) (\<lambda>_.
       bindS (iupdate ip) (\<lambda>_.
       bindS (iunlockput ip) (\<lambda>_.
       bindS fs_end_op (\<lambda>_. retS 0))))))))"

definition unlink_fs :: "devread \<Rightarrow> devwrite \<Rightarrow> nat \<Rightarrow> 8 word list \<Rightarrow> int fsm" where
  "unlink_fs dread dwrite cwd path =
     bindS fs_begin_op (\<lambda>_.
     bindS (nameiparent dread cwd path) (\<lambda>r.
     case r of
       None \<Rightarrow> bindS fs_end_op (\<lambda>_. retS (-1))
     | Some (dp, name) \<Rightarrow>
         bindS (ilock dp) (\<lambda>_.
         if namecmp name [46] = 0 \<or> namecmp name [46, 46] = 0 then unlink_bad dp
         else
           bindS (dirlookup dread dp name) (\<lambda>r.
           case r of
             None \<Rightarrow> unlink_bad dp
           | Some (ip, off) \<Rightarrow>
               bindS (ilock ip) (\<lambda>_.
               bindS (inode_at ip) (\<lambda>i.
               if sint (i_nlink i) < 1 then panicS ''unlink: nlink < 1''
               else
                 bindS (if i_type i = T_DIR then isdirempty dread ip else retS 1) (\<lambda>e.
                 if e = 0 then bindS (iunlockput ip) (\<lambda>_. unlink_bad dp)
                 else unlink_entry dwrite dp ip off)))))))"

definition sys_unlink :: "devread \<Rightarrow> devwrite \<Rightarrow> int fm" where
  "sys_unlink dread dwrite =
     bindF (argstr 0) (\<lambda>r. case r of None \<Rightarrow> retF (-1) | Some path \<Rightarrow>
     bindF (getF k_cwd) (\<lambda>cwd. liftF (unlink_fs dread dwrite cwd path)))"

text \<open>\<^verbatim>\<open>create\<close>: the inode is returned locked. \<open>create_new\<close> is its second half.\<close>

definition create_new :: "devread \<Rightarrow> devwrite \<Rightarrow> nat \<Rightarrow> 8 word list \<Rightarrow> 16 word \<Rightarrow> 16 word \<Rightarrow> 16 word \<Rightarrow>
    nat option fsm" where
  "create_new dread dwrite dp name ty major minor =
     bindS (inode_at dp) (\<lambda>d.
     bindS (ialloc (i_dev d) ty) (\<lambda>ip.
     bindS (ilock ip) (\<lambda>_.
     bindS (upd_inode ip (\<lambda>i. i\<lparr>i_major := major, i_minor := minor, i_nlink := 1\<rparr>)) (\<lambda>_.
     bindS (iupdate ip) (\<lambda>_.
     bindS (inode_at ip) (\<lambda>i.
     bindS (if ty = T_DIR then
              bindS (upd_inode dp (\<lambda>d. d\<lparr>i_nlink := i_nlink d + 1\<rparr>)) (\<lambda>_.
              bindS (iupdate dp) (\<lambda>_.
              bindS (dirlink dread dwrite ip [46] (i_inum i)) (\<lambda>r.
              if r < 0 then panicS ''create dots''
              else
                bindS (inode_at dp) (\<lambda>d.
                bindS (dirlink dread dwrite ip [46, 46] (i_inum d)) (\<lambda>r.
                if r < 0 then panicS ''create dots'' else retS ())))))
            else retS ()) (\<lambda>_.
     bindS (dirlink dread dwrite dp name (i_inum i)) (\<lambda>r.
     if r < 0 then panicS ''create: dirlink''
     else bindS (iunlockput dp) (\<lambda>_. retS (Some ip))))))))))"

definition create :: "devread \<Rightarrow> devwrite \<Rightarrow> nat \<Rightarrow> 8 word list \<Rightarrow> 16 word \<Rightarrow> 16 word \<Rightarrow> 16 word \<Rightarrow>
    nat option fsm" where
  "create dread dwrite cwd path ty major minor =
     bindS (nameiparent dread cwd path) (\<lambda>r.
     case r of
       None \<Rightarrow> retS None
     | Some (dp, name) \<Rightarrow>
         bindS (ilock dp) (\<lambda>_.
         bindS (dirlookup dread dp name) (\<lambda>r.
         case r of
           Some (ip, _) \<Rightarrow>
             bindS (iunlockput dp) (\<lambda>_.
             bindS (ilock ip) (\<lambda>_.
             bindS (inode_at ip) (\<lambda>i.
             if ty = T_FILE \<and> i_type i = T_FILE then retS (Some ip)
             else bindS (iunlockput ip) (\<lambda>_. retS None))))
         | None \<Rightarrow> create_new dread dwrite dp name ty major minor)))"

definition O_RDONLY :: "32 word" where "O_RDONLY = 0"
definition O_WRONLY :: "32 word" where "O_WRONLY = 1"
definition O_RDWR :: "32 word" where "O_RDWR = 2"
definition O_CREATE :: "32 word" where "O_CREATE = 0x200"

text \<open>The inode that \<^verbatim>\<open>sys_open\<close> opens, locked.\<close>

definition open_inode :: "devread \<Rightarrow> devwrite \<Rightarrow> nat \<Rightarrow> 8 word list \<Rightarrow> 32 word \<Rightarrow> nat option fsm" where
  "open_inode dread dwrite cwd path omode =
     (if omode AND O_CREATE \<noteq> 0 then create dread dwrite cwd path T_FILE 0 0
      else
        bindS (namei dread cwd path) (\<lambda>r.
        case r of
          None \<Rightarrow> retS None
        | Some ip \<Rightarrow>
            bindS (ilock ip) (\<lambda>_.
            bindS (inode_at ip) (\<lambda>i.
            if i_type i = T_DIR \<and> omode \<noteq> O_RDONLY then bindS (iunlockput ip) (\<lambda>_. retS None)
            else retS (Some ip)))))"

definition open_fail :: "nat \<Rightarrow> int fm" where
  "open_fail ip = bindF (liftF (iunlockput ip)) (\<lambda>_. bindF (liftF fs_end_op) (\<lambda>_. retF (-1)))"

definition sys_open :: "devread \<Rightarrow> devwrite \<Rightarrow> int fm" where
  "sys_open dread dwrite =
     bindF (argstr 0) (\<lambda>r. case r of None \<Rightarrow> retF (-1) | Some path \<Rightarrow>
     bindF (argint 1) (\<lambda>r. case r of None \<Rightarrow> retF (-1) | Some omode \<Rightarrow>
     bindF (liftF fs_begin_op) (\<lambda>_.
     bindF (getF k_cwd) (\<lambda>cwd.
     bindF (liftF (open_inode dread dwrite cwd path omode)) (\<lambda>r.
     case r of
       None \<Rightarrow> bindF (liftF fs_end_op) (\<lambda>_. retF (-1))
     | Some ip \<Rightarrow>
         bindF filealloc (\<lambda>r.
         case r of
           None \<Rightarrow> open_fail ip
         | Some f \<Rightarrow>
             bindF (fdalloc f) (\<lambda>r.
             case r of
               None \<Rightarrow> bindF (fileclose f) (\<lambda>_. open_fail ip)
             | Some fd \<Rightarrow>
                 bindF (liftF (iunlock ip)) (\<lambda>_.
                 bindF (liftF fs_end_op) (\<lambda>_.
                 bindF (upd_file f (\<lambda>x. x\<lparr>f_type := FD_INODE, f_ip := ip, f_off := 0,
                   f_readable := (omode AND O_WRONLY = 0),
                   f_writable := (omode AND O_WRONLY \<noteq> 0 \<or> omode AND O_RDWR \<noteq> 0)\<rparr>)) (\<lambda>_.
                   retF (int fd)))))))))))"

definition sys_mkdir :: "devread \<Rightarrow> devwrite \<Rightarrow> int fm" where
  "sys_mkdir dread dwrite =
     bindF (liftF fs_begin_op) (\<lambda>_.
     bindF (argstr 0) (\<lambda>r.
     bindF (getF k_cwd) (\<lambda>cwd.
     bindF (case r of None \<Rightarrow> retF None | Some path \<Rightarrow> liftF (create dread dwrite cwd path T_DIR 0 0)) (\<lambda>r.
     case r of
       None \<Rightarrow> bindF (liftF fs_end_op) (\<lambda>_. retF (-1))
     | Some ip \<Rightarrow>
         bindF (liftF (iunlockput ip)) (\<lambda>_. bindF (liftF fs_end_op) (\<lambda>_. retF 0))))))"

definition sys_mknod :: "devread \<Rightarrow> devwrite \<Rightarrow> int fm" where
  "sys_mknod dread dwrite =
     bindF (liftF fs_begin_op) (\<lambda>_.
     bindF (argstr 0) (\<lambda>r0.
     bindF (argint 1) (\<lambda>r1.
     bindF (argint 2) (\<lambda>r2.
     bindF (getF k_cwd) (\<lambda>cwd.
     bindF (case (r0, r1, r2) of
              (Some path, Some major, Some minor) \<Rightarrow>
                liftF (create dread dwrite cwd path T_DEV (ucast major) (ucast minor))
            | _ \<Rightarrow> retF None) (\<lambda>r.
     case r of
       None \<Rightarrow> bindF (liftF fs_end_op) (\<lambda>_. retF (-1))
     | Some ip \<Rightarrow>
         bindF (liftF (iunlockput ip)) (\<lambda>_. bindF (liftF fs_end_op) (\<lambda>_. retF 0))))))))"

definition sys_chdir :: "devread \<Rightarrow> int fm" where
  "sys_chdir dread =
     bindF (liftF fs_begin_op) (\<lambda>_.
     bindF (argstr 0) (\<lambda>r.
     bindF (getF k_cwd) (\<lambda>cwd.
     bindF (case r of None \<Rightarrow> retF None | Some path \<Rightarrow> liftF (namei dread cwd path)) (\<lambda>r.
     case r of
       None \<Rightarrow> bindF (liftF fs_end_op) (\<lambda>_. retF (-1))
     | Some ip \<Rightarrow>
         bindF (liftF (ilock ip)) (\<lambda>_.
         bindF (liftF (inode_at ip)) (\<lambda>i.
         if i_type i \<noteq> T_DIR then
           bindF (liftF (iunlockput ip)) (\<lambda>_. bindF (liftF fs_end_op) (\<lambda>_. retF (-1)))
         else
           bindF (liftF (iunlock ip)) (\<lambda>_.
           bindF (liftF (iput cwd)) (\<lambda>_.
           bindF (liftF fs_end_op) (\<lambda>_.
           bindF (modF (\<lambda>s. s\<lparr>k_cwd := ip\<rparr>)) (\<lambda>_. retF 0))))))))))"

text \<open>
  The loop of \<^verbatim>\<open>sys_exec\<close> that collects the argument vector, and the arguments of the call of
  \<^verbatim>\<open>exec\<close>: \<open>None\<close> if \<^verbatim>\<open>sys_exec\<close> fails before it.
\<close>

definition MAXARG :: nat where "MAXARG = 32"

function exec_args_loop :: "32 word \<Rightarrow> nat \<Rightarrow> 8 word list list option fm" where
  "exec_args_loop uargv i s =
     (if i < MAXARG then
        bindF (fetchint (uargv + 4 * word_of_nat i)) (\<lambda>r.
        case r of
          None \<Rightarrow> retF None
        | Some uarg \<Rightarrow>
            if uarg = 0 then retF (Some [])
            else
              bindF (fetchstr uarg) (\<lambda>r.
              case r of
                None \<Rightarrow> retF None
              | Some arg \<Rightarrow> bindF (exec_args_loop uargv (i + 1)) (\<lambda>r. retF (map_option (Cons arg) r)))) s
      else retF None s)"
  by pat_completeness auto
termination by (relation "measure (\<lambda>(uargv, i, s). MAXARG - i)") auto

declare exec_args_loop.simps [simp del]

definition sys_exec_args :: "(8 word list \<times> 8 word list list) option fm" where
  "sys_exec_args =
     bindF (argstr 0) (\<lambda>r. case r of None \<Rightarrow> retF None | Some path \<Rightarrow>
     bindF (argint 1) (\<lambda>r. case r of None \<Rightarrow> retF None | Some uargv \<Rightarrow>
     bindF (exec_args_loop uargv 0) (\<lambda>r. retF (map_option (Pair path) r))))"

section \<open>The calls together\<close>

datatype fcall =
    CDup | CRead | CWrite | CClose | CFstat | CGetiostats | CPipe "(nat \<times> 8 word list) option"
  | CLink | CUnlink | COpen | CMkdir | CMknod | CChdir

definition fcall_run :: "devread \<Rightarrow> devwrite \<Rightarrow> fcall \<Rightarrow> pipe_result fm" where
  "fcall_run dread dwrite c =
     (case c of
        CRead \<Rightarrow> sys_read dread
      | CWrite \<Rightarrow> sys_write dwrite
      | _ \<Rightarrow>
          bindF (case c of
                   CDup \<Rightarrow> sys_dup
                 | CClose \<Rightarrow> sys_close
                 | CFstat \<Rightarrow> sys_fstat
                 | CGetiostats \<Rightarrow> sys_getiostats
                 | CPipe page \<Rightarrow> sys_pipe page
                 | CLink \<Rightarrow> sys_link dread dwrite
                 | CUnlink \<Rightarrow> sys_unlink dread dwrite
                 | COpen \<Rightarrow> sys_open dread dwrite
                 | CMkdir \<Rightarrow> sys_mkdir dread dwrite
                 | CMknod \<Rightarrow> sys_mknod dread dwrite
                 | _ \<Rightarrow> sys_chdir dread) (\<lambda>r. retF (Returned r)))"

section \<open>Descriptors and references\<close>

text \<open>
  The count of references of a file is the number of descriptors of this process that name it
  plus the number \<open>oth f\<close> held by others; a file without references has no type.
\<close>

definition fds_ok :: "(nat \<Rightarrow> int) \<Rightarrow> ks \<Rightarrow> bool" where
  "fds_ok oth s \<longleftrightarrow>
     length (k_file s) = NFILE \<and> length (k_ofile s) = NOFILE \<and>
     (\<forall>f. Some f \<in> set (k_ofile s) \<longrightarrow> f < NFILE) \<and>
     (\<forall>f < NFILE. f_ref (k_file s ! f) = int (count_list (k_ofile s) (Some f)) + oth f \<and>
        (f_ref (k_file s ! f) = 0 \<longrightarrow> f_type (k_file s ! f) = FD_NONE))"

text \<open>Weakest liberal preconditions: what holds if the call returns.\<close>

definition wlpF :: "'a fm \<Rightarrow> ('a \<Rightarrow> ks \<Rightarrow> bool) \<Rightarrow> ks \<Rightarrow> bool" where
  "wlpF m Q s \<longleftrightarrow> (case m s of Inl e \<Rightarrow> True | Inr (s', a) \<Rightarrow> Q a s')"

lemma wlpF_bind: "wlpF m (\<lambda>a. wlpF (f a) Q) s \<Longrightarrow> wlpF (bindF m f) Q s"
  by (auto simp: wlpF_def bindF_def split: sum.splits)

lemma wlpF_ret: "Q a s \<Longrightarrow> wlpF (retF a) Q s"
  by (simp add: wlpF_def retF_def)

lemma wlpF_get: "Q (h s) s \<Longrightarrow> wlpF (getF h) Q s"
  by (simp add: wlpF_def getF_def)

lemma wlpF_mod: "Q () (g s) \<Longrightarrow> wlpF (modF g) Q s"
  by (simp add: wlpF_def modF_def)

lemma wlpF_panic: "wlpF (panicF msg) Q s"
  by (simp add: wlpF_def panicF_def)

lemma wlpF_file_at: "Q (k_file s ! f) s \<Longrightarrow> wlpF (file_at f) Q s"
  by (simp add: wlpF_def file_at_def getF_def)

lemma wlpF_upd_file: "Q () (s\<lparr>k_file := (k_file s)[f := u (k_file s ! f)]\<rparr>) \<Longrightarrow> wlpF (upd_file f u) Q s"
  by (simp add: wlpF_def upd_file_def modF_def)

lemma wlpF_lift: "(\<And>a t. Q a (s\<lparr>k_fs := t\<rparr>)) \<Longrightarrow> wlpF (liftF m) Q s"
  by (cases "m (k_fs s)") (auto simp: wlpF_def liftF_def)

lemma wlpF_mono: "wlpF m Q s \<Longrightarrow> (\<And>a s'. Q a s' \<Longrightarrow> R a s') \<Longrightarrow> wlpF m R s"
  by (auto simp: wlpF_def split: sum.splits)

lemma wlpF_option:
  "(r = None \<Longrightarrow> wlpF m Q s) \<Longrightarrow> (\<And>x. r = Some x \<Longrightarrow> wlpF (f x) Q s) \<Longrightarrow>
   wlpF (case r of None \<Rightarrow> m | Some x \<Rightarrow> f x) Q s"
  by (cases r) auto

lemma wlpF_if: "(b \<Longrightarrow> wlpF m Q s) \<Longrightarrow> (\<not> b \<Longrightarrow> wlpF m' Q s) \<Longrightarrow> wlpF (if b then m else m') Q s"
  by simp

lemma wlpF_pair: "(\<And>a b. x = (a, b) \<Longrightarrow> wlpF (f a b) Q s) \<Longrightarrow> wlpF (case x of (a, b) \<Rightarrow> f a b) Q s"
  by (cases x) simp

lemmas wlpF_rules = wlpF_bind wlpF_ret wlpF_get wlpF_mod wlpF_panic wlpF_file_at wlpF_upd_file wlpF_lift
  wlpF_option wlpF_if wlpF_pair

lemma fds_ok_frame [simp]:
  "fds_ok oth (s\<lparr>k_fs := t\<rparr>) = fds_ok oth s" "fds_ok oth (s\<lparr>k_pipe := p\<rparr>) = fds_ok oth s"
  "fds_ok oth (s\<lparr>k_mem := m\<rparr>) = fds_ok oth s" "fds_ok oth (s\<lparr>k_cwd := c\<rparr>) = fds_ok oth s"
  by (simp_all add: fds_ok_def)

text \<open>A change of a file, and a change of a descriptor.\<close>

lemma nth_upd: "j < length xs \<Longrightarrow> xs[i := x] ! j = (if i = j then x else xs ! j)"
  by (cases "i = j") auto

lemma fds_ok_upd_ref:
  assumes "fds_ok oth s" and "f_ref x = f_ref (k_file s ! f) + d" and "f_ref x = 0 \<longrightarrow> f_type x = FD_NONE"
  shows "fds_ok (oth(f := oth f + d)) (s\<lparr>k_file := (k_file s)[f := x]\<rparr>)"
  using assms by (auto simp: fds_ok_def nth_upd)

lemma fds_ok_upd_file:
  assumes "fds_ok oth s" and "f_ref x = f_ref (k_file s ! f)" and "f_ref x = 0 \<longrightarrow> f_type x = FD_NONE"
  shows "fds_ok oth (s\<lparr>k_file := (k_file s)[f := x]\<rparr>)"
  using fds_ok_upd_ref [of oth s x f 0] assms by simp

lemma count_list_update:
  "i < length xs \<Longrightarrow> int (count_list (xs[i := y]) z) =
     int (count_list xs z) - (if xs ! i = z then 1 else 0) + (if y = z then 1 else 0)"
proof (induction xs arbitrary: i)
  case (Cons x xs)
  show ?case
  proof (cases i)
    case (Suc k)
    then show ?thesis using Cons.IH [of k] Cons.prems by (auto split: if_splits)
  qed simp
qed simp

lemma fds_ok_upd_ofile:
  assumes "fds_ok oth s" and "fd < NOFILE" and "\<forall>f. v = Some f \<longrightarrow> f < NFILE"
    and "\<forall>f < NFILE. oth' f = oth f + (if k_ofile s ! fd = Some f then 1 else 0) - (if v = Some f then 1 else 0)"
  shows "fds_ok oth' (s\<lparr>k_ofile := (k_ofile s)[fd := v]\<rparr>)"
  using assms set_update_subset_insert [of "k_ofile s" fd v]
  by (auto simp: fds_ok_def count_list_update)

lemma argfd_ok:
  assumes "fds_ok oth s" and "\<And>fd f. fd < NOFILE \<Longrightarrow> k_ofile s ! fd = Some f \<Longrightarrow> f < NFILE \<Longrightarrow> Q (Some (fd, f)) s"
    and "Q None s"
  shows "wlpF (argfd n) Q s"
proof -
  have f: "k_ofile s ! fd = Some f \<Longrightarrow> fd < NOFILE \<Longrightarrow> f < NFILE" for fd f
    using assms(1) nth_mem [of fd "k_ofile s"] by (auto simp: fds_ok_def)
  show ?thesis
    unfolding argfd_def argint_def fetchint_def
    by (intro wlpF_rules) (use assms(2,3) f in \<open>auto simp: map_option_case split: option.split\<close>)
qed

lemma filealloc_ok:
  assumes ok: "fds_ok oth s" and none: "Q None s"
    and Q: "\<And>f. f < NFILE \<Longrightarrow> f_ref (k_file s ! f) = 0 \<Longrightarrow> fds_ok (oth(f := oth f + 1))
      (s\<lparr>k_file := (k_file s)[f := (k_file s ! f)\<lparr>f_ref := 1\<rparr>]\<rparr>) \<Longrightarrow>
      Q (Some f) (s\<lparr>k_file := (k_file s)[f := (k_file s ! f)\<lparr>f_ref := 1\<rparr>]\<rparr>)"
  shows "wlpF filealloc Q s"
proof -
  have "f < NFILE \<and> f_ref (k_file s ! f) = 0" if "find (\<lambda>i. f_ref (k_file s ! i) = 0) [0..<NFILE] = Some f" for f
    using that by (auto simp: find_Some_iff)
  then show ?thesis
    unfolding filealloc_def using none by (intro wlpF_rules) (auto intro!: Q fds_ok_upd_ref [OF ok])
qed

lemma fdalloc_ok:
  assumes ok: "fds_ok (oth(f := oth f + 1)) s" and f: "f < NFILE" and none: "Q None s"
    and Q: "\<And>fd. fd < NOFILE \<Longrightarrow> k_ofile s ! fd = None \<Longrightarrow>
      fds_ok oth (s\<lparr>k_ofile := (k_ofile s)[fd := Some f]\<rparr>) \<Longrightarrow>
      Q (Some fd) (s\<lparr>k_ofile := (k_ofile s)[fd := Some f]\<rparr>)"
  shows "wlpF (fdalloc f) Q s"
proof -
  have "fd < NOFILE \<and> k_ofile s ! fd = None" if "find (\<lambda>fd. k_ofile s ! fd = None) [0..<NOFILE] = Some fd" for fd
    using that by (auto simp: find_Some_iff)
  then show ?thesis
    unfolding fdalloc_def using none f by (intro wlpF_rules) (auto intro!: Q fds_ok_upd_ofile [OF ok])
qed

lemma fileclose_ok:
  assumes ok: "fds_ok (oth(f := oth f + 1)) s" and f: "f < NFILE"
    and Q: "\<And>s'. fds_ok oth s' \<Longrightarrow> k_ofile s' = k_ofile s \<Longrightarrow> Q () s'"
  shows "wlpF (fileclose f) Q s"
proof -
  have len: "length (k_file s) = NFILE" using ok by (simp add: fds_ok_def)
  have keep: "fds_ok oth (s\<lparr>k_file := (k_file s)[f := (k_file s ! f)\<lparr>f_ref := f_ref (k_file s ! f) - 1\<rparr>]\<rparr>)"
    if "0 < f_ref (k_file s ! f) - 1"
    using fds_ok_upd_ref [OF ok, of _ f "-1"] that by simp
  have free: "fds_ok oth (s\<lparr>k_file := (k_file s)[f := (k_file s ! f)\<lparr>f_ref := 0, f_type := FD_NONE\<rparr>]\<rparr>)"
    if "\<not> f_ref (k_file s ! f) < 1" "\<not> 0 < f_ref (k_file s ! f) - 1"
    using fds_ok_upd_ref [OF ok, of _ f "-1"] that by simp
  have close: "wlpF (close_pipe p b) Q t" if "fds_ok oth t" "k_ofile t = k_ofile s" for p b t
    using that Q by (auto simp: wlpF_def close_pipe_def split: option.splits)
  show ?thesis
    unfolding fileclose_def
    by (intro wlpF_rules close) (use keep free f len in \<open>auto intro!: Q\<close>)
qed

lemma fds_ok_upd_same:
  assumes "fds_ok oth s" and "f < NFILE" and "f_ref x = f_ref (k_file s ! f)" and "f_type x = f_type (k_file s ! f)"
  shows "fds_ok oth (s\<lparr>k_file := (k_file s)[f := x]\<rparr>)"
  by (rule fds_ok_upd_file) (use assms in \<open>auto simp: fds_ok_def\<close>)

lemma fileread_ok:
  assumes "fds_ok oth s" and "f < NFILE"
  shows "wlpF (fileread dread f n) (\<lambda>_. fds_ok oth) s"
proof -
  have pipe: "wlpF (read_pipe p n) (\<lambda>_. fds_ok oth) t" if "fds_ok oth t" for p t
    using that by (auto simp: wlpF_def read_pipe_def split: option.splits prod.splits)
  have "length (k_file s) = NFILE" using assms(1) by (simp add: fds_ok_def)
  then show ?thesis
    unfolding fileread_def
    by (intro wlpF_rules pipe) (use assms in \<open>auto intro!: fds_ok_upd_same\<close>)
qed

lemma filewrite_loop_ok:
  assumes "fds_ok oth s" and "f < NFILE"
  shows "wlpF (filewrite_loop dwrite f addr n i) (\<lambda>_. fds_ok oth) s"
  using assms
proof (induction "nat (n - i)" arbitrary: i s rule: less_induct)
  case less
  have step: "wlpF (filewrite_loop dwrite f addr n (i + r)) (\<lambda>_. fds_ok oth) t"
    if "fds_ok oth t" "i < n" "r = min (n - i) write_max" for r t
    by (rule less.hyps) (use that less.prems in \<open>auto simp: write_max_eq\<close>)
  show ?case
  proof (cases "i < n")
    case False
    then show ?thesis using less.prems by (simp add: wlpF_def filewrite_loop.simps retF_def)
  next
    case True
    have "wlpF (bindF (liftF fs_begin_op) (\<lambda>_.
        bindF (file_at f) (\<lambda>x.
        bindF (liftF (ilock (f_ip x))) (\<lambda>_.
        bindF (liftF (writei dwrite (f_ip x) (drop (nat i) addr) (f_off x)
                 (word_of_int (min (n - i) write_max)))) (\<lambda>r.
        bindF (if 0 < r then upd_file f (\<lambda>x. x\<lparr>f_off := f_off x + word_of_int r\<rparr>) else retF ()) (\<lambda>_.
        bindF (liftF (iunlock (f_ip x))) (\<lambda>_.
        bindF (liftF fs_end_op) (\<lambda>_.
        if r < 0 then retF i
        else if r \<noteq> min (n - i) write_max then panicF ''short filewrite''
        else filewrite_loop dwrite f addr n (i + r)))))))))  (\<lambda>_. fds_ok oth) s"
      by (intro wlpF_rules step) (use less.prems True in \<open>auto intro!: fds_ok_upd_same\<close>)
    then show ?thesis using True by (simp add: wlpF_def filewrite_loop.simps)
  qed
qed

lemma filewrite_ok:
  assumes "fds_ok oth s" and "f < NFILE"
  shows "wlpF (filewrite dwrite f addr n) (\<lambda>_. fds_ok oth) s"
proof -
  have pipe: "wlpF (write_pipe p a) (\<lambda>_. fds_ok oth) t" if "fds_ok oth t" for p a t
    using that by (auto simp: wlpF_def write_pipe_def split: option.splits prod.splits)
  have loop: "wlpF (filewrite_loop dwrite f addr n 0) (\<lambda>i. wlpF (bindF (upd_file f (\<lambda>x.
      x\<lparr>f_write_bytes := f_write_bytes x + word_of_int n\<rparr>)) (\<lambda>_. retF (Returned (if i = n then n else -1))))
      (\<lambda>_. fds_ok oth)) s"
    by (rule wlpF_mono [OF filewrite_loop_ok [OF assms]], intro wlpF_rules)
       (use assms(2) in \<open>auto intro!: fds_ok_upd_same\<close>)
  show ?thesis
    unfolding filewrite_def
    by (intro wlpF_ret wlpF_get wlpF_panic wlpF_file_at wlpF_upd_file wlpF_if pipe loop wlpF_bind)
       (use assms in \<open>auto intro!: fds_ok_upd_same\<close>)
qed

lemma arg_pure:
  "\<lbrakk>\<And>r. Q r s\<rbrakk> \<Longrightarrow> wlpF (argint n) Q s" "\<lbrakk>\<And>r. P r s\<rbrakk> \<Longrightarrow> wlpF (argptr n k) P s"
  "\<lbrakk>\<And>r. R r s\<rbrakk> \<Longrightarrow> wlpF (argstr n) R s"
  unfolding argint_def argptr_def argstr_def fetchint_def fetchstr_def by (intro wlpF_rules; simp)+

lemma sys_dup_ok: "fds_ok oth s \<Longrightarrow> wlpF sys_dup (\<lambda>_. fds_ok oth) s"
proof -
  assume ok: "fds_ok oth s"
  have dup: "wlpF (bindF (fdalloc f) (\<lambda>r. case r of None \<Rightarrow> retF (- 1)
      | Some fd \<Rightarrow> bindF (filedup f) (\<lambda>_. retF (int fd)))) (\<lambda>_. fds_ok oth) s" if f: "f < NFILE" for f
  proof (rule wlpF_bind, rule fdalloc_ok [where oth = "oth(f := oth f - 1)"])
    fix fd
    let ?s = "s\<lparr>k_ofile := (k_ofile s)[fd := Some f]\<rparr>"
    assume s: "fds_ok (oth(f := oth f - 1)) ?s"
    have "fds_ok oth (?s\<lparr>k_file := (k_file ?s)[f := (k_file ?s ! f)\<lparr>f_ref := f_ref (k_file ?s ! f) + 1\<rparr>]\<rparr>)"
      if "\<not> f_ref (k_file ?s ! f) < 1"
      using fds_ok_upd_ref [OF s, of _ f 1] that by simp
    then show "wlpF (case Some fd of None \<Rightarrow> retF (- 1) | Some fd \<Rightarrow> bindF (filedup f) (\<lambda>_. retF (int fd)))
        (\<lambda>_. fds_ok oth) ?s"
      unfolding filedup_def by (auto intro!: wlpF_rules)
  qed (use ok f in \<open>auto intro!: wlpF_ret\<close>)
  show ?thesis
    unfolding sys_dup_def by (rule wlpF_bind, rule argfd_ok [OF ok]) (auto intro!: dup wlpF_ret ok)
qed

lemma sys_read_ok: "fds_ok oth s \<Longrightarrow> wlpF (sys_read dread) (\<lambda>_. fds_ok oth) s"
  unfolding sys_read_def
  by (rule wlpF_bind, rule argfd_ok, assumption; intro wlpF_rules arg_pure; clarsimp?)
     (rule wlpF_mono [OF fileread_ok]; auto intro!: wlpF_rules)

lemma sys_write_ok: "fds_ok oth s \<Longrightarrow> wlpF (sys_write dwrite) (\<lambda>_. fds_ok oth) s"
  unfolding sys_write_def
  by (rule wlpF_bind, rule argfd_ok, assumption; intro wlpF_option wlpF_bind wlpF_ret wlpF_get wlpF_pair arg_pure;
      auto intro!: filewrite_ok)

lemma sys_close_ok: "fds_ok oth s \<Longrightarrow> wlpF sys_close (\<lambda>_. fds_ok oth) s"
proof -
  assume ok: "fds_ok oth s"
  have cl: "wlpF (bindF (fileclose f) (\<lambda>_. retF 0)) (\<lambda>_. fds_ok oth) (s\<lparr>k_ofile := (k_ofile s)[fd := None]\<rparr>)"
    if f: "fd < NOFILE" "k_ofile s ! fd = Some f" "f < NFILE" for fd f
  proof (rule wlpF_bind, rule fileclose_ok [where oth = oth])
    show "fds_ok (oth(f := oth f + 1)) (s\<lparr>k_ofile := (k_ofile s)[fd := None]\<rparr>)"
      by (rule fds_ok_upd_ofile [OF ok f(1)]) (use f in auto)
  qed (use f in \<open>auto intro!: wlpF_ret\<close>)
  show ?thesis
    unfolding sys_close_def
    by (rule wlpF_bind, rule argfd_ok [OF ok], simp, rule wlpF_bind, rule wlpF_mod, erule (2) cl)
       (simp add: ok wlpF_ret)
qed

lemma sys_fstat_ok: "fds_ok oth s \<Longrightarrow> wlpF sys_fstat (\<lambda>_. fds_ok oth) s"
  unfolding sys_fstat_def filestat_def
  by (rule wlpF_bind, rule argfd_ok, assumption; intro wlpF_rules arg_pure; simp)

lemma sys_getiostats_ok: "fds_ok oth s \<Longrightarrow> wlpF sys_getiostats (\<lambda>_. fds_ok oth) s"
  unfolding sys_getiostats_def getiostats_def
  by (rule wlpF_bind, rule argfd_ok, assumption; intro wlpF_rules arg_pure; simp)

lemma path_calls_ok:
  "fds_ok oth s \<Longrightarrow> wlpF (sys_link dread dwrite) (\<lambda>_. fds_ok oth) s"
  "fds_ok oth s \<Longrightarrow> wlpF (sys_unlink dread dwrite) (\<lambda>_. fds_ok oth) s"
  "fds_ok oth s \<Longrightarrow> wlpF (sys_mkdir dread dwrite) (\<lambda>_. fds_ok oth) s"
  "fds_ok oth s \<Longrightarrow> wlpF (sys_mknod dread dwrite) (\<lambda>_. fds_ok oth) s"
  "fds_ok oth s \<Longrightarrow> wlpF (sys_chdir dread) (\<lambda>_. fds_ok oth) s"
  unfolding sys_link_def sys_unlink_def sys_mkdir_def sys_mknod_def sys_chdir_def
  by (intro wlpF_rules arg_pure; simp)+

lemma sys_open_ok: "fds_ok oth s \<Longrightarrow> wlpF (sys_open dread dwrite) (\<lambda>_. fds_ok oth) s"
proof -
  assume ok: "fds_ok oth s"
  have fail: "wlpF (open_fail ip) (\<lambda>_. fds_ok oth) t" if "fds_ok oth t" for t ip
    unfolding open_fail_def using that by (intro wlpF_rules; simp)
  have slot: "wlpF (fdalloc f) (\<lambda>r. wlpF (
        case r of
          None \<Rightarrow> bindF (fileclose f) (\<lambda>_. open_fail ip)
        | Some fd \<Rightarrow>
            bindF (liftF (iunlock ip)) (\<lambda>_.
            bindF (liftF fs_end_op) (\<lambda>_.
            bindF (upd_file f (\<lambda>x. x\<lparr>f_type := FD_INODE, f_ip := ip, f_off := 0,
              f_readable := (omode AND O_WRONLY = 0),
              f_writable := (omode AND O_WRONLY \<noteq> 0 \<or> omode AND O_RDWR \<noteq> 0)\<rparr>)) (\<lambda>_.
              retF (int fd))))) (\<lambda>_. fds_ok oth)) t"
    if t: "fds_ok (oth(f := oth f + 1)) t" "f < NFILE" "f_ref (k_file t ! f) = 1" for t f ip omode
    by (rule fdalloc_ok [OF t(1,2)])
       (auto intro!: wlpF_rules fileclose_ok [OF t(1,2)] fail fds_ok_upd_file simp: t)
  have "length (k_file s) = NFILE" using ok by (simp add: fds_ok_def)
  then show ?thesis
    unfolding sys_open_def
    by (intro wlpF_bind arg_pure wlpF_option wlpF_ret wlpF_lift wlpF_get filealloc_ok [where oth = oth])
       (auto intro!: slot fail ok simp: fail ok)
qed

lemma pipealloc_files_ok:
  assumes ok: "fds_ok oth s" and none: "\<And>s'. fds_ok oth s' \<Longrightarrow> Q None s'"
    and Q: "\<And>f0 f1 s'. f0 < NFILE \<Longrightarrow> f1 < NFILE \<Longrightarrow> f0 \<noteq> f1 \<Longrightarrow>
      fds_ok (oth(f0 := oth f0 + 1, f1 := oth f1 + 1)) s' \<Longrightarrow> Q (Some (f0, f1)) s'"
  shows "wlpF (pipealloc_files page) Q s"
proof -
  have fail0: "wlpF (pipealloc_fail None None) Q t" if "fds_ok oth t" for t
    unfolding pipealloc_fail_def by (auto intro!: wlpF_rules none that)
  have fail1: "wlpF (pipealloc_fail (Some f) None) Q t" if "fds_ok (oth(f := oth f + 1)) t" "f < NFILE" for t f
    unfolding pipealloc_fail_def by (auto intro!: wlpF_bind wlpF_ret fileclose_ok [OF that] none)
  have fail2: "wlpF (pipealloc_fail (Some f) (Some g)) Q t"
    if t: "fds_ok (oth(f := oth f + 1, g := oth g + 1)) t" "f < NFILE" "g < NFILE" "f \<noteq> g" for t f g
  proof -
    have h: "fds_ok ((oth(g := oth g + 1))(f := (oth(g := oth g + 1)) f + 1)) t"
      using t(1,4) by (simp add: fun_upd_twist)
    have "wlpF (bindF (fileclose g) (\<lambda>_. retF None)) Q t'" if "fds_ok (oth(g := oth g + 1)) t'" for t'
      by (rule wlpF_bind, rule fileclose_ok [OF that t(3)]) (auto intro!: wlpF_ret none)
    then show ?thesis
      unfolding pipealloc_fail_def by simp (rule wlpF_bind, rule fileclose_ok [OF h t(2)])
  qed
  let ?cont = "\<lambda>f0 r.
      case r of
        None \<Rightarrow> pipealloc_fail (Some f0) None
      | Some f1 \<Rightarrow>
          (case page of
             None \<Rightarrow> pipealloc_fail (Some f0) (Some f1)
           | Some (p, junk) \<Rightarrow>
               bindF (modF (\<lambda>s. s\<lparr>k_pipe := (k_pipe s)(p \<mapsto> pipealloc junk)\<rparr>)) (\<lambda>_.
               bindF (upd_file f0 (\<lambda>x. x\<lparr>f_type := FD_PIPE, f_readable := True, f_writable := False,
                 f_pipe := p\<rparr>)) (\<lambda>_.
               bindF (upd_file f1 (\<lambda>x. x\<lparr>f_type := FD_PIPE, f_readable := False, f_writable := True,
                 f_pipe := p\<rparr>)) (\<lambda>_. retF (Some (f0, f1))))))"
  have second: "wlpF (bindF filealloc (?cont f0)) Q t"
    if t: "fds_ok (oth(f0 := oth f0 + 1)) t" "f0 < NFILE" "f_ref (k_file t ! f0) = 1" for t f0
  proof (rule wlpF_bind, rule filealloc_ok [OF t(1)])
    show "wlpF (?cont f0 None) Q t"
      using fail1 [OF t(1,2)] by simp
  next
    fix f1
    let ?t = "t\<lparr>k_file := (k_file t)[f1 := (k_file t ! f1)\<lparr>f_ref := 1\<rparr>]\<rparr>"
    assume f1: "f1 < NFILE" "f_ref (k_file t ! f1) = 0"
      "fds_ok ((oth(f0 := oth f0 + 1))(f1 := (oth(f0 := oth f0 + 1)) f1 + 1)) ?t"
    have ne: "f0 \<noteq> f1" using t(3) f1(2) by auto
    have ok1: "fds_ok (oth(f0 := oth f0 + 1, f1 := oth f1 + 1)) ?t" using f1(3) ne by simp
    have len: "length (k_file t) = NFILE" using t(1) by (simp add: fds_ok_def)
    show "wlpF (?cont f0 (Some f1)) Q ?t"
      using fail2 [OF ok1 t(2) f1(1) ne] ok1 t f1 ne len
      by (auto split: option.split intro!: wlpF_rules Q fds_ok_upd_file simp: nth_upd)
  qed
  have "length (k_file s) = NFILE" using ok by (simp add: fds_ok_def)
  then show ?thesis
    unfolding pipealloc_files_def
    by (intro wlpF_bind filealloc_ok [OF ok]) (auto intro!: second fail0 ok simp: nth_upd)
qed

lemma sys_pipe_ok: "fds_ok oth s \<Longrightarrow> wlpF (sys_pipe page) (\<lambda>_. fds_ok oth) s"
proof -
  assume ok: "fds_ok oth s"
  let ?o = "\<lambda>f g. oth(f := oth f + 1, g := oth g + 1)"
  have close: "wlpF (bindF (fileclose g) (\<lambda>_. retF (- 1))) (\<lambda>_. fds_ok oth) t"
    if "fds_ok (oth(g := oth g + 1)) t" "g < NFILE" for t g
    by (rule wlpF_bind, rule fileclose_ok [OF that]) (auto intro!: wlpF_ret)
  have undo: "wlpF (pipe_undo f g) (\<lambda>_. fds_ok oth) t"
    if t: "fds_ok (?o f g) t" "f < NFILE" "g < NFILE" "f \<noteq> g" for t f g
  proof -
    have h: "fds_ok ((oth(g := oth g + 1))(f := (oth(g := oth g + 1)) f + 1)) t"
      using t(1,4) by (simp add: fun_upd_twist)
    show ?thesis
      unfolding pipe_undo_def by (rule wlpF_bind, rule fileclose_ok [OF h t(2)]) (auto intro!: close t(3))
  qed
  let ?fd1 = "\<lambda>p f g fd0 r.
     case r of
       None \<Rightarrow>
         bindF (modF (\<lambda>s. s\<lparr>k_ofile := (k_ofile s)[fd0 := None]\<rparr>)) (\<lambda>_. pipe_undo f g)
     | Some fd1 \<Rightarrow>
         bindF (modF (\<lambda>s. s\<lparr>k_mem := store32 (store32 (k_mem s) p (word_of_nat fd0)) (p + 4) (word_of_nat fd1)\<rparr>))
           (\<lambda>_. retF 0)"
  have second: "wlpF (bindF (fdalloc g) (?fd1 p f g fd0)) (\<lambda>_. fds_ok oth) t"
    if t: "fds_ok (oth(g := oth g + 1)) t" "f < NFILE" "g < NFILE" "f \<noteq> g" "fd0 < NOFILE" "k_ofile t ! fd0 = Some f"
    for p f g fd0 t
  proof (rule wlpF_bind, rule fdalloc_ok [OF t(1,3)])
    have "fds_ok (?o f g) (t\<lparr>k_ofile := (k_ofile t)[fd0 := None]\<rparr>)"
      by (rule fds_ok_upd_ofile [OF t(1,5)]) (use t in auto)
    then show "wlpF (?fd1 p f g fd0 None) (\<lambda>_. fds_ok oth) t"
      using t by (auto intro!: wlpF_bind wlpF_mod undo)
  qed (auto intro!: wlpF_rules)
  have first: "wlpF (bindF (fdalloc f) (\<lambda>r. case r of None \<Rightarrow> pipe_undo f g
      | Some fd0 \<Rightarrow> bindF (fdalloc g) (?fd1 p f g fd0))) (\<lambda>_. fds_ok oth) t"
    if t: "fds_ok (?o f g) t" "f < NFILE" "g < NFILE" "f \<noteq> g" for p f g t
  proof (rule wlpF_bind, rule fdalloc_ok [where oth = "oth(g := oth g + 1)"])
    show "fds_ok ((oth(g := oth g + 1))(f := (oth(g := oth g + 1)) f + 1)) t"
      using t(1,4) by (simp add: fun_upd_twist)
    have "length (k_ofile t) = NOFILE" using t(1) by (simp add: fds_ok_def)
    then show "fd < NOFILE \<Longrightarrow> k_ofile t ! fd = None \<Longrightarrow>
        fds_ok (oth(g := oth g + 1)) (t\<lparr>k_ofile := (k_ofile t)[fd := Some f]\<rparr>) \<Longrightarrow>
        wlpF (case Some fd of None \<Rightarrow> pipe_undo f g | Some fd0 \<Rightarrow> bindF (fdalloc g) (?fd1 p f g fd0))
          (\<lambda>_. fds_ok oth) (t\<lparr>k_ofile := (k_ofile t)[fd := Some f]\<rparr>)" for fd
      using t second by simp
  qed (use t undo in simp_all)
  show ?thesis
    unfolding sys_pipe_def
    by (rule wlpF_bind, rule arg_pure, rule wlpF_option, rule wlpF_ret, rule ok, rule wlpF_bind,
        rule pipealloc_files_ok [OF ok]) (auto intro!: wlpF_ret first)
qed

lemma fcall_ok: "fds_ok oth s \<Longrightarrow> wlpF (fcall_run dread dwrite c) (\<lambda>_. fds_ok oth) s"
  unfolding fcall_run_def
  by (cases c; simp add: sys_read_ok sys_write_ok; rule wlpF_bind, rule wlpF_mono [rotated], rule wlpF_ret, assumption;
      simp add: sys_dup_ok sys_close_ok sys_fstat_ok sys_getiostats_ok sys_pipe_ok sys_open_ok path_calls_ok)

text \<open>
  A process makes calls one after the other; before each one it has put some memory contents
  and stack pointer in place.
\<close>

fun run_calls :: "devread \<Rightarrow> devwrite \<Rightarrow> (fcall \<times> mem \<times> 32 word) list \<Rightarrow> ks \<Rightarrow> ks res" where
  "run_calls dread dwrite [] s = Inr s"
| "run_calls dread dwrite ((c, m, esp) # cs) s =
     bind_res (fcall_run dread dwrite c (s\<lparr>k_mem := m, k_esp := esp\<rparr>)) (\<lambda>(t, _). run_calls dread dwrite cs t)"

lemma fds_ok_args [simp]: "fds_ok oth (s\<lparr>k_mem := m, k_esp := esp\<rparr>) = fds_ok oth s"
  by (simp add: fds_ok_def)

lemma run_calls_ok:
  "fds_ok oth s \<Longrightarrow> run_calls dread dwrite cs s = Inr t \<Longrightarrow> fds_ok oth t"
proof (induction dread dwrite cs s rule: run_calls.induct)
  case (2 dread dwrite c m esp cs s)
  from 2(3) obtain u r where u: "fcall_run dread dwrite c (s\<lparr>k_mem := m, k_esp := esp\<rparr>) = Inr (u, r)"
    "run_calls dread dwrite cs u = Inr t" by (auto simp: bind_res_eq_Inr)
  then have "fds_ok oth u"
    using fcall_ok [of oth "s\<lparr>k_mem := m, k_esp := esp\<rparr>" dread dwrite c] 2(2) by (simp add: wlpF_def)
  then show ?case using 2(1) [OF u(1) refl] u(2) by simp
qed simp

lemma open_has_ref:
  assumes "fds_ok oth s" and "\<forall>f. 0 \<le> oth f" and "Some f \<in> set (k_ofile s)"
  shows "f < NFILE \<and> 1 \<le> f_ref (k_file s ! f)"
proof -
  have "0 < count_list (k_ofile s) (Some f)" using assms(3) count_list_0_iff [of "k_ofile s" "Some f"] by auto
  moreover have "f < NFILE" using assms(1,3) by (simp add: fds_ok_def)
  moreover from this have "f_ref (k_file s ! f) = int (count_list (k_ofile s) (Some f)) + oth f"
    using assms(1) by (simp add: fds_ok_def)
  moreover have "0 \<le> oth f" using assms(2) by blast
  ultimately show ?thesis by linarith
qed

lemma sys_dup_returns:
  assumes ok: "fds_ok oth s" and oth: "\<forall>f. 0 \<le> oth f"
  shows "\<exists>t r. sys_dup s = Inr (t, r)"
proof -
  obtain a where "argint 0 s = Inr (s, a)" by (simp add: argint_def fetchint_def bindF_def getF_def)
  then obtain r where r: "argfd 0 s = Inr (s, r)"
    by (cases a) (simp_all add: argfd_def bindF_def getF_def retF_def)
  have rf: "r = Some (fd, f) \<Longrightarrow> Some f \<in> set (k_ofile s)" for fd f
    using argfd_ok [OF ok, of "\<lambda>r s'. \<forall>fd f. r = Some (fd, f) \<longrightarrow> fd < NOFILE \<and> k_ofile s ! fd = Some f" 0] r ok
    by (auto simp: wlpF_def fds_ok_def in_set_conv_nth)
  show ?thesis
  proof (cases r)
    case (Some x)
    then obtain fd f where f: "r = Some (fd, f)" by (cases x) auto
    then have "1 \<le> f_ref (k_file s ! f)" using open_has_ref [OF ok oth rf] by blast
    then show ?thesis
      using r f
      by (auto simp: sys_dup_def bindF_def fdalloc_def getF_def modF_def retF_def filedup_def file_at_def upd_file_def
          split: option.split)
  qed (use r in \<open>simp add: sys_dup_def bindF_def retF_def\<close>)
qed

text \<open>
  C38. Descriptors and reference counts agree. Whatever file calls a process makes, with any
  arguments, the reference count of every file stays the number of its descriptors that name
  the file plus the references held by others: a file named by an open descriptor is in use,
  so that \<^verbatim>\<open>dup\<close> returns without a panic, and a file that nobody names is free.
\<close>

theorem descriptors_balanced:
  assumes "fds_ok oth s" and "\<forall>f. 0 \<le> oth f" and "run_calls dread dwrite cs s = Inr t"
  shows "fds_ok oth t \<and>
    (\<forall>f. Some f \<in> set (k_ofile t) \<longrightarrow> f < NFILE \<and> 1 \<le> f_ref (k_file t ! f)) \<and>
    (\<forall>f < NFILE. Some f \<notin> set (k_ofile t) \<and> oth f = 0 \<longrightarrow>
       f_ref (k_file t ! f) = 0 \<and> f_type (k_file t ! f) = FD_NONE) \<and>
    (\<forall>m esp. \<exists>u r. sys_dup (t\<lparr>k_mem := m, k_esp := esp\<rparr>) = Inr (u, r))"
proof -
  have ok: "fds_ok oth t" by (rule run_calls_ok [OF assms(1,3)])
  have "f_ref (k_file t ! f) = 0 \<and> f_type (k_file t ! f) = FD_NONE"
    if "f < NFILE" "Some f \<notin> set (k_ofile t)" "oth f = 0" for f
    using ok that count_notin [of "Some f" "k_ofile t"] by (auto simp: fds_ok_def)
  moreover have "\<exists>u r. sys_dup (t\<lparr>k_mem := m, k_esp := esp\<rparr>) = Inr (u, r)" for m esp
    by (rule sys_dup_returns [OF _ assms(2)]) (simp add: ok)
  ultimately show ?thesis using ok open_has_ref [OF ok assms(2)] by blast
qed

section \<open>Opening\<close>

lemma wlpF_all: "(\<And>a t. Q a t) \<Longrightarrow> wlpF m Q s"
  by (auto simp: wlpF_def split: sum.split)

lemma wlpF_D: "wlpF m Q s \<Longrightarrow> m s = Inr (t, a) \<Longrightarrow> Q a t"
  by (simp add: wlpF_def)

text \<open>
  C39. Opening a file does not reset its byte counters. A successful \<^verbatim>\<open>open\<close> takes the lowest free
  descriptor and a free file, with offset 0; but what \<^verbatim>\<open>getiostats\<close> reports for the new file starts
  with the bytes read and written through the file that used the slot before.
\<close>

theorem open_keeps_counters:
  assumes "length (k_file s) = NFILE" and "length (k_ofile s) = NOFILE"
    and "sys_open dread dwrite s = Inr (t, fd)" and "0 \<le> fd"
  shows "\<exists>f < NFILE. k_ofile t = (k_ofile s)[nat fd := Some f] \<and>
    nat fd < NOFILE \<and> k_ofile s ! nat fd = None \<and> (\<forall>j < nat fd. k_ofile s ! j \<noteq> None) \<and>
    f_ref (k_file s ! f) = 0 \<and> f_ref (k_file t ! f) = 1 \<and> f_type (k_file t ! f) = FD_INODE \<and>
    f_off (k_file t ! f) = 0 \<and>
    f_read_bytes (k_file t ! f) = f_read_bytes (k_file s ! f) \<and>
    f_write_bytes (k_file t ! f) = f_write_bytes (k_file s ! f)"
proof -
  have fail: "wlpF (open_fail ip) (\<lambda>fd t. 0 \<le> fd \<longrightarrow> P fd t) u" for ip P u
    unfolding open_fail_def by (intro wlpF_bind wlpF_all wlpF_ret) simp
  have "wlpF (sys_open dread dwrite) (\<lambda>fd t. 0 \<le> fd \<longrightarrow> (\<exists>f < NFILE. k_ofile t = (k_ofile s)[nat fd := Some f] \<and>
    nat fd < NOFILE \<and> k_ofile s ! nat fd = None \<and> (\<forall>j < nat fd. k_ofile s ! j \<noteq> None) \<and>
    f_ref (k_file s ! f) = 0 \<and> f_ref (k_file t ! f) = 1 \<and> f_type (k_file t ! f) = FD_INODE \<and>
    f_off (k_file t ! f) = 0 \<and>
    f_read_bytes (k_file t ! f) = f_read_bytes (k_file s ! f) \<and>
    f_write_bytes (k_file t ! f) = f_write_bytes (k_file s ! f))) s"
    unfolding sys_open_def filealloc_def fdalloc_def
    by (intro wlpF_bind wlpF_ret wlpF_get wlpF_mod wlpF_upd_file wlpF_lift wlpF_option arg_pure fail)
       (use assms(1,2) in \<open>auto simp: find_Some_iff intro!: wlpF_all fail\<close>)
  from wlpF_D [OF this assms(3)] assms(4) show ?thesis by blast
qed

section \<open>Arguments lie in the memory of the process\<close>

lemma fetchstr_loop_spec:
  "fetchstr_loop m a ep = Some l \<Longrightarrow> a + l < ep \<and> m (a + l) = 0 \<and> (\<forall>k < l. m (a + k) \<noteq> 0)"
proof (induction m a ep arbitrary: l rule: fetchstr_loop.induct)
  case (1 m a ep)
  show ?case
  proof (cases "m a = 0")
    case True
    then show ?thesis using 1(2) by (simp add: fetchstr_loop.simps [of m a] split: if_splits)
  next
    case False
    with 1(2) obtain l' where l: "a < ep" "l = Suc l'" "fetchstr_loop m (a + 1) ep = Some l'"
      by (auto simp: fetchstr_loop.simps [of m a] split: if_splits)
    have "m (a + k) \<noteq> 0" if "k < l" for k
      using 1(1) [OF l(1) False l(3)] False that l(2) by (cases k) auto
    then show ?thesis using 1(1) [OF l(1) False l(3)] l(2) by simp
  qed
qed

lemma word_add_le:
  fixes a b z :: "32 word"
  assumes "\<not> z < a + b" and "unat a + unat b < 2 ^ 32"
  shows "unat a + unat b \<le> unat z"
  using assms by (simp add: word_less_nat_alt unat_word_ariths not_less)

text \<open>
  C40. What a call accepts as an argument lies in the memory of the process, which ends below the
  kernel: an integer argument is read from it, an accepted buffer of \<open>sz\<close> bytes ends inside it
  (the sum in the test of \<^verbatim>\<open>argptr\<close> cannot wrap around), and an accepted string is NUL-terminated
  inside it.
\<close>

theorem arguments_inside:
  assumes "k_sz s \<le> 0x80000000" and "sz < 2 ^ 31"
  shows "(\<forall>v. argint n s = Inr (s, Some v) \<longrightarrow> unat (k_esp s + 4 + 4 * word_of_nat n) + 4 \<le> unat (k_sz s)) \<and>
    (\<forall>p. argptr n sz s = Inr (s, Some p) \<longrightarrow> 0 \<le> sz \<and> p + nat sz \<le> unat (k_sz s)) \<and>
    (\<forall>str. argstr n s = Inr (s, Some str) \<longrightarrow> (\<exists>a. a + length str < unat (k_sz s) \<and>
      str = read_bytes (k_mem s) a (length str) \<and> k_mem s (a + length str) = 0 \<and> 0 \<notin> set str))"
proof (intro conjI allI impI)
  have k: "unat (k_sz s) \<le> 2 ^ 31" using assms(1) by (simp add: word_le_nat_alt)
  let ?a = "k_esp s + 4 + 4 * word_of_nat n"
  show "unat ?a + 4 \<le> unat (k_sz s)" if "argint n s = Inr (s, Some v)" for v
  proof -
    have "\<not> k_sz s \<le> ?a" "\<not> k_sz s < ?a + 4"
      using that by (auto simp: argint_def fetchint_def bindF_def getF_def split: if_splits)
    moreover from this have "unat ?a + unat (4 :: 32 word) < 2 ^ 32" using k by (simp add: word_le_nat_alt)
    ultimately show ?thesis using word_add_le [of "k_sz s" ?a 4] by simp
  qed
  have ptr: "0 \<le> sz \<and> p + nat sz \<le> unat (k_sz s)" if p: "argptr n sz s = Inr (s, Some p)" for p
  proof -
    obtain r where r: "argint n s = Inr (s, r)" by (simp add: argint_def fetchint_def bindF_def getF_def)
    then obtain i where i: "p = unat i" "0 \<le> sz" "\<not> k_sz s \<le> i" "\<not> k_sz s < i + word_of_int sz"
      using p by (auto simp: argptr_def bindF_def getF_def retF_def not_less split: option.splits if_splits)
    have u: "unat (word_of_int sz :: 32 word) = nat sz" using i(2) assms(2) by (simp add: nat_word_of_int)
    have "unat i + nat sz < 2 ^ 32" using i(2,3) k assms(2) by (simp add: word_le_nat_alt)
    then show ?thesis using word_add_le [of "k_sz s" i "word_of_int sz"] i u by simp
  qed
  show "0 \<le> sz" "p + nat sz \<le> unat (k_sz s)" if "argptr n sz s = Inr (s, Some p)" for p
    using ptr [OF that] by simp_all
  show "\<exists>a. a + length str < unat (k_sz s) \<and> str = read_bytes (k_mem s) a (length str) \<and>
      k_mem s (a + length str) = 0 \<and> 0 \<notin> set str" if str: "argstr n s = Inr (s, Some str)" for str
  proof -
    obtain r where "argint n s = Inr (s, r)" by (simp add: argint_def fetchint_def bindF_def getF_def)
    then have "\<exists>(i :: 32 word) l. fetchstr_loop (k_mem s) (unat i) (unat (k_sz s)) = Some l \<and>
        str = read_bytes (k_mem s) (unat i) l"
      using str by (auto simp: argstr_def fetchstr_def bindF_def getF_def retF_def split: option.splits if_splits)
    then obtain i :: "32 word" and l where l: "fetchstr_loop (k_mem s) (unat i) (unat (k_sz s)) = Some l"
      "str = read_bytes (k_mem s) (unat i) l" by blast
    then have "0 \<notin> set str" using fetchstr_loop_spec [OF l(1)]
      by (auto simp: read_bytes_def in_set_conv_nth simp del: set_map set_upt)
    then show ?thesis using fetchstr_loop_spec [OF l(1)] l(2) by (intro exI [of _ "unat i"]) simp
  qed
qed

section \<open>Empty directories\<close>

lemma wp_isdirempty_loop:
  assumes "open_at q s dp" and "unat (i_size (fs_icache s ! dp)) mod DIRENT = 0" and "space s n 1"
  shows "wp (isdirempty_loop dread dp (DIRENT * dir_len s dp) (DIRENT * k))
    (\<lambda>r s'. r = (if \<forall>j. k \<le> j \<and> j < dir_len s dp \<longrightarrow> de_inum (dir_entry s dp j) = 0 then 1 else 0) \<and>
      view s' = view s \<and> fs_icache s' = fs_icache s \<and> open_at q s' dp) s"
  using assms
proof (induction "dir_len s dp - k" arbitrary: k s)
  case 0
  then have k: "\<not> DIRENT * k < DIRENT * dir_len s dp" "dir_len s dp \<le> k" by (simp_all add: DIRENT_def)
  show ?case
    by (rule iffD2 [OF wp_cong [of _ _ "retS 1"]], subst isdirempty_loop.simps) (use k 0 in auto)
next
  case (Suc d)
  then have k: "k < dir_len s dp" by simp
  let ?off = "DIRENT * k" and ?de = "dir_entry s dp k"
  let ?F = "\<lambda>r s'. r = (if \<forall>j. k \<le> j \<and> j < dir_len s dp \<longrightarrow> de_inum (dir_entry s dp j) = 0 then 1 else 0) \<and>
      view s' = view s \<and> fs_icache s' = fs_icache s \<and> open_at q s' dp"
  have "wp (readi dread dp (word_of_nat ?off) (word_of_nat DIRENT)) (\<lambda>(r, de).
        wp (if r \<noteq> int DIRENT then panicS ''isdirempty: readi''
        else if de_inum de \<noteq> 0 then retS 0
        else isdirempty_loop dread dp (DIRENT * dir_len s dp) (?off + DIRENT)) ?F) s"
  proof (rule wp_read_entry [OF Suc.prems(1,2) k Suc.prems(3)])
    fix s'
    assume s': "open_at q s' dp" "frame s s'" "view s' = view s" "space s' n 1"
    have ic: "fs_icache s' = fs_icache s" using s'(2) by (simp add: frame_def)
    note dc = dir_cong [OF ic s'(3)]
    have split: "(\<forall>j. k \<le> j \<and> j < dir_len s dp \<longrightarrow> de_inum (dir_entry s dp j) = 0) \<longleftrightarrow>
        de_inum ?de = 0 \<and> (\<forall>j. Suc k \<le> j \<and> j < dir_len s dp \<longrightarrow> de_inum (dir_entry s dp j) = 0)"
      using k by (metis Suc_le_eq le_less order_refl)
    have "wp (isdirempty_loop dread dp (DIRENT * dir_len s dp) (?off + DIRENT)) ?F s'" if "de_inum ?de = 0"
      using Suc.hyps(1) [of s' "Suc k"] Suc.hyps(2) Suc.prems(2) s' that
      unfolding split by (simp add: dc ic add.commute)
    then show "(case (int DIRENT, ?de) of (r, de) \<Rightarrow>
        wp (if r \<noteq> int DIRENT then panicS ''isdirempty: readi''
        else if de_inum de \<noteq> 0 then retS 0
        else isdirempty_loop dread dp (DIRENT * dir_len s dp) (?off + DIRENT)) ?F) s'"
      using s' ic k by auto
  qed
  moreover have "?off < DIRENT * dir_len s dp" using k by (simp add: DIRENT_def)
  ultimately show ?case
    by (subst wp_cong [OF isdirempty_loop.simps]) (simp add: wp_bind [symmetric] case_prod_unfold del: wp_bind)
qed

text \<open>
  \<^verbatim>\<open>isdirempty\<close> decides whether a directory may be removed: it returns 1 exactly when no entry
  from the third one on is in use, and changes nothing.
\<close>

theorem isdirempty_correct:
  assumes "open_at q s dp" and "unat (i_size (fs_icache s ! dp)) mod DIRENT = 0" and "space s n 1"
  shows "\<exists>s'. isdirempty dread dp s =
      Inr (s', if \<forall>j. 2 \<le> j \<and> j < dir_len s dp \<longrightarrow> de_inum (dir_entry s dp j) = 0 then 1 else 0) \<and>
    view s' = view s \<and> fs_icache s' = fs_icache s"
proof -
  have "DIRENT * dir_len s dp = unat (i_size (fs_icache s ! dp))" using assms(2) by (auto simp: dir_len_def)
  then have "wp (isdirempty dread dp) (\<lambda>r s'.
      r = (if \<forall>j. 2 \<le> j \<and> j < dir_len s dp \<longrightarrow> de_inum (dir_entry s dp j) = 0 then 1 else 0) \<and>
      view s' = view s \<and> fs_icache s' = fs_icache s) s"
    using wp_isdirempty_loop [OF assms, of dread 2]
    by (auto simp: isdirempty_def mult.commute elim!: wp_mono)
  then show ?thesis by (auto simp: wp_result)
qed

section \<open>An example\<close>

text \<open>
  The process of the previous theory with the path \<^verbatim>\<open>/\<close> at address 100 and the arguments 100 and 0
  on its stack: it opens the root directory for reading.
\<close>

definition ex_args :: mem where
  "ex_args = (\<lambda>a. if a = 100 then 47 else if a = 4004 then 100 else 0)"

definition ex_call :: ks where
  "ex_call = ex_ks\<lparr>k_mem := ex_args\<rparr>"

lemma ex_call_fds: "fds_ok (\<lambda>_. 0) ex_call"
  by (auto simp: fds_ok_def ex_call_def ex_ks_def NFILE_def NOFILE_def nth_Cons' ex_open_file_def ex_free_file_def
      split: if_splits)

lemma ex_argstr: "argstr 0 ex_call = Inr (ex_call, Some [47])" and ex_argint: "argint 1 ex_call = Inr (ex_call, Some 0)"
proof -
  have l: "load32 ex_args 4004 = 100" "load32 ex_args 4008 = 0" by (simp_all add: load32_def ex_args_def)
  have f: "fetchstr_loop ex_args 100 4096 = Some 1"
    by (simp add: fetchstr_loop.simps ex_args_def)
  have b: "read_bytes ex_args 100 (Suc 0) = [47]" by (simp add: read_bytes_def ex_args_def)
  show "argint 1 ex_call = Inr (ex_call, Some 0)"
    by (simp add: argint_def fetchint_def bindF_def getF_def ex_call_def ex_ks_def l)
  show "argstr 0 ex_call = Inr (ex_call, Some [47])"
    by (simp add: argstr_def argint_def fetchint_def fetchstr_def bindF_def getF_def ex_call_def ex_ks_def l f b)
qed

text \<open>The root directory is in the cache, so no block is read.\<close>

lemma ex_namei: "open_inode dread dwrite 1 [47] 0 (begun ex_rest) =
    Inr ((begun ex_rest)\<lparr>fs_icache := (fs_icache ex_rest)[1 := ex_root\<lparr>i_ref := 2, i_locked := True\<rparr>]\<rparr>, Some 1)"
proof -
  have i: "[0..<NINODE] = 0 # 1 # [2..<NINODE]" by (simp add: NINODE_def upt_rec)
  have r: "fs_icache (begun ex_rest) = ex_inode # ex_root # replicate 48 empty_inode"
    and r2: "fs_icache ex_rest = ex_inode # ex_root # replicate 48 empty_inode"
    by (simp_all add: begun_def ex_rest_def)
  have f: "i_inum ex_inode = 3" "i_ref ex_root = 1" "i_dev ex_root = 1" "i_inum ex_root = 1" "i_type ex_root = T_DIR"
    "i_valid ex_root" "\<not> i_locked ex_root"
    by (simp_all add: ex_inode_def ex_root_def empty_inode_def)
  have sk: "skipelem [47] = None" by (simp add: skipelem_def slash_def)
  show ?thesis
    by (simp add: open_inode_def namei_def namex_def slash_def ROOTINO_def O_RDONLY_def)
       (simp add: bindS_def iget_def i r f Let_def upd_inode_def retS_def namex_loop.simps sk ilock_def inode_at_def getS_def
          r2)
qed

lemma ex_end_op: "\<exists>u'. fs_end_op (u\<lparr>fs_icache := ic\<rparr>) = Inr (u', ())" if "u = begun ex_rest"
  using that by (simp add: fs_end_op_def end_op_def end_op_enter_def commit_def begun_def ex_rest_def ex_log_def)

lemma ex_open: "\<exists>t. sys_open dread dwrite ex_call = Inr (t, 1)"
proof -
  let ?u = "(begun ex_rest)\<lparr>fs_icache := (fs_icache ex_rest)[1 := ex_root\<lparr>i_ref := 2, i_locked := True\<rparr>]\<rparr>"
  have un: "iunlock 1 ?u = Inr (set_lock 1 False ?u, ())"
    by (rule iunlock_locked) (simp_all add: ex_rest_def)
  obtain u' where u': "fs_end_op (set_lock 1 False ?u) = Inr (u', ())"
    using ex_end_op [OF refl] by (force simp: set_lock_def)
  have k: "k_fs ex_call = ex_rest" "k_cwd ex_call = 1" by (simp_all add: ex_call_def ex_ks_def)
  have a: "find (\<lambda>i. f_ref (k_file ex_call ! i) = 0) [0..<NFILE] = Some 1"
    "find (\<lambda>fd. k_ofile ex_call ! fd = None) [0..<NOFILE] = Some 1"
    by (simp_all add: ex_call_def ex_ks_def ex_open_file_def ex_free_file_def NFILE_def NOFILE_def upt_conv_Cons)
  show ?thesis
    using ex_argstr ex_argint ex_namei [of dread dwrite] begin_idle(1) [OF ex_rest_idle] a un u'
    by (simp add: sys_open_def bindF_def liftF_def getF_def filealloc_def fdalloc_def upd_file_def modF_def retF_def k)
qed

theorem open_keeps_counters_witness:
  "\<exists>t f. sys_open (\<lambda>_. None) (\<lambda>_. None) ex_call = Inr (t, 1) \<and> k_ofile t ! 1 = Some f \<and> f_off (k_file t ! f) = 0 \<and>
     f_read_bytes (k_file t ! f) = 30 \<and> f_write_bytes (k_file t ! f) = 40"
proof -
  obtain t where t: "sys_open (\<lambda>_. None) (\<lambda>_. None) ex_call = Inr (t, 1)" using ex_open by blast
  have "length (k_file ex_call) = NFILE" "length (k_ofile ex_call) = NOFILE"
    using ex_call_fds by (simp_all add: fds_ok_def)
  from open_keeps_counters [OF this t] obtain f where
    f: "f < NFILE" "k_ofile t = (k_ofile ex_call)[1 := Some f]" "f_ref (k_file ex_call ! f) = 0"
      "f_off (k_file t ! f) = 0" "f_read_bytes (k_file t ! f) = f_read_bytes (k_file ex_call ! f)"
      "f_write_bytes (k_file t ! f) = f_write_bytes (k_file ex_call ! f)" by auto
  then have "k_file ex_call ! f = ex_free_file"
    by (cases f) (auto simp: ex_call_def ex_ks_def ex_open_file_def NFILE_def)
  moreover have "k_ofile t ! 1 = Some f" using f(2) by (simp add: ex_call_def ex_ks_def)
  ultimately show ?thesis using t f(4-6) by (auto simp: ex_free_file_def)
qed

theorem descriptors_balanced_witness:
  "\<exists>t. run_calls (\<lambda>_. None) (\<lambda>_. None) [(COpen, ex_args, 4000)] ex_call = Inr t \<and> fds_ok (\<lambda>_. 0) t \<and>
     (\<exists>u r. sys_dup t = Inr (u, r))"
proof -
  obtain t where "sys_open (\<lambda>_. None) (\<lambda>_. None) ex_call = Inr (t, 1)" using ex_open by blast
  moreover have "ex_call\<lparr>k_mem := ex_args, k_esp := 4000\<rparr> = ex_call" by (simp add: ex_call_def ex_ks_def)
  ultimately have r: "run_calls (\<lambda>_. None) (\<lambda>_. None) [(COpen, ex_args, 4000)] ex_call = Inr t"
    by (simp add: fcall_run_def bindF_def retF_def)
  have "t\<lparr>k_mem := k_mem t, k_esp := k_esp t\<rparr> = t" by simp
  then show ?thesis
    using descriptors_balanced [OF ex_call_fds _ r] r by (metis order_refl)
qed

theorem arguments_inside_witness:
  "argstr 0 ex_call = Inr (ex_call, Some [47]) \<and>
   (\<exists>a. a + 1 < 4096 \<and> [47] = read_bytes ex_args a 1 \<and> ex_args (a + 1) = 0)"
proof -
  have "k_sz ex_call \<le> 0x80000000" "k_mem ex_call = ex_args" "unat (k_sz ex_call) = 4096"
    by (simp_all add: ex_call_def ex_ks_def)
  then show ?thesis using arguments_inside [of ex_call 1 0] ex_argstr by fastforce
qed

theorem isdirempty_correct_witness:
  "\<exists>s'. isdirempty (\<lambda>_. None) 1 ex_rest = Inr (s', 1) \<and> view s' = view ex_rest"
proof -
  have i: "fs_icache ex_rest ! Suc 0 = ex_root" by (simp add: ex_rest_def)
  have "open_at 0 ex_rest 1"
    using ex_rest_open(1) by (simp add: open_at_def i file_ok_def) (simp add: ex_root_def empty_inode_def T_DEV_def T_DIR_def)
  moreover have "dir_len ex_rest 1 = 0" by (simp add: dir_len_def i ex_root_def empty_inode_def)
  ultimately show ?thesis
    using isdirempty_correct [of 0 ex_rest 1 0 "\<lambda>_. None"] ex_rest_open(2)
    by (auto simp: i ex_root_def empty_inode_def)
qed

end
