(* ===== verification/Nufs.thy ===== *)
theory Nufs
  imports Prelude "HOL-Library.Signed_Division"
begin

text \<open>
  The user-space file system of \<^verbatim>\<open>hw10/starter-fshw\<close>: the bitmaps (\<^verbatim>\<open>bitmap.c\<close>), the pages of the
  disk image (\<^verbatim>\<open>pages.c\<close>), string lists (\<^verbatim>\<open>slist.c\<close>), inodes (\<^verbatim>\<open>inode.c\<close>), directories
  (\<^verbatim>\<open>directory.c\<close>) and the operations behind the FUSE callbacks (\<^verbatim>\<open>storage.c\<close>). All structures live in
  the mapped image, so the state is its bytes: an inode or a directory entry is an address, and
  what one structure does to another that overlaps it is visible. An address outside the 1 MB
  image is an error. Strings are lists of the bytes before the NUL. Debugging output is not
  modelled, nor are \<^verbatim>\<open>open\<close>, \<^verbatim>\<open>ftruncate\<close> and \<^verbatim>\<open>mmap\<close>, which provide the image.
\<close>

section \<open>The mapped image\<close>

definition PAGE_COUNT :: int where "PAGE_COUNT = 256"
definition NUFS_SIZE :: int where "NUFS_SIZE = 4096 * 256"
definition INODE_COUNT :: int where "INODE_COUNT = 256"
definition ENOENT :: int where "ENOENT = 2"
definition EEXIST :: int where "EEXIST = 17"

definition ld8 :: "mem \<Rightarrow> int \<Rightarrow> 8 word res" where
  "ld8 m a = (if 0 \<le> a \<and> a < NUFS_SIZE then Inr (m (nat a)) else Inl OutOfBounds)"

definition st8 :: "mem \<Rightarrow> int \<Rightarrow> 8 word \<Rightarrow> mem res" where
  "st8 m a v = (if 0 \<le> a \<and> a < NUFS_SIZE then Inr (m(nat a := v)) else Inl OutOfBounds)"

definition ld32 :: "mem \<Rightarrow> int \<Rightarrow> int res" where
  "ld32 m a = (if 0 \<le> a \<and> a + 4 \<le> NUFS_SIZE then Inr (sint (load32 m (nat a))) else Inl OutOfBounds)"

definition st32 :: "mem \<Rightarrow> int \<Rightarrow> int \<Rightarrow> mem res" where
  "st32 m a v =
     (if 0 \<le> a \<and> a + 4 \<le> NUFS_SIZE then Inr (store32 m (nat a) (word_of_int v)) else Inl OutOfBounds)"

definition ld_bytes :: "mem \<Rightarrow> int \<Rightarrow> nat \<Rightarrow> 8 word list res" where
  "ld_bytes m a n =
     (if 0 \<le> a \<and> a + int n \<le> NUFS_SIZE then Inr (read_bytes m (nat a) n) else Inl OutOfBounds)"

definition st_bytes :: "mem \<Rightarrow> int \<Rightarrow> 8 word list \<Rightarrow> mem res" where
  "st_bytes m a bs =
     (if 0 \<le> a \<and> a + int (length bs) \<le> NUFS_SIZE then Inr (write_bytes m (nat a) bs) else Inl OutOfBounds)"

definition to_int :: "int \<Rightarrow> int" where
  "to_int x = sint (word_of_int x :: 32 word)"

section \<open>Bitmaps (bitmap.c)\<close>

text \<open>The division of C truncates; shifting by a negative number is undefined.\<close>

definition bitmap_get :: "mem \<Rightarrow> int \<Rightarrow> int \<Rightarrow> int res" where
  "bitmap_get m bm block_num =
     (let macro = block_num sdiv 8; index = block_num smod 8 in
      bind_res (ld8 m (bm + macro)) (\<lambda>letter.
      if index < 0 then Inl Undefined else Inr (uint (drop_bit (nat index) letter AND 1))))"

definition bitmap_set :: "mem \<Rightarrow> int \<Rightarrow> int \<Rightarrow> int \<Rightarrow> mem res" where
  "bitmap_set m bm block_num val =
     (let macro = block_num sdiv 8; index = block_num smod 8 in
      bind_res (ld8 m (bm + macro)) (\<lambda>letter.
      if index < 0 then Inl Undefined
      else
        let cleared = letter AND NOT (push_bit (nat index) 1);
            set_mask = push_bit (nat index) (if val \<noteq> 0 then 1 else 0) in
        st8 m (bm + macro) (cleared OR set_mask)))"

section \<open>Pages (pages.c, util.h)\<close>

definition get_pages_bitmap :: int where "get_pages_bitmap = 0"
definition get_inode_bitmap :: int where "get_inode_bitmap = 32"
definition get_inode_base :: int where "get_inode_base = get_inode_bitmap + 32"

definition pages_get_page :: "int \<Rightarrow> int" where
  "pages_get_page pnum = 4096 * pnum"

definition pages_init :: "mem \<Rightarrow> mem res" where
  "pages_init m = bind_res (bitmap_set m get_pages_bitmap 0 1) (\<lambda>m. bitmap_set m get_pages_bitmap 1 1)"

function alloc_page_loop :: "mem \<Rightarrow> int \<Rightarrow> (mem \<times> int) res" where
  "alloc_page_loop m i =
     (if i < 256 then
        bind_res (bitmap_get m get_pages_bitmap i) (\<lambda>val.
        if val = 0 then bind_res (bitmap_set m get_pages_bitmap i 1) (\<lambda>m. Inr (m, i))
        else alloc_page_loop m (i + 1))
      else Inr (m, -1))"
  by pat_completeness auto
termination by (relation "measure (\<lambda>(m, i). nat (256 - i))") auto

declare alloc_page_loop.simps [simp del]

definition alloc_page :: "mem \<Rightarrow> (mem \<times> int) res" where
  "alloc_page m = alloc_page_loop m 0"

definition free_page :: "mem \<Rightarrow> int \<Rightarrow> mem res" where
  "free_page m pnum = bitmap_set m get_pages_bitmap pnum 0"

definition clamp :: "int \<Rightarrow> int \<Rightarrow> int \<Rightarrow> int" where
  "clamp x v0 v1 = max v0 (min x v1)"

definition bytes_to_pages :: "int \<Rightarrow> int" where
  "bytes_to_pages bytes = (if bytes smod 4096 = 0 then bytes sdiv 4096 else bytes sdiv 4096 + 1)"

text \<open>\<^verbatim>\<open>join_to_path\<close> reads \<^verbatim>\<open>buf[nn - 1]\<close>, which does not exist for an empty string.\<close>

definition join_to_path :: "8 word list \<Rightarrow> 8 word list \<Rightarrow> 8 word list res" where
  "join_to_path buf item =
     (if buf = [] then Inl OutOfBounds
      else Inr (if last buf \<noteq> 47 then buf @ [47] @ item else buf @ item))"

definition path_join :: "8 word list \<Rightarrow> 8 word list \<Rightarrow> 8 word list res" where
  "path_join aa bb = join_to_path aa bb"

section \<open>String lists (slist.c)\<close>

text \<open>
  A list owns copies of its strings and every function that builds one copies all cells, so a
  list is the list of its strings; \<^verbatim>\<open>s_free\<close> only releases memory.
\<close>

definition s_cons :: "8 word list \<Rightarrow> 8 word list list \<Rightarrow> 8 word list list" where
  "s_cons str rest = str # rest"

function s_split :: "8 word list \<Rightarrow> 8 word \<Rightarrow> 8 word list list" where
  "s_split str delim =
     (if str = [] then []
      else
        let plen = length (takeWhile (\<lambda>c. c \<noteq> delim) str);
            skip = (if plen < length str then 1 else 0) in
        s_cons (take plen str) (s_split (drop (plen + skip) str) delim))"
  by pat_completeness auto
termination
proof (relation "measure (\<lambda>(str, delim). length str)")
  fix str :: "8 word list" and delim :: "8 word" and plen skip :: nat
  assume t: "str \<noteq> []" and p: "plen = length (takeWhile (\<lambda>c. c \<noteq> delim) str)"
    and s: "skip = (if plen < length str then 1 else 0)"
  have "plen \<le> length str" using p by (simp add: length_takeWhile_le)
  then have "0 < plen + skip" using t s by auto
  then show "((drop (plen + skip) str, delim), (str, delim)) \<in> measure (\<lambda>(str, delim). length str)"
    using t by simp
qed simp

declare s_split.simps [simp del]

fun s_concat :: "8 word list list \<Rightarrow> 8 word list list \<Rightarrow> 8 word list list" where
  "s_concat [] [] = []"
| "s_concat [] (y # ys) = s_concat (y # ys) []"
| "s_concat (x # xs) ys = s_cons x (s_concat xs ys)"

definition s_cat_free :: "8 word list list \<Rightarrow> 8 word list list \<Rightarrow> 8 word list list" where
  "s_cat_free xs ys = s_concat xs ys"

definition s_copy :: "8 word list list \<Rightarrow> 8 word list list" where
  "s_copy xs = s_concat xs []"

fun s_reverse_loop :: "8 word list list \<Rightarrow> 8 word list list \<Rightarrow> 8 word list list" where
  "s_reverse_loop [] ys = ys"
| "s_reverse_loop (x # xs) ys = s_reverse_loop xs (s_cons x ys)"

definition s_reverse :: "8 word list list \<Rightarrow> 8 word list list" where
  "s_reverse xs = s_reverse_loop xs []"

section \<open>Inodes (inode.c)\<close>

text \<open>\<^verbatim>\<open>struct inode\<close>: six 32-bit fields from the address of the inode on.\<close>

definition refs_of :: "int \<Rightarrow> int" where "refs_of node = node"
definition mode_of :: "int \<Rightarrow> int" where "mode_of node = node + 4"
definition size_of :: "int \<Rightarrow> int" where "size_of node = node + 8"
definition dptrs_of :: "int \<Rightarrow> int \<Rightarrow> int" where "dptrs_of node i = node + 12 + 4 * i"
definition iptr_of :: "int \<Rightarrow> int" where "iptr_of node = node + 20"

definition get_inode :: "int \<Rightarrow> int" where
  "get_inode inum = get_inode_base + 24 * inum"

function alloc_inode_loop :: "mem \<Rightarrow> int \<Rightarrow> (mem \<times> int) res" where
  "alloc_inode_loop m ii =
     (if ii < INODE_COUNT then
        bind_res (bitmap_get m get_inode_bitmap ii) (\<lambda>val.
        if val = 0 then
          bind_res (st_bytes m (get_inode ii) (replicate 24 0)) (\<lambda>m.
          bind_res (st32 m (mode_of (get_inode ii)) 33188) (\<lambda>m.
          bind_res (bitmap_set m get_inode_bitmap ii 1) (\<lambda>m. Inr (m, ii))))
        else alloc_inode_loop m (ii + 1))
      else Inr (m, -1))"
  by pat_completeness auto
termination by (relation "measure (\<lambda>(m, ii). nat (INODE_COUNT - ii))") auto

declare alloc_inode_loop.simps [simp del]

definition alloc_inode :: "mem \<Rightarrow> (mem \<times> int) res" where
  "alloc_inode m = alloc_inode_loop m 0"

definition inode_get_pnum :: "mem \<Rightarrow> int \<Rightarrow> int \<Rightarrow> int res" where
  "inode_get_pnum m node fpn =
     (if \<not> 0 \<le> fpn then Inl AssertFailed
      else if fpn < 2 then ld32 m (dptrs_of node fpn)
      else bind_res (ld32 m (iptr_of node)) (\<lambda>ip. ld32 m (pages_get_page ip + 4 * (fpn - 2))))"

function pages_owned_loop :: "mem \<Rightarrow> int \<Rightarrow> int \<Rightarrow> int \<Rightarrow> int res" where
  "pages_owned_loop m node i ans =
     (if i < 1026 then
        bind_res (inode_get_pnum m node i) (\<lambda>p.
        if 0 < p then pages_owned_loop m node (i + 1) (ans + 1) else Inr ans)
      else Inr ans)"
  by pat_completeness auto
termination by (relation "measure (\<lambda>(m, node, i, ans). nat (1026 - i))") auto

declare pages_owned_loop.simps [simp del]

definition pages_owned :: "mem \<Rightarrow> int \<Rightarrow> int res" where
  "pages_owned m node = pages_owned_loop m node 0 0"

text \<open>The loops of \<^verbatim>\<open>grow_inode\<close>: the memory and, if the function returned inside, its result.\<close>

function grow_direct :: "mem \<Rightarrow> int \<Rightarrow> int \<Rightarrow> int \<Rightarrow> (mem \<times> int option) res" where
  "grow_direct m node sz i =
     (if i < 2 then
        bind_res (pages_owned m node) (\<lambda>k.
        bind_res (ld32 m (dptrs_of node i)) (\<lambda>d.
        bind_res (if k * 4096 < sz \<and> d \<le> 0 then
                    bind_res (alloc_page m) (\<lambda>(m, page_num).
                    if page_num < 0 then Inr (m, Some page_num)
                    else bind_res (st32 m (dptrs_of node i) page_num) (\<lambda>m. Inr (m, None)))
                  else Inr (m, None)) (\<lambda>(m, r).
        case r of
          Some rv \<Rightarrow> Inr (m, Some rv)
        | None \<Rightarrow>
            bind_res (pages_owned m node) (\<lambda>k.
            if sz \<le> k * 4096 then Inr (m, Some 0) else grow_direct m node sz (i + 1)))))
      else Inr (m, None))"
  by pat_completeness auto
termination by (relation "measure (\<lambda>(m, node, sz, i). nat (2 - i))") auto

function grow_indirect :: "mem \<Rightarrow> int \<Rightarrow> int \<Rightarrow> int \<Rightarrow> int \<Rightarrow> (mem \<times> int) res" where
  "grow_indirect m node page_nums sz i =
     (if i < 1024 then
        bind_res (pages_owned m node) (\<lambda>k.
        bind_res (if k * 4096 < sz then
                    bind_res (alloc_page m) (\<lambda>(m, added_page).
                    if added_page < 0 then Inr (m, Some added_page)
                    else bind_res (st32 m (page_nums + 4 * i) added_page) (\<lambda>m. Inr (m, None)))
                  else Inr (m, None)) (\<lambda>(m, r).
        case r of
          Some rv \<Rightarrow> Inr (m, rv)
        | None \<Rightarrow>
            bind_res (pages_owned m node) (\<lambda>k.
            if sz \<le> k * 4096 then Inr (m, 0) else grow_indirect m node page_nums sz (i + 1))))
      else Inl Undefined)"
  by pat_completeness auto
termination by (relation "measure (\<lambda>(m, node, pn, sz, i). nat (1024 - i))") auto

declare grow_direct.simps [simp del] grow_indirect.simps [simp del]

definition grow_inode :: "mem \<Rightarrow> int \<Rightarrow> int \<Rightarrow> (mem \<times> int) res" where
  "grow_inode m node sz =
     (if sz > 1026 * 4096 then Inr (m, -1)
      else
        bind_res (grow_direct m node sz 0) (\<lambda>(m, r).
        case r of
          Some rv \<Rightarrow> Inr (m, rv)
        | None \<Rightarrow>
            bind_res (ld32 m (iptr_of node)) (\<lambda>ip.
            bind_res (if ip = 0 then
                        bind_res (alloc_page m) (\<lambda>(m, page_num).
                        if page_num < 0 then Inr (m, Some page_num)
                        else bind_res (st32 m (iptr_of node) page_num) (\<lambda>m. Inr (m, None)))
                      else Inr (m, None)) (\<lambda>(m, r).
            case r of
              Some rv \<Rightarrow> Inr (m, rv)
            | None \<Rightarrow>
                bind_res (ld32 m (iptr_of node)) (\<lambda>ip.
                  grow_indirect m node (pages_get_page ip) sz 0)))))"

function shrink_indirect :: "mem \<Rightarrow> int \<Rightarrow> int \<Rightarrow> int \<Rightarrow> (mem \<times> int option) res" where
  "shrink_indirect m node sz i =
     (if 1 < i then
        bind_res (pages_owned m node) (\<lambda>k.
        bind_res (if sz < k * 4096 then
                    bind_res (ld32 m (iptr_of node)) (\<lambda>ip.
                    let slot = pages_get_page ip + 4 * (k - 2 - 1) in
                    bind_res (ld32 m slot) (\<lambda>p.
                    bind_res (free_page m p) (\<lambda>m.
                    bind_res (pages_owned m node) (\<lambda>k'.
                      st32 m (pages_get_page ip + 4 * (k' - 2 - 1)) 0))))
                  else Inr m) (\<lambda>m.
        bind_res (pages_owned m node) (\<lambda>k.
        if k * 4096 \<le> sz then Inr (m, Some 0) else shrink_indirect m node sz (i - 1))))
      else Inr (m, None))"
  by pat_completeness auto
termination by (relation "measure (\<lambda>(m, node, sz, i). nat i)") auto

function shrink_direct :: "mem \<Rightarrow> int \<Rightarrow> int \<Rightarrow> int \<Rightarrow> (mem \<times> int) res" where
  "shrink_direct m node sz i =
     (if 0 \<le> i then
        bind_res (pages_owned m node) (\<lambda>k.
        bind_res (ld32 m (dptrs_of node i)) (\<lambda>d.
        bind_res (if sz < k * 4096 \<and> 0 < d then
                    bind_res (free_page m d) (\<lambda>m. st32 m (dptrs_of node i) 0)
                  else Inr m) (\<lambda>m.
        bind_res (pages_owned m node) (\<lambda>k.
        if k * 4096 \<le> sz then Inr (m, 0) else shrink_direct m node sz (i - 1)))))
      else Inl Undefined)"
  by pat_completeness auto
termination by (relation "measure (\<lambda>(m, node, sz, i). nat (i + 1))") auto

declare shrink_indirect.simps [simp del] shrink_direct.simps [simp del]

definition shrink_inode :: "mem \<Rightarrow> int \<Rightarrow> int \<Rightarrow> (mem \<times> int) res" where
  "shrink_inode m node sz =
     (if sz < 0 then Inr (m, -1)
      else
        bind_res (pages_owned m node) (\<lambda>k.
        bind_res (shrink_indirect m node sz (k - 1)) (\<lambda>(m, r).
        case r of
          Some rv \<Rightarrow> Inr (m, rv)
        | None \<Rightarrow>
            bind_res (ld32 m (iptr_of node)) (\<lambda>ip.
            bind_res (if ip \<noteq> 0 then free_page m ip else Inr m) (\<lambda>m.
            bind_res (st32 m (iptr_of node) 0) (\<lambda>m.
              shrink_direct m node sz 1))))))"

definition free_inode :: "mem \<Rightarrow> int \<Rightarrow> mem res" where
  "free_inode m inum =
     (if inum < 0 then Inr m
      else
        let node = get_inode inum in
        bind_res (ld32 m (refs_of node)) (\<lambda>r.
        bind_res (st32 m (refs_of node) (r - 1)) (\<lambda>m.
        if r - 1 = 0 then
          bind_res (shrink_inode m node 0) (\<lambda>(m, _).
          bind_res (st_bytes m node (replicate 24 0)) (\<lambda>m.
            bitmap_set m get_inode_bitmap inum 0))
        else Inr m)))"

section \<open>Directories (directory.c)\<close>

definition directory_init :: "mem \<Rightarrow> (mem \<times> int) res" where
  "directory_init m =
     bind_res (alloc_inode m) (\<lambda>(m, inum).
     bind_res (st32 m (mode_of (get_inode inum)) 16877) (\<lambda>m.
     bind_res (grow_inode m (get_inode inum) 4096) (\<lambda>(m, _). Inr (m, inum))))"

text \<open>\<^verbatim>\<open>streq\<close> of a string in the image and a string outside it: \<^verbatim>\<open>strcmp\<close> stops at the first difference.\<close>

fun streq_at :: "mem \<Rightarrow> int \<Rightarrow> 8 word list \<Rightarrow> bool res" where
  "streq_at m a [] = bind_res (ld8 m a) (\<lambda>b. Inr (b = 0))"
| "streq_at m a (c # cs) =
     bind_res (ld8 m a) (\<lambda>b. if b = c then streq_at m (a + 1) cs else Inr False)"

text \<open>\<^verbatim>\<open>struct dirent\<close>: 64 bytes, the name first and the inode number at offset 60.\<close>

definition ent_at :: "int \<Rightarrow> int \<Rightarrow> int" where
  "ent_at start i = start + 64 * i"

function find_ent :: "mem \<Rightarrow> int \<Rightarrow> 8 word list \<Rightarrow> int \<Rightarrow> int option res" where
  "find_ent m start name i =
     (if i < 64 then
        bind_res (streq_at m (ent_at start i) name) (\<lambda>eq.
        if eq then Inr (Some i) else find_ent m start name (i + 1))
      else Inr None)"
  by pat_completeness auto
termination by (relation "measure (\<lambda>(m, start, name, i). nat (64 - i))") auto

declare find_ent.simps [simp del]

definition directory_lookup :: "mem \<Rightarrow> int \<Rightarrow> 8 word list \<Rightarrow> int res" where
  "directory_lookup m dir name =
     bind_res (inode_get_pnum m dir 0) (\<lambda>p.
     let start = pages_get_page p in
     bind_res (find_ent m start name 0) (\<lambda>r.
     case r of
       Some i \<Rightarrow> ld32 m (ent_at start i + 60)
     | None \<Rightarrow> Inr (- ENOENT)))"

fun tree_lookup_loop :: "mem \<Rightarrow> 8 word list list \<Rightarrow> int \<Rightarrow> int res" where
  "tree_lookup_loop m [] cur_inum = Inr cur_inum"
| "tree_lookup_loop m (base # rest) cur_inum =
     bind_res (directory_lookup m (get_inode cur_inum) base) (\<lambda>r.
     if r < 0 then Inr r else tree_lookup_loop m rest r)"

definition tree_lookup :: "mem \<Rightarrow> 8 word list \<Rightarrow> int res" where
  "tree_lookup m path =
     (if path = [] \<or> hd path \<noteq> 47 then Inl AssertFailed
      else tree_lookup_loop m (s_split path 47) 0)"

text \<open>The search of \<^verbatim>\<open>directory_put\<close> for an entry that is not in use.\<close>

function find_empty :: "mem \<Rightarrow> int \<Rightarrow> int \<Rightarrow> int option res" where
  "find_empty m start i =
     (if i < 64 then
        bind_res (ld8 m (ent_at start i)) (\<lambda>c.
        if c = 0 then Inr (Some i) else find_empty m start (i + 1))
      else Inr None)"
  by pat_completeness auto
termination by (relation "measure (\<lambda>(m, start, i). nat (64 - i))") auto

declare find_empty.simps [simp del]

text \<open>The name field after \<^verbatim>\<open>strncpy(new_ent->name, name, 59)\<close> and \<^verbatim>\<open>name[59] = 0\<close>.\<close>

definition name_field :: "8 word list \<Rightarrow> 8 word list" where
  "name_field name = take 59 name @ replicate (59 - length name) 0 @ [0]"

definition directory_put :: "mem \<Rightarrow> int \<Rightarrow> 8 word list \<Rightarrow> int \<Rightarrow> (mem \<times> int) res" where
  "directory_put m dir name inum =
     bind_res (inode_get_pnum m dir 0) (\<lambda>p.
     let start = pages_get_page p in
     bind_res (directory_lookup m dir name) (\<lambda>check.
     if 0 < check then Inr (m, -1)
     else if 60 < length name then Inr (m, -1)
     else
       bind_res (find_empty m start 0) (\<lambda>r.
       case r of
         None \<Rightarrow> Inr (m, -1)
       | Some i \<Rightarrow>
           bind_res (st_bytes m (ent_at start i) (name_field name)) (\<lambda>m.
           bind_res (st32 m (ent_at start i + 60) inum) (\<lambda>m.
           bind_res (ld32 m (refs_of (get_inode inum))) (\<lambda>refs.
           bind_res (st32 m (refs_of (get_inode inum)) (refs + 1)) (\<lambda>m. Inr (m, 0))))))))"

definition directory_delete :: "mem \<Rightarrow> int \<Rightarrow> 8 word list \<Rightarrow> (mem \<times> int) res" where
  "directory_delete m dir name =
     bind_res (inode_get_pnum m dir 0) (\<lambda>p.
     let start = pages_get_page p in
     bind_res (find_ent m start name 0) (\<lambda>r.
     case r of
       None \<Rightarrow> Inr (m, - ENOENT)
     | Some i \<Rightarrow>
         bind_res (st8 m (ent_at start i) 0) (\<lambda>m.
         bind_res (ld32 m (ent_at start i + 60)) (\<lambda>inum.
         bind_res (free_inode m inum) (\<lambda>m.
         bind_res (st32 m (ent_at start i + 60) 0) (\<lambda>m. Inr (m, 0)))))))"

text \<open>A string of the image as a value, for \<^verbatim>\<open>strdup\<close>: up to the NUL, which must exist.\<close>

function string_from :: "mem \<Rightarrow> int \<Rightarrow> 8 word list res" where
  "string_from m a =
     (if 0 \<le> a \<and> a < NUFS_SIZE then
        if m (nat a) = 0 then Inr []
        else bind_res (string_from m (a + 1)) (\<lambda>cs. Inr (m (nat a) # cs))
      else Inl OutOfBounds)"
  by pat_completeness auto
termination by (relation "measure (\<lambda>(m, a). nat (NUFS_SIZE - a))") auto

declare string_from.simps [simp del]

function directory_list_loop :: "mem \<Rightarrow> int \<Rightarrow> int \<Rightarrow> 8 word list list \<Rightarrow> 8 word list list res" where
  "directory_list_loop m start i ys =
     (if i < 64 then
        bind_res (ld8 m (ent_at start i)) (\<lambda>c.
        if c \<noteq> 0 then
          bind_res (string_from m (ent_at start i)) (\<lambda>n. directory_list_loop m start (i + 1) (s_cons n ys))
        else directory_list_loop m start (i + 1) ys)
      else Inr ys)"
  by pat_completeness auto
termination by (relation "measure (\<lambda>(m, start, i, ys). nat (64 - i))") auto

declare directory_list_loop.simps [simp del]

definition directory_list :: "mem \<Rightarrow> int \<Rightarrow> 8 word list list res" where
  "directory_list m dir =
     bind_res (inode_get_pnum m dir 0) (\<lambda>p. directory_list_loop m (pages_get_page p) 0 [])"

section \<open>File operations (storage.c)\<close>

text \<open>\<^verbatim>\<open>dirname\<close> and \<^verbatim>\<open>basename\<close> of the C library, as POSIX describes them.\<close>

definition strip_slashes :: "8 word list \<Rightarrow> 8 word list" where
  "strip_slashes p = rev (dropWhile (\<lambda>c. c = 47) (rev p))"

definition base_name :: "8 word list \<Rightarrow> 8 word list" where
  "base_name p =
     (if p = [] then [46]
      else if strip_slashes p = [] then [47]
      else rev (takeWhile (\<lambda>c. c \<noteq> 47) (rev (strip_slashes p))))"

definition dir_name :: "8 word list \<Rightarrow> 8 word list" where
  "dir_name p =
     (if p = [] then [46]
      else if strip_slashes p = [] then [47]
      else
        let d = rev (dropWhile (\<lambda>c. c \<noteq> 47) (rev (strip_slashes p))) in
        if d = [] then [46]
        else if strip_slashes d = [] then [47] else strip_slashes d)"

definition storage_init :: "mem \<Rightarrow> bool \<Rightarrow> mem res" where
  "storage_init m create =
     bind_res (pages_init m) (\<lambda>m.
     if create then bind_res (directory_init m) (\<lambda>(m, _). Inr m) else Inr m)"

record nufs_stat =
  st_mode :: int
  st_size :: int
  st_nlink :: int
  st_blocks :: int

definition storage_stat :: "mem \<Rightarrow> 8 word list \<Rightarrow> (int \<times> nufs_stat option) res" where
  "storage_stat m path =
     bind_res (tree_lookup m path) (\<lambda>inum.
     if inum < 0 then Inr (inum, None)
     else
       let node = get_inode inum in
       bind_res (ld32 m (mode_of node)) (\<lambda>mode.
       bind_res (ld32 m (size_of node)) (\<lambda>sz.
       bind_res (pages_owned m node) (\<lambda>k.
         Inr (0, Some \<lparr>st_mode = mode, st_size = sz, st_nlink = 1, st_blocks = k * 4\<rparr>)))))"

text \<open>\<^verbatim>\<open>offset + size >= node->size\<close> compares as \<^verbatim>\<open>unsigned long\<close>.\<close>

definition storage_read :: "mem \<Rightarrow> 8 word list \<Rightarrow> nat \<Rightarrow> int \<Rightarrow> (int \<times> 8 word list) res" where
  "storage_read m path sz offset =
     bind_res (tree_lookup m path) (\<lambda>inum.
     if inum < 0 then Inr (inum, [])
     else
       bind_res (ld32 m (size_of (get_inode inum))) (\<lambda>nsz.
       if nsz \<le> offset then Inr (0, [])
       else
         let sz' = (if (word_of_int nsz :: 64 word) \<le> word_of_int (offset + int sz)
                    then nat (nsz - offset) else sz) in
         bind_res (ld_bytes m (pages_get_page inum + offset) sz') (\<lambda>bs. Inr (to_int (int sz'), bs))))"

definition div_up :: "int \<Rightarrow> int" where
  "div_up sz = (let nearest = sz sdiv 4096 in if nearest * 4096 = sz then nearest else nearest + 1)"

text \<open>
  \<^verbatim>\<open>shrink_inode\<close> and \<^verbatim>\<open>grow_inode\<close> take the size as an \<^verbatim>\<open>int\<close>. When the size does not change \<^verbatim>\<open>rv\<close>
  is returned without having been assigned.
\<close>

definition storage_truncate :: "mem \<Rightarrow> 8 word list \<Rightarrow> int \<Rightarrow> (mem \<times> int) res" where
  "storage_truncate m path sz =
     bind_res (tree_lookup m path) (\<lambda>inum.
     if inum < 0 then Inr (m, inum)
     else
       let node = get_inode inum in
       bind_res (ld32 m (size_of node)) (\<lambda>nsz.
       if sz < nsz then
         bind_res (shrink_inode m node (to_int sz)) (\<lambda>(m, rv).
         bind_res (st32 m (size_of node) sz) (\<lambda>m. Inr (m, rv)))
       else if nsz < sz then
         bind_res (grow_inode m node (to_int sz)) (\<lambda>(m, rv).
         bind_res (st32 m (size_of node) sz) (\<lambda>m. Inr (m, rv)))
       else Inl Undefined))"

definition storage_write :: "mem \<Rightarrow> 8 word list \<Rightarrow> 8 word list \<Rightarrow> int \<Rightarrow> (mem \<times> int) res" where
  "storage_write m path buf offset =
     bind_res (storage_truncate m path (offset + int (length buf))) (\<lambda>(m, trv).
     if trv < 0 then Inr (m, trv)
     else
       bind_res (tree_lookup m path) (\<lambda>inum.
       if inum < 0 then Inr (m, inum)
       else
         bind_res (st_bytes m (pages_get_page inum + offset) buf) (\<lambda>m.
           Inr (m, to_int (int (length buf))))))"

definition storage_mknod :: "mem \<Rightarrow> 8 word list \<Rightarrow> int \<Rightarrow> (mem \<times> int) res" where
  "storage_mknod m path mode =
     bind_res (tree_lookup m path) (\<lambda>r.
     if r \<noteq> - ENOENT then Inr (m, - EEXIST)
     else
       bind_res (if mode AND 16384 \<noteq> 0 then directory_init m else alloc_inode m) (\<lambda>(m, inum).
       bind_res (tree_lookup m (dir_name path)) (\<lambda>dir_num.
         directory_put m (get_inode dir_num) (base_name path) inum)))"

definition storage_list :: "mem \<Rightarrow> 8 word list \<Rightarrow> 8 word list list res" where
  "storage_list m path =
     bind_res (tree_lookup m path) (\<lambda>dir_num. directory_list m (get_inode dir_num))"

definition storage_unlink :: "mem \<Rightarrow> 8 word list \<Rightarrow> (mem \<times> int) res" where
  "storage_unlink m path =
     bind_res (tree_lookup m (dir_name path)) (\<lambda>dir_num.
       directory_delete m (get_inode dir_num) (base_name path))"

definition storage_link :: "mem \<Rightarrow> 8 word list \<Rightarrow> 8 word list \<Rightarrow> (mem \<times> int) res" where
  "storage_link m fr to =
     bind_res (tree_lookup m fr) (\<lambda>first.
     bind_res (tree_lookup m to) (\<lambda>second.
     if first < 0 then Inr (m, - ENOENT)
     else if 0 < second then Inr (m, -1)
     else
       bind_res (tree_lookup m (dir_name to)) (\<lambda>dir_num.
       if dir_num < 0 then Inr (m, - ENOENT)
       else directory_put m (get_inode dir_num) (base_name to) first)))"

definition storage_rename :: "mem \<Rightarrow> 8 word list \<Rightarrow> 8 word list \<Rightarrow> (mem \<times> int) res" where
  "storage_rename m fr to =
     bind_res (storage_link m fr to) (\<lambda>(m, link_rv).
     if link_rv < 0 then Inr (m, link_rv) else storage_unlink m fr)"

definition storage_set_time :: "mem \<Rightarrow> 8 word list \<Rightarrow> (mem \<times> int) res" where
  "storage_set_time m path = Inr (m, 0)"

section \<open>FUSE callbacks (nufsmount.c)\<close>

text \<open>\<^verbatim>\<open>nufs_readdir\<close>: the names and attributes it passes to \<^verbatim>\<open>filler\<close>, in order.\<close>

fun readdir_loop :: "mem \<Rightarrow> 8 word list \<Rightarrow> 8 word list list \<Rightarrow> (8 word list \<times> nufs_stat) list res" where
  "readdir_loop m path [] = Inr []"
| "readdir_loop m path (x # xs) =
     bind_res (path_join path x) (\<lambda>goodies.
     bind_res (storage_stat m goodies) (\<lambda>(rv, st).
     case st of
       None \<Rightarrow> Inl AssertFailed
     | Some s \<Rightarrow>
         if rv \<noteq> 0 then Inl AssertFailed
         else bind_res (readdir_loop m path xs) (\<lambda>r. Inr ((x, s) # r))))"

definition nufs_readdir :: "mem \<Rightarrow> 8 word list \<Rightarrow> (8 word list \<times> nufs_stat) list res" where
  "nufs_readdir m path =
     bind_res (storage_stat m path) (\<lambda>(rv, st).
     case st of
       None \<Rightarrow> Inl AssertFailed
     | Some s \<Rightarrow>
         if rv \<noteq> 0 then Inl AssertFailed
         else
           bind_res (storage_list m path) (\<lambda>items.
           bind_res (readdir_loop m path items) (\<lambda>r. Inr (([46], s) # r))))"

definition nufs_mkdir :: "mem \<Rightarrow> 8 word list \<Rightarrow> int \<Rightarrow> (mem \<times> int) res" where
  "nufs_mkdir m path mode = storage_mknod m path (mode OR 16384)"

definition nufs_link :: "mem \<Rightarrow> 8 word list \<Rightarrow> 8 word list \<Rightarrow> (mem \<times> int) res" where
  "nufs_link m fr to = Inr (m, -1)"

definition nufs_rmdir :: "mem \<Rightarrow> 8 word list \<Rightarrow> (mem \<times> int) res" where
  "nufs_rmdir m path = Inr (m, -1)"

definition nufs_chmod :: "mem \<Rightarrow> 8 word list \<Rightarrow> int \<Rightarrow> (mem \<times> int) res" where
  "nufs_chmod m path mode = Inr (m, -1)"

end
