(* ===== verification/NufsProps.thy ===== *)
theory NufsProps
  imports Nufs
begin

text \<open>
  Properties of the user-space file system that \<open>Nufs\<close> models. The two allocators, of pages and of
  inodes, share a contract, the locale \<open>first_fit\<close>: an allocation returns the lowest free number
  and marks it, so a series of allocations returns different numbers until nothing is free.
  Directories are finite maps from names to inode numbers.
\<close>

section \<open>First-fit allocation\<close>

locale first_fit =
  fixes used :: "'s \<Rightarrow> nat \<Rightarrow> bool"
    and alloc :: "'s \<Rightarrow> ('s \<times> int) res"
    and cap :: nat
  assumes alloc_free: "n < cap \<Longrightarrow> \<not> used s n \<Longrightarrow> (\<forall>k < n. used s k) \<Longrightarrow>
      \<exists>s'. alloc s = Inr (s', int n) \<and> (\<forall>k < cap. used s' k \<longleftrightarrow> used s k \<or> k = n)"
    and alloc_full: "(\<forall>k < cap. used s k) \<Longrightarrow> alloc s = Inr (s, -1)"
begin

text \<open>A series of allocations and the numbers it returned.\<close>

fun alloc_many :: "nat \<Rightarrow> 's \<Rightarrow> ('s \<times> int list) res" where
  "alloc_many 0 s = Inr (s, [])"
| "alloc_many (Suc k) s =
     bind_res (alloc s) (\<lambda>(s1, p). bind_res (alloc_many k s1) (\<lambda>(s2, ps). Inr (s2, p # ps)))"

lemma alloc_total:
  "\<exists>s' p. alloc s = Inr (s', p) \<and>
    (p = -1 \<and> s' = s \<and> (\<forall>k < cap. used s k) \<or>
     (\<exists>n < cap. p = int n \<and> \<not> used s n \<and> (\<forall>k < n. used s k) \<and>
        (\<forall>k < cap. used s' k \<longleftrightarrow> used s k \<or> k = n)))"
proof (cases "\<forall>k < cap. used s k")
  case True
  then show ?thesis using alloc_full [OF True] by blast
next
  case False
  define n where "n = (LEAST k. k < cap \<and> \<not> used s k)"
  have n: "n < cap \<and> \<not> used s n" unfolding n_def using False by (metis (mono_tags, lifting) LeastI_ex)
  have "used s k" if "k < n" for k
    using not_less_Least [OF that [unfolded n_def]] that n by auto
  then show ?thesis using alloc_free [of n s] n by metis
qed

text \<open>The numbers a series of successful allocations returns are free before and all different.\<close>

lemma alloc_many_distinct:
  "\<exists>s' ps. alloc_many k s = Inr (s', ps) \<and> length ps = k \<and>
     distinct (filter (\<lambda>p. p \<noteq> -1) ps) \<and>
     (\<forall>p \<in> set ps. p = -1 \<or> (0 \<le> p \<and> p < int cap \<and> \<not> used s (nat p) \<and> used s' (nat p)))"
proof (induction k arbitrary: s)
  case (Suc k)
  from alloc_total [of s] obtain s1 p where s1: "alloc s = Inr (s1, p)"
    and p: "p = -1 \<and> s1 = s \<or> (\<exists>n < cap. p = int n \<and> \<not> used s n \<and>
        (\<forall>k < cap. used s1 k \<longleftrightarrow> used s k \<or> k = n))" by metis
  from Suc.IH [of s1] obtain s2 ps where s2: "alloc_many k s1 = Inr (s2, ps)" "length ps = k"
    "distinct (filter (\<lambda>p. p \<noteq> -1) ps)"
    "\<forall>p \<in> set ps. p = -1 \<or> (0 \<le> p \<and> p < int cap \<and> \<not> used s1 (nat p) \<and> used s2 (nat p))" by blast
  have mono: "used s2 j" if "used s1 j" "j < cap" for j
  proof -
    have "\<And>s s' ps. alloc_many k s = Inr (s', ps) \<Longrightarrow> used s j \<Longrightarrow> used s' j" for k
    proof (induction k)
      case (Suc k)
      from alloc_total [of s] obtain t q where t: "alloc s = Inr (t, q)"
        and "t = s \<or> (\<exists>n. \<forall>k < cap. used t k \<longleftrightarrow> used s k \<or> k = n)" by metis
      then have "used t j" using Suc.prems(2) that(2) by auto
      moreover obtain qs where "alloc_many k t = Inr (s', qs)"
        using Suc.prems(1) t by (auto simp: bind_res_eq_Inr)
      ultimately show ?case using Suc.IH by blast
    qed simp
    then show ?thesis using s2(1) that(1) by blast
  qed
  from p show ?case
  proof
    assume "p = -1 \<and> s1 = s"
    then show ?thesis using s1 s2 by auto
  next
    assume "\<exists>n < cap. p = int n \<and> \<not> used s n \<and> (\<forall>k < cap. used s1 k \<longleftrightarrow> used s k \<or> k = n)"
    then obtain n where n: "n < cap" "p = int n" "\<not> used s n" "\<forall>k < cap. used s1 k \<longleftrightarrow> used s k \<or> k = n"
      by blast
    then have u: "used s1 n" "used s2 n" using mono by auto
    have "p \<notin> set ps" using s2(4) n(2) u(1) by force
    moreover have "0 \<le> q \<and> q < int cap \<and> \<not> used s (nat q) \<and> used s2 (nat q)" if "q \<in> set ps" "q \<noteq> -1" for q
      using s2(4) that n(4) by (auto simp: nat_less_iff)
    ultimately show ?thesis using s1 s2(1-3) n(1-3) u(2) by auto
  qed
qed simp

end

section \<open>Bitmaps\<close>

definition bm_bit :: "mem \<Rightarrow> int \<Rightarrow> nat \<Rightarrow> bool" where
  "bm_bit m bm n \<longleftrightarrow> bit (m (nat bm + n div 8)) (n mod 8)"

lemma sdiv_smod_nat [simp]: "int n sdiv 8 = int (n div 8)" "int n smod 8 = int (n mod 8)"
  by (simp_all add: signed_divide_int_def signed_modulo_int_def sgn_if zdiv_int zmod_int minus_div_mult_eq_mod)

lemma bitmap_get_bit:
  assumes "0 \<le> bm" and "bm + int (n div 8) < NUFS_SIZE"
  shows "bitmap_get m bm (int n) = Inr (if bm_bit m bm n then 1 else 0)"
proof -
  have "nat (bm + int (n div 8)) = nat bm + n div 8" using assms by (simp add: nat_add_distrib)
  moreover have "uint (drop_bit (n mod 8) w AND 1) = (if bit w (n mod 8) then 1 else 0)" for w :: "8 word"
    by (simp add: and_one_eq bit_iff_odd_drop_bit odd_iff_mod_2_eq_one)
  ultimately show ?thesis using assms by (simp add: bitmap_get_def ld8_def bm_bit_def)
qed

lemma bit_update:
  fixes w :: "8 word"
  assumes "k < 8"
  shows "bit (w AND NOT (push_bit k 1) OR push_bit k (if b then 1 else 0)) j \<longleftrightarrow> (if j = k then b else bit w j)"
  using assms by (auto simp: bit_simps dest: bit_imp_le_length)

text \<open>Setting a bit: total inside the image, one byte changes, and every other bit stays.\<close>

lemma bitmap_set_bit:
  assumes bm: "0 \<le> bm" "bm + int (n div 8) < NUFS_SIZE"
  shows "\<exists>w. bitmap_set m bm (int n) v = Inr (m(nat bm + n div 8 := w)) \<and>
    (\<forall>j. bm_bit (m(nat bm + n div 8 := w)) bm j \<longleftrightarrow> (if j = n then v \<noteq> 0 else bm_bit m bm j))"
proof -
  let ?a = "nat bm + n div 8"
  let ?w = "m ?a AND NOT (push_bit (n mod 8) 1) OR push_bit (n mod 8) (if v \<noteq> 0 then 1 else 0)"
  have a: "nat (bm + int (n div 8)) = ?a" using bm by (simp add: nat_add_distrib)
  have "bitmap_set m bm (int n) v = Inr (m(?a := ?w))"
    using bm a by (simp add: bitmap_set_def ld8_def st8_def del: push_bit_of_1)
  moreover have "bm_bit (m(?a := ?w)) bm j \<longleftrightarrow> (if j = n then v \<noteq> 0 else bm_bit m bm j)" for j
  proof (cases "j div 8 = n div 8")
    case True
    then have "j mod 8 = n mod 8 \<longleftrightarrow> j = n" by (metis div_mult_mod_eq)
    then show ?thesis using True bit_update [of "n mod 8" "m ?a" "v \<noteq> 0" "j mod 8"] by (simp add: bm_bit_def)
  next
    case False
    then show ?thesis by (auto simp: bm_bit_def)
  qed
  ultimately show ?thesis by blast
qed

lemma alloc_page_loop_scan:
  assumes "n < 256" and "\<not> bm_bit m 0 n" and "\<forall>k < n. bm_bit m 0 k" and "i \<le> n"
  shows "alloc_page_loop m (int i) = bind_res (bitmap_set m 0 (int n) 1) (\<lambda>m. Inr (m, int n))"
  using assms(4)
proof (induction "n - i" arbitrary: i)
  case 0
  then show ?case
    using assms by (subst alloc_page_loop.simps) (simp add: get_pages_bitmap_def bitmap_get_bit NUFS_SIZE_def)
next
  case (Suc d)
  then have i: "i < n" and IH: "alloc_page_loop m (int (Suc i)) = bind_res (bitmap_set m 0 (int n) 1) (\<lambda>m. Inr (m, int n))"
    using Suc.hyps(1) [of "Suc i"] by auto
  have "int i + 1 = int (Suc i)" by simp
  then show ?case
    using i assms(1,3) IH
    by (subst alloc_page_loop.simps) (simp add: get_pages_bitmap_def bitmap_get_bit NUFS_SIZE_def add.commute)
qed

lemma alloc_page_loop_full:
  assumes "\<forall>k < 256. bm_bit m 0 k" and "i \<le> 256"
  shows "alloc_page_loop m (int i) = Inr (m, -1)"
  using assms(2)
proof (induction "256 - i" arbitrary: i)
  case 0
  then show ?case by (subst alloc_page_loop.simps) simp
next
  case (Suc d)
  have e: "int i + 1 = int (Suc i)" by simp
  have "alloc_page_loop m (int (Suc i)) = Inr (m, -1)" using Suc.hyps(1) [of "Suc i"] Suc.hyps(2) by simp
  then show ?case
    using Suc.hyps(2) assms(1) unfolding e [symmetric]
    by (subst alloc_page_loop.simps) (simp add: get_pages_bitmap_def bitmap_get_bit NUFS_SIZE_def)
qed

interpretation pages: first_fit "\<lambda>m n. bm_bit m 0 n" alloc_page 256
proof
  fix n m
  assume n: "n < 256" "\<not> bm_bit m 0 n" "\<forall>k < n. bm_bit m 0 k"
  have "n div 8 < 32" using n(1) by (simp add: div_less_iff_less_mult)
  with bitmap_set_bit [of 0 n m 1] obtain w where
    "bitmap_set m 0 (int n) 1 = Inr (m(n div 8 := w))"
    "\<forall>j. bm_bit (m(n div 8 := w)) 0 j \<longleftrightarrow> (if j = n then True else bm_bit m 0 j)"
    by (auto simp: NUFS_SIZE_def)
  then show "\<exists>m'. alloc_page m = Inr (m', int n) \<and> (\<forall>k < 256. bm_bit m' 0 k \<longleftrightarrow> bm_bit m 0 k \<or> k = n)"
    using alloc_page_loop_scan [OF n, of 0] by (auto simp: alloc_page_def)
next
  fix m
  assume "\<forall>k < 256. bm_bit m 0 k"
  from alloc_page_loop_full [OF this, of 0] show "alloc_page m = Inr (m, -1)" by (simp add: alloc_page_def)
qed

text \<open>The inode allocator clears the inode, sets its mode and then marks it in the bitmap.\<close>

definition fresh_inode :: "mem \<Rightarrow> nat \<Rightarrow> mem" where
  "fresh_inode m n = store32 (write_bytes m (64 + 24 * n) (replicate 24 0)) (64 + 24 * n + 4) 33188"

lemma fresh_inode_other: "a < 64 + 24 * n \<or> 64 + 24 * n + 24 \<le> a \<Longrightarrow> fresh_inode m n a = m a"
  by (auto simp: fresh_inode_def mem_simps)

lemma fresh_inode_bit: "k < 256 \<Longrightarrow> bm_bit (fresh_inode m n) 32 k = bm_bit m 32 k"
  using div_less_iff_less_mult [of 8 k 32] by (simp add: bm_bit_def fresh_inode_other)

lemma alloc_inode_loop_scan:
  assumes "n < 256" and "\<not> bm_bit m 32 n" and "\<forall>k < n. bm_bit m 32 k" and "i \<le> n"
  shows "alloc_inode_loop m (int i) =
    bind_res (bitmap_set (fresh_inode m n) 32 (int n) 1) (\<lambda>m. Inr (m, int n))"
  using assms(4)
proof (induction "n - i" arbitrary: i)
  case 0
  then have i: "i = n" by simp
  have a: "nat (64 + 24 * int n) = 64 + 24 * n" "nat (68 + 24 * int n) = 64 + 24 * n + 4" by simp_all
  show ?case
    using assms(1,2) a unfolding i
    by (subst alloc_inode_loop.simps)
       (simp add: get_inode_bitmap_def get_inode_base_def bitmap_get_bit NUFS_SIZE_def INODE_COUNT_def
          st_bytes_def st32_def get_inode_def mode_of_def fresh_inode_def)
next
  case (Suc d)
  then have i: "i < n" and IH: "alloc_inode_loop m (int (Suc i)) =
      bind_res (bitmap_set (fresh_inode m n) 32 (int n) 1) (\<lambda>m. Inr (m, int n))"
    using Suc.hyps(1) [of "Suc i"] by auto
  have "int i + 1 = int (Suc i)" by simp
  then show ?case
    using i assms(1,3) IH
    by (subst alloc_inode_loop.simps)
       (simp add: get_inode_bitmap_def bitmap_get_bit NUFS_SIZE_def INODE_COUNT_def add.commute)
qed

lemma alloc_inode_loop_full:
  assumes "\<forall>k < 256. bm_bit m 32 k" and "i \<le> 256"
  shows "alloc_inode_loop m (int i) = Inr (m, -1)"
  using assms(2)
proof (induction "256 - i" arbitrary: i)
  case 0
  then show ?case by (subst alloc_inode_loop.simps) (simp add: INODE_COUNT_def)
next
  case (Suc d)
  have e: "int i + 1 = int (Suc i)" by simp
  have "alloc_inode_loop m (int (Suc i)) = Inr (m, -1)" using Suc.hyps(1) [of "Suc i"] Suc.hyps(2) by simp
  then show ?case
    using Suc.hyps(2) assms(1) unfolding e [symmetric]
    by (subst alloc_inode_loop.simps) (simp add: get_inode_bitmap_def bitmap_get_bit NUFS_SIZE_def INODE_COUNT_def)
qed

interpretation inodes: first_fit "\<lambda>m n. bm_bit m 32 n" alloc_inode 256
proof
  fix n m
  assume n: "n < 256" "\<not> bm_bit m 32 n" "\<forall>k < n. bm_bit m 32 k"
  have "n div 8 < 32" using n(1) by (simp add: div_less_iff_less_mult)
  with bitmap_set_bit [of 32 n "fresh_inode m n" 1] obtain w where
    "bitmap_set (fresh_inode m n) 32 (int n) 1 = Inr ((fresh_inode m n)(32 + n div 8 := w))"
    "\<forall>j. bm_bit ((fresh_inode m n)(32 + n div 8 := w)) 32 j \<longleftrightarrow>
       (if j = n then True else bm_bit (fresh_inode m n) 32 j)"
    by (auto simp: NUFS_SIZE_def)
  then show "\<exists>m'. alloc_inode m = Inr (m', int n) \<and> (\<forall>k < 256. bm_bit m' 32 k \<longleftrightarrow> bm_bit m 32 k \<or> k = n)"
    using alloc_inode_loop_scan [OF n, of 0] by (auto simp: alloc_inode_def fresh_inode_bit)
next
  fix m
  assume "\<forall>k < 256. bm_bit m 32 k"
  from alloc_inode_loop_full [OF this, of 0] show "alloc_inode m = Inr (m, -1)" by (simp add: alloc_inode_def)
qed

section \<open>Directory pages\<close>

text \<open>The entry at an address has a name; the names that fit an entry.\<close>

definition has_name :: "mem \<Rightarrow> nat \<Rightarrow> 8 word list \<Rightarrow> bool" where
  "has_name m a n \<longleftrightarrow> (\<forall>k < length n. m (a + k) = n ! k) \<and> m (a + length n) = 0"

definition good_name :: "8 word list \<Rightarrow> bool" where
  "good_name n \<longleftrightarrow> n \<noteq> [] \<and> 0 \<notin> set n \<and> length n \<le> 59"

text \<open>The inode \<open>d\<close> is a directory whose entries are in page \<open>p\<close>, outside the bitmaps and the inodes.\<close>

definition dir_at :: "mem \<Rightarrow> int \<Rightarrow> nat \<Rightarrow> bool" where
  "dir_at m d p \<longleftrightarrow> 0 \<le> d \<and> d < 256 \<and> 2 \<le> p \<and> p < 256 \<and> inode_get_pnum m (get_inode d) 0 = Inr (int p)"

lemma has_name_Nil: "has_name m a [] \<longleftrightarrow> m a = 0"
  by (simp add: has_name_def)

lemma has_name_Cons: "has_name m a (c # n) \<longleftrightarrow> m a = c \<and> has_name m (Suc a) n"
proof
  assume h: "has_name m a (c # n)"
  then have "m (a + Suc k) = n ! k" if "k < length n" for k using that by (force simp: has_name_def)
  moreover have "m a = c" using h by (force simp: has_name_def)
  ultimately show "m a = c \<and> has_name m (Suc a) n" using h by (simp add: has_name_def)
qed (auto simp: has_name_def less_Suc_eq_0_disj)

lemma streq_at_has: "a + length n < 1048576 \<Longrightarrow> streq_at m (int a) n = Inr (has_name m a n)"
proof (induction n arbitrary: a)
  case Nil
  then show ?case by (simp add: ld8_def NUFS_SIZE_def has_name_Nil)
next
  case (Cons c n)
  have "streq_at m (int (Suc a)) n = Inr (has_name m (Suc a) n)" using Cons.IH [of "Suc a"] Cons.prems by simp
  with Cons.prems show ?case by (simp add: ld8_def NUFS_SIZE_def has_name_Cons add.commute)
qed

lemma find_ent_find:
  assumes "s + 4096 \<le> 1048576" and "length n < 64" and "i \<le> 64"
  shows "find_ent m (int s) n (int i) = Inr (map_option int (find (\<lambda>i. has_name m (s + 64 * i) n) [i..<64]))"
  using assms(3)
proof (induction "64 - i" arbitrary: i)
  case 0
  then show ?case by (subst find_ent.simps) simp
next
  case (Suc d)
  then have i: "i < 64" "[i..<64] = i # [Suc i..<64]" by (simp_all add: upt_conv_Cons)
  have IH: "find_ent m (int s) n (int (Suc i)) =
      Inr (map_option int (find (\<lambda>i. has_name m (s + 64 * i) n) [Suc i..<64]))"
    using Suc.hyps(1) [of "Suc i"] Suc.hyps(2) by simp
  have "ent_at (int s) (int i) = int (s + 64 * i)" by (simp add: ent_at_def)
  then have "streq_at m (ent_at (int s) (int i)) n = Inr (has_name m (s + 64 * i) n)"
    using streq_at_has [of "s + 64 * i" n m] assms(1,2) i(1) by simp
  then show ?case using i IH by (subst find_ent.simps) (simp add: add.commute)
qed

lemma find_empty_find:
  assumes "s + 4096 \<le> 1048576" and "i \<le> 64"
  shows "find_empty m (int s) (int i) = Inr (map_option int (find (\<lambda>i. m (s + 64 * i) = 0) [i..<64]))"
  using assms(2)
proof (induction "64 - i" arbitrary: i)
  case 0
  then show ?case by (subst find_empty.simps) simp
next
  case (Suc d)
  then have i: "i < 64" "[i..<64] = i # [Suc i..<64]" by (simp_all add: upt_conv_Cons)
  have IH: "find_empty m (int s) (int (Suc i)) = Inr (map_option int (find (\<lambda>i. m (s + 64 * i) = 0) [Suc i..<64]))"
    using Suc.hyps(1) [of "Suc i"] Suc.hyps(2) by simp
  have e: "ent_at (int s) (int i) = int (s + 64 * i)" by (simp add: ent_at_def)
  have "ld8 m (int (s + 64 * i)) = Inr (m (s + 64 * i))"
    unfolding ld8_def nat_int using assms(1) i(1) by (simp add: NUFS_SIZE_def)
  then show ?case using i IH unfolding e [symmetric] by (subst find_empty.simps) (simp add: add.commute)
qed

text \<open>What a lookup returns, in terms of the entries of the page.\<close>

definition page_lookup :: "mem \<Rightarrow> nat \<Rightarrow> 8 word list \<Rightarrow> int" where
  "page_lookup m s n =
     (case find (\<lambda>i. has_name m (s + 64 * i) n) [0..<64] of
        Some i \<Rightarrow> sint (load32 m (s + 64 * i + 60))
      | None \<Rightarrow> - ENOENT)"

lemma directory_lookup_page:
  assumes d: "dir_at m d p" and n: "length n < 64"
  shows "directory_lookup m (get_inode d) n = Inr (page_lookup m (4096 * p) n)"
proof -
  have p: "4096 * p + 4096 \<le> 1048576" "inode_get_pnum m (get_inode d) 0 = Inr (int p)"
    using d by (simp_all add: dir_at_def)
  have pg: "pages_get_page (int p) = int (4096 * p)" by (simp add: pages_get_page_def)
  have f: "find_ent m (int (4096 * p)) n 0 =
      Inr (map_option int (find (\<lambda>i. has_name m (4096 * p + 64 * i) n) [0..<64]))"
    using find_ent_find [OF p(1) n, of 0] by simp
  show ?thesis
  proof (cases "find (\<lambda>i. has_name m (4096 * p + 64 * i) n) [0..<64]")
    case None
    then show ?thesis using f p(2) pg by (simp add: directory_lookup_def page_lookup_def)
  next
    case (Some i)
    then have i: "i < 64" by (auto simp: find_Some_iff)
    have a: "ent_at (int (4096 * p)) (int i) + 60 = int (4096 * p + 64 * i + 60)" by (simp add: ent_at_def)
    have "ld32 m (int (4096 * p + 64 * i + 60)) = Inr (sint (load32 m (4096 * p + 64 * i + 60)))"
      unfolding ld32_def nat_int using p(1) i by (simp add: NUFS_SIZE_def)
    then show ?thesis
      using Some f p(2) pg a unfolding directory_lookup_def page_lookup_def by (simp del: of_nat_add)
  qed
qed

section \<open>Adding and removing entries\<close>

lemma length_name_field: "length (name_field n) = 60"
  by (simp add: name_field_def)

text \<open>The name that an entry holds after \<^verbatim>\<open>directory_put\<close> is the one that was put, and no other.\<close>

lemma name_field_name:
  assumes n: "good_name n" and n': "good_name n'" and m: "\<And>k. k < 60 \<Longrightarrow> m (a + k) = name_field n ! k"
  shows "has_name m a n' \<longleftrightarrow> n' = n"
proof
  have len: "length n \<le> 59" "length n' \<le> 59" "0 \<notin> set n" "0 \<notin> set n'"
    using n n' by (simp_all add: good_name_def)
  have nth: "m (a + k) = (if k < length n then n ! k else 0)" if "k < 60" for k
  proof -
    have "m (a + k) = (n @ replicate (59 - length n) 0 @ [0]) ! k"
      using m [OF that] len(1) by (simp add: name_field_def)
    also have "\<dots> = (if k < length n then n ! k else 0)"
      using that len(1) by (auto simp: nth_append)
    finally show ?thesis .
  qed
  show "n' = n" if h: "has_name m a n'"
  proof (rule nth_equalityI)
    have "\<not> length n' < length n"
    proof
      assume "length n' < length n"
      then have "m (a + length n') = n ! length n'" using nth len by simp
      then show False using h len(3) \<open>length n' < length n\<close> by (auto simp: has_name_def in_set_conv_nth)
    qed
    moreover have "\<not> length n < length n'"
    proof
      assume l: "length n < length n'"
      then have "n' ! length n = 0" using h nth [of "length n"] len by (auto simp: has_name_def)
      then show False using len(4) l by (auto simp: in_set_conv_nth)
    qed
    ultimately show l: "length n' = length n" by simp
    fix k
    assume "k < length n'"
    then show "n' ! k = n ! k" using h nth [of k] l len by (auto simp: has_name_def)
  qed
  show "has_name m a n'" if "n' = n" using nth len(1) that by (simp add: has_name_def)
qed

text \<open>The image after an entry has been filled in and the reference count of its inode raised.\<close>

definition put_entry :: "mem \<Rightarrow> nat \<Rightarrow> 8 word list \<Rightarrow> nat \<Rightarrow> mem" where
  "put_entry m a n j =
     (let m2 = store32 (write_bytes m a (name_field n)) (a + 60) (word_of_nat j) in
      store32 m2 (64 + 24 * j) (load32 m2 (64 + 24 * j) + 1))"

lemma put_entry_other:
  assumes "b < a \<or> a + 64 \<le> b" and "b < 64 + 24 * j \<or> 64 + 24 * j + 4 \<le> b"
  shows "put_entry m a n j b = m b"
  using assms by (auto simp: put_entry_def Let_def mem_simps length_name_field)

lemma put_entry_name:
  assumes "64 + 24 * j + 4 \<le> a" and "k < 60"
  shows "put_entry m a n j (a + k) = name_field n ! k"
  using assms by (simp add: put_entry_def Let_def mem_simps length_name_field)

lemma put_entry_inum:
  assumes "64 + 24 * j + 4 \<le> a" and "j < 256"
  shows "load32 (put_entry m a n j) (a + 60) = word_of_nat j"
  using assms by (simp add: put_entry_def Let_def mem_simps)

lemma directory_put_entry:
  assumes d: "dir_at m d p" and len: "length n \<le> 60" and j: "j < 256"
    and none: "page_lookup m (4096 * p) n = - ENOENT"
    and e: "find (\<lambda>i. m (4096 * p + 64 * i) = 0) [0..<64] = Some i"
  shows "directory_put m (get_inode d) n (int j) = Inr (put_entry m (4096 * p + 64 * i) n j, 0)"
proof -
  have p: "4096 * p + 4096 \<le> 1048576" "2 \<le> p" "inode_get_pnum m (get_inode d) 0 = Inr (int p)"
    using d by (simp_all add: dir_at_def)
  have i: "i < 64" using e by (auto simp: find_Some_iff)
  let ?a = "4096 * p + 64 * i"
  have pg: "pages_get_page (int p) = int (4096 * p)" and ea: "ent_at (int (4096 * p)) (int i) = int ?a"
    by (simp_all add: pages_get_page_def ent_at_def)
  have l: "directory_lookup m (get_inode d) n = Inr (- ENOENT)"
    using directory_lookup_page [OF d, of n] none len by simp
  have fe: "find_empty m (int (4096 * p)) 0 = Inr (Some (int i))"
    using find_empty_find [OF p(1), of 0 m] e by simp
  have "st_bytes m (int ?a) (name_field n) = Inr (write_bytes m ?a (name_field n))"
    unfolding st_bytes_def nat_int using p(1) i length_name_field by (simp add: NUFS_SIZE_def)
  moreover have "st32 m1 (int ?a + 60) (int j) = Inr (store32 m1 (?a + 60) (word_of_nat j))" for m1
  proof -
    have a60: "int ?a + 60 = int (?a + 60)" by simp
    show ?thesis unfolding a60 st32_def nat_int using p(1) i by (simp add: NUFS_SIZE_def)
  qed
  moreover have "ld32 m2 (refs_of (get_inode (int j))) = Inr (sint (load32 m2 (64 + 24 * j)))"
    "st32 m2 (refs_of (get_inode (int j))) (sint v + 1) = Inr (store32 m2 (64 + 24 * j) (v + 1))"
    for m2 and v :: "32 word"
  proof -
    have a: "refs_of (get_inode (int j)) = int (64 + 24 * j)"
      by (simp add: refs_of_def get_inode_def get_inode_base_def get_inode_bitmap_def)
    show "ld32 m2 (refs_of (get_inode (int j))) = Inr (sint (load32 m2 (64 + 24 * j)))"
      unfolding a ld32_def nat_int using j by (simp add: NUFS_SIZE_def)
    show "st32 m2 (refs_of (get_inode (int j))) (sint v + 1) = Inr (store32 m2 (64 + 24 * j) (v + 1))"
      unfolding a st32_def nat_int using j by (simp add: NUFS_SIZE_def)
  qed
  ultimately show ?thesis
    using p(3) l fe pg ea len
    unfolding directory_put_def put_entry_def by (simp add: Let_def ENOENT_def del: of_nat_add of_nat_mult)
qed

lemma dir_at_put:
  assumes "dir_at m d p" and "j < 256" and "8192 \<le> a"
  shows "dir_at (put_entry m a n j) d p"
proof -
  obtain k where k: "d = int k" "k < 256" using assms(1) by (auto simp: dir_at_def elim: nonneg_int_cases)
  let ?x = "64 + 24 * k + 12"
  have a: "dptrs_of (get_inode d) 0 = int ?x"
    by (simp add: k dptrs_of_def get_inode_def get_inode_base_def get_inode_bitmap_def)
  have "put_entry m a n j (?x + i) = m (?x + i)" if "i < 4" for i
  proof (rule put_entry_other)
    show "?x + i < a \<or> a + 64 \<le> ?x + i" using k assms(3) that by simp
    show "?x + i < 64 + 24 * j \<or> 64 + 24 * j + 4 \<le> ?x + i" using that by presburger
  qed
  then have "load32 (put_entry m a n j) ?x = load32 m ?x" by (rule load32_cong)
  then show ?thesis using assms(1) unfolding dir_at_def inode_get_pnum_def ld32_def a nat_int by (simp split: if_splits)
qed

lemma sint_of_byte_nat: "j < 256 \<Longrightarrow> sint (word_of_nat j :: 32 word) = int j"
  by (simp add: sint_uint uint_nat unat_of_nat take_bit_nat_def signed_take_bit_eq_if_positive bit_iff_odd)
     (simp add: signed_take_bit_eq_if_positive bit_iff_odd take_bit_nat_def take_bit_int_eq_self)

lemma find_unique:
  assumes "\<And>k. k < n \<Longrightarrow> P k \<longleftrightarrow> k = i" and "i < n"
  shows "find P [0..<n] = Some i"
proof -
  have "[0..<n] ! i = i" "\<forall>k < i. \<not> P ([0..<n] ! k)" using assms by auto
  then show ?thesis using assms by (auto simp: find_Some_iff intro: exI [of _ i])
qed

lemma find_cong_upt: "(\<And>k. k < n \<Longrightarrow> P k = Q k) \<Longrightarrow> find P [0..<n] = find Q [0..<n]"
  by (rule find_cong) auto

text \<open>
  C20. Directories are maps on the names that fit an entry, which are not empty, have at most 59 bytes and
  no NUL: putting a new one of them into a directory that has an unused entry
  succeeds, a lookup of the name then returns its inode number, lookups of all other such names
  return what they returned before, and the inode has one reference more. A name of 60 bytes is
  stored without its last byte and never found (\<open>long_name_is_lost\<close>), and the empty name, which matches unused entries,
  is found or not according to whether the directory has one (\<open>empty_name_finds_unused\<close>).
\<close>

theorem directory_put_lookup:
  assumes d: "dir_at m d p" and n: "good_name n" and j: "j < 256"
    and new: "\<forall>k < 64. \<not> has_name m (4096 * p + 64 * k) n"
    and e: "i < 64" "m (4096 * p + 64 * i) = 0"
  shows "\<exists>m'. directory_put m (get_inode d) n (int j) = Inr (m', 0) \<and> dir_at m' d p \<and>
    directory_lookup m' (get_inode d) n = Inr (int j) \<and>
    (\<forall>n'. good_name n' \<longrightarrow> n' \<noteq> n \<longrightarrow>
       directory_lookup m' (get_inode d) n' = directory_lookup m (get_inode d) n') \<and>
    load32 m' (64 + 24 * j) = load32 m (64 + 24 * j) + 1"
proof -
  let ?s = "4096 * p"
  have len: "length n \<le> 59" using n by (simp add: good_name_def)
  have p: "8192 \<le> ?s" using d by (simp add: dir_at_def)
  obtain i where i: "find (\<lambda>i. m (?s + 64 * i) = 0) [0..<64] = Some i"
    using e by (cases "find (\<lambda>i. m (?s + 64 * i) = 0) [0..<64]") (auto simp: find_None_iff)
  then have i64: "i < 64" "m (?s + 64 * i) = 0" by (auto simp: find_Some_iff)
  let ?a = "?s + 64 * i"
  let ?m = "put_entry m ?a n j"
  have "find (\<lambda>i. has_name m (?s + 64 * i) n) [0..<64] = None" using new by (simp add: find_None_iff)
  then have none: "page_lookup m ?s n = - ENOENT" by (simp add: page_lookup_def)
  have put: "directory_put m (get_inode d) n (int j) = Inr (?m, 0)"
    by (rule directory_put_entry [OF d _ j none i]) (use len in simp)
  have d': "dir_at ?m d p" by (rule dir_at_put [OF d j]) (use p in simp)
  have other: "?m b = m b" if "?s \<le> b" "b < ?a \<or> ?a + 64 \<le> b" for b
    by (rule put_entry_other [OF that(2)]) (use that(1) p j in simp)
  have same: "has_name ?m (?s + 64 * k) n' = has_name m (?s + 64 * k) n'"
    if "k \<noteq> i" "length n' \<le> 59" for k n'
  proof -
    have "?m (?s + 64 * k + x) = m (?s + 64 * k + x)" if "x < 64" for x
      using \<open>k \<noteq> i\<close> that by (intro other) auto
    then show ?thesis using that(2) by (simp add: has_name_def)
  qed
  have at: "has_name ?m ?a n' \<longleftrightarrow> n' = n" if "good_name n'" for n'
    by (rule name_field_name [OF n that put_entry_name]) (use p j in simp_all)
  have before: "\<not> has_name m ?a n'" if "good_name n'" for n'
    using that i64(2) by (cases n') (auto simp: has_name_Cons good_name_def)
  have "find (\<lambda>k. has_name ?m (?s + 64 * k) n) [0..<64] = Some i"
    by (rule find_unique) (use same at n new len i64(1) in auto)
  moreover have "load32 ?m (?a + 60) = word_of_nat j" by (rule put_entry_inum) (use p j in simp_all)
  ultimately have "page_lookup ?m ?s n = int j" using j by (simp add: page_lookup_def sint_of_byte_nat)
  then have got: "directory_lookup ?m (get_inode d) n = Inr (int j)"
    using directory_lookup_page [OF d', of n] len by simp
  have rest: "directory_lookup ?m (get_inode d) n' = directory_lookup m (get_inode d) n'"
    if n': "good_name n'" "n' \<noteq> n" for n'
  proof -
    have l: "length n' \<le> 59" using n' by (simp add: good_name_def)
    have "has_name ?m (?s + 64 * k) n' = has_name m (?s + 64 * k) n'" for k
      using same [OF _ l, of k] at [OF n'(1)] before [OF n'(1)] n'(2) by (cases "k = i") auto
    moreover have "load32 ?m (?s + 64 * k + 60) = load32 m (?s + 64 * k + 60)" if "k \<noteq> i" for k
      using that by (intro load32_cong other) auto
    moreover have "k \<noteq> i" if "find (\<lambda>i. has_name m (?s + 64 * i) n') [0..<64] = Some k" for k
      using that before [OF n'(1)] by (auto simp: find_Some_iff)
    ultimately have "page_lookup ?m ?s n' = page_lookup m ?s n'"
      by (auto simp: page_lookup_def split: option.splits)
    then show ?thesis using directory_lookup_page [OF d', of n'] directory_lookup_page [OF d, of n'] l by simp
  qed
  have "load32 ?m (64 + 24 * j) = load32 m (64 + 24 * j) + 1"
  proof -
    have "load32 (store32 (write_bytes m ?a (name_field n)) (?a + 60) w) (64 + 24 * j) = load32 m (64 + 24 * j)" for w
      using p j by (intro load32_cong) (simp add: mem_simps)
    then show ?thesis by (simp add: put_entry_def Let_def mem_simps)
  qed
  then show ?thesis using put d' got rest by blast
qed

theorem directory_put_lookup_witness:
  "\<exists>m'. directory_put ((\<lambda>_. 0)(76 := 2)) (get_inode 0) [97] 1 = Inr (m', 0) \<and>
     directory_lookup m' (get_inode 0) [97] = Inr 1"
proof -
  let ?m = "(\<lambda>_. 0)(76 := 2) :: mem"
  have "dir_at ?m 0 2"
    by (simp add: dir_at_def inode_get_pnum_def ld32_def dptrs_of_def get_inode_def get_inode_base_def
        get_inode_bitmap_def NUFS_SIZE_def load32_def)
  moreover have "good_name [97]" by (simp add: good_name_def)
  moreover have "\<forall>k < 64. \<not> has_name ?m (4096 * 2 + 64 * k) [97]" by (simp add: has_name_def)
  ultimately show ?thesis using directory_put_lookup [of ?m 0 2 "[97]" 1 0] by auto
qed

text \<open>
  The names outside the condition. The empty name finds the first unused entry. A name of 60 bytes is
  accepted, but not found in a directory whose entries all end in a NUL, as \<^verbatim>\<open>directory_put\<close> writes them.
\<close>

lemma empty_name_finds_unused:
  assumes "dir_at m d p"
  shows "directory_lookup m (get_inode d) [] = Inr
    (case find (\<lambda>i. m (4096 * p + 64 * i) = 0) [0..<64] of
       Some i \<Rightarrow> sint (load32 m (4096 * p + 64 * i + 60)) | None \<Rightarrow> - ENOENT)"
  using directory_lookup_page [OF assms, of "[]"] by (simp add: page_lookup_def has_name_Nil)

lemma long_name_not_stored:
  assumes "length n = 60" and "0 \<notin> set n" and "m (a + 59) = 0"
  shows "\<not> has_name m a n"
proof
  assume "has_name m a n"
  then have "n ! 59 = 0" using assms by (auto simp: has_name_def)
  moreover have "n ! 59 \<in> set n" by (rule nth_mem) (use assms(1) in simp)
  ultimately show False using assms(2) by simp
qed

lemma long_name_is_lost:
  assumes d: "dir_at m d p" and n: "length n = 60" "0 \<notin> set n" and j: "j < 256"
    and ends: "\<forall>k < 64. m (4096 * p + 64 * k + 59) = 0"
    and e: "find (\<lambda>i. m (4096 * p + 64 * i) = 0) [0..<64] = Some i"
  shows "\<exists>m'. directory_put m (get_inode d) n (int j) = Inr (m', 0) \<and>
    directory_lookup m' (get_inode d) n = Inr (- ENOENT)"
proof -
  let ?a = "4096 * p + 64 * i"
  let ?m = "put_entry m ?a n j"
  have p: "8192 \<le> 4096 * p" using d by (simp add: dir_at_def)
  have lost: "page_lookup m' (4096 * p) n = - ENOENT"
    if "\<forall>k < 64. m' (4096 * p + 64 * k + 59) = 0" for m'
    using that long_name_not_stored [OF n] by (auto simp: page_lookup_def find_Some_iff split: option.split)
  have "?m (4096 * p + 64 * k + 59) = 0" if k: "k < 64" for k
  proof (cases "k = i")
    case True
    have "?m (?a + 59) = name_field n ! 59" by (rule put_entry_name) (use p j in simp_all)
    then show ?thesis using True n(1) by (simp add: name_field_def nth_append)
  next
    case False
    have "?m (4096 * p + 64 * k + 59) = m (4096 * p + 64 * k + 59)"
      by (rule put_entry_other) (use False p j in auto)
    then show ?thesis using ends k by simp
  qed
  then have "page_lookup ?m (4096 * p) n = - ENOENT" using lost by blast
  moreover have "dir_at ?m d p" by (rule dir_at_put [OF d j]) (use p in simp)
  ultimately have "directory_lookup ?m (get_inode d) n = Inr (- ENOENT)"
    using directory_lookup_page [of ?m d p n] n(1) by simp
  moreover have "directory_put m (get_inode d) n (int j) = Inr (?m, 0)"
    by (rule directory_put_entry [OF d _ j lost e]) (use n ends in simp_all)
  ultimately show ?thesis by blast
qed

section \<open>Paths\<close>

lemma s_split_Nil [simp]: "s_split [] d = []"
  by (subst s_split.simps) simp

lemma s_split_step:
  "xs \<noteq> [] \<Longrightarrow> s_split xs d =
     takeWhile (\<lambda>c. c \<noteq> d) xs # s_split (drop 1 (dropWhile (\<lambda>c. c \<noteq> d) xs)) d"
proof -
  assume xs: "xs \<noteq> []"
  let ?t = "takeWhile (\<lambda>c. c \<noteq> d) xs" and ?r = "dropWhile (\<lambda>c. c \<noteq> d) xs"
  have split: "xs = ?t @ ?r" by simp
  have t: "take (length ?t) xs = ?t" and dr: "drop (length ?t) xs = ?r"
    by (metis append_eq_conv_conj split)+
  show ?thesis
  proof (cases "length ?t < length xs")
    case True
    then have "drop (length ?t + 1) xs = drop 1 ?r" by (metis add.commute drop_drop dr)
    then show ?thesis using xs True t by (subst s_split.simps) (simp add: Let_def s_cons_def)
  next
    case False
    then have r: "?r = []" by (metis dr drop_all not_less)
    show ?thesis
      unfolding r using xs False t by (subst s_split.simps) (simp add: Let_def s_cons_def dr r)
  qed
qed

text \<open>
  \<^verbatim>\<open>s_split\<close> loses nothing but a trailing delimiter: its parts contain no delimiter, and the parts
  with a delimiter after each are the text, with one added when the text did not end in one.
\<close>

theorem s_split_join:
  "d \<notin> set (concat (s_split str d)) \<and>
   concat (map (\<lambda>part. part @ [d]) (s_split str d)) =
     str @ (if str = [] \<or> last str = d then [] else [d])"
proof (induction str rule: length_induct)
  case (1 xs)
  show ?case
  proof (cases "xs = []")
    case False
    let ?t = "takeWhile (\<lambda>c. c \<noteq> d) xs" and ?r = "dropWhile (\<lambda>c. c \<noteq> d) xs"
    note step = s_split_step [OF False, of d]
    have t: "d \<notin> set ?t" by (auto dest: set_takeWhileD)
    show ?thesis
    proof (cases ?r)
      case Nil
      then have "xs = ?t" by (metis append_Nil2 takeWhile_dropWhile_id)
      then have "last xs \<noteq> d" using t False by (metis last_in_set)
      then show ?thesis using step t Nil False \<open>xs = ?t\<close> by simp
    next
      case (Cons c rest)
      then have c: "c = d" using hd_dropWhile [of "\<lambda>c. c \<noteq> d" xs] by auto
      obtain t where t': "t = ?t" by simp
      have xs: "xs = t @ d # rest" using takeWhile_dropWhile_id [of "\<lambda>c. c \<noteq> d" xs] Cons c t' by simp
      have st: "s_split xs d = t # s_split rest d" using step Cons t' by simp
      have "length rest < length xs" using xs by simp
      then have "d \<notin> set (concat (s_split rest d)) \<and> concat (map (\<lambda>part. part @ [d]) (s_split rest d)) =
        rest @ (if rest = [] \<or> last rest = d then [] else [d])" using 1 by blast
      then show ?thesis using t unfolding st t' [symmetric] by (auto simp: xs)
    qed
  qed simp
qed

text \<open>
  A path starts with an empty part, which \<^verbatim>\<open>tree_lookup\<close> resolves through an unused entry of the
  root directory. So when all 64 entries of the root are in use, every absolute path, also \<^verbatim>\<open>/\<close>
  itself and every existing file, is reported as missing.
\<close>

theorem full_root_hides_everything:
  assumes d: "dir_at m 0 p" and full: "\<forall>k < 64. m (4096 * p + 64 * k) \<noteq> 0"
  shows "tree_lookup m (47 # path) = Inr (- ENOENT) \<and>
    storage_stat m (47 # path) = Inr (- ENOENT, None) \<and>
    storage_read m (47 # path) sz off = Inr (- ENOENT, [])"
proof -
  have "page_lookup m (4096 * p) [] = - ENOENT"
    using full by (simp add: page_lookup_def has_name_Nil find_None_iff split: option.splits)
       (auto simp: find_Some_iff)
  then have "directory_lookup m (get_inode 0) [] = Inr (- ENOENT)"
    using directory_lookup_page [OF d, of "[]"] by simp
  then have "tree_lookup m (47 # path) = Inr (- ENOENT)"
    by (simp add: tree_lookup_def s_split_step ENOENT_def)
  then show ?thesis by (simp add: storage_stat_def storage_read_def ENOENT_def)
qed

theorem full_root_hides_everything_witness:
  "tree_lookup (\<lambda>a. if a < 8192 then (if a = 76 then 2 else 0) else 1) [47] = Inr (-2)"
proof -
  let ?m = "(\<lambda>a. if a < 8192 then (if a = 76 then 2 else 0) else 1) :: mem"
  have "dir_at ?m 0 2"
    by (simp add: dir_at_def inode_get_pnum_def ld32_def dptrs_of_def get_inode_def get_inode_base_def
        get_inode_bitmap_def NUFS_SIZE_def load32_def)
  from full_root_hides_everything [OF this, of "[]"] show ?thesis by (simp add: ENOENT_def)
qed

section \<open>Data pages\<close>

lemma ld32_in: "a + 4 \<le> 1048576 \<Longrightarrow> ld32 m (int a) = Inr (sint (load32 m a))"
  by (simp add: ld32_def NUFS_SIZE_def)

text \<open>
  \<^verbatim>\<open>storage_write\<close> stores the data of a file in the page whose number is the number of its
  inode, not in a page the inode owns. So writing a page of zeros to a file whose inode number
  is the page of a directory (on a new image the root directory has page 2 and the second
  file gets inode 2) empties that directory.
\<close>

theorem write_erases_directory:
  assumes tr: "storage_truncate m path 4096 = Inr (m1, rv)" "0 \<le> rv"
    and look: "tree_lookup m1 path = Inr (int p)" and d: "dir_at m1 d p"
  shows "\<exists>m'. storage_write m path (replicate 4096 0) 0 = Inr (m', 4096) \<and> dir_at m' d p \<and>
    (\<forall>n. good_name n \<longrightarrow> directory_lookup m' (get_inode d) n = Inr (- ENOENT))"
proof -
  have p: "4096 * p + 4096 \<le> 1048576" "2 \<le> p" "0 \<le> d" "d < 256" using d by (simp_all add: dir_at_def)
  let ?m = "write_bytes m1 (4096 * p) (replicate 4096 0)"
  have a: "pages_get_page (int p) + 0 = int (4096 * p)" by (simp add: pages_get_page_def)
  have "st_bytes m1 (int (4096 * p)) (replicate 4096 0) = Inr ?m"
    unfolding st_bytes_def nat_int using p(1) by (simp add: NUFS_SIZE_def)
  then have w: "storage_write m path (replicate 4096 0) 0 = Inr (?m, 4096)"
    using tr look a by (simp add: storage_write_def to_int_def)
  have z: "?m (4096 * p + k) = 0" if "k < 4096" for k using that by (simp add: write_bytes_in)
  obtain e where e: "d = int e" "e < 256" using p(3,4) by (auto elim: nonneg_int_cases)
  have b: "dptrs_of (get_inode (int e)) 0 = int (76 + 24 * e)"
    by (simp add: dptrs_of_def get_inode_def get_inode_base_def get_inode_bitmap_def)
  have "load32 ?m (76 + 24 * e) = load32 m1 (76 + 24 * e)"
    using p(2) e(2) by (intro load32_cong) (simp add: write_bytes_other)
  then have d': "dir_at ?m d p" using d e by (simp add: dir_at_def inode_get_pnum_def b ld32_in del: of_nat_add)
  have "directory_lookup ?m (get_inode d) n = Inr (- ENOENT)" if n: "good_name n" for n
  proof -
    have "\<not> has_name ?m (4096 * p + 64 * k) n" if "k < 64" for k
      using n z [of "64 * k"] that by (cases n) (auto simp: has_name_Cons good_name_def)
    then have "find (\<lambda>k. has_name ?m (4096 * p + 64 * k) n) [0..<64] = None" by (simp add: find_None_iff)
    then show ?thesis
      using directory_lookup_page [OF d', of n] n by (simp add: page_lookup_def good_name_def)
  qed
  then show ?thesis using w d' by blast
qed

text \<open>An image whose root, in page 2, has one file \<^verbatim>\<open>b\<close> with inode 2.\<close>

definition one_file :: "mem \<Rightarrow> bool" where
  "one_file m \<longleftrightarrow> load32 m 76 = 2 \<and> m 8192 = 98 \<and> m 8193 = 0 \<and> m 8256 = 0 \<and>
     load32 m 8252 = 2 \<and> load32 m 8316 = 0"

lemma one_file_lookup:
  assumes "one_file m"
  shows "dir_at m 0 2" and "tree_lookup m [47, 98] = Inr 2"
proof -
  have l: "ld32 m 76 = Inr (sint (load32 m 76))" using ld32_in [of 76 m] by simp
  show d: "dir_at m 0 2"
    using assms l
    by (simp add: dir_at_def inode_get_pnum_def dptrs_of_def get_inode_def get_inode_base_def
        get_inode_bitmap_def one_file_def)
  have "find (\<lambda>i. has_name m (8192 + 64 * i) []) [0..<64] = Some 1"
    using assms by (intro find_upt) (auto simp: has_name_Nil one_file_def)
  then have "directory_lookup m (get_inode 0) [] = Inr 0"
    using directory_lookup_page [OF d, of "[]"] assms by (simp add: page_lookup_def one_file_def)
  moreover have "find (\<lambda>i. has_name m (8192 + 64 * i) [98]) [0..<64] = Some 0"
    using assms by (intro find_upt) (auto simp: has_name_Nil has_name_Cons one_file_def)
  then have "directory_lookup m (get_inode 0) [98] = Inr 2"
    using directory_lookup_page [OF d, of "[98]"] assms by (simp add: page_lookup_def one_file_def)
  ultimately show "tree_lookup m [47, 98] = Inr 2" by (simp add: tree_lookup_def s_split_step)
qed

definition ex_image :: mem where
  "ex_image = (\<lambda>_. 0)(76 := 2, 124 := 5, 8192 := 98, 8252 := 2)"

lemma ex_image_one_file: "one_file ex_image" "one_file (store32 ex_image 120 4096)"
  by (simp_all add: one_file_def ex_image_def load32_def store32_def)

lemma ex_image_truncate: "storage_truncate ex_image [47, 98] 4096 = Inr (store32 ex_image 120 4096, 0)"
proof -
  have n: "get_inode 2 = 112" by (simp add: get_inode_def get_inode_base_def get_inode_bitmap_def)
  have l: "ld32 ex_image 120 = Inr 0" "ld32 ex_image 124 = Inr 5" "ld32 ex_image 128 = Inr 0"
    by (simp_all add: ld32_def NUFS_SIZE_def load32_def ex_image_def)
  have p: "inode_get_pnum ex_image 112 0 = Inr 5" "inode_get_pnum ex_image 112 1 = Inr 0"
    using l by (simp_all add: inode_get_pnum_def dptrs_of_def)
  have "pages_owned_loop ex_image 112 1 1 = Inr 1" by (subst pages_owned_loop.simps) (simp add: p)
  then have "pages_owned ex_image 112 = Inr 1"
    unfolding pages_owned_def by (subst pages_owned_loop.simps) (simp add: p)
  then have "grow_inode ex_image 112 4096 = Inr (ex_image, 0)"
    using l(2) unfolding grow_inode_def by (subst grow_direct.simps) (simp add: dptrs_of_def)
  then show ?thesis
    using one_file_lookup(2) [OF ex_image_one_file(1)] l(1) n
    by (simp add: storage_truncate_def size_of_def to_int_def st32_def NUFS_SIZE_def)
qed

theorem write_erases_directory_witness:
  "\<exists>m'. storage_write ex_image [47, 98] (replicate 4096 0) 0 = Inr (m', 4096) \<and>
     directory_lookup m' (get_inode 0) [98] = Inr (-2)"
proof -
  have "tree_lookup (store32 ex_image 120 4096) [47, 98] = Inr (int 2)" "dir_at (store32 ex_image 120 4096) 0 2"
    using one_file_lookup [OF ex_image_one_file(2)] by simp_all
  from write_erases_directory [OF ex_image_truncate _ this] show ?thesis
    by (auto simp: good_name_def ENOENT_def dest: spec [of _ "[98]"])
qed

section \<open>Growing and truncating\<close>

lemma pages_owned_loop_total:
  assumes "\<And>j. i \<le> j \<Longrightarrow> j < 1026 \<Longrightarrow> \<exists>v. inode_get_pnum m nd j = Inr v"
  shows "\<exists>k \<ge> ans. pages_owned_loop m nd i ans = Inr k"
  using assms
proof (induction m nd i ans rule: pages_owned_loop.induct)
  case (1 m nd i ans)
  show ?case
  proof (cases "i < 1026")
    case True
    then obtain v where v: "inode_get_pnum m nd i = Inr v" using "1.prems" [of i] by auto
    show ?thesis
    proof (cases "0 < v")
      case pos: True
      then obtain k where "k \<ge> ans + 1" "pages_owned_loop m nd (i + 1) (ans + 1) = Inr k"
        using "1.IH" [OF True v pos] "1.prems" by fastforce
      then show ?thesis using True v pos by (subst pages_owned_loop.simps) (auto intro: exI [of _ k])
    next
      case False
      then show ?thesis using True v by (subst pages_owned_loop.simps) auto
    qed
  next
    case False
    then show ?thesis by (subst pages_owned_loop.simps) auto
  qed
qed

text \<open>
  \<^verbatim>\<open>pages_owned\<close> of an inode without an indirect page reads the page numbers from page 0, which
  holds the bitmaps. As soon as both direct pages are there and the first word of the page
  bitmap is positive, an inode of two pages counts as having three, and growing it to
  three pages reports success without allocating anything.
\<close>

theorem grow_inode_counts_bitmap:
  assumes n: "n < 256" and d: "0 < sint (load32 m (76 + 24 * n))" "0 < sint (load32 m (80 + 24 * n))"
    and ip: "load32 m (84 + 24 * n) = 0" and bm: "0 < sint (load32 m 0)"
    and sz: "sz \<le> 3 * 4096"
  shows "grow_inode m (get_inode (int n)) sz = Inr (m, 0)"
proof -
  let ?nd = "get_inode (int n)"
  have a: "dptrs_of ?nd 0 = int (76 + 24 * n)" "dptrs_of ?nd 1 = int (80 + 24 * n)" "iptr_of ?nd = int (84 + 24 * n)"
    by (simp_all add: dptrs_of_def iptr_of_def get_inode_def get_inode_base_def get_inode_bitmap_def)
  have l: "ld32 m (dptrs_of ?nd 0) = Inr (sint (load32 m (76 + 24 * n)))"
    "ld32 m (dptrs_of ?nd 1) = Inr (sint (load32 m (80 + 24 * n)))"
    "ld32 m (iptr_of ?nd) = Inr 0" "ld32 m 0 = Inr (sint (load32 m 0))"
    using n ip ld32_in [of 0 m] unfolding a by (simp_all add: ld32_in del: of_nat_add)
  have p: "inode_get_pnum m ?nd 0 = Inr (sint (load32 m (76 + 24 * n)))"
    "inode_get_pnum m ?nd 1 = Inr (sint (load32 m (80 + 24 * n)))" "inode_get_pnum m ?nd 2 = Inr (sint (load32 m 0))"
    using l by (simp_all add: inode_get_pnum_def pages_get_page_def)
  have total: "\<exists>v. inode_get_pnum m ?nd j = Inr v" if j: "2 \<le> j" "j < 1026" for j
  proof -
    have "4 * (j - 2) = int (4 * nat (j - 2))" "4 * nat (j - 2) + 4 \<le> 1048576" using j by auto
    then show ?thesis
      using l(3) j ld32_in [of "4 * nat (j - 2)" m] by (simp add: inode_get_pnum_def pages_get_page_def)
  qed
  obtain k where k: "3 \<le> k" "pages_owned_loop m ?nd 3 3 = Inr k"
    using pages_owned_loop_total [of 3 m ?nd 3] total by auto
  have "pages_owned_loop m ?nd 2 2 = Inr k" using k p(3) bm by (subst pages_owned_loop.simps) simp
  then have "pages_owned_loop m ?nd 1 1 = Inr k" using p(2) d(2) by (subst pages_owned_loop.simps) simp
  then have "pages_owned m ?nd = Inr k"
    unfolding pages_owned_def using p(1) d(1) by (subst pages_owned_loop.simps) simp
  then have "grow_direct m ?nd sz 0 = Inr (m, Some 0)"
    using l(1) k(1) sz by (subst grow_direct.simps) simp
  then show ?thesis using sz by (simp add: grow_inode_def)
qed

theorem grow_inode_counts_bitmap_witness:
  "grow_inode ((\<lambda>_. 0)(0 := 15, 100 := 2, 104 := 3)) (get_inode 1) (3 * 4096) =
   Inr ((\<lambda>_. 0)(0 := 15, 100 := 2, 104 := 3), 0)"
  using grow_inode_counts_bitmap [of 1 "(\<lambda>_. 0)(0 := 15, 100 := 2, 104 := 3)" "3 * 4096"]
  by (simp add: load32_def)

text \<open>
  \<^verbatim>\<open>storage_truncate\<close> returns a variable that it never assigned when the size does not change; so
  does \<^verbatim>\<open>storage_write\<close> when a write ends exactly at the end of the file.
\<close>

theorem truncate_same_size_undefined:
  assumes "tree_lookup m path = Inr (int n)" and "n < 256"
  shows "storage_truncate m path (sint (load32 m (72 + 24 * n))) = Inl Undefined \<and>
    (off + int (length buf) = sint (load32 m (72 + 24 * n)) \<longrightarrow> storage_write m path buf off = Inl Undefined)"
proof -
  have "size_of (get_inode (int n)) = int (72 + 24 * n)"
    by (simp add: size_of_def get_inode_def get_inode_base_def get_inode_bitmap_def)
  moreover have "ld32 m (int (72 + 24 * n)) = Inr (sint (load32 m (72 + 24 * n)))"
    using assms(2) by (intro ld32_in) simp
  ultimately have "storage_truncate m path (sint (load32 m (72 + 24 * n))) = Inl Undefined"
    using assms(1) by (simp add: storage_truncate_def)
  then show ?thesis by (simp add: storage_write_def)
qed

theorem truncate_same_size_undefined_witness: "storage_truncate ex_image [47, 98] 0 = Inl Undefined"
proof -
  have "tree_lookup ex_image [47, 98] = Inr (int 2)" using one_file_lookup(2) [OF ex_image_one_file(1)] by simp
  from truncate_same_size_undefined [OF this, where buf = "[]" and off = 0] show ?thesis
    by (simp add: ex_image_def load32_def)
qed

section \<open>Allocation\<close>

text \<open>
  On an image that \<^verbatim>\<open>pages_init\<close> has prepared, any number of calls of \<^verbatim>\<open>alloc_page\<close> returns: the
  results are -1 or numbers of free pages, all different and never 0 or 1, the pages of the
  bitmaps and the inodes; the same holds for \<^verbatim>\<open>alloc_inode\<close> and the inode bitmap.
\<close>

theorem alloc_series:
  "(\<exists>m0 m1 ps. pages_init m = Inr m0 \<and> pages.alloc_many k m0 = Inr (m1, ps) \<and> length ps = k \<and>
      distinct (filter (\<lambda>p. p \<noteq> -1) ps) \<and> set ps \<subseteq> {-1} \<union> {p. 2 \<le> p \<and> p < 256 \<and> \<not> bm_bit m 0 (nat p)}) \<and>
   (\<exists>m1 is. inodes.alloc_many k m = Inr (m1, is) \<and> length is = k \<and>
      distinct (filter (\<lambda>p. p \<noteq> -1) is) \<and> set is \<subseteq> {-1} \<union> {p. 0 \<le> p \<and> p < 256 \<and> \<not> bm_bit m 32 (nat p)})"
proof
  from bitmap_set_bit [of 0 0 m 1] obtain ma where a: "bitmap_set m 0 0 1 = Inr ma"
    "\<forall>j. bm_bit ma 0 j \<longleftrightarrow> j = 0 \<or> bm_bit m 0 j" by (auto simp: NUFS_SIZE_def)
  from bitmap_set_bit [of 0 1 ma 1] obtain m0 where b: "bitmap_set ma 0 1 1 = Inr m0"
    "\<forall>j. bm_bit m0 0 j \<longleftrightarrow> j = 1 \<or> bm_bit ma 0 j" by (auto simp: NUFS_SIZE_def)
  have init: "pages_init m = Inr m0" using a(1) b(1) by (simp add: pages_init_def get_pages_bitmap_def)
  obtain m1 ps where ps: "pages.alloc_many k m0 = Inr (m1, ps)" "length ps = k" "distinct (filter (\<lambda>p. p \<noteq> -1) ps)"
    "\<forall>p \<in> set ps. p = -1 \<or> (0 \<le> p \<and> p < int 256 \<and> \<not> bm_bit m0 0 (nat p) \<and> bm_bit m1 0 (nat p))"
    using pages.alloc_many_distinct [of k m0] by blast
  have "2 \<le> p \<and> p < 256 \<and> \<not> bm_bit m 0 (nat p)" if "p \<in> set ps" "p \<noteq> -1" for p
  proof -
    have p: "0 \<le> p" "p < 256" "\<not> bm_bit m0 0 (nat p)" using ps(4) that by auto
    then have "nat p \<noteq> 0" "nat p \<noteq> 1" "\<not> bm_bit m 0 (nat p)" using a(2) b(2) by metis+
    then show ?thesis using p by auto
  qed
  then show "\<exists>m0 m1 ps. pages_init m = Inr m0 \<and> pages.alloc_many k m0 = Inr (m1, ps) \<and> length ps = k \<and>
      distinct (filter (\<lambda>p. p \<noteq> -1) ps) \<and> set ps \<subseteq> {-1} \<union> {p. 2 \<le> p \<and> p < 256 \<and> \<not> bm_bit m 0 (nat p)}"
    using init ps by blast
next
  show "\<exists>m1 is. inodes.alloc_many k m = Inr (m1, is) \<and> length is = k \<and>
      distinct (filter (\<lambda>p. p \<noteq> -1) is) \<and> set is \<subseteq> {-1} \<union> {p. 0 \<le> p \<and> p < 256 \<and> \<not> bm_bit m 32 (nat p)}"
    using inodes.alloc_many_distinct [of k m] by fastforce
qed

end
