(* ===== verification/Heap.thy ===== *)
theory Heap
  imports Prelude
begin

text \<open>
  The machine below the allocators of \<^verbatim>\<open>hw08\<close> and \<^verbatim>\<open>chal2\<close>: byte-addressed memory with 64-bit cells, the
  set of mapped bytes, and \<^verbatim>\<open>mmap\<close>/\<^verbatim>\<open>munmap\<close>. Which address \<^verbatim>\<open>mmap\<close> returns is up to the operating
  system and is a part of the state (\<open>hp_os\<close>); \<open>mmap_ok\<close> is what its documentation promises. An
  access to a byte that is not mapped is an error. The locale \<open>block_pool\<close> is the contract of an
  allocator over a set of disjoint blocks.
\<close>

section \<open>64-bit cells\<close>

definition load64 :: "mem \<Rightarrow> nat \<Rightarrow> 64 word" where
  "load64 m a = ucast (load32 m a) OR push_bit 32 (ucast (load32 m (a + 4)))"

definition store64 :: "mem \<Rightarrow> nat \<Rightarrow> 64 word \<Rightarrow> mem" where
  "store64 m a w = store32 (store32 m a (ucast w)) (a + 4) (ucast (drop_bit 32 w))"

lemma load64_store64_same [mem_simps]: "load64 (store64 m a w) a = w"
proof -
  have "ucast (ucast w :: 32 word) OR push_bit 32 (ucast (ucast (drop_bit 32 w) :: 32 word)) = w"
    by (rule bit_word_eqI) (auto simp: bit_simps)
  then show ?thesis by (simp add: load64_def store64_def mem_simps)
qed

lemma load64_store64_other [mem_simps]:
  "a + 8 \<le> b \<or> b + 8 \<le> a \<Longrightarrow> load64 (store64 m a w) b = load64 m b"
  by (auto simp: load64_def store64_def mem_simps)

lemma store64_other [mem_simps]: "b < a \<or> a + 8 \<le> b \<Longrightarrow> store64 m a w b = m b"
  by (auto simp: store64_def mem_simps)

lemma load64_cong: "(\<And>i. i < 8 \<Longrightarrow> m (a + i) = m' (a + i)) \<Longrightarrow> load64 m a = load64 m' a"
proof -
  assume eq: "\<And>i. i < 8 \<Longrightarrow> m (a + i) = m' (a + i)"
  have "load32 m a = load32 m' a" by (rule load32_cong) (use eq in simp)
  moreover have "load32 m (a + 4) = load32 m' (a + 4)"
    by (rule load32_cong) (use eq [of "4 + _"] in \<open>simp add: add.assoc\<close>)
  ultimately show ?thesis by (simp add: load64_def)
qed

section \<open>Mapped memory\<close>

record heap =
  hp_mem :: mem
  hp_mapped :: "nat \<Rightarrow> bool"
  hp_os :: "(nat \<Rightarrow> bool) \<Rightarrow> nat \<Rightarrow> nat option"

definition round_page :: "nat \<Rightarrow> nat" where
  "round_page n = (n + 4095) div 4096 * 4096"

definition mapped_range :: "heap \<Rightarrow> nat \<Rightarrow> nat \<Rightarrow> bool" where
  "mapped_range h a n \<longleftrightarrow> list_all (\<lambda>k. hp_mapped h (a + k)) [0..<n]"

definition peek :: "heap \<Rightarrow> nat \<Rightarrow> nat res" where
  "peek h a = (if mapped_range h a 8 then Inr (unat (load64 (hp_mem h) a)) else Inl OutOfBounds)"

definition poke :: "heap \<Rightarrow> nat \<Rightarrow> nat \<Rightarrow> heap res" where
  "poke h a v =
     (if mapped_range h a 8 then Inr (h\<lparr>hp_mem := store64 (hp_mem h) a (word_of_nat v)\<rparr>) else Inl OutOfBounds)"

text \<open>\<^verbatim>\<open>memcpy\<close> between two ranges that do not overlap.\<close>

definition copy_bytes :: "heap \<Rightarrow> nat \<Rightarrow> nat \<Rightarrow> nat \<Rightarrow> heap res" where
  "copy_bytes h dst src n =
     (if mapped_range h dst n \<and> mapped_range h src n
      then Inr (h\<lparr>hp_mem := write_bytes (hp_mem h) dst (read_bytes (hp_mem h) src n)\<rparr>) else Inl OutOfBounds)"

text \<open>The result of a failed \<^verbatim>\<open>mmap\<close> is never mapped, so the first write through it is an error.\<close>

definition mmap :: "heap \<Rightarrow> nat \<Rightarrow> (heap \<times> nat) res" where
  "mmap h n =
     (case hp_os h (hp_mapped h) n of
        None \<Rightarrow> Inl OutOfBounds
      | Some a \<Rightarrow>
          Inr (h\<lparr>hp_mapped := (\<lambda>b. hp_mapped h b \<or> (a \<le> b \<and> b < a + round_page n))\<rparr>, a))"

definition munmap :: "heap \<Rightarrow> nat \<Rightarrow> nat \<Rightarrow> heap" where
  "munmap h a n =
     (if a mod 4096 = 0
      then h\<lparr>hp_mapped := (\<lambda>b. hp_mapped h b \<and> \<not> (a \<le> b \<and> b < a + round_page n))\<rparr> else h)"

definition mmap_ok :: "((nat \<Rightarrow> bool) \<Rightarrow> nat \<Rightarrow> nat option) \<Rightarrow> bool" where
  "mmap_ok os \<longleftrightarrow>
     (\<forall>p n a. os p n = Some a \<longrightarrow>
        0 < a \<and> a mod 4096 = 0 \<and> a + round_page n \<le> 2 ^ 63 \<and> (\<forall>b. a \<le> b \<longrightarrow> b < a + round_page n \<longrightarrow> \<not> p b))"

lemma round_page_ge: "n \<le> round_page n"
proof -
  have "n + 4095 = (n + 4095) div 4096 * 4096 + (n + 4095) mod 4096" by simp
  moreover have "(n + 4095) mod 4096 < 4096" by simp
  ultimately show ?thesis unfolding round_page_def by linarith
qed

lemma mapped_range_iff: "mapped_range h a n \<longleftrightarrow> (\<forall>b. a \<le> b \<longrightarrow> b < a + n \<longrightarrow> hp_mapped h b)"
proof
  assume l: "mapped_range h a n"
  show "\<forall>b. a \<le> b \<longrightarrow> b < a + n \<longrightarrow> hp_mapped h b"
  proof (intro allI impI)
    fix b
    assume "a \<le> b" "b < a + n"
    then have "b - a \<in> set [0..<n]" "a + (b - a) = b" by auto
    then show "hp_mapped h b" using l by (metis list_all_iff mapped_range_def)
  qed
qed (auto simp: mapped_range_def list_all_iff)

section \<open>Blocks\<close>

type_synonym block = "nat \<times> nat"

definition apart :: "block \<Rightarrow> block \<Rightarrow> bool" where
  "apart x y \<longleftrightarrow> fst x + snd x \<le> fst y \<or> fst y + snd y \<le> fst x"

definition disj_blocks :: "block set \<Rightarrow> bool" where
  "disj_blocks B \<longleftrightarrow> (\<forall>x\<in>B. \<forall>y\<in>B. x \<noteq> y \<longrightarrow> apart x y)"

lemma disj_blocks_subset: "disj_blocks B \<Longrightarrow> C \<subseteq> B \<Longrightarrow> disj_blocks C"
  unfolding disj_blocks_def by blast

lemma disj_blocks_address:
  "disj_blocks B \<Longrightarrow> (p, k) \<in> B \<Longrightarrow> (p, k') \<in> B \<Longrightarrow> 0 < k \<Longrightarrow> 0 < k' \<Longrightarrow> k = k'"
  by (force simp: disj_blocks_def apart_def)

text \<open>What the client sees of a block: the bytes after the size.\<close>

definition payload :: "block \<Rightarrow> block" where
  "payload b = (fst b + 8, snd b - 8)"

lemma payload_inj_on: "(\<And>b. b \<in> L \<Longrightarrow> 8 \<le> snd b) \<Longrightarrow> inj_on payload L"
proof (rule inj_onI)
  fix b c
  assume "\<And>b. b \<in> L \<Longrightarrow> 8 \<le> snd b" "b \<in> L" "c \<in> L" "payload b = payload c"
  then have "8 \<le> snd b" "8 \<le> snd c" "payload b = payload c" by blast+
  then show "b = c" by (cases b; cases c) (simp add: payload_def)
qed

lemma payload_disj:
  assumes "disj_blocks L" "\<And>b. b \<in> L \<Longrightarrow> 8 \<le> snd b"
  shows "disj_blocks (payload ` L)"
  unfolding disj_blocks_def
proof (intro ballI impI)
  fix x y
  assume "x \<in> payload ` L" "y \<in> payload ` L" "x \<noteq> y"
  then obtain b c where bc: "b \<in> L" "c \<in> L" "b \<noteq> c" "x = payload b" "y = payload c" by auto
  then have "apart b c" using assms(1) by (simp add: disj_blocks_def)
  then show "apart x y" using assms(2) [OF bc(1)] assms(2) [OF bc(2)] by (auto simp: bc apart_def payload_def)
qed

datatype request = Alloc nat | Release nat

text \<open>
  An allocator over a state: \<open>inv s L\<close> says that the blocks in use are \<open>L\<close>, each the address that the
  client got and the number of bytes it may use; \<open>served\<close> are the sizes for which the laws hold.
\<close>

locale block_pool =
  fixes inv :: "'s \<Rightarrow> block set \<Rightarrow> bool"
    and alloc :: "'s \<Rightarrow> nat \<Rightarrow> ('s \<times> nat) res"
    and release :: "'s \<Rightarrow> nat \<Rightarrow> 's res"
    and served :: "nat \<Rightarrow> bool"
  assumes inv_disjoint: "inv s L \<Longrightarrow> disj_blocks L"
    and inv_size: "inv s L \<Longrightarrow> (p, k) \<in> L \<Longrightarrow> 0 < k"
    and alloc_law: "inv s L \<Longrightarrow> served n \<Longrightarrow> alloc s n = Inr (s', p) \<Longrightarrow>
      \<exists>k. n \<le> k \<and> (p, k) \<notin> L \<and> inv s' (insert (p, k) L)"
    and release_law: "inv s L \<Longrightarrow> (p, k) \<in> L \<Longrightarrow> \<exists>s'. release s p = Inr s' \<and> inv s' (L - {(p, k)})"
begin

text \<open>
  A client that keeps the pointers it got, with the sizes it asked for: it asks for a block
  or releases the block at some position of its list.
\<close>

fun run_client :: "request list \<Rightarrow> 's \<Rightarrow> (nat \<times> nat) list \<Rightarrow> ('s \<times> (nat \<times> nat) list) res" where
  "run_client [] s hs = Inr (s, hs)"
| "run_client (Alloc n # rs) s hs = bind_res (alloc s n) (\<lambda>(s, p). run_client rs s ((p, n) # hs))"
| "run_client (Release i # rs) s hs =
     (if i < length hs
      then bind_res (release s (fst (hs ! i))) (\<lambda>s. run_client rs s (take i hs @ drop (Suc i) hs))
      else run_client rs s hs)"

definition owns :: "block set \<Rightarrow> (nat \<times> nat) list \<Rightarrow> bool" where
  "owns L hs \<longleftrightarrow> distinct (map fst hs) \<and> (\<forall>(p, n) \<in> set hs. \<exists>k \<ge> n. (p, k) \<in> L)"

lemma owns_block: "owns L hs \<Longrightarrow> (p, n) \<in> set hs \<Longrightarrow> \<exists>k \<ge> n. (p, k) \<in> L"
  by (auto simp: owns_def)

lemma ownsI:
  "distinct (map fst hs) \<Longrightarrow> (\<And>p n. (p, n) \<in> set hs \<Longrightarrow> \<exists>k \<ge> n. (p, k) \<in> L) \<Longrightarrow> owns L hs"
  by (auto simp: owns_def)

lemma owns_alloc:
  assumes o: "owns L hs" and i: "inv s' (insert (p, k) L)" and n: "n \<le> k" and new: "(p, k) \<notin> L"
  shows "owns (insert (p, k) L) ((p, n) # hs)"
proof -
  have "p \<noteq> q" if h: "(q, j) \<in> set hs" for q j
  proof
    assume "p = q"
    then obtain k' where k': "(p, k') \<in> L" using owns_block [OF o h] by blast
    then have "k = k'"
      using disj_blocks_address [OF inv_disjoint [OF i]] inv_size [OF i] by blast
    then show False using k' new by simp
  qed
  then have "p \<notin> fst ` set hs" by force
  moreover have "distinct (map fst hs)" using o by (simp add: owns_def)
  moreover have "\<exists>j' \<ge> j. (q, j') \<in> insert (p, k) L" if "(q, j) \<in> set ((p, n) # hs)" for q j
    using owns_block [OF o, of q j] that n by auto
  ultimately show ?thesis by (intro ownsI) auto
qed

lemma owns_release:
  assumes o: "owns L hs" and i: "i < length hs" and b: "(fst (hs ! i), k) \<in> L"
  shows "owns (L - {(fst (hs ! i), k)}) (take i hs @ drop (Suc i) hs)"
proof -
  let ?hs = "take i hs @ drop (Suc i) hs"
  have split: "hs = take i hs @ hs ! i # drop (Suc i) hs" using i by (rule id_take_nth_drop)
  have d: "distinct (map fst (take i hs @ hs ! i # drop (Suc i) hs))" using o split by (simp add: owns_def)
  then have out: "fst (hs ! i) \<notin> fst ` set ?hs" by auto
  have sub: "set ?hs \<subseteq> set hs" by (auto dest: in_set_takeD in_set_dropD)
  show ?thesis
  proof (rule ownsI)
    show "distinct (map fst ?hs)" using d by simp
    fix p n
    assume pn: "(p, n) \<in> set ?hs"
    then obtain k' where "n \<le> k'" "(p, k') \<in> L" using owns_block [OF o, of p n] sub by blast
    moreover have "p \<noteq> fst (hs ! i)" using out pn by (metis fst_conv image_eqI)
    ultimately show "\<exists>k' \<ge> n. (p, k') \<in> L - {(fst (hs ! i), k)}" by blast
  qed
qed

text \<open>Whatever the client does, what it holds is different blocks that are large enough.\<close>

lemma run_client_safe:
  "inv s L \<Longrightarrow> owns L hs \<Longrightarrow> (\<And>n. Alloc n \<in> set rs \<Longrightarrow> served n) \<Longrightarrow> run_client rs s hs = Inr (s', hs') \<Longrightarrow> \<exists>L'. inv s' L' \<and> owns L' hs'"
proof (induction rs s hs arbitrary: L rule: run_client.induct)
  case (2 n rs s hs)
  then obtain s1 p where a: "alloc s n = Inr (s1, p)" "run_client rs s1 ((p, n) # hs) = Inr (s', hs')"
    by (auto simp: bind_res_eq_Inr)
  from alloc_law [OF "2.prems"(1) _ a(1)] "2.prems"(3) [of n] obtain k where
    k: "n \<le> k" "(p, k) \<notin> L" "inv s1 (insert (p, k) L)" by auto
  show ?case
    using "2.IH" [OF a(1) refl k(3) owns_alloc [OF "2.prems"(2) k(3,1,2)] _ a(2)] "2.prems"(3) by simp
next
  case (3 i rs s hs)
  show ?case
  proof (cases "i < length hs")
    case True
    then obtain s1 where r: "release s (fst (hs ! i)) = Inr s1"
      "run_client rs s1 (take i hs @ drop (Suc i) hs) = Inr (s', hs')"
      using "3.prems"(4) by (auto simp: bind_res_eq_Inr)
    obtain p n where h: "hs ! i = (p, n)" by fastforce
    then have "(p, n) \<in> set hs" using True by (metis nth_mem)
    then obtain k where k: "(fst (hs ! i), k) \<in> L" using owns_block [OF "3.prems"(2)] h by auto
    from release_law [OF "3.prems"(1) k] r(1) have "inv s1 (L - {(fst (hs ! i), k)})" by auto
    then show ?thesis
      using "3.IH"(1) [OF True r(1) _ owns_release [OF "3.prems"(2) True k] _ r(2)] "3.prems"(3) by simp
  next
    case False
    then show ?thesis using "3.IH"(2) "3.prems" by auto
  qed
qed auto

end

text \<open>
  An allocator whose blocks are cells that begin with their size: the client gets the address
  behind the size. Its laws are stated on the cells and give the laws of a pool of blocks.
\<close>

locale cell_pool =
  fixes ok :: "'s \<Rightarrow> block set \<Rightarrow> bool"
    and alloc :: "'s \<Rightarrow> nat \<Rightarrow> ('s \<times> nat) res"
    and release :: "'s \<Rightarrow> nat \<Rightarrow> 's res"
    and served :: "nat \<Rightarrow> bool"
  assumes ok_disjoint: "ok s L \<Longrightarrow> disj_blocks L"
    and ok_size: "ok s L \<Longrightarrow> b \<in> L \<Longrightarrow> 8 < snd b"
    and alloc_cell: "ok s L \<Longrightarrow> served n \<Longrightarrow> alloc s n = Inr (s', p) \<Longrightarrow>
      \<exists>b. p = fst b + 8 \<and> n + 8 \<le> snd b \<and> b \<notin> L \<and> ok s' (insert b L)"
    and release_cell: "ok s L \<Longrightarrow> b \<in> L \<Longrightarrow> \<exists>s'. release s (fst b + 8) = Inr s' \<and> ok s' (L - {b})"
begin

definition inv :: "'s \<Rightarrow> block set \<Rightarrow> bool" where
  "inv s P \<longleftrightarrow> (\<exists>L. ok s L \<and> P = payload ` L)"

lemma ok_payload:
  assumes "ok s L"
  shows "inj_on payload L" "disj_blocks (payload ` L)"
proof -
  have "8 \<le> snd b" if "b \<in> L" for b using ok_size [OF assms that] by simp
  then show "inj_on payload L" "disj_blocks (payload ` L)"
    using ok_disjoint [OF assms] by (auto intro!: payload_inj_on payload_disj)
qed

lemma inv_alloc:
  assumes "inv s P" "served n" "alloc s n = Inr (s', p)"
  shows "\<exists>k. n \<le> k \<and> (p, k) \<notin> P \<and> inv s' (insert (p, k) P)"
proof -
  obtain L where L: "ok s L" "P = payload ` L" using assms(1) by (auto simp: inv_def)
  from alloc_cell [OF L(1) assms(2,3)] obtain b where
    b: "p = fst b + 8" "n + 8 \<le> snd b" "b \<notin> L" "ok s' (insert b L)" by blast
  have e: "(p, snd b - 8) = payload b" using b(1) by (simp add: payload_def)
  have "payload b \<notin> P" using ok_payload(1) [OF b(4)] b(3) L(2) by auto
  moreover have "inv s' (insert (payload b) P)" using b(4) L(2) unfolding inv_def by (metis image_insert)
  ultimately show ?thesis using b(2) e by (intro exI [of _ "snd b - 8"]) simp
qed

lemma inv_release:
  assumes "inv s P" "(p, k) \<in> P"
  shows "\<exists>s'. release s p = Inr s' \<and> inv s' (P - {(p, k)})"
proof -
  obtain L where L: "ok s L" "P = payload ` L" using assms(1) by (auto simp: inv_def)
  obtain b where b: "b \<in> L" "(p, k) = payload b" using assms(2) L(2) by auto
  have e: "payload ` (L - {b}) = P - {payload b}"
    using inj_on_image_set_diff [OF ok_payload(1) [OF L(1)], of L "{b}"] b(1) L(2) by simp
  obtain s' where s': "release s (fst b + 8) = Inr s'" "ok s' (L - {b})" using release_cell [OF L(1) b(1)] by blast
  have "inv s' (P - {(p, k)})" unfolding inv_def b(2) using s'(2) e by metis
  then show ?thesis using s'(1) b(2) by (intro exI [of _ s']) (simp add: payload_def)
qed

end

sublocale cell_pool \<subseteq> pool: block_pool inv alloc release served
proof
  show "disj_blocks P" if "inv s P" for s P using that ok_payload(2) by (auto simp: inv_def)
  show "0 < k" if "inv s P" "(p, k) \<in> P" for s P p k
    using that ok_size by (fastforce simp: inv_def payload_def)
qed (use inv_alloc inv_release in blast)+

end
