(* ===== verification/OptMalloc.thy ===== *)
theory OptMalloc
  imports Heap
begin

text \<open>
  The binned allocator of \<^verbatim>\<open>chal2/starter-ch02/opt_malloc.c\<close>. Bin \<open>i\<close> is a linked list of free cells of
  \<open>2\<^sup>(i+5)\<close> bytes; an empty bin takes a cell of the next one and splits it, the last bin maps a new
  megabyte. A cell begins with its size, which stays in front of the block while it is in use.
  The lock makes every call atomic, so a call is a function on the state. Proved: the bins and
  the blocks in use never overlap, whatever the client does.
\<close>

section \<open>Model\<close>

definition FL_CELL :: nat where "FL_CELL = 24"
definition HEAP_SIZE :: nat where "HEAP_SIZE = 1048576"

record opt =
  op_heap :: heap
  heads :: "nat list"

definition opt_peek :: "opt \<Rightarrow> nat \<Rightarrow> nat res" where
  "opt_peek s a = peek (op_heap s) a"

definition opt_poke :: "opt \<Rightarrow> nat \<Rightarrow> nat \<Rightarrow> opt res" where
  "opt_poke s a v = bind_res (poke (op_heap s) a v) (\<lambda>h. Inr (s\<lparr>op_heap := h\<rparr>))"

definition make_fl_cell :: "opt \<Rightarrow> nat \<Rightarrow> nat \<Rightarrow> opt res" where
  "make_fl_cell s addr sz =
     bind_res (opt_poke s addr sz) (\<lambda>s.
     bind_res (opt_poke s (addr + 16) 0) (\<lambda>s.
       opt_poke s (addr + 8) 0))"

text \<open>\<^verbatim>\<open>fl_length\<close> follows the chain; it returns only if the chain ends.\<close>

partial_function (option) fl_length :: "heap \<Rightarrow> nat \<Rightarrow> nat res option" where
  "fl_length h cell =
     (if cell = 0 then Some (Inr 0)
      else
        (case peek h (cell + 8) of
           Inl e \<Rightarrow> Some (Inl e)
         | Inr next \<Rightarrow>
             Option.bind (fl_length h next) (\<lambda>r. Some (bind_res r (\<lambda>k. Inr (1 + k))))))"

definition pop :: "opt \<Rightarrow> nat \<Rightarrow> (opt \<times> nat) res" where
  "pop s index =
     bind_res (rd (heads s) (int index)) (\<lambda>temp.
     if temp = 0 then Inl NullDeref
     else
       bind_res (opt_peek s (temp + 8)) (\<lambda>next.
       bind_res (wr (heads s) (int index) next) (\<lambda>hd. Inr (s\<lparr>heads := hd\<rparr>, temp))))"

definition insert_fl_cell :: "opt \<Rightarrow> nat \<Rightarrow> nat \<Rightarrow> opt res" where
  "insert_fl_cell s i cell =
     bind_res (rd (heads s) (int i)) (\<lambda>h.
     bind_res (opt_poke s (cell + 8) h) (\<lambda>s.
     bind_res (wr (heads s) (int i) cell) (\<lambda>hd. Inr (s\<lparr>heads := hd\<rparr>))))"

definition pull_from_above :: "opt \<Rightarrow> nat \<Rightarrow> opt res" where
  "pull_from_above s i =
     bind_res (pop s (i + 1)) (\<lambda>(s, snatched).
     let sz = 2 ^ (i + 5) in
     bind_res (opt_poke s snatched sz) (\<lambda>s.
     bind_res (make_fl_cell s (snatched + sz) sz) (\<lambda>s.
     bind_res (insert_fl_cell s i (snatched + sz)) (\<lambda>s.
       insert_fl_cell s i snatched))))"

function redistribute :: "opt \<Rightarrow> nat \<Rightarrow> opt res" where
  "redistribute s i =
     bind_res (rd (heads s) (int i)) (\<lambda>h.
     if h \<noteq> 0 then Inr s
     else if i = 15 then
       bind_res (mmap (op_heap s) HEAP_SIZE) (\<lambda>(hp, new_cell).
       bind_res (make_fl_cell (s\<lparr>op_heap := hp\<rparr>) new_cell HEAP_SIZE) (\<lambda>s.
       bind_res (wr (heads s) 15 new_cell) (\<lambda>hd. Inr (s\<lparr>heads := hd\<rparr>))))
     else if 15 < i then Inl OutOfBounds
     else bind_res (redistribute s (i + 1)) (\<lambda>s. pull_from_above s i))"
  by pat_completeness auto
termination by (relation "measure (\<lambda>(s, i). 16 - i)") auto

declare redistribute.simps [simp del]

function get_fl_index_loop :: "nat \<Rightarrow> nat \<Rightarrow> nat res" where
  "get_fl_index_loop sz i =
     (if i < 16 then if sz \<le> 2 ^ (i + 5) then Inr i else get_fl_index_loop sz (i + 1)
      else Inl AssertFailed)"
  by pat_completeness auto
termination by (relation "measure (\<lambda>(sz, i). 16 - i)") auto

declare get_fl_index_loop.simps [simp del]

definition get_fl_index :: "nat \<Rightarrow> nat res" where
  "get_fl_index sz = get_fl_index_loop sz 0"

definition xmalloc_helper :: "opt \<Rightarrow> nat \<Rightarrow> (opt \<times> nat) res" where
  "xmalloc_helper s req =
     (let sz = (if req < FL_CELL then FL_CELL else req) in
      if HEAP_SIZE < sz then
        bind_res (mmap (op_heap s) sz) (\<lambda>(hp, new_page).
        bind_res (opt_poke (s\<lparr>op_heap := hp\<rparr>) new_page sz) (\<lambda>s. Inr (s, new_page + 8)))
      else
        bind_res (get_fl_index sz) (\<lambda>fl_index.
        bind_res (redistribute s fl_index) (\<lambda>s.
        bind_res (pop s fl_index) (\<lambda>(s, designated).
        if designated = 0 then Inl AssertFailed else Inr (s, designated + 8)))))"

text \<open>\<^verbatim>\<open>size + sizeof(size_t)\<close> wraps around at \<open>2\<^sup>64\<close>.\<close>

definition xmalloc :: "opt \<Rightarrow> nat \<Rightarrow> (opt \<times> nat) res" where
  "xmalloc s sz = xmalloc_helper s (unat (word_of_nat sz + 8 :: 64 word))"

definition xfree_helper :: "opt \<Rightarrow> nat \<Rightarrow> opt res" where
  "xfree_helper s item =
     (let cell_addr = item - 8 in
      bind_res (opt_peek s cell_addr) (\<lambda>sz.
      if HEAP_SIZE < sz then Inr (s\<lparr>op_heap := munmap (op_heap s) cell_addr sz\<rparr>)
      else
        bind_res (get_fl_index sz) (\<lambda>fl_index.
          insert_fl_cell s fl_index cell_addr)))"

definition xfree :: "opt \<Rightarrow> nat \<Rightarrow> opt res" where
  "xfree s item = xfree_helper s item"

definition xrealloc_helper :: "opt \<Rightarrow> nat \<Rightarrow> nat \<Rightarrow> (opt \<times> nat) res" where
  "xrealloc_helper s item new_size =
     (if item = 0 then xmalloc_helper s (unat (word_of_nat new_size + 8 :: 64 word))
      else if new_size = 0 then bind_res (xfree_helper s item) (\<lambda>s. Inr (s, 0))
      else
        let new_size' = unat (word_of_nat new_size + 8 :: 64 word); cell_addr = item - 8 in
        bind_res (opt_peek s cell_addr) (\<lambda>sz.
        if new_size' \<le> sz then Inr (s, item)
        else
          bind_res (xmalloc_helper s new_size') (\<lambda>(s, new_item).
          bind_res (copy_bytes (op_heap s) new_item item (sz - 8)) (\<lambda>hp.
          bind_res (xfree_helper (s\<lparr>op_heap := hp\<rparr>) item) (\<lambda>s. Inr (s, new_item))))))"

definition xrealloc :: "opt \<Rightarrow> nat \<Rightarrow> nat \<Rightarrow> (opt \<times> nat) res" where
  "xrealloc s item new_size = xrealloc_helper s item new_size"

section \<open>The invariant\<close>

primrec chain :: "mem \<Rightarrow> nat \<Rightarrow> nat list \<Rightarrow> bool" where
  "chain m a [] \<longleftrightarrow> a = 0"
| "chain m a (x # xs) \<longleftrightarrow> a = x \<and> x \<noteq> 0 \<and> chain m (unat (load64 m (x + 8))) xs"

definition cells :: "(nat \<Rightarrow> nat list) \<Rightarrow> block set" where
  "cells fl = {b. \<exists>i < 16. snd b = 2 ^ (i + 5) \<and> fst b \<in> set (fl i)}"

text \<open>The bytes that belong to a block: a block with a mapping of its own has whole pages.\<close>

definition extent :: "nat \<Rightarrow> nat" where
  "extent n = (if HEAP_SIZE < n then round_page n else n)"

definition apart_ext :: "block \<Rightarrow> block \<Rightarrow> bool" where
  "apart_ext b c \<longleftrightarrow> apart (fst b, extent (snd b)) (fst c, extent (snd c))"

definition good_cell :: "heap \<Rightarrow> block \<Rightarrow> bool" where
  "good_cell h b \<longleftrightarrow>
     0 < fst b \<and> 32 \<le> snd b \<and> mapped_range h (fst b) (extent (snd b)) \<and>
     fst b + extent (snd b) \<le> 2 ^ 63 \<and> load64 (hp_mem h) (fst b) = word_of_nat (snd b) \<and>
     (if HEAP_SIZE < snd b then fst b mod 4096 = 0 else \<exists>i < 16. snd b = 2 ^ (i + 5))"

definition opt_ok :: "opt \<Rightarrow> (nat \<Rightarrow> nat list) \<Rightarrow> block set \<Rightarrow> bool" where
  "opt_ok s fl L \<longleftrightarrow>
     mmap_ok (hp_os (op_heap s)) \<and> length (heads s) = 16 \<and>
     (\<forall>i < 16. chain (hp_mem (op_heap s)) (heads s ! i) (fl i) \<and> distinct (fl i)) \<and>
     (\<forall>b \<in> cells fl \<union> L. good_cell (op_heap s) b) \<and> cells fl \<inter> L = {} \<and>
     (\<forall>b \<in> cells fl \<union> L. \<forall>c \<in> cells fl \<union> L. b \<noteq> c \<longrightarrow> apart_ext b c)"

lemma extent_ge: "n \<le> extent n"
  by (simp add: extent_def round_page_ge)

lemma extent_bin: "i < 16 \<Longrightarrow> extent (2 ^ (i + 5)) = 2 ^ (i + 5)"
proof -
  assume "i < 16"
  then have "(2::nat) ^ (i + 5) \<le> 2 ^ 20" by (intro power_increasing) auto
  then show ?thesis by (simp add: extent_def HEAP_SIZE_def)
qed

lemma bin_size: "i < 16 \<Longrightarrow> (32::nat) \<le> 2 ^ (i + 5) \<and> (2::nat) ^ (i + 5) \<le> HEAP_SIZE"
proof -
  assume "i < 16"
  then have "(2::nat) ^ (i + 5) \<le> 2 ^ 20" "(2::nat) ^ 5 \<le> 2 ^ (i + 5)" by (intro power_increasing; simp)+
  then show ?thesis by (simp add: HEAP_SIZE_def)
qed

lemma chain_cong: "(\<And>x. x \<in> set xs \<Longrightarrow> load64 m' (x + 8) = load64 m (x + 8)) \<Longrightarrow> chain m' a xs = chain m a xs"
  by (induction xs arbitrary: a) auto

lemma cells_push: "i < 16 \<Longrightarrow> cells (fl(i := x # fl i)) = insert (x, 2 ^ (i + 5)) (cells fl)"
  by (auto simp: cells_def split: if_splits)

lemma cells_pop:
  assumes "i < 16" and "fl i = x # xs" and "x \<notin> set xs"
  shows "insert (x, 2 ^ (i + 5)) (cells (fl(i := xs))) = cells fl" and "(x, 2 ^ (i + 5)) \<notin> cells (fl(i := xs))"
proof -
  have "fl(i := x # xs) = fl" using assms(2) by auto
  then show "insert (x, 2 ^ (i + 5)) (cells (fl(i := xs))) = cells fl"
    using cells_push [OF assms(1), of "fl(i := xs)" x] by simp
  show "(x, 2 ^ (i + 5)) \<notin> cells (fl(i := xs))"
    using assms(3) by (auto simp: cells_def split: if_splits)
qed

lemma opt_ok_good: "opt_ok s fl L \<Longrightarrow> (x, n) \<in> cells fl \<union> L \<Longrightarrow> good_cell (op_heap s) (x, n)"
  unfolding opt_ok_def by blast

text \<open>Changing memory only inside one block that is in use, which may be cut into pieces.\<close>

lemma apart_ext_sym: "apart_ext b c \<longleftrightarrow> apart_ext c b"
  by (auto simp: apart_ext_def apart_def)

text \<open>The contents of blocks that a step does not touch.\<close>

definition same_on :: "block set \<Rightarrow> mem \<Rightarrow> mem \<Rightarrow> bool" where
  "same_on L m m' \<longleftrightarrow> (\<forall>b \<in> L. \<forall>a. fst b \<le> a \<longrightarrow> a < fst b + extent (snd b) \<longrightarrow> m' a = m a)"

lemma same_on_refl [simp]: "same_on L m m"
  by (simp add: same_on_def)

lemma same_on_trans: "same_on L m m' \<Longrightarrow> same_on L m' m'' \<Longrightarrow> same_on L m m''"
  by (simp add: same_on_def)

lemma same_on_mono: "same_on L m m' \<Longrightarrow> K \<subseteq> L \<Longrightarrow> same_on K m m'"
  by (auto simp: same_on_def)

abbreviation memory :: "opt \<Rightarrow> mem" where
  "memory s \<equiv> hp_mem (op_heap s)"

lemma opt_ok_replace:
  assumes ok: "opt_ok s fl (insert b L)" and b: "b \<notin> L"
    and m: "\<And>a. a < fst b \<or> fst b + extent (snd b) \<le> a \<Longrightarrow> m' a = hp_mem (op_heap s) a"
    and B: "\<And>c. c \<in> B \<Longrightarrow> good_cell ((op_heap s)\<lparr>hp_mem := m'\<rparr>) c \<and>
        fst b \<le> fst c \<and> fst c + extent (snd c) \<le> fst b + extent (snd b)"
    and BB: "\<And>c d. c \<in> B \<Longrightarrow> d \<in> B \<Longrightarrow> c \<noteq> d \<Longrightarrow> apart_ext c d"
  shows "opt_ok (s\<lparr>op_heap := (op_heap s)\<lparr>hp_mem := m'\<rparr>\<rparr>) fl (B \<union> L)" and "B \<inter> (cells fl \<union> L) = {}"
    and "same_on L (memory s) m'"
proof -
  let ?C = "cells fl \<union> L" and ?h = "(op_heap s)\<lparr>hp_mem := m'\<rparr>"
  have bC: "b \<notin> ?C" using ok b by (auto simp: opt_ok_def)
  have ap: "apart_ext b c" if "c \<in> ?C" for c using ok that bC by (auto simp: opt_ok_def)
  have good: "good_cell (op_heap s) c" if "c \<in> ?C" for c using ok that by (auto simp: opt_ok_def)
  show "same_on L (memory s) m'"
    unfolding same_on_def
  proof (intro ballI allI impI m)
    fix c a
    assume "c \<in> L" "fst c \<le> a" "a < fst c + extent (snd c)"
    then show "a < fst b \<or> fst b + extent (snd b) \<le> a" using ap [of c] by (auto simp: apart_ext_def apart_def)
  qed
  have keep: "load64 m' (fst c + k) = load64 (hp_mem (op_heap s)) (fst c + k)"
    if c: "c \<in> ?C" and k: "k + 8 \<le> 32" for c k
  proof (rule load64_cong, rule m)
    fix i :: nat
    assume "i < 8"
    have "32 \<le> extent (snd c)" using good [OF c] extent_ge [of "snd c"] by (simp add: good_cell_def)
    then show "fst c + k + i < fst b \<or> fst b + extent (snd b) \<le> fst c + k + i"
      using ap [OF c] k \<open>i < 8\<close> by (auto simp: apart_ext_def apart_def)
  qed
  have good': "good_cell ?h c" if "c \<in> ?C" for c
    using good [OF that] keep [OF that, of 0] by (simp add: good_cell_def mapped_range_iff)
  have sep: "apart_ext c d" if "c \<in> B" "d \<in> ?C" for c d
    using ap [OF that(2)] B [OF that(1)] by (auto simp: apart_ext_def apart_def)
  show disj: "B \<inter> ?C = {}"
  proof -
    have "False" if "c \<in> B" "c \<in> ?C" for c
    proof -
      have "32 \<le> extent (snd c)" using good [OF that(2)] extent_ge [of "snd c"] by (simp add: good_cell_def)
      then show False using sep [OF that] by (auto simp: apart_ext_def apart_def)
    qed
    then show ?thesis by blast
  qed
  have ch: "chain m' (heads s ! i) (fl i) \<and> distinct (fl i)" if "i < 16" for i
  proof -
    have "load64 m' (x + 8) = load64 (hp_mem (op_heap s)) (x + 8)" if "x \<in> set (fl i)" for x
      using keep [of "(x, 2 ^ (i + 5))" 8] that \<open>i < 16\<close> by (auto simp: cells_def)
    then have "chain m' (heads s ! i) (fl i) = chain (hp_mem (op_heap s)) (heads s ! i) (fl i)" by (rule chain_cong)
    then show ?thesis using ok that by (simp add: opt_ok_def)
  qed
  have "apart_ext c d" if cd: "c \<in> cells fl \<union> (B \<union> L)" "d \<in> cells fl \<union> (B \<union> L)" "c \<noteq> d" for c d
  proof -
    have old: "c \<in> ?C \<Longrightarrow> d \<in> ?C \<Longrightarrow> apart_ext c d" using ok cd(3) by (simp add: opt_ok_def)
    consider "c \<in> B" "d \<in> B" | "c \<in> B" "d \<in> ?C" | "c \<in> ?C" "d \<in> B" | "c \<in> ?C" "d \<in> ?C" using cd(1,2) by blast
    then show ?thesis
      by cases (use BB cd(3) sep old apart_ext_sym in metis)+
  qed
  moreover have "mmap_ok (hp_os ?h)" "length (heads s) = 16" "cells fl \<inter> (B \<union> L) = {}"
    using ok disj by (auto simp: opt_ok_def)
  moreover have "good_cell ?h c" if "c \<in> cells fl \<union> (B \<union> L)" for c
    using that good' [of c] B [of c] by blast
  ultimately show "opt_ok (s\<lparr>op_heap := ?h\<rparr>) fl (B \<union> L)" using ch unfolding opt_ok_def by simp
qed

text \<open>Moving a cell between a bin and the blocks in use.\<close>

lemma opt_ok_push:
  assumes ok: "opt_ok s fl (insert (x, 2 ^ (i + 5)) L)" and b: "(x, 2 ^ (i + 5)) \<notin> L" and i: "i < 16"
    and n: "load64 (hp_mem (op_heap s)) (x + 8) = word_of_nat (heads s ! i)" and h: "heads s ! i < 2 ^ 63"
  shows "opt_ok (s\<lparr>heads := (heads s)[i := x]\<rparr>) (fl(i := x # fl i)) L"
proof -
  let ?b = "(x, 2 ^ (i + 5))" and ?fl = "fl(i := x # fl i)"
  have c: "cells ?fl = insert ?b (cells fl)" by (rule cells_push [OF i])
  have U: "cells ?fl \<union> L = cells fl \<union> insert ?b L" using c by auto
  have x: "0 < x" using ok by (auto simp: opt_ok_def good_cell_def)
  have nx: "x \<notin> set (fl i)" using ok i by (force simp: opt_ok_def cells_def)
  have "chain (hp_mem (op_heap s)) ((heads s)[i := x] ! k) (?fl k) \<and> distinct (?fl k)" if "k < 16" for k
  proof (cases "k = i")
    case True
    have "unat (word_of_nat (heads s ! i) :: 64 word) = heads s ! i"
      using h by (simp add: unat_of_nat take_bit_nat_def)
    then show ?thesis using True ok i n x nx by (simp add: opt_ok_def)
  qed (use ok that in \<open>simp add: opt_ok_def\<close>)
  moreover have "cells ?fl \<inter> L = {}" using ok b c by (auto simp: opt_ok_def)
  ultimately show ?thesis using ok unfolding opt_ok_def U by simp
qed

lemma opt_ok_pop:
  assumes ok: "opt_ok s fl L" and i: "i < 16" and f: "fl i = x # xs"
  shows "opt_ok (s\<lparr>heads := (heads s)[i := unat (load64 (hp_mem (op_heap s)) (x + 8))]\<rparr>) (fl(i := xs))
      (insert (x, 2 ^ (i + 5)) L)" and "(x, 2 ^ (i + 5)) \<notin> L" and "heads s ! i = x" and "0 < x"
proof -
  let ?b = "(x, 2 ^ (i + 5))" and ?fl = "fl(i := xs)"
  have ch: "chain (hp_mem (op_heap s)) (heads s ! i) (x # xs)" "x \<notin> set xs" "distinct xs"
    using ok i f by (auto simp: opt_ok_def dest: spec [of _ i])
  note c = cells_pop [of i fl x xs, OF i f ch(2)]
  have b: "?b \<in> cells fl" using c(1) by blast
  show nb: "?b \<notin> L" using ok b by (auto simp: opt_ok_def)
  show "heads s ! i = x" "0 < x" using ch(1) by auto
  have U: "cells ?fl \<union> insert ?b L = cells fl \<union> L" using c(1) by blast
  have "chain (hp_mem (op_heap s)) ((heads s)[i := unat (load64 (hp_mem (op_heap s)) (x + 8))] ! k) (?fl k) \<and>
      distinct (?fl k)" if "k < 16" for k
    using ok ch i that by (cases "k = i") (simp_all add: opt_ok_def)
  moreover have "cells ?fl \<inter> insert ?b L = {}" using ok c nb by (auto simp: opt_ok_def)
  ultimately show "opt_ok (s\<lparr>heads := (heads s)[i := unat (load64 (hp_mem (op_heap s)) (x + 8))]\<rparr>) ?fl (insert ?b L)"
    using ok unfolding opt_ok_def U by simp
qed

lemma opt_ok_cell:
  assumes ok: "opt_ok s fl L" and b: "(x, n) \<in> cells fl \<union> L" and k: "k + 8 \<le> extent n"
  shows "opt_peek s (x + k) = Inr (unat (load64 (hp_mem (op_heap s)) (x + k)))"
    and "opt_poke s (x + k) v =
      Inr (s\<lparr>op_heap := (op_heap s)\<lparr>hp_mem := store64 (hp_mem (op_heap s)) (x + k) (word_of_nat v)\<rparr>\<rparr>)"
proof -
  have "mapped_range (op_heap s) x (extent n)" using opt_ok_good [OF ok b] by (simp add: good_cell_def)
  then have "mapped_range (op_heap s) (x + k) 8" using k by (auto simp: mapped_range_iff)
  then show "opt_peek s (x + k) = Inr (unat (load64 (hp_mem (op_heap s)) (x + k)))"
    "opt_poke s (x + k) v =
      Inr (s\<lparr>op_heap := (op_heap s)\<lparr>hp_mem := store64 (hp_mem (op_heap s)) (x + k) (word_of_nat v)\<rparr>\<rparr>)"
    by (simp_all add: opt_peek_def opt_poke_def peek_def poke_def)
qed

section \<open>Operations\<close>

lemma pop_ok:
  assumes ok: "opt_ok s fl L" and i: "i < 16" and f: "fl i = x # xs"
  shows "\<exists>s'. pop s i = Inr (s', x) \<and> opt_ok s' (fl(i := xs)) (insert (x, 2 ^ (i + 5)) L) \<and>
    (x, 2 ^ (i + 5)) \<notin> L \<and> hp_os (op_heap s') = hp_os (op_heap s) \<and> memory s' = memory s"
proof -
  note p = opt_ok_pop [OF ok i f]
  have "(x, 2 ^ (i + 5)) \<in> cells fl" using f i by (auto simp: cells_def)
  moreover have "8 + 8 \<le> extent (2 ^ (i + 5))" using extent_bin [OF i] bin_size [OF i] by simp
  ultimately have "opt_peek s (x + 8) = Inr (unat (load64 (hp_mem (op_heap s)) (x + 8)))"
    using opt_ok_cell(1) [OF ok] by blast
  moreover have "length (heads s) = 16" using ok by (simp add: opt_ok_def)
  ultimately show ?thesis using p i by (simp add: pop_def)
qed

lemma heads_bound:
  assumes ok: "opt_ok s fl L" and i: "i < 16"
  shows "heads s ! i < 2 ^ 63"
proof (cases "fl i")
  case Nil
  then show ?thesis using ok i by (auto simp: opt_ok_def dest!: spec [of _ i])
next
  case (Cons x xs)
  then have "(x, 2 ^ (i + 5)) \<in> cells fl" using i by (auto simp: cells_def)
  then have "x + extent (2 ^ (i + 5)) \<le> 2 ^ 63"
    using opt_ok_good [OF ok, of x "2 ^ (i + 5)"] by (simp add: good_cell_def)
  then show ?thesis using opt_ok_pop(3) [OF ok i Cons] extent_bin [OF i] bin_size [OF i] by simp
qed

lemma insert_fl_cell_ok:
  assumes ok: "opt_ok s fl (insert (x, 2 ^ (i + 5)) L)" and b: "(x, 2 ^ (i + 5)) \<notin> L" and i: "i < 16"
  shows "\<exists>s'. insert_fl_cell s i x = Inr s' \<and> opt_ok s' (fl(i := x # fl i)) L \<and>
    hp_os (op_heap s') = hp_os (op_heap s) \<and> same_on L (memory s) (memory s')"
proof -
  let ?b = "(x, 2 ^ (i + 5)) :: block" and ?m = "store64 (hp_mem (op_heap s)) (x + 8) (word_of_nat (heads s ! i))"
  let ?s = "s\<lparr>op_heap := (op_heap s)\<lparr>hp_mem := ?m\<rparr>\<rparr>"
  note sz = extent_bin [OF i] bin_size [OF i]
  have poke: "opt_poke s (x + 8) (heads s ! i) = Inr ?s"
    by (rule opt_ok_cell(2) [OF ok]) (use sz in auto)
  have g: "good_cell (op_heap s) ?b" using ok by (simp add: opt_ok_def)
  have "load64 ?m x = load64 (hp_mem (op_heap s)) x" by (simp add: mem_simps)
  then have g': "good_cell ((op_heap s)\<lparr>hp_mem := ?m\<rparr>) ?b" using g i sz(2) by (simp add: good_cell_def mapped_range_iff)
  have out: "?m a = memory s a" if "a < fst ?b \<or> fst ?b + extent (snd ?b) \<le> a" for a
  proof -
    have "a < x + 8 \<or> x + 8 + 8 \<le> a" using that sz by auto
    then show ?thesis by (rule store64_other)
  qed
  have in_b: "good_cell ((op_heap s)\<lparr>hp_mem := ?m\<rparr>) c \<and> fst ?b \<le> fst c \<and>
      fst c + extent (snd c) \<le> fst ?b + extent (snd ?b)" if "c \<in> {?b}" for c using that g' by simp
  note R = opt_ok_replace [OF ok b, of ?m "{?b}", OF out in_b]
  have "opt_ok ?s fl ({?b} \<union> L)" and same: "same_on L (memory s) ?m" using R by auto
  then have ok1: "opt_ok ?s fl (insert ?b L)" by simp
  have "opt_ok (?s\<lparr>heads := (heads ?s)[i := x]\<rparr>) (fl(i := x # fl i)) L"
    by (rule opt_ok_push [OF ok1 b i]) (use heads_bound [OF ok i] in \<open>simp_all add: mem_simps\<close>)
  moreover have "length (heads s) = 16" using ok by (simp add: opt_ok_def)
  ultimately show ?thesis using poke i same by (simp add: insert_fl_cell_def)
qed

text \<open>Cutting a cell of bin \<open>i + 1\<close> in two.\<close>

lemma split_ok:
  assumes ok: "opt_ok s fl (insert (x, 2 ^ (i + 1 + 5)) L)" and b: "(x, 2 ^ (i + 1 + 5)) \<notin> L" and i: "i < 15"
  shows "\<exists>s1 s2. opt_poke s x (2 ^ (i + 5)) = Inr s1 \<and> make_fl_cell s1 (x + 2 ^ (i + 5)) (2 ^ (i + 5)) = Inr s2 \<and>
    opt_ok s2 fl (insert (x, 2 ^ (i + 5)) (insert (x + 2 ^ (i + 5), 2 ^ (i + 5)) L)) \<and>
    (x, 2 ^ (i + 5)) \<notin> insert (x + 2 ^ (i + 5), 2 ^ (i + 5)) L \<and> (x + 2 ^ (i + 5), 2 ^ (i + 5)) \<notin> L \<and>
    hp_os (op_heap s2) = hp_os (op_heap s) \<and> same_on L (memory s) (memory s2)"
proof -
  define n :: nat where "n = 2 ^ (i + 5)"
  let ?b = "(x, 2 * n)" and ?c = "(x, n)" and ?d = "(x + n, n)"
  have n2: "2 ^ (i + 1 + 5) = 2 * n" by (simp add: n_def power_add)
  have sz: "extent n = n" "32 \<le> n" "n \<le> HEAP_SIZE" "extent (2 * n) = 2 * n"
    using extent_bin [of i] extent_bin [of "i + 1"] bin_size [of i] i unfolding n2 by (simp_all add: n_def)
  note ok' = ok [unfolded n2]
  have g: "good_cell (op_heap s) ?b" using opt_ok_good [OF ok'] by simp
  let ?old = "hp_mem (op_heap s)"
  let ?m = "store64 (store64 (store64 (store64 ?old x (word_of_nat n)) (x + n) (word_of_nat n)) (x + n + 16) 0) (x + n + 8) 0"
  let ?s = "s\<lparr>op_heap := (op_heap s)\<lparr>hp_mem := ?m\<rparr>\<rparr>"
  have mr: "mapped_range (op_heap s) x (2 * n)" using g sz by (simp add: good_cell_def)
  then have "mapped_range (op_heap s) (x + k) 8" if "k + 8 \<le> 2 * n" for k
    using that by (auto simp: mapped_range_iff)
  from this [of 0] this [of n] this [of "n + 8"] this [of "n + 16"] sz(2) have
    "mapped_range (op_heap s) x 8" "mapped_range (op_heap s) (x + n) 8" "mapped_range (op_heap s) (x + n + 8) 8"
    "mapped_range (op_heap s) (x + n + 16) 8" by (simp_all add: add.assoc)
  then have w: "opt_poke s x n = Inr (s\<lparr>op_heap := (op_heap s)\<lparr>hp_mem := store64 ?old x (word_of_nat n)\<rparr>\<rparr>)"
    "make_fl_cell (s\<lparr>op_heap := (op_heap s)\<lparr>hp_mem := store64 ?old x (word_of_nat n)\<rparr>\<rparr>) (x + n) n = Inr ?s"
    by (simp_all add: opt_poke_def poke_def make_fl_cell_def mapped_range_def)
  have l: "load64 ?m x = word_of_nat n" "load64 ?m (x + n) = word_of_nat n"
    using sz(2) by (simp_all add: mem_simps)
  have bin: "\<exists>j < 16. n = 2 ^ (j + 5)" using i by (intro exI [of _ i]) (simp add: n_def)
  let ?h = "(op_heap s)\<lparr>hp_mem := ?m\<rparr>"
  have gc: "good_cell ?h ?c" "good_cell ?h ?d"
    using g l sz bin mr by (auto simp: good_cell_def mapped_range_iff)
  have out: "?m a = hp_mem (op_heap s) a" if "a < fst ?b \<or> fst ?b + extent (snd ?b) \<le> a" for a
  proof -
    have "a < x \<or> x + 2 * n \<le> a" using that sz by simp
    then show ?thesis using sz(2) by (auto simp: store64_other)
  qed
  have in_b: "good_cell ?h c \<and> fst ?b \<le> fst c \<and> fst c + extent (snd c) \<le> fst ?b + extent (snd ?b)"
    if "c \<in> {?c, ?d}" for c using that gc sz by auto
  have ap: "apart_ext c d" if "c \<in> {?c, ?d}" "d \<in> {?c, ?d}" "c \<noteq> d" for c d
    using that sz by (auto simp: apart_ext_def apart_def)
  note R = opt_ok_replace [OF ok' b [unfolded n2], of ?m "{?c, ?d}", OF out in_b ap]
  have "opt_ok ?s fl ({?c, ?d} \<union> L)" and new: "{?c, ?d} \<inter> (cells fl \<union> L) = {}"
    and same: "same_on L (memory s) ?m" using R by blast+
  then have "opt_ok ?s fl (insert ?c (insert ?d L))" by simp
  moreover have "?c \<notin> insert ?d L" "?d \<notin> L" using new sz(2) by auto
  ultimately show ?thesis using w same unfolding n_def [symmetric] by auto
qed

lemma pull_from_above_ok:
  assumes ok: "opt_ok s fl L" and i: "i < 15" and f: "fl (i + 1) = x # xs"
  shows "\<exists>s' fl'. pull_from_above s i = Inr s' \<and> opt_ok s' fl' L \<and> fl' i \<noteq> [] \<and> hp_os (op_heap s') = hp_os (op_heap s) \<and>
    same_on L (memory s) (memory s')"
proof -
  let ?n = "2 ^ (i + 5)"
  from pop_ok [OF ok _ f] i obtain s1 where s1: "pop s (i + 1) = Inr (s1, x)"
    "opt_ok s1 (fl(i + 1 := xs)) (insert (x, 2 ^ (i + 1 + 5)) L)" "(x, 2 ^ (i + 1 + 5)) \<notin> L"
    "hp_os (op_heap s1) = hp_os (op_heap s)" "memory s1 = memory s" by auto
  from split_ok [OF s1(2,3) i] obtain s2 s3 where s3: "opt_poke s1 x ?n = Inr s2" "make_fl_cell s2 (x + ?n) ?n = Inr s3"
    "opt_ok s3 (fl(i + 1 := xs)) (insert (x, ?n) (insert (x + ?n, ?n) L))"
    "(x, ?n) \<notin> insert (x + ?n, ?n) L" "(x + ?n, ?n) \<notin> L" "hp_os (op_heap s3) = hp_os (op_heap s1)"
    "same_on L (memory s1) (memory s3)" by blast
  let ?fl = "fl(i + 1 := xs)"
  have ok3: "opt_ok s3 ?fl (insert (x + ?n, ?n) (insert (x, ?n) L))" using s3(3) by (simp add: insert_commute)
  have "(x + ?n, ?n) \<notin> insert (x, ?n) L" using s3(5) by simp
  from insert_fl_cell_ok [OF ok3 this] i obtain s4 where s4: "insert_fl_cell s3 i (x + ?n) = Inr s4"
    "opt_ok s4 (?fl(i := (x + ?n) # ?fl i)) (insert (x, ?n) L)" "hp_os (op_heap s4) = hp_os (op_heap s3)"
    "same_on (insert (x, ?n) L) (memory s3) (memory s4)" by auto
  have "(x, ?n) \<notin> L" using s3(4) by simp
  from insert_fl_cell_ok [OF s4(2) this] i obtain s5 where s5: "insert_fl_cell s4 i x = Inr s5"
    "opt_ok s5 (?fl(i := x # (x + ?n) # ?fl i)) L" "hp_os (op_heap s5) = hp_os (op_heap s4)"
    "same_on L (memory s4) (memory s5)" by auto
  have "same_on L (memory s) (memory s5)"
    using s3(7) same_on_mono [OF s4(4), of L] s5(4) s1(5) same_on_trans by (metis subset_insertI)
  moreover
  have "pull_from_above s i = Inr s5" using s1(1) s3(1,2) s4(1) s5(1) by (simp add: pull_from_above_def Let_def)
  ultimately show ?thesis using s5 s4(3) s3(6) s1(4) by (intro exI [of _ s5] exI [of _ "?fl(i := x # (x + ?n) # ?fl i)"]) simp
qed

text \<open>Mapping a fresh region and writing its size gives a block that touches no other.\<close>

lemma mmap_block_ok:
  assumes ok: "opt_ok s fl L" and m: "mmap (op_heap s) n = Inr (hp, a)" and n: "32 \<le> n"
    and sz: "HEAP_SIZE < n \<or> (n \<le> round_page n \<and> (\<exists>i < 16. n = 2 ^ (i + 5)))"
    and m': "load64 m' a = word_of_nat n" "\<And>b. b < a \<or> a + n \<le> b \<Longrightarrow> m' b = hp_mem (op_heap s) b"
  shows "opt_ok (s\<lparr>op_heap := hp\<lparr>hp_mem := m'\<rparr>\<rparr>) fl (insert (a, n) L)" and "(a, n) \<notin> cells fl \<union> L"
    and "same_on L (memory s) m'" and "mapped_range hp a n" and "hp_os hp = hp_os (op_heap s)" and "hp_mem hp = hp_mem (op_heap s)"
proof -
  let ?h = "op_heap s"
  have os: "hp_os ?h (hp_mapped ?h) n = Some a"
    and hp: "hp = ?h\<lparr>hp_mapped := (\<lambda>b. hp_mapped ?h b \<or> (a \<le> b \<and> b < a + round_page n))\<rparr>"
    using m by (auto simp: mmap_def split: option.splits)
  have mo: "0 < a" "a mod 4096 = 0" "a + round_page n \<le> 2 ^ 63"
    "\<And>b. a \<le> b \<Longrightarrow> b < a + round_page n \<Longrightarrow> \<not> hp_mapped ?h b"
    using ok os by (auto simp: opt_ok_def mmap_ok_def)
  show "mapped_range hp a n" using round_page_ge [of n] by (auto simp: hp mapped_range_iff)
  show "hp_os hp = hp_os ?h" "hp_mem hp = hp_mem ?h" by (simp_all add: hp)
  have ext: "extent n \<le> round_page n" using round_page_ge [of n] by (simp add: extent_def)
  let ?h' = "hp\<lparr>hp_mem := m'\<rparr>" and ?C = "cells fl \<union> L"
  have ap: "apart_ext (a, n) c" if c: "c \<in> ?C" for c
  proof (rule ccontr)
    assume "\<not> apart_ext (a, n) c"
    then have o: "fst c < a + round_page n" "a < fst c + extent (snd c)"
      using ext by (auto simp: apart_ext_def apart_def)
    have "good_cell ?h c" using ok c unfolding opt_ok_def by blast
    then have g: "mapped_range ?h (fst c) (extent (snd c))" "32 \<le> snd c" by (simp_all add: good_cell_def)
    have "0 < extent (snd c)" "0 < round_page n" using g(2) extent_ge [of "snd c"] n round_page_ge [of n] by linarith+
    then have "fst c \<le> max a (fst c)" "max a (fst c) < fst c + extent (snd c)" "a \<le> max a (fst c)"
      "max a (fst c) < a + round_page n" using o by auto
    then show False using mo(4) g(1) unfolding mapped_range_iff by blast
  qed
  show "same_on L (memory s) m'"
    unfolding same_on_def
  proof (intro ballI allI impI m'(2))
    fix c b
    assume "c \<in> L" "fst c \<le> b" "b < fst c + extent (snd c)"
    then show "b < a \<or> a + n \<le> b" using ap [of c] extent_ge [of n] by (auto simp: apart_ext_def apart_def)
  qed
  have keep: "load64 m' (fst c + k) = load64 (hp_mem ?h) (fst c + k)" if c: "c \<in> ?C" and k: "k + 8 \<le> 32" for c k
  proof (rule load64_cong, rule m'(2))
    fix i :: nat
    assume "i < 8"
    have "good_cell ?h c" using ok c unfolding opt_ok_def by blast
    then have "32 \<le> extent (snd c)" using extent_ge [of "snd c"] by (simp add: good_cell_def)
    then show "fst c + k + i < a \<or> a + n \<le> fst c + k + i"
      using ap [OF c] k \<open>i < 8\<close> extent_ge [of n] by (auto simp: apart_ext_def apart_def)
  qed
  have good: "good_cell ?h' c" if "c \<in> ?C" for c
  proof -
    have "good_cell ?h c" using ok that unfolding opt_ok_def by blast
    then show ?thesis using keep [OF that, of 0] by (simp add: good_cell_def mapped_range_iff hp)
  qed
  have "good_cell ?h' (a, n)"
    using mo n ext m'(1) sz by (auto simp: good_cell_def mapped_range_iff hp)
  moreover show "(a, n) \<notin> ?C"
  proof
    assume "(a, n) \<in> ?C"
    then have "apart_ext (a, n) (a, n)" by (rule ap)
    then show False using n extent_ge [of n] by (auto simp: apart_ext_def apart_def)
  qed
  moreover have "chain m' (heads s ! i) (fl i)" if "i < 16" for i
  proof -
    have "load64 m' (x + 8) = load64 (hp_mem ?h) (x + 8)" if "x \<in> set (fl i)" for x
      using keep [of "(x, 2 ^ (i + 5))" 8] that \<open>i < 16\<close> by (auto simp: cells_def)
    then have "chain m' (heads s ! i) (fl i) = chain (hp_mem ?h) (heads s ! i) (fl i)" by (rule chain_cong)
    then show ?thesis using ok that by (simp add: opt_ok_def)
  qed
  moreover have "apart_ext b c" if bc: "b \<in> insert (a, n) ?C" "c \<in> insert (a, n) ?C" "b \<noteq> c" for b c
  proof -
    consider "b = (a, n)" "c \<in> ?C" | "c = (a, n)" "b \<in> ?C" | "b \<in> ?C" "c \<in> ?C" using bc by blast
    then show ?thesis by cases (use ap bc(3) apart_ext_sym ok in \<open>auto simp: opt_ok_def\<close>)
  qed
  ultimately show "opt_ok (s\<lparr>op_heap := ?h'\<rparr>) fl (insert (a, n) L)"
    using ok good by (simp add: opt_ok_def hp)
qed

text \<open>The only way to fail: the operating system has no memory.\<close>

definition no_memory :: "opt \<Rightarrow> bool" where
  "no_memory s \<longleftrightarrow> (\<exists>p n. hp_os (op_heap s) p n = None)"

lemma mmap_cases:
  "(\<exists>hp a. mmap (op_heap s) n = Inr (hp, a)) \<or> mmap (op_heap s) n = Inl OutOfBounds \<and> no_memory s"
  by (auto simp: mmap_def no_memory_def split: option.splits)

lemma redistribute_last:
  assumes ok: "opt_ok s fl L" and e: "fl 15 = []"
  shows "(\<exists>s' fl'. redistribute s 15 = Inr s' \<and> opt_ok s' fl' L \<and> fl' 15 \<noteq> [] \<and>
      hp_os (op_heap s') = hp_os (op_heap s) \<and> same_on L (memory s) (memory s')) \<or>
    redistribute s 15 = Inl OutOfBounds \<and> no_memory s"
proof (cases "\<exists>hp a. mmap (op_heap s) HEAP_SIZE = Inr (hp, a)")
  case True
  then obtain hp a where m: "mmap (op_heap s) HEAP_SIZE = Inr (hp, a)" by blast
  let ?m = "store64 (store64 (store64 (memory s) a (word_of_nat HEAP_SIZE)) (a + 16) 0) (a + 8) 0"
  let ?s = "s\<lparr>op_heap := hp\<lparr>hp_mem := ?m\<rparr>\<rparr>"
  have bin: "2 ^ (15 + 5) = HEAP_SIZE" "HEAP_SIZE \<ge> 32" by (simp_all add: HEAP_SIZE_def)
  have b: "HEAP_SIZE < HEAP_SIZE \<or> (HEAP_SIZE \<le> round_page HEAP_SIZE \<and> (\<exists>i < 16. HEAP_SIZE = 2 ^ (i + 5)))"
    using round_page_ge [of HEAP_SIZE] by (intro disjI2 conjI exI [of _ 15]) (simp_all add: HEAP_SIZE_def)
  have l: "load64 ?m a = word_of_nat HEAP_SIZE" "load64 ?m (a + 8) = 0" by (simp_all add: mem_simps)
  have out: "?m c = memory s c" if "c < a \<or> a + HEAP_SIZE \<le> c" for c
    using that bin(2) by (auto simp: store64_other)
  note M = mmap_block_ok [OF ok m bin(2) b l(1) out]
  have h0: "heads s ! 15 = 0" "length (heads s) = 16" using ok e by (auto simp: opt_ok_def dest!: spec [of _ 15])
  have "opt_ok (?s\<lparr>heads := (heads ?s)[15 := a]\<rparr>) (fl(15 := a # fl 15)) L"
    using M(1,2) l(2) h0 unfolding bin(1) [symmetric] by (intro opt_ok_push) auto
  moreover have "mapped_range hp (a + k) 8" if "k \<le> 16" for k
    using M(4) that bin(2) by (auto simp: mapped_range_iff)
  from this [of 0] this [of 8] this [of 16] have "make_fl_cell (s\<lparr>op_heap := hp\<rparr>) a HEAP_SIZE = Inr ?s"
    using M(6) by (simp add: make_fl_cell_def opt_poke_def poke_def mapped_range_def)
  ultimately have "redistribute s 15 = Inr (?s\<lparr>heads := (heads ?s)[15 := a]\<rparr>)"
    "opt_ok (?s\<lparr>heads := (heads ?s)[15 := a]\<rparr>) (fl(15 := a # fl 15)) L"
    using m h0 by (simp_all add: redistribute.simps [of s 15])
  then show ?thesis using M(3,5) by (intro disjI1 exI conjI) (assumption, assumption, simp_all)
next
  case False
  then have "mmap (op_heap s) HEAP_SIZE = Inl OutOfBounds" "no_memory s" using mmap_cases [of s] by blast+
  moreover have "heads s ! 15 = 0" "length (heads s) = 16" using ok e by (auto simp: opt_ok_def dest!: spec [of _ 15])
  ultimately show ?thesis by (simp add: redistribute.simps [of s 15])
qed

lemma redistribute_ok:
  assumes "opt_ok s fl L" and "i < 16"
  shows "(\<exists>s' fl'. redistribute s i = Inr s' \<and> opt_ok s' fl' L \<and> fl' i \<noteq> [] \<and>
      hp_os (op_heap s') = hp_os (op_heap s) \<and> same_on L (memory s) (memory s')) \<or>
    redistribute s i = Inl OutOfBounds \<and> no_memory s"
  using assms
proof (induction "15 - i" arbitrary: i s fl)
  case 0
  then have i: "i = 15" by simp
  show ?case
  proof (cases "fl 15")
    case Nil
    then show ?thesis using redistribute_last [OF "0.prems"(1)] i by simp
  next
    case (Cons x xs)
    then have "heads s ! 15 \<noteq> 0" "length (heads s) = 16"
      using "0.prems"(1) by (auto simp: opt_ok_def dest!: spec [of _ 15])
    then show ?thesis using "0.prems"(1) Cons i by (auto simp: redistribute.simps [of s 15])
  qed
next
  case (Suc d)
  then have i: "i < 15" by simp
  have len: "length (heads s) = 16" using Suc.prems(1) by (simp add: opt_ok_def)
  show ?case
  proof (cases "fl i")
    case (Cons x xs)
    then have "heads s ! i \<noteq> 0" using Suc.prems by (auto simp: opt_ok_def)
    then show ?thesis using Suc.prems Cons len by (auto simp: redistribute.simps [of s i])
  next
    case Nil
    then have h0: "heads s ! i = 0" using Suc.prems by (auto simp: opt_ok_def)
    then have step: "redistribute s i = bind_res (redistribute s (i + 1)) (\<lambda>s. pull_from_above s i)"
      using i len by (simp add: redistribute.simps [of s i])
    have "d = 15 - (i + 1)" "i + 1 < 16" using Suc.hyps(2) i by simp_all
    from Suc.hyps(1) [OF this(1) Suc.prems(1) this(2)] consider
      s1 fl1 where "redistribute s (i + 1) = Inr s1" "opt_ok s1 fl1 L" "fl1 (i + 1) \<noteq> []"
        "hp_os (op_heap s1) = hp_os (op_heap s)" "same_on L (memory s) (memory s1)"
      | "redistribute s (i + 1) = Inl OutOfBounds" "no_memory s" by blast
    then show ?thesis
    proof cases
      case 1
      from 1(3) obtain x xs where "fl1 (i + 1) = x # xs" by (cases "fl1 (i + 1)") auto
      from pull_from_above_ok [OF 1(2) i this] 1(1,4,5) show ?thesis
        unfolding step by (auto intro: same_on_trans)
    qed (simp add: step)
  qed
qed

lemma get_fl_index_least:
  assumes "i < 16" and "sz \<le> 2 ^ (i + 5)" and "\<forall>k < i. 2 ^ (k + 5) < sz" and "j \<le> i"
  shows "get_fl_index_loop sz j = Inr i"
  using assms(4)
proof (induction "i - j" arbitrary: j)
  case 0
  then show ?case using assms by (subst get_fl_index_loop.simps) simp
next
  case (Suc d)
  then have "j < i" and "get_fl_index_loop sz (j + 1) = Inr i" using Suc.hyps(1) [of "j + 1"] by auto
  then show ?case using assms(1,3) by (subst get_fl_index_loop.simps) (simp add: not_le)
qed

lemma get_fl_index_ok:
  assumes "sz \<le> HEAP_SIZE"
  shows "\<exists>i < 16. get_fl_index sz = Inr i \<and> sz \<le> 2 ^ (i + 5)"
proof -
  let ?P = "\<lambda>i. sz \<le> 2 ^ (i + 5)"
  have P: "?P 15" using assms by (simp add: HEAP_SIZE_def)
  have "?P (LEAST i. ?P i)" "(LEAST i. ?P i) \<le> 15" using LeastI [of ?P, OF P] Least_le [of ?P, OF P] by auto
  moreover have "\<forall>k < (LEAST i. ?P i). 2 ^ (k + 5) < sz" using not_less_Least [of _ ?P] by (simp add: not_le)
  ultimately show ?thesis
    using get_fl_index_least [of "LEAST i. ?P i" sz 0] unfolding get_fl_index_def by force
qed

lemma get_fl_index_bin: "i < 16 \<Longrightarrow> get_fl_index (2 ^ (i + 5)) = Inr i"
  unfolding get_fl_index_def by (rule get_fl_index_least) simp_all

section \<open>Allocation and release\<close>

lemma xmalloc_helper_ok:
  assumes ok: "opt_ok s fl L"
  shows "(\<exists>s' c k fl'. xmalloc_helper s req = Inr (s', c + 8) \<and> opt_ok s' fl' (insert (c, k) L) \<and>
      (c, k) \<notin> L \<and> req \<le> k \<and> hp_os (op_heap s') = hp_os (op_heap s) \<and> same_on L (memory s) (memory s')) \<or>
    xmalloc_helper s req = Inl OutOfBounds \<and> no_memory s"
proof -
  define sz where "sz = (if req < FL_CELL then FL_CELL else req)"
  have req: "req \<le> sz" by (simp add: sz_def)
  show ?thesis
  proof (cases "HEAP_SIZE < sz")
    case True
    show ?thesis
    proof (cases "\<exists>hp a. mmap (op_heap s) sz = Inr (hp, a)")
      case m: True
      then obtain hp a where m: "mmap (op_heap s) sz = Inr (hp, a)" by blast
      let ?m = "store64 (memory s) a (word_of_nat sz)"
      have n: "32 \<le> sz" using True by (simp add: HEAP_SIZE_def)
      have out: "?m c = memory s c" if "c < a \<or> a + sz \<le> c" for c
        using that n by (intro store64_other) auto
      note M = mmap_block_ok [OF ok m n disjI1 [OF True] load64_store64_same out]
      have "mapped_range hp a 8" using M(4) n by (auto simp: mapped_range_iff)
      then have "xmalloc_helper s req = Inr (s\<lparr>op_heap := hp\<lparr>hp_mem := ?m\<rparr>\<rparr>, a + 8)"
        using True m M(6) by (simp add: xmalloc_helper_def sz_def [symmetric] opt_poke_def poke_def)
      then show ?thesis
        using M(1,2,3,5) req by (intro disjI1 exI [of _ "s\<lparr>op_heap := hp\<lparr>hp_mem := ?m\<rparr>\<rparr>"] exI [of _ a] exI [of _ sz]
          exI [of _ fl]) simp
    next
      case False
      then have "mmap (op_heap s) sz = Inl OutOfBounds" "no_memory s" using mmap_cases [of s] by blast+
      then show ?thesis using True by (simp add: xmalloc_helper_def sz_def [symmetric])
    qed
  next
    case False
    then obtain i where i: "i < 16" "get_fl_index sz = Inr i" "sz \<le> 2 ^ (i + 5)"
      using get_fl_index_ok [of sz] by auto
    from redistribute_ok [OF ok i(1)] consider
      s1 fl1 where "redistribute s i = Inr s1" "opt_ok s1 fl1 L" "fl1 i \<noteq> []"
        "hp_os (op_heap s1) = hp_os (op_heap s)" "same_on L (memory s) (memory s1)"
      | "redistribute s i = Inl OutOfBounds" "no_memory s" by blast
    then show ?thesis
    proof cases
      case 1
      then obtain x xs where f: "fl1 i = x # xs" by (cases "fl1 i") auto
      from pop_ok [OF 1(2) i(1) f] obtain s2 where s2: "pop s1 i = Inr (s2, x)"
        "opt_ok s2 (fl1(i := xs)) (insert (x, 2 ^ (i + 5)) L)" "(x, 2 ^ (i + 5)) \<notin> L"
        "hp_os (op_heap s2) = hp_os (op_heap s1)" "memory s2 = memory s1" by blast
      have "x \<noteq> 0" using opt_ok_pop(4) [OF 1(2) i(1) f] by simp
      then have "xmalloc_helper s req = Inr (s2, x + 8)"
        using False i(2) 1(1) s2(1) by (simp add: xmalloc_helper_def sz_def [symmetric])
      then show ?thesis
        using s2 1(4,5) req i(3)
        by (intro disjI1 exI [of _ s2] exI [of _ x] exI [of _ "2 ^ (i + 5)"] exI [of _ "fl1(i := xs)"]) simp
    next
      case 2
      then show ?thesis using False i(2) by (simp add: xmalloc_helper_def sz_def [symmetric])
    qed
  qed
qed

lemma munmap_ok:
  assumes ok: "opt_ok s fl L" and b: "(c, k) \<in> L" and k: "HEAP_SIZE < k"
  shows "opt_ok (s\<lparr>op_heap := munmap (op_heap s) c k\<rparr>) fl (L - {(c, k)})"
proof -
  let ?h = "munmap (op_heap s) c k" and ?C = "cells fl \<union> (L - {(c, k)})"
  have "good_cell (op_heap s) (c, k)" using opt_ok_good [OF ok] b by blast
  then have c: "c mod 4096 = 0" using k by (simp add: good_cell_def)
  then have h: "?h = (op_heap s)\<lparr>hp_mapped := (\<lambda>b. hp_mapped (op_heap s) b \<and> \<not> (c \<le> b \<and> b < c + extent k))\<rparr>"
    using k by (simp add: munmap_def extent_def)
  have "good_cell ?h d" if d: "d \<in> ?C" for d
  proof -
    have g: "good_cell (op_heap s) d" using ok d unfolding opt_ok_def by blast
    have "d \<noteq> (c, k)" using d ok b by (auto simp: opt_ok_def)
    then have "apart_ext d (c, k)" using ok d b unfolding opt_ok_def by blast
    then have "\<not> (c \<le> a \<and> a < c + extent k)" if "fst d \<le> a" "a < fst d + extent (snd d)" for a
      using that by (auto simp: apart_ext_def apart_def)
    then show ?thesis using g by (simp add: good_cell_def mapped_range_iff h)
  qed
  then show ?thesis using ok by (auto simp: opt_ok_def h)
qed

lemma xfree_helper_ok:
  assumes ok: "opt_ok s fl L" and b: "(c, k) \<in> L"
  shows "\<exists>s' fl'. xfree_helper s (c + 8) = Inr s' \<and> opt_ok s' fl' (L - {(c, k)}) \<and>
    hp_os (op_heap s') = hp_os (op_heap s) \<and> same_on (L - {(c, k)}) (memory s) (memory s')"
proof -
  have g: "good_cell (op_heap s) (c, k)" using opt_ok_good [OF ok] b by blast
  have e: "32 \<le> extent k" "extent k \<le> 2 ^ 63" using g extent_ge [of k] by (auto simp: good_cell_def)
  have "opt_peek s (c + 0) = Inr (unat (load64 (memory s) (c + 0)))"
    using opt_ok_cell(1) [OF ok, of c k 0] b e(1) by auto
  moreover have "load64 (memory s) c = word_of_nat k" using g by (simp add: good_cell_def)
  moreover have "k < 2 ^ 64" using e(2) extent_ge [of k] by simp
  ultimately have peek: "opt_peek s c = Inr k" by (simp add: unat_of_nat take_bit_nat_def)
  show ?thesis
  proof (cases "HEAP_SIZE < k")
    case True
    then have "xfree_helper s (c + 8) = Inr (s\<lparr>op_heap := munmap (op_heap s) c k\<rparr>)"
      using peek by (simp add: xfree_helper_def)
    then show ?thesis using munmap_ok [OF ok b True] by (auto simp: munmap_def)
  next
    case False
    then obtain i where i: "i < 16" "k = 2 ^ (i + 5)" using g by (auto simp: good_cell_def)
    have "insert (c, 2 ^ (i + 5)) (L - {(c, k)}) = L" "(c, 2 ^ (i + 5)) \<notin> L - {(c, k)}" using b i by auto
    from insert_fl_cell_ok [OF _ this(2) i(1), of s fl] ok this(1) obtain s' where
      "insert_fl_cell s i c = Inr s'" "opt_ok s' (fl(i := c # fl i)) (L - {(c, k)})"
      "hp_os (op_heap s') = hp_os (op_heap s)" "same_on (L - {(c, k)}) (memory s) (memory s')" by auto
    moreover have "get_fl_index k = Inr i" using get_fl_index_bin [OF i(1)] i(2) by simp
    ultimately show ?thesis using peek False by (auto simp: xfree_helper_def)
  qed
qed

section \<open>The contract\<close>

definition opt_inv :: "opt \<Rightarrow> block set \<Rightarrow> bool" where
  "opt_inv s P \<longleftrightarrow> (\<exists>fl L. opt_ok s fl L \<and> P = payload ` L)"

lemma payload_inj: "32 \<le> snd b \<Longrightarrow> 32 \<le> snd c \<Longrightarrow> payload b = payload c \<longleftrightarrow> b = c"
  by (cases b; cases c) (auto simp: payload_def)

lemma opt_ok_size: "opt_ok s fl L \<Longrightarrow> b \<in> L \<Longrightarrow> 32 \<le> snd b"
  unfolding opt_ok_def good_cell_def by blast

lemma payload_remove:
  assumes "opt_ok s fl L" and "b \<in> L"
  shows "payload ` (L - {b}) = payload ` L - {payload b}"
proof -
  have "inj_on payload L"
    by (rule inj_onI) (use payload_inj opt_ok_size [OF assms(1)] in blast)
  then show ?thesis using inj_on_image_set_diff [of payload L L "{b}"] assms(2) by simp
qed

lemma payload_fresh:
  assumes "opt_ok s fl (insert b L)" and "b \<notin> L"
  shows "payload b \<notin> payload ` L"
proof
  assume "payload b \<in> payload ` L"
  then obtain c where "c \<in> L" "payload b = payload c" by auto
  then show False using payload_inj [of b c] opt_ok_size [OF assms(1)] assms(2) by auto
qed

lemma xmalloc_payload:
  assumes ok: "opt_ok s fl L" and n: "n + 8 < 2 ^ 64"
  shows "xmalloc s n = Inl OutOfBounds \<and> no_memory s \<or>
    (\<exists>s' b fl'. xmalloc s n = Inr (s', fst (payload b)) \<and> n \<le> snd (payload b) \<and> opt_ok s' fl' (insert b L) \<and>
       b \<notin> L \<and> same_on L (memory s) (memory s'))"
proof -
  have u: "unat (word_of_nat n + 8 :: 64 word) = n + 8"
  proof -
    have "(word_of_nat n + 8 :: 64 word) = word_of_nat (n + 8)" by simp
    then show ?thesis using n by (simp add: unat_of_nat take_bit_nat_def del: of_nat_add)
  qed
  from xmalloc_helper_ok [OF ok, of "n + 8"] show ?thesis
    unfolding xmalloc_def u
  proof
    assume "\<exists>s' c k fl'. xmalloc_helper s (n + 8) = Inr (s', c + 8) \<and> opt_ok s' fl' (insert (c, k) L) \<and>
      (c, k) \<notin> L \<and> n + 8 \<le> k \<and> hp_os (op_heap s') = hp_os (op_heap s) \<and> same_on L (memory s) (memory s')"
    then obtain s' c k fl' where r: "xmalloc_helper s (n + 8) = Inr (s', c + 8)" "opt_ok s' fl' (insert (c, k) L)"
      "(c, k) \<notin> L" "n + 8 \<le> k" "same_on L (memory s) (memory s')" by blast
    then show "xmalloc_helper s (n + 8) = Inl OutOfBounds \<and> no_memory s \<or>
      (\<exists>s' b fl'. xmalloc_helper s (n + 8) = Inr (s', fst (payload b)) \<and> n \<le> snd (payload b) \<and>
        opt_ok s' fl' (insert b L) \<and> b \<notin> L \<and> same_on L (memory s) (memory s'))"
      by (intro disjI2 exI [of _ s'] exI [of _ "(c, k)"] exI [of _ fl']) (simp add: payload_def)
  qed simp
qed

lemma xfree_payload:
  assumes ok: "opt_ok s fl L" and b: "b \<in> L"
  shows "\<exists>s' fl'. xfree s (fst (payload b)) = Inr s' \<and> opt_ok s' fl' (L - {b}) \<and>
    same_on (L - {b}) (memory s) (memory s')"
  using xfree_helper_ok [OF ok, of "fst b" "snd b"] b by (auto simp: xfree_def payload_def)

interpretation opt: block_pool opt_inv xmalloc xfree "\<lambda>n. n \<le> 2 ^ 64 - 9"
proof
  fix s P
  assume "opt_inv s P"
  then obtain fl L where ok: "opt_ok s fl L" and P: "P = payload ` L" by (auto simp: opt_inv_def)
  show "disj_blocks P"
    unfolding disj_blocks_def P
  proof (intro ballI impI)
    fix x y
    assume "x \<in> payload ` L" "y \<in> payload ` L" "x \<noteq> y"
    then obtain b c where bc: "b \<in> L" "c \<in> L" "b \<noteq> c" "x = payload b" "y = payload c" by auto
    then have "apart_ext b c" using ok unfolding opt_ok_def by blast
    then show "apart x y"
      using extent_ge [of "snd b"] extent_ge [of "snd c"] opt_ok_size [OF ok bc(1)] opt_ok_size [OF ok bc(2)]
      by (auto simp: bc apart_ext_def apart_def payload_def)
  qed
  show "0 < k" if "(p, k) \<in> P" for p k
    using that opt_ok_size [OF ok] by (force simp: P payload_def)
next
  fix s P n s' p
  assume a: "opt_inv s P" "n \<le> 2 ^ 64 - 9" "xmalloc s n = Inr (s', p)"
  then obtain fl L where ok: "opt_ok s fl L" and P: "P = payload ` L" by (auto simp: opt_inv_def)
  have "n + 8 < 2 ^ 64" using a(2) by simp
  from xmalloc_payload [OF ok this] a(3) obtain b fl' where
    b: "p = fst (payload b)" "n \<le> snd (payload b)" "opt_ok s' fl' (insert b L)" "b \<notin> L" by auto
  have "(p, snd (payload b)) = payload b" by (simp add: b(1))
  then show "\<exists>k. n \<le> k \<and> (p, k) \<notin> P \<and> opt_inv s' (insert (p, k) P)"
    using b(2,3) payload_fresh [OF b(3,4)] unfolding opt_inv_def P by (metis image_insert)
next
  fix s P p k
  assume a: "opt_inv s P" "(p, k) \<in> P"
  then obtain fl L where ok: "opt_ok s fl L" and P: "P = payload ` L" by (auto simp: opt_inv_def)
  then obtain b where b: "b \<in> L" "(p, k) = payload b" using a(2) by auto
  then have "p = fst (payload b)" by (metis fst_conv)
  with xfree_payload [OF ok b(1)] show "\<exists>s'. xfree s p = Inr s' \<and> opt_inv s' (P - {(p, k)})"
    unfolding opt_inv_def P b(2) using payload_remove [OF ok b(1)] by metis
qed

section \<open>Properties\<close>

text \<open>The allocator before the first call.\<close>

definition opt_init :: "((nat \<Rightarrow> bool) \<Rightarrow> nat \<Rightarrow> nat option) \<Rightarrow> opt" where
  "opt_init os = \<lparr>op_heap = \<lparr>hp_mem = (\<lambda>_. 0), hp_mapped = (\<lambda>_. False), hp_os = os\<rparr>, heads = replicate 16 0\<rparr>"

lemma opt_init_inv: "mmap_ok os \<Longrightarrow> opt_inv (opt_init os) {}"
proof -
  assume "mmap_ok os"
  then have "opt_ok (opt_init os) (\<lambda>_. []) {}" by (simp add: opt_ok_def opt_init_def cells_def)
  then show ?thesis unfolding opt_inv_def by (metis image_empty)
qed

text \<open>
  C21. No client whose requests are at most \<open>2 ^ 64 - 9\<close> bytes can make the allocator hand out
  overlapping memory: after any series of such requests and of releases that runs to its end,
  starting from the empty allocator, all blocks that the client still holds have
  different addresses, are at least as large as asked for, and are pairwise disjoint. Above that
  size the addition of the header wraps around and the block is too small (\<open>xmalloc_wraps\<close>).
\<close>

theorem opt_malloc_client_safe:
  assumes "mmap_ok os" and "\<forall>n. Alloc n \<in> set rs \<longrightarrow> n \<le> 2 ^ 64 - 9"
    and "opt.run_client rs (opt_init os) [] = Inr (s, hs)"
  shows "\<exists>P. disj_blocks P \<and> distinct (map fst hs) \<and> (\<forall>(p, n) \<in> set hs. \<exists>k \<ge> n. (p, k) \<in> P)"
proof -
  have "opt.owns {} []" by (simp add: opt.owns_def)
  from opt.run_client_safe [OF opt_init_inv [OF assms(1)] this _ assms(3)] assms(2)
  obtain P where "opt_inv s P" "opt.owns P hs" by blast
  then show ?thesis by (intro exI [of _ P]) (simp add: opt.owns_def opt.inv_disjoint)
qed

text \<open>A machine that has one region of memory to give, from 1048576 on.\<close>

definition ex_os :: "(nat \<Rightarrow> bool) \<Rightarrow> nat \<Rightarrow> nat option" where
  "ex_os p n =
     (if n \<le> 4194304 \<and> list_all (\<lambda>k. \<not> p (1048576 + k)) [0..<round_page n] then Some 1048576 else None)"

lemma ex_os_ok: "mmap_ok ex_os"
proof -
  have "\<not> p b" if "list_all (\<lambda>k. \<not> p (1048576 + k)) [0..<r]" "1048576 \<le> b" "b < 1048576 + r" for p b r
  proof -
    have "b - 1048576 \<in> set [0..<r]" "1048576 + (b - 1048576) = b" using that by auto
    then show ?thesis using that(1) by (metis list_all_iff)
  qed
  moreover have "round_page n \<le> 4198399" if "n \<le> 4194304" for n
    using that div_le_mono [of "n + 4095" 4198399 4096] by (simp add: round_page_def)
  ultimately show ?thesis by (fastforce simp: mmap_ok_def ex_os_def split: if_splits)
qed

lemma ex_run: "\<exists>s. opt.run_client [Alloc 2000000, Release 7] (opt_init ex_os) [] = Inr (s, [(1048584, 2000000)])"
  by (simp add: xmalloc_def xmalloc_helper_def HEAP_SIZE_def FL_CELL_def mmap_def opt_init_def ex_os_def
      opt_poke_def poke_def mapped_range_iff round_page_def list_all_iff)

text \<open>
  Two requests that split the region in halves, a release that puts one half back into its bin,
  and a request that takes it from there.
\<close>

definition ex_map :: "nat \<Rightarrow> bool" where
  "ex_map b \<longleftrightarrow> 1048576 \<le> b \<and> b < 2097152"

lemma ex_poke:
  "hp_mapped (op_heap s) = ex_map \<Longrightarrow> 1048576 \<le> a \<Longrightarrow> a + 8 \<le> 2097152 \<Longrightarrow>
   opt_poke s a v = Inr (s\<lparr>op_heap := (op_heap s)\<lparr>hp_mem := store64 (hp_mem (op_heap s)) a (word_of_nat v)\<rparr>\<rparr>)"
  by (simp add: opt_poke_def poke_def mapped_range_iff ex_map_def)

lemma ex_peek:
  "hp_mapped (op_heap s) = ex_map \<Longrightarrow> 1048576 \<le> a \<Longrightarrow> a + 8 \<le> 2097152 \<Longrightarrow>
   opt_peek s a = Inr (unat (load64 (hp_mem (op_heap s)) a))"
  by (simp add: opt_peek_def peek_def mapped_range_iff ex_map_def)

lemma ex_mmap:
  "mmap (op_heap (opt_init ex_os)) HEAP_SIZE =
    Inr ((op_heap (opt_init ex_os))\<lparr>hp_mapped := ex_map\<rparr>, 1048576)"
  by (simp add: mmap_def opt_init_def ex_os_def HEAP_SIZE_def list_all_iff round_page_def ex_map_def fun_eq_iff)

lemma ex_index:
  "get_fl_index 500008 = Inr 14" "get_fl_index 400008 = Inr 14" "get_fl_index 300008 = Inr 14"
  "get_fl_index 524288 = Inr 14"
  by (simp_all add: get_fl_index_def get_fl_index_loop.simps)

text \<open>After the first split: the memory of the two halves, and the list of their bin.\<close>

definition ex_bin :: "opt \<Rightarrow> nat \<Rightarrow> bool" where
  "ex_bin s a \<longleftrightarrow> hp_mapped (op_heap s) = ex_map \<and> length (heads s) = 16 \<and> heads s ! 14 = a"

lemma ex_split:
  "\<exists>s. redistribute (opt_init ex_os) 14 = Inr s \<and> ex_bin s 1048576 \<and>
    load64 (hp_mem (op_heap s)) 1048576 = 524288 \<and> load64 (hp_mem (op_heap s)) 1048584 = 1572864 \<and>
    load64 (hp_mem (op_heap s)) 1572872 = 0"
proof -
  define s0 where "s0 = (opt_init ex_os)\<lparr>op_heap := (op_heap (opt_init ex_os))\<lparr>hp_mapped := ex_map\<rparr>\<rparr>"
  have h0: "heads (opt_init ex_os) = replicate 16 0" by (simp add: opt_init_def)
  have s0: "hp_mapped (op_heap s0) = ex_map" "heads s0 = replicate 16 0" by (simp_all add: s0_def h0)
  have r15: "redistribute (opt_init ex_os) 15 = bind_res (make_fl_cell s0 1048576 HEAP_SIZE) (\<lambda>s.
       bind_res (wr (heads s) 15 1048576) (\<lambda>hd. Inr (s\<lparr>heads := hd\<rparr>)))"
    by (simp add: redistribute.simps [of _ 15] h0 ex_mmap s0_def)
  have r14: "redistribute (opt_init ex_os) 14 = bind_res (redistribute (opt_init ex_os) 15) (\<lambda>s. pull_from_above s 14)"
    by (simp add: redistribute.simps [of _ 14] h0)
  show ?thesis
    unfolding r14 r15
    by (simp add: make_fl_cell_def ex_poke ex_peek s0 pull_from_above_def pop_def insert_fl_cell_def HEAP_SIZE_def
       mem_simps Let_def ex_bin_def)
qed

lemma ex_pop:
  assumes "ex_bin s a" and "1048576 \<le> a" and "a + 16 \<le> 2097152" and "redistribute t 14 = Inr s"
    and "get_fl_index (n + 8) = Inr 14" and "32 \<le> n + 8" and "n + 8 \<le> HEAP_SIZE"
  shows "\<exists>s'. xmalloc t n = Inr (s', a + 8) \<and> ex_bin s' (unat (load64 (hp_mem (op_heap s)) (a + 8))) \<and>
    hp_mem (op_heap s') = hp_mem (op_heap s)"
proof -
  have u: "unat (word_of_nat n + 8 :: 64 word) = n + 8"
  proof -
    have "(word_of_nat n + 8 :: 64 word) = word_of_nat (n + 8)" by simp
    then show ?thesis using assms(7) by (simp add: unat_of_nat take_bit_nat_def HEAP_SIZE_def del: of_nat_add)
  qed
  have p: "rd (heads s) 14 = Inr a" using assms(1) by (simp add: ex_bin_def)
  show ?thesis
    unfolding xmalloc_def u
    using assms p by (simp add: xmalloc_helper_def FL_CELL_def Let_def pop_def ex_peek ex_bin_def)
qed

lemma ex_run_bins:
  "\<exists>s. opt.run_client [Alloc 500000, Alloc 400000, Release 1, Alloc 300000] (opt_init ex_os) [] =
    Inr (s, [(1048584, 300000), (1572872, 400000)])"
proof -
  obtain s0 where s0: "redistribute (opt_init ex_os) 14 = Inr s0" "ex_bin s0 1048576"
    "load64 (hp_mem (op_heap s0)) 1048576 = 524288" "load64 (hp_mem (op_heap s0)) 1048584 = 1572864"
    "load64 (hp_mem (op_heap s0)) 1572872 = 0" using ex_split by blast
  have stay: "redistribute s 14 = Inr s" if "ex_bin s a" "a \<noteq> 0" for s a
    using that by (simp add: redistribute.simps [of _ 14] ex_bin_def)
  obtain s1 where s1: "xmalloc (opt_init ex_os) 500000 = Inr (s1, 1048584)" "ex_bin s1 1572864"
    "hp_mem (op_heap s1) = hp_mem (op_heap s0)"
    using ex_pop [OF s0(2) _ _ s0(1), of 500000] s0 by (auto simp: ex_index HEAP_SIZE_def)
  obtain s2 where s2: "xmalloc s1 400000 = Inr (s2, 1572872)" "ex_bin s2 0"
    "hp_mem (op_heap s2) = hp_mem (op_heap s0)"
    using ex_pop [OF s1(2) _ _ stay [OF s1(2)], of 400000] s1 s0 by (auto simp: ex_index HEAP_SIZE_def)
  obtain s3 where s3: "xfree s2 1048584 = Inr s3" "ex_bin s3 1048576"
    using s2(2,3) s0(3)
    by (simp add: xfree_def xfree_helper_def Let_def ex_peek ex_bin_def ex_index HEAP_SIZE_def insert_fl_cell_def ex_poke)
  obtain s4 where "xmalloc s3 300000 = Inr (s4, 1048584)"
    using ex_pop [OF s3(2) _ _ stay [OF s3(2)], of 300000] by (auto simp: ex_index HEAP_SIZE_def)
  then show ?thesis using s1(1) s2(1) s3(1) by simp
qed

theorem opt_malloc_client_safe_witness:
  "\<exists>P k l. disj_blocks P \<and> 300000 \<le> k \<and> (1048584, k) \<in> P \<and> 400000 \<le> l \<and> (1572872, l) \<in> P"
proof -
  obtain s where "opt.run_client [Alloc 500000, Alloc 400000, Release 1, Alloc 300000] (opt_init ex_os) [] =
    Inr (s, [(1048584, 300000), (1572872, 400000)])" using ex_run_bins by blast
  from opt_malloc_client_safe [OF ex_os_ok _ this] show ?thesis by auto
qed

text \<open>
  \<^verbatim>\<open>xmalloc\<close> is total: unless the operating system refuses memory it returns a new block of at
  least the size asked for, and it changes no byte of any block in use; so does \<^verbatim>\<open>xfree\<close>, which never
  fails on a block in use.
\<close>

theorem xmalloc_xfree_preserve:
  assumes "opt_inv s P" and "n + 8 < 2 ^ 64"
  shows "(xmalloc s n = Inl OutOfBounds \<and> no_memory s \<or>
      (\<exists>s' p k. xmalloc s n = Inr (s', p) \<and> n \<le> k \<and> (p, k) \<notin> P \<and> opt_inv s' (insert (p, k) P) \<and>
         (\<forall>(q, j) \<in> P. \<forall>a. q \<le> a \<longrightarrow> a < q + j \<longrightarrow> memory s' a = memory s a))) \<and>
    (\<forall>(p, k) \<in> P. \<exists>s'. xfree s p = Inr s' \<and> opt_inv s' (P - {(p, k)}) \<and>
       (\<forall>(q, j) \<in> P - {(p, k)}. \<forall>a. q \<le> a \<longrightarrow> a < q + j \<longrightarrow> memory s' a = memory s a))"
proof -
  obtain fl L where ok: "opt_ok s fl L" and P: "P = payload ` L" using assms(1) by (auto simp: opt_inv_def)
  have pay: "\<forall>(q, j) \<in> payload ` K. \<forall>a. q \<le> a \<longrightarrow> a < q + j \<longrightarrow> m' a = m a"
    if s: "same_on K m m'" and K: "K \<subseteq> L" for K m m'
  proof (rule ballI)
    fix x
    assume "x \<in> payload ` K"
    then obtain b where b: "b \<in> K" "x = payload b" by blast
    have sz: "32 \<le> snd b" using opt_ok_size [OF ok] b(1) K by blast
    have "m' a = m a" if "fst b \<le> a" "a < fst b + extent (snd b)" for a
      using s b(1) that unfolding same_on_def by blast
    then show "case x of (q, j) \<Rightarrow> \<forall>a. q \<le> a \<longrightarrow> a < q + j \<longrightarrow> m' a = m a"
      using sz extent_ge [of "snd b"] by (auto simp: b(2) payload_def)
  qed
  have "xmalloc s n = Inl OutOfBounds \<and> no_memory s \<or>
      (\<exists>s' p k. xmalloc s n = Inr (s', p) \<and> n \<le> k \<and> (p, k) \<notin> P \<and> opt_inv s' (insert (p, k) P) \<and>
         (\<forall>(q, j) \<in> P. \<forall>a. q \<le> a \<longrightarrow> a < q + j \<longrightarrow> memory s' a = memory s a))"
    using xmalloc_payload [OF ok assms(2)]
  proof
    assume "\<exists>s' b fl'. xmalloc s n = Inr (s', fst (payload b)) \<and> n \<le> snd (payload b) \<and>
      opt_ok s' fl' (insert b L) \<and> b \<notin> L \<and> same_on L (memory s) (memory s')"
    then obtain s' b fl' where r: "xmalloc s n = Inr (s', fst (payload b))" "n \<le> snd (payload b)"
      "opt_ok s' fl' (insert b L)" "b \<notin> L" "same_on L (memory s) (memory s')" by blast
    have "opt_inv s' (insert (fst (payload b), snd (payload b)) P)"
      unfolding opt_inv_def P using r(3) by (intro exI [of _ fl'] exI [of _ "insert b L"]) simp
    moreover have "(fst (payload b), snd (payload b)) \<notin> P" using payload_fresh [OF r(3,4)] P by simp
    ultimately show ?thesis using r(1,2) pay [OF r(5)] unfolding P by blast
  qed simp
  moreover have "\<exists>s'. xfree s (fst x) = Inr s' \<and> opt_inv s' (P - {x}) \<and>
       (\<forall>(q, j) \<in> P - {x}. \<forall>a. q \<le> a \<longrightarrow> a < q + j \<longrightarrow> memory s' a = memory s a)" if x: "x \<in> P" for x
  proof -
    obtain b where b: "b \<in> L" "x = payload b" using x P by auto
    from xfree_payload [OF ok b(1)] obtain s' fl' where r: "xfree s (fst (payload b)) = Inr s'"
      "opt_ok s' fl' (L - {b})" "same_on (L - {b}) (memory s) (memory s')" by blast
    have e: "P - {x} = payload ` (L - {b})" using payload_remove [OF ok b(1)] P b(2) by simp
    then have "opt_inv s' (P - {x})" using r(2) unfolding opt_inv_def by blast
    then show ?thesis using r(1) pay [OF r(3)] b(2) unfolding e by auto
  qed
  ultimately show ?thesis by fastforce
qed

lemma ex_xmalloc: "\<exists>s. xmalloc (opt_init ex_os) 2000000 = Inr (s, 1048584)"
  using ex_run by (auto simp: bind_res_eq_Inr)

theorem xmalloc_xfree_preserve_witness:
  "\<exists>s p k. xmalloc (opt_init ex_os) 2000000 = Inr (s, p) \<and> 2000000 \<le> k \<and> opt_inv s {(p, k)}"
  using xmalloc_xfree_preserve [OF opt_init_inv [OF ex_os_ok], of 2000000] ex_xmalloc by auto

text \<open>Copying into a block in use changes only that block.\<close>

lemma copy_ok:
  assumes ok: "opt_ok s fl (insert b L)" and b: "b \<notin> L" and c: "c \<in> L" and n: "n \<le> snd c - 8" "n + 8 \<le> snd b"
  shows "\<exists>s'. copy_bytes (op_heap s) (fst b + 8) (fst c + 8) n = Inr (op_heap s') \<and>
    s' = s\<lparr>op_heap := op_heap s'\<rparr> \<and> hp_os (op_heap s') = hp_os (op_heap s) \<and>
    opt_ok s' fl (insert b L) \<and> same_on L (memory s) (memory s') \<and>
    (\<forall>i < n. memory s' (fst b + 8 + i) = memory s (fst c + 8 + i))"
proof -
  let ?m = "write_bytes (memory s) (fst b + 8) (read_bytes (memory s) (fst c + 8) n)"
  let ?s = "s\<lparr>op_heap := (op_heap s)\<lparr>hp_mem := ?m\<rparr>\<rparr>"
  have gb: "good_cell (op_heap s) b" and gc: "good_cell (op_heap s) c" using ok c unfolding opt_ok_def by blast+
  have "mapped_range (op_heap s) (fst b + 8) n" "mapped_range (op_heap s) (fst c + 8) n"
    using gb gc n extent_ge [of "snd b"] extent_ge [of "snd c"] by (auto simp: good_cell_def mapped_range_iff)
  then have cp: "copy_bytes (op_heap s) (fst b + 8) (fst c + 8) n = Inr (op_heap ?s)" by (simp add: copy_bytes_def)
  have out: "?m a = memory s a" if "a < fst b \<or> fst b + extent (snd b) \<le> a" for a
    using that n(2) extent_ge [of "snd b"] by (intro write_bytes_other) auto
  have "load64 ?m (fst b) = load64 (memory s) (fst b)" by (rule load64_cong) (simp add: write_bytes_other)
  then have "good_cell ((op_heap s)\<lparr>hp_mem := ?m\<rparr>) b" using gb by (simp add: good_cell_def mapped_range_iff)
  then have in_b: "good_cell ((op_heap s)\<lparr>hp_mem := ?m\<rparr>) d \<and> fst b \<le> fst d \<and>
      fst d + extent (snd d) \<le> fst b + extent (snd b)" if "d \<in> {b}" for d using that by simp
  note R = opt_ok_replace [OF ok b, of ?m "{b}", OF out in_b]
  have "opt_ok ?s fl ({b} \<union> L)" "same_on L (memory s) ?m" using R by auto
  moreover have "?m (fst b + 8 + i) = memory s (fst c + 8 + i)" if "i < n" for i
    using that by (simp add: write_bytes_in read_bytes_def)
  ultimately show ?thesis using cp by (intro exI [of _ ?s]) simp
qed

text \<open>
  \<^verbatim>\<open>xrealloc\<close> keeps the data: unless the operating system refuses memory it returns a block of at
  least the new size whose first bytes are those of the old block, all of them; the old block
  is released (or kept, if it was large enough), and no other block in use changes.
\<close>

theorem xrealloc_keeps_data:
  assumes inv: "opt_inv s P" and p: "(p, k) \<in> P" and n: "0 < n" "n + 8 < 2 ^ 64"
  shows "xrealloc s p n = Inl OutOfBounds \<and> no_memory s \<or>
    (\<exists>s' q j. xrealloc s p n = Inr (s', q) \<and> n \<le> j \<and> k \<le> j \<and>
       opt_inv s' (insert (q, j) (P - {(p, k)})) \<and> (\<forall>i < k. memory s' (q + i) = memory s (p + i)))"
proof -
  obtain fl L where ok: "opt_ok s fl L" and P: "P = payload ` L" using inv by (auto simp: opt_inv_def)
  obtain c where c: "c \<in> L" "(p, k) = payload c" using p P by auto
  have pk: "p = fst c + 8" "k = snd c - 8" using c(2) by (simp_all add: payload_def)
  have g: "good_cell (op_heap s) c" using ok c(1) unfolding opt_ok_def by blast
  have sz: "32 \<le> snd c" "extent (snd c) \<le> 2 ^ 63" using g by (auto simp: good_cell_def)
  have "opt_peek s (fst c + 0) = Inr (unat (load64 (memory s) (fst c + 0)))"
    using opt_ok_cell(1) [OF ok, of "fst c" "snd c" 0] c(1) sz extent_ge [of "snd c"] by auto
  moreover have "load64 (memory s) (fst c) = word_of_nat (snd c)" using g by (simp add: good_cell_def)
  moreover have "snd c < 2 ^ 64" using sz(2) extent_ge [of "snd c"] by simp
  ultimately have peek: "opt_peek s (fst c) = Inr (snd c)" by (simp add: unat_of_nat take_bit_nat_def)
  have "(word_of_nat n + 8 :: 64 word) = word_of_nat (n + 8)" by simp
  then have u: "unat (word_of_nat n + 8 :: 64 word) = n + 8"
    using n(2) by (simp add: unat_of_nat take_bit_nat_def del: of_nat_add)
  have rest: "payload ` (L - {c}) = P - {(p, k)}" using payload_remove [OF ok c(1)] P c(2) by simp
  show ?thesis
  proof (cases "n + 8 \<le> snd c")
    case True
    then have "xrealloc s p n = Inr (s, p)"
      using n(1) peek u by (simp add: xrealloc_def xrealloc_helper_def pk)
    moreover have "insert (p, k) (P - {(p, k)}) = P" using p by blast
    ultimately show ?thesis using inv True pk by (intro disjI2 exI [of _ s] exI [of _ p] exI [of _ k]) simp
  next
    case False
    have step: "xrealloc s p n = bind_res (xmalloc_helper s (n + 8)) (\<lambda>(s, new_item).
        bind_res (copy_bytes (op_heap s) new_item p k) (\<lambda>hp.
        bind_res (xfree_helper (s\<lparr>op_heap := hp\<rparr>) p) (\<lambda>s. Inr (s, new_item))))"
      using False n(1) peek u by (simp add: xrealloc_def xrealloc_helper_def pk)
    from xmalloc_helper_ok [OF ok, of "n + 8"] show ?thesis
    proof
      assume "\<exists>s' c k fl'. xmalloc_helper s (n + 8) = Inr (s', c + 8) \<and> opt_ok s' fl' (insert (c, k) L) \<and>
        (c, k) \<notin> L \<and> n + 8 \<le> k \<and> hp_os (op_heap s') = hp_os (op_heap s) \<and> same_on L (memory s) (memory s')"
      then obtain s1 d j fl1 where s1: "xmalloc_helper s (n + 8) = Inr (s1, d + 8)" "opt_ok s1 fl1 (insert (d, j) L)"
        "(d, j) \<notin> L" "n + 8 \<le> j" "same_on L (memory s) (memory s1)" by blast
      have "k \<le> snd c - 8" "k + 8 \<le> snd (d, j)" using pk sz(1) False s1(4) by auto
      from copy_ok [OF s1(2,3) c(1) this] obtain s2 where s2:
        "copy_bytes (op_heap s1) (d + 8) p k = Inr (op_heap s2)" "s2 = s1\<lparr>op_heap := op_heap s2\<rparr>"
        "opt_ok s2 fl1 (insert (d, j) L)" "\<forall>i < k. memory s2 (d + 8 + i) = memory s1 (p + i)"
        unfolding pk by auto
      have "(fst c, snd c) \<in> insert (d, j) L" using c(1) by simp
      from xfree_helper_ok [OF s2(3) this] obtain s3 fl3 where s3: "xfree_helper s2 p = Inr s3"
        "opt_ok s3 fl3 (insert (d, j) L - {c})" "same_on (insert (d, j) L - {c}) (memory s2) (memory s3)"
        unfolding pk by auto
      have new: "insert (d, j) L - {c} = insert (d, j) (L - {c})" using c(1) s1(3) by blast
      have "payload (d, j) = (d + 8, j - 8)" by (simp add: payload_def)
      then have "opt_inv s3 (insert (d + 8, j - 8) (P - {(p, k)}))"
        using s3(2) rest unfolding new opt_inv_def by (metis image_insert)
      moreover have "memory s3 (d + 8 + i) = memory s (p + i)" if "i < k" for i
      proof -
        have "memory s3 (d + 8 + i) = memory s2 (d + 8 + i)"
          using s3(3) that pk False s1(4) extent_ge [of j] unfolding new same_on_def by auto
        moreover have "memory s1 (p + i) = memory s (p + i)"
          using s1(5) c(1) that pk extent_ge [of "snd c"] unfolding same_on_def by auto
        ultimately show ?thesis using s2(4) that by simp
      qed
      moreover have "xrealloc s p n = Inr (s3, d + 8)" using step s1(1) s2(1) s3(1) s2(2) by simp
      ultimately show ?thesis
        using s1(4) False pk by (intro disjI2 exI [of _ s3] exI [of _ "d + 8"] exI [of _ "j - 8"]) auto
    next
      assume "xmalloc_helper s (n + 8) = Inl OutOfBounds \<and> no_memory s"
      then show ?thesis using step by simp
    qed
  qed
qed

theorem xrealloc_keeps_data_witness:
  "\<exists>s k s' q j. opt_inv s {(1048584, k)} \<and> xrealloc s 1048584 10 = Inr (s', q) \<and> opt_inv s' {(q, j)} \<and> k \<le> j"
proof -
  obtain s where x: "xmalloc (opt_init ex_os) 2000000 = Inr (s, 1048584)" using ex_xmalloc by blast
  from opt.alloc_law [OF opt_init_inv [OF ex_os_ok] _ x] obtain k where
    k: "opt_inv s {(1048584, k)}" "2000000 \<le> k" by auto
  have "xrealloc s 1048584 10 \<noteq> Inl OutOfBounds"
    using x by (auto simp: xrealloc_def xrealloc_helper_def xmalloc_def xmalloc_helper_def HEAP_SIZE_def FL_CELL_def
        mmap_def opt_init_def ex_os_def opt_poke_def poke_def opt_peek_def peek_def mapped_range_iff round_page_def
        list_all_iff mem_simps)
  with xrealloc_keeps_data [OF k(1), of 1048584 k 10] obtain s' q j where
    "xrealloc s 1048584 10 = Inr (s', q)" "k \<le> j" "opt_inv s' {(q, j)}" by auto
  then show ?thesis using k(1) by blast
qed

text \<open>The addition in \<^verbatim>\<open>xmalloc\<close> wraps: a request of \<open>2\<^sup>64 - 8\<close> bytes is served like one of none.\<close>

lemma xmalloc_wraps: "xmalloc s (2 ^ 64 - 8) = xmalloc_helper s 0"
  by (simp add: xmalloc_def)

end
