(* ===== verification/Hmalloc.thy ===== *)
theory Hmalloc
  imports Heap
begin

text \<open>
  The free-list allocator of \<^verbatim>\<open>hw08/hw08-assignment/hmalloc.c\<close> and its descendant
  \<^verbatim>\<open>chal2/starter-ch02/hwx_malloc.c\<close>, which has the same list functions. The free cells form a doubly
  linked list in the order of their addresses: a cell has its size at offset 0, the next cell at
  8 and the last one at 16. Neighbours are merged when a cell is put back. A loop over the list
  need not end when the links form a cycle; the result \<open>None\<close> stands for that.
\<close>

section \<open>Programs over the heap\<close>

type_synonym 'a prog = "'a res option"

definition bindP :: "'a prog \<Rightarrow> ('a \<Rightarrow> 'b prog) \<Rightarrow> 'b prog" where
  "bindP m f = Option.bind m (\<lambda>r. case r of Inl e \<Rightarrow> Some (Inl e) | Inr x \<Rightarrow> f x)"

definition retP :: "'a \<Rightarrow> 'a prog" where
  "retP x = Some (Inr x)"

definition failP :: "c_error \<Rightarrow> 'a prog" where
  "failP e = Some (Inl e)"

lemma bindP_simps [simp]:
  "bindP (Some (Inl e)) f = Some (Inl e)" "bindP (Some (Inr x)) f = f x" "bindP (retP x) f = f x"
  by (simp_all add: bindP_def retP_def)

lemma bindP_assoc: "bindP (bindP m f) g = bindP m (\<lambda>x. bindP (f x) g)"
  by (cases m) (auto simp: bindP_def split: sum.split)

lemma bindP_mono [partial_function_mono]:
  assumes "mono_option B" "\<And>y. mono_option (C y)"
  shows "mono_option (\<lambda>f. bindP (B f) (\<lambda>y. C y f))"
  unfolding bindP_def
  by (rule bind_mono [OF assms(1)], rename_tac r, case_tac r) (auto intro: assms option.const_mono)

section \<open>Model\<close>

definition PAGE_SIZE :: nat where "PAGE_SIZE = 4096"

definition FLC :: nat where "FLC = 24"

record hm =
  hm_heap :: heap
  hm_head :: nat
  pages_mapped :: int
  pages_unmapped :: int
  chunks_allocated :: int
  chunks_freed :: int
  free_length :: int

definition get :: "hm \<Rightarrow> nat \<Rightarrow> nat prog" where
  "get s a = Some (peek (hm_heap s) a)"

definition put :: "hm \<Rightarrow> nat \<Rightarrow> nat \<Rightarrow> hm prog" where
  "put s a v = Some (bind_res (poke (hm_heap s) a v) (\<lambda>h. Inr (s\<lparr>hm_heap := h\<rparr>)))"

definition add64 :: "nat \<Rightarrow> nat \<Rightarrow> nat" where
  "add64 a b = (a + b) mod 2 ^ 64"

definition sub64 :: "nat \<Rightarrow> nat \<Rightarrow> nat" where
  "sub64 a b = (2 ^ 64 + a - b) mod 2 ^ 64"

definition hm_make_fl_cell :: "hm \<Rightarrow> nat \<Rightarrow> nat \<Rightarrow> hm prog" where
  "hm_make_fl_cell s addr sz =
     bindP (put s addr sz) (\<lambda>s. bindP (put s (addr + 16) 0) (\<lambda>s. put s (addr + 8) 0))"

partial_function (option) hm_fl_length :: "hm \<Rightarrow> nat \<Rightarrow> int prog" where
  "hm_fl_length s cell =
     (if cell = 0 then retP 0
      else bindP (get s (cell + 8)) (\<lambda>next. bindP (hm_fl_length s next) (\<lambda>k. retP (1 + k))))"

definition free_list_length :: "hm \<Rightarrow> int prog" where
  "free_list_length s = hm_fl_length s (hm_head s)"

definition hgetstats :: "hm \<Rightarrow> hm prog" where
  "hgetstats s = bindP (free_list_length s) (\<lambda>k. retP (s\<lparr>free_length := k\<rparr>))"

definition hm_div_up :: "nat \<Rightarrow> nat" where
  "hm_div_up xx = (let zz = xx div PAGE_SIZE in if zz * PAGE_SIZE = xx then zz else zz + 1)"

text \<open>The loop of \<^verbatim>\<open>insert_fl_cell\<close>.\<close>

partial_function (option) insert_loop :: "hm \<Rightarrow> nat \<Rightarrow> nat \<Rightarrow> hm prog" where
  "insert_loop s cell cur =
     (if cur = 0 then retP s
      else if cell < cur then
        bindP (get s (cur + 16)) (\<lambda>l.
        bindP (if l \<noteq> 0 then bindP (put s (l + 8) cell) (\<lambda>s. bindP (get s (cur + 16)) (\<lambda>l. put s (cell + 16) l))
               else bindP (put s (cell + 16) 0) (\<lambda>s. retP (s\<lparr>hm_head := cell\<rparr>))) (\<lambda>s.
        bindP (put s (cell + 8) cur) (\<lambda>s. put s (cur + 16) cell)))
      else
        bindP (get s (cur + 8)) (\<lambda>next.
        if next = 0 then
          bindP (put s (cur + 8) cell) (\<lambda>s. bindP (put s (cell + 16) cur) (\<lambda>s. put s (cell + 8) 0))
        else insert_loop s cell next))"

definition hm_insert_fl_cell :: "hm \<Rightarrow> nat \<Rightarrow> hm prog" where
  "hm_insert_fl_cell s cell =
     (if hm_head s = 0 then
        bindP (put s (cell + 16) 0) (\<lambda>s. bindP (put s (cell + 8) 0) (\<lambda>s. retP (s\<lparr>hm_head := cell\<rparr>)))
      else insert_loop s cell (hm_head s))"

partial_function (option) find_last :: "hm \<Rightarrow> nat \<Rightarrow> nat prog" where
  "find_last s cell =
     (if cell = 0 then retP 0
      else bindP (get s (cell + 8)) (\<lambda>next. if next \<noteq> 0 then find_last s next else retP cell))"

partial_function (option) search_size :: "hm \<Rightarrow> nat \<Rightarrow> nat \<Rightarrow> nat prog" where
  "search_size s cell sz =
     (if cell = 0 then retP 0
      else
        bindP (get s cell) (\<lambda>n.
        if sz \<le> n then retP cell else bindP (get s (cell + 8)) (\<lambda>next. search_size s next sz)))"

definition split_chunk :: "hm \<Rightarrow> nat \<Rightarrow> nat \<Rightarrow> hm prog" where
  "split_chunk s cell sz =
     bindP (get s cell) (\<lambda>n.
     let leftover = sub64 n sz in
     bindP (put s cell sz) (\<lambda>s.
     bindP (hm_make_fl_cell s (cell + sz) leftover) (\<lambda>s.
       hm_insert_fl_cell s (cell + sz))))"

definition coalesce :: "hm \<Rightarrow> nat \<Rightarrow> hm prog" where
  "coalesce s cell =
     bindP (get s cell) (\<lambda>n.
     let cell_end = cell + n in
     bindP (get s (cell + 8)) (\<lambda>next.
     bindP
       (if next \<noteq> 0 then
          if cell_end = next then
            bindP (get s (next + 8)) (\<lambda>nn.
            bindP (put s (cell + 8) nn) (\<lambda>s.
            bindP (get s cell) (\<lambda>n.
            bindP (get s next) (\<lambda>k.
            bindP (put s cell (add64 n k)) (\<lambda>s.
            bindP (get s (next + 8)) (\<lambda>nn.
            if nn \<noteq> 0 then put s (nn + 16) cell else retP s))))))
          else if next < cell_end \<and> cell < next then failP AssertFailed
          else retP s
        else retP s) (\<lambda>s.
     bindP (get s (cell + 16)) (\<lambda>last.
     if last \<noteq> 0 then
       bindP (get s last) (\<lambda>k.
       let last_end = last + k in
       if last_end = cell then
         bindP (get s (cell + 8)) (\<lambda>nn.
         bindP (put s (last + 8) nn) (\<lambda>s.
         bindP (get s last) (\<lambda>k.
         bindP (get s cell) (\<lambda>n.
         bindP (put s last (add64 k n)) (\<lambda>s.
         bindP (get s (cell + 8)) (\<lambda>nn.
         if nn \<noteq> 0 then put s (nn + 16) last else retP s))))))
       else if cell < last_end \<and> last < cell then failP AssertFailed
       else retP s)
     else retP s))))"

subsection \<open>hmalloc and hfree\<close>

text \<open>Taking a cell out of the list; the statements after \<^verbatim>\<open>split_chunk\<close> in \<^verbatim>\<open>hmalloc\<close>.\<close>

definition hm_unlink :: "hm \<Rightarrow> nat \<Rightarrow> hm prog" where
  "hm_unlink s any_free =
     bindP (get s (any_free + 16)) (\<lambda>last.
     bindP (get s (any_free + 8)) (\<lambda>next.
     bindP (if last \<noteq> 0 then put s (last + 8) next else retP s) (\<lambda>s.
     bindP (if next \<noteq> 0 then put s (next + 16) last else retP s) (\<lambda>s.
       retP (if hm_head s = any_free then s\<lparr>hm_head := next\<rparr> else s)))))"

definition map_pages :: "hm \<Rightarrow> nat \<Rightarrow> (hm \<times> nat) prog" where
  "map_pages s n =
     Some (bind_res (mmap (hm_heap s) (n * PAGE_SIZE mod 2 ^ 64)) (\<lambda>(h, a). Inr (s\<lparr>hm_heap := h\<rparr>, a)))"

partial_function (option) hmalloc :: "hm \<Rightarrow> nat \<Rightarrow> (hm \<times> nat) prog" where
  "hmalloc s req =
     (let sz = (if add64 req 8 < FLC then FLC else add64 req 8) in
      if PAGE_SIZE \<le> sz then
        let num_mmap = hm_div_up sz in
        bindP (map_pages s num_mmap) (\<lambda>(s, new_page).
        bindP (put (s\<lparr>pages_mapped := pages_mapped s + int num_mmap\<rparr>) new_page (num_mmap * PAGE_SIZE)) (\<lambda>s.
          retP (s\<lparr>chunks_allocated := chunks_allocated s + 1\<rparr>, new_page + 8)))
      else
        bindP (search_size s (hm_head s) sz) (\<lambda>any_free.
        if any_free \<noteq> 0 then
          bindP (get s any_free) (\<lambda>n.
          bindP (if FLC < sub64 n sz then split_chunk s any_free sz else retP s) (\<lambda>s.
          bindP (hm_unlink s any_free) (\<lambda>s.
            retP (s\<lparr>chunks_allocated := chunks_allocated s + 1\<rparr>, any_free + 8))))
        else
          bindP (map_pages s 1) (\<lambda>(s, new_page).
          bindP (hm_make_fl_cell (s\<lparr>pages_mapped := pages_mapped s + 1\<rparr>) new_page PAGE_SIZE) (\<lambda>s.
          bindP (hm_insert_fl_cell s new_page) (\<lambda>s.
          bindP (coalesce s new_page) (\<lambda>s. hmalloc s (sz - 8)))))))"

definition hfree :: "hm \<Rightarrow> nat \<Rightarrow> hm prog" where
  "hfree s item =
     bindP (get s (item - 8)) (\<lambda>n.
     if PAGE_SIZE \<le> n then
       retP (s\<lparr>hm_heap := munmap (hm_heap s) item (hm_div_up n * PAGE_SIZE),
               pages_unmapped := pages_unmapped s + int (hm_div_up n), chunks_freed := chunks_freed s + 1\<rparr>)
     else
       bindP (hm_make_fl_cell s (item - 8) n) (\<lambda>s.
       bindP (hm_insert_fl_cell s (item - 8)) (\<lambda>s.
       bindP (coalesce s (item - 8)) (\<lambda>s. retP (s\<lparr>chunks_freed := chunks_freed s + 1\<rparr>)))))"

section \<open>Cells\<close>

abbreviation hmem :: "hm \<Rightarrow> mem" where
  "hmem s \<equiv> hp_mem (hm_heap s)"

text \<open>Field \<open>k\<close> of the cell at \<open>a\<close>: its size, the next and the last cell.\<close>

definition fld :: "hm \<Rightarrow> nat \<Rightarrow> nat \<Rightarrow> nat" where
  "fld s a k = unat (load64 (hmem s) (a + 8 * k))"

definition upd :: "hm \<Rightarrow> nat \<Rightarrow> nat \<Rightarrow> nat \<Rightarrow> hm" where
  "upd s a k v = s\<lparr>hm_heap := (hm_heap s)\<lparr>hp_mem := store64 (hmem s) (a + 8 * k) (word_of_nat v)\<rparr>\<rparr>"

definition layout :: "block set \<Rightarrow> bool" where
  "layout B \<longleftrightarrow> disj_blocks B \<and> (\<forall>(a, n) \<in> B. 0 < a \<and> 24 \<le> n \<and> a + n \<le> 2 ^ 63)"

definition all_mapped :: "(nat \<Rightarrow> bool) \<Rightarrow> block set \<Rightarrow> bool" where
  "all_mapped P B \<longleftrightarrow> (\<forall>(a, n) \<in> B. \<forall>x. a \<le> x \<longrightarrow> x < a + n \<longrightarrow> P x)"

text \<open>The memory of the blocks in \<open>L\<close> is the same in both states, and nothing was mapped or unmapped.\<close>

definition kept :: "block set \<Rightarrow> hm \<Rightarrow> hm \<Rightarrow> bool" where
  "kept L s s' \<longleftrightarrow> (\<forall>(a, n) \<in> L. \<forall>x. a \<le> x \<longrightarrow> x < a + n \<longrightarrow> hmem s' x = hmem s x)"

definition keeps :: "block set \<Rightarrow> hm \<Rightarrow> hm \<Rightarrow> bool" where
  "keeps L s s' \<longleftrightarrow> hp_mapped (hm_heap s') = hp_mapped (hm_heap s) \<and> hp_os (hm_heap s') = hp_os (hm_heap s) \<and> kept L s s'"

lemma upd_simps [simp]:
  "hp_mapped (hm_heap (upd s a k v)) = hp_mapped (hm_heap s)"
  "hp_os (hm_heap (upd s a k v)) = hp_os (hm_heap s)"
  "hm_head (upd s a k v) = hm_head s"
  by (simp_all add: upd_def)

lemma fld_ext [simp]:
  "fld (s\<lparr>hm_head := h\<rparr>) = fld s"
  "fld (s\<lparr>pages_mapped := i\<rparr>) = fld s"
  "fld (s\<lparr>chunks_allocated := i\<rparr>) = fld s"
  "fld (s\<lparr>chunks_freed := i\<rparr>) = fld s"
  "upd (s\<lparr>hm_head := h\<rparr>) a k v = (upd s a k v)\<lparr>hm_head := h\<rparr>"
  by (simp_all add: fld_def upd_def fun_eq_iff)

lemma fld_bound: "fld s a k < 2 ^ 64"
  using unsigned_less [of "load64 (hmem s) (a + 8 * k)"] by (simp add: fld_def)

lemma layout_apart:
  "layout B \<Longrightarrow> (a, n) \<in> B \<Longrightarrow> (b, m) \<in> B \<Longrightarrow> (a, n) \<noteq> (b, m) \<Longrightarrow> a + n \<le> b \<or> b + m \<le> a"
  by (force simp: layout_def disj_blocks_def apart_def)

lemma layout_cell: "layout B \<Longrightarrow> (a, n) \<in> B \<Longrightarrow> 0 < a \<and> 24 \<le> n \<and> a + n \<le> 2 ^ 63"
  by (auto simp: layout_def)

lemma layout_24:
  assumes "layout B" "(a, n) \<in> B" "(b, m) \<in> B" "a \<noteq> b"
  shows "a + 24 \<le> b \<or> b + 24 \<le> a"
  using layout_apart [OF assms(1-3)] layout_cell [OF assms(1,2)] layout_cell [OF assms(1,3)] assms(4) by auto

lemma layout_address:
  "layout B \<Longrightarrow> (a, n) \<in> B \<Longrightarrow> (a, m) \<in> B \<Longrightarrow> n = m"
  using layout_apart [of B a n a m] layout_cell [of B a n] layout_cell [of B a m] by auto

lemma layout_mono: "layout B \<Longrightarrow> C \<subseteq> B \<Longrightarrow> layout C"
  by (auto simp: layout_def intro: disj_blocks_subset)

lemma cell_mapped:
  "all_mapped P B \<Longrightarrow> (a, n) \<in> B \<Longrightarrow> layout B \<Longrightarrow> k < 3 \<Longrightarrow> i < 8 \<Longrightarrow> P (a + 8 * k + i)"
  using layout_cell [of B a n] by (auto simp: all_mapped_def)

text \<open>Reading and writing the fields of cells.\<close>

lemma get_fld:
  assumes lay: "layout B" and "a \<in> fst ` B" and m: "all_mapped (hp_mapped (hm_heap s)) B"
  shows "get s a = retP (fld s a 0)" "get s (a + 8) = retP (fld s a 1)" "get s (a + 16) = retP (fld s a 2)"
proof -
  obtain n where a: "(a, n) \<in> B" using assms(2) by auto
  have "mapped_range (hm_heap s) (a + 8 * k) 8" if "k < 3" for k
    unfolding mapped_range_iff using cell_mapped [OF m a lay that] by (metis le_add_diff_inverse nat_add_left_cancel_less)
  from this [of 0] this [of 1] this [of 2]
  show "get s a = retP (fld s a 0)" "get s (a + 8) = retP (fld s a 1)" "get s (a + 16) = retP (fld s a 2)"
    by (simp_all add: get_def peek_def retP_def fld_def)
qed

lemma put_upd:
  assumes lay: "layout B" and "a \<in> fst ` B" and m: "all_mapped (hp_mapped (hm_heap s)) B"
  shows "put s a v = retP (upd s a 0 v)" "put s (a + 8) v = retP (upd s a 1 v)" "put s (a + 16) v = retP (upd s a 2 v)"
proof -
  obtain n where a: "(a, n) \<in> B" using assms(2) by auto
  have "mapped_range (hm_heap s) (a + 8 * k) 8" if "k < 3" for k
    unfolding mapped_range_iff using cell_mapped [OF m a lay that] by (metis le_add_diff_inverse nat_add_left_cancel_less)
  from this [of 0] this [of 1] this [of 2]
  show "put s a v = retP (upd s a 0 v)" "put s (a + 8) v = retP (upd s a 1 v)" "put s (a + 16) v = retP (upd s a 2 v)"
    by (simp_all add: put_def poke_def retP_def upd_def)
qed

lemma fld_upd:
  assumes lay: "layout B" and a: "a \<in> fst ` B" and b: "b \<in> fst ` B" and "k < 3" "j < 3" and v: "v < 2 ^ 64"
  shows "fld (upd s a k v) b j = (if b = a \<and> j = k then v else fld s b j)"
proof (cases "b = a \<and> j = k")
  case True
  then show ?thesis using v by (simp add: fld_def upd_def mem_simps unat_of_nat take_bit_nat_def)
next
  case False
  then have "a + 8 * k + 8 \<le> b + 8 * j \<or> b + 8 * j + 8 \<le> a + 8 * k"
    using layout_24 [OF lay, of a _ b] a b assms(4,5) by (cases "a = b") fastforce+
  then show ?thesis using False by (auto simp: fld_def upd_def mem_simps)
qed

lemma keeps_refl [simp]: "keeps L s s"
  by (simp add: keeps_def kept_def)

lemma keeps_head [simp]: "keeps L s (t\<lparr>hm_head := h\<rparr>) = keeps L s t"
  by (simp add: keeps_def kept_def)

lemma kept_trans: "kept L s t \<Longrightarrow> kept L t u \<Longrightarrow> kept L s u"
  by (fastforce simp: kept_def)

lemma keeps_trans: "keeps L s t \<Longrightarrow> keeps L t u \<Longrightarrow> keeps L s u"
  by (auto simp: keeps_def intro: kept_trans)

lemma keeps_upd:
  assumes lay: "layout B" and ab: "a \<in> fst ` B" and L: "a \<notin> fst ` L" "L \<subseteq> B" and k: "k < 3" and t: "keeps L s t"
  shows "keeps L s (upd t a k v)"
proof -
  have "kept L s (upd t a k v)"
    unfolding kept_def
  proof (clarify)
    obtain n where a: "(a, n) \<in> B" using ab by auto
    fix b m x assume b: "(b, m) \<in> L" "b \<le> x" "x < b + m"
    have "a + n \<le> b \<or> b + m \<le> a" using layout_apart [OF lay a, of b m] b L by force
    then have "x < a + 8 * k \<or> a + 8 * k + 8 \<le> x" using b k layout_cell [OF lay a] by auto
    then have "hmem (upd t a k v) x = hmem t x" by (auto simp: upd_def mem_simps)
    then show "hmem (upd t a k v) x = hmem s x" using t b by (fastforce simp: keeps_def kept_def)
  qed
  then show ?thesis using t by (simp add: keeps_def)
qed

section \<open>The list\<close>

definition first :: "block list \<Rightarrow> nat \<Rightarrow> nat" where
  "first xs e = (case xs of [] \<Rightarrow> e | b # _ \<Rightarrow> fst b)"

fun final :: "nat \<Rightarrow> block list \<Rightarrow> nat" where
  "final p [] = p"
| "final p (b # bs) = final (fst b) bs"

fun dll :: "(nat \<Rightarrow> nat \<Rightarrow> nat) \<Rightarrow> nat \<Rightarrow> block list \<Rightarrow> nat \<Rightarrow> bool" where
  "dll F p [] e = True"
| "dll F p (b # bs) e \<longleftrightarrow> F (fst b) 2 = p \<and> F (fst b) 1 = first bs e \<and> dll F (fst b) bs e"

lemma first_simps [simp]: "first [] e = e" "first (b # bs) e = fst b" "first (xs @ b # bs) e = first xs (fst b)"
  by (simp_all add: first_def split: list.split)

lemma final_append [simp]: "final p (xs @ ys) = final (final p xs) ys"
  by (induction xs arbitrary: p) auto

lemma dll_append: "dll F p (xs @ ys) e \<longleftrightarrow> dll F p xs (first ys e) \<and> dll F (final p xs) ys e"
  by (induction xs arbitrary: p) (auto simp: first_def split: list.split)

lemma dll_cong:
  "(\<And>b. b \<in> set xs \<Longrightarrow> F (fst b) 1 = G (fst b) 1 \<and> F (fst b) 2 = G (fst b) 2) \<Longrightarrow> dll F p xs e = dll G p xs e"
  by (induction xs arbitrary: p) auto

text \<open>Insertion in the order of the addresses, and the merging of neighbours.\<close>

fun ins :: "block \<Rightarrow> block list \<Rightarrow> block list" where
  "ins b [] = [b]"
| "ins b (c # cs) = (if fst b < fst c then b # c # cs else c # ins b cs)"

lemma set_ins [simp]: "set (ins b cs) = insert b (set cs)"
  by (induction cs) auto

text \<open>What changing the links alone leaves as it was.\<close>

definition relinked :: "block set \<Rightarrow> block set \<Rightarrow> hm \<Rightarrow> hm \<Rightarrow> bool" where
  "relinked B L s s' \<longleftrightarrow> hp_mapped (hm_heap s') = hp_mapped (hm_heap s) \<and> hp_os (hm_heap s') = hp_os (hm_heap s) \<and>
     (\<forall>a \<in> fst ` B. fld s' a 0 = fld s a 0) \<and> keeps L s s'"

lemma relinked_refl [simp]: "relinked B L s s"
  by (simp add: relinked_def)

lemma relinked_head [simp]: "relinked B L s (t\<lparr>hm_head := h\<rparr>) = relinked B L s t"
  by (simp add: relinked_def)

lemma relinked_trans: "relinked B L s t \<Longrightarrow> relinked B L t u \<Longrightarrow> relinked B L s u"
  by (auto simp: relinked_def intro: keeps_trans)

lemma relinked_upd:
  assumes "layout B" "a \<in> fst ` B" "a \<notin> fst ` L" "L \<subseteq> B" "k = 1 \<or> k = 2" "v < 2 ^ 64" "relinked B L s t"
  shows "relinked B L s (upd t a k v)"
proof -
  have "fld (upd t a k v) b 0 = fld t b 0" if "b \<in> fst ` B" for b
    using fld_upd [OF assms(1,2) that, of k 0 v t] assms(5,6) by auto
  moreover have "keeps L s (upd t a k v)"
    using assms(5,7) by (intro keeps_upd [OF assms(1-4)]) (auto simp: relinked_def)
  ultimately show ?thesis using assms(7) by (simp add: relinked_def)
qed

definition linked :: "hm \<Rightarrow> block list \<Rightarrow> bool" where
  "linked s fs \<longleftrightarrow> hm_head s = first fs 0 \<and> dll (fld s) 0 fs 0"

lemma layout_small: "layout B \<Longrightarrow> a \<in> fst ` B \<Longrightarrow> 0 < a \<and> a < 2 ^ 64"
  by (fastforce simp: layout_def)

lemma dll_upd:
  assumes "layout B" "a \<in> fst ` B" "fst ` set xs \<subseteq> fst ` B" "a \<notin> fst ` set xs" "k < 3" "v < 2 ^ 64"
  shows "dll (fld (upd s a k v)) p xs e = dll (fld s) p xs e"
proof (rule dll_cong)
  fix b assume b: "b \<in> set xs"
  then have "fst b \<in> fst ` B" "fst b \<noteq> a" using assms(3,4) by auto
  then show "fld (upd s a k v) (fst b) 1 = fld s (fst b) 1 \<and> fld (upd s a k v) (fst b) 2 = fld s (fst b) 2"
    using fld_upd [OF assms(1,2) _ assms(5) _ assms(6)] by simp
qed

text \<open>The two ways \<^verbatim>\<open>insert_fl_cell\<close> changes the links.\<close>

lemma link_before:
  assumes lay: "layout B" and m: "all_mapped (hp_mapped (hm_heap s)) B" and L: "L \<subseteq> B" "a \<in> fst ` B" "a \<notin> fst ` L"
    and fs: "fst ` set (xs @ c # cs) \<subseteq> fst ` B - fst ` L - {a}" "distinct (map fst (xs @ c # cs))"
    and li: "linked s (xs @ c # cs)" and lt: "a < fst c"
  shows "\<exists>s'. insert_loop s a (fst c) = retP s' \<and> linked s' (xs @ (a, n) # c # cs) \<and> relinked B L s s'"
proof -
  note u = fld_upd [OF lay] and g = get_fld [OF lay] and p = put_upd [OF lay] and d = dll_upd [OF lay]
  have c: "fst c \<in> fst ` B" "fst c \<notin> fst ` L" "fst c \<noteq> a" "fst c \<notin> fst ` set cs"
    and cs: "fst ` set cs \<subseteq> fst ` B" "a \<notin> fst ` set cs"
    using fs by auto
  note sm = layout_small [OF lay L(2)] layout_small [OF lay c(1)]
  have F: "dll (fld s) 0 xs (fst c)" "fld s (fst c) 2 = final 0 xs" "fld s (fst c) 1 = first cs 0" "dll (fld s) (fst c) cs 0"
    using li by (auto simp: linked_def dll_append)
  show ?thesis
  proof (cases xs rule: rev_cases)
    case Nil
    let ?s = "upd (upd ((upd s a 2 0)\<lparr>hm_head := a\<rparr>) a 1 (fst c)) (fst c) 2 a"
    have "insert_loop s a (fst c) = retP ?s"
      using Nil F lt sm by (subst insert_loop.simps) (simp add: g p m c L)
    moreover have "linked ?s (xs @ (a, n) # c # cs)"
      using Nil F sm c cs L by (simp add: linked_def u d)
    moreover have "relinked B L s ?s"
      using sm by (intro relinked_upd [OF lay]) (simp_all add: c L relinked_upd [OF lay])
    ultimately show ?thesis by blast
  next
    case (snoc ys e)
    have "fst ` set (ys @ [e]) \<subseteq> fst ` B - fst ` L - {a}" using fs(1) snoc by (simp add: image_Un)
    then have e: "fst e \<in> fst ` B" "fst e \<notin> fst ` L" "fst e \<noteq> a"
      and ys: "fst ` set ys \<subseteq> fst ` B" "a \<notin> fst ` set ys" by auto
    have e': "fst e \<noteq> fst c" "fst e \<notin> fst ` set ys" "fst e \<notin> fst ` set cs" and ys': "fst c \<notin> fst ` set ys"
      using fs(2) snoc by auto
    note se = layout_small [OF lay e(1)]
    let ?s = "upd (upd (upd (upd s (fst e) 1 a) a 2 (fst e)) a 1 (fst c)) (fst c) 2 a"
    have "insert_loop s a (fst c) = retP ?s"
      using snoc F lt sm se by (subst insert_loop.simps) (simp add: g p u m c e e' L)
    moreover have "linked ?s (xs @ (a, n) # c # cs)"
      using snoc F sm se c cs e e' ys ys' L li by (simp add: linked_def u d dll_append)
    moreover have "relinked B L s ?s"
      using sm se by (intro relinked_upd [OF lay]) (simp_all add: c e e' L relinked_upd [OF lay])
    ultimately show ?thesis by blast
  qed
qed

lemma link_after:
  assumes lay: "layout B" and m: "all_mapped (hp_mapped (hm_heap s)) B" and L: "L \<subseteq> B" "a \<in> fst ` B" "a \<notin> fst ` L"
    and fs: "fst ` set (xs @ [c]) \<subseteq> fst ` B - fst ` L - {a}" "distinct (map fst (xs @ [c]))"
    and li: "linked s (xs @ [c])" and lt: "fst c < a"
  shows "\<exists>s'. insert_loop s a (fst c) = retP s' \<and> linked s' (xs @ [c, (a, n)]) \<and> relinked B L s s'"
proof -
  note u = fld_upd [OF lay] and g = get_fld [OF lay] and p = put_upd [OF lay] and d = dll_upd [OF lay]
  have c: "fst c \<in> fst ` B" "fst c \<notin> fst ` L" "fst c \<noteq> a" "fst c \<notin> fst ` set xs"
    and xs: "fst ` set xs \<subseteq> fst ` B" "a \<notin> fst ` set xs"
    using fs by auto
  note sm = layout_small [OF lay L(2)] layout_small [OF lay c(1)]
  have F: "dll (fld s) 0 xs (fst c)" "fld s (fst c) 2 = final 0 xs" "fld s (fst c) 1 = 0"
    using li by (auto simp: linked_def dll_append)
  let ?s = "upd (upd (upd s (fst c) 1 a) a 2 (fst c)) a 1 0"
  have "insert_loop s a (fst c) = retP ?s"
    using F lt sm by (subst insert_loop.simps) (simp add: g p m c L)
  moreover have "linked ?s (xs @ [c, (a, n)])"
    using F sm c xs L li by (simp add: linked_def u d dll_append)
  moreover have "relinked B L s ?s"
    using sm by (intro relinked_upd [OF lay]) (simp_all add: c L relinked_upd [OF lay])
  ultimately show ?thesis by blast
qed

lemma insert_loop_ok:
  assumes lay: "layout B" and m: "all_mapped (hp_mapped (hm_heap s)) B" and L: "L \<subseteq> B" "a \<in> fst ` B" "a \<notin> fst ` L"
    and "fst ` set (xs @ c # cs) \<subseteq> fst ` B - fst ` L - {a}" "distinct (map fst (xs @ c # cs))" "linked s (xs @ c # cs)"
  shows "\<exists>s'. insert_loop s a (fst c) = retP s' \<and> linked s' (xs @ ins (a, n) (c # cs)) \<and> relinked B L s s'"
  using assms(6-8)
proof (induction cs arbitrary: xs c)
  case Nil
  then show ?case
    using link_before [OF lay m L, of xs c "[]" n] link_after [OF lay m L, of xs c n] by fastforce
next
  case (Cons d ds)
  show ?case
  proof (cases "a < fst c")
    case True
    then show ?thesis using link_before [OF lay m L, of xs c "d # ds" n] Cons.prems by simp
  next
    case False
    have c: "fst c \<in> fst ` B" "fst d \<in> fst ` B" "fst c \<noteq> a" using Cons.prems(1) by auto
    have F: "fld s (fst c) 1 = fst d" using Cons.prems(3) by (simp add: linked_def dll_append)
    note sm = layout_small [OF lay c(1)] layout_small [OF lay c(2)]
    have "insert_loop s a (fst c) = insert_loop s a (fst d)"
      using False sm F by (subst insert_loop.simps) (simp add: get_fld [OF lay c(1) m])
    moreover have "\<exists>s'. insert_loop s a (fst d) = retP s' \<and> linked s' ((xs @ [c]) @ ins (a, n) (d # ds)) \<and> relinked B L s s'"
      by (rule Cons.IH) (use Cons.prems in auto)
    ultimately show ?thesis using False by simp
  qed
qed

lemma insert_ok:
  assumes lay: "layout B" and m: "all_mapped (hp_mapped (hm_heap s)) B" and L: "L \<subseteq> B" "a \<in> fst ` B" "a \<notin> fst ` L"
    and fs: "fst ` set fs \<subseteq> fst ` B - fst ` L - {a}" "distinct (map fst fs)" "linked s fs"
  shows "\<exists>s'. hm_insert_fl_cell s a = retP s' \<and> linked s' (ins (a, n) fs) \<and> relinked B L s s'"
proof (cases fs)
  case Nil
  note sm = layout_small [OF lay L(2)]
  let ?s = "(upd (upd s a 2 0) a 1 0)\<lparr>hm_head := a\<rparr>"
  have "hm_insert_fl_cell s a = retP ?s"
    using Nil fs by (simp add: hm_insert_fl_cell_def linked_def put_upd [OF lay L(2)] m)
  moreover have "linked ?s (ins (a, n) fs)"
    using Nil sm by (simp add: linked_def fld_upd [OF lay] L)
  moreover have "relinked B L s ?s"
    by (simp add: relinked_upd [OF lay] L)
  ultimately show ?thesis by blast
next
  case (Cons c cs)
  then have "fst c \<in> fst ` B" using fs by auto
  then have "hm_insert_fl_cell s a = insert_loop s a (fst c)"
    using Cons fs layout_small [OF lay, of "fst c"] by (simp add: hm_insert_fl_cell_def linked_def)
  then show ?thesis using insert_loop_ok [OF lay m L, of "[]" c cs n] fs Cons by simp
qed

subsection \<open>Merging\<close>

text \<open>
  \<^verbatim>\<open>coalesce\<close> on lists: the cell takes in the next one if they touch, and is taken in by the last
  one if they touch.
\<close>

fun merge :: "block list \<Rightarrow> block list" where
  "merge (c # d # ds) = (if fst c + snd c = fst d then (fst c, snd c + snd d) # ds else c # d # ds)"
| "merge cs = cs"

definition merge_last :: "block list \<Rightarrow> block list \<Rightarrow> block list" where
  "merge_last xs cs = (if xs = [] then cs else butlast xs @ merge (last xs # cs))"

text \<open>The common part of both merges: the cell \<open>d\<close> after \<open>c\<close> becomes a part of \<open>c\<close>.\<close>

definition absorb :: "hm \<Rightarrow> nat \<Rightarrow> nat \<Rightarrow> hm prog" where
  "absorb s c d =
     bindP (get s (d + 8)) (\<lambda>nn.
     bindP (put s (c + 8) nn) (\<lambda>s.
     bindP (get s c) (\<lambda>n.
     bindP (get s d) (\<lambda>k.
     bindP (put s c (add64 n k)) (\<lambda>s.
     bindP (get s (d + 8)) (\<lambda>nn.
     if nn \<noteq> 0 then put s (nn + 16) c else retP s))))))"

text \<open>The memory of the blocks in use, the mapping and the sizes of other cells.\<close>

definition resized :: "block set \<Rightarrow> block set \<Rightarrow> nat \<Rightarrow> nat \<Rightarrow> hm \<Rightarrow> hm \<Rightarrow> bool" where
  "resized B L c n s s' \<longleftrightarrow> hp_mapped (hm_heap s') = hp_mapped (hm_heap s) \<and> hp_os (hm_heap s') = hp_os (hm_heap s) \<and>
     (\<forall>a \<in> fst ` B. fld s' a 0 = (if a = c then n else fld s a 0)) \<and> keeps L s s'"

lemma absorb_ok:
  assumes lay: "layout B" and m: "all_mapped (hp_mapped (hm_heap s)) B" and L: "L \<subseteq> B"
    and fs: "fst ` set (xs @ c # d # ds) \<subseteq> fst ` B - fst ` L" "distinct (map fst (xs @ c # d # ds))"
    and sz: "fld s (fst c) 0 + fld s (fst d) 0 = n" "n < 2 ^ 64"
    and li: "linked s (xs @ c # d # ds)"
  shows "\<exists>s'. absorb s (fst c) (fst d) = retP s' \<and> linked s' (xs @ (fst c, n) # ds) \<and> resized B L (fst c) n s s'"
proof -
  note u = fld_upd [OF lay] and g = get_fld [OF lay] and p = put_upd [OF lay] and dd = dll_upd [OF lay]
  have c: "fst c \<in> fst ` B" "fst c \<notin> fst ` L" "fst c \<noteq> fst d" "fst c \<notin> fst ` set xs" "fst c \<notin> fst ` set ds"
    and d: "fst d \<in> fst ` B" "fst d \<notin> fst ` L" "fst d \<notin> fst ` set xs" "fst d \<notin> fst ` set ds"
    and x: "fst ` set xs \<subseteq> fst ` B" "fst ` set ds \<subseteq> fst ` B"
    using fs by auto
  note sm = layout_small [OF lay c(1)] layout_small [OF lay d(1)]
  have F: "dll (fld s) 0 xs (fst c)" "fld s (fst c) 2 = final 0 xs" "fld s (fst d) 1 = first ds 0"
    "dll (fld s) (fst d) ds 0" "hm_head s = first xs (fst c)"
    using li by (auto simp: linked_def dll_append)
  have fb: "first ds 0 < 2 ^ 64" using F(3) fld_bound by metis
  have n: "add64 (fld s (fst c) 0) (fld s (fst d) 0) = n" using sz by (simp add: add64_def)
  let ?t = "upd (upd s (fst c) 1 (first ds 0)) (fst c) 0 n"
  have run: "absorb s (fst c) (fst d) = (if first ds 0 \<noteq> 0 then put ?t (first ds 0 + 16) (fst c) else retP ?t)"
    using F sm fb sz(2) n c(1,3) d(1) by (simp add: absorb_def g p u m)
  have t: "resized B L (fst c) n s ?t"
    using fb sz(2) c keeps_upd [OF lay c(1,2) L] by (auto simp: resized_def u)
  show ?thesis
  proof (cases ds)
    case Nil
    have "linked ?t (xs @ (fst c, n) # ds)"
      using F fb sz(2) c x Nil by (simp add: linked_def dll_append u dd)
    then show ?thesis using run t Nil by auto
  next
    case (Cons e es)
    have e: "fst e \<in> fst ` B" "fst e \<notin> fst ` L" "fst e \<noteq> fst c" "fst e \<notin> fst ` set xs" "fst e \<notin> fst ` set es"
      and es: "fst ` set es \<subseteq> fst ` B" "fst c \<notin> fst ` set es"
      using fs x(2) c(5) by (simp_all add: Cons)
    note se = layout_small [OF lay e(1)]
    let ?s = "upd ?t (fst e) 2 (fst c)"
    have "absorb s (fst c) (fst d) = retP ?s" using run Cons se by (simp add: p m e)
    moreover have "linked ?s (xs @ (fst c, n) # ds)"
      using F fb sz(2) c x Cons e es sm se by (simp add: linked_def dll_append u dd)
    moreover have "resized B L (fst c) n s ?s"
      using t sm e keeps_upd [OF lay e(1,2) L] by (auto simp: resized_def u)
    ultimately show ?thesis by blast
  qed
qed

section \<open>The invariant\<close>

definition in_order :: "block list \<Rightarrow> bool" where
  "in_order fs \<longleftrightarrow> sorted_wrt (\<lambda>b c. fst b < fst c) fs"

text \<open>No two free cells touch.\<close>

definition gaps :: "block list \<Rightarrow> bool" where
  "gaps fs \<longleftrightarrow> sorted_wrt (\<lambda>b c. fst b + snd b < fst c) fs"

text \<open>
  The free cells \<open>fs\<close> and the cells in use \<open>L\<close> are disjoint pieces of mapped memory, each begins
  with its size, and the free ones are linked in the order of their addresses.
\<close>

definition hm_base :: "hm \<Rightarrow> block list \<Rightarrow> block set \<Rightarrow> bool" where
  "hm_base s fs L \<longleftrightarrow> mmap_ok (hp_os (hm_heap s)) \<and> layout (set fs \<union> L) \<and>
     all_mapped (hp_mapped (hm_heap s)) (set fs \<union> L) \<and> set fs \<inter> L = {} \<and>
     (\<forall>(a, n) \<in> set fs \<union> L. fld s a 0 = n) \<and> in_order fs \<and> linked s fs"

lemma ballD2: "\<forall>(a, n) \<in> B. P a n \<Longrightarrow> (a, n) \<in> B \<Longrightarrow> P a n"
  by auto

lemma hm_baseD:
  assumes "hm_base s fs L"
  shows "mmap_ok (hp_os (hm_heap s))" "layout (set fs \<union> L)" "all_mapped (hp_mapped (hm_heap s)) (set fs \<union> L)"
    "set fs \<inter> L = {}" "\<And>a n. (a, n) \<in> set fs \<union> L \<Longrightarrow> fld s a 0 = n" "in_order fs" "linked s fs"
proof -
  have "\<forall>(a, n) \<in> set fs \<union> L. fld s a 0 = n" using assms unfolding hm_base_def by (elim conjE)
  then show "\<And>a n. (a, n) \<in> set fs \<union> L \<Longrightarrow> fld s a 0 = n" by (rule ballD2)
qed (use assms in \<open>simp_all add: hm_base_def\<close>)

lemma hm_base_addrs:
  assumes "hm_base s fs L"
  shows "fst ` set fs \<subseteq> fst ` (set fs \<union> L) - fst ` L" "distinct (map fst fs)"
proof -
  have "a \<notin> fst ` L" if "(a, n) \<in> set fs" for a n
  proof
    assume "a \<in> fst ` L"
    then obtain m where "(a, m) \<in> L" by auto
    then have "n = m" using layout_address [OF hm_baseD(2) [OF assms], of a n m] that by blast
    then show False using \<open>(a, m) \<in> L\<close> that hm_baseD(4) [OF assms] by auto
  qed
  then show "fst ` set fs \<subseteq> fst ` (set fs \<union> L) - fst ` L" by force
  have "sorted_wrt (<) (map fst fs)" using hm_baseD(6) [OF assms] by (simp add: in_order_def sorted_wrt_map)
  then show "distinct (map fst fs)" by (simp add: strict_sorted_iff)
qed

lemma all_mapped_simps:
  "all_mapped P (insert (a, n) B) \<longleftrightarrow> (\<forall>x. a \<le> x \<longrightarrow> x < a + n \<longrightarrow> P x) \<and> all_mapped P B"
  "all_mapped P (A \<union> B) \<longleftrightarrow> all_mapped P A \<and> all_mapped P B"
  by (auto simp: all_mapped_def)

lemma layout_insert:
  "layout (insert (a, n) B) \<longleftrightarrow> layout B \<and> 0 < a \<and> 24 \<le> n \<and> a + n \<le> 2 ^ 63 \<and>
     (\<forall>(b, k) \<in> B. (b, k) \<noteq> (a, n) \<longrightarrow> a + n \<le> b \<or> b + k \<le> a)"
  by (fastforce simp: layout_def disj_blocks_def apart_def)

text \<open>Two neighbours become one cell.\<close>

lemma layout_merge:
  assumes lay: "layout (insert (a, n) (insert (a + n, k) B))" and new: "(a, n) \<notin> B" "(a + n, k) \<notin> B"
  shows "layout (insert (a, n + k) B)"
proof -
  have l1: "layout (insert (a + n, k) B)" and l0: "layout B" and b: "0 < a" "24 \<le> n" "24 \<le> k" "a + n + k \<le> 2 ^ 63"
    using lay by (auto simp: layout_insert)
  have "a + (n + k) \<le> b \<or> b + j \<le> a" if "(b, j) \<in> B" for b j
  proof -
    have "a + n \<le> b \<or> b + j \<le> a" "a + n + k \<le> b \<or> b + j \<le> a + n" "24 \<le> j"
      using that lay new layout_cell [OF l0 that] by (auto simp: layout_insert)
    then show ?thesis by linarith
  qed
  then show ?thesis using l0 b by (auto simp: layout_insert)
qed

lemma in_order_append:
  "in_order (xs @ ys) \<longleftrightarrow> in_order xs \<and> in_order ys \<and> (\<forall>x \<in> set xs. \<forall>y \<in> set ys. fst x < fst y)"
  by (simp add: in_order_def sorted_wrt_append)

lemma in_order_Cons: "in_order (c # cs) \<longleftrightarrow> (\<forall>d \<in> set cs. fst c < fst d) \<and> in_order cs"
  by (simp add: in_order_def)

lemma gaps_append:
  "gaps (xs @ ys) \<longleftrightarrow> gaps xs \<and> gaps ys \<and> (\<forall>x \<in> set xs. \<forall>y \<in> set ys. fst x + snd x < fst y)"
  by (simp add: gaps_def sorted_wrt_append)

lemma gaps_Cons: "gaps (c # cs) \<longleftrightarrow> (\<forall>d \<in> set cs. fst c + snd c < fst d) \<and> gaps cs"
  by (simp add: gaps_def)

lemma gaps_Nil [simp]: "gaps []"
  by (simp add: gaps_def)

lemma absorb_base:
  assumes ok: "hm_base s (xs @ c # d # ds) L" and touch: "fst c + snd c = fst d"
  shows "\<exists>s'. absorb s (fst c) (fst d) = retP s' \<and> hm_base s' (xs @ (fst c, snd c + snd d) # ds) L \<and> keeps L s s'"
proof -
  let ?fs = "xs @ c # d # ds" and ?gs = "xs @ (fst c, snd c + snd d) # ds" and ?B = "set (xs @ c # d # ds) \<union> L"
  note b = hm_baseD [OF ok] and ad = hm_base_addrs [OF ok]
  obtain a n k where c: "c = (a, n)" and d: "d = (a + n, k)" using touch by (cases c; cases d) auto
  have B: "?B = insert (a, n) (insert (a + n, k) (set xs \<union> set ds \<union> L))" by (auto simp: c d)
  have new: "(a, n) \<notin> set xs \<union> set ds \<union> L" "(a + n, k) \<notin> set xs \<union> set ds \<union> L"
  proof -
    have "a \<notin> fst ` (set xs \<union> set ds)" "a + n \<notin> fst ` (set xs \<union> set ds)" using ad(2) by (auto simp: c d image_Un)
    then have "(a, n) \<notin> set xs \<union> set ds" "(a + n, k) \<notin> set xs \<union> set ds" by (metis fst_conv imageI)+
    then show "(a, n) \<notin> set xs \<union> set ds \<union> L" "(a + n, k) \<notin> set xs \<union> set ds \<union> L" using b(4) by (auto simp: c d)
  qed
  have lay: "layout (insert (a, n + k) (set xs \<union> set ds \<union> L))"
    using layout_merge [OF _ new] b(2) unfolding B by blast
  have sz: "fld s (fst c) 0 = n" "fld s (fst d) 0 = k" using b(5) by (auto simp: c d)
  have nk: "n + k < 2 ^ 64" using lay by (simp add: layout_insert)
  obtain s' where s': "absorb s (fst c) (fst d) = retP s'" "linked s' (xs @ (fst c, n + k) # ds)"
    "resized ?B L (fst c) (n + k) s s'"
    using absorb_ok [OF b(2,3) _ ad(1,2) _ nk b(7)] sz by auto
  have "fld s' e 0 = j" if "(e, j) \<in> set ?gs \<union> L" for e j
  proof (cases "e = a")
    case True
    have "(a, n + k) \<in> insert (a, n + k) (set xs \<union> set ds \<union> L)" "(e, j) \<in> insert (a, n + k) (set xs \<union> set ds \<union> L)"
      using that by (auto simp: c d)
    then have "j = n + k" using layout_address [OF lay] True by blast
    then show ?thesis using s'(3) True by (auto simp: resized_def c)
  next
    case False
    then have "(e, j) \<in> ?B" using that by (auto simp: c)
    then show ?thesis using s'(3) False b(5) [of e j] by (force simp: resized_def c)
  qed
  moreover have "in_order ?gs" using b(6) by (auto simp: in_order_append in_order_Cons c d)
  moreover have "set ?gs \<inter> L = {}"
  proof -
    have "(a, n + k) \<notin> L"
    proof
      assume "(a, n + k) \<in> L"
      then have "(a, n + k) \<in> ?B" "(a, n) \<in> ?B" by (auto simp: c)
      then have "n + k = n" by (rule layout_address [OF b(2)])
      then show False using layout_cell [OF b(2), of "a + n" k] by (auto simp: d)
    qed
    then show ?thesis using b(4) by (auto simp: c d)
  qed
  moreover have "all_mapped (hp_mapped (hm_heap s')) (set ?gs \<union> L)"
  proof -
    have "all_mapped (hp_mapped (hm_heap s)) (insert (a, n + k) (set xs \<union> set ds \<union> L))"
      using b(3) unfolding B all_mapped_simps by (metis add.assoc not_le_imp_less)
    moreover have "set ?gs \<union> L = insert (a, n + k) (set xs \<union> set ds \<union> L)" by (auto simp: c d)
    ultimately show ?thesis using s'(3) by (simp add: resized_def)
  qed
  moreover have "layout (set ?gs \<union> L)" using lay by (simp add: c d Un_assoc insert_commute)
  ultimately have "hm_base s' ?gs L"
    using s' b(1) by (auto simp: hm_base_def resized_def c d)
  then show ?thesis using s' by (auto simp: resized_def)
qed

subsection \<open>coalesce\<close>

lemma coalesce_absorb:
  "coalesce s cell =
     bindP (get s cell) (\<lambda>n.
     bindP (get s (cell + 8)) (\<lambda>next.
     bindP (if next \<noteq> 0 then if cell + n = next then absorb s cell next
              else if next < cell + n \<and> cell < next then failP AssertFailed else retP s else retP s) (\<lambda>s.
     bindP (get s (cell + 16)) (\<lambda>last.
     if last \<noteq> 0 then
       bindP (get s last) (\<lambda>k. if last + k = cell then absorb s last cell
         else if cell < last + k \<and> last < cell then failP AssertFailed else retP s)
     else retP s))))"
  unfolding coalesce_def absorb_def Let_def by (rule refl)

lemma hm_base_order:
  assumes "hm_base s (xs @ c # d # ds) L"
  shows "fst c + snd c \<le> fst d"
proof -
  have "fst c < fst d" using hm_baseD(6) [OF assms] by (auto simp: in_order_append in_order_Cons)
  then show ?thesis
    using layout_apart [OF hm_baseD(2) [OF assms], of "fst c" "snd c" "fst d" "snd d"] by auto
qed

lemma hm_base_cell:
  assumes "hm_base s (xs @ c # cs) L"
  shows "get s (fst c) = retP (snd c)" "get s (fst c + 8) = retP (first cs 0)" "get s (fst c + 16) = retP (final 0 xs)"
    "0 < fst c"
proof -
  have c: "fst c \<in> fst ` (set (xs @ c # cs) \<union> L)" by auto
  note b = hm_baseD [OF assms]
  have "fld s (fst c) 0 = snd c" using b(5) [of "fst c" "snd c"] by auto
  then show "get s (fst c) = retP (snd c)" "get s (fst c + 8) = retP (first cs 0)" "get s (fst c + 16) = retP (final 0 xs)"
    using b(7) by (simp_all add: get_fld [OF b(2) c b(3)] linked_def dll_append)
  show "0 < fst c" using layout_small [OF b(2) c] by simp
qed

text \<open>The first half of \<^verbatim>\<open>coalesce\<close>, then the second.\<close>

lemma merge_next_base:
  assumes ok: "hm_base s (xs @ c # ys) L"
  shows "\<exists>s' n. (if first ys 0 \<noteq> 0 then if fst c + snd c = first ys 0 then absorb s (fst c) (first ys 0)
        else if first ys 0 < fst c + snd c \<and> fst c < first ys 0 then failP AssertFailed else retP s else retP s) = retP s' \<and>
      snd c \<le> n \<and> merge (c # ys) = (fst c, n) # tl (merge (c # ys)) \<and> hm_base s' (xs @ merge (c # ys)) L \<and> keeps L s s'"
proof (cases ys)
  case Nil
  then show ?thesis using ok by (intro exI [of _ s] exI [of _ "snd c"]) auto
next
  case (Cons d ds)
  have d: "0 < fst d" using hm_base_cell(4) [of s "xs @ [c]" d ds L] ok Cons by simp
  have le: "fst c + snd c \<le> fst d" using hm_base_order ok Cons by blast
  show ?thesis
  proof (cases "fst c + snd c = fst d")
    case True
    then show ?thesis using absorb_base [OF ok [unfolded Cons] True] Cons d by auto
  next
    case False
    then show ?thesis using ok Cons d le by (intro exI [of _ s] exI [of _ "snd c"]) auto
  qed
qed

lemma merge_last_base:
  assumes ok: "hm_base s (xs @ (a, n) # ys) L"
  shows "\<exists>s'. (if final 0 xs \<noteq> 0 then bindP (get s (final 0 xs)) (\<lambda>k. if final 0 xs + k = a then absorb s (final 0 xs) a
         else if a < final 0 xs + k \<and> final 0 xs < a then failP AssertFailed else retP s) else retP s) = retP s' \<and>
      hm_base s' (merge_last xs ((a, n) # ys)) L \<and> keeps L s s'"
proof (cases xs rule: rev_cases)
  case Nil
  then show ?thesis using ok by (auto simp: merge_last_def)
next
  case (snoc zs e)
  have ok': "hm_base s (zs @ e # (a, n) # ys) L" using ok snoc by simp
  note e = hm_base_cell [OF ok']
  have le: "fst e + snd e \<le> a" using hm_base_order [OF ok'] by simp
  show ?thesis
  proof (cases "fst e + snd e = a")
    case True
    then show ?thesis using absorb_base [OF ok'] snoc e by (auto simp: merge_last_def)
  next
    case False
    then show ?thesis using ok' snoc e le by (intro exI [of _ s]) (auto simp: merge_last_def)
  qed
qed

lemma merge_gaps:
  assumes o: "in_order (c # ys)" and d: "\<And>d. d \<in> set ys \<Longrightarrow> fst c + snd c \<le> fst d" and g: "gaps ys"
  shows "gaps (merge (c # ys))"
proof (cases ys)
  case (Cons e es)
  have "fst c + snd c < fst d" if "d \<in> set es" for d
    using d [of e] g Cons that by (auto simp: gaps_Cons)
  then show ?thesis using g Cons d [of e] by (auto simp: gaps_Cons)
qed (simp add: gaps_Cons)

lemma hm_base_apart:
  assumes "hm_base s (xs @ c # ys) L"
  shows "d \<in> set ys \<Longrightarrow> fst c + snd c \<le> fst d" "x \<in> set xs \<Longrightarrow> fst x + snd x \<le> fst c" "24 \<le> snd c"
proof -
  note b = hm_baseD [OF assms]
  show "fst c + snd c \<le> fst d" if "d \<in> set ys"
  proof -
    have "fst c < fst d" using b(6) that by (auto simp: in_order_append in_order_Cons)
    then show ?thesis using that layout_apart [OF b(2), of "fst c" "snd c" "fst d" "snd d"] by auto
  qed
  show "fst x + snd x \<le> fst c" if "x \<in> set xs"
  proof -
    have "fst x < fst c" using b(6) that by (auto simp: in_order_append in_order_Cons)
    then show ?thesis using that layout_apart [OF b(2), of "fst x" "snd x" "fst c" "snd c"] by auto
  qed
  show "24 \<le> snd c" using layout_cell [OF b(2), of "fst c" "snd c"] by auto
qed

text \<open>
  Inserting a cell in order between free cells that do not touch each other, and merging it with
  its neighbours, gives a list without touching cells again; one of its cells covers the new one.
\<close>

lemma merge_covers: "\<exists>b \<in> set (merge_last xs (merge (c # ys))). snd c \<le> snd b"
proof -
  have m: "merge (c # ys) = hd (merge (c # ys)) # tl (merge (c # ys)) \<and> snd c \<le> snd (hd (merge (c # ys)))"
    by (cases ys) auto
  show ?thesis
  proof (cases xs rule: rev_cases)
    case (snoc zs e)
    obtain h t where h: "merge (c # ys) = h # t" "snd c \<le> snd h" using m by metis
    show ?thesis using snoc h by (auto simp: merge_last_def)
  qed (use m in \<open>auto simp: merge_last_def intro!: bexI [of _ "hd (merge (c # ys))"] hd_in_set\<close>)
qed

lemma coalesce_ok:
  assumes ok: "hm_base s (xs @ c # ys) L" and g: "gaps xs" "gaps ys"
  shows "\<exists>s'. coalesce s (fst c) = retP s' \<and> hm_base s' (merge_last xs (merge (c # ys))) L \<and>
    gaps (merge_last xs (merge (c # ys))) \<and> keeps L s s'"
proof -
  note gc = hm_base_cell [OF ok] and ap = hm_base_apart [OF ok]
  obtain s1 n where s1: "(if first ys 0 \<noteq> 0 then if fst c + snd c = first ys 0 then absorb s (fst c) (first ys 0)
        else if first ys 0 < fst c + snd c \<and> fst c < first ys 0 then failP AssertFailed else retP s else retP s) = retP s1"
      "merge (c # ys) = (fst c, n) # tl (merge (c # ys))" "hm_base s1 (xs @ merge (c # ys)) L" "keeps L s s1"
    using merge_next_base [OF ok] by blast
  have ok1: "hm_base s1 (xs @ (fst c, n) # tl (merge (c # ys))) L" using s1(2,3) by simp
  obtain s2 where s2: "(if final 0 xs \<noteq> 0 then bindP (get s1 (final 0 xs)) (\<lambda>k. if final 0 xs + k = fst c then absorb s1 (final 0 xs) (fst c)
         else if fst c < final 0 xs + k \<and> final 0 xs < fst c then failP AssertFailed else retP s1) else retP s1) = retP s2"
      "hm_base s2 (merge_last xs (merge (c # ys))) L" "keeps L s1 s2"
    using merge_last_base [OF ok1] s1(2) by auto
  have run: "coalesce s (fst c) = retP s2"
    unfolding coalesce_absorb using gc s1(1) s2(1) hm_base_cell(3) [OF ok1] by simp
  have gm: "gaps (merge (c # ys))"
    using hm_baseD(6) [OF ok] ap(1) g(2) by (intro merge_gaps) (auto simp: in_order_append)
  have "gaps (merge_last xs (merge (c # ys)))"
  proof (cases xs rule: rev_cases)
    case Nil
    then show ?thesis using gm by (simp add: merge_last_def)
  next
    case (snoc zs e)
    have lt: "fst x + snd x < fst e" if "x \<in> set zs" for x using g(1) snoc that by (simp add: gaps_append)
    have o1: "in_order (e # merge (c # ys))" using hm_baseD(6) [OF s1(3)] snoc by (simp add: in_order_append)
    have "gaps (merge (e # merge (c # ys)))"
      using hm_base_apart(1) [of s1 zs e "merge (c # ys)" L] s1(3) snoc gm by (intro merge_gaps [OF o1]) simp_all
    moreover have "fst e \<le> fst y" if "y \<in> set (merge (e # merge (c # ys)))" for y
      using that o1 s1(2) by (cases "merge (c # ys)") (auto simp: in_order_Cons split: if_splits)
    ultimately show ?thesis using snoc lt g(1) by (fastforce simp: merge_last_def gaps_append)
  qed
  then show ?thesis using run s2 s1(4) by (auto intro: keeps_trans)
qed

subsection \<open>Cells enter and leave the list\<close>

text \<open>Memory for a new cell: mapped, and apart from all other cells.\<close>

definition room :: "hm \<Rightarrow> block list \<Rightarrow> block set \<Rightarrow> nat \<Rightarrow> nat \<Rightarrow> bool" where
  "room s fs L a n \<longleftrightarrow> layout (insert (a, n) (set fs \<union> L)) \<and> a \<notin> fst ` (set fs \<union> L) \<and>
     all_mapped (hp_mapped (hm_heap s)) (insert (a, n) (set fs \<union> L))"

lemma header_ok:
  assumes ok: "hm_base s fs L" and r: "room s fs L a n" and n: "fld t a 0 = n"
    and t: "hp_mapped (hm_heap t) = hp_mapped (hm_heap s)" "hp_os (hm_heap t) = hp_os (hm_heap s)" "hm_head t = hm_head s"
      "\<And>b k. b \<in> fst ` (set fs \<union> L) \<Longrightarrow> k < 3 \<Longrightarrow> fld t b k = fld s b k"
  shows "hm_base t fs (insert (a, n) L)"
proof -
  note b = hm_baseD [OF ok]
  have e: "set fs \<union> insert (a, n) L = insert (a, n) (set fs \<union> L)" by auto
  have "dll (fld t) 0 fs 0 = dll (fld s) 0 fs 0" using t(4) by (intro dll_cong) auto
  then have "linked t fs" using b(7) t(3) by (simp add: linked_def)
  moreover have "\<forall>(c, k) \<in> set fs \<union> insert (a, n) L. fld t c 0 = k" using b(5) n t(4) by (force simp: e)
  moreover have "set fs \<inter> insert (a, n) L = {}" using b(4) r by (auto simp: room_def intro: rev_image_eqI)
  ultimately show ?thesis using b(1,6) r t(1,2) unfolding hm_base_def e room_def by simp
qed

lemma put_header_ok:
  assumes ok: "hm_base s fs L" and r: "room s fs L a n"
  shows "put s a n = retP (upd s a 0 n)" "hm_base (upd s a 0 n) fs (insert (a, n) L)" "keeps L s (upd s a 0 n)"
proof -
  have lay: "layout (insert (a, n) (set fs \<union> L))" and m: "all_mapped (hp_mapped (hm_heap s)) (insert (a, n) (set fs \<union> L))"
    and a: "a \<in> fst ` insert (a, n) (set fs \<union> L)" "a \<notin> fst ` (set fs \<union> L)"
    using r by (auto simp: room_def)
  have n: "n < 2 ^ 64" using layout_cell [OF lay, of a n] by auto
  show "put s a n = retP (upd s a 0 n)" by (rule put_upd [OF lay a(1) m])
  show "keeps L s (upd s a 0 n)" using a(2) by (intro keeps_upd [OF lay a(1)]) auto
  show "hm_base (upd s a 0 n) fs (insert (a, n) L)"
    by (rule header_ok [OF ok r]) (use fld_upd [OF lay a(1)] n a in auto)
qed

lemma make_ok:
  assumes ok: "hm_base s fs L" and r: "room s fs L a n"
  shows "\<exists>s'. hm_make_fl_cell s a n = retP s' \<and> hm_base s' fs (insert (a, n) L) \<and> keeps L s s'"
proof -
  let ?B = "insert (a, n) (set fs \<union> L)" and ?s = "upd (upd (upd s a 0 n) a 2 0) a 1 0"
  have lay: "layout ?B" and m: "all_mapped (hp_mapped (hm_heap s)) ?B"
    and a: "a \<in> fst ` ?B" "a \<notin> fst ` (set fs \<union> L)" "a \<notin> fst ` L"
    using r by (auto simp: room_def)
  have n: "n < 2 ^ 64" using layout_cell [OF lay, of a n] by auto
  have "hm_make_fl_cell s a n = retP ?s"
    by (simp add: hm_make_fl_cell_def put_upd [OF lay a(1)] m)
  moreover have "hm_base ?s fs (insert (a, n) L)"
    by (rule header_ok [OF ok r]) (use fld_upd [OF lay a(1)] n a in auto)
  moreover have "keeps L s ?s" by (intro keeps_upd [OF lay a(1,3)]) auto
  ultimately show ?thesis by blast
qed

lemma in_order_ins: "in_order fs \<Longrightarrow> a \<notin> fst ` set fs \<Longrightarrow> in_order (ins (a, n) fs)"
  by (induction fs) (auto simp: in_order_def)

lemma add_cell:
  assumes ok: "hm_base s fs (insert (a, n) L)" and new: "(a, n) \<notin> L"
  shows "\<exists>s'. hm_insert_fl_cell s a = retP s' \<and> hm_base s' (ins (a, n) fs) L \<and> keeps L s s'"
proof -
  let ?B = "set fs \<union> insert (a, n) L"
  note b = hm_baseD [OF ok] and ad = hm_base_addrs [OF ok]
  have a: "a \<in> fst ` ?B" "a \<notin> fst ` set fs" using ad(1) by auto
  have aL: "a \<notin> fst ` L"
  proof
    assume "a \<in> fst ` L"
    then obtain k where "(a, k) \<in> L" by auto
    then show False using layout_address [OF b(2), of a n k] new by auto
  qed
  have fs: "fst ` set fs \<subseteq> fst ` ?B - fst ` L - {a}" using ad(1) by auto
  obtain s' where s': "hm_insert_fl_cell s a = retP s'" "linked s' (ins (a, n) fs)" "relinked ?B L s s'"
    using insert_ok [OF b(2,3) _ a(1) aL fs ad(2) b(7)] by blast
  have e: "set (ins (a, n) fs) \<union> L = ?B" by auto
  have "fld s' (fst c) 0 = snd c" if "c \<in> ?B" for c
    using s'(3) b(5) [of "fst c" "snd c"] that unfolding relinked_def by (metis imageI prod.collapse)
  then have "\<forall>(c, k) \<in> ?B. fld s' c 0 = k" by (simp add: case_prod_unfold)
  moreover have "set (ins (a, n) fs) \<inter> L = {}" using b(4) new by auto
  ultimately have "hm_base s' (ins (a, n) fs) L"
    unfolding hm_base_def e using b s' a by (simp add: relinked_def in_order_ins)
  then show ?thesis using s' by (auto simp: relinked_def)
qed

text \<open>
  The free list as a value: \<open>give\<close> puts a cell in its place and merges it with its neighbours, \<open>fit\<close>
  takes the first cell that is large enough, or a part of it when the rest can be a cell.
\<close>

definition give :: "block \<Rightarrow> block list \<Rightarrow> block list" where
  "give b fs = merge_last (takeWhile (\<lambda>c. \<not> fst b < fst c) fs) (merge (b # dropWhile (\<lambda>c. \<not> fst b < fst c) fs))"

definition fit :: "nat \<Rightarrow> block list \<Rightarrow> (block \<times> block list) option" where
  "fit sz fs =
     (case find (\<lambda>b. sz \<le> snd b) fs of
        None \<Rightarrow> None
      | Some c \<Rightarrow> Some (if FLC < snd c - sz
          then ((fst c, sz), map (\<lambda>b. if b = c then (fst c + sz, snd c - sz) else b) fs)
          else (c, removeAll c fs)))"

lemma ins_split: "ins b fs = takeWhile (\<lambda>c. \<not> fst b < fst c) fs @ b # dropWhile (\<lambda>c. \<not> fst b < fst c) fs"
  by (induction fs) auto

text \<open>The free cells do not touch each other.\<close>

definition hm_wf :: "hm \<Rightarrow> block list \<Rightarrow> block set \<Rightarrow> bool" where
  "hm_wf s fs L \<longleftrightarrow> hm_base s fs L \<and> gaps fs"

text \<open>\<^verbatim>\<open>make_fl_cell\<close>, \<^verbatim>\<open>insert_fl_cell\<close> and \<^verbatim>\<open>coalesce\<close> give memory to the free list.\<close>

lemma put_back_ok:
  assumes ok: "hm_wf s fs L" and r: "room s fs L a n"
  shows "\<exists>s'. bindP (hm_make_fl_cell s a n) (\<lambda>s. bindP (hm_insert_fl_cell s a) (\<lambda>s. coalesce s a)) = retP s' \<and>
    hm_wf s' (give (a, n) fs) L \<and> keeps L s s'"
proof -
  let ?xs = "takeWhile (\<lambda>c. \<not> a < fst c) fs" and ?ys = "dropWhile (\<lambda>c. \<not> a < fst c) fs"
  have base: "hm_base s fs L" and g: "gaps fs" using ok by (auto simp: hm_wf_def)
  have new: "(a, n) \<notin> L" using r by (auto simp: room_def intro: rev_image_eqI)
  obtain s1 where s1: "hm_make_fl_cell s a n = retP s1" "hm_base s1 fs (insert (a, n) L)" "keeps L s s1"
    using make_ok [OF base r] by blast
  obtain s2 where s2: "hm_insert_fl_cell s1 a = retP s2" "hm_base s2 (ins (a, n) fs) L" "keeps L s1 s2"
    using add_cell [OF s1(2) new] by blast
  have "gaps (?xs @ ?ys)" using g by simp
  then have gg: "gaps ?xs" "gaps ?ys" by (simp_all only: gaps_append)
  then obtain s3 where s3: "coalesce s2 a = retP s3" "hm_wf s3 (give (a, n) fs) L" "keeps L s2 s3"
    using coalesce_ok [of s2 ?xs "(a, n)" ?ys L] s2(2) by (auto simp: ins_split give_def hm_wf_def)
  have "keeps L s s3" using s1(3) s2(3) s3(3) by (blast intro: keeps_trans)
  then show ?thesis using s1(1) s2(1) s3(1,2) by (intro exI [of _ s3]) simp
qed

lemma give_covers: "\<exists>b \<in> set (give (a, n) fs). n \<le> snd b"
  using merge_covers [where c = "(a, n)"] by (simp add: give_def)

text \<open>The search is first fit.\<close>

lemma search_ok:
  assumes "hm_base s (xs @ ys) L"
  shows "search_size s (first ys 0) sz = retP (case find (\<lambda>b. sz \<le> snd b) ys of None \<Rightarrow> 0 | Some b \<Rightarrow> fst b)"
  using assms
proof (induction ys arbitrary: xs)
  case Nil
  then show ?case by (subst search_size.simps) simp
next
  case (Cons c ys)
  note c = hm_base_cell [OF Cons.prems]
  have "search_size s (first ys 0) sz = retP (case find (\<lambda>b. sz \<le> snd b) ys of None \<Rightarrow> 0 | Some b \<Rightarrow> fst b)"
    using Cons.IH [of "xs @ [c]"] Cons.prems by simp
  then show ?case using c by (subst search_size.simps) simp
qed

text \<open>Taking a cell out of the list.\<close>

lemma unlink_links:
  assumes lay: "layout B" and m: "all_mapped (hp_mapped (hm_heap s)) B" and L: "L \<subseteq> B"
    and fs: "fst ` set (xs @ c # ys) \<subseteq> fst ` B - fst ` L" "distinct (map fst (xs @ c # ys))"
    and li: "linked s (xs @ c # ys)"
  shows "\<exists>s'. hm_unlink s (fst c) = retP s' \<and> linked s' (xs @ ys) \<and> relinked B L s s'"
proof -
  note u = fld_upd [OF lay] and g = get_fld [OF lay] and p = put_upd [OF lay] and d = dll_upd [OF lay]
  have c: "fst c \<in> fst ` B" "fst c \<notin> fst ` set xs" "fst c \<notin> fst ` set ys"
    and x: "fst ` set xs \<subseteq> fst ` B" "fst ` set ys \<subseteq> fst ` B" using fs by auto
  have F: "dll (fld s) 0 xs (fst c)" "fld s (fst c) 2 = final 0 xs" "fld s (fst c) 1 = first ys 0"
    "dll (fld s) (fst c) ys 0" "hm_head s = first xs (fst c)"
    using li by (auto simp: linked_def dll_append)
  have fb: "first ys 0 < 2 ^ 64" "final 0 xs < 2 ^ 64" using F(2,3) fld_bound by metis+
  define t where "t = (if final 0 xs \<noteq> 0 then upd s (final 0 xs) 1 (first ys 0) else s)"
  have t: "(if final 0 xs \<noteq> 0 then put s (final 0 xs + 8) (first ys 0) else retP s) = retP t \<and>
    hm_head t = hm_head s \<and> dll (fld t) 0 xs (first ys 0) \<and> dll (fld t) (fst c) ys 0 \<and> relinked B L s t \<and>
    hp_mapped (hm_heap t) = hp_mapped (hm_heap s)"
  proof (cases xs rule: rev_cases)
    case Nil
    then show ?thesis using F by (simp add: t_def)
  next
    case (snoc zs e)
    have e: "fst e \<in> fst ` B" "fst e \<notin> fst ` L" "fst e \<notin> fst ` set zs" "fst e \<notin> fst ` set ys" "fst ` set zs \<subseteq> fst ` B"
      using fs snoc by auto
    have tt: "t = upd s (fst e) 1 (first ys 0)" using snoc layout_small [OF lay e(1)] by (simp add: t_def)
    show ?thesis using F fb x e snoc layout_small [OF lay e(1)]
      by (simp add: tt p m u d dll_append relinked_upd [OF lay] L)
  qed
  define v where "v = (if first ys 0 \<noteq> 0 then upd t (first ys 0) 2 (final 0 xs) else t)"
  have v: "(if first ys 0 \<noteq> 0 then put t (first ys 0 + 16) (final 0 xs) else retP t) = retP v \<and>
    hm_head v = hm_head s \<and> dll (fld v) 0 xs (first ys 0) \<and> dll (fld v) (final 0 xs) ys 0 \<and> relinked B L s v"
  proof (cases ys)
    case Nil
    then show ?thesis using t by (simp add: v_def)
  next
    case (Cons e es)
    have e: "fst e \<in> fst ` B" "fst e \<notin> fst ` L" "fst e \<notin> fst ` set xs" "fst e \<notin> fst ` set es" "fst ` set es \<subseteq> fst ` B"
      using fs Cons by auto
    have vv: "v = upd t (fst e) 2 (final 0 xs)" using Cons layout_small [OF lay e(1)] by (simp add: v_def)
    show ?thesis using t fb x e Cons layout_small [OF lay e(1)]
      by (simp add: vv p m u d relinked_upd [OF lay] L)
  qed
  let ?w = "if hm_head v = fst c then v\<lparr>hm_head := first ys 0\<rparr> else v"
  have "hm_unlink s (fst c) = retP ?w"
    using F t v by (simp add: hm_unlink_def g c m)
  moreover have "hm_head ?w = first (xs @ ys) 0"
    using F(5) v c(2) by (cases xs) (auto simp: first_def)
  then have "linked ?w (xs @ ys)" using v by (simp add: linked_def dll_append)
  moreover have "relinked B L s ?w" using v by simp
  ultimately show ?thesis by blast
qed

lemma unlink_ok:
  assumes ok: "hm_base s (xs @ (a, n) # ys) L"
  shows "\<exists>s'. hm_unlink s a = retP s' \<and> hm_base s' (xs @ ys) (insert (a, n) L) \<and> keeps L s s' \<and> (a, n) \<notin> L"
proof -
  let ?B = "set (xs @ (a, n) # ys) \<union> L"
  note b = hm_baseD [OF ok] and ad = hm_base_addrs [OF ok]
  obtain s' where s': "hm_unlink s a = retP s'" "linked s' (xs @ ys)" "relinked ?B L s s'"
    using unlink_links [OF b(2,3) _ ad b(7)] by auto
  have e: "set (xs @ ys) \<union> insert (a, n) L = ?B" by auto
  have "fld s' (fst c) 0 = snd c" if "c \<in> ?B" for c
    using s'(3) b(5) [of "fst c" "snd c"] that unfolding relinked_def by (metis imageI prod.collapse)
  then have "\<forall>(c, k) \<in> ?B. fld s' c 0 = k" by (simp add: case_prod_unfold)
  moreover have "set (xs @ ys) \<inter> insert (a, n) L = {}" using b(4) ad(2) by (auto intro: rev_image_eqI)
  moreover have "in_order (xs @ ys)" using b(6) by (auto simp: in_order_append in_order_Cons)
  ultimately have "hm_base s' (xs @ ys) (insert (a, n) L)"
    unfolding hm_base_def e using b s' by (simp add: relinked_def)
  then show ?thesis using s' b(4) by (auto simp: relinked_def)
qed

lemma ins_middle:
  "\<forall>x \<in> set xs. fst x < fst b \<Longrightarrow> \<forall>y \<in> set ys. fst b < fst y \<Longrightarrow> ins b (xs @ ys) = xs @ b # ys"
  by (induction xs) (auto, cases ys, auto)

lemma split_chunk_ok:
  assumes ok: "hm_base s (xs @ (a, n) # ys) L" and sz: "24 \<le> sz" "sz + 24 \<le> n"
  shows "\<exists>s'. split_chunk s a sz = retP s' \<and> hm_base s' (xs @ (a, sz) # (a + sz, n - sz) # ys) L \<and> keeps L s s'"
proof -
  let ?X = "set xs \<union> set ys \<union> L" and ?fs = "xs @ (a, n) # ys" and ?gs = "xs @ (a, sz) # ys"
  note b = hm_baseD [OF ok] and ad = hm_base_addrs [OF ok]
  have B: "set ?fs \<union> L = insert (a, n) ?X" "set ?gs \<union> L = insert (a, sz) ?X" by auto
  have aX: "a \<notin> fst ` ?X" using ad by (auto simp: image_Un)
  then have out: "a + n \<le> c \<or> c + k \<le> a" if "(c, k) \<in> ?X" for c k
    using layout_apart [OF b(2), of a n c k] that unfolding B by (metis fst_conv imageI insertCI prod.inject)
  have cell: "0 < a" "a + n \<le> 2 ^ 63" using layout_cell [OF b(2), of a n] by auto
  have layX: "layout ?X" by (rule layout_mono [OF b(2)]) auto
  have lay1: "layout (insert (a, sz) ?X)"
    using layX sz cell out by (fastforce simp: layout_insert)
  have lay2: "layout (insert (a + sz, n - sz) (insert (a, sz) ?X))"
    using lay1 sz cell out by (fastforce simp: layout_insert)
  have map: "all_mapped (hp_mapped (hm_heap s)) (insert (a + sz, n - sz) (insert (a, sz) ?X))"
    using b(3) sz unfolding B all_mapped_simps by auto
  have n2: "a + sz \<notin> fst ` insert (a, sz) ?X"
  proof
    assume "a + sz \<in> fst ` insert (a, sz) ?X"
    then obtain k where k: "(a + sz, k) \<in> ?X" using sz by force
    then show False using out [OF k] layout_cell [OF layX k] sz by auto
  qed
  have a: "a \<in> fst ` insert (a, n) ?X" "a \<notin> fst ` L" using aX by auto
  let ?s = "upd s a 0 sz"
  note u = fld_upd [OF b(2) [unfolded B] a(1)]
  have szb: "sz < 2 ^ 64" "n < 2 ^ 64" using sz cell by auto
  have "hm_base ?s ?gs L"
    unfolding hm_base_def B
  proof (intro conjI)
    show "\<forall>(c, k) \<in> insert (a, sz) ?X. fld ?s c 0 = k"
    proof (clarify)
      fix c k assume "(c, k) \<in> insert (a, sz) ?X"
      then consider "c = a" "k = sz" | "c \<noteq> a" "(c, k) \<in> ?X" using aX by (force intro: rev_image_eqI)
      then show "fld ?s c 0 = k"
      proof cases
        case 2
        then have "c \<in> fst ` insert (a, n) ?X" "(c, k) \<in> set ?fs \<union> L" by (auto intro: rev_image_eqI)
        then show ?thesis using u [of c 0 0 sz s] 2(1) szb b(5) [of c k] by simp
      qed (use u [of a 0 0 sz s] a szb in simp)
    qed
    show "linked ?s ?gs"
    proof -
      have "dll (fld ?s) 0 ?fs 0 = dll (fld s) 0 ?fs 0"
      proof (rule dll_cong)
        fix c assume "c \<in> set ?fs"
        then have "fst c \<in> fst ` insert (a, n) ?X" by auto
        then show "fld ?s (fst c) 1 = fld s (fst c) 1 \<and> fld ?s (fst c) 2 = fld s (fst c) 2" using u [of "fst c" 0 _ sz s] szb by simp
      qed
      then show ?thesis using b(7) by (simp add: linked_def dll_append)
    qed
    show "set ?gs \<inter> L = {}" using b(4) aX by (auto intro: rev_image_eqI)
    show "in_order ?gs" using b(6) by (simp add: in_order_append in_order_Cons)
  qed (use b(1) lay1 map in \<open>simp_all add: all_mapped_simps\<close>)
  moreover have "room ?s ?gs L (a + sz) (n - sz)"
    using lay2 map n2 unfolding room_def B by simp
  ultimately obtain s1 where s1: "hm_make_fl_cell ?s (a + sz) (n - sz) = retP s1"
    "hm_base s1 ?gs (insert (a + sz, n - sz) L)" "keeps L ?s s1"
    using make_ok by blast
  have "(a + sz, n - sz) \<notin> L" using n2 by (auto intro: rev_image_eqI)
  then obtain s2 where s2: "hm_insert_fl_cell s1 (a + sz) = retP s2" "hm_base s2 (ins (a + sz, n - sz) ?gs) L" "keeps L s1 s2"
    using add_cell [OF s1(2)] by blast
  have o: "\<forall>x \<in> set (xs @ [(a, sz)]). fst x < a + sz" "\<forall>y \<in> set ys. a + sz < fst y"
    using b(6) sz out hm_base_apart(1) [OF ok] by (fastforce simp: in_order_append in_order_Cons)+
  have "ins (a + sz, n - sz) ?gs = xs @ (a, sz) # (a + sz, n - sz) # ys"
    using ins_middle [of "xs @ [(a, sz)]" "(a + sz, n - sz)" ys] o by simp
  moreover have "split_chunk s a sz = retP s2"
  proof -
    have "sub64 n sz = n - sz" using sz szb by (simp add: sub64_def mod_if)
    moreover have "get s a = retP n" using hm_base_cell(1) [OF ok] by simp
    moreover have "put s a sz = retP ?s" using put_upd(1) [OF b(2) _ b(3)] by simp
    ultimately show ?thesis using s1(1) s2(1) by (simp add: split_chunk_def)
  qed
  moreover have "keeps L s ?s" using a by (intro keeps_upd [OF b(2) [unfolded B] a]) auto
  ultimately show ?thesis using s1(3) s2(2,3) by (metis keeps_trans)
qed

section \<open>hmalloc and hfree\<close>

lemma fld_stats [simp]:
  "fld (s\<lparr>pages_unmapped := i\<rparr>) = fld s" "fld (s\<lparr>hm_heap := (hm_heap s)\<lparr>hp_mapped := f\<rparr>\<rparr>) = fld s"
  by (simp_all add: fld_def fun_eq_iff)

lemma stats_simps [simp]:
  "hm_base (s\<lparr>pages_mapped := i\<rparr>) fs L = hm_base s fs L" "hm_base (s\<lparr>pages_unmapped := i\<rparr>) fs L = hm_base s fs L"
  "hm_base (s\<lparr>chunks_allocated := i\<rparr>) fs L = hm_base s fs L" "hm_base (s\<lparr>chunks_freed := i\<rparr>) fs L = hm_base s fs L"
  "room (s\<lparr>pages_mapped := i\<rparr>) fs L a n = room s fs L a n"
  "keeps L s (t\<lparr>pages_mapped := i\<rparr>) = keeps L s t" "keeps L s (t\<lparr>pages_unmapped := i\<rparr>) = keeps L s t"
  "keeps L s (t\<lparr>chunks_allocated := i\<rparr>) = keeps L s t" "keeps L s (t\<lparr>chunks_freed := i\<rparr>) = keeps L s t"
  by (simp_all add: hm_base_def linked_def room_def keeps_def kept_def)

lemma hm_base_weaken: "hm_base s fs L \<Longrightarrow> K \<subseteq> L \<Longrightarrow> hm_base s fs K"
proof -
  assume ok: "hm_base s fs L" and K: "K \<subseteq> L"
  have sub: "set fs \<union> K \<subseteq> set fs \<union> L" using K by blast
  have "\<forall>x \<in> set fs \<union> K. Q x" if "\<forall>x \<in> set fs \<union> L. Q x" for Q using that sub by blast
  note sub_ball = this
  show "hm_base s fs K"
    unfolding hm_base_def
  proof (intro conjI)
    show "layout (set fs \<union> K)" by (rule layout_mono [OF hm_baseD(2) [OF ok] sub])
    show "all_mapped (hp_mapped (hm_heap s)) (set fs \<union> K)"
      using hm_baseD(3) [OF ok] unfolding all_mapped_def by (rule sub_ball)
    show "\<forall>(a, n) \<in> set fs \<union> K. fld s a 0 = n"
      by (rule sub_ball) (use hm_baseD(5) [OF ok] in \<open>simp add: case_prod_unfold\<close>)
  qed (use hm_baseD [OF ok] K in auto)
qed

definition mapped_more :: "hm \<Rightarrow> hm \<Rightarrow> nat \<Rightarrow> nat \<Rightarrow> bool" where
  "mapped_more s s' a n \<longleftrightarrow> hp_os (hm_heap s') = hp_os (hm_heap s) \<and>
     hp_mapped (hm_heap s') = (\<lambda>x. hp_mapped (hm_heap s) x \<or> (a \<le> x \<and> x < a + n))"

text \<open>New pages are apart from everything that is in use.\<close>

lemma map_room:
  assumes ok: "hm_base s fs L" and k: "0 < k" "k * PAGE_SIZE < 2 ^ 64"
  shows "case hp_os (hm_heap s) (hp_mapped (hm_heap s)) (k * PAGE_SIZE) of
      None \<Rightarrow> map_pages s k = failP OutOfBounds
    | Some a \<Rightarrow> \<exists>s'. map_pages s k = retP (s', a) \<and> hm_base s' fs L \<and> room s' fs L a (k * PAGE_SIZE) \<and>
        a mod PAGE_SIZE = 0 \<and> mapped_more s s' a (k * PAGE_SIZE) \<and> kept L s s'"
proof (cases "hp_os (hm_heap s) (hp_mapped (hm_heap s)) (k * PAGE_SIZE)")
  case None
  then show ?thesis using k by (simp add: map_pages_def mmap_def failP_def)
next
  case (Some a)
  note b = hm_baseD [OF ok]
  have rp: "round_page (k * PAGE_SIZE) = k * PAGE_SIZE" by (simp add: round_page_def PAGE_SIZE_def)
  let ?n = "k * PAGE_SIZE"
  have a: "0 < a" "a mod PAGE_SIZE = 0" "a + ?n \<le> 2 ^ 63" and new: "\<And>x. a \<le> x \<Longrightarrow> x < a + ?n \<Longrightarrow> \<not> hp_mapped (hm_heap s) x"
    using b(1) Some rp unfolding mmap_ok_def PAGE_SIZE_def by metis+
  let ?P = "\<lambda>x. hp_mapped (hm_heap s) x \<or> (a \<le> x \<and> x < a + ?n)"
  let ?s = "s\<lparr>hm_heap := (hm_heap s)\<lparr>hp_mapped := ?P\<rparr>\<rparr>"
  have run: "map_pages s k = retP (?s, a)" using k Some by (simp add: map_pages_def mmap_def retP_def rp)
  have n: "PAGE_SIZE \<le> ?n" using k(1) by (cases k) auto
  have out: "a + ?n \<le> c \<or> c + j \<le> a" if c: "(c, j) \<in> set fs \<union> L" for c j
  proof (rule ccontr)
    assume h: "\<not> (a + ?n \<le> c \<or> c + j \<le> a)"
    define x where "x = (if a < c then c else a)"
    have "c \<le> x" "x < c + j" "a \<le> x" "x < a + ?n"
      using h layout_cell [OF b(2) c] n unfolding x_def PAGE_SIZE_def by auto
    then show False using new [of x] b(3) c by (auto simp: all_mapped_def)
  qed
  have mp: "all_mapped ?P (set fs \<union> L)" using b(3) by (fastforce simp: all_mapped_def)
  have nin: "a \<notin> fst ` (set fs \<union> L)"
  proof
    assume "a \<in> fst ` (set fs \<union> L)"
    then obtain j where j: "(a, j) \<in> set fs \<union> L" by force
    then show False using out [OF j] layout_cell [OF b(2) j] n by (auto simp: PAGE_SIZE_def)
  qed
  have "hm_base ?s fs L" using b mp by (auto simp: hm_base_def linked_def)
  moreover have "room ?s fs L a ?n"
    using b(2) a n out mp nin by (auto simp: room_def layout_insert all_mapped_simps PAGE_SIZE_def)
  moreover have "kept L s ?s" "mapped_more s ?s a ?n" by (simp_all add: kept_def mapped_more_def)
  ultimately show ?thesis using run a(2) Some by (simp only: option.case) blast
qed

text \<open>A cell is found: it is split when the rest is large enough, and taken out.\<close>

lemma map_middle:
  "distinct (map fst (xs @ c # ys)) \<Longrightarrow>
   map (\<lambda>b. if b = c then d else b) (xs @ c # ys) = xs @ d # ys \<and> removeAll c (xs @ c # ys) = xs @ ys"
proof -
  assume "distinct (map fst (xs @ c # ys))"
  then have "c \<notin> set xs" "c \<notin> set ys" by auto
  then show ?thesis by (auto intro!: map_idI)
qed

lemma take_ok:
  assumes ok: "hm_wf s fs L" and f: "fit sz fs = Some (b, fs')" and sz: "24 \<le> sz"
  shows "\<exists>c s1 s'. find (\<lambda>b. sz \<le> snd b) fs = Some c \<and> fst c = fst b \<and> get s (fst c) = retP (snd c) \<and>
    (if FLC < sub64 (snd c) sz then split_chunk s (fst c) sz else retP s) = retP s1 \<and> hm_unlink s1 (fst c) = retP s' \<and>
    (\<exists>xs k ys. hm_base s1 (xs @ (fst c, k) # ys) L) \<and> hm_wf s' fs' (insert b L) \<and> b \<notin> L \<and> keeps L s s'"
proof -
  have base: "hm_base s fs L" and g: "gaps fs" using ok by (auto simp: hm_wf_def)
  obtain c where fc: "find (\<lambda>b. sz \<le> snd b) fs = Some c" using f by (auto simp: fit_def split: option.splits)
  have c: "c \<in> set fs" "sz \<le> snd c" using fc by (auto simp: find_Some_iff)
  then obtain xs ys where fs: "fs = xs @ c # ys" by (meson split_list)
  obtain a n where cc: "c = (a, n)" by fastforce
  have base': "hm_base s (xs @ (a, n) # ys) L" using base fs cc by simp
  have get: "get s a = retP n" using hm_base_cell(1) [OF base'] by simp
  have n: "n < 2 ^ 64" using layout_cell [OF hm_baseD(2) [OF base'], of a n] by auto
  have sub: "sub64 n sz = n - sz" using c n cc by (simp add: sub64_def mod_if)
  have "distinct (map fst (xs @ (a, n) # ys))" using hm_base_addrs(2) [OF base'] .
  from map_middle [OF this, of "(a + sz, n - sz)"]
  have "fit sz fs = Some (if FLC < n - sz then ((a, sz), xs @ (a + sz, n - sz) # ys) else ((a, n), xs @ ys))"
    unfolding fit_def fc by (simp only: fs cc option.case fst_conv snd_conv)
  then have fv: "(b, fs') = (if FLC < n - sz then ((a, sz), xs @ (a + sz, n - sz) # ys) else ((a, n), xs @ ys))"
    using f by simp
  show ?thesis
  proof (cases "FLC < n - sz")
    case True
    then have bf: "b = (a, sz)" "fs' = xs @ (a + sz, n - sz) # ys"
      using fv by auto
    obtain s1 where s1: "split_chunk s a sz = retP s1" "hm_base s1 (xs @ (a, sz) # (a + sz, n - sz) # ys) L" "keeps L s s1"
      using split_chunk_ok [OF base' sz] True unfolding FLC_def by (metis less_diff_conv add.commute less_imp_le)
    obtain s2 where s2: "hm_unlink s1 a = retP s2" "hm_base s2 (xs @ (a + sz, n - sz) # ys) (insert (a, sz) L)"
      "keeps L s1 s2" "(a, sz) \<notin> L"
      using unlink_ok [OF s1(2)] by blast
    have "gaps (xs @ (a + sz, n - sz) # ys)"
      using g c cc by (fastforce simp: fs gaps_append gaps_Cons)
    then have "hm_wf s2 fs' (insert b L)" using s2(2) bf by (simp add: hm_wf_def)
    moreover have "keeps L s s2" using s1(3) s2(3) by (rule keeps_trans)
    ultimately show ?thesis using get s1(1) s2(1,4) True sub cc fc bf
      by (intro exI [of _ c] exI [of _ s1] exI [of _ s2]) (use s1(2) in auto)
  next
    case False
    then have bf: "b = (a, n)" "fs' = xs @ ys"
      using fv by auto
    obtain s2 where s2: "hm_unlink s a = retP s2" "hm_base s2 (xs @ ys) (insert (a, n) L)" "keeps L s s2" "(a, n) \<notin> L"
      using unlink_ok [OF base'] by blast
    have "gaps (xs @ ys)" using g by (auto simp: fs gaps_append gaps_Cons)
    then have "hm_wf s2 fs' (insert b L)" using s2(2) bf by (simp add: hm_wf_def)
    then show ?thesis using get s2(1,3,4) False sub cc c(2) fc bf
      by (intro exI [of _ c] exI [of _ s] exI [of _ s2]) (use base' in auto)
  qed
qed

text \<open>The number of bytes of the cell for a request.\<close>

definition cell_size :: "nat \<Rightarrow> nat" where
  "cell_size req = (if add64 req 8 < FLC then FLC else add64 req 8)"

lemma cell_size_small: "n + 8 < PAGE_SIZE \<Longrightarrow> cell_size n = (if n + 8 < FLC then FLC else n + 8)"
  by (simp add: cell_size_def add64_def PAGE_SIZE_def)

lemma hmalloc_found:
  assumes ok: "hm_wf s fs L" and f: "fit (cell_size req) fs = Some (b, fs')" and sz: "cell_size req < PAGE_SIZE"
  shows "\<exists>s'. hmalloc s req = retP (s', fst b + 8) \<and> hm_wf s' fs' (insert b L) \<and> b \<notin> L \<and> keeps L s s'"
proof -
  have base: "hm_base s fs L" using ok by (simp add: hm_wf_def)
  have "24 \<le> cell_size req" by (simp add: cell_size_def FLC_def)
  from take_ok [OF ok f this] obtain c s1 s2 where
    t: "find (\<lambda>b. cell_size req \<le> snd b) fs = Some c" "fst c = fst b" "get s (fst c) = retP (snd c)"
    "(if FLC < sub64 (snd c) (cell_size req) then split_chunk s (fst c) (cell_size req) else retP s) = retP s1"
    "hm_unlink s1 (fst c) = retP s2" "hm_wf s2 fs' (insert b L)" "b \<notin> L" "keeps L s s2"
    by blast
  have "hm_head s = first fs 0" using hm_baseD(7) [OF base] by (simp add: linked_def)
  moreover have "search_size s (first fs 0) (cell_size req) = retP (fst c)"
    using search_ok [of s "[]" fs L "cell_size req"] base t(1) by simp
  moreover have "0 < fst c"
  proof -
    have "c \<in> set fs" using t(1) by (auto simp: find_Some_iff)
    then have "fst c \<in> fst ` (set fs \<union> L)" by auto
    then show ?thesis using layout_small [OF hm_baseD(2) [OF base]] by simp
  qed
  ultimately have "hmalloc s req = retP (s2\<lparr>chunks_allocated := chunks_allocated s2 + 1\<rparr>, fst b + 8)"
    using t(2,3,5) t(4) [unfolded t(2)] sz
    by (subst hmalloc.simps) (simp add: Let_def cell_size_def [symmetric] split del: if_split)
  then show ?thesis using t(6-8)
    by (intro exI [of _ "s2\<lparr>chunks_allocated := chunks_allocated s2 + 1\<rparr>"]) (simp add: hm_wf_def)
qed

lemma fit_ge: "\<exists>b \<in> set fs. sz \<le> snd b \<Longrightarrow> fit sz fs \<noteq> None"
proof -
  assume "\<exists>b \<in> set fs. sz \<le> snd b"
  then have "find (\<lambda>b. sz \<le> snd b) fs \<noteq> None" unfolding find_None_iff by blast
  then show ?thesis by (auto simp: fit_def)
qed

lemma hmalloc_page:
  assumes ok: "hm_wf s fs L" and f: "fit (cell_size n) fs = None" and sz: "cell_size n < PAGE_SIZE"
  shows "case hp_os (hm_heap s) (hp_mapped (hm_heap s)) PAGE_SIZE of
      None \<Rightarrow> hmalloc s n = failP OutOfBounds
    | Some a \<Rightarrow> \<exists>s' b fs'. fit (cell_size n) (give (a, PAGE_SIZE) fs) = Some (b, fs') \<and>
        hmalloc s n = retP (s', fst b + 8) \<and> hm_wf s' fs' (insert b L) \<and> b \<notin> L \<and> mapped_more s s' a PAGE_SIZE \<and> kept L s s'"
proof -
  let ?sz = "cell_size n"
  have base: "hm_base s fs L" and g: "gaps fs" using ok by (auto simp: hm_wf_def)
  have "hm_head s = first fs 0" using hm_baseD(7) [OF base] by (simp add: linked_def)
  moreover have "find (\<lambda>b. ?sz \<le> snd b) fs = None" using f by (auto simp: fit_def split: option.splits)
  ultimately have sea: "search_size s (hm_head s) ?sz = retP 0" using search_ok [of s "[]" fs L ?sz] base by simp
  have "0 < (1::nat)" "1 * PAGE_SIZE < 2 ^ 64" by (simp_all add: PAGE_SIZE_def)
  note mr = map_room [OF base this]
  show ?thesis
  proof (cases "hp_os (hm_heap s) (hp_mapped (hm_heap s)) PAGE_SIZE")
    case None
    then have "map_pages s 1 = failP OutOfBounds" using mr by simp
    then show ?thesis
      using None sz sea by (subst hmalloc.simps) (simp add: Let_def cell_size_def [symmetric] failP_def)
  next
    case (Some a)
    then obtain s1 where s1: "map_pages s 1 = retP (s1, a)" "hm_base s1 fs L" "room s1 fs L a PAGE_SIZE"
      "mapped_more s s1 a PAGE_SIZE" "kept L s s1" using mr by auto
    let ?s1 = "s1\<lparr>pages_mapped := pages_mapped s1 + 1\<rparr>"
    have "hm_wf ?s1 fs L" "room ?s1 fs L a PAGE_SIZE" using s1 g by (simp_all add: hm_wf_def)
    then obtain s2 where s2: "bindP (hm_make_fl_cell ?s1 a PAGE_SIZE) (\<lambda>s. bindP (hm_insert_fl_cell s a) (\<lambda>s. coalesce s a)) = retP s2"
      "hm_wf s2 (give (a, PAGE_SIZE) fs) L" "keeps L ?s1 s2"
      using put_back_ok by blast
    have "\<exists>b \<in> set (give (a, PAGE_SIZE) fs). ?sz \<le> snd b" using give_covers [of a PAGE_SIZE fs] sz by force
    then obtain b fs' where f2: "fit ?sz (give (a, PAGE_SIZE) fs) = Some (b, fs')" using fit_ge by fastforce
    have again: "cell_size (?sz - 8) = ?sz" using sz by (auto simp: cell_size_def add64_def FLC_def PAGE_SIZE_def)
    obtain s3 where s3: "hmalloc s2 (?sz - 8) = retP (s3, fst b + 8)" "hm_wf s3 fs' (insert b L)" "b \<notin> L" "keeps L s2 s3"
      using hmalloc_found [OF s2(2), of "?sz - 8"] again f2 sz by auto
    have "hmalloc s n = bindP (bindP (hm_make_fl_cell ?s1 a PAGE_SIZE) (\<lambda>s. bindP (hm_insert_fl_cell s a) (\<lambda>s. coalesce s a)))
        (\<lambda>s. hmalloc s (?sz - 8))"
      using sz sea s1(1) by (subst hmalloc.simps) (simp add: Let_def cell_size_def [symmetric] bindP_assoc)
    then have "hmalloc s n = retP (s3, fst b + 8)" using s2(1) s3(1) by simp
    moreover have "mapped_more s s3 a PAGE_SIZE" using s1(4) s2(3) s3(4) by (simp add: mapped_more_def keeps_def)
    moreover have "kept L s s3"
      using s1(5) s2(3) s3(4) kept_trans [of L s ?s1 s2] kept_trans [of L s s2 s3] by (simp add: keeps_def kept_def)
    ultimately show ?thesis unfolding Some option.case using f2 s3(2,3) by blast
  qed
qed

lemma div_up_bounds: "xx \<le> hm_div_up xx * PAGE_SIZE" "hm_div_up xx * PAGE_SIZE < xx + PAGE_SIZE"
proof -
  have "xx div 4096 * 4096 + xx mod 4096 = xx" "xx mod 4096 < 4096" by simp_all
  then show "xx \<le> hm_div_up xx * PAGE_SIZE" "hm_div_up xx * PAGE_SIZE < xx + PAGE_SIZE"
    unfolding hm_div_up_def PAGE_SIZE_def Let_def by (auto simp: algebra_simps)
qed

lemma hmalloc_large:
  assumes ok: "hm_wf s fs L" and n: "PAGE_SIZE \<le> n + 8" "n + 8 + PAGE_SIZE \<le> 2 ^ 64"
  shows "case hp_os (hm_heap s) (hp_mapped (hm_heap s)) (hm_div_up (n + 8) * PAGE_SIZE) of
      None \<Rightarrow> hmalloc s n = failP OutOfBounds
    | Some a \<Rightarrow> \<exists>s'. hmalloc s n = retP (s', a + 8) \<and> hm_wf s' fs (insert (a, hm_div_up (n + 8) * PAGE_SIZE) L) \<and>
        (a, hm_div_up (n + 8) * PAGE_SIZE) \<notin> L \<and> a mod PAGE_SIZE = 0 \<and>
        mapped_more s s' a (hm_div_up (n + 8) * PAGE_SIZE) \<and> kept L s s'"
proof -
  let ?k = "hm_div_up (n + 8)" and ?n = "hm_div_up (n + 8) * PAGE_SIZE"
  have base: "hm_base s fs L" and g: "gaps fs" using ok by (auto simp: hm_wf_def)
  have k: "n + 8 \<le> ?n" "?n < 2 ^ 64" "0 < ?k"
    using div_up_bounds [of "n + 8"] n by (auto intro: gr0I)
  have sz: "(if add64 n 8 < FLC then FLC else add64 n 8) = n + 8"
    using n by (simp add: add64_def FLC_def PAGE_SIZE_def)
  note mr = map_room [OF base k(3,2)]
  show ?thesis
  proof (cases "hp_os (hm_heap s) (hp_mapped (hm_heap s)) ?n")
    case None
    then show ?thesis using mr n(1) by (subst hmalloc.simps) (simp add: Let_def sz failP_def)
  next
    case (Some a)
    then obtain s1 where s1: "map_pages s ?k = retP (s1, a)" "hm_base s1 fs L" "room s1 fs L a ?n"
      "a mod PAGE_SIZE = 0" "mapped_more s s1 a ?n" "kept L s s1" using mr by auto
    let ?s1 = "s1\<lparr>pages_mapped := pages_mapped s1 + int ?k\<rparr>"
    let ?s2 = "upd ?s1 a 0 ?n"
    have p: "put ?s1 a ?n = retP ?s2" "hm_base ?s2 fs (insert (a, ?n) L)" "keeps L ?s1 ?s2"
      using put_header_ok [of ?s1 fs L a ?n] s1 by auto
    let ?s = "?s2\<lparr>chunks_allocated := chunks_allocated ?s2 + 1\<rparr>"
    have "hmalloc s n = retP (?s, a + 8)"
      using n(1) s1(1) p(1) by (subst hmalloc.simps) (simp add: Let_def sz)
    moreover have "hm_wf ?s fs (insert (a, ?n) L)" using p(2) g by (simp add: hm_wf_def)
    moreover have "kept L s ?s" "mapped_more s ?s a ?n"
      using kept_trans [of L s ?s1 ?s2] s1(5,6) p(3) by (simp_all add: keeps_def kept_def mapped_more_def)
    moreover have "(a, ?n) \<notin> L" using s1(3) by (auto simp: room_def intro: rev_image_eqI)
    ultimately show ?thesis using Some s1(4) by auto
  qed
qed

end
