(* ===== verification/HmallocProps.thy ===== *)
theory HmallocProps
  imports Hmalloc
begin

text \<open>
  What \<^verbatim>\<open>hmalloc\<close> and \<^verbatim>\<open>hfree\<close> promise: they implement first fit with merging on the list of free cells,
  they satisfy the contract \<open>block_pool\<close> for all requests whose cell cannot become a whole page,
  and for the others they do not.
\<close>

section \<open>hfree\<close>

lemma hm_wf_weaken: "hm_wf s fs L \<Longrightarrow> K \<subseteq> L \<Longrightarrow> hm_wf s fs K"
  by (auto simp: hm_wf_def intro: hm_base_weaken)

lemma hm_wf_header:
  assumes "hm_wf s fs L" "(a, n) \<in> L"
  shows "get s a = retP n"
proof -
  have base: "hm_base s fs L" using assms(1) by (simp add: hm_wf_def)
  note hb = hm_baseD [OF base]
  have a: "a \<in> fst ` (set fs \<union> L)" using assms(2) by force
  show ?thesis using get_fld(1) [OF hb(2) a hb(3)] hb(5) [of a n] assms(2) by simp
qed

text \<open>A cell in use goes back to the free list.\<close>

lemma give_back:
  assumes ok: "hm_wf s fs L" and b: "(a, n) \<in> L"
  shows "\<exists>s'. bindP (hm_make_fl_cell s a n) (\<lambda>s. bindP (hm_insert_fl_cell s a) (\<lambda>s. coalesce s a)) = retP s' \<and>
    hm_wf s' (give (a, n) fs) (L - {(a, n)}) \<and> keeps (L - {(a, n)}) s s'"
proof -
  let ?L = "L - {(a, n)}"
  have base: "hm_base s fs L" using ok by (simp add: hm_wf_def)
  note hb = hm_baseD [OF base]
  have e: "insert (a, n) (set fs \<union> ?L) = set fs \<union> L" using b by auto
  have "a \<notin> fst ` (set fs \<union> ?L)"
  proof
    assume "a \<in> fst ` (set fs \<union> ?L)"
    then obtain k where k: "(a, k) \<in> set fs \<union> ?L" by force
    then have "k = n" using layout_address [OF hb(2), of a k n] b by auto
    then show False using k b hb(4) by auto
  qed
  then have "room s fs ?L a n" using hb(2,3) by (simp add: room_def e)
  moreover have "hm_wf s fs ?L" by (rule hm_wf_weaken [OF ok]) auto
  ultimately show ?thesis using put_back_ok by blast
qed

lemma hfree_small:
  assumes ok: "hm_wf s fs L" and b: "(a, n) \<in> L" and n: "n < PAGE_SIZE"
  shows "\<exists>s'. hfree s (a + 8) = retP s' \<and> hm_wf s' (give (a, n) fs) (L - {(a, n)}) \<and> keeps (L - {(a, n)}) s s'"
proof -
  let ?m = "bindP (hm_make_fl_cell s a n) (\<lambda>s. bindP (hm_insert_fl_cell s a) (\<lambda>s. coalesce s a))"
  obtain s1 where s1: "?m = retP s1" "hm_wf s1 (give (a, n) fs) (L - {(a, n)})" "keeps (L - {(a, n)}) s s1"
    using give_back [OF ok b] by blast
  have "hfree s (a + 8) = bindP ?m (\<lambda>s. retP (s\<lparr>chunks_freed := chunks_freed s + 1\<rparr>))"
    using n hm_wf_header [OF ok b] by (simp add: hfree_def bindP_assoc)
  then have "hfree s (a + 8) = retP (s1\<lparr>chunks_freed := chunks_freed s1 + 1\<rparr>)" using s1(1) by simp
  then show ?thesis using s1(2,3) by (intro exI [of _ "s1\<lparr>chunks_freed := chunks_freed s1 + 1\<rparr>"]) (simp add: hm_wf_def)
qed

text \<open>For a cell of a page or more, \<^verbatim>\<open>munmap\<close> is called with the address of the block, not of the cell.\<close>

lemma hfree_large:
  assumes ok: "hm_wf s fs L" and b: "(a, n) \<in> L" and n: "PAGE_SIZE \<le> n"
  shows "\<exists>s'. hfree s (a + 8) = retP s' \<and> hm_heap s' = munmap (hm_heap s) (a + 8) (hm_div_up n * PAGE_SIZE) \<and> hm_head s' = hm_head s"
proof -
  let ?s = "s\<lparr>hm_heap := munmap (hm_heap s) (a + 8) (hm_div_up n * PAGE_SIZE),
    pages_unmapped := pages_unmapped s + int (hm_div_up n), chunks_freed := chunks_freed s + 1\<rparr>"
  have "hfree s (a + 8) = retP ?s" using n hm_wf_header [OF ok b] by (simp add: hfree_def)
  then show ?thesis by (intro exI [of _ ?s]) simp
qed

definition whole_pages :: "block set \<Rightarrow> bool" where
  "whole_pages L \<longleftrightarrow> (\<forall>(a, n) \<in> L. PAGE_SIZE \<le> n \<longrightarrow> a mod PAGE_SIZE = 0 \<and> n mod PAGE_SIZE = 0)"

lemma whole_pages_insert:
  "whole_pages (insert (a, n) L) \<longleftrightarrow> (PAGE_SIZE \<le> n \<longrightarrow> a mod PAGE_SIZE = 0 \<and> n mod PAGE_SIZE = 0) \<and> whole_pages L"
  by (auto simp: whole_pages_def)

text \<open>The invariant: well formed, and cells in use of a page or more are mappings of their own.\<close>

definition hm_ok :: "hm \<Rightarrow> block list \<Rightarrow> block set \<Rightarrow> bool" where
  "hm_ok s fs L \<longleftrightarrow> hm_wf s fs L \<and> whole_pages L"

lemma hm_wf_heap:
  assumes "hm_wf s fs L" "hm_heap t = hm_heap s" "hm_head t = hm_head s"
  shows "hm_wf t fs L"
proof -
  have "fld t = fld s" using assms(2) by (simp add: fld_def fun_eq_iff)
  then show ?thesis using assms by (simp add: hm_wf_def hm_base_def linked_def)
qed

lemma hfree_ok:
  assumes ok: "hm_ok s fs L" and b: "(a, n) \<in> L"
  shows "\<exists>s' fs'. hfree s (a + 8) = retP s' \<and> hm_ok s' fs' (L - {(a, n)}) \<and> kept (L - {(a, n)}) s s'"
proof -
  let ?L = "L - {(a, n)}"
  have wf: "hm_wf s fs L" and w: "whole_pages L" using ok by (auto simp: hm_ok_def)
  have w': "whole_pages ?L" using w by (auto simp: whole_pages_def)
  show ?thesis
  proof (cases "PAGE_SIZE \<le> n")
    case True
    then have "a mod PAGE_SIZE = 0" using w b by (auto simp: whole_pages_def)
    then have "(a + 8) mod 4096 = 8" using mod_add_left_eq [of a 4096 8] by (simp add: PAGE_SIZE_def)
    then have "munmap (hm_heap s) (a + 8) (hm_div_up n * PAGE_SIZE) = hm_heap s" by (simp add: munmap_def)
    then obtain s' where s': "hfree s (a + 8) = retP s'" "hm_heap s' = hm_heap s" "hm_head s' = hm_head s"
      using hfree_large [OF wf b True] by auto
    have "hm_wf s' fs ?L" using hm_wf_heap [OF hm_wf_weaken [OF wf] s'(2,3)] by auto
    then show ?thesis using s' w' by (intro exI [of _ s'] exI [of _ fs]) (simp add: hm_ok_def kept_def)
  next
    case False
    then show ?thesis using hfree_small [OF wf b] w' by (auto simp: hm_ok_def keeps_def)
  qed
qed

section \<open>The contract\<close>

text \<open>
  The sizes for which it holds: a cell of up to 24 bytes more than needed is smaller than a page,
  or the request gets pages of its own.
\<close>

definition hm_served :: "nat \<Rightarrow> bool" where
  "hm_served n \<longleftrightarrow> n + 32 < PAGE_SIZE \<or> PAGE_SIZE \<le> n + 8 \<and> n + 8 + PAGE_SIZE \<le> 2 ^ 64"

definition no_pages :: "hm \<Rightarrow> bool" where
  "no_pages s \<longleftrightarrow> (\<exists>n. hp_os (hm_heap s) (hp_mapped (hm_heap s)) n = None)"

lemma fit_size:
  assumes "fit sz fs = Some (b, fs')"
  shows "sz \<le> snd b" "snd b \<le> sz + 24"
  using assms by (auto simp: fit_def FLC_def find_Some_iff split: option.splits if_splits)

lemma hmalloc_ok:
  assumes ok: "hm_ok s fs L" and n: "hm_served n"
  shows "no_pages s \<and> hmalloc s n = failP OutOfBounds \<or>
    (\<exists>s' fs' b. hmalloc s n = retP (s', fst b + 8) \<and> n + 8 \<le> snd b \<and> hm_ok s' fs' (insert b L) \<and> b \<notin> L \<and> kept L s s')"
proof -
  have wf: "hm_wf s fs L" and w: "whole_pages L" using ok by (auto simp: hm_ok_def)
  consider "n + 32 < PAGE_SIZE" | "PAGE_SIZE \<le> n + 8" "n + 8 + PAGE_SIZE \<le> 2 ^ 64"
    using n by (auto simp: hm_served_def)
  then show ?thesis
  proof cases
    case 1
    have sz: "cell_size n < PAGE_SIZE" "cell_size n + 24 < PAGE_SIZE" "n + 8 \<le> cell_size n"
      using 1 cell_size_small [of n] by (auto simp: FLC_def PAGE_SIZE_def)
    have done': "n + 8 \<le> snd b \<and> whole_pages (insert b L)" if "fit (cell_size n) gs = Some (b, fs')" for b gs fs'
      using fit_size [OF that] sz w by (cases b) (auto simp: whole_pages_insert)
    show ?thesis
    proof (cases "fit (cell_size n) fs")
      case None
      show ?thesis
      proof (cases "hp_os (hm_heap s) (hp_mapped (hm_heap s)) PAGE_SIZE")
        case o: None
        then show ?thesis using hmalloc_page [OF wf None sz(1)] by (auto simp: no_pages_def)
      next
        case (Some a)
        then show ?thesis using hmalloc_page [OF wf None sz(1)] done' by (fastforce simp: hm_ok_def)
      qed
    next
      case (Some x)
      obtain b fs' where x: "x = (b, fs')" by fastforce
      then have f: "fit (cell_size n) fs = Some (b, fs')" using Some by simp
      from hmalloc_found [OF wf f sz(1)] obtain s' where
        "hmalloc s n = retP (s', fst b + 8)" "hm_wf s' fs' (insert b L)" "b \<notin> L" "keeps L s s'" by blast
      then show ?thesis using done' [OF f] unfolding hm_ok_def keeps_def by blast
    qed
  next
    case 2
    let ?n = "hm_div_up (n + 8) * PAGE_SIZE"
    show ?thesis
    proof (cases "hp_os (hm_heap s) (hp_mapped (hm_heap s)) ?n")
      case None
      then show ?thesis using hmalloc_large [OF wf 2] by (auto simp: no_pages_def)
    next
      case (Some a)
      then obtain s' where s': "hmalloc s n = retP (s', a + 8)" "hm_wf s' fs (insert (a, ?n) L)" "(a, ?n) \<notin> L"
        "a mod PAGE_SIZE = 0" "kept L s s'"
        using hmalloc_large [OF wf 2] by auto
      have "hm_ok s' fs (insert (a, ?n) L)" using s'(2,4) w by (simp add: hm_ok_def whole_pages_insert)
      then show ?thesis using s' div_up_bounds(1) [of "n + 8"]
        by (intro disjI2 exI [of _ s'] exI [of _ fs] exI [of _ "(a, ?n)"]) simp
    qed
  qed
qed

text \<open>A program that does not return has no result.\<close>

definition run_prog :: "'a prog \<Rightarrow> 'a res" where
  "run_prog m = (case m of Some r \<Rightarrow> r | None \<Rightarrow> Inl Undefined)"

lemma run_prog_simps [simp]: "run_prog (retP x) = Inr x" "run_prog (failP e) = Inl e"
  by (simp_all add: run_prog_def retP_def failP_def)

lemma hm_ok_blocks:
  assumes "hm_ok s fs L"
  shows "disj_blocks L" "b \<in> L \<Longrightarrow> 24 \<le> snd b"
proof -
  have lay: "layout (set fs \<union> L)" using assms by (simp add: hm_ok_def hm_wf_def hm_base_def)
  then show "disj_blocks L" by (auto simp: layout_def intro: disj_blocks_subset)
  show "24 \<le> snd b" if "b \<in> L" using layout_cell [OF lay, of "fst b" "snd b"] that by auto
qed

definition hm_cells :: "hm \<Rightarrow> block set \<Rightarrow> bool" where
  "hm_cells s L \<longleftrightarrow> (\<exists>fs. hm_ok s fs L)"

lemma hm_cells_blocks: "hm_cells s L \<Longrightarrow> disj_blocks L" "hm_cells s L \<Longrightarrow> b \<in> L \<Longrightarrow> 8 < snd b"
proof -
  show "disj_blocks L" if "hm_cells s L" using that hm_ok_blocks(1) by (auto simp: hm_cells_def)
  show "8 < snd b" if "hm_cells s L" "b \<in> L"
  proof -
    obtain fs where "hm_ok s fs L" using \<open>hm_cells s L\<close> by (auto simp: hm_cells_def)
    from hm_ok_blocks(2) [OF this \<open>b \<in> L\<close>] show ?thesis by simp
  qed
qed

text \<open>The contract of an allocator, for \<^verbatim>\<open>hmalloc\<close> and \<^verbatim>\<open>hfree\<close>.\<close>

interpretation hm: cell_pool hm_cells "\<lambda>s n. run_prog (hmalloc s n)" "\<lambda>s p. run_prog (hfree s p)" hm_served
proof
  fix s L n s' p
  assume a: "hm_cells s L" "hm_served n" "run_prog (hmalloc s n) = Inr (s', p)"
  then obtain fs where ok: "hm_ok s fs L" by (auto simp: hm_cells_def)
  from hmalloc_ok [OF ok a(2)] a(3) show "\<exists>b. p = fst b + 8 \<and> n + 8 \<le> snd b \<and> b \<notin> L \<and> hm_cells s' (insert b L)"
    unfolding hm_cells_def by fastforce
next
  fix s L b
  assume "hm_cells s L" "b \<in> L"
  then show "\<exists>s'. run_prog (hfree s (fst b + 8)) = Inr s' \<and> hm_cells s' (L - {b})"
    using hfree_ok [of s _ L "fst b" "snd b"] unfolding hm_cells_def by fastforce
qed (use hm_cells_blocks in blast)+

section \<open>Properties\<close>

text \<open>The allocator before the first call.\<close>

definition hm_init :: "((nat \<Rightarrow> bool) \<Rightarrow> nat \<Rightarrow> nat option) \<Rightarrow> hm" where
  "hm_init os = \<lparr>hm_heap = \<lparr>hp_mem = (\<lambda>_. 0), hp_mapped = (\<lambda>_. False), hp_os = os\<rparr>, hm_head = 0,
     pages_mapped = 0, pages_unmapped = 0, chunks_allocated = 0, chunks_freed = 0, free_length = 0\<rparr>"

lemma hm_init_ok: "mmap_ok os \<Longrightarrow> hm_ok (hm_init os) [] {}"
  by (simp add: hm_ok_def hm_wf_def hm_base_def hm_init_def whole_pages_def layout_def disj_blocks_def all_mapped_def
      in_order_def linked_def)


text \<open>A request of \<open>2 ^ 64 - 8\<close> bytes is served as one of 24 (with the header).\<close>

lemma hmalloc_wraps: "hmalloc s (2 ^ 64 - 8) = hmalloc s 16"
  by (subst (1 2) hmalloc.simps) (simp add: add64_def FLC_def)

text \<open>
  C26. No client that asks for sizes below 4064, or from 4088 up to \<open>2 ^ 64 - 4104\<close>, can make the allocator hand out
  overlapping memory: after any series of such requests and of releases that runs to its end the blocks it holds have
  different addresses, are as large as asked for, and are pairwise disjoint. The sizes between may get a cell that
  \<^verbatim>\<open>hfree\<close> then mistakes for pages of its own, and above the bound \<^verbatim>\<open>size += 8\<close> or the rounding to pages wraps
  around (\<open>hmalloc_wraps\<close>).
\<close>
theorem hmalloc_client_safe:
  assumes "mmap_ok os" and "\<forall>n. Alloc n \<in> set rs \<longrightarrow> hm_served n"
    and "hm.pool.run_client rs (hm_init os) [] = Inr (s, hs)"
  shows "\<exists>P. disj_blocks P \<and> distinct (map fst hs) \<and> (\<forall>(p, n) \<in> set hs. \<exists>k \<ge> n. (p, k) \<in> P)"
proof -
  have "hm.inv (hm_init os) {}" using hm_init_ok [OF assms(1)] unfolding hm.inv_def hm_cells_def by blast
  moreover have "hm.pool.owns {} []" by (simp add: hm.pool.owns_def)
  ultimately obtain P where "hm.inv s P" "hm.pool.owns P hs"
    using hm.pool.run_client_safe assms(2,3) by blast
  then show ?thesis by (intro exI [of _ P]) (simp add: hm.pool.owns_def hm.pool.inv_disjoint)
qed

text \<open>
  A machine with seven pages, which it hands out from above: two at 196608, one at 192512 and
  one at 188416, and three at 163840.
\<close>

definition unused :: "(nat \<Rightarrow> bool) \<Rightarrow> nat \<Rightarrow> nat \<Rightarrow> bool" where
  "unused p a n \<longleftrightarrow> (\<forall>x. a \<le> x \<longrightarrow> x < a + n \<longrightarrow> \<not> p x)"

definition down_os :: "(nat \<Rightarrow> bool) \<Rightarrow> nat \<Rightarrow> nat option" where
  "down_os p n =
     (if n = 8192 \<and> unused p 196608 8192 then Some 196608
      else if n = 4096 \<and> unused p 192512 4096 then Some 192512
      else if n = 4096 \<and> unused p 188416 4096 then Some 188416
      else if n = 12288 \<and> unused p 163840 12288 then Some 163840 else None)"

lemma down_os_ok: "mmap_ok down_os"
  by (auto simp: mmap_ok_def down_os_def round_page_def unused_def split: if_splits)

definition demo_mapped :: "nat \<Rightarrow> nat \<Rightarrow> bool" where
  "demo_mapped lo x \<longleftrightarrow> lo \<le> x \<and> x < 204800"

lemma demo_os:
  "down_os (\<lambda>_. False) 8192 = Some 196608" "down_os (demo_mapped 196608) 4096 = Some 192512"
  "down_os (demo_mapped 192512) 4096 = Some 188416"
  by (auto simp: down_os_def unused_def demo_mapped_def)

definition demo_state :: "hm \<Rightarrow> nat \<Rightarrow> block list \<Rightarrow> block set \<Rightarrow> bool" where
  "demo_state s lo fs L \<longleftrightarrow> hm_wf s fs L \<and> hp_os (hm_heap s) = down_os \<and> hp_mapped (hm_heap s) = demo_mapped lo"

lemma demo_first: "\<exists>s. hmalloc (hm_init down_os) 5000 = retP (s, 196616) \<and> demo_state s 196608 [] {(196608, 8192)}"
proof -
  have wf: "hm_wf (hm_init down_os) [] {}" using hm_init_ok [OF down_os_ok] by (simp add: hm_ok_def)
  have d: "hm_div_up (5000 + 8) * PAGE_SIZE = 8192" by (simp add: hm_div_up_def PAGE_SIZE_def)
  have i: "hp_os (hm_heap (hm_init down_os)) = down_os" "hp_mapped (hm_heap (hm_init down_os)) = (\<lambda>_. False)"
    by (simp_all add: hm_init_def)
  have "PAGE_SIZE \<le> 5000 + 8" "5000 + 8 + PAGE_SIZE \<le> 2 ^ 64" by (simp_all add: PAGE_SIZE_def)
  from hmalloc_large [OF wf this, unfolded d i demo_os option.case] obtain s where
    s: "hmalloc (hm_init down_os) 5000 = retP (s, 196616)" "hm_wf s [] {(196608, 8192)}"
      "mapped_more (hm_init down_os) s 196608 8192" by auto
  then show ?thesis by (intro exI [of _ s]) (auto simp: demo_state_def mapped_more_def i demo_mapped_def fun_eq_iff)
qed

lemma demo_page:
  assumes "demo_state s lo fs L" "down_os (demo_mapped lo) 4096 = Some a" "a + 4096 = lo" "lo \<le> 204800"
    "cell_size n < PAGE_SIZE" "fit (cell_size n) fs = None" "fit (cell_size n) (give (a, PAGE_SIZE) fs) = Some (b, fs')"
  shows "\<exists>s'. hmalloc s n = retP (s', fst b + 8) \<and> demo_state s' a fs' (insert b L)"
proof -
  have wf: "hm_wf s fs L" and o: "hp_os (hm_heap s) (hp_mapped (hm_heap s)) PAGE_SIZE = Some a"
    using assms(1,2) by (auto simp: demo_state_def PAGE_SIZE_def)
  from hmalloc_page [OF wf assms(6,5), unfolded o option.case] assms(7) obtain s' where
    s': "hmalloc s n = retP (s', fst b + 8)" "hm_wf s' fs' (insert b L)" "mapped_more s s' a PAGE_SIZE" by auto
  then show ?thesis using assms(1,3,4)
    by (intro exI [of _ s']) (auto simp: demo_state_def mapped_more_def demo_mapped_def PAGE_SIZE_def fun_eq_iff)
qed

lemma demo_found:
  assumes "demo_state s lo fs L" "cell_size n < PAGE_SIZE" "fit (cell_size n) fs = Some (b, fs')"
  shows "\<exists>s'. hmalloc s n = retP (s', fst b + 8) \<and> demo_state s' lo fs' (insert b L)"
  using hmalloc_found [of s fs L n b fs'] assms by (auto simp: demo_state_def keeps_def)

lemma demo_free:
  assumes "demo_state s lo fs L" "(a, n) \<in> L" "n < PAGE_SIZE"
  shows "\<exists>s'. hfree s (a + 8) = retP s' \<and> demo_state s' lo (give (a, n) fs) (L - {(a, n)})"
  using hfree_small [of s fs L a n] assms by (auto simp: demo_state_def keeps_def)

lemmas demo_eval = give_def merge_last_def fit_def cell_size_def add64_def FLC_def PAGE_SIZE_def

lemma hm_demo_run:
  "\<exists>s1 s2 s3 s4 s5 s6 s7. hmalloc (hm_init down_os) 5000 = retP (s1, 196616) \<and> hmalloc s1 1000 = retP (s2, 192520) \<and>
     hmalloc s2 3500 = retP (s3, 188424) \<and> hfree s3 192520 = retP s4 \<and> hfree s4 188424 = retP s5 \<and>
     hmalloc s5 4080 = retP (s6, 188424) \<and> hmalloc s6 4072 = retP (s7, 192512) \<and>
     demo_state s7 188416 [] {(192504, 4104), (188416, 4088), (196608, 8192)}"
proof -
  obtain s1 where 1: "hmalloc (hm_init down_os) 5000 = retP (s1, 196616)" "demo_state s1 196608 [] {(196608, 8192)}"
    using demo_first by blast
  obtain s2 where 2: "hmalloc s1 1000 = retP (s2, 192520)" "demo_state s2 192512 [(193520, 3088)] {(192512, 1008), (196608, 8192)}"
    using demo_page [OF 1(2) demo_os(2), of 1000 "(192512, 1008)" "[(193520, 3088)]"] by (auto simp: demo_eval)
  obtain s3 where 3: "hmalloc s2 3500 = retP (s3, 188424)"
    "demo_state s3 188416 [(191924, 588), (193520, 3088)] {(188416, 3508), (192512, 1008), (196608, 8192)}"
    using demo_page [OF 2(2) demo_os(3), of 3500 "(188416, 3508)" "[(191924, 588), (193520, 3088)]"] by (auto simp: demo_eval)
  have g4: "give (192512, 1008) [(191924, 588), (193520, 3088)] = [(191924, 4684)]"
    "{(188416::nat, 3508::nat), (192512, 1008), (196608, 8192)} - {(192512, 1008)} = {(188416, 3508), (196608, 8192)}"
    by (auto simp: demo_eval)
  obtain s4 where 4: "hfree s3 192520 = retP s4" "demo_state s4 188416 [(191924, 4684)] {(188416, 3508), (196608, 8192)}"
    using demo_free [OF 3(2), of 192512 1008] by (auto simp: g4 PAGE_SIZE_def)
  have g5: "give (188416, 3508) [(191924, 4684)] = [(188416, 8192)]"
    "{(188416::nat, 3508::nat), (196608, 8192)} - {(188416, 3508)} = {(196608, 8192)}"
    by (auto simp: demo_eval)
  obtain s5 where 5: "hfree s4 188424 = retP s5" "demo_state s5 188416 [(188416, 8192)] {(196608, 8192)}"
    using demo_free [OF 4(2), of 188416 3508] by (auto simp: g5 PAGE_SIZE_def)
  obtain s6 where 6: "hmalloc s5 4080 = retP (s6, 188424)" "demo_state s6 188416 [(192504, 4104)] {(188416, 4088), (196608, 8192)}"
    using demo_found [OF 5(2), of 4080 "(188416, 4088)" "[(192504, 4104)]"] by (auto simp: demo_eval)
  obtain s7 where 7: "hmalloc s6 4072 = retP (s7, 192512)"
    "demo_state s7 188416 [] {(192504, 4104), (188416, 4088), (196608, 8192)}"
    using demo_found [OF 6(2), of 4072 "(192504, 4104)" "[]"] by (auto simp: demo_eval)
  show ?thesis using 1(1) 2(1) 3(1) 4(1) 5(1) 6(1) 7 by blast
qed

text \<open>
  Outside those sizes the allocator is not safe: on a machine that hands out pages from above, a
  client that asks for 5000, 1000 and 3500 bytes, releases the last two, asks for 4080 and
  4072 bytes and releases the last one, still holds its first block, but \<^verbatim>\<open>hfree\<close> has unmapped a part of it.
\<close>
theorem hfree_unmaps_neighbour:
  "\<exists>os s hs. mmap_ok os \<and>
     hm.pool.run_client [Alloc 5000, Alloc 1000, Alloc 3500, Release 1, Release 0, Alloc 4080, Alloc 4072, Release 0]
       (hm_init os) [] = Inr (s, hs) \<and>
     (196616, 5000) \<in> set hs \<and> \<not> hp_mapped (hm_heap s) 196616"
proof -
  obtain s1 s2 s3 s4 s5 s6 s7 where r: "hmalloc (hm_init down_os) 5000 = retP (s1, 196616)"
    "hmalloc s1 1000 = retP (s2, 192520)" "hmalloc s2 3500 = retP (s3, 188424)" "hfree s3 192520 = retP s4"
    "hfree s4 188424 = retP s5" "hmalloc s5 4080 = retP (s6, 188424)" "hmalloc s6 4072 = retP (s7, 192512)"
    "demo_state s7 188416 [] {(192504, 4104), (188416, 4088), (196608, 8192)}"
    using hm_demo_run by blast
  have wf: "hm_wf s7 [] {(192504, 4104), (188416, 4088), (196608, 8192)}" using r(8) by (simp add: demo_state_def)
  have d: "hm_div_up 4104 * PAGE_SIZE = 8192" by (simp add: hm_div_up_def PAGE_SIZE_def)
  obtain s8 where s8: "hfree s7 192512 = retP s8" "hm_heap s8 = munmap (hm_heap s7) 192512 8192"
    using hfree_large [OF wf, of 192504 4104] d by (auto simp: PAGE_SIZE_def)
  have "hm.pool.run_client [Alloc 5000, Alloc 1000, Alloc 3500, Release 1, Release 0, Alloc 4080, Alloc 4072, Release 0]
       (hm_init down_os) [] = Inr (s8, [(188424, 4080), (196616, 5000)])"
    using r s8 by simp
  moreover have "\<not> hp_mapped (hm_heap s8) 196616" by (simp add: s8(2) munmap_def round_page_def)
  ultimately show ?thesis using down_os_ok by (intro exI [of _ down_os] exI [of _ s8]) auto
qed



theorem hmalloc_client_safe_witness:
  "\<exists>P k. disj_blocks P \<and> 5000 \<le> k \<and> (196616, k) \<in> P"
proof -
  obtain s1 where s1: "hmalloc (hm_init down_os) 5000 = retP (s1, 196616)" using demo_first by blast
  have "\<forall>n. Alloc n \<in> set [Alloc 5000] \<longrightarrow> hm_served n" by (simp add: hm_served_def PAGE_SIZE_def)
  from hmalloc_client_safe [OF down_os_ok this, of s1 "[(196616, 5000)]"] s1 show ?thesis by auto
qed

end
