(* ===== verification/Hwx.thy ===== *)
theory Hwx
  imports HmallocProps
begin

text \<open>
  The allocator \<^verbatim>\<open>chal2/starter-ch02/hwx_malloc.c\<close>: the free list of \<^verbatim>\<open>hmalloc\<close> behind a lock, with
  \<^verbatim>\<open>munmap\<close> called on the cell and with \<^verbatim>\<open>xrealloc\<close>. Its list functions \<^verbatim>\<open>make_fl_cell\<close>, \<^verbatim>\<open>insert_fl_cell\<close>
  and \<^verbatim>\<open>coalesce\<close> are those of the theory Hmalloc, letter by letter; \<^verbatim>\<open>search_size\<close> and \<^verbatim>\<open>split_chunk\<close> have
  assertions. The lock makes every call one step.
\<close>

section \<open>Model\<close>

partial_function (option) hwx_search_size :: "hm \<Rightarrow> nat \<Rightarrow> nat \<Rightarrow> nat prog" where
  "hwx_search_size s cell sz =
     (if cell = 0 then retP 0
      else
        bindP (get s cell) (\<lambda>n.
        if n = 0 then failP AssertFailed
        else if sz \<le> n then retP cell
        else bindP (get s (cell + 8)) (\<lambda>next. hwx_search_size s next sz)))"

definition hwx_split_chunk :: "hm \<Rightarrow> nat \<Rightarrow> nat \<Rightarrow> hm prog" where
  "hwx_split_chunk s cell sz =
     bindP (get s cell) (\<lambda>n.
     let leftover = sub64 n sz in
     if \<not> FLC < leftover then failP AssertFailed
     else
       bindP (put s cell sz) (\<lambda>s.
       bindP (hm_make_fl_cell s (cell + sz) leftover) (\<lambda>s.
         hm_insert_fl_cell s (cell + sz))))"

text \<open>The end of \<^verbatim>\<open>xmalloc_helper\<close>: taking the cell out of the list.\<close>

definition hwx_unlink :: "hm \<Rightarrow> nat \<Rightarrow> hm prog" where
  "hwx_unlink s any_free =
     bindP (get s (any_free + 16)) (\<lambda>last.
     bindP (get s (any_free + 8)) (\<lambda>next.
     bindP (if last \<noteq> 0 then put s (last + 8) next else retP (s\<lparr>hm_head := next\<rparr>)) (\<lambda>s.
       if next \<noteq> 0 then put s (next + 16) last else retP s)))"

partial_function (option) hwx_xmalloc_helper :: "hm \<Rightarrow> nat \<Rightarrow> (hm \<times> nat) prog" where
  "hwx_xmalloc_helper s req =
     (let sz = (if req < FLC then FLC else req) in
      if PAGE_SIZE \<le> sz then
        let num_pages = hm_div_up sz in
        bindP (map_pages s num_pages) (\<lambda>(s, new_page).
        bindP (put s new_page (num_pages * PAGE_SIZE)) (\<lambda>s. retP (s, new_page + 8)))
      else
        bindP (hwx_search_size s (hm_head s) sz) (\<lambda>any_free.
        if any_free = 0 then
          bindP (map_pages s 1) (\<lambda>(s, new_page).
          bindP (hm_make_fl_cell s new_page PAGE_SIZE) (\<lambda>s.
          bindP (hm_insert_fl_cell s new_page) (\<lambda>s.
          bindP (coalesce s new_page) (\<lambda>s. hwx_xmalloc_helper s sz))))
        else
          bindP (get s any_free) (\<lambda>n.
          bindP (if FLC < sub64 n sz then hwx_split_chunk s any_free sz else retP s) (\<lambda>s.
          bindP (hwx_unlink s any_free) (\<lambda>s. retP (s, any_free + 8))))))"

definition hwx_xmalloc :: "hm \<Rightarrow> nat \<Rightarrow> (hm \<times> nat) prog" where
  "hwx_xmalloc s sz = hwx_xmalloc_helper s (add64 sz 8)"

definition hwx_xfree_helper :: "hm \<Rightarrow> nat \<Rightarrow> hm prog" where
  "hwx_xfree_helper s item =
     (let cell_addr = item - 8 in
      bindP (get s cell_addr) (\<lambda>n.
      if PAGE_SIZE \<le> n then
        retP (s\<lparr>hm_heap := munmap (hm_heap s) cell_addr (hm_div_up n * PAGE_SIZE)\<rparr>)
      else
        bindP (hm_make_fl_cell s cell_addr n) (\<lambda>s.
        bindP (hm_insert_fl_cell s cell_addr) (\<lambda>s. coalesce s cell_addr))))"

definition hwx_xfree :: "hm \<Rightarrow> nat \<Rightarrow> hm prog" where
  "hwx_xfree s item = (if item = 0 then failP AssertFailed else hwx_xfree_helper s item)"

definition hwx_memcpy :: "hm \<Rightarrow> nat \<Rightarrow> nat \<Rightarrow> nat \<Rightarrow> hm prog" where
  "hwx_memcpy s dst src n = Some (bind_res (copy_bytes (hm_heap s) dst src n) (\<lambda>h. Inr (s\<lparr>hm_heap := h\<rparr>)))"

definition hwx_xrealloc_helper :: "hm \<Rightarrow> nat \<Rightarrow> nat \<Rightarrow> (hm \<times> nat) prog" where
  "hwx_xrealloc_helper s item new_size =
     (if item = 0 \<and> new_size \<noteq> 0 then hwx_xmalloc_helper s (add64 new_size 8)
      else if item = 0 then retP (s, 0)
      else if new_size = 0 then bindP (hwx_xfree_helper s item) (\<lambda>s. retP (s, 0))
      else
        bindP (get s (item - 8)) (\<lambda>n.
        bindP (hwx_xmalloc_helper s (add64 new_size 8)) (\<lambda>(s, new_item).
        bindP (hwx_memcpy s new_item item (if n < new_size then n else new_size)) (\<lambda>s.
        bindP (hwx_xfree_helper s item) (\<lambda>s. retP (s, new_item))))))"

definition hwx_xrealloc :: "hm \<Rightarrow> nat \<Rightarrow> nat \<Rightarrow> (hm \<times> nat) prog" where
  "hwx_xrealloc s item new_size = hwx_xrealloc_helper s item new_size"

section \<open>The same list operations\<close>

text \<open>On a well formed list the assertions hold, and the list functions do what those of \<^verbatim>\<open>hmalloc\<close> do.\<close>

lemma hwx_search_eq:
  assumes "hm_base s (xs @ ys) L"
  shows "hwx_search_size s (first ys 0) sz = search_size s (first ys 0) sz"
  using assms
proof (induction ys arbitrary: xs)
  case Nil
  then show ?case by (subst search_size.simps, subst hwx_search_size.simps) simp
next
  case (Cons c ys)
  note c = hm_base_cell [OF Cons.prems]
  have "24 \<le> snd c" by (rule hm_base_apart(3) [OF Cons.prems])
  moreover have "hwx_search_size s (first ys 0) sz = search_size s (first ys 0) sz"
    using Cons.IH [of "xs @ [c]"] Cons.prems by simp
  ultimately show ?case using c by (subst search_size.simps, subst hwx_search_size.simps) simp
qed

lemma hwx_split_eq:
  "get s cell = retP n \<Longrightarrow> FLC < sub64 n sz \<Longrightarrow> hwx_split_chunk s cell sz = split_chunk s cell sz"
  by (simp add: hwx_split_chunk_def split_chunk_def Let_def)

lemma put_head:
  "put (s\<lparr>hm_head := h\<rparr>) a v = bindP (put s a v) (\<lambda>s. retP (s\<lparr>hm_head := h\<rparr>))"
  by (simp add: put_def poke_def retP_def)

lemma put_keeps_head: "put s a v = retP t \<Longrightarrow> hm_head t = hm_head s"
  by (auto simp: put_def poke_def retP_def split: if_splits)

lemma put_cases:
  obtains e where "put s a v = failP e" | t where "put s a v = retP t"
  by (cases "poke (hm_heap s) a v") (auto simp: put_def failP_def retP_def)

lemma put_same_head:
  "hm_head t \<noteq> a \<Longrightarrow> bindP (put t x v) (\<lambda>s. retP (if hm_head s = a then f s else s)) = put t x v"
  by (cases rule: put_cases [of t x v]) (auto simp: failP_def dest: put_keeps_head)

lemma hwx_unlink_eq:
  assumes ok: "hm_base s (xs @ c # ys) L"
  shows "hwx_unlink s (fst c) = hm_unlink s (fst c)"
proof -
  note g = hm_base_cell [OF ok]
  have h: "hm_head s = first (xs @ c # ys) 0" using hm_baseD(7) [OF ok] by (simp add: linked_def)
  show ?thesis
  proof (cases xs rule: rev_cases)
    case Nil
    then show ?thesis using g h
      by (cases rule: put_cases [of s "first ys 0 + 16" 0])
         (auto simp: hwx_unlink_def hm_unlink_def put_head failP_def dest: put_keeps_head)
  next
    case (snoc zs e)
    have e: "0 < fst e" using hm_base_cell(4) [of s zs e "c # ys" L] ok snoc by simp
    have ne: "hm_head s \<noteq> fst c"
      using h hm_base_addrs(2) [OF ok] snoc by (cases zs) auto
    then show ?thesis using g e snoc
      by (cases rule: put_cases [of s "fst e + 8" "first ys 0"])
         (auto simp: hwx_unlink_def hm_unlink_def failP_def put_same_head dest!: put_keeps_head)
  qed
qed

section \<open>xmalloc and xfree\<close>

definition hwx_size :: "nat \<Rightarrow> nat" where
  "hwx_size req = (if req < FLC then FLC else req)"

lemma hwx_found:
  assumes ok: "hm_wf s fs L" and f: "fit (hwx_size req) fs = Some (b, fs')" and sz: "hwx_size req < PAGE_SIZE"
  shows "\<exists>s'. hwx_xmalloc_helper s req = retP (s', fst b + 8) \<and> hm_wf s' fs' (insert b L) \<and> b \<notin> L \<and> keeps L s s'"
proof -
  have base: "hm_base s fs L" using ok by (simp add: hm_wf_def)
  have "24 \<le> hwx_size req" by (simp add: hwx_size_def FLC_def)
  from take_ok [OF ok f this] obtain c s1 s2 xs k ys where
    t: "find (\<lambda>b. hwx_size req \<le> snd b) fs = Some c" "fst c = fst b" "get s (fst c) = retP (snd c)"
    "(if FLC < sub64 (snd c) (hwx_size req) then split_chunk s (fst c) (hwx_size req) else retP s) = retP s1"
    "hm_unlink s1 (fst c) = retP s2" "hm_wf s2 fs' (insert b L)" "b \<notin> L" "keeps L s s2"
    "hm_base s1 (xs @ (fst c, k) # ys) L"
    by blast
  have "hm_head s = first fs 0" using hm_baseD(7) [OF base] by (simp add: linked_def)
  moreover have "hwx_search_size s (first fs 0) (hwx_size req) = retP (fst c)"
    using search_ok [of s "[]" fs L "hwx_size req"] hwx_search_eq [of s "[]" fs L] base t(1) by simp
  moreover have "0 < fst c"
  proof -
    have "c \<in> set fs" using t(1) by (auto simp: find_Some_iff)
    then have "fst c \<in> fst ` (set fs \<union> L)" by auto
    then show ?thesis using layout_small [OF hm_baseD(2) [OF base]] by simp
  qed
  moreover have "(if FLC < sub64 (snd c) (hwx_size req) then hwx_split_chunk s (fst b) (hwx_size req) else retP s) = retP s1"
    using t(2-4) hwx_split_eq by (auto split: if_splits)
  moreover have "hwx_unlink s1 (fst b) = retP s2" using hwx_unlink_eq [OF t(9)] t(2,5) by simp
  ultimately have "hwx_xmalloc_helper s req = retP (s2, fst b + 8)"
    using t(2,3) sz by (subst hwx_xmalloc_helper.simps) (simp add: Let_def hwx_size_def [symmetric] split del: if_split)
  then show ?thesis using t(6-8) by blast
qed

lemma hwx_page:
  assumes ok: "hm_wf s fs L" and f: "fit (hwx_size n) fs = None" and sz: "hwx_size n < PAGE_SIZE"
  shows "case hp_os (hm_heap s) (hp_mapped (hm_heap s)) PAGE_SIZE of
      None \<Rightarrow> hwx_xmalloc_helper s n = failP OutOfBounds
    | Some a \<Rightarrow> \<exists>s' b fs'. fit (hwx_size n) (give (a, PAGE_SIZE) fs) = Some (b, fs') \<and>
        hwx_xmalloc_helper s n = retP (s', fst b + 8) \<and> hm_wf s' fs' (insert b L) \<and> b \<notin> L \<and> mapped_more s s' a PAGE_SIZE \<and> kept L s s'"
proof -
  let ?sz = "hwx_size n"
  have base: "hm_base s fs L" and g: "gaps fs" using ok by (auto simp: hm_wf_def)
  have "hm_head s = first fs 0" using hm_baseD(7) [OF base] by (simp add: linked_def)
  moreover have "find (\<lambda>b. ?sz \<le> snd b) fs = None" using f by (auto simp: fit_def split: option.splits)
  ultimately have sea: "hwx_search_size s (hm_head s) ?sz = retP 0"
    using search_ok [of s "[]" fs L ?sz] hwx_search_eq [of s "[]" fs L] base by simp
  have "0 < (1::nat)" "1 * PAGE_SIZE < 2 ^ 64" by (simp_all add: PAGE_SIZE_def)
  note mr = map_room [OF base this]
  show ?thesis
  proof (cases "hp_os (hm_heap s) (hp_mapped (hm_heap s)) PAGE_SIZE")
    case None
    then have "map_pages s 1 = failP OutOfBounds" using mr by simp
    then show ?thesis
      using None sz sea by (subst hwx_xmalloc_helper.simps) (simp add: Let_def hwx_size_def [symmetric] failP_def)
  next
    case (Some a)
    then obtain s1 where s1: "map_pages s 1 = retP (s1, a)" "hm_base s1 fs L" "room s1 fs L a PAGE_SIZE"
      "mapped_more s s1 a PAGE_SIZE" "kept L s s1" using mr by auto
    have "hm_wf s1 fs L" using s1 g by (simp add: hm_wf_def)
    then obtain s2 where s2: "bindP (hm_make_fl_cell s1 a PAGE_SIZE) (\<lambda>s. bindP (hm_insert_fl_cell s a) (\<lambda>s. coalesce s a)) = retP s2"
      "hm_wf s2 (give (a, PAGE_SIZE) fs) L" "keeps L s1 s2"
      using put_back_ok s1(3) by blast
    have "\<exists>b \<in> set (give (a, PAGE_SIZE) fs). ?sz \<le> snd b" using give_covers [of a PAGE_SIZE fs] sz by force
    then obtain b fs' where f2: "fit ?sz (give (a, PAGE_SIZE) fs) = Some (b, fs')" using fit_ge by fastforce
    have again: "hwx_size ?sz = ?sz" by (simp add: hwx_size_def)
    obtain s3 where s3: "hwx_xmalloc_helper s2 ?sz = retP (s3, fst b + 8)" "hm_wf s3 fs' (insert b L)" "b \<notin> L" "keeps L s2 s3"
      using hwx_found [OF s2(2), of ?sz] again f2 sz by auto
    have "hwx_xmalloc_helper s n = bindP (bindP (hm_make_fl_cell s1 a PAGE_SIZE) (\<lambda>s. bindP (hm_insert_fl_cell s a) (\<lambda>s. coalesce s a)))
        (\<lambda>s. hwx_xmalloc_helper s ?sz)"
      using sz sea s1(1) by (subst hwx_xmalloc_helper.simps) (simp add: Let_def hwx_size_def [symmetric] bindP_assoc)
    then have "hwx_xmalloc_helper s n = retP (s3, fst b + 8)" using s2(1) s3(1) by simp
    moreover have "mapped_more s s3 a PAGE_SIZE" using s1(4) s2(3) s3(4) by (simp add: mapped_more_def keeps_def)
    moreover have "kept L s s3"
      using s1(5) s2(3) s3(4) by (auto simp: keeps_def intro: kept_trans)
    ultimately show ?thesis unfolding Some option.case using f2 s3(2,3) by blast
  qed
qed

lemma hwx_large:
  assumes ok: "hm_wf s fs L" and n: "PAGE_SIZE \<le> n" "n + PAGE_SIZE \<le> 2 ^ 64"
  shows "case hp_os (hm_heap s) (hp_mapped (hm_heap s)) (hm_div_up n * PAGE_SIZE) of
      None \<Rightarrow> hwx_xmalloc_helper s n = failP OutOfBounds
    | Some a \<Rightarrow> \<exists>s'. hwx_xmalloc_helper s n = retP (s', a + 8) \<and> hm_wf s' fs (insert (a, hm_div_up n * PAGE_SIZE) L) \<and>
        (a, hm_div_up n * PAGE_SIZE) \<notin> L \<and> a mod PAGE_SIZE = 0 \<and>
        mapped_more s s' a (hm_div_up n * PAGE_SIZE) \<and> kept L s s'"
proof -
  let ?k = "hm_div_up n" and ?n = "hm_div_up n * PAGE_SIZE"
  have base: "hm_base s fs L" and g: "gaps fs" using ok by (auto simp: hm_wf_def)
  have k: "n \<le> ?n" "?n < 2 ^ 64" "0 < ?k"
    using div_up_bounds [of n] n by (auto intro: gr0I simp: PAGE_SIZE_def)
  have sz: "(if n < FLC then FLC else n) = n" using n by (simp add: FLC_def PAGE_SIZE_def)
  note mr = map_room [OF base k(3,2)]
  show ?thesis
  proof (cases "hp_os (hm_heap s) (hp_mapped (hm_heap s)) ?n")
    case None
    then show ?thesis using mr n(1) by (subst hwx_xmalloc_helper.simps) (simp add: Let_def sz failP_def)
  next
    case (Some a)
    then obtain s1 where s1: "map_pages s ?k = retP (s1, a)" "hm_base s1 fs L" "room s1 fs L a ?n"
      "a mod PAGE_SIZE = 0" "mapped_more s s1 a ?n" "kept L s s1" using mr by auto
    let ?s = "upd s1 a 0 ?n"
    note p = put_header_ok [OF s1(2,3)]
    have "hwx_xmalloc_helper s n = retP (?s, a + 8)"
      using n(1) s1(1) p(1) by (subst hwx_xmalloc_helper.simps) (simp add: Let_def sz)
    moreover have "hm_wf ?s fs (insert (a, ?n) L)" using p(2) g by (simp add: hm_wf_def)
    moreover have "kept L s ?s" "mapped_more s ?s a ?n"
      using kept_trans [of L s s1 ?s] s1(5,6) p(3) by (simp_all add: keeps_def mapped_more_def)
    moreover have "(a, ?n) \<notin> L" using s1(3) by (auto simp: room_def intro: rev_image_eqI)
    ultimately show ?thesis using Some s1(4) by auto
  qed
qed

lemma hwx_xfree_ok:
  assumes ok: "hm_ok s fs L" and b: "(a, n) \<in> L"
  shows "\<exists>s' fs'. hwx_xfree s (a + 8) = retP s' \<and> hm_ok s' fs' (L - {(a, n)}) \<and> kept (L - {(a, n)}) s s'"
proof -
  let ?L = "L - {(a, n)}"
  have wf: "hm_wf s fs L" and w: "whole_pages L" using ok by (auto simp: hm_ok_def)
  have base: "hm_base s fs L" and g: "gaps fs" using wf by (auto simp: hm_wf_def)
  have w': "whole_pages ?L" using w by (auto simp: whole_pages_def)
  have base': "hm_base s fs ?L" by (rule hm_base_weaken [OF base]) auto
  note hb = hm_baseD [OF base] and hb' = hm_baseD [OF base'] and get = hm_wf_header [OF wf b]
  show ?thesis
  proof (cases "PAGE_SIZE \<le> n")
    case True
    then have p: "a mod 4096 = 0" "n mod 4096 = 0" using w b by (auto simp: whole_pages_def PAGE_SIZE_def)
    then obtain k where k: "n = 4096 * k" by (auto elim: dvdE simp: mod_eq_0_iff_dvd)
    have r: "hm_div_up n * PAGE_SIZE = n" "round_page n = n"
      by (simp_all add: hm_div_up_def PAGE_SIZE_def round_page_def k)
    let ?P = "\<lambda>x. hp_mapped (hm_heap s) x \<and> \<not> (a \<le> x \<and> x < a + n)"
    let ?s = "s\<lparr>hm_heap := (hm_heap s)\<lparr>hp_mapped := ?P\<rparr>\<rparr>"
    have run: "hwx_xfree s (a + 8) = retP ?s"
      using True get p r by (simp add: hwx_xfree_def hwx_xfree_helper_def munmap_def)
    have "all_mapped ?P (set fs \<union> ?L)"
      unfolding all_mapped_def
    proof (clarify)
      fix c j x assume c: "(c, j) \<in> set fs \<union> ?L" "c \<le> x" "x < c + j"
      have "(c, j) \<noteq> (a, n)" using c(1) b hb(4) by auto
      then have "a + n \<le> c \<or> c + j \<le> a" using layout_apart [OF hb(2), of a n c j] c(1) b by auto
      then show "?P x" using c hb'(3) by (auto simp: all_mapped_def)
    qed
    then have "hm_base ?s fs ?L" using hb' unfolding hm_base_def by (auto simp: linked_def)
    then show ?thesis using run g w'
      by (intro exI [of _ ?s] exI [of _ fs]) (simp add: hm_ok_def hm_wf_def kept_def)
  next
    case False
    obtain s1 where s1: "bindP (hm_make_fl_cell s a n) (\<lambda>s. bindP (hm_insert_fl_cell s a) (\<lambda>s. coalesce s a)) = retP s1"
      "hm_wf s1 (give (a, n) fs) ?L" "keeps ?L s s1"
      using give_back [OF wf b] by blast
    have "hwx_xfree s (a + 8) = retP s1" using False get s1(1) by (simp add: hwx_xfree_def hwx_xfree_helper_def)
    then show ?thesis using s1(2,3) w' by (auto simp: hm_ok_def keeps_def)
  qed
qed

lemma hwx_xmalloc_ok:
  assumes ok: "hm_ok s fs L" and n: "hm_served n"
  shows "no_pages s \<and> hwx_xmalloc s n = failP OutOfBounds \<or>
    (\<exists>s' fs' b. hwx_xmalloc s n = retP (s', fst b + 8) \<and> n + 8 \<le> snd b \<and> hm_ok s' fs' (insert b L) \<and> b \<notin> L \<and> kept L s s')"
proof -
  have wf: "hm_wf s fs L" and w: "whole_pages L" using ok by (auto simp: hm_ok_def)
  have n8: "add64 n 8 = n + 8" using n by (auto simp: add64_def hm_served_def PAGE_SIZE_def)
  consider "n + 32 < PAGE_SIZE" | "PAGE_SIZE \<le> n + 8" "n + 8 + PAGE_SIZE \<le> 2 ^ 64"
    using n by (auto simp: hm_served_def)
  then show ?thesis
  proof cases
    case 1
    have sz: "hwx_size (n + 8) < PAGE_SIZE" "hwx_size (n + 8) + 24 < PAGE_SIZE" "n + 8 \<le> hwx_size (n + 8)"
      using 1 by (auto simp: hwx_size_def FLC_def PAGE_SIZE_def)
    have good: "n + 8 \<le> snd b \<and> whole_pages (insert b L)" if "fit (hwx_size (n + 8)) gs = Some (b, fs')" for b gs fs'
      using fit_size [OF that] sz w by (cases b) (auto simp: whole_pages_insert)
    show ?thesis
    proof (cases "fit (hwx_size (n + 8)) fs")
      case None
      show ?thesis
      proof (cases "hp_os (hm_heap s) (hp_mapped (hm_heap s)) PAGE_SIZE")
        case o: None
        then show ?thesis using hwx_page [OF wf None sz(1)] by (auto simp: no_pages_def hwx_xmalloc_def n8)
      next
        case (Some a)
        then show ?thesis using hwx_page [OF wf None sz(1)] good by (fastforce simp: hm_ok_def hwx_xmalloc_def n8)
      qed
    next
      case (Some x)
      obtain b fs' where x: "x = (b, fs')" by fastforce
      then have f: "fit (hwx_size (n + 8)) fs = Some (b, fs')" using Some by simp
      from hwx_found [OF wf f sz(1)] show ?thesis
        using good [OF f] unfolding hm_ok_def keeps_def hwx_xmalloc_def n8 by blast
    qed
  next
    case 2
    let ?n = "hm_div_up (n + 8) * PAGE_SIZE"
    show ?thesis
    proof (cases "hp_os (hm_heap s) (hp_mapped (hm_heap s)) ?n")
      case None
      then show ?thesis using hwx_large [OF wf 2] by (auto simp: no_pages_def hwx_xmalloc_def n8)
    next
      case (Some a)
      then obtain s' where s': "hwx_xmalloc s n = retP (s', a + 8)" "hm_wf s' fs (insert (a, ?n) L)" "(a, ?n) \<notin> L"
        "a mod PAGE_SIZE = 0" "kept L s s'"
        using hwx_large [OF wf 2] by (auto simp: hwx_xmalloc_def n8)
      have "hm_ok s' fs (insert (a, ?n) L)" using s'(2,4) w by (simp add: hm_ok_def whole_pages_insert)
      then show ?thesis using s' div_up_bounds(1) [of "n + 8"]
        by (intro disjI2 exI [of _ s'] exI [of _ fs] exI [of _ "(a, ?n)"]) simp
    qed
  qed
qed

interpretation hwx: cell_pool hm_cells "\<lambda>s n. run_prog (hwx_xmalloc s n)" "\<lambda>s p. run_prog (hwx_xfree s p)" hm_served
proof
  fix s L n s' p
  assume a: "hm_cells s L" "hm_served n" "run_prog (hwx_xmalloc s n) = Inr (s', p)"
  then obtain fs where ok: "hm_ok s fs L" by (auto simp: hm_cells_def)
  from hwx_xmalloc_ok [OF ok a(2)] a(3) show "\<exists>b. p = fst b + 8 \<and> n + 8 \<le> snd b \<and> b \<notin> L \<and> hm_cells s' (insert b L)"
    unfolding hm_cells_def by fastforce
next
  fix s L b
  assume "hm_cells s L" "b \<in> L"
  then show "\<exists>s'. run_prog (hwx_xfree s (fst b + 8)) = Inr s' \<and> hm_cells s' (L - {b})"
    using hwx_xfree_ok [of s _ L "fst b" "snd b"] unfolding hm_cells_def by fastforce
qed (use hm_cells_blocks in blast)+

section \<open>Properties\<close>

text \<open>
  The allocator \<^verbatim>\<open>hwx_malloc\<close> satisfies the same contract for the same sizes: after any series of
  requests and releases the blocks that a client holds have different addresses, are as large as
  asked for, and are pairwise disjoint.
\<close>
theorem hwx_client_safe:
  assumes "mmap_ok os" and "\<forall>n. Alloc n \<in> set rs \<longrightarrow> hm_served n"
    and "hwx.pool.run_client rs (hm_init os) [] = Inr (s, hs)"
  shows "\<exists>P. disj_blocks P \<and> distinct (map fst hs) \<and> (\<forall>(p, n) \<in> set hs. \<exists>k \<ge> n. (p, k) \<in> P)"
proof -
  have "hwx.inv (hm_init os) {}" using hm_init_ok [OF assms(1)] unfolding hwx.inv_def hm_cells_def by blast
  moreover have "hwx.pool.owns {} []" by (simp add: hwx.pool.owns_def)
  ultimately obtain P where "hwx.inv s P" "hwx.pool.owns P hs"
    using hwx.pool.run_client_safe assms(2,3) by blast
  then show ?thesis by (intro exI [of _ P]) (simp add: hwx.pool.owns_def hwx.pool.inv_disjoint)
qed

text \<open>A first request of 5000 bytes on the machine of the theory HmallocProps.\<close>

lemma hwx_first:
  "\<exists>s. hwx_xmalloc (hm_init down_os) 5000 = retP (s, 196616) \<and> hm_ok s [] {(196608, 8192)} \<and>
     hp_os (hm_heap s) = down_os \<and> hp_mapped (hm_heap s) = demo_mapped 196608"
proof -
  have wf: "hm_wf (hm_init down_os) [] {}" using hm_init_ok [OF down_os_ok] by (simp add: hm_ok_def)
  have d: "hm_div_up 5008 * PAGE_SIZE = 8192" by (simp add: hm_div_up_def PAGE_SIZE_def)
  have i: "hp_os (hm_heap (hm_init down_os)) = down_os" "hp_mapped (hm_heap (hm_init down_os)) = (\<lambda>_. False)"
    by (simp_all add: hm_init_def)
  have x: "hwx_xmalloc (hm_init down_os) 5000 = hwx_xmalloc_helper (hm_init down_os) 5008"
    by (simp add: hwx_xmalloc_def add64_def)
  have "PAGE_SIZE \<le> 5008" "5008 + PAGE_SIZE \<le> 2 ^ 64" by (simp_all add: PAGE_SIZE_def)
  from hwx_large [OF wf this, unfolded d i demo_os option.case] obtain s where
    s: "hwx_xmalloc_helper (hm_init down_os) 5008 = retP (s, 196616)" "hm_wf s [] {(196608, 8192)}"
      "mapped_more (hm_init down_os) s 196608 8192" by auto
  have "hm_ok s [] {(196608, 8192)}" using s(2) by (simp add: hm_ok_def whole_pages_def PAGE_SIZE_def)
  then show ?thesis using s x
    by (intro exI [of _ s]) (auto simp: mapped_more_def i demo_mapped_def fun_eq_iff)
qed

theorem hwx_client_safe_witness: "\<exists>P k. disj_blocks P \<and> 5000 \<le> k \<and> (196616, k) \<in> P"
proof -
  obtain s1 where s1: "hwx_xmalloc (hm_init down_os) 5000 = retP (s1, 196616)" using hwx_first by blast
  have "\<forall>n. Alloc n \<in> set [Alloc 5000] \<longrightarrow> hm_served n" by (simp add: hm_served_def PAGE_SIZE_def)
  from hwx_client_safe [OF down_os_ok this, of s1 "[(196616, 5000)]"] s1 show ?thesis by auto
qed

text \<open>
  \<^verbatim>\<open>xrealloc\<close> of \<^verbatim>\<open>hwx_malloc\<close> takes the size in front of the block, which includes the 8 bytes of the size itself,
  for the number of bytes to copy: enlarging a block that has pages of its own reads 8 bytes
  behind them and fails if the next page is not mapped.
\<close>
theorem hwx_xrealloc_overreads:
  assumes "hm_ok s fs L" "(a, n) \<in> L" "n < new_size" "hwx_xmalloc s new_size = retP (s1, p)"
    and "\<not> hp_mapped (hm_heap s1) (a + n)"
  shows "hwx_xrealloc s (a + 8) new_size = failP OutOfBounds"
proof -
  have wf: "hm_wf s fs L" using assms(1) by (simp add: hm_ok_def)
  have "24 \<le> n" using hm_ok_blocks(2) [OF assms(1,2)] by simp
  then have "\<not> mapped_range (hm_heap s1) (a + 8) n"
    using assms(5) unfolding mapped_range_iff by (auto intro!: exI [of _ "a + n"])
  then have "hwx_memcpy s1 p (a + 8) n = failP OutOfBounds"
    by (simp add: hwx_memcpy_def copy_bytes_def failP_def)
  then show ?thesis using hm_wf_header [OF wf assms(2)] assms(3,4)
    by (simp add: hwx_xrealloc_def hwx_xrealloc_helper_def hwx_xmalloc_def failP_def)
qed

theorem hwx_xrealloc_overreads_witness:
  "\<exists>s. hm_ok s [] {(196608, 8192)} \<and> hwx_xrealloc s 196616 10000 = failP OutOfBounds"
proof -
  obtain s where s: "hm_ok s [] {(196608, 8192)}" "hp_os (hm_heap s) = down_os"
    "hp_mapped (hm_heap s) = demo_mapped 196608" using hwx_first by blast
  have wf: "hm_wf s [] {(196608, 8192)}" using s(1) by (simp add: hm_ok_def)
  have d: "hm_div_up 10008 * PAGE_SIZE = 12288" by (simp add: hm_div_up_def PAGE_SIZE_def)
  have o: "down_os (demo_mapped 196608) 12288 = Some 163840"
    by (simp add: down_os_def unused_def demo_mapped_def)
  have "PAGE_SIZE \<le> 10008" "10008 + PAGE_SIZE \<le> 2 ^ 64" by (simp_all add: PAGE_SIZE_def)
  from hwx_large [OF wf this, unfolded d s(2,3) o option.case] obtain s1 where
    s1: "hwx_xmalloc s 10000 = retP (s1, 163848)" "mapped_more s s1 163840 12288"
    by (auto simp: hwx_xmalloc_def add64_def)
  have "\<not> hp_mapped (hm_heap s1) (196608 + 8192)" using s1(2) s(3) by (simp add: mapped_more_def demo_mapped_def)
  from hwx_xrealloc_overreads [OF s(1) _ _ s1(1) this] show ?thesis using s(1) by auto
qed

end
