(* ===== verification/Proc.thy ===== *)
theory Proc
  imports Prelude
begin

text \<open>
  Processes of xv6 (\<^verbatim>\<open>hw09/starter-hw09/xv6/proc.c\<close>): the process table, creation, exit, waiting,
  sleeping and waking, killing and scheduling. A critical section under \<^verbatim>\<open>ptable.lock\<close> is one
  function on the kernel state; the step relation interleaves the critical sections of all
  processes, and \<^verbatim>\<open>fork\<close>, which releases the lock between claiming a slot and making it runnable,
  takes two steps. What \<^verbatim>\<open>kalloc\<close>, \<^verbatim>\<open>copyuvm\<close> and \<^verbatim>\<open>allocuvm\<close> return is an argument (0 for failure); of
  the file table and the inode cache only the reference counts are there.
\<close>

section \<open>State\<close>

datatype procstate = UNUSED | EMBRYO | SLEEPING | RUNNABLE | RUNNING | ZOMBIE

text \<open>A channel is an address: that of a process (for \<^verbatim>\<open>wait\<close>) or of something else.\<close>

datatype chan = CProc nat | COther nat

record proc =
  p_sz :: int
  p_pgdir :: nat
  p_kstack :: nat
  p_state :: procstate
  p_pid :: int
  p_parent :: "nat option"
  p_tf :: "string \<Rightarrow> int"
  p_chan :: "chan option"
  p_killed :: bool
  p_ofile :: "nat option list"
  p_cwd :: "nat option"
  p_name :: string

record kern =
  ptable :: "nat \<Rightarrow> proc"
  nextpid :: int
  initproc :: nat
  cpus :: "nat \<Rightarrow> nat option"
  file_refs :: "nat \<Rightarrow> int"
  inode_refs :: "nat \<Rightarrow> int"

definition NPROC :: nat where "NPROC = 64"
definition NCPU :: nat where "NCPU = 8"
definition NOFILE :: nat where "NOFILE = 16"

definition upd_proc :: "nat \<Rightarrow> (proc \<Rightarrow> proc) \<Rightarrow> kern \<Rightarrow> kern" where
  "upd_proc p f s = s\<lparr>ptable := (ptable s)(p := f (ptable s p))\<rparr>"

section \<open>Creation\<close>

text \<open>
  The critical section of \<^verbatim>\<open>allocproc\<close>: the first unused slot, with the next process number.
  \<^verbatim>\<open>nextpid\<close> is a signed \<^verbatim>\<open>int\<close>, whose increment is undefined at its largest value.
\<close>

definition INT_MAX :: int where "INT_MAX = 2147483647"

definition alloc_slot :: "kern \<Rightarrow> (kern \<times> nat option) res" where
  "alloc_slot s =
     (case find (\<lambda>p. p_state (ptable s p) = UNUSED) [0..<NPROC] of
        None \<Rightarrow> Inr (s, None)
      | Some p \<Rightarrow>
          if nextpid s = INT_MAX then Inl Undefined
          else Inr ((upd_proc p (\<lambda>x. x\<lparr>p_state := EMBRYO, p_pid := nextpid s\<rparr>) s)\<lparr>nextpid := nextpid s + 1\<rparr>,
                    Some p))"

text \<open>The rest of \<^verbatim>\<open>allocproc\<close>: the kernel stack, whose trap frame starts out undefined, and the context.\<close>

definition alloc_stack :: "kern \<Rightarrow> nat \<Rightarrow> nat \<Rightarrow> kern \<times> bool" where
  "alloc_stack s p ks =
     (if ks = 0 then (upd_proc p (\<lambda>x. x\<lparr>p_kstack := 0, p_state := UNUSED\<rparr>) s, False)
      else (upd_proc p (\<lambda>x. x\<lparr>p_kstack := ks\<rparr>) s, True))"

definition allocproc :: "kern \<Rightarrow> nat \<Rightarrow> (kern \<times> nat option) res" where
  "allocproc s ks =
     bind_res (alloc_slot s) (\<lambda>(s, np). case np of
        None \<Rightarrow> Inr (s, None)
      | Some p \<Rightarrow> (case alloc_stack s p ks of (s, ok) \<Rightarrow> Inr (s, if ok then Some p else None)))"

definition userinit :: "kern \<Rightarrow> nat \<Rightarrow> nat \<Rightarrow> nat \<Rightarrow> kern res" where
  "userinit s ks pg root =
     bind_res (allocproc s ks) (\<lambda>(s, np). case np of
        None \<Rightarrow> Inl NullDeref
      | Some p \<Rightarrow>
          if pg = 0 then Inl (Panic ''userinit: out of memory?'')
          else Inr (upd_proc p (\<lambda>x. x\<lparr>p_pgdir := pg, p_sz := 4096,
                 p_tf := (\<lambda>_. 0)(''cs'' := 27, ''ds'' := 35, ''es'' := 35, ''ss'' := 35, ''eflags'' := 512,
                   ''esp'' := 4096, ''eip'' := 0),
                 p_name := ''initcode'', p_cwd := Some root, p_state := RUNNABLE\<rparr>)
               (s\<lparr>initproc := p\<rparr>)))"

text \<open>\<^verbatim>\<open>allocuvm\<close> and \<^verbatim>\<open>deallocuvm\<close> return the new size, or 0; \<open>vm\<close> stands for their result.\<close>

definition growproc :: "kern \<Rightarrow> nat \<Rightarrow> int \<Rightarrow> int \<Rightarrow> kern \<times> int" where
  "growproc s p n vm =
     (if n \<noteq> 0 \<and> vm = 0 then (s, -1)
      else (upd_proc p (\<lambda>x. x\<lparr>p_sz := (if n = 0 then p_sz x else vm)\<rparr>) s, 0))"

definition filedup :: "nat \<Rightarrow> (nat \<Rightarrow> int) \<Rightarrow> (nat \<Rightarrow> int) res" where
  "filedup f r = (if r f < 1 then Inl (Panic ''filedup'') else Inr (r(f := r f + 1)))"

definition fileclose :: "nat \<Rightarrow> (nat \<Rightarrow> int) \<Rightarrow> (nat \<Rightarrow> int) res" where
  "fileclose f r = (if r f < 1 then Inl (Panic ''fileclose'') else Inr (r(f := r f - 1)))"

fun dup_files :: "nat option list \<Rightarrow> (nat \<Rightarrow> int) \<Rightarrow> (nat \<Rightarrow> int) res" where
  "dup_files [] r = Inr r"
| "dup_files (None # fs) r = dup_files fs r"
| "dup_files (Some f # fs) r = bind_res (filedup f r) (dup_files fs)"

fun close_files :: "nat option list \<Rightarrow> (nat \<Rightarrow> int) \<Rightarrow> (nat \<Rightarrow> int) res" where
  "close_files [] r = Inr r"
| "close_files (None # fs) r = close_files fs r"
| "close_files (Some f # fs) r = bind_res (fileclose f r) (close_files fs)"

text \<open>
  The part of \<^verbatim>\<open>fork\<close> after a slot was found. The loop over the open files leaves an entry of the
  child alone where the parent's is empty; the entries of a slot that is not in use are empty.
  The code fills the slot without the lock, which it takes only to make the process runnable;
  here both are one step, in which the slot, claimed and not runnable, is the caller's alone.
\<close>

definition fork_rest :: "kern \<Rightarrow> nat \<Rightarrow> nat \<Rightarrow> nat \<Rightarrow> nat \<Rightarrow> (kern \<times> int) res" where
  "fork_rest s cur np ks pg =
     (case alloc_stack s np ks of
        (s, False) \<Rightarrow> Inr (s, -1)
      | (s, True) \<Rightarrow>
          if pg = 0 then
            Inr (upd_proc np (\<lambda>x. x\<lparr>p_pgdir := 0, p_kstack := 0, p_state := UNUSED\<rparr>) s, -1)
          else
            let c = ptable s cur in
            bind_res (dup_files (p_ofile c) (file_refs s)) (\<lambda>fr.
            case p_cwd c of
              None \<Rightarrow> Inl NullDeref
            | Some i \<Rightarrow>
                Inr (upd_proc np (\<lambda>x. x\<lparr>p_pgdir := pg, p_sz := p_sz c, p_parent := Some cur,
                       p_tf := (p_tf c)(''eax'' := 0),
                       p_ofile := map2 (\<lambda>a b. if a = None then b else a) (p_ofile c) (p_ofile x),
                       p_cwd := Some i, p_name := p_name c, p_state := RUNNABLE\<rparr>)
                     (s\<lparr>file_refs := fr, inode_refs := (inode_refs s)(i := inode_refs s i + 1)\<rparr>),
                     p_pid (ptable s np))))"

definition fork :: "kern \<Rightarrow> nat \<Rightarrow> nat \<Rightarrow> nat \<Rightarrow> (kern \<times> int) res" where
  "fork s cur ks pg =
     bind_res (alloc_slot s) (\<lambda>(s, np). case np of
        None \<Rightarrow> Inr (s, -1)
      | Some np \<Rightarrow> fork_rest s cur np ks pg)"

section \<open>Waking, exit and wait\<close>

definition wakeup1 :: "chan option \<Rightarrow> kern \<Rightarrow> kern" where
  "wakeup1 ch s = s\<lparr>ptable := (\<lambda>p.
     if p < NPROC \<and> p_state (ptable s p) = SLEEPING \<and> p_chan (ptable s p) = ch
     then (ptable s p)\<lparr>p_state := RUNNABLE\<rparr> else ptable s p)\<rparr>"

definition wakeup :: "chan \<Rightarrow> kern \<Rightarrow> kern" where
  "wakeup ch s = wakeup1 (Some ch) s"

text \<open>The loop of \<^verbatim>\<open>exit\<close> that passes the children to \<^verbatim>\<open>init\<close>.\<close>

fun reparent :: "nat list \<Rightarrow> nat \<Rightarrow> kern \<Rightarrow> kern" where
  "reparent [] cur s = s"
| "reparent (p # ps) cur s =
     reparent ps cur
       (if p_parent (ptable s p) = Some cur then
          let s' = upd_proc p (\<lambda>x. x\<lparr>p_parent := Some (initproc s)\<rparr>) s in
          if p_state (ptable s' p) = ZOMBIE then wakeup1 (Some (CProc (initproc s'))) s' else s'
        else s)"

text \<open>\<^verbatim>\<open>sched\<close>: the process must have left the state RUNNING; the processor goes back to its scheduler.\<close>

definition sched :: "nat \<Rightarrow> kern \<Rightarrow> kern res" where
  "sched p s =
     (if p_state (ptable s p) = RUNNING then Inl (Panic ''sched running'')
      else Inr (s\<lparr>cpus := (\<lambda>c. if cpus s c = Some p then None else cpus s c)\<rparr>))"

text \<open>
  \<^verbatim>\<open>exit\<close>: closing the files and releasing the directory, which the code does before it takes the
  lock and where it may sleep, are one step with the section under the lock.
\<close>

definition exit_proc :: "nat \<Rightarrow> kern \<Rightarrow> kern res" where
  "exit_proc cur s =
     (if cur = initproc s then Inl (Panic ''init exiting'')
      else
        bind_res (close_files (p_ofile (ptable s cur)) (file_refs s)) (\<lambda>fr.
        case p_cwd (ptable s cur) of
          None \<Rightarrow> Inl NullDeref
        | Some i \<Rightarrow>
            let s = upd_proc cur (\<lambda>x. x\<lparr>p_ofile := replicate NOFILE None, p_cwd := None\<rparr>)
                      (s\<lparr>file_refs := fr, inode_refs := (inode_refs s)(i := inode_refs s i - 1)\<rparr>);
                s = wakeup1 (map_option CProc (p_parent (ptable s cur))) s;
                s = reparent [0..<NPROC] cur s in
            sched cur (upd_proc cur (\<lambda>x. x\<lparr>p_state := ZOMBIE\<rparr>) s)))"

text \<open>One pass of \<^verbatim>\<open>wait\<close> over the table: a zombie child is reaped, or the answer whether there are children.\<close>

datatype scan = Reaped kern int | Kids bool

fun wait_scan :: "nat list \<Rightarrow> nat \<Rightarrow> bool \<Rightarrow> kern \<Rightarrow> scan" where
  "wait_scan [] cur havekids s = Kids havekids"
| "wait_scan (p # ps) cur havekids s =
     (if p_parent (ptable s p) \<noteq> Some cur then wait_scan ps cur havekids s
      else if p_state (ptable s p) = ZOMBIE then
        Reaped (upd_proc p (\<lambda>x. x\<lparr>p_kstack := 0, p_pid := 0, p_parent := None, p_name := '''',
                  p_killed := False, p_state := UNUSED\<rparr>) s) (p_pid (ptable s p))
      else wait_scan ps cur True s)"

definition sleep :: "nat \<Rightarrow> chan \<Rightarrow> kern \<Rightarrow> kern res" where
  "sleep p ch s = sched p (upd_proc p (\<lambda>x. x\<lparr>p_chan := Some ch, p_state := SLEEPING\<rparr>) s)"

datatype wait_result = Returned int | Slept

definition wait :: "nat \<Rightarrow> kern \<Rightarrow> (kern \<times> wait_result) res" where
  "wait cur s =
     (case wait_scan [0..<NPROC] cur False s of
        Reaped s' pid \<Rightarrow> Inr (s', Returned pid)
      | Kids k \<Rightarrow>
          if \<not> k \<or> p_killed (ptable s cur) then Inr (s, Returned (-1))
          else bind_res (sleep cur (CProc cur) s) (\<lambda>s'. Inr (s', Slept)))"

definition kill :: "int \<Rightarrow> kern \<Rightarrow> kern \<times> int" where
  "kill pid s =
     (case find (\<lambda>p. p_pid (ptable s p) = pid) [0..<NPROC] of
        None \<Rightarrow> (s, -1)
      | Some p \<Rightarrow>
          (upd_proc p (\<lambda>x. x\<lparr>p_killed := True,
             p_state := (if p_state x = SLEEPING then RUNNABLE else p_state x)\<rparr>) s, 0))"

section \<open>Scheduling\<close>

text \<open>One iteration of the loop of \<^verbatim>\<open>scheduler\<close> that finds a process, up to the switch to it.\<close>

definition dispatch :: "nat \<Rightarrow> nat \<Rightarrow> kern \<Rightarrow> kern" where
  "dispatch c p s =
     (if p_state (ptable s p) \<noteq> RUNNABLE then s
      else upd_proc p (\<lambda>x. x\<lparr>p_state := RUNNING\<rparr>) (s\<lparr>cpus := (cpus s)(c := Some p)\<rparr>))"

text \<open>The end of \<^verbatim>\<open>sleep\<close>, after the switch back.\<close>

definition awake :: "nat \<Rightarrow> kern \<Rightarrow> kern" where
  "awake p s = upd_proc p (\<lambda>x. x\<lparr>p_chan := None\<rparr>) s"

definition yield :: "nat \<Rightarrow> kern \<Rightarrow> kern res" where
  "yield p s = sched p (upd_proc p (\<lambda>x. x\<lparr>p_state := RUNNABLE\<rparr>) s)"

section \<open>Interleaving\<close>

text \<open>The table as the kernel is loaded: zeroed memory, the first process number is 1.\<close>

definition zero_proc :: proc where
  "zero_proc = \<lparr>p_sz = 0, p_pgdir = 0, p_kstack = 0, p_state = UNUSED, p_pid = 0, p_parent = None,
     p_tf = (\<lambda>_. 0), p_chan = None, p_killed = False, p_ofile = replicate NOFILE None, p_cwd = None,
     p_name = ''''\<rparr>"

definition boot_kern :: kern where
  "boot_kern = \<lparr>ptable = (\<lambda>_. zero_proc), nextpid = 1, initproc = 0, cpus = (\<lambda>_. None),
     file_refs = (\<lambda>_. 0), inode_refs = (\<lambda>_. 0)\<rparr>"

text \<open>
  Where a process is in the kernel: nowhere in particular, in \<^verbatim>\<open>fork\<close> with a slot of its own, in
  \<^verbatim>\<open>wait\<close> after having gone to sleep, or asleep on another channel.
\<close>

datatype where_at = Idle | Forking nat | Waiting | Asleep

text \<open>
  A step in which the code panics, reads through a null pointer or overflows \<^verbatim>\<open>nextpid\<close> has no
  successor: the runs below go up to the creation of process \<open>INT_MAX - 1\<close>.
\<close>

type_synonym config = "kern \<times> (nat \<Rightarrow> where_at)"

abbreviation running :: "kern \<Rightarrow> nat \<Rightarrow> bool" where
  "running s p \<equiv> p < NPROC \<and> p_state (ptable s p) = RUNNING"

inductive step :: "config \<Rightarrow> config \<Rightarrow> bool" where
  fork1: "running s p \<Longrightarrow> w p = Idle \<Longrightarrow> alloc_slot s = Inr (s', Some np) \<Longrightarrow>
    step (s, w) (s', w(p := Forking np))"
| fork2: "running s p \<Longrightarrow> w p = Forking np \<Longrightarrow> fork_rest s p np ks pg = Inr (s', r) \<Longrightarrow>
    step (s, w) (s', w(p := Idle, np := Idle))"
| exit: "running s p \<Longrightarrow> w p = Idle \<Longrightarrow> exit_proc p s = Inr s' \<Longrightarrow> step (s, w) (s', w)"
| wait_now: "running s p \<Longrightarrow> w p = Idle \<Longrightarrow> wait p s = Inr (s', Returned r) \<Longrightarrow> step (s, w) (s', w)"
| wait_sleep: "running s p \<Longrightarrow> w p = Idle \<Longrightarrow> wait p s = Inr (s', Slept) \<Longrightarrow> step (s, w) (s', w(p := Waiting))"
| sleep: "running s p \<Longrightarrow> w p = Idle \<Longrightarrow> sleep p (COther a) s = Inr s' \<Longrightarrow> step (s, w) (s', w(p := Asleep))"
| wakeup: "step (s, w) (wakeup (COther a) s, w)"
| kill: "step (s, w) (fst (kill pid s), w)"
| yield: "running s p \<Longrightarrow> yield p s = Inr s' \<Longrightarrow> step (s, w) (s', w)"
| run: "c < NCPU \<Longrightarrow> cpus s c = None \<Longrightarrow> p < NPROC \<Longrightarrow> p_state (ptable s p) = RUNNABLE \<Longrightarrow> w p \<noteq> Waiting \<Longrightarrow>
    w p \<noteq> Asleep \<Longrightarrow> step (s, w) (dispatch c p s, w)"
| resume: "c < NCPU \<Longrightarrow> cpus s c = None \<Longrightarrow> p < NPROC \<Longrightarrow> p_state (ptable s p) = RUNNABLE \<Longrightarrow> w p = Asleep \<Longrightarrow>
    step (s, w) (awake p (dispatch c p s), w(p := Idle))"
| rewait_now: "c < NCPU \<Longrightarrow> cpus s c = None \<Longrightarrow> p < NPROC \<Longrightarrow> p_state (ptable s p) = RUNNABLE \<Longrightarrow> w p = Waiting \<Longrightarrow>
    wait p (awake p (dispatch c p s)) = Inr (s', Returned r) \<Longrightarrow> step (s, w) (s', w(p := Idle))"
| rewait_sleep: "c < NCPU \<Longrightarrow> cpus s c = None \<Longrightarrow> p < NPROC \<Longrightarrow> p_state (ptable s p) = RUNNABLE \<Longrightarrow> w p = Waiting \<Longrightarrow>
    wait p (awake p (dispatch c p s)) = Inr (s', Slept) \<Longrightarrow> step (s, w) (s', w)"

inductive reachable :: "config \<Rightarrow> config \<Rightarrow> bool" for c0 where
  start: "reachable c0 c0"
| next_step: "reachable c0 c \<Longrightarrow> step c c' \<Longrightarrow> reachable c0 c'"

section \<open>The invariant\<close>

definition live :: "kern \<Rightarrow> nat \<Rightarrow> bool" where
  "live s p \<longleftrightarrow> p_state (ptable s p) \<in> {SLEEPING, RUNNABLE, RUNNING}"

definition fresh :: "kern \<Rightarrow> nat \<Rightarrow> bool" where
  "fresh s p \<longleftrightarrow> p_state (ptable s p) \<in> {UNUSED, EMBRYO}"

text \<open>The processors and the running processes correspond one to one.\<close>

definition cpu_ok :: "kern \<Rightarrow> bool" where
  "cpu_ok s \<longleftrightarrow> (\<forall>c p. cpus s c = Some p \<longrightarrow> c < NCPU \<and> running s p) \<and>
     (\<forall>p. running s p \<longrightarrow> (\<exists>c. cpus s c = Some p)) \<and>
     (\<forall>c c' p. cpus s c = Some p \<longrightarrow> cpus s c' = Some p \<longrightarrow> c = c')"

text \<open>
  The first process is alive and an orphan; a slot not yet or no longer in use has no parent; every
  other process, zombies included, has a parent that is alive and can reap it.
\<close>

definition family_ok :: "kern \<Rightarrow> bool" where
  "family_ok s \<longleftrightarrow> initproc s < NPROC \<and> live s (initproc s) \<and> p_parent (ptable s (initproc s)) = None \<and>
     (\<forall>p<NPROC. fresh s p \<longrightarrow> p_parent (ptable s p) = None) \<and>
     (\<forall>p<NPROC. p \<noteq> initproc s \<longrightarrow> \<not> fresh s p \<longrightarrow> (\<exists>q<NPROC. p_parent (ptable s p) = Some q \<and> q \<noteq> p \<and> live s q))"

text \<open>Process numbers: positive, already given out, and different for slots in use.\<close>

definition pids_ok :: "kern \<Rightarrow> bool" where
  "pids_ok s \<longleftrightarrow> 0 < nextpid s \<and> nextpid s \<le> INT_MAX \<and>
     (\<forall>p<NPROC. p_state (ptable s p) \<noteq> UNUSED \<longrightarrow> 0 < p_pid (ptable s p)) \<and>
     (\<forall>p<NPROC. p_pid (ptable s p) < nextpid s) \<and>
     (\<forall>p<NPROC. \<forall>q<NPROC. p_state (ptable s p) \<noteq> UNUSED \<longrightarrow> p_pid (ptable s p) = p_pid (ptable s q) \<longrightarrow> p = q)"

text \<open>Which states go with which place in the kernel; a claimed slot belongs to exactly one \<^verbatim>\<open>fork\<close>.\<close>

definition threads_ok :: "config \<Rightarrow> bool" where
  "threads_ok c = (case c of (s, w) \<Rightarrow>
     (\<forall>p<NPROC. case w p of
        Idle \<Rightarrow> p_state (ptable s p) \<noteq> SLEEPING
      | Forking np \<Rightarrow> np < NPROC \<and> p_state (ptable s np) = EMBRYO \<and> p_state (ptable s p) \<in> {RUNNABLE, RUNNING}
      | _ \<Rightarrow> p_state (ptable s p) \<in> {SLEEPING, RUNNABLE}) \<and>
     (\<forall>p<NPROC. \<forall>q<NPROC. \<forall>np. w p = Forking np \<longrightarrow> w q = Forking np \<longrightarrow> p = q) \<and>
     (\<forall>np<NPROC. p_state (ptable s np) = EMBRYO \<longrightarrow> (\<exists>p<NPROC. w p = Forking np)))"

text \<open>
  A process asleep in \<^verbatim>\<open>wait\<close> sleeps on its own address, was not killed, has a child and no
  zombie child; one asleep elsewhere sleeps on another channel.
\<close>

definition waits_ok :: "config \<Rightarrow> bool" where
  "waits_ok c = (case c of (s, w) \<Rightarrow>
     (\<forall>p<NPROC. p_state (ptable s p) = SLEEPING \<longrightarrow>
        (w p = Waiting \<longrightarrow> p_chan (ptable s p) = Some (CProc p) \<and> \<not> p_killed (ptable s p) \<and>
           (\<exists>q<NPROC. p_parent (ptable s q) = Some p) \<and>
           (\<forall>q<NPROC. p_parent (ptable s q) = Some p \<longrightarrow> p_state (ptable s q) \<noteq> ZOMBIE)) \<and>
        (w p = Asleep \<longrightarrow> (\<exists>a. p_chan (ptable s p) = Some (COther a)))))"

definition proc_ok :: "config \<Rightarrow> bool" where
  "proc_ok c \<longleftrightarrow> cpu_ok (fst c) \<and> family_ok (fst c) \<and> pids_ok (fst c) \<and> threads_ok c \<and> waits_ok c"

subsection \<open>Fields after each operation\<close>

lemma upd_proc_simps [simp]:
  "ptable (upd_proc p f s) q = (if q = p then f (ptable s p) else ptable s q)"
  "nextpid (upd_proc p f s) = nextpid s"
  "initproc (upd_proc p f s) = initproc s"
  "cpus (upd_proc p f s) = cpus s"
  by (simp_all add: upd_proc_def)

lemma wakeup1_simps [simp]:
  "p_parent (ptable (wakeup1 ch s) p) = p_parent (ptable s p)"
  "p_pid (ptable (wakeup1 ch s) p) = p_pid (ptable s p)"
  "p_chan (ptable (wakeup1 ch s) p) = p_chan (ptable s p)"
  "p_killed (ptable (wakeup1 ch s) p) = p_killed (ptable s p)"
  "nextpid (wakeup1 ch s) = nextpid s"
  "initproc (wakeup1 ch s) = initproc s"
  "cpus (wakeup1 ch s) = cpus s"
  by (simp_all add: wakeup1_def)

lemma wakeup1_state:
  "p_state (ptable (wakeup1 ch s) p) =
     (if p < NPROC \<and> p_state (ptable s p) = SLEEPING \<and> p_chan (ptable s p) = ch then RUNNABLE
      else p_state (ptable s p))"
  by (simp add: wakeup1_def)

text \<open>
  Operations that move processes only between the states of a living process, and change neither
  parents nor process numbers.
\<close>

definition same_life :: "kern \<Rightarrow> kern \<Rightarrow> bool" where
  "same_life s s' \<longleftrightarrow> initproc s' = initproc s \<and> nextpid s' = nextpid s \<and>
     (\<forall>p. p_parent (ptable s' p) = p_parent (ptable s p) \<and> p_pid (ptable s' p) = p_pid (ptable s p) \<and>
        (p_state (ptable s' p) = p_state (ptable s p) \<or> live s p \<and> live s' p))"

lemma same_lifeI:
  assumes "initproc s' = initproc s" "nextpid s' = nextpid s"
    "\<And>p. p_parent (ptable s' p) = p_parent (ptable s p)"
    "\<And>p. p_pid (ptable s' p) = p_pid (ptable s p)"
    "\<And>p. p_state (ptable s' p) = p_state (ptable s p) \<or> live s p \<and> live s' p"
  shows "same_life s s'"
  using assms by (simp add: same_life_def)

lemma same_life_states:
  assumes "same_life s s'"
  shows "live s' p = live s p" "fresh s' p = fresh s p"
    "(p_state (ptable s' p) = UNUSED) = (p_state (ptable s p) = UNUSED)"
    "(p_state (ptable s' p) = EMBRYO) = (p_state (ptable s p) = EMBRYO)"
    "(p_state (ptable s' p) = ZOMBIE) = (p_state (ptable s p) = ZOMBIE)"
proof -
  have "p_state (ptable s' p) = p_state (ptable s p) \<or> live s p \<and> live s' p"
    using assms by (simp add: same_life_def)
  then show "live s' p = live s p" "fresh s' p = fresh s p"
    "(p_state (ptable s' p) = UNUSED) = (p_state (ptable s p) = UNUSED)"
    "(p_state (ptable s' p) = EMBRYO) = (p_state (ptable s p) = EMBRYO)"
    "(p_state (ptable s' p) = ZOMBIE) = (p_state (ptable s p) = ZOMBIE)"
    by (auto simp: live_def fresh_def)
qed

lemma same_life_family: "same_life s s' \<Longrightarrow> family_ok s \<Longrightarrow> family_ok s'"
  by (simp add: family_ok_def same_life_states) (simp add: same_life_def)

lemma same_life_pids: "same_life s s' \<Longrightarrow> pids_ok s \<Longrightarrow> pids_ok s'"
  by (simp add: pids_ok_def same_life_states) (simp add: same_life_def)

lemma same_life_trans: "same_life s t \<Longrightarrow> same_life t u \<Longrightarrow> same_life s u"
  using same_life_states(1) [of s t] same_life_states(1) [of t u]
  unfolding same_life_def by metis

lemma sched_same_life: "sched p s = Inr s' \<Longrightarrow> same_life s s'"
  by (auto simp: sched_def same_life_def split: if_splits)

lemma wakeup1_same_life: "same_life s (wakeup1 ch s)"
  by (auto intro!: same_lifeI simp: wakeup1_state live_def)

lemma kill_same_life: "same_life s (fst (kill pid s))"
  by (auto intro!: same_lifeI simp: kill_def live_def split: option.split if_splits)

lemma state_same_life:
  assumes "live s p" "\<And>x. p_state (f x) \<in> {SLEEPING, RUNNABLE, RUNNING}"
    "\<And>x. p_parent (f x) = p_parent x" "\<And>x. p_pid (f x) = p_pid x"
  shows "same_life s (upd_proc p f s)"
  using assms by (auto intro!: same_lifeI simp: live_def split: if_splits)

lemma awake_same_life: "same_life s (awake p s)"
  by (auto intro!: same_lifeI simp: awake_def split: if_splits)

lemma dispatch_same_life: "same_life s (dispatch c p s)"
  by (auto intro!: same_lifeI simp: dispatch_def live_def split: if_splits)

lemma sched_fields:
  "sched p s = Inr s' \<longleftrightarrow> p_state (ptable s p) \<noteq> RUNNING \<and>
     s' = s\<lparr>cpus := (\<lambda>c. if cpus s c = Some p then None else cpus s c)\<rparr>"
  by (auto simp: sched_def)

subsection \<open>The processors\<close>

lemma cpu_same:
  assumes "cpu_ok s" "cpus s' = cpus s"
    "\<And>q. q < NPROC \<Longrightarrow> (p_state (ptable s' q) = RUNNING) = (p_state (ptable s q) = RUNNING)"
  shows "cpu_ok s'"
  using assms unfolding cpu_ok_def by (simp cong: conj_cong)

lemma cpu_leave:
  assumes ok: "cpu_ok s"
    and cpus: "cpus s' = (\<lambda>c. if cpus s c = Some p then None else cpus s c)"
    and run: "\<And>q. q < NPROC \<Longrightarrow> (p_state (ptable s' q) = RUNNING) = (p_state (ptable s q) = RUNNING \<and> q \<noteq> p)"
  shows "cpu_ok s'"
proof -
  have 1: "\<forall>c q. cpus s c = Some q \<longrightarrow> c < NCPU \<and> running s q"
    and 2: "\<forall>q. running s q \<longrightarrow> (\<exists>c. cpus s c = Some q)"
    and 3: "\<forall>c c' q. cpus s c = Some q \<longrightarrow> cpus s c' = Some q \<longrightarrow> c = c'"
    using ok by (simp_all add: cpu_ok_def)
  show ?thesis unfolding cpu_ok_def
  proof (intro conjI allI impI)
    fix c q assume "cpus s' c = Some q"
    then have "cpus s c = Some q" "q \<noteq> p" by (auto simp: cpus split: if_splits)
    then show "c < NCPU" "q < NPROC" "p_state (ptable s' q) = RUNNING"
      using 1 run by auto
  next
    fix q assume "running s' q"
    then have "running s q" "q \<noteq> p" using run by auto
    then obtain c where "cpus s c = Some q" using 2 by blast
    then show "\<exists>c. cpus s' c = Some q" using \<open>q \<noteq> p\<close> by (intro exI [of _ c]) (simp add: cpus)
  next
    fix c c' q assume "cpus s' c = Some q" "cpus s' c' = Some q"
    then show "c = c'" using 3 by (auto simp: cpus split: if_splits)
  qed
qed

lemma cpu_enter:
  assumes ok: "cpu_ok s" and c: "c < NCPU" "cpus s c = None" and p: "p < NPROC" "p_state (ptable s p) = RUNNABLE"
  shows "cpu_ok (dispatch c p s)"
proof -
  have 1: "\<forall>c q. cpus s c = Some q \<longrightarrow> c < NCPU \<and> running s q"
    and 2: "\<forall>q. running s q \<longrightarrow> (\<exists>c. cpus s c = Some q)"
    and 3: "\<forall>c c' q. cpus s c = Some q \<longrightarrow> cpus s c' = Some q \<longrightarrow> c = c'"
    using ok by (simp_all add: cpu_ok_def)
  have idle: "\<forall>d. cpus s d \<noteq> Some p" using 1 p by fastforce
  have fields: "cpus (dispatch c p s) = (cpus s)(c := Some p)"
    "\<And>q. p_state (ptable (dispatch c p s) q) = (if q = p then RUNNING else p_state (ptable s q))"
    using p by (simp_all add: dispatch_def)
  show ?thesis unfolding cpu_ok_def fields
  proof (intro conjI allI impI)
    fix d q assume d: "((cpus s)(c := Some p)) d = Some q"
    then show "d < NCPU" "q < NPROC" "(if q = p then RUNNING else p_state (ptable s q)) = RUNNING"
      using 1 c p by (auto split: if_splits)
  next
    fix q assume "q < NPROC \<and> (if q = p then RUNNING else p_state (ptable s q)) = RUNNING"
    then show "\<exists>d. ((cpus s)(c := Some p)) d = Some q" using 2 c by (metis fun_upd_apply option.distinct(1))
  next
    fix d d' q assume "((cpus s)(c := Some p)) d = Some q" "((cpus s)(c := Some p)) d' = Some q"
    then show "d = d'" using 3 idle by (auto split: if_splits)
  qed
qed

subsection \<open>The scans of exit and wait\<close>

definition reap :: "nat \<Rightarrow> kern \<Rightarrow> kern" where
  "reap p = upd_proc p (\<lambda>x. x\<lparr>p_kstack := 0, p_pid := 0, p_parent := None, p_name := '''',
     p_killed := False, p_state := UNUSED\<rparr>)"

lemma wait_scan_Reaped:
  "wait_scan ps cur k s = Reaped s' r \<Longrightarrow>
     \<exists>p\<in>set ps. p_parent (ptable s p) = Some cur \<and> p_state (ptable s p) = ZOMBIE \<and>
       r = p_pid (ptable s p) \<and> s' = reap p s"
  by (induction ps arbitrary: k) (auto simp: reap_def split: if_splits)

lemma wait_scan_Kids:
  "wait_scan ps cur k s = Kids k' \<Longrightarrow>
     (\<forall>p\<in>set ps. p_parent (ptable s p) = Some cur \<longrightarrow> p_state (ptable s p) \<noteq> ZOMBIE) \<and>
     (k' \<longleftrightarrow> k \<or> (\<exists>p\<in>set ps. p_parent (ptable s p) = Some cur))"
  by (induction ps arbitrary: k) (auto split: if_splits)

lemma reparent_fields:
  "p_pid (ptable (reparent ps cur s) p) = p_pid (ptable s p)"
  "p_chan (ptable (reparent ps cur s) p) = p_chan (ptable s p)"
  "p_killed (ptable (reparent ps cur s) p) = p_killed (ptable s p)"
  "initproc (reparent ps cur s) = initproc s"
  "nextpid (reparent ps cur s) = nextpid s"
  "cpus (reparent ps cur s) = cpus s"
  by (induction ps arbitrary: s) (auto simp: Let_def)

lemma reparent_parent:
  "initproc s \<noteq> cur \<Longrightarrow>
   p_parent (ptable (reparent ps cur s) p) =
     (if p \<in> set ps \<and> p_parent (ptable s p) = Some cur then Some (initproc s) else p_parent (ptable s p))"
  by (induction ps arbitrary: s) (auto simp: Let_def)

lemma reparent_state:
  "initproc s \<noteq> cur \<Longrightarrow> p < NPROC \<Longrightarrow> distinct ps \<Longrightarrow>
   p_state (ptable (reparent ps cur s) p) =
     (if p_state (ptable s p) = SLEEPING \<and> p_chan (ptable s p) = Some (CProc (initproc s)) \<and>
        (\<exists>z\<in>set ps. p_parent (ptable s z) = Some cur \<and> p_state (ptable s z) = ZOMBIE)
      then RUNNABLE else p_state (ptable s p))"
proof (induction ps arbitrary: s)
  case (Cons a ps)
  show ?case
  proof (cases "p_parent (ptable s a) = Some cur")
    case False
    then show ?thesis using Cons.IH [of s] Cons.prems by simp
  next
    case True
    define t where "t = upd_proc a (\<lambda>x. x\<lparr>p_parent := Some (initproc s)\<rparr>) s"
    have t: "p_state (ptable t q) = p_state (ptable s q)" "p_chan (ptable t q) = p_chan (ptable s q)"
      "initproc t = initproc s" "q \<noteq> a \<Longrightarrow> p_parent (ptable t q) = p_parent (ptable s q)" for q
      by (simp_all add: t_def)
    have step: "reparent (a # ps) cur s = reparent ps cur
      (if p_state (ptable s a) = ZOMBIE then wakeup1 (Some (CProc (initproc s))) t else t)"
      using True t by (simp add: Let_def t_def [symmetric])
    have rest: "(\<exists>z\<in>set ps. p_parent (ptable t z) = Some cur \<and> p_state (ptable t z) = ZOMBIE) =
      (\<exists>z\<in>set ps. p_parent (ptable s z) = Some cur \<and> p_state (ptable s z) = ZOMBIE)"
      using Cons.prems(3) t by (metis distinct.simps(2))
    show ?thesis
    proof (cases "p_state (ptable s a) = ZOMBIE")
      case False
      then show ?thesis unfolding step using Cons.prems rest by (simp add: Cons.IH t)
    next
      case z: True
      show ?thesis unfolding step using z True Cons.prems
        by (simp add: Cons.IH t wakeup1_state)
    qed
  qed
qed simp

subsection \<open>Steps that keep every process alive\<close>

lemma waits_okD:
  assumes "waits_ok (s, w)" "p < NPROC" "p_state (ptable s p) = SLEEPING" "w p = Waiting"
  shows "p_chan (ptable s p) = Some (CProc p)" "\<not> p_killed (ptable s p)"
    "\<exists>q<NPROC. p_parent (ptable s q) = Some p"
    "\<And>q. q < NPROC \<Longrightarrow> p_parent (ptable s q) = Some p \<Longrightarrow> p_state (ptable s q) \<noteq> ZOMBIE"
  using assms by (auto simp: waits_ok_def)

lemma threads_okD:
  assumes "threads_ok (s, w)" "p < NPROC"
  shows "w p = Idle \<Longrightarrow> p_state (ptable s p) \<noteq> SLEEPING"
    "w p = Forking np \<Longrightarrow> np < NPROC \<and> p_state (ptable s np) = EMBRYO \<and> p_state (ptable s p) \<in> {RUNNABLE, RUNNING}"
    "w p = Waiting \<or> w p = Asleep \<Longrightarrow> p_state (ptable s p) \<in> {SLEEPING, RUNNABLE}"
    "w p = Forking np \<Longrightarrow> q < NPROC \<Longrightarrow> w q = Forking np \<Longrightarrow> p = q"
    "p_state (ptable s p) = EMBRYO \<Longrightarrow> \<exists>q<NPROC. w q = Forking p"
proof -
  have "case w p of Idle \<Rightarrow> p_state (ptable s p) \<noteq> SLEEPING
      | Forking np \<Rightarrow> np < NPROC \<and> p_state (ptable s np) = EMBRYO \<and> p_state (ptable s p) \<in> {RUNNABLE, RUNNING}
      | _ \<Rightarrow> p_state (ptable s p) \<in> {SLEEPING, RUNNABLE}"
    using assms unfolding threads_ok_def split by blast
  then show "w p = Idle \<Longrightarrow> p_state (ptable s p) \<noteq> SLEEPING"
    "w p = Forking np \<Longrightarrow> np < NPROC \<and> p_state (ptable s np) = EMBRYO \<and> p_state (ptable s p) \<in> {RUNNABLE, RUNNING}"
    "w p = Waiting \<or> w p = Asleep \<Longrightarrow> p_state (ptable s p) \<in> {SLEEPING, RUNNABLE}"
    by (simp, simp, cases "w p", simp_all)
  show "w p = Forking np \<Longrightarrow> q < NPROC \<Longrightarrow> w q = Forking np \<Longrightarrow> p = q"
    "p_state (ptable s p) = EMBRYO \<Longrightarrow> \<exists>q<NPROC. w q = Forking p"
    using assms unfolding threads_ok_def split by blast+
qed

text \<open>Waking some processes: the states change from SLEEPING to RUNNABLE only.\<close>

lemma waking_ok:
  assumes ok: "proc_ok (s, w)" and life: "same_life s s'" and cpus: "cpus s' = cpus s"
    and st: "\<And>p. p < NPROC \<Longrightarrow> p_state (ptable s' p) = p_state (ptable s p) \<or>
      p_state (ptable s p) = SLEEPING \<and> p_state (ptable s' p) = RUNNABLE"
    and ch: "\<And>p. p_chan (ptable s' p) = p_chan (ptable s p)"
    and ki: "\<And>p. p < NPROC \<Longrightarrow> p_killed (ptable s' p) \<Longrightarrow> p_killed (ptable s p) \<or> p_state (ptable s' p) \<noteq> SLEEPING"
  shows "proc_ok (s', w)"
proof -
  have run: "(p_state (ptable s' q) = RUNNING) = (p_state (ptable s q) = RUNNING)"
    and emb: "(p_state (ptable s' q) = EMBRYO) = (p_state (ptable s q) = EMBRYO)" if "q < NPROC" for q
    using st [OF that] by auto
  have th: "threads_ok (s, w)" and wt: "waits_ok (s, w)" using ok by (simp_all add: proc_ok_def)
  have "threads_ok (s', w)"
    unfolding threads_ok_def split
  proof (intro conjI allI impI)
    fix p assume p: "p < NPROC"
    show "case w p of Idle \<Rightarrow> p_state (ptable s' p) \<noteq> SLEEPING
      | Forking np \<Rightarrow> np < NPROC \<and> p_state (ptable s' np) = EMBRYO \<and> p_state (ptable s' p) \<in> {RUNNABLE, RUNNING}
      | _ \<Rightarrow> p_state (ptable s' p) \<in> {SLEEPING, RUNNABLE}"
      using threads_okD(1-3) [OF th p] st [OF p] emb by (auto split: where_at.split)
  qed (use threads_okD(4,5) [OF th] emb in blast)+
  moreover have "waits_ok (s', w)"
    unfolding waits_ok_def split
  proof (intro allI impI)
    fix p assume p: "p < NPROC" "p_state (ptable s' p) = SLEEPING"
    then have sl: "p_state (ptable s p) = SLEEPING" using st by fastforce
    have "w p = Asleep \<Longrightarrow> \<exists>a. p_chan (ptable s p) = Some (COther a)"
      using wt p(1) sl by (simp add: waits_ok_def)
    moreover have "p_parent (ptable s' q) = p_parent (ptable s q)"
      "(p_state (ptable s' q) = ZOMBIE) = (p_state (ptable s q) = ZOMBIE)" for q
      using life same_life_states(5) [OF life] by (simp_all add: same_life_def)
    ultimately show "(w p = Waiting \<longrightarrow> p_chan (ptable s' p) = Some (CProc p) \<and> \<not> p_killed (ptable s' p) \<and>
           (\<exists>q<NPROC. p_parent (ptable s' q) = Some p) \<and>
           (\<forall>q<NPROC. p_parent (ptable s' q) = Some p \<longrightarrow> p_state (ptable s' q) \<noteq> ZOMBIE)) \<and>
        (w p = Asleep \<longrightarrow> (\<exists>a. p_chan (ptable s' p) = Some (COther a)))"
      using waits_okD [OF wt p(1) sl] ki p ch by (simp; blast)
  qed
  moreover have "cpu_ok s'" using ok cpus run by (auto simp: proc_ok_def intro: cpu_same)
  ultimately show ?thesis using ok life by (simp add: proc_ok_def same_life_family same_life_pids)
qed

lemma wakeup_ok: "proc_ok (s, w) \<Longrightarrow> proc_ok (wakeup ch s, w)"
  unfolding wakeup_def
  by (rule waking_ok [OF _ wakeup1_same_life]) (auto simp: wakeup1_state)

lemma kill_ok: "proc_ok (s, w) \<Longrightarrow> proc_ok (fst (kill pid s), w)"
  by (rule waking_ok [OF _ kill_same_life]) (auto simp: kill_def split: option.splits if_splits)

text \<open>
  One living process changes state and place and nothing else happens to the table: going to sleep,
  giving up the processor, being dispatched, being resumed.
\<close>

lemma moving_ok:
  assumes ok: "proc_ok (s, w)" and p: "p < NPROC" "live s p"
    and life: "same_life s s'" and cpu: "cpu_ok s'"
    and oth: "\<And>q. q \<noteq> p \<Longrightarrow> ptable s' q = ptable s q"
    and st: "case x of Idle \<Rightarrow> p_state (ptable s' p) \<noteq> SLEEPING
      | Forking np \<Rightarrow> p_state (ptable s' p) \<in> {RUNNABLE, RUNNING} | _ \<Rightarrow> p_state (ptable s' p) \<in> {SLEEPING, RUNNABLE}"
    and fk: "\<And>np. (x = Forking np) = (w p = Forking np)"
    and wt: "p_state (ptable s' p) = SLEEPING \<Longrightarrow>
      (x = Waiting \<longrightarrow> p_chan (ptable s' p) = Some (CProc p) \<and> \<not> p_killed (ptable s' p) \<and>
         (\<exists>q<NPROC. p_parent (ptable s q) = Some p) \<and>
         (\<forall>q<NPROC. p_parent (ptable s q) = Some p \<longrightarrow> p_state (ptable s q) \<noteq> ZOMBIE)) \<and>
      (x = Asleep \<longrightarrow> (\<exists>a. p_chan (ptable s' p) = Some (COther a)))"
  shows "proc_ok (s', w(p := x))"
proof -
  have thr: "threads_ok (s, w)" and wts: "waits_ok (s, w)" using ok by (simp_all add: proc_ok_def)
  have emb: "(p_state (ptable s' q) = EMBRYO) = (p_state (ptable s q) = EMBRYO)"
    and zom: "(p_state (ptable s' q) = ZOMBIE) = (p_state (ptable s q) = ZOMBIE)"
    and par: "p_parent (ptable s' q) = p_parent (ptable s q)" for q
    using life same_life_states [OF life] by (simp_all add: same_life_def)
  have fkw: "((w(p := x)) q = Forking np) = (w q = Forking np)" for q np
    using fk by simp
  have "threads_ok (s', w(p := x))"
    unfolding threads_ok_def split
  proof (intro conjI allI impI)
    fix q assume q: "q < NPROC"
    show "case (w(p := x)) q of Idle \<Rightarrow> p_state (ptable s' q) \<noteq> SLEEPING
      | Forking np \<Rightarrow> np < NPROC \<and> p_state (ptable s' np) = EMBRYO \<and> p_state (ptable s' q) \<in> {RUNNABLE, RUNNING}
      | _ \<Rightarrow> p_state (ptable s' q) \<in> {SLEEPING, RUNNABLE}"
    proof (cases "q = p")
      case True
      then show ?thesis using st threads_okD(2) [OF thr p(1)] fk emb by (auto split: where_at.splits)
    next
      case False
      then show ?thesis using threads_okD(1-3) [OF thr q] oth emb by (auto split: where_at.split)
    qed
  qed (use threads_okD(4,5) [OF thr] emb fkw in blast)+
  moreover have "waits_ok (s', w(p := x))"
    unfolding waits_ok_def split
  proof (intro allI impI)
    fix q assume q: "q < NPROC" "p_state (ptable s' q) = SLEEPING"
    show "((w(p := x)) q = Waiting \<longrightarrow> p_chan (ptable s' q) = Some (CProc q) \<and> \<not> p_killed (ptable s' q) \<and>
           (\<exists>r<NPROC. p_parent (ptable s' r) = Some q) \<and>
           (\<forall>r<NPROC. p_parent (ptable s' r) = Some q \<longrightarrow> p_state (ptable s' r) \<noteq> ZOMBIE)) \<and>
        ((w(p := x)) q = Asleep \<longrightarrow> (\<exists>a. p_chan (ptable s' q) = Some (COther a)))"
    proof (cases "q = p")
      case True
      then show ?thesis using wt q by (simp add: par zom)
    next
      case False
      then have "w q = Asleep \<Longrightarrow> \<exists>a. p_chan (ptable s q) = Some (COther a)"
        using wts q oth by (simp add: waits_ok_def)
      then show ?thesis using False waits_okD [OF wts q(1)] q(2) oth [OF False] by (simp add: par zom)
    qed
  qed
  ultimately show ?thesis using ok life cpu by (simp add: proc_ok_def same_life_family same_life_pids)
qed

lemma running_live: "running s p \<Longrightarrow> live s p"
  by (simp add: live_def)

lemma leaving_ok:
  assumes ok: "proc_ok (s, w)" and p: "running s p" and t: "t = upd_proc p f s" and s': "sched p t = Inr s'"
    and f: "p_state (f (ptable s p)) \<in> {SLEEPING, RUNNABLE}" "p_parent (f (ptable s p)) = p_parent (ptable s p)"
      "p_pid (f (ptable s p)) = p_pid (ptable s p)"
  shows "same_life s s'" "cpu_ok s'" "\<And>q. q \<noteq> p \<Longrightarrow> ptable s' q = ptable s q" "ptable s' p = f (ptable s p)"
proof -
  have s'': "s' = t\<lparr>cpus := (\<lambda>c. if cpus s c = Some p then None else cpus s c)\<rparr>"
    using s' by (simp add: sched_fields t cong: if_cong)
  show oth: "ptable s' q = ptable s q" if "q \<noteq> p" for q using that by (simp add: s'' t)
  show own: "ptable s' p = f (ptable s p)" by (simp add: s'' t)
  show "cpu_ok s'"
  proof (rule cpu_leave [of s _ p])
    show "cpu_ok s" using ok by (simp add: proc_ok_def)
    show "(p_state (ptable s' q) = RUNNING) = (p_state (ptable s q) = RUNNING \<and> q \<noteq> p)" for q
      using f own oth by (cases "q = p") auto
  qed (simp add: s'' t)
  show "same_life s s'"
  proof (rule same_lifeI)
    show "p_state (ptable s' q) = p_state (ptable s q) \<or> live s q \<and> live s' q" for q
      using f own oth p by (cases "q = p") (auto simp: live_def)
  qed (use f in \<open>auto simp: s'' t\<close>)
qed

lemma yield_ok:
  assumes ok: "proc_ok (s, w)" and p: "running s p" and y: "yield p s = Inr s'"
  shows "proc_ok (s', w)"
proof -
  have th: "threads_ok (s, w)" using ok by (simp add: proc_ok_def)
  note l = leaving_ok [OF ok p refl y [unfolded yield_def], simplified]
  have "proc_ok (s', w(p := w p))"
    by (rule moving_ok [OF ok _ running_live [OF p] l(1-3)])
       (use p l(4) threads_okD(3) [OF th] in \<open>auto split: where_at.split\<close>)
  then show ?thesis by simp
qed

lemma sleep_ok:
  assumes ok: "proc_ok (s, w)" and p: "running s p" "w p = Idle" and y: "sleep p (COther a) s = Inr s'"
  shows "proc_ok (s', w(p := Asleep))"
proof -
  note l = leaving_ok [OF ok p(1) refl y [unfolded sleep_def], simplified]
  show ?thesis
    by (rule moving_ok [OF ok _ running_live [OF p(1)] l(1-3)]) (use p l(4) in auto)
qed

lemma wait_sleep_ok:
  assumes ok: "proc_ok (s, w)" and p: "running s p" "w p = Idle" and y: "wait p s = Inr (s', Slept)"
  shows "proc_ok (s', w(p := Waiting))"
proof -
  obtain k where k: "wait_scan [0..<NPROC] p False s = Kids k" "k" "\<not> p_killed (ptable s p)"
    and sl: "sleep p (CProc p) s = Inr s'"
    using y by (auto simp: wait_def bind_res_eq_Inr split: scan.splits if_splits)
  note l = leaving_ok [OF ok p(1) refl sl [unfolded sleep_def], simplified]
  show ?thesis
    by (rule moving_ok [OF ok _ running_live [OF p(1)] l(1-3)])
       (use p l(4) wait_scan_Kids [OF k(1)] k in auto)
qed

lemma dispatch_fields:
  "p_state (ptable s p) = RUNNABLE \<Longrightarrow>
   ptable (dispatch c p s) q = (if q = p then (ptable s p)\<lparr>p_state := RUNNING\<rparr> else ptable s q)"
  by (simp add: dispatch_def)

lemma run_ok:
  assumes ok: "proc_ok (s, w)" and c: "c < NCPU" "cpus s c = None"
    and p: "p < NPROC" "p_state (ptable s p) = RUNNABLE" and w: "w p \<noteq> Waiting" "w p \<noteq> Asleep"
  shows "proc_ok (dispatch c p s, w)"
proof -
  have cpu: "cpu_ok (dispatch c p s)" using ok c p by (simp add: cpu_enter proc_ok_def)
  have "proc_ok (dispatch c p s, w(p := w p))"
    by (rule moving_ok [OF ok _ _ dispatch_same_life cpu])
       (use p w in \<open>auto simp: dispatch_fields live_def split: where_at.split\<close>)
  then show ?thesis by simp
qed

lemma resume_ok:
  assumes ok: "proc_ok (s, w)" and c: "c < NCPU" "cpus s c = None"
    and p: "p < NPROC" "p_state (ptable s p) = RUNNABLE" and w: "w p = Waiting \<or> w p = Asleep"
  shows "proc_ok (awake p (dispatch c p s), w(p := Idle))" "running (awake p (dispatch c p s)) p"
proof -
  have "cpu_ok (dispatch c p s)" using ok c p by (simp add: cpu_enter proc_ok_def)
  then have cpu: "cpu_ok (awake p (dispatch c p s))" by (rule cpu_same) (simp_all add: awake_def)
  show "proc_ok (awake p (dispatch c p s), w(p := Idle))"
    by (rule moving_ok [OF ok _ _ same_life_trans [OF dispatch_same_life awake_same_life] cpu])
       (use p w in \<open>auto simp: awake_def dispatch_fields live_def\<close>)
  show "running (awake p (dispatch c p s)) p" using p by (simp add: awake_def dispatch_fields)
qed

subsection \<open>Steps that create or remove processes\<close>

lemma alloc_slot_Some:
  "alloc_slot s = Inr (s', Some np) \<Longrightarrow> np < NPROC \<and> p_state (ptable s np) = UNUSED \<and>
     nextpid s \<noteq> INT_MAX \<and>
     s' = (upd_proc np (\<lambda>x. x\<lparr>p_state := EMBRYO, p_pid := nextpid s\<rparr>) s)\<lparr>nextpid := nextpid s + 1\<rparr>"
  by (auto simp: alloc_slot_def find_upt_iff split: option.splits if_splits)

lemma fork1_ok:
  assumes ok: "proc_ok (s, w)" and p: "running s p" "w p = Idle" and a: "alloc_slot s = Inr (s', Some np)"
  shows "proc_ok (s', w(p := Forking np))"
proof -
  have np: "np < NPROC" "p_state (ptable s np) = UNUSED" "np \<noteq> p" and mx: "nextpid s \<noteq> INT_MAX"
    and s': "s' = (upd_proc np (\<lambda>x. x\<lparr>p_state := EMBRYO, p_pid := nextpid s\<rparr>) s)\<lparr>nextpid := nextpid s + 1\<rparr>"
    using alloc_slot_Some [OF a] p by auto
  have th: "threads_ok (s, w)" and wt: "waits_ok (s, w)" and fa: "family_ok s" and pi: "pids_ok s" and cp: "cpu_ok s"
    using ok by (simp_all add: proc_ok_def)
  have f: "p_state (ptable s' q) = (if q = np then EMBRYO else p_state (ptable s q))"
    "p_parent (ptable s' q) = p_parent (ptable s q)" "p_chan (ptable s' q) = p_chan (ptable s q)"
    "p_killed (ptable s' q) = p_killed (ptable s q)" "p_pid (ptable s' q) = (if q = np then nextpid s else p_pid (ptable s q))"
    "initproc s' = initproc s" "nextpid s' = nextpid s + 1" for q
    by (simp_all add: s')
  have fr: "fresh s' q = fresh s q" "live s' q = live s q" for q
    using np by (auto simp: fresh_def live_def f)
  have "cpu_ok s'" by (rule cpu_same [OF cp]) (use np in \<open>auto simp: s'\<close>)
  moreover have "family_ok s'" using fa by (simp add: family_ok_def fr f)
  moreover have "pids_ok s'" using pi mx by (auto simp: pids_ok_def f)
  moreover have "threads_ok (s', w(p := Forking np))"
    unfolding threads_ok_def split
  proof (intro conjI allI impI)
    fix q assume q: "q < NPROC"
    show "case (w(p := Forking np)) q of Idle \<Rightarrow> p_state (ptable s' q) \<noteq> SLEEPING
      | Forking np \<Rightarrow> np < NPROC \<and> p_state (ptable s' np) = EMBRYO \<and> p_state (ptable s' q) \<in> {RUNNABLE, RUNNING}
      | _ \<Rightarrow> p_state (ptable s' q) \<in> {SLEEPING, RUNNABLE}"
      using threads_okD(1-3) [OF th q] p np by (auto simp: f split: where_at.split)
  next
    fix q r n assume "q < NPROC" "r < NPROC" "(w(p := Forking np)) q = Forking n" "(w(p := Forking np)) r = Forking n"
    moreover have "w x \<noteq> Forking np" if "x < NPROC" for x using threads_okD(2) [OF th that, of np] np by auto
    ultimately show "q = r" using threads_okD(4) [OF th, of q n r] by (auto split: if_splits)
  next
    fix n assume n: "n < NPROC" "p_state (ptable s' n) = EMBRYO"
    show "\<exists>q<NPROC. (w(p := Forking np)) q = Forking n"
    proof (cases "n = np")
      case False
      then obtain q where "q < NPROC" "w q = Forking n" using threads_okD(5) [OF th n(1)] n(2) by (auto simp: f)
      then show ?thesis using p by (intro exI [of _ q]) auto
    qed (use p in auto)
  qed
  moreover have "waits_ok (s', w(p := Forking np))" using wt np by (auto simp: waits_ok_def f)
  ultimately show ?thesis by (simp add: proc_ok_def)
qed

lemma wait_now_ok:
  assumes ok: "proc_ok (s, w)" and p: "running s p" and a: "wait p s = Inr (s', Returned r)"
  shows "proc_ok (s', w)"
proof (cases "wait_scan [0..<NPROC] p False s")
  case (Kids k)
  then have "s' = s" using a by (auto simp: wait_def bind_res_eq_Inr split: if_splits)
  then show ?thesis using ok by simp
next
  case (Reaped t r')
  then have "t = s'" using a by (simp add: wait_def)
  then obtain z where z: "z < NPROC" "p_parent (ptable s z) = Some p" "p_state (ptable s z) = ZOMBIE"
    and s': "s' = reap z s"
    using wait_scan_Reaped [OF Reaped] by auto
  have th: "threads_ok (s, w)" and wt: "waits_ok (s, w)" and fa: "family_ok s" and pi: "pids_ok s" and cp: "cpu_ok s"
    using ok by (simp_all add: proc_ok_def)
  have f: "p_state (ptable s' q) = (if q = z then UNUSED else p_state (ptable s q))"
    "p_parent (ptable s' q) = (if q = z then None else p_parent (ptable s q))" "p_chan (ptable s' q) = p_chan (ptable s q)"
    "p_killed (ptable s' q) = (q \<noteq> z \<and> p_killed (ptable s q))" "p_pid (ptable s' q) = (if q = z then 0 else p_pid (ptable s q))"
    "initproc s' = initproc s" "nextpid s' = nextpid s" for q
    by (simp_all add: s' reap_def)
  have "cpu_ok s'" by (rule cpu_same [OF cp]) (use z in \<open>auto simp: s' reap_def\<close>)
  moreover have "family_ok s'"
  proof -
    have "live s' q = live s q" "fresh s' q = (q = z \<or> fresh s q)" for q
      using z by (auto simp: live_def fresh_def f)
    moreover have "initproc s \<noteq> z" using fa z by (auto simp: family_ok_def live_def)
    ultimately show ?thesis using fa by (simp add: family_ok_def f)
  qed
  moreover have "pids_ok s'" using pi by (auto simp: pids_ok_def f)
  moreover have "threads_ok (s', w)"
    unfolding threads_ok_def split
  proof (intro conjI allI impI)
    fix q assume q: "q < NPROC"
    show "case w q of Idle \<Rightarrow> p_state (ptable s' q) \<noteq> SLEEPING
      | Forking np \<Rightarrow> np < NPROC \<and> p_state (ptable s' np) = EMBRYO \<and> p_state (ptable s' q) \<in> {RUNNABLE, RUNNING}
      | _ \<Rightarrow> p_state (ptable s' q) \<in> {SLEEPING, RUNNABLE}"
      using threads_okD(1-3) [OF th q] z by (auto simp: f split: where_at.split)
  qed (use threads_okD(4,5) [OF th] f(1) in \<open>metis procstate.distinct(1)\<close>)+
  moreover have "waits_ok (s', w)"
    unfolding waits_ok_def split
  proof (intro allI impI)
    fix q assume "q < NPROC" "p_state (ptable s' q) = SLEEPING"
    then have q: "q < NPROC" "p_state (ptable s q) = SLEEPING" "q \<noteq> z" by (auto simp: f split: if_splits)
    have "w q = Asleep \<Longrightarrow> \<exists>a. p_chan (ptable s q) = Some (COther a)"
      using wt q by (simp add: waits_ok_def)
    moreover have "\<exists>r<NPROC. r \<noteq> z \<and> p_parent (ptable s r) = Some q" if "w q = Waiting"
      using waits_okD(3) [OF wt q(1,2) that] z(2) q p by auto
    ultimately show "(w q = Waiting \<longrightarrow> p_chan (ptable s' q) = Some (CProc q) \<and> \<not> p_killed (ptable s' q) \<and>
           (\<exists>r<NPROC. p_parent (ptable s' r) = Some q) \<and>
           (\<forall>r<NPROC. p_parent (ptable s' r) = Some q \<longrightarrow> p_state (ptable s' r) \<noteq> ZOMBIE)) \<and>
        (w q = Asleep \<longrightarrow> (\<exists>a. p_chan (ptable s' q) = Some (COther a)))"
      using waits_okD [OF wt q(1,2)] q(3) by (auto simp: f)
  qed
  ultimately show ?thesis by (simp add: proc_ok_def)
qed

text \<open>The end of \<^verbatim>\<open>fork\<close>: the claimed slot is given back, or its process can run and is a child.\<close>

lemma fork_rest_fields:
  assumes "fork_rest s p np ks pg = Inr (s', r)"
  shows "(\<forall>q. q \<noteq> np \<longrightarrow> ptable s' q = ptable s q) \<and> initproc s' = initproc s \<and> nextpid s' = nextpid s \<and>
    cpus s' = cpus s \<and> p_pid (ptable s' np) = p_pid (ptable s np) \<and>
    (p_state (ptable s' np) = UNUSED \<and> p_parent (ptable s' np) = p_parent (ptable s np) \<or>
     p_state (ptable s' np) = RUNNABLE \<and> p_parent (ptable s' np) = Some p)"
  using assms
  by (auto simp: fork_rest_def alloc_stack_def Let_def bind_res_eq_Inr split: if_splits option.splits)

lemma fork2_ok:
  assumes ok: "proc_ok (s, w)" and p: "running s p" "w p = Forking np" and a: "fork_rest s p np ks pg = Inr (s', r)"
  shows "proc_ok (s', w(p := Idle, np := Idle))"
proof -
  have th: "threads_ok (s, w)" and wt: "waits_ok (s, w)" and fa: "family_ok s" and pi: "pids_ok s" and cp: "cpu_ok s"
    using ok by (simp_all add: proc_ok_def)
  have np: "np < NPROC" "p_state (ptable s np) = EMBRYO" "np \<noteq> p"
    using threads_okD(2) [OF th _ p(2)] p by auto
  have wnp: "w np = Idle"
    using threads_okD(2,3) [OF th np(1)] np(2) by (cases "w np") auto
  have pnp: "p_parent (ptable s np) = None" using fa np by (simp add: family_ok_def fresh_def)
  have oth: "q \<noteq> np \<Longrightarrow> ptable s' q = ptable s q" and f: "initproc s' = initproc s" "nextpid s' = nextpid s"
    "cpus s' = cpus s"
    and st: "p_state (ptable s' np) = UNUSED \<and> p_parent (ptable s' np) = None \<or>
     p_state (ptable s' np) = RUNNABLE \<and> p_parent (ptable s' np) = Some p" for q
    using fork_rest_fields [OF a] pnp by auto
  have pid: "p_pid (ptable s' q) = p_pid (ptable s q)" for q
    using fork_rest_fields [OF a] by (cases "q = np") auto
  have ini: "initproc s \<noteq> np" using fa np by (auto simp: family_ok_def live_def)
  have "cpu_ok s'"
  proof (rule cpu_same [OF cp f(3)])
    show "(p_state (ptable s' q) = RUNNING) = (p_state (ptable s q) = RUNNING)" for q
      using oth [of q] np st by (cases "q = np") auto
  qed
  moreover have "family_ok s'"
  proof -
    have lv: "live s' q = (if q = np then p_state (ptable s' np) = RUNNABLE else live s q)"
      and fr: "fresh s' q = (if q = np then p_state (ptable s' np) = UNUSED else fresh s q)" for q
      using st oth [of q] by (auto simp: live_def fresh_def)
    have "live s p" using p by (simp add: live_def)
    have "\<exists>q<NPROC. p_parent (ptable s' x) = Some q \<and> q \<noteq> x \<and> live s' q"
      if x: "x < NPROC" "x \<noteq> initproc s" "\<not> fresh s' x" for x
    proof (cases "x = np")
      case True
      then show ?thesis using x st np p \<open>live s p\<close> by (auto simp: fr lv)
    next
      case False
      then obtain q where "q < NPROC" "p_parent (ptable s x) = Some q" "q \<noteq> x" "live s q"
        using fa x by (auto simp: family_ok_def fr)
      moreover have "q \<noteq> np" using \<open>live s q\<close> np by (auto simp: live_def)
      ultimately show ?thesis using False oth by (auto simp: lv)
    qed
    moreover have "p_parent (ptable s' x) = None" if "x < NPROC" "fresh s' x" for x
      using that fa st oth [of x] by (cases "x = np") (auto simp: family_ok_def fr)
    ultimately show ?thesis using fa ini oth [OF ini] by (simp add: family_ok_def f lv)
  qed
  moreover have "pids_ok s'"
  proof -
    have "p_state (ptable s' q) \<noteq> UNUSED \<Longrightarrow> p_state (ptable s q) \<noteq> UNUSED" for q
      using oth [of q] np by (cases "q = np") auto
    then show ?thesis using pi unfolding pids_ok_def pid f by blast
  qed
  moreover have "threads_ok (s', w(p := Idle, np := Idle))"
    unfolding threads_ok_def split
  proof (intro conjI allI impI)
    fix q assume q: "q < NPROC"
    have "n \<noteq> np" if "w q = Forking n" "q \<noteq> p" for n
      using threads_okD(4) [OF th q, of n p] that p by auto
    then show "case (w(p := Idle, np := Idle)) q of Idle \<Rightarrow> p_state (ptable s' q) \<noteq> SLEEPING
      | Forking n \<Rightarrow> n < NPROC \<and> p_state (ptable s' n) = EMBRYO \<and> p_state (ptable s' q) \<in> {RUNNABLE, RUNNING}
      | _ \<Rightarrow> p_state (ptable s' q) \<in> {SLEEPING, RUNNABLE}"
      using threads_okD(1-3) [OF th q] p np st oth by (auto split: where_at.split)
  next
    fix q r n
    assume "q < NPROC" "r < NPROC" "(w(p := Idle, np := Idle)) q = Forking n" "(w(p := Idle, np := Idle)) r = Forking n"
    then show "q = r" using threads_okD(4) [OF th, of q n r] by (auto split: if_splits)
  next
    fix n assume n: "n < NPROC" "p_state (ptable s' n) = EMBRYO"
    moreover have "n \<noteq> np" using n st by auto
    ultimately obtain q where "q < NPROC" "w q = Forking n" using threads_okD(5) [OF th n(1)] oth [of n] by auto
    then show "\<exists>q<NPROC. (w(p := Idle, np := Idle)) q = Forking n"
      using \<open>n \<noteq> np\<close> p wnp by (intro exI [of _ q]) auto
  qed
  moreover have "waits_ok (s', w(p := Idle, np := Idle))"
    unfolding waits_ok_def split
  proof (intro allI impI)
    fix q assume q': "q < NPROC" "p_state (ptable s' q) = SLEEPING"
    then have "q \<noteq> np" using st by auto
    then have q: "q < NPROC" "q \<noteq> np" "ptable s' q = ptable s q" "p_state (ptable s q) = SLEEPING" "q \<noteq> p"
      using q' oth [of q] p by auto
    have "w q = Asleep \<Longrightarrow> \<exists>a. p_chan (ptable s q) = Some (COther a)"
      using wt q by (simp add: waits_ok_def)
    moreover have "\<exists>r<NPROC. p_parent (ptable s' r) = Some q" if "w q = Waiting"
      using waits_okD(3) [OF wt q(1,4) that] oth pnp by (metis option.distinct(1))
    moreover have "p_state (ptable s' r) \<noteq> ZOMBIE" if "w q = Waiting" "r < NPROC" "p_parent (ptable s' r) = Some q" for r
      using waits_okD(4) [OF wt q(1,4) that(1,2)] that(3) oth [of r] st by (cases "r = np") auto
    ultimately show "((w(p := Idle, np := Idle)) q = Waiting \<longrightarrow> p_chan (ptable s' q) = Some (CProc q) \<and> \<not> p_killed (ptable s' q) \<and>
           (\<exists>r<NPROC. p_parent (ptable s' r) = Some q) \<and>
           (\<forall>r<NPROC. p_parent (ptable s' r) = Some q \<longrightarrow> p_state (ptable s' r) \<noteq> ZOMBIE)) \<and>
        ((w(p := Idle, np := Idle)) q = Asleep \<longrightarrow> (\<exists>a. p_chan (ptable s' q) = Some (COther a)))"
      using waits_okD(1,2) [OF wt q(1,4)] q by simp
  qed
  ultimately show ?thesis by (simp add: proc_ok_def)
qed

text \<open>
  \<^verbatim>\<open>exit\<close>, field by field: the process is a zombie, its children belong to \<^verbatim>\<open>init\<close>, and its parent
  (and \<^verbatim>\<open>init\<close>, if it inherited a zombie) is no longer asleep in \<^verbatim>\<open>wait\<close>.
\<close>

lemma exit_proc_fields:
  assumes e: "exit_proc cur s = Inr s'"
  defines "woken \<equiv> \<lambda>q. p_chan (ptable s q) = map_option CProc (p_parent (ptable s cur)) \<or>
    p_chan (ptable s q) = Some (CProc (initproc s)) \<and>
      (\<exists>z<NPROC. p_parent (ptable s z) = Some cur \<and> p_state (ptable s z) = ZOMBIE)"
  shows "initproc s \<noteq> cur" "initproc s' = initproc s" "nextpid s' = nextpid s"
    "cpus s' = (\<lambda>c. if cpus s c = Some cur then None else cpus s c)"
    "p_pid (ptable s' q) = p_pid (ptable s q)" "p_chan (ptable s' q) = p_chan (ptable s q)"
    "p_killed (ptable s' q) = p_killed (ptable s q)"
    "q < NPROC \<Longrightarrow> p_parent (ptable s' q) =
      (if p_parent (ptable s q) = Some cur then Some (initproc s) else p_parent (ptable s q))"
    "q < NPROC \<Longrightarrow> p_state (ptable s' q) = (if q = cur then ZOMBIE
      else if p_state (ptable s q) = SLEEPING \<and> woken q then RUNNABLE else p_state (ptable s q))"
proof -
  show ini: "initproc s \<noteq> cur" using e by (auto simp: exit_proc_def split: if_splits)
  obtain fr i where s': "s' = (upd_proc cur (\<lambda>x. x\<lparr>p_state := ZOMBIE\<rparr>) (reparent [0..<NPROC] cur
      (wakeup1 (map_option CProc (p_parent (ptable s cur)))
        (upd_proc cur (\<lambda>x. x\<lparr>p_ofile := replicate NOFILE None, p_cwd := None\<rparr>)
          (s\<lparr>file_refs := fr, inode_refs := (inode_refs s)(i := inode_refs s i - 1)\<rparr>)))))
      \<lparr>cpus := (\<lambda>c. if cpus s c = Some cur then None else cpus s c)\<rparr>"
    using e ini by (auto simp: exit_proc_def bind_res_eq_Inr sched_fields Let_def reparent_fields
        split: option.splits cong: if_cong)
  show "initproc s' = initproc s" "nextpid s' = nextpid s"
    "cpus s' = (\<lambda>c. if cpus s c = Some cur then None else cpus s c)"
    "p_pid (ptable s' q) = p_pid (ptable s q)" "p_chan (ptable s' q) = p_chan (ptable s q)"
    "p_killed (ptable s' q) = p_killed (ptable s q)"
    "q < NPROC \<Longrightarrow> p_parent (ptable s' q) =
      (if p_parent (ptable s q) = Some cur then Some (initproc s) else p_parent (ptable s q))"
    using ini by (simp_all add: s' reparent_fields reparent_parent)
  show "p_state (ptable s' q) = (if q = cur then ZOMBIE
      else if p_state (ptable s q) = SLEEPING \<and> woken q then RUNNABLE else p_state (ptable s q))" if q: "q < NPROC"
  proof -
    define t where "t = wakeup1 (map_option CProc (p_parent (ptable s cur)))
        (upd_proc cur (\<lambda>x. x\<lparr>p_ofile := replicate NOFILE None, p_cwd := None\<rparr>)
          (s\<lparr>file_refs := fr, inode_refs := (inode_refs s)(i := inode_refs s i - 1)\<rparr>))"
    have t: "p_state (ptable t z) = (if z < NPROC \<and> p_state (ptable s z) = SLEEPING \<and>
        p_chan (ptable s z) = map_option CProc (p_parent (ptable s cur)) then RUNNABLE else p_state (ptable s z))"
      "p_parent (ptable t z) = p_parent (ptable s z)" "p_chan (ptable t z) = p_chan (ptable s z)"
      "initproc t = initproc s" for z
      by (simp_all add: t_def wakeup1_state)
    have zom: "(p_state (ptable t z) = ZOMBIE) = (p_state (ptable s z) = ZOMBIE)" for z by (simp add: t)
    have "(\<exists>z\<in>set [0..<NPROC]. p_parent (ptable t z) = Some cur \<and> p_state (ptable t z) = ZOMBIE) =
      (\<exists>z<NPROC. p_parent (ptable s z) = Some cur \<and> p_state (ptable s z) = ZOMBIE)"
      by (auto simp: zom t(2))
    then show ?thesis
      using ini q by (auto simp: s' t_def [symmetric] reparent_state t woken_def)
  qed
qed

lemma exit_ok:
  assumes ok: "proc_ok (s, w)" and p: "running s p" "w p = Idle" and e: "exit_proc p s = Inr s'"
  shows "proc_ok (s', w)"
proof -
  have th: "threads_ok (s, w)" and wt: "waits_ok (s, w)" and fa: "family_ok s" and pi: "pids_ok s" and cp: "cpu_ok s"
    using ok by (simp_all add: proc_ok_def)
  note f = exit_proc_fields [OF e]
  have st: "q \<noteq> p \<Longrightarrow> p_state (ptable s' q) = p_state (ptable s q) \<or>
      p_state (ptable s q) = SLEEPING \<and> p_state (ptable s' q) = RUNNABLE" "p_state (ptable s' p) = ZOMBIE"
    if "q < NPROC" for q
    using f(9) [of q] f(9) [of p] p that by auto
  have same: "(p_state (ptable s' q) = UNUSED) = (p_state (ptable s q) = UNUSED)"
    "(p_state (ptable s' q) = EMBRYO) = (p_state (ptable s q) = EMBRYO)"
    "(p_state (ptable s' q) = RUNNING) = (p_state (ptable s q) = RUNNING \<and> q \<noteq> p)"
    "live s' q = (q \<noteq> p \<and> live s q)" if "q < NPROC" for q
    using st [OF that] p by (cases "q = p"; auto simp: live_def)+
  have "cpu_ok s'" by (rule cpu_leave [OF cp f(4)]) (simp add: same)
  moreover have "family_ok s'"
  proof -
    have fr: "fresh s' q = fresh s q" if "q < NPROC" for q using same that by (simp add: fresh_def)
    have ini: "initproc s < NPROC" "live s (initproc s)" "p_parent (ptable s (initproc s)) = None" "initproc s \<noteq> p"
      using fa f(1) by (auto simp: family_ok_def)
    have "\<exists>q<NPROC. p_parent (ptable s' x) = Some q \<and> q \<noteq> x \<and> live s' q"
      if x: "x < NPROC" "x \<noteq> initproc s" "\<not> fresh s' x" for x
    proof -
      obtain q where "q < NPROC" "p_parent (ptable s x) = Some q" "q \<noteq> x" "live s q"
        using fa x by (auto simp: family_ok_def fr)
      then show ?thesis using ini x by (cases "q = p") (auto simp: f(8) same)
    qed
    moreover have "p_parent (ptable s' x) = None" if "x < NPROC" "fresh s' x" for x
      using that fa by (simp add: family_ok_def fr f(8))
    ultimately show ?thesis using ini by (simp add: family_ok_def f(2) same f(8))
  qed
  moreover have "pids_ok s'" using pi by (simp add: pids_ok_def f(3,5) same cong: conj_cong)
  moreover have "threads_ok (s', w)"
    unfolding threads_ok_def split
  proof (intro conjI allI impI)
    fix q assume q: "q < NPROC"
    show "case w q of Idle \<Rightarrow> p_state (ptable s' q) \<noteq> SLEEPING
      | Forking n \<Rightarrow> n < NPROC \<and> p_state (ptable s' n) = EMBRYO \<and> p_state (ptable s' q) \<in> {RUNNABLE, RUNNING}
      | _ \<Rightarrow> p_state (ptable s' q) \<in> {SLEEPING, RUNNABLE}"
      using threads_okD(1-3) [OF th q] p st [OF q] same(2) by (cases "q = p") (auto split: where_at.split)
  qed (use threads_okD(4,5) [OF th] same(2) in blast)+
  moreover have "waits_ok (s', w)"
    unfolding waits_ok_def split
  proof (intro allI impI)
    fix q assume q': "q < NPROC" "p_state (ptable s' q) = SLEEPING"
    then have "q \<noteq> p" using st(2) by auto
    then have q: "q < NPROC" "p_state (ptable s q) = SLEEPING" "q \<noteq> p" using q' st(1) [OF q'(1)] by auto
    have no: "p_chan (ptable s q) \<noteq> map_option CProc (p_parent (ptable s p))"
      "p_chan (ptable s q) = Some (CProc (initproc s)) \<Longrightarrow> z < NPROC \<Longrightarrow> p_parent (ptable s z) = Some p \<Longrightarrow>
        p_state (ptable s z) \<noteq> ZOMBIE" for z
      using f(9) [OF q(1)] q'(2) q by (auto split: if_splits)
    have "p_state (ptable s' r) \<noteq> ZOMBIE" if h: "w q = Waiting" "r < NPROC" "p_parent (ptable s' r) = Some q" for r
    proof -
      note d = waits_okD [OF wt q(1,2) h(1)]
      show ?thesis
      proof (cases "p_parent (ptable s r) = Some p")
        case True
        have "p \<noteq> r" using True fa p f(1) by (auto simp: family_ok_def fresh_def)
        then show ?thesis using True h f(8) [OF h(2)] no(2) [of r] d(1) st(1) [OF h(2)] by auto
      next
        case False
        then have "p_parent (ptable s r) = Some q" using h f(8) [OF h(2)] by simp
        moreover from this have "r \<noteq> p" using no(1) d(1) by auto
        ultimately show ?thesis using d(4) [OF h(2)] st(1) [OF h(2)] by auto
      qed
    qed
    moreover have "\<exists>r<NPROC. p_parent (ptable s' r) = Some q" if "w q = Waiting"
      using waits_okD(3) [OF wt q(1,2) that] f(8) q(3) by auto
    moreover have "w q = Asleep \<Longrightarrow> \<exists>a. p_chan (ptable s q) = Some (COther a)"
      using wt q by (simp add: waits_ok_def)
    ultimately show "(w q = Waiting \<longrightarrow> p_chan (ptable s' q) = Some (CProc q) \<and> \<not> p_killed (ptable s' q) \<and>
           (\<exists>r<NPROC. p_parent (ptable s' r) = Some q) \<and>
           (\<forall>r<NPROC. p_parent (ptable s' r) = Some q \<longrightarrow> p_state (ptable s' r) \<noteq> ZOMBIE)) \<and>
        (w q = Asleep \<longrightarrow> (\<exists>a. p_chan (ptable s' q) = Some (COther a)))"
      using waits_okD(1,2) [OF wt q(1,2)] by (simp add: f)
  qed
  ultimately show ?thesis by (simp add: proc_ok_def)
qed

lemma step_ok: "step c c' \<Longrightarrow> proc_ok c \<Longrightarrow> proc_ok c'"
proof (induction rule: step.induct)
  case (rewait_now c s p w s' r)
  note r = resume_ok [OF \<open>proc_ok (s, w)\<close> \<open>c < NCPU\<close> \<open>cpus s c = None\<close> \<open>p < NPROC\<close> \<open>p_state (ptable s p) = RUNNABLE\<close>]
  show ?case using r rewait_now by (auto intro: wait_now_ok)
next
  case (rewait_sleep c s p w s')
  note r = resume_ok [OF \<open>proc_ok (s, w)\<close> \<open>c < NCPU\<close> \<open>cpus s c = None\<close> \<open>p < NPROC\<close> \<open>p_state (ptable s p) = RUNNABLE\<close>]
  have "proc_ok (s', w(p := Idle, p := Waiting))" using wait_sleep_ok [OF r] rewait_sleep by simp
  moreover have "w(p := Idle, p := Waiting) = w" using rewait_sleep by auto
  ultimately show ?case by simp
qed (auto intro: fork1_ok fork2_ok exit_ok wait_now_ok wait_sleep_ok sleep_ok wakeup_ok kill_ok yield_ok run_ok resume_ok)

lemma reachable_ok: "reachable c0 c \<Longrightarrow> proc_ok c0 \<Longrightarrow> proc_ok c"
  by (induction rule: reachable.induct) (auto dest: step_ok)

lemma boot_alloc_slot:
  "alloc_slot boot_kern =
     Inr ((upd_proc 0 (\<lambda>x. x\<lparr>p_state := EMBRYO, p_pid := 1\<rparr>) boot_kern)\<lparr>nextpid := 2\<rparr>, Some 0)"
  by (simp add: alloc_slot_def boot_kern_def zero_proc_def NPROC_def INT_MAX_def upt_conv_Cons)

lemma userinit_ok:
  assumes "userinit boot_kern ks pg root = Inr s"
  shows "proc_ok (s, \<lambda>_. Idle)"
proof -
  have b: "ptable boot_kern p = zero_proc" "cpus boot_kern = (\<lambda>_. None)" for p
    by (simp_all add: boot_kern_def)
  have "p_state (ptable s p) = (if p = 0 then RUNNABLE else UNUSED)" "p_parent (ptable s p) = None"
    "p_pid (ptable s p) = (if p = 0 then 1 else 0)" "cpus s = (\<lambda>_. None)" "nextpid s = 2" "initproc s = 0" for p
    using assms
    by (auto simp: userinit_def allocproc_def boot_alloc_slot alloc_stack_def b zero_proc_def split: if_splits)
  then show ?thesis
    by (auto simp: proc_ok_def cpu_ok_def family_ok_def pids_ok_def threads_ok_def waits_ok_def live_def fresh_def NPROC_def INT_MAX_def)
qed

section \<open>Properties\<close>

text \<open>
  A run for the witnesses: the first process starts on processor 0, forks, waits; its child runs
  there and exits.
\<close>

definition demo0 :: kern where "demo0 = projr (userinit boot_kern 1 1 1)"
definition demo1 :: kern where "demo1 = dispatch 0 0 demo0"
definition demo2 :: kern where "demo2 = fst (projr (alloc_slot demo1))"
definition demo3 :: kern where "demo3 = fst (projr (fork_rest demo2 0 1 1 1))"
definition demo4 :: kern where "demo4 = fst (projr (wait 0 demo3))"
definition demo5 :: kern where "demo5 = dispatch 0 1 demo4"
definition demo6 :: kern where "demo6 = projr (exit_proc 1 demo5)"

lemma res_projr: "\<not> isl x \<Longrightarrow> x = Inr (projr x)"
  by (cases x) auto

lemma demo0: "userinit boot_kern 1 1 1 = Inr demo0"
  unfolding demo0_def by (rule res_projr) code_simp

lemma demo_run:
  "reachable (demo0, \<lambda>_. Idle) (demo4, (\<lambda>_. Idle)(0 := Waiting))"
  "reachable (demo0, \<lambda>_. Idle) (demo6, (\<lambda>_. Idle)(0 := Waiting))"
proof -
  have 1: "step (demo0, \<lambda>_. Idle) (demo1, \<lambda>_. Idle)"
    unfolding demo1_def by (rule step.run) (code_simp | simp)+
  have "\<not> isl (alloc_slot demo1)" "snd (projr (alloc_slot demo1)) = Some 1" by code_simp+
  then have a: "alloc_slot demo1 = Inr (demo2, Some 1)" by (metis demo2_def prod.collapse res_projr)
  have "running demo1 0" by code_simp
  then have 2: "step (demo1, \<lambda>_. Idle) (demo2, (\<lambda>_. Idle)(0 := Forking 1))"
    by (intro step.fork1 a) auto
  have "\<not> isl (fork_rest demo2 0 1 1 1)" by code_simp
  then have "fork_rest demo2 0 1 1 1 = Inr (demo3, snd (projr (fork_rest demo2 0 1 1 1)))"
    by (simp add: demo3_def res_projr)
  moreover have "running demo2 0" by code_simp
  ultimately have "step (demo2, (\<lambda>_. Idle)(0 := Forking 1)) (demo3, (\<lambda>_. Idle)(0 := Forking 1, 0 := Idle, 1 := Idle))"
    by (intro step.fork2) auto
  then have 3: "step (demo2, (\<lambda>_. Idle)(0 := Forking 1)) (demo3, \<lambda>_. Idle)"
    by (simp add: fun_upd_def cong: if_cong)
  have "\<not> isl (wait 0 demo3)" "snd (projr (wait 0 demo3)) = Slept" by code_simp+
  then have "wait 0 demo3 = Inr (demo4, Slept)"
    by (metis demo4_def prod.collapse res_projr)
  moreover have "running demo3 0" by code_simp
  ultimately have 4: "step (demo3, \<lambda>_. Idle) (demo4, (\<lambda>_. Idle)(0 := Waiting))"
    by (intro step.wait_sleep) auto
  have 5: "step (demo4, (\<lambda>_. Idle)(0 := Waiting)) (demo5, (\<lambda>_. Idle)(0 := Waiting))"
    unfolding demo5_def by (rule step.run) (code_simp | simp)+
  have "exit_proc 1 demo5 = Inr demo6" unfolding demo6_def by (rule res_projr) code_simp
  moreover have "running demo5 1" by code_simp
  ultimately have 6: "step (demo5, (\<lambda>_. Idle)(0 := Waiting)) (demo6, (\<lambda>_. Idle)(0 := Waiting))"
    by (intro step.exit) auto
  show r4: "reachable (demo0, \<lambda>_. Idle) (demo4, (\<lambda>_. Idle)(0 := Waiting))"
    using 1 2 3 4 by (meson reachable.intros)
  then show "reachable (demo0, \<lambda>_. Idle) (demo6, (\<lambda>_. Idle)(0 := Waiting))"
    using 5 6 by (meson reachable.intros)
qed

text \<open>
  C22. Whatever the interleaving of the processes and processors, from the first process on and until
  a step panics or \<^verbatim>\<open>nextpid++\<close> overflows: processors
  and running processes correspond one to one; every process but the first, zombies included, has
  a parent that is alive; process numbers of slots in use are positive and different; a slot being
  filled belongs to exactly one \<^verbatim>\<open>fork\<close>; and whoever sleeps in \<^verbatim>\<open>wait\<close> has a child and no zombie child.
  Claiming a slot is undefined in a reachable state only where \<^verbatim>\<open>nextpid\<close> has reached the largest
  \<^verbatim>\<open>int\<close>, which the code does not test; what happens after such an overflow is not covered.
\<close>
theorem proc_invariant:
  assumes "userinit boot_kern ks pg root = Inr s0" "reachable (s0, \<lambda>_. Idle) c"
  shows "proc_ok c \<and> (alloc_slot (fst c) = Inl e \<longrightarrow> e = Undefined \<and> nextpid (fst c) = INT_MAX)"
proof
  show "proc_ok c" using reachable_ok userinit_ok assms by blast
  show "alloc_slot (fst c) = Inl e \<longrightarrow> e = Undefined \<and> nextpid (fst c) = INT_MAX"
    by (auto simp: alloc_slot_def split: option.splits)
qed

theorem proc_invariant_witness: "proc_ok (demo6, (\<lambda>_. Idle)(0 := Waiting))"
  using proc_invariant [OF demo0 demo_run(2)] by simp

text \<open>
  C23. \<^verbatim>\<open>wait\<close> loses no wakeup: a process asleep in \<^verbatim>\<open>wait\<close> was not killed, has a child and none that has
  already exited; and when one of its children exits it becomes runnable.
\<close>
theorem wait_no_lost_wakeup:
  assumes "userinit boot_kern ks pg root = Inr s0" "reachable (s0, \<lambda>_. Idle) (s, w)"
    and "p < NPROC" "w p = Waiting" "p_state (ptable s p) = SLEEPING"
  shows "\<not> p_killed (ptable s p) \<and> (\<exists>q<NPROC. p_parent (ptable s q) = Some p) \<and>
    (\<forall>q<NPROC. p_parent (ptable s q) = Some p \<longrightarrow> p_state (ptable s q) \<noteq> ZOMBIE \<and>
      (\<forall>s'. running s q \<longrightarrow> exit_proc q s = Inr s' \<longrightarrow> p_state (ptable s' p) = RUNNABLE))"
proof -
  have wt: "waits_ok (s, w)"
    using reachable_ok [OF assms(2) userinit_ok [OF assms(1)]] by (simp add: proc_ok_def)
  note d = waits_okD [OF wt assms(3,5,4)]
  have "p_state (ptable s' p) = RUNNABLE"
    if "p_parent (ptable s q) = Some p" "running s q" "exit_proc q s = Inr s'" for q s'
    using exit_proc_fields(9) [OF that(3) assms(3)] that d(1) assms(5) by auto
  then show ?thesis using d by blast
qed

theorem wait_no_lost_wakeup_witness:
  "p_state (ptable demo4 0) = SLEEPING \<and> \<not> p_killed (ptable demo4 0) \<and>
   (\<exists>q<NPROC. p_parent (ptable demo4 q) = Some 0)"
proof -
  have s: "p_state (ptable demo4 0) = SLEEPING" "0 < NPROC" by code_simp+
  show ?thesis using wait_no_lost_wakeup [OF demo0 demo_run(1) s(2) _ s(1)] s by simp
qed

text \<open>
  C24. No zombie is stranded: its parent is a living process, and when that parent runs and calls
  \<^verbatim>\<open>wait\<close> the call returns at once with the positive number of a child whose slot is free afterwards.
  As for all runs here, this holds up to the overflow of the process counter.
\<close>
theorem zombie_reapable:
  assumes "userinit boot_kern ks pg root = Inr s0" "reachable (s0, \<lambda>_. Idle) (s, w)"
    and "z < NPROC" "p_state (ptable s z) = ZOMBIE"
  shows "\<exists>p<NPROC. p_parent (ptable s z) = Some p \<and> live s p \<and>
    (\<exists>s' r q. wait p s = Inr (s', Returned r) \<and> 0 < r \<and> q < NPROC \<and> p_parent (ptable s q) = Some p \<and>
       p_pid (ptable s q) = r \<and> p_state (ptable s' q) = UNUSED)"
proof -
  have fa: "family_ok s" and pi: "pids_ok s"
    using reachable_ok [OF assms(2) userinit_ok [OF assms(1)]] by (simp_all add: proc_ok_def)
  have "z \<noteq> initproc s" "\<not> fresh s z" using fa assms(4) by (auto simp: family_ok_def live_def fresh_def)
  then obtain p where p: "p < NPROC" "p_parent (ptable s z) = Some p" "live s p"
    using fa assms(3) by (auto simp: family_ok_def)
  show ?thesis
  proof (cases "wait_scan [0..<NPROC] p False s")
    case (Kids k)
    then show ?thesis using wait_scan_Kids [OF Kids] p assms by auto
  next
    case (Reaped s' r)
    then obtain q where q: "q < NPROC" "p_parent (ptable s q) = Some p" "p_state (ptable s q) = ZOMBIE"
      "r = p_pid (ptable s q)" "s' = reap q s"
      using wait_scan_Reaped [OF Reaped] by auto
    have "wait p s = Inr (s', Returned r)" using Reaped by (simp add: wait_def)
    moreover have "0 < r" using pi q by (simp add: pids_ok_def)
    moreover have "p_state (ptable s' q) = UNUSED" using q by (simp add: reap_def)
    ultimately show ?thesis using p q by blast
  qed
qed

theorem zombie_reapable_witness: "\<exists>p<NPROC. p_parent (ptable demo6 1) = Some p \<and> live demo6 p"
proof -
  have "1 < NPROC" "p_state (ptable demo6 1) = ZOMBIE" by code_simp+
  then show ?thesis using zombie_reapable [OF demo0 demo_run(2)] by blast
qed

text \<open>
  \<^verbatim>\<open>kill(0)\<close> succeeds although no process has number 0: it finds the first slot whose process
  number is still 0 (an unused one) and marks it killed, and since neither \<^verbatim>\<open>allocproc\<close> nor \<^verbatim>\<open>fork\<close> clears the mark, the
  next process created in that slot is born killed.
\<close>
theorem kill_zero_poisons:
  assumes "userinit boot_kern ks0 pg0 root = Inr s0" "reachable (s0, \<lambda>_. Idle) (s, w)"
    and "find (\<lambda>p. p_state (ptable s p) = UNUSED) [0..<NPROC] = Some np" "p_pid (ptable s np) = 0"
    and "fork (fst (kill 0 s)) cur ks pg = Inr (s', r)" "r \<noteq> -1"
  shows "snd (kill 0 s) = 0 \<and> p_killed (ptable s' np) \<and> p_state (ptable s' np) = RUNNABLE"
proof -
  have pi: "pids_ok s"
    using reachable_ok [OF assms(2) userinit_ok [OF assms(1)]] by (simp add: proc_ok_def)
  have np: "np < NPROC" "p_state (ptable s np) = UNUSED" "\<And>j. j < np \<Longrightarrow> p_state (ptable s j) \<noteq> UNUSED"
    using assms(3) by (auto simp: find_upt_iff)
  have lower: "p_pid (ptable s j) \<noteq> 0" if "j < np" for j
  proof -
    have "0 < p_pid (ptable s j)" using pi np(1) np(3) [OF that] that unfolding pids_ok_def by (meson less_trans)
    then show ?thesis by simp
  qed
  have "find (\<lambda>p. p_pid (ptable s p) = 0) [0..<NPROC] = Some np"
    using np lower assms(4) by (simp add: find_upt_iff)
  then have k: "kill 0 s = (upd_proc np (\<lambda>x. x\<lparr>p_killed := True, p_state := (if p_state x = SLEEPING then RUNNABLE else p_state x)\<rparr>) s, 0)"
    by (simp add: kill_def)
  have "find (\<lambda>p. p_state (ptable (fst (kill 0 s)) p) = UNUSED) [0..<NPROC] = Some np"
    using np by (simp add: find_upt_iff k)
  then show ?thesis using assms(5,6) np
    by (auto simp: fork_def alloc_slot_def fork_rest_def alloc_stack_def Let_def bind_res_eq_Inr k
        split: if_splits option.splits)
qed

theorem kill_zero_poisons_witness:
  "snd (kill 0 demo4) = 0 \<and> p_killed (ptable (fst (projr (fork (fst (kill 0 demo4)) 0 1 1))) 2)"
proof -
  have f: "find (\<lambda>p. p_state (ptable demo4 p) = UNUSED) [0..<NPROC] = Some 2" "p_pid (ptable demo4 2) = 0"
    and n: "\<not> isl (fork (fst (kill 0 demo4)) 0 1 1)" "snd (projr (fork (fst (kill 0 demo4)) 0 1 1)) \<noteq> -1"
    by code_simp+
  have "fork (fst (kill 0 demo4)) 0 1 1 = Inr (fst (projr (fork (fst (kill 0 demo4)) 0 1 1)), snd (projr (fork (fst (kill 0 demo4)) 0 1 1)))"
    using res_projr [OF n(1)] by simp
  from kill_zero_poisons [OF demo0 demo_run(1) f this n(2)] show ?thesis by simp
qed

end
