(* ===== verification/Barrier.thy ===== *)
theory Barrier
  imports Prelude
begin

text \<open>
  The two barriers of the sorting assignments: \<^verbatim>\<open>hw07-assignment/barrier.c\<close> (two mutexes and a
  condition variable) and \<^verbatim>\<open>hw06-starter/barrier.c\<close> (two semaphores). Each is a step relation:
  one step is one library call or one access of a field of the shared structure, made by one
  thread, and the threads interleave freely; a thread's place in \<^verbatim>\<open>barrier_wait\<close> is part of the
  state. The locale \<open>barrier\<close> states what a client of a barrier for \<open>n\<close> threads may rely on: no
  thread leaves before all \<open>n\<close> have entered, the barrier never blocks all of its threads, and
  every step brings it closer to its end. Both implementations are interpretations of it.
\<close>

section \<open>The contract\<close>

text \<open>
  \<open>bstep t\<close> is a step of thread \<open>t\<close> inside \<^verbatim>\<open>barrier_wait\<close> (the first one enters it), \<open>spur\<close> a step
  that the system makes on its own: \<^verbatim>\<open>pthread_cond_wait\<close> may return without a signal.
\<close>

locale barrier =
  fixes n :: nat
    and fresh :: "'b"
    and bstep :: "nat \<Rightarrow> 'b \<Rightarrow> 'b \<Rightarrow> bool"
    and spur :: "'b \<Rightarrow> 'b \<Rightarrow> bool"
    and entered :: "nat \<Rightarrow> 'b \<Rightarrow> bool"
    and left :: "nat \<Rightarrow> 'b \<Rightarrow> bool"
    and inv :: "'b \<Rightarrow> bool"
    and distance :: "'b \<Rightarrow> nat"
  assumes inv_fresh: "inv fresh"
    and fresh_out: "\<not> entered t fresh" "\<not> left t fresh"
    and inv_step: "inv b \<Longrightarrow> t < n \<Longrightarrow> bstep t b b' \<Longrightarrow> inv b'"
    and inv_spur: "inv b \<Longrightarrow> spur b b' \<Longrightarrow> inv b'"
    and step_enters: "bstep t b b' \<Longrightarrow> entered t b' \<and> \<not> left t b"
    and step_others: "bstep t b b' \<Longrightarrow> u \<noteq> t \<Longrightarrow> entered u b' = entered u b \<and> left u b' = left u b"
    and spur_frame: "spur b b' \<Longrightarrow> entered u b' = entered u b \<and> left u b' = left u b"
    and gate: "inv b \<Longrightarrow> t < n \<Longrightarrow> left t b \<Longrightarrow> u < n \<Longrightarrow> entered u b"
    and progress: "inv b \<Longrightarrow> t < n \<Longrightarrow> \<not> left t b \<Longrightarrow> \<exists>u<n. \<not> left u b \<and> (\<exists>b'. bstep u b b')"
    and closer: "inv b \<Longrightarrow> t < n \<Longrightarrow> bstep t b b' \<Longrightarrow> distance b' < distance b"
begin

lemma step_left_iff:
  assumes "bstep t b b'"
  shows "left u b' \<longleftrightarrow> (if u = t then left t b' else left u b)"
  using step_others [OF assms] by auto

lemma step_entered_iff:
  assumes "bstep t b b'"
  shows "entered u b' \<longleftrightarrow> u = t \<or> entered u b"
  using step_others [OF assms, of u] step_enters [OF assms] by auto

lemma none_left_while_one_is_out:
  assumes "inv b" and "u < n" and "\<not> entered u b" and "t < n"
  shows "\<not> left t b"
  using gate [OF assms(1) assms(4) _ assms(2)] assms(3) by blast

end

section \<open>The barrier of hw07\<close>

text \<open>
  The places of a thread in \<^verbatim>\<open>barrier_wait\<close>, named by what it does next: take \<^verbatim>\<open>seen_lock\<close>;
  increment \<^verbatim>\<open>seen\<close>; release the lock; take \<^verbatim>\<open>wall\<close>; test the loop condition; sleep on the
  condition variable; take \<^verbatim>\<open>wall\<close> again after waking up; broadcast; release \<^verbatim>\<open>wall\<close>; returned.
\<close>

datatype bpos =
  LockSeen | IncSeen | UnlockSeen | LockWall | Testing | Asleep | Awake | Broadcast | UnlockWall | Passed

record cond_barrier =
  wall :: "nat option"
  seen_lock :: "nat option"
  bcount :: int
  bseen :: int
  bpos :: "nat \<Rightarrow> bpos"

definition make_barrier :: "int \<Rightarrow> cond_barrier" where
  "make_barrier nn =
     \<lparr>wall = None, seen_lock = None, bcount = nn, bseen = 0, bpos = (\<lambda>t. LockSeen)\<rparr>"

definition go :: "nat \<Rightarrow> bpos \<Rightarrow> cond_barrier \<Rightarrow> cond_barrier" where
  "go t p b = b\<lparr>bpos := (bpos b)(t := p)\<rparr>"

text \<open>\<^verbatim>\<open>pthread_cond_broadcast\<close>: every sleeper has to take the mutex again.\<close>

definition wake_all :: "cond_barrier \<Rightarrow> cond_barrier" where
  "wake_all b = b\<lparr>bpos := (\<lambda>u. if bpos b u = Asleep then Awake else bpos b u)\<rparr>"

inductive barrier_wait :: "nat \<Rightarrow> cond_barrier \<Rightarrow> cond_barrier \<Rightarrow> bool" for t where
  lock_seen: "bpos b t = LockSeen \<Longrightarrow> seen_lock b = None \<Longrightarrow>
    barrier_wait t b (go t IncSeen (b\<lparr>seen_lock := Some t\<rparr>))"
| inc_seen: "bpos b t = IncSeen \<Longrightarrow>
    barrier_wait t b (go t UnlockSeen (b\<lparr>bseen := bseen b + 1\<rparr>))"
| unlock_seen: "bpos b t = UnlockSeen \<Longrightarrow>
    barrier_wait t b (go t LockWall (b\<lparr>seen_lock := None\<rparr>))"
| lock_wall: "bpos b t = LockWall \<Longrightarrow> wall b = None \<Longrightarrow>
    barrier_wait t b (go t Testing (b\<lparr>wall := Some t\<rparr>))"
| cond_wait: "bpos b t = Testing \<Longrightarrow> bseen b < bcount b \<Longrightarrow>
    barrier_wait t b (go t Asleep (b\<lparr>wall := None\<rparr>))"
| relock_wall: "bpos b t = Awake \<Longrightarrow> wall b = None \<Longrightarrow>
    barrier_wait t b (go t Testing (b\<lparr>wall := Some t\<rparr>))"
| loop_exit: "bpos b t = Testing \<Longrightarrow> \<not> bseen b < bcount b \<Longrightarrow>
    barrier_wait t b (go t Broadcast b)"
| broadcast: "bpos b t = Broadcast \<Longrightarrow>
    barrier_wait t b (go t UnlockWall (if bseen b \<ge> bcount b then wake_all b else b))"
| unlock_wall: "bpos b t = UnlockWall \<Longrightarrow>
    barrier_wait t b (go t Passed (b\<lparr>wall := None\<rparr>))"

inductive_cases barrier_waitE: "barrier_wait t b b'"

inductive spurious_wakeup :: "cond_barrier \<Rightarrow> cond_barrier \<Rightarrow> bool" where
  "bpos b t = Asleep \<Longrightarrow> spurious_wakeup b (go t Awake b)"

definition cb_entered :: "nat \<Rightarrow> cond_barrier \<Rightarrow> bool" where
  "cb_entered t b \<longleftrightarrow> bpos b t \<noteq> LockSeen"

definition cb_left :: "nat \<Rightarrow> cond_barrier \<Rightarrow> bool" where
  "cb_left t b \<longleftrightarrow> bpos b t = Passed"

lemma go_simps [simp]:
  "wall (go t p b) = wall b" "seen_lock (go t p b) = seen_lock b"
  "bcount (go t p b) = bcount b" "bseen (go t p b) = bseen b"
  "bpos (go t p b) = (bpos b)(t := p)"
  by (simp_all add: go_def)

lemma wake_all_simps [simp]:
  "wall (wake_all b) = wall b" "seen_lock (wake_all b) = seen_lock b"
  "bcount (wake_all b) = bcount b" "bseen (wake_all b) = bseen b"
  "bpos (wake_all b) u = (if bpos b u = Asleep then Awake else bpos b u)"
  by (simp_all add: wake_all_def)

text \<open>
  The invariant: a mutex is held by the thread whose place says so; \<^verbatim>\<open>seen\<close> is the number of
  threads past the increment; a thread past the loop has seen the full count; and when the count
  is full, a sleeping thread has someone left who will wake it up.
\<close>

definition counted :: "nat \<Rightarrow> cond_barrier \<Rightarrow> nat set" where
  "counted n b = {t. t < n \<and> bpos b t \<noteq> LockSeen \<and> bpos b t \<noteq> IncSeen}"

definition locks_ok :: "cond_barrier \<Rightarrow> bool" where
  "locks_ok b \<longleftrightarrow>
     (\<forall>t. wall b = Some t \<longleftrightarrow> bpos b t \<in> {Testing, Broadcast, UnlockWall}) \<and>
     (\<forall>t. seen_lock b = Some t \<longleftrightarrow> bpos b t \<in> {IncSeen, UnlockSeen})"

definition count_ok :: "nat \<Rightarrow> cond_barrier \<Rightarrow> bool" where
  "count_ok n b \<longleftrightarrow>
     bcount b = int n \<and> bseen b = int (card (counted n b)) \<and> (\<forall>t\<ge>n. bpos b t = LockSeen)"

definition passed_ok :: "cond_barrier \<Rightarrow> bool" where
  "passed_ok b \<longleftrightarrow> (\<forall>t. bpos b t \<in> {Broadcast, UnlockWall, Passed} \<longrightarrow> bcount b \<le> bseen b)"

definition waker_ok :: "cond_barrier \<Rightarrow> bool" where
  "waker_ok b \<longleftrightarrow>
     (bcount b \<le> bseen b \<longrightarrow> (\<exists>t. bpos b t = Asleep) \<longrightarrow>
       (\<exists>u. bpos b u \<in> {UnlockSeen, LockWall, Testing, Awake, Broadcast}))"

definition cb_inv :: "nat \<Rightarrow> cond_barrier \<Rightarrow> bool" where
  "cb_inv n b \<longleftrightarrow> locks_ok b \<and> count_ok n b \<and> passed_ok b \<and> waker_ok b"

fun brank :: "bool \<Rightarrow> bpos \<Rightarrow> nat" where
  "brank full LockSeen = 12"
| "brank full IncSeen = 11"
| "brank full UnlockSeen = 10"
| "brank full LockWall = 9"
| "brank full Awake = (if full then 5 else 8)"
| "brank full Testing = (if full then 4 else 7)"
| "brank full Asleep = 6"
| "brank full Broadcast = 3"
| "brank full UnlockWall = 2"
| "brank full Passed = 1"

definition cb_distance :: "nat \<Rightarrow> cond_barrier \<Rightarrow> nat" where
  "cb_distance n b = (\<Sum>t<n. brank (bcount b \<le> bseen b) (bpos b t))"

lemma finite_counted [simp]: "finite (counted n b)"
  by (simp add: counted_def)

lemma counted_full:
  assumes "int n \<le> int (card (counted n b))" and "t < n"
  shows "t \<in> counted n b"
proof -
  have "counted n b \<subseteq> {..<n}" by (auto simp: counted_def)
  moreover have "card {..<n} \<le> card (counted n b)" using assms(1) by simp
  ultimately have "counted n b = {..<n}" by (simp add: card_seteq)
  then show ?thesis using assms(2) by simp
qed

lemma counted_go:
  "t < n \<Longrightarrow> counted n (go t p b) =
     (if p = LockSeen \<or> p = IncSeen then counted n b - {t} else insert t (counted n b))"
  by (auto simp: counted_def)

lemma counted_cong [simp]:
  "counted n (b\<lparr>wall := w\<rparr>) = counted n b" "counted n (b\<lparr>seen_lock := w\<rparr>) = counted n b"
  "counted n (b\<lparr>bseen := k\<rparr>) = counted n b" "counted n (wake_all b) = counted n b"
  by (auto simp: counted_def)

lemma counted_kept:
  assumes "t < n" and "t \<in> counted n b" and "p \<noteq> LockSeen" and "p \<noteq> IncSeen"
  shows "counted n (go t p b) = counted n b"
  using assms by (simp add: counted_go insert_absorb)

lemma wall_unique:
  assumes "locks_ok b" and "bpos b t \<in> {Testing, Broadcast, UnlockWall}"
    and "bpos b u \<in> {Testing, Broadcast, UnlockWall}"
  shows "u = t"
proof -
  have "wall b = Some t" "wall b = Some u" using assms unfolding locks_ok_def by blast+
  then show ?thesis by simp
qed

lemma seen_lock_unique:
  assumes "locks_ok b" and "bpos b t \<in> {IncSeen, UnlockSeen}" and "bpos b u \<in> {IncSeen, UnlockSeen}"
  shows "u = t"
proof -
  have "seen_lock b = Some t" "seen_lock b = Some u" using assms unfolding locks_ok_def by blast+
  then show ?thesis by simp
qed

lemma locks_ok_step:
  assumes ok: "locks_ok b" and step: "barrier_wait t b b'"
  shows "locks_ok b'"
  using step wall_unique [OF ok, of t] seen_lock_unique [OF ok, of t] ok
  by (cases rule: barrier_wait.cases) (auto simp: locks_ok_def split: if_splits)

lemma count_ok_step:
  assumes ok: "count_ok n b" and t: "t < n" and step: "barrier_wait t b b'"
  shows "count_ok n b'"
proof -
  have mem: "t \<in> counted n b" if "bpos b t \<noteq> LockSeen" "bpos b t \<noteq> IncSeen"
    using t that by (simp add: counted_def)
  show ?thesis using step
proof (cases rule: barrier_wait.cases)
  case lock_seen
  then have "t \<notin> counted n b" by (simp add: counted_def)
  then show ?thesis using ok t lock_seen(1) by (simp add: count_ok_def counted_go)
next
  case inc_seen
  then have "t \<notin> counted n b" by (simp add: counted_def)
  then show ?thesis using ok t inc_seen(1) by (simp add: count_ok_def counted_go)
qed (use ok t mem in \<open>simp_all add: count_ok_def counted_kept\<close>)
qed

lemma passed_ok_step:
  assumes "passed_ok b" and "barrier_wait t b b'"
  shows "passed_ok b'"
  using assms(2,1)
  by (cases rule: barrier_wait.cases) (auto simp: passed_ok_def split: if_splits)

lemma waker_ok_other:
  assumes ok: "waker_ok b" and t: "bpos b t \<in> {LockSeen, UnlockWall}" and p: "p \<noteq> Asleep"
    and b': "bpos b' = (bpos b)(t := p)" "bseen b' = bseen b" "bcount b' = bcount b"
  shows "waker_ok b'"
  unfolding waker_ok_def
proof (intro impI)
  assume full: "bcount b' \<le> bseen b'" and "\<exists>s. bpos b' s = Asleep"
  then have "\<exists>s. bpos b s = Asleep" using b' p by (auto split: if_splits)
  then obtain u where u: "bpos b u \<in> {UnlockSeen, LockWall, Testing, Awake, Broadcast}"
    using ok full b' unfolding waker_ok_def by auto
  then have "u \<noteq> t" using t by auto
  then have "bpos b' u = bpos b u" using b' by simp
  then show "\<exists>u. bpos b' u \<in> {UnlockSeen, LockWall, Testing, Awake, Broadcast}" using u by metis
qed

lemma waker_ok_step:
  assumes ok: "waker_ok b" "passed_ok b" and step: "barrier_wait t b b'"
  shows "waker_ok b'"
  using step
proof (cases rule: barrier_wait.cases)
  case lock_seen
  then show ?thesis using waker_ok_other [OF ok(1), of t IncSeen] by simp
next
  case unlock_wall
  then show ?thesis using waker_ok_other [OF ok(1), of t Passed] by simp
qed (use ok in \<open>auto simp: waker_ok_def passed_ok_def split: if_splits\<close>)

lemmas cb_ok_step = locks_ok_step count_ok_step passed_ok_step waker_ok_step

lemma cb_inv_step: "cb_inv n b \<Longrightarrow> t < n \<Longrightarrow> barrier_wait t b b' \<Longrightarrow> cb_inv n b'"
  unfolding cb_inv_def by (blast intro: cb_ok_step)

lemma cb_inv_spur:
  assumes inv: "cb_inv n b" and spur: "spurious_wakeup b b'"
  shows "cb_inv n b'"
  using spur
proof cases
  case (1 t)
  have t: "t < n" using inv 1(2) unfolding cb_inv_def count_ok_def
    by (metis bpos.distinct(9) not_le)
  then have "counted n b' = counted n b" using 1 by (simp add: counted_kept counted_def [of n b])
  then show ?thesis using inv 1 t
    by (auto simp: cb_inv_def locks_ok_def count_ok_def passed_ok_def waker_ok_def)
qed

lemma cb_inv_make: "cb_inv n (make_barrier (int n))"
  by (simp add: cb_inv_def locks_ok_def count_ok_def passed_ok_def waker_ok_def make_barrier_def counted_def)

text \<open>A full count means that every thread has passed the increment.\<close>

lemma cb_gate:
  assumes "cb_inv n b" and "cb_left t b" and "u < n"
  shows "cb_entered u b"
proof -
  have "int n \<le> int (card (counted n b))"
    using assms(1,2) by (auto simp: cb_inv_def passed_ok_def count_ok_def cb_left_def)
  then have "u \<in> counted n b" using assms(3) by (rule counted_full)
  then show ?thesis by (simp add: counted_def cb_entered_def)
qed

text \<open>
  Progress: the holder of a mutex can go on; with both mutexes free a thread that waits for one
  can take it; and if all the others sleep or have left, the count is full and the sleepers have
  somebody to wake them, who is none of them.
\<close>

lemma cb_progress:
  assumes inv: "cb_inv n b" and t: "t < n" "\<not> cb_left t b"
  shows "\<exists>u<n. \<not> cb_left u b \<and> (\<exists>b'. barrier_wait u b b')"
proof -
  have small: "u < n" if "bpos b u \<noteq> LockSeen" for u
    using inv that unfolding cb_inv_def count_ok_def by (metis not_le)
  have moves: ?thesis if "bpos b u \<in> {IncSeen, UnlockSeen, Testing, Broadcast, UnlockWall}" for u
  proof -
    have "\<exists>b'. barrier_wait u b b'"
      using that by (cases "bseen b < bcount b") (auto intro: barrier_wait.intros)
    moreover have "u < n" "\<not> cb_left u b" using that small [of u] by (auto simp: cb_left_def)
    ultimately show ?thesis by blast
  qed
  show ?thesis
  proof (cases "seen_lock b = None \<and> wall b = None")
    case False
    then obtain u where "seen_lock b = Some u \<or> wall b = Some u" by auto
    then have "bpos b u \<in> {IncSeen, UnlockSeen, Testing, Broadcast, UnlockWall}"
      using inv by (auto simp: cb_inv_def locks_ok_def)
    then show ?thesis by (rule moves)
  next
    case free: True
    have locked: ?thesis if "u < n" "bpos b u \<in> {LockSeen, LockWall, Awake}" for u
    proof -
      have "\<exists>b'. barrier_wait u b b'" using that free by (auto intro: barrier_wait.intros)
      moreover have "\<not> cb_left u b" using that by (auto simp: cb_left_def)
      ultimately show ?thesis using that(1) by blast
    qed
    show ?thesis
    proof (cases "\<exists>u<n. bpos b u \<in> {LockSeen, LockWall, Awake}")
      case True
      then show ?thesis using locked by blast
    next
      case False
      have "bpos b u \<notin> {IncSeen, UnlockSeen, Testing, Broadcast, UnlockWall}" for u
        using inv free unfolding cb_inv_def locks_ok_def by auto
      then have rest: "bpos b u = Asleep \<or> bpos b u = Passed" if "u < n" for u
        using False that by (cases "bpos b u") auto
      then have "counted n b = {..<n}" by (force simp: counted_def)
      then have "bcount b \<le> bseen b" using inv by (simp add: cb_inv_def count_ok_def)
      moreover have "bpos b t = Asleep" using rest t by (auto simp: cb_left_def)
      ultimately obtain u where "bpos b u \<in> {UnlockSeen, LockWall, Testing, Awake, Broadcast}"
        using inv unfolding cb_inv_def waker_ok_def by blast
      then show ?thesis using rest [of u] small [of u] by auto
    qed
  qed
qed

text \<open>Every step lowers the rank of the thread that makes it and raises no other's.\<close>

lemma sum_lower:
  fixes f g :: "nat \<Rightarrow> nat"
  assumes "t < n" and "f t < g t" and "\<And>u. f u \<le> g u"
  shows "(\<Sum>u<n. f u) < (\<Sum>u<n. g u)"
  using assms by (intro sum_strict_mono_ex1) auto

lemma cb_closer:
  assumes inv: "cb_inv n b" and t: "t < n" and step: "barrier_wait t b b'"
  shows "cb_distance n b' < cb_distance n b"
proof -
  have "brank (bcount b' \<le> bseen b') (bpos b' t) < brank (bcount b \<le> bseen b) (bpos b t)"
    using step by (cases rule: barrier_wait.cases) auto
  moreover have "brank (bcount b' \<le> bseen b') (bpos b' u) \<le> brank (bcount b \<le> bseen b) (bpos b u)" for u
  proof (cases "u = t")
    case True
    then show ?thesis using calculation by simp
  next
    case False
    with step inv show ?thesis
      by (cases rule: barrier_wait.cases; cases "bpos b u")
         (auto simp: cb_inv_def passed_ok_def)
  qed
  ultimately show ?thesis unfolding cb_distance_def using t by (intro sum_lower)
qed

interpretation cb: barrier n "make_barrier (int n)" barrier_wait spurious_wakeup cb_entered cb_left
  "cb_inv n" "cb_distance n"
proof
  show "cb_inv n (make_barrier (int n))" by (rule cb_inv_make)
  show "\<not> cb_entered t (make_barrier (int n))" "\<not> cb_left t (make_barrier (int n))" for t
    by (simp_all add: cb_entered_def cb_left_def make_barrier_def)
  show "cb_inv n b'" if "cb_inv n b" "t < n" "barrier_wait t b b'" for t b b'
    using that by (rule cb_inv_step)
  show "cb_inv n b'" if "cb_inv n b" "spurious_wakeup b b'" for b b'
    using that by (rule cb_inv_spur)
  show "cb_entered t b' \<and> \<not> cb_left t b" if "barrier_wait t b b'" for t b b'
    using that by cases (auto simp: cb_entered_def cb_left_def)
  show "cb_entered u b' = cb_entered u b \<and> cb_left u b' = cb_left u b"
    if "barrier_wait t b b'" "u \<noteq> t" for t b b' u
    using that by cases (auto simp: cb_entered_def cb_left_def)
  show "cb_entered u b' = cb_entered u b \<and> cb_left u b' = cb_left u b"
    if "spurious_wakeup b b'" for b b' u
    using that by cases (auto simp: cb_entered_def cb_left_def)
  show "cb_entered u b" if "cb_inv n b" "t < n" "cb_left t b" "u < n" for b t u
    using that(1,3,4) by (rule cb_gate)
  show "\<exists>u<n. \<not> cb_left u b \<and> (\<exists>b'. barrier_wait u b b')"
    if "cb_inv n b" "t < n" "\<not> cb_left t b" for b t
    using that by (rule cb_progress)
  show "cb_distance n b' < cb_distance n b" if "cb_inv n b" "t < n" "barrier_wait t b b'" for b t b'
    using that by (rule cb_closer)
qed

section \<open>The barrier of hw06\<close>

text \<open>
  The semaphore version. The places: wait for the semaphore \<^verbatim>\<open>mutex\<close>; increment \<^verbatim>\<open>seen\<close>; read it
  into the local variable; post \<^verbatim>\<open>mutex\<close>; compare the local value with \<^verbatim>\<open>count\<close>; the posting loop;
  wait for the semaphore \<^verbatim>\<open>barrier\<close>; returned. The system calls succeed (the code aborts
  otherwise).
\<close>

datatype spos = SLock | SInc | SRead | SUnlock int | SCheck int | SPost int | SWait | SGone

record sem_barrier =
  sem_barr :: nat
  sem_mutex :: nat
  scount :: int
  sseen :: int
  spos :: "nat \<Rightarrow> spos"

definition sem_make_barrier :: "int \<Rightarrow> sem_barrier" where
  "sem_make_barrier nn =
     \<lparr>sem_barr = 0, sem_mutex = 1, scount = nn, sseen = 0, spos = (\<lambda>t. SLock)\<rparr>"

definition sgo :: "nat \<Rightarrow> spos \<Rightarrow> sem_barrier \<Rightarrow> sem_barrier" where
  "sgo t p b = b\<lparr>spos := (spos b)(t := p)\<rparr>"

inductive sem_barrier_wait :: "nat \<Rightarrow> sem_barrier \<Rightarrow> sem_barrier \<Rightarrow> bool" for t where
  sem_lock: "spos b t = SLock \<Longrightarrow> sem_mutex b > 0 \<Longrightarrow>
    sem_barrier_wait t b (sgo t SInc (b\<lparr>sem_mutex := sem_mutex b - 1\<rparr>))"
| sem_inc: "spos b t = SInc \<Longrightarrow>
    sem_barrier_wait t b (sgo t SRead (b\<lparr>sseen := sseen b + 1\<rparr>))"
| sem_read: "spos b t = SRead \<Longrightarrow>
    sem_barrier_wait t b (sgo t (SUnlock (sseen b)) b)"
| sem_unlock: "spos b t = SUnlock k \<Longrightarrow>
    sem_barrier_wait t b (sgo t (SCheck k) (b\<lparr>sem_mutex := sem_mutex b + 1\<rparr>))"
| sem_check: "spos b t = SCheck k \<Longrightarrow>
    sem_barrier_wait t b (sgo t (if k \<ge> scount b then SPost 0 else SWait) b)"
| sem_post: "spos b t = SPost ii \<Longrightarrow> ii < scount b \<Longrightarrow>
    sem_barrier_wait t b (sgo t (SPost (ii + 1)) (b\<lparr>sem_barr := sem_barr b + 1\<rparr>))"
| sem_posted: "spos b t = SPost ii \<Longrightarrow> \<not> ii < scount b \<Longrightarrow>
    sem_barrier_wait t b (sgo t SWait b)"
| sem_wait: "spos b t = SWait \<Longrightarrow> sem_barr b > 0 \<Longrightarrow>
    sem_barrier_wait t b (sgo t SGone (b\<lparr>sem_barr := sem_barr b - 1\<rparr>))"

definition sb_entered :: "nat \<Rightarrow> sem_barrier \<Rightarrow> bool" where
  "sb_entered t b \<longleftrightarrow> spos b t \<noteq> SLock"

definition sb_left :: "nat \<Rightarrow> sem_barrier \<Rightarrow> bool" where
  "sb_left t b \<longleftrightarrow> spos b t = SGone"

lemma sgo_simps [simp]:
  "sem_barr (sgo t p b) = sem_barr b" "sem_mutex (sgo t p b) = sem_mutex b"
  "scount (sgo t p b) = scount b" "sseen (sgo t p b) = sseen b"
  "spos (sgo t p b) = (spos b)(t := p)"
  by (simp_all add: sgo_def)

text \<open>
  The invariant is three counts over the threads: those that hold \<^verbatim>\<open>mutex\<close>, those that are in
  \<^verbatim>\<open>seen\<close>, and the tokens of the semaphore \<^verbatim>\<open>barrier\<close> that were taken or are still to be posted.
  There are no tokens before the count is full, and \<open>n\<close> of them afterwards.
\<close>

fun holds :: "spos \<Rightarrow> nat" where
  "holds SInc = 1"
| "holds SRead = 1"
| "holds (SUnlock k) = 1"
| "holds p = 0"

fun arrived :: "spos \<Rightarrow> nat" where
  "arrived SLock = 0"
| "arrived SInc = 0"
| "arrived p = 1"

fun tokens :: "nat \<Rightarrow> int \<Rightarrow> spos \<Rightarrow> nat" where
  "tokens n s SRead = (if s \<ge> int n then n else 0)"
| "tokens n s (SUnlock k) = (if k \<ge> int n then n else 0)"
| "tokens n s (SCheck k) = (if k \<ge> int n then n else 0)"
| "tokens n s (SPost i) = n - nat i"
| "tokens n s SGone = 1"
| "tokens n s p = 0"

definition tally :: "nat \<Rightarrow> ('p \<Rightarrow> nat) \<Rightarrow> (nat \<Rightarrow> 'p) \<Rightarrow> nat" where
  "tally n f g = (\<Sum>u<n. f (g u))"

definition sb_inv :: "nat \<Rightarrow> sem_barrier \<Rightarrow> bool" where
  "sb_inv n b \<longleftrightarrow>
     scount b = int n \<and>
     tally n holds (spos b) + sem_mutex b = 1 \<and>
     sseen b = int (tally n arrived (spos b)) \<and>
     sem_barr b + tally n (tokens n (sseen b)) (spos b) = (if sseen b < int n then 0 else n) \<and>
     (\<forall>t i. spos b t = SPost i \<longrightarrow> 0 \<le> i)"

fun srank :: "nat \<Rightarrow> spos \<Rightarrow> nat" where
  "srank n SLock = n + 7"
| "srank n SInc = n + 6"
| "srank n SRead = n + 5"
| "srank n (SUnlock k) = n + 4"
| "srank n (SCheck k) = n + 3"
| "srank n (SPost i) = n - nat i + 2"
| "srank n SWait = 1"
| "srank n SGone = 0"

definition sb_distance :: "nat \<Rightarrow> sem_barrier \<Rightarrow> nat" where
  "sb_distance n b = tally n (srank n) (spos b)"

lemma tally_upd: "t < n \<Longrightarrow> tally n f (g(t := p)) + f (g t) = tally n f g + f p"
proof -
  assume "t < n"
  moreover have "(\<Sum>u\<in>{..<n} - {t}. f ((g(t := p)) u)) = (\<Sum>u\<in>{..<n} - {t}. f (g u))"
    by (intro sum.cong) auto
  ultimately show ?thesis
    unfolding tally_def by (simp add: sum.remove [of "{..<n}" t])
qed

lemma tally_ge: "t < n \<Longrightarrow> f (g t) \<le> tally n f g"
  unfolding tally_def by (intro member_le_sum) auto

lemma tally_full:
  assumes "n \<le> tally n arrived g" and "t < n"
  shows "arrived (g t) = 1"
proof (rule ccontr)
  assume "arrived (g t) \<noteq> 1"
  then have "arrived (g t) < 1" by (cases "g t") auto
  moreover have "arrived p \<le> 1" for p by (cases p) auto
  ultimately have "tally n arrived g < (\<Sum>u<n. 1)"
    unfolding tally_def using assms(2) by (intro sum_lower)
  then show False using assms(1) by simp
qed

lemma tally_cong: "(\<And>u. u < n \<Longrightarrow> f (g u) = f' (g u)) \<Longrightarrow> tally n f g = tally n f' g"
  by (simp add: tally_def)

lemma arrived_le: "tally n arrived g \<le> n"
proof -
  have "arrived p \<le> 1" for p by (cases p) auto
  then have "tally n arrived g \<le> (\<Sum>u<n. 1)" unfolding tally_def by (intro sum_mono)
  then show ?thesis by simp
qed

lemma holds_unique:
  assumes "tally n holds g \<le> 1" and "t < n" "u < n" and "holds (g t) = 1" "holds (g u) = 1"
  shows "u = t"
proof (rule ccontr)
  assume "u \<noteq> t"
  then have "1 \<le> tally n holds (g(t := SLock))" using tally_ge [of u n holds "g(t := SLock)"] assms by simp
  then show False using tally_upd [of t n holds g SLock] assms by simp
qed

lemma sb_inv_step:
  assumes inv: "sb_inv n b" and t: "t < n" and step: "sem_barrier_wait t b b'"
  shows "sb_inv n b'"
proof -
  note upd = tally_upd [OF t, of holds "spos b"] tally_upd [OF t, of arrived "spos b"]
    tally_upd [OF t, of "tokens n (sseen b)" "spos b"]
  have cnt: "scount b = int n" and hol: "tally n holds (spos b) + sem_mutex b = 1"
    and arr: "sseen b = int (tally n arrived (spos b))"
    and tok: "sem_barr b + tally n (tokens n (sseen b)) (spos b) = (if sseen b < int n then 0 else n)"
    and pos: "spos b u = SPost i \<Longrightarrow> 0 \<le> i" for u i
    using inv unfolding sb_inv_def by blast+
  show ?thesis using step
  proof (cases rule: sem_barrier_wait.cases)
    case sem_lock
    then show ?thesis using upd [of SInc] cnt hol arr tok pos unfolding sb_inv_def by (simp split: if_splits)
  next
    case sem_inc
    have more: "tally n arrived ((spos b)(t := SRead)) = Suc (tally n arrived (spos b))"
      using upd(2) [of SRead] sem_inc by simp
    then have room: "sseen b < int n" using arrived_le [of n "(spos b)(t := SRead)"] arr by simp
    have "tokens n (sseen b + 1) (spos b u) = tokens n (sseen b) (spos b u)" if "u < n" for u
      using holds_unique [of n "spos b" t u] hol t that sem_inc by (cases "spos b u") auto
    then have "tally n (tokens n (sseen b + 1)) (spos b) = tally n (tokens n (sseen b)) (spos b)"
      by (rule tally_cong)
    then show ?thesis
      using sem_inc more room tally_upd [OF t, of "tokens n (sseen b + 1)" "spos b" SRead]
        upd(1) [of SRead] cnt hol arr tok pos
      unfolding sb_inv_def by (simp split: if_splits)
  next
    case sem_read
    then show ?thesis using upd [of "SUnlock (sseen b)"] cnt hol arr tok pos
      unfolding sb_inv_def by (simp split: if_splits)
  next
    case (sem_unlock k)
    then show ?thesis using upd [of "SCheck k"] cnt hol arr tok pos
      unfolding sb_inv_def by (simp split: if_splits)
  next
    case (sem_check k)
    then show ?thesis using upd [of "if k \<ge> scount b then SPost 0 else SWait"] cnt hol arr tok pos
      unfolding sb_inv_def by (simp split: if_splits)
  next
    case (sem_post ii)
    then show ?thesis using upd [of "SPost (ii + 1)"] cnt hol arr tok pos [of t]
      unfolding sb_inv_def by (auto split: if_splits intro: pos)
  next
    case (sem_posted ii)
    then show ?thesis using upd [of SWait] cnt hol arr tok pos
      unfolding sb_inv_def by (simp split: if_splits)
  next
    case sem_wait
    then show ?thesis using upd [of SGone] cnt hol arr tok pos
      unfolding sb_inv_def by (simp split: if_splits)
  qed
qed

lemma sb_full:
  assumes inv: "sb_inv n b" and full: "int n \<le> sseen b" and u: "u < n"
  shows "sb_entered u b"
proof -
  have "n \<le> tally n arrived (spos b)" using inv full by (simp add: sb_inv_def)
  then have "arrived (spos b u) = 1" using u by (rule tally_full)
  then show ?thesis by (auto simp: sb_entered_def)
qed

lemma sb_gate:
  assumes inv: "sb_inv n b" and t: "t < n" "sb_left t b" and u: "u < n"
  shows "sb_entered u b"
proof -
  have "1 \<le> tally n (tokens n (sseen b)) (spos b)"
    using tally_ge [OF t(1), of "tokens n (sseen b)" "spos b"] t(2) by (simp add: sb_left_def)
  then have "int n \<le> sseen b" using inv by (auto simp: sb_inv_def split: if_splits)
  then show ?thesis using sb_full [OF inv _ u] by blast
qed

lemma sb_progress:
  assumes inv: "sb_inv n b" and t: "t < n" "\<not> sb_left t b"
  shows "\<exists>u<n. \<not> sb_left u b \<and> (\<exists>b'. sem_barrier_wait u b b')"
proof -
  have moves: ?thesis if "u < n" "\<exists>b'. sem_barrier_wait u b b'" for u
  proof -
    have "\<not> sb_left u b" using that(2) by (auto simp: sb_left_def elim: sem_barrier_wait.cases)
    then show ?thesis using that by blast
  qed
  show ?thesis
  proof (cases "\<exists>u<n. spos b u \<noteq> SLock \<and> spos b u \<noteq> SWait \<and> spos b u \<noteq> SGone")
    case True
    then obtain u where u: "u < n" "spos b u \<noteq> SLock" "spos b u \<noteq> SWait" "spos b u \<noteq> SGone" by blast
    have "\<exists>b'. sem_barrier_wait u b b'"
    proof (cases "spos b u")
      case (SPost i)
      then show ?thesis by (cases "i < scount b") (blast intro: sem_barrier_wait.intros)+
    qed (use u in \<open>blast intro: sem_barrier_wait.intros\<close>)+
    then show ?thesis using u(1) moves by blast
  next
    case False
    then have rest: "spos b u \<in> {SLock, SWait, SGone}" if "u < n" for u using that by blast
    have free: "sem_mutex b = 1"
    proof -
      have "tally n holds (spos b) = tally n (\<lambda>p. 0) (spos b)"
        using rest by (intro tally_cong) fastforce
      then show ?thesis using inv by (simp add: sb_inv_def tally_def)
    qed
    show ?thesis
    proof (cases "\<exists>u<n. spos b u = SLock")
      case True
      then show ?thesis using moves free by (metis sem_barrier_wait.sem_lock zero_less_one)
    next
      case False
      then have gone: "spos b u = SWait \<or> spos b u = SGone" if "u < n" for u using rest that by blast
      have "tally n arrived (spos b) = tally n (\<lambda>p. 1) (spos b)"
        using gone by (intro tally_cong) fastforce
      then have full: "sseen b = int n" using inv by (simp add: sb_inv_def tally_def)
      have wait: "spos b t = SWait" using gone t by (auto simp: sb_left_def)
      have "tally n (tokens n (sseen b)) (spos b) < (\<Sum>u<n. 1)"
        unfolding tally_def
      proof (intro sum_strict_mono_ex1)
        show "\<forall>u\<in>{..<n}. tokens n (sseen b) (spos b u) \<le> 1" using gone by fastforce
        show "\<exists>u\<in>{..<n}. tokens n (sseen b) (spos b u) < 1" using wait t(1) by (intro bexI [of _ t]) simp_all
      qed simp
      then have "0 < sem_barr b" using inv full by (simp add: sb_inv_def)
      then show ?thesis using moves t(1) wait by (blast intro: sem_barrier_wait.sem_wait)
    qed
  qed
qed

lemma sb_closer:
  assumes inv: "sb_inv n b" and t: "t < n" and step: "sem_barrier_wait t b b'"
  shows "sb_distance n b' < sb_distance n b"
proof -
  have "scount b = int n" "\<And>i. spos b t = SPost i \<Longrightarrow> 0 \<le> i" using inv by (auto simp: sb_inv_def)
  with step have "srank n (spos b' t) < srank n (spos b t)"
    by (cases rule: sem_barrier_wait.cases) auto
  moreover from step have "spos b' = (spos b)(t := spos b' t)"
    by (cases rule: sem_barrier_wait.cases) auto
  ultimately show ?thesis using tally_upd [OF t, of "srank n" "spos b" "spos b' t"]
    unfolding sb_distance_def by simp
qed

text \<open>Semaphores have no spurious wake-ups.\<close>

interpretation sb: barrier n "sem_make_barrier (int n)" sem_barrier_wait "\<lambda>b b'. False" sb_entered sb_left
  "sb_inv n" "sb_distance n"
proof
  show "sb_inv n (sem_make_barrier (int n))"
    by (simp add: sb_inv_def sem_make_barrier_def tally_def)
  show "\<not> sb_entered t (sem_make_barrier (int n))" "\<not> sb_left t (sem_make_barrier (int n))" for t
    by (simp_all add: sb_entered_def sb_left_def sem_make_barrier_def)
  show "sb_inv n b'" if "sb_inv n b" "t < n" "sem_barrier_wait t b b'" for t b b'
    using that by (rule sb_inv_step)
  show "sb_entered t b' \<and> \<not> sb_left t b" if "sem_barrier_wait t b b'" for t b b'
    using that by cases (auto simp: sb_entered_def sb_left_def)
  show "sb_entered u b' = sb_entered u b \<and> sb_left u b' = sb_left u b"
    if "sem_barrier_wait t b b'" "u \<noteq> t" for t b b' u
    using that by cases (auto simp: sb_entered_def sb_left_def)
  show "sb_entered u b" if "sb_inv n b" "t < n" "sb_left t b" "u < n" for b t u
    using that by (rule sb_gate)
  show "\<exists>u<n. \<not> sb_left u b \<and> (\<exists>b'. sem_barrier_wait u b b')"
    if "sb_inv n b" "t < n" "\<not> sb_left t b" for b t
    using that by (rule sb_progress)
  show "sb_distance n b' < sb_distance n b" if "sb_inv n b" "t < n" "sem_barrier_wait t b b'" for b t b'
    using that by (rule sb_closer)
qed simp_all

end
