(* ===== verification/FloatVec.thy ===== *)
theory FloatVec
  imports Prelude
begin

text \<open>
  The vectors of floats of the two sorting assignments: \<^verbatim>\<open>hw07-assignment/float_vec.c\<close>, and the
  functions of \<^verbatim>\<open>hw06-starter/float_vec.c\<close> that differ from it. A \<^verbatim>\<open>float\<close> is its IEEE 754 bit
  pattern, compared as C compares floats: a NaN compares false with everything, and the two
  zeros are equal. A slot of the data array is \<open>None\<close> while it is uninitialised memory.
\<close>

section \<open>Floats\<close>

type_synonym cfloat = "32 word"

definition f_mag :: "cfloat \<Rightarrow> int" where
  "f_mag w = uint (w AND 0x7FFFFFFF)"

definition f_nan :: "cfloat \<Rightarrow> bool" where
  "f_nan w \<longleftrightarrow> f_mag w > 0x7F800000"

definition f_val :: "cfloat \<Rightarrow> int" where
  "f_val w = (if bit w 31 then - f_mag w else f_mag w)"

definition f_lt :: "cfloat \<Rightarrow> cfloat \<Rightarrow> bool" where
  "f_lt a b \<longleftrightarrow> \<not> f_nan a \<and> \<not> f_nan b \<and> f_val a < f_val b"

definition f_le :: "cfloat \<Rightarrow> cfloat \<Rightarrow> bool" where
  "f_le a b \<longleftrightarrow> \<not> f_nan a \<and> \<not> f_nan b \<and> f_val a \<le> f_val b"

definition f_eq :: "cfloat \<Rightarrow> cfloat \<Rightarrow> bool" where
  "f_eq a b \<longleftrightarrow> \<not> f_nan a \<and> \<not> f_nan b \<and> f_val a = f_val b"

abbreviation F_ZERO :: cfloat where "F_ZERO \<equiv> 0"

definition F_INFINITY :: cfloat where
  "F_INFINITY = 0x7F800000"

text \<open>Conversion of a \<^verbatim>\<open>long\<close> to an \<^verbatim>\<open>int\<close>.\<close>

definition as_int :: "int \<Rightarrow> int" where
  "as_int x = signed_take_bit 31 x"

lemma as_int_id: "- (2 ^ 31) \<le> x \<Longrightarrow> x < 2 ^ 31 \<Longrightarrow> as_int x = x"
  unfolding as_int_def by (rule signed_take_bit_int_eq_self) simp_all

lemma as_int_nat: "k < 2 ^ 31 \<Longrightarrow> as_int (int k) = int k"
  by (simp add: as_int_id)

lemma f_consts [simp]:
  "f_val 0 = 0" "\<not> f_nan 0" "f_val F_INFINITY = 0x7F800000" "\<not> f_nan F_INFINITY"
  by (simp_all add: f_val_def f_nan_def f_mag_def F_INFINITY_def)

section \<open>The vector\<close>

record floats =
  fl_size :: int
  fl_cap :: int
  fl_data :: "cfloat option list"

definition slot_float :: "cfloat option \<Rightarrow> cfloat res" where
  "slot_float s = (case s of None \<Rightarrow> Inl Undefined | Some x \<Rightarrow> Inr x)"

definition fl_rd :: "floats \<Rightarrow> int \<Rightarrow> cfloat res" where
  "fl_rd fs i = bind_res (rd (fl_data fs) i) slot_float"

definition fl_wr :: "floats \<Rightarrow> int \<Rightarrow> cfloat \<Rightarrow> floats res" where
  "fl_wr fs i x = bind_res (wr (fl_data fs) i (Some x)) (\<lambda>d. Inr (fs\<lparr>fl_data := d\<rparr>))"

definition floats_make :: floats where
  "floats_make = \<lparr>fl_size = 0, fl_cap = 1, fl_data = [None]\<rparr>"

text \<open>\<^verbatim>\<open>realloc\<close> keeps the old contents; the rest of the new block is uninitialised.\<close>

definition realloc_floats :: "cfloat option list \<Rightarrow> int \<Rightarrow> cfloat option list" where
  "realloc_floats d n = take (nat n) d @ replicate (nat n - length d) None"

definition floats_push :: "floats \<Rightarrow> cfloat \<Rightarrow> floats res" where
  "floats_push xs xx =
     (let xs' = (if fl_size xs \<ge> fl_cap xs
                 then xs\<lparr>fl_cap := fl_cap xs * 2, fl_data := realloc_floats (fl_data xs) (fl_cap xs * 2)\<rparr>
                 else xs)
      in bind_res (fl_wr xs' (fl_size xs') xx) (\<lambda>xs''. Inr (xs''\<lparr>fl_size := fl_size xs'' + 1\<rparr>)))"

definition floats_size :: "floats \<Rightarrow> int" where
  "floats_size fs = as_int (fl_size fs)"

function floats_largest_loop :: "floats \<Rightarrow> int \<Rightarrow> cfloat \<Rightarrow> cfloat res" where
  "floats_largest_loop fs i largest =
     (if i < fl_size fs
      then bind_res (fl_rd fs i) (\<lambda>x. floats_largest_loop fs (i + 1) (if f_lt largest x then x else largest))
      else Inr largest)"
  by pat_completeness auto
termination
  by (relation "measure (\<lambda>(fs, i, l). nat (fl_size fs - i))") auto

definition floats_largest :: "floats \<Rightarrow> cfloat res" where
  "floats_largest fs = bind_res (fl_rd fs 0) (floats_largest_loop fs 0)"

function floats_smallest_loop :: "floats \<Rightarrow> int \<Rightarrow> cfloat \<Rightarrow> cfloat res" where
  "floats_smallest_loop fs i smallest =
     (if i < fl_size fs
      then bind_res (fl_rd fs i) (\<lambda>x. floats_smallest_loop fs (i + 1) (if f_lt x smallest then x else smallest))
      else Inr smallest)"
  by pat_completeness auto
termination
  by (relation "measure (\<lambda>(fs, i, l). nat (fl_size fs - i))") auto

definition floats_smallest :: "floats \<Rightarrow> cfloat res" where
  "floats_smallest fs = bind_res (fl_rd fs 0) (floats_smallest_loop fs 0)"

definition floats_get :: "floats \<Rightarrow> int \<Rightarrow> cfloat res" where
  "floats_get fs ii = (if ii \<ge> 0 \<and> ii < fl_size fs then fl_rd fs ii else Inl AssertFailed)"

definition floats_put :: "floats \<Rightarrow> int \<Rightarrow> cfloat \<Rightarrow> floats res" where
  "floats_put fs ii num = (if ii \<ge> 0 \<and> ii < fl_size fs then fl_wr fs ii num else Inl AssertFailed)"

definition floats_swap :: "floats \<Rightarrow> int \<Rightarrow> int \<Rightarrow> floats res" where
  "floats_swap fs ii jj =
     bind_res (floats_get fs ii) (\<lambda>slot1. bind_res (floats_get fs jj) (\<lambda>slot2.
     bind_res (fl_wr fs ii slot2) (\<lambda>fs'. fl_wr fs' jj slot1)))"

text \<open>\<^verbatim>\<open>floats_print\<close>: the values it formats, in order.\<close>

function floats_print_loop :: "floats \<Rightarrow> int \<Rightarrow> cfloat list res" where
  "floats_print_loop fs ii =
     (if ii < fl_size fs
      then bind_res (floats_get fs ii) (\<lambda>x.
           bind_res (floats_print_loop fs (ii + 1)) (\<lambda>xs. Inr (x # xs)))
      else Inr [])"
  by pat_completeness auto
termination
  by (relation "measure (\<lambda>(fs, i). nat (fl_size fs - i))") auto

definition floats_print :: "floats \<Rightarrow> cfloat list res" where
  "floats_print fs = floats_print_loop fs 0"

section \<open>The variant of hw06\<close>

text \<open>
  There \<^verbatim>\<open>floats_make\<close> clears the array, and \<^verbatim>\<open>floats_push\<close> copies the old array over the new one
  after \<^verbatim>\<open>realloc\<close>, when the old pointer is no longer valid.
\<close>

definition hw06_floats_make :: floats where
  "hw06_floats_make = \<lparr>fl_size = 0, fl_cap = 1, fl_data = [Some F_ZERO]\<rparr>"

definition hw06_floats_push :: "floats \<Rightarrow> cfloat \<Rightarrow> floats res" where
  "hw06_floats_push fs num =
     (let ii = fl_size fs
      in if fl_size fs \<ge> fl_cap fs then Inl Undefined
         else floats_put (fs\<lparr>fl_size := fl_size fs + 1\<rparr>) ii num)"

section \<open>The list a vector holds\<close>

definition fl_items :: "floats \<Rightarrow> cfloat list" where
  "fl_items fs = map the (take (nat (fl_size fs)) (fl_data fs))"

definition floats_ok :: "floats \<Rightarrow> bool" where
  "floats_ok fs \<longleftrightarrow>
     0 \<le> fl_size fs \<and> fl_size fs \<le> fl_cap fs \<and> length (fl_data fs) = nat (fl_cap fs) \<and>
     None \<notin> set (take (nat (fl_size fs)) (fl_data fs))"

declare floats_largest_loop.simps [simp del] floats_smallest_loop.simps [simp del]
  floats_print_loop.simps [simp del]

lemma length_fl_items: "floats_ok fs \<Longrightarrow> length (fl_items fs) = nat (fl_size fs)"
  by (auto simp: floats_ok_def fl_items_def min_def)

lemma fl_size_items: "floats_ok fs \<Longrightarrow> fl_size fs = int (length (fl_items fs))"
  by (simp add: length_fl_items floats_ok_def)

lemma fl_slot:
  assumes "floats_ok fs" and "i < length (fl_items fs)"
  shows "i < length (fl_data fs)" "fl_data fs ! i = Some (fl_items fs ! i)"
proof -
  have i: "i < nat (fl_size fs)" using assms by (simp add: length_fl_items)
  then show "i < length (fl_data fs)" using assms(1) by (auto simp: floats_ok_def)
  then have "fl_data fs ! i \<in> set (take (nat (fl_size fs)) (fl_data fs))"
    using i by (metis in_set_conv_nth length_take min_less_iff_conj nth_take)
  then have "fl_data fs ! i \<noteq> None" using assms(1) unfolding floats_ok_def by metis
  then show "fl_data fs ! i = Some (fl_items fs ! i)"
    using i \<open>i < length (fl_data fs)\<close> by (simp add: fl_items_def)
qed

lemma fl_rd_items:
  assumes "floats_ok fs" and "i < length (fl_items fs)"
  shows "fl_rd fs (int i) = Inr (fl_items fs ! i)"
  using fl_slot [OF assms] by (simp add: fl_rd_def slot_float_def)

lemma floats_get_items:
  assumes "floats_ok fs" and "i < length (fl_items fs)"
  shows "floats_get fs (int i) = Inr (fl_items fs ! i)"
  using fl_rd_items [OF assms] assms fl_size_items [OF assms(1)] by (simp add: floats_get_def)

lemma floats_make_ok: "floats_ok floats_make" "fl_items floats_make = []"
  by (simp_all add: floats_ok_def floats_make_def fl_items_def)

lemma floats_wr_items:
  assumes ok: "floats_ok fs" and i: "i < length (fl_items fs)"
  shows "\<exists>fs'. fl_wr fs (int i) x = Inr fs' \<and> floats_ok fs' \<and> fl_items fs' = (fl_items fs)[i := x] \<and>
           fl_size fs' = fl_size fs"
proof -
  have i': "i < nat (fl_size fs)" using ok i by (simp add: length_fl_items)
  let ?fs = "fs\<lparr>fl_data := (fl_data fs)[i := Some x]\<rparr>"
  have "fl_wr fs (int i) x = Inr ?fs" using fl_slot(1) [OF ok i] by (simp add: fl_wr_def)
  moreover have "floats_ok ?fs" using ok i'
    by (auto simp: floats_ok_def take_update_swap dest: set_update_subset_insert [THEN subsetD])
  moreover have "fl_items ?fs = (fl_items fs)[i := x]"
    by (simp add: fl_items_def take_update_swap map_update)
  ultimately show ?thesis by (intro exI [of _ ?fs]) simp
qed

lemma floats_push_items:
  assumes ok: "floats_ok fs" and cap: "0 < fl_cap fs"
  shows "\<exists>fs'. floats_push fs x = Inr fs' \<and> floats_ok fs' \<and> 0 < fl_cap fs' \<and>
           fl_items fs' = fl_items fs @ [x]"
proof -
  define g where "g = (if fl_size fs \<ge> fl_cap fs
     then fs\<lparr>fl_cap := fl_cap fs * 2, fl_data := realloc_floats (fl_data fs) (fl_cap fs * 2)\<rparr> else fs)"
  define k where "k = nat (fl_size fs)"
  have fs: "0 \<le> fl_size fs" "fl_size fs \<le> fl_cap fs" "length (fl_data fs) = nat (fl_cap fs)"
    "None \<notin> set (take k (fl_data fs))"
    using ok by (simp_all add: floats_ok_def k_def)
  have g: "fl_size g = int k" "fl_size g < fl_cap g" "length (fl_data g) = nat (fl_cap g)"
    "take k (fl_data g) = take k (fl_data fs)"
    using fs cap by (auto simp: g_def k_def realloc_floats_def)
  have in_data: "k < length (fl_data g)" using g by simp
  let ?h = "g\<lparr>fl_data := (fl_data g)[k := Some x], fl_size := int k + 1\<rparr>"
  have grown: "take (Suc k) ((fl_data g)[k := Some x]) = take k (fl_data fs) @ [Some x]"
    using in_data g(4) by (simp add: take_Suc_conv_app_nth)
  have "floats_push fs x = Inr ?h"
    using in_data g(1) by (simp add: floats_push_def Let_def fl_wr_def flip: g_def)
  moreover have "floats_ok ?h" using g fs(4) grown by (auto simp: floats_ok_def nat_add_distrib)
  moreover have "fl_items ?h = fl_items fs @ [x]"
    using grown by (simp add: fl_items_def nat_add_distrib flip: k_def)
  moreover have "0 < fl_cap ?h" using g by simp
  ultimately show ?thesis by blast
qed

lemma floats_largest_loop_max:
  assumes ok: "floats_ok fs" and nn: "\<forall>x\<in>set (fl_items fs). \<not> f_nan x" and l: "\<not> f_nan l"
    and i: "i \<le> length (fl_items fs)"
  shows "\<exists>m. floats_largest_loop fs (int i) l = Inr m \<and> m \<in> insert l (set (drop i (fl_items fs))) \<and>
           \<not> f_nan m \<and> (\<forall>x\<in>insert l (set (drop i (fl_items fs))). f_val x \<le> f_val m)"
  using l i
proof (induction "length (fl_items fs) - i" arbitrary: i l)
  case 0
  then show ?case using fl_size_items [OF ok]
    by (subst floats_largest_loop.simps) simp
next
  case (Suc k)
  then have i: "i < length (fl_items fs)" by simp
  let ?x = "fl_items fs ! i" and ?l = "if f_lt l (fl_items fs ! i) then fl_items fs ! i else l"
  have d: "drop i (fl_items fs) = ?x # drop (Suc i) (fl_items fs)" using i by (rule Cons_nth_drop_Suc [symmetric])
  have x: "\<not> f_nan ?x" using nn i by simp
  have "\<exists>m. floats_largest_loop fs (int (Suc i)) ?l = Inr m \<and>
          m \<in> insert ?l (set (drop (Suc i) (fl_items fs))) \<and> \<not> f_nan m \<and>
          (\<forall>x\<in>insert ?l (set (drop (Suc i) (fl_items fs))). f_val x \<le> f_val m)"
    using Suc x i by (intro Suc.hyps(1)) auto
  then obtain m where m: "floats_largest_loop fs (int (Suc i)) ?l = Inr m"
    "m \<in> insert ?l (set (drop (Suc i) (fl_items fs)))" "\<not> f_nan m"
    "\<forall>x\<in>insert ?l (set (drop (Suc i) (fl_items fs))). f_val x \<le> f_val m" by blast
  have "floats_largest_loop fs (int i) l = Inr m"
    using m(1) i fl_size_items [OF ok] fl_rd_items [OF ok i]
    by (subst floats_largest_loop.simps) (simp add: add.commute)
  moreover have "f_val ?x \<le> f_val ?l" "f_val l \<le> f_val ?l" using x Suc.prems(1) by (auto simp: f_lt_def)
  ultimately show ?case using m(2-4) d by (auto split: if_splits)
qed

text \<open>\<^verbatim>\<open>floats_largest\<close> returns a largest element of a vector that has one and holds no NaN.\<close>

lemma floats_largest_correct:
  assumes ok: "floats_ok fs" and ne: "fl_items fs \<noteq> []" and nn: "\<forall>x\<in>set (fl_items fs). \<not> f_nan x"
  shows "\<exists>m\<in>set (fl_items fs). floats_largest fs = Inr m \<and> (\<forall>x\<in>set (fl_items fs). f_val x \<le> f_val m)"
proof -
  have "hd (fl_items fs) \<in> set (fl_items fs)" using ne by simp
  moreover have "fl_rd fs 0 = Inr (hd (fl_items fs))"
    using fl_rd_items [OF ok, of 0] ne by (simp add: hd_conv_nth)
  ultimately show ?thesis
    using floats_largest_loop_max [OF ok nn, of "hd (fl_items fs)" 0] nn
    by (auto simp: floats_largest_def insert_absorb)
qed

end
