(* ===== verification/Tsort.thy ===== *)
theory Tsort
  imports Barrier FloatVec
begin

text \<open>
  The threaded sample sort of \<^verbatim>\<open>hw07-assignment/tsort.c\<close>. \<^verbatim>\<open>sample_sort\<close> draws samples, computes
  the bounds of the buckets and starts one thread per bucket; each thread collects the floats of
  its bucket from the shared array, sorts them, waits at the barrier and copies them back to its
  own part of the array. The threads are a step relation over the shared state: one step is one
  iteration of a loop, one library call, or one step inside \<^verbatim>\<open>barrier_wait\<close>, and any started
  thread may make the next step. An error of a thread is the position \<open>TFail\<close>. The barrier is the
  one of the theory \<^verbatim>\<open>Barrier\<close>; what the sort needs from it is proved inside the locale
  \<open>barrier\<close>, so it holds for every barrier that meets that contract.
\<close>

section \<open>The program\<close>

text \<open>The comparison function, and \<^verbatim>\<open>qsort\<close> with it: the elements in an order it accepts.\<close>

definition float_cmp :: "cfloat \<Rightarrow> cfloat \<Rightarrow> int" where
  "float_cmp a b = (if f_lt b a then 1 else if f_lt a b then -1 else 0)"

definition qsort_floats :: "floats \<Rightarrow> floats \<Rightarrow> bool" where
  "qsort_floats fs fs' \<longleftrightarrow>
     (let k = nat (fl_size fs)
      in fl_size fs' = fl_size fs \<and> fl_cap fs' = fl_cap fs \<and>
         length (fl_data fs') = length (fl_data fs) \<and>
         drop k (fl_data fs') = drop k (fl_data fs) \<and>
         mset (take k (fl_data fs')) = mset (take k (fl_data fs)) \<and>
         sorted_wrt (\<lambda>a b. float_cmp a b \<le> 0) (fl_items fs'))"

text \<open>
  The position of a thread in \<^verbatim>\<open>sort_worker\<close>: before its first statement; in the loop of
  \<^verbatim>\<open>in_range\<close> (bounds, the size read before the loop, index, the vector built so far); before the
  assignment to \<^verbatim>\<open>sizes\<close>; before \<^verbatim>\<open>qsort_floats\<close>; in \<^verbatim>\<open>barrier_wait\<close>; in the loop that adds up the
  sizes (index, sum); in \<^verbatim>\<open>memcpy\<close> (target, elements copied); returned; stopped by an error.
\<close>

datatype tpos =
    TStart
  | TScan cfloat cfloat int int floats
  | TSize floats
  | TSort floats
  | TBar floats
  | TSum int int floats
  | TCopy int int floats
  | TDone
  | TFail c_error

text \<open>The thread that runs \<^verbatim>\<open>sample_sort\<close>: its creation loop, its join loop, returned.\<close>

datatype mpos = MCreate int | MJoin int | MDone

record 'b tsort =
  ts_fs :: floats
  ts_sizes :: "int option list"
  ts_bar :: 'b
  ts_pos :: "nat \<Rightarrow> tpos"
  ts_main :: mpos

definition move :: "nat \<Rightarrow> tpos \<Rightarrow> 'b tsort \<Rightarrow> 'b tsort" where
  "move t p s = s\<lparr>ts_pos := (ts_pos s)(t := p)\<rparr>"

definition attempt :: "nat \<Rightarrow> 'a res \<Rightarrow> ('a \<Rightarrow> 'b tsort) \<Rightarrow> 'b tsort \<Rightarrow> 'b tsort" where
  "attempt t r f s = (case r of Inl e \<Rightarrow> move t (TFail e) s | Inr x \<Rightarrow> f x)"

definition worker_bounds :: "floats \<Rightarrow> nat \<Rightarrow> (cfloat \<times> cfloat) res" where
  "worker_bounds medians t =
     bind_res (floats_get medians (int t)) (\<lambda>start.
     bind_res (floats_get medians (int t + 1)) (\<lambda>end. Inr (start, end)))"

definition in_range_body :: "floats \<Rightarrow> cfloat \<Rightarrow> cfloat \<Rightarrow> int \<Rightarrow> floats \<Rightarrow> floats res" where
  "in_range_body fs start end i rng =
     bind_res (floats_get fs i) (\<lambda>test.
       if f_le start test \<and> f_lt test end then floats_push rng test else Inr rng)"

definition read_size :: "int option list \<Rightarrow> int \<Rightarrow> int res" where
  "read_size sizes i =
     bind_res (rd sizes i) (\<lambda>v. case v of None \<Rightarrow> Inl Undefined | Some k \<Rightarrow> Inr k)"

definition memcpy_elem :: "floats \<Rightarrow> floats \<Rightarrow> int \<Rightarrow> int \<Rightarrow> floats res" where
  "memcpy_elem fs rng cnt k = bind_res (fl_rd rng k) (fl_wr fs (cnt + k))"

inductive sort_worker ::
  "(nat \<Rightarrow> 'b \<Rightarrow> 'b \<Rightarrow> bool) \<Rightarrow> (nat \<Rightarrow> 'b \<Rightarrow> bool) \<Rightarrow> floats \<Rightarrow> nat \<Rightarrow> 'b tsort \<Rightarrow> 'b tsort \<Rightarrow> bool"
  for bstep left medians t where
  w_begin: "ts_pos s t = TStart \<Longrightarrow>
    sort_worker bstep left medians t s (attempt t (worker_bounds medians t)
      (\<lambda>(start, end). move t (TScan start end (floats_size (ts_fs s)) 0 floats_make) s) s)"
| w_scan: "ts_pos s t = TScan start end sz i rng \<Longrightarrow> i < sz \<Longrightarrow>
    sort_worker bstep left medians t s (attempt t (in_range_body (ts_fs s) start end i rng)
      (\<lambda>rng'. move t (TScan start end sz (i + 1) rng') s) s)"
| w_scanned: "ts_pos s t = TScan start end sz i rng \<Longrightarrow> \<not> i < sz \<Longrightarrow>
    sort_worker bstep left medians t s (move t (TSize rng) s)"
| w_size: "ts_pos s t = TSize rng \<Longrightarrow>
    sort_worker bstep left medians t s (attempt t (wr (ts_sizes s) (int t) (Some (fl_size rng)))
      (\<lambda>sizes. move t (TSort rng) (s\<lparr>ts_sizes := sizes\<rparr>)) s)"
| w_sort: "ts_pos s t = TSort rng \<Longrightarrow> qsort_floats rng rng' \<Longrightarrow>
    sort_worker bstep left medians t s (move t (TBar rng') s)"
| w_barrier: "ts_pos s t = TBar rng \<Longrightarrow> bstep t (ts_bar s) b \<Longrightarrow>
    sort_worker bstep left medians t s
      (move t (if left t b then TSum 0 0 rng else TBar rng) (s\<lparr>ts_bar := b\<rparr>))"
| w_sum: "ts_pos s t = TSum i cnt rng \<Longrightarrow> i < int t \<Longrightarrow>
    sort_worker bstep left medians t s (attempt t (read_size (ts_sizes s) i)
      (\<lambda>v. move t (TSum (i + 1) (as_int (cnt + v)) rng) s) s)"
| w_summed: "ts_pos s t = TSum i cnt rng \<Longrightarrow> \<not> i < int t \<Longrightarrow>
    sort_worker bstep left medians t s (move t (TCopy cnt 0 rng) s)"
| w_copy: "ts_pos s t = TCopy cnt k rng \<Longrightarrow> k < fl_size rng \<Longrightarrow>
    sort_worker bstep left medians t s (attempt t (memcpy_elem (ts_fs s) rng cnt k)
      (\<lambda>fs. move t (TCopy cnt (k + 1) rng) (s\<lparr>ts_fs := fs\<rparr>)) s)"
| w_copied: "ts_pos s t = TCopy cnt k rng \<Longrightarrow> \<not> k < fl_size rng \<Longrightarrow>
    sort_worker bstep left medians t s (move t TDone s)"

text \<open>\<^verbatim>\<open>pthread_create\<close> succeeds; \<^verbatim>\<open>pthread_join\<close> waits until the thread has returned.\<close>

inductive main_step :: "nat \<Rightarrow> 'b tsort \<Rightarrow> 'b tsort \<Rightarrow> bool" for num_threads where
  m_create: "ts_main s = MCreate i \<Longrightarrow> i < int num_threads \<Longrightarrow>
    main_step num_threads s (s\<lparr>ts_main := MCreate (i + 1)\<rparr>)"
| m_created: "ts_main s = MCreate i \<Longrightarrow> \<not> i < int num_threads \<Longrightarrow>
    main_step num_threads s (s\<lparr>ts_main := MJoin 0\<rparr>)"
| m_join: "ts_main s = MJoin i \<Longrightarrow> i < int num_threads \<Longrightarrow> ts_pos s (nat i) = TDone \<Longrightarrow>
    main_step num_threads s (s\<lparr>ts_main := MJoin (i + 1)\<rparr>)"
| m_joined: "ts_main s = MJoin i \<Longrightarrow> \<not> i < int num_threads \<Longrightarrow>
    main_step num_threads s (s\<lparr>ts_main := MDone\<rparr>)"

fun created :: "nat \<Rightarrow> mpos \<Rightarrow> nat" where
  "created n (MCreate i) = nat i"
| "created n p = n"

definition tsort_step ::
  "(nat \<Rightarrow> 'b \<Rightarrow> 'b \<Rightarrow> bool) \<Rightarrow> (nat \<Rightarrow> 'b \<Rightarrow> bool) \<Rightarrow> nat \<Rightarrow> floats \<Rightarrow> 'b tsort \<Rightarrow> 'b tsort \<Rightarrow> bool" where
  "tsort_step bstep left n medians s s' \<longleftrightarrow>
     main_step n s s' \<or> (\<exists>t<created n (ts_main s). sort_worker bstep left medians t s s')"

text \<open>Every state an interleaving can reach, spurious wake-ups included.\<close>

inductive tsort_reach ::
  "(nat \<Rightarrow> 'b \<Rightarrow> 'b \<Rightarrow> bool) \<Rightarrow> (nat \<Rightarrow> 'b \<Rightarrow> bool) \<Rightarrow> ('b \<Rightarrow> 'b \<Rightarrow> bool) \<Rightarrow> nat \<Rightarrow> floats \<Rightarrow>
     'b tsort \<Rightarrow> 'b tsort \<Rightarrow> bool"
  for bstep left spur n medians s0 where
  r_init: "tsort_reach bstep left spur n medians s0 s0"
| r_step: "tsort_reach bstep left spur n medians s0 s \<Longrightarrow> tsort_step bstep left n medians s s' \<Longrightarrow>
    tsort_reach bstep left spur n medians s0 s'"
| r_spur: "tsort_reach bstep left spur n medians s0 s \<Longrightarrow> spur (ts_bar s) b \<Longrightarrow>
    tsort_reach bstep left spur n medians s0 (s\<lparr>ts_bar := b\<rparr>)"

text \<open>
  The part of \<^verbatim>\<open>sample_sort\<close> before the threads: \<open>rnd i\<close> is the value of the \<open>i\<close>-th call of
  \<^verbatim>\<open>random()\<close>, never negative, and \<^verbatim>\<open>%\<close> by a size of zero is undefined.
\<close>

function sample_loop :: "(nat \<Rightarrow> int) \<Rightarrow> floats \<Rightarrow> int \<Rightarrow> int \<Rightarrow> floats \<Rightarrow> floats res" where
  "sample_loop rnd fs num_samples i sampled =
     (if i < num_samples
      then if fl_size fs = 0 then Inl Undefined
           else bind_res (floats_get fs (as_int (rnd (nat i) mod fl_size fs))) (\<lambda>x.
                bind_res (floats_push sampled x) (\<lambda>sampled'.
                sample_loop rnd fs num_samples (i + 1) sampled'))
      else Inr sampled)"
  by pat_completeness auto
termination
  by (relation "measure (\<lambda>(rnd, fs, n, i, sampled). nat (n - i))") auto

function medians_loop :: "floats \<Rightarrow> int \<Rightarrow> int \<Rightarrow> floats \<Rightarrow> floats res" where
  "medians_loop sampled num_samples i medians =
     (if i < num_samples
      then bind_res (floats_get sampled i) (\<lambda>x.
           bind_res (floats_push medians x) (\<lambda>medians'.
           medians_loop sampled num_samples (i + 3) medians'))
      else Inr medians)"
  by pat_completeness auto
termination
  by (relation "measure (\<lambda>(sampled, n, i, medians). nat (n - i))") auto

declare sample_loop.simps [simp del] medians_loop.simps [simp del]

definition make_medians :: "int \<Rightarrow> floats \<Rightarrow> floats res" where
  "make_medians num_samples sampled =
     bind_res (floats_push floats_make F_ZERO) (\<lambda>medians.
     bind_res (medians_loop sampled num_samples 1 medians) (\<lambda>medians'.
     floats_push medians' F_INFINITY))"

definition tsort_start :: "floats \<Rightarrow> nat \<Rightarrow> 'b \<Rightarrow> 'b tsort" where
  "tsort_start fs num_threads bb =
     \<lparr>ts_fs = fs, ts_sizes = replicate num_threads None, ts_bar = bb,
      ts_pos = (\<lambda>t. TStart), ts_main = MCreate 0\<rparr>"

text \<open>
  The whole of \<^verbatim>\<open>sample_sort\<close> up to the moment in which the state \<open>s\<close> is reached, with the barrier
  that \<^verbatim>\<open>main\<close> makes for it.
\<close>

inductive sample_sort :: "(nat \<Rightarrow> int) \<Rightarrow> floats \<Rightarrow> nat \<Rightarrow> floats \<Rightarrow> cond_barrier tsort \<Rightarrow> bool" where
  "num_samples = 3 * (int num_threads - 1) \<Longrightarrow>
   sample_loop rnd fs num_samples 0 floats_make = Inr sampled \<Longrightarrow>
   qsort_floats sampled sampled' \<Longrightarrow>
   make_medians num_samples sampled' = Inr medians \<Longrightarrow>
   tsort_reach barrier_wait cb_left spurious_wakeup num_threads medians
     (tsort_start fs num_threads (make_barrier (int num_threads))) s \<Longrightarrow>
   sample_sort rnd fs num_threads medians s"

text \<open>
  \<^verbatim>\<open>main\<close>: the vector it builds from the header and the contents of the input file. \<^verbatim>\<open>read\<close> stops
  at the end of the file, what it does not fill stays uninitialised.
\<close>

definition load_floats :: "int \<Rightarrow> cfloat list \<Rightarrow> floats" where
  "load_floats num_floats contents =
     (let k = nat num_floats
      in \<lparr>fl_size = num_floats, fl_cap = num_floats,
          fl_data = map Some (take k contents) @ replicate (k - length contents) None\<rparr>)"

text \<open>
  \<^verbatim>\<open>tools/check-sorted.c\<close>: the exit code for a file with the header \<open>cnt\<close> and the given floats. A
  short file fails the assertion after \<^verbatim>\<open>fread\<close>.
\<close>

fun check_loop :: "cfloat list \<Rightarrow> nat \<Rightarrow> cfloat \<Rightarrow> int \<Rightarrow> (int \<times> int) res" where
  "check_loop nums 0 prev zeros = Inr (0, zeros)"
| "check_loop [] (Suc k) prev zeros = Inl AssertFailed"
| "check_loop (num # nums) (Suc k) prev zeros =
     (let zeros' = (if f_eq num F_ZERO then zeros + 1 else zeros)
      in if f_lt num prev then Inr (1, zeros') else check_loop nums k num zeros')"

definition check_sorted :: "int \<Rightarrow> cfloat list \<Rightarrow> int res" where
  "check_sorted cnt nums =
     (if cnt = 0 then Inr 1
      else bind_res (check_loop nums (nat cnt) F_ZERO 0) (\<lambda>(code, zeros).
           Inr (if zeros > cnt div 2 then 1 else code)))"

section \<open>Buckets\<close>

definition in_bucket :: "cfloat list \<Rightarrow> nat \<Rightarrow> cfloat \<Rightarrow> bool" where
  "in_bucket M t x \<longleftrightarrow> f_le (M ! t) x \<and> f_lt x (M ! Suc t)"

definition bucket :: "cfloat list \<Rightarrow> cfloat list \<Rightarrow> nat \<Rightarrow> cfloat list" where
  "bucket M xs t = filter (in_bucket M t) xs"

definition bucket_start :: "cfloat list \<Rightarrow> cfloat list \<Rightarrow> nat \<Rightarrow> nat" where
  "bucket_start M xs t = (\<Sum>j<t. length (bucket M xs j))"

definition ordered :: "cfloat list \<Rightarrow> bool" where
  "ordered ys \<longleftrightarrow> sorted_wrt (\<lambda>a b. f_val a \<le> f_val b) ys"

lemma bucket_start_simps [simp]:
  "bucket_start M xs 0 = 0"
  "bucket_start M xs (Suc t) = bucket_start M xs t + length (bucket M xs t)"
  by (simp_all add: bucket_start_def)

lemma bucket_start_mono: "t \<le> u \<Longrightarrow> bucket_start M xs t \<le> bucket_start M xs u"
  unfolding bucket_start_def by (intro sum_mono2) auto

lemma bucket_end: "t < n \<Longrightarrow> bucket_start M xs t + length (bucket M xs t) \<le> bucket_start M xs n"
  using bucket_start_mono [of "Suc t" n M xs] by simp

text \<open>The parts of the array that two buckets occupy do not overlap.\<close>

lemma buckets_apart:
  assumes "t \<noteq> u" and "j < length (bucket M xs u)" and "k < length (bucket M xs t)"
  shows "bucket_start M xs u + j \<noteq> bucket_start M xs t + k"
  using assms bucket_end [of u t M xs] bucket_end [of t u M xs] by (cases "u < t") auto

definition bounds_ok :: "cfloat list \<Rightarrow> bool" where
  "bounds_ok M \<longleftrightarrow> (\<forall>x\<in>set M. \<not> f_nan x) \<and> ordered (tl M)"

lemma bounds_later:
  assumes "bounds_ok M" and "0 < i" and "i \<le> j" and "j < length M"
  shows "f_val (M ! i) \<le> f_val (M ! j)"
proof (cases "i = j")
  case False
  then have "f_val (tl M ! (i - 1)) \<le> f_val (tl M ! (j - 1))"
    using assms sorted_wrt_nth_less [of "\<lambda>a b. f_val a \<le> f_val b" "tl M" "i - 1" "j - 1"]
    by (simp add: bounds_ok_def ordered_def)
  then show ?thesis using assms by (simp add: nth_tl)
qed simp

text \<open>A float is in one bucket at most, since the bounds after the first one increase.\<close>

lemma in_bucket_unique:
  assumes M: "bounds_ok M" "length M = Suc n" and "t < n" "u < n" and "in_bucket M t x" "in_bucket M u x"
  shows "t = u"
proof (rule ccontr)
  have False if "a < b" "b < n" "in_bucket M a x" "in_bucket M b x" for a b
    using bounds_later [OF M(1), of "Suc a" b] M(2) that by (auto simp: in_bucket_def f_le_def f_lt_def)
  then show "t \<noteq> u \<Longrightarrow> False" using assms by (metis nat_neq_iff)
qed

lemma buckets_fit:
  assumes M: "bounds_ok M" "length M = Suc n"
  shows "bucket_start M xs n \<le> length xs"
proof (induction xs)
  case (Cons x xs)
  have "bucket_start M (x # xs) n = bucket_start M xs n + (\<Sum>j<n. if in_bucket M j x then 1 else 0)"
    unfolding bucket_start_def bucket_def by (simp add: sum.distrib [symmetric] if_distrib cong: sum.cong if_cong)
  also have "(\<Sum>j<n. if in_bucket M j x then 1 else 0) = card {j. j < n \<and> in_bucket M j x}"
    by (simp add: sum.If_cases Int_def lessThan_def)
  also have "card {j. j < n \<and> in_bucket M j x} \<le> 1"
    using in_bucket_unique [OF M] by (simp add: card_le_Suc0_iff_eq) blast
  finally show ?case using Cons.IH by simp
qed (simp add: bucket_start_def bucket_def)

text \<open>Bounds that increase from zero to infinity put every finite float that is not negative in a bucket.\<close>

definition sortable :: "cfloat \<Rightarrow> bool" where
  "sortable x \<longleftrightarrow> f_le F_ZERO x \<and> f_lt x F_INFINITY"

lemma bucket_exists:
  assumes M: "\<forall>x\<in>set M. \<not> f_nan x" "length M = Suc n" and x: "f_le (M ! 0) x" "f_lt x (M ! n)"
  shows "\<exists>t<n. in_bucket M t x"
proof -
  define k where "k = (LEAST k. f_lt x (M ! k))"
  have k: "f_lt x (M ! k)" "k \<le> n" unfolding k_def using x(2) by (auto intro: LeastI Least_le)
  have "k \<noteq> 0" using k(1) x(1) by (auto simp: f_lt_def f_le_def intro: Nat.gr0I)
  then obtain t where t: "k = Suc t" by (cases k) auto
  then have "\<not> f_lt x (M ! t)" using not_less_Least [of t "\<lambda>k. f_lt x (M ! k)"] by (simp add: k_def)
  moreover have "\<not> f_nan (M ! t)" using M t k(2) by simp
  ultimately have "in_bucket M t x" using k(1) t by (auto simp: in_bucket_def f_lt_def f_le_def)
  then show ?thesis using t k(2) by (intro exI [of _ t]) simp
qed

lemma bucket_concat:
  assumes M: "bounds_ok M" "length M = Suc n" and x: "\<forall>x\<in>set xs. f_le (M ! 0) x \<and> f_lt x (M ! n)"
  shows "mset (concat (map (bucket M xs) [0..<n])) = mset xs"
proof -
  have "mset (concat (map (bucket M xs) [0..<n])) = (\<Sum>t<n. filter_mset (in_bucket M t) (mset xs))"
    by (simp add: mset_concat bucket_def sum_list_distinct_conv_sum_set comp_def atLeast0LessThan [symmetric]
        interv_sum_list_conv_sum_set_nat)
  also have "\<dots> = mset xs"
    using x
  proof (induction xs)
    case (Cons y ys)
    obtain t where t: "t < n" "in_bucket M t y"
      using bucket_exists [of M n y] Cons.prems M by (auto simp: bounds_ok_def)
    then have only: "in_bucket M u y \<longleftrightarrow> u = t" if "u < n" for u
      using in_bucket_unique [OF M that t(1)] by blast
    have "(\<Sum>u<n. filter_mset (in_bucket M u) (mset (y # ys))) =
            (\<Sum>u<n. filter_mset (in_bucket M u) (mset ys) + (if u = t then {#y#} else {#}))"
      using only by (intro sum.cong) auto
    then show ?case using Cons t(1) by (simp add: sum.distrib)
  qed simp
  finally show ?thesis .
qed

section \<open>The invariant\<close>

text \<open>
  What the position of thread \<open>t\<close> says about its own vector, its entry of \<^verbatim>\<open>sizes\<close> and its part of
  the array \<open>d\<close>: \<open>xs\<close> is the input, \<open>M\<close> the bounds of the buckets.
\<close>

definition collected :: "floats \<Rightarrow> cfloat list \<Rightarrow> bool" where
  "collected r ys \<longleftrightarrow> floats_ok r \<and> 0 < fl_cap r \<and> fl_items r = ys"

definition sorted_bucket :: "cfloat list \<Rightarrow> cfloat list \<Rightarrow> nat \<Rightarrow> cfloat list \<Rightarrow> bool" where
  "sorted_bucket M xs t ys \<longleftrightarrow> ordered ys \<and> mset ys = mset (bucket M xs t)"

definition size_known :: "cfloat list \<Rightarrow> cfloat list \<Rightarrow> int option list \<Rightarrow> nat \<Rightarrow> bool" where
  "size_known M xs sz t \<longleftrightarrow> sz ! t = Some (int (length (bucket M xs t)))"

definition placed :: "cfloat list \<Rightarrow> nat \<Rightarrow> nat \<Rightarrow> cfloat list \<Rightarrow> bool" where
  "placed d start k ys \<longleftrightarrow> (\<forall>j<k. d ! (start + j) = ys ! j)"

fun worker_ok :: "cfloat list \<Rightarrow> cfloat list \<Rightarrow> cfloat list \<Rightarrow> int option list \<Rightarrow> nat \<Rightarrow> tpos \<Rightarrow> bool" where
  "worker_ok M xs d sz t TStart = True"
| "worker_ok M xs d sz t (TScan start end n i r) \<longleftrightarrow>
     start = M ! t \<and> end = M ! Suc t \<and> n = int (length xs) \<and> 0 \<le> i \<and> i \<le> n \<and>
     collected r (filter (in_bucket M t) (take (nat i) xs))"
| "worker_ok M xs d sz t (TSize r) \<longleftrightarrow> collected r (bucket M xs t)"
| "worker_ok M xs d sz t (TSort r) \<longleftrightarrow> collected r (bucket M xs t) \<and> size_known M xs sz t"
| "worker_ok M xs d sz t (TBar r) \<longleftrightarrow>
     floats_ok r \<and> sorted_bucket M xs t (fl_items r) \<and> size_known M xs sz t"
| "worker_ok M xs d sz t (TSum i c r) \<longleftrightarrow>
     floats_ok r \<and> sorted_bucket M xs t (fl_items r) \<and> size_known M xs sz t \<and>
     0 \<le> i \<and> i \<le> int t \<and> c = int (bucket_start M xs (nat i))"
| "worker_ok M xs d sz t (TCopy c k r) \<longleftrightarrow>
     floats_ok r \<and> sorted_bucket M xs t (fl_items r) \<and> size_known M xs sz t \<and>
     c = int (bucket_start M xs t) \<and> 0 \<le> k \<and> k \<le> fl_size r \<and>
     placed d (bucket_start M xs t) (nat k) (fl_items r)"
| "worker_ok M xs d sz t TDone \<longleftrightarrow>
     size_known M xs sz t \<and>
     (\<exists>ys. sorted_bucket M xs t ys \<and> placed d (bucket_start M xs t) (length ys) ys)"
| "worker_ok M xs d sz t (TFail e) = False"

fun not_yet :: "tpos \<Rightarrow> bool" where
  "not_yet (TBar r) = False"
| "not_yet (TSum i c r) = False"
| "not_yet (TCopy c k r) = False"
| "not_yet TDone = False"
| "not_yet p = True"

fun past_barrier :: "tpos \<Rightarrow> bool" where
  "past_barrier (TSum i c r) = True"
| "past_barrier (TCopy c k r) = True"
| "past_barrier TDone = True"
| "past_barrier p = False"

fun main_ok :: "nat \<Rightarrow> (nat \<Rightarrow> tpos) \<Rightarrow> mpos \<Rightarrow> bool" where
  "main_ok n pos (MCreate i) \<longleftrightarrow> 0 \<le> i \<and> i \<le> int n \<and> (\<forall>t. i \<le> int t \<longrightarrow> pos t = TStart)"
| "main_ok n pos (MJoin i) \<longleftrightarrow> 0 \<le> i \<and> i \<le> int n \<and> (\<forall>t. int t < i \<longrightarrow> pos t = TDone)"
| "main_ok n pos MDone \<longleftrightarrow> (\<forall>t<n. pos t = TDone)"

definition tsort_inv ::
  "nat \<Rightarrow> (nat \<Rightarrow> 'b \<Rightarrow> bool) \<Rightarrow> (nat \<Rightarrow> 'b \<Rightarrow> bool) \<Rightarrow> ('b \<Rightarrow> bool) \<Rightarrow> cfloat list \<Rightarrow> cfloat list \<Rightarrow> 'b tsort \<Rightarrow> bool" where
  "tsort_inv n entered left binv M xs s \<longleftrightarrow>
     binv (ts_bar s) \<and> main_ok n (ts_pos s) (ts_main s) \<and>
     floats_ok (ts_fs s) \<and> length (fl_items (ts_fs s)) = length xs \<and> length (ts_sizes s) = n \<and>
     (\<forall>t<n. worker_ok M xs (fl_items (ts_fs s)) (ts_sizes s) t (ts_pos s t) \<and>
            (not_yet (ts_pos s t) \<longrightarrow> \<not> entered t (ts_bar s)) \<and>
            (left t (ts_bar s) \<longleftrightarrow> past_barrier (ts_pos s t))) \<and>
     (\<forall>j. bucket_start M xs n \<le> j \<longrightarrow> j < length xs \<longrightarrow> fl_items (ts_fs s) ! j = xs ! j) \<and>
     ((\<forall>t<n. \<not> left t (ts_bar s)) \<longrightarrow> fl_items (ts_fs s) = xs)"

lemma move_simps [simp]:
  "ts_fs (move t p s) = ts_fs s" "ts_sizes (move t p s) = ts_sizes s" "ts_bar (move t p s) = ts_bar s"
  "ts_main (move t p s) = ts_main s" "ts_pos (move t p s) = (ts_pos s)(t := p)"
  by (simp_all add: move_def)

lemma attempt_simps [simp]: "attempt t (Inr x) f s = f x" "attempt t (Inl e) f s = move t (TFail e) s"
  by (simp_all add: attempt_def)

text \<open>
  The position of a thread depends on the shared state only through its entry of \<^verbatim>\<open>sizes\<close> and its
  part of the array.
\<close>

lemma worker_ok_frame:
  assumes "worker_ok M xs d sz t p" and "sz' ! t = sz ! t"
    and "\<And>j. j < length (bucket M xs t) \<Longrightarrow> d' ! (bucket_start M xs t + j) = d ! (bucket_start M xs t + j)"
  shows "worker_ok M xs d' sz' t p"
proof -
  have len: "length ys = length (bucket M xs t)" if "sorted_bucket M xs t ys" for ys
    using that unfolding sorted_bucket_def by (metis size_mset)
  have cp: "nat k \<le> length (bucket M xs t)"
    if "k \<le> fl_size r" "floats_ok r" "sorted_bucket M xs t (fl_items r)" for k r
    using that len [OF that(3)] fl_size_items [OF that(2)] by simp
  have pl: "placed d' (bucket_start M xs t) k ys"
    if "placed d (bucket_start M xs t) k ys" "k \<le> length (bucket M xs t)" for k ys
    using that assms(3) by (simp add: placed_def)
  show ?thesis using assms(1,2)
  proof (cases p)
    case (TCopy c k r)
    then show ?thesis using assms(1,2) pl [of "nat k"] cp [of k r] by (simp add: size_known_def)
  next
    case TDone
    then show ?thesis using assms(1,2) pl len by (fastforce simp: size_known_def)
  qed (simp_all add: size_known_def)
qed

text \<open>The threads move one at a time; this is all that a move of thread \<open>t\<close> has to show.\<close>

lemma main_ok_move:
  assumes "main_ok n pos m" and "t < created n m" and "pos t \<noteq> TDone"
  shows "main_ok n (pos(t := p)) m"
  using assms by (cases m) auto

lemma created_le: "main_ok n pos m \<Longrightarrow> created n m \<le> n"
  by (cases m) auto

lemma tsort_invD:
  assumes "tsort_inv n entered left binv M xs s"
  shows "binv (ts_bar s)" "main_ok n (ts_pos s) (ts_main s)" "floats_ok (ts_fs s)"
    "length (fl_items (ts_fs s)) = length xs" "length (ts_sizes s) = n"
    "t < n \<Longrightarrow> worker_ok M xs (fl_items (ts_fs s)) (ts_sizes s) t (ts_pos s t)"
    "t < n \<Longrightarrow> not_yet (ts_pos s t) \<Longrightarrow> \<not> entered t (ts_bar s)"
    "t < n \<Longrightarrow> left t (ts_bar s) \<longleftrightarrow> past_barrier (ts_pos s t)"
    "bucket_start M xs n \<le> j \<Longrightarrow> j < length xs \<Longrightarrow> fl_items (ts_fs s) ! j = xs ! j"
    "(\<And>t. t < n \<Longrightarrow> \<not> left t (ts_bar s)) \<Longrightarrow> fl_items (ts_fs s) = xs"
  using assms unfolding tsort_inv_def by blast+

lemma tsort_inv_move:
  assumes inv: "tsort_inv n entered left binv M xs s" and t: "t < n"
    and main: "main_ok n (ts_pos s') (ts_main s')"
    and pos: "ts_pos s' = (ts_pos s)(t := p)"
    and bar: "binv (ts_bar s')"
    and others: "\<And>u. u \<noteq> t \<Longrightarrow> entered u (ts_bar s') = entered u (ts_bar s) \<and>
      left u (ts_bar s') = left u (ts_bar s) \<and> ts_sizes s' ! u = ts_sizes s ! u"
    and fs: "floats_ok (ts_fs s')" "length (fl_items (ts_fs s')) = length xs" "length (ts_sizes s') = n"
    and own: "worker_ok M xs (fl_items (ts_fs s')) (ts_sizes s') t p"
      "not_yet p \<Longrightarrow> \<not> entered t (ts_bar s')" "left t (ts_bar s') \<longleftrightarrow> past_barrier p"
    and parts: "\<And>u j. u < n \<Longrightarrow> u \<noteq> t \<Longrightarrow> j < length (bucket M xs u) \<Longrightarrow>
      fl_items (ts_fs s') ! (bucket_start M xs u + j) = fl_items (ts_fs s) ! (bucket_start M xs u + j)"
    and tail: "\<And>j. bucket_start M xs n \<le> j \<Longrightarrow> fl_items (ts_fs s') ! j = fl_items (ts_fs s) ! j"
    and start: "\<not> left t (ts_bar s') \<Longrightarrow> fl_items (ts_fs s') = fl_items (ts_fs s) \<and> \<not> left t (ts_bar s)"
  shows "tsort_inv n entered left binv M xs s'"
  unfolding tsort_inv_def
proof (intro conjI allI impI)
  fix u assume u: "u < n"
  show "worker_ok M xs (fl_items (ts_fs s')) (ts_sizes s') u (ts_pos s' u)"
  proof (cases "u = t")
    case False
    then show ?thesis using tsort_invD(6) [OF inv u] others [OF False] parts [OF u False] pos
      by (auto intro: worker_ok_frame)
  qed (simp add: pos own)
  show "\<not> entered u (ts_bar s')" if "not_yet (ts_pos s' u)"
    using that tsort_invD(7) [OF inv u] others [of u] pos own by (cases "u = t") auto
  show "left u (ts_bar s') \<longleftrightarrow> past_barrier (ts_pos s' u)"
    using tsort_invD(8) [OF inv u] others [of u] pos own by (cases "u = t") auto
next
  assume none: "\<forall>u<n. \<not> left u (ts_bar s')"
  then have "\<not> left u (ts_bar s)" if "u < n" for u using others [of u] start t that by (cases "u = t") auto
  then show "fl_items (ts_fs s') = xs" using tsort_invD(10) [OF inv] start none t by simp
qed (use main bar fs tail tsort_invD(9) [OF inv] in auto)

text \<open>A move that only changes the position of the thread.\<close>

lemma tsort_inv_local:
  assumes inv: "tsort_inv n entered left binv M xs s" and t: "t < created n (ts_main s)"
    and own: "worker_ok M xs (fl_items (ts_fs s)) (ts_sizes s) t p"
    and phase: "not_yet p \<Longrightarrow> not_yet (ts_pos s t)" "past_barrier p \<longleftrightarrow> past_barrier (ts_pos s t)"
    and going: "ts_pos s t \<noteq> TDone"
  shows "tsort_inv n entered left binv M xs (move t p s)"
proof -
  note D = tsort_invD [OF inv]
  have tn: "t < n" using t created_le [OF D(2)] by simp
  show ?thesis
    by (rule tsort_inv_move [OF inv tn, where p = p])
       (use D own phase tn main_ok_move [OF D(2) t going] in auto)
qed

lemma qsort_floats_ok:
  assumes sorted: "qsort_floats r r'" and ok: "floats_ok r" and nn: "\<forall>x\<in>set (fl_items r). \<not> f_nan x"
  shows "floats_ok r' \<and> mset (fl_items r') = mset (fl_items r) \<and> ordered (fl_items r')"
proof -
  let ?k = "nat (fl_size r)"
  have q: "fl_size r' = fl_size r" "fl_cap r' = fl_cap r" "length (fl_data r') = length (fl_data r)"
    "mset (take ?k (fl_data r')) = mset (take ?k (fl_data r))"
    "sorted_wrt (\<lambda>a b. float_cmp a b \<le> 0) (fl_items r')"
    using sorted by (simp_all add: qsort_floats_def Let_def)
  have items: "mset (fl_items r') = mset (fl_items r)" using q by (simp add: fl_items_def)
  then have set: "set (fl_items r') = set (fl_items r)" by (rule mset_eq_setD)
  have "f_val a \<le> f_val b" if "a \<in> set (fl_items r')" "b \<in> set (fl_items r')" "float_cmp a b \<le> 0" for a b
    using that nn set by (auto simp: float_cmp_def f_lt_def split: if_splits)
  then have "ordered (fl_items r')" using sorted_wrt_mono_rel [OF _ q(5)] by (auto simp: ordered_def)
  moreover have "floats_ok r'" using ok q mset_eq_setD [OF q(4)] by (simp add: floats_ok_def)
  ultimately show ?thesis using items by simp
qed

lemma bucket_no_nan: "x \<in> set (bucket M xs t) \<Longrightarrow> \<not> f_nan x"
  by (auto simp: bucket_def in_bucket_def f_lt_def)

section \<open>Every step keeps the invariant\<close>

definition tsort_pre :: "nat \<Rightarrow> floats \<Rightarrow> cfloat list \<Rightarrow> cfloat list \<Rightarrow> bool" where
  "tsort_pre n medians M xs \<longleftrightarrow>
     floats_ok medians \<and> fl_items medians = M \<and> length M = Suc n \<and>
     length xs < 2 ^ 31 \<and> bucket_start M xs n \<le> length xs"

lemma worker_bounds_ok:
  assumes "tsort_pre n medians M xs" and "t < n"
  shows "worker_bounds medians t = Inr (M ! t, M ! Suc t)"
  using assms floats_get_items [of medians t] floats_get_items [of medians "Suc t"]
  by (simp add: tsort_pre_def worker_bounds_def add.commute)

lemma in_range_body_ok:
  assumes fs: "floats_ok fs" "fl_items fs = xs" and i: "i < length xs"
    and r: "collected r (filter (in_bucket M t) (take i xs))"
  shows "\<exists>r'. in_range_body fs (M ! t) (M ! Suc t) (int i) r = Inr r' \<and>
           collected r' (filter (in_bucket M t) (take (Suc i) xs))"
proof -
  have get: "floats_get fs (int i) = Inr (xs ! i)" using floats_get_items [of fs i] fs i by simp
  have "floats_ok r" "0 < fl_cap r" using r by (simp_all add: collected_def)
  then show ?thesis
    using get r floats_push_items [of r "xs ! i"] i
    by (auto simp: in_range_body_def collected_def in_bucket_def take_Suc_conv_app_nth)
qed

lemma memcpy_elem_ok:
  assumes fs: "floats_ok fs" and r: "floats_ok r" and k: "k < length (fl_items r)"
    and room: "c + k < length (fl_items fs)"
  shows "\<exists>fs'. memcpy_elem fs r (int c) (int k) = Inr fs' \<and> floats_ok fs' \<and>
           fl_items fs' = (fl_items fs)[c + k := fl_items r ! k]"
proof -
  have "fl_rd r (int k) = Inr (fl_items r ! k)" by (rule fl_rd_items [OF r k])
  moreover have "int c + int k = int (c + k)" by simp
  ultimately show ?thesis using floats_wr_items [OF fs room] unfolding memcpy_elem_def
    by (metis bind_res_simps(2))
qed

text \<open>How far a thread and the main thread are from the end, for \<open>N\<close> floats and \<open>n\<close> threads.\<close>

fun trank :: "nat \<Rightarrow> nat \<Rightarrow> tpos \<Rightarrow> nat" where
  "trank N n TStart = 7 + 2 * N + n"
| "trank N n (TScan start end sz i r) = 6 + N + n + nat (sz - i)"
| "trank N n (TSize r) = 5 + N + n"
| "trank N n (TSort r) = 4 + N + n"
| "trank N n (TBar r) = 3 + N + n"
| "trank N n (TSum i c r) = 2 + N + nat (int n - i)"
| "trank N n (TCopy c k r) = 1 + nat (fl_size r - k)"
| "trank N n TDone = 0"
| "trank N n (TFail e) = 0"

fun mrank :: "nat \<Rightarrow> mpos \<Rightarrow> nat" where
  "mrank n (MCreate i) = n + 2 + nat (int n - i)"
| "mrank n (MJoin i) = 1 + nat (int n - i)"
| "mrank n MDone = 0"

definition tsort_distance :: "nat \<Rightarrow> nat \<Rightarrow> ('b \<Rightarrow> nat) \<Rightarrow> 'b tsort \<Rightarrow> nat" where
  "tsort_distance N n distance s =
     mrank n (ts_main s) + tally n (trank N n) (ts_pos s) + distance (ts_bar s)"

lemma sorted_bucket_size:
  assumes "floats_ok r" and "sorted_bucket M xs t (fl_items r)"
  shows "fl_size r = int (length (bucket M xs t))"
proof -
  have "length (fl_items r) = length (bucket M xs t)"
    using assms(2) unfolding sorted_bucket_def by (metis size_mset)
  then show ?thesis using fl_size_items [OF assms(1)] by simp
qed

lemma trank_step:
  assumes own: "worker_ok M xs d sz t (ts_pos s t)" and t: "t < n"
    and sz: "floats_size (ts_fs s) = int (length xs)"
    and step: "sort_worker bstep left medians t s s'" and ok: "\<And>e. ts_pos s' t \<noteq> TFail e"
  shows "trank (length xs) n (ts_pos s' t) < trank (length xs) n (ts_pos s t) \<and> ts_bar s' = ts_bar s \<or>
    bstep t (ts_bar s) (ts_bar s') \<and>
    trank (length xs) n (ts_pos s' t) \<le> trank (length xs) n (ts_pos s t)"
proof -
  have b: "length (bucket M xs t) \<le> length xs" by (simp add: bucket_def)
  show ?thesis using step
  proof (cases rule: sort_worker.cases)
    case w_begin
    then show ?thesis using ok sz
      by (cases "worker_bounds medians t") (auto simp: attempt_def)
  next
    case (w_scan start "end" sz i r)
    then show ?thesis using ok
      by (cases "in_range_body (ts_fs s) start end i r") (auto simp: attempt_def)
  next
    case (w_size r)
    then show ?thesis using ok
      by (cases "wr (ts_sizes s) (int t) (Some (fl_size r))") (auto simp: attempt_def)
  next
    case (w_sum i c r)
    then show ?thesis using ok t
      by (cases "read_size (ts_sizes s) i") (auto simp: attempt_def)
  next
    case (w_summed i c r)
    then have "nat (fl_size r) \<le> length xs" using own b sorted_bucket_size [of r M xs t] by simp
    then show ?thesis using w_summed by simp
  next
    case (w_copy c k r)
    then show ?thesis using ok
      by (cases "memcpy_elem (ts_fs s) r c k") (auto simp: attempt_def)
  qed auto
qed

lemma worker_frame:
  assumes "sort_worker bstep left medians t s s'"
  shows "ts_pos s' = (ts_pos s)(t := ts_pos s' t)" "ts_main s' = ts_main s"
  using assms by (cases rule: sort_worker.cases; auto simp: attempt_def split: sum.splits prod.splits)+

context barrier
begin

abbreviation tinv :: "cfloat list \<Rightarrow> cfloat list \<Rightarrow> 'b tsort \<Rightarrow> bool" where
  "tinv \<equiv> tsort_inv n entered left inv"

text \<open>While a thread has not entered the barrier, nobody has touched the array.\<close>

lemma array_untouched:
  assumes inv: "tinv M xs s" and t: "t < n" "not_yet (ts_pos s t)"
  shows "fl_items (ts_fs s) = xs"
proof (rule tsort_invD(10) [OF inv])
  show "\<not> left u (ts_bar s)" if "u < n" for u
    using none_left_while_one_is_out [OF tsort_invD(1) [OF inv] t(1) _ that] tsort_invD(7) [OF inv t] by blast
qed

text \<open>After the barrier all sizes are known.\<close>

lemma sizes_known:
  assumes inv: "tinv M xs s" and t: "t < n" "past_barrier (ts_pos s t)" and u: "u < n"
  shows "size_known M xs (ts_sizes s) u"
proof -
  have "left t (ts_bar s)" using tsort_invD(8) [OF inv t(1)] t(2) by simp
  then have "entered u (ts_bar s)" using gate [OF tsort_invD(1) [OF inv] t(1)] u by blast
  then have "\<not> not_yet (ts_pos s u)" using tsort_invD(7) [OF inv u] by blast
  then show ?thesis using tsort_invD(6) [OF inv u] by (cases "ts_pos s u") auto
qed

lemma array_size:
  assumes "tsort_pre n medians M xs" and "tinv M xs s"
  shows "floats_size (ts_fs s) = int (length xs)"
  using tsort_invD(3,4) [OF assms(2)] assms(1) fl_size_items [of "ts_fs s"]
  by (simp add: floats_size_def as_int_id tsort_pre_def)

lemma worker_begin:
  assumes pre: "tsort_pre n medians M xs" and inv: "tinv M xs s" and t: "t < created n (ts_main s)"
    and pos: "ts_pos s t = TStart"
  shows "tinv M xs (attempt t (worker_bounds medians t)
    (\<lambda>(start, end). move t (TScan start end (floats_size (ts_fs s)) 0 floats_make) s) s)"
proof -
  have tn: "t < n" using t created_le [OF tsort_invD(2) [OF inv]] by simp
  show ?thesis
    using array_size [OF pre inv] worker_bounds_ok [OF pre tn] tsort_inv_local [OF inv t] pos floats_make_ok
    by (simp add: collected_def floats_make_def)
qed

lemma worker_scan:
  assumes inv: "tinv M xs s" and t: "t < created n (ts_main s)"
    and pos: "ts_pos s t = TScan start end sz i r" and i: "i < sz"
  shows "tinv M xs (attempt t (in_range_body (ts_fs s) start end i r)
    (\<lambda>r'. move t (TScan start end sz (i + 1) r') s) s)"
proof -
  have tn: "t < n" using t created_le [OF tsort_invD(2) [OF inv]] by simp
  have own: "start = M ! t" "end = M ! Suc t" "sz = int (length xs)" "0 \<le> i"
    "collected r (filter (in_bucket M t) (take (nat i) xs))"
    using tsort_invD(6) [OF inv tn] pos by simp_all
  have "fl_items (ts_fs s) = xs" using array_untouched [OF inv tn] pos by simp
  moreover have "nat i < length xs" using own(3,4) i by linarith
  ultimately obtain r' where r': "in_range_body (ts_fs s) start end i r = Inr r'"
    "collected r' (filter (in_bucket M t) (take (Suc (nat i)) xs))"
    using in_range_body_ok [OF tsort_invD(3) [OF inv], of xs "nat i" r M t] own i by auto
  moreover have "tinv M xs (move t (TScan start end sz (i + 1) r') s)"
    by (rule tsort_inv_local [OF inv t]) (use pos own i r' in \<open>simp_all add: nat_add_distrib\<close>)
  ultimately show ?thesis by simp
qed

lemma worker_size:
  assumes inv: "tinv M xs s" and t: "t < created n (ts_main s)" and pos: "ts_pos s t = TSize r"
  shows "tinv M xs (attempt t (wr (ts_sizes s) (int t) (Some (fl_size r)))
    (\<lambda>sizes. move t (TSort r) (s\<lparr>ts_sizes := sizes\<rparr>)) s)"
proof -
  note D = tsort_invD [OF inv]
  have tn: "t < n" using t created_le [OF D(2)] by simp
  have own: "collected r (bucket M xs t)" using D(6) [OF tn] pos by simp
  have fs: "fl_size r = int (length (bucket M xs t))"
    using own fl_size_items [of r] by (simp add: collected_def)
  have "tinv M xs (move t (TSort r) (s\<lparr>ts_sizes := (ts_sizes s)[t := Some (fl_size r)]\<rparr>))"
    by (rule tsort_inv_move [OF inv tn, where p = "TSort r"])
       (use D own fs pos tn main_ok_move [OF D(2) t] in \<open>auto simp: size_known_def\<close>)
  then show ?thesis using D(5) tn by simp
qed

lemma worker_sort:
  assumes inv: "tinv M xs s" and t: "t < created n (ts_main s)" and pos: "ts_pos s t = TSort r"
    and sorted: "qsort_floats r r'"
  shows "tinv M xs (move t (TBar r') s)"
proof -
  note D = tsort_invD [OF inv]
  have tn: "t < n" using t created_le [OF D(2)] by simp
  have own: "collected r (bucket M xs t)" "size_known M xs (ts_sizes s) t" using D(6) [OF tn] pos by simp_all
  have "floats_ok r' \<and> mset (fl_items r') = mset (bucket M xs t) \<and> ordered (fl_items r')"
    using qsort_floats_ok [OF sorted] own(1) bucket_no_nan [of _ M xs t] by (auto simp: collected_def)
  then show ?thesis
    by (intro tsort_inv_local [OF inv t]) (use pos own in \<open>simp_all add: sorted_bucket_def\<close>)
qed

lemma worker_barrier:
  assumes inv: "tinv M xs s" and t: "t < created n (ts_main s)" and pos: "ts_pos s t = TBar r"
    and step: "bstep t (ts_bar s) b"
  shows "tinv M xs (move t (if left t b then TSum 0 0 r else TBar r) (s\<lparr>ts_bar := b\<rparr>))"
proof -
  note D = tsort_invD [OF inv]
  have tn: "t < n" using t created_le [OF D(2)] by simp
  have own: "floats_ok r" "sorted_bucket M xs t (fl_items r)" "size_known M xs (ts_sizes s) t"
    using D(6) [OF tn] pos by simp_all
  show ?thesis
    by (rule tsort_inv_move [OF inv tn, where p = "if left t b then TSum 0 0 r else TBar r"])
       (use D own pos tn step_others [OF step] step_enters [OF step] inv_step [OF D(1) tn step]
          main_ok_move [OF D(2) t] in \<open>auto split: if_splits\<close>)
qed

lemma worker_sum:
  assumes pre: "tsort_pre n medians M xs" and inv: "tinv M xs s" and t: "t < created n (ts_main s)"
    and pos: "ts_pos s t = TSum i c r" and i: "i < int t"
  shows "tinv M xs (attempt t (read_size (ts_sizes s) i)
    (\<lambda>v. move t (TSum (i + 1) (as_int (c + v)) r) s) s)"
proof -
  note D = tsort_invD [OF inv]
  have tn: "t < n" using t created_le [OF D(2)] by simp
  have own: "0 \<le> i" "c = int (bucket_start M xs (nat i))" using D(6) [OF tn] pos by simp_all
  have "size_known M xs (ts_sizes s) (nat i)" using sizes_known [OF inv tn] pos own i tn by simp
  then have read: "read_size (ts_sizes s) i = Inr (int (length (bucket M xs (nat i))))"
    using D(5) own i tn by (simp add: read_size_def size_known_def)
  have next_start: "bucket_start M xs (nat i) + length (bucket M xs (nat i)) = bucket_start M xs (Suc (nat i))"
    by simp
  have "Suc (nat i) \<le> n" using own(1) i tn by linarith
  from bucket_start_mono [OF this, of M xs] have "bucket_start M xs (Suc (nat i)) < 2 ^ 31"
    using pre unfolding tsort_pre_def by linarith
  then have "as_int (c + int (length (bucket M xs (nat i)))) = int (bucket_start M xs (nat (i + 1)))"
    using own by (simp add: as_int_id nat_add_distrib)
  then show ?thesis using read tsort_inv_local [OF inv t, of "TSum (i + 1) _ r"] pos own i D(6) [OF tn] by simp
qed

lemma worker_copy:
  assumes pre: "tsort_pre n medians M xs" and inv: "tinv M xs s" and t: "t < created n (ts_main s)"
    and pos: "ts_pos s t = TCopy c k r" and k: "k < fl_size r"
  shows "tinv M xs (attempt t (memcpy_elem (ts_fs s) r c k)
    (\<lambda>fs. move t (TCopy c (k + 1) r) (s\<lparr>ts_fs := fs\<rparr>)) s)"
proof -
  note D = tsort_invD [OF inv]
  have tn: "t < n" using t created_le [OF D(2)] by simp
  let ?o = "bucket_start M xs t"
  have own: "floats_ok r" "sorted_bucket M xs t (fl_items r)" "size_known M xs (ts_sizes s) t"
    "c = int ?o" "0 \<le> k" "placed (fl_items (ts_fs s)) ?o (nat k) (fl_items r)"
    using D(6) [OF tn] pos by simp_all
  have len: "length (fl_items r) = length (bucket M xs t)"
    using own(2) unfolding sorted_bucket_def by (metis size_mset)
  have k': "nat k < length (fl_items r)" using k own(5) fl_size_items [OF own(1)] by simp
  have room: "?o + nat k < bucket_start M xs n" using k' len bucket_end [OF tn, of M xs] by simp
  then have "?o + nat k < length (fl_items (ts_fs s))" using pre D(4) by (simp add: tsort_pre_def)
  from memcpy_elem_ok [OF D(3) own(1) k' this] obtain fs where fs:
    "memcpy_elem (ts_fs s) r c k = Inr fs" "floats_ok fs"
    "fl_items fs = (fl_items (ts_fs s))[?o + nat k := fl_items r ! nat k]"
    using own(4,5) by auto
  have "tinv M xs (move t (TCopy c (k + 1) r) (s\<lparr>ts_fs := fs\<rparr>))"
  proof (rule tsort_inv_move [OF inv tn, where p = "TCopy c (k + 1) r"])
    show "worker_ok M xs (fl_items (ts_fs (move t (TCopy c (k + 1) r) (s\<lparr>ts_fs := fs\<rparr>))))
      (ts_sizes (move t (TCopy c (k + 1) r) (s\<lparr>ts_fs := fs\<rparr>))) t (TCopy c (k + 1) r)"
      using own fs(3) k room pre D(4)
      by (auto simp: placed_def nat_add_distrib less_Suc_eq nth_list_update tsort_pre_def)
    show "fl_items (ts_fs (move t (TCopy c (k + 1) r) (s\<lparr>ts_fs := fs\<rparr>))) ! (bucket_start M xs u + j) =
      fl_items (ts_fs s) ! (bucket_start M xs u + j)"
      if "u < n" "u \<noteq> t" "j < length (bucket M xs u)" for u j
      using buckets_apart [of t u j M xs "nat k"] that fs(3) k' len by auto
  qed (use D pos tn fs room main_ok_move [OF D(2) t] in auto)
  then show ?thesis using fs(1) by simp
qed

lemma worker_keeps:
  assumes pre: "tsort_pre n medians M xs" and inv: "tinv M xs s" and t: "t < created n (ts_main s)"
    and step: "sort_worker bstep left medians t s s'"
  shows "tinv M xs s'"
proof -
  have tn: "t < n" using t created_le [OF tsort_invD(2) [OF inv]] by simp
  note own = tsort_invD(6) [OF inv tn]
  show ?thesis using step
  proof (cases rule: sort_worker.cases)
    case w_begin
    then show ?thesis using worker_begin [OF pre inv t] by simp
  next
    case (w_scan start "end" sz i r)
    then show ?thesis using worker_scan [OF inv t] by simp
  next
    case (w_scanned start "end" sz i r)
    then have "collected r (bucket M xs t)" using own by (auto simp: bucket_def)
    then show ?thesis using w_scanned own tsort_inv_local [OF inv t, of "TSize r"] by simp
  next
    case (w_size r)
    then show ?thesis using worker_size [OF inv t] by simp
  next
    case (w_sort r r')
    then show ?thesis using worker_sort [OF inv t] by simp
  next
    case (w_barrier r b)
    then show ?thesis using worker_barrier [OF inv t] by simp
  next
    case (w_sum i c r)
    then show ?thesis using worker_sum [OF pre inv t] by simp
  next
    case (w_summed i c r)
    then have "i = int t" using own by simp
    then show ?thesis using w_summed own fl_size_items [of r] tsort_inv_local [OF inv t, of "TCopy c 0 r"]
      by (simp add: placed_def)
  next
    case (w_copy c k r)
    then show ?thesis using worker_copy [OF pre inv t] by simp
  next
    case (w_copied c k r)
    then have "k = fl_size r" using own by simp
    then have "placed (fl_items (ts_fs s)) (bucket_start M xs t) (length (fl_items r)) (fl_items r)"
      using w_copied own by (simp add: length_fl_items)
    then show ?thesis using w_copied own tsort_inv_local [OF inv t, of TDone] by auto
  qed
qed

lemma main_keeps:
  assumes inv: "tinv M xs s" and step: "main_step n s s'"
  shows "tinv M xs s'"
proof -
  have "main_ok n (ts_pos s) (ts_main s')" using step
  proof (cases rule: main_step.cases)
    case (m_join i)
    then show ?thesis using tsort_invD(2) [OF inv] by (auto simp: le_less nat_eq_iff2)
  qed (use tsort_invD(2) [OF inv] in auto)
  moreover obtain m where "s' = s\<lparr>ts_main := m\<rparr>" using step by cases auto
  ultimately show ?thesis using inv by (simp add: tsort_inv_def)
qed

lemma spur_keeps: "tinv M xs s \<Longrightarrow> spur (ts_bar s) b \<Longrightarrow> tinv M xs (s\<lparr>ts_bar := b\<rparr>)"
  using spur_frame [of "ts_bar s" b] inv_spur [of "ts_bar s" b] by (simp add: tsort_inv_def)

lemma start_inv:
  assumes "floats_ok fs"
  shows "tinv M (fl_items fs) (tsort_start fs n fresh)"
  using assms inv_fresh fresh_out by (auto simp: tsort_inv_def tsort_start_def)

lemma step_keeps:
  "tsort_pre n medians M xs \<Longrightarrow> tinv M xs s \<Longrightarrow> tsort_step bstep left n medians s s' \<Longrightarrow> tinv M xs s'"
  unfolding tsort_step_def using worker_keeps main_keeps by blast

lemma reach_inv:
  assumes reach: "tsort_reach bstep left spur n medians (tsort_start fs n fresh) s"
    and pre: "tsort_pre n medians M (fl_items fs)" and ok: "floats_ok fs"
  shows "tinv M (fl_items fs) s"
  using reach by induction (auto intro: start_inv ok step_keeps [OF pre] spur_keeps)

text \<open>
  Something can always happen until \<^verbatim>\<open>sample_sort\<close> returns: a thread outside the barrier has a next
  step of its own, and when all are inside it the contract of the barrier gives one.
\<close>

lemma qsort_exists:
  assumes ok: "floats_ok r" and nn: "\<forall>x\<in>set (fl_items r). \<not> f_nan x"
  shows "\<exists>r'. qsort_floats r r'"
proof -
  let ?k = "nat (fl_size r)"
  define ys where "ys = sort_key f_val (fl_items r)"
  have len: "length ys = ?k" using ok by (simp add: ys_def length_fl_items)
  have cap: "?k \<le> length (fl_data r)" using ok by (simp add: floats_ok_def nat_mono)
  let ?r = "r\<lparr>fl_data := map Some ys @ drop ?k (fl_data r)\<rparr>"
  have items: "fl_items ?r = ys" using len by (simp add: fl_items_def comp_def)
  have "map Some (fl_items r) = take ?k (fl_data r)"
  proof (rule nth_equalityI)
    show "length (map Some (fl_items r)) = length (take ?k (fl_data r))"
      using ok cap by (simp add: length_fl_items)
    show "map Some (fl_items r) ! i = take ?k (fl_data r) ! i" if "i < length (map Some (fl_items r))" for i
      using that fl_slot [OF ok, of i] ok by (simp add: length_fl_items)
  qed
  then have "mset (map Some ys) = mset (take ?k (fl_data r))"
    by (metis mset_map mset_sort ys_def)
  moreover have "sorted_wrt (\<lambda>a b. float_cmp a b \<le> 0) ys"
  proof -
    have "sorted_wrt (\<lambda>a b. f_val a \<le> f_val b) ys"
      using sorted_sort_key [of f_val "fl_items r"] by (simp add: ys_def sorted_map)
    then show ?thesis by (rule sorted_wrt_mono_rel [rotated]) (simp add: float_cmp_def f_lt_def)
  qed
  ultimately have "qsort_floats r ?r"
    using len cap items by (simp add: qsort_floats_def Let_def)
  then show ?thesis by blast
qed

lemma worker_moves:
  assumes inv: "tinv M xs s" and t: "t < n" and pos: "ts_pos s t \<noteq> TDone" "\<And>r. ts_pos s t \<noteq> TBar r"
  shows "\<exists>s'. sort_worker bstep left medians t s s'"
proof (cases "ts_pos s t")
  case (TScan start "end" sz i r)
  then show ?thesis by (cases "i < sz") (blast intro: w_scan w_scanned)+
next
  case (TSort r)
  then have "collected r (bucket M xs t)" using tsort_invD(6) [OF inv t] by simp
  then obtain r' where "qsort_floats r r'"
    using qsort_exists [of r] bucket_no_nan [of _ M xs t] by (auto simp: collected_def)
  then show ?thesis using TSort by (blast intro: w_sort)
next
  case (TSum i c r)
  then show ?thesis by (cases "i < int t") (blast intro: w_sum w_summed)+
next
  case (TCopy c k r)
  then show ?thesis by (cases "k < fl_size r") (blast intro: w_copy w_copied)+
qed (use pos tsort_invD(6) [OF inv t] in \<open>auto intro: w_begin w_size\<close>)

lemma someone_moves:
  assumes inv: "tinv M xs s" and all: "created n (ts_main s) = n" and t: "t < n" "ts_pos s t \<noteq> TDone"
  shows "\<exists>s'. tsort_step bstep left n medians s s'"
proof (cases "\<exists>u<n. ts_pos s u \<noteq> TDone \<and> (\<forall>r. ts_pos s u \<noteq> TBar r)")
  case True
  then show ?thesis using worker_moves [OF inv] all unfolding tsort_step_def by metis
next
  case False
  then obtain r where "ts_pos s t = TBar r" using t by blast
  then have "\<not> left t (ts_bar s)" using tsort_invD(8) [OF inv t(1)] by simp
  then obtain u b where u: "u < n" "\<not> left u (ts_bar s)" "bstep u (ts_bar s) b"
    using progress [OF tsort_invD(1) [OF inv] t(1)] by blast
  then have "ts_pos s u \<noteq> TDone" using tsort_invD(8) [OF inv u(1)] by auto
  then obtain r' where "ts_pos s u = TBar r'" using False u(1) by blast
  then show ?thesis using w_barrier [of s u] u all unfolding tsort_step_def by metis
qed

lemma tsort_progress:
  assumes inv: "tinv M xs s" and going: "ts_main s \<noteq> MDone"
  shows "\<exists>s'. tsort_step bstep left n medians s s'"
proof (cases "ts_main s")
  case (MCreate i)
  then show ?thesis unfolding tsort_step_def by (cases "i < int n") (blast intro: m_create m_created)+
next
  case (MJoin i)
  show ?thesis
  proof (cases "i < int n")
    case True
    moreover have "0 \<le> i" using tsort_invD(2) [OF inv] MJoin by simp
    ultimately have "nat i < n" by linarith
    then show ?thesis using someone_moves [OF inv, of "nat i"] MJoin True m_join [of s i n]
      unfolding tsort_step_def by (cases "ts_pos s (nat i) = TDone") auto
  next
    case False
    then show ?thesis using MJoin m_joined unfolding tsort_step_def by blast
  qed
qed (use going in simp)

text \<open>Every step brings the sort closer to its end.\<close>

lemma step_closer:
  assumes pre: "tsort_pre n medians M xs" and inv: "tinv M xs s"
    and step: "tsort_step bstep left n medians s s'"
  shows "tsort_distance (length xs) n distance s' < tsort_distance (length xs) n distance s"
proof (cases "main_step n s s'")
  case True
  then show ?thesis using tsort_invD(2) [OF inv]
    by cases (auto simp: tsort_distance_def)
next
  case False
  then obtain t where t: "t < created n (ts_main s)" and w: "sort_worker bstep left medians t s s'"
    using step unfolding tsort_step_def by blast
  have tn: "t < n" using t created_le [OF tsort_invD(2) [OF inv]] by simp
  have "worker_ok M xs (fl_items (ts_fs s')) (ts_sizes s') t (ts_pos s' t)"
    using worker_keeps [OF pre inv t w] tn by (rule tsort_invD(6))
  then have ok: "ts_pos s' t \<noteq> TFail e" for e by auto
  have "tally n (trank (length xs) n) (ts_pos s') + trank (length xs) n (ts_pos s t) =
      tally n (trank (length xs) n) (ts_pos s) + trank (length xs) n (ts_pos s' t)"
    using tally_upd [OF tn, of _ "ts_pos s"] worker_frame(1) [OF w] by metis
  then show ?thesis
    using trank_step [OF tsort_invD(6) [OF inv tn] tn array_size [OF pre inv] w ok] closer [OF tsort_invD(1) [OF inv] tn]
      worker_frame(2) [OF w]
    unfolding tsort_distance_def by (elim disjE conjE) force+
qed

text \<open>When it has returned, every bucket is in its place, sorted.\<close>

lemma finished_buckets:
  assumes inv: "tinv M xs s" and fin: "ts_main s = MDone" and t: "t < n"
  shows "\<exists>ys. sorted_bucket M xs t ys \<and> placed (fl_items (ts_fs s)) (bucket_start M xs t) (length ys) ys"
  using tsort_invD(2) [OF inv] tsort_invD(6) [OF inv t] fin t by simp

end

text \<open>Pieces that lie one after the other from the start of a list are its first part.\<close>

lemma placed_concat:
  assumes "\<And>t. t < n \<Longrightarrow> length (f t) = l t" and "\<And>t. t < n \<Longrightarrow> placed d (\<Sum>j<t. l j) (length (f t)) (f t)"
    and "(\<Sum>j<n. l j) \<le> length d"
  shows "take (\<Sum>j<n. l j) d = concat (map f [0..<n])"
  using assms
proof (induction n)
  case (Suc n)
  let ?a = "\<Sum>j<n. l j"
  have IH: "take ?a d = concat (map f [0..<n])" using Suc by simp
  have "take (l n) (drop ?a d) = f n"
  proof (rule nth_equalityI)
    show "length (take (l n) (drop ?a d)) = length (f n)" using Suc.prems(1) [of n] Suc.prems(3) by simp
    show "take (l n) (drop ?a d) ! i = f n ! i" if "i < length (take (l n) (drop ?a d))" for i
      using that Suc.prems(1) [of n] Suc.prems(2) [of n] Suc.prems(3) by (simp add: placed_def)
  qed
  then show ?case using IH by (simp add: take_add)
qed simp
section \<open>The bounds of the buckets\<close>

lemma sample_loop_ok:
  assumes fs: "floats_ok fs" "fl_items fs = xs" "xs \<noteq> []" "length xs < 2 ^ 31" and rnd: "\<forall>i. 0 \<le> rnd i"
    and i: "0 \<le> i" and r: "collected r ys" "set ys \<subseteq> set xs"
  shows "\<exists>r' zs. sample_loop rnd fs k i r = Inr r' \<and> collected r' (ys @ zs) \<and> set zs \<subseteq> set xs \<and>
           length zs = nat (k - i)"
  using i r
proof (induction "nat (k - i)" arbitrary: i r ys)
  case 0
  then show ?case by (subst sample_loop.simps) (auto intro!: exI [of _ "[]"])
next
  case (Suc m)
  have size: "fl_size fs = int (length xs)" using fl_size_items [OF fs(1)] fs(2) by simp
  let ?j = "nat (rnd (nat i) mod int (length xs))"
  have j: "?j < length xs" "int ?j = rnd (nat i) mod int (length xs)"
    using fs(3) by (simp_all add: nat_less_iff)
  have "as_int (int ?j) = int ?j" using fs(4) j(1) by (intro as_int_nat) (rule less_trans)
  then have small: "as_int (rnd (nat i) mod int (length xs)) = int ?j" using j(2) by simp
  have get: "floats_get fs (int ?j) = Inr (xs ! ?j)" using floats_get_items [of fs ?j] fs(1,2) j(1) by simp
  obtain r1 where r1: "floats_push r (xs ! ?j) = Inr r1" "collected r1 (ys @ [xs ! ?j])"
    using floats_push_items [of r "xs ! ?j"] Suc.prems(2) by (auto simp: collected_def)
  have "\<exists>r' zs. sample_loop rnd fs k (i + 1) r1 = Inr r' \<and> collected r' ((ys @ [xs ! ?j]) @ zs) \<and>
          set zs \<subseteq> set xs \<and> length zs = nat (k - (i + 1))"
    using Suc.hyps(2) Suc.prems r1(2) j(1) by (intro Suc.hyps(1)) auto
  then obtain r' zs where IH: "sample_loop rnd fs k (i + 1) r1 = Inr r'"
    "collected r' ((ys @ [xs ! ?j]) @ zs)" "set zs \<subseteq> set xs" "length zs = nat (k - (i + 1))" by blast
  have "i < k" using Suc.hyps(2) by linarith
  then have "sample_loop rnd fs k i r = Inr r'"
    using IH(1) r1(1) get size fs(3) small by (subst sample_loop.simps) simp
  moreover have "length (xs ! ?j # zs) = nat (k - i)" using IH(4) \<open>i < k\<close> by simp
  ultimately show ?case using IH(2,3) j(1)
    by (intro exI [of _ r'] exI [of _ "xs ! ?j # zs"]) auto
qed

lemma medians_loop_ok:
  assumes sp: "floats_ok sampled" "length (fl_items sampled) = 3 * m" and j: "j \<le> m" and r: "collected r ys"
  shows "\<exists>r'. medians_loop sampled (3 * int m) (3 * int j + 1) r = Inr r' \<and>
           collected r' (ys @ map (\<lambda>i. fl_items sampled ! (3 * i + 1)) [j..<m])"
  using j r
proof (induction "m - j" arbitrary: j r ys)
  case 0
  then show ?case by (subst medians_loop.simps) simp
next
  case (Suc l)
  then have jm: "j < m" by simp
  let ?x = "fl_items sampled ! (3 * j + 1)"
  have get: "floats_get sampled (3 * int j + 1) = Inr ?x"
    using floats_get_items [OF sp(1), of "3 * j + 1"] sp(2) jm by (simp add: add.commute)
  obtain r1 where r1: "floats_push r ?x = Inr r1" "collected r1 (ys @ [?x])"
    using floats_push_items [of r ?x] Suc.prems(2) by (auto simp: collected_def)
  obtain r' where r': "medians_loop sampled (3 * int m) (3 * int (Suc j) + 1) r1 = Inr r'"
    "collected r' ((ys @ [?x]) @ map (\<lambda>i. fl_items sampled ! (3 * i + 1)) [Suc j..<m])"
    using Suc.hyps(2) jm Suc.hyps(1) [of "Suc j", OF _ _ r1(2)] by (metis Suc_diff_Suc Suc_inject Suc_leI)
  have "medians_loop sampled (3 * int m) (3 * int j + 1) r = Inr r'"
    using r' r1(1) get jm by (subst medians_loop.simps) (simp add: algebra_simps)
  then show ?case using r'(2) jm by (intro exI [of _ r']) (simp add: upt_conv_Cons)
qed

definition medians_of :: "nat \<Rightarrow> cfloat list \<Rightarrow> cfloat list" where
  "medians_of m zs = F_ZERO # map (\<lambda>i. zs ! (3 * i + 1)) [0..<m] @ [F_INFINITY]"

lemma make_medians_ok:
  assumes "floats_ok sampled" and "length (fl_items sampled) = 3 * m"
  shows "\<exists>r. make_medians (3 * int m) sampled = Inr r \<and> floats_ok r \<and> fl_items r = medians_of m (fl_items sampled)"
proof -
  obtain r0 where r0: "floats_push floats_make F_ZERO = Inr r0" "collected r0 [F_ZERO]"
    using floats_push_items [OF floats_make_ok(1), of F_ZERO] floats_make_ok(2)
    by (auto simp: collected_def floats_make_def)
  obtain r1 where r1: "medians_loop sampled (3 * int m) 1 r0 = Inr r1"
    "collected r1 (F_ZERO # map (\<lambda>i. fl_items sampled ! (3 * i + 1)) [0..<m])"
    using medians_loop_ok [OF assms, of 0 r0 "[F_ZERO]"] r0(2) by auto
  then show ?thesis
    using r0(1) floats_push_items [of r1 F_INFINITY]
    by (auto simp: make_medians_def collected_def medians_of_def)
qed

lemma medians_of_bounds:
  assumes zs: "ordered zs" "length zs = 3 * m" "\<forall>z\<in>set zs. f_lt z F_INFINITY"
  shows "bounds_ok (medians_of m zs)"
proof -
  have "f_val (zs ! (3 * i + 1)) \<le> f_val (zs ! (3 * j + 1))" if "i < j" "j < m" for i j
    using zs(1,2) that sorted_wrt_nth_less [of _ zs "3 * i + 1" "3 * j + 1"] by (simp add: ordered_def)
  moreover have "\<not> f_nan (zs ! (3 * i + 1))" "f_val (zs ! (3 * i + 1)) \<le> f_val F_INFINITY" if "i < m" for i
  proof -
    have "zs ! (3 * i + 1) \<in> set zs" using zs(2) that by simp
    then show "\<not> f_nan (zs ! (3 * i + 1))" "f_val (zs ! (3 * i + 1)) \<le> f_val F_INFINITY"
      using zs(3) by (auto simp: f_lt_def)
  qed
  ultimately show ?thesis
    by (auto simp: bounds_ok_def medians_of_def ordered_def sorted_wrt_append sorted_wrt_map
        intro: sorted_wrt_iff_nth_less [THEN iffD2])
qed
section \<open>Sample sort is correct\<close>

text \<open>
  What the input must satisfy: at least one thread and one float, a size that fits an \<^verbatim>\<open>int\<close>, no
  NaN and no infinity (a NaN makes the comparison of \<^verbatim>\<open>qsort\<close> inconsistent), and values of
  \<^verbatim>\<open>random()\<close> that are not negative.
\<close>

definition tsort_input :: "(nat \<Rightarrow> int) \<Rightarrow> floats \<Rightarrow> nat \<Rightarrow> bool" where
  "tsort_input rnd fs n \<longleftrightarrow>
     floats_ok fs \<and> fl_items fs \<noteq> [] \<and> length (fl_items fs) < 2 ^ 31 \<and> 0 < n \<and>
     (\<forall>x\<in>set (fl_items fs). f_lt x F_INFINITY) \<and> (\<forall>i. 0 \<le> rnd i)"

lemma samples:
  assumes inp: "tsort_input rnd fs (Suc m)"
  shows "\<exists>sampled. sample_loop rnd fs (3 * int m) 0 floats_make = Inr sampled \<and> floats_ok sampled \<and>
           length (fl_items sampled) = 3 * m \<and> set (fl_items sampled) \<subseteq> set (fl_items fs)"
  using sample_loop_ok [of fs "fl_items fs" rnd 0 floats_make "[]" "3 * int m"] inp floats_make_ok
  by (auto simp: tsort_input_def collected_def floats_make_def)

lemma medians_ok:
  assumes inp: "tsort_input rnd fs (Suc m)"
    and smp: "sample_loop rnd fs (3 * int m) 0 floats_make = Inr sampled"
    and srt: "qsort_floats sampled sampled'" and med: "make_medians (3 * int m) sampled' = Inr medians"
  shows "tsort_pre (Suc m) medians (fl_items medians) (fl_items fs) \<and> bounds_ok (fl_items medians) \<and>
    fl_items medians = medians_of m (fl_items sampled')"
proof -
  have sp: "floats_ok sampled" "length (fl_items sampled) = 3 * m" "set (fl_items sampled) \<subseteq> set (fl_items fs)"
    using samples [OF inp] smp by auto
  have fin: "\<forall>x\<in>set (fl_items fs). f_lt x F_INFINITY" using inp by (simp add: tsort_input_def)
  have sp': "floats_ok sampled'" "mset (fl_items sampled') = mset (fl_items sampled)" "ordered (fl_items sampled')"
    using qsort_floats_ok [OF srt sp(1)] sp(3) fin by (auto simp: f_lt_def)
  have len: "length (fl_items sampled') = 3 * m" using sp(2) sp'(2) by (metis size_mset)
  have items: "floats_ok medians" "fl_items medians = medians_of m (fl_items sampled')"
    using make_medians_ok [OF sp'(1) len] med by auto
  have bounds: "bounds_ok (fl_items medians)"
    using medians_of_bounds [OF sp'(3) len] items(2) fin sp(3) mset_eq_setD [OF sp'(2)] by auto
  have len: "length (fl_items medians) = Suc (Suc m)" by (simp add: items medians_of_def)
  show ?thesis using items bounds buckets_fit [OF bounds len, of "fl_items fs"] len inp
    unfolding tsort_pre_def tsort_input_def by blast
qed

abbreviation tsort_moves :: "nat \<Rightarrow> floats \<Rightarrow> cond_barrier tsort \<Rightarrow> cond_barrier tsort \<Rightarrow> bool" where
  "tsort_moves n medians s s' \<equiv> tsort_step barrier_wait cb_left n medians s s'"

abbreviation tsort_state_ok :: "nat \<Rightarrow> floats \<Rightarrow> floats \<Rightarrow> cond_barrier tsort \<Rightarrow> bool" where
  "tsort_state_ok n fs medians s \<equiv>
     tsort_pre n medians (fl_items medians) (fl_items fs) \<and> bounds_ok (fl_items medians) \<and>
     fl_items medians ! 0 = F_ZERO \<and> fl_items medians ! n = F_INFINITY \<and>
     tsort_inv n cb_entered cb_left (cb_inv n) (fl_items medians) (fl_items fs) s"

lemma sample_sort_inv:
  assumes run: "sample_sort rnd fs n medians s" and inp: "tsort_input rnd fs n"
  shows "tsort_state_ok n fs medians s"
  using run
proof cases
  case (1 num_samples sampled sampled')
  obtain m where m: "n = Suc m" using inp by (cases n) (auto simp: tsort_input_def)
  have k: "num_samples = 3 * int m" using 1 m by simp
  have med: "tsort_pre (Suc m) medians (fl_items medians) (fl_items fs)" "bounds_ok (fl_items medians)"
    "fl_items medians = medians_of m (fl_items sampled')"
    using medians_ok [of rnd fs m sampled sampled' medians] inp 1 k m by auto
  have "tsort_inv n cb_entered cb_left (cb_inv n) (fl_items medians) (fl_items fs) s"
    using cb.reach_inv [OF 1(5)] med(1) m inp by (simp add: tsort_input_def)
  then show ?thesis using med m by (simp add: medians_of_def nth_append)
qed

lemma sample_sort_step:
  assumes "sample_sort rnd fs n medians s" and "tsort_moves n medians s s'"
  shows "sample_sort rnd fs n medians s'"
  using assms(1)
proof cases
  case (1 num_samples sampled sampled')
  then show ?thesis by (intro sample_sort.intros [OF 1(1-4)] r_step [OF 1(5) assms(2)])
qed

text \<open>The sort can start, and from every state it can go on to its end.\<close>

lemma sample_sort_starts:
  assumes inp: "tsort_input rnd fs n"
  shows "\<exists>medians s. sample_sort rnd fs n medians s"
proof -
  obtain m where m: "n = Suc m" using inp by (cases n) (auto simp: tsort_input_def)
  obtain sampled where sp: "sample_loop rnd fs (3 * int m) 0 floats_make = Inr sampled" "floats_ok sampled"
    "length (fl_items sampled) = 3 * m" "set (fl_items sampled) \<subseteq> set (fl_items fs)"
    using samples inp m by blast
  have nn: "\<forall>x\<in>set (fl_items sampled). \<not> f_nan x" using sp(4) inp by (auto simp: tsort_input_def f_lt_def)
  obtain sampled' where srt: "qsort_floats sampled sampled'" using cb.qsort_exists [OF sp(2) nn] by blast
  then have "floats_ok sampled'" "mset (fl_items sampled') = mset (fl_items sampled)"
    using qsort_floats_ok [OF srt sp(2) nn] by auto
  then obtain medians where "make_medians (3 * int m) sampled' = Inr medians"
    using make_medians_ok sp(3) by (metis size_mset)
  then show ?thesis using sample_sort.intros [OF _ _ srt _ r_init, of "3 * int m" "Suc m" rnd fs] sp(1) m by auto
qed

lemma sample_sort_ends:
  assumes run: "sample_sort rnd fs n medians s" and inp: "tsort_input rnd fs n"
  shows "\<exists>s'. sample_sort rnd fs n medians s' \<and> ts_main s' = MDone"
  using run
proof (induction "tsort_distance (length (fl_items fs)) n (cb_distance n) s" arbitrary: s rule: less_induct)
  case less
  have ok: "tsort_state_ok n fs medians s" using sample_sort_inv [OF less.prems inp] .
  show ?case
  proof (cases "ts_main s = MDone")
    case False
    then obtain s' where s': "tsort_moves n medians s s'" using cb.tsort_progress ok by blast
    then have "tsort_distance (length (fl_items fs)) n (cb_distance n) s' <
        tsort_distance (length (fl_items fs)) n (cb_distance n) s"
      using cb.step_closer ok by blast
    then show ?thesis using less.hyps sample_sort_step [OF less.prems s'] by blast
  qed (use less.prems in blast)
qed

text \<open>What the array holds at the end: the sorted buckets, and behind them what was there before.\<close>

lemma sample_sort_result:
  assumes run: "sample_sort rnd fs n medians s" and inp: "tsort_input rnd fs n" and fin: "ts_main s = MDone"
  shows "\<exists>f. (\<forall>t<n. sorted_bucket (fl_items medians) (fl_items fs) t (f t)) \<and>
    (let zs = concat (map f [0..<n]) in fl_items (ts_fs s) = zs @ drop (length zs) (fl_items fs))"
proof -
  let ?M = "fl_items medians" and ?xs = "fl_items fs" and ?d = "fl_items (ts_fs s)"
  have ok: "tsort_state_ok n fs medians s" by (rule sample_sort_inv [OF run inp])
  then obtain f where f: "\<And>t. t < n \<Longrightarrow> sorted_bucket ?M ?xs t (f t)"
    "\<And>t. t < n \<Longrightarrow> placed ?d (bucket_start ?M ?xs t) (length (f t)) (f t)"
    using cb.finished_buckets [of n ?M ?xs s] fin by metis
  have len: "length (f t) = length (bucket ?M ?xs t)" if "t < n" for t
    using f(1) [OF that] unfolding sorted_bucket_def by (metis size_mset)
  let ?zs = "concat (map f [0..<n])" and ?k = "bucket_start ?M ?xs n"
  have same: "length ?d = length ?xs" using ok tsort_invD(4) [of n cb_entered cb_left "cb_inv n" ?M ?xs s] by blast
  then have fits: "?k \<le> length ?d" using ok by (simp add: tsort_pre_def)
  then have tk: "take ?k ?d = ?zs"
    using placed_concat [of n f "\<lambda>t. length (bucket ?M ?xs t)" ?d] f(2) len by (simp add: bucket_start_def)
  then have k: "length ?zs = ?k" using fits by (metis length_take min.absorb2)
  have "drop ?k ?d = drop ?k ?xs"
    using ok same fits tsort_invD(9) [of n cb_entered cb_left "cb_inv n" ?M ?xs s]
    by (intro nth_equalityI) auto
  then have "?d = ?zs @ drop (length ?zs) ?xs" using tk k by (metis append_take_drop_id)
  then show ?thesis using f(1) unfolding Let_def by blast
qed
lemma buckets_ordered:
  assumes M: "bounds_ok M" "length M = Suc n" and f: "\<And>t. t < n \<Longrightarrow> sorted_bucket M xs t (f t)"
  shows "ordered (concat (map f [0..<n]))"
proof -
  have set: "set (f t) = set (bucket M xs t)" if "t < n" for t
    using f [OF that] mset_eq_setD by (auto simp: sorted_bucket_def)
  have below: "f_val x \<le> f_val y" if "t < u" "u < n" "x \<in> set (f t)" "y \<in> set (f u)" for t u x y
  proof -
    have "f_lt x (M ! Suc t)" "f_le (M ! u) y" using that set by (auto simp: bucket_def in_bucket_def)
    then show ?thesis using bounds_later [OF M(1), of "Suc t" u] that M(2) by (auto simp: f_lt_def f_le_def)
  qed
  have "ordered (concat (map f [0..<k]))" if "k \<le> n" for k
    using that
  proof (induction k)
    case (Suc k)
    then have "ordered (f k)" using f [of k] by (simp add: sorted_bucket_def)
    then show ?case using Suc below [of _ k] by (auto simp: ordered_def sorted_wrt_append)
  qed (simp add: ordered_def)
  then show ?thesis by simp
qed

lemma mset_concat_cong:
  "(\<And>t. t < n \<Longrightarrow> mset (f t) = mset (g t)) \<Longrightarrow> mset (concat (map f [0..<n])) = mset (concat (map g [0..<n]))"
  by (induction n) auto

definition ex_rnd :: "nat \<Rightarrow> int" where
  "ex_rnd i = int i"

text \<open>The floats 2.0, 1.0 and 0.5; and \<open>-1.0\<close> before 2.0.\<close>

definition ex_floats :: "cfloat list" where
  "ex_floats = [0x40000000, 0x3F800000, 0x3F000000]"

definition ex_negative :: "cfloat list" where
  "ex_negative = [0xBF800000, 0x40000000]"

lemma load_floats_ok:
  "floats_ok (load_floats (int (length xs)) xs)" "fl_items (load_floats (int (length xs)) xs) = xs"
  by (simp_all add: floats_ok_def load_floats_def fl_items_def Let_def comp_def)

lemma ex_input:
  "tsort_input ex_rnd (load_floats 3 ex_floats) 2" "\<forall>x\<in>set ex_floats. sortable x"
  "tsort_input ex_rnd (load_floats 2 ex_negative) 1"
  using load_floats_ok [of ex_floats] load_floats_ok [of ex_negative]
  by (simp_all add: tsort_input_def ex_rnd_def ex_floats_def ex_negative_def sortable_def f_lt_def f_le_def
      f_nan_def f_val_def f_mag_def F_INFINITY_def)

lemma finished_run:
  assumes "tsort_input rnd fs n"
  obtains medians s where "sample_sort rnd fs n medians s" "ts_main s = MDone"
  using sample_sort_starts [OF assms] sample_sort_ends [OF _ assms] by blast

lemma sample_sort_sorted:
  assumes run: "sample_sort rnd fs n medians s" and inp: "tsort_input rnd fs n" and fin: "ts_main s = MDone"
    and pos: "\<forall>x\<in>set (fl_items fs). sortable x"
  shows "mset (fl_items (ts_fs s)) = mset (fl_items fs) \<and> ordered (fl_items (ts_fs s))"
proof -
  let ?M = "fl_items medians" and ?xs = "fl_items fs"
  have ok: "tsort_state_ok n fs medians s" by (rule sample_sort_inv [OF run inp])
  then have len: "length ?M = Suc n" by (simp add: tsort_pre_def)
  obtain f where f: "\<And>t. t < n \<Longrightarrow> sorted_bucket ?M ?xs t (f t)"
    and d: "fl_items (ts_fs s) = concat (map f [0..<n]) @ drop (length (concat (map f [0..<n]))) ?xs"
    using sample_sort_result [OF run inp fin] unfolding Let_def by blast
  have "mset (concat (map f [0..<n])) = mset (concat (map (bucket ?M ?xs) [0..<n]))"
    using f by (intro mset_concat_cong) (simp add: sorted_bucket_def)
  also have "\<dots> = mset ?xs" using ok len pos by (intro bucket_concat) (auto simp: sortable_def)
  finally have m: "mset (concat (map f [0..<n])) = mset ?xs" .
  then have "length (concat (map f [0..<n])) = length ?xs" by (metis size_mset)
  then show ?thesis using d m buckets_ordered [of ?M n ?xs f] ok len f by simp
qed

text \<open>
  C27. For every schedule of the threads, every outcome of the sampling and every positive number of threads: when
  \<^verbatim>\<open>sample_sort\<close> returns, the array is a sorted rearrangement of the input, provided that it is not
  empty, has fewer than \<open>2 ^ 31\<close> floats, and no float is negative, infinite or a NaN. Without the
  condition on the sign this is false (\<open>tsort_loses_negatives\<close>).
\<close>

theorem tsort_sorts:
  assumes "sample_sort rnd fs n medians s" and "tsort_input rnd fs n" and "ts_main s = MDone"
    and "\<forall>x\<in>set (fl_items fs). sortable x"
  shows "mset (fl_items (ts_fs s)) = mset (fl_items fs) \<and> ordered (fl_items (ts_fs s))"
  using assms by (rule sample_sort_sorted)

theorem tsort_sorts_witness:
  "\<exists>medians s. sample_sort ex_rnd (load_floats 3 ex_floats) 2 medians s \<and> ts_main s = MDone \<and>
     mset (fl_items (ts_fs s)) = mset ex_floats \<and> ordered (fl_items (ts_fs s))"
proof -
  obtain medians s where run: "sample_sort ex_rnd (load_floats 3 ex_floats) 2 medians s" "ts_main s = MDone"
    using finished_run [OF ex_input(1)] .
  have items: "fl_items (load_floats 3 ex_floats) = ex_floats"
    using load_floats_ok(2) [of ex_floats] by (simp add: ex_floats_def)
  show ?thesis using tsort_sorts [OF run(1) ex_input(1) run(2)] run ex_input(2) unfolding items by blast
qed

text \<open>
  C28. No schedule stops it, for any positive number of threads and an array that is not empty, has
  fewer than \<open>2 ^ 31\<close> floats and no NaN and no positive infinity (for an empty array and two threads or more the sampling divides by its
  size 0): as long as \<^verbatim>\<open>sample_sort\<close> has not returned some thread can make a step, no
  thread ever fails an assertion or leaves an array, and every interleaving of thread steps and spurious
  wake-ups in which the number of spurious wake-ups is finite ends: \<open>k\<close> is a bound on those to come. With infinitely many of
  them a thread can test the condition of the barrier and go back to sleep forever; such
  interleavings are not covered.
\<close>

theorem tsort_terminates:
  assumes inp: "tsort_input rnd fs n"
  shows "(\<exists>medians s. sample_sort rnd fs n medians s) \<and>
    (\<forall>medians s. sample_sort rnd fs n medians s \<longrightarrow>
       (\<forall>t<n. \<forall>e. ts_pos s t \<noteq> TFail e) \<and> (ts_main s \<noteq> MDone \<longrightarrow> (\<exists>s'. tsort_moves n medians s s'))) \<and>
    wf {((k', s'), (k, s)). sample_sort rnd fs n medians s \<and>
      (tsort_moves n medians s s' \<and> k' = k \<or>
       (\<exists>b. spurious_wakeup (ts_bar s) b \<and> s' = s\<lparr>ts_bar := b\<rparr>) \<and> k = Suc k')}"
proof (intro conjI allI impI)
  show "\<exists>medians s. sample_sort rnd fs n medians s" by (rule sample_sort_starts [OF inp])
next
  fix medians s t e assume "sample_sort rnd fs n medians s" and t: "t < n"
  then have "tsort_state_ok n fs medians s" using sample_sort_inv inp by blast
  then have "worker_ok (fl_items medians) (fl_items fs) (fl_items (ts_fs s)) (ts_sizes s) t (ts_pos s t)"
    using tsort_invD(6) t by blast
  then show "ts_pos s t \<noteq> TFail e" by auto
next
  fix medians s assume "sample_sort rnd fs n medians s" "ts_main s \<noteq> MDone"
  then show "\<exists>s'. tsort_moves n medians s s'" using sample_sort_inv [OF _ inp] cb.tsort_progress by blast
next
  show "wf {((k', s'), (k, s)). sample_sort rnd fs n medians s \<and>
      (tsort_moves n medians s s' \<and> k' = k \<or>
       (\<exists>b. spurious_wakeup (ts_bar s) b \<and> s' = s\<lparr>ts_bar := b\<rparr>) \<and> k = Suc k')}" (is "wf ?R")
  proof (rule wf_subset [OF wf_lex_prod [OF wf_less_than wf_measure]])
    show "?R \<subseteq> less_than <*lex*> measure (tsort_distance (length (fl_items fs)) n (cb_distance n))"
      using sample_sort_inv [OF _ inp] cb.step_closer by fastforce
  qed
qed

theorem tsort_terminates_witness:
  "\<exists>medians s. sample_sort ex_rnd (load_floats 3 ex_floats) 2 medians s"
  using tsort_terminates [OF ex_input(1)] by blast

text \<open>
  The first bound is \<open>0.0\<close>, so negative floats are in no bucket when one thread sorts: they are
  overwritten, and the end of the array keeps stale copies. With \<open>-1.0, 2.0\<close> the result is
  \<open>2.0, 2.0\<close>.
\<close>

theorem tsort_loses_negatives:
  assumes run: "sample_sort rnd fs 1 medians s" and inp: "tsort_input rnd fs 1" and fin: "ts_main s = MDone"
  shows "\<exists>ys. ordered ys \<and> mset ys = filter_mset sortable (mset (fl_items fs)) \<and>
    fl_items (ts_fs s) = ys @ drop (length ys) (fl_items fs)"
proof -
  have ok: "tsort_state_ok 1 fs medians s" by (rule sample_sort_inv [OF run inp])
  have "in_bucket (fl_items medians) 0 = sortable"
    using ok by (auto simp: fun_eq_iff in_bucket_def sortable_def)
  then show ?thesis using sample_sort_result [OF run inp fin]
    by (auto simp: sorted_bucket_def bucket_def Let_def)
qed

theorem tsort_loses_negatives_witness:
  "\<exists>medians s. sample_sort ex_rnd (load_floats 2 ex_negative) 1 medians s \<and> ts_main s = MDone \<and>
     fl_items (ts_fs s) = [0x40000000, 0x40000000]"
proof -
  obtain medians s where run: "sample_sort ex_rnd (load_floats 2 ex_negative) 1 medians s" "ts_main s = MDone"
    using finished_run [OF ex_input(3)] .
  have items: "fl_items (load_floats 2 ex_negative) = ex_negative"
    using load_floats_ok(2) [of ex_negative] by (simp add: ex_negative_def)
  obtain ys where ys: "mset ys = filter_mset sortable (mset ex_negative)"
    "fl_items (ts_fs s) = ys @ drop (length ys) ex_negative"
    using tsort_loses_negatives [OF run(1) ex_input(3) run(2)] unfolding items by blast
  have "filter_mset sortable (mset ex_negative) = {#0x40000000#}"
    by (simp add: ex_negative_def sortable_def f_le_def f_lt_def f_val_def f_nan_def f_mag_def F_INFINITY_def)
  then have "ys = [0x40000000]" using ys(1) by (metis mset_single_iff)
  then show ?thesis using run ys(2) by (intro exI [of _ medians] exI [of _ s]) (simp add: ex_negative_def)
qed
section \<open>The checking tool\<close>

definition zeros_in :: "cfloat list \<Rightarrow> int" where
  "zeros_in nums = int (length (filter (\<lambda>x. f_eq x F_ZERO) nums))"

lemma check_loop_iff:
  assumes "\<forall>x\<in>set nums. \<not> f_nan x" and "\<not> f_nan prev"
  shows "\<exists>z. check_loop nums (length nums) prev zeros =
    Inr (if ordered (prev # nums) then (0, zeros + zeros_in nums) else (1, z))"
  using assms
proof (induction nums arbitrary: prev zeros)
  case (Cons x nums)
  let ?z = "if f_eq x F_ZERO then zeros + 1 else zeros"
  obtain z where z: "check_loop nums (length nums) x ?z =
      Inr (if ordered (x # nums) then (0, ?z + zeros_in nums) else (1, z))"
    using Cons.IH [of x ?z] Cons.prems by auto
  have step: "ordered (prev # x # nums) \<longleftrightarrow> \<not> f_lt x prev \<and> ordered (x # nums)"
    using Cons.prems by (auto simp: ordered_def f_lt_def)
  then show ?case using z by (auto simp: Let_def zeros_in_def)
qed (simp add: ordered_def zeros_in_def)

text \<open>
  \<^verbatim>\<open>check-sorted\<close> exits with 0 exactly for the files whose floats increase from zero on and of which
  at most half are zero; here for files without NaNs and with a true header.
\<close>

theorem check_sorted_iff:
  assumes "nums \<noteq> []" and nn: "\<forall>x\<in>set nums. \<not> f_nan x"
  shows "check_sorted (int (length nums)) nums =
    Inr (if ordered (F_ZERO # nums) \<and> 2 * zeros_in nums \<le> int (length nums) then 0 else 1)"
proof -
  obtain z where "check_loop nums (length nums) F_ZERO 0 =
      Inr (if ordered (F_ZERO # nums) then (0, 0 + zeros_in nums) else (1, z))"
    using check_loop_iff [OF nn, of F_ZERO 0] by (metis f_consts(2))
  moreover have "zeros_in nums > int (length nums) div 2 \<longleftrightarrow> \<not> 2 * zeros_in nums \<le> int (length nums)"
    by linarith
  ultimately show ?thesis using assms(1) by (auto simp: check_sorted_def)
qed

theorem check_sorted_iff_witness:
  "check_sorted 3 ex_floats = Inr 1 \<and> check_sorted 3 (rev ex_floats) = Inr 0"
proof -
  have len: "int (length ex_floats) = 3" "int (length (rev ex_floats)) = 3" by (simp_all add: ex_floats_def)
  have "check_sorted 3 ex_floats = Inr 1"
    using check_sorted_iff [of ex_floats] unfolding len
    by (simp add: ex_floats_def ordered_def zeros_in_def f_nan_def f_val_def f_mag_def f_eq_def)
  moreover have "check_sorted 3 (rev ex_floats) = Inr 0"
    using check_sorted_iff [of "rev ex_floats"] unfolding len
    by (simp add: ex_floats_def ordered_def zeros_in_def f_nan_def f_val_def f_mag_def f_eq_def)
  ultimately show ?thesis by blast
qed

text \<open>
  The assignment as a whole: the file that \<^verbatim>\<open>tsort\<close> writes for a well-formed input passes
  \<^verbatim>\<open>check-sorted\<close>, except when more than half of the input floats are zero.
\<close>

theorem tsort_passes_check:
  assumes run: "sample_sort rnd (load_floats (int (length contents)) contents) n medians s"
    and fin: "ts_main s = MDone" and inp: "tsort_input rnd (load_floats (int (length contents)) contents) n"
    and pos: "\<forall>x\<in>set contents. sortable x"
  shows "check_sorted (int (length contents)) (fl_items (ts_fs s)) =
    Inr (if 2 * zeros_in contents \<le> int (length contents) then 0 else 1)"
proof -
  let ?out = "fl_items (ts_fs s)"
  have items: "fl_items (load_floats (int (length contents)) contents) = contents" by (rule load_floats_ok)
  have out: "mset ?out = mset contents" "ordered ?out"
    using sample_sort_sorted [OF run inp fin] pos unfolding items by blast+
  have set: "set ?out = set contents" using out(1) by (rule mset_eq_setD)
  have "length ?out = length contents" using out(1) by (metis size_mset)
  moreover have "zeros_in ?out = zeros_in contents"
    unfolding zeros_in_def using out(1) by (metis mset_filter size_mset)
  moreover have "ordered (F_ZERO # ?out)" "\<forall>x\<in>set ?out. \<not> f_nan x"
    using out(2) pos set by (auto simp: ordered_def sortable_def f_le_def)
  moreover have "?out \<noteq> []" using inp set items by (auto simp: tsort_input_def)
  ultimately show ?thesis using check_loop_iff [of ?out F_ZERO 0] by (auto simp: check_sorted_def)
qed
theorem tsort_passes_check_witness:
  "\<exists>medians s. sample_sort ex_rnd (load_floats 3 ex_floats) 2 medians s \<and> ts_main s = MDone \<and>
     check_sorted 3 (fl_items (ts_fs s)) = Inr 0"
proof -
  have len: "int (length ex_floats) = 3" by (simp add: ex_floats_def)
  obtain medians s where run: "sample_sort ex_rnd (load_floats 3 ex_floats) 2 medians s" "ts_main s = MDone"
    using finished_run [OF ex_input(1)] .
  have "zeros_in ex_floats = 0"
    by (simp add: zeros_in_def ex_floats_def f_eq_def f_val_def f_nan_def f_mag_def)
  then have "check_sorted 3 (fl_items (ts_fs s)) = Inr 0"
    using tsort_passes_check [of ex_rnd ex_floats, unfolded len, OF run ex_input(1,2)] by simp
  then show ?thesis using run by blast
qed

end
