(* ===== verification/LengthSort.thy ===== *)
theory LengthSort
  imports Svec
begin

text \<open>
  The program \<^verbatim>\<open>hw04/starter-hw04/length-sort.c\<close>: a gnome sort of the lines of a file by length,
  on the string vector of \<^verbatim>\<open>hw04\<close>. The loop of the sort moves its index in both directions, so it
  is a \<open>partial_function\<close>; that it ends, and that it ends with the stable sort of the lines, is
  proved. Its bound is the capacity of the vector, not the number of strings in it.
\<close>

section \<open>The program\<close>

definition slot_strlen :: "svec \<Rightarrow> int \<Rightarrow> nat res" where
  "slot_strlen xs ii =
     bind_res (rd (sv_data xs) ii) (\<lambda>s. bind_res (slot_ptr s) (\<lambda>p.
       case p of None \<Rightarrow> Inl NullDeref | Some t \<Rightarrow> Inr (length (cstr t))))"

text \<open>One iteration of the loop: the vector and the index afterwards.\<close>

definition gnome_step :: "svec \<Rightarrow> int \<Rightarrow> (svec \<times> int) res" where
  "gnome_step xs ii =
     (if ii = 0 then Inr (xs, ii + 1)
      else bind_res (slot_strlen xs ii) (\<lambda>a. bind_res (slot_strlen xs (ii - 1)) (\<lambda>b.
           if a \<ge> b then Inr (xs, ii + 1)
           else bind_res (svec_swap xs ii (ii - 1)) (\<lambda>xs'. Inr (xs', ii - 1)))))"

partial_function (option) gnome_loop :: "svec \<Rightarrow> int \<Rightarrow> svec res option" where
  "gnome_loop xs ii =
     (if ii < sv_size xs
      then (case gnome_step xs ii of Inl e \<Rightarrow> Some (Inl e) | Inr p \<Rightarrow> gnome_loop (fst p) (snd p))
      else Some (Inr xs))"

definition length_sort :: "svec \<Rightarrow> svec res option" where
  "length_sort xs = (if sv_size xs > 1 then gnome_loop xs 0 else Some (Inr xs))"

text \<open>
  \<^verbatim>\<open>chomp\<close> on the buffer that \<^verbatim>\<open>fgets\<close> filled: it looks for the two characters backslash and \<^verbatim>\<open>n\<close>
  at the end of the string and stores the digit zero.
\<close>

definition chomp :: "string \<Rightarrow> string res" where
  "chomp buf =
     (let length = int (length (cstr buf))
      in bind_res (rd buf (length - 1)) (\<lambda>last. bind_res (rd buf (length - 2)) (\<lambda>prev.
         if last = CHR ''n'' \<and> prev = CHR 0x5C then wr buf (length - 1) (CHR ''0'') else Inr buf)))"

function read_lines :: "string \<Rightarrow> svec \<Rightarrow> svec res" where
  "read_lines input xs =
     (if input = [] then Inr xs
      else let (line, rest) = fgets 128 input
           in bind_res (chomp (line @ [CHR 0x00])) (\<lambda>buf.
              bind_res (hw04_svec_push_back xs (Some (cstr buf))) (\<lambda>xs'. read_lines rest xs')))"
  by pat_completeness auto
termination
  by (relation "measure (\<lambda>(input, xs). length input)") (auto intro: fgets_shorter [of 128, OF sym])

declare read_lines.simps [simp del]

text \<open>The final loop of \<^verbatim>\<open>main\<close> prints every slot up to the capacity too.\<close>

function print_lines :: "svec \<Rightarrow> int \<Rightarrow> string res" where
  "print_lines xs ii =
     (if ii < sv_size xs
      then bind_res (svec_get xs ii) (\<lambda>p.
             case p of
               None \<Rightarrow> Inl NullDeref
             | Some line \<Rightarrow> bind_res (print_lines xs (ii + 1)) (\<lambda>out. Inr (cstr line @ [CHR 0x0A] @ out)))
      else Inr [])"
  by pat_completeness auto
termination
  by (relation "measure (\<lambda>(xs, ii). nat (sv_size xs - ii))") auto

definition length_sort_main :: "string \<Rightarrow> string res option" where
  "length_sort_main input =
     (case read_lines input hw04_make_svec of
        Inl e \<Rightarrow> Some (Inl e)
      | Inr xs \<Rightarrow> (case length_sort xs of
                    None \<Rightarrow> None
                  | Some r \<Rightarrow> Some (bind_res r (\<lambda>ys. print_lines ys 0))))"

declare print_lines.simps [simp del]

section \<open>Inversions\<close>

fun inversions :: "('a \<Rightarrow> nat) \<Rightarrow> 'a list \<Rightarrow> nat" where
  "inversions f [] = 0"
| "inversions f (x # xs) = length (filter (\<lambda>y. f y < f x) xs) + inversions f xs"

lemma inversions_swap:
  "f x < f y \<Longrightarrow> inversions f (a @ y # x # b) = Suc (inversions f (a @ x # y # b))"
  by (induction a) auto

text \<open>Swapping two neighbours, as the updates of the array do it.\<close>

lemma swap_neighbours:
  assumes "0 < i" and "i < length ys"
  shows "ys = take (i - 1) ys @ ys ! (i - 1) # ys ! i # drop (Suc i) ys"
    "ys[i := ys ! (i - 1), i - 1 := ys ! i] = take (i - 1) ys @ ys ! i # ys ! (i - 1) # drop (Suc i) ys"
proof -
  obtain j where j: "i = Suc j" using assms(1) by (cases i) auto
  show ys: "ys = take (i - 1) ys @ ys ! (i - 1) # ys ! i # drop (Suc i) ys"
    using assms(2) j by (metis Cons_nth_drop_Suc Suc_lessD append_take_drop_id diff_Suc_1)
  show "ys[i := ys ! (i - 1), i - 1 := ys ! i] = take (i - 1) ys @ ys ! i # ys ! (i - 1) # drop (Suc i) ys"
    using assms(2) j
    by (intro nth_equalityI) (auto simp: nth_append nth_list_update nth_Cons' less_Suc_eq Suc_diff_Suc numeral_2_eq_2)
qed

text \<open>
  The state of the gnome sort: the list is a rearrangement that keeps elements of equal length in
  their order, and the part below the index is sorted.
\<close>

definition gnome_inv :: "('a \<Rightarrow> nat) \<Rightarrow> 'a list \<Rightarrow> 'a list \<Rightarrow> nat \<Rightarrow> bool" where
  "gnome_inv f xs ys i \<longleftrightarrow>
     mset ys = mset xs \<and> (\<forall>k. filter (\<lambda>x. f x = k) ys = filter (\<lambda>x. f x = k) xs) \<and>
     sorted (map f (take i ys))"

lemma gnome_inv_advance:
  assumes "gnome_inv f xs ys i" and "i < length ys" and "i = 0 \<or> f (ys ! (i - 1)) \<le> f (ys ! i)"
  shows "gnome_inv f xs ys (Suc i)"
proof -
  have "sorted (map f (take i ys) @ [f (ys ! i)])"
  proof (cases i)
    case (Suc j)
    have "f x \<le> f (ys ! i)" if x: "x \<in> set (take i ys)" for x
    proof -
      obtain k where "k < length (take i ys)" "take i ys ! k = x" using x unfolding in_set_conv_nth by blast
      then have k: "k < i" "x = ys ! k" by simp_all
      then have "map f (take i ys) ! k \<le> map f (take i ys) ! j"
        using assms(1,2) Suc unfolding gnome_inv_def by (intro sorted_nth_mono) auto
      then show ?thesis using assms(2,3) k Suc by simp
    qed
    then show ?thesis using assms(1) by (auto simp: gnome_inv_def sorted_append)
  qed simp
  then show ?thesis using assms(1,2) by (simp add: gnome_inv_def take_Suc_conv_app_nth)
qed

lemma gnome_inv_swap:
  assumes inv: "gnome_inv f xs ys i" and i: "0 < i" "i < length ys" and out: "f (ys ! i) < f (ys ! (i - 1))"
  shows "gnome_inv f xs (ys[i := ys ! (i - 1), i - 1 := ys ! i]) (i - 1)"
    "inversions f (ys[i := ys ! (i - 1), i - 1 := ys ! i]) < inversions f ys"
proof -
  note sw = swap_neighbours [OF i]
  let ?a = "take (i - 1) ys" and ?b = "drop (Suc i) ys" and ?y = "ys ! (i - 1)" and ?x = "ys ! i"
  have "mset (?a @ ?x # ?y # ?b) = mset (?a @ ?y # ?x # ?b)" by simp
  moreover have "filter (\<lambda>x. f x = k) (?a @ ?x # ?y # ?b) = filter (\<lambda>x. f x = k) (?a @ ?y # ?x # ?b)" for k
    using out by auto
  moreover have "sorted (map f ?a)"
    using inv sorted_append [of "map f ?a"] unfolding gnome_inv_def
    by (metis append_take_drop_id diff_le_self map_append min.absorb1 sorted_append take_take)
  moreover have "take (i - 1) (?a @ ?x # ?y # ?b) = ?a" using i by simp
  ultimately show "gnome_inv f xs (ys[i := ?y, i - 1 := ?x]) (i - 1)"
    using inv sw unfolding gnome_inv_def by metis
  show "inversions f (ys[i := ?y, i - 1 := ?x]) < inversions f ys"
    using inversions_swap [of f ?x ?y ?a ?b] out sw by simp
qed

lemma gnome_inv_final: "gnome_inv f xs ys (length ys) \<Longrightarrow> ys = sort_key f xs"
  by (rule properties_for_sort_key [symmetric]) (auto simp: gnome_inv_def eq_commute)

section \<open>The sort\<close>

definition line_length :: "string option \<Rightarrow> nat" where
  "line_length p = length (cstr (the p))"

lemma slot_strlen_items:
  assumes "hw05_ok sv" and "None \<notin> set (items sv)" and "i < length (items sv)"
  shows "slot_strlen sv (int i) = Inr (line_length (items sv ! i))"
proof -
  have len: "length (items sv) = nat (sv_spaces sv)" using assms(1) by (simp add: hw05_ok_def length_items)
  have get: "svec_get sv (int i) = Inr (items sv ! i)"
    using svec_get_items [OF assms(1), of "int i"] assms(3) len by simp
  obtain t where "items sv ! i = Some t" using assms(2,3) by (metis nth_mem option.exhaust)
  then show ?thesis using get assms(3) len
    by (auto simp: slot_strlen_def svec_get_def line_length_def bind_res_eq_Inr split: if_splits)
qed

text \<open>
  The loop brings its index to the end of the strings with all of them sorted. Every iteration either
  moves on or removes an inversion.
\<close>

lemma gnome_loop_run:
  assumes "hw05_ok sv" and "None \<notin> set (items sv)" and "gnome_inv line_length xs (items sv) i"
    and "i \<le> length (items sv)"
  shows "\<exists>sv'. gnome_loop sv (int i) = gnome_loop sv' (sv_spaces sv) \<and> hw05_ok sv' \<and>
    sv_spaces sv' = sv_spaces sv \<and> sv_size sv' = sv_size sv \<and>
    drop (nat (sv_spaces sv)) (sv_data sv') = drop (nat (sv_spaces sv)) (sv_data sv) \<and>
    items sv' = sort_key line_length xs"
  using assms
proof (induction "(inversions line_length (items sv), length (items sv) - i)" arbitrary: sv i
    rule: wf_induct_rule [OF wf_lex_prod [OF wf_less_than wf_less_than]])
  case (1 sv i)
  have shape: "svec_shape sv" using 1(2) by (simp add: hw05_ok_def)
  have len: "length (items sv) = nat (sv_spaces sv)" using shape by (simp add: length_items)
  show ?case
  proof (cases "i = length (items sv)")
    case True
    then show ?thesis using 1(2,4) shape len gnome_inv_final [of line_length xs "items sv"]
      by (intro exI [of _ sv]) (auto simp: svec_shape_def)
  next
    case False
    then have i: "i < length (items sv)" using 1(5) by simp
    then have lt: "int i < sv_size sv" "int i < sv_spaces sv" using len shape by (auto simp: svec_shape_def)
    show ?thesis
    proof (cases "i = 0 \<or> line_length (items sv ! (i - 1)) \<le> line_length (items sv ! i)")
      case True
      have "gnome_step sv (int i) = Inr (sv, int (Suc i))"
      proof (cases "i = 0")
        case False
        then show ?thesis
          using True i slot_strlen_items [OF 1(2,3) i] slot_strlen_items [OF 1(2,3), of "i - 1"]
          by (simp add: gnome_step_def of_nat_diff)
      qed (simp add: gnome_step_def)
      then have "gnome_loop sv (int i) = gnome_loop sv (int (Suc i))"
        using lt by (subst gnome_loop.simps) simp
      moreover have "gnome_inv line_length xs (items sv) (Suc i)" by (rule gnome_inv_advance [OF 1(4) i True])
      ultimately show ?thesis using 1(1) [of sv "Suc i"] 1(2,3) i by auto
    next
      case False
      then have i0: "0 < i" and out: "line_length (items sv ! i) < line_length (items sv ! (i - 1))" by auto
      let ?ys = "(items sv)[i := items sv ! (i - 1), i - 1 := items sv ! i]"
      obtain s1 where s1: "svec_swap sv (int i) (int i - 1) = Inr s1" "hw05_ok s1"
        "sv_spaces s1 = sv_spaces sv" "items s1 = ?ys"
        using svec_swap_items [OF 1(2), of "int i" "int i - 1"] i0 lt by (auto simp: nat_diff_distrib)
      have rest: "sv_size s1 = sv_size sv"
        "drop (nat (sv_spaces sv)) (sv_data s1) = drop (nat (sv_spaces sv)) (sv_data sv)"
        using s1(1) lt i0 by (auto simp: svec_swap_def bind_res_eq_Inr dest!: wr_InrD)
      have "gnome_step sv (int i) = Inr (s1, int (i - 1))"
        using out i0 i s1(1) slot_strlen_items [OF 1(2,3) i] slot_strlen_items [OF 1(2,3), of "i - 1"]
        by (simp add: gnome_step_def of_nat_diff)
      then have "gnome_loop sv (int i) = gnome_loop s1 (int (i - 1))"
        using lt by (subst gnome_loop.simps) simp
      moreover have "None \<notin> set (items s1)"
        using 1(3) s1(4) i i0 by (auto dest!: set_update_subset_insert [THEN subsetD])
      ultimately show ?thesis
        using 1(1) [of s1 "i - 1"] gnome_inv_swap [OF 1(4) i0 i out] s1 rest i by auto
    qed
  qed
qed

lemma sort_key_short: "length xs \<le> 1 \<Longrightarrow> sort_key f xs = xs"
  by (cases xs) auto

text \<open>
  C29. On a vector that is filled to its capacity the sort ends, and the result is the stable sort of the
  strings by length: the same as the library function \<open>sort_key\<close>.
\<close>

theorem length_sort_stable:
  assumes "hw05_ok sv" and "None \<notin> set (items sv)" and "sv_spaces sv = sv_size sv"
  shows "\<exists>sv'. length_sort sv = Some (Inr sv') \<and> items sv' = sort_key line_length (items sv)"
proof (cases "sv_size sv > 1")
  case True
  obtain sv' where sv': "gnome_loop sv 0 = gnome_loop sv' (sv_spaces sv)" "sv_size sv' = sv_size sv"
    "items sv' = sort_key line_length (items sv)"
    using gnome_loop_run [OF assms(1,2), of "items sv" 0] by (auto simp: gnome_inv_def)
  moreover have "gnome_loop sv' (sv_spaces sv) = Some (Inr sv')"
    using assms(3) sv'(2) by (subst gnome_loop.simps) simp
  ultimately show ?thesis using True by (simp add: length_sort_def)
next
  case False
  then have "length (items sv) \<le> 1" using assms by (simp add: hw05_ok_def length_items)
  then show ?thesis using False by (simp add: length_sort_def sort_key_short)
qed

definition ex_lines :: svec where
  "ex_lines = \<lparr>sv_size = 3, sv_spaces = 3, sv_data = [Str ''ccc'', Str ''bb'', Str ''aa'']\<rparr>"

theorem length_sort_stable_witness:
  "\<exists>sv'. length_sort ex_lines = Some (Inr sv') \<and> items sv' = [Some ''bb'', Some ''aa'', Some ''ccc'']"
proof -
  have it: "items ex_lines = [Some ''ccc'', Some ''bb'', Some ''aa'']"
    by (simp add: ex_lines_def items_def slot_val_def eval_nat_numeral)
  have "sort_key line_length [Some ''ccc'', Some ''bb'', Some ''aa''] = [Some ''bb'', Some ''aa'', Some ''ccc'']"
    by (simp add: line_length_def cstr_def)
  then show ?thesis using length_sort_stable [of ex_lines] it
    by (auto simp: hw05_ok_def svec_shape_def ex_lines_def)
qed

text \<open>
  On a vector with unused slots the loop, whose bound is the capacity, takes the length of a slot
  that holds no string: a null pointer or uninitialised memory.
\<close>

theorem length_sort_reads_unused:
  assumes ok: "hw05_ok sv" "None \<notin> set (items sv)" and room: "sv_spaces sv < sv_size sv" "1 < sv_size sv"
    and unused: "\<forall>s\<in>set (drop (nat (sv_spaces sv)) (sv_data sv)). s = Null \<or> s = Uninit"
  shows "length_sort sv = Some (Inl NullDeref) \<or> length_sort sv = Some (Inl Undefined)"
proof -
  have shape: "svec_shape sv" using ok(1) by (simp add: hw05_ok_def)
  obtain sv' where sv': "gnome_loop sv 0 = gnome_loop sv' (sv_spaces sv)" "sv_size sv' = sv_size sv"
    "sv_spaces sv' = sv_spaces sv" "hw05_ok sv'"
    "drop (nat (sv_spaces sv)) (sv_data sv') = drop (nat (sv_spaces sv)) (sv_data sv)"
    using gnome_loop_run [OF ok, of "items sv" 0] by (auto simp: gnome_inv_def)
  have slot: "slot_strlen sv' k = Inl NullDeref \<or> slot_strlen sv' k = Inl Undefined"
    if k: "sv_spaces sv \<le> k" "k < sv_size sv" for k
  proof -
    have len: "sv_size sv = int (length (sv_data sv'))" "0 \<le> sv_spaces sv"
      using sv'(2,4) shape by (auto simp: hw05_ok_def svec_shape_def)
    then have "drop (nat (sv_spaces sv)) (sv_data sv') ! (nat k - nat (sv_spaces sv)) = sv_data sv' ! nat k"
      using k by (simp add: nat_mono)
    moreover have "drop (nat (sv_spaces sv)) (sv_data sv') ! (nat k - nat (sv_spaces sv)) \<in>
        set (drop (nat (sv_spaces sv)) (sv_data sv'))"
      using k len by (intro nth_mem) auto
    ultimately have "sv_data sv' ! nat k = Null \<or> sv_data sv' ! nat k = Uninit" using unused sv'(5) by metis
    then show ?thesis using k len by (auto simp: slot_strlen_def slot_ptr_def)
  qed
  have fails: "gnome_loop sv' k = Some (Inl NullDeref) \<or> gnome_loop sv' k = Some (Inl Undefined)"
    if k: "sv_spaces sv \<le> k" "0 < k" "k < sv_size sv" for k
    using slot [OF k(1,3)] k sv'(2) by (subst (1 2) gnome_loop.simps) (auto simp: gnome_step_def)
  show ?thesis
  proof (cases "sv_spaces sv = 0")
    case True
    have "gnome_loop sv' 0 = gnome_loop sv' 1" using room sv'(2) by (subst gnome_loop.simps) (simp add: gnome_step_def)
    then show ?thesis using fails [of 1] True room sv'(1) by (simp add: length_sort_def)
  next
    case False
    then show ?thesis using fails [of "sv_spaces sv"] room sv'(1) shape by (auto simp: length_sort_def svec_shape_def)
  qed
qed

definition ex_unused :: svec where
  "ex_unused = \<lparr>sv_size = 2, sv_spaces = 1, sv_data = [Str ''a'', Null]\<rparr>"

theorem length_sort_reads_unused_witness:
  "length_sort ex_unused = Some (Inl NullDeref) \<or> length_sort ex_unused = Some (Inl Undefined)"
  by (rule length_sort_reads_unused)
     (simp_all add: ex_unused_def hw05_ok_def svec_shape_def items_def slot_val_def)

end
