(* ===== verification/Kalloc.thy ===== *)
theory Kalloc
  imports Xstring
begin

text \<open>
  The physical page allocator of xv6 (\<^verbatim>\<open>hw09/starter-hw09/xv6/kalloc.c\<close>) and the setting in which
  the memory code of the kernel is verified. Kernel memory is the byte memory at the kernel's
  virtual addresses; a pointer outside the mapped part of it is an error. A function is a state
  transformer that may fail or run forever (\<open>None\<close>), and \<open>wpk m Q s\<close> says that \<open>m\<close> returns when
  run in \<open>s\<close> with a result and a state that satisfy \<open>Q\<close>. The locale \<open>page_allocator\<close> is what the
  page-table code of the theory \<^verbatim>\<open>Vm\<close> relies on.
\<close>

section \<open>State transformers\<close>

type_synonym ('s, 'a) kfun = "'s \<Rightarrow> ('s \<times> 'a) res option"

definition bindK :: "('s, 'a) kfun \<Rightarrow> ('a \<Rightarrow> ('s, 'b) kfun) \<Rightarrow> ('s, 'b) kfun" where
  "bindK m f s = Option.bind (m s) (\<lambda>r. case r of Inl e \<Rightarrow> Some (Inl e) | Inr p \<Rightarrow> f (snd p) (fst p))"

definition retK :: "'a \<Rightarrow> ('s, 'a) kfun" where
  "retK a s = Some (Inr (s, a))"

definition failK :: "c_error \<Rightarrow> ('s, 'a) kfun" where
  "failK e s = Some (Inl e)"

definition getK :: "('s \<Rightarrow> 'a) \<Rightarrow> ('s, 'a) kfun" where
  "getK f s = Some (Inr (s, f s))"

definition modK :: "('s \<Rightarrow> 's) \<Rightarrow> ('s, unit) kfun" where
  "modK f s = Some (Inr (f s, ()))"

lemma bindK_mono [partial_function_mono]:
  assumes "\<And>s. mono_option (\<lambda>f. B f s)" "\<And>y s. mono_option (\<lambda>f. C y f s)"
  shows "mono_option (\<lambda>f. bindK (B f) (\<lambda>y. C y f) s)"
  unfolding bindK_def
  by (rule bind_mono [OF assms(1)], rename_tac r, case_tac r) (auto intro: assms option.const_mono)

lemma if_state_mono [partial_function_mono]:
  assumes "mono_option (\<lambda>f. B f s)" "mono_option (\<lambda>f. C f s)"
  shows "mono_option (\<lambda>f. (if b then B f else C f) s)"
  using assms by (cases b) simp_all

definition wpk :: "('s, 'a) kfun \<Rightarrow> ('a \<Rightarrow> 's \<Rightarrow> bool) \<Rightarrow> 's \<Rightarrow> bool" where
  "wpk m Q s \<longleftrightarrow> (\<exists>s' a. m s = Some (Inr (s', a)) \<and> Q a s')"

lemma wpk_bind [simp]: "wpk (bindK m f) Q = wpk m (\<lambda>a. wpk (f a) Q)"
proof
  fix s
  show "wpk (bindK m f) Q s = wpk m (\<lambda>a. wpk (f a) Q) s"
    by (cases "m s") (auto simp: wpk_def bindK_def split: sum.splits)
qed

lemma wpk_ret [simp]: "wpk (retK a) Q = Q a"
  by (simp add: fun_eq_iff wpk_def retK_def)

lemma wpk_fail [simp]: "\<not> wpk (failK e) Q s"
  by (simp add: wpk_def failK_def)

lemma wpk_get [simp]: "wpk (getK f) Q = (\<lambda>s. Q (f s) s)"
  by (simp add: fun_eq_iff wpk_def getK_def)

lemma wpk_mod [simp]: "wpk (modK f) Q = (\<lambda>s. Q () (f s))"
  by (simp add: fun_eq_iff wpk_def modK_def)

lemma wpk_mono: "wpk m Q s \<Longrightarrow> (\<And>a s'. Q a s' \<Longrightarrow> R a s') \<Longrightarrow> wpk m R s"
  by (auto simp: wpk_def)

lemma wpk_conj: "wpk m Q s \<Longrightarrow> wpk m R s \<Longrightarrow> wpk m (\<lambda>a s'. Q a s' \<and> R a s') s"
  by (auto simp: wpk_def)

lemma wpk_if: "wpk (if b then m else m') Q s \<longleftrightarrow> (if b then wpk m Q s else wpk m' Q s)"
  by simp

section \<open>Kernel memory\<close>

definition KERNBASE :: "32 word" where "KERNBASE = 0x80000000"

definition PHYSTOP :: "32 word" where "PHYSTOP = 0xE000000"

definition PGSIZE :: nat where "PGSIZE = 4096"

definition V2P :: "32 word \<Rightarrow> 32 word" where "V2P a = a - KERNBASE"

definition P2V :: "32 word \<Rightarrow> 32 word" where "P2V a = a + KERNBASE"

definition PGROUNDUP :: "32 word \<Rightarrow> 32 word" where
  "PGROUNDUP sz = (sz + 0xFFF) AND NOT 0xFFF"

definition PGROUNDDOWN :: "32 word \<Rightarrow> 32 word" where
  "PGROUNDDOWN a = a AND NOT 0xFFF"

text \<open>
  The state: memory, the head of the free list and the lock flag of \<^verbatim>\<open>kmem\<close>; and the two symbols
  that the linker script defines, the end of the kernel image and the start of its data.
\<close>

record kernel =
  k_mem :: mem
  freelist :: "32 word"
  use_lock :: bool
  k_end :: "32 word"
  k_data :: "32 word"

type_synonym 'a km = "(kernel, 'a) kfun"

text \<open>Accesses through kernel pointers: physical memory is mapped from \<^verbatim>\<open>KERNBASE\<close> on.\<close>

definition kptr :: "nat \<Rightarrow> nat \<Rightarrow> bool" where
  "kptr a n \<longleftrightarrow> unat KERNBASE \<le> a \<and> a + n \<le> unat KERNBASE + unat PHYSTOP"

definition rd32 :: "32 word \<Rightarrow> 32 word km" where
  "rd32 p s =
     (if kptr (unat p) 4 then Some (Inr (s, load32 (k_mem s) (unat p))) else Some (Inl OutOfBounds))"

definition wr32 :: "32 word \<Rightarrow> 32 word \<Rightarrow> unit km" where
  "wr32 p w s =
     (if kptr (unat p) 4 then Some (Inr (s\<lparr>k_mem := store32 (k_mem s) (unat p) w\<rparr>, ()))
      else Some (Inl OutOfBounds))"

definition kmemset :: "32 word \<Rightarrow> 32 word \<Rightarrow> nat \<Rightarrow> unit km" where
  "kmemset p c n s =
     (if kptr (unat p) n then Some (Inr (s\<lparr>k_mem := memset (k_mem s) (unat p) c n\<rparr>, ()))
      else Some (Inl OutOfBounds))"

definition kmemmove :: "32 word \<Rightarrow> 32 word \<Rightarrow> nat \<Rightarrow> unit km" where
  "kmemmove dst src n s =
     (if kptr (unat dst) n \<and> kptr (unat src) n
      then Some (Inr (s\<lparr>k_mem := memmove (k_mem s) (unat dst) (unat src) n\<rparr>, ()))
      else Some (Inl OutOfBounds))"

section \<open>The allocator\<close>

definition kfree :: "32 word \<Rightarrow> unit km" where
  "kfree v =
     bindK (getK k_end) (\<lambda>end.
     if unat v mod PGSIZE \<noteq> 0 \<or> v < end \<or> V2P v \<ge> PHYSTOP then failK (Panic ''kfree'')
     else bindK (kmemset v 1 PGSIZE) (\<lambda>_.
          bindK (getK freelist) (\<lambda>next.
          bindK (wr32 v next) (\<lambda>_. modK (\<lambda>s. s\<lparr>freelist := v\<rparr>)))))"

definition kalloc :: "32 word km" where
  "kalloc =
     bindK (getK freelist) (\<lambda>r.
     bindK (if r \<noteq> 0 then bindK (rd32 r) (\<lambda>next. modK (\<lambda>s. s\<lparr>freelist := next\<rparr>)) else retK ()) (\<lambda>_.
     retK r))"

partial_function (option) freerange_loop :: "32 word \<Rightarrow> 32 word \<Rightarrow> kernel \<Rightarrow> (kernel \<times> unit) res option" where
  "freerange_loop vend p s =
     (if p + word_of_nat PGSIZE \<le> vend
      then bindK (kfree p) (\<lambda>_. freerange_loop vend (p + word_of_nat PGSIZE)) s
      else retK () s)"

lemma freerange_loop_unfold:
  "freerange_loop vend p =
     (if p + word_of_nat PGSIZE \<le> vend
      then bindK (kfree p) (\<lambda>_. freerange_loop vend (p + word_of_nat PGSIZE)) else retK ())"
  by (rule ext, subst freerange_loop.simps) simp

definition freerange :: "32 word \<Rightarrow> 32 word \<Rightarrow> unit km" where
  "freerange vstart vend = freerange_loop vend (PGROUNDUP vstart)"

definition kinit1 :: "32 word \<Rightarrow> 32 word \<Rightarrow> unit km" where
  "kinit1 vstart vend = bindK (modK (\<lambda>s. s\<lparr>use_lock := False\<rparr>)) (\<lambda>_. freerange vstart vend)"

definition kinit2 :: "32 word \<Rightarrow> 32 word \<Rightarrow> unit km" where
  "kinit2 vstart vend = bindK (freerange vstart vend) (\<lambda>_. modK (\<lambda>s. s\<lparr>use_lock := True\<rparr>))"

section \<open>Pages\<close>

text \<open>A page that the allocator may handle, and the list of the free ones.\<close>

definition kpage :: "kernel \<Rightarrow> 32 word \<Rightarrow> bool" where
  "kpage s p \<longleftrightarrow> unat p mod PGSIZE = 0 \<and> k_end s \<le> p \<and> V2P p < PHYSTOP"

fun free_pages :: "mem \<Rightarrow> 32 word \<Rightarrow> 32 word list \<Rightarrow> bool" where
  "free_pages m p [] \<longleftrightarrow> p = 0"
| "free_pages m p (q # qs) \<longleftrightarrow> p = q \<and> free_pages m (load32 m (unat q)) qs"

definition kmem_ok :: "kernel \<Rightarrow> 32 word list \<Rightarrow> bool" where
  "kmem_ok s ps \<longleftrightarrow>
     KERNBASE < k_end s \<and> free_pages (k_mem s) (freelist s) ps \<and> distinct ps \<and> (\<forall>p\<in>set ps. kpage s p)"

text \<open>Memory is the same outside a set of pages.\<close>

definition on_page :: "32 word \<Rightarrow> nat \<Rightarrow> bool" where
  "on_page p a \<longleftrightarrow> unat p \<le> a \<and> a < unat p + PGSIZE"

definition changes :: "kernel \<Rightarrow> kernel \<Rightarrow> 32 word set \<Rightarrow> bool" where
  "changes s s' P \<longleftrightarrow>
     k_end s' = k_end s \<and> k_data s' = k_data s \<and>
     (\<forall>a. (\<forall>p\<in>P. \<not> on_page p a) \<longrightarrow> k_mem s' a = k_mem s a)"

lemma changes_refl [simp]: "changes s s P"
  by (simp add: changes_def)

lemma changes_mono: "changes s s' P \<Longrightarrow> P \<subseteq> Q \<Longrightarrow> changes s s' Q"
  unfolding changes_def by blast

lemma changes_trans: "changes s s' P \<Longrightarrow> changes s' s'' Q \<Longrightarrow> changes s s'' (P \<union> Q)"
  unfolding changes_def by (auto 0 4)

lemma changes_kpage: "changes s s' P \<Longrightarrow> kpage s' p = kpage s p"
  by (simp add: changes_def kpage_def)

text \<open>The words of a page, and two different pages.\<close>

lemma kpage_bounds:
  assumes "kpage s p" and "KERNBASE < k_end s"
  shows "unat KERNBASE < unat p" "unat p + PGSIZE \<le> unat KERNBASE + unat PHYSTOP" "p \<noteq> 0"
proof -
  have lo: "KERNBASE < p" using assms unfolding kpage_def by (auto intro: order.strict_trans2)
  then show "unat KERNBASE < unat p" by (simp add: word_less_nat_alt)
  then have "unat (V2P p) = unat p - unat KERNBASE"
    unfolding V2P_def by (intro unat_sub) (simp add: word_le_nat_alt)
  then have "unat p - unat KERNBASE < unat PHYSTOP" using assms by (simp add: kpage_def word_less_nat_alt)
  moreover obtain i where "unat p = 4096 * i"
    using assms by (auto simp: kpage_def PGSIZE_def mod_eq_0_iff_dvd elim!: dvdE)
  ultimately show "unat p + PGSIZE \<le> unat KERNBASE + unat PHYSTOP"
    using \<open>unat KERNBASE < unat p\<close> by (simp add: KERNBASE_def PHYSTOP_def PGSIZE_def)
  show "p \<noteq> 0" using \<open>unat KERNBASE < unat p\<close> by auto
qed

lemma aligned_apart:
  assumes "unat p mod PGSIZE = 0" and "unat q mod PGSIZE = 0" and "p \<noteq> q"
  shows "unat p + PGSIZE \<le> unat q \<or> unat q + PGSIZE \<le> unat p"
proof -
  obtain i j where ij: "unat p = PGSIZE * i" "unat q = PGSIZE * j"
    using assms(1,2) by (auto simp: mod_eq_0_iff_dvd elim!: dvdE)
  then have "i \<noteq> j" using assms(3) by (auto simp: word_unat_eq_iff)
  then have "Suc i \<le> j \<or> Suc j \<le> i" by linarith
  then show ?thesis unfolding ij by (metis add.commute mult_Suc_right mult_le_mono2)
qed

lemma aligned_on_page:
  assumes "unat p mod PGSIZE = 0" and "unat q mod PGSIZE = 0" and "on_page p a" "on_page q a"
  shows "p = q"
  using aligned_apart [OF assms(1,2)] assms(3,4) by (auto simp: on_page_def)

lemma changes_load:
  assumes "changes s s' P" and "unat q mod PGSIZE = 0" and "\<forall>p\<in>P. unat p mod PGSIZE = 0" and "q \<notin> P"
    and "i < 1024"
  shows "load32 (k_mem s') (unat q + 4 * i) = load32 (k_mem s) (unat q + 4 * i)"
proof (rule load32_cong)
  fix j :: nat assume "j < 4"
  then have "on_page q (unat q + 4 * i + j)" using assms(5) by (simp add: on_page_def PGSIZE_def)
  then have "\<forall>p\<in>P. \<not> on_page p (unat q + 4 * i + j)" using aligned_on_page [OF _ assms(2)] assms(3,4) by metis
  then show "k_mem s' (unat q + 4 * i + j) = k_mem s (unat q + 4 * i + j)" using assms(1) by (simp add: changes_def)
qed

lemma changes_free_pages:
  assumes ch: "changes s s' P" and P: "\<forall>p\<in>P. unat p mod PGSIZE = 0"
  shows "free_pages (k_mem s) p ps \<Longrightarrow> \<forall>q\<in>set ps. unat q mod PGSIZE = 0 \<and> q \<notin> P \<Longrightarrow> free_pages (k_mem s') p ps"
proof (induction ps arbitrary: p)
  case (Cons q qs)
  then have "load32 (k_mem s') (unat q) = load32 (k_mem s) (unat q)"
    using changes_load [OF ch _ P, of q 0] by simp
  then show ?case using Cons by simp
qed simp

text \<open>A change of pages that are not free leaves the allocator alone.\<close>

lemma kmem_ok_changes:
  assumes "kmem_ok s ps" and "changes s s' P" and "freelist s' = freelist s"
    and "\<forall>p\<in>P. unat p mod PGSIZE = 0 \<and> p \<notin> set ps"
  shows "kmem_ok s' ps"
proof -
  have ps: "\<forall>q\<in>set ps. kpage s q" "free_pages (k_mem s) (freelist s) ps" "distinct ps" "KERNBASE < k_end s"
    using assms(1) by (simp_all add: kmem_ok_def)
  have "free_pages (k_mem s') (freelist s) ps"
    using changes_free_pages [OF assms(2) _ ps(2)] ps(1) assms(4) by (auto simp: kpage_def)
  then show ?thesis using ps assms(2,3) changes_kpage [OF assms(2)] by (simp add: kmem_ok_def changes_def)
qed

lemma wpk_rd32:
  "kptr (unat p) 4 \<Longrightarrow> Q (load32 (k_mem s) (unat p)) s \<Longrightarrow> wpk (rd32 p) Q s"
  by (simp add: wpk_def rd32_def)

lemma wpk_wr32:
  "kptr (unat p) 4 \<Longrightarrow> Q () (s\<lparr>k_mem := store32 (k_mem s) (unat p) w\<rparr>) \<Longrightarrow> wpk (wr32 p w) Q s"
  by (simp add: wpk_def wr32_def)

lemma wpk_kmemset:
  "kptr (unat p) n \<Longrightarrow> Q () (s\<lparr>k_mem := memset (k_mem s) (unat p) c n\<rparr>) \<Longrightarrow> wpk (kmemset p c n) Q s"
  by (simp add: wpk_def kmemset_def)

lemma wpk_kmemmove:
  "kptr (unat d) n \<Longrightarrow> kptr (unat p) n \<Longrightarrow>
   Q () (s\<lparr>k_mem := memmove (k_mem s) (unat d) (unat p) n\<rparr>) \<Longrightarrow> wpk (kmemmove d p n) Q s"
  by (simp add: wpk_def kmemmove_def)

lemma memset_at: "memset m dst c n a = (if dst \<le> a \<and> a < dst + n then ucast c else m a)"
  using memset_fills [of m dst c n] by metis

lemma wpk_kalloc:
  assumes "kmem_ok s ps"
  shows "wpk kalloc (\<lambda>r s'. changes s s' {} \<and> k_mem s' = k_mem s \<and>
    (case ps of [] \<Rightarrow> r = 0 \<and> s' = s | p # ps' \<Rightarrow> r = p \<and> kmem_ok s' ps')) s"
proof (cases ps)
  case Nil
  then have "freelist s = 0" using assms by (simp add: kmem_ok_def)
  then show ?thesis using Nil by (simp add: kalloc_def)
next
  case (Cons p ps')
  have p: "freelist s = p" "kpage s p" "KERNBASE < k_end s" using assms Cons by (auto simp: kmem_ok_def)
  have "kptr (unat p) 4" "p \<noteq> 0" using kpage_bounds [OF p(2,3)] by (auto simp: kptr_def PGSIZE_def)
  moreover have "kmem_ok (s\<lparr>freelist := load32 (k_mem s) (unat p)\<rparr>) ps'"
    using assms Cons by (auto simp: kmem_ok_def kpage_def)
  ultimately show ?thesis using Cons p(1)
    by (auto simp: kalloc_def changes_def intro: wpk_rd32)
qed

lemma wpk_kfree:
  assumes ok: "kmem_ok s ps" and v: "kpage s v" "v \<notin> set ps"
  shows "wpk (kfree v) (\<lambda>_ s'. changes s s' {v} \<and> kmem_ok s' (v # ps)) s"
proof -
  have e: "KERNBASE < k_end s" using ok by (simp add: kmem_ok_def)
  note b = kpage_bounds [OF v(1) e]
  have al: "unat v mod PGSIZE = 0" using v(1) by (simp add: kpage_def)
  define s1 where "s1 = s\<lparr>k_mem := memset (k_mem s) (unat v) 1 PGSIZE\<rparr>"
  define s2 where "s2 = s1\<lparr>k_mem := store32 (k_mem s1) (unat v) (freelist s)\<rparr>"
  have ch1: "changes s s1 {v}" by (auto simp: changes_def s1_def memset_at on_page_def)
  have ch2: "changes s1 s2 {v}"
    by (auto simp: changes_def s2_def on_page_def PGSIZE_def mem_simps not_less not_le)
  have ch: "changes s s2 {v}" using changes_trans [OF ch1 ch2] by simp
  have head: "load32 (k_mem s2) (unat v) = freelist s" by (simp add: s2_def mem_simps)
  have "kmem_ok s2 ps"
    using ok ch by (rule kmem_ok_changes) (use al v(2) in \<open>auto simp: s2_def s1_def\<close>)
  then have "kmem_ok (s2\<lparr>freelist := v\<rparr>) (v # ps)"
    using v head changes_kpage [OF ch, of v] by (auto simp: kmem_ok_def kpage_def s2_def s1_def)
  moreover have "changes s (s2\<lparr>freelist := v\<rparr>) {v}" using ch by (simp add: changes_def)
  moreover have "kptr (unat v) PGSIZE" "kptr (unat v) 4" using b by (auto simp: kptr_def PGSIZE_def)
  moreover have "\<not> (unat v mod PGSIZE \<noteq> 0 \<or> v < k_end s \<or> V2P v \<ge> PHYSTOP)"
    using v(1) by (auto simp: kpage_def)
  ultimately show ?thesis
    unfolding kfree_def by (auto intro!: wpk_kmemset wpk_wr32 simp flip: s1_def) (simp_all add: s2_def s1_def)
qed

lemma kfree_panics:
  "\<not> kpage s v \<Longrightarrow> kfree v s = Some (Inl (Panic ''kfree''))"
  by (auto simp: kfree_def kpage_def bindK_def getK_def failK_def)

section \<open>The contract of a page allocator\<close>

text \<open>
  \<open>ready s ps\<close>: the allocator may hand out the pages \<open>ps\<close>, in this order. Allocation takes the first
  one or reports that there is none; release takes any page of the right kind that is not free;
  and the allocator keeps its state in the free pages, so the rest of memory is the client's.
\<close>

locale page_allocator =
  fixes ready :: "kernel \<Rightarrow> 32 word list \<Rightarrow> bool"
    and alloc :: "32 word km"
    and release :: "32 word \<Rightarrow> unit km"
  assumes ready_pages: "ready s ps \<Longrightarrow> distinct ps \<and> (\<forall>p\<in>set ps. kpage s p) \<and> KERNBASE < k_end s"
    and ready_changes: "ready s ps \<Longrightarrow> changes s s' P \<Longrightarrow> freelist s' = freelist s \<Longrightarrow>
      \<forall>p\<in>P. unat p mod PGSIZE = 0 \<and> p \<notin> set ps \<Longrightarrow> ready s' ps"
    and alloc_first: "ready s (p # ps) \<Longrightarrow>
      wpk alloc (\<lambda>r s'. r = p \<and> changes s s' {} \<and> ready s' ps) s"
    and alloc_none: "ready s [] \<Longrightarrow> wpk alloc (\<lambda>r s'. r = 0 \<and> s' = s) s"
    and release_page: "ready s ps \<Longrightarrow> kpage s v \<Longrightarrow> v \<notin> set ps \<Longrightarrow>
      wpk (release v) (\<lambda>_ s'. changes s s' {v} \<and> ready s' (v # ps)) s"
begin

text \<open>The sequence that the page-table code uses three times: a page, filled with zeros.\<close>

lemma alloc_zeroed:
  assumes "ready s (p # ps)"
    and "\<And>s'. changes s s' {p} \<Longrightarrow> ready s' ps \<Longrightarrow> (\<forall>a. on_page p a \<longrightarrow> k_mem s' a = 0) \<Longrightarrow> wpk (f p) Q s'"
  shows "wpk (bindK alloc (\<lambda>r. if r = 0 then g else bindK (kmemset r 0 PGSIZE) (\<lambda>_. f r))) Q s"
proof -
  have p: "kpage s p" "KERNBASE < k_end s" "p \<notin> set ps" using ready_pages [OF assms(1)] by auto
  note b = kpage_bounds [OF p(1,2)]
  have zero: "wpk (bindK (kmemset p 0 PGSIZE) (\<lambda>_. f p)) Q s1" if s1: "changes s s1 {}" "ready s1 ps" for s1
  proof -
    let ?s2 = "s1\<lparr>k_mem := memset (k_mem s1) (unat p) 0 PGSIZE\<rparr>"
    have ch: "changes s1 ?s2 {p}" by (auto simp: changes_def memset_at on_page_def)
    have "ready ?s2 ps" by (rule ready_changes [OF s1(2) ch]) (use p in \<open>auto simp: kpage_def\<close>)
    moreover have "changes s ?s2 {p}" using changes_trans [OF s1(1) ch] by simp
    moreover have "\<forall>a. on_page p a \<longrightarrow> k_mem ?s2 a = 0" by (simp add: memset_at on_page_def)
    moreover have "kptr (unat p) PGSIZE" using b by (simp add: kptr_def)
    ultimately show ?thesis using assms(2) by (auto intro: wpk_kmemset)
  qed
  show ?thesis using wpk_mono [OF alloc_first [OF assms(1)]] zero b(3) by (auto intro: wpk_mono [OF alloc_first [OF assms(1)]])
qed

text \<open>A page that is released is the next one to be handed out.\<close>

lemma release_alloc:
  assumes "ready s ps" and "kpage s v" and "v \<notin> set ps"
  shows "wpk (bindK (release v) (\<lambda>_. alloc)) (\<lambda>r s'. r = v \<and> ready s' ps) s"
  using release_page [OF assms] by (auto intro!: wpk_mono [OF release_page [OF assms]] wpk_mono [OF alloc_first])

end

interpretation ka: page_allocator kmem_ok kalloc kfree
proof
  show "wpk kalloc (\<lambda>r s'. r = p \<and> changes s s' {} \<and> kmem_ok s' ps) s" if "kmem_ok s (p # ps)" for s p ps
    using wpk_kalloc [OF that] by (rule wpk_mono) auto
  show "wpk kalloc (\<lambda>r s'. r = 0 \<and> s' = s) s" if "kmem_ok s []" for s
    using wpk_kalloc [OF that] by (rule wpk_mono) auto
  show "distinct ps \<and> (\<forall>p\<in>set ps. kpage s p) \<and> KERNBASE < k_end s" if "kmem_ok s ps" for s ps
    using that by (simp add: kmem_ok_def)
qed (auto intro: kmem_ok_changes wpk_kfree)

section \<open>Initialisation\<close>

lemma unat_small: "k < 2 ^ 32 \<Longrightarrow> unat (word_of_nat k :: 32 word) = k"
  by (simp add: unsigned_of_nat take_bit_nat_eq_self)

lemma round_down_word: "(w :: 32 word) AND NOT 0xFFF = push_bit 12 (drop_bit 12 w)"
proof -
  have "w AND NOT (mask 12) = push_bit 12 (drop_bit 12 w)" by (intro bit_word_eqI) (auto simp: bit_simps)
  moreover have "(0xFFF :: 32 word) = mask 12" by (simp add: mask_eq_exp_minus_1)
  ultimately show ?thesis by metis
qed

lemma unat_round_down: "unat ((w :: 32 word) AND NOT 0xFFF) = unat w div 4096 * 4096"
proof -
  have "unat (drop_bit 12 w) = unat w div 4096" by (simp only: unat_drop_bit_eq drop_bit_eq_div) (simp add: unat_div)
  moreover have "unat w div 4096 * 4096 < 2 ^ 32"
    using unsigned_less [of w, where ?'a = nat] by (intro le_less_trans [OF div_times_less_eq_dividend]) simp
  ultimately show ?thesis unfolding round_down_word
    by (simp only: unsigned_push_bit_eq push_bit_nat_def) (simp add: take_bit_nat_eq_self)
qed

lemma unat_PGROUNDUP:
  assumes "unat a \<le> 2 ^ 32 - 4096"
  shows "unat (PGROUNDUP a) = (unat a + 4095) div 4096 * 4096"
proof -
  have "unat (a + 0xFFF) = unat a + 4095" using assms by (subst unat_add_lem [THEN iffD1]) auto
  then show ?thesis unfolding PGROUNDUP_def unat_round_down by simp
qed

text \<open>The pages that \<^verbatim>\<open>freerange\<close> puts on the list, the last one first.\<close>

definition pages_in :: "nat \<Rightarrow> nat \<Rightarrow> 32 word list" where
  "pages_in lo hi = map (\<lambda>i. word_of_nat (4096 * i)) [(lo + 4095) div 4096..<hi div 4096]"

lemma pages_in_iff:
  "p \<in> set (pages_in lo hi) \<longleftrightarrow> (\<exists>i. p = word_of_nat (4096 * i) \<and> lo \<le> 4096 * i \<and> i < hi div 4096)"
proof -
  have "(lo + 4095) div 4096 \<le> i \<longleftrightarrow> lo \<le> 4096 * i" for i by linarith
  then show ?thesis by (auto simp: pages_in_def)
qed

lemma freerange_loop_ok:
  assumes "kmem_ok s ps" and "i \<le> hi div 4096" and "unat (k_end s) \<le> 4096 * i"
    and "hi \<le> unat KERNBASE + unat PHYSTOP" and "unat vend = hi" and "unat p = 4096 * i"
    and "\<And>j. i \<le> j \<Longrightarrow> j < hi div 4096 \<Longrightarrow> word_of_nat (4096 * j) \<notin> set ps"
  shows "wpk (freerange_loop vend p)
    (\<lambda>_ s'. changes s s' (set (map (\<lambda>i. word_of_nat (4096 * i)) [i..<hi div 4096])) \<and>
       kmem_ok s' (rev (map (\<lambda>i. word_of_nat (4096 * i)) [i..<hi div 4096]) @ ps)) s"
  using assms
proof (induction "hi div 4096 - i" arbitrary: i p s ps)
  case 0
  have "unat (p + word_of_nat PGSIZE) = 4096 * i + 4096"
    using 0 by (subst unat_add_lem [THEN iffD1]) (auto simp: PGSIZE_def KERNBASE_def PHYSTOP_def)
  then have "\<not> p + word_of_nat PGSIZE \<le> vend" using 0 by (simp add: word_le_nat_alt)
  then show ?case using 0 by (subst freerange_loop_unfold) simp
next
  case (Suc n)
  let ?q = "\<lambda>i. word_of_nat (4096 * i) :: 32 word"
  have i: "i < hi div 4096" using Suc.hyps(2) by linarith
  have next_p: "unat (p + word_of_nat PGSIZE) = 4096 * Suc i"
    using Suc.prems i by (subst unat_add_lem [THEN iffD1]) (auto simp: PGSIZE_def KERNBASE_def PHYSTOP_def)
  then have go: "p + word_of_nat PGSIZE \<le> vend" using Suc.prems i by (simp add: word_le_nat_alt)
  have p: "p = ?q i" using Suc.prems(6) by (metis of_nat_unat ucast_id)
  have e: "KERNBASE < k_end s" using Suc.prems(1) by (simp add: kmem_ok_def)
  have "k_end s \<le> p" using Suc.prems by (simp add: word_le_nat_alt)
  then have "KERNBASE \<le> p" using e by (meson less_imp_le order.trans)
  then have "unat (V2P p) = unat p - unat KERNBASE" unfolding V2P_def by (rule unat_sub)
  then have "V2P p < PHYSTOP" using Suc.prems i \<open>KERNBASE \<le> p\<close> by (simp add: word_less_nat_alt word_le_nat_alt)
  then have page: "kpage s p" using Suc.prems(6) \<open>k_end s \<le> p\<close> by (simp add: kpage_def PGSIZE_def)
  have inj: "?q j \<noteq> p" if "i < j" "j < hi div 4096" for j
  proof -
    have "unat (?q j) = 4096 * j"
      using that Suc.prems(4) by (intro unat_small) (auto simp: KERNBASE_def PHYSTOP_def)
    then show ?thesis using Suc.prems(6) that by auto
  qed
  have new: "p \<notin> set ps" using Suc.prems(7) [of i] i p by simp
  have split: "[i..<hi div 4096] = i # [Suc i..<hi div 4096]" using i by (rule upt_conv_Cons)
  have rest: "wpk (freerange_loop vend (p + word_of_nat PGSIZE))
      (\<lambda>_ s'. changes s1 s' (set (map ?q [Suc i..<hi div 4096])) \<and>
         kmem_ok s' (rev (map ?q [Suc i..<hi div 4096]) @ p # ps)) s1"
    if s1: "changes s s1 {p}" "kmem_ok s1 (p # ps)" for s1
    using Suc.prems Suc.hyps(2) s1 i next_p inj by (intro Suc.hyps(1)) (auto simp: changes_def)
  have "wpk (bindK (kfree p) (\<lambda>_. freerange_loop vend (p + word_of_nat PGSIZE)))
      (\<lambda>_ s'. changes s s' (set (map ?q [i..<hi div 4096])) \<and>
         kmem_ok s' (rev (map ?q [i..<hi div 4096]) @ ps)) s"
    unfolding wpk_bind
  proof (rule wpk_mono [OF wpk_kfree [OF Suc.prems(1) page new]])
    fix a s1 assume "changes s s1 {p} \<and> kmem_ok s1 (p # ps)"
    then have s1: "changes s s1 {p}" "kmem_ok s1 (p # ps)" by auto
    show "wpk (freerange_loop vend (p + word_of_nat PGSIZE))
      (\<lambda>_ s'. changes s s' (set (map ?q [i..<hi div 4096])) \<and>
         kmem_ok s' (rev (map ?q [i..<hi div 4096]) @ ps)) s1"
      by (rule wpk_mono [OF rest [OF s1]]) (use changes_trans [OF s1(1)] p split in auto)
  qed
  then show ?case using go by (subst freerange_loop_unfold) simp
qed

lemma kpage_iff:
  assumes "KERNBASE < k_end s"
  shows "kpage s p \<longleftrightarrow> (\<exists>i. unat p = 4096 * i \<and> unat (k_end s) \<le> 4096 * i \<and> i < 0x8E000)"
proof
  assume k: "kpage s p"
  have "unat p mod 4096 = 0" "k_end s \<le> p" using k by (auto simp: kpage_def PGSIZE_def)
  then obtain i where "unat p = 4096 * i" by (auto simp: mod_eq_0_iff_dvd elim!: dvdE)
  then show "\<exists>i. unat p = 4096 * i \<and> unat (k_end s) \<le> 4096 * i \<and> i < 0x8E000"
    using kpage_bounds [OF k assms] \<open>k_end s \<le> p\<close>
    by (auto simp: word_le_nat_alt KERNBASE_def PHYSTOP_def PGSIZE_def)
next
  assume "\<exists>i. unat p = 4096 * i \<and> unat (k_end s) \<le> 4096 * i \<and> i < 0x8E000"
  then obtain i where i: "unat p = 4096 * i" "unat (k_end s) \<le> 4096 * i" "i < 0x8E000" by blast
  then have "k_end s \<le> p" by (simp add: word_le_nat_alt)
  then have "KERNBASE \<le> p" using assms by (meson less_imp_le order.trans)
  then have "unat (V2P p) = unat p - unat KERNBASE" unfolding V2P_def by (rule unat_sub)
  then have "V2P p < PHYSTOP"
    using i \<open>KERNBASE \<le> p\<close> by (simp add: word_less_nat_alt word_le_nat_alt KERNBASE_def PHYSTOP_def)
  then show "kpage s p" using i \<open>k_end s \<le> p\<close> by (simp add: kpage_def PGSIZE_def)
qed

lemma wpk_freerange:
  assumes ok: "kmem_ok s ps" and lo: "k_end s \<le> vstart" "unat vstart \<le> unat vend"
    and hi: "unat vend \<le> unat KERNBASE + unat PHYSTOP"
    and new: "\<forall>p\<in>set (pages_in (unat vstart) (unat vend)). p \<notin> set ps"
  shows "wpk (freerange vstart vend)
    (\<lambda>_ s'. changes s s' (set (pages_in (unat vstart) (unat vend))) \<and>
       kmem_ok s' (rev (pages_in (unat vstart) (unat vend)) @ ps)) s"
proof (cases "(unat vstart + 4095) div 4096 \<le> unat vend div 4096")
  case True
  have up: "unat (PGROUNDUP vstart) = 4096 * ((unat vstart + 4095) div 4096)"
    using lo hi by (subst unat_PGROUNDUP) (auto simp: KERNBASE_def PHYSTOP_def)
  have "unat (k_end s) \<le> 4096 * ((unat vstart + 4095) div 4096)"
    using lo(1) unfolding word_le_nat_alt by linarith
  then show ?thesis
    using freerange_loop_ok [OF ok True _ hi refl up] new by (auto simp: freerange_def pages_in_def)
next
  case False
  have up: "unat (PGROUNDUP vstart) = 4096 * ((unat vstart + 4095) div 4096)"
    using lo hi by (subst unat_PGROUNDUP) (auto simp: KERNBASE_def PHYSTOP_def)
  have "unat (PGROUNDUP vstart + word_of_nat PGSIZE) = unat (PGROUNDUP vstart) + 4096"
    using up lo hi by (subst unat_add_lem [THEN iffD1]) (auto simp: PGSIZE_def KERNBASE_def PHYSTOP_def)
  then have "\<not> PGROUNDUP vstart + word_of_nat PGSIZE \<le> vend"
    using False up by (simp add: word_le_nat_alt)
  then show ?thesis using False ok
    by (simp add: freerange_def pages_in_def, subst freerange_loop_unfold) simp
qed

text \<open>
  The two phases of \<^verbatim>\<open>main\<close> put every whole page between the end of the kernel and \<^verbatim>\<open>PHYSTOP\<close> on the
  free list, once.
\<close>

theorem kinit_frees_all:
  assumes start: "KERNBASE < k_end s" "freelist s = 0" "k_end s \<le> mid"
    and mid: "unat mid mod 4096 = 0" "mid \<le> P2V PHYSTOP"
  shows "wpk (bindK (kinit1 (k_end s) mid) (\<lambda>_. kinit2 mid (P2V PHYSTOP)))
    (\<lambda>_ s'. \<exists>ps. kmem_ok s' ps \<and> set ps = {p. kpage s p}) s"
proof -
  let ?top = "P2V PHYSTOP" and ?s1 = "s\<lparr>use_lock := False\<rparr>"
  have top: "unat ?top = 0x8E000000" by (simp add: P2V_def PHYSTOP_def KERNBASE_def)
  define A where "A = pages_in (unat (k_end s)) (unat mid)"
  define B where "B = pages_in (unat mid) (unat ?top)"
  obtain m where m: "unat mid = 4096 * m" using mid(1) by (auto simp: mod_eq_0_iff_dvd elim!: dvdE)
  have le: "unat (k_end s) \<le> unat mid" "unat mid \<le> 0x8E000000" using start(3) mid(2) top by (auto simp: word_le_nat_alt)
  have A: "p \<in> set A \<longleftrightarrow> (\<exists>i. p = word_of_nat (4096 * i) \<and> unat (k_end s) \<le> 4096 * i \<and> i < m)" for p
    using pages_in_iff [of p "unat (k_end s)" "unat mid"] m by (simp add: A_def)
  have B: "p \<in> set B \<longleftrightarrow> (\<exists>i. p = word_of_nat (4096 * i) \<and> m \<le> i \<and> i < 0x8E000)" for p
    using pages_in_iff [of p "unat mid" "unat ?top"] m top by (simp add: B_def)
  have q: "word_of_nat (4096 * i) = (word_of_nat (4096 * j) :: 32 word) \<longleftrightarrow> i = j" if "i < 0x8E000" "j < 0x8E000" for i j
    using that unat_small [of "4096 * i"] unat_small [of "4096 * j"] by (auto simp: word_unat_eq_iff)
  have ok1: "kmem_ok ?s1 []" using start by (simp add: kmem_ok_def)
  have all: "set (rev B @ rev A) = {p. kpage s p}"
  proof (intro set_eqI iffI)
    fix p assume "p \<in> set (rev B @ rev A)"
    then obtain i where i: "p = word_of_nat (4096 * i)" "unat (k_end s) \<le> 4096 * i" "i < 0x8E000"
      using A B le m by fastforce
    then show "p \<in> {p. kpage s p}" using kpage_iff [OF start(1), of p] unat_small [of "4096 * i"] by auto
  next
    fix p assume "p \<in> {p. kpage s p}"
    then obtain i where i: "unat p = 4096 * i" "unat (k_end s) \<le> 4096 * i" "i < 0x8E000"
      using kpage_iff [OF start(1), of p] by auto
    then have "p = word_of_nat (4096 * i)" by (metis of_nat_unat ucast_id)
    then show "p \<in> set (rev B @ rev A)" using A [of p] B [of p] i by (cases "i < m") auto
  qed
  have two: "wpk (kinit2 mid ?top) (\<lambda>_ s'. \<exists>ps. kmem_ok s' ps \<and> set ps = {p. kpage s p}) s2"
    if s2: "changes ?s1 s2 (set A)" "kmem_ok s2 (rev A)" for s2
  proof -
    have new: "\<forall>p\<in>set B. p \<notin> set (rev A)" using A B q le m by auto
    have "k_end s2 \<le> mid" using s2(1) start(3) by (simp add: changes_def)
    then have "wpk (freerange mid ?top) (\<lambda>_ s'. changes s2 s' (set B) \<and> kmem_ok s' (rev B @ rev A)) s2"
      using wpk_freerange [OF s2(2), of mid ?top] le top new unfolding B_def
      by (simp add: KERNBASE_def PHYSTOP_def)
    then have "wpk (freerange mid ?top) (\<lambda>_ s'. \<exists>ps. kmem_ok (s'\<lparr>use_lock := True\<rparr>) ps \<and> set ps = {p. kpage s p}) s2"
      using all by (elim wpk_mono) (auto simp: kmem_ok_def kpage_def)
    then show ?thesis by (simp add: kinit2_def)
  qed
  have "wpk (freerange (k_end s) mid) (\<lambda>_ s'. changes ?s1 s' (set A) \<and> kmem_ok s' (rev A)) ?s1"
    using wpk_freerange [OF ok1, of "k_end s" mid] le unfolding A_def
    by (simp add: KERNBASE_def PHYSTOP_def)
  then show ?thesis using two by (auto simp: kinit1_def elim!: wpk_mono)
qed

definition ex_kernel :: kernel where
  "ex_kernel = \<lparr>k_mem = (\<lambda>a. 0), freelist = 0, use_lock = False, k_end = 0x80114000, k_data = 0x80109000\<rparr>"

theorem kinit_frees_all_witness:
  "wpk (bindK (kinit1 0x80114000 0x80400000) (\<lambda>_. kinit2 0x80400000 (P2V PHYSTOP)))
    (\<lambda>_ s'. \<exists>ps. kmem_ok s' ps \<and> set ps = {p. kpage ex_kernel p}) ex_kernel"
  using kinit_frees_all [of ex_kernel "0x80400000"]
  by (simp add: ex_kernel_def KERNBASE_def P2V_def PHYSTOP_def)

end
