(* ===== verification/Vm.thy ===== *)
theory Vm
  imports Kalloc
begin

text \<open>
  The page tables of xv6 (\<^verbatim>\<open>hw09/starter-hw09/xv6/vm.c\<close>): two levels of tables in kernel memory,
  walked, extended and torn down through the page allocator. An address space is described by the
  map from page numbers to entries that its tables define (\<open>vmap\<close>); the operations are shown to
  change exactly that map, and to use only pages that nobody else owns.
\<close>

section \<open>The code\<close>

definition EXTMEM :: "32 word" where "EXTMEM = 0x100000"

definition DEVSPACE :: "32 word" where "DEVSPACE = 0xFE000000"

definition KERNLINK :: "32 word" where "KERNLINK = KERNBASE + EXTMEM"

abbreviation PTE_P :: "32 word" where "PTE_P \<equiv> 1"

abbreviation PTE_W :: "32 word" where "PTE_W \<equiv> 2"

abbreviation PTE_U :: "32 word" where "PTE_U \<equiv> 4"

definition PDX :: "32 word \<Rightarrow> 32 word" where "PDX va = drop_bit 22 va AND 0x3FF"

definition PTX :: "32 word \<Rightarrow> 32 word" where "PTX va = drop_bit 12 va AND 0x3FF"

definition PGADDR :: "32 word \<Rightarrow> 32 word \<Rightarrow> 32 word \<Rightarrow> 32 word" where
  "PGADDR d t k = push_bit 22 d OR push_bit 12 t OR k"

definition PTE_ADDR :: "32 word \<Rightarrow> 32 word" where "PTE_ADDR pte = pte AND NOT 0xFFF"

definition PTE_FLAGS :: "32 word \<Rightarrow> 32 word" where "PTE_FLAGS pte = pte AND 0xFFF"

text \<open>\<^verbatim>\<open>memmove\<close> from bytes outside the modelled memory to a kernel address.\<close>

definition kcopyin :: "32 word \<Rightarrow> 8 word list \<Rightarrow> unit km" where
  "kcopyin dst bytes s =
     (if kptr (unat dst) (length bytes)
      then Some (Inr (s\<lparr>k_mem := write_bytes (k_mem s) (unat dst) bytes\<rparr>, ()))
      else Some (Inl OutOfBounds))"

definition walkpgdir :: "32 word \<Rightarrow> 32 word \<Rightarrow> bool \<Rightarrow> 32 word km" where
  "walkpgdir pgdir va alloc =
     bindK (rd32 (pgdir + 4 * PDX va)) (\<lambda>pde.
     if pde AND PTE_P \<noteq> 0 then retK (P2V (PTE_ADDR pde) + 4 * PTX va)
     else if \<not> alloc then retK 0
     else bindK kalloc (\<lambda>pgtab.
          if pgtab = 0 then retK 0
          else bindK (kmemset pgtab 0 PGSIZE) (\<lambda>_.
               bindK (wr32 (pgdir + 4 * PDX va) (V2P pgtab OR PTE_P OR PTE_W OR PTE_U)) (\<lambda>_.
               retK (pgtab + 4 * PTX va)))))"

partial_function (option) mappages_loop ::
  "32 word \<Rightarrow> 32 word \<Rightarrow> 32 word \<Rightarrow> 32 word \<Rightarrow> 32 word \<Rightarrow> kernel \<Rightarrow> (kernel \<times> int) res option" where
  "mappages_loop pgdir a lastp pa perm s =
     bindK (walkpgdir pgdir a True) (\<lambda>pte.
       if pte = 0 then retK (-1)
       else bindK (rd32 pte) (\<lambda>old.
            if old AND PTE_P \<noteq> 0 then failK (Panic ''remap'')
            else bindK (wr32 pte (pa OR perm OR PTE_P)) (\<lambda>_.
                 if a = lastp then retK 0
                 else mappages_loop pgdir (a + word_of_nat PGSIZE) lastp (pa + word_of_nat PGSIZE) perm))) s"

definition mappages :: "32 word \<Rightarrow> 32 word \<Rightarrow> 32 word \<Rightarrow> 32 word \<Rightarrow> 32 word \<Rightarrow> int km" where
  "mappages pgdir va sz pa perm =
     mappages_loop pgdir (PGROUNDDOWN va) (PGROUNDDOWN (va + sz - 1)) pa perm"

partial_function (option) deallocuvm_loop ::
  "32 word \<Rightarrow> 32 word \<Rightarrow> 32 word \<Rightarrow> kernel \<Rightarrow> (kernel \<times> unit) res option" where
  "deallocuvm_loop pgdir oldsz a s =
     (if a < oldsz
      then bindK (walkpgdir pgdir a False) (\<lambda>pte.
             if pte = 0
             then deallocuvm_loop pgdir oldsz (PGADDR (PDX a + 1) 0 0 - word_of_nat PGSIZE + word_of_nat PGSIZE)
             else bindK (rd32 pte) (\<lambda>e.
                    if e AND PTE_P \<noteq> 0
                    then if PTE_ADDR e = 0 then failK (Panic ''kfree'')
                         else bindK (kfree (P2V (PTE_ADDR e))) (\<lambda>_.
                              bindK (wr32 pte 0) (\<lambda>_.
                              deallocuvm_loop pgdir oldsz (a + word_of_nat PGSIZE)))
                    else deallocuvm_loop pgdir oldsz (a + word_of_nat PGSIZE))) s
      else retK () s)"

definition deallocuvm :: "32 word \<Rightarrow> 32 word \<Rightarrow> 32 word \<Rightarrow> 32 word km" where
  "deallocuvm pgdir oldsz newsz =
     (if newsz \<ge> oldsz then retK oldsz
      else bindK (deallocuvm_loop pgdir oldsz (PGROUNDUP newsz)) (\<lambda>_. retK newsz))"

partial_function (option) allocuvm_loop ::
  "32 word \<Rightarrow> 32 word \<Rightarrow> 32 word \<Rightarrow> 32 word \<Rightarrow> kernel \<Rightarrow> (kernel \<times> 32 word) res option" where
  "allocuvm_loop pgdir oldsz newsz a s =
     (if a < newsz
      then bindK kalloc (\<lambda>mem.
             if mem = 0 then bindK (deallocuvm pgdir newsz oldsz) (\<lambda>_. retK 0)
             else bindK (kmemset mem 0 PGSIZE) (\<lambda>_.
                  bindK (mappages pgdir a (word_of_nat PGSIZE) (V2P mem) (PTE_W OR PTE_U)) (\<lambda>r.
                  if r < 0
                  then bindK (deallocuvm pgdir newsz oldsz) (\<lambda>_. bindK (kfree mem) (\<lambda>_. retK 0))
                  else allocuvm_loop pgdir oldsz newsz (a + word_of_nat PGSIZE)))) s
      else retK newsz s)"

definition allocuvm :: "32 word \<Rightarrow> 32 word \<Rightarrow> 32 word \<Rightarrow> 32 word km" where
  "allocuvm pgdir oldsz newsz =
     (if newsz \<ge> KERNBASE then retK 0
      else if newsz < oldsz then retK oldsz
      else allocuvm_loop pgdir oldsz newsz (PGROUNDUP oldsz))"

text \<open>The loop of \<^verbatim>\<open>freevm\<close> over the entries of the directory, here the list of those still to visit.\<close>

fun freevm_loop :: "32 word \<Rightarrow> nat list \<Rightarrow> unit km" where
  "freevm_loop pgdir [] = retK ()"
| "freevm_loop pgdir (i # is) =
     bindK (rd32 (pgdir + 4 * word_of_nat i)) (\<lambda>e.
     bindK (if e AND PTE_P \<noteq> 0 then kfree (P2V (PTE_ADDR e)) else retK ()) (\<lambda>_.
     freevm_loop pgdir is))"

definition freevm :: "32 word \<Rightarrow> unit km" where
  "freevm pgdir =
     (if pgdir = 0 then failK (Panic ''freevm: no pgdir'')
      else bindK (deallocuvm pgdir KERNBASE 0) (\<lambda>_.
           bindK (freevm_loop pgdir [0..<1024]) (\<lambda>_.
           kfree pgdir)))"

text \<open>The table \<^verbatim>\<open>kmap\<close>: virtual start, physical start and end, permissions.\<close>

type_synonym kmap_entry = "32 word \<times> 32 word \<times> 32 word \<times> 32 word"

definition kmap :: "32 word \<Rightarrow> kmap_entry list" where
  "kmap data =
     [(KERNBASE, 0, EXTMEM, PTE_W),
      (KERNLINK, V2P KERNLINK, V2P data, 0),
      (data, V2P data, PHYSTOP, PTE_W),
      (DEVSPACE, DEVSPACE, 0, PTE_W)]"

fun setupkvm_loop :: "32 word \<Rightarrow> kmap_entry list \<Rightarrow> 32 word km" where
  "setupkvm_loop pgdir [] = retK pgdir"
| "setupkvm_loop pgdir ((virt, phys_start, phys_end, perm) # ks) =
     bindK (mappages pgdir virt (phys_end - phys_start) phys_start perm) (\<lambda>r.
     if r < 0 then bindK (freevm pgdir) (\<lambda>_. retK 0) else setupkvm_loop pgdir ks)"

definition setupkvm :: "32 word km" where
  "setupkvm =
     bindK kalloc (\<lambda>pgdir.
     if pgdir = 0 then retK 0
     else bindK (kmemset pgdir 0 PGSIZE) (\<lambda>_.
          if P2V PHYSTOP > DEVSPACE then failK (Panic ''PHYSTOP too high'')
          else bindK (getK k_data) (\<lambda>data. setupkvm_loop pgdir (kmap data))))"

text \<open>The bytes of \<^verbatim>\<open>initcode\<close> come from the kernel image and are an argument here.\<close>

definition inituvm :: "32 word \<Rightarrow> 8 word list \<Rightarrow> unit km" where
  "inituvm pgdir init =
     (if length init \<ge> PGSIZE then failK (Panic ''inituvm: more than a page'')
      else bindK kalloc (\<lambda>mem.
           bindK (kmemset mem 0 PGSIZE) (\<lambda>_.
           bindK (mappages pgdir 0 (word_of_nat PGSIZE) (V2P mem) (PTE_W OR PTE_U)) (\<lambda>_.
           kcopyin mem init))))"

definition clearpteu :: "32 word \<Rightarrow> 32 word \<Rightarrow> unit km" where
  "clearpteu pgdir uva =
     bindK (walkpgdir pgdir uva False) (\<lambda>pte.
     if pte = 0 then failK (Panic ''clearpteu'')
     else bindK (rd32 pte) (\<lambda>e. wr32 pte (e AND NOT PTE_U)))"

partial_function (option) copyuvm_loop ::
  "32 word \<Rightarrow> 32 word \<Rightarrow> 32 word \<Rightarrow> 32 word \<Rightarrow> kernel \<Rightarrow> (kernel \<times> 32 word) res option" where
  "copyuvm_loop pgdir sz d i s =
     (if i < sz
      then bindK (walkpgdir pgdir i False) (\<lambda>pte.
             if pte = 0 then failK (Panic ''copyuvm: pte should exist'')
             else bindK (rd32 pte) (\<lambda>e.
                  if e AND PTE_P = 0 then failK (Panic ''copyuvm: page not present'')
                  else bindK kalloc (\<lambda>mem.
                       if mem = 0 then bindK (freevm d) (\<lambda>_. retK 0)
                       else bindK (kmemmove mem (P2V (PTE_ADDR e)) PGSIZE) (\<lambda>_.
                            bindK (mappages d i (word_of_nat PGSIZE) (V2P mem) (PTE_FLAGS e)) (\<lambda>r.
                            if r < 0 then bindK (kfree mem) (\<lambda>_. bindK (freevm d) (\<lambda>_. retK 0))
                            else copyuvm_loop pgdir sz d (i + word_of_nat PGSIZE)))))) s
      else retK d s)"

definition copyuvm :: "32 word \<Rightarrow> 32 word \<Rightarrow> 32 word km" where
  "copyuvm pgdir sz =
     bindK setupkvm (\<lambda>d. if d = 0 then retK 0 else copyuvm_loop pgdir sz d 0)"

text \<open>\<^verbatim>\<open>uva2ka\<close> reads through the pointer of \<^verbatim>\<open>walkpgdir\<close> without a test.\<close>

definition uva2ka :: "32 word \<Rightarrow> 32 word \<Rightarrow> 32 word km" where
  "uva2ka pgdir uva =
     bindK (walkpgdir pgdir uva False) (\<lambda>pte.
     if pte = 0 then failK NullDeref
     else bindK (rd32 pte) (\<lambda>e.
          if e AND PTE_P = 0 then retK 0
          else if e AND PTE_U = 0 then retK 0
          else retK (P2V (PTE_ADDR e))))"

text \<open>\<^verbatim>\<open>copyout\<close>: the source bytes are an argument, the part still to be copied.\<close>

partial_function (option) copyout ::
  "32 word \<Rightarrow> 32 word \<Rightarrow> 8 word list \<Rightarrow> kernel \<Rightarrow> (kernel \<times> int) res option" where
  "copyout pgdir va buf s =
     (if length buf > 0
      then let va0 = PGROUNDDOWN va;
               n = min (PGSIZE - unat (va - va0)) (length buf)
           in bindK (uva2ka pgdir va0) (\<lambda>pa0.
                if pa0 = 0 then retK (-1)
                else bindK (kcopyin (pa0 + (va - va0)) (take n buf)) (\<lambda>_.
                     copyout pgdir (va0 + word_of_nat PGSIZE) (drop n buf))) s
      else retK 0 s)"

section \<open>Page-table arithmetic\<close>

lemma mask_0x3FF: "(0x3FF :: 32 word) = mask 10" and mask_0xFFF: "(0xFFF :: 32 word) = mask 12"
  by (simp_all add: mask_eq_exp_minus_1)

lemma unat_drop: "unat (drop_bit k (w :: 32 word)) = unat w div 2 ^ k"
  by (simp only: unat_drop_bit_eq drop_bit_nat_def)

lemma unat_and_mask: "unat ((w :: 32 word) AND mask k) = unat w mod 2 ^ k"
  by (simp only: take_bit_eq_mask [symmetric] unsigned_take_bit_eq take_bit_nat_def)

lemma unat_PTX: "unat (PTX va) = unat va div 4096 mod 1024"
  unfolding PTX_def mask_0x3FF unat_and_mask unat_drop by simp

lemma unat_PDX: "unat (PDX va) = unat va div 4096 div 1024"
proof -
  have "unat va div 2 ^ 22 < 1024" using unsigned_less [of va, where ?'a = nat] by (simp add: less_mult_imp_div_less)
  then show ?thesis unfolding PDX_def mask_0x3FF unat_and_mask unat_drop by (simp add: div_mult2_eq [symmetric])
qed

lemma PDX_less: "unat (PDX va) < 1024"
  using unsigned_less [of va, where ?'a = nat] by (simp add: unat_PDX less_mult_imp_div_less)

definition aligned :: "32 word \<Rightarrow> bool" where
  "aligned w \<longleftrightarrow> unat w mod PGSIZE = 0"

lemma aligned_bits: "aligned w \<longleftrightarrow> (\<forall>n<12. \<not> bit w n)"
proof -
  have "unat w mod 4096 = unat (w AND mask 12)" by (simp only: unat_and_mask) simp
  then have "aligned w \<longleftrightarrow> w AND mask 12 = 0" by (simp add: aligned_def PGSIZE_def unat_eq_0)
  also have "\<dots> \<longleftrightarrow> (\<forall>n<12. \<not> bit w n)"
  proof
    assume z: "w AND mask 12 = 0"
    have "\<not> bit (w AND mask 12) n" for n unfolding z by simp
    moreover have "bit (w AND mask 12) n" if "n < 12" "bit w n" for n
      using that by (simp add: bit_simps)
    ultimately show "\<forall>n<12. \<not> bit w n" by blast
  qed (auto intro!: bit_word_eqI simp: bit_simps)
  finally show ?thesis .
qed

lemma small_bits: "unat (f :: 32 word) < 4096 \<Longrightarrow> bit f n \<Longrightarrow> n < 12"
proof (rule ccontr)
  assume f: "unat f < 4096" "bit f n" "\<not> n < 12"
  have "unat (f AND mask 12) = unat f" unfolding unat_and_mask using f(1) by simp
  then have "f AND mask 12 = f" by (simp only: word_unat_eq_iff)
  then have "bit (f AND mask 12) n" using f(2) by simp
  then show False using f(3) by (simp add: bit_simps)
qed

lemma PTE_ADDR_or:
  assumes "aligned w" and "unat f < 4096"
  shows "PTE_ADDR (w OR f) = w"
proof -
  have "(w OR f) AND NOT (mask 12) = w"
    using assms small_bits [OF assms(2)] by (intro bit_word_eqI) (auto simp: aligned_bits bit_simps)
  then show ?thesis by (simp only: PTE_ADDR_def mask_0xFFF)
qed

lemma PTE_FLAGS_or:
  assumes "aligned w" and "unat f < 4096"
  shows "PTE_FLAGS (w OR f) = f"
proof -
  have "(w OR f) AND mask 12 = f"
    using assms small_bits [OF assms(2)] by (intro bit_word_eqI) (auto simp: aligned_bits bit_simps)
  then show ?thesis by (simp only: PTE_FLAGS_def mask_0xFFF)
qed

lemma PTE_FLAGS_small: "unat (PTE_FLAGS e) < 4096"
  unfolding PTE_FLAGS_def mask_0xFFF unat_and_mask by simp

definition present :: "32 word \<Rightarrow> bool" where
  "present e \<longleftrightarrow> e AND PTE_P \<noteq> 0"

lemma present_bit: "present e \<longleftrightarrow> bit e 0"
  by (simp add: present_def and_one_eq odd_iff_mod_2_eq_one bit_0)

lemma present_or [simp]: "present (w OR f OR 1)" "present (w OR (f OR 1))" "\<not> present 0"
  by (simp_all add: present_bit bit_simps)

text \<open>The address of a table or of a frame from an entry.\<close>

definition table :: "32 word \<Rightarrow> 32 word" where
  "table e = P2V (PTE_ADDR e)"

lemma P2V_V2P [simp]: "P2V (V2P p) = p"
  by (simp add: P2V_def V2P_def)

lemma aligned_V2P:
  assumes "aligned p" and "KERNBASE \<le> p"
  shows "aligned (V2P p)"
proof -
  obtain i where i: "unat p = 4096 * i" using assms(1) by (auto simp: aligned_def PGSIZE_def mod_eq_0_iff_dvd elim!: dvdE)
  have "unat (V2P p) = unat p - unat KERNBASE" unfolding V2P_def using assms(2) by (rule unat_sub)
  also have "\<dots> = 4096 * (i - 0x80000)" using i by (simp add: KERNBASE_def)
  finally show ?thesis by (simp add: aligned_def PGSIZE_def)
qed

lemma kpage_ge: "kpage s p \<Longrightarrow> KERNBASE < k_end s \<Longrightarrow> KERNBASE \<le> p"
  unfolding kpage_def by (meson less_imp_le order.trans)

lemma kpage_aligned: "kpage s p \<Longrightarrow> aligned p"
  by (simp add: kpage_def aligned_def)

lemma table_entry:
  assumes "kpage s p" and "KERNBASE < k_end s" and "unat f < 4096"
  shows "table (V2P p OR f) = p"
  using PTE_ADDR_or [OF aligned_V2P [OF kpage_aligned [OF assms(1)] kpage_ge [OF assms(1,2)]] assms(3)]
  by (simp add: table_def)

text \<open>The address of a slot of a page.\<close>

lemma slot_addr:
  assumes "kpage s p" and "KERNBASE < k_end s" and "unat k < 1024"
  shows "unat (p + 4 * k) = unat p + 4 * unat k" "kptr (unat (p + 4 * k)) 4"
proof -
  note b = kpage_bounds [OF assms(1,2)]
  have k4: "unat (4 * k) = 4 * unat k" using assms(3) by (subst unat_mult_lem [THEN iffD1]) auto
  show *: "unat (p + 4 * k) = unat p + 4 * unat k"
    using b assms(3) k4 by (subst unat_add_lem [THEN iffD1]) (auto simp: KERNBASE_def PHYSTOP_def PGSIZE_def)
  show "kptr (unat (p + 4 * k)) 4" unfolding * using b assms(3) by (simp add: kptr_def PGSIZE_def)
qed

section \<open>Address spaces\<close>

text \<open>
  The entries of the directory \<open>d\<close>, the slot that belongs to the page number \<open>pn\<close> if there is a
  table for it, and the map that the tables define.
\<close>

definition pde :: "mem \<Rightarrow> 32 word \<Rightarrow> nat \<Rightarrow> 32 word" where
  "pde m d i = load32 m (unat d + 4 * i)"

definition slot :: "mem \<Rightarrow> 32 word \<Rightarrow> nat \<Rightarrow> 32 word" where
  "slot m d pn = load32 m (unat (table (pde m d (pn div 1024))) + 4 * (pn mod 1024))"

definition vmap :: "mem \<Rightarrow> 32 word \<Rightarrow> nat \<Rightarrow> 32 word option" where
  "vmap m d pn =
     (if present (pde m d (pn div 1024)) \<and> present (slot m d pn) then Some (slot m d pn) else None)"

text \<open>The pages of the tables, the directory included; they are pages of the allocator, not free.\<close>

definition pt :: "mem \<Rightarrow> 32 word \<Rightarrow> 32 word set" where
  "pt m d = insert d {table (pde m d i) | i. i < 1024 \<and> present (pde m d i)}"

definition dir_ok :: "kernel \<Rightarrow> 32 word \<Rightarrow> 32 word list \<Rightarrow> bool" where
  "dir_ok s d ps \<longleftrightarrow>
     (\<forall>p\<in>pt (k_mem s) d. kpage s p \<and> p \<notin> set ps) \<and>
     (\<forall>i<1024. present (pde (k_mem s) d i) \<longrightarrow> table (pde (k_mem s) d i) \<noteq> d) \<and>
     (\<forall>i<1024. \<forall>j<1024. present (pde (k_mem s) d i) \<longrightarrow> present (pde (k_mem s) d j) \<longrightarrow>
        table (pde (k_mem s) d i) = table (pde (k_mem s) d j) \<longrightarrow> i = j)"

lemma pt_dir [simp]: "d \<in> pt m d"
  by (simp add: pt_def)

lemma pt_table: "i < 1024 \<Longrightarrow> present (pde m d i) \<Longrightarrow> table (pde m d i) \<in> pt m d"
  by (auto simp: pt_def)

lemma dir_ok_page: "dir_ok s d ps \<Longrightarrow> p \<in> pt (k_mem s) d \<Longrightarrow> kpage s p \<and> p \<notin> set ps"
  by (simp add: dir_ok_def)

text \<open>A change of other pages leaves an address space as it is.\<close>

lemma same_space:
  assumes ch: "changes s s' P" and P: "\<forall>p\<in>P. aligned p" and ok: "dir_ok s d ps"
    and apart: "P \<inter> pt (k_mem s) d = {}"
  shows "\<And>i. i < 1024 \<Longrightarrow> pde (k_mem s') d i = pde (k_mem s) d i"
    "\<And>pn. pn < 1048576 \<Longrightarrow> present (pde (k_mem s) d (pn div 1024)) \<Longrightarrow> slot (k_mem s') d pn = slot (k_mem s) d pn"
    "\<And>pn. pn < 1048576 \<Longrightarrow> vmap (k_mem s') d pn = vmap (k_mem s) d pn"
    "pt (k_mem s') d = pt (k_mem s) d"
proof -
  have al: "\<forall>p\<in>P. unat p mod PGSIZE = 0" using P by (simp add: aligned_def)
  have load: "load32 (k_mem s') (unat q + 4 * i) = load32 (k_mem s) (unat q + 4 * i)"
    if "q \<in> pt (k_mem s) d" "i < 1024" for q i
    using changes_load [OF ch _ al, of q i] dir_ok_page [OF ok that(1)] apart that by (auto simp: kpage_def)
  show dir: "pde (k_mem s') d i = pde (k_mem s) d i" if "i < 1024" for i
    using load [OF pt_dir that] by (simp add: pde_def)
  show slot: "slot (k_mem s') d pn = slot (k_mem s) d pn"
    if "pn < 1048576" "present (pde (k_mem s) d (pn div 1024))" for pn
    using that load [of "table (pde (k_mem s) d (pn div 1024))" "pn mod 1024"] dir [of "pn div 1024"] pt_table
    by (simp add: slot_def less_mult_imp_div_less)
  show "vmap (k_mem s') d pn = vmap (k_mem s) d pn" if "pn < 1048576" for pn
    using dir [of "pn div 1024"] slot [OF that] that by (auto simp: vmap_def less_mult_imp_div_less)
  show "pt (k_mem s') d = pt (k_mem s) d" unfolding pt_def by (intro arg_cong [where f = "insert d"] Collect_cong ex_cong1) (auto simp: dir)
qed

lemma dir_ok_changes:
  assumes ch: "changes s s' P" and P: "\<forall>p\<in>P. aligned p" and ok: "dir_ok s d ps"
    and apart: "P \<inter> pt (k_mem s) d = {}" and ps: "set ps' \<inter> pt (k_mem s) d = {}"
  shows "dir_ok s' d ps'"
  using same_space [OF ch P ok apart] ok ps changes_kpage [OF ch] unfolding dir_ok_def by auto

section \<open>Walking the tables\<close>

abbreviation pno :: "32 word \<Rightarrow> nat" where
  "pno va \<equiv> unat va div 4096"

lemma pno_less: "pno va < 1048576" "pno va div 1024 < 1024"
  using unsigned_less [of va, where ?'a = nat] by (simp_all add: less_mult_imp_div_less)

lemma kmem_ok_end: "kmem_ok s ps \<Longrightarrow> KERNBASE < k_end s"
  by (simp add: kmem_ok_def)

text \<open>The pointer to the slot of an address, where there is a table for it.\<close>

definition slot_ptr :: "mem \<Rightarrow> 32 word \<Rightarrow> 32 word \<Rightarrow> 32 word" where
  "slot_ptr m d va = table (pde m d (pno va div 1024)) + 4 * PTX va"

lemma slot_ptr_ok:
  assumes "kmem_ok s ps" and "dir_ok s d ps" and "present (pde (k_mem s) d (pno va div 1024))"
  shows "unat (slot_ptr (k_mem s) d va) = unat (table (pde (k_mem s) d (pno va div 1024))) + 4 * (pno va mod 1024)"
    "kptr (unat (slot_ptr (k_mem s) d va)) 4" "slot_ptr (k_mem s) d va \<noteq> 0"
proof -
  have page: "kpage s (table (pde (k_mem s) d (pno va div 1024)))"
    using dir_ok_page [OF assms(2) pt_table] assms(3) pno_less by blast
  note sl = slot_addr [OF page kmem_ok_end [OF assms(1)], of "PTX va"]
  show *: "unat (slot_ptr (k_mem s) d va) = unat (table (pde (k_mem s) d (pno va div 1024))) + 4 * (pno va mod 1024)"
    "kptr (unat (slot_ptr (k_mem s) d va)) 4"
    using sl by (simp_all add: slot_ptr_def unat_PTX)
  show "slot_ptr (k_mem s) d va \<noteq> 0"
    using *(1) kpage_bounds(1) [OF page kmem_ok_end [OF assms(1)]] by auto
qed

lemma wpk_dir_entry:
  assumes "kmem_ok s ps" and "dir_ok s d ps" and "Q (pde (k_mem s) d (pno va div 1024)) s"
  shows "wpk (rd32 (d + 4 * PDX va)) Q s"
proof -
  have page: "kpage s d" using dir_ok_page [OF assms(2) pt_dir] by simp
  note sl = slot_addr [OF page kmem_ok_end [OF assms(1)] PDX_less]
  show ?thesis using sl assms(3) by (intro wpk_rd32) (simp_all add: pde_def unat_PDX)
qed

lemma wpk_walk:
  assumes "kmem_ok s ps" and "dir_ok s d ps"
    and "present (pde (k_mem s) d (pno va div 1024)) \<Longrightarrow> Q (slot_ptr (k_mem s) d va) s"
    and "\<not> present (pde (k_mem s) d (pno va div 1024)) \<Longrightarrow> Q 0 s"
  shows "wpk (walkpgdir d va False) Q s"
  unfolding walkpgdir_def wpk_bind
  by (rule wpk_dir_entry [OF assms(1,2)]) (use assms(3,4) in \<open>auto simp: present_def slot_ptr_def table_def\<close>)

lemma wpk_read_slot:
  assumes "kmem_ok s ps" and "dir_ok s d ps" and "present (pde (k_mem s) d (pno va div 1024))"
    and "Q (slot (k_mem s) d (pno va)) s"
  shows "wpk (rd32 (slot_ptr (k_mem s) d va)) Q s"
  using slot_ptr_ok [OF assms(1-3)] assms(4) by (intro wpk_rd32) (simp_all add: slot_def)

text \<open>How an operation may extend the tables: with pages from the front of the free list, all of them.\<close>

definition extends :: "32 word \<Rightarrow> kernel \<Rightarrow> 32 word list \<Rightarrow> kernel \<Rightarrow> 32 word list \<Rightarrow> bool" where
  "extends d s ps s' ps' \<longleftrightarrow>
     kmem_ok s' ps' \<and> dir_ok s' d ps' \<and>
     (\<exists>qs. ps = qs @ ps' \<and> changes s s' (pt (k_mem s) d \<union> set qs) \<and> pt (k_mem s') d = pt (k_mem s) d \<union> set qs)"

lemma extends_refl: "kmem_ok s ps \<Longrightarrow> dir_ok s d ps \<Longrightarrow> extends d s ps s ps"
  by (simp add: extends_def)

lemma extends_trans:
  assumes "extends d s ps s1 ps1" and "extends d s1 ps1 s2 ps2"
  shows "extends d s ps s2 ps2"
proof -
  obtain qs where qs: "ps = qs @ ps1" "changes s s1 (pt (k_mem s) d \<union> set qs)"
    "pt (k_mem s1) d = pt (k_mem s) d \<union> set qs"
    using assms(1) by (auto simp: extends_def)
  obtain rs where rs: "ps1 = rs @ ps2" "changes s1 s2 (pt (k_mem s1) d \<union> set rs)"
    "pt (k_mem s2) d = pt (k_mem s1) d \<union> set rs"
    using assms(2) by (auto simp: extends_def)
  have "changes s s2 (pt (k_mem s) d \<union> set (qs @ rs))"
    using changes_mono [OF changes_trans [OF qs(2) rs(2)]] qs(3) by auto
  moreover have "ps = (qs @ rs) @ ps2" using qs(1) rs(1) by simp
  ultimately show ?thesis using assms(2) qs(3) rs(3) unfolding extends_def by (intro conjI exI [of _ "qs @ rs"]) auto
qed

text \<open>Storing into a slot.\<close>

lemma store_slot:
  assumes ok: "kmem_ok s ps" "dir_ok s d ps" and pr: "present (pde (k_mem s) d (pn div 1024))" and pn: "pn < 1048576"
    and s': "s' = s\<lparr>k_mem := store32 (k_mem s) (unat (table (pde (k_mem s) d (pn div 1024))) + 4 * (pn mod 1024)) w\<rparr>"
  shows "changes s s' {table (pde (k_mem s) d (pn div 1024))}" "kmem_ok s' ps" "dir_ok s' d ps"
    "pt (k_mem s') d = pt (k_mem s) d"
    "\<And>i. i < 1024 \<Longrightarrow> pde (k_mem s') d i = pde (k_mem s) d i"
    "\<And>qn. qn < 1048576 \<Longrightarrow> vmap (k_mem s') d qn =
       (if qn = pn then if present w then Some w else None else vmap (k_mem s) d qn)"
proof -
  let ?T = "table (pde (k_mem s) d (pn div 1024))"
  have i: "pn div 1024 < 1024" using pn by (simp add: less_mult_imp_div_less)
  have T: "?T \<in> pt (k_mem s) d" "?T \<noteq> d" using pt_table [OF i pr] ok(2) i pr by (auto simp: dir_ok_def)
  have al: "unat p mod PGSIZE = 0" if "p \<in> pt (k_mem s) d" for p using dir_ok_page [OF ok(2) that] by (simp add: kpage_def)
  show ch: "changes s s' {?T}"
    using pn by (auto simp: s' changes_def on_page_def PGSIZE_def intro!: store32_other)
  show "kmem_ok s' ps"
    by (rule kmem_ok_changes [OF ok(1) ch]) (use dir_ok_page [OF ok(2) T(1)] in \<open>auto simp: s' kpage_def\<close>)
  have load: "load32 (k_mem s') (unat q + 4 * j) = load32 (k_mem s) (unat q + 4 * j)"
    if "q \<in> pt (k_mem s) d" "q \<noteq> ?T" "j < 1024" for q j
    using changes_load [OF ch al [OF that(1)]] al [OF T(1)] that by simp
  show dir: "pde (k_mem s') d j = pde (k_mem s) d j" if "j < 1024" for j
    using load [OF pt_dir T(2) [symmetric] that] by (simp add: pde_def)
  show pt: "pt (k_mem s') d = pt (k_mem s) d"
    unfolding pt_def by (intro arg_cong [where f = "insert d"] Collect_cong ex_cong1) (auto simp: dir)
  have kp: "kpage s' p = kpage s p" for p by (simp add: s' kpage_def)
  show "dir_ok s' d ps" using ok(2) unfolding dir_ok_def pt by (auto simp: dir kp)
  show "vmap (k_mem s') d qn = (if qn = pn then if present w then Some w else None else vmap (k_mem s) d qn)"
    if qn: "qn < 1048576" for qn
  proof (cases "present (pde (k_mem s) d (qn div 1024))")
    case False
    moreover have "qn \<noteq> pn" using False pr by auto
    ultimately show ?thesis using dir [of "qn div 1024"] qn by (simp add: vmap_def less_mult_imp_div_less)
  next
    case True
    let ?U = "table (pde (k_mem s) d (qn div 1024))"
    have j: "qn div 1024 < 1024" using qn by (simp add: less_mult_imp_div_less)
    have "slot (k_mem s') d qn = (if qn = pn then w else slot (k_mem s) d qn)"
    proof (cases "?U = ?T")
      case same: True
      then have "qn div 1024 = pn div 1024" using ok(2) i j pr True unfolding dir_ok_def by blast
      then have "qn = pn \<longleftrightarrow> qn mod 1024 = pn mod 1024" by (metis div_mult_mod_eq)
      then show ?thesis
        using dir [OF j] same by (cases "qn = pn") (auto simp: slot_def s' mem_simps nat_neq_iff)
    next
      case False
      then show ?thesis using dir [OF j] load [OF pt_table [OF j True] False, of "qn mod 1024"]
        by (auto simp: slot_def)
    qed
    then show ?thesis using dir [OF j] True by (auto simp: vmap_def)
  qed
qed

lemma store_slot_extends:
  assumes "kmem_ok s ps" "dir_ok s d ps" "present (pde (k_mem s) d (pn div 1024))" "pn < 1048576"
    and "s' = s\<lparr>k_mem := store32 (k_mem s) (unat (table (pde (k_mem s) d (pn div 1024))) + 4 * (pn mod 1024)) w\<rparr>"
  shows "extends d s ps s' ps"
proof -
  note st = store_slot [OF assms]
  have "table (pde (k_mem s) d (pn div 1024)) \<in> pt (k_mem s) d"
    using pt_table assms(3,4) by (simp add: less_mult_imp_div_less)
  then show ?thesis using st(2-4) changes_mono [OF st(1)] unfolding extends_def by auto
qed

text \<open>A new table: a zeroed page, entered into the directory.\<close>

lemma new_table:
  assumes ok: "kmem_ok s (p # ps)" "dir_ok s d (p # ps)" and i: "i < 1024" "\<not> present (pde (k_mem s) d i)"
    and s1: "changes s s1 {p}" "kmem_ok s1 ps" "\<forall>a. on_page p a \<longrightarrow> k_mem s1 a = 0"
    and s2: "s2 = s1\<lparr>k_mem := store32 (k_mem s1) (unat d + 4 * i) (V2P p OR 7)\<rparr>"
  shows "extends d s (p # ps) s2 ps" "pde (k_mem s2) d i = V2P p OR 7" "table (V2P p OR 7) = p"
    "\<And>pn. pn < 1048576 \<Longrightarrow> vmap (k_mem s2) d pn = vmap (k_mem s) d pn"
proof -
  have p: "kpage s p" "p \<notin> set ps" and e: "KERNBASE < k_end s" using ok(1) by (auto simp: kmem_ok_def)
  have d: "kpage s d" "d \<noteq> p" "d \<notin> set ps" using dir_ok_page [OF ok(2) pt_dir] by auto
  have al: "unat q mod PGSIZE = 0" if "kpage s q" for q using that by (simp add: kpage_def)
  show tab: "table (V2P p OR 7) = p" using table_entry [OF p(1) e, of 7] by simp
  have ch2: "changes s1 s2 {d}" using i(1) by (auto simp: s2 changes_def on_page_def PGSIZE_def intro!: store32_other)
  have ch: "changes s s2 {p, d}" using changes_trans [OF s1(1) ch2] by (simp add: insert_commute)
  have load: "load32 (k_mem s2) (unat q + 4 * j) = load32 (k_mem s) (unat q + 4 * j)"
    if "kpage s q" "q \<noteq> p" "q \<noteq> d" "j < 1024" for q j
    using changes_load [OF ch al [OF that(1)]] al p(1) d(1) that by simp
  have dir: "pde (k_mem s2) d j = (if j = i then V2P p OR 7 else pde (k_mem s) d j)" if "j < 1024" for j
  proof (cases "j = i")
    case True
    then show ?thesis by (simp add: pde_def s2 mem_simps)
  next
    case False
    then have "load32 (k_mem s2) (unat d + 4 * j) = load32 (k_mem s1) (unat d + 4 * j)"
      by (auto simp: s2 mem_simps nat_neq_iff)
    then show ?thesis using False changes_load [OF s1(1) al [OF d(1)]] al [OF p(1)] d(2) that by (simp add: pde_def)
  qed
  then show "pde (k_mem s2) d i = V2P p OR 7" using i(1) by simp
  have pr7: "present (V2P p OR 7)" using present_or(2) [of "V2P p" 6] by simp
  have pt2: "pt (k_mem s2) d = insert p (pt (k_mem s) d)"
  proof (intro set_eqI iffI)
    fix q assume "q \<in> pt (k_mem s2) d"
    then show "q \<in> insert p (pt (k_mem s) d)" using dir tab unfolding pt_def by (auto split: if_splits)
  next
    fix q assume "q \<in> insert p (pt (k_mem s) d)"
    then consider "q = p" | "q = d" | j where "j < 1024" "present (pde (k_mem s) d j)" "q = table (pde (k_mem s) d j)"
      unfolding pt_def by auto
    then show "q \<in> pt (k_mem s2) d"
    proof cases
      case 1
      then show ?thesis using pt_table [OF i(1), of "k_mem s2" d] dir [OF i(1)] pr7 tab by simp
    next
      case 3
      then have "j \<noteq> i" using i(2) by auto
      then show ?thesis using 3 pt_table [OF 3(1), of "k_mem s2" d] dir [OF 3(1)] by simp
    qed simp
  qed
  have kp: "kpage s2 q = kpage s q" for q using changes_kpage [OF ch] .
  have km: "kmem_ok s2 ps"
    by (rule kmem_ok_changes [OF s1(2) ch2]) (use d al in \<open>auto simp: s2\<close>)
  have tne: "table (pde (k_mem s) d j) \<noteq> p" "table (pde (k_mem s) d j) \<noteq> d"
    if "j < 1024" "present (pde (k_mem s) d j)" for j
    using dir_ok_page [OF ok(2) pt_table [OF that]] ok(2) that by (auto simp: dir_ok_def)
  have dk: "dir_ok s2 d ps"
    unfolding dir_ok_def pt2
  proof (intro conjI ballI allI impI)
    fix q assume "q \<in> insert p (pt (k_mem s) d)"
    then show "kpage s2 q" "q \<notin> set ps" using p dir_ok_page [OF ok(2), of q] by (auto simp: kp)
  next
    fix j assume "j < 1024" "present (pde (k_mem s2) d j)"
    then show "table (pde (k_mem s2) d j) \<noteq> d" using dir [of j] tab d(2) tne(2) [of j] by (auto split: if_splits)
  next
    fix j k assume "j < 1024" "k < 1024" "present (pde (k_mem s2) d j)" "present (pde (k_mem s2) d k)"
      "table (pde (k_mem s2) d j) = table (pde (k_mem s2) d k)"
    then show "j = k" using dir [of j] dir [of k] tab tne(1) [of j] tne(1) [of k] ok(2)
      by (auto simp: dir_ok_def split: if_splits)
  qed
  show "extends d s (p # ps) s2 ps"
    using km dk pt2 changes_mono [OF ch] unfolding extends_def by (intro conjI exI [of _ "[p]"]) auto
  show "vmap (k_mem s2) d pn = vmap (k_mem s) d pn" if pn: "pn < 1048576" for pn
  proof (cases "pn div 1024 = i")
    case True
    have "k_mem s2 (unat p + k) = 0" if "k < PGSIZE" for k
    proof -
      have on: "on_page p (unat p + k)" using that by (simp add: on_page_def)
      then have "\<not> on_page d (unat p + k)" using aligned_on_page [OF al [OF d(1)] al [OF p(1)]] d(2) by blast
      then show ?thesis using ch2 s1(3) on by (simp add: changes_def)
    qed
    then have "slot (k_mem s2) d pn = load32 (\<lambda>a. 0) (unat p + 4 * (pn mod 1024))"
      unfolding slot_def True using dir [OF i(1)] tab by (auto intro!: load32_cong simp: add.assoc PGSIZE_def)
    then have "slot (k_mem s2) d pn = 0" by (simp add: load32_def)
    then show ?thesis using True i(2) by (simp add: vmap_def)
  next
    case False
    have j: "pn div 1024 < 1024" using pn by (simp add: less_mult_imp_div_less)
    show ?thesis
    proof (cases "present (pde (k_mem s) d (pn div 1024))")
      case True
      then have "slot (k_mem s2) d pn = slot (k_mem s) d pn"
        using False dir [OF j] load [of "table (pde (k_mem s) d (pn div 1024))"] tne [OF j True]
          dir_ok_page [OF ok(2) pt_table [OF j True]] by (simp add: slot_def)
      then show ?thesis using False dir [OF j] by (simp add: vmap_def)
    qed (use False dir [OF j] in \<open>simp add: vmap_def\<close>)
  qed
qed

text \<open>
  \<^verbatim>\<open>walkpgdir\<close> with \<^verbatim>\<open>alloc\<close>: it returns the slot, after adding a table if there was none, or the null
  pointer when it needs one and no page is free; the mapping stays as it was.
\<close>

lemma wpk_walk_alloc:
  assumes ok: "kmem_ok s ps" "dir_ok s d ps"
    and found: "\<And>s' ps'. extends d s ps s' ps' \<Longrightarrow> present (pde (k_mem s') d (pno va div 1024)) \<Longrightarrow>
      (\<And>pn. pn < 1048576 \<Longrightarrow> vmap (k_mem s') d pn = vmap (k_mem s) d pn) \<Longrightarrow> Q (slot_ptr (k_mem s') d va) s'"
    and full: "ps = [] \<Longrightarrow> Q 0 s"
  shows "wpk (walkpgdir d va True) Q s"
  unfolding walkpgdir_def wpk_bind
proof (rule wpk_dir_entry [OF ok])
  let ?i = "pno va div 1024"
  let ?rest = "\<lambda>pgtab. bindK (wr32 (d + 4 * PDX va) (V2P pgtab OR PTE_P OR PTE_W OR PTE_U)) (\<lambda>_. retK (pgtab + 4 * PTX va))"
  show "wpk (if pde (k_mem s) d ?i AND PTE_P \<noteq> 0 then retK (P2V (PTE_ADDR (pde (k_mem s) d ?i)) + 4 * PTX va)
      else if \<not> True then retK 0
      else bindK kalloc (\<lambda>pgtab. if pgtab = 0 then retK 0 else bindK (kmemset pgtab 0 PGSIZE) (\<lambda>_. ?rest pgtab))) Q s"
  proof (cases "present (pde (k_mem s) d ?i)")
    case True
    then show ?thesis using found [OF extends_refl [OF ok]] by (auto simp: present_def slot_ptr_def table_def)
  next
    case False
    have "wpk (bindK kalloc (\<lambda>pgtab. if pgtab = 0 then retK 0 else bindK (kmemset pgtab 0 PGSIZE) (\<lambda>_. ?rest pgtab))) Q s"
    proof (cases ps)
      case Nil
      then show ?thesis using full ka.alloc_none [of s] ok(1) by (auto elim!: wpk_mono)
    next
      case (Cons p ps')
      show ?thesis
      proof (rule ka.alloc_zeroed)
        show "kmem_ok s (p # ps')" using ok(1) Cons by simp
        fix s1 assume s1: "changes s s1 {p}" "kmem_ok s1 ps'" "\<forall>a. on_page p a \<longrightarrow> k_mem s1 a = 0"
        let ?s2 = "s1\<lparr>k_mem := store32 (k_mem s1) (unat d + 4 * ?i) (V2P p OR 7)\<rparr>"
        have i: "?i < 1024" by (rule pno_less)
        have page: "kpage s d" using dir_ok_page [OF ok(2) pt_dir] by simp
        note sl = slot_addr [OF page kmem_ok_end [OF ok(1)] PDX_less]
        have nt: "extends d s (p # ps') ?s2 ps'" "pde (k_mem ?s2) d ?i = V2P p OR 7" "table (V2P p OR 7) = p"
          "\<And>pn. pn < 1048576 \<Longrightarrow> vmap (k_mem ?s2) d pn = vmap (k_mem s) d pn"
          using new_table [OF _ _ i False s1 refl] ok Cons by simp_all
        have "present (V2P p OR 7)" using present_or(2) [of "V2P p" 6] by simp
        then have "Q (slot_ptr (k_mem ?s2) d va) ?s2" using found [of ?s2 ps'] nt Cons by simp
        then have "Q (p + 4 * PTX va) ?s2" using nt(2,3) by (simp add: slot_ptr_def)
        moreover have "unat (d + 4 * PDX va) = unat d + 4 * ?i" using sl(1) by (simp add: unat_PDX)
        ultimately show "wpk (?rest p) Q s1"
          using sl(2) by (auto intro!: wpk_wr32)
      qed
    qed
    then show ?thesis using False by (simp add: present_def)
  qed
qed

section \<open>Mapping pages\<close>

definition mapped :: "(nat \<Rightarrow> 32 word option) \<Rightarrow> nat \<Rightarrow> nat \<Rightarrow> 32 word \<Rightarrow> 32 word \<Rightarrow> nat \<Rightarrow> 32 word option" where
  "mapped f k n pa perm pn =
     (if k \<le> pn \<and> pn < k + n then Some ((pa + word_of_nat (4096 * (pn - k))) OR perm OR PTE_P) else f pn)"

lemma mappages_loop_unfold:
  "mappages_loop pgdir a lastp pa perm =
     bindK (walkpgdir pgdir a True) (\<lambda>pte.
       if pte = 0 then retK (-1)
       else bindK (rd32 pte) (\<lambda>old.
            if old AND PTE_P \<noteq> 0 then failK (Panic ''remap'')
            else bindK (wr32 pte (pa OR perm OR PTE_P)) (\<lambda>_.
                 if a = lastp then retK 0
                 else mappages_loop pgdir (a + word_of_nat PGSIZE) lastp (pa + word_of_nat PGSIZE) perm)))"
  by (rule ext, subst mappages_loop.simps) simp

lemma unat_next_page:
  "unat (a :: 32 word) + 4096 < 2 ^ 32 \<Longrightarrow> unat (a + word_of_nat PGSIZE) = unat a + 4096"
  by (subst unat_add_lem [THEN iffD1]) (auto simp: PGSIZE_def)

text \<open>One iteration of the loop of \<^verbatim>\<open>mappages\<close>, with what follows as a continuation.\<close>

lemma wpk_map_one:
  assumes ok: "kmem_ok s ps" "dir_ok s d ps" and free: "vmap (k_mem s) d (pno a) = None"
    and go: "\<And>s' ps'. extends d s ps s' ps' \<Longrightarrow>
      (\<And>pn. pn < 1048576 \<Longrightarrow> vmap (k_mem s') d pn = mapped (vmap (k_mem s) d) (pno a) 1 pa perm pn) \<Longrightarrow>
      wpk (cont ()) Q s'"
    and full: "ps = [] \<Longrightarrow> Q (-1) s"
  shows "wpk (bindK (walkpgdir d a True) (\<lambda>pte.
       if pte = 0 then retK (-1)
       else bindK (rd32 pte) (\<lambda>old.
            if old AND PTE_P \<noteq> 0 then failK (Panic ''remap'')
            else bindK (wr32 pte (pa OR perm OR PTE_P)) cont))) Q s"
proof (unfold wpk_bind, rule wpk_walk_alloc [OF ok], goal_cases)
  case (1 s1 ps1)
  have ok1: "kmem_ok s1 ps1" "dir_ok s1 d ps1" using 1(1) by (auto simp: extends_def)
  let ?w = "pa OR perm OR PTE_P"
  let ?s2 = "s1\<lparr>k_mem := store32 (k_mem s1) (unat (slot_ptr (k_mem s1) d a)) ?w\<rparr>"
  note ptr = slot_ptr_ok [OF ok1 1(2)]
  have s2: "?s2 = s1\<lparr>k_mem := store32 (k_mem s1)
    (unat (table (pde (k_mem s1) d (pno a div 1024))) + 4 * (pno a mod 1024)) ?w\<rparr>" using ptr(1) by simp
  note st = store_slot [OF ok1 1(2) pno_less(1) s2]
  have unused: "slot (k_mem s1) d (pno a) AND PTE_P = 0"
  proof -
    have "vmap (k_mem s1) d (pno a) = None" using free 1(3) [OF pno_less(1) [of a]] by simp
    then show ?thesis using 1(2) by (simp add: vmap_def present_def Let_def split: if_splits)
  qed
  have ext: "extends d s ps ?s2 ps1" using extends_trans [OF 1(1) store_slot_extends [OF ok1 1(2) pno_less(1) s2]] .
  have "vmap (k_mem ?s2) d qn = mapped (vmap (k_mem s) d) (pno a) 1 pa perm qn" if "qn < 1048576" for qn
    using st(6) [OF that] 1(3) [OF that] by (auto simp: mapped_def)
  then have "wpk (cont ()) Q ?s2" by (rule go [OF ext])
  then have wr: "wpk (wr32 (slot_ptr (k_mem s1) d a) ?w) (\<lambda>a. wpk (cont a) Q) s1"
    using ptr(2) by (intro wpk_wr32) auto
  have "wpk (rd32 (slot_ptr (k_mem s1) d a)) (\<lambda>old. wpk (if old AND PTE_P \<noteq> 0 then failK (Panic ''remap'')
      else bindK (wr32 (slot_ptr (k_mem s1) d a) ?w) cont) Q) s1"
    using wr unused by (intro wpk_read_slot [OF ok1 1(2)]) simp
  then show ?case using ptr(3) by simp
qed (use full in simp)

lemma mapped_cong: "f qn = g qn \<Longrightarrow> mapped f k n pa perm qn = mapped g k n pa perm qn"
  by (simp add: mapped_def)

lemma mapped_join:
  "mapped (mapped f k 1 pa perm) (Suc k) m (pa + word_of_nat PGSIZE) perm qn = mapped f k (Suc m) pa perm qn"
proof -
  have "pa + word_of_nat PGSIZE + word_of_nat (4096 * (qn - Suc k)) = pa + word_of_nat (4096 * (qn - k))"
    if "Suc k \<le> qn"
  proof -
    have "4096 * (qn - k) = PGSIZE + 4096 * (qn - Suc k)" using that by (simp add: PGSIZE_def)
    then show ?thesis by (simp only: of_nat_add add.assoc)
  qed
  then show ?thesis by (auto simp: mapped_def not_le less_Suc_eq_le)
qed

text \<open>The whole loop: all pages are mapped, or the allocator ran out and the first ones are.\<close>

definition map_post :: "32 word \<Rightarrow> kernel \<Rightarrow> 32 word list \<Rightarrow> nat \<Rightarrow> nat \<Rightarrow> 32 word \<Rightarrow> 32 word \<Rightarrow> int \<Rightarrow> kernel \<Rightarrow> bool" where
  "map_post d s ps k n pa perm r s' \<longleftrightarrow> (\<exists>ps'. extends d s ps s' ps' \<and>
    (r = 0 \<and> (\<forall>pn<1048576. vmap (k_mem s') d pn = mapped (vmap (k_mem s) d) k n pa perm pn) \<or>
     r = -1 \<and> ps' = [] \<and>
       (\<exists>j<n. \<forall>pn<1048576. vmap (k_mem s') d pn = mapped (vmap (k_mem s) d) k j pa perm pn)))"

lemma map_post_step:
  assumes ext: "extends d s ps s1 ps1"
    and one: "\<And>pn. pn < 1048576 \<Longrightarrow> vmap (k_mem s1) d pn = mapped (vmap (k_mem s) d) k 1 pa perm pn"
    and rest: "map_post d s1 ps1 (Suc k) n (pa + word_of_nat PGSIZE) perm r s'"
  shows "map_post d s ps k (Suc n) pa perm r s'"
proof -
  obtain ps' where e: "extends d s1 ps1 s' ps'" and res:
    "r = 0 \<and> (\<forall>pn<1048576. vmap (k_mem s') d pn =
       mapped (vmap (k_mem s1) d) (Suc k) n (pa + word_of_nat PGSIZE) perm pn) \<or>
     r = -1 \<and> ps' = [] \<and> (\<exists>j<n. \<forall>pn<1048576. vmap (k_mem s') d pn =
       mapped (vmap (k_mem s1) d) (Suc k) j (pa + word_of_nat PGSIZE) perm pn)"
    using rest unfolding map_post_def by blast
  have shift: "mapped (vmap (k_mem s1) d) (Suc k) m (pa + word_of_nat PGSIZE) perm pn =
      mapped (vmap (k_mem s) d) k (Suc m) pa perm pn" if "pn < 1048576" for m pn
    using mapped_join [of "vmap (k_mem s) d" k pa perm m pn]
      mapped_cong [of "vmap (k_mem s1) d" pn "mapped (vmap (k_mem s) d) k 1 pa perm", OF one [OF that]] by simp
  show ?thesis using res extends_trans [OF ext e] shift unfolding map_post_def
    by (elim disjE conjE exE) (force intro!: exI [of _ ps'] exI [of _ "Suc _"])+
qed

lemma mappages_loop_ok:
  assumes "kmem_ok s ps" and "dir_ok s d ps" and "unat a = 4096 * k" and "unat lastp = 4096 * (k + n)"
    and "\<And>pn. k \<le> pn \<Longrightarrow> pn \<le> k + n \<Longrightarrow> vmap (k_mem s) d pn = None"
  shows "wpk (mappages_loop d a lastp pa perm) (map_post d s ps k (Suc n) pa perm) s"
  using assms
proof (induction n arbitrary: s ps a k pa)
  case (0 s ps a k pa)
  have pn: "pno a = k" and eq: "a = lastp" using 0(3,4) by (auto simp: word_unat_eq_iff)
  show ?case
  proof (subst mappages_loop_unfold, rule wpk_map_one [OF 0(1,2)], goal_cases)
    case (2 s' ps')
    then show ?case using pn eq by (auto simp: map_post_def)
  qed (use 0(5) pn extends_refl [OF 0(1,2)] in \<open>auto simp: map_post_def mapped_def\<close>)
next
  case (Suc n s ps a k pa)
  have pn: "pno a = k" and ne: "a \<noteq> lastp" using Suc.prems(3,4) by auto
  have lt: "k + Suc n < 1048576" using Suc.prems(4) unsigned_less [of lastp, where ?'a = nat] by simp
  have nxt: "unat (a + word_of_nat PGSIZE) = 4096 * Suc k"
    using Suc.prems(3) lt by (subst unat_next_page) auto
  show ?case
  proof (subst mappages_loop_unfold, rule wpk_map_one [OF Suc.prems(1,2)], goal_cases)
    case (2 s1 ps1)
    have one: "vmap (k_mem s1) d qn = mapped (vmap (k_mem s) d) k 1 pa perm qn" if "qn < 1048576" for qn
      using 2(2) [OF that] pn by simp
    have "wpk (mappages_loop d (a + word_of_nat PGSIZE) lastp (pa + word_of_nat PGSIZE) perm)
      (map_post d s1 ps1 (Suc k) (Suc n) (pa + word_of_nat PGSIZE) perm) s1"
    proof (rule Suc.IH [OF _ _ nxt])
      show "kmem_ok s1 ps1" "dir_ok s1 d ps1" using 2(1) by (auto simp: extends_def)
      show "vmap (k_mem s1) d qn = None" if "Suc k \<le> qn" "qn \<le> Suc k + n" for qn
        using one [of qn] Suc.prems(5) [of qn] that lt by (simp add: mapped_def)
    qed (use Suc.prems(4) in simp)
    then show ?case using ne map_post_step [OF 2(1) one] by (auto elim!: wpk_mono)
  qed (use Suc.prems(5) pn extends_refl [OF Suc.prems(1,2)] in \<open>auto simp: map_post_def mapped_def\<close>)
qed

lemma unat_PGROUNDDOWN: "unat (PGROUNDDOWN a) = 4096 * pno a"
  unfolding PGROUNDDOWN_def unat_round_down by (rule mult.commute)

lemma wpk_mappages:
  assumes ok: "kmem_ok s ps" "dir_ok s d ps"
    and sz: "sz \<noteq> 0" "unat va + unat sz \<le> 2 ^ 32"
    and free: "\<And>pn. pno va \<le> pn \<Longrightarrow> pn \<le> (unat va + unat sz - 1) div 4096 \<Longrightarrow> vmap (k_mem s) d pn = None"
  shows "wpk (mappages d va sz pa perm)
    (map_post d s ps (pno va) (Suc ((unat va + unat sz - 1) div 4096 - pno va)) pa perm) s"
proof -
  have pos: "0 < unat sz" using sz(1) by (simp add: unat_gt_0)
  have "unat (va + (sz - 1)) = unat va + unat (sz - 1)"
    using sz pos unat_minus_one [OF sz(1)] by (subst unat_add_lem [THEN iffD1]) auto
  then have last: "unat (va + sz - 1) = unat va + unat sz - 1"
    using unat_minus_one [OF sz(1)] pos by (simp add: add_diff_eq)
  have le: "pno va \<le> (unat va + unat sz - 1) div 4096" using pos by (intro div_le_mono) simp
  show ?thesis unfolding mappages_def
    by (rule mappages_loop_ok [OF ok]) (use le free in \<open>auto simp: unat_PGROUNDDOWN last\<close>)
qed

section \<open>Properties\<close>

text \<open>
  \<^verbatim>\<open>mappages\<close> on a range of pages that are not mapped returns; it either returns 0, and then the
  address space is the old one with the pages of the range mapped to consecutive frames, or -1, and
  then no page is free any more and a part of the range is mapped. Only tables of this address space
  and pages from the free list are written.
\<close>

theorem mappages_maps:
  assumes "kmem_ok s ps" and "dir_ok s d ps" and "sz \<noteq> 0" and "unat va + unat sz \<le> 2 ^ 32"
    and "\<And>pn. pno va \<le> pn \<Longrightarrow> pn \<le> (unat va + unat sz - 1) div 4096 \<Longrightarrow> vmap (k_mem s) d pn = None"
  shows "wpk (mappages d va sz pa perm)
    (\<lambda>r s'. \<exists>ps'. extends d s ps s' ps' \<and>
       (r = 0 \<and> (\<forall>pn<1048576. vmap (k_mem s') d pn =
          mapped (vmap (k_mem s) d) (pno va) (Suc ((unat va + unat sz - 1) div 4096 - pno va)) pa perm pn) \<or>
        r = -1 \<and> ps' = [] \<and>
          (\<exists>j\<le>(unat va + unat sz - 1) div 4096 - pno va. \<forall>pn<1048576.
             vmap (k_mem s') d pn = mapped (vmap (k_mem s) d) (pno va) j pa perm pn))) s"
  using wpk_mappages [OF assms] unfolding map_post_def less_Suc_eq_le .

text \<open>A kernel with an empty address space at \<^verbatim>\<open>0x80116000\<close> and one free page.\<close>

definition ex_vm :: kernel where
  "ex_vm = \<lparr>k_mem = (\<lambda>a. 0), freelist = 0x80115000, use_lock = True, k_end = 0x80114000, k_data = 0x80109000\<rparr>"

lemma ex_vm_empty [simp]: "pde (k_mem ex_vm) d i = 0" "vmap (k_mem ex_vm) d pn = None" "pt (k_mem ex_vm) d = {d}"
  by (simp_all add: ex_vm_def pde_def vmap_def pt_def load32_def)

lemma ex_vm_ok: "kmem_ok ex_vm [0x80115000]" "dir_ok ex_vm 0x80116000 [0x80115000]"
proof -
  have "load32 (k_mem ex_vm) a = 0" for a by (simp add: ex_vm_def load32_def)
  then show "kmem_ok ex_vm [0x80115000]"
    by (simp add: kmem_ok_def kpage_def) (simp add: ex_vm_def KERNBASE_def PHYSTOP_def PGSIZE_def V2P_def)
  show "dir_ok ex_vm 0x80116000 [0x80115000]"
    unfolding dir_ok_def ex_vm_empty by (simp add: kpage_def) (simp add: ex_vm_def KERNBASE_def PHYSTOP_def PGSIZE_def V2P_def)
qed

theorem mappages_maps_witness:
  "wpk (mappages 0x80116000 0x1000 0x2000 0x200000 PTE_W)
    (\<lambda>r s'. \<exists>ps'. extends 0x80116000 ex_vm [0x80115000] s' ps' \<and>
       (r = 0 \<and> (\<forall>pn<1048576. vmap (k_mem s') 0x80116000 pn =
          mapped (vmap (k_mem ex_vm) 0x80116000) 1 (Suc 1) 0x200000 PTE_W pn) \<or>
        r = -1 \<and> ps' = [] \<and>
          (\<exists>j\<le>1. \<forall>pn<1048576.
             vmap (k_mem s') 0x80116000 pn = mapped (vmap (k_mem ex_vm) 0x80116000) 1 j 0x200000 PTE_W pn))) ex_vm"
  using mappages_maps [OF ex_vm_ok, of "0x2000" "0x1000" "0x200000" PTE_W] by simp

text \<open>
  \<^verbatim>\<open>uva2ka\<close> follows the null pointer for every address in a region for which the directory has no
  table, and so does \<^verbatim>\<open>copyout\<close>, which should return -1 there.
\<close>

theorem copyout_no_table:
  assumes "kmem_ok s ps" and "dir_ok s d ps" and "\<not> present (pde (k_mem s) d (pno va div 1024))"
    and "buf \<noteq> []"
  shows "uva2ka d va s = Some (Inl NullDeref) \<and> copyout d va buf s = Some (Inl NullDeref)"
proof
  have none: "uva2ka d w s = Some (Inl NullDeref)" if "pno w = pno va" for w
  proof -
    have "wpk (walkpgdir d w False) (\<lambda>r s'. r = 0 \<and> s' = s) s"
      by (rule wpk_walk [OF assms(1,2)]) (use assms(3) that in auto)
    then have "walkpgdir d w False s = Some (Inr (s, 0))" by (auto simp: wpk_def)
    then show ?thesis by (simp add: uva2ka_def bindK_def failK_def)
  qed
  show "uva2ka d va s = Some (Inl NullDeref)" by (rule none) simp
  have "uva2ka d (PGROUNDDOWN va) s = Some (Inl NullDeref)" by (rule none) (simp add: unat_PGROUNDDOWN)
  then show "copyout d va buf s = Some (Inl NullDeref)"
    using assms(4) by (subst copyout.simps) (simp add: bindK_def Let_def)
qed

theorem copyout_no_table_witness:
  "uva2ka 0x80116000 0x5000 ex_vm = Some (Inl NullDeref) \<and> copyout 0x80116000 0x5000 [7] ex_vm = Some (Inl NullDeref)"
  using copyout_no_table [OF ex_vm_ok, of "0x5000" "[7]"] by simp

end
