(* ===== verification/Uvm.thy ===== *)
theory Uvm
  imports Vm
begin

text \<open>
  User memory on top of the page tables of \<^verbatim>\<open>Vm\<close>: growing and shrinking a process, tearing an
  address space down, setting up the kernel part of a new one and copying one for a child. The
  invariant \<open>user_ok\<close> says that every user page has a frame of its own, which is neither free nor a
  table.
\<close>

section \<open>The invariant of user memory\<close>

abbreviation NUSER :: nat where
  "NUSER \<equiv> 0x80000"

definition frame :: "mem \<Rightarrow> 32 word \<Rightarrow> nat \<Rightarrow> 32 word option" where
  "frame m d pn = map_option table (vmap m d pn)"

definition frames :: "mem \<Rightarrow> 32 word \<Rightarrow> nat \<Rightarrow> nat \<Rightarrow> 32 word set" where
  "frames m d lo hi = {p. \<exists>pn. lo \<le> pn \<and> pn < hi \<and> frame m d pn = Some p}"

definition frames_ok :: "kernel \<Rightarrow> 32 word \<Rightarrow> 32 word list \<Rightarrow> bool" where
  "frames_ok s d ps \<longleftrightarrow>
     (\<forall>p\<in>frames (k_mem s) d 0 NUSER. kpage s p \<and> p \<notin> set ps \<and> p \<notin> pt (k_mem s) d)"

definition frames_inj :: "mem \<Rightarrow> 32 word \<Rightarrow> bool" where
  "frames_inj m d \<longleftrightarrow>
     (\<forall>pn<NUSER. \<forall>qn<NUSER. \<forall>p. frame m d pn = Some p \<longrightarrow> frame m d qn = Some p \<longrightarrow> pn = qn)"

definition user_ok :: "kernel \<Rightarrow> 32 word \<Rightarrow> 32 word list \<Rightarrow> bool" where
  "user_ok s d ps \<longleftrightarrow> kmem_ok s ps \<and> dir_ok s d ps \<and> frames_ok s d ps \<and> frames_inj (k_mem s) d"

lemma user_okD:
  assumes "user_ok s d ps"
  shows "kmem_ok s ps" "dir_ok s d ps" "frames_ok s d ps" "frames_inj (k_mem s) d"
  using assms by (auto simp: user_ok_def)

lemma frames_okD:
  assumes "frames_ok s d ps" and "frame (k_mem s) d pn = Some p" and "pn < NUSER"
  shows "kpage s p" "p \<notin> set ps" "p \<notin> pt (k_mem s) d"
  using assms unfolding frames_ok_def frames_def by auto

lemma frames_injD:
  "frames_inj m d \<Longrightarrow> frame m d pn = Some p \<Longrightarrow> frame m d qn = Some p \<Longrightarrow> pn < NUSER \<Longrightarrow> qn < NUSER \<Longrightarrow> pn = qn"
  unfolding frames_inj_def by blast

lemma frames_cong:
  "(\<And>pn. lo \<le> pn \<Longrightarrow> pn < hi \<Longrightarrow> frame m' d' pn = frame m d pn) \<Longrightarrow> frames m' d' lo hi = frames m d lo hi"
  unfolding frames_def by (intro Collect_cong ex_cong1) auto

lemma frames_empty: "hi \<le> lo \<Longrightarrow> frames m d lo hi = {}"
  by (auto simp: frames_def)

lemma frames_append:
  assumes "lo \<le> mid" and "mid \<le> hi"
  shows "frames m d lo hi = frames m d lo mid \<union> frames m d mid hi"
proof -
  have "lo \<le> pn \<and> pn < hi \<longleftrightarrow> lo \<le> pn \<and> pn < mid \<or> mid \<le> pn \<and> pn < hi" for pn using assms by linarith
  then show ?thesis unfolding frames_def by blast
qed

lemma frames_mono: "lo' \<le> lo \<Longrightarrow> hi \<le> hi' \<Longrightarrow> frames m d lo hi \<subseteq> frames m d lo' hi'"
  unfolding frames_def by (intro Collect_mono impI) (meson order.trans order.strict_trans2)

lemma frames_none: "(\<And>pn. lo \<le> pn \<Longrightarrow> pn < hi \<Longrightarrow> frame m d pn = None) \<Longrightarrow> frames m d lo hi = {}"
  by (auto simp: frames_def)

section \<open>Shrinking\<close>

lemma deallocuvm_loop_unfold:
  "deallocuvm_loop pgdir oldsz a =
     (if a < oldsz
      then bindK (walkpgdir pgdir a False) (\<lambda>pte.
             if pte = 0
             then deallocuvm_loop pgdir oldsz (PGADDR (PDX a + 1) 0 0 - word_of_nat PGSIZE + word_of_nat PGSIZE)
             else bindK (rd32 pte) (\<lambda>e.
                    if e AND PTE_P \<noteq> 0
                    then if PTE_ADDR e = 0 then failK (Panic ''kfree'')
                         else bindK (kfree (P2V (PTE_ADDR e))) (\<lambda>_.
                              bindK (wr32 pte 0) (\<lambda>_.
                              deallocuvm_loop pgdir oldsz (a + word_of_nat PGSIZE)))
                    else deallocuvm_loop pgdir oldsz (a + word_of_nat PGSIZE)))
      else retK ())"
  by (rule ext, subst deallocuvm_loop.simps) simp

text \<open>What is left after the frames of a range of pages were freed.\<close>

definition dealloc_post :: "32 word \<Rightarrow> kernel \<Rightarrow> 32 word list \<Rightarrow> nat \<Rightarrow> nat \<Rightarrow> kernel \<Rightarrow> bool" where
  "dealloc_post d s ps lo hi s' \<longleftrightarrow> (\<exists>fs. user_ok s' d (fs @ ps) \<and> set fs = frames (k_mem s) d lo hi \<and>
     changes s s' (pt (k_mem s) d \<union> set fs) \<and> pt (k_mem s') d = pt (k_mem s) d \<and>
     (\<forall>pn<1048576. vmap (k_mem s') d pn = (if lo \<le> pn \<and> pn < hi then None else vmap (k_mem s) d pn)))"

lemma dealloc_post_refl: "user_ok s d ps \<Longrightarrow> hi \<le> lo \<Longrightarrow> dealloc_post d s ps lo hi s"
  unfolding dealloc_post_def by (intro exI [of _ "[]"]) (auto simp: frames_empty)

lemma dealloc_post_skip:
  assumes "dealloc_post d s ps mid hi s'" and "lo \<le> mid"
    and "\<And>pn. lo \<le> pn \<Longrightarrow> pn < mid \<Longrightarrow> vmap (k_mem s) d pn = None"
  shows "dealloc_post d s ps lo hi s'"
proof -
  have "lo \<le> pn \<and> pn < hi \<and> frame (k_mem s) d pn = Some p \<longleftrightarrow> mid \<le> pn \<and> pn < hi \<and> frame (k_mem s) d pn = Some p" for pn p
    using assms(2,3) by (cases "pn < mid") (auto simp: frame_def)
  then have "frames (k_mem s) d lo hi = frames (k_mem s) d mid hi" by (simp add: frames_def)
  then show ?thesis using assms unfolding dealloc_post_def by (auto simp: not_le)
qed

lemma dealloc_post_trans:
  assumes a: "dealloc_post d s ps lo mid s1"
    and b: "\<And>fs. user_ok s1 d fs \<Longrightarrow> wpk m (\<lambda>_. dealloc_post d s1 fs mid hi) s1"
    and le: "lo \<le> mid" "mid \<le> hi" "hi \<le> NUSER"
  shows "wpk m (\<lambda>_. dealloc_post d s ps lo hi) s1"
proof -
  obtain fs where fs: "user_ok s1 d (fs @ ps)" "set fs = frames (k_mem s) d lo mid"
    "changes s s1 (pt (k_mem s) d \<union> set fs)" "pt (k_mem s1) d = pt (k_mem s) d"
    "\<And>pn. pn<1048576 \<Longrightarrow> vmap (k_mem s1) d pn = (if lo \<le> pn \<and> pn < mid then None else vmap (k_mem s) d pn)"
    using a unfolding dealloc_post_def by blast
  have same: "frames (k_mem s1) d mid hi = frames (k_mem s) d mid hi"
    using fs(5) le(3) by (intro frames_cong) (auto simp: frame_def)
  show ?thesis
  proof (rule wpk_mono [OF b [OF fs(1)]])
    fix x s2 assume "dealloc_post d s1 (fs @ ps) mid hi s2"
    then obtain gs where gs: "user_ok s2 d (gs @ fs @ ps)" "set gs = frames (k_mem s1) d mid hi"
      "changes s1 s2 (pt (k_mem s1) d \<union> set gs)" "pt (k_mem s2) d = pt (k_mem s1) d"
      "\<And>pn. pn<1048576 \<Longrightarrow> vmap (k_mem s2) d pn = (if mid \<le> pn \<and> pn < hi then None else vmap (k_mem s1) d pn)"
      unfolding dealloc_post_def by blast
    have "changes s s2 (pt (k_mem s) d \<union> set (gs @ fs))"
      using changes_mono [OF changes_trans [OF fs(3) gs(3)]] fs(4) by auto
    moreover have "set (gs @ fs) = frames (k_mem s) d lo hi"
      using frames_append [OF le(1,2)] fs(2) gs(2) same by auto
    moreover have "vmap (k_mem s2) d pn = (if lo \<le> pn \<and> pn < hi then None else vmap (k_mem s) d pn)"
      if "pn < 1048576" for pn using gs(5) [OF that] fs(5) [OF that] le by auto
    ultimately show "dealloc_post d s ps lo hi s2"
      unfolding dealloc_post_def using gs(1,4) fs(4) by (intro exI [of _ "gs @ fs"]) simp
  qed
qed

text \<open>One page: its frame goes to the free list and its entry is cleared.\<close>

lemma free_one:
  assumes ok: "user_ok s d ps" and pn: "pn < NUSER" and p: "frame (k_mem s) d pn = Some p"
    and s1: "changes s s1 {p}" "kmem_ok s1 (p # ps)"
    and s2: "s2 = s1\<lparr>k_mem := store32 (k_mem s1) (unat (table (pde (k_mem s1) d (pn div 1024))) + 4 * (pn mod 1024)) 0\<rparr>"
  shows "present (pde (k_mem s1) d (pn div 1024))" "dir_ok s1 d (p # ps)" "pde (k_mem s1) d (pn div 1024) = pde (k_mem s) d (pn div 1024)"
    "dealloc_post d s ps pn (Suc pn) s2"
proof -
  note u = user_okD [OF ok]
  note fp = frames_okD [OF u(3) p pn]
  have al: "\<forall>q\<in>{p}. aligned q" using fp(1) by (simp add: kpage_aligned)
  have apart: "{p} \<inter> pt (k_mem s) d = {}" using fp(3) by simp
  have pn': "pn < 1048576" and i: "pn div 1024 < 1024" using pn by (simp_all add: less_mult_imp_div_less)
  note same = same_space [OF s1(1) al u(2) apart]
  show d1: "dir_ok s1 d (p # ps)"
    using dir_ok_changes [OF s1(1) al u(2) apart, of "p # ps"] fp(3) dir_ok_page [OF u(2)] by auto
  show eq: "pde (k_mem s1) d (pn div 1024) = pde (k_mem s) d (pn div 1024)" by (rule same(1) [OF i])
  show pr: "present (pde (k_mem s1) d (pn div 1024))"
    using p unfolding eq by (auto simp: frame_def vmap_def split: if_splits)
  note st = store_slot [OF s1(2) d1 pr pn' s2]
  have vm: "vmap (k_mem s2) d qn = (if qn = pn then None else vmap (k_mem s) d qn)" if "qn < 1048576" for qn
    using st(6) [OF that] same(3) [OF that] by simp
  have fr: "frame (k_mem s2) d qn = (if qn = pn then None else frame (k_mem s) d qn)" if "qn < 1048576" for qn
    using vm [OF that] by (simp add: frame_def)
  have pt2: "pt (k_mem s2) d = pt (k_mem s) d" using st(4) same(4) by simp
  have T: "table (pde (k_mem s1) d (pn div 1024)) \<in> pt (k_mem s) d" using pt_table [OF i pr] same(4) by simp
  have ch: "changes s s2 (pt (k_mem s) d \<union> {p})"
    using changes_mono [OF changes_trans [OF s1(1) st(1)]] T by auto
  have inj: "frames_inj (k_mem s2) d"
    unfolding frames_inj_def using fr frames_injD [OF u(4)] by (auto split: if_splits)
  have "frames_ok s2 d (p # ps)"
    unfolding frames_ok_def pt2
  proof
    fix q assume "q \<in> frames (k_mem s2) d 0 NUSER"
    then obtain qn where qn: "qn < NUSER" "frame (k_mem s2) d qn = Some q" by (auto simp: frames_def)
    then have "qn \<noteq> pn" "frame (k_mem s) d qn = Some q" using fr [of qn] by (auto split: if_splits)
    moreover have "q \<noteq> p" using frames_injD [OF u(4) _ p, of qn] calculation qn(1) pn by auto
    ultimately show "kpage s2 q \<and> q \<notin> set (p # ps) \<and> q \<notin> pt (k_mem s) d"
      using frames_okD [OF u(3), of qn q] qn(1) changes_kpage [OF ch] by simp
  qed
  then have "user_ok s2 d ([p] @ ps)" using st(2,3) inj by (simp add: user_ok_def)
  moreover have "frames (k_mem s) d pn (Suc pn) = set [p]" using p by (auto simp: frames_def less_Suc_eq_le)
  ultimately show "dealloc_post d s ps pn (Suc pn) s2"
    using ch pt2 vm unfolding dealloc_post_def by (intro exI [of _ "[p]"]) (auto simp: less_Suc_eq_le)
qed

lemma unat_PGADDR_next:
  assumes "pno a < NUSER"
  shows "unat (PGADDR (PDX a + 1) 0 0) = 4096 * (1024 * Suc (pno a div 1024))"
proof -
  have i: "pno a div 1024 < 512" using assms by (simp add: less_mult_imp_div_less)
  have "unat (PDX a + 1) = Suc (pno a div 1024)"
    using i unat_PDX [of a] by (subst unat_add_lem [THEN iffD1]) auto
  then show ?thesis using i unfolding PGADDR_def
    by (simp add: unsigned_push_bit_eq push_bit_nat_def take_bit_nat_eq_self)
qed

text \<open>The body of the loop at a page that has a table, with the rest of the loop as a continuation.\<close>

lemma wpk_dealloc_page:
  assumes ok: "user_ok s d ps" and kN: "pno a < NUSER" and pr: "present (pde (k_mem s) d (pno a div 1024))"
    and go: "\<And>s1. dealloc_post d s ps (pno a) (Suc (pno a)) s1 \<Longrightarrow> wpk cont Q s1"
  shows "wpk (bindK (rd32 (slot_ptr (k_mem s) d a)) (\<lambda>e.
    if e AND PTE_P \<noteq> 0
    then if PTE_ADDR e = 0 then failK (Panic ''kfree'')
         else bindK (kfree (P2V (PTE_ADDR e))) (\<lambda>_. bindK (wr32 (slot_ptr (k_mem s) d a) 0) (\<lambda>_. cont))
    else cont)) Q s"
proof (unfold wpk_bind, rule wpk_read_slot [OF user_okD(1,2) [OF ok] pr], cases "present (slot (k_mem s) d (pno a))")
  let ?ptr = "slot_ptr (k_mem s) d a" and ?e = "slot (k_mem s) d (pno a)"
  note u = user_okD [OF ok]
  note ptr = slot_ptr_ok [OF u(1,2) pr]
  let ?g = "wpk (if ?e AND PTE_P \<noteq> 0
    then if PTE_ADDR ?e = 0 then failK (Panic ''kfree'')
         else bindK (kfree (P2V (PTE_ADDR ?e))) (\<lambda>_. bindK (wr32 ?ptr 0) (\<lambda>_. cont))
    else cont) Q s"
  {
    case False
    then have none: "vmap (k_mem s) d pn = None" if "pno a \<le> pn" "pn < Suc (pno a)" for pn
      using that by (simp add: vmap_def le_less_Suc_eq)
    have "dealloc_post d s ps (pno a) (Suc (pno a)) s"
      by (rule dealloc_post_skip [OF dealloc_post_refl [OF ok, of "Suc (pno a)" "Suc (pno a)"] _ none]) simp_all
    then show ?g using False go by (simp add: present_def)
  next
    case e: True
    have fr: "frame (k_mem s) d (pno a) = Some (table ?e)" using e pr by (simp add: frame_def vmap_def)
    note fo = frames_okD [OF u(3) fr kN]
    have "PTE_ADDR ?e \<noteq> 0"
      using kpage_bounds(1) [OF fo(1) kmem_ok_end [OF u(1)]] by (auto simp: table_def P2V_def)
    moreover have "wpk (kfree (table ?e)) (\<lambda>_. wpk (wr32 ?ptr 0) (\<lambda>_. wpk cont Q)) s"
    proof (rule wpk_mono [OF wpk_kfree [OF u(1) fo(1,2)]])
      fix x s1 assume "changes s s1 {table ?e} \<and> kmem_ok s1 (table ?e # ps)"
      then have s1: "changes s s1 {table ?e}" "kmem_ok s1 (table ?e # ps)" by auto
      note one = free_one [OF ok kN fr s1 refl]
      show "wpk (wr32 ?ptr 0) (\<lambda>_. wpk cont Q) s1"
        using ptr(1,2) one(3) go [OF one(4)] by (intro wpk_wr32) simp_all
    qed
    ultimately show ?g using e by (simp add: present_def table_def)
  }
qed

text \<open>The whole loop; \<open>a\<close> moves to the next page or to the next table.\<close>

lemma deallocuvm_loop_ok:
  assumes "user_ok s d ps" and "unat a = 4096 * k" and "oldsz \<le> KERNBASE"
  shows "wpk (deallocuvm_loop d oldsz a) (\<lambda>_. dealloc_post d s ps k ((unat oldsz + 4095) div 4096)) s"
  using assms(1,2)
proof (induction "(unat oldsz + 4095) div 4096 - k" arbitrary: s ps a k rule: less_induct)
  case less
  define hi where "hi = (unat oldsz + 4095) div 4096"
  note u = user_okD [OF less.prems(1)]
  have pa: "pno a = k" using less.prems(2) by simp
  have old: "unat oldsz \<le> 0x80000000" using assms(3) by (simp add: word_le_nat_alt KERNBASE_def)
  then have hi: "hi \<le> NUSER" unfolding hi_def by linarith
  have lt: "a < oldsz \<longleftrightarrow> k < hi" using less.prems(2) unfolding word_less_nat_alt hi_def by linarith
  have IH: "wpk (deallocuvm_loop d oldsz b) (\<lambda>_. dealloc_post d s1 ps1 j hi) s1"
    if "k < j" "k < hi" "user_ok s1 d ps1" "unat b = 4096 * j" for b j s1 ps1
    using less.hyps [OF _ that(3,4)] that(1,2) unfolding hi_def [symmetric] by simp
  show ?case unfolding hi_def [symmetric]
  proof (cases "k < hi")
    case False
    then show "wpk (deallocuvm_loop d oldsz a) (\<lambda>_. dealloc_post d s ps k hi) s"
      using lt dealloc_post_refl [OF less.prems(1)] by (subst deallocuvm_loop_unfold) simp
  next
    case True
    then have kN: "k < NUSER" using hi by simp
    let ?n = "a + word_of_nat PGSIZE" and ?Q = "\<lambda>_. dealloc_post d s ps k hi"
    have nxt: "unat ?n = 4096 * Suc k" using less.prems(2) kN by (subst unat_next_page) auto
    show "wpk (deallocuvm_loop d oldsz a) ?Q s"
      unfolding deallocuvm_loop_unfold [of d oldsz a] if_P [OF lt [THEN iffD2, OF True]] wpk_bind [of "walkpgdir _ _ _"]
    proof (rule wpk_walk [OF u(1,2)], goal_cases)
      case 1
      have "wpk (deallocuvm_loop d oldsz ?n) ?Q s1" if "dealloc_post d s ps k (Suc k) s1" for s1
        using IH [OF lessI True _ nxt] True hi by (intro dealloc_post_trans [OF that]) auto
      then have "wpk (bindK (rd32 (slot_ptr (k_mem s) d a)) (\<lambda>e.
          if e AND PTE_P \<noteq> 0
          then if PTE_ADDR e = 0 then failK (Panic ''kfree'')
               else bindK (kfree (P2V (PTE_ADDR e))) (\<lambda>_. bindK (wr32 (slot_ptr (k_mem s) d a) 0) (\<lambda>_. deallocuvm_loop d oldsz ?n))
          else deallocuvm_loop d oldsz ?n)) ?Q s"
        using pa kN by (intro wpk_dealloc_page [OF less.prems(1) _ 1]) simp_all
      then show ?case using slot_ptr_ok(3) [OF u(1,2) 1] by simp
    next
      case 2
      let ?mid = "1024 * Suc (k div 1024)"
      have km: "k < ?mid" by (simp add: dividend_less_times_div)
      have un: "vmap (k_mem s) d pn = None" if "k \<le> pn" "pn < ?mid" for pn
      proof -
        have "pn div 1024 = k div 1024"
          using div_le_mono [OF that(1), of 1024] less_mult_imp_div_less [of pn "Suc (k div 1024)" 1024] that(2) by simp
        then show ?thesis using 2 pa by (simp add: vmap_def)
      qed
      have "wpk (deallocuvm_loop d oldsz (PGADDR (PDX a + 1) 0 0)) (\<lambda>_. dealloc_post d s ps ?mid hi) s"
        using unat_PGADDR_next [of a] pa kN by (intro IH [OF km True less.prems(1)]) simp
      then show ?case using dealloc_post_skip [OF _ less_imp_le [OF km] un] by (auto elim!: wpk_mono)
    qed
  qed
qed

lemma wpk_deallocuvm:
  assumes "user_ok s d ps" and "oldsz \<le> KERNBASE"
  shows "wpk (deallocuvm d oldsz newsz)
    (\<lambda>r s'. r = min oldsz newsz \<and>
       dealloc_post d s ps ((unat newsz + 4095) div 4096) ((unat oldsz + 4095) div 4096) s') s"
proof (cases "oldsz \<le> newsz")
  case True
  then have "(unat oldsz + 4095) div 4096 \<le> (unat newsz + 4095) div 4096"
    by (intro div_le_mono) (simp add: word_le_nat_alt)
  then show ?thesis using True dealloc_post_refl [OF assms(1)] by (simp add: deallocuvm_def min_def)
next
  case False
  then have new: "unat newsz < unat oldsz" "unat oldsz \<le> 0x80000000"
    using assms(2) by (auto simp: not_le word_less_nat_alt word_le_nat_alt KERNBASE_def)
  then have "unat (PGROUNDUP newsz) = 4096 * ((unat newsz + 4095) div 4096)" by (subst unat_PGROUNDUP) auto
  from deallocuvm_loop_ok [OF assms(1) this assms(2)] show ?thesis
    using False by (auto simp: deallocuvm_def min_def elim!: wpk_mono)
qed

section \<open>Tearing down\<close>

text \<open>The tables of some entries of the directory.\<close>

definition tables :: "mem \<Rightarrow> 32 word \<Rightarrow> nat set \<Rightarrow> 32 word set" where
  "tables m d A = {table (pde m d i) | i. i \<in> A \<and> present (pde m d i)}"

lemma tables_insert:
  "tables m d (insert i A) = (if present (pde m d i) then {table (pde m d i)} else {}) \<union> tables m d A"
  by (auto simp: tables_def)

lemma tables_cong: "(\<And>i. i \<in> A \<Longrightarrow> pde m' d i = pde m d i) \<Longrightarrow> tables m' d A = tables m d A"
  unfolding tables_def by (intro Collect_cong ex_cong1) auto

lemma pt_tables: "pt m d = insert d (tables m d {0..<1024})"
  by (auto simp: pt_def tables_def)

lemma freevm_loop_ok:
  assumes "kmem_ok s ps" and "kpage s d" and "distinct is" and "\<And>i. i \<in> set is \<Longrightarrow> i < 1024"
    and "\<And>p. p \<in> tables (k_mem s) d (set is) \<Longrightarrow> kpage s p \<and> p \<notin> set ps \<and> p \<noteq> d"
    and "inj_on (\<lambda>i. table (pde (k_mem s) d i)) {i \<in> set is. present (pde (k_mem s) d i)}"
  shows "wpk (freevm_loop d is) (\<lambda>_ s'. \<exists>fs. kmem_ok s' (fs @ ps) \<and> set fs = tables (k_mem s) d (set is) \<and> changes s s' (set fs)) s"
  using assms
proof (induction "is" arbitrary: s ps)
  case Nil
  then show ?case by (auto simp: tables_def intro!: exI [of _ "[]"])
next
  case (Cons i js)
  let ?e = "pde (k_mem s) d i"
  have i: "i < 1024" "i \<notin> set js" "distinct js" using Cons.prems(3,4) by auto
  have js: "tables (k_mem s) d (set js) \<subseteq> tables (k_mem s) d (set (i # js))" by (auto simp: tables_def)
  have inj: "inj_on (\<lambda>i. table (pde (k_mem s) d i)) {i \<in> set js. present (pde (k_mem s) d i)}"
    using Cons.prems(6) by (rule inj_on_subset) auto
  note sl = slot_addr [OF Cons.prems(2) kmem_ok_end [OF Cons.prems(1)], of "word_of_nat i"]
  have ui: "unat (word_of_nat i :: 32 word) = i" using i(1) by (intro unat_small) simp
  let ?f = "if ?e AND PTE_P \<noteq> 0 then kfree (P2V (PTE_ADDR ?e)) else retK ()"
  let ?Q = "\<lambda>_ s'. \<exists>fs. kmem_ok s' (fs @ ps) \<and> set fs = tables (k_mem s) d (set (i # js)) \<and> changes s s' (set fs)"
  have "wpk (bindK ?f (\<lambda>_. freevm_loop d js)) ?Q s"
  proof (cases "present ?e")
    case False
    then have "wpk (freevm_loop d js) ?Q s"
      using Cons.IH [OF Cons.prems(1,2) i(3) _ _ inj] Cons.prems(4,5) js by (auto simp: tables_insert)
    then show ?thesis using False by (simp add: present_def)
  next
    case True
    let ?p = "table ?e"
    have p: "kpage s ?p" "?p \<notin> set ps" "?p \<noteq> d" using Cons.prems(5) [of ?p] True by (auto simp: tables_def)
    have new: "?p \<notin> tables (k_mem s) d (set js)"
      using Cons.prems(6) i(2) True by (auto simp: tables_def inj_on_def)
    have "wpk (freevm_loop d js) ?Q s1" if s1: "changes s s1 {?p}" "kmem_ok s1 (?p # ps)" for s1
    proof -
      have pde: "pde (k_mem s1) d j = pde (k_mem s) d j" if "j < 1024" for j
        using changes_load [OF s1(1), of d j] p Cons.prems(2) that by (simp add: pde_def kpage_def)
      then have tb: "tables (k_mem s1) d (set js) = tables (k_mem s) d (set js)"
        using Cons.prems(4) by (intro tables_cong) simp
      have kp: "kpage s1 q = kpage s q" for q by (rule changes_kpage [OF s1(1)])
      have "wpk (freevm_loop d js) (\<lambda>_ s'. \<exists>fs. kmem_ok s' (fs @ ?p # ps) \<and> set fs = tables (k_mem s1) d (set js) \<and> changes s1 s' (set fs)) s1"
      proof (rule Cons.IH [OF s1(2) _ i(3)])
        show "inj_on (\<lambda>i. table (pde (k_mem s1) d i)) {i \<in> set js. present (pde (k_mem s1) d i)}"
          using inj pde Cons.prems(4) by (auto simp: inj_on_def)
      qed (use Cons.prems(2,4,5) js new in \<open>auto simp: kp tb\<close>)
      then show ?thesis
      proof (rule wpk_mono)
        fix x s' assume "\<exists>fs. kmem_ok s' (fs @ ?p # ps) \<and> set fs = tables (k_mem s1) d (set js) \<and> changes s1 s' (set fs)"
        then obtain fs where fs: "kmem_ok s' (fs @ ?p # ps)" "set fs = tables (k_mem s) d (set js)" "changes s1 s' (set fs)"
          unfolding tb by blast
        then show "?Q x s'" using changes_trans [OF s1(1) fs(3)] True
          by (intro exI [of _ "fs @ [?p]"]) (simp add: tables_insert insert_commute Un_commute)
      qed
    qed
    then have "wpk (kfree ?p) (\<lambda>_. wpk (freevm_loop d js) ?Q) s"
      by (intro wpk_mono [OF wpk_kfree [OF Cons.prems(1) p(1,2)]]) simp
    then show ?thesis using True by (simp add: present_def table_def)
  qed
  then show ?case using sl ui i(1) by (auto simp: pde_def intro!: wpk_rd32)
qed

text \<open>\<^verbatim>\<open>freevm\<close> gives back the frames of all user pages, the tables and the directory.\<close>

lemma wpk_freevm:
  assumes ok: "user_ok s d ps"
  shows "wpk (freevm d) (\<lambda>_ s'. \<exists>fs. kmem_ok s' (fs @ ps) \<and>
    set fs = frames (k_mem s) d 0 NUSER \<union> pt (k_mem s) d \<and> changes s s' (set fs)) s"
proof -
  have d: "kpage s d" "d \<noteq> 0"
    using dir_ok_page [OF user_okD(2) [OF ok] pt_dir] kpage_bounds(3) kmem_ok_end [OF user_okD(1) [OF ok]] by blast+
  let ?Q = "\<lambda>_ s'. \<exists>fs. kmem_ok s' (fs @ ps) \<and> set fs = frames (k_mem s) d 0 NUSER \<union> pt (k_mem s) d \<and> changes s s' (set fs)"
  have two: "wpk (bindK (freevm_loop d [0..<1024]) (\<lambda>_. kfree d)) ?Q s1"
    if post: "dealloc_post d s ps 0 NUSER s1" for s1
  proof -
    obtain fs where fs: "user_ok s1 d (fs @ ps)" "set fs = frames (k_mem s) d 0 NUSER"
      "changes s s1 (pt (k_mem s) d \<union> set fs)" "pt (k_mem s1) d = pt (k_mem s) d"
      using post unfolding dealloc_post_def by blast
    note u = user_okD [OF fs(1)]
    have "wpk (freevm_loop d [0..<1024]) (\<lambda>_ s'. \<exists>ts. kmem_ok s' (ts @ fs @ ps) \<and>
        set ts = tables (k_mem s1) d (set [0..<1024]) \<and> changes s1 s' (set ts)) s1"
    proof (rule freevm_loop_ok [OF u(1)])
      show "kpage s1 d" using dir_ok_page [OF u(2) pt_dir] by simp
      show "inj_on (\<lambda>i. table (pde (k_mem s1) d i)) {i \<in> set [0..<1024]. present (pde (k_mem s1) d i)}"
        using u(2) unfolding dir_ok_def inj_on_def by auto
      show "kpage s1 p \<and> p \<notin> set (fs @ ps) \<and> p \<noteq> d" if tp: "p \<in> tables (k_mem s1) d (set [0..<1024])" for p
      proof -
        obtain i where i: "i < 1024" "present (pde (k_mem s1) d i)" "p = table (pde (k_mem s1) d i)"
          using tp by (auto simp: tables_def)
        then have "p \<in> pt (k_mem s1) d" using pt_table by simp
        moreover have "p \<noteq> d" using i u(2) by (simp add: dir_ok_def)
        ultimately show ?thesis using dir_ok_page [OF u(2)] by simp
      qed
    qed simp_all
    then show ?thesis unfolding wpk_bind
    proof (rule wpk_mono)
      fix x s2 assume "\<exists>ts. kmem_ok s2 (ts @ fs @ ps) \<and> set ts = tables (k_mem s1) d (set [0..<1024]) \<and> changes s1 s2 (set ts)"
      then obtain ts where ts: "kmem_ok s2 (ts @ fs @ ps)" "set ts = tables (k_mem s1) d {0..<1024}" "changes s1 s2 (set ts)"
        by auto
      have ch: "changes s s2 (pt (k_mem s) d \<union> set fs)"
        using changes_mono [OF changes_trans [OF fs(3) ts(3)]] ts(2) pt_tables [of "k_mem s1" d] fs(4) by auto
      have "d \<notin> set ts" using u(2) ts(2) unfolding dir_ok_def tables_def by auto
      then have new: "d \<notin> set (ts @ fs @ ps)" using dir_ok_page [OF u(2) pt_dir] by simp
      have kd: "kpage s2 d" using d(1) changes_kpage [OF ch] by simp
      show "wpk (kfree d) ?Q s2"
      proof (rule wpk_mono [OF wpk_kfree [OF ts(1) kd new]])
        fix y s3 assume s3: "changes s2 s3 {d} \<and> kmem_ok s3 (d # ts @ fs @ ps)"
        have all: "set (d # ts @ fs) = pt (k_mem s) d \<union> set fs"
          using fs(4) ts(2) pt_tables [of "k_mem s1" d] by auto
        then have "set (d # ts @ fs) = frames (k_mem s) d 0 NUSER \<union> pt (k_mem s) d" using fs(2) by auto
        moreover have "changes s s3 (set (d # ts @ fs))"
          unfolding all by (rule changes_mono [OF changes_trans [OF ch, of s3 "{d}"]]) (use s3 pt_dir in auto)
        ultimately show "?Q y s3" using s3 by (intro exI [of _ "d # ts @ fs"]) simp
      qed
    qed
  qed
  have "wpk (deallocuvm d KERNBASE 0) (\<lambda>_. dealloc_post d s ps 0 NUSER) s"
    using wpk_deallocuvm [OF ok, of KERNBASE 0] by (auto simp: KERNBASE_def elim!: wpk_mono)
  then have "wpk (deallocuvm d KERNBASE 0) (\<lambda>_. wpk (bindK (freevm_loop d [0..<1024]) (\<lambda>_. kfree d)) ?Q) s"
    by (rule wpk_mono) (rule two)
  then show ?thesis using d(2) unfolding freevm_def by (simp del: upt_rec_numeral)
qed

section \<open>Adding a page\<close>

lemma changes_page:
  assumes "changes s s' P" and "\<forall>q\<in>P. aligned q" and "aligned p" and "p \<notin> P" and "on_page p a"
  shows "k_mem s' a = k_mem s a"
proof -
  have "\<forall>q\<in>P. \<not> on_page q a" using aligned_on_page assms(2-5) unfolding aligned_def by metis
  then show ?thesis using assms(1) by (simp add: changes_def)
qed

lemma user_ok_aligned: "user_ok s d ps \<Longrightarrow> p \<in> pt (k_mem s) d \<union> set ps \<Longrightarrow> aligned p"
  using dir_ok_page [of s d ps p] unfolding user_ok_def kmem_ok_def by (auto intro: kpage_aligned)

lemma extendsE:
  assumes "extends d s ps s' ps'"
  obtains qs where "ps = qs @ ps'" "changes s s' (pt (k_mem s) d \<union> set qs)" "pt (k_mem s') d = pt (k_mem s) d \<union> set qs"
    "kmem_ok s' ps'" "dir_ok s' d ps'"
  using assms unfolding extends_def by blast

text \<open>A page that may become the frame of a user page.\<close>

definition fresh :: "kernel \<Rightarrow> 32 word \<Rightarrow> 32 word list \<Rightarrow> 32 word \<Rightarrow> bool" where
  "fresh s d ps p \<longleftrightarrow> kpage s p \<and> p \<notin> set ps \<and> p \<notin> pt (k_mem s) d \<and> p \<notin> frames (k_mem s) d 0 NUSER"

lemma user_ok_extends:
  assumes ok: "user_ok s d ps" and ext: "extends d s ps s' ps'"
    and fr: "\<And>pn. pn < NUSER \<Longrightarrow> frame (k_mem s') d pn = (if pn = k then fk else frame (k_mem s) d pn)"
    and new: "\<And>p. k < NUSER \<Longrightarrow> fk = Some p \<Longrightarrow> fresh s d ps p"
  shows "user_ok s' d ps'"
proof -
  note u = user_okD [OF ok]
  obtain qs where qs: "ps = qs @ ps'" "changes s s' (pt (k_mem s) d \<union> set qs)" "pt (k_mem s') d = pt (k_mem s) d \<union> set qs"
    "kmem_ok s' ps'" "dir_ok s' d ps'" using ext by (rule extendsE)
  have old: "kpage s q \<and> q \<notin> set ps \<and> q \<notin> pt (k_mem s) d" if "frame (k_mem s') d pn = Some q" "pn < NUSER" for pn q
    using fr [OF that(2)] that frames_okD [OF u(3), of pn q] new [of q] by (auto simp: fresh_def split: if_splits)
  have "frames_ok s' d ps'"
    unfolding frames_ok_def frames_def using old changes_kpage [OF qs(2)] qs(1,3) by auto
  moreover have "pn = qn" if "frame (k_mem s') d pn = Some q" "frame (k_mem s') d qn = Some q" "pn < NUSER" "qn < NUSER" for pn qn q
  proof -
    have k: "q \<notin> frames (k_mem s) d 0 NUSER" if "fk = Some q" "k < NUSER" using new [OF that(2,1)] by (simp add: fresh_def)
    have "q \<in> frames (k_mem s) d 0 NUSER" if "frame (k_mem s) d j = Some q" "j < NUSER" for j using that by (auto simp: frames_def)
    then show ?thesis using fr [OF that(3)] fr [OF that(4)] that k frames_injD [OF u(4), of pn q qn]
      by (auto split: if_splits)
  qed
  ultimately show ?thesis using qs(4,5) unfolding user_ok_def frames_inj_def by blast
qed

text \<open>Memory outside the tables changes, and the free list with it.\<close>

lemma user_ok_changes:
  assumes ok: "user_ok s d ps" and ch: "changes s s1 P" and P: "\<forall>p\<in>P. aligned p" "P \<inter> pt (k_mem s) d = {}"
    and km: "kmem_ok s1 ps1" "set ps1 \<inter> pt (k_mem s) d = {}" "set ps1 \<inter> frames (k_mem s) d 0 NUSER = {}"
  shows "user_ok s1 d ps1" "pt (k_mem s1) d = pt (k_mem s) d"
    "\<And>pn. pn < 1048576 \<Longrightarrow> vmap (k_mem s1) d pn = vmap (k_mem s) d pn"
    "frames (k_mem s1) d 0 NUSER = frames (k_mem s) d 0 NUSER"
proof -
  note u = user_okD [OF ok]
  note same = same_space [OF ch P(1) u(2) P(2)]
  show pt: "pt (k_mem s1) d = pt (k_mem s) d" and vm: "\<And>pn. pn < 1048576 \<Longrightarrow> vmap (k_mem s1) d pn = vmap (k_mem s) d pn"
    by (rule same(4), rule same(3))
  have fr: "frame (k_mem s1) d pn = frame (k_mem s) d pn" if "pn < NUSER" for pn
    using vm [of pn] that by (simp add: frame_def)
  show frs: "frames (k_mem s1) d 0 NUSER = frames (k_mem s) d 0 NUSER" using fr by (intro frames_cong) simp
  have "frames_ok s1 d ps1" using u(3) km(3) unfolding frames_ok_def frs pt changes_kpage [OF ch] by auto
  moreover have "frames_inj (k_mem s1) d" using u(4) fr unfolding frames_inj_def by simp
  moreover have "dir_ok s1 d ps1" by (rule dir_ok_changes [OF ch P(1) u(2) P(2) km(2)])
  ultimately show "user_ok s1 d ps1" using km(1) by (simp add: user_ok_def)
qed

lemma user_ok_apart:
  assumes "user_ok s d ps"
  shows "set ps \<inter> pt (k_mem s) d = {}" "set ps \<inter> frames (k_mem s) d 0 NUSER = {}"
  using dir_ok_page [OF user_okD(2) [OF assms]] user_okD(3) [OF assms] by (auto simp: frames_ok_def)

text \<open>Taking a page from the free list and writing to it.\<close>

lemma user_ok_alloc:
  assumes ok: "user_ok s d (p # ps)" and s1: "changes s s1 {p}" "kmem_ok s1 ps"
  shows "user_ok s1 d ps" "fresh s1 d ps p" "pt (k_mem s1) d = pt (k_mem s) d"
    "\<And>pn. pn < 1048576 \<Longrightarrow> vmap (k_mem s1) d pn = vmap (k_mem s) d pn"
proof -
  have p: "kpage s p" "p \<notin> set ps" using user_okD(1) [OF ok] by (auto simp: kmem_ok_def)
  note c = user_ok_changes [OF ok s1(1) _ _ s1(2)]
  show "user_ok s1 d ps" "pt (k_mem s1) d = pt (k_mem s) d" "\<And>pn. pn < 1048576 \<Longrightarrow> vmap (k_mem s1) d pn = vmap (k_mem s) d pn"
    by (rule c; use user_ok_apart [OF ok] p(1) in \<open>auto simp: kpage_aligned\<close>)+
  have "frames (k_mem s1) d 0 NUSER = frames (k_mem s) d 0 NUSER" "pt (k_mem s1) d = pt (k_mem s) d"
    by (rule c; use user_ok_apart [OF ok] p(1) in \<open>auto simp: kpage_aligned\<close>)+
  then show "fresh s1 d ps p" using user_ok_apart [OF ok] p changes_kpage [OF s1(1)] unfolding fresh_def by auto
qed

text \<open>Mapping one user page to it.\<close>

lemma wpk_map_frame:
  assumes ok: "user_ok s d ps" and p: "fresh s d ps p" and k: "unat a = 4096 * k" "k < NUSER"
    and none: "vmap (k_mem s) d k = None" and perm: "unat perm < 4096"
    and good: "\<And>s' ps'. user_ok s' d ps' \<Longrightarrow> extends d s ps s' ps' \<Longrightarrow> table (V2P p OR perm OR PTE_P) = p \<Longrightarrow>
      (\<And>pn. pn < 1048576 \<Longrightarrow> vmap (k_mem s') d pn = (if pn = k then Some (V2P p OR perm OR PTE_P) else vmap (k_mem s) d pn)) \<Longrightarrow>
      Q 0 s'"
    and bad: "\<And>s'. user_ok s' d [] \<Longrightarrow> extends d s ps s' [] \<Longrightarrow>
      (\<And>pn. pn < 1048576 \<Longrightarrow> vmap (k_mem s') d pn = vmap (k_mem s) d pn) \<Longrightarrow> Q (-1) s'"
  shows "wpk (mappages d a (word_of_nat PGSIZE) (V2P p) perm) Q s"
proof -
  note u = user_okD [OF ok]
  have kp: "kpage s p" using p by (simp add: fresh_def)
  have sz: "unat (word_of_nat PGSIZE :: 32 word) = 4096" by (simp add: PGSIZE_def)
  have pno: "pno a = k" "(4096 * k + 4095) div 4096 = k" using k(1) by simp_all
  have small: "unat (perm OR 1) < 4096"
  proof -
    have "perm AND mask 12 = perm" "(1 :: 32 word) AND mask 12 = 1"
      using perm unfolding word_unat_eq_iff unat_and_mask by simp_all
    then have "(perm OR 1) AND mask 12 = perm OR 1" by (metis bit.conj_disj_distrib2)
    then show ?thesis using unat_and_mask [of "perm OR 1" 12] by simp
  qed
  have tab: "table (V2P p OR perm OR PTE_P) = p"
    using table_entry [OF kp kmem_ok_end [OF u(1)] small] by (simp add: or.assoc)
  have "wpk (mappages d a (word_of_nat PGSIZE) (V2P p) perm) (map_post d s ps k (Suc 0) (V2P p) perm) s"
    using wpk_mappages [OF u(1,2), of "word_of_nat PGSIZE" a "V2P p" perm] k none sz pno
    by (simp add: word_unat_eq_iff)
  then show ?thesis
  proof (rule wpk_mono)
    fix r s' assume "map_post d s ps k (Suc 0) (V2P p) perm r s'"
    then obtain ps' where ext: "extends d s ps s' ps'" and r:
      "r = 0 \<and> (\<forall>pn<1048576. vmap (k_mem s') d pn = mapped (vmap (k_mem s) d) k (Suc 0) (V2P p) perm pn) \<or>
       r = -1 \<and> ps' = [] \<and> (\<forall>pn<1048576. vmap (k_mem s') d pn = mapped (vmap (k_mem s) d) k 0 (V2P p) perm pn)"
      unfolding map_post_def by auto
    show "Q r s'"
    proof (cases "r = 0")
      case True
      then have vm: "vmap (k_mem s') d pn = (if pn = k then Some (V2P p OR perm OR PTE_P) else vmap (k_mem s) d pn)"
        if "pn < 1048576" for pn using r that by (auto simp: mapped_def)
      have "user_ok s' d ps'"
        by (rule user_ok_extends [OF ok ext, where k = k and fk = "Some p"]) (use vm tab p in \<open>auto simp: frame_def\<close>)
      then show ?thesis using good [OF _ ext tab vm] True by simp
    next
      case False
      then have vm: "vmap (k_mem s') d pn = vmap (k_mem s) d pn" if "pn < 1048576" for pn
        using r that by (auto simp: mapped_def)
      have ps': "ps' = []" "r = -1" using False r by auto
      have "user_ok s' d ps'"
        by (rule user_ok_extends [OF ok ext, where k = NUSER and fk = None]) (use vm in \<open>auto simp: frame_def\<close>)
      then show ?thesis using bad [of s'] ext vm ps' by simp
    qed
  qed
qed

section \<open>Growing\<close>

text \<open>
  The state after the pages from \<open>lo\<close> to \<open>k\<close> were added: each has a frame of its own from the free
  list, with the permissions \<open>fl\<close> and the contents \<open>c\<close>; the other pages are as before, and no page is lost.
\<close>

definition grown :: "32 word \<Rightarrow> kernel \<Rightarrow> 32 word list \<Rightarrow> nat \<Rightarrow> nat \<Rightarrow>
    (nat \<Rightarrow> 32 word) \<Rightarrow> (nat \<Rightarrow> nat \<Rightarrow> 8 word) \<Rightarrow> kernel \<Rightarrow> 32 word list \<Rightarrow> bool" where
  "grown d s ps lo k fl c s' ps' \<longleftrightarrow>
     user_ok s' d ps' \<and> changes s s' (pt (k_mem s) d \<union> set ps) \<and> set ps' \<subseteq> set ps \<and>
     set ps' \<union> pt (k_mem s') d \<union> frames (k_mem s') d lo k = set ps \<union> pt (k_mem s) d \<and>
     (\<forall>pn<1048576. pn < lo \<or> k \<le> pn \<longrightarrow> vmap (k_mem s') d pn = vmap (k_mem s) d pn) \<and>
     (\<forall>pn. lo \<le> pn \<longrightarrow> pn < k \<longrightarrow> (\<exists>p\<in>set ps.
        vmap (k_mem s') d pn = Some (V2P p OR fl pn OR PTE_P) \<and> table (V2P p OR fl pn OR PTE_P) = p \<and>
        (\<forall>j<PGSIZE. k_mem s' (unat p + j) = c pn j)))"

lemma grownD:
  assumes "grown d s ps lo k fl c s' ps'"
  shows "user_ok s' d ps'" "changes s s' (pt (k_mem s) d \<union> set ps)" "set ps' \<subseteq> set ps"
    "set ps' \<union> pt (k_mem s') d \<union> frames (k_mem s') d lo k = set ps \<union> pt (k_mem s) d"
    "\<And>pn. pn < 1048576 \<Longrightarrow> pn < lo \<or> k \<le> pn \<Longrightarrow> vmap (k_mem s') d pn = vmap (k_mem s) d pn"
    "\<And>pn. lo \<le> pn \<Longrightarrow> pn < k \<Longrightarrow> \<exists>p\<in>set ps.
        vmap (k_mem s') d pn = Some (V2P p OR fl pn OR PTE_P) \<and> table (V2P p OR fl pn OR PTE_P) = p \<and>
        (\<forall>j<PGSIZE. k_mem s' (unat p + j) = c pn j)"
  using assms unfolding grown_def by blast+

lemma grown_refl: "user_ok s d ps \<Longrightarrow> grown d s ps lo lo fl c s ps"
  by (simp add: grown_def frames_empty)

lemma grown_step:
  assumes g: "grown d s ps lo k fl c s1 (p # ps1)" and lo: "lo \<le> k" "k < NUSER"
    and s2: "changes s1 s2 {p}" "kmem_ok s2 ps1" "\<forall>j<PGSIZE. k_mem s2 (unat p + j) = c k j"
    and ext: "extends d s2 ps1 s3 ps3" and ok: "user_ok s3 d ps3"
    and tab: "table (V2P p OR fl k OR PTE_P) = p"
    and vm: "\<And>pn. pn < 1048576 \<Longrightarrow> vmap (k_mem s3) d pn =
      (if pn = k then Some (V2P p OR fl k OR PTE_P) else vmap (k_mem s2) d pn)"
  shows "grown d s ps lo (Suc k) fl c s3 ps3"
proof -
  note g' = grownD [OF g]
  note a = user_ok_alloc [OF g'(1) s2(1,2)]
  obtain qs where qs: "ps1 = qs @ ps3" "changes s2 s3 (pt (k_mem s2) d \<union> set qs)" "pt (k_mem s3) d = pt (k_mem s2) d \<union> set qs"
    using ext by (rule extendsE)
  have all: "set (p # ps1) \<union> pt (k_mem s1) d \<subseteq> set ps \<union> pt (k_mem s) d" using g'(4) by auto
  have ch: "changes s s3 (pt (k_mem s) d \<union> set ps)"
    by (rule changes_mono [OF changes_trans [OF g'(2) changes_trans [OF s2(1) qs(2)]]]) (use all a(3) qs(1) in auto)
  have al: "\<forall>q\<in>pt (k_mem s2) d \<union> set qs. aligned q" using user_ok_aligned [OF a(1)] qs(1) by auto
  have keep: "k_mem s3 b = k_mem s2 b" if "on_page q b" "kpage s2 q" "q \<notin> pt (k_mem s2) d \<union> set qs" for q b
    by (rule changes_page [OF qs(2) al kpage_aligned [OF that(2)] that(3,1)])
  have keep1: "k_mem s2 b = k_mem s1 b" if "on_page q b" "kpage s1 q" "q \<noteq> p" for q b
    by (rule changes_page [OF s2(1) _ kpage_aligned [OF that(2)] _ that(1)])
      (use that(3) a(2) in \<open>auto simp: fresh_def intro: kpage_aligned\<close>)
  have frk: "frame (k_mem s3) d k = Some p" using vm [of k] tab lo(2) by (simp add: frame_def)
  have "frames (k_mem s3) d lo k = frames (k_mem s1) d lo k"
    using vm a(4) lo(2) by (intro frames_cong) (simp add: frame_def)
  moreover have "frames (k_mem s3) d k (Suc k) = {p}" using frk by (auto simp: frames_def le_less_Suc_eq)
  ultimately have frs: "frames (k_mem s3) d lo (Suc k) = insert p (frames (k_mem s1) d lo k)"
    using frames_append [of lo k "Suc k"] lo(1) by auto
  have cons: "set ps3 \<union> pt (k_mem s3) d \<union> frames (k_mem s3) d lo (Suc k) = set ps \<union> pt (k_mem s) d"
    unfolding frs qs(3) a(3) g'(4) [symmetric] using qs(1) by auto
  have pages: "\<exists>q\<in>set ps. vmap (k_mem s3) d pn = Some (V2P q OR fl pn OR PTE_P) \<and>
      table (V2P q OR fl pn OR PTE_P) = q \<and> (\<forall>j<PGSIZE. k_mem s3 (unat q + j) = c pn j)"
    if pn: "lo \<le> pn" "pn < Suc k" for pn
  proof (cases "pn = k")
    case True
    have "k_mem s3 (unat p + j) = c k j" if "j < PGSIZE" for j
      using keep [of p "unat p + j"] a(2) qs(1) s2(3) that by (simp add: fresh_def on_page_def)
    then show ?thesis using True vm [of k] lo(2) tab g'(3) by auto
  next
    case False
    then have "pn < k" using pn by simp
    then obtain q where q: "q \<in> set ps" "vmap (k_mem s1) d pn = Some (V2P q OR fl pn OR PTE_P)"
      "table (V2P q OR fl pn OR PTE_P) = q" "\<forall>j<PGSIZE. k_mem s1 (unat q + j) = c pn j" using g'(6) [OF pn(1)] by blast
    have fr: "frame (k_mem s1) d pn = Some q" using q by (simp add: frame_def)
    note fq = frames_okD [OF user_okD(3) [OF g'(1)] fr]
    have "q \<noteq> p" "q \<notin> pt (k_mem s2) d \<union> set qs" "kpage s1 q" "kpage s2 q"
      using fq \<open>pn < k\<close> lo(2) a(3) qs(1) changes_kpage [OF s2(1)] by auto
    then have "k_mem s3 (unat q + j) = c pn j" if "j < PGSIZE" for j
      using keep [of q "unat q + j"] keep1 [of q "unat q + j"] q(4) that by (simp add: on_page_def)
    then show ?thesis using q vm [of pn] a(4) [of pn] \<open>pn < k\<close> lo(2) by auto
  qed
  have "vmap (k_mem s3) d pn = vmap (k_mem s) d pn" if "pn < 1048576" "pn < lo \<or> Suc k \<le> pn" for pn
    using vm [OF that(1)] a(4) [OF that(1)] g'(5) [OF that(1)] that(2) lo(1) by auto
  then show ?thesis using ok ch g'(3) qs(1) cons pages unfolding grown_def by auto
qed

lemma user_ok_free:
  assumes ok: "user_ok s d ps" and p: "fresh s d ps p" and s1: "changes s s1 {p}" "kmem_ok s1 (p # ps)"
  shows "user_ok s1 d (p # ps)" "pt (k_mem s1) d = pt (k_mem s) d"
    "\<And>pn. pn < 1048576 \<Longrightarrow> vmap (k_mem s1) d pn = vmap (k_mem s) d pn"
  by (rule user_ok_changes [OF ok s1(1) _ _ s1(2)]; use user_ok_apart [OF ok] p in \<open>auto simp: fresh_def kpage_aligned\<close>)+

text \<open>The state after a failure: the pages are as they were, and all pages are accounted for.\<close>

definition restored :: "32 word \<Rightarrow> kernel \<Rightarrow> 32 word list \<Rightarrow> 32 word set \<Rightarrow> kernel \<Rightarrow> 32 word list \<Rightarrow> bool" where
  "restored d s ps X s' ps' \<longleftrightarrow>
     user_ok s' d ps' \<and> changes s s' (pt (k_mem s) d \<union> set ps) \<and>
     X \<union> set ps' \<union> pt (k_mem s') d = set ps \<union> pt (k_mem s) d \<and>
     (\<forall>pn<1048576. vmap (k_mem s') d pn = vmap (k_mem s) d pn) \<and> (\<forall>p\<in>X. fresh s' d ps' p)"

lemma wpk_undo:
  assumes ok: "user_ok s1 d ps1" and ch: "changes s s1 (pt (k_mem s) d \<union> set ps)"
    and new: "newsz \<le> KERNBASE"
    and lo: "lo = (unat oldsz + 4095) div 4096" and hi: "hi = (unat newsz + 4095) div 4096"
    and cons: "X \<union> set ps1 \<union> pt (k_mem s1) d \<union> frames (k_mem s1) d lo hi = set ps \<union> pt (k_mem s) d"
    and out: "\<And>pn. pn < 1048576 \<Longrightarrow> pn < lo \<or> hi \<le> pn \<Longrightarrow> vmap (k_mem s1) d pn = vmap (k_mem s) d pn"
    and none: "\<And>pn. lo \<le> pn \<Longrightarrow> pn < hi \<Longrightarrow> vmap (k_mem s) d pn = None"
    and X: "\<And>p. p \<in> X \<Longrightarrow> fresh s1 d ps1 p"
  shows "wpk (deallocuvm d newsz oldsz) (\<lambda>_ s'. \<exists>ps'. restored d s ps X s' ps') s1"
proof (rule wpk_mono [OF wpk_deallocuvm [OF ok new]])
  fix r s' assume "r = min newsz oldsz \<and> dealloc_post d s1 ps1 ((unat oldsz + 4095) div 4096) ((unat newsz + 4095) div 4096) s'"
  then obtain fs where fs: "user_ok s' d (fs @ ps1)" "set fs = frames (k_mem s1) d lo hi"
    "changes s1 s' (pt (k_mem s1) d \<union> set fs)" "pt (k_mem s') d = pt (k_mem s1) d"
    "\<And>pn. pn<1048576 \<Longrightarrow> vmap (k_mem s') d pn = (if lo \<le> pn \<and> pn < hi then None else vmap (k_mem s1) d pn)"
    unfolding dealloc_post_def lo [symmetric] hi [symmetric] by blast
  have hiN: "hi \<le> NUSER" using new hi by (simp add: word_le_nat_alt KERNBASE_def)
  have sub1: "frames (k_mem s1) d lo hi \<subseteq> frames (k_mem s1) d 0 NUSER" using hiN by (intro frames_mono) auto
  have "frame (k_mem s1) d pn = Some q" if "pn < NUSER" "frame (k_mem s') d pn = Some q" for pn q
    using fs(5) [of pn] that by (auto simp: frame_def split: if_splits)
  then have sub2: "frames (k_mem s') d 0 NUSER \<subseteq> frames (k_mem s1) d 0 NUSER" by (auto simp: frames_def)
  have "changes s s' (pt (k_mem s) d \<union> set ps)"
    by (rule changes_mono [OF changes_trans [OF ch fs(3)]]) (use cons fs(2) in auto)
  moreover have "vmap (k_mem s') d pn = vmap (k_mem s) d pn" if "pn < 1048576" for pn
    using fs(5) [OF that] out [OF that] none [of pn] by (auto simp: not_less not_le)
  moreover have "X \<union> set (fs @ ps1) \<union> pt (k_mem s') d = set ps \<union> pt (k_mem s) d"
    unfolding cons [symmetric] fs(4) using fs(2) by auto
  moreover have "fresh s' d (fs @ ps1) p" if "p \<in> X" for p
    using X [OF that] sub1 sub2 fs(2,4) changes_kpage [OF fs(3)] unfolding fresh_def by auto
  ultimately show "\<exists>ps'. restored d s ps X s' ps'"
    using fs(1) unfolding restored_def by (intro exI [of _ "fs @ ps1"]) simp
qed

lemma restored_free:
  assumes r: "restored d s ps {p} s' ps'"
  shows "wpk (kfree p) (\<lambda>_ s''. restored d s ps {} s'' (p # ps')) s'"
proof -
  have ok: "user_ok s' d ps'" and f: "fresh s' d ps' p" and ch: "changes s s' (pt (k_mem s) d \<union> set ps)"
    and cons: "insert p (set ps' \<union> pt (k_mem s') d) = set ps \<union> pt (k_mem s) d"
    and vm: "\<And>pn. pn < 1048576 \<Longrightarrow> vmap (k_mem s') d pn = vmap (k_mem s) d pn"
    using r by (auto simp: restored_def)
  show ?thesis
  proof (rule wpk_mono [OF wpk_kfree [OF user_okD(1) [OF ok]]])
    fix x s'' assume "changes s' s'' {p} \<and> kmem_ok s'' (p # ps')"
    then have s'': "changes s' s'' {p}" "kmem_ok s'' (p # ps')" by auto
    note fr = user_ok_free [OF ok f s'']
    have "changes s s'' (pt (k_mem s) d \<union> set ps)"
      by (rule changes_mono [OF changes_trans [OF ch s''(1)]]) (use cons in auto)
    then show "restored d s ps {} s'' (p # ps')"
      using fr vm cons by (auto simp: restored_def)
  qed (use f in \<open>auto simp: fresh_def\<close>)
qed

lemma allocuvm_loop_unfold:
  "allocuvm_loop pgdir oldsz newsz a =
     (if a < newsz
      then bindK kalloc (\<lambda>mem.
             if mem = 0 then bindK (deallocuvm pgdir newsz oldsz) (\<lambda>_. retK 0)
             else bindK (kmemset mem 0 PGSIZE) (\<lambda>_.
                  bindK (mappages pgdir a (word_of_nat PGSIZE) (V2P mem) (PTE_W OR PTE_U)) (\<lambda>r.
                  if r < 0
                  then bindK (deallocuvm pgdir newsz oldsz) (\<lambda>_. bindK (kfree mem) (\<lambda>_. retK 0))
                  else allocuvm_loop pgdir oldsz newsz (a + word_of_nat PGSIZE))))
      else retK newsz)"
  by (rule ext, subst allocuvm_loop.simps) simp

definition alloc_post :: "32 word \<Rightarrow> kernel \<Rightarrow> 32 word list \<Rightarrow> nat \<Rightarrow> nat \<Rightarrow> 32 word \<Rightarrow> 32 word \<Rightarrow> kernel \<Rightarrow> bool" where
  "alloc_post d s ps lo hi newsz r s' \<longleftrightarrow>
     r = newsz \<and> (\<exists>ps'. grown d s ps lo hi (\<lambda>_. PTE_W OR PTE_U) (\<lambda>_ _. 0) s' ps') \<or>
     r = 0 \<and> length ps \<le> 1024 + (hi - lo) \<and> (\<exists>ps'. restored d s ps {} s' ps')"

text \<open>When the pages run out there were fewer than the pages asked for and the tables of a full directory.\<close>

lemma pages_count:
  assumes "finite X"
  shows "finite (X \<union> pt m d \<union> frames m d lo k)" "card (X \<union> pt m d \<union> frames m d lo k) \<le> 1025 + card X + (k - lo)"
proof -
  have f1: "frames m d lo k \<subseteq> (\<lambda>pn. the (frame m d pn)) ` {lo..<k}" by (force simp: frames_def image_iff)
  then have c1: "card (frames m d lo k) \<le> k - lo"
    using card_mono [OF _ f1] card_image_le [of "{lo..<k}" "\<lambda>pn. the (frame m d pn)"] by simp
  have f2: "pt m d \<subseteq> insert d ((\<lambda>i. table (pde m d i)) ` {0..<1024})" by (auto simp: pt_def)
  have "card (insert d ((\<lambda>i. table (pde m d i)) ` {0..<1024})) \<le> Suc (card ((\<lambda>i. table (pde m d i)) ` {0..<1024}))"
    by (rule card_insert_le_m1) simp_all
  also have "\<dots> \<le> 1025" using card_image_le [of "{0..<1024}" "\<lambda>i. table (pde m d i)"] by simp
  finally have c2: "card (pt m d) \<le> 1025" using card_mono [OF _ f2] by simp
  show "finite (X \<union> pt m d \<union> frames m d lo k)" using assms finite_subset [OF f1] finite_subset [OF f2] by simp
  have "card (X \<union> pt m d \<union> frames m d lo k) \<le> card X + card (pt m d) + card (frames m d lo k)"
    using card_Un_le [of "X \<union> pt m d" "frames m d lo k"] card_Un_le [of X "pt m d"] by linarith
  then show "card (X \<union> pt m d \<union> frames m d lo k) \<le> 1025 + card X + (k - lo)" using c1 c2 by linarith
qed

lemma pages_short:
  assumes ok: "user_ok s d ps" and cons: "X \<union> pt m d \<union> frames m d lo k = set ps \<union> pt (k_mem s) d" and X: "finite X"
  shows "length ps \<le> 1024 + card X + (k - lo)"
proof -
  have "d \<notin> set ps" using dir_ok_page [OF user_okD(2) [OF ok] pt_dir] by simp
  then have "Suc (length ps) = card (insert d (set ps))"
    using user_okD(1) [OF ok] by (simp add: kmem_ok_def distinct_card)
  also have "\<dots> \<le> card (X \<union> pt m d \<union> frames m d lo k)"
    using cons pages_count(1) [OF X] pt_dir by (intro card_mono) auto
  finally show ?thesis using pages_count(2) [OF X, of m d lo k] by linarith
qed

lemma grown_rest:
  assumes g: "grown d s ps lo k fl c s1 ps1" and le: "lo \<le> k" "k \<le> hi" "hi \<le> NUSER"
    and none: "\<And>pn. lo \<le> pn \<Longrightarrow> pn < hi \<Longrightarrow> vmap (k_mem s) d pn = None"
  shows "\<And>pn. k \<le> pn \<Longrightarrow> pn < hi \<Longrightarrow> vmap (k_mem s1) d pn = None"
    "frames (k_mem s1) d lo hi = frames (k_mem s1) d lo k"
    "\<And>pn. pn < 1048576 \<Longrightarrow> pn < lo \<or> hi \<le> pn \<Longrightarrow> vmap (k_mem s1) d pn = vmap (k_mem s) d pn"
proof -
  note g' = grownD [OF g]
  show rest: "vmap (k_mem s1) d pn = None" if "k \<le> pn" "pn < hi" for pn
    using g'(5) [of pn] none [of pn] that le by simp
  show "frames (k_mem s1) d lo hi = frames (k_mem s1) d lo k"
    using frames_append [OF le(1,2)] frames_none [of k hi] rest by (simp add: frame_def)
  show "vmap (k_mem s1) d pn = vmap (k_mem s) d pn" if "pn < 1048576" "pn < lo \<or> hi \<le> pn" for pn
    using g'(5) [OF that(1)] that(2) le(2) by auto
qed

text \<open>The second failure, when the page is there but no table for it: everything is given back.\<close>

lemma wpk_alloc_no_table:
  assumes ok: "user_ok s d ps" and g: "grown d s ps lo k (\<lambda>_. PTE_W OR PTE_U) (\<lambda>_ _. 0) s1 (p # ps2)" and le: "lo \<le> k" "k < hi" and new: "newsz \<le> KERNBASE"
    and lo: "lo = (unat oldsz + 4095) div 4096" and hi: "hi = (unat newsz + 4095) div 4096"
    and none: "\<And>pn. lo \<le> pn \<Longrightarrow> pn < hi \<Longrightarrow> vmap (k_mem s) d pn = None"
    and s2: "changes s1 s2 {p}" "kmem_ok s2 ps2"
    and s3: "user_ok s3 d []" "extends d s2 ps2 s3 []" "\<And>pn. pn < 1048576 \<Longrightarrow> vmap (k_mem s3) d pn = vmap (k_mem s2) d pn"
  shows "wpk (bindK (deallocuvm d newsz oldsz) (\<lambda>_. bindK (kfree p) (\<lambda>_. retK 0))) (alloc_post d s ps lo hi newsz) s3"
proof -
  have hiN: "hi \<le> NUSER" using new hi by (simp add: word_le_nat_alt KERNBASE_def)
  note g' = grownD [OF g]
  note rest = grown_rest [OF g le(1) less_imp_le [OF le(2)] hiN none]
  note al = user_ok_alloc [OF g'(1) s2]
  obtain qs where qs: "ps2 = qs" "changes s2 s3 (pt (k_mem s2) d \<union> set qs)" "pt (k_mem s3) d = pt (k_mem s2) d \<union> set qs"
    using s3(2) by (rule extendsE) simp
  have ch: "changes s s3 (pt (k_mem s) d \<union> set ps)"
    by (rule changes_mono [OF changes_trans [OF g'(2) changes_trans [OF s2(1) qs(2)]]]) (use g'(4) al(3) qs(1) in auto)
  have vm: "vmap (k_mem s3) d pn = vmap (k_mem s1) d pn" if "pn < 1048576" for pn
    using s3(3) [OF that] al(4) [OF that] by simp
  have frs3: "frames (k_mem s3) d u v = frames (k_mem s1) d u v" if "v \<le> NUSER" for u v
    using vm that by (intro frames_cong) (simp add: frame_def)
  have frs2: "frames (k_mem s3) d 0 NUSER = frames (k_mem s2) d 0 NUSER"
    using s3(3) by (intro frames_cong) (simp add: frame_def)
  have "fresh s3 d [] p"
    using al(2) qs changes_kpage [OF qs(2)] unfolding fresh_def frs2 by auto
  moreover have cons: "{p} \<union> set [] \<union> pt (k_mem s3) d \<union> frames (k_mem s3) d lo hi = set ps \<union> pt (k_mem s) d"
    using g'(4) frs3 [OF hiN] rest(2) qs(1,3) al(3) by auto
  ultimately have undo: "wpk (deallocuvm d newsz oldsz) (\<lambda>_ s'. \<exists>ps'. restored d s ps {p} s' ps') s3"
    by (intro wpk_undo [OF s3(1) ch new lo hi]) (use vm rest(3) none in auto)
  have "length ps \<le> 1024 + (hi - lo)"
    using pages_short [OF ok, of "{p}" "k_mem s3" lo k] cons frs3 [OF hiN] frs3 [of k lo] rest(2) le hiN by simp
  then have "wpk (kfree p) (\<lambda>_. alloc_post d s ps lo hi newsz 0) s'" if "restored d s ps {p} s' ps'" for s' ps'
    by (intro wpk_mono [OF restored_free [OF that]]) (auto simp: alloc_post_def)
  with undo show ?thesis unfolding wpk_bind wpk_ret by (auto elim!: wpk_mono)
qed

lemma allocuvm_loop_ok:
  assumes ok: "user_ok s d ps" and new: "newsz < KERNBASE" and lo: "lo = (unat oldsz + 4095) div 4096" and hi: "hi = (unat newsz + 4095) div 4096"
    and none: "\<And>pn. lo \<le> pn \<Longrightarrow> pn < hi \<Longrightarrow> vmap (k_mem s) d pn = None"
    and "grown d s ps lo k (\<lambda>_. PTE_W OR PTE_U) (\<lambda>_ _. 0) s1 ps1" and "lo \<le> k" and "k \<le> hi" and "unat a = 4096 * k"
  shows "wpk (allocuvm_loop d oldsz newsz a) (alloc_post d s ps lo hi newsz) s1"
  using assms(6-)
proof (induction "hi - k" arbitrary: k s1 ps1 a rule: less_induct)
  case less
  have lt: "a < newsz \<longleftrightarrow> k < hi" using less.prems(4) unfolding word_less_nat_alt hi by linarith
  have hiN: "hi \<le> NUSER" using new hi by (simp add: word_less_nat_alt KERNBASE_def)
  have new': "newsz \<le> KERNBASE" using new by simp
  note g = grownD [OF less.prems(1)]
  note ready = user_okD(1) [OF g(1)]
  note rest = grown_rest [OF less.prems(1-3) hiN none]
  show ?case
  proof (cases "k < hi")
    case False
    then have "k = hi" using less.prems(3) by simp
    then show ?thesis using lt less.prems(1) by (subst allocuvm_loop_unfold) (auto simp: alloc_post_def)
  next
    case True
    have kN: "k < NUSER" using True hiN by simp
    let ?f = "\<lambda>mem. bindK (mappages d a (word_of_nat PGSIZE) (V2P mem) (PTE_W OR PTE_U)) (\<lambda>r.
                  if r < 0
                  then bindK (deallocuvm d newsz oldsz) (\<lambda>_. bindK (kfree mem) (\<lambda>_. retK 0))
                  else allocuvm_loop d oldsz newsz (a + word_of_nat PGSIZE))"
    have "wpk (bindK kalloc (\<lambda>mem.
             if mem = 0 then bindK (deallocuvm d newsz oldsz) (\<lambda>_. retK 0)
             else bindK (kmemset mem 0 PGSIZE) (\<lambda>_. ?f mem))) (alloc_post d s ps lo hi newsz) s1"
    proof (cases ps1)
      case Nil
      have "wpk (deallocuvm d newsz oldsz) (\<lambda>_ s'. \<exists>ps'. restored d s ps {} s' ps') s1"
        by (rule wpk_undo [OF g(1,2) new' lo hi]) (use g(4) rest(2,3) none in auto)
      moreover have "length ps \<le> 1024 + (hi - lo)"
        using pages_short [OF ok, of "{}" "k_mem s1" lo k] g(4) Nil True by simp
      ultimately have "wpk (deallocuvm d newsz oldsz) (\<lambda>_. alloc_post d s ps lo hi newsz 0) s1"
        by (auto simp: alloc_post_def elim!: wpk_mono)
      then show ?thesis using ready Nil unfolding wpk_bind
        by (intro wpk_mono [OF ka.alloc_none]) simp_all
    next
      case (Cons p ps2)
      note gp = less.prems(1) [unfolded Cons]
      show ?thesis
      proof (rule ka.alloc_zeroed)
        show "kmem_ok s1 (p # ps2)" using ready Cons by simp
        fix s2 assume s2: "changes s1 s2 {p}" "kmem_ok s2 ps2" "\<forall>a. on_page p a \<longrightarrow> k_mem s2 a = 0"
        note al = user_ok_alloc [OF grownD(1) [OF gp] s2(1,2)]
        have nk: "vmap (k_mem s2) d k = None" using al(4) [of k] rest(1) [of k] True kN by simp
        have six: "unat (PTE_W OR PTE_U) < 4096" by simp
        show "wpk (?f p) (alloc_post d s ps lo hi newsz) s2" unfolding wpk_bind [of "mappages _ _ _ _ _"]
        proof (rule wpk_map_frame [OF al(1,2) less.prems(4) kN nk six], goal_cases)
          case (1 s3 ps3)
          have "grown d s ps lo (Suc k) (\<lambda>_. PTE_W OR PTE_U) (\<lambda>_ _. 0) s3 ps3"
            using grown_step [OF gp less.prems(2) kN s2(1,2) _ 1(2,1,3,4)] s2(3) by (simp add: on_page_def)
          moreover have "unat (a + word_of_nat PGSIZE) = 4096 * Suc k"
            using less.prems(4) kN by (subst unat_next_page) auto
          ultimately show ?case using less.hyps [of "Suc k" s3 ps3] True less.prems(2) by simp
        next
          case (2 s3)
          then show ?case
            using wpk_alloc_no_table [OF ok gp less.prems(2) True new' lo hi none s2(1,2)] by simp
        qed
      qed
    qed
    then show ?thesis using True lt by (subst allocuvm_loop_unfold) simp
  qed
qed

lemma wpk_allocuvm:
  assumes ok: "user_ok s d ps"
    and none: "\<And>pn. (unat oldsz + 4095) div 4096 \<le> pn \<Longrightarrow> pn < (unat newsz + 4095) div 4096 \<Longrightarrow> vmap (k_mem s) d pn = None"
  shows "wpk (allocuvm d oldsz newsz) (\<lambda>r s'.
    if KERNBASE \<le> newsz then r = 0 \<and> s' = s
    else if newsz < oldsz then r = oldsz \<and> s' = s
    else alloc_post d s ps ((unat oldsz + 4095) div 4096) ((unat newsz + 4095) div 4096) newsz r s') s"
proof (cases "KERNBASE \<le> newsz \<or> newsz < oldsz")
  case True
  then show ?thesis by (auto simp: allocuvm_def)
next
  case False
  then have le: "unat oldsz \<le> unat newsz" "unat newsz < 0x80000000" and new: "newsz < KERNBASE"
    by (auto simp: not_le not_less word_less_nat_alt word_le_nat_alt KERNBASE_def)
  let ?lo = "(unat oldsz + 4095) div 4096" and ?hi = "(unat newsz + 4095) div 4096"
  have "unat (PGROUNDUP oldsz) = 4096 * ?lo" using le by (subst unat_PGROUNDUP) auto
  moreover have "?lo \<le> ?hi" using le by (intro div_le_mono) simp
  ultimately have "wpk (allocuvm_loop d oldsz newsz (PGROUNDUP oldsz)) (alloc_post d s ps ?lo ?hi newsz) s"
    by (intro allocuvm_loop_ok [OF ok new refl refl none grown_refl [OF ok]]) auto
  then show ?thesis using False by (simp add: allocuvm_def)
qed

section \<open>Properties\<close>

text \<open>
  C31. \<^verbatim>\<open>allocuvm\<close> on an address space whose pages between the two sizes are not mapped returns. A size that
  reaches the kernel is refused and a smaller size changes nothing. Otherwise it returns the new size,
  every added page has a frame of its own that was free and is full of zeros, writable for the user,
  and the other pages are as before; or it returns 0, there were fewer free pages than the added
  pages and the tables of a full directory need, the address space is as before, and every page
  is free or still in use: none is lost.
\<close>

theorem allocuvm_grows:
  assumes "user_ok s d ps"
    and "\<And>pn. (unat oldsz + 4095) div 4096 \<le> pn \<Longrightarrow> pn < (unat newsz + 4095) div 4096 \<Longrightarrow> vmap (k_mem s) d pn = None"
  shows "wpk (allocuvm d oldsz newsz) (\<lambda>r s'.
    if KERNBASE \<le> newsz then r = 0 \<and> s' = s
    else if newsz < oldsz then r = oldsz \<and> s' = s
    else r = newsz \<and> (\<exists>ps'. grown d s ps ((unat oldsz + 4095) div 4096) ((unat newsz + 4095) div 4096)
        (\<lambda>_. PTE_W OR PTE_U) (\<lambda>_ _. 0) s' ps') \<or>
      r = 0 \<and> length ps \<le> 1024 + ((unat newsz + 4095) div 4096 - (unat oldsz + 4095) div 4096) \<and>
      (\<exists>ps'. restored d s ps {} s' ps')) s"
  using wpk_allocuvm [OF assms] unfolding alloc_post_def .

lemma ex_vm_user_ok: "user_ok ex_vm 0x80116000 [0x80115000]"
  using ex_vm_ok by (simp add: user_ok_def frames_ok_def frames_inj_def frames_def frame_def)

theorem allocuvm_grows_witness:
  "wpk (allocuvm 0x80116000 0 0x1800) (\<lambda>r s'.
      r = 0x1800 \<and> (\<exists>ps'. grown 0x80116000 ex_vm [0x80115000] 0 2 (\<lambda>_. PTE_W OR PTE_U) (\<lambda>_ _. 0) s' ps') \<or>
      r = 0 \<and> (\<exists>ps'. restored 0x80116000 ex_vm [0x80115000] {} s' ps')) ex_vm"
  using allocuvm_grows [OF ex_vm_user_ok, of 0 "0x1800"] by (simp add: KERNBASE_def)

text \<open>
  \<^verbatim>\<open>freevm\<close> returns, and puts the frames of all user pages, all tables and the directory in front of
  the free list, once each; it writes nothing else.
\<close>

theorem freevm_frees_all:
  assumes "user_ok s d ps"
  shows "wpk (freevm d) (\<lambda>_ s'. \<exists>fs. kmem_ok s' (fs @ ps) \<and>
    set fs = frames (k_mem s) d 0 NUSER \<union> pt (k_mem s) d \<and> changes s s' (set fs)) s"
  by (rule wpk_freevm [OF assms])

theorem freevm_frees_all_witness:
  "wpk (freevm 0x80116000) (\<lambda>_ s'. \<exists>fs. kmem_ok s' (fs @ [0x80115000]) \<and> set fs = {0x80116000} \<and> changes ex_vm s' (set fs)) ex_vm"
proof -
  have "frames (k_mem ex_vm) 0x80116000 0 NUSER = {}" by (simp add: frames_def frame_def)
  then show ?thesis using freevm_frees_all [OF ex_vm_user_ok] by simp
qed

end
