(* ===== verification/Copyvm.thy ===== *)
theory Copyvm
  imports Uvm
begin

text \<open>
  New address spaces: \<^verbatim>\<open>setupkvm\<close> maps the kernel into a fresh directory and \<^verbatim>\<open>copyuvm\<close> copies the
  user part of another one into it, for \<^verbatim>\<open>fork\<close>. The copy has the contents and permissions of the
  original and shares no page with it; a failure gives back every page.
\<close>

section \<open>A fresh directory\<close>

lemma no_frames: "(\<And>pn. pn < NUSER \<Longrightarrow> vmap m d pn = None) \<Longrightarrow> frames m d 0 NUSER = {}"
  by (rule frames_none) (simp add: frame_def)

lemma user_ok_empty:
  assumes "kmem_ok s ps" and "dir_ok s d ps" and "\<And>pn. pn < NUSER \<Longrightarrow> vmap (k_mem s) d pn = None"
  shows "user_ok s d ps"
  using assms no_frames [OF assms(3)] by (simp add: user_ok_def frames_ok_def frames_inj_def frame_def)

lemma zero_page_empty:
  assumes ok: "kmem_ok s (p # ps)" and s1: "changes s s1 {p}" "kmem_ok s1 ps" and z: "\<forall>a. on_page p a \<longrightarrow> k_mem s1 a = 0"
  shows "user_ok s1 p ps" "pt (k_mem s1) p = {p}" "\<And>pn. pn < 1048576 \<Longrightarrow> vmap (k_mem s1) p pn = None"
proof -
  have p: "kpage s1 p" "p \<notin> set ps" using ok changes_kpage [OF s1(1)] by (auto simp: kmem_ok_def)
  have "load32 (k_mem s1) (unat p + 4 * i) = 0" if "i < 1024" for i
  proof -
    have "load32 (k_mem s1) (unat p + 4 * i) = load32 (\<lambda>a. 0) (unat p + 4 * i)"
      using that z by (intro load32_cong) (simp add: on_page_def PGSIZE_def)
    then show ?thesis by (simp add: load32_def)
  qed
  then have pde: "pde (k_mem s1) p i = 0" if "i < 1024" for i using that by (simp add: pde_def)
  then show pt: "pt (k_mem s1) p = {p}" by (auto simp: pt_def)
  show vm: "vmap (k_mem s1) p qn = None" if "qn < 1048576" for qn
    using pde [of "qn div 1024"] that by (simp add: vmap_def less_mult_imp_div_less)
  have "dir_ok s1 p ps" unfolding dir_ok_def pt using p pde by simp
  then show "user_ok s1 p ps" using s1(2) vm by (intro user_ok_empty) auto
qed

section \<open>The kernel part\<close>

text \<open>
  The map that a list of kernel regions defines, and the lists in which the regions follow each other
  from a page number on.
\<close>

definition npages :: "32 word \<Rightarrow> 32 word \<Rightarrow> nat" where
  "npages va sz = Suc ((unat va + unat sz - 1) div 4096 - pno va)"

fun kspace :: "kmap_entry list \<Rightarrow> (nat \<Rightarrow> 32 word option) \<Rightarrow> nat \<Rightarrow> 32 word option" where
  "kspace [] f = f"
| "kspace ((virt, phys_start, phys_end, perm) # ks) f =
     kspace ks (mapped f (pno virt) (npages virt (phys_end - phys_start)) phys_start perm)"

fun kmap_from :: "nat \<Rightarrow> kmap_entry list \<Rightarrow> bool" where
  "kmap_from lo [] \<longleftrightarrow> True"
| "kmap_from lo ((virt, phys_start, phys_end, perm) # ks) \<longleftrightarrow>
     lo \<le> pno virt \<and> phys_end \<noteq> phys_start \<and> unat virt + unat (phys_end - phys_start) \<le> 2 ^ 32 \<and>
     kmap_from (pno virt + npages virt (phys_end - phys_start)) ks"

lemma kspace_cong: "f pn = g pn \<Longrightarrow> kspace ks f pn = kspace ks g pn"
proof (induction ks f arbitrary: g rule: kspace.induct)
  case (2 virt phys_start phys_end perm ks f)
  show ?case unfolding kspace.simps by (rule "2.IH") (rule mapped_cong, rule "2.prems")
qed simp

lemma kspace_below: "kmap_from lo ks \<Longrightarrow> pn < lo \<Longrightarrow> kspace ks f pn = f pn"
proof (induction ks arbitrary: lo f)
  case (Cons e ks)
  obtain virt phys_start phys_end perm where e: "e = (virt, phys_start, phys_end, perm)" by (cases e)
  have k: "kmap_from (pno virt + npages virt (phys_end - phys_start)) ks" "pn < pno virt" using Cons.prems e by auto
  show ?case using Cons.IH [OF k(1)] k(2) by (simp add: e) (simp add: mapped_def)
qed simp

lemma wpk_kernel_region:
  assumes ok: "user_ok s d ps" and user: "\<And>pn. pn < NUSER \<Longrightarrow> vmap (k_mem s) d pn = None"
    and none: "\<And>pn. pno virt \<le> pn \<Longrightarrow> pn < 1048576 \<Longrightarrow> vmap (k_mem s) d pn = None"
    and lo: "NUSER \<le> pno virt" and sz: "sz \<noteq> 0" "unat virt + unat sz \<le> 2 ^ 32"
    and good: "\<And>s' ps'. extends d s ps s' ps' \<Longrightarrow> user_ok s' d ps' \<Longrightarrow>
      (\<And>pn. pn < 1048576 \<Longrightarrow> vmap (k_mem s') d pn = mapped (vmap (k_mem s) d) (pno virt) (npages virt sz) pa perm pn) \<Longrightarrow> Q 0 s'"
    and bad: "\<And>s'. extends d s ps s' [] \<Longrightarrow> user_ok s' d [] \<Longrightarrow> (\<And>pn. pn < NUSER \<Longrightarrow> vmap (k_mem s') d pn = None) \<Longrightarrow> Q (-1) s'"
  shows "wpk (mappages d virt sz pa perm) Q s"
proof -
  have free: "vmap (k_mem s) d pn = None" if "pno virt \<le> pn" "pn \<le> (unat virt + unat sz - 1) div 4096" for pn
    using that sz(2) by (intro none) auto
  have "wpk (mappages d virt sz pa perm) (map_post d s ps (pno virt) (npages virt sz) pa perm) s"
    using wpk_mappages [OF user_okD(1,2) [OF ok] sz free] by (simp add: npages_def)
  then show ?thesis
  proof (rule wpk_mono)
    fix r s' assume "map_post d s ps (pno virt) (npages virt sz) pa perm r s'"
    then obtain ps' j where ext: "extends d s ps s' ps'" and r: "r = 0 \<and> j = npages virt sz \<or> r = -1 \<and> ps' = []"
      and vm: "\<And>pn. pn < 1048576 \<Longrightarrow> vmap (k_mem s') d pn = mapped (vmap (k_mem s) d) (pno virt) j pa perm pn"
      unfolding map_post_def by blast
    have us: "vmap (k_mem s') d pn = None" if "pn < NUSER" for pn using vm [of pn] user [OF that] lo that by (simp add: mapped_def)
    have "user_ok s' d ps'" using ext us by (intro user_ok_empty) (auto simp: extends_def)
    then show "Q r s'" using r good [OF ext] bad [of s'] ext vm us by auto
  qed
qed

text \<open>A directory without user pages and its free list when setting up fails: all pages are free again.\<close>

lemma wpk_freevm_empty:
  assumes ok: "user_ok s d ps" and user: "\<And>pn. pn < NUSER \<Longrightarrow> vmap (k_mem s) d pn = None"
  shows "wpk (freevm d) (\<lambda>_ s'. \<exists>fs. kmem_ok s' fs \<and> set fs = set ps \<union> pt (k_mem s) d \<and> changes s s' (set fs)) s"
proof (rule wpk_mono [OF wpk_freevm [OF ok]])
  fix x s' assume "\<exists>fs. kmem_ok s' (fs @ ps) \<and> set fs = frames (k_mem s) d 0 NUSER \<union> pt (k_mem s) d \<and> changes s s' (set fs)"
  then obtain fs where fs: "kmem_ok s' (fs @ ps)" "set fs = pt (k_mem s) d" "changes s s' (set fs)"
    using no_frames [OF user] by auto
  then show "\<exists>fs. kmem_ok s' fs \<and> set fs = set ps \<union> pt (k_mem s) d \<and> changes s s' (set fs)"
    using changes_mono [OF fs(3), of "set (fs @ ps)"] by (intro exI [of _ "fs @ ps"]) auto
qed

definition setup_post :: "32 word \<Rightarrow> kernel \<Rightarrow> 32 word list \<Rightarrow> kmap_entry list \<Rightarrow> 32 word \<Rightarrow> kernel \<Rightarrow> bool" where
  "setup_post d s ps ks r s' \<longleftrightarrow>
     r = d \<and> (\<exists>ps'. extends d s ps s' ps' \<and> user_ok s' d ps' \<and> (\<forall>pn<1048576. vmap (k_mem s') d pn = kspace ks (vmap (k_mem s) d) pn)) \<or>
     r = 0 \<and> (\<exists>fs m. kmem_ok s' fs \<and> set fs = set ps \<union> pt (k_mem s) d \<and> changes s s' (set fs) \<and> set fs \<subseteq> pt m d)"

lemma setup_post_fail:
  assumes ext: "extends d s ps s1 ps1" and fs: "kmem_ok s' fs" "set fs = set ps1 \<union> pt (k_mem s1) d" "changes s1 s' (set fs)" "set fs \<subseteq> pt m d"
  shows "setup_post d s ps ks 0 s'"
proof -
  obtain qs where qs: "ps = qs @ ps1" "changes s s1 (pt (k_mem s) d \<union> set qs)" "pt (k_mem s1) d = pt (k_mem s) d \<union> set qs"
    using ext by (rule extendsE)
  have "changes s s' (set fs)" by (rule changes_mono [OF changes_trans [OF qs(2) fs(3)]]) (use fs(2) qs in auto)
  moreover have "set fs = set ps \<union> pt (k_mem s) d" using fs(2) qs by auto
  ultimately show ?thesis using fs(1,4) unfolding setup_post_def by blast
qed

lemma setup_post_step:
  assumes ext: "extends d s ps s1 ps1" and post: "setup_post d s1 ps1 ks r s'"
    and ks: "\<And>pn. pn < 1048576 \<Longrightarrow> kspace ks (vmap (k_mem s1) d) pn = kspace ks' (vmap (k_mem s) d) pn"
  shows "setup_post d s ps ks' r s'"
proof (cases "\<exists>fs m. r = 0 \<and> kmem_ok s' fs \<and> set fs = set ps1 \<union> pt (k_mem s1) d \<and> changes s1 s' (set fs) \<and> set fs \<subseteq> pt m d")
  case True
  then show ?thesis using setup_post_fail [OF ext] by blast
next
  case False
  then obtain ps' where "r = d" "extends d s1 ps1 s' ps'" "user_ok s' d ps'"
    "\<forall>pn<1048576. vmap (k_mem s') d pn = kspace ks (vmap (k_mem s1) d) pn"
    using post unfolding setup_post_def by blast
  then show ?thesis using extends_trans [OF ext] ks unfolding setup_post_def by auto
qed

lemma setupkvm_loop_ok:
  assumes "user_ok s d ps" and "kmap_from lo ks" and "NUSER \<le> lo"
    and "\<And>pn. pn < NUSER \<Longrightarrow> vmap (k_mem s) d pn = None"
    and "\<And>pn. lo \<le> pn \<Longrightarrow> pn < 1048576 \<Longrightarrow> vmap (k_mem s) d pn = None"
  shows "wpk (setupkvm_loop d ks) (setup_post d s ps ks) s"
  using assms
proof (induction ks arbitrary: s ps lo)
  case Nil
  then show ?case using extends_refl [OF user_okD(1,2) [OF Nil(1)]] by (auto simp: setup_post_def)
next
  case (Cons e ks)
  obtain virt phys_start phys_end perm where e: "e = (virt, phys_start, phys_end, perm)" by (cases e)
  let ?sz = "phys_end - phys_start" and ?n = "npages virt (phys_end - phys_start)"
  have k: "lo \<le> pno virt" "?sz \<noteq> 0" "unat virt + unat ?sz \<le> 2 ^ 32" "kmap_from (pno virt + ?n) ks"
    using Cons.prems(2) e by auto
  show ?case unfolding e setupkvm_loop.simps wpk_bind
  proof (rule wpk_kernel_region [OF Cons.prems(1,4)], goal_cases)
    case (6 s1 ps1)
    have vm: "vmap (k_mem s1) d pn = (if pno virt \<le> pn \<and> pn < pno virt + ?n then vmap (k_mem s1) d pn else vmap (k_mem s) d pn)"
      if "pn < 1048576" for pn using 6(3) [OF that] by (simp add: mapped_def)
    have step: "kspace ks (vmap (k_mem s1) d) pn = kspace ks (mapped (vmap (k_mem s) d) (pno virt) ?n phys_start perm) pn"
      if "pn < 1048576" for pn by (rule kspace_cong) (rule 6(3) [OF that])
    have "wpk (setupkvm_loop d ks) (setup_post d s1 ps1 ks) s1"
    proof (rule Cons.IH [OF 6(2) k(4)])
      show "vmap (k_mem s1) d pn = None" if "pn < NUSER" for pn
        using vm [of pn] Cons.prems(3,4) k(1) that by simp
      show "vmap (k_mem s1) d pn = None" if "pno virt + ?n \<le> pn" "pn < 1048576" for pn
        using vm [OF that(2)] Cons.prems(5) [of pn] that k(1) by simp
    qed (use Cons.prems(3) k(1) in simp)
    then show ?case using setup_post_step [OF 6(1)] step by (auto simp: e elim!: wpk_mono)
  next
    case (7 s1)
    have "wpk (freevm d) (\<lambda>_. setup_post d s ps (e # ks) 0) s1"
    proof (rule wpk_mono [OF wpk_freevm_empty [OF 7(2,3)]])
      fix x s' assume "\<exists>fs. kmem_ok s' fs \<and> set fs = set [] \<union> pt (k_mem s1) d \<and> changes s1 s' (set fs)"
      then obtain fs where fs: "kmem_ok s' fs" "set fs = set [] \<union> pt (k_mem s1) d" "changes s1 s' (set fs)" by blast
      show "setup_post d s ps (e # ks) 0 s'" by (rule setup_post_fail [OF 7(1) fs, of "k_mem s1"]) (simp add: fs(2))
    qed
    then show ?case by (simp add: e)
  qed (use Cons.prems k in auto)
qed

text \<open>
  The linker script puts the data of the kernel on a page of its own between the text and the end.
\<close>

definition data_ok :: "kernel \<Rightarrow> bool" where
  "data_ok s \<longleftrightarrow> aligned (k_data s) \<and> KERNLINK < k_data s \<and> k_data s < P2V PHYSTOP"

lemma kmap_in_order:
  assumes "data_ok s"
  shows "kmap_from NUSER (kmap (k_data s))"
proof -
  let ?D = "k_data s"
  obtain i where i: "unat ?D = 4096 * i" using assms by (auto simp: data_ok_def aligned_def PGSIZE_def mod_eq_0_iff_dvd elim!: dvdE)
  have b: "0x80100000 < unat ?D" "unat ?D < 0x8E000000"
    using assms by (auto simp: data_ok_def KERNLINK_def KERNBASE_def EXTMEM_def P2V_def PHYSTOP_def word_less_nat_alt)
  have K: "unat KERNBASE = 0x80000000" "unat KERNLINK = 0x80100000" "V2P KERNLINK = 0x100000"
    by (simp_all add: KERNBASE_def KERNLINK_def EXTMEM_def V2P_def)
  have vd: "unat (V2P ?D) = unat ?D - 0x80000000"
    unfolding V2P_def K(1) [symmetric] by (rule unat_sub) (use b in \<open>simp add: word_le_nat_alt K\<close>)
  have s2: "unat (V2P ?D - V2P KERNLINK) = unat ?D - 0x80100000"
    by (subst unat_sub) (use vd K b in \<open>auto simp: word_le_nat_alt\<close>)
  have s3: "unat (PHYSTOP - V2P ?D) = 0x8E000000 - unat ?D"
    by (subst unat_sub) (use vd b in \<open>auto simp: word_le_nat_alt PHYSTOP_def\<close>)
  have n1: "npages KERNBASE (EXTMEM - 0) = 0x100" by (simp add: npages_def KERNBASE_def EXTMEM_def)
  have n2: "npages KERNLINK (V2P ?D - V2P KERNLINK) = i - 0x80100"
    using s2 K i b by (simp add: npages_def)
  have n3: "npages ?D (PHYSTOP - V2P ?D) = 0x8E000 - i"
    using s3 i b by (simp add: npages_def)
  have ne: "V2P ?D \<noteq> V2P KERNLINK" "PHYSTOP \<noteq> V2P ?D"
    using vd b K by (auto simp: PHYSTOP_def word_unat_eq_iff)
  show ?thesis unfolding kmap_def kmap_from.simps n1 n2 n3
    using K i b s2 s3 ne by (simp add: EXTMEM_def DEVSPACE_def)
qed

text \<open>\<^verbatim>\<open>setupkvm\<close>: a new directory that maps the kernel and nothing else, or no page lost.\<close>

lemma wpk_setupkvm:
  assumes ok: "kmem_ok s ps" and data: "data_ok s"
    and good: "\<And>d s' qs ps'. ps = qs @ ps' \<Longrightarrow> user_ok s' d ps' \<Longrightarrow> changes s s' (set qs) \<Longrightarrow> pt (k_mem s') d = set qs \<Longrightarrow> d \<noteq> 0 \<Longrightarrow>
      (\<And>pn. pn < 1048576 \<Longrightarrow> vmap (k_mem s') d pn = kspace (kmap (k_data s)) (\<lambda>_. None) pn) \<Longrightarrow> Q d s'"
    and bad: "\<And>s' fs. kmem_ok s' fs \<Longrightarrow> set fs = set ps \<Longrightarrow> changes s s' (set ps) \<Longrightarrow> length ps \<le> 1025 \<Longrightarrow> Q 0 s'"
  shows "wpk setupkvm Q s"
proof (cases ps)
  case Nil
  then have "Q 0 s" using bad [OF ok] by simp
  then show ?thesis unfolding setupkvm_def wpk_bind
    using ok Nil by (intro wpk_mono [OF ka.alloc_none]) auto
next
  case (Cons d ps1)
  have top: "\<not> DEVSPACE < P2V PHYSTOP" by (simp add: DEVSPACE_def P2V_def PHYSTOP_def KERNBASE_def)
  show ?thesis unfolding setupkvm_def
  proof (rule ka.alloc_zeroed)
    show km: "kmem_ok s (d # ps1)" using ok Cons by simp
    fix s1 assume s1: "changes s s1 {d}" "kmem_ok s1 ps1" "\<forall>a. on_page d a \<longrightarrow> k_mem s1 a = 0"
    note z = zero_page_empty [OF km s1]
    have d0: "d \<noteq> 0" using ok Cons kpage_bounds(3) by (auto simp: kmem_ok_def)
    have dt: "k_data s1 = k_data s" using s1(1) by (simp add: changes_def)
    have "wpk (setupkvm_loop d (kmap (k_data s))) Q s1"
    proof (rule wpk_mono [OF setupkvm_loop_ok [OF z(1) kmap_in_order [OF data] order.refl]])
      fix r s' assume "setup_post d s1 ps1 (kmap (k_data s)) r s'"
      then consider ps' where "r = d" "extends d s1 ps1 s' ps'" "user_ok s' d ps'"
          "\<forall>pn<1048576. vmap (k_mem s') d pn = kspace (kmap (k_data s)) (vmap (k_mem s1) d) pn"
        | fs m where "r = 0" "kmem_ok s' fs" "set fs = set ps1 \<union> pt (k_mem s1) d" "changes s1 s' (set fs)" "set fs \<subseteq> pt m d"
        unfolding setup_post_def by blast
      then show "Q r s'"
      proof cases
        case 1
        obtain qs where qs: "ps1 = qs @ ps'" "changes s1 s' (pt (k_mem s1) d \<union> set qs)" "pt (k_mem s') d = pt (k_mem s1) d \<union> set qs"
          using 1(2) by (rule extendsE)
        have "kspace (kmap (k_data s)) (vmap (k_mem s1) d) pn = kspace (kmap (k_data s)) (\<lambda>_. None) pn" if "pn < 1048576" for pn
          by (rule kspace_cong) (rule z(3) [OF that])
        then show ?thesis using 1 good [of "d # qs" ps' s' d] qs Cons z(2) d0 changes_trans [OF s1(1) qs(2)] by simp
      next
        case 2
        have "length ps = card (set fs)" using 2(3) z(2) ok Cons by (simp add: kmem_ok_def distinct_card)
        also have "\<dots> \<le> card ({} \<union> pt m d \<union> frames m d 0 0)" using 2(5) pages_count(1) [of "{}" m d 0 0] by (intro card_mono) auto
        finally have "length ps \<le> 1025" using pages_count(2) [of "{}" m d 0 0] by simp
        then show ?thesis using 2 bad [of s' fs] Cons z(2) changes_trans [OF s1(1) 2(4)] by (simp add: insert_commute)
      qed
    qed (use z(3) in auto)
    then show "wpk (if P2V PHYSTOP > DEVSPACE then failK (Panic ''PHYSTOP too high'')
          else bindK (getK k_data) (\<lambda>data. setupkvm_loop d (kmap data))) Q s1"
      using top dt by simp
  qed
qed

section \<open>Copying\<close>

text \<open>A change of pages that were free leaves an address space as it is, its contents included.\<close>

definition kept :: "32 word \<Rightarrow> kernel \<Rightarrow> kernel \<Rightarrow> 32 word list \<Rightarrow> bool" where
  "kept d s s' ps' \<longleftrightarrow>
     user_ok s' d ps' \<and> pt (k_mem s') d = pt (k_mem s) d \<and> (\<forall>pn<1048576. vmap (k_mem s') d pn = vmap (k_mem s) d pn) \<and>
     (\<forall>p\<in>frames (k_mem s) d 0 NUSER. \<forall>a. on_page p a \<longrightarrow> k_mem s' a = k_mem s a)"

lemma kept_changes:
  assumes ok: "user_ok s d ps" and ch: "changes s s' (set ps)" and km: "kmem_ok s' ps'" and sub: "set ps' \<subseteq> set ps"
  shows "kept d s s' ps'"
proof -
  have al: "\<forall>p\<in>set ps. aligned p" using user_ok_aligned [OF ok] by auto
  note ap = user_ok_apart [OF ok]
  have "set ps' \<inter> pt (k_mem s) d = {}" "set ps' \<inter> frames (k_mem s) d 0 NUSER = {}" using ap sub by auto
  note same = user_ok_changes [OF ok ch al ap(1) km this]
  have "kpage s p" if "p \<in> frames (k_mem s) d 0 NUSER" for p
    using user_okD(3) [OF ok] that by (simp add: frames_ok_def)
  then have "k_mem s' a = k_mem s a" if "p \<in> frames (k_mem s) d 0 NUSER" "on_page p a" for p a
    using changes_page [OF ch al kpage_aligned _ that(2)] ap(2) that(1) by auto
  then show ?thesis using same(1-3) unfolding kept_def by blast
qed

lemma copyuvm_loop_unfold:
  "copyuvm_loop pgdir sz d i =
     (if i < sz
      then bindK (walkpgdir pgdir i False) (\<lambda>pte.
             if pte = 0 then failK (Panic ''copyuvm: pte should exist'')
             else bindK (rd32 pte) (\<lambda>e.
                  if e AND PTE_P = 0 then failK (Panic ''copyuvm: page not present'')
                  else bindK kalloc (\<lambda>mem.
                       if mem = 0 then bindK (freevm d) (\<lambda>_. retK 0)
                       else bindK (kmemmove mem (P2V (PTE_ADDR e)) PGSIZE) (\<lambda>_.
                            bindK (mappages d i (word_of_nat PGSIZE) (V2P mem) (PTE_FLAGS e)) (\<lambda>r.
                            if r < 0 then bindK (kfree mem) (\<lambda>_. bindK (freevm d) (\<lambda>_. retK 0))
                            else copyuvm_loop pgdir sz d (i + word_of_nat PGSIZE))))))
      else retK d)"
  by (rule ext, subst copyuvm_loop.simps) simp

text \<open>The entry of a mapped page is found and read.\<close>

lemma wpk_find_entry:
  assumes "kmem_ok s ps" and "dir_ok s d ps" and vm: "vmap (k_mem s) d (pno a) = Some e" and go: "wpk (f e) Q s"
  shows "wpk (bindK (walkpgdir d a False) (\<lambda>pte. if pte = 0 then g else bindK (rd32 pte) (\<lambda>e.
    if e AND PTE_P = 0 then h else f e))) Q s"
proof -
  have pr: "present (pde (k_mem s) d (pno a div 1024))" "present e" "slot (k_mem s) d (pno a) = e"
    using vm by (auto simp: vmap_def split: if_splits)
  have "wpk (rd32 (slot_ptr (k_mem s) d a)) (\<lambda>e. wpk (if e AND PTE_P = 0 then h else f e) Q) s"
    by (rule wpk_read_slot [OF assms(1,2) pr(1)]) (use pr go in \<open>simp add: present_def\<close>)
  then show ?thesis unfolding wpk_bind
    by (intro wpk_walk [OF assms(1,2)]) (use pr(1) slot_ptr_ok(3) [OF assms(1,2) pr(1)] in simp_all)
qed

text \<open>A page filled with a copy of another one.\<close>

lemma wpk_alloc_copy:
  assumes ok: "kmem_ok s (p # ps)" and src: "kpage s q" "q \<noteq> p"
    and go: "\<And>s'. changes s s' {p} \<Longrightarrow> kmem_ok s' ps \<Longrightarrow> (\<forall>j<PGSIZE. k_mem s' (unat p + j) = k_mem s (unat q + j)) \<Longrightarrow> wpk (f p) Q s'"
  shows "wpk (bindK kalloc (\<lambda>mem. if mem = 0 then g else bindK (kmemmove mem q PGSIZE) (\<lambda>_. f mem))) Q s"
  unfolding wpk_bind
proof (rule wpk_mono [OF wpk_kalloc [OF ok]], simp, elim conjE)
  fix s1 assume s1: "changes s s1 {}" "k_mem s1 = k_mem s" "kmem_ok s1 ps"
  have p: "kpage s p" "p \<notin> set ps" and e: "KERNBASE < k_end s" using ok by (auto simp: kmem_ok_def)
  let ?s2 = "s1\<lparr>k_mem := memmove (k_mem s1) (unat p) (unat q) PGSIZE\<rparr>"
  have ch: "changes s1 ?s2 {p}" by (auto simp: changes_def memmove_at on_page_def)
  have "wpk (f p) Q ?s2"
  proof (rule go)
    show "changes s ?s2 {p}" using changes_trans [OF s1(1) ch] by simp
    show "kmem_ok ?s2 ps" by (rule kmem_ok_changes [OF s1(3) ch]) (use p in \<open>auto simp: kpage_def\<close>)
    show "\<forall>j<PGSIZE. k_mem ?s2 (unat p + j) = k_mem s (unat q + j)" using s1(2) by (simp add: memmove_at)
  qed
  then have "wpk (kmemmove p q PGSIZE) (\<lambda>_. wpk (f p) Q) s1"
    using kpage_bounds [OF p(1) e] kpage_bounds [OF src(1) e] by (intro wpk_kmemmove) (auto simp: kptr_def)
  moreover have "p \<noteq> 0" using kpage_bounds(3) [OF p(1) e] .
  ultimately show "(p = 0 \<longrightarrow> wpk g Q s1) \<and> (p \<noteq> 0 \<longrightarrow> wpk (kmemmove p q PGSIZE) (\<lambda>a. wpk (f p) Q) s1)" by simp
qed

text \<open>
  The permissions and the contents that the pages of the copy have to have, and the state in which the
  first \<open>k\<close> pages are copied: \<open>sk\<close> and \<open>psk\<close> are the state and the free list after \<^verbatim>\<open>setupkvm\<close>.
\<close>

abbreviation flags_of :: "32 word \<Rightarrow> kernel \<Rightarrow> nat \<Rightarrow> 32 word" where
  "flags_of d s pn \<equiv> PTE_FLAGS (the (vmap (k_mem s) d pn))"

abbreviation bytes_of :: "32 word \<Rightarrow> kernel \<Rightarrow> nat \<Rightarrow> nat \<Rightarrow> 8 word" where
  "bytes_of d s pn j \<equiv> k_mem s (unat (table (the (vmap (k_mem s) d pn))) + j)"

definition new_space :: "kernel \<Rightarrow> 32 word list \<Rightarrow> 32 word \<Rightarrow> kernel \<Rightarrow> 32 word list \<Rightarrow> bool" where
  "new_space s ps d sk psk \<longleftrightarrow>
     changes s sk (set ps) \<and> set psk \<subseteq> set ps \<and> set psk \<union> pt (k_mem sk) d = set ps \<and>
     (\<forall>pn<NUSER. vmap (k_mem sk) d pn = None)"

lemma copied_state:
  assumes sk: "new_space s ps d sk psk" and g: "grown d sk psk 0 k fl c s1 ps1" and k: "k \<le> NUSER"
  shows "changes s s1 (set ps)" "set ps1 \<subseteq> set ps" "frames (k_mem s1) d 0 NUSER = frames (k_mem s1) d 0 k"
    "set ps1 \<union> pt (k_mem s1) d \<union> frames (k_mem s1) d 0 NUSER = set ps"
    "\<And>pn. k \<le> pn \<Longrightarrow> pn < NUSER \<Longrightarrow> vmap (k_mem s1) d pn = None"
proof -
  have none: "vmap (k_mem sk) d pn = None" if "pn < NUSER" for pn
    using sk that by (auto simp: new_space_def)
  have n': "changes s sk (set ps)" "set psk \<subseteq> set ps" "set psk \<union> pt (k_mem sk) d = set ps"
    using sk by (auto simp: new_space_def)
  note g' = grownD [OF g]
  show "changes s s1 (set ps)" by (rule changes_mono [OF changes_trans [OF n'(1) g'(2)]]) (use n'(3) in auto)
  show "set ps1 \<subseteq> set ps" using g'(3) n'(2) by blast
  show "frames (k_mem s1) d 0 NUSER = frames (k_mem s1) d 0 k"
    by (rule grown_rest(2) [OF g le0 k order.refl]) (rule none)
  then show "set ps1 \<union> pt (k_mem s1) d \<union> frames (k_mem s1) d 0 NUSER = set ps"
    using g'(4) n'(3) by auto
  show "vmap (k_mem s1) d pn = None" if "k \<le> pn" "pn < NUSER" for pn
    using g'(5) [of pn] none [of pn] that by simp
qed

definition all_free :: "kernel \<Rightarrow> 32 word list \<Rightarrow> kernel \<Rightarrow> bool" where
  "all_free s ps s' \<longleftrightarrow> (\<exists>fs. kmem_ok s' fs \<and> set fs = set ps \<and> changes s s' (set ps))"

lemma wpk_give_up:
  assumes ok: "user_ok s1 d ps1" and ch: "changes s s1 (set ps)"
    and cons: "set ps1 \<union> pt (k_mem s1) d \<union> frames (k_mem s1) d 0 NUSER = set ps"
  shows "wpk (freevm d) (\<lambda>_. all_free s ps) s1"
proof (rule wpk_mono [OF wpk_freevm [OF ok]])
  fix x s' assume "\<exists>fs. kmem_ok s' (fs @ ps1) \<and> set fs = frames (k_mem s1) d 0 NUSER \<union> pt (k_mem s1) d \<and> changes s1 s' (set fs)"
  then obtain fs where fs: "kmem_ok s' (fs @ ps1)" "set fs = frames (k_mem s1) d 0 NUSER \<union> pt (k_mem s1) d" "changes s1 s' (set fs)"
    by blast
  have "changes s s' (set ps)" by (rule changes_mono [OF changes_trans [OF ch fs(3)]]) (use cons fs(2) in auto)
  moreover have "set (fs @ ps1) = set ps" using cons fs(2) by auto
  ultimately show "all_free s ps s'" using fs(1) unfolding all_free_def by blast
qed

text \<open>The failure in \<^verbatim>\<open>mappages\<close>, when the copy of the page was already made.\<close>

lemma wpk_copy_no_table:
  assumes dist: "distinct ps"
    and sk: "new_space s ps d sk psk" and g: "grown d sk psk 0 k fl c s1 (p # ps2)" and k: "k \<le> NUSER"
    and s2: "changes s1 s2 {p}" "kmem_ok s2 ps2"
    and s3: "user_ok s3 d []" "extends d s2 ps2 s3 []" "\<And>pn. pn < 1048576 \<Longrightarrow> vmap (k_mem s3) d pn = vmap (k_mem s2) d pn"
  shows "wpk (bindK (kfree p) (\<lambda>_. bindK (freevm d) (\<lambda>_. retK 0))) (\<lambda>r s'. r = (0 :: 32 word) \<and> all_free s ps s') s3" "length ps \<le> 1025 + Suc k"
proof -
  note c = copied_state [OF sk g k]
  note al = user_ok_alloc [OF grownD(1) [OF g] s2]
  obtain qs where qs: "ps2 = qs" "changes s2 s3 (pt (k_mem s2) d \<union> set qs)" "pt (k_mem s3) d = pt (k_mem s2) d \<union> set qs"
    using s3(2) by (rule extendsE) simp
  have frs: "frames (k_mem s3) d 0 NUSER = frames (k_mem s2) d 0 NUSER" "frames (k_mem s2) d 0 NUSER = frames (k_mem s1) d 0 NUSER"
    using s3(3) al(4) by (auto intro!: frames_cong simp: frame_def)
  have f: "fresh s3 d [] p" using al(2) qs changes_kpage [OF qs(2)] frs unfolding fresh_def by auto
  have ch: "changes s s3 (set ps)"
    by (rule changes_mono [OF changes_trans [OF c(1) changes_trans [OF s2(1) qs(2)]]]) (use c(4) qs(1) al(3) in auto)
  have "{p} \<union> pt (k_mem s3) d \<union> frames (k_mem s1) d 0 k = set ps" using c(3,4) qs(1,3) al(3) by auto
  moreover have "frames (k_mem s1) d 0 k = frames (k_mem s3) d 0 k"
    using s3(3) al(4) k by (auto intro!: frames_cong simp: frame_def)
  ultimately have "card (set ps) \<le> 1025 + Suc k" using pages_count(2) [of "{p}" "k_mem s3" d 0 k] by simp
  then show "length ps \<le> 1025 + Suc k" using dist by (simp add: distinct_card)
  have "wpk (freevm d) (\<lambda>_. all_free s ps) s4" if "changes s3 s4 {p} \<and> kmem_ok s4 [p]" for s4
  proof -
    have s4: "changes s3 s4 {p}" "kmem_ok s4 [p]" using that by auto
    note fr = user_ok_free [OF s3(1) f s4]
    have "frames (k_mem s4) d 0 NUSER = frames (k_mem s3) d 0 NUSER" using fr(3) by (auto intro!: frames_cong simp: frame_def)
    then have "set [p] \<union> pt (k_mem s4) d \<union> frames (k_mem s4) d 0 NUSER = set ps"
      using c(4) frs fr(2) qs(1,3) al(3) by auto
    moreover have "changes s s4 (set ps)" by (rule changes_mono [OF changes_trans [OF ch s4(1)]]) (use c(4) in auto)
    ultimately show ?thesis by (intro wpk_give_up [OF fr(1)])
  qed
  then have "wpk (kfree p) (\<lambda>_. wpk (freevm d) (\<lambda>_. all_free s ps)) s3"
    using f by (intro wpk_mono [OF wpk_kfree [OF user_okD(1) [OF s3(1)]]]) (auto simp: fresh_def)
  then show "wpk (bindK (kfree p) (\<lambda>_. bindK (freevm d) (\<lambda>_. retK 0))) (\<lambda>r s'. r = (0 :: 32 word) \<and> all_free s ps s') s3" by simp
qed

lemma copyuvm_loop_ok:
  assumes ok: "user_ok s d0 ps" and sk: "new_space s ps d sk psk" and sz: "sz \<le> KERNBASE"
    and hi: "hi = (unat sz + 4095) div 4096" and all: "\<And>pn. pn < hi \<Longrightarrow> vmap (k_mem s) d0 pn \<noteq> None"
    and "grown d sk psk 0 k (flags_of d0 s) (bytes_of d0 s) s1 ps1" and "k \<le> hi" and "unat i = 4096 * k"
  shows "wpk (copyuvm_loop d0 sz d i) (\<lambda>r s'.
    r = d \<and> (\<exists>ps'. grown d sk psk 0 hi (flags_of d0 s) (bytes_of d0 s) s' ps') \<or> r = 0 \<and> length ps \<le> 1025 + hi \<and> all_free s ps s') s1"
  using assms(6-)
proof (induction "hi - k" arbitrary: k s1 ps1 i rule: less_induct)
  case less
  let ?Q = "\<lambda>r s'. r = d \<and> (\<exists>ps'. grown d sk psk 0 hi (flags_of d0 s) (bytes_of d0 s) s' ps') \<or> r = 0 \<and> length ps \<le> 1025 + hi \<and> all_free s ps s'"
  have dist: "distinct ps" using user_okD(1) [OF ok] by (simp add: kmem_ok_def)
  have lt: "i < sz \<longleftrightarrow> k < hi" using less.prems(3) unfolding word_less_nat_alt hi by linarith
  have hiN: "hi \<le> NUSER" using sz hi by (simp add: word_le_nat_alt KERNBASE_def)
  have kN: "k \<le> NUSER" using less.prems(2) hiN by simp
  note g = grownD [OF less.prems(1)]
  note u = user_okD [OF g(1)]
  note c = copied_state [OF sk less.prems(1) kN]
  show ?case
  proof (cases "k < hi")
    case False
    then have "k = hi" using less.prems(2) by simp
    then show ?thesis using lt less.prems(1) by (subst copyuvm_loop_unfold) auto
  next
    case True
    have kN': "k < NUSER" using True hiN by simp
    have par: "kept d0 s s1 ps1" by (rule kept_changes [OF ok c(1) u(1) c(2)])
    obtain e where e: "vmap (k_mem s) d0 k = Some e" using all [OF True] by blast
    have e1: "vmap (k_mem s1) d0 (pno i) = Some e" using par e less.prems(3) kN' by (simp add: kept_def)
    have dir: "dir_ok s1 d0 ps1" and te: "P2V (PTE_ADDR e) = table e" using par by (auto simp: kept_def user_ok_def table_def)
    have q: "table e \<in> frames (k_mem s) d0 0 NUSER" using e kN' by (auto simp: frames_def frame_def)
    have qk: "kpage s1 (table e)" "table e \<notin> set ps"
      using q user_okD(3) [OF ok] changes_kpage [OF c(1)] by (auto simp: frames_ok_def)
    have qb: "k_mem s1 (unat (table e) + j) = k_mem s (unat (table e) + j)" if "j < PGSIZE" for j
      using par q that by (auto simp: kept_def on_page_def)
    let ?f = "\<lambda>mem. bindK (mappages d i (word_of_nat PGSIZE) (V2P mem) (PTE_FLAGS e)) (\<lambda>r.
          if r < 0 then bindK (kfree mem) (\<lambda>_. bindK (freevm d) (\<lambda>_. retK 0))
          else copyuvm_loop d0 sz d (i + word_of_nat PGSIZE))"
    have "wpk (bindK kalloc (\<lambda>mem. if mem = 0 then bindK (freevm d) (\<lambda>_. retK 0)
        else bindK (kmemmove mem (table e) PGSIZE) (\<lambda>_. ?f mem))) ?Q s1"
    proof (cases ps1)
      case Nil
      have "set ps = {} \<union> pt (k_mem s1) d \<union> frames (k_mem s1) d 0 k" using c(3,4) Nil by simp
      then have "length ps \<le> 1025 + hi"
        using pages_count(2) [of "{}" "k_mem s1" d 0 k] True dist distinct_card [of ps] by simp
      moreover have "wpk (freevm d) (\<lambda>_. all_free s ps) s1" by (rule wpk_give_up [OF g(1) c(1,4)])
      ultimately have "wpk (bindK (freevm d) (\<lambda>_. retK 0)) ?Q s1" by (auto elim!: wpk_mono)
      then show ?thesis using u(1) Nil unfolding wpk_bind [of kalloc]
        by (intro wpk_mono [OF ka.alloc_none]) auto
    next
      case (Cons p ps2)
      note gp = less.prems(1) [unfolded Cons]
      have km: "kmem_ok s1 (p # ps2)" and pe: "table e \<noteq> p" using u(1) qk(2) c(2) Cons by auto
      show ?thesis
      proof (rule wpk_alloc_copy [OF km qk(1) pe])
        fix s2 assume s2: "changes s1 s2 {p}" "kmem_ok s2 ps2" "\<forall>j<PGSIZE. k_mem s2 (unat p + j) = k_mem s1 (unat (table e) + j)"
        note al = user_ok_alloc [OF grownD(1) [OF gp] s2(1,2)]
        have nk: "vmap (k_mem s2) d k = None" using al(4) [of k] c(5) [of k] kN' by simp
        have cont: "\<forall>j<PGSIZE. k_mem s2 (unat p + j) = bytes_of d0 s k j" using s2(3) qb e by simp
        show "wpk (?f p) ?Q s2" unfolding wpk_bind [of "mappages _ _ _ _ _"]
        proof (rule wpk_map_frame [OF al(1,2) less.prems(3) kN' nk PTE_FLAGS_small], goal_cases)
          case (1 s3 ps3)
          have "grown d sk psk 0 (Suc k) (flags_of d0 s) (bytes_of d0 s) s3 ps3"
            by (rule grown_step [OF gp le0 kN' s2(1,2) cont 1(2,1)]) (use 1(3,4) e in simp_all)
          moreover have "unat (i + word_of_nat PGSIZE) = 4096 * Suc k"
            using less.prems(3) kN' by (subst unat_next_page) auto
          ultimately show ?case using less.hyps [of "Suc k" s3 ps3] True by simp
        next
          case (2 s3)
          then show ?case using wpk_copy_no_table [OF dist sk gp kN s2(1,2) 2] True by (auto elim!: wpk_mono)
        qed
      qed
    qed
    then have "wpk (bindK (walkpgdir d0 i False) (\<lambda>pte. if pte = 0 then failK (Panic ''copyuvm: pte should exist'')
        else bindK (rd32 pte) (\<lambda>e. if e AND PTE_P = 0 then failK (Panic ''copyuvm: page not present'')
        else bindK kalloc (\<lambda>mem. if mem = 0 then bindK (freevm d) (\<lambda>_. retK 0)
        else bindK (kmemmove mem (P2V (PTE_ADDR e)) PGSIZE) (\<lambda>_.
          bindK (mappages d i (word_of_nat PGSIZE) (V2P mem) (PTE_FLAGS e)) (\<lambda>r.
          if r < 0 then bindK (kfree mem) (\<lambda>_. bindK (freevm d) (\<lambda>_. retK 0))
          else copyuvm_loop d0 sz d (i + word_of_nat PGSIZE))))))) ?Q s1"
      by (intro wpk_find_entry [OF u(1) dir e1]) (simp only: te)
    then show ?thesis using True lt by (subst copyuvm_loop_unfold) simp
  qed
qed

section \<open>Bytes of a user address\<close>

definition ubyte :: "mem \<Rightarrow> 32 word \<Rightarrow> nat \<Rightarrow> 8 word" where
  "ubyte m d a = m (unat (table (the (vmap m d (a div 4096)))) + a mod 4096)"

text \<open>Writing into the frame of a user page.\<close>

lemma write_user:
  assumes ok: "user_ok s d ps" and k: "k < NUSER" and e: "vmap (k_mem s) d k = Some e" and off: "off + length bs \<le> 4096"
    and s1: "s1 = s\<lparr>k_mem := write_bytes (k_mem s) (unat (table e) + off) bs\<rparr>"
  shows "user_ok s1 d ps" "\<And>pn. pn < 1048576 \<Longrightarrow> vmap (k_mem s1) d pn = vmap (k_mem s) d pn"
    "changes s s1 (frames (k_mem s) d 0 NUSER)" "frames (k_mem s1) d 0 NUSER = frames (k_mem s) d 0 NUSER"
    "\<And>a. a div 4096 < NUSER \<Longrightarrow> vmap (k_mem s) d (a div 4096) \<noteq> None \<Longrightarrow> ubyte (k_mem s1) d a =
       (if 4096 * k + off \<le> a \<and> a < 4096 * k + off + length bs then bs ! (a - (4096 * k + off)) else ubyte (k_mem s) d a)"
proof -
  let ?p = "table e"
  note u = user_okD [OF ok] and ap = user_ok_apart [OF ok]
  have fk: "frame (k_mem s) d k = Some ?p" using e by (simp add: frame_def)
  note f = frames_okD [OF u(3) fk k]
  have ch: "changes s s1 {?p}" using off by (auto simp: s1 changes_def on_page_def PGSIZE_def mem_simps)
  have al: "\<forall>p\<in>{?p}. aligned p" "{?p} \<inter> pt (k_mem s) d = {}" using f by (auto simp: kpage_aligned)
  have km: "kmem_ok s1 ps" by (rule kmem_ok_changes [OF u(1) ch]) (use f in \<open>auto simp: s1 kpage_def\<close>)
  note c = user_ok_changes [OF ok ch al km ap]
  show "user_ok s1 d ps" by (rule c(1))
  show vm: "vmap (k_mem s1) d pn = vmap (k_mem s) d pn" if "pn < 1048576" for pn by (rule c(3) [OF that])
  show "frames (k_mem s1) d 0 NUSER = frames (k_mem s) d 0 NUSER" by (rule c(4))
  show "changes s s1 (frames (k_mem s) d 0 NUSER)"
    using k fk by (intro changes_mono [OF ch]) (auto simp: frames_def)
  show "ubyte (k_mem s1) d a =
       (if 4096 * k + off \<le> a \<and> a < 4096 * k + off + length bs then bs ! (a - (4096 * k + off)) else ubyte (k_mem s) d a)"
    if a: "a div 4096 < NUSER" "vmap (k_mem s) d (a div 4096) \<noteq> None" for a
  proof (cases "a div 4096 = k")
    case True
    have eq: "a = 4096 * k + a mod 4096" using True mult_div_mod_eq [of 4096 a] by simp
    then have "a - (4096 * k + off) = a mod 4096 - off" "4096 * k + off \<le> a \<longleftrightarrow> off \<le> a mod 4096"
      "a < 4096 * k + off + length bs \<longleftrightarrow> a mod 4096 < off + length bs" by linarith+
    moreover have "ubyte (k_mem s1) d a = k_mem s1 (unat ?p + a mod 4096)" "ubyte (k_mem s) d a = k_mem s (unat ?p + a mod 4096)"
      using vm [of k] e k True by (simp_all add: ubyte_def)
    ultimately show ?thesis by (auto simp: s1 mem_simps not_le not_less)
  next
    case False
    obtain e' where e': "vmap (k_mem s) d (a div 4096) = Some e'" using a(2) by blast
    then have fa: "frame (k_mem s) d (a div 4096) = Some (table e')" by (simp add: frame_def)
    have "table e' \<noteq> ?p" using frames_injD [OF u(4) fa _ a(1) k] fk False by auto
    moreover have "aligned (table e')" using frames_okD(1) [OF u(3) fa a(1)] by (rule kpage_aligned)
    moreover have "on_page (table e') (unat (table e') + a mod 4096)" by (simp add: on_page_def PGSIZE_def)
    ultimately have "k_mem s1 (unat (table e') + a mod 4096) = k_mem s (unat (table e') + a mod 4096)"
      using al(1) by (intro changes_page [OF ch]) auto
    then have "ubyte (k_mem s1) d a = ubyte (k_mem s) d a" using vm [of "a div 4096"] a(1) e' by (simp add: ubyte_def)
    moreover have "\<not> (4096 * k + off \<le> a \<and> a < 4096 * k + off + length bs)"
    proof
      assume b: "4096 * k + off \<le> a \<and> a < 4096 * k + off + length bs"
      then have "4096 * k \<le> a" "a < 4096 * Suc k" using off by auto
      then show False using False by (simp add: div_nat_eqI)
    qed
    ultimately show ?thesis by (simp only: if_False)
  qed
qed

lemma wpk_uva2ka:
  assumes ok: "user_ok s d ps" and e: "vmap (k_mem s) d (pno va) = Some e"
    and user: "e AND PTE_U \<noteq> 0 \<Longrightarrow> Q (table e) s" and kern: "e AND PTE_U = 0 \<Longrightarrow> Q 0 s"
  shows "wpk (uva2ka d va) Q s"
proof -
  note u = user_okD [OF ok]
  have pr: "present (pde (k_mem s) d (pno va div 1024))" "present e" "slot (k_mem s) d (pno va) = e"
    using e by (auto simp: vmap_def split: if_splits)
  have "wpk (rd32 (slot_ptr (k_mem s) d va)) (\<lambda>e. wpk (if e AND PTE_P = 0 then retK 0
      else if e AND PTE_U = 0 then retK 0 else retK (P2V (PTE_ADDR e))) Q) s"
    by (rule wpk_read_slot [OF u(1,2) pr(1)]) (use pr user kern in \<open>simp add: present_def table_def\<close>)
  then show ?thesis unfolding uva2ka_def wpk_bind
    by (intro wpk_walk [OF u(1,2)]) (use pr(1) slot_ptr_ok(3) [OF u(1,2) pr(1)] in simp_all)
qed

lemma copyout_unfold:
  "copyout pgdir va buf =
     (if length buf > 0
      then let va0 = PGROUNDDOWN va;
               n = min (PGSIZE - unat (va - va0)) (length buf)
           in bindK (uva2ka pgdir va0) (\<lambda>pa0.
                if pa0 = 0 then retK (-1)
                else bindK (kcopyin (pa0 + (va - va0)) (take n buf)) (\<lambda>_.
                     copyout pgdir (va0 + word_of_nat PGSIZE) (drop n buf)))
      else retK 0)"
  by (rule ext, subst copyout.simps) (simp add: Let_def)

text \<open>The bytes from an address on are replaced, the other user bytes and all other memory stay.\<close>

definition out_post :: "32 word \<Rightarrow> kernel \<Rightarrow> 32 word list \<Rightarrow> nat \<Rightarrow> 8 word list \<Rightarrow> int \<Rightarrow> kernel \<Rightarrow> bool" where
  "out_post d s ps va buf r s' \<longleftrightarrow> r = 0 \<and> user_ok s' d ps \<and> changes s s' (frames (k_mem s) d 0 NUSER) \<and>
     (\<forall>pn<1048576. vmap (k_mem s') d pn = vmap (k_mem s) d pn) \<and>
     (\<forall>a. a div 4096 < NUSER \<longrightarrow> vmap (k_mem s) d (a div 4096) \<noteq> None \<longrightarrow>
        ubyte (k_mem s') d a = (if va \<le> a \<and> a < va + length buf then buf ! (a - va) else ubyte (k_mem s) d a))"

lemma out_post_nil: "user_ok s d ps \<Longrightarrow> out_post d s ps va [] 0 s"
  unfolding out_post_def by (simp only: list.size add_0_right) auto

lemma out_post_step:
  assumes n: "n \<le> length buf" and s1: "changes s s1 (frames (k_mem s) d 0 NUSER)"
    "\<And>pn. pn < 1048576 \<Longrightarrow> vmap (k_mem s1) d pn = vmap (k_mem s) d pn"
    "frames (k_mem s1) d 0 NUSER = frames (k_mem s) d 0 NUSER"
    and b: "\<And>a. a div 4096 < NUSER \<Longrightarrow> vmap (k_mem s) d (a div 4096) \<noteq> None \<Longrightarrow> ubyte (k_mem s1) d a =
       (if va \<le> a \<and> a < va + length (take n buf) then take n buf ! (a - va) else ubyte (k_mem s) d a)"
    and post: "out_post d s1 ps (va + n) (drop n buf) r s'"
  shows "out_post d s ps va buf r s'"
proof -
  have p: "r = 0" "user_ok s' d ps" "changes s1 s' (frames (k_mem s1) d 0 NUSER)"
    "\<And>pn. pn < 1048576 \<Longrightarrow> vmap (k_mem s') d pn = vmap (k_mem s1) d pn"
    and pb: "\<And>a. a div 4096 < NUSER \<Longrightarrow> vmap (k_mem s1) d (a div 4096) \<noteq> None \<Longrightarrow> ubyte (k_mem s') d a =
       (if va + n \<le> a \<and> a < va + n + length (drop n buf) then drop n buf ! (a - (va + n)) else ubyte (k_mem s1) d a)"
    using post unfolding out_post_def by blast+
  have "changes s s' (frames (k_mem s) d 0 NUSER)" using changes_trans [OF s1(1) p(3)] s1(3) by simp
  moreover have "ubyte (k_mem s') d a = (if va \<le> a \<and> a < va + length buf then buf ! (a - va) else ubyte (k_mem s) d a)"
    if "a div 4096 < NUSER" "vmap (k_mem s) d (a div 4096) \<noteq> None" for a
  proof -
    have "vmap (k_mem s1) d (a div 4096) \<noteq> None" using s1(2) [of "a div 4096"] that by simp
    then show ?thesis using pb [OF that(1)] b [OF that] n by (auto simp: not_le not_less nth_append)
  qed
  ultimately show ?thesis using p(1,2,4) s1(2) unfolding out_post_def by simp
qed

lemma next_page_nat: "(x :: nat) = 4096 * k + r \<Longrightarrow> r < 4096 \<Longrightarrow> 4096 * k + 4096 = x + (4096 - r)"
  by simp

text \<open>One iteration: the bytes of one page, and the rest from the start of the next one on.\<close>

lemma wpk_copyout_page:
  assumes ok: "user_ok s d ps" and buf: "buf \<noteq> []" and kN: "pno va < NUSER" and e: "vmap (k_mem s) d (pno va) = Some e"
    and bad: "e AND PTE_U = 0 \<Longrightarrow> Q (-1) s"
    and good: "\<And>va1 s1 n. e AND PTE_U \<noteq> 0 \<Longrightarrow> 0 < n \<Longrightarrow> n \<le> length buf \<Longrightarrow> unat va mod 4096 + length (take n buf) \<le> 4096 \<Longrightarrow>
      (n < length buf \<Longrightarrow> unat va1 = unat va + n) \<Longrightarrow>
      s1 = s\<lparr>k_mem := write_bytes (k_mem s) (unat (table e) + unat va mod 4096) (take n buf)\<rparr> \<Longrightarrow>
      wpk (copyout d va1 (drop n buf)) Q s1"
  shows "wpk (copyout d va buf) Q s"
proof -
  let ?k = "pno va" and ?off = "unat va mod 4096" and ?va0 = "PGROUNDDOWN va"
  let ?n = "min (4096 - ?off) (length buf)" and ?va1 = "PGROUNDDOWN va + word_of_nat PGSIZE"
  let ?s1 = "s\<lparr>k_mem := write_bytes (k_mem s) (unat (table e) + ?off) (take ?n buf)\<rparr>"
  have va: "unat va = 4096 * ?k + ?off" by simp
  have u0: "unat ?va0 = 4096 * ?k" by (rule unat_PGROUNDDOWN)
  have le: "?va0 \<le> va" unfolding word_le_nat_alt u0 using va by linarith
  have off: "unat (va - ?va0) = ?off" unfolding unat_sub [OF le] u0 using va by linarith
  have fk: "frame (k_mem s) d ?k = Some (table e)" using e by (simp add: frame_def)
  note kb = kpage_bounds [OF frames_okD(1) [OF user_okD(3) [OF ok] fk kN] kmem_ok_end [OF user_okD(1) [OF ok]]]
  have dst: "unat (table e + (va - ?va0)) = unat (table e) + ?off"
    using kb off by (subst unat_add_lem [THEN iffD1]) (auto simp: KERNBASE_def PHYSTOP_def PGSIZE_def)
  have fits: "?off + length (take ?n buf) \<le> 4096" by simp
  have nxt: "unat ?va1 = unat va + ?n" if "?n < length buf"
  proof -
    have "unat ?va1 = 4096 * ?k + 4096" using u0 kN by (subst unat_next_page) auto
    moreover have "?n = 4096 - ?off" using that by (auto simp: min_def split: if_splits)
    moreover have "4096 * ?k + 4096 = unat va + (4096 - ?off)" by (rule next_page_nat [OF va]) simp
    ultimately show ?thesis by simp
  qed
  have copy: "wpk (kcopyin (table e + (va - ?va0)) (take ?n buf)) (\<lambda>_. wpk (copyout d ?va1 (drop ?n buf)) Q) s" if "e AND PTE_U \<noteq> 0"
  proof -
    have "wpk (copyout d ?va1 (drop ?n buf)) Q ?s1" using that buf fits nxt by (intro good) auto
    then show ?thesis unfolding wpk_def [of "kcopyin _ _"] using kb fits by (simp add: kcopyin_def dst kptr_def PGSIZE_def)
  qed
  have "wpk (uva2ka d ?va0) (\<lambda>pa0. wpk (if pa0 = 0 then retK (-1)
      else bindK (kcopyin (pa0 + (va - ?va0)) (take ?n buf)) (\<lambda>_. copyout d ?va1 (drop ?n buf))) Q) s"
    using copy bad kb(3) u0 e by (intro wpk_uva2ka [OF ok]) auto
  moreover have eq: "min (PGSIZE - unat (va - ?va0)) (length buf) = ?n" unfolding off PGSIZE_def ..
  ultimately show ?thesis using buf unfolding copyout_unfold [of d va buf] Let_def eq by simp
qed

lemma wpk_copyout:
  assumes "user_ok s d ps" and "unat va + length buf \<le> 0x80000000"
    and "\<And>pn. pno va \<le> pn \<Longrightarrow> 4096 * pn < unat va + length buf \<Longrightarrow> \<exists>e. vmap (k_mem s) d pn = Some e \<and> e AND PTE_U \<noteq> 0"
  shows "wpk (copyout d va buf) (out_post d s ps (unat va) buf) s"
  using assms
proof (induction "length buf" arbitrary: s va buf rule: less_induct)
  case less
  show ?case
  proof (cases "buf = []")
    case True
    then show ?thesis using out_post_nil [OF less.prems(1)] by (subst copyout_unfold) simp
  next
    case False
    let ?k = "pno va"
    have va: "unat va = 4096 * ?k + unat va mod 4096" by simp
    have pos: "0 < length buf" using False by simp
    have "unat va < NUSER * 4096" using less.prems(2) pos by linarith
    then have kN: "?k < NUSER" by (rule less_mult_imp_div_less)
    have lt: "4096 * ?k < unat va + length buf" using va pos by linarith
    obtain e where e: "vmap (k_mem s) d ?k = Some e" "e AND PTE_U \<noteq> 0" using less.prems(3) [OF order.refl] lt by blast
    show ?thesis
    proof (rule wpk_copyout_page [OF less.prems(1) False kN e(1)])
      fix va1 :: "32 word" and s1 n
      assume n: "0 < n" "n \<le> length buf" "unat va mod 4096 + length (take n buf) \<le> 4096" "n < length buf \<Longrightarrow> unat va1 = unat va + n"
        and s1: "s1 = s\<lparr>k_mem := write_bytes (k_mem s) (unat (table e) + unat va mod 4096) (take n buf)\<rparr>"
      note w = write_user [OF less.prems(1) kN e(1) n(3) s1]
      have "wpk (copyout d va1 (drop n buf)) (out_post d s1 ps (unat va + n) (drop n buf)) s1"
      proof (cases "n < length buf")
        case False
        then show ?thesis using out_post_nil [OF w(1)] n(2) by (subst copyout_unfold) simp
      next
        case True
        note u1 = n(4) [OF True]
        have "wpk (copyout d va1 (drop n buf)) (out_post d s1 ps (unat va1) (drop n buf)) s1"
        proof (rule less.hyps [OF _ w(1)])
          show "length (drop n buf) < length buf" using n(1,2) by simp
          show "unat va1 + length (drop n buf) \<le> 0x80000000" using u1 n(2) less.prems(2) by simp
          fix pn assume pn: "pno va1 \<le> pn" "4096 * pn < unat va1 + length (drop n buf)"
          have lt: "4096 * pn < unat va + length buf" using pn(2) u1 n(2) by simp
          have "?k \<le> pno va1" unfolding u1 by (rule div_le_mono) simp
          then have "?k \<le> pn" using pn(1) by (rule order.trans)
          moreover have "pn < 1048576" using lt less.prems(2) by simp
          ultimately show "\<exists>e. vmap (k_mem s1) d pn = Some e \<and> e AND PTE_U \<noteq> 0"
            using less.prems(3) [OF _ lt] w(2) [of pn] by simp
        qed
        then show ?thesis using u1 by simp
      qed
      then show "wpk (copyout d va1 (drop n buf)) (out_post d s ps (unat va) buf) s1"
        by (rule wpk_mono, intro out_post_step [OF n(2) w(3,2,4)]) (use w(5) va in auto)
    qed (use e(2) in simp)
  qed
qed

section \<open>Properties\<close>

text \<open>What \<^verbatim>\<open>copyuvm\<close> promises of the copy \<open>d\<close> of the first \<open>hi\<close> pages of \<open>d0\<close>.\<close>

definition copy_of :: "32 word \<Rightarrow> kernel \<Rightarrow> nat \<Rightarrow> 32 word \<Rightarrow> kernel \<Rightarrow> bool" where
  "copy_of d0 s hi d s' \<longleftrightarrow>
     (\<forall>pn<hi. \<exists>p. frame (k_mem s') d pn = Some p \<and>
        vmap (k_mem s') d pn = Some (V2P p OR flags_of d0 s pn OR PTE_P) \<and>
        (\<forall>j<PGSIZE. k_mem s' (unat p + j) = bytes_of d0 s pn j)) \<and>
     (\<forall>pn. hi \<le> pn \<longrightarrow> pn < NUSER \<longrightarrow> vmap (k_mem s') d pn = None) \<and>
     (\<forall>pn. NUSER \<le> pn \<longrightarrow> pn < 1048576 \<longrightarrow> vmap (k_mem s') d pn = kspace (kmap (k_data s)) (\<lambda>_. None) pn)"

definition space :: "mem \<Rightarrow> 32 word \<Rightarrow> 32 word set" where
  "space m d = pt m d \<union> frames m d 0 NUSER"

lemma copy_result:
  assumes ok: "user_ok s d0 ps" and data: "data_ok s" and hi: "hi \<le> NUSER"
    and sk: "new_space s ps d sk psk" and vm: "\<And>pn. pn < 1048576 \<Longrightarrow> vmap (k_mem sk) d pn = kspace (kmap (k_data s)) (\<lambda>_. None) pn"
    and g: "grown d sk psk 0 hi (flags_of d0 s) (bytes_of d0 s) s' ps'"
  shows "kept d0 s s' ps'" "user_ok s' d ps'" "copy_of d0 s hi d s'" "space (k_mem s') d \<inter> space (k_mem s') d0 = {}"
    "set ps' \<union> space (k_mem s') d = set ps"
proof -
  note g' = grownD [OF g] and c = copied_state [OF sk g hi]
  show k: "kept d0 s s' ps'" by (rule kept_changes [OF ok c(1) user_okD(1) [OF g'(1)] c(2)])
  show "user_ok s' d ps'" by (rule g'(1))
  show un: "set ps' \<union> space (k_mem s') d = set ps" using c(4) by (auto simp: space_def)
  have frs: "frames (k_mem s') d0 0 NUSER = frames (k_mem s) d0 0 NUSER"
    using k by (intro frames_cong) (simp add: kept_def frame_def)
  have "p \<notin> set ps" if "p \<in> space (k_mem s') d0" for p
  proof -
    have "p \<in> pt (k_mem s) d0 \<or> p \<in> frames (k_mem s) d0 0 NUSER" using that k frs by (auto simp: space_def kept_def)
    then show ?thesis using dir_ok_page [OF user_okD(2) [OF ok], of p] user_okD(3) [OF ok] by (auto simp: frames_ok_def)
  qed
  then show "space (k_mem s') d \<inter> space (k_mem s') d0 = {}" using un by blast
  have "\<exists>p. frame (k_mem s') d pn = Some p \<and> vmap (k_mem s') d pn = Some (V2P p OR flags_of d0 s pn OR PTE_P) \<and>
      (\<forall>j<PGSIZE. k_mem s' (unat p + j) = bytes_of d0 s pn j)" if "pn < hi" for pn
    using g'(6) [OF le0 that] by (auto simp: frame_def)
  moreover have "vmap (k_mem s') d pn = kspace (kmap (k_data s)) (\<lambda>_. None) pn" if "NUSER \<le> pn" "pn < 1048576" for pn
    using g'(5) [OF that(2)] vm [OF that(2)] that(1) hi by simp
  ultimately show "copy_of d0 s hi d s'" using c(5) unfolding copy_of_def by blast
qed

text \<open>
  C30. \<^verbatim>\<open>copyuvm\<close>, on an address space whose first pages are mapped up to the size, returns. It returns the
  directory of a new address space with a copy of every page, with the same permissions and contents,
  and the kernel part; the two share no frame and no table, and the pages of the new one were free. Or
  it returns 0, the free pages were fewer than what the copies and a full set of tables need, and all
  pages that were free are free again. In both cases the original is as before.
\<close>

theorem copyuvm_isolated:
  assumes ok: "user_ok s d0 ps" and data: "data_ok s" and sz: "sz \<le> KERNBASE"
    and all: "\<And>pn. pn < (unat sz + 4095) div 4096 \<Longrightarrow> vmap (k_mem s) d0 pn \<noteq> None"
  shows "wpk (copyuvm d0 sz) (\<lambda>r s'. \<exists>ps'. kept d0 s s' ps' \<and>
    (r \<noteq> 0 \<and> user_ok s' r ps' \<and> copy_of d0 s ((unat sz + 4095) div 4096) r s' \<and>
       space (k_mem s') r \<inter> space (k_mem s') d0 = {} \<and> set ps' \<union> space (k_mem s') r = set ps \<or>
     r = 0 \<and> length ps \<le> 1025 + (unat sz + 4095) div 4096 \<and> set ps' = set ps)) s"
proof -
  let ?hi = "(unat sz + 4095) div 4096"
  let ?Q = "\<lambda>r s'. \<exists>ps'. kept d0 s s' ps' \<and>
    (r \<noteq> 0 \<and> user_ok s' r ps' \<and> copy_of d0 s ?hi r s' \<and>
       space (k_mem s') r \<inter> space (k_mem s') d0 = {} \<and> set ps' \<union> space (k_mem s') r = set ps \<or>
     r = 0 \<and> length ps \<le> 1025 + ?hi \<and> set ps' = set ps)"
  have hiN: "?hi \<le> NUSER" using sz by (simp add: word_le_nat_alt KERNBASE_def)
  have free: "?Q 0 s'" if "kmem_ok s' fs" "set fs = set ps" "changes s s' (set ps)" "length ps \<le> 1025 + ?hi" for s' fs
    using kept_changes [OF ok that(3,1)] that(2,4) by auto
  have "wpk setupkvm (\<lambda>d. wpk (if d = 0 then retK 0 else copyuvm_loop d0 sz d 0) ?Q) s"
  proof (rule wpk_setupkvm [OF user_okD(1) [OF ok] data], goal_cases)
    case (1 d sk qs psk)
    have user: "vmap (k_mem sk) d pn = None" if "pn < NUSER" for pn
      using 1(6) [of pn] kspace_below [OF kmap_in_order [OF data] that] that by simp
    have sk: "new_space s ps d sk psk"
      using 1(1,4) changes_mono [OF 1(3)] user by (auto simp: new_space_def)
    have "wpk (copyuvm_loop d0 sz d 0) ?Q sk"
    proof (rule wpk_mono [OF copyuvm_loop_ok [OF ok sk sz refl all grown_refl [OF 1(2)]]])
      fix r s' assume "r = d \<and> (\<exists>ps'. grown d sk psk 0 ?hi (flags_of d0 s) (bytes_of d0 s) s' ps') \<or> r = 0 \<and> length ps \<le> 1025 + ?hi \<and> all_free s ps s'"
      then consider ps' where "r = d" "grown d sk psk 0 ?hi (flags_of d0 s) (bytes_of d0 s) s' ps'" | "r = 0" "length ps \<le> 1025 + ?hi" "all_free s ps s'" by blast
      then show "?Q r s'"
      proof cases
        case a: 1
        show ?thesis using copy_result [OF ok data hiN sk 1(6) a(2)] 1(5) a(1) by blast
      next
        case 2
        then show ?thesis using free unfolding all_free_def by blast
      qed
    qed simp_all
    then show ?case using 1(5) by simp
  next
    case (2 s' fs)
    then show ?case using free by simp
  qed
  then show ?thesis unfolding copyuvm_def wpk_bind .
qed

text \<open>A process with one page: the directory, one table, one frame and one free page.\<close>

definition ex_proc_mem :: mem where
  "ex_proc_mem = store32 (store32 (\<lambda>a. 0) 0x80116000 0x117007) 0x80117000 0x118007"

definition ex_proc :: kernel where
  "ex_proc = \<lparr>k_mem = ex_proc_mem, freelist = 0x80115000, use_lock = True, k_end = 0x80114000, k_data = 0x80109000\<rparr>"

lemma ex_proc_load:
  "a + 4 \<le> 0x80116000 \<or> 0x80116004 \<le> a \<Longrightarrow> a + 4 \<le> 0x80117000 \<or> 0x80117004 \<le> a \<Longrightarrow> load32 ex_proc_mem a = 0"
  "load32 ex_proc_mem 0x80116000 = 0x117007" "load32 ex_proc_mem 0x80117000 = 0x118007"
proof -
  have "load32 (\<lambda>a. 0) b = 0" for b by (simp add: load32_def)
  then show "load32 ex_proc_mem a = 0"
    if "a + 4 \<le> 0x80116000 \<or> 0x80116004 \<le> a" "a + 4 \<le> 0x80117000 \<or> 0x80117004 \<le> a"
    using that by (auto simp: ex_proc_mem_def mem_simps)
qed (simp_all add: ex_proc_mem_def mem_simps)

lemma ex_proc_entries:
  "i < 1024 \<Longrightarrow> pde ex_proc_mem 0x80116000 i = (if i = 0 then 0x117007 else 0)"
  "pn < 1048576 \<Longrightarrow> vmap ex_proc_mem 0x80116000 pn = (if pn = 0 then Some 0x118007 else None)"
proof -
  show pde: "pde ex_proc_mem 0x80116000 i = (if i = 0 then 0x117007 else 0)" if "i < 1024" for i
    using that ex_proc_load by (auto simp: pde_def)
  have tab: "table 0x117007 = 0x80117000" by (simp add: table_def PTE_ADDR_def P2V_def KERNBASE_def)
  have pr: "present 0x117007" "present 0x118007" by (simp_all add: present_def)
  have slot: "slot ex_proc_mem 0x80116000 pn = (if pn = 0 then 0x118007 else 0)" if "pn < 1024"
    using that pde [of 0] tab ex_proc_load by (auto simp: slot_def)
  show "pn < 1048576 \<Longrightarrow> vmap ex_proc_mem 0x80116000 pn = (if pn = 0 then Some 0x118007 else None)"
    using pde [of "pn div 1024"] pr slot by (auto simp: vmap_def less_mult_imp_div_less div_eq_0_iff)
qed

lemma ex_proc_user_ok: "user_ok ex_proc 0x80116000 [0x80115000]"
proof -
  have tab: "table 0x117007 = 0x80117000" "table 0x118007 = 0x80118000" by (simp_all add: table_def PTE_ADDR_def P2V_def KERNBASE_def)
  have pr: "present 0x117007" by (simp add: present_def)
  have kp: "kpage ex_proc 0x80115000" "kpage ex_proc 0x80116000" "kpage ex_proc 0x80117000" "kpage ex_proc 0x80118000"
    by (simp_all add: kpage_def ex_proc_def PGSIZE_def V2P_def KERNBASE_def PHYSTOP_def)
  have mem: "k_mem ex_proc = ex_proc_mem" by (simp add: ex_proc_def)
  have pt: "pt ex_proc_mem 0x80116000 = {0x80116000, 0x80117000}"
  proof (intro set_eqI iffI)
    fix p assume "p \<in> pt ex_proc_mem 0x80116000"
    then show "p \<in> {0x80116000, 0x80117000}"
      using ex_proc_entries(1) tab by (auto simp: pt_def split: if_splits)
  next
    fix p :: "32 word" assume "p \<in> {0x80116000, 0x80117000}"
    then show "p \<in> pt ex_proc_mem 0x80116000"
      using ex_proc_entries(1) [of 0] pr tab pt_table [of 0 ex_proc_mem "0x80116000"] by auto
  qed
  have "kmem_ok ex_proc [0x80115000]"
    using kp ex_proc_load(1) [of "0x80115000"] by (simp add: kmem_ok_def mem) (simp add: ex_proc_def KERNBASE_def)
  moreover have "dir_ok ex_proc 0x80116000 [0x80115000]"
    unfolding dir_ok_def mem pt using kp ex_proc_entries(1) tab by auto
  moreover have "frames ex_proc_mem 0x80116000 0 NUSER = {0x80118000}"
    using ex_proc_entries(2) tab by (auto simp: frames_def frame_def split: if_splits intro!: exI [of _ "0 :: nat"])
  then have "frames_ok ex_proc 0x80116000 [0x80115000]" unfolding frames_ok_def mem pt using kp by auto
  moreover have "frames_inj ex_proc_mem 0x80116000"
    using ex_proc_entries(2) by (auto simp: frames_inj_def frame_def split: if_splits)
  ultimately show ?thesis by (simp add: user_ok_def mem)
qed

theorem copyuvm_isolated_witness:
  "wpk (copyuvm 0x80116000 0x1000) (\<lambda>r s'. \<exists>ps'. kept 0x80116000 ex_proc s' ps' \<and>
    (r \<noteq> 0 \<and> user_ok s' r ps' \<and> copy_of 0x80116000 ex_proc 1 r s' \<and>
       space (k_mem s') r \<inter> space (k_mem s') 0x80116000 = {} \<and> set ps' \<union> space (k_mem s') r = {0x80115000} \<or>
     r = 0 \<and> set ps' = {0x80115000})) ex_proc"
proof -
  have "data_ok ex_proc"
    by (simp add: data_ok_def ex_proc_def aligned_def PGSIZE_def KERNLINK_def KERNBASE_def EXTMEM_def P2V_def PHYSTOP_def)
  moreover have "vmap (k_mem ex_proc) 0x80116000 pn \<noteq> None" if "pn < 1" for pn
    using ex_proc_entries(2) [of pn] that by (simp add: ex_proc_def)
  ultimately show ?thesis using copyuvm_isolated [OF ex_proc_user_ok, of "0x1000"] by (simp add: KERNBASE_def)
qed

text \<open>
  \<^verbatim>\<open>copyout\<close> to user pages that are mapped and accessible returns 0; the bytes from the address on are
  then the given ones, across page borders, and every other byte of the user and of the kernel is as
  before.
\<close>

theorem copyout_writes:
  assumes "user_ok s d ps" and "unat va + length buf \<le> unat KERNBASE"
    and "\<And>pn. pno va \<le> pn \<Longrightarrow> 4096 * pn < unat va + length buf \<Longrightarrow> \<exists>e. vmap (k_mem s) d pn = Some e \<and> e AND PTE_U \<noteq> 0"
  shows "wpk (copyout d va buf) (\<lambda>r s'. r = 0 \<and> user_ok s' d ps \<and> changes s s' (frames (k_mem s) d 0 NUSER) \<and>
     (\<forall>pn<1048576. vmap (k_mem s') d pn = vmap (k_mem s) d pn) \<and>
     (\<forall>a. a div 4096 < NUSER \<longrightarrow> vmap (k_mem s) d (a div 4096) \<noteq> None \<longrightarrow>
        ubyte (k_mem s') d a =
          (if unat va \<le> a \<and> a < unat va + length buf then buf ! (a - unat va) else ubyte (k_mem s) d a))) s"
proof -
  have "unat va + length buf \<le> 0x80000000" using assms(2) by (simp add: KERNBASE_def)
  from wpk_copyout [OF assms(1) this assms(3)] show ?thesis unfolding out_post_def .
qed

theorem copyout_writes_witness:
  "wpk (copyout 0x80116000 0xFFE [7, 9]) (\<lambda>r s'. r = 0 \<and> user_ok s' 0x80116000 [0x80115000] \<and>
     ubyte (k_mem s') 0x80116000 0xFFF = 9) ex_proc"
proof -
  have "wpk (copyout 0x80116000 0xFFE [7, 9]) (\<lambda>r s'. r = 0 \<and> user_ok s' 0x80116000 [0x80115000] \<and>
     changes ex_proc s' (frames (k_mem ex_proc) 0x80116000 0 NUSER) \<and>
     (\<forall>pn<1048576. vmap (k_mem s') 0x80116000 pn = vmap (k_mem ex_proc) 0x80116000 pn) \<and>
     (\<forall>a. a div 4096 < NUSER \<longrightarrow> vmap (k_mem ex_proc) 0x80116000 (a div 4096) \<noteq> None \<longrightarrow>
        ubyte (k_mem s') 0x80116000 a =
          (if unat (0xFFE :: 32 word) \<le> a \<and> a < unat (0xFFE :: 32 word) + length [7, 9 :: 8 word]
           then [7, 9] ! (a - unat (0xFFE :: 32 word)) else ubyte (k_mem ex_proc) 0x80116000 a))) ex_proc"
  proof (rule copyout_writes [OF ex_proc_user_ok])
    show "unat (0xFFE :: 32 word) + length [7, 9 :: 8 word] \<le> unat KERNBASE" by (simp add: KERNBASE_def)
    show "\<exists>e. vmap (k_mem ex_proc) 0x80116000 pn = Some e \<and> e AND PTE_U \<noteq> 0"
      if "4096 * pn < unat (0xFFE :: 32 word) + length [7, 9 :: 8 word]" for pn
      using that ex_proc_entries(2) [of pn] by (simp add: ex_proc_def)
  qed
  moreover have "vmap (k_mem ex_proc) 0x80116000 0 \<noteq> None" using ex_proc_entries(2) [of 0] by (simp add: ex_proc_def)
  ultimately show ?thesis by (elim wpk_mono) (auto dest!: spec [of _ "0xFFF :: nat"])
qed

end
