(* ===== verification/Image.thy ===== *)
theory Image
  imports Copyvm
begin

text \<open>
  The memory image of a process: the size that \<^verbatim>\<open>struct proc\<close> records and the pages that its address
  space maps. \<^verbatim>\<open>growproc\<close> of \<^verbatim>\<open>proc.c\<close> changes both, and the two have to agree, since \<^verbatim>\<open>fork\<close> copies the
  pages below the size and panics where one is missing.
\<close>

section \<open>Images\<close>

abbreviation npg :: "32 word \<Rightarrow> nat" where
  "npg sz \<equiv> (unat sz + 4095) div 4096"

definition image_ok :: "kernel \<Rightarrow> 32 word \<Rightarrow> 32 word \<Rightarrow> 32 word list \<Rightarrow> bool" where
  "image_ok s d sz ps \<longleftrightarrow>
     user_ok s d ps \<and> sz \<le> KERNBASE \<and> (\<forall>pn<NUSER. vmap (k_mem s) d pn \<noteq> None \<longleftrightarrow> pn < npg sz)"

text \<open>
  The part of \<^verbatim>\<open>growproc\<close> that changes memory and the size: it returns the result of the call and the
  size that is recorded then.
\<close>

definition growproc_image :: "32 word \<Rightarrow> 32 word \<Rightarrow> 32 word \<Rightarrow> (int \<times> 32 word) km" where
  "growproc_image pgdir sz n =
     (if sint n > 0
      then bindK (allocuvm pgdir sz (sz + n)) (\<lambda>r. if r = 0 then retK (-1, sz) else retK (0, r))
      else if sint n < 0
      then bindK (deallocuvm pgdir sz (sz + n)) (\<lambda>r. if r = 0 then retK (-1, sz) else retK (0, r))
      else retK (0, sz))"

section \<open>Growing and shrinking an image\<close>

lemma image_okD:
  assumes "image_ok s d sz ps"
  shows "user_ok s d ps" "sz \<le> KERNBASE" "unat sz \<le> 0x80000000" "npg sz \<le> NUSER"
    "\<And>pn. pn < NUSER \<Longrightarrow> vmap (k_mem s) d pn \<noteq> None \<longleftrightarrow> pn < npg sz"
proof -
  show "user_ok s d ps" "sz \<le> KERNBASE" "\<And>pn. pn < NUSER \<Longrightarrow> vmap (k_mem s) d pn \<noteq> None \<longleftrightarrow> pn < npg sz"
    using assms by (auto simp: image_ok_def)
  then show "unat sz \<le> 0x80000000" by (simp add: word_le_nat_alt KERNBASE_def)
  then show "npg sz \<le> NUSER" by simp
qed

text \<open>A byte is kept when the entry of its page is and its frame is not among the pages that change.\<close>

lemma ubyte_keep:
  assumes ok: "user_ok s d ps" and ch: "changes s s' P" "\<forall>p\<in>P. aligned p" and a: "a div 4096 < NUSER"
    and e: "vmap (k_mem s) d (a div 4096) = Some e" "vmap (k_mem s') d (a div 4096) = Some e" "table e \<notin> P"
  shows "ubyte (k_mem s') d a = ubyte (k_mem s) d a"
proof -
  have "frame (k_mem s) d (a div 4096) = Some (table e)" using e(1) by (simp add: frame_def)
  then have "aligned (table e)" using frames_okD(1) [OF user_okD(3) [OF ok] _ a] by (blast intro: kpage_aligned)
  moreover have "on_page (table e) (unat (table e) + a mod 4096)" by (simp add: on_page_def PGSIZE_def)
  ultimately show ?thesis using changes_page [OF ch _ e(3)] e(1,2) by (simp add: ubyte_def)
qed

lemma old_bytes:
  assumes im: "image_ok s d sz ps" and ch: "changes s s' (pt (k_mem s) d \<union> set ps)"
    and vm: "\<And>pn. pn < npg sz \<Longrightarrow> vmap (k_mem s') d pn = vmap (k_mem s) d pn" and a: "a < 4096 * npg sz"
  shows "ubyte (k_mem s') d a = ubyte (k_mem s) d a"
proof -
  note i = image_okD [OF im]
  have pn: "a div 4096 < npg sz" using a by (simp add: less_mult_imp_div_less mult.commute)
  then have pN: "a div 4096 < NUSER" using i(4) by simp
  obtain e where e: "vmap (k_mem s) d (a div 4096) = Some e" using i(5) [OF pN] pn by auto
  have f: "frame (k_mem s) d (a div 4096) = Some (table e)" using e by (simp add: frame_def)
  show ?thesis
    by (rule ubyte_keep [OF i(1) ch _ pN e])
      (use user_ok_aligned [OF i(1)] vm [OF pn] e frames_okD(2,3) [OF user_okD(3) [OF i(1)] f pN] in auto)
qed

text \<open>The old part of an image after it has grown, and what was added.\<close>

lemma grown_image:
  assumes im: "image_ok s d sz ps" and new: "newsz < KERNBASE" "unat sz \<le> unat newsz"
    and g: "grown d s ps (npg sz) (npg newsz) fl c s' ps'"
  shows "image_ok s' d newsz ps'" "\<And>a. a < 4096 * npg sz \<Longrightarrow> ubyte (k_mem s') d a = ubyte (k_mem s) d a"
    "\<And>a. 4096 * npg sz \<le> a \<Longrightarrow> a < 4096 * npg newsz \<Longrightarrow> ubyte (k_mem s') d a = c (a div 4096) (a mod 4096)"
proof -
  note i = image_okD [OF im] and g' = grownD [OF g]
  have n: "npg newsz \<le> NUSER" "npg sz \<le> npg newsz"
    using new by (auto simp: word_less_nat_alt KERNBASE_def intro!: div_le_mono)
  have "vmap (k_mem s') d pn \<noteq> None \<longleftrightarrow> pn < npg newsz" if "pn < NUSER" for pn
  proof (cases "npg sz \<le> pn \<and> pn < npg newsz")
    case True
    then show ?thesis using g'(6) [of pn] by auto
  next
    case False
    then show ?thesis using g'(5) [of pn] i(5) [OF that] that n by auto
  qed
  then show "image_ok s' d newsz ps'" using g'(1) new(1) by (simp add: image_ok_def)
  show "ubyte (k_mem s') d a = ubyte (k_mem s) d a" if "a < 4096 * npg sz" for a
    using g'(5) i(4) by (intro old_bytes [OF im g'(2) _ that]) simp
  show "ubyte (k_mem s') d a = c (a div 4096) (a mod 4096)" if "4096 * npg sz \<le> a" "a < 4096 * npg newsz" for a
  proof -
    have "npg sz \<le> a div 4096" "a div 4096 < npg newsz"
      using that by (simp_all add: less_eq_div_iff_mult_less_eq less_mult_imp_div_less mult.commute)
    then show ?thesis using g'(6) [of "a div 4096"] by (auto simp: ubyte_def PGSIZE_def)
  qed
qed

lemma shrunk_image:
  assumes im: "image_ok s d sz ps" and new: "unat newsz \<le> unat sz"
    and p: "dealloc_post d s ps (npg newsz) (npg sz) s'"
  shows "\<exists>ps'. image_ok s' d newsz ps'" "\<And>a. a < 4096 * npg newsz \<Longrightarrow> ubyte (k_mem s') d a = ubyte (k_mem s) d a"
proof -
  note i = image_okD [OF im]
  obtain fs where fs: "user_ok s' d (fs @ ps)" "set fs = frames (k_mem s) d (npg newsz) (npg sz)"
    "changes s s' (pt (k_mem s) d \<union> set fs)"
    "\<And>pn. pn < 1048576 \<Longrightarrow> vmap (k_mem s') d pn = (if npg newsz \<le> pn \<and> pn < npg sz then None else vmap (k_mem s) d pn)"
    using p unfolding dealloc_post_def by blast
  have n: "npg newsz \<le> npg sz" using new by (intro div_le_mono) simp
  have "vmap (k_mem s') d pn \<noteq> None \<longleftrightarrow> pn < npg newsz" if "pn < NUSER" for pn
    using fs(4) [of pn] i(5) [OF that] that n by auto
  moreover have "newsz \<le> KERNBASE" using new i(2) by (simp add: word_le_nat_alt)
  ultimately show "\<exists>ps'. image_ok s' d newsz ps'" using fs(1) unfolding image_ok_def by blast
  show "ubyte (k_mem s') d a = ubyte (k_mem s) d a" if "a < 4096 * npg newsz" for a
  proof -
    have pn: "a div 4096 < npg newsz" using that by (simp add: less_mult_imp_div_less mult.commute)
    then have pN: "a div 4096 < NUSER" using i(4) n by simp
    obtain e where e: "vmap (k_mem s) d (a div 4096) = Some e" using i(5) [OF pN] pn n by auto
    have f: "frame (k_mem s) d (a div 4096) = Some (table e)" using e by (simp add: frame_def)
    have "table e \<notin> set fs"
    proof
      assume "table e \<in> set fs"
      then obtain qn where "npg newsz \<le> qn" "qn < npg sz" "frame (k_mem s) d qn = Some (table e)" unfolding fs(2) frames_def by blast
      then show False using frames_injD [OF user_okD(4) [OF i(1)] f _ pN, of qn] pn i(4) by simp
    qed
    moreover have "\<forall>p\<in>pt (k_mem s) d \<union> set fs. aligned p"
    proof
      fix q assume "q \<in> pt (k_mem s) d \<union> set fs"
      then show "aligned q"
        using user_ok_aligned [OF i(1), of q] user_ok_aligned [OF fs(1), of q] by auto
    qed
    ultimately show ?thesis
      using fs(4) [of "a div 4096"] pN pn e frames_okD(3) [OF user_okD(3) [OF i(1)] f pN]
      by (intro ubyte_keep [OF i(1) fs(3) _ pN e]) auto
  qed
qed

lemma sint_cases:
  fixes n :: "32 word"
  shows "sint n < 0 \<longleftrightarrow> 0x80000000 \<le> unat n" "0 < sint n \<longleftrightarrow> n \<noteq> 0 \<and> unat n < 0x80000000"
proof -
  have "sint n < 0 \<longleftrightarrow> bit n 31" using bit_last_iff [of n] by simp
  also have "\<dots> \<longleftrightarrow> bit (unat n) 31" by (simp add: bit_unsigned_iff)
  also have "\<dots> \<longleftrightarrow> odd (unat n div 2 ^ 31)" by (simp only: bit_iff_odd)
  also have "\<dots> \<longleftrightarrow> 0x80000000 \<le> unat n"
  proof (cases "0x80000000 \<le> unat n")
    case True
    then have "unat n div 2 ^ 31 = 1" using unsigned_less [of n, where ?'a = nat] by (intro div_nat_eqI) auto
    then show ?thesis using True by simp
  qed simp
  finally show neg: "sint n < 0 \<longleftrightarrow> 0x80000000 \<le> unat n" .
  have "sint n = 0 \<longleftrightarrow> n = 0" by (metis signed_0 signed_word_eqI)
  then show "0 < sint n \<longleftrightarrow> n \<noteq> 0 \<and> unat n < 0x80000000" using neg by linarith
qed

text \<open>What a call of \<^verbatim>\<open>growproc\<close> leaves behind, given the size that is recorded.\<close>

definition image_post :: "kernel \<Rightarrow> 32 word \<Rightarrow> 32 word \<Rightarrow> 32 word \<Rightarrow> kernel \<Rightarrow> bool" where
  "image_post s d sz newsz s' \<longleftrightarrow> (\<exists>ps'. image_ok s' d newsz ps') \<and>
     (\<forall>a < 4096 * min (npg sz) (npg newsz). ubyte (k_mem s') d a = ubyte (k_mem s) d a) \<and>
     (\<forall>a. 4096 * npg sz \<le> a \<and> a < 4096 * npg newsz \<longrightarrow> ubyte (k_mem s') d a = 0)"

lemma image_post_refl: "image_ok s d sz ps \<Longrightarrow> image_post s d sz sz s"
  by (auto simp: image_post_def)

lemma wpk_grow_image:
  assumes im: "image_ok s d sz ps" and le: "unat sz \<le> unat newsz"
  shows "wpk (allocuvm d sz newsz) (\<lambda>r s'. r = newsz \<and> image_post s d sz newsz s' \<or> r = 0 \<and> image_post s d sz sz s') s"
proof (cases "KERNBASE \<le> newsz")
  case True
  then show ?thesis using image_post_refl [OF im] by (simp add: allocuvm_def)
next
  case False
  note i = image_okD [OF im]
  have new: "newsz < KERNBASE" and N: "npg newsz \<le> NUSER" and n: "npg sz \<le> npg newsz"
    using False le by (auto simp: not_le word_less_nat_alt KERNBASE_def intro!: div_le_mono)
  have none: "vmap (k_mem s) d pn = None" if "npg sz \<le> pn" "pn < npg newsz" for pn using i(5) [of pn] N that by auto
  have ge: "\<not> newsz < sz" using le by (simp add: word_less_nat_alt)
  show ?thesis
  proof (rule wpk_mono [OF wpk_allocuvm [OF i(1) none]])
    fix r s'
    assume "if KERNBASE \<le> newsz then r = 0 \<and> s' = s else if newsz < sz then r = sz \<and> s' = s
      else alloc_post d s ps (npg sz) (npg newsz) newsz r s'"
    then consider ps' where "r = newsz" "grown d s ps (npg sz) (npg newsz) (\<lambda>_. PTE_W OR PTE_U) (\<lambda>_ _. 0) s' ps'"
      | ps' where "r = 0" "restored d s ps {} s' ps'" using False ge unfolding alloc_post_def by auto
    then show "r = newsz \<and> image_post s d sz newsz s' \<or> r = 0 \<and> image_post s d sz sz s'"
    proof cases
      case 1
      then show ?thesis using grown_image [OF im new le 1(2)] n unfolding image_post_def by (auto simp: min_absorb1)
    next
      case 2
      have r: "user_ok s' d ps'" "changes s s' (pt (k_mem s) d \<union> set ps)"
        "\<And>pn. pn < 1048576 \<Longrightarrow> vmap (k_mem s') d pn = vmap (k_mem s) d pn" using 2(2) by (auto simp: restored_def)
      have "image_ok s' d sz ps'" using r(1,3) i(2,5) by (simp add: image_ok_def)
      moreover have "ubyte (k_mem s') d a = ubyte (k_mem s) d a" if "a < 4096 * npg sz" for a
        using r(3) i(4) by (intro old_bytes [OF im r(2) _ that]) simp
      ultimately show ?thesis using 2(1) by (auto simp: image_post_def)
    qed
  qed
qed

lemma wpk_shrink_image:
  assumes im: "image_ok s d sz ps"
  shows "wpk (deallocuvm d sz newsz) (\<lambda>r s'. r = min sz newsz \<and> image_post s d sz (min sz newsz) s') s"
proof (cases "sz \<le> newsz")
  case True
  then show ?thesis using image_post_refl [OF im] by (simp add: deallocuvm_def min_def)
next
  case False
  then have le: "unat newsz \<le> unat sz" and m: "min sz newsz = newsz" by (auto simp: word_le_nat_alt min_def)
  have n: "npg newsz \<le> npg sz" using le by (intro div_le_mono) simp
  show ?thesis
  proof (rule wpk_mono [OF wpk_deallocuvm [OF image_okD(1,2) [OF im]]], elim conjE, unfold m)
    fix r s' assume "r = newsz" "dealloc_post d s ps (npg newsz) (npg sz) s'"
    then show "r = newsz \<and> image_post s d sz newsz s'"
      using shrunk_image [OF im le] n unfolding image_post_def by (auto simp: min_absorb2)
  qed
qed

section \<open>Properties\<close>

text \<open>
  C32. For every \<open>n\<close> but the decrement by the whole size, \<^verbatim>\<open>growproc\<close> keeps an image well formed: afterwards
  exactly the pages below the recorded size (rounded up to pages) are mapped, each to a frame of its own. All bytes of the
  pages that are mapped before and after are kept, and the pages that are mapped anew are zero. The bytes between
  the old size and the end of its page are kept like the others of that page: growth inside a page shows
  what was stored there before, it does not clear it.
  The call returns 0 with the size changed by \<open>n\<close>, or -1 with the old size; a decrement beyond the start of
  memory is reported as success and changes nothing. The decrement by the whole size, left out here, breaks the
  image (the next property).
\<close>

theorem growproc_keeps_image:
  assumes im: "image_ok s d sz ps" and part: "sint n < 0 \<Longrightarrow> sz + n \<noteq> 0"
  shows "wpk (growproc_image d sz n) (\<lambda>rs s'. image_post s d sz (snd rs) s' \<and>
    (fst rs = 0 \<and> (snd rs = sz + n \<or> sint n < 0 \<and> sz < sz + n \<and> snd rs = sz) \<or> fst rs = -1 \<and> snd rs = sz)) s"
proof -
  note i = image_okD [OF im]
  consider "n = 0" | "0 < sint n" "n \<noteq> 0" "unat n < 0x80000000" | "sint n < 0" "0x80000000 \<le> unat n"
    using sint_cases [of n] by linarith
  then show ?thesis
  proof cases
    case 1
    then show ?thesis using image_post_refl [OF im] by (simp add: growproc_image_def)
  next
    case 2
    have u: "unat (sz + n) = unat sz + unat n"
      using i(3) 2(3) by (subst unat_add_lem [THEN iffD1]) auto
    then have "unat sz \<le> unat (sz + n)" "sz + n \<noteq> 0" using 2(2) by (auto simp: word_unat_eq_iff)
    then show ?thesis using wpk_grow_image [OF im, of "sz + n"] 2(1) by (auto simp: growproc_image_def elim!: wpk_mono)
  next
    case 3
    then show ?thesis using wpk_shrink_image [OF im, of "sz + n"] part
      by (auto simp: growproc_image_def min_def not_le elim!: wpk_mono)
  qed
qed

text \<open>
  C33. The decrement by the whole size frees every user page but is reported as a failure, with the
  size as before: the image is not well formed afterwards.
\<close>

theorem growproc_all_breaks:
  assumes im: "image_ok s d sz ps" and sz: "sz \<noteq> 0"
  shows "wpk (growproc_image d sz (- sz)) (\<lambda>rs s'. rs = (-1, sz) \<and>
    (\<forall>pn<NUSER. vmap (k_mem s') d pn = None) \<and> (\<forall>ps'. \<not> image_ok s' d (snd rs) ps')) s"
proof -
  note i = image_okD [OF im]
  have pos: "0 < unat sz" using sz by (simp add: unat_gt_0)
  have "\<not> unat (- sz) < 0x80000000"
  proof
    assume "unat (- sz) < 0x80000000"
    then have "unat (- sz + sz) = unat (- sz) + unat sz" using i(3) by (subst unat_add_lem [THEN iffD1]) simp_all
    then show False using pos by simp
  qed
  then have neg: "sint (- sz) < 0" using sint_cases(1) [of "- sz"] by simp
  have p0: "0 < npg sz" using pos by (simp add: div_greater_zero_iff)
  have "rs = (-1, sz) \<and> (\<forall>pn<NUSER. vmap (k_mem s') d pn = None) \<and> (\<forall>ps'. \<not> image_ok s' d (snd rs) ps')"
    if "image_post s d sz 0 s'" "rs = (-1, sz)" for rs s'
  proof -
    have none: "\<forall>pn<NUSER. vmap (k_mem s') d pn = None" using that(1) by (auto simp: image_post_def image_ok_def)
    have "\<not> image_ok s' d sz ps'" for ps'
      using none p0 image_okD(5) [of s' d sz ps' 0] by auto
    then show ?thesis using none that(2) by simp
  qed
  then show ?thesis using wpk_shrink_image [OF im, of 0] neg sz
    by (auto simp: growproc_image_def min_def elim!: wpk_mono)
qed



text \<open>The process of the example has one page.\<close>

lemma ex_proc_image: "image_ok ex_proc 0x80116000 0x1000 [0x80115000]"
proof -
  have "vmap (k_mem ex_proc) 0x80116000 pn \<noteq> None \<longleftrightarrow> pn < 1" if "pn < NUSER" for pn
    using ex_proc_entries(2) [of pn] that by (simp add: ex_proc_def)
  then show ?thesis using ex_proc_user_ok by (simp add: image_ok_def KERNBASE_def)
qed

theorem growproc_keeps_image_witness:
  "wpk (growproc_image 0x80116000 0x1000 0x2000) (\<lambda>rs s'. image_post ex_proc 0x80116000 0x1000 (snd rs) s' \<and>
    (fst rs = 0 \<and> snd rs = 0x3000 \<or> fst rs = -1 \<and> snd rs = 0x1000)) ex_proc"
proof -
  have "\<not> sint (0x2000 :: 32 word) < 0" using sint_cases(1) [of "0x2000"] by simp
  then show ?thesis using growproc_keeps_image [OF ex_proc_image, of "0x2000"] by simp
qed

theorem growproc_all_breaks_witness:
  "wpk (growproc_image 0x80116000 0x1000 (- 0x1000)) (\<lambda>rs s'. rs = (-1, 0x1000) \<and>
    (\<forall>pn<NUSER. vmap (k_mem s') 0x80116000 pn = None) \<and> (\<forall>ps'. \<not> image_ok s' 0x80116000 (snd rs) ps')) ex_proc"
  using growproc_all_breaks [OF ex_proc_image] by simp

end
