(* ===== verification/Exec.thy ===== *)
theory Exec
  imports Image
begin

text \<open>
  Replacing the image of a process (\<^verbatim>\<open>hw09/starter-hw09/xv6/exec.c\<close> and \<^verbatim>\<open>loaduvm\<close> of \<^verbatim>\<open>vm.c\<close>). The executable is read
  with \<^verbatim>\<open>readi\<close> while its inode is locked, so its contents do not change: \<open>rdi off n\<close> stands for the bytes
  that \<^verbatim>\<open>readi\<close> delivers. Either the process gets a complete new image and the old one is freed, or
  nothing has changed and every page that was taken is free again.
\<close>

section \<open>The code\<close>

type_synonym reader = "32 word \<Rightarrow> nat \<Rightarrow> 8 word list"


definition ELF_MAGIC :: "32 word" where "ELF_MAGIC = 0x464C457F"







text \<open>The number of bytes of an iteration of \<^verbatim>\<open>loaduvm\<close>.\<close>

definition load_chunk :: "32 word \<Rightarrow> 32 word \<Rightarrow> nat" where
  "load_chunk sz i = (if sz - i < word_of_nat PGSIZE then unat (sz - i) else PGSIZE)"

partial_function (option) loaduvm_loop ::
  "reader \<Rightarrow> 32 word \<Rightarrow> 32 word \<Rightarrow> 32 word \<Rightarrow> 32 word \<Rightarrow> 32 word \<Rightarrow> kernel \<Rightarrow> (kernel \<times> int) res option" where
  "loaduvm_loop rdi pgdir addr offset sz i s =
     (if i < sz
      then bindK (walkpgdir pgdir (addr + i) False) (\<lambda>pte.
             if pte = 0 then failK (Panic ''loaduvm: address should exist'')
             else bindK (rd32 pte) (\<lambda>e.
                  bindK (kcopyin (P2V (PTE_ADDR e)) (rdi (offset + i) (load_chunk sz i))) (\<lambda>_.
                  if length (rdi (offset + i) (load_chunk sz i)) \<noteq> load_chunk sz i then retK (-1)
                  else loaduvm_loop rdi pgdir addr offset sz (i + word_of_nat PGSIZE)))) s
      else retK 0 s)"

definition loaduvm :: "reader \<Rightarrow> 32 word \<Rightarrow> 32 word \<Rightarrow> 32 word \<Rightarrow> 32 word \<Rightarrow> int km" where
  "loaduvm rdi pgdir addr offset sz =
     (if unat addr mod PGSIZE \<noteq> 0 then failK (Panic ''loaduvm: addr must be page aligned'')
      else loaduvm_loop rdi pgdir addr offset sz 0)"



definition bytes32 :: "32 word \<Rightarrow> 8 word list" where
  "bytes32 w = [ucast w, ucast (drop_bit 8 w), ucast (drop_bit 16 w), ucast (drop_bit 24 w)]"




section \<open>An image under construction\<close>







section \<open>Loading a segment\<close>

lemma loaduvm_loop_unfold:
  "loaduvm_loop rdi pgdir addr offset sz i =
     (if i < sz
      then bindK (walkpgdir pgdir (addr + i) False) (\<lambda>pte.
             if pte = 0 then failK (Panic ''loaduvm: address should exist'')
             else bindK (rd32 pte) (\<lambda>e.
                  bindK (kcopyin (P2V (PTE_ADDR e)) (rdi (offset + i) (load_chunk sz i))) (\<lambda>_.
                  if length (rdi (offset + i) (load_chunk sz i)) \<noteq> load_chunk sz i then retK (-1)
                  else loaduvm_loop rdi pgdir addr offset sz (i + word_of_nat PGSIZE))))
      else retK 0)"
  by (rule ext, subst loaduvm_loop.simps) simp

text \<open>Finding the frame of a mapped page, whatever its permissions are.\<close>

lemma wpk_find_slot:
  assumes ok: "user_ok s d ps" and e: "vmap (k_mem s) d (pno va) = Some e" and Q: "wpk (f (slot_ptr (k_mem s) d va) e) Q s"
  shows "wpk (bindK (walkpgdir d va False) (\<lambda>pte. if pte = 0 then g else bindK (rd32 pte) (f pte))) Q s"
proof -
  note u = user_okD [OF ok]
  have pr: "present (pde (k_mem s) d (pno va div 1024))" "slot (k_mem s) d (pno va) = e"
    using e by (auto simp: vmap_def split: if_splits)
  have "wpk (rd32 (slot_ptr (k_mem s) d va)) (\<lambda>e. wpk (f (slot_ptr (k_mem s) d va) e) Q) s"
    by (rule wpk_read_slot [OF u(1,2) pr(1)]) (use pr Q in simp)
  then show ?thesis unfolding wpk_bind
    by (intro wpk_walk [OF u(1,2)]) (use pr(1) slot_ptr_ok(3) [OF u(1,2) pr(1)] in simp_all)
qed

lemma wpk_copy_frame:
  assumes ok: "user_ok s d ps" and k: "k < NUSER" and e: "vmap (k_mem s) d k = Some e" and fits: "length bs \<le> 4096"
    and go: "Q () (s\<lparr>k_mem := write_bytes (k_mem s) (unat (table e) + 0) bs\<rparr>)"
  shows "wpk (kcopyin (table e) bs) Q s"
proof -
  have "frame (k_mem s) d k = Some (table e)" using e by (simp add: frame_def)
  note kb = kpage_bounds [OF frames_okD(1) [OF user_okD(3) [OF ok] this k] kmem_ok_end [OF user_okD(1) [OF ok]]]
  show ?thesis using kb fits go by (simp add: wpk_def kcopyin_def kptr_def PGSIZE_def)
qed

text \<open>
  The bytes of the file from \<open>off\<close> on, as \<^verbatim>\<open>loaduvm\<close> reads them page by page, at their addresses; a short
  read ends the call with -1.
\<close>

definition load_byte :: "reader \<Rightarrow> 32 word \<Rightarrow> 32 word \<Rightarrow> nat \<Rightarrow> 8 word" where
  "load_byte rdi offset sz j =
     (let i = word_of_nat (4096 * (j div 4096)) in rdi (offset + i) (load_chunk sz i) ! (j mod 4096))"

definition load_post :: "reader \<Rightarrow> 32 word \<Rightarrow> kernel \<Rightarrow> 32 word list \<Rightarrow> nat \<Rightarrow> 32 word \<Rightarrow> 32 word \<Rightarrow> nat \<Rightarrow> int \<Rightarrow> kernel \<Rightarrow> bool" where
  "load_post rdi d s ps addr offset sz i r s' \<longleftrightarrow>
     user_ok s' d ps \<and> changes s s' (frames (k_mem s) d 0 NUSER) \<and> frames (k_mem s') d 0 NUSER = frames (k_mem s) d 0 NUSER \<and>
     (\<forall>pn<1048576. vmap (k_mem s') d pn = vmap (k_mem s) d pn) \<and>
     (r = -1 \<and> (\<exists>i. i < sz \<and> length (rdi (offset + i) (load_chunk sz i)) \<noteq> load_chunk sz i) \<or>
      r = 0 \<and> (\<forall>a. a div 4096 < NUSER \<longrightarrow> vmap (k_mem s) d (a div 4096) \<noteq> None \<longrightarrow>
        ubyte (k_mem s') d a = (if addr + i \<le> a \<and> a < addr + unat sz then load_byte rdi offset sz (a - addr) else ubyte (k_mem s) d a)))"

lemma load_chunk_eq: "i < sz \<Longrightarrow> load_chunk sz i = min 4096 (unat sz - unat i)"
  using unat_sub [OF less_imp_le, of i sz] by (simp add: load_chunk_def PGSIZE_def word_less_nat_alt min_def)

lemma load_byte_page:
  assumes "unat i = 4096 * j" and "4096 * j \<le> b" and "b < 4096 * j + 4096"
  shows "load_byte rdi offset sz b = rdi (offset + i) (load_chunk sz i) ! (b - 4096 * j)"
proof -
  have "b div 4096 = j" using assms(2,3) by (intro div_nat_eqI) auto
  moreover have "b mod 4096 = b - 4096 * j" using calculation by (metis minus_mult_div_eq_mod)
  moreover have "word_of_nat (4096 * j) = i" using assms(1) by (metis of_nat_unat ucast_id)
  ultimately show ?thesis by (simp add: load_byte_def)
qed

lemma load_post_step:
  assumes i: "unat i = 4096 * j" "i < sz" and i': "unat i' = unat i + 4096" and addr: "addr = 4096 * k"
    and n: "length bs = load_chunk sz i" "bs = rdi (offset + i) (load_chunk sz i)"
    and s1: "changes s s1 (frames (k_mem s) d 0 NUSER)" "\<And>pn. pn < 1048576 \<Longrightarrow> vmap (k_mem s1) d pn = vmap (k_mem s) d pn"
      "frames (k_mem s1) d 0 NUSER = frames (k_mem s) d 0 NUSER"
    and b: "\<And>a. a div 4096 < NUSER \<Longrightarrow> vmap (k_mem s) d (a div 4096) \<noteq> None \<Longrightarrow> ubyte (k_mem s1) d a =
       (if 4096 * (k + j) + 0 \<le> a \<and> a < 4096 * (k + j) + 0 + length bs then bs ! (a - (4096 * (k + j) + 0)) else ubyte (k_mem s) d a)"
    and post: "load_post rdi d s1 ps addr offset sz (unat i') r s'"
  shows "load_post rdi d s ps addr offset sz (unat i) r s'"
proof -
  have p: "user_ok s' d ps" "changes s1 s' (frames (k_mem s1) d 0 NUSER)" "frames (k_mem s') d 0 NUSER = frames (k_mem s1) d 0 NUSER"
    "\<And>pn. pn < 1048576 \<Longrightarrow> vmap (k_mem s') d pn = vmap (k_mem s1) d pn"
    and pb: "r = -1 \<and> (\<exists>i. i < sz \<and> length (rdi (offset + i) (load_chunk sz i)) \<noteq> load_chunk sz i) \<or> r = 0 \<and> (\<forall>a. a div 4096 < NUSER \<longrightarrow> vmap (k_mem s1) d (a div 4096) \<noteq> None \<longrightarrow>
        ubyte (k_mem s') d a = (if addr + unat i' \<le> a \<and> a < addr + unat sz then load_byte rdi offset sz (a - addr) else ubyte (k_mem s1) d a))"
    using post unfolding load_post_def by blast+
  have lt: "unat i < unat sz" using i(2) by (simp add: word_less_nat_alt)
  have "ubyte (k_mem s') d a = (if addr + unat i \<le> a \<and> a < addr + unat sz then load_byte rdi offset sz (a - addr) else ubyte (k_mem s) d a)"
    if r0: "r = 0" and a: "a div 4096 < NUSER" "vmap (k_mem s) d (a div 4096) \<noteq> None" for a
  proof -
    have "vmap (k_mem s1) d (a div 4096) \<noteq> None" using s1(2) [of "a div 4096"] a by simp
    then have 2: "ubyte (k_mem s') d a = (if addr + unat i' \<le> a \<and> a < addr + unat sz then load_byte rdi offset sz (a - addr) else ubyte (k_mem s1) d a)"
      using pb r0 a(1) by simp
    have in1: "bs ! (a - 4096 * (k + j)) = load_byte rdi offset sz (a - addr)"
      if "4096 * (k + j) \<le> a" "a < 4096 * (k + j) + 4096"
    proof -
      have "a - 4096 * (k + j) = (a - addr) - 4096 * j" using addr by simp
      then show ?thesis using load_byte_page [OF i(1), of "a - addr" rdi offset sz] that addr n(2) by simp
    qed
    have len: "length bs \<le> 4096" "unat i + length bs \<le> unat sz" "length bs = 4096 \<or> unat i + length bs = unat sz"
      using n(1) load_chunk_eq [OF i(2)] lt by auto
    have at: "4096 * (k + j) = addr + unat i" using addr i(1) by simp
    consider "addr + unat i \<le> a" "a < addr + unat i + length bs" | "addr + unat i' \<le> a" "a < addr + unat sz"
      | "\<not> (addr + unat i \<le> a \<and> a < addr + unat sz)" using len i' by linarith
    then show ?thesis
    proof cases
      case 1
      then show ?thesis using 2 b [OF a] in1 len i' unfolding at by simp
    next
      case 3
      then have "\<not> (addr + unat i' \<le> a \<and> a < addr + unat sz)" "\<not> (addr + unat i + 0 \<le> a \<and> a < addr + unat i + 0 + length bs)"
        using len i' by auto
      then show ?thesis using 2 b [OF a] 3 unfolding at by (simp only: if_False)
    qed (use 2 i' in simp)
  qed
  moreover have "changes s s' (frames (k_mem s) d 0 NUSER)" using changes_trans [OF s1(1) p(2)] s1(3) by simp
  ultimately show ?thesis using p(1,3,4) s1(2,3) pb unfolding load_post_def by auto
qed

lemma loaduvm_loop_ok:
  assumes rdi: "\<And>off n. length (rdi off n) \<le> n" and addr: "unat addr = 4096 * k" and sz: "unat addr + unat sz \<le> 0x80000000"
    and "user_ok s d ps" and "unat i = 4096 * j" and "unat i < unat sz + 4096"
    and "\<And>pn. k \<le> pn \<Longrightarrow> 4096 * pn < unat addr + unat sz \<Longrightarrow> vmap (k_mem s) d pn \<noteq> None"
  shows "wpk (loaduvm_loop rdi d addr offset sz i) (load_post rdi d s ps (unat addr) offset sz (unat i)) s"
  using assms(4-)
proof (induction "unat sz - unat i" arbitrary: s i j rule: less_induct)
  case less
  show ?case
  proof (cases "i < sz")
    case False
    then have "unat sz \<le> unat i" by (simp add: word_less_nat_alt)
    then have "load_post rdi d s ps (unat addr) offset sz (unat i) 0 s"
      using less.prems(1) by (auto simp: load_post_def)
    then show ?thesis using False by (subst loaduvm_loop_unfold) simp
  next
    case True
    then have lt: "unat i < unat sz" by (simp add: word_less_nat_alt)
    let ?bs = "rdi (offset + i) (load_chunk sz i)" and ?i' = "i + word_of_nat PGSIZE"
    have u: "unat (addr + i) = 4096 * (k + j)"
      using addr less.prems(2) sz lt by (subst unat_add_lem [THEN iffD1]) auto
    have pn: "pno (addr + i) = k + j" "k + j < NUSER" using u addr less.prems(2) sz lt by auto
    obtain e where e: "vmap (k_mem s) d (k + j) = Some e"
      using less.prems(4) [of "k + j"] addr less.prems(2) lt by auto
    have i': "unat ?i' = unat i + 4096" using lt sz by (subst unat_next_page) auto
    have ch: "load_chunk sz i \<le> 4096" using load_chunk_eq [OF True] by simp
    then have fits: "0 + length ?bs \<le> 4096" "length ?bs \<le> 4096" using rdi [of "offset + i" "load_chunk sz i"] by auto
    define s1 where "s1 = s\<lparr>k_mem := write_bytes (k_mem s) (unat (table e) + 0) ?bs\<rparr>"
    note w = write_user [OF less.prems(1) pn(2) e fits(1) s1_def]
    have "wpk (if length ?bs \<noteq> load_chunk sz i then retK (-1) else loaduvm_loop rdi d addr offset sz ?i')
        (load_post rdi d s ps (unat addr) offset sz (unat i)) s1"
    proof (cases "length ?bs = load_chunk sz i")
      case False
      then show ?thesis using w(1-4) True by (auto simp: load_post_def)
    next
      case full: True
      have "wpk (loaduvm_loop rdi d addr offset sz ?i') (load_post rdi d s1 ps (unat addr) offset sz (unat ?i')) s1"
      proof (rule less.hyps [OF _ w(1)])
        show "unat sz - unat ?i' < unat sz - unat i" using i' lt by simp
        show "unat ?i' = 4096 * Suc j" using i' less.prems(2) by simp
        show "unat ?i' < unat sz + 4096" using i' lt by simp
        show "vmap (k_mem s1) d pn \<noteq> None" if "k \<le> pn" "4096 * pn < unat addr + unat sz" for pn
          using less.prems(4) [OF that] w(2) [of pn] that(2) sz by simp
      qed
      then show ?thesis
        using full by (auto elim!: wpk_mono intro: load_post_step [where rdi = rdi and offset = offset, OF less.prems(2) True i' addr full refl w(3,2,4,5)])
    qed
    then have "wpk (kcopyin (table e) ?bs) (\<lambda>_. wpk (if length ?bs \<noteq> load_chunk sz i then retK (-1)
        else loaduvm_loop rdi d addr offset sz ?i') (load_post rdi d s ps (unat addr) offset sz (unat i))) s"
      unfolding s1_def by (rule wpk_copy_frame [OF less.prems(1) pn(2) e fits(2)])
    then have body: "wpk (bindK (kcopyin (P2V (PTE_ADDR e)) ?bs) (\<lambda>_. if length ?bs \<noteq> load_chunk sz i then retK (-1)
        else loaduvm_loop rdi d addr offset sz ?i')) (load_post rdi d s ps (unat addr) offset sz (unat i)) s"
      by (simp only: wpk_bind table_def)
    have ve: "vmap (k_mem s) d (pno (addr + i)) = Some e" using e pn(1) by simp
    show ?thesis unfolding loaduvm_loop_unfold [of rdi d addr offset sz i] if_P [OF True]
      by (rule wpk_find_slot [OF less.prems(1) ve]) (rule body)
  qed
qed

section \<open>Building the image\<close>







section \<open>The stack\<close>












section \<open>Properties\<close>



text \<open>A file as \<^verbatim>\<open>readi\<close> reads it: what there is of the bytes that are asked for.\<close>

definition file_reader :: "8 word list \<Rightarrow> reader" where
  "file_reader file off n = take n (drop (unat off) file)"

definition ex_elf :: "8 word list" where
  "ex_elf = bytes32 ELF_MAGIC @ replicate 48 0"


text \<open>
  \<^verbatim>\<open>loaduvm\<close> of a part of a file into mapped pages returns 0; the bytes from the address on are then
  those of the file, and all other bytes of the user are as before.
\<close>

theorem loaduvm_loads:
  assumes ok: "user_ok s d ps" and addr: "unat addr mod PGSIZE = 0"
    and sz: "unat addr + unat sz \<le> unat KERNBASE" "unat offset + unat sz \<le> length file" "length file < 2 ^ 32"
    and pages: "\<And>pn. pno addr \<le> pn \<Longrightarrow> 4096 * pn < unat addr + unat sz \<Longrightarrow> vmap (k_mem s) d pn \<noteq> None"
  shows "wpk (loaduvm (file_reader file) d addr offset sz) (\<lambda>r s'. r = 0 \<and> user_ok s' d ps \<and>
    (\<forall>a. a div 4096 < NUSER \<longrightarrow> vmap (k_mem s) d (a div 4096) \<noteq> None \<longrightarrow> ubyte (k_mem s') d a =
       (if unat addr \<le> a \<and> a < unat addr + unat sz then file ! (unat offset + (a - unat addr)) else ubyte (k_mem s) d a))) s"
proof -
  let ?R = "file_reader file"
  obtain k where k: "unat addr = 4096 * k" using addr by (auto simp: PGSIZE_def mod_eq_0_iff_dvd elim!: dvdE)
  have off: "unat (offset + i) = unat offset + unat i" if "i < sz" for i
    using that sz(2,3) by (subst unat_add_lem [THEN iffD1]) (auto simp: word_less_nat_alt)
  have full: "length (?R (offset + i) (load_chunk sz i)) = load_chunk sz i" if "i < sz" for i
    using that off [OF that] load_chunk_eq [OF that] sz(2) by (simp add: file_reader_def word_less_nat_alt)
  have byte: "load_byte ?R offset sz j = file ! (unat offset + j)" if j: "j < unat sz" for j
  proof -
    let ?i = "word_of_nat (4096 * (j div 4096)) :: 32 word"
    have le: "4096 * (j div 4096) \<le> j" by (rule times_div_less_eq_dividend)
    then have "4096 * (j div 4096) < 2 ^ 32" using j unsigned_less [of sz, where ?'a = nat] by simp
    then have ui: "unat ?i = 4096 * (j div 4096)" by (rule unat_small)
    then have lt: "?i < sz" using le j by (simp add: word_less_nat_alt)
    have eq: "4096 * (j div 4096) + j mod 4096 = j" by (rule mult_div_mod_eq)
    then have "j mod 4096 < unat sz - 4096 * (j div 4096)" using j by linarith
    then have m: "j mod 4096 < load_chunk sz ?i" unfolding load_chunk_eq [OF lt] ui by simp
    have "load_byte ?R offset sz j = ?R (offset + ?i) (load_chunk sz ?i) ! (j mod 4096)" by (simp add: load_byte_def Let_def)
    also have "\<dots> = drop (unat (offset + ?i)) file ! (j mod 4096)" unfolding file_reader_def by (rule nth_take [OF m])
    also have "\<dots> = file ! (unat (offset + ?i) + j mod 4096)" using off [OF lt] ui le j sz(2) by (intro nth_drop) simp
    also have "unat (offset + ?i) + j mod 4096 = unat offset + j" using off [OF lt] ui eq by simp
    finally show ?thesis .
  qed
  have "wpk (loaduvm_loop ?R d addr offset sz 0) (load_post ?R d s ps (unat addr) offset sz (unat (0 :: 32 word))) s"
    by (rule loaduvm_loop_ok [OF _ k _ ok, where j = 0]) (use sz(1) pages k in \<open>auto simp: file_reader_def KERNBASE_def\<close>)
  then have "wpk (loaduvm_loop ?R d addr offset sz 0) (\<lambda>r s'. r = 0 \<and> user_ok s' d ps \<and>
    (\<forall>a. a div 4096 < NUSER \<longrightarrow> vmap (k_mem s) d (a div 4096) \<noteq> None \<longrightarrow> ubyte (k_mem s') d a =
       (if unat addr \<le> a \<and> a < unat addr + unat sz then file ! (unat offset + (a - unat addr)) else ubyte (k_mem s) d a))) s"
    by (rule wpk_mono) (use full byte in \<open>auto simp: load_post_def\<close>)
  then show ?thesis using addr by (simp add: loaduvm_def)
qed

theorem loaduvm_loads_witness:
  "wpk (loaduvm (file_reader ex_elf) 0x80116000 0 0 4) (\<lambda>r s'. r = 0 \<and> user_ok s' 0x80116000 [0x80115000] \<and>
     ubyte (k_mem s') 0x80116000 1 = 0x45) ex_proc"
proof -
  have pages: "vmap (k_mem ex_proc) 0x80116000 pn \<noteq> None" if "4096 * pn < unat (0 :: 32 word) + unat (4 :: 32 word)" for pn
    using that ex_proc_entries(2) [of pn] by (simp add: ex_proc_def)
  have "wpk (loaduvm (file_reader ex_elf) 0x80116000 0 0 4) (\<lambda>r s'. r = 0 \<and> user_ok s' 0x80116000 [0x80115000] \<and>
    (\<forall>a. a div 4096 < NUSER \<longrightarrow> vmap (k_mem ex_proc) 0x80116000 (a div 4096) \<noteq> None \<longrightarrow> ubyte (k_mem s') 0x80116000 a =
       (if unat (0 :: 32 word) \<le> a \<and> a < unat (0 :: 32 word) + unat (4 :: 32 word)
        then ex_elf ! (unat (0 :: 32 word) + (a - unat (0 :: 32 word))) else ubyte (k_mem ex_proc) 0x80116000 a))) ex_proc"
    by (rule loaduvm_loads [OF ex_proc_user_ok]) (use pages in \<open>auto simp: ex_elf_def bytes32_def KERNBASE_def\<close>)
  moreover have "ex_elf ! 1 = 0x45" by (simp add: ex_elf_def bytes32_def ELF_MAGIC_def)
  moreover have "vmap (k_mem ex_proc) 0x80116000 0 \<noteq> None" using pages [of 0] by simp
  ultimately show ?thesis by (elim wpk_mono) (auto dest!: spec [of _ "1 :: nat"])
qed

end
