(* ===== verification/Spec2Isabelle.thy ===== *)
theory Spec2Isabelle
  imports Quicksort Shell Sysfile NufsProps OptMalloc Hwx Proc Tsort LengthSort Exec
begin

text \<open>
  A verification development for the C programs of a systems course: the assignments
  \<^verbatim>\<open>src/hw03\<close> to \<^verbatim>\<open>src/hw10\<close> and the challenges \<^verbatim>\<open>src/chal1\<close> and \<^verbatim>\<open>src/chal2\<close>. The programs are
  independent of each other, except that the shell of \<^verbatim>\<open>chal1\<close> continues the tokenizer of \<^verbatim>\<open>hw05\<close>
  and the vector of \<^verbatim>\<open>hw04\<close>, and \<^verbatim>\<open>hwx_malloc.c\<close> of \<^verbatim>\<open>chal2\<close> continues the allocator of \<^verbatim>\<open>hw08\<close>. This
  theory collects the component theories; it has no definitions of its own.

  \<^bold>\<open>How the code is modelled.\<close> A C struct is a record, an enum or a tagged value a datatype, and a
  function is a function of the same name that takes and returns the state it changes. A run that
  stops without returning is a value of \<open>c_error\<close> in the theory \<^verbatim>\<open>Prelude\<close>: a failed assertion, a
  kernel panic, an access outside an object, a null pointer, a value that was never computed, a
  process that waits for itself. Loops over an index are functions with a termination proof. Loops
  that follow pointers, or whose index may wrap around, are partial functions with the result
  \<open>None\<close> for a run that never ends; a theorem about such a function states that it returns. No
  function is bounded by fuel. Machine integers are words where the code can wrap, and integers
  elsewhere, with the conversion (\<open>as_int\<close>, \<open>add64\<close>) written out. Memory that the code treats as bytes
  is a function from addresses to bytes with little-endian cells of 16, 32 and 64 bits. Concurrency
  is a step relation: each step is what one thread, process or system call does between two points
  where another one may run, and the theorems hold for every reachable state.

  \<^bold>\<open>The theories and the code.\<close>

  \<^item> \<^verbatim>\<open>Prelude\<close>: results of C code, checked array accesses, \<^verbatim>\<open>fgets\<close>, the byte memory, bitmaps.

  \<^item> \<^verbatim>\<open>Quicksort\<close>: \<^verbatim>\<open>hw03/quicksort.c\<close>. The sort returns, sorts its segment and touches nothing else;
    the main program prints the sorted input or reports that it is malformed.

  \<^item> \<^verbatim>\<open>Svec\<close>, \<^verbatim>\<open>Tokens\<close>, \<^verbatim>\<open>Astree\<close>, \<^verbatim>\<open>Shell\<close>: the shell of \<^verbatim>\<open>chal1\<close> (\<^verbatim>\<open>svec.c\<close>, \<^verbatim>\<open>tokens.c\<close>, \<^verbatim>\<open>astree.c\<close>,
    \<^verbatim>\<open>implement.c\<close>, \<^verbatim>\<open>nush.c\<close>), and the vector and the tokenizer of \<^verbatim>\<open>hw05\<close> and \<^verbatim>\<open>hw04\<close>. The locale
    \<open>string_vector\<close> is the interface of the vector. The tokenizer computes the tokens of a lexical
    grammar, the vector runs any sequence of its operations as a list does, the parser gives the unique tree
    that respects the precedences (a table of its own, in the order documented at the parser), the
    executor refines a direct semantics of trees without \<^verbatim>\<open>>\<close> and \<^verbatim>\<open>&\<close> (processes as continuations, with
    the open descriptors as state), and the main loop executes a script without them line by line. The
    input that the shell reads is not shared with the commands it starts, and there are no variables.

  \<^item> \<^verbatim>\<open>LengthSort\<close>: \<^verbatim>\<open>hw04/length-sort.c\<close>. The gnome sort ends with the stable sort by length.

  \<^item> \<^verbatim>\<open>FloatVec\<close>, \<^verbatim>\<open>Barrier\<close>, \<^verbatim>\<open>Tsort\<close>: the sample sort of \<^verbatim>\<open>hw07\<close> (\<^verbatim>\<open>float_vec.c\<close>, \<^verbatim>\<open>barrier.c\<close>, \<^verbatim>\<open>tsort.c\<close>,
    \<^verbatim>\<open>tools/check-sorted.c\<close>) with IEEE comparisons on bit patterns, and the semaphore barrier of \<^verbatim>\<open>hw06\<close>.
    The locale \<open>barrier\<close> is the contract of a barrier; both barriers interpret it, and the sort is
    verified inside it. In every interleaving with finitely many spurious wake-ups the sort ends, with the
    sorted array if no float is negative, infinite or a NaN.

  \<^item> \<^verbatim>\<open>Heap\<close>, \<^verbatim>\<open>OptMalloc\<close>, \<^verbatim>\<open>Hmalloc\<close>, \<^verbatim>\<open>HmallocProps\<close>, \<^verbatim>\<open>Hwx\<close>: the three allocators, \<^verbatim>\<open>chal2/opt_malloc.c\<close>,
    \<^verbatim>\<open>hw08/hmalloc.c\<close> and \<^verbatim>\<open>chal2/hwx_malloc.c\<close>, over mapped pages whose placement is a parameter. The
    locales \<open>block_pool\<close> and \<open>cell_pool\<close> are the contract with a client: blocks in use are large
    enough and do not overlap, whatever the sequence of calls, for requests of the sizes that each property
    names (adding the header must not wrap, and \<^verbatim>\<open>hmalloc\<close> fails from 4064 to 4087 bytes). \<^verbatim>\<open>hmalloc\<close>
    refines first fit with splitting and merging on a list.

  \<^item> \<^verbatim>\<open>Xstring\<close>, \<^verbatim>\<open>Pipe\<close>, \<^verbatim>\<open>Proc\<close>, \<^verbatim>\<open>Kalloc\<close>, \<^verbatim>\<open>Vm\<close>, \<^verbatim>\<open>Uvm\<close>, \<^verbatim>\<open>Copyvm\<close>, \<^verbatim>\<open>Image\<close>, \<^verbatim>\<open>Exec\<close>: the kernel of \<^verbatim>\<open>hw09\<close> (xv6): \<^verbatim>\<open>string.c\<close> and \<^verbatim>\<open>ulib.c\<close>, \<^verbatim>\<open>pipe.c\<close>,
    \<^verbatim>\<open>proc.c\<close>, \<^verbatim>\<open>kalloc.c\<close>, \<^verbatim>\<open>vm.c\<close>, \<^verbatim>\<open>exec.c\<close>. The processes are a step relation with an invariant of the process table,
    up to the overflow of the process counter. Pipes lose no byte; with sleeping and waking on their two
    channels in the state, no wake-up is missed and readers and writers do not deadlock, but for one path
    of a killed writer. The locale \<open>page_allocator\<close> is what the
    page-table code relies on. An address space is the map from page numbers to entries that its tables
    define (\<open>vmap\<close>), with the invariant that tables and frames are pages of their own (\<open>user_ok\<close>). The
    operations of \<^verbatim>\<open>vm.c\<close> change exactly the pages they should and lose no page, also when memory runs out
    in the middle; a copied address space shares no page with its original; \<^verbatim>\<open>growproc\<close> keeps the recorded
    size and the mapped pages together, but for the decrement by the whole size; \<^verbatim>\<open>exec\<close> replaces an image completely or not at
    all.

  \<^item> \<^verbatim>\<open>Bio\<close>, \<^verbatim>\<open>Log\<close>, \<^verbatim>\<open>Txn\<close>, \<^verbatim>\<open>Blocks\<close>, \<^verbatim>\<open>Inode\<close>, \<^verbatim>\<open>Files\<close>: the file system of xv6 from the disk upwards
    (\<^verbatim>\<open>bio.c\<close>, \<^verbatim>\<open>memide.c\<close>, \<^verbatim>\<open>log.c\<close>, \<^verbatim>\<open>fs.c\<close>). The cache is coherent, a commit is atomic with respect to
    a crash at any write, recovery may itself be interrupted, the reservation of log space is
    enough for calls within their limit, blocks are allocated first fit, and reading, writing and looking up in directories do
    what the abstract file says. Above the log the code is verified with weakest preconditions (\<open>wp\<close>).

  \<^item> \<^verbatim>\<open>Fdesc\<close>, \<^verbatim>\<open>Sysfile\<close>: the open files and the file system calls of xv6 (\<^verbatim>\<open>file.c\<close>, \<^verbatim>\<open>sysfile.c\<close>, the
    argument fetching of \<^verbatim>\<open>syscall.c\<close> and \<^verbatim>\<open>pipealloc\<close>), on a state (\<open>ks\<close>) of the file system, the table of
    open files, the pipes, and the descriptors and memory of one process. \<^verbatim>\<open>filewrite\<close> is verified across
    file, inode, cache and log, down to the contents of the disk; the reference counts agree with the
    descriptors after any sequence of calls (\<open>run_calls\<close>); arguments lie in the memory of the process.
    A call runs alone: waiting for another call is an error value.

  \<^item> \<^verbatim>\<open>Nufs\<close>, \<^verbatim>\<open>NufsProps\<close>: the FUSE file system of \<^verbatim>\<open>hw10\<close>, on the bytes of its image. Directories are maps
    on names of 1 to 59 bytes.

  \<^bold>\<open>What the properties show.\<close> Each is a theorem after a text block that states it in words. Most are
  correctness statements. Where the code does not do what it means to, the theorem says what it
  does instead: an output redirection runs the rest of the line twice, a read at the end of a file
  stops the kernel, an opened file inherits the byte counters of another one, \<^verbatim>\<open>growproc\<close> by minus the
  whole size frees the pages but keeps the size. Further theorems of this kind, on lost negative floats,
  on \<^verbatim>\<open>hfree\<close> and on the log of the disk that \<^verbatim>\<open>mkfs\<close> builds, are in their component theories.

  \<^bold>\<open>Assumptions.\<close> Memory allocation by the C library succeeds. The sizes of string vectors are unbounded
  integers; their arrays have at most \<open>max 2 (2 * n)\<close> slots for \<open>n\<close> strings, so \<^verbatim>\<open>int\<close> agrees below \<open>2 ^ 30\<close>
  strings. The unlocked parts of \<^verbatim>\<open>fork\<close> and \<^verbatim>\<open>exit\<close> are one step with the locked part that
  follows them. The placement of pages by \<^verbatim>\<open>mmap\<close>, the
  values of \<^verbatim>\<open>random\<close>, the programs that the shell starts and the contents of files are arguments.
  Threads see each other's writes in the order of the steps. Linker symbols of the kernel are
  components of its state.

  \<^bold>\<open>Not modelled.\<close> Device drivers, boot code, trap entry, assembly, the test programs and generators,
  the unfinished hash map of \<^verbatim>\<open>hw04\<close>, the forked sample sort of \<^verbatim>\<open>hw06\<close> (its result is undefined, see the
  findings), the command-line tool of \<^verbatim>\<open>hw10\<close>, and of xv6 also the table of handlers of \<^verbatim>\<open>syscall.c\<close>, \<^verbatim>\<open>mkfs.c\<close> and the user programs:
  input and output or thin dispatching code around the parts that are modelled.
\<close>

end
